(* ===== verification/Dx_Prelude.thy ===== *)
theory Dx_Prelude
  imports Main "HOL-Library.Word"
begin

text \<open>
  The prelude of the development: names for the machine types of \<open>include/DXTypes.h\<close>, the
  error codes of \<open>include/DXErrorCodes.h\<close> that the modelled code sets, the shape of a fallible
  C routine that works on a context (\<open>io\<close>), the C idiom \<open>CHECKED_CALL\<close>, raw memory accesses
  with their bounds, and the generic lemmas on words and lists that the components share.

  A C function that returns \<open>true\<close>/\<open>false\<close> and delivers a value through an \<open>OUT\<close> pointer is a
  function from the context to a pair: \<open>Inr v\<close> (success, with the value) or \<open>Inl e\<close> (failure,
  with the code given to \<open>dx_set_error_code\<close>), and the context as the call leaves it, which a
  failing call may have changed too.  \<open>dx_ec_success\<close> stands for a call that returns \<open>false\<close> without
  setting a code.  The \<open>OUT\<close> pointers are this result and so never null.
  \<open>UB\<close> is no error code of the program: it marks an access outside an allocated block (undefined
  behaviour in C), so that memory safety is a theorem instead of an assumption.
\<close>

unbundle bit_operations_syntax

section \<open>Machine types\<close>

type_synonym byte = "8 word"
type_synonym short16 = "16 word"
type_synonym int32 = "32 word"
type_synonym long64 = "64 word"
type_synonym dxf_char = "16 word"

abbreviation INT_MAX :: int where
  "INT_MAX \<equiv> 2147483647"

section \<open>Errors and fallible operations\<close>

datatype dx_error =
    UB
  | dx_ec_invalid_func_param
  | dx_ec_invalid_func_param_internal
  | dx_ec_internal_assert_violation
  | dx_mec_insufficient_memory
  | dx_bioec_buffer_overflow
  | dx_bioec_buffer_not_initialized
  | dx_bioec_index_out_of_bounds
  | dx_bioec_buffer_underflow
  | dx_utfec_bad_utf_data_format
  | dx_utfec_bad_utf_data_format_server
  | dx_pcec_reserved_bit_sequence
  | dx_pcec_invalid_symbol_length
  | dx_pcec_invalid_event_flag
  | dx_ssec_invalid_event_id
  | dx_ssec_snapshot_exist
  | dx_ssec_invalid_snapshot_id
  | dx_ssec_invalid_listener
  | dx_pec_message_incomplete
  | dx_pec_invalid_message_length
  | dx_pec_unexpected_message_type
  | dx_pec_server_message_not_supported
  | dx_pec_describe_protocol_message_corrupted
  | dx_pec_authentication_error
  | dx_pec_unexpected_message_type_internal
  | dx_pec_record_info_corrupted
  | dx_pec_descr_record_field_info_corrupted
  | dx_pec_record_field_type_not_supported
  | dx_pec_record_not_supported
  | dx_pec_record_description_not_received
  | dx_pec_invalid_symbol
  | dx_sec_not_enough_memory
  | dx_esec_invalid_event_type
  | dx_esec_invalid_subscr_id
  | dx_esec_invalid_listener
  | dx_esec_invalid_symbol_name
  | dx_cec_connection_context_not_initialized
  | dx_csdec_protocol_error
  | dx_csdec_unsupported_version
  | dx_ceec_invalid_candle_period_value
  | dx_nec_invalid_port_value
  | dx_nec_invalid_function_arg
  | dx_nec_unknown_codec
  | dx_ec_success

type_synonym ('s, 'a) io = "'s \<Rightarrow> (dx_error + 'a) \<times> 's"

definition return :: "'a \<Rightarrow> ('s, 'a) io" where
  "return x = (\<lambda>s. (Inr x, s))"

definition fail :: "dx_error \<Rightarrow> ('s, 'a) io" where
  "fail e = (\<lambda>s. (Inl e, s))"

definition checked :: "('s, 'a) io \<Rightarrow> ('a \<Rightarrow> ('s, 'b) io) \<Rightarrow> ('s, 'b) io" where
  "checked m k = (\<lambda>s. case m s of (Inl e, s') \<Rightarrow> (Inl e, s') | (Inr x, s') \<Rightarrow> k x s')"

named_theorems io_simps \<open>evaluation of fallible operations\<close>

lemma return_apply [io_simps]: "return x s = (Inr x, s)"
  by (simp add: return_def)

lemma fail_apply [io_simps]: "fail e s = (Inl e, s)"
  by (simp add: fail_def)

lemma checked_apply:
  "checked m k s = (case m s of (Inl e, s') \<Rightarrow> (Inl e, s') | (Inr x, s') \<Rightarrow> k x s')"
  by (simp add: checked_def)

lemma checked_Inr [io_simps]: "m s = (Inr x, s') \<Longrightarrow> checked m k s = k x s'"
  by (simp add: checked_def)

lemma checked_Inl [io_simps]: "m s = (Inl e, s') \<Longrightarrow> checked m k s = (Inl e, s')"
  by (simp add: checked_def)

lemma checked_return [io_simps]: "checked (return x) k = k x"
  by (simp add: checked_def return_def)

lemma checked_fail [io_simps]: "checked (fail e) k = fail e"
  by (simp add: checked_def fail_def)

lemma checked_assoc: "checked (checked m k) h = checked m (\<lambda>x. checked (k x) h)"
  by (auto simp: checked_def fun_eq_iff split: prod.splits sum.splits)

section \<open>Lists as blocks of memory\<close>

text \<open>\<open>memcpy\<close> and \<open>memmove\<close> of \<open>n\<close> elements into \<open>dst\<close>: undefined outside the two blocks.\<close>

definition mem_copy :: "'a list \<Rightarrow> int \<Rightarrow> 'a list \<Rightarrow> int \<Rightarrow> int \<Rightarrow> 'a list option" where
  "mem_copy dst dpos src spos n =
     (if 0 \<le> dpos \<and> 0 \<le> spos \<and> 0 \<le> n
         \<and> dpos + n \<le> int (length dst) \<and> spos + n \<le> int (length src)
      then Some (take (nat dpos) dst @ take (nat n) (drop (nat spos) src)
                 @ drop (nat (dpos + n)) dst)
      else None)"

lemma length_mem_copy: "mem_copy dst dpos src spos n = Some r \<Longrightarrow> length r = length dst"
  by (auto simp: mem_copy_def nat_add_distrib split: if_splits)

lemma mem_copy_nat:
  "mem_copy dst (int d) src (int s) (int n) =
     (if d + n \<le> length dst \<and> s + n \<le> length src
      then Some (take d dst @ take n (drop s src) @ drop (d + n) dst) else None)"
  by (auto simp: mem_copy_def nat_add_distrib)

text \<open>One assignment \<open>block[i] = v\<close>.\<close>

definition mem_store :: "'a list \<Rightarrow> int \<Rightarrow> 'a \<Rightarrow> 'a list option" where
  "mem_store block i v =
     (if 0 \<le> i \<and> i < int (length block) then Some (block[nat i := v]) else None)"

lemma length_mem_store: "mem_store block i v = Some r \<Longrightarrow> length r = length block"
  by (auto simp: mem_store_def split: if_splits)

lemma take_update_snoc: "n < length xs \<Longrightarrow> take (Suc n) (xs[n := x]) = take n xs @ [x]"
  by (simp add: take_Suc_conv_app_nth)

lemma drop_eq_Cons: "drop n xs = y # ys \<Longrightarrow> n < length xs \<and> xs ! n = y \<and> drop (Suc n) xs = ys"
proof -
  assume d: "drop n xs = y # ys"
  then have n: "n < length xs"
    by (metis drop_all leI list.distinct(1))
  with d have "xs ! n # drop (Suc n) xs = y # ys"
    by (simp add: Cons_nth_drop_Suc)
  with n show ?thesis by simp
qed

section \<open>Words\<close>

text \<open>A value of at most \<open>k\<close> significant bits repeats its sign bit from bit \<open>k\<close> on.\<close>

lemma bit_sint_range:
  fixes v :: "'a::len word"
  assumes "- (2 ^ k) \<le> sint v" "sint v < 2 ^ k" "k \<le> n" "n < LENGTH('a)"
  shows "bit v n = (sint v < 0)"
proof -
  have "bit v n = bit (sint v) n"
    using assms(4) by (simp add: bit_sint_iff)
  also have "\<dots> = (sint v < 0)"
  proof -
    have p: "(2::int) ^ k \<le> 2 ^ n"
      using assms(3) by (simp add: power_increasing)
    show ?thesis
    proof (cases "sint v < 0")
      case True
      then have "(sint v + 2 ^ n) div 2 ^ n = 0"
        using assms(1) p by (intro div_pos_pos_trivial) linarith+
      moreover have "(sint v + 2 ^ n) div 2 ^ n = sint v div 2 ^ n + 1"
        by (rule div_add_self2) simp
      ultimately have "sint v div 2 ^ n = - 1" by linarith
      with True show ?thesis by (simp add: bit_iff_odd)
    next
      case False
      then have "sint v div 2 ^ n = 0"
        using assms(2) p by (intro div_pos_pos_trivial) linarith+
      with False show ?thesis by (simp add: bit_iff_odd)
    qed
  qed
  finally show ?thesis .
qed

lemma uint_eq_sint:
  fixes w :: "'a::len word"
  assumes "0 \<le> sint w"
  shows "uint w = sint w"
proof -
  have "sint w < 2 ^ LENGTH('a)"
    using sint_lt [of w] by (rule order_less_le_trans) (simp add: power_increasing)
  with assms show ?thesis by (simp add: uint_sint take_bit_int_eq_self)
qed

lemma signed_drop_bit_pos:
  fixes w :: "'a::len word"
  assumes "0 \<le> sint w"
  shows "signed_drop_bit n w = drop_bit n w"
proof -
  have "sint (signed_drop_bit n w) = uint (drop_bit n w)"
    by (simp add: sint_signed_drop_bit_eq unsigned_drop_bit_eq take_bit_int_eq_self flip: uint_eq_sint [OF assms])
  moreover have "0 \<le> sint (signed_drop_bit n w)"
    using assms by (simp add: sint_signed_drop_bit_eq)
  ultimately show ?thesis
    using uint_eq_sint [of "signed_drop_bit n w"] by (simp add: word_uint_eq_iff)
qed

text \<open>Equality of words bit by bit, with the positions as literals.\<close>

lemma less_8_cases: "(i::nat) < 8 \<Longrightarrow> i \<in> {0, 1, 2, 3, 4, 5, 6, 7}"
proof -
  assume "i < 8"
  then have "i \<in> set [0..<8]" by simp
  moreover have "[0..<8] = [0, 1, 2, 3, 4, 5, 6, 7]"
    by (simp add: upt_conv_Cons)
  ultimately show ?thesis by (simp only: list.set)
qed

lemma bit8_eqI:
  fixes v w :: byte
  assumes "\<And>i. i \<in> {0, 1, 2, 3, 4, 5, 6, 7} \<Longrightarrow> bit v i = bit w i"
  shows "v = w"
  by (rule bit_word_eqI, rule assms, rule less_8_cases) simp

lemma less_16_cases: "(i::nat) < 16 \<Longrightarrow> i \<in> {0, 1, 2, 3, 4, 5, 6, 7, 8, 9, 10, 11, 12, 13, 14, 15}"
proof -
  assume "i < 16"
  then have "i \<in> set [0..<16]" by simp
  moreover have "[0..<16] = [0, 1, 2, 3, 4, 5, 6, 7, 8, 9, 10, 11, 12, 13, 14, 15]"
    by (simp add: upt_conv_Cons)
  ultimately show ?thesis by (simp only: list.set)
qed

lemma bit16_eqI:
  fixes v w :: short16
  assumes "\<And>i. i \<in> {0, 1, 2, 3, 4, 5, 6, 7, 8, 9, 10, 11, 12, 13, 14, 15} \<Longrightarrow> bit v i = bit w i"
  shows "v = w"
  by (rule bit_word_eqI, rule assms, rule less_16_cases) simp

lemma less_32_cases: "(i::nat) < 32 \<Longrightarrow> i \<in> {0, 1, 2, 3, 4, 5, 6, 7, 8, 9, 10, 11, 12, 13, 14, 15, 16, 17, 18, 19, 20, 21,
    22, 23, 24, 25, 26, 27, 28, 29, 30, 31}"
proof -
  assume "i < 32"
  then have "i \<in> set [0..<32]" by simp
  moreover have "[0..<32] = [0, 1, 2, 3, 4, 5, 6, 7, 8, 9, 10, 11, 12, 13, 14, 15, 16, 17, 18, 19, 20, 21,
    22, 23, 24, 25, 26, 27, 28, 29, 30, 31]"
    by (simp add: upt_conv_Cons)
  ultimately show ?thesis by (simp only: list.set)
qed

lemma bit32_eqI:
  fixes v w :: int32
  assumes "\<And>i. i \<in> {0, 1, 2, 3, 4, 5, 6, 7, 8, 9, 10, 11, 12, 13, 14, 15, 16, 17, 18, 19, 20, 21,
    22, 23, 24, 25, 26, 27, 28, 29, 30, 31} \<Longrightarrow> bit v i = bit w i"
  shows "v = w"
  by (rule bit_word_eqI, rule assms, rule less_32_cases) simp

lemma less_64_cases: "(i::nat) < 64 \<Longrightarrow> i \<in> {0, 1, 2, 3, 4, 5, 6, 7, 8, 9, 10, 11, 12, 13, 14, 15, 16, 17, 18, 19, 20, 21,
    22, 23, 24, 25, 26, 27, 28, 29, 30, 31, 32, 33, 34, 35, 36, 37, 38, 39, 40,
    41, 42, 43, 44, 45, 46, 47, 48, 49, 50, 51, 52, 53, 54, 55, 56, 57, 58, 59,
    60, 61, 62, 63}"
proof -
  assume "i < 64"
  then have "i \<in> set [0..<64]" by simp
  moreover have "[0..<64] = [0, 1, 2, 3, 4, 5, 6, 7, 8, 9, 10, 11, 12, 13, 14, 15, 16, 17, 18, 19, 20, 21,
    22, 23, 24, 25, 26, 27, 28, 29, 30, 31, 32, 33, 34, 35, 36, 37, 38, 39, 40,
    41, 42, 43, 44, 45, 46, 47, 48, 49, 50, 51, 52, 53, 54, 55, 56, 57, 58, 59,
    60, 61, 62, 63]"
    by (simp add: upt_conv_Cons)
  ultimately show ?thesis by (simp only: list.set)
qed

lemma bit64_eqI:
  fixes v w :: long64
  assumes "\<And>i. i \<in> {0, 1, 2, 3, 4, 5, 6, 7, 8, 9, 10, 11, 12, 13, 14, 15, 16, 17, 18, 19, 20, 21,
    22, 23, 24, 25, 26, 27, 28, 29, 30, 31, 32, 33, 34, 35, 36, 37, 38, 39, 40,
    41, 42, 43, 44, 45, 46, 47, 48, 49, 50, 51, 52, 53, 54, 55, 56, 57, 58, 59,
    60, 61, 62, 63} \<Longrightarrow> bit v i = bit w i"
  shows "v = w"
  by (rule bit_word_eqI, rule assms, rule less_64_cases) simp

lemma sign_extend:
  fixes v n :: "'a::len word"
  assumes k: "Suc k < LENGTH('a)"
    and b: "\<And>i. i \<le> k \<Longrightarrow> bit n i = bit v i"
    and v: "- (2 ^ k) \<le> sint v" "sint v < 2 ^ k"
    and j: "j = LENGTH('a) - Suc k"
  shows "signed_drop_bit j (push_bit j n) = v"
proof (rule bit_word_eqI)
  fix i assume i: "i < LENGTH('a)"
  have s: "bit v i = bit v k" if "k \<le> i"
    using bit_sint_range [OF v that i] bit_sint_range [OF v order_refl] k by simp
  have "bit (signed_drop_bit j (push_bit j n)) i = bit n (min i k)"
    using i k j by (auto simp: bit_simps min_def)
  also have "\<dots> = bit v i"
    using b [of "min i k"] s by (auto simp: min_def)
  finally show "bit (signed_drop_bit j (push_bit j n)) i = bit v i" .
qed

lemma uint_less_exp_iff:
  fixes w :: "'a::len word"
  shows "uint w < 2 ^ j \<longleftrightarrow> (\<forall>i\<ge>j. \<not> bit w i)"
proof -
  have "uint w < 2 ^ j \<longleftrightarrow> take_bit j (uint w) = uint w"
    by (simp add: take_bit_int_eq_self_iff)
  also have "\<dots> \<longleftrightarrow> (\<forall>i\<ge>j. \<not> bit w i)"
  proof
    assume t: "take_bit j (uint w) = uint w"
    show "\<forall>i\<ge>j. \<not> bit w i"
    proof (intro allI impI)
      fix i assume "j \<le> i"
      then have "\<not> bit (take_bit j (uint w)) i" by (simp add: bit_take_bit_iff)
      with t show "\<not> bit w i" by (simp add: bit_uint_iff) (use bit_imp_le_length in blast)
    qed
  next
    assume b: "\<forall>i\<ge>j. \<not> bit w i"
    show "take_bit j (uint w) = uint w"
    proof (rule bit_eqI)
      fix i show "bit (take_bit j (uint w)) i = bit (uint w) i"
        using b by (cases "i < j") (auto simp: bit_take_bit_iff bit_uint_iff)
    qed
  qed
  finally show ?thesis .
qed

text \<open>A byte is below \<open>11...10...0\<close> when one of its leading bits is clear.\<close>

lemma byte_below_prefix:
  fixes b :: byte
  shows "uint b < 256 - 2 ^ j \<longleftrightarrow> (\<exists>i\<ge>j. i < 8 \<and> \<not> bit b i)"
proof -
  have n: "NOT b = 255 - b" by (simp add: not_eq_complement)
  have "uint b \<le> uint (255 :: byte)" using uint_lt2p [of b] by simp
  then have "uint (255 - b) = uint (255 :: byte) - uint b" by (simp only: uint_sub_lem)
  with n have "uint (NOT b) = 255 - uint b" by simp
  then have "uint b < 256 - 2 ^ j \<longleftrightarrow> \<not> uint (NOT b) < 2 ^ j" by auto
  also have "\<dots> \<longleftrightarrow> (\<exists>i\<ge>j. i < 8 \<and> \<not> bit b i)"
    by (auto simp: uint_less_exp_iff bit_simps)
  finally show ?thesis .
qed

lemma byte_range:
  fixes b :: byte
  shows "uint b < 0x80 \<longleftrightarrow> \<not> bit b 7"
    "uint b < 0xC0 \<longleftrightarrow> \<not> bit b 7 \<or> \<not> bit b 6"
    "uint b < 0xE0 \<longleftrightarrow> \<not> bit b 7 \<or> \<not> bit b 6 \<or> \<not> bit b 5"
    "uint b < 0xF0 \<longleftrightarrow> \<not> bit b 7 \<or> \<not> bit b 6 \<or> \<not> bit b 5 \<or> \<not> bit b 4"
    "uint b < 0xF8 \<longleftrightarrow> \<not> bit b 7 \<or> \<not> bit b 6 \<or> \<not> bit b 5 \<or> \<not> bit b 4 \<or> \<not> bit b 3"
    "uint b < 0xFC \<longleftrightarrow> \<not> bit b 7 \<or> \<not> bit b 6 \<or> \<not> bit b 5 \<or> \<not> bit b 4 \<or> \<not> bit b 3 \<or> \<not> bit b 2"
    "uint b < 0xFE \<longleftrightarrow> \<not> bit b 7 \<or> \<not> bit b 6 \<or> \<not> bit b 5 \<or> \<not> bit b 4 \<or> \<not> bit b 3 \<or> \<not> bit b 2
       \<or> \<not> bit b 1"
    "uint b < 0xFF \<longleftrightarrow> \<not> bit b 7 \<or> \<not> bit b 6 \<or> \<not> bit b 5 \<or> \<not> bit b 4 \<or> \<not> bit b 3 \<or> \<not> bit b 2
       \<or> \<not> bit b 1 \<or> \<not> bit b 0"
proof -
  have ex: "(\<exists>i\<ge>j. i < 8 \<and> \<not> bit b i) \<longleftrightarrow> (\<exists>i\<in>set [j..<8]. \<not> bit b i)" for j by auto
  note e = byte_below_prefix [of b, unfolded ex]
  show "uint b < 0x80 \<longleftrightarrow> \<not> bit b 7"
    using e [of 7] by auto
  show "uint b < 0xC0 \<longleftrightarrow> \<not> bit b 7 \<or> \<not> bit b 6"
    using e [of 6] by auto
  show "uint b < 0xE0 \<longleftrightarrow> \<not> bit b 7 \<or> \<not> bit b 6 \<or> \<not> bit b 5"
    using e [of 5] by auto
  show "uint b < 0xF0 \<longleftrightarrow> \<not> bit b 7 \<or> \<not> bit b 6 \<or> \<not> bit b 5 \<or> \<not> bit b 4"
    using e [of 4] by auto
  show "uint b < 0xF8 \<longleftrightarrow> \<not> bit b 7 \<or> \<not> bit b 6 \<or> \<not> bit b 5 \<or> \<not> bit b 4 \<or> \<not> bit b 3"
    using e [of 3] by auto
  show "uint b < 0xFC \<longleftrightarrow> \<not> bit b 7 \<or> \<not> bit b 6 \<or> \<not> bit b 5 \<or> \<not> bit b 4 \<or> \<not> bit b 3 \<or> \<not> bit b 2"
    using e [of 2] by auto
  show "uint b < 0xFE \<longleftrightarrow> \<not> bit b 7 \<or> \<not> bit b 6 \<or> \<not> bit b 5 \<or> \<not> bit b 4 \<or> \<not> bit b 3 \<or> \<not> bit b 2 \<or> \<not> bit b 1"
  proof -
    have "set [1..<8] = {1,2,3,4,5,6,7::nat}" by auto
    with e [of 1] show ?thesis by auto
  qed
  show "uint b < 0xFF \<longleftrightarrow> \<not> bit b 7 \<or> \<not> bit b 6 \<or> \<not> bit b 5 \<or> \<not> bit b 4 \<or> \<not> bit b 3 \<or> \<not> bit b 2 \<or> \<not> bit b 1 \<or> \<not> bit b 0"
  proof -
    have "set [0..<8] = {0,1,2,3,4,5,6,7::nat}" by auto
    with e [of 0] show ?thesis by auto
  qed
qed

section \<open>Association lists\<close>

lemma map_of_distinct_update:
  "distinct (map f xs) \<Longrightarrow> i < length xs \<Longrightarrow> f x = f (xs ! i) \<Longrightarrow>
    map_of (map (\<lambda>l. (f l, g l)) (xs[i := x])) = (map_of (map (\<lambda>l. (f l, g l)) xs))(f x \<mapsto> g x)
    \<and> map f (xs[i := x]) = map f xs"
proof (induction xs arbitrary: i)
  case (Cons y ys)
  show ?case
  proof (cases i)
    case (Suc j)
    with Cons have ih: "map_of (map (\<lambda>l. (f l, g l)) (ys[j := x])) = (map_of (map (\<lambda>l. (f l, g l)) ys))(f x \<mapsto> g x)"
      "map f (ys[j := x]) = map f ys" by (simp_all add: fun_upd_def)
    have "f x \<in> f ` set ys" using Suc Cons.prems by simp
    then have "f x \<noteq> f y" using Cons.prems(1) by auto
    then show ?thesis using ih Suc by (auto simp: fun_eq_iff)
  qed (use Cons.prems in \<open>auto simp: fun_eq_iff\<close>)
qed simp

lemma map_of_distinct_delete:
  "distinct (map f xs) \<Longrightarrow> i < length xs \<Longrightarrow>
    map_of (map (\<lambda>l. (f l, g l)) (take i xs @ drop (i + 1) xs)) = (map_of (map (\<lambda>l. (f l, g l)) xs))(f (xs ! i) := None)
    \<and> distinct (map f (take i xs @ drop (i + 1) xs))"
proof (induction xs arbitrary: i)
  case (Cons y ys)
  have n: "f y \<notin> f ` set ys" using Cons.prems(1) by auto
  then have "map_of (map (\<lambda>l. (f l, g l)) ys) (f y) = None"
    by (force simp: map_of_eq_None_iff)
  then show ?case
  proof (cases i)
    case (Suc j)
    with Cons have ih: "map_of (map (\<lambda>l. (f l, g l)) (take j ys @ drop (j + 1) ys)) = (map_of (map (\<lambda>l. (f l, g l)) ys))(f (ys ! j) := None)"
      "distinct (map f (take j ys @ drop (j + 1) ys))" by auto
    have "f (ys ! j) \<in> f ` set ys" using Suc Cons.prems(2) by simp
    then have "f (ys ! j) \<noteq> f y" using n by metis
    moreover have "set (take j ys @ drop (j + 1) ys) \<subseteq> set ys" by (auto dest: in_set_takeD in_set_dropD)
    then have "f y \<notin> f ` set (take j ys @ drop (j + 1) ys)" using n by blast
    ultimately show ?thesis using ih Suc by (auto simp: fun_upd_twist)
  qed (use Cons.prems in \<open>auto simp: fun_eq_iff\<close>)
qed simp

end
