(* ===== verification/Dx_Array.thy ===== *)
theory Dx_Array
  imports Dx_Prelude
begin

text \<open>
  The array macros of \<open>src/DXAlgorithms.h\<close> and the capacity manager of \<open>src/DXAlgorithms.c\<close>.  An
  array is its descriptor: what it holds is \<open>contents\<close>, the first \<open>arr_size\<close> elements of the block.
  Two interfaces are locales: \<open>capacity_manager\<close>, with the laws of insertion and deletion, and
  \<open>search_order\<close>, with the laws of binary search for every comparator that follows a linear order.
\<close>


section \<open>Capacity managers\<close>

text \<open>
  A capacity manager gets the desired size and the capacity, and answers whether to reallocate and
  the new capacity.  The computation of \<open>dx_capacity_manager_halfer\<close> in \<open>double\<close> is exact for
  capacities below \<open>2^52\<close>: \<open>(size_t)(1.5 * c) = 3 * c div 2\<close> and \<open>n / c < 0.5\<close> means \<open>2 * n < c\<close>.
\<close>

definition dx_capacity_manager_halfer :: "nat \<Rightarrow> nat \<Rightarrow> bool \<times> nat" where
  "dx_capacity_manager_halfer new_size capacity =
     (if new_size > capacity then (True, 3 * capacity div 2 + 1)
      else if new_size < capacity \<and> 2 * new_size < capacity then (True, new_size)
      else (False, capacity))"

section \<open>Array descriptors\<close>

text \<open>
  A descriptor is the allocated block (\<open>[]\<close> stands for the null pointer), the number of elements in
  use and the capacity.  \<open>mem n\<close>: an allocation of \<open>n\<close> elements succeeds; \<open>zero\<close> is the element of
  zero bytes that \<open>dx_calloc\<close> fills a block with.
\<close>

record 'a dx_array =
  elements :: "'a list"
  arr_size :: nat
  capacity :: nat

definition DX_EMPTY_ARRAY :: "'a dx_array" where
  "DX_EMPTY_ARRAY = \<lparr>elements = [], arr_size = 0, capacity = 0\<rparr>"

definition DX_ARRAY_INSERT ::
  "(nat \<Rightarrow> bool) \<Rightarrow> 'a \<Rightarrow> 'a \<Rightarrow> nat \<Rightarrow> (nat \<Rightarrow> nat \<Rightarrow> bool \<times> nat) \<Rightarrow> ('a dx_array, unit) io" where
  "DX_ARRAY_INSERT mem zero new_elem position capacity_mgr = (\<lambda>arr.
     let (realloc, cap) = capacity_mgr (arr_size arr + 1) (capacity arr);
         arr' = arr\<lparr>capacity := cap\<rparr>
     in if realloc \<and> \<not> mem cap then (Inl dx_mec_insufficient_memory, arr')
        else case (if realloc then mem_copy (replicate cap zero) 0 (elements arr) 0 (int position)
                   else Some (elements arr)) of
          None \<Rightarrow> (Inl UB, arr')
        | Some buf \<Rightarrow>
            (case mem_copy buf (int position + 1) (elements arr) (int position)
                    (int (arr_size arr) - int position) of
               None \<Rightarrow> (Inl UB, arr')
             | Some buf' \<Rightarrow>
                 (case mem_store buf' (int position) new_elem of
                    None \<Rightarrow> (Inl UB, arr')
                  | Some buf'' \<Rightarrow>
                      (Inr (), arr'\<lparr>elements := buf'', arr_size := arr_size arr + 1\<rparr>))))"

definition DX_ARRAY_DELETE ::
  "(nat \<Rightarrow> bool) \<Rightarrow> 'a \<Rightarrow> nat \<Rightarrow> (nat \<Rightarrow> nat \<Rightarrow> bool \<times> nat) \<Rightarrow> ('a dx_array, unit) io" where
  "DX_ARRAY_DELETE mem zero position capacity_mgr = (\<lambda>arr.
     let (realloc, cap) = capacity_mgr (arr_size arr - 1) (capacity arr);
         arr' = arr\<lparr>capacity := cap\<rparr>
     in if realloc \<and> \<not> mem cap then (Inl dx_mec_insufficient_memory, arr')
        else case (if realloc then mem_copy (replicate cap zero) 0 (elements arr) 0 (int position)
                   else Some (elements arr)) of
          None \<Rightarrow> (Inl UB, arr')
        | Some buf \<Rightarrow>
            (case mem_copy buf (int position) (elements arr) (int position + 1)
                    (int (arr_size arr) - int position - 1) of
               None \<Rightarrow> (Inl UB, arr')
             | Some buf' \<Rightarrow> (Inr (), arr'\<lparr>elements := buf', arr_size := arr_size arr - 1\<rparr>)))"

definition DX_ARRAY_RESERVE :: "(nat \<Rightarrow> bool) \<Rightarrow> 'a \<Rightarrow> nat \<Rightarrow> ('a dx_array, unit) io" where
  "DX_ARRAY_RESERVE mem zero reserve_size = (\<lambda>arr.
     if reserve_size \<le> arr_size arr then (Inr (), arr)
     else if reserve_size > capacity arr then
       (if \<not> mem reserve_size then (Inl dx_mec_insufficient_memory, arr)
        else case mem_copy (replicate reserve_size zero) 0 (elements arr) 0 (int (arr_size arr)) of
               None \<Rightarrow> (Inl UB, arr)
             | Some buf \<Rightarrow> (Inr (), \<lparr>elements = buf, arr_size = reserve_size, capacity = reserve_size\<rparr>))
     else (Inr (), arr\<lparr>arr_size := reserve_size\<rparr>))"

text \<open>\<open>DX_ARRAY_BINARY_SEARCH\<close> and \<open>DX_ARRAY_SEARCH\<close> answer \<open>found\<close> and \<open>res_index\<close>.\<close>

function DX_ARRAY_BINARY_SEARCH ::
  "'a list \<Rightarrow> nat \<Rightarrow> nat \<Rightarrow> 'b \<Rightarrow> ('a \<Rightarrow> 'b \<Rightarrow> int) \<Rightarrow> bool \<times> nat" where
  "DX_ARRAY_BINARY_SEARCH a lo hi elem comparator =
     (if lo < hi then
        let mid = (lo + hi) div 2;
            comp_res = comparator (a ! mid) elem
        in if comp_res = 0 then (True, mid)
           else if comp_res < 0 then DX_ARRAY_BINARY_SEARCH a (mid + 1) hi elem comparator
           else DX_ARRAY_BINARY_SEARCH a lo mid elem comparator
      else (False, hi))"
  by pat_completeness auto
termination
  by (relation "measure (\<lambda>(_, lo, hi, _, _). hi - lo)") auto

declare DX_ARRAY_BINARY_SEARCH.simps [simp del]

function linear_search ::
  "'a list \<Rightarrow> nat \<Rightarrow> nat \<Rightarrow> 'b \<Rightarrow> ('a \<Rightarrow> 'b \<Rightarrow> int) \<Rightarrow> bool \<times> nat" where
  "linear_search a index hi elem comparator =
     (if index < hi then
        if comparator (a ! index) elem = 0 then (True, index)
        else linear_search a (index + 1) hi elem comparator
      else (False, index))"
  by pat_completeness auto
termination
  by (relation "measure (\<lambda>(_, index, hi, _, _). hi - index)") auto

declare linear_search.simps [simp del]

definition DX_ARRAY_SEARCH ::
  "'a list \<Rightarrow> nat \<Rightarrow> nat \<Rightarrow> 'b \<Rightarrow> ('a \<Rightarrow> 'b \<Rightarrow> int) \<Rightarrow> bool \<Rightarrow> bool \<times> nat" where
  "DX_ARRAY_SEARCH a lo hi elem comparator is_binary =
     (if is_binary then DX_ARRAY_BINARY_SEARCH a lo hi elem comparator
      else linear_search a lo hi elem comparator)"

definition DX_NUMERIC_COMPARATOR :: "'a::linorder \<Rightarrow> 'a \<Rightarrow> int" where
  "DX_NUMERIC_COMPARATOR l r = (if l > r then 1 else if l < r then - 1 else 0)"

text \<open>\<open>dx_is_only_single_bit_set\<close> of \<open>src/DXAlgorithms.c\<close>.\<close>

definition dx_is_only_single_bit_set :: "int32 \<Rightarrow> bool" where
  "dx_is_only_single_bit_set value \<longleftrightarrow> value \<noteq> 0 \<and> value AND (value - 1) = 0"

section \<open>The content of an array\<close>

definition contents :: "'a dx_array \<Rightarrow> 'a list" where
  "contents arr = take (arr_size arr) (elements arr)"

definition wf_array :: "'a dx_array \<Rightarrow> bool" where
  "wf_array arr \<longleftrightarrow> length (elements arr) = capacity arr \<and> arr_size arr \<le> capacity arr"

lemma wf_empty [simp]: "wf_array DX_EMPTY_ARRAY" "contents DX_EMPTY_ARRAY = []"
  by (simp_all add: DX_EMPTY_ARRAY_def wf_array_def contents_def)

lemma length_contents: "wf_array arr \<Longrightarrow> length (contents arr) = arr_size arr"
  by (simp add: wf_array_def contents_def)

text \<open>What a client relies on in a capacity manager.\<close>

lemma take_exact: "length xs = n \<Longrightarrow> take n (xs @ ys) = xs"
  by simp

locale capacity_manager =
  fixes mgr :: "nat \<Rightarrow> nat \<Rightarrow> bool \<times> nat"
  assumes keeps: "\<not> fst (mgr n c) \<Longrightarrow> snd (mgr n c) = c \<and> n \<le> c"
    and grows: "n \<le> c + 1 \<Longrightarrow> n \<le> snd (mgr n c)"
begin

lemma insert_spec:
  assumes wf: "wf_array arr" and pos: "position \<le> arr_size arr"
    and e: "DX_ARRAY_INSERT mem zero x position mgr arr = (r, arr')"
  shows "case r of
      Inr _ \<Rightarrow> wf_array arr' \<and> contents arr' = take position (contents arr) @ x # drop position (contents arr)
    | Inl err \<Rightarrow> err = dx_mec_insufficient_memory \<and> elements arr' = elements arr \<and> arr_size arr' = arr_size arr"
proof -
  obtain realloc cap where m: "mgr (arr_size arr + 1) (capacity arr) = (realloc, cap)" by fastforce
  let ?n = "arr_size arr"
  have n: "?n \<le> capacity arr" "length (elements arr) = capacity arr" using wf by (simp_all add: wf_array_def)
  have cap: "?n + 1 \<le> cap" using grows [of "?n + 1" "capacity arr"] n(1) m by simp
  show ?thesis
  proof (cases "realloc \<and> \<not> mem cap")
    case True
    then have "r = Inl dx_mec_insufficient_memory \<and> arr' = arr\<lparr>capacity := cap\<rparr>"
      using e m by (simp add: DX_ARRAY_INSERT_def)
    then show ?thesis by simp
  next
    case False
    define buf where "buf = (if realloc then take position (elements arr) @ replicate (cap - position) zero
      else elements arr)"
    have c: "cap = capacity arr" if "\<not> realloc" using keeps [of "?n + 1" "capacity arr"] m that by simp
    have b: "length buf = cap" "take position buf = take position (elements arr)"
      using pos n cap c by (auto simp: buf_def)
    have s1: "(if realloc then mem_copy (replicate cap zero) 0 (elements arr) 0 (int position)
        else Some (elements arr)) = Some buf"
      using pos n cap mem_copy_nat [of "replicate cap zero" 0 "elements arr" 0 position]
      by (simp add: buf_def)
    define buf' where "buf' = take (position + 1) buf @ take (?n - position) (drop position (elements arr))
        @ drop (?n + 1) buf"
    have s2: "mem_copy buf (int position + 1) (elements arr) (int position) (int ?n - int position) = Some buf'"
      using mem_copy_nat [of buf "position + 1" "elements arr" position "?n - position"] pos n cap b
      by (simp add: buf'_def add.commute of_nat_diff)
    have l: "length buf' = cap" using pos n cap b by (simp add: buf'_def)
    then have s3: "mem_store buf' (int position) x = Some (buf'[position := x])"
      using pos cap by (simp add: mem_store_def)
    have r: "r = Inr ()" "arr' = \<lparr>elements = buf'[position := x], arr_size = ?n + 1, capacity = cap\<rparr>"
      using e m s1 s2 s3 False by (auto simp: DX_ARRAY_INSERT_def Let_def)
    have "take (?n + 1) (buf'[position := x]) =
        take position (elements arr) @ x # take (?n - position) (drop position (elements arr))"
    proof -
      have "buf'[position := x] = take position (elements arr) @ [x] @ take (?n - position) (drop position (elements arr))
          @ drop (?n + 1) buf"
      proof -
        have p: "position < length buf" using pos cap b by simp
        then have "take (position + 1) buf = take position (elements arr) @ [buf ! position]"
          using b(2) by (simp add: take_Suc_conv_app_nth)
        then show ?thesis using pos n by (simp add: buf'_def list_update_append)
      qed
      then show ?thesis using pos n by (simp add: Suc_diff_le)
    qed
    then have "take (?n + 1) (buf'[position := x]) = take position (contents arr) @ x # drop position (contents arr)"
      using pos by (simp add: contents_def drop_take min_def)
    moreover have "wf_array arr'" using l cap by (simp add: r wf_array_def)
    ultimately show ?thesis by (simp add: r contents_def)
  qed
qed

lemma delete_spec:
  assumes wf: "wf_array arr" and pos: "position < arr_size arr"
    and e: "DX_ARRAY_DELETE mem zero position mgr arr = (r, arr')"
  shows "case r of
      Inr _ \<Rightarrow> wf_array arr' \<and> contents arr' = take position (contents arr) @ drop (position + 1) (contents arr)
    | Inl err \<Rightarrow> err = dx_mec_insufficient_memory \<and> elements arr' = elements arr \<and> arr_size arr' = arr_size arr"
proof -
  obtain realloc cap where m: "mgr (arr_size arr - 1) (capacity arr) = (realloc, cap)" by fastforce
  let ?n = "arr_size arr"
  have n: "?n \<le> capacity arr" "length (elements arr) = capacity arr" using wf by (simp_all add: wf_array_def)
  have "?n - 1 \<le> cap" using grows [of "?n - 1" "capacity arr"] n(1) m by simp
  with pos have cap: "?n - 1 \<le> cap" "position \<le> cap" by simp_all
  show ?thesis
  proof (cases "realloc \<and> \<not> mem cap")
    case True
    then have "r = Inl dx_mec_insufficient_memory \<and> arr' = arr\<lparr>capacity := cap\<rparr>"
      using e m by (simp add: DX_ARRAY_DELETE_def)
    then show ?thesis by simp
  next
    case False
    define buf where "buf = (if realloc then take position (elements arr) @ replicate (cap - position) zero
      else elements arr)"
    have c: "cap = capacity arr" if "\<not> realloc" using keeps [of "?n - 1" "capacity arr"] m that by simp
    have b: "length buf = cap" "take position buf = take position (elements arr)"
      using pos n cap c by (auto simp: buf_def)
    have s1: "(if realloc then mem_copy (replicate cap zero) 0 (elements arr) 0 (int position)
        else Some (elements arr)) = Some buf"
      using pos n cap mem_copy_nat [of "replicate cap zero" 0 "elements arr" 0 position]
      by (simp add: buf_def)
    define buf' where "buf' = take position buf @ take (?n - position - 1) (drop (position + 1) (elements arr))
        @ drop (?n - 1) buf"
    have e1: "int ?n - int position - 1 = int (?n - position - 1)" "int position + 1 = int (position + 1)"
      using pos by simp_all
    have s2: "mem_copy buf (int position) (elements arr) (int position + 1) (int ?n - int position - 1) = Some buf'"
      unfolding e1 mem_copy_nat using pos n cap b by (simp add: buf'_def)
    have l: "length buf' = cap" using pos n cap b by (simp add: buf'_def)
    have r: "r = Inr ()" "arr' = \<lparr>elements = buf', arr_size = ?n - 1, capacity = cap\<rparr>"
      using e m s1 s2 False by (auto simp: DX_ARRAY_DELETE_def Let_def)
    have "take (?n - 1) buf' = take position (contents arr) @ drop (position + 1) (contents arr)"
    proof -
      let ?A = "take position (elements arr) @ take (?n - position - 1) (drop (position + 1) (elements arr))"
      have "length ?A = ?n - 1" using pos n by simp
      then have "take (?n - 1) (?A @ drop (?n - 1) buf) = ?A" by (rule take_exact)
      moreover have "buf' = ?A @ drop (?n - 1) buf" using b by (simp add: buf'_def)
      moreover have "?A = take position (contents arr) @ drop (position + 1) (contents arr)"
        using pos by (simp add: contents_def drop_take min_def)
      ultimately show ?thesis by simp
    qed
    moreover have "wf_array arr'" using l cap by (simp add: r wf_array_def)
    ultimately show ?thesis by (simp add: r contents_def)
  qed
qed

text \<open>With memory at hand both succeed.\<close>

lemma insert_succeeds:
  assumes wf: "wf_array arr" and pos: "position \<le> arr_size arr"
  obtains arr' where "DX_ARRAY_INSERT (\<lambda>_. True) zero x position mgr arr = (Inr (), arr')" "wf_array arr'"
    "contents arr' = take position (contents arr) @ x # drop position (contents arr)"
proof -
  obtain r arr' where e: "DX_ARRAY_INSERT (\<lambda>_. True) zero x position mgr arr = (r, arr')" by fastforce
  have "r \<noteq> Inl dx_mec_insufficient_memory"
    using e by (auto simp: DX_ARRAY_INSERT_def Let_def split: prod.splits option.splits if_splits)
  with insert_spec [OF wf pos e] e that show ?thesis by (cases r) auto
qed

lemma delete_succeeds:
  assumes wf: "wf_array arr" and pos: "position < arr_size arr"
  obtains arr' where "DX_ARRAY_DELETE (\<lambda>_. True) zero position mgr arr = (Inr (), arr')" "wf_array arr'"
    "contents arr' = take position (contents arr) @ drop (position + 1) (contents arr)"
proof -
  obtain r arr' where e: "DX_ARRAY_DELETE (\<lambda>_. True) zero position mgr arr = (r, arr')" by fastforce
  have "r \<noteq> Inl dx_mec_insufficient_memory"
    using e by (auto simp: DX_ARRAY_DELETE_def Let_def split: prod.splits option.splits if_splits)
  with delete_spec [OF wf pos e] e that show ?thesis by (cases r) auto
qed

end

interpretation halfer: capacity_manager dx_capacity_manager_halfer
  by unfold_locales (auto simp: dx_capacity_manager_halfer_def split: if_splits)

section \<open>Search in a sorted array\<close>

text \<open>
  The contract between the search macros and a comparator: on valid arguments it compares keys of a
  linear order.  The elements from \<open>lo\<close> to \<open>hi\<close> are strictly sorted by their keys.
\<close>

locale search_order =
  fixes cmp :: "'a \<Rightarrow> 'b \<Rightarrow> int"
    and key :: "'a \<Rightarrow> 'k::linorder"
    and key_of :: "'b \<Rightarrow> 'k"
    and valid :: "'a \<Rightarrow> bool"
    and valid_key :: "'b \<Rightarrow> bool"
  assumes cmp_eq: "valid x \<Longrightarrow> valid_key k \<Longrightarrow> cmp x k = 0 \<longleftrightarrow> key x = key_of k"
    and cmp_less: "valid x \<Longrightarrow> valid_key k \<Longrightarrow> cmp x k < 0 \<longleftrightarrow> key x < key_of k"
begin

definition ordered :: "'a list \<Rightarrow> nat \<Rightarrow> nat \<Rightarrow> bool" where
  "ordered a lo hi \<longleftrightarrow> (\<forall>i j. lo \<le> i \<longrightarrow> i < j \<longrightarrow> j < hi \<longrightarrow> key (a ! i) < key (a ! j))
     \<and> (\<forall>i. lo \<le> i \<longrightarrow> i < hi \<longrightarrow> valid (a ! i))"

lemma orderedD:
  "ordered a lo hi \<Longrightarrow> lo \<le> i \<Longrightarrow> i < j \<Longrightarrow> j < hi \<Longrightarrow> key (a ! i) < key (a ! j)"
  "ordered a lo hi \<Longrightarrow> lo \<le> i \<Longrightarrow> i < hi \<Longrightarrow> valid (a ! i)"
  by (auto simp: ordered_def)

lemma ordered_sub: "ordered a lo hi \<Longrightarrow> lo \<le> lo' \<Longrightarrow> hi' \<le> hi \<Longrightarrow> ordered a lo' hi'"
  by (auto simp: ordered_def)

lemma binary_search_spec:
  assumes "ordered a lo hi" "valid_key k" "lo \<le> hi"
    and "DX_ARRAY_BINARY_SEARCH a lo hi k cmp = (found, pos)"
  shows "if found then lo \<le> pos \<and> pos < hi \<and> key (a ! pos) = key_of k
    else lo \<le> pos \<and> pos \<le> hi \<and> (\<forall>i. lo \<le> i \<longrightarrow> i < pos \<longrightarrow> key (a ! i) < key_of k)
      \<and> (\<forall>i. pos \<le> i \<longrightarrow> i < hi \<longrightarrow> key_of k < key (a ! i))"
  using assms
proof (induction "hi - lo" arbitrary: lo hi rule: less_induct)
  case less
  let ?mid = "(lo + hi) div 2"
  show ?case
  proof (cases "lo < hi")
    case False
    with less.prems show ?thesis by (subst (asm) DX_ARRAY_BINARY_SEARCH.simps) auto
  next
    case True
    then have mid: "lo \<le> ?mid" "?mid < hi" by auto
    then have v: "valid (a ! ?mid)" using less.prems(1) by (intro orderedD(2))
    consider "cmp (a ! ?mid) k = 0" | "cmp (a ! ?mid) k < 0" | "cmp (a ! ?mid) k > 0" by linarith
    then show ?thesis
    proof cases
      case 1
      then have "(found, pos) = (True, ?mid)"
        using less.prems(4) True by (subst (asm) DX_ARRAY_BINARY_SEARCH.simps) (simp add: Let_def)
      with 1 mid cmp_eq [OF v less.prems(2)] show ?thesis by simp
    next
      case 2
      then have rec: "DX_ARRAY_BINARY_SEARCH a (?mid + 1) hi k cmp = (found, pos)"
        using less.prems(4) True by (subst (asm) DX_ARRAY_BINARY_SEARCH.simps) (simp add: Let_def)
      have km: "key (a ! ?mid) < key_of k" using 2 cmp_less [OF v less.prems(2)] by simp
      have low: "key (a ! i) < key_of k" if "lo \<le> i" "i < ?mid + 1" for i
      proof (cases "i = ?mid")
        case False
        then have "key (a ! i) < key (a ! ?mid)"
          using that mid by (intro orderedD(1) [OF less.prems(1)]) auto
        with km show ?thesis by simp
      qed (use km in simp)
      have "if found then ?mid + 1 \<le> pos \<and> pos < hi \<and> key (a ! pos) = key_of k
        else ?mid + 1 \<le> pos \<and> pos \<le> hi \<and> (\<forall>i. ?mid + 1 \<le> i \<longrightarrow> i < pos \<longrightarrow> key (a ! i) < key_of k)
          \<and> (\<forall>i. pos \<le> i \<longrightarrow> i < hi \<longrightarrow> key_of k < key (a ! i))"
        by (rule less.hyps [OF _ _ less.prems(2) _ rec])
          (use mid less.prems(1) in \<open>auto intro: ordered_sub\<close>)
      moreover have "key (a ! i) < key_of k" if "lo \<le> i" "i < pos"
        "\<forall>i. ?mid + 1 \<le> i \<longrightarrow> i < pos \<longrightarrow> key (a ! i) < key_of k" for i
        using low [of i] that by (cases "i < ?mid + 1") simp_all
      ultimately show ?thesis using mid by (cases found) auto
    next
      case 3
      then have rec: "DX_ARRAY_BINARY_SEARCH a lo ?mid k cmp = (found, pos)"
        using less.prems(4) True by (subst (asm) DX_ARRAY_BINARY_SEARCH.simps) (simp add: Let_def)
      have km: "key_of k < key (a ! ?mid)"
        using 3 cmp_less [OF v less.prems(2)] cmp_eq [OF v less.prems(2)] by (metis less_irrefl linorder_less_linear order_less_not_sym)
      have high: "key_of k < key (a ! i)" if "?mid \<le> i" "i < hi" for i
      proof (cases "i = ?mid")
        case False
        then have "key (a ! ?mid) < key (a ! i)"
          using that mid by (intro orderedD(1) [OF less.prems(1)]) auto
        with km show ?thesis by simp
      qed (use km in simp)
      have "if found then lo \<le> pos \<and> pos < ?mid \<and> key (a ! pos) = key_of k
        else lo \<le> pos \<and> pos \<le> ?mid \<and> (\<forall>i. lo \<le> i \<longrightarrow> i < pos \<longrightarrow> key (a ! i) < key_of k)
          \<and> (\<forall>i. pos \<le> i \<longrightarrow> i < ?mid \<longrightarrow> key_of k < key (a ! i))"
        by (rule less.hyps [OF _ _ less.prems(2) _ rec])
          (use mid less.prems(1) in \<open>auto intro: ordered_sub\<close>)
      moreover have "key_of k < key (a ! i)" if "pos \<le> i" "i < hi"
        "\<forall>i. pos \<le> i \<longrightarrow> i < ?mid \<longrightarrow> key_of k < key (a ! i)" for i
        using high [of i] that by (cases "?mid \<le> i") simp_all
      ultimately show ?thesis using mid by (cases found) auto
    qed
  qed
qed

text \<open>The search over a whole sorted list.\<close>

lemma search_list:
  assumes "sorted_wrt (\<lambda>x y. key x < key y) xs" "\<forall>x \<in> set xs. valid x" "valid_key k" "n = length xs"
    "take n a = xs"
    and "DX_ARRAY_BINARY_SEARCH a 0 n k cmp = (found, pos)"
  shows "found \<Longrightarrow> pos < n \<and> key (xs ! pos) = key_of k"
    "\<not> found \<Longrightarrow> pos \<le> n \<and> (\<forall>x \<in> set (take pos xs). key x < key_of k) \<and> (\<forall>x \<in> set (drop pos xs). key_of k < key x)"
proof -
  have nth: "a ! i = xs ! i" if "i < n" for i using assms(5) that by auto
  have o: "ordered a 0 n"
    using assms(1,2,4) nth by (auto simp: ordered_def sorted_wrt_iff_nth_less)
  note s = binary_search_spec [OF o assms(3) _ assms(6), simplified]
  show "pos < n \<and> key (xs ! pos) = key_of k" if found
  proof -
    have "pos < n" "key (a ! pos) = key_of k" using s that by simp_all
    then show ?thesis using nth [of pos] by simp
  qed
  show "pos \<le> n \<and> (\<forall>x \<in> set (take pos xs). key x < key_of k) \<and> (\<forall>x \<in> set (drop pos xs). key_of k < key x)"
    if "\<not> found"
    using s that nth assms(4) by (auto simp: in_set_conv_nth)
qed

end

text \<open>Linear search: the first element that compares equal.\<close>

lemma linear_search_spec:
  "linear_search a lo hi k cmp = (found, pos) \<Longrightarrow> lo \<le> hi \<Longrightarrow>
     lo \<le> pos \<and> pos \<le> hi \<and> (found \<longleftrightarrow> pos < hi) \<and> (found \<longrightarrow> cmp (a ! pos) k = 0)
     \<and> (\<forall>i. lo \<le> i \<longrightarrow> i < pos \<longrightarrow> cmp (a ! i) k \<noteq> 0)"
proof (induction a lo hi k cmp rule: linear_search.induct)
  case (1 a lo hi k cmp)
  consider "lo = hi" | "lo < hi" "cmp (a ! lo) k = 0" | "lo < hi" "cmp (a ! lo) k \<noteq> 0"
    using "1.prems"(2) by linarith
  then show ?case
  proof cases
    case 3
    then have "linear_search a (lo + 1) hi k cmp = (found, pos)"
      using "1.prems"(1) by (subst (asm) linear_search.simps) simp
    with 3 "1.IH" have s: "lo + 1 \<le> pos" "pos \<le> hi" "found \<longleftrightarrow> pos < hi" "found \<longrightarrow> cmp (a ! pos) k = 0"
        "\<And>i. lo + 1 \<le> i \<Longrightarrow> i < pos \<Longrightarrow> cmp (a ! i) k \<noteq> 0" by auto
    have "cmp (a ! i) k \<noteq> 0" if "lo \<le> i" "i < pos" for i
      using s(5) [of i] 3(2) that by (cases "i = lo") auto
    with s show ?thesis by auto
  qed (use "1.prems"(1) in \<open>subst (asm) linear_search.simps, simp\<close>)+
qed

section \<open>Properties\<close>

text \<open>
  C27: Inserting into an array at any position up to its size, which appends, and deleting any of its
  elements, with the capacity manager of the library, are the list operations on its content, with the
  new size within the capacity; when a block cannot be allocated they report it and leave the content.
\<close>

theorem array_insert_delete:
  assumes "wf_array arr" "position \<le> arr_size arr"
  shows "(case DX_ARRAY_INSERT mem zero x position dx_capacity_manager_halfer arr of
        (Inr _, arr') \<Rightarrow> wf_array arr' \<and> contents arr' = take position (contents arr) @ x # drop position (contents arr)
      | (Inl err, arr') \<Rightarrow> err = dx_mec_insufficient_memory \<and> contents arr' = contents arr)
    \<and> (position < arr_size arr \<longrightarrow> (case DX_ARRAY_DELETE mem zero position dx_capacity_manager_halfer arr of
        (Inr _, arr') \<Rightarrow> wf_array arr' \<and> contents arr' = take position (contents arr) @ drop (position + 1) (contents arr)
      | (Inl err, arr') \<Rightarrow> err = dx_mec_insufficient_memory \<and> contents arr' = contents arr))"
proof -
  obtain r1 a1 where i: "DX_ARRAY_INSERT mem zero x position dx_capacity_manager_halfer arr = (r1, a1)" by fastforce
  obtain r2 a2 where d: "DX_ARRAY_DELETE mem zero position dx_capacity_manager_halfer arr = (r2, a2)" by fastforce
  show ?thesis
    using halfer.insert_spec [OF assms i] halfer.delete_spec [OF assms(1) _ d] i d
    by (cases r1; cases r2) (simp_all add: contents_def)
qed

theorem array_insert_delete_witness:
  "case DX_ARRAY_INSERT (\<lambda>_. True) 0 7 2 dx_capacity_manager_halfer \<lparr>elements = [5, 6 :: nat], arr_size = 2, capacity = 2\<rparr> of
      (Inr _, arr') \<Rightarrow> wf_array arr' \<and> contents arr' = [5, 6, 7] \<and>
        (case DX_ARRAY_DELETE (\<lambda>_. True) 0 1 dx_capacity_manager_halfer arr' of
           (Inr _, arr'') \<Rightarrow> wf_array arr'' \<and> contents arr'' = [5, 7] | (Inl err, arr'') \<Rightarrow> False)
    | (Inl err, arr') \<Rightarrow> False"
proof -
  let ?a = "\<lparr>elements = [5, 6 :: nat], arr_size = 2, capacity = 2\<rparr>"
  let ?b = "\<lparr>elements = [5, 6, 7, 0 :: nat], arr_size = 3, capacity = 4\<rparr>"
  have a: "wf_array ?a" "2 \<le> arr_size ?a" by (simp_all add: wf_array_def)
  have i: "DX_ARRAY_INSERT (\<lambda>_. True) 0 7 2 dx_capacity_manager_halfer ?a = (Inr (), ?b)" by code_simp
  have b: "wf_array ?b" "contents ?b = [5, 6, 7]"
    using array_insert_delete [OF a, where mem = "\<lambda>_. True" and zero = 0 and x = 7] unfolding i by (simp_all add: contents_def)
  have "fst (DX_ARRAY_DELETE (\<lambda>_. True) 0 1 dx_capacity_manager_halfer ?b) = Inr ()" by code_simp
  then show ?thesis unfolding i
    using array_insert_delete [OF b(1), where position = 1 and mem = "\<lambda>_. True" and zero = 0] b
    by (cases "DX_ARRAY_DELETE (\<lambda>_. True) 0 1 dx_capacity_manager_halfer ?b") simp
qed

text \<open>
  After an insertion into a full array that failed for lack of memory the next insertion writes
  outside the block: the capacity has been raised although the block is the old one.
\<close>

theorem insert_after_failure:
  assumes "wf_array arr" "arr_size arr = capacity arr" "position \<le> arr_size arr"
  shows "case DX_ARRAY_INSERT (\<lambda>_. False) zero x position dx_capacity_manager_halfer arr of
    (r, arr') \<Rightarrow> r = Inl dx_mec_insufficient_memory
      \<and> fst (DX_ARRAY_INSERT mem zero y position dx_capacity_manager_halfer arr') = Inl UB"
proof -
  have n: "length (elements arr) = arr_size arr" using assms(1,2) by (simp add: wf_array_def)
  have h: "dx_capacity_manager_halfer (arr_size arr + 1) (capacity arr) = (True, 3 * capacity arr div 2 + 1)"
    using assms(2) by (simp add: dx_capacity_manager_halfer_def)
  have k: "dx_capacity_manager_halfer (arr_size arr + 1) (3 * capacity arr div 2 + 1) = (False, 3 * capacity arr div 2 + 1)"
    using assms(2) by (auto simp: dx_capacity_manager_halfer_def)
  let ?arr' = "arr\<lparr>capacity := 3 * capacity arr div 2 + 1\<rparr>"
  have f: "DX_ARRAY_INSERT (\<lambda>_. False) zero x position dx_capacity_manager_halfer arr = (Inl dx_mec_insufficient_memory, ?arr')"
    using h by (simp add: DX_ARRAY_INSERT_def)
  have "mem_copy (elements arr) (int position + 1) (elements arr) (int position) (int (arr_size arr) - int position) = None"
    using n assms(3) by (simp add: mem_copy_def)
  then have "fst (DX_ARRAY_INSERT mem zero y position dx_capacity_manager_halfer ?arr') = Inl UB"
    using k by (simp add: DX_ARRAY_INSERT_def Let_def)
  with f show ?thesis by simp
qed

theorem insert_after_failure_witness:
  "fst (DX_ARRAY_INSERT (\<lambda>_. True) 0 9 0 dx_capacity_manager_halfer
     (snd (DX_ARRAY_INSERT (\<lambda>_. False) 0 9 0 dx_capacity_manager_halfer \<lparr>elements = [5 :: nat], arr_size = 1, capacity = 1\<rparr>))) = Inl UB"
  using insert_after_failure [where arr = "\<lparr>elements = [5 :: nat], arr_size = 1, capacity = 1\<rparr>" and position = 0
      and zero = 0 and x = 9 and mem = "\<lambda>_. True" and y = 9]
  by (simp add: wf_array_def split: prod.splits)

interpretation numeric_search: search_order "DX_NUMERIC_COMPARATOR :: 'a::linorder \<Rightarrow> 'a \<Rightarrow> int" "\<lambda>x. x" "\<lambda>x. x" "\<lambda>_. True" "\<lambda>_. True"
  by unfold_locales (auto simp: DX_NUMERIC_COMPARATOR_def)

text \<open>
  C24: Binary search in a strictly increasing array finds an element exactly when it is there, and
  otherwise answers the only place where it keeps the array sorted.
\<close>

theorem binary_search_correct:
  fixes x :: "'a::linorder"
  assumes "sorted_wrt (<) xs"
  shows "case DX_ARRAY_BINARY_SEARCH xs 0 (length xs) x DX_NUMERIC_COMPARATOR of
    (found, pos) \<Rightarrow> (found \<longleftrightarrow> x \<in> set xs) \<and> pos \<le> length xs
      \<and> (found \<longrightarrow> pos < length xs \<and> xs ! pos = x)
      \<and> (\<not> found \<longrightarrow> sorted_wrt (<) (take pos xs @ x # drop pos xs))"
proof -
  obtain found pos where e: "DX_ARRAY_BINARY_SEARCH xs 0 (length xs) x DX_NUMERIC_COMPARATOR = (found, pos)" by fastforce
  note s = numeric_search.search_list [OF assms _ _ refl _ e]
  show ?thesis
  proof (cases found)
    case True
    with s(1) e show ?thesis by auto
  next
    case False
    then have p: "pos \<le> length xs" "\<forall>y \<in> set (take pos xs). y < x" "\<forall>y \<in> set (drop pos xs). x < y" using s(2) by auto
    have "set xs = set (take pos xs) \<union> set (drop pos xs)" by (metis append_take_drop_id set_append)
    with p have "x \<notin> set xs" by auto
    moreover have "sorted_wrt (<) (take pos xs @ drop pos xs)" using assms by simp
    then have "sorted_wrt (<) (take pos xs @ x # drop pos xs)"
      unfolding sorted_wrt_append using p by (auto simp: sorted_wrt_append)
    ultimately show ?thesis using e False p(1) by simp
  qed
qed

theorem binary_search_correct_witness:
  "DX_ARRAY_BINARY_SEARCH [2, 5, 9 :: int] 0 3 5 DX_NUMERIC_COMPARATOR = (True, 1)"
proof -
  have e: "DX_ARRAY_BINARY_SEARCH [2, 5, 9 :: int] 0 3 5 DX_NUMERIC_COMPARATOR = (True, 1)" by code_simp
  have "length [2, 5, 9 :: int] = 3" by simp
  with binary_search_correct [of "[2, 5, 9 :: int]" 5] e show ?thesis by simp
qed

end
