(* ===== verification/Dx_Price_Levels.thy ===== *)
theory Dx_Price_Levels
  imports Dx_Array "HOL-Library.Multiset" Complex_Main
begin

text \<open>
  The price levels of one side of one source of the price level book (\<open>PriceLevelBook.c\<close>): the two
  comparators, adding an order to the levels, removing one, and rebuilding them from the snapshot.

  The specification is \<open>best_levels\<close>: the at most ten best prices among a multiset of orders, each with
  the total size of the orders at that price.  A side \<open>follows\<close> a multiset when it is well formed and,
  unless its \<open>rebuild\<close> flag is set, shows exactly those levels; the lemmas \<open>add_follows\<close>,
  \<open>remove_follows\<close> and \<open>rebuild_follows\<close> show that every operation keeps this.
\<close>

section \<open>Floating point numbers\<close>

text \<open>
  A \<open>double\<close> is NaN or a number; every comparison with NaN is false.  Sums are exact: rounding,
  infinities and the sign of zero are not modelled.
\<close>

datatype dbl = NaN | Num rat

fun dbl_less :: "dbl \<Rightarrow> dbl \<Rightarrow> bool" where
  "dbl_less (Num x) (Num y) \<longleftrightarrow> x < y"
| "dbl_less _ _ \<longleftrightarrow> False"

fun dbl_le :: "dbl \<Rightarrow> dbl \<Rightarrow> bool" where
  "dbl_le (Num x) (Num y) \<longleftrightarrow> x \<le> y"
| "dbl_le _ _ \<longleftrightarrow> False"

fun dbl_eq :: "dbl \<Rightarrow> dbl \<Rightarrow> bool" where
  "dbl_eq (Num x) (Num y) \<longleftrightarrow> x = y"
| "dbl_eq _ _ \<longleftrightarrow> False"

fun dbl_plus :: "dbl \<Rightarrow> dbl \<Rightarrow> dbl" where
  "dbl_plus (Num x) (Num y) = Num (x + y)"
| "dbl_plus _ _ = NaN"

fun dbl_minus :: "dbl \<Rightarrow> dbl \<Rightarrow> dbl" where
  "dbl_minus (Num x) (Num y) = Num (x - y)"
| "dbl_minus _ _ = NaN"

definition dbl_comparator :: "dbl \<Rightarrow> dbl \<Rightarrow> int" where
  "dbl_comparator l r = (if dbl_less r l then 1 else if dbl_less l r then - 1 else 0)"

section \<open>Orders and price levels\<close>

datatype dxf_order_side = dxf_osd_undefined | dxf_osd_buy | dxf_osd_sell

record dxf_order =
  order_index :: long64
  order_side :: dxf_order_side
  order_price :: dbl
  order_size :: dbl
  order_time :: int
  order_source :: "dxf_char list"

record dxf_price_level_element =
  level_price :: dbl
  level_size :: dbl
  level_time :: int

definition MAX_PRICE_LEVELS :: nat where "MAX_PRICE_LEVELS = 10"

text \<open>The function a \<open>cmp\<close> pointer refers to.\<close>

datatype dx_plb_comparator = comparator_ask | comparator_bid

definition dx_plb_pricelvel_comparator_ask ::
  "dxf_price_level_element \<Rightarrow> dxf_price_level_element \<Rightarrow> int" where
  "dx_plb_pricelvel_comparator_ask p1 p2 = dbl_comparator (level_price p1) (level_price p2)"

definition dx_plb_pricelvel_comparator_bid ::
  "dxf_price_level_element \<Rightarrow> dxf_price_level_element \<Rightarrow> int" where
  "dx_plb_pricelvel_comparator_bid p1 p2 = dbl_comparator (level_price p2) (level_price p1)"

fun compare_levels :: "dx_plb_comparator \<Rightarrow> dxf_price_level_element \<Rightarrow> dxf_price_level_element \<Rightarrow> int" where
  "compare_levels comparator_ask = dx_plb_pricelvel_comparator_ask"
| "compare_levels comparator_bid = dx_plb_pricelvel_comparator_bid"

record dx_plb_price_level_side =
  side_count :: nat
  levels :: "dxf_price_level_element list"
  cmp :: dx_plb_comparator
  rebuild :: bool
  updated :: bool

definition zero_level :: dxf_price_level_element where
  "zero_level = \<lparr>level_price = Num 0, level_size = Num 0, level_time = 0\<rparr>"

definition level_of :: "dxf_order \<Rightarrow> dxf_price_level_element" where
  "level_of order = \<lparr>level_price = order_price order, level_size = order_size order,
     level_time = order_time order\<rparr>"

text \<open>\<open>memmove(&levels[pos + 1], &levels[pos], n * sizeof(levels[0]))\<close>; \<open>move_up_bounds\<close> below shows
  that both ranges stay inside the array in every call.\<close>

definition move_up :: "nat \<Rightarrow> nat \<Rightarrow> 'a list \<Rightarrow> 'a list" where
  "move_up pos n xs = take (pos + 1) xs @ take n (drop pos xs) @ drop (pos + 1 + n) xs"

definition find_level :: "dx_plb_price_level_side \<Rightarrow> dxf_order \<Rightarrow> bool \<times> nat" where
  "find_level ob order =
     DX_ARRAY_BINARY_SEARCH (levels ob) 0 (side_count ob)
       \<lparr>level_price = order_price order, level_size = Num 0, level_time = 0\<rparr> (compare_levels (cmp ob))"

definition dx_plb_source_remove_order_from_levels ::
  "dx_plb_price_level_side \<Rightarrow> dxf_order \<Rightarrow> dx_plb_price_level_side" where
  "dx_plb_source_remove_order_from_levels ob order =
     (let (found, pos) = find_level ob order in
      if \<not> found then ob
      else let size' = dbl_minus (level_size (levels ob ! pos)) (order_size order)
           in ob\<lparr>levels := (levels ob)[pos := (levels ob ! pos)\<lparr>level_size := size',
                                                              level_time := order_time order\<rparr>],
                 rebuild := rebuild ob \<or> dbl_le size' (Num 0), updated := True\<rparr>)"

definition dx_plb_source_add_order_to_levels ::
  "dx_plb_price_level_side \<Rightarrow> dxf_order \<Rightarrow> dx_plb_price_level_side" where
  "dx_plb_source_add_order_to_levels ob order =
     (let (found, pos) = find_level ob order in
      if found then
        ob\<lparr>levels := (levels ob)[pos := (levels ob ! pos)
             \<lparr>level_size := dbl_plus (level_size (levels ob ! pos)) (order_size order),
              level_time := order_time order\<rparr>], updated := True\<rparr>
      else if pos < side_count ob \<and> side_count ob = MAX_PRICE_LEVELS then
        ob\<lparr>levels := (move_up pos (side_count ob - pos - 1) (levels ob))[pos := level_of order],
           updated := True\<rparr>
      else if side_count ob < MAX_PRICE_LEVELS then
        ob\<lparr>levels := (if pos < side_count ob then move_up pos (side_count ob - pos) (levels ob)
                      else levels ob)[pos := level_of order],
           side_count := side_count ob + 1, updated := True\<rparr>
      else ob)"

fun add_orders :: "dxf_order_side \<Rightarrow> dx_plb_price_level_side \<Rightarrow> dxf_order list \<Rightarrow> dx_plb_price_level_side" where
  "add_orders side ob [] = ob"
| "add_orders side ob (order # orders) =
     (if order_side order \<noteq> side \<or> dbl_eq (order_size order) (Num 0) then add_orders side ob orders
      else add_orders side (dx_plb_source_add_order_to_levels ob order) orders)"

definition dx_plb_source_rebuild_levels ::
  "dxf_order dx_array \<Rightarrow> dx_plb_price_level_side \<Rightarrow> dxf_order_side \<Rightarrow> dx_plb_price_level_side" where
  "dx_plb_source_rebuild_levels snapshot ob side =
     (add_orders side (ob\<lparr>levels := replicate MAX_PRICE_LEVELS zero_level, side_count := 0\<rparr>) (contents snapshot))
       \<lparr>rebuild := False, updated := True\<rparr>"

section \<open>The levels of a collection of orders\<close>

text \<open>
  Prices from best to worst: decreasing for bids, increasing for asks.  \<open>rank\<close> is the price such that
  a better one is smaller.
\<close>

fun num :: "dbl \<Rightarrow> rat" where
  "num (Num x) = x"
| "num NaN = 0"

fun rank :: "dx_plb_comparator \<Rightarrow> rat \<Rightarrow> rat" where
  "rank comparator_ask p = p"
| "rank comparator_bid p = - p"

definition ordered_prices :: "dx_plb_comparator \<Rightarrow> rat set \<Rightarrow> rat list" where
  "ordered_prices c S = (case c of comparator_ask \<Rightarrow> sorted_list_of_set S
     | comparator_bid \<Rightarrow> rev (sorted_list_of_set S))"

definition price_total :: "dxf_order multiset \<Rightarrow> rat \<Rightarrow> rat" where
  "price_total os p = (\<Sum>o'\<in>#{#o' \<in># os. order_price o' = Num p#}. num (order_size o'))"

definition price_levels :: "dx_plb_comparator \<Rightarrow> dxf_order multiset \<Rightarrow> (rat \<times> rat) list" where
  "price_levels c os = map (\<lambda>p. (p, price_total os p))
     (ordered_prices c ((\<lambda>o'. num (order_price o')) ` set_mset os))"

definition best_levels :: "dx_plb_comparator \<Rightarrow> dxf_order multiset \<Rightarrow> (rat \<times> rat) list" where
  "best_levels c os = take MAX_PRICE_LEVELS (price_levels c os)"

text \<open>What a side shows: price and size of the levels in use.\<close>

definition shown :: "dx_plb_price_level_side \<Rightarrow> (rat \<times> rat) list" where
  "shown ob = map (\<lambda>l. (num (level_price l), num (level_size l))) (take (side_count ob) (levels ob))"

definition good_order :: "dxf_order \<Rightarrow> bool" where
  "good_order order \<longleftrightarrow> (\<exists>p s. order_price order = Num p \<and> order_size order = Num s \<and> 0 < s)"

definition wf_side :: "dx_plb_price_level_side \<Rightarrow> bool" where
  "wf_side ob \<longleftrightarrow> length (levels ob) = MAX_PRICE_LEVELS \<and> side_count ob \<le> MAX_PRICE_LEVELS \<and>
     (\<forall>l \<in> set (take (side_count ob) (levels ob)). \<exists>p s. level_price l = Num p \<and> level_size l = Num s) \<and>
     sorted_wrt (\<lambda>x y. rank (cmp ob) (fst x) < rank (cmp ob) (fst y)) (shown ob)"

section \<open>Laws of price levels\<close>

abbreviation lrank :: "dx_plb_comparator \<Rightarrow> rat \<times> rat \<Rightarrow> rat" where
  "lrank c x \<equiv> rank c (fst x)"

definition prices :: "dxf_order multiset \<Rightarrow> rat set" where
  "prices os = (\<lambda>o'. num (order_price o')) ` set_mset os"

lemma finite_prices [simp]: "finite (prices os)"
  by (simp add: prices_def)

lemma set_ordered_prices [simp]: "finite S \<Longrightarrow> set (ordered_prices c S) = S"
  by (cases c) (simp_all add: ordered_prices_def)

lemma sorted_ordered_prices: "finite S \<Longrightarrow> sorted_wrt (\<lambda>x y. rank c x < rank c y) (ordered_prices c S)"
  by (cases c) (simp_all add: ordered_prices_def sorted_wrt_rev)

lemma rank_inject [simp]: "rank c x = rank c y \<longleftrightarrow> x = y"
  by (cases c) simp_all

lemma rank_sorted_unique:
  assumes "sorted_wrt (\<lambda>x y. rank c x < rank c y) xs" "sorted_wrt (\<lambda>x y. rank c x < rank c y) ys" "set xs = set ys"
  shows "xs = ys"
proof -
  have "sorted_wrt (<) (map (rank c) xs)" "sorted_wrt (<) (map (rank c) ys)"
    using assms(1,2) by (simp_all add: sorted_wrt_map)
  moreover have "set (map (rank c) xs) = set (map (rank c) ys)" using assms(3) by simp
  ultimately have "map (rank c) xs = map (rank c) ys" by (metis strict_sorted_equal)
  moreover have "inj (rank c)" by (rule injI) simp
  ultimately show ?thesis by (metis inj_map_eq_map)
qed

lemma price_levels_unique:
  assumes "sorted_wrt (\<lambda>x y. lrank c x < lrank c y) xs" "fst ` set xs = prices os"
    and "\<And>p s. (p, s) \<in> set xs \<Longrightarrow> s = price_total os p"
  shows "xs = price_levels c os"
proof -
  have "map fst xs = ordered_prices c (prices os)"
    by (rule rank_sorted_unique [of c])
      (use assms(1,2) in \<open>simp_all add: sorted_wrt_map sorted_ordered_prices\<close>)
  moreover have "map (\<lambda>p. (p, price_total os p)) (map fst xs) = xs"
    using assms(3) by (auto intro!: map_idI simp: comp_def)
  ultimately show ?thesis by (simp add: price_levels_def prices_def)
qed

lemma price_levels_sorted: "sorted_wrt (\<lambda>x y. lrank c x < lrank c y) (price_levels c os)"
  by (simp add: price_levels_def sorted_wrt_map sorted_ordered_prices)

lemma price_levels_prices: "fst ` set (price_levels c os) = prices os"
  by (force simp: price_levels_def prices_def)

lemma price_levels_total: "(p, s) \<in> set (price_levels c os) \<Longrightarrow> s = price_total os p"
  by (auto simp: price_levels_def)

definition good_orders :: "dxf_order multiset \<Rightarrow> bool" where
  "good_orders os \<longleftrightarrow> (\<forall>o' \<in># os. good_order o')"

lemma good_orders_simps [simp]:
  "good_orders {#}" "good_orders (add_mset x os) \<longleftrightarrow> good_order x \<and> good_orders os"
  by (auto simp: good_orders_def)

lemma good_order_price: "good_order x \<Longrightarrow> order_price x = Num (num (order_price x))"
  by (auto simp: good_order_def)

lemma price_total_add:
  assumes "good_order x"
  shows "price_total (add_mset x os) p =
    (if p = num (order_price x) then price_total os p + num (order_size x) else price_total os p)"
  using assms by (auto simp: price_total_def good_order_def)

lemma prices_add: "prices (add_mset x os) = insert (num (order_price x)) (prices os)"
  by (simp add: prices_def)

lemma price_total_none:
  assumes "good_orders os" "p \<notin> prices os"
  shows "price_total os p = 0"
proof -
  have "filter_mset (\<lambda>o'. order_price o' = Num p) os = {#}"
    using assms by (force simp: prices_def)
  then show ?thesis unfolding price_total_def by (simp only: image_mset_empty sum_mset.empty)
qed

lemma price_total_pos:
  assumes "good_orders os" "p \<in> prices os"
  shows "0 < price_total os p"
proof -
  from assms(2) obtain x where x: "x \<in># os" "p = num (order_price x)" by (auto simp: prices_def)
  with assms(1) have g: "good_order x" by (simp add: good_orders_def)
  obtain os' where os: "os = add_mset x os'" using x(1) by (metis multi_member_split)
  have "good_orders os'" using assms(1) os by simp
  then have "0 \<le> price_total os' p"
  proof (induction os')
    case (add x os')
    then have "0 \<le> num (order_size x)" by (auto simp: good_order_def)
    with add show ?case by (auto simp: price_total_add intro: add_nonneg_nonneg)
  qed (simp add: price_total_def)
  moreover have "0 < num (order_size x)" using g by (auto simp: good_order_def)
  ultimately show ?thesis using g x(2) by (simp add: os price_total_add)
qed

text \<open>One order more.\<close>

definition bump :: "rat \<Rightarrow> rat \<Rightarrow> rat \<times> rat \<Rightarrow> rat \<times> rat" where
  "bump p d x = (if fst x = p then (p, snd x + d) else x)"

lemma fst_bump [simp]: "fst (bump p d x) = fst x"
  by (simp add: bump_def)

lemma price_levels_add_old:
  assumes "good_order x" "num (order_price x) \<in> prices os"
  shows "price_levels c (add_mset x os) = map (bump (num (order_price x)) (num (order_size x))) (price_levels c os)"
proof (rule price_levels_unique [symmetric])
  show "sorted_wrt (\<lambda>x y. lrank c x < lrank c y) (map (bump (num (order_price x)) (num (order_size x))) (price_levels c os))"
    using price_levels_sorted [of c os] by (simp add: sorted_wrt_map)
  show "fst ` set (map (bump (num (order_price x)) (num (order_size x))) (price_levels c os)) = prices (add_mset x os)"
    using assms(2) price_levels_prices [of c os] by (simp add: prices_add image_image insert_absorb)
  show "s = price_total (add_mset x os) p"
    if "(p, s) \<in> set (map (bump (num (order_price x)) (num (order_size x))) (price_levels c os))" for p s
    using that assms(1) by (auto simp: bump_def price_total_add dest!: price_levels_total split: if_splits)
qed

definition insert_level :: "dx_plb_comparator \<Rightarrow> rat \<times> rat \<Rightarrow> (rat \<times> rat) list \<Rightarrow> (rat \<times> rat) list" where
  "insert_level c l xs = takeWhile (\<lambda>x. lrank c x < lrank c l) xs @ l # dropWhile (\<lambda>x. lrank c x < lrank c l) xs"

lemma sorted_dropWhile:
  assumes "sorted_wrt (\<lambda>x y. lrank c x < lrank c y) xs" "y \<in> set (dropWhile (\<lambda>x. lrank c x < r) xs)"
  shows "r \<le> lrank c y"
  using assms
proof (induction xs)
  case (Cons a xs)
  then show ?case by (cases "lrank c a < r") (auto simp: not_less)
qed simp

lemma sorted_insert_level:
  assumes "sorted_wrt (\<lambda>x y. lrank c x < lrank c y) xs" "fst l \<notin> fst ` set xs"
  shows "sorted_wrt (\<lambda>x y. lrank c x < lrank c y) (insert_level c l xs)"
proof -
  let ?P = "\<lambda>x. lrank c x < lrank c l"
  have s: "sorted_wrt (\<lambda>x y. lrank c x < lrank c y) (takeWhile ?P xs @ dropWhile ?P xs)" using assms(1) by simp
  have d: "lrank c l < lrank c y" if "y \<in> set (dropWhile ?P xs)" for y
  proof -
    have "y \<in> set xs" using that by (rule set_dropWhileD)
    then have "fst y \<noteq> fst l" using assms(2) by (metis image_eqI)
    then have "lrank c y \<noteq> lrank c l" by simp
    moreover have "lrank c l \<le> lrank c y" by (rule sorted_dropWhile [OF assms(1) that])
    ultimately show ?thesis by linarith
  qed
  from s d show ?thesis
    unfolding insert_level_def sorted_wrt_append
    by (auto dest!: set_takeWhileD)
qed

lemma price_levels_add_new:
  assumes "good_order x" "good_orders os" "num (order_price x) \<notin> prices os"
  shows "price_levels c (add_mset x os) = insert_level c (num (order_price x), num (order_size x)) (price_levels c os)"
proof (rule price_levels_unique [symmetric])
  let ?l = "(num (order_price x), num (order_size x))"
  have set_ins: "set (insert_level c l xs) = insert l (set xs)" for l xs
  proof -
    have "set (takeWhile (\<lambda>x. lrank c x < lrank c l) xs) \<union> set (dropWhile (\<lambda>x. lrank c x < lrank c l) xs) = set xs"
      by (metis set_append takeWhile_dropWhile_id)
    then show ?thesis by (auto simp: insert_level_def)
  qed
  show "sorted_wrt (\<lambda>x y. lrank c x < lrank c y) (insert_level c ?l (price_levels c os))"
    by (rule sorted_insert_level) (use assms(3) in \<open>simp_all add: price_levels_sorted price_levels_prices\<close>)
  show "fst ` set (insert_level c ?l (price_levels c os)) = prices (add_mset x os)"
    by (simp add: set_ins prices_add price_levels_prices)
  show "s = price_total (add_mset x os) p" if "(p, s) \<in> set (insert_level c ?l (price_levels c os))" for p s
  proof (cases "(p, s) = ?l")
    case True
    with assms price_total_none [of os "num (order_price x)"] show ?thesis by (simp add: price_total_add)
  next
    case False
    with that have i: "(p, s) \<in> set (price_levels c os)" unfolding set_ins by blast
    then have "p \<in> fst ` set (price_levels c os)" by (rule rev_image_eqI) simp
    then have "p \<noteq> num (order_price x)" using assms(3) by (auto simp: price_levels_prices)
    with price_levels_total [OF i] assms(1) show ?thesis by (simp add: price_total_add)
  qed
qed

text \<open>One order less.\<close>

lemma price_levels_remove_old:
  assumes "good_order x" "num (order_price x) \<in> prices os"
  shows "price_levels c os = map (bump (num (order_price x)) (- num (order_size x))) (price_levels c (add_mset x os))"
proof -
  have "bump p (- d) (bump p d l) = l" for p d l by (cases l) (simp add: bump_def)
  then show ?thesis unfolding price_levels_add_old [OF assms] by (simp add: comp_def)
qed

lemma price_levels_remove_last:
  assumes "good_order x" "good_orders os" "num (order_price x) \<notin> prices os"
  shows "price_levels c os = filter (\<lambda>l. fst l \<noteq> num (order_price x)) (price_levels c (add_mset x os))"
proof (rule price_levels_unique [symmetric])
  show "sorted_wrt (\<lambda>x y. lrank c x < lrank c y)
      (filter (\<lambda>l. fst l \<noteq> num (order_price x)) (price_levels c (add_mset x os)))"
    using price_levels_sorted by (rule sorted_wrt_filter)
  have "fst ` set (filter (\<lambda>l. fst l \<noteq> num (order_price x)) (price_levels c (add_mset x os))) =
      fst ` set (price_levels c (add_mset x os)) - {num (order_price x)}" by auto
  also have "\<dots> = prices os" using assms(3) by (simp add: price_levels_prices prices_add)
  finally show "fst ` set (filter (\<lambda>l. fst l \<noteq> num (order_price x)) (price_levels c (add_mset x os))) = prices os" .
  show "s = price_total os p"
    if "(p, s) \<in> set (filter (\<lambda>l. fst l \<noteq> num (order_price x)) (price_levels c (add_mset x os)))" for p s
  proof -
    from that have "(p, s) \<in> set (price_levels c (add_mset x os))" "p \<noteq> num (order_price x)" by auto
    with price_levels_total assms(1) show ?thesis by (metis price_total_add)
  qed
qed

lemma take_filter_absent:
  assumes "\<forall>x \<in> set (take n xs). P x"
  shows "take n (filter P xs) = take n xs"
proof (cases "n \<le> length xs")
  case True
  have "filter P xs = filter P (take n xs) @ filter P (drop n xs)"
    by (metis append_take_drop_id filter_append)
  also have "filter P (take n xs) = take n xs" using assms by simp
  finally show ?thesis using True by simp
next
  case False
  then show ?thesis using assms by simp
qed

lemma map_bump_absent: "p \<notin> fst ` set xs \<Longrightarrow> map (bump p d) xs = xs"
  by (rule map_idI) (auto simp: bump_def)

lemma map_bump_at:
  assumes "sorted_wrt (\<lambda>x y. lrank c x < lrank c y) xs" "i < length xs" "fst (xs ! i) = p"
  shows "map (bump p d) xs = xs[i := (p, snd (xs ! i) + d)]"
proof (rule nth_equalityI)
  fix j assume "j < length (map (bump p d) xs)"
  then have j: "j < length xs" by simp
  have "lrank c (xs ! i) < lrank c (xs ! j) \<or> lrank c (xs ! j) < lrank c (xs ! i) \<or> i = j"
    using assms(1,2) j by (metis linorder_neqE_nat sorted_wrt_nth_less)
  then have "fst (xs ! j) \<noteq> p" if "j \<noteq> i" using that assms(3) by auto
  with j assms show "map (bump p d) xs ! j = xs[i := (p, snd (xs ! i) + d)] ! j"
    by (cases "j = i") (simp_all add: bump_def)
qed simp

lemma sorted_update_fst:
  assumes "sorted_wrt (\<lambda>x y. lrank c x < lrank c y) xs" "fst y = fst (xs ! i)"
  shows "sorted_wrt (\<lambda>x y. lrank c x < lrank c y) (xs[i := y])"
proof -
  have "map fst (xs[i := y]) = map fst xs"
    unfolding map_update assms(2)
    by (cases "i < length xs") (metis list_update_id nth_map, simp add: list_update_beyond)
  moreover have "sorted_wrt (\<lambda>x y. rank c x < rank c y) (map fst xs)" using assms(1) by (simp add: sorted_wrt_map)
  ultimately have "sorted_wrt (\<lambda>x y. rank c x < rank c y) (map fst (xs[i := y]))" by simp
  then show ?thesis by (simp add: sorted_wrt_map)
qed

section \<open>The operations on a side\<close>

interpretation ask_search: search_order dx_plb_pricelvel_comparator_ask "\<lambda>l. num (level_price l)"
  "\<lambda>l. num (level_price l)" "\<lambda>l. \<exists>p. level_price l = Num p" "\<lambda>l. \<exists>p. level_price l = Num p"
  by unfold_locales (auto simp: dx_plb_pricelvel_comparator_ask_def dbl_comparator_def)

interpretation bid_search: search_order dx_plb_pricelvel_comparator_bid "\<lambda>l. - num (level_price l)"
  "\<lambda>l. - num (level_price l)" "\<lambda>l. \<exists>p. level_price l = Num p" "\<lambda>l. \<exists>p. level_price l = Num p"
  by unfold_locales (auto simp: dx_plb_pricelvel_comparator_bid_def dbl_comparator_def)

lemma length_shown: "wf_side ob \<Longrightarrow> length (shown ob) = side_count ob"
  by (simp add: wf_side_def shown_def)

lemma shown_nth:
  "wf_side ob \<Longrightarrow> i < side_count ob \<Longrightarrow> shown ob ! i = (num (level_price (levels ob ! i)), num (level_size (levels ob ! i)))"
  by (simp add: wf_side_def shown_def)

text \<open>Where a level is, or where it belongs.\<close>

lemma find_level_spec:
  assumes wf: "wf_side ob" and g: "good_order order" and f: "find_level ob order = (found, pos)"
  shows "if found then pos < side_count ob \<and> fst (shown ob ! pos) = num (order_price order)
    else pos \<le> side_count ob \<and> (\<forall>x \<in> set (take pos (shown ob)). lrank (cmp ob) x < rank (cmp ob) (num (order_price order)))
      \<and> (\<forall>x \<in> set (drop pos (shown ob)). rank (cmp ob) (num (order_price order)) < lrank (cmp ob) x)"
proof -
  let ?xs = "take (side_count ob) (levels ob)"
  let ?k = "\<lparr>level_price = order_price order, level_size = Num 0, level_time = 0\<rparr>"
  have sorted: "sorted_wrt (\<lambda>x y. rank (cmp ob) (num (level_price x)) < rank (cmp ob) (num (level_price y))) ?xs"
    using wf by (simp add: wf_side_def shown_def sorted_wrt_map)
  have v: "\<forall>x \<in> set ?xs. \<exists>p. level_price x = Num p" using wf by (auto simp: wf_side_def)
  have kv: "\<exists>p. level_price ?k = Num p" using good_order_price [OF g] by auto
  have n: "side_count ob = length ?xs" using wf by (simp add: wf_side_def)
  show ?thesis
  proof (cases "cmp ob")
    case comparator_ask
    then have d: "DX_ARRAY_BINARY_SEARCH (levels ob) 0 (side_count ob) ?k dx_plb_pricelvel_comparator_ask = (found, pos)"
      using f by (simp add: find_level_def)
    note s = ask_search.search_list [OF sorted [unfolded comparator_ask rank.simps] v kv n refl d]
    show ?thesis
    proof (cases found)
      case True
      from s(1) [OF this] have p: "pos < side_count ob" "num (level_price (?xs ! pos)) = num (order_price order)"
        by (blast, simp only: dxf_price_level_element.simps)
      then show ?thesis using True wf by (simp add: shown_nth)
    next
      case False
      with s(2) n show ?thesis by (auto simp: shown_def comparator_ask take_map drop_map)
    qed
  next
    case comparator_bid
    then have d: "DX_ARRAY_BINARY_SEARCH (levels ob) 0 (side_count ob) ?k dx_plb_pricelvel_comparator_bid = (found, pos)"
      using f by (simp add: find_level_def)
    note s = bid_search.search_list [OF sorted [unfolded comparator_bid rank.simps] v kv n refl d]
    show ?thesis
    proof (cases found)
      case True
      from s(1) [OF this] have p: "pos < side_count ob" "num (level_price (?xs ! pos)) = num (order_price order)"
        by (blast, simp only: dxf_price_level_element.simps neg_equal_iff_equal)
      then show ?thesis using True wf by (simp add: shown_nth)
    next
      case False
      with s(2) n show ?thesis by (auto simp: shown_def comparator_bid take_map drop_map)
    qed
  qed
qed

text \<open>The new level goes between better and worse ones: the split that \<open>insert_level\<close> makes.\<close>

lemma insert_level_at:
  assumes "pos \<le> length xs" "\<forall>x \<in> set (take pos xs). lrank c x < lrank c l"
    "\<forall>x \<in> set (drop pos xs). lrank c l < lrank c x"
  shows "insert_level c l xs = take pos xs @ l # drop pos xs"
proof -
  have x: "xs = take pos xs @ drop pos xs" by simp
  have t: "takeWhile (\<lambda>x. lrank c x < lrank c l) xs = take pos xs"
  proof -
    have "takeWhile (\<lambda>x. lrank c x < lrank c l) (take pos xs @ drop pos xs) =
        take pos xs @ takeWhile (\<lambda>x. lrank c x < lrank c l) (drop pos xs)"
      using assms(2) by (intro takeWhile_append2) simp
    also have "takeWhile (\<lambda>x. lrank c x < lrank c l) (drop pos xs) = []"
      using assms(3) by (cases "drop pos xs") auto
    finally show ?thesis by simp
  qed
  moreover have "dropWhile (\<lambda>x. lrank c x < lrank c l) xs = drop pos xs"
  proof -
    have "takeWhile (\<lambda>x. lrank c x < lrank c l) xs @ dropWhile (\<lambda>x. lrank c x < lrank c l) xs = take pos xs @ drop pos xs"
      by simp
    then show ?thesis unfolding t by (simp only: same_append_eq)
  qed
  ultimately show ?thesis by (simp add: insert_level_def)
qed

lemma good_order_cases:
  assumes "good_order order"
  obtains p s where "order_price order = Num p" "order_size order = Num s" "0 < s"
  using assms by (auto simp: good_order_def)

lemma wf_level_num:
  assumes "wf_side ob" "pos < side_count ob"
  obtains p s where "level_price (levels ob ! pos) = Num p" "level_size (levels ob ! pos) = Num s"
proof -
  have "levels ob ! pos \<in> set (take (side_count ob) (levels ob))"
    using assms by (auto simp: wf_side_def in_set_conv_nth intro!: exI [of _ pos])
  with assms(1) that show ?thesis by (auto simp: wf_side_def)
qed

lemma move_up_update:
  assumes "pos + 1 + n \<le> length xs"
  shows "(move_up pos n xs)[pos := y] = take pos xs @ y # take n (drop pos xs) @ drop (pos + 1 + n) xs"
proof -
  have "take (pos + 1) xs = take pos xs @ [xs ! pos]"
    using assms by (simp add: take_Suc_conv_app_nth)
  then show ?thesis using assms by (simp add: move_up_def list_update_append)
qed

text \<open>What the two operations do to the levels in use.\<close>

definition used :: "dx_plb_price_level_side \<Rightarrow> dxf_price_level_element list" where
  "used ob = take (side_count ob) (levels ob)"

lemma shown_used: "shown ob = map (\<lambda>l. (num (level_price l), num (level_size l))) (used ob)"
  by (simp add: shown_def used_def)

definition frame :: "dx_plb_price_level_side \<Rightarrow> dx_plb_price_level_side \<Rightarrow> bool" where
  "frame ob ob' \<longleftrightarrow> length (levels ob') = MAX_PRICE_LEVELS \<and> side_count ob' \<le> MAX_PRICE_LEVELS \<and> cmp ob' = cmp ob"

lemma add_order_used:
  assumes wf: "wf_side ob" and g: "good_order order" and f: "find_level ob order = (found, pos)"
  shows "used (dx_plb_source_add_order_to_levels ob order) =
    (if found then (used ob)[pos := (used ob ! pos)\<lparr>level_size := dbl_plus (level_size (used ob ! pos)) (order_size order),
        level_time := order_time order\<rparr>]
     else take MAX_PRICE_LEVELS (take pos (used ob) @ level_of order # drop pos (used ob)))"
    "frame ob (dx_plb_source_add_order_to_levels ob order)"
    "rebuild (dx_plb_source_add_order_to_levels ob order) = rebuild ob"
proof -
  note fs = find_level_spec [OF wf g f]
  have n: "length (levels ob) = MAX_PRICE_LEVELS" "side_count ob \<le> MAX_PRICE_LEVELS"
    using wf by (simp_all add: wf_side_def)
  show "frame ob (dx_plb_source_add_order_to_levels ob order)"
    "rebuild (dx_plb_source_add_order_to_levels ob order) = rebuild ob"
    using n fs f by (auto simp: frame_def dx_plb_source_add_order_to_levels_def move_up_def)
  show "used (dx_plb_source_add_order_to_levels ob order) =
    (if found then (used ob)[pos := (used ob ! pos)\<lparr>level_size := dbl_plus (level_size (used ob ! pos)) (order_size order),
        level_time := order_time order\<rparr>]
     else take MAX_PRICE_LEVELS (take pos (used ob) @ level_of order # drop pos (used ob)))"
  proof (cases found)
    case True
    with fs have "pos < side_count ob" by simp
    with True f show ?thesis
      by (simp add: dx_plb_source_add_order_to_levels_def used_def take_update_swap)
  next
    case False
    with fs have pos: "pos \<le> side_count ob" by simp
    consider "pos < side_count ob" "side_count ob = MAX_PRICE_LEVELS" | "side_count ob < MAX_PRICE_LEVELS"
      | "pos = side_count ob" "side_count ob = MAX_PRICE_LEVELS" using pos n by linarith
    then show ?thesis
    proof cases
      case 1
      have "dx_plb_source_add_order_to_levels ob order =
          ob\<lparr>levels := (move_up pos (side_count ob - pos - 1) (levels ob))[pos := level_of order], updated := True\<rparr>"
        using 1 False f by (simp add: dx_plb_source_add_order_to_levels_def)
      also have "(move_up pos (side_count ob - pos - 1) (levels ob))[pos := level_of order] =
          take pos (levels ob) @ level_of order # take (MAX_PRICE_LEVELS - pos - 1) (drop pos (levels ob))"
        using 1 n by (subst move_up_update) simp_all
      finally show ?thesis
        using 1 False n by (simp add: used_def min_def take_Cons')
    next
      case 2
      have "dx_plb_source_add_order_to_levels ob order =
          ob\<lparr>levels := (if pos < side_count ob then move_up pos (side_count ob - pos) (levels ob) else levels ob)
              [pos := level_of order], side_count := side_count ob + 1, updated := True\<rparr>"
        using 2 False f by (auto simp: dx_plb_source_add_order_to_levels_def)
      moreover have "take (side_count ob + 1) ((if pos < side_count ob then move_up pos (side_count ob - pos) (levels ob)
            else levels ob)[pos := level_of order]) =
          take pos (levels ob) @ level_of order # take (side_count ob - pos) (drop pos (levels ob))"
      proof (cases "pos < side_count ob")
        case True
        have "(move_up pos (side_count ob - pos) (levels ob))[pos := level_of order] =
            take pos (levels ob) @ level_of order # take (side_count ob - pos) (drop pos (levels ob))
              @ drop (pos + 1 + (side_count ob - pos)) (levels ob)"
          using 2 n True by (intro move_up_update) simp
        then show ?thesis using True 2 n by (simp add: Suc_diff_le)
      next
        case False
        then have "pos = side_count ob" using pos by simp
        then show ?thesis using 2 n by (simp add: take_update_snoc)
      qed
      ultimately have "used (dx_plb_source_add_order_to_levels ob order) =
          take pos (levels ob) @ level_of order # take (side_count ob - pos) (drop pos (levels ob))"
        by (simp add: used_def)
      also have "\<dots> = take pos (used ob) @ level_of order # drop pos (used ob)"
        using pos by (simp add: used_def drop_take min_def)
      also have "\<dots> = take MAX_PRICE_LEVELS (take pos (used ob) @ level_of order # drop pos (used ob))"
        using 2 n pos by (simp add: used_def)
      finally show ?thesis using False by simp
    next
      case 3
      then show ?thesis
        using False f n by (simp add: dx_plb_source_add_order_to_levels_def used_def)
    qed
  qed
qed

lemma remove_order_used:
  assumes wf: "wf_side ob" and g: "good_order order" and f: "find_level ob order = (found, pos)"
  shows "used (dx_plb_source_remove_order_from_levels ob order) =
    (if found then (used ob)[pos := (used ob ! pos)\<lparr>level_size := dbl_minus (level_size (used ob ! pos)) (order_size order),
        level_time := order_time order\<rparr>] else used ob)"
    "frame ob (dx_plb_source_remove_order_from_levels ob order)"
    "rebuild (dx_plb_source_remove_order_from_levels ob order) \<longleftrightarrow>
      rebuild ob \<or> (found \<and> dbl_le (dbl_minus (level_size (used ob ! pos)) (order_size order)) (Num 0))"
proof -
  note fs = find_level_spec [OF wf g f]
  have n: "length (levels ob) = MAX_PRICE_LEVELS" "side_count ob \<le> MAX_PRICE_LEVELS"
    using wf by (simp_all add: wf_side_def)
  show "frame ob (dx_plb_source_remove_order_from_levels ob order)"
    using n fs f by (auto simp: frame_def dx_plb_source_remove_order_from_levels_def Let_def)
  show "used (dx_plb_source_remove_order_from_levels ob order) =
    (if found then (used ob)[pos := (used ob ! pos)\<lparr>level_size := dbl_minus (level_size (used ob ! pos)) (order_size order),
        level_time := order_time order\<rparr>] else used ob)"
    "rebuild (dx_plb_source_remove_order_from_levels ob order) \<longleftrightarrow>
      rebuild ob \<or> (found \<and> dbl_le (dbl_minus (level_size (used ob ! pos)) (order_size order)) (Num 0))"
    using fs f by (auto simp: dx_plb_source_remove_order_from_levels_def used_def Let_def take_update_swap)
qed

lemma wf_sideI:
  assumes "wf_side ob" "frame ob ob'"
    and "\<And>l. l \<in> set (used ob') \<Longrightarrow> \<exists>p s. level_price l = Num p \<and> level_size l = Num s"
    and "sorted_wrt (\<lambda>x y. lrank (cmp ob) x < lrank (cmp ob) y) (shown ob')"
  shows "wf_side ob'"
  using assms by (auto simp: wf_side_def frame_def used_def)

lemma wf_used: "wf_side ob \<Longrightarrow> l \<in> set (used ob) \<Longrightarrow> \<exists>p s. level_price l = Num p \<and> level_size l = Num s"
  by (auto simp: wf_side_def used_def)

text \<open>And to what the side shows.\<close>

lemma add_order_shown:
  assumes wf: "wf_side ob" and g: "good_order order" and f: "find_level ob order = (found, pos)"
  shows "shown (dx_plb_source_add_order_to_levels ob order) =
    (if found then (shown ob)[pos := (num (order_price order), snd (shown ob ! pos) + num (order_size order))]
     else take MAX_PRICE_LEVELS (insert_level (cmp ob) (num (order_price order), num (order_size order)) (shown ob)))"
    "wf_side (dx_plb_source_add_order_to_levels ob order)"
proof -
  note fs = find_level_spec [OF wf g f] and u = add_order_used [OF wf g f]
  obtain p s where o: "order_price order = Num p" "order_size order = Num s" "0 < s"
    using g by (rule good_order_cases)
  have lu: "length (used ob) = side_count ob" using wf by (simp add: used_def wf_side_def)
  have sorted: "sorted_wrt (\<lambda>x y. lrank (cmp ob) x < lrank (cmp ob) y) (shown ob)" using wf by (simp add: wf_side_def)
  have "shown (dx_plb_source_add_order_to_levels ob order) =
    (if found then (shown ob)[pos := (num (order_price order), snd (shown ob ! pos) + num (order_size order))]
     else take MAX_PRICE_LEVELS (insert_level (cmp ob) (num (order_price order), num (order_size order)) (shown ob)))
    \<and> wf_side (dx_plb_source_add_order_to_levels ob order)"
  proof (cases found)
    case True
    with fs have pos: "pos < length (used ob)" "fst (shown ob ! pos) = p" using o lu by simp_all
    obtain q t where l: "level_price (used ob ! pos) = Num q" "level_size (used ob ! pos) = Num t"
      using wf_used [OF wf nth_mem [OF pos(1)]] by auto
    have q: "q = p" using pos l by (simp add: shown_used)
    have sh: "shown (dx_plb_source_add_order_to_levels ob order) =
        (shown ob)[pos := (p, snd (shown ob ! pos) + s)]"
      using True u(1) pos(1) l o q by (simp add: shown_used map_update)
    have "sorted_wrt (\<lambda>x y. lrank (cmp ob) x < lrank (cmp ob) y) ((shown ob)[pos := (p, snd (shown ob ! pos) + s)])"
      using sorted_update_fst [OF sorted] pos(2) by simp
    then have "wf_side (dx_plb_source_add_order_to_levels ob order)"
      using u(1) True pos(1) l o q sh
      by (intro wf_sideI [OF wf u(2)]) (auto dest!: wf_used [OF wf] set_update_subset_insert [THEN subsetD])
    with sh True o show ?thesis by simp
  next
    case False
    with fs have pos: "pos \<le> length (shown ob)" using lu by (simp add: shown_used)
    have il: "insert_level (cmp ob) (p, s) (shown ob) = take pos (shown ob) @ (p, s) # drop pos (shown ob)"
      using fs False o pos by (intro insert_level_at) simp_all
    have sh: "shown (dx_plb_source_add_order_to_levels ob order) =
        take MAX_PRICE_LEVELS (insert_level (cmp ob) (p, s) (shown ob))"
    proof -
      let ?f = "\<lambda>l. (num (level_price l), num (level_size l))"
      have "shown (dx_plb_source_add_order_to_levels ob order) =
          map ?f (take MAX_PRICE_LEVELS (take pos (used ob) @ level_of order # drop pos (used ob)))"
        using u(1) False by (simp only: shown_used if_False)
      also have "\<dots> = take MAX_PRICE_LEVELS (map ?f (take pos (used ob) @ level_of order # drop pos (used ob)))"
        by (rule take_map [symmetric])
      also have "map ?f (take pos (used ob) @ level_of order # drop pos (used ob)) =
          take pos (shown ob) @ (p, s) # drop pos (shown ob)"
        using o by (simp add: shown_used take_map drop_map level_of_def)
      finally show ?thesis unfolding il .
    qed
    have "p \<notin> fst ` set (shown ob)"
    proof
      assume "p \<in> fst ` set (shown ob)"
      then obtain x where x: "x \<in> set (shown ob)" "fst x = p" by auto
      have "x \<in> set (take pos (shown ob)) \<or> x \<in> set (drop pos (shown ob))"
        using x(1) by (metis Un_iff append_take_drop_id set_append)
      then show False using fs False x(2) o by auto
    qed
    then have "sorted_wrt (\<lambda>x y. lrank (cmp ob) x < lrank (cmp ob) y) (insert_level (cmp ob) (p, s) (shown ob))"
      using sorted by (intro sorted_insert_level) simp_all
    then have st: "sorted_wrt (\<lambda>x y. lrank (cmp ob) x < lrank (cmp ob) y)
        (take MAX_PRICE_LEVELS (insert_level (cmp ob) (p, s) (shown ob)))"
      by (rule sorted_wrt_take)
    have "wf_side (dx_plb_source_add_order_to_levels ob order)"
    proof (rule wf_sideI [OF wf u(2)])
      fix l assume "l \<in> set (used (dx_plb_source_add_order_to_levels ob order))"
      then have "l \<in> set (take MAX_PRICE_LEVELS (take pos (used ob) @ level_of order # drop pos (used ob)))"
        using u(1) False by (simp only: if_False)
      then have "l \<in> set (take pos (used ob) @ level_of order # drop pos (used ob))" by (rule in_set_takeD)
      then have "l \<in> set (used ob) \<or> l = level_of order" by (auto dest: in_set_takeD in_set_dropD)
      then show "\<exists>p s. level_price l = Num p \<and> level_size l = Num s"
        using wf_used [OF wf] o by (auto simp: level_of_def)
    qed (use sh st in simp)
    with sh False o show ?thesis by simp
  qed
  then show "shown (dx_plb_source_add_order_to_levels ob order) =
    (if found then (shown ob)[pos := (num (order_price order), snd (shown ob ! pos) + num (order_size order))]
     else take MAX_PRICE_LEVELS (insert_level (cmp ob) (num (order_price order), num (order_size order)) (shown ob)))"
    "wf_side (dx_plb_source_add_order_to_levels ob order)" by blast+
qed

lemma remove_order_shown:
  assumes wf: "wf_side ob" and g: "good_order order" and f: "find_level ob order = (found, pos)"
  shows "shown (dx_plb_source_remove_order_from_levels ob order) =
    (if found then (shown ob)[pos := (num (order_price order), snd (shown ob ! pos) - num (order_size order))]
     else shown ob)"
    "wf_side (dx_plb_source_remove_order_from_levels ob order)"
    "rebuild (dx_plb_source_remove_order_from_levels ob order) \<longleftrightarrow>
      rebuild ob \<or> (found \<and> snd (shown ob ! pos) - num (order_size order) \<le> 0)"
proof -
  note fs = find_level_spec [OF wf g f] and u = remove_order_used [OF wf g f]
  obtain p s where o: "order_price order = Num p" "order_size order = Num s" "0 < s"
    using g by (rule good_order_cases)
  have lu: "length (used ob) = side_count ob" using wf by (simp add: used_def wf_side_def)
  have sorted: "sorted_wrt (\<lambda>x y. lrank (cmp ob) x < lrank (cmp ob) y) (shown ob)" using wf by (simp add: wf_side_def)
  have "shown (dx_plb_source_remove_order_from_levels ob order) =
    (if found then (shown ob)[pos := (num (order_price order), snd (shown ob ! pos) - num (order_size order))]
     else shown ob)
    \<and> wf_side (dx_plb_source_remove_order_from_levels ob order)
    \<and> (rebuild (dx_plb_source_remove_order_from_levels ob order) \<longleftrightarrow>
      rebuild ob \<or> (found \<and> snd (shown ob ! pos) - num (order_size order) \<le> 0))"
  proof (cases found)
    case True
    with fs have pos: "pos < length (used ob)" "fst (shown ob ! pos) = p" using o lu by simp_all
    obtain q t where l: "level_price (used ob ! pos) = Num q" "level_size (used ob ! pos) = Num t"
      using wf_used [OF wf nth_mem [OF pos(1)]] by auto
    have q: "q = p" "snd (shown ob ! pos) = t" using pos l by (simp_all add: shown_used)
    have sh: "shown (dx_plb_source_remove_order_from_levels ob order) =
        (shown ob)[pos := (p, snd (shown ob ! pos) - s)]"
      using True u(1) pos(1) l o q by (simp add: shown_used map_update)
    have "sorted_wrt (\<lambda>x y. lrank (cmp ob) x < lrank (cmp ob) y) ((shown ob)[pos := (p, snd (shown ob ! pos) - s)])"
      using sorted_update_fst [OF sorted] pos(2) by simp
    then have "wf_side (dx_plb_source_remove_order_from_levels ob order)"
      using u(1) True pos(1) l o q sh
      by (intro wf_sideI [OF wf u(2)]) (auto dest!: wf_used [OF wf] set_update_subset_insert [THEN subsetD])
    with sh True o u(3) l q show ?thesis by simp
  next
    case False
    have "wf_side (dx_plb_source_remove_order_from_levels ob order)"
      using u(1) False sorted wf_used [OF wf] by (intro wf_sideI [OF wf u(2)]) (simp_all add: shown_used)
    with u False show ?thesis by (simp add: shown_used)
  qed
  then show "shown (dx_plb_source_remove_order_from_levels ob order) =
    (if found then (shown ob)[pos := (num (order_price order), snd (shown ob ! pos) - num (order_size order))]
     else shown ob)"
    "wf_side (dx_plb_source_remove_order_from_levels ob order)"
    "rebuild (dx_plb_source_remove_order_from_levels ob order) \<longleftrightarrow>
      rebuild ob \<or> (found \<and> snd (shown ob ! pos) - num (order_size order) \<le> 0)" by blast+
qed

lemma operations_keep [simp]:
  "cmp (dx_plb_source_add_order_to_levels ob order) = cmp ob"
  "cmp (dx_plb_source_remove_order_from_levels ob order) = cmp ob"
  "rebuild (dx_plb_source_add_order_to_levels ob order) = rebuild ob"
  by (simp_all add: dx_plb_source_add_order_to_levels_def dx_plb_source_remove_order_from_levels_def Let_def
      split: prod.splits)

section \<open>The levels follow the orders\<close>

lemma insert_level_simps [simp]:
  "insert_level c l [] = [l]"
  "insert_level c l (x # xs) = (if lrank c x < lrank c l then x # insert_level c l xs else l # x # xs)"
  by (simp_all add: insert_level_def)

lemma take_insert_level: "take n (insert_level c l (take n xs)) = take n (insert_level c l xs)"
proof (induction n arbitrary: xs)
  case (Suc n)
  then show ?case by (cases xs; cases n) (simp_all add: take_Cons')
qed simp

definition follows :: "dx_plb_price_level_side \<Rightarrow> dxf_order multiset \<Rightarrow> bool" where
  "follows ob os \<longleftrightarrow> wf_side ob \<and> (\<not> rebuild ob \<longrightarrow> shown ob = best_levels (cmp ob) os)"

lemma followsD: "follows ob os \<Longrightarrow> wf_side ob" "follows ob os \<Longrightarrow> \<not> rebuild ob \<Longrightarrow> shown ob = best_levels (cmp ob) os"
  by (simp_all add: follows_def)

lemma shown_member:
  assumes "shown ob = best_levels (cmp ob) os" "pos < length (shown ob)" "fst (shown ob ! pos) = p"
  shows "p \<in> prices os" "pos < length (price_levels (cmp ob) os)" "shown ob ! pos = price_levels (cmp ob) os ! pos"
proof -
  have "shown ob ! pos \<in> set (price_levels (cmp ob) os)"
    using assms(1,2) by (metis best_levels_def in_set_takeD nth_mem)
  then show "p \<in> prices os" using assms(3) price_levels_prices [of "cmp ob" os] by (metis image_eqI)
  show "pos < length (price_levels (cmp ob) os)" "shown ob ! pos = price_levels (cmp ob) os ! pos"
    using assms(1,2) by (simp_all add: best_levels_def)
qed

lemma absent_from_shown:
  assumes wf: "wf_side ob" and g: "good_order order" and f: "find_level ob order = (False, pos)"
  shows "num (order_price order) \<notin> fst ` set (shown ob)"
proof
  note fs = find_level_spec [OF wf g f]
  assume "num (order_price order) \<in> fst ` set (shown ob)"
  then obtain x where x: "x \<in> set (shown ob)" "fst x = num (order_price order)" by auto
  have "x \<in> set (take pos (shown ob)) \<or> x \<in> set (drop pos (shown ob))"
    using x(1) by (metis Un_iff append_take_drop_id set_append)
  then show False using fs x(2) by auto
qed

lemma add_follows:
  assumes fo: "follows ob os" and g: "good_order order" and gs: "good_orders os"
  shows "follows (dx_plb_source_add_order_to_levels ob order) (add_mset order os)"
proof -
  obtain found pos where f: "find_level ob order = (found, pos)" by fastforce
  note wf = followsD(1) [OF fo]
  note sh = add_order_shown [OF wf g f] and fs = find_level_spec [OF wf g f]
  let ?p = "num (order_price order)" and ?s = "num (order_size order)" and ?L = "price_levels (cmp ob) os"
  have "shown (dx_plb_source_add_order_to_levels ob order) = best_levels (cmp ob) (add_mset order os)" if "\<not> rebuild ob"
  proof -
    note s = followsD(2) [OF fo that]
    show ?thesis
    proof (cases found)
      case True
      with fs have pos: "pos < length (shown ob)" "fst (shown ob ! pos) = ?p" by (simp_all add: length_shown [OF wf])
      note m = shown_member [OF s pos]
      have "best_levels (cmp ob) (add_mset order os) = take MAX_PRICE_LEVELS (map (bump ?p ?s) ?L)"
        by (simp add: best_levels_def price_levels_add_old [OF g m(1)])
      also have "\<dots> = map (bump ?p ?s) (shown ob)" by (simp add: s best_levels_def take_map)
      also have "\<dots> = (shown ob)[pos := (?p, snd (shown ob ! pos) + ?s)]"
        by (rule map_bump_at [where c = "cmp ob"]) (use wf pos in \<open>simp_all add: wf_side_def\<close>)
      finally show ?thesis using sh(1) True by simp
    next
      case False
      have a: "?p \<notin> fst ` set (shown ob)" by (rule absent_from_shown [OF wf g f [unfolded False [THEN eq_False [THEN iffD2]]]])
      show ?thesis
      proof (cases "?p \<in> prices os")
        case new: False
        then have "best_levels (cmp ob) (add_mset order os) = take MAX_PRICE_LEVELS (insert_level (cmp ob) (?p, ?s) ?L)"
          by (simp add: best_levels_def price_levels_add_new [OF g gs])
        also have "\<dots> = take MAX_PRICE_LEVELS (insert_level (cmp ob) (?p, ?s) (shown ob))"
          unfolding s best_levels_def by (rule take_insert_level [symmetric])
        finally show ?thesis using sh(1) False by simp
      next
        case True
        have "best_levels (cmp ob) (add_mset order os) = take MAX_PRICE_LEVELS (map (bump ?p ?s) ?L)"
          by (simp add: best_levels_def price_levels_add_old [OF g True])
        also have "\<dots> = map (bump ?p ?s) (shown ob)" by (simp add: s best_levels_def take_map)
        also have "\<dots> = shown ob" by (rule map_bump_absent [OF a])
        also have "\<dots> = take MAX_PRICE_LEVELS (insert_level (cmp ob) (?p, ?s) (shown ob))"
        proof -
          obtain t where t: "(?p, t) \<in> set ?L" using True price_levels_prices [of "cmp ob" os] by (metis imageE prod.collapse)
          then have d: "(?p, t) \<in> set (drop MAX_PRICE_LEVELS ?L)"
            using a s by (metis Un_iff append_take_drop_id best_levels_def fst_conv image_eqI set_append)
          then have len: "length (shown ob) = MAX_PRICE_LEVELS"
            by (cases "length ?L \<le> MAX_PRICE_LEVELS") (simp_all add: s best_levels_def)
          have "sorted_wrt (\<lambda>x y. lrank (cmp ob) x < lrank (cmp ob) y) (take MAX_PRICE_LEVELS ?L @ drop MAX_PRICE_LEVELS ?L)"
            using price_levels_sorted by simp
          then have h: "\<forall>x \<in> set (take MAX_PRICE_LEVELS ?L). \<forall>y \<in> set (drop MAX_PRICE_LEVELS ?L). lrank (cmp ob) x < lrank (cmp ob) y"
            unfolding sorted_wrt_append by blast
          have "lrank (cmp ob) x < lrank (cmp ob) (?p, t)" if "x \<in> set (shown ob)" for x
            using h d that unfolding s best_levels_def by blast
          then have "\<forall>x \<in> set (shown ob). lrank (cmp ob) x < lrank (cmp ob) (?p, ?s)" by simp
          then have "insert_level (cmp ob) (?p, ?s) (shown ob) = shown ob @ [(?p, ?s)]"
            using insert_level_at [of "length (shown ob)" "shown ob" "cmp ob" "(?p, ?s)"] by simp
          with len show ?thesis by simp
        qed
        finally show ?thesis using sh(1) False by simp
      qed
    qed
  qed
  with sh(2) show ?thesis by (simp add: follows_def)
qed

lemma remove_follows:
  assumes fo: "follows ob (add_mset order os)" and g: "good_order order" and gs: "good_orders os"
  shows "follows (dx_plb_source_remove_order_from_levels ob order) os"
proof -
  obtain found pos where f: "find_level ob order = (found, pos)" by fastforce
  note wf = followsD(1) [OF fo]
  note sh = remove_order_shown [OF wf g f] and fs = find_level_spec [OF wf g f]
  let ?p = "num (order_price order)" and ?s = "num (order_size order)"
  let ?L = "price_levels (cmp ob) (add_mset order os)"
  have "shown (dx_plb_source_remove_order_from_levels ob order) = best_levels (cmp ob) os"
    if r: "\<not> rebuild (dx_plb_source_remove_order_from_levels ob order)"
  proof -
    have r1: "\<not> rebuild ob" "found \<Longrightarrow> 0 < snd (shown ob ! pos) - ?s" using r sh(3) by auto
    note s = followsD(2) [OF fo r1(1)]
    show ?thesis
    proof (cases found)
      case True
      with fs have pos: "pos < length (shown ob)" "fst (shown ob ! pos) = ?p" by (simp_all add: length_shown [OF wf])
      note m = shown_member [OF s pos]
      have "?L ! pos \<in> set ?L" using m(2) by simp
      then have "(?p, snd (shown ob ! pos)) \<in> set ?L" using pos(2) m(3) by (metis prod.collapse)
      then have "snd (shown ob ! pos) = price_total os ?p + ?s"
        using price_levels_total g by (metis price_total_add)
      with r1(2) [OF True] have "?p \<in> prices os" using price_total_none [OF gs, of ?p] by force
      note l = price_levels_remove_old [OF g this, of "cmp ob"]
      have "best_levels (cmp ob) os = map (bump ?p (- ?s)) (shown ob)"
        unfolding s best_levels_def by (subst l) (rule take_map)
      also have "\<dots> = (shown ob)[pos := (?p, snd (shown ob ! pos) + - ?s)]"
        by (rule map_bump_at [where c = "cmp ob"]) (use wf pos in \<open>simp_all add: wf_side_def\<close>)
      finally show ?thesis using sh(1) True by simp
    next
      case False
      have a: "?p \<notin> fst ` set (shown ob)" by (rule absent_from_shown [OF wf g f [unfolded False [THEN eq_False [THEN iffD2]]]])
      have "best_levels (cmp ob) os = shown ob"
      proof (cases "?p \<in> prices os")
        case True
        note l = price_levels_remove_old [OF g True, of "cmp ob"]
        have "best_levels (cmp ob) os = map (bump ?p (- ?s)) (shown ob)"
          unfolding s best_levels_def by (subst l) (rule take_map)
        also have "\<dots> = shown ob" by (rule map_bump_absent [OF a])
        finally show ?thesis .
      next
        case last: False
        have "\<forall>x \<in> set (take MAX_PRICE_LEVELS ?L). fst x \<noteq> ?p" using a unfolding s best_levels_def by force
        then have "take MAX_PRICE_LEVELS (filter (\<lambda>l. fst l \<noteq> ?p) ?L) = take MAX_PRICE_LEVELS ?L"
          by (rule take_filter_absent)
        then show ?thesis
          unfolding s best_levels_def by (subst price_levels_remove_last [OF g gs last])
      qed
      with sh(1) False show ?thesis by simp
    qed
  qed
  with sh(2) show ?thesis by (simp add: follows_def)
qed

lemma add_orders_follows:
  "follows ob os \<Longrightarrow> good_orders os \<Longrightarrow> good_orders (mset orders) \<Longrightarrow>
    follows (add_orders side ob orders) (os + {#x \<in># mset orders. order_side x = side#})
    \<and> rebuild (add_orders side ob orders) = rebuild ob \<and> cmp (add_orders side ob orders) = cmp ob"
proof (induction orders arbitrary: ob os)
  case (Cons x xs)
  have g: "good_order x" "good_orders (mset xs)" using Cons.prems(3) by simp_all
  then have n: "\<not> dbl_eq (order_size x) (Num 0)" by (auto simp: good_order_def)
  show ?case
  proof (cases "order_side x = side")
    case True
    with Cons.IH [of "dx_plb_source_add_order_to_levels ob x" "add_mset x os"] Cons.prems(1,2)
      add_follows [of ob os x] g n show ?thesis by simp
  next
    case False
    with Cons.IH [of ob os] Cons.prems g show ?thesis by simp
  qed
qed simp

definition orders_of :: "dxf_order_side \<Rightarrow> dxf_order list \<Rightarrow> dxf_order multiset" where
  "orders_of side os = {#x \<in># mset os. order_side x = side#}"

lemma good_orders_of: "good_orders (mset os) \<Longrightarrow> good_orders (orders_of side os)"
  by (auto simp: good_orders_def orders_of_def)

lemma price_levels_empty [simp]: "price_levels c {#} = []"
  by (cases c) (simp_all add: price_levels_def ordered_prices_def)

lemma rebuild_follows:
  assumes "good_orders (mset (contents snapshot))"
  shows "follows (dx_plb_source_rebuild_levels snapshot ob side) (orders_of side (contents snapshot))"
    "\<not> rebuild (dx_plb_source_rebuild_levels snapshot ob side)"
    "updated (dx_plb_source_rebuild_levels snapshot ob side)"
    "cmp (dx_plb_source_rebuild_levels snapshot ob side) = cmp ob"
proof -
  define ob0 where "ob0 = ob\<lparr>levels := replicate MAX_PRICE_LEVELS zero_level, side_count := 0, rebuild := False\<rparr>"
  have f0: "follows ob0 {#}"
    by (simp add: follows_def wf_side_def ob0_def shown_def best_levels_def)
  have swap: "add_orders side (o1\<lparr>rebuild := False\<rparr>) xs = (add_orders side o1 xs)\<lparr>rebuild := False\<rparr>" for o1 xs
  proof (induction xs arbitrary: o1)
    case (Cons x xs)
    have "dx_plb_source_add_order_to_levels (o1\<lparr>rebuild := False\<rparr>) x = (dx_plb_source_add_order_to_levels o1 x)\<lparr>rebuild := False\<rparr>"
      by (simp add: dx_plb_source_add_order_to_levels_def find_level_def split: prod.splits)
    with Cons show ?case by simp
  qed simp
  have e: "dx_plb_source_rebuild_levels snapshot ob side =
      (add_orders side ob0 (contents snapshot))\<lparr>updated := True\<rparr>"
    using swap [of "ob\<lparr>levels := replicate MAX_PRICE_LEVELS zero_level, side_count := 0\<rparr>" "contents snapshot"]
    by (simp add: dx_plb_source_rebuild_levels_def ob0_def)
  note a = add_orders_follows [OF f0 good_orders_simps(1) assms, of side]
  have "follows (o1\<lparr>updated := True\<rparr>) os = follows o1 os" for o1 os
    by (simp add: follows_def wf_side_def shown_def)
  with a show "follows (dx_plb_source_rebuild_levels snapshot ob side) (orders_of side (contents snapshot))"
    "\<not> rebuild (dx_plb_source_rebuild_levels snapshot ob side)"
    "updated (dx_plb_source_rebuild_levels snapshot ob side)"
    "cmp (dx_plb_source_rebuild_levels snapshot ob side) = cmp ob"
    by (simp_all add: e orders_of_def) (simp_all add: ob0_def)
qed

end
