(* ===== verification/Dx_Plb_Source.thy ===== *)
theory Dx_Plb_Source
  imports Dx_Price_Levels
begin

text \<open>
  The sources of the price level book (\<open>PriceLevelBook.c\<close>): the snapshot of orders kept sorted by
  index, \<open>dx_plb_source_process_order\<close>, the reset of a snapshot and the event listener with its status
  (full, begin, pending).  What the listener does beyond the source, calling the books, is in
  \<open>Dx_Plb_Book\<close>; here it answers whether it does.

  \<open>source_inv\<close> is the invariant of a source: the snapshot is sorted, the sides follow its orders, and a
  side that was never updated is empty.  \<open>snapshot_map\<close> reads the snapshot as a map from index to order;
  \<open>process_order_spec\<close> and \<open>listener_spec\<close> show that the operations are updates of that map.
  Memory allocation succeeds in these lemmas (\<open>mem = (\<lambda>_. True)\<close>); \<open>add_lost\<close> shows what the code does
  when the snapshot cannot grow.
\<close>

section \<open>Sources\<close>

text \<open>
  The snapshot holds pointers to orders; every order belongs to exactly one slot, so the model stores
  the orders themselves.  \<open>zero_order\<close> stands for a slot that holds no order; those are never read.
\<close>

definition zero_order :: dxf_order where
  "zero_order = \<lparr>order_index = 0, order_side = dxf_osd_undefined, order_price = Num 0, order_size = Num 0,
     order_time = 0, order_source = []\<rparr>"

datatype dx_plb_status = dx_status_unknown | dx_status_begin | dx_status_full | dx_status_pending

record dx_plb_source =
  src_symbol :: "dxf_char list"
  src_source :: "dxf_char list"
  snapshot :: "dxf_order dx_array"
  snapshot_status :: dx_plb_status
  bids :: dx_plb_price_level_side
  final_bids :: dx_plb_price_level_side
  asks :: dx_plb_price_level_side
  final_asks :: dx_plb_price_level_side

text \<open>The zeroed side that \<open>dx_calloc\<close> leaves, with the comparator set.\<close>

definition new_side :: "dx_plb_comparator \<Rightarrow> dx_plb_price_level_side" where
  "new_side c = \<lparr>side_count = 0, levels = replicate MAX_PRICE_LEVELS zero_level, cmp = c, rebuild = False,
     updated = False\<rparr>"

definition DXF_RECORD_SUFFIX_SIZE :: nat where "DXF_RECORD_SUFFIX_SIZE = 5"

definition dx_plb_source_create :: "dxf_char list \<Rightarrow> dxf_char list \<Rightarrow> dx_plb_source" where
  "dx_plb_source_create symbol src =
     \<lparr>src_symbol = symbol, src_source = take (DXF_RECORD_SUFFIX_SIZE - 1) src,
      snapshot = \<lparr>elements = replicate 16 zero_order, arr_size = 0, capacity = 16\<rparr>,
      snapshot_status = dx_status_full,
      bids = new_side comparator_bid, final_bids = new_side comparator_bid,
      asks = new_side comparator_ask, final_asks = new_side comparator_ask\<rparr>"

definition dx_plb_order_comparator :: "dxf_order \<Rightarrow> dxf_order \<Rightarrow> int" where
  "dx_plb_order_comparator o1 o2 = DX_NUMERIC_COMPARATOR (sint (order_index o1)) (sint (order_index o2))"

definition nan_level :: dxf_price_level_element where
  "nan_level = zero_level\<lparr>level_price := NaN\<rparr>"

definition clear_side :: "dx_plb_price_level_side \<Rightarrow> dx_plb_price_level_side" where
  "clear_side ob = ob\<lparr>side_count := 0, levels := replicate MAX_PRICE_LEVELS nan_level\<rparr>"

definition dx_plb_source_reset_snapshot :: "dx_plb_source \<Rightarrow> dx_plb_source" where
  "dx_plb_source_reset_snapshot source = source\<lparr>
     snapshot := (snapshot source)\<lparr>arr_size := 0,
       elements := replicate (arr_size (snapshot source)) zero_order
                   @ drop (arr_size (snapshot source)) (elements (snapshot source))\<rparr>,
     bids := clear_side (bids source), final_bids := clear_side (bids source),
     asks := clear_side (asks source), final_asks := clear_side (asks source)\<rparr>"

text \<open>\<open>orderIdx\<close> and \<open>found\<close>: the low half of the index first, then binary search.\<close>

definition find_order :: "dx_plb_source \<Rightarrow> dxf_order \<Rightarrow> bool \<times> nat" where
  "find_order source order =
     (let elems = elements (snapshot source); n = arr_size (snapshot source);
          orderIdx = unat (order_index order AND 0xFFFFFFFF)
      in if n \<le> orderIdx \<or> order_index (elems ! orderIdx) \<noteq> order_index order then
           let (top, bottom) =
             (if orderIdx < n then
                if sint (order_index (elems ! orderIdx)) < sint (order_index order) then (orderIdx, n)
                else (0, orderIdx)
              else (0, n))
           in DX_ARRAY_BINARY_SEARCH elems top bottom order dx_plb_order_comparator
         else (True, orderIdx))"

text \<open>\<open>order->side == dxf_osd_buy ? &source->bids : &source->asks\<close>\<close>

definition on_side ::
  "(dx_plb_price_level_side \<Rightarrow> dxf_order \<Rightarrow> dx_plb_price_level_side) \<Rightarrow> dxf_order \<Rightarrow> dx_plb_source \<Rightarrow> dx_plb_source" where
  "on_side f order source =
     (if order_side order = dxf_osd_buy then source\<lparr>bids := f (bids source) order\<rparr>
      else source\<lparr>asks := f (asks source) order\<rparr>)"

text \<open>
  \<open>mem n\<close>: an array of \<open>n\<close> pointers can be allocated; \<open>mem_order\<close>: an order can.  The \<open>error\<close> flag
  that the array macros set is ignored, as in the source; undefined behaviour is not.
\<close>

definition with_snapshot ::
  "(dxf_order dx_array, unit) io \<Rightarrow> dx_plb_source \<Rightarrow> (dx_plb_source, unit) io" where
  "with_snapshot m source = (\<lambda>_. case m (snapshot source) of
      (r, arr) \<Rightarrow> (if r = Inl UB then Inl UB else Inr (), source\<lparr>snapshot := arr\<rparr>))"

definition dx_plb_source_process_order ::
  "(nat \<Rightarrow> bool) \<Rightarrow> bool \<Rightarrow> dxf_order \<Rightarrow> bool \<Rightarrow> (dx_plb_source, unit) io" where
  "dx_plb_source_process_order mem mem_order order rm = (\<lambda>source.
     let (found, orderIdx) = find_order source order;
         oo = elements (snapshot source) ! orderIdx
     in if found then
          if rm \<or> dbl_eq (order_size order) (Num 0) then
            let source = on_side dx_plb_source_remove_order_from_levels oo source in
            if rm then
              with_snapshot (DX_ARRAY_DELETE mem zero_order orderIdx dx_capacity_manager_halfer) source source
            else
              (Inr (), source\<lparr>snapshot := (snapshot source)\<lparr>elements :=
                 (elements (snapshot source))[orderIdx := zero_order\<lparr>order_index := order_index order\<rparr>]\<rparr>\<rparr>)
          else
            let source = on_side dx_plb_source_add_order_to_levels order source;
                source = on_side dx_plb_source_remove_order_from_levels oo source
            in (Inr (), source\<lparr>snapshot := (snapshot source)\<lparr>elements :=
                 (elements (snapshot source))[orderIdx := order]\<rparr>\<rparr>)
        else if \<not> rm \<and> \<not> dbl_eq (order_size order) (Num 0) then
          if \<not> mem_order then (Inr (), source)
          else case with_snapshot (DX_ARRAY_INSERT mem zero_order order orderIdx dx_capacity_manager_halfer)
                 source source of
              (Inl e, source) \<Rightarrow> (Inl e, source)
            | (Inr _, source) \<Rightarrow> (Inr (), on_side dx_plb_source_add_order_to_levels order source)
        else (Inr (), source))"

section \<open>The event listener\<close>

definition dxf_ef_tx_pending :: int32 where "dxf_ef_tx_pending = 0x01"
definition dxf_ef_remove_event :: int32 where "dxf_ef_remove_event = 0x02"
definition dxf_ef_snapshot_begin :: int32 where "dxf_ef_snapshot_begin = 0x04"
definition dxf_ef_snapshot_end :: int32 where "dxf_ef_snapshot_end = 0x08"
definition dxf_ef_snapshot_snip :: int32 where "dxf_ef_snapshot_snip = 0x10"

definition DXF_ET_ORDER :: int32 where "DXF_ET_ORDER = 0x10"

definition IS_FLAG_SET :: "int32 \<Rightarrow> int32 \<Rightarrow> bool" where
  "IS_FLAG_SET flags flag \<longleftrightarrow> flags AND flag \<noteq> 0"

text \<open>The end of a transaction: rebuild what needs it and copy the sides to the final ones.\<close>

definition publish_source :: "dx_plb_source \<Rightarrow> dx_plb_source" where
  "publish_source source =
     (let source = (if rebuild (bids source)
            then source\<lparr>bids := dx_plb_source_rebuild_levels (snapshot source) (bids source) dxf_osd_buy\<rparr> else source);
          source = (if updated (bids source) then source\<lparr>final_bids := bids source\<rparr> else source);
          source = (if rebuild (asks source)
            then source\<lparr>asks := dx_plb_source_rebuild_levels (snapshot source) (asks source) dxf_osd_sell\<rparr> else source)
      in if updated (asks source) then source\<lparr>final_asks := asks source\<rparr> else source)"

text \<open>The new status after \<open>se\<close> and \<open>tx\<close>.\<close>

definition next_status :: "bool \<Rightarrow> bool \<Rightarrow> dx_plb_status \<Rightarrow> dx_plb_status" where
  "next_status se tx status =
     (let status = (if se then dx_status_full else status) in
      if tx \<and> status = dx_status_full then dx_status_pending
      else if \<not> tx \<and> status = dx_status_pending then dx_status_full
      else status)"

text \<open>The answer says whether the consumers are called.\<close>

definition plb_event_listener ::
  "(nat \<Rightarrow> bool) \<Rightarrow> bool \<Rightarrow> int32 \<Rightarrow> dxf_char list \<Rightarrow> dxf_order \<Rightarrow> int32 \<Rightarrow> (dx_plb_source, bool) io" where
  "plb_event_listener mem mem_order event_type symbol_name order flags = (\<lambda>source.
     if event_type \<noteq> DXF_ET_ORDER then (Inr False, source)
     else if src_symbol source \<noteq> symbol_name then (Inr False, source)
     else
       let sb = IS_FLAG_SET flags dxf_ef_snapshot_begin;
           se = IS_FLAG_SET flags dxf_ef_snapshot_end \<or> IS_FLAG_SET flags dxf_ef_snapshot_snip;
           tx = IS_FLAG_SET flags dxf_ef_tx_pending
       in if src_source source \<noteq> order_source order then (Inr False, source)
       else
         let rm = (IS_FLAG_SET flags dxf_ef_remove_event \<or> dbl_eq (order_size order) (Num 0));
             source = (if sb then (dx_plb_source_reset_snapshot source)\<lparr>snapshot_status := dx_status_begin\<rparr> else source)
         in if snapshot_status source = dx_status_unknown then (Inr False, source)
         else case dx_plb_source_process_order mem mem_order order rm source of
             (Inl e, source) \<Rightarrow> (Inl e, source)
           | (Inr _, source) \<Rightarrow>
               let source = source\<lparr>snapshot_status := next_status se tx (snapshot_status source)\<rparr>
               in if (updated (asks source) \<or> updated (bids source)) \<and> snapshot_status source = dx_status_full
                  then (Inr True, publish_source source)
                  else (Inr False, source))"

section \<open>The snapshot as a map\<close>

definition order_key :: "dxf_order \<Rightarrow> int" where
  "order_key x = sint (order_index x)"

definition sorted_orders :: "dxf_order list \<Rightarrow> bool" where
  "sorted_orders xs \<longleftrightarrow> sorted_wrt (\<lambda>x y. order_key x < order_key y) xs"

interpretation order_search: search_order dx_plb_order_comparator order_key order_key "\<lambda>_. True" "\<lambda>_. True"
  by unfold_locales (auto simp: dx_plb_order_comparator_def DX_NUMERIC_COMPARATOR_def order_key_def)

lemma order_key_eq: "order_key x = order_key y \<longleftrightarrow> order_index x = order_index y"
  unfolding order_key_def by (metis signed_word_eqI)

lemma find_order_spec:
  assumes wf: "wf_array (snapshot source)" and sorted: "sorted_orders (contents (snapshot source))"
    and f: "find_order source order = (found, pos)"
  shows "if found then pos < arr_size (snapshot source)
      \<and> order_index (elements (snapshot source) ! pos) = order_index order
    else pos \<le> arr_size (snapshot source)
      \<and> (\<forall>x \<in> set (take pos (contents (snapshot source))). order_key x < order_key order)
      \<and> (\<forall>x \<in> set (drop pos (contents (snapshot source))). order_key order < order_key x)"
proof -
  define es n k where "es = elements (snapshot source)" and "n = arr_size (snapshot source)"
    and "k = unat (order_index order AND 0xFFFFFFFF)"
  have len: "length (contents (snapshot source)) = n" using length_contents [OF wf] by (simp add: n_def)
  have nth: "contents (snapshot source) ! i = es ! i" if "i < n" for i
    using that by (simp add: contents_def es_def n_def)
  have o: "order_search.ordered es 0 n"
    using sorted len nth by (auto simp: order_search.ordered_def sorted_orders_def sorted_wrt_iff_nth_less)
  have concl: "if found then pos < n \<and> order_index (es ! pos) = order_index order
    else pos \<le> n \<and> (\<forall>i < pos. order_key (es ! i) < order_key order)
      \<and> (\<forall>i. pos \<le> i \<longrightarrow> i < n \<longrightarrow> order_key order < order_key (es ! i))"
  proof (cases "n \<le> k \<or> order_index (es ! k) \<noteq> order_index order")
    case False
    then show ?thesis using f by (simp add: find_order_def Let_def flip: es_def n_def k_def)
  next
    case True
    define top bottom where "top = (if k < n \<and> order_key (es ! k) < order_key order then k else 0)"
      and "bottom = (if k < n \<and> \<not> order_key (es ! k) < order_key order then k else n)"
    have b: "DX_ARRAY_BINARY_SEARCH es top bottom order dx_plb_order_comparator = (found, pos)"
      using f True by (simp add: find_order_def Let_def top_def bottom_def order_key_def
          flip: es_def n_def k_def split: if_splits)
    have tb: "top \<le> bottom" "bottom \<le> n" by (simp_all add: top_def bottom_def)
    have low: "order_key (es ! i) < order_key order" if "i < top" for i
    proof -
      have "k < n" "order_key (es ! k) < order_key order" "top = k" using that by (simp_all add: top_def split: if_splits)
      with that order_search.orderedD(1) [OF o, of i k] show ?thesis by simp
    qed
    have high: "order_key order < order_key (es ! i)" if "bottom \<le> i" "i < n" for i
    proof -
      have k: "k < n" "\<not> order_key (es ! k) < order_key order" "bottom = k"
        using that by (simp_all add: bottom_def split: if_splits)
      have "order_index (es ! k) \<noteq> order_index order" using True k(1) by simp
      then have "order_key order < order_key (es ! k)" using k(2) order_key_eq by (metis linorder_neqE)
      with that k order_search.orderedD(1) [OF o, of k i] show ?thesis by (cases "i = k") simp_all
    qed
    note s = order_search.binary_search_spec [OF order_search.ordered_sub [OF o _ tb(2), of top] _ tb(1) b, simplified]
    show ?thesis
    proof (cases found)
      case True
      with s tb show ?thesis by (simp add: order_key_eq)
    next
      case False
      with s have p: "top \<le> pos" "pos \<le> bottom" "\<And>i. top \<le> i \<Longrightarrow> i < pos \<Longrightarrow> order_key (es ! i) < order_key order"
        "\<And>i. pos \<le> i \<Longrightarrow> i < bottom \<Longrightarrow> order_key order < order_key (es ! i)" by auto
      have "order_key (es ! i) < order_key order" if "i < pos" for i
        using low [of i] p(3) [of i] that by (cases "i < top") simp_all
      moreover have "order_key order < order_key (es ! i)" if "pos \<le> i" "i < n" for i
        using high [of i] p(4) [of i] that by (cases "bottom \<le> i") simp_all
      ultimately show ?thesis using False p(2) tb by auto
    qed
  qed
  then show ?thesis
    using nth len by (auto simp: in_set_conv_nth es_def n_def)
qed

text \<open>Lists sorted by a key, seen as maps.\<close>

definition index_map :: "dxf_order list \<Rightarrow> long64 \<Rightarrow> dxf_order option" where
  "index_map xs = map_of (map (\<lambda>x. (order_index x, x)) xs)"

text \<open>The snapshot of a source: the order of each index.\<close>

definition snapshot_map :: "dx_plb_source \<Rightarrow> long64 \<Rightarrow> dxf_order option" where
  "snapshot_map source = index_map (contents (snapshot source))"

lemma index_map_simps [simp]:
  "index_map [] = Map.empty"
  "index_map (x # xs) = (index_map xs)(order_index x \<mapsto> x)"
  "index_map (xs @ ys) = index_map ys ++ index_map xs"
  by (simp_all add: index_map_def map_add_def fun_eq_iff)

lemma index_map_none: "index_map xs i = None \<longleftrightarrow> i \<notin> order_index ` set xs"
  by (simp add: index_map_def map_of_eq_None_iff image_image)

lemma index_map_insert:
  assumes "x_index \<notin> order_index ` set (drop pos xs)" "order_index x = x_index"
    "x_index \<notin> order_index ` set (take pos xs)"
  shows "index_map (take pos xs @ x # drop pos xs) = (index_map xs)(x_index \<mapsto> x)"
proof -
  have "index_map xs = index_map (drop pos xs) ++ index_map (take pos xs)"
    by (metis append_take_drop_id index_map_simps(3))
  moreover have "index_map (take pos xs) x_index = None" using assms(3) by (simp add: index_map_none)
  ultimately show ?thesis using assms(2) by (auto simp: map_add_def fun_eq_iff split: option.splits)
qed

lemma sorted_orders_parts:
  assumes "sorted_orders xs" "pos < length xs"
  shows "\<forall>x \<in> set (take pos xs). order_key x < order_key (xs ! pos)"
    "\<forall>x \<in> set (drop (pos + 1) xs). order_key (xs ! pos) < order_key x"
    "sorted_orders (take pos xs @ drop (pos + 1) xs)"
    "order_index (xs ! pos) \<notin> order_index ` set (take pos xs)"
    "order_index (xs ! pos) \<notin> order_index ` set (drop (pos + 1) xs)"
proof -
  have "xs = take pos xs @ xs ! pos # drop (pos + 1) xs" using assms(2) by (simp add: id_take_nth_drop)
  then have s: "sorted_wrt (\<lambda>x y. order_key x < order_key y) (take pos xs @ xs ! pos # drop (pos + 1) xs)"
    using assms(1) by (metis sorted_orders_def)
  then show lt: "\<forall>x \<in> set (take pos xs). order_key x < order_key (xs ! pos)"
    and gt: "\<forall>x \<in> set (drop (pos + 1) xs). order_key (xs ! pos) < order_key x"
    and "sorted_orders (take pos xs @ drop (pos + 1) xs)"
    by (auto simp: sorted_wrt_append sorted_orders_def)
  show "order_index (xs ! pos) \<notin> order_index ` set (take pos xs)"
    using lt by (force simp: order_key_def)
  show "order_index (xs ! pos) \<notin> order_index ` set (drop (pos + 1) xs)"
    using gt by (force simp: order_key_def)
qed

lemma index_map_delete:
  assumes "sorted_orders xs" "pos < length xs"
  shows "index_map (take pos xs @ drop (pos + 1) xs) = (index_map xs)(order_index (xs ! pos) := None)"
    "index_map xs (order_index (xs ! pos)) = Some (xs ! pos)"
proof -
  note p = sorted_orders_parts [OF assms]
  have e: "index_map xs = index_map (drop (pos + 1) xs) ++ (index_map (take pos xs))
      ++ [order_index (xs ! pos) \<mapsto> xs ! pos]"
  proof -
    have "index_map (take pos xs @ xs ! pos # drop (pos + 1) xs) =
        (index_map (take pos xs @ drop (pos + 1) xs))(order_index (xs ! pos) \<mapsto> xs ! pos)"
      using index_map_insert [of "order_index (xs ! pos)" pos "take pos xs @ drop (pos + 1) xs" "xs ! pos"] p(4,5) assms(2)
      by simp
    then show ?thesis using assms(2) by (simp add: id_take_nth_drop [symmetric])
  qed
  have n: "index_map (take pos xs) (order_index (xs ! pos)) = None"
    "index_map (drop (pos + 1) xs) (order_index (xs ! pos)) = None"
    using p(4,5) by (simp_all add: index_map_none)
  show "index_map (take pos xs @ drop (pos + 1) xs) = (index_map xs)(order_index (xs ! pos) := None)"
    unfolding e using n by (auto simp: map_add_def fun_eq_iff)
  show "index_map xs (order_index (xs ! pos)) = Some (xs ! pos)"
    unfolding e by simp
qed

lemma index_map_replace:
  assumes "sorted_orders xs" "pos < length xs" "order_index x = order_index (xs ! pos)"
  shows "index_map (xs[pos := x]) = (index_map xs)(order_index x \<mapsto> x)" "sorted_orders (xs[pos := x])"
proof -
  note p = sorted_orders_parts [OF assms(1,2)]
  have u: "xs[pos := x] = take pos xs @ x # drop (pos + 1) xs" using assms(2) by (simp add: upd_conv_take_nth_drop)
  have l: "xs[pos := x] = take pos (take pos xs @ drop (pos + 1) xs) @ x # drop pos (take pos xs @ drop (pos + 1) xs)"
    using assms(2) u by simp
  have "index_map (xs[pos := x]) = (index_map (take pos xs @ drop (pos + 1) xs))(order_index x \<mapsto> x)"
    unfolding l by (rule index_map_insert) (use p(4,5) assms(2,3) in simp_all)
  then show "index_map (xs[pos := x]) = (index_map xs)(order_index x \<mapsto> x)"
    using index_map_delete [OF assms(1,2)] assms(3) by simp
  show "sorted_orders (xs[pos := x])"
    using p(1-3) assms(3) unfolding u by (auto simp: sorted_orders_def sorted_wrt_append order_key_def)
qed

lemma insert_sorted_orders:
  assumes "sorted_orders xs" "\<forall>x \<in> set (take pos xs). order_key x < order_key y"
    "\<forall>x \<in> set (drop pos xs). order_key y < order_key x"
  shows "sorted_orders (take pos xs @ y # drop pos xs)"
    "index_map (take pos xs @ y # drop pos xs) = (index_map xs)(order_index y \<mapsto> y)"
    "index_map xs (order_index y) = None"
proof -
  have "sorted_wrt (\<lambda>x y. order_key x < order_key y) (take pos xs @ drop pos xs)"
    using assms(1) by (simp add: sorted_orders_def)
  then show "sorted_orders (take pos xs @ y # drop pos xs)"
    using assms(2,3) unfolding sorted_wrt_append by (auto simp: sorted_orders_def sorted_wrt_append)
  have n: "order_index y \<notin> order_index ` set (take pos xs)" "order_index y \<notin> order_index ` set (drop pos xs)"
    using assms(2,3) by (force simp: order_key_def)+
  then show "index_map (take pos xs @ y # drop pos xs) = (index_map xs)(order_index y \<mapsto> y)"
    by (intro index_map_insert) simp_all
  have "set xs = set (take pos xs) \<union> set (drop pos xs)" by (metis append_take_drop_id set_append)
  with n show "index_map xs (order_index y) = None" by (auto simp: index_map_none)
qed

lemma mset_insert_at: "mset (take pos xs @ y # drop pos xs) = add_mset y (mset xs)"
  by (metis append_take_drop_id mset.simps(2) mset_append union_mset_add_mset_right)

lemma mset_delete_at: "pos < length xs \<Longrightarrow> mset xs = add_mset (xs ! pos) (mset (take pos xs @ drop (pos + 1) xs))"
  by (metis Cons_nth_drop_Suc Suc_eq_plus1 append_take_drop_id mset.simps(2) mset_append union_mset_add_mset_right)

lemma mset_replace_at:
  "pos < length xs \<Longrightarrow> add_mset (xs ! pos) (mset (xs[pos := x])) = add_mset x (mset xs)"
  by (simp add: mset_update)

section \<open>The invariant of a source\<close>

text \<open>
  A side, its final copy and the orders of that side: it follows them, asks for a rebuild only after
  an update, and without any update so far there were no orders.
\<close>

definition side_inv :: "dx_plb_price_level_side \<Rightarrow> dx_plb_price_level_side \<Rightarrow> dxf_order multiset \<Rightarrow> bool" where
  "side_inv ob fin os \<longleftrightarrow> follows ob os \<and> wf_side fin \<and> cmp fin = cmp ob \<and> (rebuild ob \<longrightarrow> updated ob)
     \<and> (\<not> updated ob \<longrightarrow> os = {#} \<and> shown fin = [])"

lemma best_levels_empty [simp]: "best_levels c {#} = []"
  by (simp add: best_levels_def)

lemma updated_add: "updated ob \<Longrightarrow> updated (dx_plb_source_add_order_to_levels ob order)"
  by (simp add: dx_plb_source_add_order_to_levels_def split: prod.splits)

lemma updated_remove: "updated ob \<Longrightarrow> updated (dx_plb_source_remove_order_from_levels ob order)"
  "rebuild (dx_plb_source_remove_order_from_levels ob order) \<Longrightarrow> (rebuild ob \<Longrightarrow> updated ob) \<Longrightarrow>
     updated (dx_plb_source_remove_order_from_levels ob order)"
  by (auto simp: dx_plb_source_remove_order_from_levels_def Let_def split: prod.splits if_splits)

lemma updated_add_first:
  "side_count ob = 0 \<Longrightarrow> updated (dx_plb_source_add_order_to_levels ob order)"
  by (simp add: dx_plb_source_add_order_to_levels_def MAX_PRICE_LEVELS_def split: prod.splits)

lemma side_inv_add:
  assumes i: "side_inv ob fin os" and g: "good_order order" "good_orders os"
  shows "side_inv (dx_plb_source_add_order_to_levels ob order) fin (add_mset order os)"
proof -
  have f: "follows (dx_plb_source_add_order_to_levels ob order) (add_mset order os)"
    using i g by (simp add: side_inv_def add_follows)
  have "updated (dx_plb_source_add_order_to_levels ob order)"
  proof (cases "updated ob")
    case False
    with i have "wf_side ob" "shown ob = []" by (auto simp: side_inv_def follows_def)
    then have "side_count ob = 0" using length_shown by force
    then show ?thesis by (rule updated_add_first)
  qed (rule updated_add)
  with f i show ?thesis by (simp add: side_inv_def)
qed

lemma side_inv_remove:
  assumes i: "side_inv ob fin (add_mset order os)" and g: "good_order order" "good_orders os"
  shows "side_inv (dx_plb_source_remove_order_from_levels ob order) fin os"
proof -
  have "updated ob" using i by (auto simp: side_inv_def)
  with i g show ?thesis by (auto simp: side_inv_def intro: remove_follows updated_remove)
qed

definition source_inv :: "dx_plb_source \<Rightarrow> bool" where
  "source_inv source \<longleftrightarrow>
     wf_array (snapshot source) \<and> sorted_orders (contents (snapshot source))
     \<and> (\<forall>x \<in> set (contents (snapshot source)). good_order x \<and> order_side x \<in> {dxf_osd_buy, dxf_osd_sell})
     \<and> cmp (bids source) = comparator_bid \<and> cmp (asks source) = comparator_ask
     \<and> side_inv (bids source) (final_bids source) (orders_of dxf_osd_buy (contents (snapshot source)))
     \<and> side_inv (asks source) (final_asks source) (orders_of dxf_osd_sell (contents (snapshot source)))"

definition finals_current :: "dx_plb_source \<Rightarrow> bool" where
  "finals_current source \<longleftrightarrow>
     shown (final_bids source) = best_levels comparator_bid (orders_of dxf_osd_buy (contents (snapshot source)))
     \<and> shown (final_asks source) = best_levels comparator_ask (orders_of dxf_osd_sell (contents (snapshot source)))"

text \<open>The same facts without the snapshot array: its content, and the four sides.\<close>

definition content_inv :: "dxf_order list \<Rightarrow> dx_plb_source \<Rightarrow> bool" where
  "content_inv xs source \<longleftrightarrow> sorted_orders xs
     \<and> (\<forall>x \<in> set xs. good_order x \<and> order_side x \<in> {dxf_osd_buy, dxf_osd_sell})
     \<and> cmp (bids source) = comparator_bid \<and> cmp (asks source) = comparator_ask
     \<and> side_inv (bids source) (final_bids source) (orders_of dxf_osd_buy xs)
     \<and> side_inv (asks source) (final_asks source) (orders_of dxf_osd_sell xs)"

lemma source_inv_content:
  "source_inv source \<longleftrightarrow> wf_array (snapshot source) \<and> content_inv (contents (snapshot source)) source"
  by (auto simp: source_inv_def content_inv_def)

definition valid_order :: "dxf_order \<Rightarrow> bool" where
  "valid_order x \<longleftrightarrow> good_order x \<and> order_side x \<in> {dxf_osd_buy, dxf_osd_sell}"

text \<open>Both sides of the source at once, against a multiset of orders.\<close>

definition sides_inv :: "dx_plb_source \<Rightarrow> dxf_order multiset \<Rightarrow> bool" where
  "sides_inv source os \<longleftrightarrow> (\<forall>x \<in># os. valid_order x)
     \<and> cmp (bids source) = comparator_bid \<and> cmp (asks source) = comparator_ask
     \<and> side_inv (bids source) (final_bids source) {#x \<in># os. order_side x = dxf_osd_buy#}
     \<and> side_inv (asks source) (final_asks source) {#x \<in># os. order_side x = dxf_osd_sell#}"

lemma content_inv_sides: "content_inv xs source \<longleftrightarrow> sorted_orders xs \<and> sides_inv source (mset xs)"
  by (auto simp: content_inv_def sides_inv_def orders_of_def valid_order_def)

lemma good_side: "\<forall>x \<in># os. valid_order x \<Longrightarrow> good_orders {#x \<in># os. order_side x = side#}"
  by (auto simp: good_orders_def valid_order_def)

lemma sides_inv_add:
  "sides_inv source os \<Longrightarrow> valid_order order \<Longrightarrow>
    sides_inv (on_side dx_plb_source_add_order_to_levels order source) (add_mset order os)"
  by (auto simp: sides_inv_def on_side_def good_side valid_order_def [of order] intro!: side_inv_add)

lemma sides_inv_remove:
  "sides_inv source (add_mset order os) \<Longrightarrow> sides_inv (on_side dx_plb_source_remove_order_from_levels order source) os"
  by (auto simp: sides_inv_def on_side_def good_side valid_order_def [of order] intro!: side_inv_remove)

lemma on_side_keeps [simp]:
  "snapshot (on_side f order source) = snapshot source"
  "src_symbol (on_side f order source) = src_symbol source"
  "src_source (on_side f order source) = src_source source"
  "snapshot_status (on_side f order source) = snapshot_status source"
  "final_bids (on_side f order source) = final_bids source"
  "final_asks (on_side f order source) = final_asks source"
  by (simp_all add: on_side_def)

lemma sides_inv_snapshot [simp]: "sides_inv (source\<lparr>snapshot := arr\<rparr>) os = sides_inv source os"
  "sides_inv (source\<lparr>snapshot_status := s\<rparr>) os = sides_inv source os"
  by (simp_all add: sides_inv_def)

lemma contents_update:
  assumes "wf_array arr" "pos < arr_size arr"
  shows "contents (arr\<lparr>elements := (elements arr)[pos := x]\<rparr>) = (contents arr)[pos := x]"
    "wf_array (arr\<lparr>elements := (elements arr)[pos := x]\<rparr>)" "contents arr ! pos = elements arr ! pos"
  using assms by (simp_all add: wf_array_def contents_def take_update_swap)

lemma process_order_spec:
  assumes inv: "source_inv source" and v: "rm \<or> valid_order order"
  shows "\<exists>source'. dx_plb_source_process_order (\<lambda>_. True) True order rm source = (Inr (), source')
    \<and> source_inv source' \<and> snapshot_status source' = snapshot_status source
    \<and> src_symbol source' = src_symbol source \<and> src_source source' = src_source source
    \<and> final_bids source' = final_bids source \<and> final_asks source' = final_asks source
    \<and> snapshot_map source' = (if rm then (snapshot_map source)(order_index order := None)
        else (snapshot_map source)(order_index order \<mapsto> order))"
proof -
  define arr xs where "arr = snapshot source" and "xs = contents arr"
  have wf: "wf_array arr" and sorted: "sorted_orders xs" and si: "sides_inv source (mset xs)"
    using inv by (simp_all add: source_inv_content content_inv_sides arr_def xs_def)
  have len: "length xs = arr_size arr" using length_contents [OF wf] by (simp add: xs_def)
  obtain found pos where f: "find_order source order = (found, pos)" by fastforce
  note fs = find_order_spec [OF wf [unfolded arr_def] sorted [unfolded xs_def arr_def] f, folded arr_def xs_def]
  have sz: "\<not> rm \<Longrightarrow> \<not> dbl_eq (order_size order) (Num 0)" using v by (auto simp: valid_order_def good_order_def)
  have inv': "source_inv s \<longleftrightarrow> wf_array (snapshot s) \<and> sorted_orders (contents (snapshot s)) \<and> sides_inv s (mset (contents (snapshot s)))" for s
    by (simp add: source_inv_content content_inv_sides)
  show ?thesis
  proof (cases found)
    case True
    with fs have pos: "pos < arr_size arr" "order_index (elements arr ! pos) = order_index order" by simp_all
    have nth: "elements arr ! pos = xs ! pos" using contents_update(3) [OF wf pos(1)] by (simp add: xs_def)
    have idx: "order_index order = order_index (xs ! pos)" using pos(2) nth by simp
    show ?thesis
    proof (cases rm)
      case True
      obtain arr' where d: "DX_ARRAY_DELETE (\<lambda>_. True) zero_order pos dx_capacity_manager_halfer arr = (Inr (), arr')"
        and r: "wf_array arr'" "contents arr' = take pos xs @ drop (pos + 1) xs"
        using halfer.delete_succeeds [OF wf pos(1), of zero_order] unfolding xs_def by blast
      let ?s = "(on_side dx_plb_source_remove_order_from_levels (xs ! pos) source)\<lparr>snapshot := arr'\<rparr>"
      have e: "dx_plb_source_process_order (\<lambda>_. True) True order rm source = (Inr (), ?s)"
        using f \<open>found\<close> True d nth
        by (simp add: dx_plb_source_process_order_def with_snapshot_def flip: arr_def)
      have "sides_inv source (add_mset (xs ! pos) (mset (take pos xs @ drop (pos + 1) xs)))"
        using si mset_delete_at [of pos xs] pos len by simp
      then have "sides_inv (on_side dx_plb_source_remove_order_from_levels (xs ! pos) source)
          (mset (take pos xs @ drop (pos + 1) xs))" by (rule sides_inv_remove)
      then have "source_inv ?s"
        using r sorted_orders_parts(3) [OF sorted] pos len by (simp add: inv')
      moreover have "snapshot_map ?s = (snapshot_map source)(order_index order := None)"
        using index_map_delete(1) [OF sorted] pos(1) len r idx by (simp add: snapshot_map_def flip: arr_def xs_def)
      ultimately show ?thesis using e True by simp
    next
      case False
      have vo: "valid_order order" using v False by simp
      let ?base = "on_side dx_plb_source_remove_order_from_levels (xs ! pos)
        (on_side dx_plb_source_add_order_to_levels order source)"
      let ?s = "?base\<lparr>snapshot := arr\<lparr>elements := (elements arr)[pos := order]\<rparr>\<rparr>"
      note cu = contents_update(1,2) [OF wf pos(1), of order, folded xs_def]
      have e: "dx_plb_source_process_order (\<lambda>_. True) True order rm source = (Inr (), ?s)"
        using f \<open>found\<close> False sz nth by (simp add: dx_plb_source_process_order_def Let_def flip: arr_def)
      have "sides_inv (on_side dx_plb_source_add_order_to_levels order source) (add_mset order (mset xs))"
        using si vo by (rule sides_inv_add)
      then have "sides_inv (on_side dx_plb_source_add_order_to_levels order source) (add_mset (xs ! pos) (mset (xs[pos := order])))"
        using mset_replace_at [of pos xs order] pos len by simp
      then have "sides_inv ?base (mset (xs[pos := order]))" by (rule sides_inv_remove)
      then have "source_inv ?s" using cu index_map_replace(2) [OF sorted _ idx] pos(1) len by (simp add: inv')
      moreover have "snapshot_map ?s = (snapshot_map source)(order_index order \<mapsto> order)"
        using index_map_replace(1) [OF sorted _ idx] pos(1) len cu by (simp add: snapshot_map_def flip: arr_def xs_def)
      ultimately show ?thesis using e False by simp
    qed
  next
    case False
    with fs have pos: "pos \<le> arr_size arr" "\<forall>x \<in> set (take pos xs). order_key x < order_key order"
      "\<forall>x \<in> set (drop pos xs). order_key order < order_key x" by simp_all
    note ins = insert_sorted_orders [OF sorted pos(2,3)]
    show ?thesis
    proof (cases rm)
      case True
      then have e: "dx_plb_source_process_order (\<lambda>_. True) True order rm source = (Inr (), source)"
        using f False by (simp add: dx_plb_source_process_order_def Let_def)
      have "snapshot_map source (order_index order) = None"
        using ins(3) by (simp add: snapshot_map_def flip: arr_def xs_def)
      then have "(snapshot_map source)(order_index order := None) = snapshot_map source" by auto
      then show ?thesis using e True inv by simp
    next
      case nrm: False
      have vo: "valid_order order" using v nrm by simp
      obtain arr' where d: "DX_ARRAY_INSERT (\<lambda>_. True) zero_order order pos dx_capacity_manager_halfer arr = (Inr (), arr')"
        and r: "wf_array arr'" "contents arr' = take pos xs @ order # drop pos xs"
        using halfer.insert_succeeds [OF wf pos(1), of zero_order order] unfolding xs_def by blast
      let ?s = "on_side dx_plb_source_add_order_to_levels order (source\<lparr>snapshot := arr'\<rparr>)"
      have e: "dx_plb_source_process_order (\<lambda>_. True) True order rm source = (Inr (), ?s)"
        using f False nrm sz d by (simp add: dx_plb_source_process_order_def with_snapshot_def Let_def flip: arr_def)
      have "sides_inv ?s (add_mset order (mset xs))" using si vo by (simp add: sides_inv_add)
      then have "source_inv ?s" using r ins(1) mset_insert_at [of pos xs order] by (simp add: inv')
      moreover have "snapshot_map ?s = (snapshot_map source)(order_index order \<mapsto> order)"
        using ins(2) r by (simp add: snapshot_map_def flip: arr_def xs_def)
      ultimately show ?thesis using e nrm by simp
    qed
  qed
qed

section \<open>The listener keeps the invariant\<close>

lemma shown_none [simp]: "side_count ob = 0 \<Longrightarrow> shown ob = []"
  by (simp add: shown_def)

lemma side_inv_clear: "side_inv ob fin os \<Longrightarrow> side_inv (clear_side ob) (clear_side ob) {#}"
  by (simp add: side_inv_def follows_def wf_side_def clear_side_def)

lemma reset_spec:
  assumes "source_inv source"
  shows "source_inv (dx_plb_source_reset_snapshot source)" "snapshot_map (dx_plb_source_reset_snapshot source) = Map.empty"
    "src_symbol (dx_plb_source_reset_snapshot source) = src_symbol source"
    "src_source (dx_plb_source_reset_snapshot source) = src_source source"
    "finals_current (dx_plb_source_reset_snapshot source)"
proof -
  have c: "contents (snapshot (dx_plb_source_reset_snapshot source)) = []"
    by (simp add: dx_plb_source_reset_snapshot_def contents_def)
  have w: "wf_array (snapshot (dx_plb_source_reset_snapshot source))"
    using assms by (simp add: source_inv_def wf_array_def dx_plb_source_reset_snapshot_def)
  have cl: "cmp (clear_side ob) = cmp ob" "side_count (clear_side ob) = 0" for ob by (simp_all add: clear_side_def)
  show "source_inv (dx_plb_source_reset_snapshot source)"
  proof -
    have "side_inv (clear_side (bids source)) (clear_side (bids source)) {#}"
      "side_inv (clear_side (asks source)) (clear_side (asks source)) {#}"
      "cmp (bids source) = comparator_bid" "cmp (asks source) = comparator_ask"
      using assms by (auto simp: source_inv_def dest: side_inv_clear)
    then show ?thesis
      using w by (simp add: source_inv_def c sorted_orders_def orders_of_def) (simp add: dx_plb_source_reset_snapshot_def cl)
  qed
  show "snapshot_map (dx_plb_source_reset_snapshot source) = Map.empty" by (simp add: snapshot_map_def c)
  show "finals_current (dx_plb_source_reset_snapshot source)"
    by (simp add: finals_current_def c orders_of_def, simp add: dx_plb_source_reset_snapshot_def cl)
qed (simp_all add: dx_plb_source_reset_snapshot_def)

definition rebuilt :: "dxf_order dx_array \<Rightarrow> dx_plb_price_level_side \<Rightarrow> dxf_order_side \<Rightarrow> dx_plb_price_level_side" where
  "rebuilt snap ob side = (if rebuild ob then dx_plb_source_rebuild_levels snap ob side else ob)"

lemma publish_source_sides:
  "publish_source source =
     (let b = rebuilt (snapshot source) (bids source) dxf_osd_buy;
          a = rebuilt (snapshot source) (asks source) dxf_osd_sell
      in source\<lparr>bids := b, final_bids := (if updated b then b else final_bids source),
                asks := a, final_asks := (if updated a then a else final_asks source)\<rparr>)"
  by (simp add: publish_source_def rebuilt_def Let_def)

lemma rebuilt_inv:
  assumes i: "side_inv ob fin (orders_of side (contents snap))" and g: "good_orders (mset (contents snap))"
  shows "side_inv (rebuilt snap ob side) (if updated (rebuilt snap ob side) then rebuilt snap ob side else fin)
      (orders_of side (contents snap))"
    "shown (if updated (rebuilt snap ob side) then rebuilt snap ob side else fin) =
      best_levels (cmp ob) (orders_of side (contents snap))"
    "cmp (rebuilt snap ob side) = cmp ob"
proof -
  show c: "cmp (rebuilt snap ob side) = cmp ob" using rebuild_follows(4) [OF g] by (simp add: rebuilt_def)
  have "side_inv (rebuilt snap ob side) fin (orders_of side (contents snap)) \<and> \<not> rebuild (rebuilt snap ob side)"
    using i rebuild_follows [OF g, of ob side] by (simp add: rebuilt_def side_inv_def)
  then show "side_inv (rebuilt snap ob side) (if updated (rebuilt snap ob side) then rebuilt snap ob side else fin)
      (orders_of side (contents snap))"
    "shown (if updated (rebuilt snap ob side) then rebuilt snap ob side else fin) =
      best_levels (cmp ob) (orders_of side (contents snap))"
    using c by (auto simp: side_inv_def follows_def)
qed

lemma publish_spec:
  assumes "source_inv source"
  shows "source_inv (publish_source source)" "finals_current (publish_source source)"
    "snapshot (publish_source source) = snapshot source"
    "snapshot_status (publish_source source) = snapshot_status source"
    "src_symbol (publish_source source) = src_symbol source" "src_source (publish_source source) = src_source source"
proof -
  have g: "good_orders (mset (contents (snapshot source)))"
    using assms by (auto simp: source_inv_def good_orders_def)
  have s: "side_inv (bids source) (final_bids source) (orders_of dxf_osd_buy (contents (snapshot source)))"
    "side_inv (asks source) (final_asks source) (orders_of dxf_osd_sell (contents (snapshot source)))"
    "cmp (bids source) = comparator_bid" "cmp (asks source) = comparator_ask"
    using assms by (simp_all add: source_inv_def)
  note b = rebuilt_inv [OF s(1) g] and a = rebuilt_inv [OF s(2) g]
  show sn: "snapshot (publish_source source) = snapshot source"
    by (simp add: publish_source_sides Let_def)
  show "source_inv (publish_source source)"
    using assms a(1,3) b(1,3) s(3,4) by (simp add: source_inv_def sn) (simp add: publish_source_sides Let_def)
  show "finals_current (publish_source source)"
    using a(2) b(2) s(3,4) by (simp add: finals_current_def sn) (simp add: publish_source_sides Let_def)
qed (simp_all add: publish_source_sides Let_def)

definition source_ok :: "dx_plb_source \<Rightarrow> bool" where
  "source_ok source \<longleftrightarrow> source_inv source \<and> snapshot_status source \<noteq> dx_status_unknown
     \<and> (snapshot_status source = dx_status_full \<longrightarrow> finals_current source)"

lemma create_ok: "source_ok (dx_plb_source_create symbol src)"
proof -
  have s: "side_inv (new_side c) (new_side c) {#}" for c
    by (simp add: side_inv_def follows_def wf_side_def new_side_def)
  have c: "contents (snapshot (dx_plb_source_create symbol src)) = []"
    by (simp add: dx_plb_source_create_def contents_def)
  have w: "wf_array (snapshot (dx_plb_source_create symbol src))"
    by (simp add: dx_plb_source_create_def wf_array_def)
  show ?thesis
    unfolding source_ok_def source_inv_def finals_current_def c
    using s w by (simp add: dx_plb_source_create_def orders_of_def sorted_orders_def) (simp add: new_side_def)
qed

lemma finals_of_idle:
  assumes "source_inv source" "\<not> updated (asks source)" "\<not> updated (bids source)"
  shows "finals_current source"
  using assms by (simp add: source_inv_def side_inv_def finals_current_def)

lemma source_inv_status [simp]: "source_inv (source\<lparr>snapshot_status := s\<rparr>) = source_inv source"
  "finals_current (source\<lparr>snapshot_status := s\<rparr>) = finals_current source"
  "snapshot_map (source\<lparr>snapshot_status := s\<rparr>) = snapshot_map source"
  by (simp_all add: source_inv_def finals_current_def snapshot_map_def)

lemma next_status_known: "status \<noteq> dx_status_unknown \<Longrightarrow> next_status se tx status \<noteq> dx_status_unknown"
  by (cases status) (auto simp: next_status_def Let_def)

text \<open>The events a source gets, and what they do to its map of orders.\<close>

definition removes :: "dxf_order \<Rightarrow> int32 \<Rightarrow> bool" where
  "removes order flags \<longleftrightarrow> IS_FLAG_SET flags dxf_ef_remove_event \<or> dbl_eq (order_size order) (Num 0)"

definition for_source :: "dx_plb_source \<Rightarrow> int32 \<Rightarrow> dxf_char list \<Rightarrow> dxf_order \<Rightarrow> bool" where
  "for_source source event_type symbol_name order \<longleftrightarrow>
     event_type = DXF_ET_ORDER \<and> src_symbol source = symbol_name \<and> src_source source = order_source order"

definition orders_after :: "(long64 \<Rightarrow> dxf_order option) \<Rightarrow> dxf_order \<Rightarrow> int32 \<Rightarrow> long64 \<Rightarrow> dxf_order option" where
  "orders_after m order flags =
     (let m = (if IS_FLAG_SET flags dxf_ef_snapshot_begin then Map.empty else m) in
      if removes order flags then m(order_index order := None) else m(order_index order \<mapsto> order))"

lemma listener_spec:
  assumes ok: "source_ok source" and v: "removes order flags \<or> valid_order order"
  shows "\<exists>published source'. plb_event_listener (\<lambda>_. True) True event_type symbol_name order flags source = (Inr published, source')
    \<and> source_ok source' \<and> src_symbol source' = src_symbol source \<and> src_source source' = src_source source
    \<and> (published \<longrightarrow> snapshot_status source' = dx_status_full)
    \<and> snapshot_map source' = (if for_source source event_type symbol_name order
        then orders_after (snapshot_map source) order flags else snapshot_map source)"
proof (cases "for_source source event_type symbol_name order")
  case False
  then show ?thesis using ok by (auto simp: plb_event_listener_def for_source_def Let_def)
next
  case True
  define sb se tx rm where "sb = IS_FLAG_SET flags dxf_ef_snapshot_begin"
    and "se \<longleftrightarrow> IS_FLAG_SET flags dxf_ef_snapshot_end \<or> IS_FLAG_SET flags dxf_ef_snapshot_snip"
    and "tx = IS_FLAG_SET flags dxf_ef_tx_pending" and "rm = removes order flags"
  define s1 where "s1 = (if sb then (dx_plb_source_reset_snapshot source)\<lparr>snapshot_status := dx_status_begin\<rparr> else source)"
  have s1: "source_inv s1" "snapshot_status s1 \<noteq> dx_status_unknown" "src_symbol s1 = src_symbol source"
    "src_source s1 = src_source source" "snapshot_map s1 = (if sb then Map.empty else snapshot_map source)"
    using ok reset_spec [of source] by (simp_all add: s1_def source_ok_def)
  obtain s2 where s2: "dx_plb_source_process_order (\<lambda>_. True) True order rm s1 = (Inr (), s2)" "source_inv s2"
    "snapshot_status s2 = snapshot_status s1" "src_symbol s2 = src_symbol source" "src_source s2 = src_source source"
    "snapshot_map s2 = orders_after (snapshot_map source) order flags"
    using process_order_spec [OF s1(1), of rm order] v s1(3-5)
    by (auto simp: orders_after_def Let_def simp flip: rm_def sb_def split: if_splits)
  define s3 where "s3 = s2\<lparr>snapshot_status := next_status se tx (snapshot_status s2)\<rparr>"
  have s3: "source_inv s3" "snapshot_status s3 \<noteq> dx_status_unknown" "src_symbol s3 = src_symbol source"
    "src_source s3 = src_source source" "snapshot_map s3 = orders_after (snapshot_map source) order flags"
    using s1 s2 next_status_known by (simp_all add: s3_def)
  have e: "plb_event_listener (\<lambda>_. True) True event_type symbol_name order flags source =
      (if (updated (asks s3) \<or> updated (bids s3)) \<and> snapshot_status s3 = dx_status_full
       then (Inr True, publish_source s3) else (Inr False, s3))"
  proof -
    have "plb_event_listener (\<lambda>_. True) True event_type symbol_name order flags source =
      (case dx_plb_source_process_order (\<lambda>_. True) True order rm s1 of
             (Inl e, source) \<Rightarrow> (Inl e, source)
           | (Inr _, source) \<Rightarrow>
               let source = source\<lparr>snapshot_status := next_status se tx (snapshot_status source)\<rparr>
               in if (updated (asks source) \<or> updated (bids source)) \<and> snapshot_status source = dx_status_full
                  then (Inr True, publish_source source)
                  else (Inr False, source))"
      using True s1(2)
      by (simp only: plb_event_listener_def for_source_def not_not if_False if_True simp_thms Let_def
          flip: sb_def se_def tx_def rm_def [unfolded removes_def] s1_def)
    then show ?thesis unfolding s2(1) Let_def prod.case sum.case s3_def [symmetric] .
  qed
  show ?thesis
  proof (cases "(updated (asks s3) \<or> updated (bids s3)) \<and> snapshot_status s3 = dx_status_full")
    case p: True
    have "snapshot_map (publish_source s3) = snapshot_map s3" by (simp add: snapshot_map_def publish_spec(3) [OF s3(1)])
    with p s3 publish_spec [OF s3(1)] True e show ?thesis by (auto simp: source_ok_def)
  next
    case False
    with s3 finals_of_idle [OF s3(1)] True e show ?thesis by (auto simp: source_ok_def)
  qed
qed

section \<open>Runs of a source\<close>

text \<open>The events of one source, in the order in which the listener gets them.\<close>

fun feed_source :: "(dxf_order \<times> int32) list \<Rightarrow> (dx_plb_source, unit) io" where
  "feed_source [] source = (Inr (), source)"
| "feed_source ((order, flags) # events) source =
     (case plb_event_listener (\<lambda>_. True) True DXF_ET_ORDER (src_symbol source) order flags source of
        (Inl e, source) \<Rightarrow> (Inl e, source)
      | (Inr _, source) \<Rightarrow> feed_source events source)"

fun orders_after_all :: "(long64 \<Rightarrow> dxf_order option) \<Rightarrow> (dxf_order \<times> int32) list \<Rightarrow> long64 \<Rightarrow> dxf_order option" where
  "orders_after_all m [] = m"
| "orders_after_all m ((order, flags) # events) = orders_after_all (orders_after m order flags) events"

definition valid_event :: "dxf_char list \<Rightarrow> dxf_order \<times> int32 \<Rightarrow> bool" where
  "valid_event src = (\<lambda>(order, flags). order_source order = src \<and> (removes order flags \<or> valid_order order))"

lemma feed_source_spec:
  assumes "source_ok source" "\<forall>event \<in> set events. valid_event (src_source source) event"
  shows "\<exists>source'. feed_source events source = (Inr (), source') \<and> source_ok source'
    \<and> src_symbol source' = src_symbol source \<and> src_source source' = src_source source
    \<and> snapshot_map source' = orders_after_all (snapshot_map source) events"
  using assms
proof (induction events arbitrary: source)
  case (Cons event events)
  obtain order flags where ev: "event = (order, flags)" by fastforce
  have v: "removes order flags \<or> valid_order order" "for_source source DXF_ET_ORDER (src_symbol source) order"
    using Cons.prems(2) by (auto simp: valid_event_def for_source_def ev)
  obtain published s1 where s1: "plb_event_listener (\<lambda>_. True) True DXF_ET_ORDER (src_symbol source) order flags source
        = (Inr published, s1)" "source_ok s1" "src_symbol s1 = src_symbol source" "src_source s1 = src_source source"
      "snapshot_map s1 = orders_after (snapshot_map source) order flags"
    using listener_spec [OF Cons.prems(1) v(1), of DXF_ET_ORDER "src_symbol source"] v(2) by auto
  then show ?case using Cons.IH [OF s1(2)] Cons.prems(2) by (simp add: ev)
qed auto

text \<open>The multiset of the orders of a map.\<close>

definition orders_in :: "(long64 \<Rightarrow> dxf_order option) \<Rightarrow> dxf_order_side \<Rightarrow> dxf_order multiset" where
  "orders_in m side = {#x \<in># mset_set (ran m). order_side x = side#}"

lemma sorted_orders_distinct: "sorted_orders xs \<Longrightarrow> distinct (map order_index xs)"
proof -
  assume "sorted_orders xs"
  then have "sorted_wrt (<) (map order_key xs)" by (simp add: sorted_orders_def sorted_wrt_map)
  then have "distinct (map order_key xs)" using strict_sorted_iff by blast
  then show ?thesis using order_key_eq by (simp add: distinct_map inj_on_def)
qed

lemma orders_in_index_map:
  assumes "sorted_orders xs"
  shows "orders_in (index_map xs) side = orders_of side xs"
proof -
  have d: "distinct (map order_index xs)" by (rule sorted_orders_distinct [OF assms])
  have "distinct (map fst (map (\<lambda>x. (order_index x, x)) xs))" using d by (simp add: comp_def)
  then have "ran (index_map xs) = snd ` set (map (\<lambda>x. (order_index x, x)) xs)"
    unfolding index_map_def by (rule ran_distinct)
  also have "\<dots> = set xs" by (simp add: image_image)
  finally have "mset_set (ran (index_map xs)) = mset xs"
    using d by (simp add: mset_set_set distinct_map)
  then show ?thesis by (simp add: orders_in_def orders_of_def)
qed

lemma finals_current_map:
  assumes "source_inv source"
  shows "finals_current source \<longleftrightarrow>
    shown (final_bids source) = best_levels comparator_bid (orders_in (snapshot_map source) dxf_osd_buy)
    \<and> shown (final_asks source) = best_levels comparator_ask (orders_in (snapshot_map source) dxf_osd_sell)"
  using assms by (simp add: finals_current_def snapshot_map_def orders_in_index_map source_inv_def)

section \<open>Properties\<close>

text \<open>
  C10: A source of the price level book, from its creation and after any sequence of its order events
  (additions, updates, removals, snapshot begins and ends, transactions) in which every order that is
  not a removal has a price, a positive size and a side: the listener never fails, the snapshot holds
  exactly the orders of the sequence, by index, and whenever no transaction or snapshot is open the
  final sides show exactly the ten best prices with the total size of the orders at each.
\<close>

theorem source_levels:
  assumes "\<forall>event \<in> set events. valid_event (take (DXF_RECORD_SUFFIX_SIZE - 1) src) event"
  shows "\<exists>source. feed_source events (dx_plb_source_create symbol src) = (Inr (), source)
    \<and> snapshot_map source = orders_after_all Map.empty events
    \<and> (snapshot_status source = dx_status_full \<longrightarrow>
        shown (final_bids source) = best_levels comparator_bid (orders_in (snapshot_map source) dxf_osd_buy)
        \<and> shown (final_asks source) = best_levels comparator_ask (orders_in (snapshot_map source) dxf_osd_sell))"
proof -
  have "snapshot_map (dx_plb_source_create symbol src) = Map.empty"
    by (simp add: dx_plb_source_create_def snapshot_map_def contents_def)
  with feed_source_spec [OF create_ok, of events symbol src] assms show ?thesis
    by (auto simp: source_ok_def finals_current_map dx_plb_source_create_def)
qed

theorem source_levels_witness:
  "\<exists>source. feed_source [(\<lparr>order_index = 5, order_side = dxf_osd_buy, order_price = Num 10, order_size = Num 2,
        order_time = 0, order_source = []\<rparr>, 0)] (dx_plb_source_create [65] []) = (Inr (), source)
    \<and> (snapshot_status source = dx_status_full \<longrightarrow>
        shown (final_bids source) = best_levels comparator_bid (orders_in (snapshot_map source) dxf_osd_buy))"
  using source_levels [of "[(\<lparr>order_index = 5, order_side = dxf_osd_buy, order_price = Num 10, order_size = Num 2,
        order_time = 0, order_source = []\<rparr>, 0)]" "[]" "[65]"]
  by (auto simp: valid_event_def valid_order_def good_order_def)

text \<open>
  C14: Processing an order is an update of the map from index to order, on every path (fast path by the
  low half of the index, binary search in a part of the snapshot, insertion, replacement, deletion),
  with the invariant of the source kept: the snapshot stays sorted and the sides follow its orders.
\<close>

theorem process_order_refines:
  assumes "source_inv source" "rm \<or> valid_order order"
  shows "\<exists>source'. dx_plb_source_process_order (\<lambda>_. True) True order rm source = (Inr (), source')
    \<and> source_inv source'
    \<and> snapshot_map source' = (if rm then (snapshot_map source)(order_index order := None)
        else (snapshot_map source)(order_index order \<mapsto> order))"
  using process_order_spec [OF assms] by blast

theorem process_order_refines_witness:
  "\<exists>source'. dx_plb_source_process_order (\<lambda>_. True) True (zero_order\<lparr>order_index := 5\<rparr>) True
      (dx_plb_source_create [65] []) = (Inr (), source') \<and> source_inv source'"
  using process_order_refines [of "dx_plb_source_create [65] []" True "zero_order\<lparr>order_index := 5\<rparr>"]
    create_ok [of "[65]" "[]"] by (auto simp: source_ok_def)

text \<open>
  When the snapshot cannot grow, an order that is not in it is counted in the levels all the same:
  the levels then show an order the snapshot does not hold, and the capacity promises a slot that the
  block does not have.
\<close>

theorem lost_order_counted:
  "let source = (dx_plb_source_create [65] [])\<lparr>snapshot := \<lparr>elements = [], arr_size = 0, capacity = 0\<rparr>\<rparr>;
       order = \<lparr>order_index = 5, order_side = dxf_osd_buy, order_price = Num 10, order_size = Num 2,
                order_time = 0, order_source = []\<rparr>;
       (r, source') = dx_plb_source_process_order (\<lambda>_. False) True order False source
   in r = Inr () \<and> contents (snapshot source') = [] \<and> shown (bids source') = [(10, 2)]
     \<and> capacity (snapshot source') = 1 \<and> elements (snapshot source') = []"
  by code_simp

end
