(* ===== verification/Dx_Plb_Book.thy ===== *)
theory Dx_Plb_Book
  imports Dx_Plb_Source
begin

text \<open>
  The books of the price level book (\<open>PriceLevelBook.c\<close>): the merge of the final sides of the sources
  of a book, \<open>dx_plb_book_update\<close> with the calls of the listeners, and the listener array.

  \<open>combined\<close> is the specification of the merge on lists of price and size pairs.  \<open>merge_levels_spec\<close>
  relates the loop of the code to it, \<open>combined_best_levels\<close> says that merging the ten best levels of
  several multisets of orders gives the ten best levels of all the orders together, and
  \<open>book_update_spec\<close> puts both together.  \<open>listener_map\<close> reads the listener array as a map.
\<close>

section \<open>Merging the sources of a book\<close>

definition isnan :: "dbl \<Rightarrow> bool" where
  "isnan x \<longleftrightarrow> x = NaN"

text \<open>The inner loop: the best level among the next ones of the sources; equal prices add up.\<close>

fun best_of ::
  "(dxf_price_level_element \<Rightarrow> dxf_price_level_element \<Rightarrow> int) \<Rightarrow> dxf_price_level_element
   \<Rightarrow> dx_plb_price_level_side list \<Rightarrow> nat list \<Rightarrow> dxf_price_level_element" where
  "best_of cmpf best (src # srcs) (si # sidx) =
     best_of cmpf
       (if si < side_count src \<and> \<not> isnan (level_price (levels src ! si)) then
          let c = cmpf best (levels src ! si) in
          if c = 0 then
            best\<lparr>level_size := dbl_plus (level_size best) (level_size (levels src ! si)),
                 level_time := max (level_time best) (level_time (levels src ! si))\<rparr>
          else if c > 0 then levels src ! si
          else best
        else best) srcs sidx"
| "best_of cmpf best _ _ = best"

fun advance_sidx ::
  "dxf_price_level_element \<Rightarrow> dx_plb_price_level_side list \<Rightarrow> nat list \<Rightarrow> nat list" where
  "advance_sidx best (src # srcs) (si # sidx) =
     (if si < side_count src \<and> dbl_eq (level_price (levels src ! si)) (level_price best) then si + 1 else si)
     # advance_sidx best srcs sidx"
| "advance_sidx best _ sidx = sidx"

text \<open>The outer loop, \<open>n\<close> steps before \<open>didx\<close> reaches \<open>MAX_PRICE_LEVELS\<close>.\<close>

fun merge_levels ::
  "nat \<Rightarrow> dx_plb_price_level_side \<Rightarrow> dx_plb_price_level_side list \<Rightarrow> dbl \<Rightarrow> nat list \<Rightarrow> nat \<Rightarrow> bool
   \<Rightarrow> bool \<times> dx_plb_price_level_side" where
  "merge_levels 0 dst srcs startValue sidx didx changed = (changed, dst\<lparr>side_count := didx\<rparr>)"
| "merge_levels (Suc n) dst srcs startValue sidx didx changed =
     (let best = best_of (compare_levels (cmp dst))
            \<lparr>level_price = startValue, level_size = Num 0, level_time = 0\<rparr> srcs sidx
      in if dbl_eq (level_size best) (Num 0) then (changed, dst\<lparr>side_count := didx\<rparr>)
         else
           let (dst, changed) = (if levels dst ! didx \<noteq> best
                 then (dst\<lparr>levels := (levels dst)[didx := best]\<rparr>, True) else (dst, changed))
           in merge_levels n dst srcs startValue (advance_sidx best srcs sidx) (didx + 1) changed)"

text \<open>\<open>mem\<close>: the array of indices can be allocated; otherwise its first use is undefined.\<close>

definition dx_plb_book_update_one_side ::
  "bool \<Rightarrow> dx_plb_price_level_side list \<Rightarrow> dbl \<Rightarrow> (dx_plb_price_level_side, bool) io" where
  "dx_plb_book_update_one_side mem srcs startValue = (\<lambda>dst.
     if \<not> mem \<and> srcs \<noteq> [] then (Inl UB, dst)
     else case merge_levels MAX_PRICE_LEVELS dst srcs startValue (replicate (length srcs) 0) 0 False of
       (changed, dst) \<Rightarrow> (Inr changed, dst))"

section \<open>Books\<close>

text \<open>
  A listener is known by its function pointer and has a pointer to user data; both are numbers here.
  \<open>bids_count\<close> and \<open>asks_count\<close> are the fields of the public structure \<open>book->book\<close>, whose arrays are
  those of the two sides.  A book refers to its sources by their places in the store of sources:
  \<open>src_bids\<close> and \<open>src_asks\<close> of the code are the final sides of those sources.
\<close>

record dx_plb_listener_context =
  listener :: long64
  user_data :: long64

record dx_price_level_book =
  book_symbol :: "dxf_char list"
  book_sources :: "nat list"
  listeners :: "dx_plb_listener_context dx_array"
  book_bids :: dx_plb_price_level_side
  book_asks :: dx_plb_price_level_side
  bids_count :: nat
  asks_count :: nat

definition new_book :: "dxf_char list \<Rightarrow> dx_price_level_book" where
  "new_book symbol = \<lparr>book_symbol = symbol, book_sources = [], listeners = DX_EMPTY_ARRAY,
     book_bids = new_side comparator_bid, book_asks = new_side comparator_ask, bids_count = 0, asks_count = 0\<rparr>"

text \<open>One call of a listener: the function, its data, and the bids and asks it can read.\<close>

record plb_call =
  called :: dx_plb_listener_context
  bids_seen :: "dxf_price_level_element list"
  asks_seen :: "dxf_price_level_element list"

definition listener_calls :: "dx_price_level_book \<Rightarrow> plb_call list" where
  "listener_calls book =
     map (\<lambda>l. \<lparr>called = l, bids_seen = take (bids_count book) (levels (book_bids book)),
                asks_seen = take (asks_count book) (levels (book_asks book))\<rparr>) (contents (listeners book))"

definition dx_plb_book_update ::
  "bool \<Rightarrow> (nat \<Rightarrow> dx_plb_source) \<Rightarrow> dx_plb_source \<Rightarrow> (dx_price_level_book, plb_call list) io" where
  "dx_plb_book_update mem sources src = (\<lambda>book.
     case (if updated (bids src)
           then dx_plb_book_update_one_side mem (map (final_bids \<circ> sources) (book_sources book)) (Num 0) (book_bids book)
           else (Inr False, book_bids book)) of
       (Inl e, side) \<Rightarrow> (Inl e, book\<lparr>book_bids := side\<rparr>)
     | (Inr changed_bids, side) \<Rightarrow>
         let book = book\<lparr>book_bids := side\<rparr> in
         case (if updated (asks src)
               then dx_plb_book_update_one_side mem (map (final_asks \<circ> sources) (book_sources book))
                      (Num (10 ^ 38)) (book_asks book)
               else (Inr False, book_asks book)) of
           (Inl e, side) \<Rightarrow> (Inl e, book\<lparr>book_asks := side\<rparr>)
         | (Inr changed_asks, side) \<Rightarrow>
             let book = book\<lparr>book_asks := side\<rparr> in
             if changed_bids \<or> changed_asks then
               let book = book\<lparr>bids_count := side_count (book_bids book), asks_count := side_count (book_asks book)\<rparr>
               in (Inr (listener_calls book), book)
             else (Inr [], book))"

text \<open>\<open>DX_FORCED_NUMERIC_COMPARATOR\<close> compares the pointers as unsigned numbers.\<close>

definition dx_plb_listener_comparator :: "dx_plb_listener_context \<Rightarrow> dx_plb_listener_context \<Rightarrow> int" where
  "dx_plb_listener_comparator e1 e2 = DX_NUMERIC_COMPARATOR (listener e1) (listener e2)"

definition zero_listener :: dx_plb_listener_context where
  "zero_listener = \<lparr>listener = 0, user_data = 0\<rparr>"

definition dx_add_price_level_book_listener ::
  "(nat \<Rightarrow> bool) \<Rightarrow> long64 \<Rightarrow> long64 \<Rightarrow> (dx_price_level_book, bool) io" where
  "dx_add_price_level_book_listener mem book_listener data = (\<lambda>book.
     let ctx = \<lparr>listener = book_listener, user_data = data\<rparr>;
         (found, idx) = DX_ARRAY_SEARCH (elements (listeners book)) 0 (arr_size (listeners book)) ctx
                          dx_plb_listener_comparator False
     in if found then
          (Inr True, book\<lparr>listeners := (listeners book)\<lparr>elements := (elements (listeners book))
             [idx := (elements (listeners book) ! idx)\<lparr>user_data := data\<rparr>]\<rparr>\<rparr>)
        else case DX_ARRAY_INSERT mem zero_listener ctx idx dx_capacity_manager_halfer (listeners book) of
          (Inl UB, arr) \<Rightarrow> (Inl UB, book\<lparr>listeners := arr\<rparr>)
        | (Inl _, arr) \<Rightarrow> (Inr False, book\<lparr>listeners := arr\<rparr>)
        | (Inr _, arr) \<Rightarrow> (Inr True, book\<lparr>listeners := arr\<rparr>))"

definition dx_remove_price_level_book_listener ::
  "(nat \<Rightarrow> bool) \<Rightarrow> long64 \<Rightarrow> (dx_price_level_book, bool) io" where
  "dx_remove_price_level_book_listener mem book_listener = (\<lambda>book.
     let ctx = \<lparr>listener = book_listener, user_data = 0\<rparr>;
         (found, idx) = DX_ARRAY_SEARCH (elements (listeners book)) 0 (arr_size (listeners book)) ctx
                          dx_plb_listener_comparator False
     in if \<not> found then (Inr True, book)
        else case DX_ARRAY_DELETE mem zero_listener idx dx_capacity_manager_halfer (listeners book) of
          (Inl UB, arr) \<Rightarrow> (Inl UB, book\<lparr>listeners := arr\<rparr>)
        | (Inl _, arr) \<Rightarrow> (Inr False, book\<lparr>listeners := arr\<rparr>)
        | (Inr _, arr) \<Rightarrow> (Inr True, book\<lparr>listeners := arr\<rparr>))"

section \<open>The merge of lists of levels\<close>

text \<open>
  The same merge on lists of pairs: the best price among the heads, with the sizes of all heads of
  that price, and the rest.
\<close>

fun heads :: "(rat \<times> rat) list list \<Rightarrow> (rat \<times> rat) list" where
  "heads [] = []"
| "heads ([] # ls) = heads ls"
| "heads ((x # xs) # ls) = x # heads ls"

definition drop_head :: "rat \<Rightarrow> (rat \<times> rat) list \<Rightarrow> (rat \<times> rat) list" where
  "drop_head p xs = (case xs of [] \<Rightarrow> [] | x # xs' \<Rightarrow> if fst x = p then xs' else xs)"

definition lookup_level :: "(rat \<times> rat) list \<Rightarrow> rat \<Rightarrow> rat" where
  "lookup_level xs p = (case map_of xs p of None \<Rightarrow> 0 | Some s \<Rightarrow> s)"

text \<open>All prices of the lists, best first, with the total over the lists.\<close>

definition combined :: "dx_plb_comparator \<Rightarrow> (rat \<times> rat) list list \<Rightarrow> (rat \<times> rat) list" where
  "combined c ls = map (\<lambda>p. (p, \<Sum>xs\<leftarrow>ls. lookup_level xs p)) (ordered_prices c (\<Union>xs \<in> set ls. fst ` set xs))"

definition sorted_levels :: "dx_plb_comparator \<Rightarrow> (rat \<times> rat) list \<Rightarrow> bool" where
  "sorted_levels c xs \<longleftrightarrow> sorted_wrt (\<lambda>x y. lrank c x < lrank c y) xs"

lemma sorted_levels_simps [simp]:
  "sorted_levels c []"
  "sorted_levels c (x # xs) \<longleftrightarrow> (\<forall>y \<in> set xs. lrank c x < lrank c y) \<and> sorted_levels c xs"
  by (simp_all add: sorted_levels_def)

lemma heads_iff: "x \<in> set (heads ls) \<longleftrightarrow> (\<exists>xs. x # xs \<in> set ls)"
  by (induction ls rule: heads.induct) auto

lemma lookup_level_simps [simp]:
  "lookup_level [] p = 0"
  "lookup_level (x # xs) p = (if fst x = p then snd x else lookup_level xs p)"
  by (cases x; simp add: lookup_level_def)+

lemma lookup_level_none: "p \<notin> fst ` set xs \<Longrightarrow> lookup_level xs p = 0"
  by (induction xs) auto

lemma lookup_level_mem: "sorted_levels c xs \<Longrightarrow> (p, s) \<in> set xs \<Longrightarrow> lookup_level xs p = s"
  by (induction xs) force+

lemma sorted_drop_head [simp]: "sorted_levels c xs \<Longrightarrow> sorted_levels c (drop_head p xs)"
  by (cases xs) (simp_all add: drop_head_def)

text \<open>The best of the heads is the best of all.\<close>

lemma all_behind_heads:
  assumes "\<forall>xs \<in> set ls. sorted_levels c xs" "\<forall>h \<in> set (heads ls). rank c p \<le> lrank c h"
  shows "\<forall>xs \<in> set ls. \<forall>x \<in> set xs. rank c p \<le> lrank c x"
proof (intro ballI)
  fix xs x assume x: "xs \<in> set ls" "x \<in> set xs"
  then have "xs \<noteq> []" by auto
  then obtain h ys where xs: "xs = h # ys" by (auto simp: neq_Nil_conv)
  then have "rank c p \<le> lrank c h" using x(1) assms(2) heads_iff by blast
  moreover have "lrank c h \<le> lrank c x" using assms(1) x xs by force
  ultimately show "rank c p \<le> lrank c x" by simp
qed

lemma drop_head_set:
  assumes "sorted_levels c xs" "\<forall>x \<in> set xs. rank c p \<le> lrank c x"
  shows "fst ` set (drop_head p xs) = fst ` set xs - {p}"
    "q \<noteq> p \<Longrightarrow> lookup_level (drop_head p xs) q = lookup_level xs q"
    "lookup_level xs p = (case xs of [] \<Rightarrow> 0 | h # _ \<Rightarrow> if fst h = p then snd h else 0)"
proof -
  have tl: "p \<notin> fst ` set ys" if "xs = h # ys" for h ys
    using assms that by force
  show "fst ` set (drop_head p xs) = fst ` set xs - {p}"
    using tl by (cases xs) (auto simp: drop_head_def)
  show "q \<noteq> p \<Longrightarrow> lookup_level (drop_head p xs) q = lookup_level xs q"
    by (cases xs) (auto simp: drop_head_def)
  show "lookup_level xs p = (case xs of [] \<Rightarrow> 0 | h # _ \<Rightarrow> if fst h = p then snd h else 0)"
    using tl lookup_level_none by (cases xs) auto
qed

lemma ordered_prices_Cons:
  assumes "finite S" "p \<in> S" "\<forall>q \<in> S. rank c p \<le> rank c q"
  shows "ordered_prices c S = p # ordered_prices c (S - {p})"
proof (rule rank_sorted_unique [of c])
  have "rank c p < rank c q" if "q \<in> S - {p}" for q
    using assms(3) that rank_inject [of c p q] by force
  then show "sorted_wrt (\<lambda>x y. rank c x < rank c y) (p # ordered_prices c (S - {p}))"
    using assms(1) by (simp add: sorted_ordered_prices)
qed (use assms in \<open>auto simp: sorted_ordered_prices\<close>)

lemma sum_heads:
  assumes "\<forall>xs \<in> set ls. sorted_levels c xs" "\<forall>h \<in> set (heads ls). rank c p \<le> lrank c h"
  shows "(\<Sum>xs\<leftarrow>ls. lookup_level xs p) = (\<Sum>h\<leftarrow>heads ls. if fst h = p then snd h else 0)"
  using assms
proof (induction ls rule: heads.induct)
  case (3 x xs ls)
  have "lookup_level (x # xs) p = (if fst x = p then snd x else 0)"
    using drop_head_set(3) [of c "x # xs" p] all_behind_heads [OF 3(2,3)] 3(2) by simp
  with 3 show ?case by simp
qed simp_all

lemma combined_step:
  assumes s: "\<forall>xs \<in> set ls. sorted_levels c xs" and p: "p \<in> fst ` set (heads ls)"
    and le: "\<forall>h \<in> set (heads ls). rank c p \<le> lrank c h"
  shows "combined c ls = (p, \<Sum>h\<leftarrow>heads ls. if fst h = p then snd h else 0) # combined c (map (drop_head p) ls)"
proof -
  note all = all_behind_heads [OF s le]
  let ?S = "\<Union>xs \<in> set ls. fst ` set xs"
  have "p \<in> ?S" using p by (force simp: heads_iff)
  moreover have "\<forall>q \<in> ?S. rank c p \<le> rank c q" using all by force
  ultimately have o: "ordered_prices c ?S = p # ordered_prices c (?S - {p})"
    by (intro ordered_prices_Cons) simp_all
  have "(\<Union>xs \<in> set (map (drop_head p) ls). fst ` set xs) = (\<Union>xs \<in> set ls. fst ` set (drop_head p xs))" by simp
  also have "\<dots> = (\<Union>xs \<in> set ls. fst ` set xs - {p})"
    using s all drop_head_set(1) by (intro SUP_cong refl) blast
  also have "\<dots> = ?S - {p}" by blast
  finally have S: "(\<Union>xs \<in> set (map (drop_head p) ls). fst ` set xs) = ?S - {p}" .
  have "(\<Sum>xs\<leftarrow>map (drop_head p) ls. lookup_level xs q) = (\<Sum>xs\<leftarrow>ls. lookup_level xs q)" if "q \<noteq> p" for q
  proof -
    have "(\<Sum>xs\<leftarrow>ls. lookup_level (drop_head p xs) q) = (\<Sum>xs\<leftarrow>ls. lookup_level xs q)"
      using s all that drop_head_set(2) by (intro arg_cong [where f = sum_list] map_cong refl) blast
    then show ?thesis by (simp add: comp_def)
  qed
  then show ?thesis
    unfolding combined_def S o by (simp add: sum_heads [OF s le])
qed

lemma combined_none: "heads ls = [] \<Longrightarrow> combined c ls = []"
proof -
  assume "heads ls = []"
  then have "\<forall>xs \<in> set ls. xs = []" using heads_iff by (metis empty_iff list.exhaust list.set(1))
  then have "(\<Union>xs \<in> set ls. fst ` set xs) = {}" by simp
  then show ?thesis by (cases c) (simp_all add: combined_def ordered_prices_def)
qed

lemma best_head:
  assumes "heads ls \<noteq> []"
  obtains p where "p \<in> fst ` set (heads ls)" "\<forall>h \<in> set (heads ls). rank c p \<le> lrank c h"
proof -
  let ?R = "(\<lambda>h. lrank c h) ` set (heads ls)"
  have "Min ?R \<in> ?R" using assms by (intro Min_in) simp_all
  then obtain h where "h \<in> set (heads ls)" "lrank c h = Min ?R" by auto
  then have "h \<in> set (heads ls)" "\<forall>h' \<in> set (heads ls). lrank c h \<le> lrank c h'" by simp_all
  then show ?thesis using that [of "fst h"] by blast
qed

text \<open>Ten steps see at most ten levels of each source.\<close>

lemma heads_cong:
  assumes "list_all2 (\<lambda>xs ys. take (Suc n) xs = take (Suc n) ys) ls ls'"
  shows "heads ls = heads ls'"
  using assms
proof (induction ls ls' rule: list_all2_induct)
  case (Cons xs ls ys ls')
  then show ?case by (cases xs; cases ys) simp_all
qed simp

lemma take_Cons_cong: "take n xs = take n ys \<Longrightarrow> take n (x # xs) = take n (x # ys)"
proof (cases n)
  case (Suc m)
  assume "take n xs = take n ys"
  then have "take m (take n xs) = take m (take n ys)" by simp
  then show ?thesis by (simp add: Suc min_def)
qed simp

lemma take_combined:
  assumes "list_all2 (\<lambda>xs ys. take n xs = take n ys) ls ls'"
    "\<forall>xs \<in> set ls. sorted_levels c xs" "\<forall>xs \<in> set ls'. sorted_levels c xs"
  shows "take n (combined c ls) = take n (combined c ls')"
  using assms
proof (induction n arbitrary: ls ls')
  case (Suc n)
  note h = heads_cong [OF Suc.prems(1)]
  show ?case
  proof (cases "heads ls = []")
    case True
    with h combined_none show ?thesis by metis
  next
    case False
    then obtain p where p: "p \<in> fst ` set (heads ls)" "\<forall>h \<in> set (heads ls). rank c p \<le> lrank c h"
      by (rule best_head)
    have d: "take n (drop_head p xs) = take n (drop_head p ys)" if "take (Suc n) xs = take (Suc n) ys" for xs ys
      using that by (cases xs; cases ys) (auto simp: drop_head_def intro: take_Cons_cong)
    have "list_all2 (\<lambda>xs ys. take n xs = take n ys) (map (drop_head p) ls) (map (drop_head p) ls')"
      unfolding list_all2_map1 list_all2_map2 by (rule list_all2_mono [OF Suc.prems(1) d])
    then have "take n (combined c (map (drop_head p) ls)) = take n (combined c (map (drop_head p) ls'))"
      by (rule Suc.IH) (use Suc.prems(2,3) in auto)
    then show ?thesis
      using combined_step [OF Suc.prems(2) p] combined_step [OF Suc.prems(3), of p] p h by simp
  qed
qed simp

text \<open>Combining the levels of several multisets of orders gives the levels of all orders.\<close>

lemma price_total_union: "price_total (os + os') p = price_total os p + price_total os' p"
  by (simp add: price_total_def)

lemma price_total_sum: "price_total (\<Sum>os\<leftarrow>oss. os) p = (\<Sum>os\<leftarrow>oss. price_total os p)"
  by (induction oss) (simp_all add: price_total_union, simp add: price_total_def)

lemma lookup_price_levels:
  assumes "good_orders os"
  shows "lookup_level (price_levels c os) p = price_total os p"
proof (cases "p \<in> prices os")
  case True
  then obtain s where s: "(p, s) \<in> set (price_levels c os)"
    using price_levels_prices [of c os] by (metis imageE prod.collapse)
  have "sorted_levels c (price_levels c os)" by (simp add: sorted_levels_def price_levels_sorted)
  with s have "lookup_level (price_levels c os) p = s" by (rule lookup_level_mem [rotated])
  with s show ?thesis using price_levels_total by metis
next
  case False
  then have "p \<notin> fst ` set (price_levels c os)" by (simp add: price_levels_prices)
  with assms False show ?thesis by (simp add: lookup_level_none price_total_none)
qed

lemma combined_price_levels:
  assumes "\<forall>os \<in> set oss. good_orders os"
  shows "combined c (map (price_levels c) oss) = price_levels c (\<Sum>os\<leftarrow>oss. os)"
proof -
  have "prices (\<Sum>os\<leftarrow>oss. os) = (\<Union>os \<in> set oss. prices os)"
    by (induction oss) (simp_all add: prices_def image_Un)
  moreover have "(\<Union>xs \<in> set (map (price_levels c) oss). fst ` set xs) = (\<Union>os \<in> set oss. prices os)"
    by (simp add: price_levels_prices)
  moreover have "(\<Sum>xs\<leftarrow>map (price_levels c) oss. lookup_level xs p) = price_total (\<Sum>os\<leftarrow>oss. os) p" for p
  proof -
    have "(\<Sum>os\<leftarrow>oss. lookup_level (price_levels c os) p) = (\<Sum>os\<leftarrow>oss. price_total os p)"
      by (intro arg_cong [where f = sum_list] map_cong refl lookup_price_levels) (use assms in blast)
    then show ?thesis unfolding price_total_sum by (simp add: comp_def)
  qed
  ultimately show ?thesis by (simp add: combined_def price_levels_def prices_def)
qed

lemma sorted_price_levels [simp]: "sorted_levels c (price_levels c os)" "sorted_levels c (best_levels c os)"
  by (simp_all add: sorted_levels_def best_levels_def price_levels_sorted sorted_wrt_take)

lemma combined_best_levels:
  assumes "\<forall>os \<in> set oss. good_orders os"
  shows "take MAX_PRICE_LEVELS (combined c (map (best_levels c) oss)) = best_levels c (\<Sum>os\<leftarrow>oss. os)"
proof -
  have "list_all2 (\<lambda>xs ys. take MAX_PRICE_LEVELS xs = take MAX_PRICE_LEVELS ys)
      (map (best_levels c) oss) (map (price_levels c) oss)"
    by (simp add: list_all2_map1 list_all2_map2 list_all2_same best_levels_def)
  then have "take MAX_PRICE_LEVELS (combined c (map (best_levels c) oss)) =
      take MAX_PRICE_LEVELS (combined c (map (price_levels c) oss))"
    by (rule take_combined) auto
  also have "\<dots> = best_levels c (\<Sum>os\<leftarrow>oss. os)"
    unfolding combined_price_levels [OF assms] best_levels_def by simp
  finally show ?thesis .
qed

section \<open>The code merges\<close>

text \<open>What is left of each source behind its index.\<close>

definition remaining :: "dx_plb_price_level_side list \<Rightarrow> nat list \<Rightarrow> (rat \<times> rat) list list" where
  "remaining srcs sidx = map2 (\<lambda>src si. drop si (shown src)) srcs sidx"

lemma remaining_simps [simp]:
  "remaining [] sidx = []" "remaining srcs [] = []"
  "remaining (src # srcs) (si # sidx) = drop si (shown src) # remaining srcs sidx"
  by (simp_all add: remaining_def)

lemma used_level:
  assumes "wf_side src" "si < side_count src"
  obtains p s where "level_price (levels src ! si) = Num p" "level_size (levels src ! si) = Num s"
    "drop si (shown src) = (p, s) # drop (si + 1) (shown src)"
proof -
  have "levels src ! si \<in> set (take (side_count src) (levels src))"
    using assms by (auto simp: wf_side_def in_set_conv_nth intro!: exI [of _ si])
  then obtain p s where l: "level_price (levels src ! si) = Num p" "level_size (levels src ! si) = Num s"
    using assms(1) by (auto simp: wf_side_def)
  have "drop si (shown src) = shown src ! si # drop (si + 1) (shown src)"
    using assms length_shown by (simp add: Cons_nth_drop_Suc)
  then show ?thesis using that l assms by (simp add: shown_nth)
qed

lemma heads_Cons: "heads (xs # ls) = (case xs of [] \<Rightarrow> heads ls | x # _ \<Rightarrow> x # heads ls)"
  by (cases xs) simp_all

lemma compare_levels_rank:
  assumes "level_price x = Num p" "level_price y = Num q"
  shows "compare_levels c x y = 0 \<longleftrightarrow> p = q" "compare_levels c x y > 0 \<longleftrightarrow> rank c q < rank c p"
  using assms by (cases c; auto simp: dx_plb_pricelvel_comparator_ask_def dx_plb_pricelvel_comparator_bid_def dbl_comparator_def)+

lemma best_of_spec:
  assumes "length sidx = length srcs" "\<forall>src \<in> set srcs. wf_side src"
    and "level_price best = Num q" "level_size best = Num t"
  shows "\<exists>p s. level_price (best_of (compare_levels c) best srcs sidx) = Num p
    \<and> level_size (best_of (compare_levels c) best srcs sidx) = Num s
    \<and> rank c p \<le> rank c q \<and> (\<forall>h \<in> set (heads (remaining srcs sidx)). rank c p \<le> lrank c h)
    \<and> (p = q \<or> p \<in> fst ` set (heads (remaining srcs sidx)))
    \<and> s = (if p = q then t else 0) + (\<Sum>h\<leftarrow>heads (remaining srcs sidx). if fst h = p then snd h else 0)"
  using assms
proof (induction sidx srcs arbitrary: best q t rule: list_induct2)
  case (Cons si sidx src srcs)
  have wf: "wf_side src" "\<forall>src \<in> set srcs. wf_side src" using Cons.prems(1) by simp_all
  let ?l = "levels src ! si" and ?H = "heads (remaining srcs sidx)"
  show ?case
  proof (cases "si < side_count src")
    case False
    then have "drop si (shown src) = []" using length_shown [OF wf(1)] by simp
    then show ?thesis using False Cons.IH [OF wf(2) Cons.prems(2,3)] by simp
  next
    case True
    obtain p1 s1 where l: "level_price ?l = Num p1" "level_size ?l = Num s1"
      and d: "drop si (shown src) = (p1, s1) # drop (si + 1) (shown src)"
      using used_level [OF wf(1) True] by blast
    have h: "heads (remaining (src # srcs) (si # sidx)) = (p1, s1) # ?H" using d by simp
    note cr = compare_levels_rank [OF Cons.prems(2) l(1), of c]
    consider (eq) "p1 = q" | (less) "rank c p1 < rank c q" | (greater) "rank c q < rank c p1"
      using rank_inject [of c p1 q] by linarith
    then show ?thesis
    proof cases
      case eq
      define b where "b = best\<lparr>level_size := dbl_plus (level_size best) (level_size ?l),
        level_time := max (level_time best) (level_time ?l)\<rparr>"
      have b: "level_price b = Num q" "level_size b = Num (t + s1)" using Cons.prems(2,3) l by (simp_all add: b_def)
      have "best_of (compare_levels c) best (src # srcs) (si # sidx) = best_of (compare_levels c) b srcs sidx"
        using True l cr eq by (simp add: isnan_def b_def)
      with Cons.IH [OF wf(2) b] eq h show ?thesis by auto
    next
      case less
      then have "best_of (compare_levels c) best (src # srcs) (si # sidx) = best_of (compare_levels c) ?l srcs sidx"
        using True l cr by (auto simp: isnan_def Let_def)
      moreover obtain p s where ps: "level_price (best_of (compare_levels c) ?l srcs sidx) = Num p"
        "level_size (best_of (compare_levels c) ?l srcs sidx) = Num s" "rank c p \<le> rank c p1"
        "\<forall>h \<in> set ?H. rank c p \<le> lrank c h" "p = p1 \<or> p \<in> fst ` set ?H"
        "s = (if p = p1 then s1 else 0) + (\<Sum>h\<leftarrow>?H. if fst h = p then snd h else 0)"
        using Cons.IH [OF wf(2) l] by blast
      moreover have "p \<noteq> q" "rank c p \<le> rank c q" using ps(3) less by auto
      ultimately show ?thesis unfolding h by (intro exI [of _ p] exI [of _ s]) auto
    next
      case greater
      then have "best_of (compare_levels c) best (src # srcs) (si # sidx) = best_of (compare_levels c) best srcs sidx"
        using True l cr by (auto simp: isnan_def Let_def)
      moreover obtain p s where ps: "level_price (best_of (compare_levels c) best srcs sidx) = Num p"
        "level_size (best_of (compare_levels c) best srcs sidx) = Num s" "rank c p \<le> rank c q"
        "\<forall>h \<in> set ?H. rank c p \<le> lrank c h" "p = q \<or> p \<in> fst ` set ?H"
        "s = (if p = q then t else 0) + (\<Sum>h\<leftarrow>?H. if fst h = p then snd h else 0)"
        using Cons.IH [OF wf(2) Cons.prems(2,3)] by blast
      moreover have "p \<noteq> p1" "rank c p \<le> rank c p1" using ps(3) greater by auto
      ultimately show ?thesis unfolding h by (intro exI [of _ p] exI [of _ s]) auto
    qed
  qed
qed auto

lemma advance_remaining:
  assumes "length sidx = length srcs" "\<forall>src \<in> set srcs. wf_side src" "level_price best = Num p"
  shows "remaining srcs (advance_sidx best srcs sidx) = map (drop_head p) (remaining srcs sidx)
    \<and> length (advance_sidx best srcs sidx) = length srcs"
  using assms(1,2)
proof (induction sidx srcs rule: list_induct2)
  case (Cons si sidx src srcs)
  have wf: "wf_side src" using Cons.prems(1) by simp
  have "drop (if si < side_count src \<and> dbl_eq (level_price (levels src ! si)) (level_price best) then si + 1 else si) (shown src)
      = drop_head p (drop si (shown src))"
  proof (cases "si < side_count src")
    case True
    then obtain p1 s1 where "level_price (levels src ! si) = Num p1"
      "drop si (shown src) = (p1, s1) # drop (si + 1) (shown src)"
      using used_level [OF wf True] by blast
    then show ?thesis using True assms(3) by (simp add: drop_head_def)
  next
    case False
    then show ?thesis using length_shown [OF wf] by (simp add: drop_head_def)
  qed
  with Cons show ?case by simp
qed simp

definition level_pair :: "dxf_price_level_element \<Rightarrow> rat \<times> rat" where
  "level_pair l = (num (level_price l), num (level_size l))"

lemma shown_pairs: "shown ob = map level_pair (take (side_count ob) (levels ob))"
  by (simp add: shown_def level_pair_def)

definition valid_level :: "dxf_price_level_element \<Rightarrow> bool" where
  "valid_level l \<longleftrightarrow> (\<exists>p s. level_price l = Num p \<and> level_size l = Num s)"

definition in_range :: "dx_plb_comparator \<Rightarrow> rat \<Rightarrow> (rat \<times> rat) list \<Rightarrow> bool" where
  "in_range c start xs \<longleftrightarrow> (\<forall>x \<in> set xs. rank c (fst x) \<le> rank c start \<and> 0 < snd x)"

lemma in_range_drop_head [simp]: "in_range c start xs \<Longrightarrow> in_range c start (drop_head p xs)"
  by (cases xs) (simp_all add: in_range_def drop_head_def)

lemma merge_levels_spec:
  assumes "length sidx = length srcs" "\<forall>src \<in> set srcs. wf_side src"
    and "\<forall>xs \<in> set (remaining srcs sidx). sorted_levels (cmp dst) xs \<and> in_range (cmp dst) start xs"
    and "didx + n = length (levels dst)"
    and "\<forall>l \<in> set (take didx (levels dst)). valid_level l"
    and "merge_levels n dst srcs (Num start) sidx didx changed = (changed', dst')"
  shows "length (levels dst') = length (levels dst) \<and> side_count dst' \<le> length (levels dst) \<and> cmp dst' = cmp dst
    \<and> take didx (levels dst') = take didx (levels dst)
    \<and> (changed' \<longleftrightarrow> changed \<or> levels dst' \<noteq> levels dst)
    \<and> (\<forall>l \<in> set (take (side_count dst') (levels dst')). valid_level l)
    \<and> shown dst' = map level_pair (take didx (levels dst)) @ take n (combined (cmp dst) (remaining srcs sidx))"
  using assms
proof (induction n arbitrary: dst sidx didx changed)
  case 0
  then show ?case by (auto simp: shown_pairs)
next
  case (Suc n)
  let ?c = "cmp dst" and ?ls = "remaining srcs sidx"
  define best where "best = best_of (compare_levels ?c)
    \<lparr>level_price = Num start, level_size = Num 0, level_time = 0\<rparr> srcs sidx"
  have "\<exists>p s. level_price best = Num p \<and> level_size best = Num s
    \<and> rank ?c p \<le> rank ?c start \<and> (\<forall>h \<in> set (heads ?ls). rank ?c p \<le> lrank ?c h)
    \<and> (p = start \<or> p \<in> fst ` set (heads ?ls))
    \<and> s = (if p = start then 0 else 0) + (\<Sum>h\<leftarrow>heads ?ls. if fst h = p then snd h else 0)"
    unfolding best_def by (rule best_of_spec [OF Suc.prems(1,2)]) simp_all
  then obtain p s where b: "level_price best = Num p" "level_size best = Num s"
      "\<forall>h \<in> set (heads ?ls). rank ?c p \<le> lrank ?c h" "p = start \<or> p \<in> fst ` set (heads ?ls)"
      "rank ?c p \<le> rank ?c start" "s = (\<Sum>h\<leftarrow>heads ?ls. if fst h = p then snd h else 0)" by auto
  have pos: "0 < snd h" "rank ?c (fst h) \<le> rank ?c start" if "h \<in> set (heads ?ls)" for h
    using that Suc.prems(3) by (force simp: heads_iff in_range_def)+
  have sorted: "\<forall>xs \<in> set ?ls. sorted_levels ?c xs" using Suc.prems(3) by blast
  show ?case
  proof (cases "heads ?ls = []")
    case True
    then have "s = 0" using b(6) by simp
    then have "changed' = changed" "dst' = dst\<lparr>side_count := didx\<rparr>"
      using Suc.prems(6) b(2) by (simp_all add: Let_def flip: best_def)
    then show ?thesis using combined_none [OF True] Suc.prems(4,5) by (simp add: shown_pairs)
  next
    case False
    then obtain h0 where h0: "h0 \<in> set (heads ?ls)" by (meson list.set_sel(1))
    have pin: "p \<in> fst ` set (heads ?ls)"
    proof (cases "p = start")
      case True
      with h0 b(3) pos(2) [OF h0] have "rank ?c (fst h0) = rank ?c p" by force
      then have "fst h0 = p" by simp
      then show ?thesis using h0 by blast
    qed (use b(4) in blast)
    then obtain h where h: "h \<in> set (heads ?ls)" "fst h = p" by blast
    have "0 < s"
    proof -
      have "(if fst h = p then snd h else 0) \<le> s" unfolding b(6)
        by (rule member_le_sum_list) (use h pos(1) in \<open>auto intro: less_imp_le\<close>)
      then show ?thesis using pos(1) [OF h(1)] h(2) by simp
    qed
    then have cont: "\<not> dbl_eq (level_size best) (Num 0)" by (simp add: b(2))
    have didx: "didx < length (levels dst)" using Suc.prems(4) by simp
    define d1 where "d1 = dst\<lparr>levels := (levels dst)[didx := best]\<rparr>"
    define ch1 where "ch1 = (changed \<or> levels dst ! didx \<noteq> best)"
    have same: "d1 = dst" if "levels dst ! didx = best" unfolding d1_def that [symmetric] by simp
    have rec: "merge_levels n d1 srcs (Num start) (advance_sidx best srcs sidx) (didx + 1) ch1 = (changed', dst')"
      using Suc.prems(6) cont same by (auto simp: Let_def ch1_def d1_def simp flip: best_def split: if_splits)
    have t: "take (didx + 1) (levels d1) = take didx (levels dst) @ [best]"
      using didx by (simp add: d1_def take_Suc_conv_app_nth)
    note adv = advance_remaining [OF Suc.prems(1,2) b(1), THEN conjunct1]
      advance_remaining [OF Suc.prems(1,2) b(1), THEN conjunct2]
    have d1: "cmp d1 = ?c" "length (levels d1) = length (levels dst)" by (simp_all add: d1_def)
    have rs: "\<forall>xs \<in> set (remaining srcs (advance_sidx best srcs sidx)). sorted_levels (cmp d1) xs \<and> in_range (cmp d1) start xs"
      using Suc.prems(3) by (auto simp: adv(1) d1)
    have vl: "\<forall>l \<in> set (take (didx + 1) (levels d1)). valid_level l"
      unfolding t using Suc.prems(5) b(1,2) by (auto simp: valid_level_def)
    note ih = Suc.IH [OF adv(2) Suc.prems(2) rs _ vl rec]
    have "didx + 1 + n = length (levels d1)" using Suc.prems(4) d1 by simp
    from ih [OF this, unfolded t adv(1) d1] have ih: "length (levels dst') = length (levels dst)" "side_count dst' \<le> length (levels dst)"
        "cmp dst' = ?c" "take (didx + 1) (levels dst') = take didx (levels dst) @ [best]"
        "changed' \<longleftrightarrow> ch1 \<or> levels dst' \<noteq> levels d1" "\<forall>l \<in> set (take (side_count dst') (levels dst')). valid_level l"
        "shown dst' = map level_pair (take didx (levels dst) @ [best]) @ take n (combined ?c (map (drop_head p) ?ls))"
      by blast+
    have at: "levels dst' ! didx = best" "take didx (levels dst') = take didx (levels dst)"
    proof -
      have "take (didx + 1) (levels dst') ! didx = best" unfolding ih(4) using didx by (simp add: nth_append)
      then show "levels dst' ! didx = best" by simp
      have "take didx (take (didx + 1) (levels dst')) = take didx (levels dst)" unfolding ih(4) using didx by simp
      then show "take didx (levels dst') = take didx (levels dst)" by (simp add: min_def)
    qed
    have ch: "changed' \<longleftrightarrow> changed \<or> levels dst' \<noteq> levels dst"
      using ih(5) at(1) same by (cases "levels dst ! didx = best") (auto simp: ch1_def)
    have "level_pair best # take n (combined ?c (map (drop_head p) ?ls)) = take (Suc n) (combined ?c ?ls)"
      using combined_step [OF sorted pin b(3)] b by (simp add: level_pair_def)
    then show ?thesis using ih at ch by simp
  qed
qed

lemma update_one_side_spec:
  assumes srcs: "list_all2 (\<lambda>src os. wf_side src \<and> shown src = best_levels (cmp dst) os \<and> good_orders os) srcs oss"
    and range: "\<forall>os \<in> set oss. \<forall>p \<in> prices os. rank (cmp dst) p \<le> rank (cmp dst) start"
    and dst: "length (levels dst) = MAX_PRICE_LEVELS"
  shows "\<exists>dst'. dx_plb_book_update_one_side True srcs (Num start) dst = (Inr (levels dst' \<noteq> levels dst), dst')
    \<and> cmp dst' = cmp dst \<and> wf_side dst' \<and> shown dst' = best_levels (cmp dst) (\<Sum>os\<leftarrow>oss. os)"
proof -
  obtain changed dst' where m: "merge_levels MAX_PRICE_LEVELS dst srcs (Num start) (replicate (length srcs) 0) 0 False = (changed, dst')"
    by fastforce
  have good: "\<forall>os \<in> set oss. good_orders os" and wf: "\<forall>src \<in> set srcs. wf_side src"
    using srcs by (auto simp: list_all2_conv_all_nth in_set_conv_nth)
  have rem: "remaining srcs (replicate (length srcs) 0) = map (best_levels (cmp dst)) oss"
    using srcs by (induction srcs oss rule: list_all2_induct) simp_all
  have "in_range (cmp dst) start (best_levels (cmp dst) os)" if "os \<in> set oss" for os
    unfolding in_range_def
  proof
    fix x assume "x \<in> set (best_levels (cmp dst) os)"
    then have x: "x \<in> set (price_levels (cmp dst) os)" unfolding best_levels_def by (rule in_set_takeD)
    then have p: "fst x \<in> prices os" by (metis image_eqI price_levels_prices)
    have "snd x = price_total os (fst x)" using x by (intro price_levels_total [of _ _ "cmp dst"]) simp
    then have "0 < snd x" using price_total_pos p good that by simp
    with p range that show "rank (cmp dst) (fst x) \<le> rank (cmp dst) start \<and> 0 < snd x" by simp
  qed
  then have r: "\<forall>xs \<in> set (remaining srcs (replicate (length srcs) 0)). sorted_levels (cmp dst) xs \<and> in_range (cmp dst) start xs"
    unfolding rem by auto
  note ms = merge_levels_spec [OF _ wf r _ _ m]
  have "length (levels dst') = MAX_PRICE_LEVELS \<and> side_count dst' \<le> MAX_PRICE_LEVELS \<and> cmp dst' = cmp dst
    \<and> (changed \<longleftrightarrow> levels dst' \<noteq> levels dst)
    \<and> (\<forall>l \<in> set (take (side_count dst') (levels dst')). valid_level l)
    \<and> shown dst' = take MAX_PRICE_LEVELS (combined (cmp dst) (map (best_levels (cmp dst)) oss))"
    using ms dst by (simp add: rem)
  then have d: "length (levels dst') = MAX_PRICE_LEVELS" "side_count dst' \<le> MAX_PRICE_LEVELS" "cmp dst' = cmp dst"
    "changed \<longleftrightarrow> levels dst' \<noteq> levels dst" "\<forall>l \<in> set (take (side_count dst') (levels dst')). valid_level l"
    "shown dst' = best_levels (cmp dst) (\<Sum>os\<leftarrow>oss. os)"
    using combined_best_levels [OF good] by simp_all
  have "wf_side dst'"
    using d(1,2,3,5) sorted_price_levels(2) [of "cmp dst"] unfolding wf_side_def sorted_levels_def d(6) valid_level_def by simp
  moreover have "dx_plb_book_update_one_side True srcs (Num start) dst = (Inr (levels dst' \<noteq> levels dst), dst')"
    using m d(4) by (simp add: dx_plb_book_update_one_side_def)
  ultimately show ?thesis using d by blast
qed

section \<open>Updating a book\<close>

definition wf_book :: "dx_price_level_book \<Rightarrow> bool" where
  "wf_book book \<longleftrightarrow> cmp (book_bids book) = comparator_bid \<and> cmp (book_asks book) = comparator_ask
     \<and> length (levels (book_bids book)) = MAX_PRICE_LEVELS \<and> length (levels (book_asks book)) = MAX_PRICE_LEVELS"

text \<open>Prices a merge can show: bids from 0 upwards, asks up to \<open>1.0E38\<close>.\<close>

definition bid_range :: "dxf_order multiset \<Rightarrow> bool" where
  "bid_range os \<longleftrightarrow> (\<forall>p \<in> prices os. 0 \<le> p)"

definition ask_range :: "dxf_order multiset \<Rightarrow> bool" where
  "ask_range os \<longleftrightarrow> (\<forall>p \<in> prices os. p \<le> 10 ^ 38)"

text \<open>A final side shows the best levels of a multiset of orders.\<close>

definition final_shows :: "dx_plb_comparator \<Rightarrow> dx_plb_price_level_side \<Rightarrow> dxf_order multiset \<Rightarrow> bool" where
  "final_shows c fin os \<longleftrightarrow> wf_side fin \<and> good_orders os \<and> shown fin = best_levels c os"

lemma merge_levels_keeps:
  "merge_levels n dst srcs start sidx didx changed = (changed', dst') \<Longrightarrow>
    cmp dst' = cmp dst \<and> length (levels dst') = length (levels dst)"
proof (induction n arbitrary: dst sidx didx changed)
  case (Suc n)
  then show ?case by (fastforce simp: Let_def split: if_splits)
qed auto

lemma update_one_side_total:
  "\<exists>changed dst'. dx_plb_book_update_one_side True srcs start dst = (Inr changed, dst')
    \<and> cmp dst' = cmp dst \<and> length (levels dst') = length (levels dst)"
  using merge_levels_keeps by (fastforce simp: dx_plb_book_update_one_side_def split: prod.splits)

lemma update_side_spec:
  assumes "length (levels dst) = MAX_PRICE_LEVELS"
    and "\<forall>i \<in> set is. final_shows (cmp dst) (fin i) (os i) \<and> (\<forall>p \<in> prices (os i). rank (cmp dst) p \<le> rank (cmp dst) start)"
  shows "\<exists>dst'. dx_plb_book_update_one_side True (map fin is) (Num start) dst = (Inr (levels dst' \<noteq> levels dst), dst')
    \<and> cmp dst' = cmp dst \<and> wf_side dst' \<and> shown dst' = best_levels (cmp dst) (\<Sum>i\<leftarrow>is. os i)"
proof -
  have "list_all2 (\<lambda>src os. wf_side src \<and> shown src = best_levels (cmp dst) os \<and> good_orders os) (map fin is) (map os is)"
    unfolding list_all2_map1 list_all2_map2
    by (rule list_all2_same [THEN iffD2]) (use assms(2) in \<open>auto simp: final_shows_def\<close>)
  from update_one_side_spec [OF this, of start] show ?thesis using assms by simp
qed

text \<open>What the listeners of a book see after an update of it.\<close>

definition calls_show :: "dx_price_level_book \<Rightarrow> plb_call list \<Rightarrow> bool" where
  "calls_show book calls \<longleftrightarrow> calls = [] \<or>
     (map called calls = contents (listeners book)
      \<and> (\<forall>call \<in> set calls. map level_pair (bids_seen call) = shown (book_bids book)
          \<and> map level_pair (asks_seen call) = shown (book_asks book)))"

lemma book_update_spec:
  assumes wf: "wf_book book"
  shows "\<exists>calls book'. dx_plb_book_update True sources src book = (Inr calls, book')
    \<and> wf_book book' \<and> book_sources book' = book_sources book \<and> listeners book' = listeners book
    \<and> (\<not> updated (bids src) \<longrightarrow> book_bids book' = book_bids book)
    \<and> (\<not> updated (asks src) \<longrightarrow> book_asks book' = book_asks book)
    \<and> (updated (bids src) \<longrightarrow>
        (\<forall>i \<in> set (book_sources book). final_shows comparator_bid (final_bids (sources i)) (bs i) \<and> bid_range (bs i)) \<longrightarrow>
        shown (book_bids book') = best_levels comparator_bid (\<Sum>i\<leftarrow>book_sources book. bs i))
    \<and> (updated (asks src) \<longrightarrow>
        (\<forall>i \<in> set (book_sources book). final_shows comparator_ask (final_asks (sources i)) (as i) \<and> ask_range (as i)) \<longrightarrow>
        shown (book_asks book') = best_levels comparator_ask (\<Sum>i\<leftarrow>book_sources book. as i))
    \<and> calls_show book' calls"
proof -
  have c: "cmp (book_bids book) = comparator_bid" "length (levels (book_bids book)) = MAX_PRICE_LEVELS"
    "cmp (book_asks book) = comparator_ask" "length (levels (book_asks book)) = MAX_PRICE_LEVELS"
    using wf by (simp_all add: wf_book_def)
  let ?srcb = "map (final_bids \<circ> sources) (book_sources book)" and ?srca = "map (final_asks \<circ> sources) (book_sources book)"
  obtain chb b where b: "(if updated (bids src) then dx_plb_book_update_one_side True ?srcb (Num 0) (book_bids book)
        else (Inr False, book_bids book)) = (Inr chb, b)" "cmp b = comparator_bid" "length (levels b) = MAX_PRICE_LEVELS"
    using update_one_side_total [of ?srcb "Num 0" "book_bids book"] c by (cases "updated (bids src)") auto
  obtain cha a where a: "(if updated (asks src) then dx_plb_book_update_one_side True ?srca (Num (10 ^ 38)) (book_asks book)
        else (Inr False, book_asks book)) = (Inr cha, a)" "cmp a = comparator_ask" "length (levels a) = MAX_PRICE_LEVELS"
    using update_one_side_total [of ?srca "Num (10 ^ 38)" "book_asks book"] c by (cases "updated (asks src)") auto
  have bs: "shown b = best_levels comparator_bid (\<Sum>i\<leftarrow>book_sources book. bs i)"
    if "updated (bids src)"
      "\<forall>i \<in> set (book_sources book). final_shows comparator_bid (final_bids (sources i)) (bs i) \<and> bid_range (bs i)"
    using update_side_spec [of "book_bids book" "book_sources book" "final_bids \<circ> sources" bs 0] that b(1) c
    by (auto simp: bid_range_def)
  have as: "shown a = best_levels comparator_ask (\<Sum>i\<leftarrow>book_sources book. as i)"
    if "updated (asks src)"
      "\<forall>i \<in> set (book_sources book). final_shows comparator_ask (final_asks (sources i)) (as i) \<and> ask_range (as i)"
    using update_side_spec [of "book_asks book" "book_sources book" "final_asks \<circ> sources" as "10 ^ 38"] that a(1) c
    by (auto simp: ask_range_def)
  have idle: "\<not> updated (bids src) \<Longrightarrow> b = book_bids book" "\<not> updated (asks src) \<Longrightarrow> a = book_asks book"
    using a(1) b(1) by simp_all
  define b1 where "b1 = book\<lparr>book_bids := b, book_asks := a\<rparr>"
  define b2 where "b2 = b1\<lparr>bids_count := side_count b, asks_count := side_count a\<rparr>"
  have e: "dx_plb_book_update True sources src book =
      (if chb \<or> cha then (Inr (listener_calls b2), b2) else (Inr [], b1))"
    using b(1) a(1)
    by (cases "updated (bids src)"; cases "updated (asks src)") (simp_all add: dx_plb_book_update_def b2_def b1_def Let_def)
  have w: "wf_book b1" "wf_book b2" using a(2,3) b(2,3) by (simp_all add: wf_book_def b1_def b2_def)
  have calls: "calls_show b2 (listener_calls b2)" "calls_show b1 []"
    by (auto simp: calls_show_def listener_calls_def b1_def b2_def shown_pairs comp_def)
  have f: "book_bids b1 = b" "book_asks b1 = a" "book_bids b2 = b" "book_asks b2 = a"
    "book_sources b1 = book_sources book" "book_sources b2 = book_sources book"
    "listeners b1 = listeners book" "listeners b2 = listeners book"
    by (simp_all add: b1_def b2_def)
  show ?thesis
  proof (cases "chb \<or> cha")
    case True
    then show ?thesis using e w calls bs as idle f
      by (intro exI [of _ "listener_calls b2"] exI [of _ b2]) simp
  next
    case False
    then show ?thesis using e w calls bs as idle f
      by (intro exI [of _ "[]"] exI [of _ b1]) simp
  qed
qed

section \<open>What becomes public\<close>

lemma merge_unchanged:
  "merge_levels n dst srcs start sidx didx changed = (False, dst') \<Longrightarrow> \<not> changed \<and> levels dst' = levels dst"
proof (induction n arbitrary: dst sidx didx changed)
  case (Suc n)
  let ?best = "best_of (compare_levels (cmp dst)) \<lparr>level_price = start, level_size = Num 0, level_time = 0\<rparr> srcs sidx"
  show ?case
  proof (cases "dbl_eq (level_size ?best) (Num 0)")
    case False
    then show ?thesis using Suc.prems Suc.IH by (fastforce simp: Let_def split: if_splits)
  qed (use Suc.prems in \<open>auto simp: Let_def\<close>)
qed auto

text \<open>The public book: what a reader of its structure finds.\<close>

definition public_bids :: "dx_price_level_book \<Rightarrow> dxf_price_level_element list" where
  "public_bids book = take (bids_count book) (levels (book_bids book))"

definition public_asks :: "dx_price_level_book \<Rightarrow> dxf_price_level_element list" where
  "public_asks book = take (asks_count book) (levels (book_asks book))"

text \<open>
  An update publishes the book, with the counts of its sides and a call of every listener, or it has changed
  no slot of the two arrays and leaves the counts and the listeners alone.
\<close>

definition made_public :: "dx_price_level_book \<Rightarrow> dx_price_level_book \<Rightarrow> plb_call list \<Rightarrow> bool" where
  "made_public book book' calls \<longleftrightarrow> listeners book' = listeners book \<and>
    ((bids_count book' = side_count (book_bids book') \<and> asks_count book' = side_count (book_asks book')
       \<and> map called calls = contents (listeners book)
       \<and> (\<forall>call \<in> set calls. bids_seen call = public_bids book' \<and> asks_seen call = public_asks book'))
     \<or> (calls = [] \<and> bids_count book' = bids_count book \<and> asks_count book' = asks_count book
       \<and> levels (book_bids book') = levels (book_bids book) \<and> levels (book_asks book') = levels (book_asks book)))"

lemma update_published:
  assumes "dx_plb_book_update mem srcs src book = (Inr calls, book')"
  shows "made_public book book' calls"
proof -
  have one: "levels side' = levels side"
    if "dx_plb_book_update_one_side mem ss v side = (Inr False, side')" for ss v side side'
    using that merge_unchanged by (fastforce simp: dx_plb_book_update_one_side_def split: if_splits prod.splits)
  let ?srcb = "map (final_bids \<circ> srcs) (book_sources book)" and ?srca = "map (final_asks \<circ> srcs) (book_sources book)"
  obtain rb b where b: "(if updated (bids src) then dx_plb_book_update_one_side mem ?srcb (Num 0) (book_bids book)
        else (Inr False, book_bids book)) = (rb, b)" by fastforce
  obtain ra a where a: "(if updated (asks src) then dx_plb_book_update_one_side mem ?srca (Num (10 ^ 38)) (book_asks book)
        else (Inr False, book_asks book)) = (ra, a)" by fastforce
  show ?thesis
  proof (cases rb)
    case (Inl e)
    then show ?thesis using assms b by (simp add: dx_plb_book_update_def)
  next
    case rb: (Inr chb)
    show ?thesis
    proof (cases ra)
      case (Inl e)
      then show ?thesis using assms rb a b
        by (cases "updated (bids src)"; cases "updated (asks src)") (simp_all add: dx_plb_book_update_def Let_def)
    next
      case ra: (Inr cha)
      let ?b1 = "book\<lparr>book_bids := b, book_asks := a\<rparr>"
      let ?b2 = "?b1\<lparr>bids_count := side_count b, asks_count := side_count a\<rparr>"
      have e: "dx_plb_book_update mem srcs src book = (if chb \<or> cha then (Inr (listener_calls ?b2), ?b2) else (Inr [], ?b1))"
        using rb ra a b
        by (cases "updated (bids src)"; cases "updated (asks src)") (simp_all add: dx_plb_book_update_def Let_def)
      show ?thesis
      proof (cases "chb \<or> cha")
        case True
        then show ?thesis using e assms by (auto simp: made_public_def listener_calls_def public_bids_def public_asks_def comp_def)
      next
        case False
        then have "levels b = levels (book_bids book)" "levels a = levels (book_asks book)"
          using a b rb ra one by (auto split: if_splits)
        with False e assms show ?thesis by (auto simp: made_public_def)
      qed
    qed
  qed
qed

section \<open>The listeners of a book\<close>

definition listener_map :: "dx_price_level_book \<Rightarrow> long64 \<Rightarrow> long64 option" where
  "listener_map book = map_of (map (\<lambda>l. (listener l, user_data l)) (contents (listeners book)))"

definition listeners_inv :: "dx_price_level_book \<Rightarrow> bool" where
  "listeners_inv book \<longleftrightarrow> wf_array (listeners book) \<and> distinct (map listener (contents (listeners book)))"

lemma find_listener:
  assumes wf: "wf_array arr"
    and f: "DX_ARRAY_SEARCH (elements arr) 0 (arr_size arr) ctx dx_plb_listener_comparator False = (found, idx)"
  shows "idx \<le> arr_size arr" "found \<longleftrightarrow> idx < arr_size arr"
    "found \<Longrightarrow> contents arr ! idx = elements arr ! idx \<and> listener (contents arr ! idx) = listener ctx"
    "\<not> found \<Longrightarrow> listener ctx \<notin> listener ` set (contents arr)"
proof -
  have "linear_search (elements arr) 0 (arr_size arr) ctx dx_plb_listener_comparator = (found, idx)"
    using f by (simp add: DX_ARRAY_SEARCH_def)
  note s = linear_search_spec [OF this, simplified]
  have c0: "dx_plb_listener_comparator x y = 0 \<longleftrightarrow> listener x = listener y" for x y
    by (auto simp: dx_plb_listener_comparator_def DX_NUMERIC_COMPARATOR_def)
  have nth: "contents arr ! i = elements arr ! i" if "i < arr_size arr" for i
    using that by (simp add: contents_def)
  show "idx \<le> arr_size arr" "found \<longleftrightarrow> idx < arr_size arr" using s by simp_all
  show "contents arr ! idx = elements arr ! idx \<and> listener (contents arr ! idx) = listener ctx" if found
    using s that nth c0 by simp
  show "listener ctx \<notin> listener ` set (contents arr)" if "\<not> found"
  proof
    assume "listener ctx \<in> listener ` set (contents arr)"
    then obtain i where "i < arr_size arr" "listener (contents arr ! i) = listener ctx"
      using length_contents [OF wf] by (auto simp: in_set_conv_nth)
    then show False using s that nth c0 by auto
  qed
qed

lemma add_listener_spec:
  assumes inv: "listeners_inv book"
  shows "\<exists>ok book'. dx_add_price_level_book_listener mem l data book = (Inr ok, book') \<and>
    (ok \<longrightarrow> listeners_inv book' \<and> listener_map book' = (listener_map book)(l \<mapsto> data)) \<and>
    (\<not> ok \<longrightarrow> listener_map book' = listener_map book)"
proof -
  define arr ctx where "arr = listeners book" and "ctx = \<lparr>listener = l, user_data = data\<rparr>"
  have wf: "wf_array arr" and d: "distinct (map listener (contents arr))" using inv by (simp_all add: listeners_inv_def arr_def)
  obtain found idx where f: "DX_ARRAY_SEARCH (elements arr) 0 (arr_size arr) ctx dx_plb_listener_comparator False = (found, idx)"
    by fastforce
  note fl = find_listener [OF wf f]
  have lc: "listener ctx = l" "user_data ctx = data" by (simp_all add: ctx_def)
  show ?thesis
  proof (cases found)
    case True
    have fe: "listener (elements arr ! idx) = l" using fl(3) [OF True] lc by metis
    let ?x = "(elements arr ! idx)\<lparr>user_data := data\<rparr>"
    let ?b = "book\<lparr>listeners := arr\<lparr>elements := (elements arr)[idx := ?x]\<rparr>\<rparr>"
    have e: "dx_add_price_level_book_listener mem l data book = (Inr True, ?b)"
      using f True by (simp add: dx_add_price_level_book_listener_def Let_def flip: arr_def ctx_def)
    have idx: "idx < arr_size arr" using fl(2) True by simp
    note cu = contents_update(1,2) [OF wf idx, of ?x]
    have x: "listener ?x = listener (contents arr ! idx)" "listener ?x = l" using fl(3) [OF True] fe by simp_all
    note u = map_of_distinct_update [where g = user_data, OF d _ x(1), THEN conjunct1]
      map_of_distinct_update [where g = user_data, OF d _ x(1), THEN conjunct2]
    have "listeners_inv ?b \<and> listener_map ?b = (listener_map book)(l \<mapsto> data)"
      using cu u idx d length_contents [OF wf] x(2) by (simp add: listeners_inv_def listener_map_def flip: arr_def)
    then show ?thesis using e by blast
  next
    case False
    obtain r arr' where i: "DX_ARRAY_INSERT mem zero_listener ctx idx dx_capacity_manager_halfer arr = (r, arr')" by fastforce
    note s = halfer.insert_spec [OF wf fl(1) i]
    show ?thesis
    proof (cases r)
      case (Inl err)
      then have e: "dx_add_price_level_book_listener mem l data book = (Inr False, book\<lparr>listeners := arr'\<rparr>)"
        using f False i s by (simp add: dx_add_price_level_book_listener_def Let_def flip: arr_def ctx_def)
      moreover have "contents arr' = contents arr" using s Inl by (simp add: contents_def)
      ultimately show ?thesis
        by (intro exI [of _ False] exI [of _ "book\<lparr>listeners := arr'\<rparr>"]) (simp add: listener_map_def flip: arr_def)
    next
      case (Inr u)
      have e: "dx_add_price_level_book_listener mem l data book = (Inr True, book\<lparr>listeners := arr'\<rparr>)"
        using f False i Inr by (simp add: dx_add_price_level_book_listener_def Let_def flip: arr_def ctx_def)
      have idx: "idx = arr_size arr" using fl(1,2) False by simp
      have c: "wf_array arr'" "contents arr' = contents arr @ [ctx]"
        using s Inr length_contents [OF wf] by (simp_all add: idx)
      have n: "l \<notin> listener ` set (contents arr)" using fl(4) False lc by simp
      then have "map_of (map (\<lambda>l. (listener l, user_data l)) (contents arr)) l = None"
        by (force simp: map_of_eq_None_iff)
      then have "listeners_inv (book\<lparr>listeners := arr'\<rparr>) \<and> listener_map (book\<lparr>listeners := arr'\<rparr>) = (listener_map book)(l \<mapsto> data)"
        using c d n lc by (auto simp: listeners_inv_def listener_map_def map_add_def fun_eq_iff simp flip: arr_def split: option.splits)
      with e show ?thesis by blast
    qed
  qed
qed

lemma remove_listener_spec:
  assumes inv: "listeners_inv book"
  shows "\<exists>ok book'. dx_remove_price_level_book_listener mem l book = (Inr ok, book') \<and>
    (ok \<longrightarrow> listeners_inv book' \<and> listener_map book' = (listener_map book)(l := None)) \<and>
    (\<not> ok \<longrightarrow> listener_map book' = listener_map book)"
proof -
  define arr ctx where "arr = listeners book" and "ctx = \<lparr>listener = l, user_data = 0\<rparr>"
  have wf: "wf_array arr" and d: "distinct (map listener (contents arr))" using inv by (simp_all add: listeners_inv_def arr_def)
  obtain found idx where f: "DX_ARRAY_SEARCH (elements arr) 0 (arr_size arr) ctx dx_plb_listener_comparator False = (found, idx)"
    by fastforce
  note fl = find_listener [OF wf f]
  have lc: "listener ctx = l" by (simp add: ctx_def)
  show ?thesis
  proof (cases found)
    case False
    have e: "dx_remove_price_level_book_listener mem l book = (Inr True, book)"
      using f False by (simp add: dx_remove_price_level_book_listener_def Let_def flip: arr_def ctx_def)
    have "listener_map book l = None"
      using fl(4) False lc by (force simp: listener_map_def map_of_eq_None_iff simp flip: arr_def)
    then have "(listener_map book)(l := None) = listener_map book" by (simp add: fun_upd_idem)
    with e inv show ?thesis by auto
  next
    case True
    then have idx: "idx < arr_size arr" using fl(2) by simp
    have fe: "listener (elements arr ! idx) = l" "contents arr ! idx = elements arr ! idx"
      using fl(3) [OF True] lc by metis+
    obtain r arr' where i: "DX_ARRAY_DELETE mem zero_listener idx dx_capacity_manager_halfer arr = (r, arr')" by fastforce
    note s = halfer.delete_spec [OF wf idx i]
    show ?thesis
    proof (cases r)
      case (Inl err)
      then have e: "dx_remove_price_level_book_listener mem l book = (Inr False, book\<lparr>listeners := arr'\<rparr>)"
        using f True i s by (simp add: dx_remove_price_level_book_listener_def Let_def flip: arr_def ctx_def)
      moreover have "contents arr' = contents arr" using s Inl by (simp add: contents_def)
      ultimately show ?thesis
        by (intro exI [of _ False] exI [of _ "book\<lparr>listeners := arr'\<rparr>"]) (simp add: listener_map_def flip: arr_def)
    next
      case (Inr u)
      have e: "dx_remove_price_level_book_listener mem l book = (Inr True, book\<lparr>listeners := arr'\<rparr>)"
        using f True i Inr by (simp add: dx_remove_price_level_book_listener_def Let_def flip: arr_def ctx_def)
      have "listeners_inv (book\<lparr>listeners := arr'\<rparr>) \<and> listener_map (book\<lparr>listeners := arr'\<rparr>) = (listener_map book)(l := None)"
        using s Inr map_of_distinct_delete [OF d, of idx user_data] idx length_contents [OF wf] fe
        by (simp add: listeners_inv_def listener_map_def flip: arr_def)
      with e show ?thesis by blast
    qed
  qed
qed

end
