(* ===== verification/Dx_Plb_Context.thy ===== *)
theory Dx_Plb_Context
  imports Dx_Plb_Book
begin

text \<open>
  The connection context of the price level book (\<open>PriceLevelBook.c\<close>): the hash table of sources with
  its removal that closes holes, the consumers of a source, closing a book, and the delivery of an
  event to a source and from there to the books that consume it.

  \<open>wf_table\<close> says that every entry is reached from its home slot without an empty one in between;
  \<open>table_inv\<close> adds the keys and the count.  \<open>plb_inv\<close> is the invariant of the whole connection: every
  source is well formed and every side of every book is current once its sources are complete;
  \<open>deliver_spec\<close> shows that each event keeps it.
\<close>

section \<open>The table of sources\<close>

text \<open>
  \<open>context->sources\<close>, a hash table with open addressing: each slot is empty or holds the place of a
  source in the store.  \<open>key_of\<close> gives the symbol and the name of a source, \<open>src_hash\<close> its 64-bit hash.
  A search that has seen all slots would go around for ever: its answer is then \<open>None\<close>.
\<close>

type_synonym source_key = "dxf_char list \<times> dxf_char list"

fun probe :: "nat \<Rightarrow> (nat \<Rightarrow> source_key) \<Rightarrow> nat option list \<Rightarrow> source_key \<Rightarrow> nat \<Rightarrow> nat option" where
  "probe 0 key_of slots k i = None"
| "probe (Suc fuel) key_of slots k i =
     (case slots ! i of
        None \<Rightarrow> Some i
      | Some s \<Rightarrow> if key_of s = k then Some i else probe fuel key_of slots k ((i + 1) mod length slots))"

text \<open>\<open>symbol_hash\<close> is \<open>std::hash\<close> of the C++ library; the sum of both halves is computed in 64 bits.\<close>

definition dx_plb_source_hash :: "(dxf_char list \<Rightarrow> long64) \<Rightarrow> source_key \<Rightarrow> long64" where
  "dx_plb_source_hash symbol_hash = (\<lambda>(symbol, src).
     push_bit 32 (symbol_hash symbol) OR symbol_hash src)"

definition slot_of :: "(dxf_char list \<Rightarrow> long64) \<Rightarrow> nat \<Rightarrow> source_key \<Rightarrow> nat" where
  "slot_of symbol_hash cap k = unat (dx_plb_source_hash symbol_hash k) mod cap"

definition dx_plb_source_find_pos ::
  "(dxf_char list \<Rightarrow> long64) \<Rightarrow> (nat \<Rightarrow> source_key) \<Rightarrow> nat option list \<Rightarrow> source_key \<Rightarrow> nat option" where
  "dx_plb_source_find_pos symbol_hash key_of slots k =
     probe (length slots) key_of slots k (slot_of symbol_hash (length slots) k)"

text \<open>The loop of the removal, which moves later entries of the run into the hole at \<open>pos\<close>.\<close>

fun close_hole ::
  "nat \<Rightarrow> (nat \<Rightarrow> nat) \<Rightarrow> nat option list \<Rightarrow> nat \<Rightarrow> nat \<Rightarrow> (nat option list \<times> nat) option" where
  "close_hole 0 tpos_of slots pos npos = None"
| "close_hole (Suc fuel) tpos_of slots pos npos =
     (let npos = (npos + 1) mod length slots in
      case slots ! npos of
        None \<Rightarrow> Some (slots, pos)
      | Some s \<Rightarrow>
          let tpos = tpos_of s in
          if (npos > pos \<and> (tpos \<le> pos \<or> tpos > npos)) \<or> (npos < pos \<and> (tpos \<le> pos \<and> tpos > npos))
          then close_hole fuel tpos_of (slots[pos := Some s]) npos npos
          else close_hole fuel tpos_of slots pos npos)"

section \<open>Runs of occupied slots\<close>

text \<open>Steps from slot \<open>a\<close> to slot \<open>b\<close>, going up and around.\<close>

definition steps :: "nat \<Rightarrow> nat \<Rightarrow> nat \<Rightarrow> nat" where
  "steps cap a b = (if a \<le> b then b - a else b + cap - a)"

lemma steps_less: "a < cap \<Longrightarrow> b < cap \<Longrightarrow> steps cap a b < cap"
  by (auto simp: steps_def)

lemma steps_zero: "a < cap \<Longrightarrow> b < cap \<Longrightarrow> steps cap a b = 0 \<longleftrightarrow> a = b"
  by (auto simp: steps_def)

lemma steps_inject: "a < cap \<Longrightarrow> b < cap \<Longrightarrow> c < cap \<Longrightarrow> steps cap a b = steps cap a c \<longleftrightarrow> b = c"
  by (auto simp: steps_def)

lemma steps_add:
  "a < cap \<Longrightarrow> b < cap \<Longrightarrow> c < cap \<Longrightarrow> steps cap a b \<le> steps cap a c \<Longrightarrow> steps cap a b + steps cap b c = steps cap a c"
  "a < cap \<Longrightarrow> b < cap \<Longrightarrow> c < cap \<Longrightarrow> steps cap a c \<le> steps cap a b + steps cap b c"
  by (auto simp: steps_def split: if_splits)

lemma steps_next:
  assumes "a < cap" "b < cap" "a \<noteq> b"
  shows "steps cap ((a + 1) mod cap) b + 1 = steps cap a b"
proof (cases "a + 1 = cap")
  case True
  then show ?thesis using assms by (auto simp: steps_def)
next
  case False
  then have "(a + 1) mod cap = a + 1" using assms by simp
  then show ?thesis using assms by (auto simp: steps_def)
qed

lemma steps_step:
  assumes "a < cap" "b < cap" "a \<noteq> (b + 1) mod cap"
  shows "steps cap a ((b + 1) mod cap) = steps cap a b + 1"
proof (cases "b + 1 = cap")
  case True
  then show ?thesis using assms by (auto simp: steps_def)
next
  case False
  then have "(b + 1) mod cap = b + 1" using assms by simp
  then show ?thesis using assms by (auto simp: steps_def)
qed

text \<open>Every entry is reached from its slot without an empty one in between.\<close>

definition reachable :: "(nat \<Rightarrow> nat) \<Rightarrow> nat option list \<Rightarrow> bool" where
  "reachable home slots \<longleftrightarrow> (\<forall>j s x. j < length slots \<longrightarrow> slots ! j = Some s \<longrightarrow> x < length slots \<longrightarrow>
     steps (length slots) (home s) x < steps (length slots) (home s) j \<longrightarrow> slots ! x \<noteq> None)"

definition entries :: "nat option list \<Rightarrow> nat set" where
  "entries slots = {s. Some s \<in> set slots}"

definition wf_table :: "(nat \<Rightarrow> nat) \<Rightarrow> nat option list \<Rightarrow> bool" where
  "wf_table home slots \<longleftrightarrow> reachable home slots
     \<and> (\<forall>i j s. i < length slots \<longrightarrow> j < length slots \<longrightarrow> slots ! i = Some s \<longrightarrow> slots ! j = Some s \<longrightarrow> i = j)"

lemma probe_spec:
  assumes home: "\<forall>s \<in> entries slots. key_of s = k \<longrightarrow> home s = h" and r: "reachable home slots"
    and i: "i < length slots" "h < length slots"
    and seen: "\<forall>x < length slots. steps (length slots) h x < steps (length slots) h i \<longrightarrow>
        (\<exists>s. slots ! x = Some s \<and> key_of s \<noteq> k)"
    and e: "e < length slots" "slots ! e = None" "steps (length slots) h i \<le> steps (length slots) h e"
    and fuel: "steps (length slots) h e - steps (length slots) h i < fuel"
  shows "\<exists>j. probe fuel key_of slots k i = Some j \<and> j < length slots \<and>
    (case slots ! j of None \<Rightarrow> \<forall>s \<in> entries slots. key_of s \<noteq> k | Some s \<Rightarrow> key_of s = k) \<and>
    (\<forall>x < length slots. steps (length slots) h x < steps (length slots) h j \<longrightarrow> slots ! x \<noteq> None)"
  using i(1) seen e(3) fuel
proof (induction fuel arbitrary: i)
  case (Suc fuel)
  let ?d = "steps (length slots)"
  show ?case
  proof (cases "slots ! i")
    case None
    have "\<forall>s \<in> entries slots. key_of s \<noteq> k"
    proof (intro ballI notI)
      fix s assume s: "s \<in> entries slots" "key_of s = k"
      then obtain j where j: "j < length slots" "slots ! j = Some s" by (auto simp: entries_def in_set_conv_nth)
      have hs: "home s = h" using home s by simp
      have "\<not> ?d h i < ?d h j" using r [unfolded reachable_def, rule_format, OF j Suc.prems(1)] None hs by auto
      moreover have "\<not> ?d h j < ?d h i" using Suc.prems(2) j s(2) by auto
      ultimately have "?d h j = ?d h i" by simp
      then have "j = i" using steps_inject [OF i(2) j(1) Suc.prems(1)] by simp
      with j None show False by simp
    qed
    moreover have "\<forall>x < length slots. ?d h x < ?d h i \<longrightarrow> slots ! x \<noteq> None" using Suc.prems(2) by force
    ultimately show ?thesis using None Suc.prems(1) by simp
  next
    case (Some s)
    show ?thesis
    proof (cases "key_of s = k")
      case True
      moreover have "\<forall>x < length slots. ?d h x < ?d h i \<longrightarrow> slots ! x \<noteq> None" using Suc.prems(2) by force
      ultimately show ?thesis using Some Suc.prems(1) by simp
    next
      case False
      let ?i = "(i + 1) mod length slots"
      have li: "?i < length slots" using Suc.prems(1) by (intro mod_less_divisor) linarith
      have "i \<noteq> e" using e(2) Some by auto
      then have "?d h i \<noteq> ?d h e" using steps_inject [OF i(2) Suc.prems(1) e(1)] by simp
      then have lt: "?d h i < ?d h e" using Suc.prems(3) by simp
      have "h \<noteq> ?i"
      proof
        assume "h = ?i"
        then have "?d h i + 1 = length slots"
          using Suc.prems(1) by (cases "i + 1 = length slots") (auto simp: steps_def)
        moreover have "?d h e < length slots" using e(1) i(2) by (rule steps_less [rotated])
        ultimately show False using lt by simp
      qed
      then have ds: "?d h ?i = ?d h i + 1" by (rule steps_step [OF i(2) Suc.prems(1)])
      have "\<exists>s. slots ! x = Some s \<and> key_of s \<noteq> k" if "x < length slots" "?d h x < ?d h ?i" for x
      proof (cases "?d h x = ?d h i")
        case True
        then have "x = i" using steps_inject [OF i(2) that(1) Suc.prems(1)] by simp
        with Some False show ?thesis by simp
      next
        case False
        with that ds Suc.prems(2) show ?thesis by simp
      qed
      then have "\<exists>j. probe fuel key_of slots k ?i = Some j \<and> j < length slots \<and>
        (case slots ! j of None \<Rightarrow> \<forall>s \<in> entries slots. key_of s \<noteq> k | Some s \<Rightarrow> key_of s = k) \<and>
        (\<forall>x < length slots. ?d h x < ?d h j \<longrightarrow> slots ! x \<noteq> None)"
        using li ds lt Suc.prems(4) by (intro Suc.IH) auto
      with Some False show ?thesis by simp
    qed
  qed
qed simp

text \<open>
  The removal.  The slot \<open>pos\<close> counts as a hole: the entries between it and \<open>npos\<close> do not need it on
  their way, all others may; the hole aside the table is well formed.
\<close>

definition hole_inv :: "(nat \<Rightarrow> nat) \<Rightarrow> nat option list \<Rightarrow> nat \<Rightarrow> nat \<Rightarrow> bool" where
  "hole_inv home slots pos npos \<longleftrightarrow> reachable home slots \<and> slots ! pos \<noteq> None
     \<and> (\<forall>j s. j < length slots \<longrightarrow> slots ! j = Some s \<longrightarrow> j \<noteq> pos \<longrightarrow>
          steps (length slots) pos j \<le> steps (length slots) pos npos \<longrightarrow>
          \<not> steps (length slots) (home s) pos < steps (length slots) (home s) j)
     \<and> (\<forall>i j s. i < length slots \<longrightarrow> j < length slots \<longrightarrow> i \<noteq> pos \<longrightarrow> j \<noteq> pos \<longrightarrow>
          slots ! i = Some s \<longrightarrow> slots ! j = Some s \<longrightarrow> i = j)"

lemma hole_invD:
  assumes "hole_inv home slots pos npos"
  shows "slots ! pos \<noteq> None"
    "j < length slots \<Longrightarrow> slots ! j = Some s \<Longrightarrow> x < length slots \<Longrightarrow>
      steps (length slots) (home s) x < steps (length slots) (home s) j \<Longrightarrow> slots ! x \<noteq> None"
    "j < length slots \<Longrightarrow> slots ! j = Some s \<Longrightarrow> j \<noteq> pos \<Longrightarrow>
      steps (length slots) pos j \<le> steps (length slots) pos npos \<Longrightarrow>
      \<not> steps (length slots) (home s) pos < steps (length slots) (home s) j"
    "i < length slots \<Longrightarrow> j < length slots \<Longrightarrow> i \<noteq> pos \<Longrightarrow> j \<noteq> pos \<Longrightarrow>
      slots ! i = Some s \<Longrightarrow> slots ! j = Some s \<Longrightarrow> i = j"
  using assms unfolding hole_inv_def reachable_def by metis+

lemma close_hole_spec:
  assumes "hole_inv home slots pos npos" "pos < length slots" "npos < length slots"
    and home: "\<forall>s. home s < length slots"
    and e: "e < length slots" "slots ! e = None" "steps (length slots) pos npos < steps (length slots) pos e"
    and fuel: "steps (length slots) npos e \<le> fuel"
  shows "\<exists>slots' pos'. close_hole fuel home slots pos npos = Some (slots', pos') \<and> length slots' = length slots
    \<and> pos' < length slots \<and> wf_table home (slots'[pos' := None])
    \<and> entries (slots'[pos' := None]) = entries (slots[pos := None])"
  using assms
proof (induction fuel arbitrary: slots pos npos)
  case 0
  then have "npos = e" using steps_zero by auto
  then show ?case using 0 by simp
next
  case (Suc fuel)
  let ?cap = "length slots" and ?d = "steps (length slots)"
  let ?n = "(npos + 1) mod length slots"
  note inv = Suc.prems(1) and pos = Suc.prems(2) and npos = Suc.prems(3) and home = Suc.prems(4) and e = Suc.prems(5-7)
  have n: "?n < ?cap" using pos by (intro mod_less_divisor) linarith
  have "npos \<noteq> e" using e(3) by auto
  then have dn: "?d ?n e \<le> fuel" using steps_next [OF npos e(1)] Suc.prems(8) by simp
  have "?n \<noteq> pos"
  proof
    assume "?n = pos"
    then have "?d pos npos + 1 = ?cap" using npos by (cases "npos + 1 = ?cap") (auto simp: steps_def)
    then show False using steps_less [OF pos e(1)] e(3) by simp
  qed
  then have pn: "?d pos ?n = ?d pos npos + 1" by (intro steps_step pos npos) simp
  show ?case
  proof (cases "slots ! ?n")
    case None
    have "wf_table home (slots[pos := None])"
      unfolding wf_table_def reachable_def
    proof (intro conjI allI impI)
      fix j s x assume j: "j < length (slots[pos := None])" "slots[pos := None] ! j = Some s"
        "x < length (slots[pos := None])"
        "steps (length (slots[pos := None])) (home s) x < steps (length (slots[pos := None])) (home s) j"
      then have "j \<noteq> pos" using pos by auto
      with j have j': "j < ?cap" "j \<noteq> pos" "slots ! j = Some s" "x < ?cap" "?d (home s) x < ?d (home s) j" by simp_all
      have "slots ! x \<noteq> None" by (rule hole_invD(2) [OF inv j'(1,3,4,5)])
      moreover have "x \<noteq> pos"
      proof
        assume x: "x = pos"
        have far: "?d pos npos < ?d pos j" using hole_invD(3) [OF inv j'(1,3,2)] j'(5) x by (meson not_le)
        have "?d (home s) ?n < ?d (home s) j"
        proof -
          have "j \<noteq> ?n" using None j'(3) by auto
          then have "?d pos ?n < ?d pos j" using far pn steps_inject [OF pos n j'(1)] by simp
          then show ?thesis
            using steps_add(1) [OF home [rule_format] pos j'(1), of s] steps_add(2) [OF home [rule_format] pos n, of s]
              j'(5) unfolding x by simp
        qed
        then have "slots ! ?n \<noteq> None" by (rule hole_invD(2) [OF inv j'(1,3) n])
        with None show False by simp
      qed
      ultimately show "slots[pos := None] ! x \<noteq> None" by simp
    next
      fix i j s assume "i < length (slots[pos := None])" "j < length (slots[pos := None])"
        "slots[pos := None] ! i = Some s" "slots[pos := None] ! j = Some s"
      moreover from this have "i \<noteq> pos" "j \<noteq> pos" using pos by auto
      ultimately show "i = j" by (intro hole_invD(4) [OF inv]) simp_all
    qed
    then show ?thesis using None pos by (simp add: Let_def)
  next
    case (Some s)
    let ?move = "(?n > pos \<and> (home s \<le> pos \<or> home s > ?n)) \<or> (?n < pos \<and> (home s \<le> pos \<and> home s > ?n))"
    have hs: "home s < ?cap" using home by simp
    define move where "move \<longleftrightarrow> ?move"
    have step: "close_hole (Suc fuel) home slots pos npos =
        (if move then close_hole fuel home (slots[pos := Some s]) ?n ?n else close_hole fuel home slots pos ?n)"
      using Some by (simp only: close_hole.simps Let_def option.case move_def)
    have mv: "move \<longleftrightarrow> ?d (home s) pos < ?d (home s) ?n"
      using hs pos n \<open>?n \<noteq> pos\<close> by (auto simp: move_def steps_def)
    show ?thesis
    proof (cases move)
      case False
      have "hole_inv home slots pos ?n"
        unfolding hole_inv_def
      proof (intro conjI allI impI)
        fix j t assume j: "j < ?cap" "slots ! j = Some t" "j \<noteq> pos" "?d pos j \<le> ?d pos ?n"
        show "\<not> ?d (home t) pos < ?d (home t) j"
        proof (cases "j = ?n")
          case True
          then show ?thesis using j(2) Some False mv by simp
        next
          case False
          have "?d pos j \<noteq> ?d pos ?n" using False steps_inject [OF pos j(1) n] by simp
          then have "?d pos j \<le> ?d pos npos" using j(4) pn by simp
          then show ?thesis by (rule hole_invD(3) [OF inv j(1-3)])
        qed
      next
        show "reachable home slots" "slots ! pos \<noteq> None" using inv by (simp_all add: hole_inv_def)
      qed (rule hole_invD(4) [OF inv])
      moreover have "?d pos ?n < ?d pos e"
      proof -
        have "?n \<noteq> e" using Some e(2) by auto
        then have "?d pos ?n \<noteq> ?d pos e" using steps_inject [OF pos n e(1)] by simp
        then show ?thesis using pn e(3) by simp
      qed
      ultimately have "\<exists>slots' pos'. close_hole fuel home slots pos ?n = Some (slots', pos') \<and> length slots' = length slots
          \<and> pos' < length slots \<and> wf_table home (slots'[pos' := None])
          \<and> entries (slots'[pos' := None]) = entries (slots[pos := None])"
        by (intro Suc.IH [OF _ pos n home e(1,2) _ dn]) simp_all
      then show ?thesis using False by (simp only: step if_False)
    next
      case True
      then have lt: "?d (home s) pos < ?d (home s) ?n" using mv by simp
      let ?t = "slots[pos := Some s]"
      have some: "?t ! x \<noteq> None \<longleftrightarrow> slots ! x \<noteq> None" for x
        using hole_invD(1) [OF inv] pos by (cases "x = pos") simp_all
      have "reachable home ?t"
        unfolding reachable_def some length_list_update
      proof (intro allI impI)
        fix j u x assume j: "j < ?cap" "?t ! j = Some u" "x < ?cap" "?d (home u) x < ?d (home u) j"
        show "slots ! x \<noteq> None"
        proof (cases "j = pos")
          case True
          then have "u = s" using j(2) pos by simp
          then have "?d (home s) x < ?d (home s) ?n" using j(4) True lt by simp
          then show ?thesis by (rule hole_invD(2) [OF inv n Some j(3)])
        next
          case False
          then have "slots ! j = Some u" using j(2) by simp
          then show ?thesis by (rule hole_invD(2) [OF inv j(1) _ j(3,4)])
        qed
      qed
      moreover have uniq: "i = j" if "i < ?cap" "j < ?cap" "i \<noteq> ?n" "j \<noteq> ?n" "?t ! i = Some u" "?t ! j = Some u" for i j u
      proof -
        have no: "slots ! k \<noteq> Some s" if "k < ?cap" "k \<noteq> pos" "k \<noteq> ?n" for k
          using hole_invD(4) [OF inv that(1) n that(2) \<open>?n \<noteq> pos\<close>] Some that(3) by blast
        show ?thesis
        proof (cases "i = pos"; cases "j = pos")
          assume "i = pos" "j \<noteq> pos"
          then show ?thesis using that no [of j] pos by auto
        next
          assume "i \<noteq> pos" "j = pos"
          then show ?thesis using that no [of i] pos by auto
        next
          assume "i \<noteq> pos" "j \<noteq> pos"
          then show ?thesis using that by (intro hole_invD(4) [OF inv]) simp_all
        qed simp
      qed
      ultimately have hi: "hole_inv home ?t ?n ?n"
        using some Some steps_zero [OF n] steps_zero [OF n n] unfolding hole_inv_def length_list_update
        by auto
      have e': "?t ! e = None" using e some [of e] by auto
      have "?n \<noteq> e" using Some e(2) by auto
      then have "?d ?n ?n < ?d ?n e" using steps_zero [OF n e(1)] by (auto simp: steps_def)
      then have "\<exists>slots' pos'. close_hole fuel home ?t ?n ?n = Some (slots', pos') \<and> length slots' = length ?t
          \<and> pos' < length ?t \<and> wf_table home (slots'[pos' := None])
          \<and> entries (slots'[pos' := None]) = entries (?t[?n := None])"
        by (intro Suc.IH [OF hi]) (use n home e(1) e' dn in simp_all)
      moreover have "entries (?t[?n := None]) = entries (slots[pos := None])"
      proof -
        have "s' \<in> entries (?t[?n := None]) \<longleftrightarrow> s' \<in> entries (slots[pos := None])" for s'
        proof -
          have "(\<exists>i < ?cap. ?t[?n := None] ! i = Some s') \<longleftrightarrow> (\<exists>i < ?cap. slots[pos := None] ! i = Some s')"
          proof
            assume "\<exists>i < ?cap. ?t[?n := None] ! i = Some s'"
            then obtain i where "i < ?cap" "?t[?n := None] ! i = Some s'" by blast
            then show "\<exists>i < ?cap. slots[pos := None] ! i = Some s'"
              using Some n pos \<open>?n \<noteq> pos\<close> by (cases "i = pos"; cases "i = ?n") auto
          next
            assume "\<exists>i < ?cap. slots[pos := None] ! i = Some s'"
            then obtain i where "i < ?cap" "slots[pos := None] ! i = Some s'" by blast
            then show "\<exists>i < ?cap. ?t[?n := None] ! i = Some s'"
              using Some n pos \<open>?n \<noteq> pos\<close> by (cases "i = ?n") (auto simp: nth_list_update split: if_splits)
          qed
          then show ?thesis by (simp add: entries_def in_set_conv_nth)
        qed
        then show ?thesis by blast
      qed
      ultimately show ?thesis using True by (simp only: step if_True length_list_update)
    qed
  qed
qed

section \<open>The connection context\<close>

text \<open>
  The store of sources and books, the consumers of each source (\<open>source->consumers\<close>, pairs of a book
  and the index of the source in it), and the table.
\<close>

record dx_plb_connection_context =
  slots :: "nat option list"
  src_size :: nat
  sources :: "nat \<Rightarrow> dx_plb_source"
  consumers :: "nat \<Rightarrow> (nat \<times> nat) list"
  books :: "nat \<Rightarrow> dx_price_level_book"

definition key_of :: "dx_plb_connection_context \<Rightarrow> nat \<Rightarrow> source_key" where
  "key_of ctx s = (src_symbol (sources ctx s), src_source (sources ctx s))"

text \<open>Reading an empty slot of the old table dereferences a null pointer.\<close>

fun rehash :: "(dxf_char list \<Rightarrow> long64) \<Rightarrow> (nat \<Rightarrow> source_key) \<Rightarrow> nat option list \<Rightarrow> nat option list
    \<Rightarrow> dx_error + nat option list" where
  "rehash h keys [] new_slots = Inr new_slots"
| "rehash h keys (None # old) new_slots = Inl UB"
| "rehash h keys (Some s # old) new_slots =
     (case dx_plb_source_find_pos h keys new_slots (keys s) of
        None \<Rightarrow> Inl UB
      | Some pos \<Rightarrow> rehash h keys old (new_slots[pos := Some s]))"

definition dx_plb_ctx_grow_sources_hashtable ::
  "(dxf_char list \<Rightarrow> long64) \<Rightarrow> (nat \<Rightarrow> bool) \<Rightarrow> (dx_plb_connection_context, unit) io" where
  "dx_plb_ctx_grow_sources_hashtable h mem = (\<lambda>ctx.
     if \<not> mem (length (slots ctx) * 2) then (Inl dx_mec_insufficient_memory, ctx)
     else case rehash h (key_of ctx) (slots ctx) (replicate (length (slots ctx) * 2) None) of
       Inl e \<Rightarrow> (Inl e, ctx)
     | Inr new_slots \<Rightarrow> (Inr (), ctx\<lparr>slots := new_slots\<rparr>))"

definition dx_plb_ctx_find_source ::
  "(dxf_char list \<Rightarrow> long64) \<Rightarrow> dxf_char list \<Rightarrow> dxf_char list \<Rightarrow> (dx_plb_connection_context, nat option) io" where
  "dx_plb_ctx_find_source h symbol src = (\<lambda>ctx.
     case dx_plb_source_find_pos h (key_of ctx) (slots ctx) (symbol, src) of
       None \<Rightarrow> (Inl UB, ctx)
     | Some pos \<Rightarrow> (Inr (slots ctx ! pos), ctx))"

definition dx_plb_ctx_add_source ::
  "(dxf_char list \<Rightarrow> long64) \<Rightarrow> (nat \<Rightarrow> bool) \<Rightarrow> nat \<Rightarrow> (dx_plb_connection_context, bool) io" where
  "dx_plb_ctx_add_source h mem source = (\<lambda>ctx.
     let put = (\<lambda>ctx. case dx_plb_source_find_pos h (key_of ctx) (slots ctx) (key_of ctx source) of
            None \<Rightarrow> (Inl UB, ctx)
          | Some pos \<Rightarrow> (Inr True, ctx\<lparr>slots := (slots ctx)[pos := Some source], src_size := src_size ctx + 1\<rparr>))
     in if src_size ctx > length (slots ctx) div 2 then
          case dx_plb_ctx_grow_sources_hashtable h mem ctx of
            (Inl UB, ctx) \<Rightarrow> (Inl UB, ctx)
          | (Inl _, ctx) \<Rightarrow> (Inr False, ctx)
          | (Inr _, ctx) \<Rightarrow> put ctx
        else put ctx)"

definition dx_plb_ctx_remove_source ::
  "(dxf_char list \<Rightarrow> long64) \<Rightarrow> nat \<Rightarrow> (dx_plb_connection_context, bool) io" where
  "dx_plb_ctx_remove_source h source = (\<lambda>ctx.
     case dx_plb_source_find_pos h (key_of ctx) (slots ctx) (key_of ctx source) of
       None \<Rightarrow> (Inl UB, ctx)
     | Some pos \<Rightarrow>
         if slots ctx ! pos \<noteq> Some source then (Inr False, ctx)
         else case close_hole (length (slots ctx)) (\<lambda>s. slot_of h (length (slots ctx)) (key_of ctx s))
                (slots ctx) pos pos of
           None \<Rightarrow> (Inl UB, ctx)
         | Some (slots', pos') \<Rightarrow>
             (Inr True, ctx\<lparr>slots := slots'[pos' := None], src_size := src_size ctx - 1\<rparr>))"

definition dx_plb_source_add_book :: "bool \<Rightarrow> nat \<Rightarrow> nat \<Rightarrow> nat \<Rightarrow> (dx_plb_connection_context, bool) io" where
  "dx_plb_source_add_book mem source book idx = (\<lambda>ctx.
     if \<not> mem then (Inr False, ctx)
     else (Inr True, ctx\<lparr>consumers := (consumers ctx)(source := (book, idx) # consumers ctx source)\<rparr>))"

text \<open>The first consumer that is the book goes.\<close>

fun remove_consumer :: "nat \<Rightarrow> (nat \<times> nat) list \<Rightarrow> (nat \<times> nat) list" where
  "remove_consumer book [] = []"
| "remove_consumer book (c # cs) = (if fst c = book then cs else c # remove_consumer book cs)"

definition dx_plb_source_remove_book :: "nat \<Rightarrow> nat \<Rightarrow> dx_plb_connection_context \<Rightarrow> dx_plb_connection_context" where
  "dx_plb_source_remove_book source book ctx =
     ctx\<lparr>consumers := (consumers ctx)(source := remove_consumer book (consumers ctx source))\<rparr>"

text \<open>\<open>dx_plb_source_cleanup\<close> also frees the source, which takes it from no other structure.\<close>

definition dx_plb_source_cleanup :: "(dxf_char list \<Rightarrow> long64) \<Rightarrow> nat \<Rightarrow> (dx_plb_connection_context, unit) io" where
  "dx_plb_source_cleanup h source = (\<lambda>ctx.
     if consumers ctx source \<noteq> [] then (Inr (), ctx)
     else case dx_plb_ctx_remove_source h source ctx of
       (Inl e, ctx) \<Rightarrow> (Inl e, ctx)
     | (Inr _, ctx) \<Rightarrow> (Inr (), ctx))"

fun cleanup_all :: "(dxf_char list \<Rightarrow> long64) \<Rightarrow> nat list \<Rightarrow> (dx_plb_connection_context, unit) io" where
  "cleanup_all h [] ctx = (Inr (), ctx)"
| "cleanup_all h (s # ss) ctx =
     (case dx_plb_source_cleanup h s ctx of
        (Inl e, ctx) \<Rightarrow> (Inl e, ctx)
      | (Inr _, ctx) \<Rightarrow> cleanup_all h ss ctx)"

definition dx_plb_book_clear :: "(dxf_char list \<Rightarrow> long64) \<Rightarrow> nat \<Rightarrow> (dx_plb_connection_context, unit) io" where
  "dx_plb_book_clear h book = (\<lambda>ctx.
     cleanup_all h (book_sources (books ctx book))
       (fold (\<lambda>s. dx_plb_source_remove_book s book) (book_sources (books ctx book)) ctx))"

section \<open>Delivery of an event\<close>

fun update_consumers ::
  "bool \<Rightarrow> (nat \<Rightarrow> dx_plb_source) \<Rightarrow> dx_plb_source \<Rightarrow> (nat \<times> nat) list
   \<Rightarrow> (nat \<Rightarrow> dx_price_level_book, (nat \<times> plb_call list) list) io" where
  "update_consumers mem srcs src [] bs = (Inr [], bs)"
| "update_consumers mem srcs src (c # cs) bs =
     (case dx_plb_book_update mem srcs src (bs (fst c)) of
        (Inl e, book) \<Rightarrow> (Inl e, bs(fst c := book))
      | (Inr calls, book) \<Rightarrow>
          (case update_consumers mem srcs src cs (bs(fst c := book)) of
             (Inl e, bs) \<Rightarrow> (Inl e, bs)
           | (Inr rest, bs) \<Rightarrow> (Inr ((fst c, calls) # rest), bs)))"

text \<open>The event listener of the source at \<open>i\<close>, with the calls of its consumers.\<close>

definition deliver ::
  "(nat \<Rightarrow> bool) \<Rightarrow> bool \<Rightarrow> nat \<Rightarrow> int32 \<Rightarrow> dxf_char list \<Rightarrow> dxf_order \<Rightarrow> int32
   \<Rightarrow> (dx_plb_connection_context, (nat \<times> plb_call list) list) io" where
  "deliver mem mem_order i event_type symbol_name order flags = (\<lambda>ctx.
     case plb_event_listener mem mem_order event_type symbol_name order flags (sources ctx i) of
       (Inl e, source) \<Rightarrow> (Inl e, ctx\<lparr>sources := (sources ctx)(i := source)\<rparr>)
     | (Inr published, source) \<Rightarrow>
         let ctx = ctx\<lparr>sources := (sources ctx)(i := source)\<rparr> in
         if published then
           case update_consumers mem_order (sources ctx) source (consumers ctx i) (books ctx) of
             (r, bs) \<Rightarrow> (r, ctx\<lparr>books := bs\<rparr>)
         else (Inr [], ctx))"

section \<open>The table is a set of sources\<close>

definition home_of :: "(dxf_char list \<Rightarrow> long64) \<Rightarrow> dx_plb_connection_context \<Rightarrow> nat \<Rightarrow> nat" where
  "home_of h ctx s = slot_of h (length (slots ctx)) (key_of ctx s)"

definition known_sources :: "dx_plb_connection_context \<Rightarrow> nat set" where
  "known_sources ctx = entries (slots ctx)"

definition table_inv :: "(dxf_char list \<Rightarrow> long64) \<Rightarrow> dx_plb_connection_context \<Rightarrow> bool" where
  "table_inv h ctx \<longleftrightarrow> wf_table (home_of h ctx) (slots ctx) \<and> inj_on (key_of ctx) (known_sources ctx)
     \<and> src_size ctx = card (known_sources ctx) \<and> src_size ctx < length (slots ctx)"

lemma entriesI: "j < length sl \<Longrightarrow> sl ! j = Some s \<Longrightarrow> s \<in> entries sl"
  by (metis (mono_tags) entries_def mem_Collect_eq nth_mem)

lemma entriesE:
  assumes "s \<in> entries sl"
  obtains j where "j < length sl" "sl ! j = Some s"
  using assms by (auto simp: entries_def in_set_conv_nth)

lemma finite_entries [simp]: "finite (entries sl)"
proof -
  have "Some ` entries sl \<subseteq> set sl" by (auto simp: entries_def)
  then have "finite (Some ` entries sl)" by (rule finite_subset) simp
  then show ?thesis by (rule finite_imageD) simp
qed

text \<open>A table with fewer entries than slots has an empty slot.\<close>

lemma empty_slot:
  assumes w: "wf_table home sl" and c: "card (entries sl) < length sl"
  obtains e where "e < length sl" "sl ! e = None"
proof (rule ccontr)
  assume "\<not> thesis"
  with that have full: "\<forall>e < length sl. sl ! e \<noteq> None" by blast
  have "inj_on (\<lambda>j. the (sl ! j)) {..<length sl}"
  proof (rule inj_onI)
    fix i j assume ij: "i \<in> {..<length sl}" "j \<in> {..<length sl}" "the (sl ! i) = the (sl ! j)"
    then obtain a b where "sl ! i = Some a" "sl ! j = Some b" using full by fastforce
    with ij(3) have "sl ! i = Some a" "sl ! j = Some a" by simp_all
    with w ij show "i = j" unfolding wf_table_def by blast
  qed
  moreover have "(\<lambda>j. the (sl ! j)) ` {..<length sl} \<subseteq> entries sl"
    using full by (auto intro!: entriesI)
  ultimately have "card {..<length sl} \<le> card (entries sl)" by (rule card_inj_on_le) simp
  with c show False by simp
qed

lemma slot_of_less: "0 < cap \<Longrightarrow> slot_of h cap k < cap"
  by (simp add: slot_of_def)

lemma find_pos_spec:
  assumes inv: "table_inv h ctx"
  obtains pos where "dx_plb_source_find_pos h (key_of ctx) (slots ctx) k = Some pos" "pos < length (slots ctx)"
    "case slots ctx ! pos of None \<Rightarrow> \<forall>s \<in> known_sources ctx. key_of ctx s \<noteq> k
      | Some s \<Rightarrow> s \<in> known_sources ctx \<and> key_of ctx s = k"
    "\<forall>x < length (slots ctx). steps (length (slots ctx)) (slot_of h (length (slots ctx)) k) x <
      steps (length (slots ctx)) (slot_of h (length (slots ctx)) k) pos \<longrightarrow> slots ctx ! x \<noteq> None"
proof -
  let ?n = "length (slots ctx)"
  define hk where "hk = slot_of h ?n k"
  have n: "0 < ?n" using inv by (cases "slots ctx") (simp_all add: table_inv_def)
  then have hk: "hk < ?n" unfolding hk_def by (rule slot_of_less)
  have w: "wf_table (home_of h ctx) (slots ctx)" using inv by (simp add: table_inv_def)
  obtain e where e: "e < ?n" "slots ctx ! e = None"
    using empty_slot [OF w] inv by (auto simp: table_inv_def known_sources_def)
  have "steps ?n hk hk = 0" using steps_zero [OF hk hk] by simp
  then have "\<exists>j. probe ?n (key_of ctx) (slots ctx) k hk = Some j \<and> j < ?n \<and>
    (case slots ctx ! j of None \<Rightarrow> \<forall>s \<in> entries (slots ctx). key_of ctx s \<noteq> k | Some s \<Rightarrow> key_of ctx s = k) \<and>
    (\<forall>x < ?n. steps ?n hk x < steps ?n hk j \<longrightarrow> slots ctx ! x \<noteq> None)"
    using w hk e steps_less [OF hk e(1)]
    by (intro probe_spec [where home = "home_of h ctx" and e = e])
      (auto simp: wf_table_def home_of_def hk_def)
  then show ?thesis
    using that entriesI by (auto simp: dx_plb_source_find_pos_def known_sources_def hk_def split: option.splits)
qed

lemma find_source_spec:
  assumes inv: "table_inv h ctx"
  shows "\<exists>r. dx_plb_ctx_find_source h symbol src ctx = (Inr r, ctx) \<and>
    (case r of None \<Rightarrow> \<forall>s \<in> known_sources ctx. key_of ctx s \<noteq> (symbol, src)
      | Some s \<Rightarrow> s \<in> known_sources ctx \<and> key_of ctx s = (symbol, src))"
  using find_pos_spec [OF inv, of "(symbol, src)"]
  by (metis (no_types, lifting) dx_plb_ctx_find_source_def option.simps(5))

lemma add_source_spec:
  assumes inv: "table_inv h ctx" and new: "key_of ctx source \<notin> key_of ctx ` known_sources ctx"
    and room: "src_size ctx \<le> length (slots ctx) div 2" "src_size ctx + 1 < length (slots ctx)"
  shows "\<exists>ctx'. dx_plb_ctx_add_source h mem source ctx = (Inr True, ctx') \<and> table_inv h ctx'
    \<and> known_sources ctx' = insert source (known_sources ctx) \<and> sources ctx' = sources ctx"
proof -
  let ?k = "key_of ctx source" and ?n = "length (slots ctx)"
  obtain pos where p: "dx_plb_source_find_pos h (key_of ctx) (slots ctx) ?k = Some pos" "pos < ?n"
    "case slots ctx ! pos of None \<Rightarrow> \<forall>s \<in> known_sources ctx. key_of ctx s \<noteq> ?k
      | Some s \<Rightarrow> s \<in> known_sources ctx \<and> key_of ctx s = ?k"
    "\<forall>x < ?n. steps ?n (slot_of h ?n ?k) x < steps ?n (slot_of h ?n ?k) pos \<longrightarrow> slots ctx ! x \<noteq> None"
    using find_pos_spec [OF inv, of ?k] by blast
  have none: "slots ctx ! pos = None" 
  proof (cases "slots ctx ! pos")
    case (Some s)
    then have s: "s \<in> known_sources ctx" "?k = key_of ctx s" using p(3) by simp_all
    from s(1) have "key_of ctx s \<in> key_of ctx ` known_sources ctx" by (rule imageI)
    with new s(2) show ?thesis by simp
  qed
  let ?c = "ctx\<lparr>slots := (slots ctx)[pos := Some source], src_size := src_size ctx + 1\<rparr>"
  have e: "dx_plb_ctx_add_source h mem source ctx = (Inr True, ?c)"
    using p(1) room(1) by (simp add: dx_plb_ctx_add_source_def Let_def)
  have notin: "source \<notin> known_sources ctx" using new by blast
  have ks: "known_sources ?c = insert source (known_sources ctx)"
  proof -
    have "s \<in> known_sources ?c \<longleftrightarrow> s = source \<or> s \<in> known_sources ctx" for s
    proof
      assume "s \<in> known_sources ?c"
      then obtain j where "j < ?n" "(slots ctx)[pos := Some source] ! j = Some s"
        by (auto simp: known_sources_def elim: entriesE)
      then show "s = source \<or> s \<in> known_sources ctx"
        using p(2) by (cases "j = pos") (auto simp: known_sources_def intro: entriesI)
    next
      assume "s = source \<or> s \<in> known_sources ctx"
      then show "s \<in> known_sources ?c"
      proof
        assume "s \<in> known_sources ctx"
        then obtain j where j: "j < ?n" "slots ctx ! j = Some s" by (auto simp: known_sources_def elim: entriesE)
        then have "j \<noteq> pos" using none by auto
        with j show ?thesis by (auto simp: known_sources_def intro!: entriesI [of j])
      qed (use p(2) in \<open>auto simp: known_sources_def intro!: entriesI [of pos]\<close>)
    qed
    then show ?thesis by blast
  qed
  have ko: "key_of ?c = key_of ctx" "home_of h ?c = home_of h ctx"
    by (simp_all add: key_of_def home_of_def fun_eq_iff)
  have w: "wf_table (home_of h ctx) (slots ctx)" using inv by (simp add: table_inv_def)
  have "wf_table (home_of h ctx) ((slots ctx)[pos := Some source])"
    unfolding wf_table_def reachable_def length_list_update
  proof (intro conjI allI impI)
    fix j s x assume a: "j < ?n" "(slots ctx)[pos := Some source] ! j = Some s" "x < ?n"
      "steps ?n (home_of h ctx s) x < steps ?n (home_of h ctx s) j"
    have "slots ctx ! x \<noteq> None" if "x \<noteq> pos"
    proof (cases "j = pos")
      case True
      then have "s = source" using a(2) p(2) by simp
      with p(4) a True show ?thesis by (simp add: home_of_def)
    next
      case False
      then have "slots ctx ! j = Some s" using a(2) by simp
      with w a show ?thesis unfolding wf_table_def reachable_def by blast
    qed
    then show "(slots ctx)[pos := Some source] ! x \<noteq> None" using p(2) by (cases "x = pos") simp_all
  next
    fix i j s assume a: "i < ?n" "j < ?n" "(slots ctx)[pos := Some source] ! i = Some s"
      "(slots ctx)[pos := Some source] ! j = Some s"
    have ns: "slots ctx ! x \<noteq> Some source" if "x < ?n" for x
      using notin that entriesI unfolding known_sources_def by blast
    show "i = j"
    proof (cases "s = source")
      case True
      then show ?thesis using a ns by (metis nth_list_update_neq)
    next
      case False
      then have "slots ctx ! i = Some s" "slots ctx ! j = Some s"
        using a p(2) by (metis nth_list_update_eq nth_list_update_neq option.inject)+
      with w a(1,2) show ?thesis unfolding wf_table_def by blast
    qed
  qed
  moreover have "card (insert source (known_sources ctx)) = src_size ctx + 1"
    using inv notin by (simp add: table_inv_def known_sources_def)
  moreover have "inj_on (key_of ctx) (insert source (known_sources ctx))"
    using inv new by (auto simp: table_inv_def)
  ultimately have "table_inv h ?c"
    unfolding table_inv_def ko ks using room(2) by simp
  with e ks show ?thesis by simp
qed

lemma remove_source_spec:
  assumes inv: "table_inv h ctx" and known: "source \<in> known_sources ctx"
  shows "\<exists>ctx'. dx_plb_ctx_remove_source h source ctx = (Inr True, ctx') \<and> table_inv h ctx'
    \<and> known_sources ctx' = known_sources ctx - {source} \<and> sources ctx' = sources ctx"
proof -
  let ?k = "key_of ctx source" and ?n = "length (slots ctx)" and ?home = "home_of h ctx"
  obtain pos where p: "dx_plb_source_find_pos h (key_of ctx) (slots ctx) ?k = Some pos" "pos < ?n"
    "case slots ctx ! pos of None \<Rightarrow> \<forall>s \<in> known_sources ctx. key_of ctx s \<noteq> ?k
      | Some s \<Rightarrow> s \<in> known_sources ctx \<and> key_of ctx s = ?k"
    using find_pos_spec [OF inv, of ?k] by blast
  have at: "slots ctx ! pos = Some source"
  proof (cases "slots ctx ! pos")
    case (Some s)
    then have "s \<in> known_sources ctx" "key_of ctx s = ?k" using p(3) by simp_all
    then have "s = source" using inv known by (auto simp: table_inv_def dest: inj_onD)
    with Some show ?thesis by simp
  qed (use p(3) known in auto)
  have w: "wf_table ?home (slots ctx)" using inv by (simp add: table_inv_def)
  obtain e where e: "e < ?n" "slots ctx ! e = None"
    using empty_slot [OF w] inv by (auto simp: table_inv_def known_sources_def)
  have pe: "pos \<noteq> e" using at e by auto
  have sp: "steps ?n pos pos = 0" using steps_zero [OF p(2) p(2)] by simp
  have hi: "hole_inv ?home (slots ctx) pos pos"
  proof -
    have "\<not> steps ?n pos j \<le> steps ?n pos pos" if "j < ?n" "j \<noteq> pos" for j
      using sp steps_zero [OF p(2) that(1)] that(2) by simp
    with w at show ?thesis unfolding hole_inv_def wf_table_def by blast
  qed
  have "\<exists>slots' pos'. close_hole ?n ?home (slots ctx) pos pos = Some (slots', pos') \<and> length slots' = ?n
    \<and> pos' < ?n \<and> wf_table ?home (slots'[pos' := None]) \<and> entries (slots'[pos' := None]) = entries ((slots ctx)[pos := None])"
  proof (rule close_hole_spec [OF hi p(2) p(2) _ e])
    show "\<forall>s. ?home s < ?n" using p(2) by (auto simp: home_of_def intro!: slot_of_less)
    show "steps ?n pos pos < steps ?n pos e" using sp steps_zero [OF p(2) e(1)] pe by simp
    show "steps ?n pos e \<le> ?n" using steps_less [OF p(2) e(1)] by simp
  qed
  then obtain slots' pos' where c: "close_hole ?n ?home (slots ctx) pos pos = Some (slots', pos')" "length slots' = ?n"
    "wf_table ?home (slots'[pos' := None])" "entries (slots'[pos' := None]) = entries ((slots ctx)[pos := None])" by blast
  have ho: "?home = (\<lambda>s. slot_of h ?n (key_of ctx s))" by (simp add: home_of_def fun_eq_iff)
  let ?c = "ctx\<lparr>slots := slots'[pos' := None], src_size := src_size ctx - 1\<rparr>"
  have r: "dx_plb_ctx_remove_source h source ctx = (Inr True, ?c)"
    using p(1) at c(1) by (simp add: dx_plb_ctx_remove_source_def ho)
  have "entries ((slots ctx)[pos := None]) = entries (slots ctx) - {source}"
  proof -
    have "s \<in> entries ((slots ctx)[pos := None]) \<longleftrightarrow> s \<in> entries (slots ctx) \<and> s \<noteq> source" for s
    proof
      assume "s \<in> entries ((slots ctx)[pos := None])"
      then obtain j where j: "j < ?n" "(slots ctx)[pos := None] ! j = Some s" by (auto elim: entriesE)
      then have "j \<noteq> pos" using p(2) by auto
      with j have "slots ctx ! j = Some s" by simp
      moreover from this have "s \<noteq> source" using w at j(1) p(2) \<open>j \<noteq> pos\<close> unfolding wf_table_def by blast
      ultimately show "s \<in> entries (slots ctx) \<and> s \<noteq> source" using j(1) entriesI by blast
    next
      assume s: "s \<in> entries (slots ctx) \<and> s \<noteq> source"
      then obtain j where j: "j < ?n" "slots ctx ! j = Some s" by (auto elim: entriesE)
      then have "j \<noteq> pos" using s at by auto
      with j show "s \<in> entries ((slots ctx)[pos := None])" by (auto intro!: entriesI [of j])
    qed
    then show ?thesis by blast
  qed
  then have ks: "known_sources ?c = known_sources ctx - {source}" by (simp add: known_sources_def c(4))
  have ko: "key_of ?c = key_of ctx" "home_of h ?c = ?home"
    using c(2) by (simp_all add: key_of_def home_of_def fun_eq_iff)
  have "card (known_sources ctx - {source}) = src_size ctx - 1" "inj_on (key_of ctx) (known_sources ctx - {source})"
    using inv known by (auto simp: table_inv_def known_sources_def intro: inj_on_subset)
  moreover have "src_size ctx - 1 < ?n" using inv unfolding table_inv_def by linarith
  ultimately have "table_inv h ?c"
    using c unfolding table_inv_def ko ks by simp
  with r ks show ?thesis by simp
qed

text \<open>The table never grows: with an empty slot left, the loop over the old table reads it.\<close>

lemma rehash_empty_slot:
  assumes "None \<in> set old"
  shows "rehash h keys old new_slots = Inl UB"
  using assms
proof (induction old arbitrary: new_slots)
  case (Cons s old)
  then show ?case by (cases s) (auto split: option.splits)
qed simp

section \<open>Books are current\<close>















section \<open>The listener and the books\<close>






section \<open>The invariant of the connection\<close>








section \<open>Runs of the connection\<close>



text \<open>Fresh sources, and books that refer to some of them.\<close>

definition fresh_context ::
  "(nat \<Rightarrow> source_key) \<Rightarrow> (nat \<Rightarrow> nat list) \<Rightarrow> (nat \<Rightarrow> (nat \<times> nat) list) \<Rightarrow> dx_plb_connection_context" where
  "fresh_context keys srcs_of cons =
     \<lparr>slots = replicate 1024 None, src_size = 0,
      sources = (\<lambda>i. dx_plb_source_create (fst (keys i)) (snd (keys i))),
      consumers = cons,
      books = (\<lambda>b. (new_book [])\<lparr>book_sources := srcs_of b\<rparr>)\<rparr>"


lemma snapshot_map_create [simp]: "snapshot_map (dx_plb_source_create symbol src) = Map.empty"
  by (simp add: dx_plb_source_create_def snapshot_map_def contents_def)

lemma orders_in_empty [simp]: "orders_in Map.empty side = {#}"
  by (simp add: orders_in_def)







section \<open>Properties\<close>


definition sample_order :: "long64 \<Rightarrow> dxf_order_side \<Rightarrow> rat \<Rightarrow> rat \<Rightarrow> dxf_order" where
  "sample_order i side p s = \<lparr>order_index = i, order_side = side, order_price = Num p, order_size = Num s,
     order_time = 0, order_source = []\<rparr>"

definition sample_context :: dx_plb_connection_context where
  "sample_context = fresh_context (\<lambda>i. ([of_nat i], [])) (\<lambda>b. if b = 0 then [0, 1] else [])
     (\<lambda>i. if i < 2 then [(0, i)] else [])"


definition listened_context :: dx_plb_connection_context where
  "listened_context = sample_context\<lparr>books := (\<lambda>b.
     snd (dx_add_price_level_book_listener (\<lambda>_. True) 5 9 (books sample_context b)))\<rparr>"

definition calls_made :: "dx_error + (nat \<times> plb_call list) list \<Rightarrow> (nat \<times> nat) list" where
  "calls_made r = (case r of Inl _ \<Rightarrow> [] | Inr calls \<Rightarrow> map (\<lambda>(b, cs). (b, length cs)) calls)"

definition send :: "nat \<Rightarrow> dxf_order \<Rightarrow> (dx_plb_connection_context, (nat \<times> plb_call list) list) io" where
  "send i order = (\<lambda>ctx. deliver (\<lambda>_. True) True i DXF_ET_ORDER (src_symbol (sources ctx i)) order 0 ctx)"

text \<open>
  The worst level of a book lingers.  With asks at 10 and 11 in the book, removing the order at 11
  leaves one ask in the merged side; the loop that compares the levels has seen no difference, so no
  listener is called and the public count still announces both levels.  The event before, which added
  the level, did call the listener.
\<close>

theorem worst_level_lingers:
  "let (r1, ctx1) = send 0 (sample_order 1 dxf_osd_sell 10 1) listened_context;
       (r2, ctx2) = send 0 (sample_order 2 dxf_osd_sell 11 1) ctx1;
       (r3, ctx3) = send 0 (sample_order 2 dxf_osd_sell 11 0) ctx2;
       book = books ctx3 0
   in calls_made r2 = [(0, 1)] \<and> calls_made r3 = [(0, 0)] \<and> shown (book_asks book) = [(10, 1)]
     \<and> map level_pair (take (asks_count book) (levels (book_asks book))) = [(10, 1), (11, 1)]"
  by code_simp

text \<open>
  C22: Removing a source from the hash table closes the hole it leaves: the removal ends, the source is
  gone, and a search finds every other source, by symbol and name, and nothing else.
\<close>

theorem source_removed:
  assumes "table_inv h ctx" "source \<in> known_sources ctx"
  shows "\<exists>ctx'. dx_plb_ctx_remove_source h source ctx = (Inr True, ctx') \<and> table_inv h ctx'
    \<and> known_sources ctx' = known_sources ctx - {source}
    \<and> (\<forall>symbol src. \<exists>r. dx_plb_ctx_find_source h symbol src ctx' = (Inr r, ctx')
        \<and> (\<forall>s. r = Some s \<longleftrightarrow> s \<in> known_sources ctx - {source} \<and> key_of ctx s = (symbol, src)))"
proof -
  obtain ctx' where r: "dx_plb_ctx_remove_source h source ctx = (Inr True, ctx')" "table_inv h ctx'"
    "known_sources ctx' = known_sources ctx - {source}" "sources ctx' = sources ctx"
    using remove_source_spec [OF assms] by blast
  have k: "key_of ctx' = key_of ctx" using r(4) by (simp add: key_of_def fun_eq_iff)
  have "\<exists>r. dx_plb_ctx_find_source h symbol src ctx' = (Inr r, ctx')
      \<and> (\<forall>s. r = Some s \<longleftrightarrow> s \<in> known_sources ctx - {source} \<and> key_of ctx s = (symbol, src))" for symbol src
  proof -
    obtain r' where f: "dx_plb_ctx_find_source h symbol src ctx' = (Inr r', ctx')"
      "case r' of None \<Rightarrow> \<forall>s \<in> known_sources ctx'. key_of ctx' s \<noteq> (symbol, src)
        | Some s \<Rightarrow> s \<in> known_sources ctx' \<and> key_of ctx' s = (symbol, src)"
      using find_source_spec [OF r(2), of symbol src] by blast
    have "inj_on (key_of ctx) (known_sources ctx - {source})" using r(2,3) k by (simp add: table_inv_def)
    note inj = this
    show ?thesis
    proof (cases r')
      case None
      with f r(3) k show ?thesis by (intro exI [of _ None]) auto
    next
      case (Some t)
      with f(2) r(3) k have t: "t \<in> known_sources ctx - {source}" "key_of ctx t = (symbol, src)" by simp_all
      have u: "s = t" if "s \<in> known_sources ctx - {source}" "key_of ctx s = (symbol, src)" for s
        using inj_onD [OF inj, of s t] that t by simp
      have "\<forall>s. Some t = Some s \<longleftrightarrow> s \<in> known_sources ctx - {source} \<and> key_of ctx s = (symbol, src)"
        using t u by blast
      with f(1) show ?thesis unfolding Some by blast
    qed
  qed
  with r show ?thesis by blast
qed

definition sample_table :: "nat option list \<Rightarrow> dx_plb_connection_context" where
  "sample_table sl = sample_context\<lparr>slots := sl, src_size := length (filter (\<lambda>x. x \<noteq> None) sl)\<rparr>"

lemma sample_table_inv: "table_inv (\<lambda>_. 0) (sample_table [Some 0, Some 5, None])"
proof -
  have e: "entries [Some 0, Some 5, None] = {0, 5 :: nat}" by (auto simp: entries_def)
  have k: "key_of (sample_table sl) = (\<lambda>i. ([of_nat i], []))" for sl
    by (simp add: key_of_def sample_table_def sample_context_def fresh_context_def dx_plb_source_create_def fun_eq_iff)
  have "home_of (\<lambda>_. 0) (sample_table [Some 0, Some 5, None]) = (\<lambda>_. 0)"
    by (simp add: home_of_def slot_of_def dx_plb_source_hash_def k sample_table_def fun_eq_iff)
  moreover have "wf_table (\<lambda>_. 0) [Some 0, Some 5, None]"
    by (auto simp: wf_table_def reachable_def steps_def less_Suc_eq nth_Cons split: nat.splits)
  moreover have "inj_on (\<lambda>i. ([of_nat i :: dxf_char], [] :: dxf_char list)) {0, 5 :: nat}"
    by (auto simp: inj_on_def)
  ultimately show ?thesis
    unfolding table_inv_def known_sources_def k by (simp add: sample_table_def e)
qed

theorem source_removed_witness:
  "\<exists>ctx'. dx_plb_ctx_remove_source (\<lambda>_. 0) 0 (sample_table [Some 0, Some 5, None]) = (Inr True, ctx')
    \<and> known_sources ctx' = known_sources (sample_table [Some 0, Some 5, None]) - {0}"
proof -
  have "0 \<in> known_sources (sample_table [Some 0, Some 5, None])"
    by (simp add: known_sources_def sample_table_def entries_def)
  from source_removed [OF sample_table_inv this] show ?thesis by blast
qed

text \<open>
  The table of sources cannot grow.  Once it is more than half full, adding a source runs the loop
  that moves the sources over, and that loop reads through the null pointers of the empty slots.
\<close>

theorem table_growth_undefined:
  assumes inv: "table_inv h ctx" and full: "src_size ctx > length (slots ctx) div 2"
    and "mem (length (slots ctx) * 2)"
  shows "fst (dx_plb_ctx_add_source h mem source ctx) = Inl UB"
proof -
  obtain e where "e < length (slots ctx)" "slots ctx ! e = None"
    using empty_slot [of "home_of h ctx" "slots ctx"] inv by (auto simp: table_inv_def known_sources_def)
  then have "None \<in> set (slots ctx)" by (metis nth_mem)
  then show ?thesis
    using assms by (simp add: dx_plb_ctx_add_source_def dx_plb_ctx_grow_sources_hashtable_def rehash_empty_slot)
qed

theorem table_growth_undefined_witness:
  "fst (dx_plb_ctx_add_source (\<lambda>_. 0) (\<lambda>_. True) 2 (sample_table [Some 0, Some 5, None])) = Inl UB"
  by (rule table_growth_undefined [OF sample_table_inv]) (simp_all add: sample_table_def)

text \<open>
  The listeners of a book form a map from listener to user data: adding one sets its entry, and
  removing one afterwards restores the map without it, whatever the memory, unless the call reports
  failure, which changes nothing.
\<close>

theorem listener_registry:
  assumes "listeners_inv book"
  shows "\<exists>ok book'. dx_add_price_level_book_listener mem l data book = (Inr ok, book') \<and>
    (if ok then listeners_inv book' \<and> listener_map book' = (listener_map book)(l \<mapsto> data) \<and>
        (\<exists>ok' book''. dx_remove_price_level_book_listener mem' l book' = (Inr ok', book'') \<and>
          (if ok' then listeners_inv book'' \<and> listener_map book'' = (listener_map book)(l := None)
           else listener_map book'' = listener_map book'))
     else listener_map book' = listener_map book)"
proof -
  obtain ok book' where a: "dx_add_price_level_book_listener mem l data book = (Inr ok, book')"
    "ok \<longrightarrow> listeners_inv book' \<and> listener_map book' = (listener_map book)(l \<mapsto> data)"
    "\<not> ok \<longrightarrow> listener_map book' = listener_map book"
    using add_listener_spec [OF assms] by blast
  show ?thesis
  proof (cases ok)
    case True
    then obtain ok' book'' where "dx_remove_price_level_book_listener mem' l book' = (Inr ok', book'')"
      "ok' \<longrightarrow> listeners_inv book'' \<and> listener_map book'' = (listener_map book')(l := None)"
      "\<not> ok' \<longrightarrow> listener_map book'' = listener_map book'"
      using remove_listener_spec a(2) by blast
    with a True show ?thesis by (intro exI [of _ ok] exI [of _ book']) auto
  qed (use a in auto)
qed

theorem listener_registry_witness:
  "\<exists>ok book'. dx_add_price_level_book_listener (\<lambda>_. True) 5 9 (new_book []) = (Inr ok, book') \<and>
    (ok \<longrightarrow> listener_map book' = (listener_map (new_book []))(5 \<mapsto> 9))"
proof -
  have "listeners_inv (new_book [])" by (simp add: listeners_inv_def new_book_def)
  from listener_registry [OF this, of "\<lambda>_. True" 5 9 "\<lambda>_. True"] show ?thesis by (auto split: if_splits)
qed

end
