(* ===== verification/Dx_IO_Common.thy ===== *)
theory Dx_IO_Common
  imports Dx_Prelude
begin

text \<open>
  \<open>src/BufferedIOCommon.c\<close>: surrogate pairs of UTF-16 and the size of a number in the compact
  format.  \<open>dxf_char_t\<close> has the 16 bits that \<open>include/DXTypes.h\<close> documents for it, unsigned.
\<close>

section \<open>Surrogate pairs\<close>

definition MIN_HIGH_SURROGATE :: dxf_char where "MIN_HIGH_SURROGATE = 0xD800"
definition MAX_HIGH_SURROGATE :: dxf_char where "MAX_HIGH_SURROGATE = 0xDBFF"
definition MIN_LOW_SURROGATE :: dxf_char where "MIN_LOW_SURROGATE = 0xDC00"
definition MAX_LOW_SURROGATE :: dxf_char where "MAX_LOW_SURROGATE = 0xDFFF"
definition MIN_SUPPLEMENTARY_CODE_POINT :: int32 where "MIN_SUPPLEMENTARY_CODE_POINT = 0x010000"
definition MAX_CODE_POINT :: int32 where "MAX_CODE_POINT = 0x10FFFF"

lemmas unicode_consts = MIN_HIGH_SURROGATE_def MAX_HIGH_SURROGATE_def MIN_LOW_SURROGATE_def
  MAX_LOW_SURROGATE_def MIN_SUPPLEMENTARY_CODE_POINT_def MAX_CODE_POINT_def

definition dx_is_high_surrogate :: "dxf_char \<Rightarrow> bool" where
  "dx_is_high_surrogate value \<longleftrightarrow> value \<ge> MIN_HIGH_SURROGATE \<and> value \<le> MAX_HIGH_SURROGATE"

definition dx_is_low_surrogate :: "dxf_char \<Rightarrow> bool" where
  "dx_is_low_surrogate value \<longleftrightarrow> value \<ge> MIN_LOW_SURROGATE \<and> value \<le> MAX_LOW_SURROGATE"

definition dx_surrogates_to_code_point :: "dxf_char \<Rightarrow> dxf_char \<Rightarrow> int32" where
  "dx_surrogates_to_code_point high low =
     push_bit 10 (ucast high - ucast MIN_HIGH_SURROGATE) + (ucast low - ucast MIN_LOW_SURROGATE)
       + MIN_SUPPLEMENTARY_CODE_POINT"

definition dx_code_point_to_surrogates ::
  "int32 \<Rightarrow> dxf_char list \<Rightarrow> int \<Rightarrow> dx_error + dxf_char list" where
  "dx_code_point_to_surrogates code_point dest_buffer dest_buffer_pos =
     (let offset = code_point - MIN_SUPPLEMENTARY_CODE_POINT in
      case mem_store dest_buffer (dest_buffer_pos + 1)
             (ucast ((offset AND 0x3FF) + ucast MIN_LOW_SURROGATE)) of
        None \<Rightarrow> Inl UB
      | Some buffer \<Rightarrow>
          (case mem_store buffer dest_buffer_pos
                  (ucast (signed_drop_bit 10 offset + ucast MIN_HIGH_SURROGATE)) of
             None \<Rightarrow> Inl UB
           | Some buffer' \<Rightarrow> Inr buffer'))"

text \<open>The result is the destination buffer and the number of units stored in it.\<close>

definition dx_code_point_to_utf16_chars ::
  "int32 \<Rightarrow> dxf_char list \<Rightarrow> int \<Rightarrow> int \<Rightarrow> dx_error + (dxf_char list \<times> int)" where
  "dx_code_point_to_utf16_chars code_point dest_buffer dest_buffer_pos dest_buffer_length =
     (if sint code_point < 0 \<or> sint code_point > sint MAX_CODE_POINT
      then Inl dx_ec_invalid_func_param_internal
      else if sint code_point < sint MIN_SUPPLEMENTARY_CODE_POINT
      then (if dest_buffer_length - dest_buffer_pos < 1 then Inl dx_bioec_index_out_of_bounds
            else case mem_store dest_buffer dest_buffer_pos (ucast code_point) of
                   None \<Rightarrow> Inl UB
                 | Some buffer \<Rightarrow> Inr (buffer, 1))
      else if dest_buffer_length - dest_buffer_pos < 2 then Inl dx_bioec_index_out_of_bounds
      else case dx_code_point_to_surrogates code_point dest_buffer dest_buffer_pos of
             Inl e \<Rightarrow> Inl e
           | Inr buffer \<Rightarrow> Inr (buffer, 2))"

section \<open>The compact format\<close>

definition dx_get_compact_size :: "long64 \<Rightarrow> nat" where
  "dx_get_compact_size value =
     (if sint value \<ge> 0 then
        (if sint value < 0x40 then 1
         else if sint value < 0x2000 then 2
         else if sint value < 0x100000 then 3
         else if sint value < 0x08000000 then 4
         else if sint value < 0x0400000000 then 5
         else if sint value < 0x020000000000 then 6
         else if sint value < 0x01000000000000 then 7
         else if sint value < 0x80000000000000 then 8
         else 9)
      else
        (if sint value \<ge> -0x40 then 1
         else if sint value \<ge> -0x2000 then 2
         else if sint value \<ge> -0x100000 then 3
         else if sint value \<ge> -0x08000000 then 4
         else if sint value \<ge> -0x0400000000 then 5
         else if sint value \<ge> -0x020000000000 then 6
         else if sint value \<ge> -0x01000000000000 then 7
         else if sint value \<ge> -0x80000000000000 then 8
         else 9))"

section \<open>Laws of surrogate pairs\<close>

text \<open>The two halves of a supplementary code point.\<close>

definition high_half :: "int32 \<Rightarrow> dxf_char" where
  "high_half cp = ucast (signed_drop_bit 10 (cp - 0x10000) + 0xD800)"

definition low_half :: "int32 \<Rightarrow> dxf_char" where
  "low_half cp = ucast (((cp - 0x10000) AND 0x3FF) + 0xDC00)"

lemma uint_high_half:
  assumes "0x10000 \<le> sint (cp::int32)" "sint cp \<le> 0x10FFFF"
  shows "uint (high_half cp) = (sint cp - 0x10000) div 1024 + 0xD800"
proof -
  have s: "sint (cp - 0x10000) = sint cp - 0x10000"
    using assms by (simp add: sint_word_diff signed_take_bit_int_eq_self)
  have "sint (signed_drop_bit 10 (cp - 0x10000) + 0xD800) = (sint cp - 0x10000) div 1024 + 0xD800"
    using assms by (simp add: sint_word_add sint_signed_drop_bit_eq s signed_take_bit_int_eq_self drop_bit_eq_div)
  then have "uint (signed_drop_bit 10 (cp - 0x10000) + 0xD800) = (sint cp - 0x10000) div 1024 + 0xD800"
    using assms by (subst uint_eq_sint) auto
  with assms show ?thesis
    by (simp add: high_half_def unsigned_ucast_eq take_bit_int_eq_self)
qed

lemma uint_low_half:
  assumes "0x10000 \<le> sint (cp::int32)" "sint cp \<le> 0x10FFFF"
  shows "uint (low_half cp) = (sint cp - 0x10000) mod 1024 + 0xDC00"
proof -
  have s: "sint (cp - 0x10000) = sint cp - 0x10000"
    using assms by (simp add: sint_word_diff signed_take_bit_int_eq_self)
  have m: "(cp - 0x10000) AND 0x3FF = take_bit 10 (cp - 0x10000)"
    by (simp add: take_bit_eq_mask mask_eq_exp_minus_1)
  have "uint ((cp - 0x10000) AND 0x3FF) = (sint cp - 0x10000) mod 1024"
    unfolding m unsigned_take_bit_eq using assms s by (simp add: uint_eq_sint take_bit_eq_mod)
  then have "uint (((cp - 0x10000) AND 0x3FF) + 0xDC00) = (sint cp - 0x10000) mod 1024 + 0xDC00"
    by (simp add: uint_word_ariths)
  then show ?thesis
    by (simp add: low_half_def unsigned_ucast_eq take_bit_int_eq_self)
qed

lemma high_half_is_high:
  assumes "0x10000 \<le> sint (cp::int32)" "sint cp \<le> 0x10FFFF"
  shows "dx_is_high_surrogate (high_half cp)"
proof -
  have "(sint cp - 0x10000) div 1024 \<le> 0xFFFFF div 1024"
    using assms by (intro zdiv_mono1) auto
  moreover have "0 \<le> (sint cp - 0x10000) div 1024"
    using assms by (simp add: pos_imp_zdiv_nonneg_iff)
  ultimately show ?thesis
    by (simp add: dx_is_high_surrogate_def unicode_consts word_le_def uint_high_half [OF assms])
qed

lemma low_half_is_low:
  assumes "0x10000 \<le> sint (cp::int32)" "sint cp \<le> 0x10FFFF"
  shows "dx_is_low_surrogate (low_half cp)"
  using assms
  by (simp add: dx_is_low_surrogate_def unicode_consts word_le_def uint_low_half [OF assms])

lemma uint_surrogates:
  assumes "dx_is_high_surrogate h" "dx_is_low_surrogate l"
  shows "uint (dx_surrogates_to_code_point h l) = (uint h - 0xD800) * 1024 + (uint l - 0xDC00) + 0x10000"
proof -
  have b: "0xD800 \<le> uint h" "uint h \<le> 0xDBFF" "0xDC00 \<le> uint l" "uint l \<le> 0xDFFF"
    using assms by (simp_all add: dx_is_high_surrogate_def dx_is_low_surrogate_def unicode_consts word_le_def)
  have h: "uint (ucast h - (0xD800::int32)) = uint h - 0xD800"
    using b by (simp add: uint_word_ariths unsigned_ucast_eq take_bit_int_eq_self)
  have l: "uint (ucast l - (0xDC00::int32)) = uint l - 0xDC00"
    using b by (simp add: uint_word_ariths unsigned_ucast_eq take_bit_int_eq_self)
  have p: "uint (push_bit 10 (ucast h - (0xD800::int32))) = (uint h - 0xD800) * 1024"
    unfolding unsigned_push_bit_eq h using b by (simp add: push_bit_eq_mult take_bit_int_eq_self)
  show ?thesis
    using b by (simp add: dx_surrogates_to_code_point_def unicode_consts uint_word_ariths h l p unsigned_ucast_eq take_bit_int_eq_self)
qed

lemma surrogates_halves:
  assumes "0x10000 \<le> sint (cp::int32)" "sint cp \<le> 0x10FFFF"
  shows "dx_surrogates_to_code_point (high_half cp) (low_half cp) = cp"
proof -
  have "uint (dx_surrogates_to_code_point (high_half cp) (low_half cp)) = uint cp"
    using assms uint_surrogates [OF high_half_is_high [OF assms] low_half_is_low [OF assms]]
    by (simp add: uint_high_half uint_low_half uint_eq_sint)
  then show ?thesis by (simp add: word_uint_eq_iff)
qed
section \<open>Conversion to UTF-16\<close>

lemma to_utf16_supplementary:
  assumes "0x10000 \<le> sint cp" "sint cp \<le> 0x10FFFF" "0 \<le> pos" "pos + 2 \<le> len" "len \<le> int (length buf)"
  shows "dx_code_point_to_utf16_chars cp buf pos len =
    Inr (buf[nat pos := high_half cp, nat (pos + 1) := low_half cp], 2)"
  using assms
  by (simp add: dx_code_point_to_utf16_chars_def dx_code_point_to_surrogates_def mem_store_def
      unicode_consts high_half_def low_half_def Let_def list_update_swap)

lemma to_utf16_bmp:
  assumes "0 \<le> sint cp" "sint cp < 0x10000" "0 \<le> pos" "pos + 1 \<le> len" "len \<le> int (length buf)"
  shows "dx_code_point_to_utf16_chars cp buf pos len = Inr (buf[nat pos := ucast cp], 1)"
  using assms by (simp add: dx_code_point_to_utf16_chars_def mem_store_def unicode_consts)

lemma to_utf16_safe:
  assumes "0 \<le> pos" "len \<le> int (length buf)"
  shows "dx_code_point_to_utf16_chars cp buf pos len \<noteq> Inl UB"
  using assms
  by (auto simp: dx_code_point_to_utf16_chars_def dx_code_point_to_surrogates_def mem_store_def
      Let_def split: option.splits)

end
