(* ===== verification/Dx_Output.thy ===== *)
theory Dx_Output
  imports Dx_IO_Common
begin

text \<open>
  \<open>src/BufferedOutput.c\<close>: the growing output buffer of a connection and its write operations.

  The state is \<open>dx_buffered_output_connection_context_t\<close> without its mutex.  The buffer is the
  allocated block; \<open>None\<close> is the null pointer.  \<open>mem n\<close> tells whether the C allocator grants a
  block of \<open>n\<close> bytes (\<open>dx_malloc\<close>); the content of a fresh block is indeterminate in C and never
  read before it is written, here it is zero.  Positions and lengths are the C \<open>int\<close>s of the
  source as integers: \<open>wf_out\<close> keeps them within \<open>INT_MAX\<close>.  Writers of \<open>float\<close> and \<open>double\<close>
  are left out, floating point is not modelled.
\<close>

section \<open>State and buffer management\<close>

record out_ctx =
  out_buffer :: "byte list option"
  out_buffer_length :: int
  current_out_buffer_position :: int

definition dx_set_out_buffer :: "byte list option \<Rightarrow> int \<Rightarrow> out_ctx \<Rightarrow> out_ctx" where
  "dx_set_out_buffer new_buffer new_length ctx =
     ctx\<lparr>out_buffer := new_buffer, out_buffer_length := new_length,
         current_out_buffer_position := 0\<rparr>"

definition dx_set_out_buffer_position :: "int \<Rightarrow> out_ctx \<Rightarrow> out_ctx" where
  "dx_set_out_buffer_position new_position ctx = ctx\<lparr>current_out_buffer_position := new_position\<rparr>"

definition IS_CUR_CAPACITY_ENOUGH :: "out_ctx \<Rightarrow> int \<Rightarrow> bool" where
  "IS_CUR_CAPACITY_ENOUGH ctx bytes_to_write \<longleftrightarrow>
     current_out_buffer_position ctx + bytes_to_write \<le> out_buffer_length ctx"

definition dx_ensure_capacity :: "(nat \<Rightarrow> bool) \<Rightarrow> int \<Rightarrow> (out_ctx, unit) io" where
  "dx_ensure_capacity mem required_capacity = (\<lambda>ctx.
     if INT_MAX - current_out_buffer_position ctx < out_buffer_length ctx
     then (Inl dx_bioec_buffer_overflow, ctx)
     else if \<not> IS_CUR_CAPACITY_ENOUGH ctx required_capacity then
       let tmp_len = out_buffer_length ctx * 2;
           tmp_min = min tmp_len INT_MAX;
           len = max (max tmp_min 1024) (current_out_buffer_position ctx + required_capacity)
       in if \<not> mem (nat len) then (Inl dx_mec_insufficient_memory, ctx)
          else case mem_copy (replicate (nat len) 0) 0
                      (case out_buffer ctx of None \<Rightarrow> [] | Some b \<Rightarrow> b) 0
                      (out_buffer_length ctx) of
                 None \<Rightarrow> (Inl UB, ctx)
               | Some new_buffer \<Rightarrow>
                   (Inr (), ctx\<lparr>out_buffer := Some new_buffer, out_buffer_length := len\<rparr>)
     else (Inr (), ctx))"

definition dx_check_write_possibility :: "(nat \<Rightarrow> bool) \<Rightarrow> int \<Rightarrow> (out_ctx, unit) io" where
  "dx_check_write_possibility mem bytes_to_write = (\<lambda>ctx.
     if out_buffer ctx = None then (Inl dx_bioec_buffer_not_initialized, ctx)
     else if IS_CUR_CAPACITY_ENOUGH ctx bytes_to_write then (Inr (), ctx)
     else dx_ensure_capacity mem bytes_to_write ctx)"

section \<open>Raw stores\<close>

text \<open>The statement \<open>out_buffer[current_out_buffer_position++] = b\<close>, and a sequence of them.\<close>

definition put_byte :: "byte \<Rightarrow> (out_ctx, unit) io" where
  "put_byte b = (\<lambda>ctx.
     case out_buffer ctx of
       None \<Rightarrow> (Inl UB, ctx)
     | Some buf \<Rightarrow>
         (case mem_store buf (current_out_buffer_position ctx) b of
            None \<Rightarrow> (Inl UB, ctx)
          | Some buf' \<Rightarrow>
              (Inr (), ctx\<lparr>out_buffer := Some buf',
                           current_out_buffer_position := current_out_buffer_position ctx + 1\<rparr>)))"

fun put_bytes :: "byte list \<Rightarrow> (out_ctx, unit) io" where
  "put_bytes [] = return ()"
| "put_bytes (b # bs) = checked (put_byte b) (\<lambda>_. put_bytes bs)"

definition dx_write_utf2_unchecked :: "int32 \<Rightarrow> (out_ctx, unit) io" where
  "dx_write_utf2_unchecked code_point =
     put_bytes [ucast (0xC0 OR signed_drop_bit 6 code_point), ucast (0x80 OR (code_point AND 0x3F))]"

definition dx_write_utf3_unchecked :: "int32 \<Rightarrow> (out_ctx, unit) io" where
  "dx_write_utf3_unchecked code_point =
     put_bytes [ucast (0xE0 OR signed_drop_bit 12 code_point),
                ucast (0x80 OR (signed_drop_bit 6 code_point AND 0x3F)),
                ucast (0x80 OR (code_point AND 0x3F))]"

definition dx_write_utf4_unchecked :: "int32 \<Rightarrow> (out_ctx, unit) io" where
  "dx_write_utf4_unchecked code_point =
     put_bytes [ucast (0xF0 OR signed_drop_bit 18 code_point),
                ucast (0x80 OR (signed_drop_bit 12 code_point AND 0x3F)),
                ucast (0x80 OR (signed_drop_bit 6 code_point AND 0x3F)),
                ucast (0x80 OR (code_point AND 0x3F))]"

definition dx_write_int_unchecked :: "int32 \<Rightarrow> (out_ctx, unit) io" where
  "dx_write_int_unchecked value =
     put_bytes [ucast (signed_drop_bit 24 value), ucast (signed_drop_bit 16 value),
                ucast (signed_drop_bit 8 value), ucast value]"

definition dx_write_byte_buffer_segment ::
  "(nat \<Rightarrow> bool) \<Rightarrow> byte list \<Rightarrow> int \<Rightarrow> int \<Rightarrow> int \<Rightarrow> (out_ctx, unit) io" where
  "dx_write_byte_buffer_segment mem buffer buffer_length segment_offset segment_length = (\<lambda>ctx.
     if segment_offset < 0 \<or> segment_length < 0 \<or> segment_offset + segment_length < 0
        \<or> buffer_length - (segment_offset + segment_length) < 0
     then (Inl dx_bioec_index_out_of_bounds, ctx)
     else checked (if IS_CUR_CAPACITY_ENOUGH ctx segment_length then return ()
                   else dx_ensure_capacity mem segment_length)
       (\<lambda>_ ctx.
          case mem_copy (case out_buffer ctx of None \<Rightarrow> [] | Some b \<Rightarrow> b)
                 (current_out_buffer_position ctx) buffer segment_offset segment_length of
            None \<Rightarrow> (Inl UB, ctx)
          | Some buf' \<Rightarrow>
              (Inr (), ctx\<lparr>out_buffer := (if out_buffer ctx = None then None else Some buf'),
                 current_out_buffer_position := current_out_buffer_position ctx + segment_length\<rparr>))
       ctx)"

section \<open>Write operations\<close>

definition dx_write_boolean :: "(nat \<Rightarrow> bool) \<Rightarrow> byte \<Rightarrow> (out_ctx, unit) io" where
  "dx_write_boolean mem value =
     checked (dx_check_write_possibility mem 1) (\<lambda>_. put_bytes [if value \<noteq> 0 then 1 else 0])"

definition dx_write_byte :: "(nat \<Rightarrow> bool) \<Rightarrow> byte \<Rightarrow> (out_ctx, unit) io" where
  "dx_write_byte mem value =
     checked (dx_check_write_possibility mem 1) (\<lambda>_. put_bytes [value])"

definition dx_write_short :: "(nat \<Rightarrow> bool) \<Rightarrow> short16 \<Rightarrow> (out_ctx, unit) io" where
  "dx_write_short mem value =
     checked (dx_check_write_possibility mem 2)
       (\<lambda>_. put_bytes [ucast (signed_drop_bit 8 value), ucast value])"

definition dx_write_char :: "(nat \<Rightarrow> bool) \<Rightarrow> dxf_char \<Rightarrow> (out_ctx, unit) io" where
  "dx_write_char mem value =
     checked (dx_check_write_possibility mem 2)
       (\<lambda>_. put_bytes [ucast (drop_bit 8 value), ucast value])"

definition dx_write_int :: "(nat \<Rightarrow> bool) \<Rightarrow> int32 \<Rightarrow> (out_ctx, unit) io" where
  "dx_write_int mem value =
     checked (dx_check_write_possibility mem 4)
       (\<lambda>_. put_bytes [ucast (signed_drop_bit 24 value), ucast (signed_drop_bit 16 value),
                       ucast (signed_drop_bit 8 value), ucast value])"

definition dx_write_long :: "(nat \<Rightarrow> bool) \<Rightarrow> long64 \<Rightarrow> (out_ctx, unit) io" where
  "dx_write_long mem value =
     checked (dx_check_write_possibility mem 8)
       (\<lambda>_. put_bytes [ucast (signed_drop_bit 56 value), ucast (signed_drop_bit 48 value),
                       ucast (signed_drop_bit 40 value), ucast (signed_drop_bit 32 value),
                       ucast (signed_drop_bit 24 value), ucast (signed_drop_bit 16 value),
                       ucast (signed_drop_bit 8 value), ucast value])"

text \<open>A C string argument is the list of its characters before the terminating zero.\<close>

fun dx_write_byte_buffer :: "(nat \<Rightarrow> bool) \<Rightarrow> dxf_char list \<Rightarrow> (out_ctx, unit) io" where
  "dx_write_byte_buffer mem [] = return ()"
| "dx_write_byte_buffer mem (c # cs) =
     checked (dx_write_byte mem (ucast c)) (\<lambda>_. dx_write_byte_buffer mem cs)"

fun dx_write_char_buffer :: "(nat \<Rightarrow> bool) \<Rightarrow> dxf_char list \<Rightarrow> (out_ctx, unit) io" where
  "dx_write_char_buffer mem [] = return ()"
| "dx_write_char_buffer mem (c # cs) =
     checked (dx_write_char mem c) (\<lambda>_. dx_write_char_buffer mem cs)"

fun utf_length :: "dxf_char list \<Rightarrow> short16 \<Rightarrow> short16" where
  "utf_length [] utflen = utflen"
| "utf_length (c # cs) utflen =
     (if c > 0 \<and> c \<le> 0x007F then utf_length cs (utflen + 1)
      else if c \<le> 0x07FF then utf_length cs (utflen + 2)
      else utf_length cs (utflen + 3))"

fun write_utf_chars :: "(nat \<Rightarrow> bool) \<Rightarrow> dxf_char list \<Rightarrow> (out_ctx, unit) io" where
  "write_utf_chars mem [] = return ()"
| "write_utf_chars mem (c # cs) =
     checked (\<lambda>ctx. if IS_CUR_CAPACITY_ENOUGH ctx 3 then (Inr (), ctx) else dx_ensure_capacity mem 3 ctx)
       (\<lambda>_. checked
          (if c > 0 \<and> c \<le> 0x007F then put_bytes [ucast c]
           else if c \<le> 0x07FF then dx_write_utf2_unchecked (ucast c)
           else dx_write_utf3_unchecked (ucast c))
          (\<lambda>_. write_utf_chars mem cs))"

definition dx_write_utf :: "(nat \<Rightarrow> bool) \<Rightarrow> dxf_char list \<Rightarrow> (out_ctx, unit) io" where
  "dx_write_utf mem value =
     (let utflen = utf_length value 0 in
      if uint (scast utflen :: long64) < int (length value) \<or> sint utflen > 65535
      then fail dx_utfec_bad_utf_data_format
      else checked (dx_write_short mem utflen) (\<lambda>_. write_utf_chars mem value))"

section \<open>Compact write operations\<close>

definition dx_write_compact_int :: "(nat \<Rightarrow> bool) \<Rightarrow> int32 \<Rightarrow> (out_ctx, unit) io" where
  "dx_write_compact_int mem value =
     checked (dx_check_write_possibility mem 5) (\<lambda>_.
       if sint value \<ge> 0 then
         (if sint value < 0x40 then put_bytes [ucast value]
          else if sint value < 0x2000 then
            put_bytes [ucast (0x80 OR signed_drop_bit 8 value), ucast value]
          else if sint value < 0x100000 then
            put_bytes [ucast (0xC0 OR signed_drop_bit 16 value), ucast (signed_drop_bit 8 value),
                       ucast value]
          else if sint value < 0x08000000 then dx_write_int_unchecked (0xE0000000 OR value)
          else checked (put_bytes [0xF0]) (\<lambda>_. dx_write_int_unchecked value))
       else
         (if sint value \<ge> -0x40 then put_bytes [ucast (0x7F AND value)]
          else if sint value \<ge> -0x2000 then
            put_bytes [ucast (0xBF AND signed_drop_bit 8 value), ucast value]
          else if sint value \<ge> -0x100000 then
            put_bytes [ucast (0xDF AND signed_drop_bit 16 value), ucast (signed_drop_bit 8 value),
                       ucast value]
          else if sint value \<ge> -0x08000000 then dx_write_int_unchecked (0xEFFFFFFF AND value)
          else checked (put_bytes [0xF7]) (\<lambda>_. dx_write_int_unchecked value)))"

definition dx_write_compact_long :: "(nat \<Rightarrow> bool) \<Rightarrow> long64 \<Rightarrow> (out_ctx, unit) io" where
  "dx_write_compact_long mem value =
     (let hi = (ucast (signed_drop_bit 32 value) :: int32) in
      if value = scast (ucast value :: int32) then dx_write_compact_int mem (ucast value)
      else checked (dx_check_write_possibility mem 9) (\<lambda>_. checked
        (if sint hi \<ge> 0 then
           (if sint hi < 0x04 then put_bytes [ucast (0xF0 OR hi)]
            else if sint hi < 0x0200 then
              put_bytes [ucast (0xF8 OR signed_drop_bit 8 hi), ucast hi]
            else if sint hi < 0x010000 then
              put_bytes [0xFC, ucast (signed_drop_bit 8 hi), ucast hi]
            else if sint hi < 0x800000 then dx_write_int_unchecked (0xFE000000 OR hi)
            else checked (put_bytes [0xFF]) (\<lambda>_. dx_write_int_unchecked hi))
         else
           (if sint hi \<ge> -0x04 then put_bytes [ucast (0xF7 AND hi)]
            else if sint hi \<ge> -0x0200 then
              put_bytes [ucast (0xFB AND signed_drop_bit 8 hi), ucast hi]
            else if sint hi \<ge> -0x010000 then
              put_bytes [0xFD, ucast (signed_drop_bit 8 hi), ucast hi]
            else if sint hi \<ge> -0x800000 then dx_write_int_unchecked (0xFEFFFFFF AND hi)
            else checked (put_bytes [0xFF]) (\<lambda>_. dx_write_int_unchecked hi)))
        (\<lambda>_. dx_write_int_unchecked (ucast value))))"

definition dx_write_byte_array ::
  "(nat \<Rightarrow> bool) \<Rightarrow> byte list option \<Rightarrow> int32 \<Rightarrow> (out_ctx, unit) io" where
  "dx_write_byte_array mem buffer buffer_size =
     (case buffer of
        None \<Rightarrow> dx_write_compact_int mem (- 1)
      | Some b \<Rightarrow>
          checked (dx_write_compact_int mem buffer_size)
            (\<lambda>_. dx_write_byte_buffer_segment mem b (sint buffer_size) 0 (sint buffer_size)))"

section \<open>UTF write operations\<close>

definition dx_write_utf_char :: "(nat \<Rightarrow> bool) \<Rightarrow> int32 \<Rightarrow> (out_ctx, unit) io" where
  "dx_write_utf_char mem code_point =
     checked (dx_check_write_possibility mem 4) (\<lambda>_.
       if sint code_point < 0 then fail dx_utfec_bad_utf_data_format
       else if sint code_point \<le> 0x007F then put_bytes [ucast code_point]
       else if sint code_point \<le> 0x07FF then dx_write_utf2_unchecked code_point
       else if sint code_point \<le> 0xFFFF then dx_write_utf3_unchecked code_point
       else if sint code_point \<le> 0x10FFFF then dx_write_utf4_unchecked code_point
       else fail dx_utfec_bad_utf_data_format)"

text \<open>
  The two loops of \<open>dx_write_utf_string\<close> walk the same units: a high surrogate followed by a low
  one is one character of four bytes.
\<close>

fun utf_string_length :: "dxf_char list \<Rightarrow> int32 \<Rightarrow> int32" where
  "utf_string_length [] utflen = utflen"
| "utf_string_length (c # cs) utflen =
     (if c \<le> 0x007F then utf_string_length cs (utflen + 1)
      else if c \<le> 0x07FF then utf_string_length cs (utflen + 2)
      else if dx_is_high_surrogate c \<and> cs \<noteq> [] \<and> dx_is_low_surrogate (hd cs)
      then utf_string_length (tl cs) (utflen + 4)
      else utf_string_length cs (utflen + 3))"

fun write_utf_string_chars :: "(nat \<Rightarrow> bool) \<Rightarrow> dxf_char list \<Rightarrow> (out_ctx, unit) io" where
  "write_utf_string_chars mem [] = return ()"
| "write_utf_string_chars mem (c # cs) =
     checked (\<lambda>ctx. if IS_CUR_CAPACITY_ENOUGH ctx 4 then (Inr (), ctx) else dx_ensure_capacity mem 4 ctx)
       (\<lambda>_.
          if c \<le> 0x007F then
            checked (put_bytes [ucast c]) (\<lambda>_. write_utf_string_chars mem cs)
          else if c \<le> 0x07FF then
            checked (dx_write_utf2_unchecked (ucast c)) (\<lambda>_. write_utf_string_chars mem cs)
          else if dx_is_high_surrogate c \<and> cs \<noteq> [] \<and> dx_is_low_surrogate (hd cs) then
            checked (dx_write_utf4_unchecked (dx_surrogates_to_code_point c (hd cs)))
              (\<lambda>_. write_utf_string_chars mem (tl cs))
          else
            checked (dx_write_utf3_unchecked (ucast c)) (\<lambda>_. write_utf_string_chars mem cs))"

definition dx_write_utf_string :: "(nat \<Rightarrow> bool) \<Rightarrow> dxf_char list option \<Rightarrow> (out_ctx, unit) io" where
  "dx_write_utf_string mem value =
     (case value of
        None \<Rightarrow> dx_write_compact_int mem (- 1)
      | Some s \<Rightarrow>
          (let utflen = utf_string_length s 0 in
           if uint (scast utflen :: long64) < int (length s)
           then fail dx_utfec_bad_utf_data_format
           else checked (dx_write_compact_int mem utflen) (\<lambda>_. write_utf_string_chars mem s)))"

section \<open>The invariant of the buffer and what a write appends\<close>

text \<open>
  \<open>written\<close> is the abstract content of the stream.  \<open>sends need w bs\<close> is the contract of a write
  operation: it appends \<open>bs\<close> and keeps the invariant; it never touches memory outside the block;
  and it can fail only for lack of memory or for the size limit, never when \<open>need\<close> bytes are free.
\<close>

definition wf_out :: "out_ctx \<Rightarrow> bool" where
  "wf_out ctx \<longleftrightarrow>
     (\<exists>buf. out_buffer ctx = Some buf \<and> int (length buf) = out_buffer_length ctx)
     \<and> 0 \<le> current_out_buffer_position ctx
     \<and> current_out_buffer_position ctx \<le> out_buffer_length ctx
     \<and> out_buffer_length ctx \<le> INT_MAX"

definition written :: "out_ctx \<Rightarrow> byte list" where
  "written ctx = (case out_buffer ctx of
     None \<Rightarrow> [] | Some buf \<Rightarrow> take (nat (current_out_buffer_position ctx)) buf)"

definition room :: "out_ctx \<Rightarrow> int \<Rightarrow> bool" where
  "room ctx n \<longleftrightarrow> IS_CUR_CAPACITY_ENOUGH ctx n"

definition sends :: "nat \<Rightarrow> (out_ctx, 'a) io \<Rightarrow> byte list \<Rightarrow> bool" where
  "sends need w bs \<longleftrightarrow> (\<forall>ctx r ctx'. wf_out ctx \<longrightarrow> w ctx = (r, ctx') \<longrightarrow>
     wf_out ctx' \<and> out_buffer_length ctx \<le> out_buffer_length ctx' \<and>
     (case r of
        Inr _ \<Rightarrow> written ctx' = written ctx @ bs
      | Inl e \<Rightarrow> e \<in> {dx_mec_insufficient_memory, dx_bioec_buffer_overflow}
                 \<and> (\<exists>p. written ctx' = written ctx @ p) \<and> \<not> room ctx (int need)))"

definition puts :: "(out_ctx, unit) io \<Rightarrow> byte list \<Rightarrow> bool" where
  "puts w bs \<longleftrightarrow> (\<forall>ctx. wf_out ctx \<longrightarrow> room ctx (int (length bs)) \<longrightarrow>
     (\<exists>ctx'. w ctx = (Inr (), ctx') \<and> wf_out ctx' \<and> written ctx' = written ctx @ bs \<and>
        out_buffer_length ctx' = out_buffer_length ctx))"

named_theorems puts_intros \<open>raw stores that append their bytes\<close>

lemma position_written: "wf_out ctx \<Longrightarrow> current_out_buffer_position ctx = int (length (written ctx))"
  by (auto simp: wf_out_def written_def)

lemma room_written:
  "wf_out ctx \<Longrightarrow> room ctx n \<longleftrightarrow> int (length (written ctx)) + n \<le> out_buffer_length ctx"
  by (simp add: room_def IS_CUR_CAPACITY_ENOUGH_def position_written)

lemma put_byte_ok:
  assumes "wf_out ctx" "room ctx 1"
  shows "\<exists>ctx'. put_byte b ctx = (Inr (), ctx') \<and> wf_out ctx' \<and> written ctx' = written ctx @ [b] \<and>
    out_buffer_length ctx' = out_buffer_length ctx"
proof -
  from assms obtain buf where buf: "out_buffer ctx = Some buf"
      "int (length buf) = out_buffer_length ctx"
    by (auto simp: wf_out_def)
  let ?p = "nat (current_out_buffer_position ctx)"
  have p: "0 \<le> current_out_buffer_position ctx" "?p < length buf"
    using assms buf by (auto simp: wf_out_def room_def IS_CUR_CAPACITY_ENOUGH_def)
  have "nat (current_out_buffer_position ctx + 1) = Suc ?p" using p by simp
  with p buf assms show ?thesis
    by (auto simp: put_byte_def mem_store_def wf_out_def written_def room_def
        IS_CUR_CAPACITY_ENOUGH_def take_update_snoc)
qed

lemma puts_Nil [puts_intros]: "puts (put_bytes []) []"
  by (simp add: puts_def io_simps)

lemma puts_checked [puts_intros]:
  assumes "puts a xs" "puts b ys"
  shows "puts (checked a (\<lambda>_. b)) (xs @ ys)"
  unfolding puts_def
proof (intro allI impI)
  fix ctx assume wf: "wf_out ctx" and rm: "room ctx (int (length (xs @ ys)))"
  from rm have "room ctx (int (length xs))" by (simp add: room_def IS_CUR_CAPACITY_ENOUGH_def)
  with assms(1) wf obtain c1 where a: "a ctx = (Inr (), c1)" "wf_out c1"
      "written c1 = written ctx @ xs" "out_buffer_length c1 = out_buffer_length ctx"
    by (auto simp: puts_def)
  have "room c1 (int (length ys))" using rm wf a by (simp add: room_written)
  with assms(2) a obtain c2 where "b c1 = (Inr (), c2)" "wf_out c2"
      "written c2 = written c1 @ ys" "out_buffer_length c2 = out_buffer_length c1"
    by (auto simp: puts_def)
  with a show "\<exists>ctx'. checked a (\<lambda>_. b) ctx = (Inr (), ctx') \<and> wf_out ctx' \<and>
      written ctx' = written ctx @ (xs @ ys) \<and> out_buffer_length ctx' = out_buffer_length ctx"
    by (simp add: io_simps)
qed

lemma puts_put_byte: "puts (put_byte b) [b]"
  by (simp add: puts_def put_byte_ok)

lemma puts_put_bytes [puts_intros]: "puts (put_bytes bs) bs"
proof (induction bs)
  case Nil
  show ?case by (rule puts_Nil)
next
  case (Cons b bs)
  show ?case using puts_checked [OF puts_put_byte Cons.IH, of b] by simp
qed

lemma ensure_capacity_spec:
  assumes wf: "wf_out ctx" and n: "0 \<le> n" "n \<le> 2 ^ 30"
    and e: "dx_ensure_capacity mem n ctx = (r, ctx')"
  shows "wf_out ctx' \<and> written ctx' = written ctx \<and> out_buffer_length ctx \<le> out_buffer_length ctx' \<and>
    (case r of Inr _ \<Rightarrow> room ctx' n
     | Inl e \<Rightarrow> e \<in> {dx_mec_insufficient_memory, dx_bioec_buffer_overflow})"
proof (cases "INT_MAX - current_out_buffer_position ctx < out_buffer_length ctx \<or> room ctx n")
  case True
  with e wf show ?thesis
    by (auto simp: dx_ensure_capacity_def room_def split: if_splits)
next
  case False
  define len where "len = max (max (min (out_buffer_length ctx * 2) INT_MAX) 1024)
    (current_out_buffer_position ctx + n)"
  from wf obtain buf where buf: "out_buffer ctx = Some buf" "int (length buf) = out_buffer_length ctx"
    by (auto simp: wf_out_def)
  have b: "0 \<le> current_out_buffer_position ctx" "current_out_buffer_position ctx \<le> out_buffer_length ctx"
      "out_buffer_length ctx \<le> INT_MAX" using wf by (auto simp: wf_out_def)
  have l: "out_buffer_length ctx \<le> len" "len \<le> INT_MAX" "current_out_buffer_position ctx + n \<le> len"
    using b n False by (auto simp: len_def)
  show ?thesis
  proof (cases "mem (nat len)")
    case False2: False
    with e False wf show ?thesis
      by (auto simp: dx_ensure_capacity_def room_def Let_def simp flip: len_def)
  next
    case True
    have nb: "nat (out_buffer_length ctx) = length buf" "length buf \<le> nat len"
      using buf(2) l(1) by linarith+
    then have c: "mem_copy (replicate (nat len) 0) 0 buf 0 (out_buffer_length ctx) =
        Some (buf @ replicate (nat len - length buf) 0)"
      using buf(2) l b by (simp add: mem_copy_def)
    have "r = Inr ()" and c': "ctx' = ctx\<lparr>out_buffer := Some (buf @ replicate (nat len - length buf) 0),
          out_buffer_length := len\<rparr>"
      using e False True buf c by (simp_all add: dx_ensure_capacity_def room_def Let_def flip: len_def)
    moreover have "length buf + (nat len - length buf) = nat len" "nat (current_out_buffer_position ctx) \<le> length buf"
      using nb b by linarith+
    ultimately show ?thesis
      using l b buf by (simp add: wf_out_def written_def room_def IS_CUR_CAPACITY_ENOUGH_def)
  qed
qed

definition ensures :: "int \<Rightarrow> (out_ctx, unit) io \<Rightarrow> bool" where
  "ensures n chk \<longleftrightarrow> (\<forall>ctx r ctx'. wf_out ctx \<longrightarrow> chk ctx = (r, ctx') \<longrightarrow>
     wf_out ctx' \<and> written ctx' = written ctx \<and> out_buffer_length ctx \<le> out_buffer_length ctx' \<and>
     (case r of Inr _ \<Rightarrow> room ctx' n
      | Inl e \<Rightarrow> e \<in> {dx_mec_insufficient_memory, dx_bioec_buffer_overflow} \<and> \<not> room ctx n))"

lemma ensures_check:
  assumes "0 \<le> n" "n \<le> 2 ^ 30"
  shows "ensures n (dx_check_write_possibility mem n)"
  unfolding ensures_def
proof (intro allI impI)
  fix ctx r ctx' assume wf: "wf_out ctx" and e: "dx_check_write_possibility mem n ctx = (r, ctx')"
  from wf have nn: "out_buffer ctx \<noteq> None" by (auto simp: wf_out_def)
  show "wf_out ctx' \<and> written ctx' = written ctx \<and> out_buffer_length ctx \<le> out_buffer_length ctx' \<and>
     (case r of Inr _ \<Rightarrow> room ctx' n
      | Inl e \<Rightarrow> e \<in> {dx_mec_insufficient_memory, dx_bioec_buffer_overflow} \<and> \<not> room ctx n)"
  proof (cases "room ctx n")
    case True
    with e nn wf show ?thesis
      by (auto simp: dx_check_write_possibility_def room_def)
  next
    case False
    with e nn have "dx_ensure_capacity mem n ctx = (r, ctx')"
      by (simp add: dx_check_write_possibility_def room_def)
    from ensure_capacity_spec [OF wf assms this] False show ?thesis
      by (simp split: sum.splits)
  qed
qed

lemma ensures_inline:
  assumes "0 \<le> n" "n \<le> 2 ^ 30"
  shows "ensures n (\<lambda>ctx. if IS_CUR_CAPACITY_ENOUGH ctx n then (Inr (), ctx) else dx_ensure_capacity mem n ctx)"
proof -
  have "(if IS_CUR_CAPACITY_ENOUGH ctx n then (Inr (), ctx) else dx_ensure_capacity mem n ctx) =
      dx_check_write_possibility mem n ctx" if "wf_out ctx" for ctx
    using that by (auto simp: dx_check_write_possibility_def wf_out_def)
  with ensures_check [OF assms, of mem] show ?thesis
    by (simp add: ensures_def)
qed

lemma sends_checkedI:
  assumes chk: "ensures n chk" and w: "puts w bs" and l: "int (length bs) \<le> n" and n: "n \<le> int need"
  shows "sends need (checked chk (\<lambda>_. w)) bs"
  unfolding sends_def
proof (intro allI impI)
  fix ctx r ctx' assume wf: "wf_out ctx" and e: "checked chk (\<lambda>_. w) ctx = (r, ctx')"
  obtain r1 c1 where c: "chk ctx = (r1, c1)" by fastforce
  note s = chk [unfolded ensures_def, rule_format, OF wf c]
  show "wf_out ctx' \<and> out_buffer_length ctx \<le> out_buffer_length ctx' \<and>
     (case r of Inr _ \<Rightarrow> written ctx' = written ctx @ bs
      | Inl e \<Rightarrow> e \<in> {dx_mec_insufficient_memory, dx_bioec_buffer_overflow}
                 \<and> (\<exists>p. written ctx' = written ctx @ p) \<and> \<not> room ctx (int need))"
  proof (cases r1)
    case (Inl er)
    with c e have "r = Inl er" "ctx' = c1" by (simp_all add: io_simps)
    with s Inl n show ?thesis by (auto simp: room_def IS_CUR_CAPACITY_ENOUGH_def)
  next
    case (Inr u)
    with s l have "room c1 (int (length bs))" by (simp add: room_def IS_CUR_CAPACITY_ENOUGH_def)
    with s w obtain c2 where "w c1 = (Inr (), c2)" "wf_out c2" "written c2 = written c1 @ bs"
        "out_buffer_length c2 = out_buffer_length c1"
      by (auto simp: puts_def)
    with c e Inr s show ?thesis by (auto simp: io_simps)
  qed
qed

lemma sends_seq:
  assumes a: "sends n1 a xs" and b: "\<And>x. sends n2 (b x) ys" and n: "n1 \<le> need" "length xs + n2 \<le> need"
  shows "sends need (checked a b) (xs @ ys)"
  unfolding sends_def
proof (intro allI impI)
  fix ctx r ctx' assume wf: "wf_out ctx" and e: "checked a b ctx = (r, ctx')"
  obtain r1 c1 where c: "a ctx = (r1, c1)" by fastforce
  note s = a [unfolded sends_def, rule_format, OF wf c]
  show "wf_out ctx' \<and> out_buffer_length ctx \<le> out_buffer_length ctx' \<and>
     (case r of Inr _ \<Rightarrow> written ctx' = written ctx @ (xs @ ys)
      | Inl e \<Rightarrow> e \<in> {dx_mec_insufficient_memory, dx_bioec_buffer_overflow}
                 \<and> (\<exists>p. written ctx' = written ctx @ p) \<and> \<not> room ctx (int need))"
  proof (cases r1)
    case (Inl er)
    with c e have "r = Inl er" "ctx' = c1" by (simp_all add: io_simps)
    with s Inl n show ?thesis by (auto simp: room_def IS_CUR_CAPACITY_ENOUGH_def)
  next
    case (Inr u)
    with s have c1: "wf_out c1" "written c1 = written ctx @ xs" "out_buffer_length ctx \<le> out_buffer_length c1"
      by auto
    from c e Inr have e2: "b u c1 = (r, ctx')" by (simp add: io_simps)
    note s2 = b [unfolded sends_def, rule_format, OF c1(1) e2]
    have "\<not> room c1 (int n2) \<Longrightarrow> \<not> room ctx (int need)"
      using c1 wf n by (simp add: room_written)
    with s2 c1 show ?thesis by (auto split: sum.splits)
  qed
qed

lemma sends_return: "sends 0 (return x) []"
  by (auto simp: sends_def io_simps)

lemma sends_mono: "sends n w bs \<Longrightarrow> n \<le> m \<Longrightarrow> sends m w bs"
  by (force simp: sends_def room_def IS_CUR_CAPACITY_ENOUGH_def split: sum.splits)

section \<open>The byte formats\<close>

definition int_bytes :: "int32 \<Rightarrow> byte list" where
  "int_bytes v = [ucast (signed_drop_bit 24 v), ucast (signed_drop_bit 16 v),
                  ucast (signed_drop_bit 8 v), ucast v]"

definition short_bytes :: "short16 \<Rightarrow> byte list" where
  "short_bytes v = [ucast (signed_drop_bit 8 v), ucast v]"

definition utf2_bytes :: "int32 \<Rightarrow> byte list" where
  "utf2_bytes v = [ucast (0xC0 OR signed_drop_bit 6 v), ucast (0x80 OR (v AND 0x3F))]"

definition utf3_bytes :: "int32 \<Rightarrow> byte list" where
  "utf3_bytes v = [ucast (0xE0 OR signed_drop_bit 12 v),
     ucast (0x80 OR (signed_drop_bit 6 v AND 0x3F)), ucast (0x80 OR (v AND 0x3F))]"

definition utf4_bytes :: "int32 \<Rightarrow> byte list" where
  "utf4_bytes v = [ucast (0xF0 OR signed_drop_bit 18 v),
     ucast (0x80 OR (signed_drop_bit 12 v AND 0x3F)),
     ucast (0x80 OR (signed_drop_bit 6 v AND 0x3F)), ucast (0x80 OR (v AND 0x3F))]"

definition compact_int_bytes :: "int32 \<Rightarrow> byte list" where
  "compact_int_bytes v =
     (if sint v \<ge> 0 then
        (if sint v < 0x40 then [ucast v]
         else if sint v < 0x2000 then [ucast (0x80 OR signed_drop_bit 8 v), ucast v]
         else if sint v < 0x100000 then
           [ucast (0xC0 OR signed_drop_bit 16 v), ucast (signed_drop_bit 8 v), ucast v]
         else if sint v < 0x08000000 then int_bytes (0xE0000000 OR v)
         else [0xF0] @ int_bytes v)
      else
        (if sint v \<ge> -0x40 then [ucast (0x7F AND v)]
         else if sint v \<ge> -0x2000 then [ucast (0xBF AND signed_drop_bit 8 v), ucast v]
         else if sint v \<ge> -0x100000 then
           [ucast (0xDF AND signed_drop_bit 16 v), ucast (signed_drop_bit 8 v), ucast v]
         else if sint v \<ge> -0x08000000 then int_bytes (0xEFFFFFFF AND v)
         else [0xF7] @ int_bytes v))"

definition long_head_bytes :: "int32 \<Rightarrow> byte list" where
  "long_head_bytes hi =
     (if sint hi \<ge> 0 then
        (if sint hi < 0x04 then [ucast (0xF0 OR hi)]
         else if sint hi < 0x0200 then [ucast (0xF8 OR signed_drop_bit 8 hi), ucast hi]
         else if sint hi < 0x010000 then [0xFC, ucast (signed_drop_bit 8 hi), ucast hi]
         else if sint hi < 0x800000 then int_bytes (0xFE000000 OR hi)
         else [0xFF] @ int_bytes hi)
      else
        (if sint hi \<ge> -0x04 then [ucast (0xF7 AND hi)]
         else if sint hi \<ge> -0x0200 then [ucast (0xFB AND signed_drop_bit 8 hi), ucast hi]
         else if sint hi \<ge> -0x010000 then [0xFD, ucast (signed_drop_bit 8 hi), ucast hi]
         else if sint hi \<ge> -0x800000 then int_bytes (0xFEFFFFFF AND hi)
         else [0xFF] @ int_bytes hi))"

definition fits_int :: "long64 \<Rightarrow> bool" where
  "fits_int v \<longleftrightarrow> v = scast (ucast v :: int32)"

definition compact_long_bytes :: "long64 \<Rightarrow> byte list" where
  "compact_long_bytes v =
     (if fits_int v then compact_int_bytes (ucast v)
      else long_head_bytes (ucast (signed_drop_bit 32 v)) @ int_bytes (ucast v))"

definition utf_char_bytes :: "int32 \<Rightarrow> byte list" where
  "utf_char_bytes v =
     (if sint v \<le> 0x007F then [ucast v]
      else if sint v \<le> 0x07FF then utf2_bytes v
      else if sint v \<le> 0xFFFF then utf3_bytes v
      else utf4_bytes v)"

lemmas byte_formats = int_bytes_def short_bytes_def utf2_bytes_def utf3_bytes_def utf4_bytes_def

lemma puts_if [puts_intros]:
  "(c \<Longrightarrow> puts a xs) \<Longrightarrow> (\<not> c \<Longrightarrow> puts b ys) \<Longrightarrow>
   puts (if c then a else b) (if c then xs else ys)"
  by simp

lemma puts_int_unchecked [puts_intros]: "puts (dx_write_int_unchecked v) (int_bytes v)"
  unfolding dx_write_int_unchecked_def int_bytes_def by (rule puts_put_bytes)

lemma puts_utf_unchecked [puts_intros]:
  "puts (dx_write_utf2_unchecked v) (utf2_bytes v)"
  "puts (dx_write_utf3_unchecked v) (utf3_bytes v)"
  "puts (dx_write_utf4_unchecked v) (utf4_bytes v)"
  unfolding dx_write_utf2_unchecked_def dx_write_utf3_unchecked_def dx_write_utf4_unchecked_def
    byte_formats by (rule puts_put_bytes)+

lemma length_byte_formats [simp]:
  "length (int_bytes v) = 4" "length (short_bytes w) = 2" "length (utf2_bytes v) = 2"
  "length (utf3_bytes v) = 3" "length (utf4_bytes v) = 4"
  by (simp_all add: byte_formats)

lemma length_compact_int_bytes: "1 \<le> length (compact_int_bytes v)" "length (compact_int_bytes v) \<le> 5"
  by (auto simp: compact_int_bytes_def)

lemma length_long_head_bytes: "1 \<le> length (long_head_bytes v)" "length (long_head_bytes v) \<le> 5"
  by (auto simp: long_head_bytes_def)

lemma length_utf_char_bytes: "1 \<le> length (utf_char_bytes v)" "length (utf_char_bytes v) \<le> 4"
  by (auto simp: utf_char_bytes_def)

section \<open>What each write operation sends\<close>

lemma sends_byte: "sends 1 (dx_write_byte mem v) [v]"
  unfolding dx_write_byte_def
  by (rule sends_checkedI [OF ensures_check puts_put_bytes]) simp_all

lemma sends_boolean: "sends 1 (dx_write_boolean mem v) [if v \<noteq> 0 then 1 else 0]"
  unfolding dx_write_boolean_def
  by (rule sends_checkedI [OF ensures_check puts_put_bytes]) simp_all

lemma sends_short: "sends 2 (dx_write_short mem v) (short_bytes v)"
  unfolding dx_write_short_def short_bytes_def
  by (rule sends_checkedI [OF ensures_check puts_put_bytes]) simp_all

lemma sends_int: "sends 4 (dx_write_int mem v) (int_bytes v)"
  unfolding dx_write_int_def int_bytes_def
  by (rule sends_checkedI [OF ensures_check puts_put_bytes]) simp_all

lemma sends_compact_int: "sends 5 (dx_write_compact_int mem v) (compact_int_bytes v)"
proof -
  have "sends 5 (dx_write_compact_int mem v) (compact_int_bytes v)"
    unfolding dx_write_compact_int_def compact_int_bytes_def
    by (rule sends_checkedI [OF ensures_check]; (intro puts_intros)?)
      (use length_compact_int_bytes(2) [of v] in \<open>simp_all add: compact_int_bytes_def\<close>)
  then show ?thesis .
qed

lemma sends_compact_long: "sends 9 (dx_write_compact_long mem v) (compact_long_bytes v)"
proof (cases "fits_int v")
  case True
  then have "dx_write_compact_long mem v = dx_write_compact_int mem (ucast v)"
    by (auto simp: dx_write_compact_long_def fits_int_def Let_def)
  with True sends_mono [OF sends_compact_int] show ?thesis
    by (simp add: compact_long_bytes_def)
next
  case False
  let ?hi = "ucast (signed_drop_bit 32 v) :: int32"
  have p: "puts (if sint ?hi \<ge> 0 then
           (if sint ?hi < 0x04 then put_bytes [ucast (0xF0 OR ?hi)]
            else if sint ?hi < 0x0200 then
              put_bytes [ucast (0xF8 OR signed_drop_bit 8 ?hi), ucast ?hi]
            else if sint ?hi < 0x010000 then
              put_bytes [0xFC, ucast (signed_drop_bit 8 ?hi), ucast ?hi]
            else if sint ?hi < 0x800000 then dx_write_int_unchecked (0xFE000000 OR ?hi)
            else checked (put_bytes [0xFF]) (\<lambda>_. dx_write_int_unchecked ?hi))
         else
           (if sint ?hi \<ge> -0x04 then put_bytes [ucast (0xF7 AND ?hi)]
            else if sint ?hi \<ge> -0x0200 then
              put_bytes [ucast (0xFB AND signed_drop_bit 8 ?hi), ucast ?hi]
            else if sint ?hi \<ge> -0x010000 then
              put_bytes [0xFD, ucast (signed_drop_bit 8 ?hi), ucast ?hi]
            else if sint ?hi \<ge> -0x800000 then dx_write_int_unchecked (0xFEFFFFFF AND ?hi)
            else checked (put_bytes [0xFF]) (\<lambda>_. dx_write_int_unchecked ?hi))) (long_head_bytes ?hi)"
    unfolding long_head_bytes_def by (intro puts_intros)
  have "length (long_head_bytes ?hi @ int_bytes (ucast v)) \<le> 9"
    using length_long_head_bytes(2) [of ?hi] by simp
  with False show ?thesis
    unfolding dx_write_compact_long_def compact_long_bytes_def Let_def fits_int_def
    by (simp only: if_False) (rule sends_checkedI [OF ensures_check puts_checked [OF p puts_int_unchecked]]; simp)
qed

lemma sends_utf_char:
  assumes "0 \<le> sint v" "sint v \<le> 0x10FFFF"
  shows "sends 4 (dx_write_utf_char mem v) (utf_char_bytes v)"
proof -
  have "puts (if sint v \<le> 0x007F then put_bytes [ucast v]
       else if sint v \<le> 0x07FF then dx_write_utf2_unchecked v
       else if sint v \<le> 0xFFFF then dx_write_utf3_unchecked v
       else dx_write_utf4_unchecked v) (utf_char_bytes v)"
    unfolding utf_char_bytes_def by (intro puts_intros)
  then have "sends 4 (checked (dx_check_write_possibility mem 4) (\<lambda>_.
       if sint v \<le> 0x007F then put_bytes [ucast v]
       else if sint v \<le> 0x07FF then dx_write_utf2_unchecked v
       else if sint v \<le> 0xFFFF then dx_write_utf3_unchecked v
       else dx_write_utf4_unchecked v)) (utf_char_bytes v)"
    by (rule sends_checkedI [OF ensures_check, rotated 2]) (use length_utf_char_bytes(2) [of v] in auto)
  with assms show ?thesis
    by (simp add: dx_write_utf_char_def cong: if_cong)
qed

lemma sends_byte_buffer:
  "sends (length cs) (dx_write_byte_buffer mem cs) (map ucast cs)"
proof (induction cs)
  case Nil
  show ?case by (simp add: sends_return)
next
  case (Cons c cs)
  show ?case
    using sends_seq [OF sends_byte [of mem "ucast c"] Cons.IH, of "Suc (length cs)"] by simp
qed

lemma sends_char: "sends 2 (dx_write_char mem v) [ucast (drop_bit 8 v), ucast v]"
  unfolding dx_write_char_def
  by (rule sends_checkedI [OF ensures_check puts_put_bytes]) simp_all

lemma sends_char_buffer:
  "sends (2 * length cs) (dx_write_char_buffer mem cs)
     (concat (map (\<lambda>c. [ucast (drop_bit 8 c), ucast c]) cs))"
proof (induction cs)
  case Nil
  show ?case by (simp add: sends_return)
next
  case (Cons c cs)
  show ?case
    using sends_seq [OF sends_char [of mem c] Cons.IH, of "2 * length (c # cs)"] by simp
qed

lemma sends_long: "sends 8 (dx_write_long mem v)
  [ucast (signed_drop_bit 56 v), ucast (signed_drop_bit 48 v), ucast (signed_drop_bit 40 v),
   ucast (signed_drop_bit 32 v), ucast (signed_drop_bit 24 v), ucast (signed_drop_bit 16 v),
   ucast (signed_drop_bit 8 v), ucast v]"
  unfolding dx_write_long_def
  by (rule sends_checkedI [OF ensures_check puts_put_bytes]) simp_all

text \<open>A segment of a byte array that lies inside it.\<close>

lemma sends_segment:
  assumes "0 \<le> off" "0 \<le> n" "off + n \<le> int (length b)" "n \<le> 2 ^ 30"
  shows "sends (nat n) (dx_write_byte_buffer_segment mem b (int (length b)) off n)
           (take (nat n) (drop (nat off) b))"
proof -
  let ?bs = "take (nat n) (drop (nat off) b)"
  have nb: "nat off + nat n \<le> length b" using assms by linarith
  define copy :: "(out_ctx, unit) io" where "copy = (\<lambda>ctx. case mem_copy (case out_buffer ctx of None \<Rightarrow> [] | Some b \<Rightarrow> b)
                 (current_out_buffer_position ctx) b off n of
            None \<Rightarrow> (Inl UB, ctx)
          | Some buf' \<Rightarrow>
              (Inr (), ctx\<lparr>out_buffer := (if out_buffer ctx = None then None else Some buf'),
                 current_out_buffer_position := current_out_buffer_position ctx + n\<rparr>))"
  have p: "puts copy ?bs"
    unfolding puts_def
  proof (intro allI impI)
    fix ctx assume wf: "wf_out ctx" and rm: "room ctx (int (length ?bs))"
    from wf obtain buf where buf: "out_buffer ctx = Some buf"
        "int (length buf) = out_buffer_length ctx" by (auto simp: wf_out_def)
    let ?p = "nat (current_out_buffer_position ctx)"
    have b0: "0 \<le> current_out_buffer_position ctx" "current_out_buffer_position ctx + n \<le> int (length buf)"
      using wf rm buf nb assms by (auto simp: wf_out_def room_def IS_CUR_CAPACITY_ENOUGH_def)
    then have b: "0 \<le> current_out_buffer_position ctx" "?p + nat n \<le> length buf"
      using assms(2) by linarith+
    have pn: "nat (current_out_buffer_position ctx + n) = ?p + nat n"
      using b assms by (simp add: nat_add_distrib)
    have "current_out_buffer_position ctx + n \<le> int (length buf)" "off + n \<le> int (length b)"
      using b0 assms by simp_all
    then have mc: "mem_copy buf (current_out_buffer_position ctx) b off n =
        Some (take ?p buf @ ?bs @ drop (?p + nat n) buf)"
      using b assms by (simp add: mem_copy_def pn)
    let ?ctx' = "ctx\<lparr>out_buffer := Some (take ?p buf @ ?bs @ drop (?p + nat n) buf),
        current_out_buffer_position := current_out_buffer_position ctx + n\<rparr>"
    have lb: "length ?bs = nat n" using nb by simp
    have c: "copy ctx = (Inr (), ?ctx')" by (simp add: copy_def mc buf)
    moreover have "wf_out ?ctx'"
      using wf b b0 buf assms(2) lb by (auto simp: wf_out_def)
    moreover have "written ?ctx' = written ctx @ ?bs"
      using b buf lb by (simp add: written_def pn)
    ultimately show "\<exists>ctx'. copy ctx = (Inr (), ctx') \<and> wf_out ctx' \<and> written ctx' = written ctx @ ?bs \<and>
        out_buffer_length ctx' = out_buffer_length ctx"
      by (intro exI [of _ ?ctx']) simp
  qed
  have l: "length ?bs = nat n" using nb by simp
  have "sends (nat n) (checked (\<lambda>ctx. if IS_CUR_CAPACITY_ENOUGH ctx n then (Inr (), ctx)
      else dx_ensure_capacity mem n ctx) (\<lambda>_. copy)) ?bs"
    by (rule sends_checkedI [OF ensures_inline p]) (use assms l in simp_all)
  moreover have "dx_write_byte_buffer_segment mem b (int (length b)) off n =
      checked (\<lambda>ctx. if IS_CUR_CAPACITY_ENOUGH ctx n then (Inr (), ctx)
        else dx_ensure_capacity mem n ctx) (\<lambda>_. copy)"
    using assms by (auto simp: dx_write_byte_buffer_segment_def copy_def checked_def io_simps fun_eq_iff
        split: sum.splits)
  ultimately show ?thesis by simp
qed

lemma segment_rejects:
  assumes "segment_offset < 0 \<or> segment_length < 0 \<or> buffer_length < segment_offset + segment_length"
  shows "dx_write_byte_buffer_segment mem buffer buffer_length segment_offset segment_length ctx =
    (Inl dx_bioec_index_out_of_bounds, ctx)"
  using assms by (auto simp: dx_write_byte_buffer_segment_def)

text \<open>A byte array in compact encapsulation.\<close>

definition byte_array_bytes :: "byte list option \<Rightarrow> byte list" where
  "byte_array_bytes buffer =
     (case buffer of None \<Rightarrow> compact_int_bytes (- 1)
      | Some b \<Rightarrow> compact_int_bytes (word_of_nat (length b)) @ b)"

lemma sint_of_small_nat: "n < 2 ^ 31 \<Longrightarrow> sint (word_of_nat n :: int32) = int n"
  by (simp add: signed_of_nat signed_take_bit_int_eq_self)

lemma sends_byte_array:
  assumes "length b \<le> 2 ^ 30"
  shows "sends (5 + length b) (dx_write_byte_array mem (Some b) (word_of_nat (length b)))
           (byte_array_bytes (Some b))"
proof -
  have s: "sint (word_of_nat (length b) :: int32) = int (length b)"
    using assms by (intro sint_of_small_nat) simp
  have seg: "sends (length b) (dx_write_byte_buffer_segment mem b (int (length b)) 0 (int (length b))) b"
    using sends_segment [of 0 "int (length b)" b mem] assms by simp
  have "length (compact_int_bytes (word_of_nat (length b))) \<le> 5"
    by (rule length_compact_int_bytes)
  with sends_seq [OF sends_compact_int seg] show ?thesis
    by (simp add: dx_write_byte_array_def byte_array_bytes_def s)
qed

section \<open>Strings\<close>

text \<open>The code points of a UTF-16 string: a lone surrogate stands for itself.\<close>

fun utf16_points :: "dxf_char list \<Rightarrow> int32 list" where
  "utf16_points [] = []"
| "utf16_points (c # cs) =
     (if dx_is_high_surrogate c \<and> cs \<noteq> [] \<and> dx_is_low_surrogate (hd cs)
      then dx_surrogates_to_code_point c (hd cs) # utf16_points (tl cs)
      else ucast c # utf16_points cs)"

definition utf8_bytes :: "dxf_char list \<Rightarrow> byte list" where
  "utf8_bytes s = concat (map utf_char_bytes (utf16_points s))"

lemma sint_ucast_char [simp]: "sint (ucast (c::dxf_char) :: int32) = uint c"
proof -
  have "- (2 ^ 31) \<le> (0::int)" by simp
  also have "0 \<le> uint c" by simp
  finally have "- (2 ^ 31) \<le> uint c" .
  moreover have "uint c < 2 ^ 31"
    using uint_lt2p [of c] by simp
  ultimately have "signed_take_bit 31 (uint c) = uint c" by (rule signed_take_bit_int_eq_self)
  then show ?thesis by (simp add: signed_ucast_eq)
qed

lemma byte_of_char [simp]: "ucast (ucast (c::dxf_char) :: int32) = (ucast c :: byte)"
  by (rule bit_word_eqI) (auto simp: bit_simps)

lemma surrogate_point_range:
  assumes "dx_is_high_surrogate h" "dx_is_low_surrogate l"
  shows "0x10000 \<le> sint (dx_surrogates_to_code_point h l)" "sint (dx_surrogates_to_code_point h l) \<le> 0x10FFFF"
proof -
  have b: "0xD800 \<le> uint h" "uint h \<le> 0xDBFF" "0xDC00 \<le> uint l" "uint l \<le> 0xDFFF"
    using assms by (simp_all add: dx_is_high_surrogate_def dx_is_low_surrogate_def unicode_consts word_le_def)
  have "sint (dx_surrogates_to_code_point h l) = uint (dx_surrogates_to_code_point h l)"
    using b by (simp add: sint_uint uint_surrogates [OF assms] signed_take_bit_int_eq_self)
  with b show "0x10000 \<le> sint (dx_surrogates_to_code_point h l)"
      "sint (dx_surrogates_to_code_point h l) \<le> 0x10FFFF"
    by (simp_all add: uint_surrogates [OF assms])
qed

lemma high_surrogate_large: "dx_is_high_surrogate c \<Longrightarrow> \<not> c \<le> 0x7FF"
  by (auto simp: dx_is_high_surrogate_def unicode_consts word_le_def)

lemma utf8_bytes_Cons:
  "utf8_bytes (c # cs) =
     (if c \<le> 0x007F then [ucast c] @ utf8_bytes cs
      else if c \<le> 0x07FF then utf2_bytes (ucast c) @ utf8_bytes cs
      else if dx_is_high_surrogate c \<and> cs \<noteq> [] \<and> dx_is_low_surrogate (hd cs)
      then utf4_bytes (dx_surrogates_to_code_point c (hd cs)) @ utf8_bytes (tl cs)
      else utf3_bytes (ucast c) @ utf8_bytes cs)"
proof -
  have l: "uint c \<le> 0xFFFF" using uint_lt2p [of c] by simp
  have u: "c \<le> 0x7F \<longleftrightarrow> uint c \<le> 0x7F" "c \<le> 0x7FF \<longleftrightarrow> uint c \<le> 0x7FF"
    by (simp_all add: word_le_def)
  show ?thesis
  proof (cases "dx_is_high_surrogate c \<and> cs \<noteq> [] \<and> dx_is_low_surrogate (hd cs)")
    case True
    then show ?thesis
      using surrogate_point_range [of c "hd cs"] high_surrogate_large [of c]
      by (auto simp: utf8_bytes_def utf_char_bytes_def word_le_def)
  next
    case False
    then have "utf8_bytes (c # cs) = utf_char_bytes (ucast c) @ utf8_bytes cs"
      by (auto simp: utf8_bytes_def)
    with False l show ?thesis
      by (auto simp: utf_char_bytes_def u)
  qed
qed

lemma utf8_bytes_Nil [simp]: "utf8_bytes [] = []"
  by (simp add: utf8_bytes_def)

lemma utf_string_length_spec: "utf_string_length s n = n + word_of_nat (length (utf8_bytes s))"
  by (induction s n rule: utf_string_length.induct) (simp_all add: utf8_bytes_Cons)

lemma utf8_bytes_length: "length s \<le> length (utf8_bytes s)"
proof (induction s rule: utf16_points.induct)
  case 1
  show ?case by simp
next
  case (2 c cs)
  have "length cs \<le> length (utf8_bytes cs)" 
    if "\<not> (dx_is_high_surrogate c \<and> cs \<noteq> [] \<and> dx_is_low_surrogate (hd cs))"
    using 2 that by blast
  moreover have "length (tl cs) \<le> length (utf8_bytes (tl cs))"
    if "dx_is_high_surrogate c \<and> cs \<noteq> [] \<and> dx_is_low_surrogate (hd cs)"
    using 2 that by blast
  ultimately show ?case
    using high_surrogate_large [of c] by (auto simp: utf8_bytes_Cons word_le_def)
qed

lemma sends_utf_string_chars: "sends (length (utf8_bytes s) + 3) (write_utf_string_chars mem s) (utf8_bytes s)"
proof (induction s rule: utf16_points.induct)
  case 1
  show ?case using sends_mono [OF sends_return, of 3] by simp
next
  case (2 c cs)
  let ?pair = "dx_is_high_surrogate c \<and> cs \<noteq> [] \<and> dx_is_low_surrogate (hd cs)"
  have step: "sends (length (bs @ rest) + 3)
      (checked (\<lambda>ctx. if IS_CUR_CAPACITY_ENOUGH ctx 4 then (Inr (), ctx) else dx_ensure_capacity mem 4 ctx)
        (\<lambda>_. checked w (\<lambda>_. k))) (bs @ rest)"
    if "puts w bs" "sends (length rest + 3) k rest" "1 \<le> length bs" "length bs \<le> 4" for w k bs rest
  proof -
    have "sends 4 (checked (\<lambda>ctx. if IS_CUR_CAPACITY_ENOUGH ctx 4 then (Inr (), ctx)
        else dx_ensure_capacity mem 4 ctx) (\<lambda>_. w)) bs"
      by (rule sends_checkedI [OF ensures_inline that(1)]) (use that in simp_all)
    from sends_seq [OF this that(2), of "length (bs @ rest) + 3"] that show ?thesis
      by (simp add: checked_assoc)
  qed
  show ?case
  proof (cases ?pair)
    case True
    with 2(1) have "sends (length (utf8_bytes (tl cs)) + 3) (write_utf_string_chars mem (tl cs)) (utf8_bytes (tl cs))"
      by blast
    with True high_surrogate_large [of c] show ?thesis
      using step [OF puts_utf_unchecked(3)] by (auto simp: utf8_bytes_Cons word_le_def)
  next
    case False
    with 2(2) have "sends (length (utf8_bytes cs) + 3) (write_utf_string_chars mem cs) (utf8_bytes cs)"
      by blast
    note st = this
    consider "c \<le> 0x7F" | "\<not> c \<le> 0x7F" "c \<le> 0x7FF" | "\<not> c \<le> 0x7F" "\<not> c \<le> 0x7FF" by blast
    then show ?thesis
    proof cases
      case 1
      then show ?thesis using step [OF puts_put_bytes [of "[ucast c]"] st] by (simp add: utf8_bytes_Cons)
    next
      case 2
      then show ?thesis using step [OF puts_utf_unchecked(1) st] by (simp add: utf8_bytes_Cons)
    next
      case 3
      with False show ?thesis using step [OF puts_utf_unchecked(2) st] by (auto simp: utf8_bytes_Cons)
    qed
  qed
qed

lemma sends_utf_string:
  assumes "length (utf8_bytes s) < 2 ^ 31"
  shows "sends (length (utf8_bytes s) + 8) (dx_write_utf_string mem (Some s))
    (compact_int_bytes (word_of_nat (length (utf8_bytes s))) @ utf8_bytes s)"
proof -
  let ?n = "word_of_nat (length (utf8_bytes s)) :: int32"
  have "sint ?n = int (length (utf8_bytes s))" using assms by (rule sint_of_small_nat)
  then have "uint (scast ?n :: long64) = int (length (utf8_bytes s))"
    using assms by (simp add: uint_sint sint_up_scast is_up take_bit_int_eq_self)
  then have "dx_write_utf_string mem (Some s) = checked (dx_write_compact_int mem ?n) (\<lambda>_. write_utf_string_chars mem s)"
    using utf8_bytes_length [of s] by (simp add: dx_write_utf_string_def utf_string_length_spec Let_def)
  moreover have "sends (length (utf8_bytes s) + 8)
      (checked (dx_write_compact_int mem ?n) (\<lambda>_. write_utf_string_chars mem s))
      (compact_int_bytes ?n @ utf8_bytes s)"
    by (rule sends_seq [OF sends_compact_int sends_utf_string_chars])
      (use length_compact_int_bytes(2) [of ?n] in simp_all)
  ultimately show ?thesis by simp
qed

end
