(* ===== verification/Dx_Input.thy ===== *)
theory Dx_Input
  imports Dx_IO_Common
begin

text \<open>
  \<open>src/BufferedInput.c\<close>: the input buffer of a connection and its read operations.

  The state is \<open>dx_buffered_input_connection_context_t\<close>; \<open>None\<close> is the null buffer.  Reads advance
  the position even when a later part of the same operation fails, as in C.  Shifts of negative
  \<open>int\<close>s, which the code uses to extend signs, are two's complement shifts of the machine word, as
  the compilers of the project give.  Readers of \<open>float\<close> and \<open>double\<close> reinterpret the bits that
  \<open>dx_read_int\<close> and \<open>dx_read_long\<close> deliver and are left out.
\<close>

section \<open>State and buffer manipulators\<close>

record in_ctx =
  in_buffer :: "byte list option"
  in_buffer_length :: int
  in_buffer_limit :: int
  current_in_buffer_position :: int

definition dx_set_in_buffer :: "byte list option \<Rightarrow> int \<Rightarrow> in_ctx \<Rightarrow> in_ctx" where
  "dx_set_in_buffer new_buffer new_length ctx =
     ctx\<lparr>in_buffer := new_buffer, in_buffer_length := new_length\<rparr>"

definition dx_set_in_buffer_position :: "int \<Rightarrow> in_ctx \<Rightarrow> in_ctx" where
  "dx_set_in_buffer_position new_position ctx = ctx\<lparr>current_in_buffer_position := new_position\<rparr>"

definition dx_set_in_buffer_limit :: "int \<Rightarrow> in_ctx \<Rightarrow> in_ctx" where
  "dx_set_in_buffer_limit new_limit ctx = ctx\<lparr>in_buffer_limit := new_limit\<rparr>"

definition IS_BUF_CAPACITY_ENOUGH :: "in_ctx \<Rightarrow> int \<Rightarrow> bool" where
  "IS_BUF_CAPACITY_ENOUGH ctx bytes_to_read \<longleftrightarrow>
     current_in_buffer_position ctx + bytes_to_read \<le> in_buffer_length ctx"

section \<open>Read operation helpers\<close>

definition dx_move_buffer_pos :: "int \<Rightarrow> (in_ctx, int) io" where
  "dx_move_buffer_pos offset = (\<lambda>ctx.
     let actual_offset =
           (if offset > 0 then min offset (in_buffer_length ctx - current_in_buffer_position ctx)
            else max offset (- current_in_buffer_position ctx))
     in (Inr (offset - actual_offset),
         ctx\<lparr>current_in_buffer_position := current_in_buffer_position ctx + actual_offset\<rparr>))"

definition dx_validate_buffer_and_value :: "int \<Rightarrow> (in_ctx, unit) io" where
  "dx_validate_buffer_and_value value_size = (\<lambda>ctx.
     if in_buffer ctx = None then (Inl dx_bioec_buffer_not_initialized, ctx)
     else if \<not> IS_BUF_CAPACITY_ENOUGH ctx value_size then (Inl dx_bioec_buffer_underflow, ctx)
     else (Inr (), ctx))"

text \<open>The expression \<open>in_buffer[current_in_buffer_position++]\<close>.\<close>

definition get_byte :: "(in_ctx, byte) io" where
  "get_byte = (\<lambda>ctx.
     case in_buffer ctx of
       None \<Rightarrow> (Inl UB, ctx)
     | Some buf \<Rightarrow>
         let pos = current_in_buffer_position ctx in
         if 0 \<le> pos \<and> pos < int (length buf)
         then (Inr (buf ! nat pos), ctx\<lparr>current_in_buffer_position := pos + 1\<rparr>)
         else (Inl UB, ctx))"

section \<open>Read operations\<close>

definition dx_read_boolean :: "(in_ctx, byte) io" where
  "dx_read_boolean = checked (dx_validate_buffer_and_value 1) (\<lambda>_. get_byte)"

definition dx_read_byte :: "(in_ctx, byte) io" where
  "dx_read_byte = checked (dx_validate_buffer_and_value 1) (\<lambda>_. get_byte)"

definition dx_read_unsigned_byte :: "(in_ctx, int32) io" where
  "dx_read_unsigned_byte =
     checked (dx_validate_buffer_and_value 1) (\<lambda>_.
     checked get_byte (\<lambda>b. return ((scast b :: int32) AND 0xFF)))"

definition dx_read_short :: "(in_ctx, short16) io" where
  "dx_read_short =
     checked (dx_validate_buffer_and_value 2) (\<lambda>_.
     checked get_byte (\<lambda>b0. let v0 = (ucast (push_bit 8 (scast b0 :: int32)) :: short16) in
     checked get_byte (\<lambda>b1.
       return (ucast ((scast v0 :: int32) OR ((scast b1 :: int32) AND 0xFF))))))"

definition dx_read_unsigned_short :: "(in_ctx, int32) io" where
  "dx_read_unsigned_short =
     checked (dx_validate_buffer_and_value 2) (\<lambda>_.
     checked get_byte (\<lambda>b0. let v0 = push_bit 8 ((scast b0 :: int32) AND 0xFF) in
     checked get_byte (\<lambda>b1. return (v0 OR ((scast b1 :: int32) AND 0xFF)))))"

definition dx_read_int :: "(in_ctx, int32) io" where
  "dx_read_int =
     checked (dx_validate_buffer_and_value 4) (\<lambda>_.
     checked get_byte (\<lambda>b0. let v0 = push_bit 24 ((scast b0 :: int32) AND 0xFF) in
     checked get_byte (\<lambda>b1. let v1 = v0 OR push_bit 16 ((scast b1 :: int32) AND 0xFF) in
     checked get_byte (\<lambda>b2. let v2 = v1 OR push_bit 8 ((scast b2 :: int32) AND 0xFF) in
     checked get_byte (\<lambda>b3. return (v2 OR ((scast b3 :: int32) AND 0xFF)))))))"

definition dx_read_long :: "(in_ctx, long64) io" where
  "dx_read_long =
     checked (dx_validate_buffer_and_value 8) (\<lambda>_.
     checked get_byte (\<lambda>b0. let v0 = push_bit 56 (scast b0 :: long64) in
     checked get_byte (\<lambda>b1. let v1 = v0 OR push_bit 48 (scast b1) in
     checked get_byte (\<lambda>b2. let v2 = v1 OR push_bit 40 (scast b2) in
     checked get_byte (\<lambda>b3. let v3 = v2 OR push_bit 32 (scast b3) in
     checked get_byte (\<lambda>b4. let v4 = v3 OR push_bit 24 (scast b4) in
     checked get_byte (\<lambda>b5. let v5 = v4 OR push_bit 16 (scast b5) in
     checked get_byte (\<lambda>b6. let v6 = v5 OR push_bit 8 (scast b6) in
     checked get_byte (\<lambda>b7. return (v6 OR ((scast b7) AND 0xFF)))))))))))"

section \<open>UTF-8 helpers\<close>

text \<open>The first byte arrives as an \<open>int\<close>, sign-extended from the signed byte.\<close>

definition dx_read_utf2 :: "int32 \<Rightarrow> (in_ctx, int32) io" where
  "dx_read_utf2 first =
     checked dx_read_byte (\<lambda>second.
       if (scast second :: int32) AND 0xC0 \<noteq> 0x80 then fail dx_utfec_bad_utf_data_format_server
       else return (ucast (ucast (push_bit 6 (first AND 0x1F) OR ((scast second :: int32) AND 0x3F))
                           :: dxf_char)))"

definition dx_read_utf3 :: "int32 \<Rightarrow> (in_ctx, int32) io" where
  "dx_read_utf3 first =
     checked dx_read_short (\<lambda>tail.
       if (scast tail :: int32) AND 0xC0C0 \<noteq> 0x8080 then fail dx_utfec_bad_utf_data_format_server
       else return (ucast (ucast (push_bit 12 (first AND 0x0F)
                                  OR signed_drop_bit 2 ((scast tail :: int32) AND 0x3F00)
                                  OR ((scast tail :: int32) AND 0x3F)) :: dxf_char)))"

definition dx_read_utf4 :: "int32 \<Rightarrow> (in_ctx, int32) io" where
  "dx_read_utf4 first =
     checked dx_read_byte (\<lambda>second.
     checked dx_read_short (\<lambda>tail.
       if (scast second :: int32) AND 0xC0 \<noteq> 0x80 \<or> (scast tail :: int32) AND 0xC0C0 \<noteq> 0x8080
       then fail dx_utfec_bad_utf_data_format_server
       else let res = push_bit 18 (first AND 0x07) OR push_bit 12 ((scast second :: int32) AND 0x3F)
                      OR signed_drop_bit 2 ((scast tail :: int32) AND 0x3F00)
                      OR ((scast tail :: int32) AND 0x3F)
            in if sint res > 0x10FFFF then fail dx_utfec_bad_utf_data_format_server
               else return res))"

text \<open>
  The loop of \<open>dx_read_utf_sequence\<close>: \<open>buffer\<close> is the block of \<open>utflen + 1\<close> characters made by
  \<open>dx_create_string\<close>, \<open>count\<close> the next free index, \<open>utflen\<close> the number of bytes (or characters,
  with \<open>lenInChars\<close>) still to come, which may become negative.
\<close>

definition store_char :: "dxf_char list \<Rightarrow> int \<Rightarrow> dxf_char \<Rightarrow> (in_ctx, dxf_char list) io" where
  "store_char buffer count c =
     (case mem_store buffer count c of None \<Rightarrow> fail UB | Some buffer' \<Rightarrow> return buffer')"

function read_utf_loop ::
  "bool \<Rightarrow> int \<Rightarrow> int \<Rightarrow> dxf_char list \<Rightarrow> (in_ctx, dxf_char list \<times> int \<times> int) io" where
  "read_utf_loop lenInChars utflen count buffer =
     (if utflen > 0 then
        checked dx_read_byte (\<lambda>c.
          if sint c \<ge> 0 then
            checked (store_char buffer count (ucast c)) (\<lambda>buffer'.
              read_utf_loop lenInChars (utflen - 1) (count + 1) buffer')
          else if (scast c :: int32) AND 0xE0 = 0xC0 then
            checked (dx_read_utf2 (scast c)) (\<lambda>tmpCh.
            checked (store_char buffer count (ucast tmpCh)) (\<lambda>buffer'.
              read_utf_loop lenInChars (utflen - (if lenInChars then 1 else 2)) (count + 1) buffer'))
          else if (scast c :: int32) AND 0xF0 = 0xE0 then
            checked (dx_read_utf3 (scast c)) (\<lambda>tmpCh.
            checked (store_char buffer count (ucast tmpCh)) (\<lambda>buffer'.
              read_utf_loop lenInChars (utflen - (if lenInChars then 1 else 3)) (count + 1) buffer'))
          else if (scast c :: int32) AND 0xF8 = 0xF0 then
            checked (dx_read_utf4 (scast c)) (\<lambda>tmpInt.
              let utflen' = utflen - (if lenInChars then 1 else 4) in
              case dx_code_point_to_utf16_chars tmpInt buffer count utflen' of
                Inl e \<Rightarrow> fail e
              | Inr (buffer', res) \<Rightarrow> read_utf_loop lenInChars utflen' (count + res) buffer')
          else fail dx_utfec_bad_utf_data_format_server)
      else return (buffer, count, utflen))"
  by pat_completeness auto
termination
  by (relation "measure (\<lambda>(_, utflen, _, _). nat utflen)") auto

declare read_utf_loop.simps [simp del]

text \<open>
  The string read is the whole block, with the terminating zero that the code stores behind the
  last character.  \<open>mem n\<close>: an allocation of \<open>n\<close> characters succeeds.
\<close>

definition dx_read_utf_sequence ::
  "(nat \<Rightarrow> bool) \<Rightarrow> int \<Rightarrow> bool \<Rightarrow> (in_ctx, dxf_char list) io" where
  "dx_read_utf_sequence mem utflen lenInChars =
     (if utflen = 0 then (if mem 1 then return [0] else fail dx_mec_insufficient_memory)
      else if \<not> mem (nat (utflen + 1)) then fail dx_mec_insufficient_memory
      else checked (read_utf_loop lenInChars utflen 0 (replicate (nat (utflen + 1)) 0))
        (\<lambda>(buffer, count, utflen').
           if utflen' < 0 then fail dx_utfec_bad_utf_data_format_server
           else store_char buffer count 0))"

text \<open>The characters of a zero-terminated block.\<close>

definition c_string :: "dxf_char list \<Rightarrow> dxf_char list" where
  "c_string buffer = takeWhile (\<lambda>c. c \<noteq> 0) buffer"

definition dx_read_byte_buffer_segment ::
  "byte list \<Rightarrow> int \<Rightarrow> int \<Rightarrow> int \<Rightarrow> (in_ctx, byte list) io" where
  "dx_read_byte_buffer_segment buffer buffer_length segment_offset segment_length = (\<lambda>ctx.
     if segment_offset < 0 \<or> segment_length < 0 \<or> segment_offset + segment_length < 0
        \<or> buffer_length - (segment_offset + segment_length) < 0
     then (Inl dx_bioec_index_out_of_bounds, ctx)
     else if \<not> IS_BUF_CAPACITY_ENOUGH ctx segment_length then (Inl dx_bioec_buffer_underflow, ctx)
     else case mem_copy buffer segment_offset
                 (case in_buffer ctx of None \<Rightarrow> [] | Some b \<Rightarrow> b)
                 (current_in_buffer_position ctx) segment_length of
            None \<Rightarrow> (Inl UB, ctx)
          | Some buffer' \<Rightarrow>
              (Inr buffer',
               ctx\<lparr>current_in_buffer_position := current_in_buffer_position ctx + segment_length\<rparr>))"

section \<open>Reading a line\<close>

text \<open>
  The loop of \<open>dx_read_line\<close> over the block \<open>tmp_buffer\<close>, first of 128 characters.  Once \<open>count\<close>
  has reached 128, every further character allocates a new block of 256 and copies the first 128
  characters into it.
\<close>

definition tmp_buf_size :: nat where "tmp_buf_size = 128"

function read_line_loop :: "(nat \<Rightarrow> bool) \<Rightarrow> dxf_char list \<Rightarrow> nat \<Rightarrow> in_ctx \<Rightarrow>
    (dx_error + dxf_char list \<times> nat) \<times> in_ctx" where
  "read_line_loop mem tmp_buffer count ctx =
     (if current_in_buffer_position ctx < in_buffer_length ctx then
        (case get_byte ctx of
           (Inl e, ctx1) \<Rightarrow> (Inl e, ctx1)
         | (Inr b, ctx1) \<Rightarrow>
             let c = (ucast ((scast b :: int32) AND 0xFF) :: dxf_char) in
             if c = 10 then (Inr (tmp_buffer, count), ctx1)
             else if c = 13 then
               (if current_in_buffer_position ctx1 < in_buffer_length ctx1 then
                  (case get_byte ctx1 of
                     (Inl e, ctx2) \<Rightarrow> (Inl e, ctx2)
                   | (Inr b2, ctx2) \<Rightarrow>
                       (Inr (tmp_buffer, count), if b2 = 10 then ctx2 else ctx1))
                else (Inr (tmp_buffer, count), ctx1))
             else if count \<ge> tmp_buf_size \<and> \<not> mem (2 * tmp_buf_size)
             then (Inl dx_mec_insufficient_memory, ctx1)
             else let tmp = (if count \<ge> tmp_buf_size
                             then mem_copy (replicate (2 * tmp_buf_size) 0) 0 tmp_buffer 0 (int tmp_buf_size)
                             else Some tmp_buffer)
                  in case tmp of
                       None \<Rightarrow> (Inl UB, ctx1)
                     | Some tmp' \<Rightarrow>
                         (case mem_store tmp' (int count) c of
                            None \<Rightarrow> (Inl UB, ctx1)
                          | Some tmp'' \<Rightarrow> read_line_loop mem tmp'' (count + 1) ctx1))
      else (Inr (tmp_buffer, count), ctx))"
  by pat_completeness auto
termination
  by (relation "measure (\<lambda>(_, _, _, ctx). nat (in_buffer_length ctx - current_in_buffer_position ctx))")
    (auto simp: get_byte_def Let_def split: option.splits if_splits)

declare read_line_loop.simps [simp del]

definition dx_read_line :: "(nat \<Rightarrow> bool) \<Rightarrow> (in_ctx, dxf_char list) io" where
  "dx_read_line mem =
     checked (dx_validate_buffer_and_value 1) (\<lambda>_.
       if \<not> mem tmp_buf_size then fail dx_mec_insufficient_memory
       else checked (read_line_loop mem (replicate tmp_buf_size 0) 0)
         (\<lambda>(tmp_buffer, count). store_char tmp_buffer (int count) 0))"

definition dx_read_utf :: "(nat \<Rightarrow> bool) \<Rightarrow> (in_ctx, dxf_char list) io" where
  "dx_read_utf mem =
     checked dx_read_unsigned_short (\<lambda>utflen. dx_read_utf_sequence mem (sint utflen) False)"

section \<open>Compact read operations\<close>

text \<open>
  The skipping loop of \<open>dx_read_compact_int\<close>: \<open>while (((n <<= 1) & 0x10) != 0)\<close>.  Each round moves a
  bit out of the low five, so five rounds of fuel are enough (\<open>skip_loop_fuel\<close>).
\<close>

fun skip_loop :: "nat \<Rightarrow> int32 \<Rightarrow> (in_ctx, unit) io" where
  "skip_loop 0 n = return ()"
| "skip_loop (Suc fuel) n =
     (let n' = push_bit 1 n in
      if n' AND 0x10 \<noteq> 0 then checked (dx_move_buffer_pos 1) (\<lambda>_. skip_loop fuel n')
      else return ())"

definition dx_read_compact_int :: "(in_ctx, int32) io" where
  "dx_read_compact_int =
     checked dx_read_unsigned_byte (\<lambda>n.
       if sint n < 0x80 then return (signed_drop_bit 25 (push_bit 25 n))
       else if sint n < 0xC0 then
         checked dx_read_unsigned_byte (\<lambda>m.
           return (signed_drop_bit 18 (push_bit 18 (push_bit 8 n OR m))))
       else if sint n < 0xE0 then
         checked dx_read_unsigned_short (\<lambda>m.
           return (signed_drop_bit 11 (push_bit 11 (push_bit 16 n OR m))))
       else if sint n < 0xF0 then
         checked dx_read_unsigned_byte (\<lambda>tmp_byte.
         checked dx_read_unsigned_short (\<lambda>tmp_short.
           return (signed_drop_bit 4 (push_bit 4 (push_bit 24 n OR push_bit 16 tmp_byte OR tmp_short)))))
       else checked (skip_loop 5 n) (\<lambda>_. dx_read_int))"

text \<open>
  In the second branch \<open>tmp_byte\<close> is an unsigned \<open>dxf_uint_t\<close>, so the expression is unsigned and its
  right shift logical; in the others the operands are signed.
\<close>

definition dx_read_compact_long :: "(in_ctx, long64) io" where
  "dx_read_compact_long =
     checked dx_read_unsigned_byte (\<lambda>n.
       if sint n < 0x80 then return (scast (signed_drop_bit 25 (push_bit 25 n)))
       else if sint n < 0xC0 then
         checked dx_read_unsigned_byte (\<lambda>tmp_byte.
           return (ucast (drop_bit 18 (push_bit 18 (push_bit 8 n OR tmp_byte)))))
       else if sint n < 0xE0 then
         checked dx_read_unsigned_short (\<lambda>tmp_short.
           return (scast (signed_drop_bit 11 (push_bit 11 (push_bit 16 n OR tmp_short)))))
       else if sint n < 0xF0 then
         checked dx_read_unsigned_byte (\<lambda>tmp_byte.
         checked dx_read_unsigned_short (\<lambda>tmp_short.
           return (scast (signed_drop_bit 4
             (push_bit 4 (push_bit 24 n OR push_bit 16 tmp_byte OR tmp_short))))))
       else
         checked
           (if sint n < 0xF8 then return (signed_drop_bit 29 (push_bit 29 n))
            else if sint n < 0xFC then
              checked dx_read_unsigned_byte (\<lambda>tmp_byte.
                return (signed_drop_bit 22 (push_bit 22 (push_bit 8 n OR tmp_byte))))
            else if sint n < 0xFE then
              checked dx_read_unsigned_short (\<lambda>tmp_short.
                return (signed_drop_bit 15 (push_bit 15 (push_bit 16 n OR tmp_short))))
            else if sint n < 0xFF then
              checked dx_read_byte (\<lambda>tmp_byte.
              checked dx_read_unsigned_short (\<lambda>tmp_short.
                return (push_bit 16 (scast tmp_byte) OR tmp_short)))
            else dx_read_int)
           (\<lambda>n. checked dx_read_int (\<lambda>tmp_int.
              return (push_bit 32 (scast n :: long64) OR ((scast tmp_int :: long64) AND 0xFFFFFFFF)))))"

text \<open>An empty array and the array of length -1 (null) both give \<open>DX_EMPTY_ARRAY\<close>.\<close>

definition dx_read_byte_array :: "(nat \<Rightarrow> bool) \<Rightarrow> (in_ctx, byte list) io" where
  "dx_read_byte_array mem =
     checked dx_read_compact_long (\<lambda>buffer_length.
       if sint buffer_length < -1 \<or> sint buffer_length > INT_MAX
       then fail dx_ec_invalid_func_param_internal
       else if sint buffer_length = -1 then return []
       else if sint buffer_length = 0 then return []
       else if \<not> mem (nat (sint buffer_length)) then fail dx_mec_insufficient_memory
       else dx_read_byte_buffer_segment (replicate (nat (sint buffer_length)) 0)
              (sint buffer_length) 0 (sint buffer_length))"

section \<open>UTF read operations\<close>

definition dx_read_utf_char :: "(in_ctx, int32) io" where
  "dx_read_utf_char =
     checked dx_read_byte (\<lambda>c.
       if sint c \<ge> 0 then return (ucast (ucast c :: dxf_char))
       else if (scast c :: int32) AND 0xE0 = 0xC0 then dx_read_utf2 (scast c)
       else if (scast c :: int32) AND 0xF0 = 0xE0 then dx_read_utf3 (scast c)
       else if (scast c :: int32) AND 0xF8 = 0xF0 then dx_read_utf4 (scast c)
       else fail dx_utfec_bad_utf_data_format_server)"

text \<open>A string result of \<open>None\<close> is the null pointer.\<close>

definition dx_read_utf_char_array :: "(nat \<Rightarrow> bool) \<Rightarrow> (in_ctx, dxf_char list option) io" where
  "dx_read_utf_char_array mem =
     checked dx_read_compact_long (\<lambda>utflen.
       if sint utflen < -1 \<or> sint utflen > INT_MAX then fail dx_ec_invalid_func_param_internal
       else if sint utflen = -1 then return None
       else checked (dx_read_utf_sequence mem (sint utflen) True) (\<lambda>s. return (Some s)))"

definition dx_read_utf_string :: "(nat \<Rightarrow> bool) \<Rightarrow> (in_ctx, dxf_char list option) io" where
  "dx_read_utf_string mem =
     checked dx_read_compact_long (\<lambda>utflen.
       if sint utflen < -1 \<or> sint utflen > INT_MAX then fail dx_ec_invalid_func_param_internal
       else if sint utflen = -1 then return None
       else checked (dx_read_utf_sequence mem (sint utflen) False) (\<lambda>s. return (Some s)))"

text \<open>
  \<open>dx_get_raw\<close> copies the bytes between the position and the limit and returns the copy with its
  length.  Its allocation is not checked: without memory the first store is undefined.
\<close>

definition dx_get_raw :: "(nat \<Rightarrow> bool) \<Rightarrow> in_ctx \<Rightarrow> dx_error + byte list option \<times> int" where
  "dx_get_raw mem ctx =
     (let pos = current_in_buffer_position ctx;
          count = in_buffer_limit ctx - pos;
          size = nat (count mod 2 ^ 64)
      in if count \<le> 0 then Inr (if mem size then Some (replicate size 0) else None, count)
         else if \<not> mem size then Inl UB
         else case mem_copy (replicate size 0) 0
                     (case in_buffer ctx of None \<Rightarrow> [] | Some b \<Rightarrow> b) pos count of
                None \<Rightarrow> Inl UB
              | Some buf \<Rightarrow> Inr (Some buf, count))"

lemma scast_byte_FF: "(scast (b::byte) :: int32) AND 0xFF = ucast b"
proof -
  have "(scast b :: int32) AND mask 8 = ucast b"
  proof (rule bit_word_eqI)
    fix n :: nat
    show "bit ((scast b :: int32) AND mask 8) n = bit (ucast b :: int32) n"
    proof (cases "n < 8")
      case True
      then have "min 7 n = n" by simp
      with True show ?thesis by (auto simp: bit_simps)
    next
      case False
      then have "\<not> bit b n" by (auto dest: bit_imp_le_length)
      with False show ?thesis by (auto simp: bit_simps)
    qed
  qed
  then show ?thesis by (simp add: mask_eq_exp_minus_1)
qed

section \<open>The invariant of the buffer and what a read consumes\<close>

text \<open>
  \<open>pending\<close> is the abstract content of the stream: the bytes still to be read.  \<open>receives r bs v\<close>
  is the contract of a read operation on input that begins with \<open>bs\<close>: it delivers \<open>v\<close> and
  consumes exactly \<open>bs\<close>.  \<open>safe r\<close>: the operation keeps the invariant on every input, never reads
  outside the block, and only moves forward.
\<close>

definition wf_in :: "in_ctx \<Rightarrow> bool" where
  "wf_in ctx \<longleftrightarrow>
     (\<exists>buf. in_buffer ctx = Some buf \<and> in_buffer_length ctx \<le> int (length buf))
     \<and> 0 \<le> current_in_buffer_position ctx
     \<and> current_in_buffer_position ctx \<le> in_buffer_length ctx"

definition pending :: "in_ctx \<Rightarrow> byte list" where
  "pending ctx = (case in_buffer ctx of
     None \<Rightarrow> []
   | Some buf \<Rightarrow> drop (nat (current_in_buffer_position ctx)) (take (nat (in_buffer_length ctx)) buf))"

definition advance :: "nat \<Rightarrow> in_ctx \<Rightarrow> in_ctx" where
  "advance n ctx = ctx\<lparr>current_in_buffer_position := current_in_buffer_position ctx + int n\<rparr>"

definition receives :: "(in_ctx, 'a) io \<Rightarrow> byte list \<Rightarrow> 'a \<Rightarrow> bool" where
  "receives r bs v \<longleftrightarrow> (\<forall>ctx rest. wf_in ctx \<longrightarrow> pending ctx = bs @ rest \<longrightarrow>
     r ctx = (Inr v, advance (length bs) ctx))"

definition same_buffer :: "in_ctx \<Rightarrow> in_ctx \<Rightarrow> bool" where
  "same_buffer ctx ctx' \<longleftrightarrow> in_buffer ctx' = in_buffer ctx
     \<and> in_buffer_length ctx' = in_buffer_length ctx \<and> in_buffer_limit ctx' = in_buffer_limit ctx
     \<and> current_in_buffer_position ctx \<le> current_in_buffer_position ctx'"

definition safe :: "(in_ctx, 'a) io \<Rightarrow> bool" where
  "safe r \<longleftrightarrow> (\<forall>ctx res ctx'. wf_in ctx \<longrightarrow> r ctx = (res, ctx') \<longrightarrow>
     wf_in ctx' \<and> same_buffer ctx ctx' \<and> res \<noteq> Inl UB)"

lemma length_pending: "wf_in ctx \<Longrightarrow>
    int (length (pending ctx)) = in_buffer_length ctx - current_in_buffer_position ctx"
  by (auto simp: wf_in_def pending_def)

lemma pending_advance:
  assumes "wf_in ctx" "pending ctx = bs @ rest"
  shows "wf_in (advance (length bs) ctx)" "pending (advance (length bs) ctx) = rest"
proof -
  have l: "int (length bs) + int (length rest) = in_buffer_length ctx - current_in_buffer_position ctx"
    using length_pending [OF assms(1)] assms(2) by simp
  show "wf_in (advance (length bs) ctx)"
    using assms(1) l by (auto simp: wf_in_def advance_def)
  have "nat (current_in_buffer_position ctx + int (length bs)) =
      length bs + nat (current_in_buffer_position ctx)"
    using assms(1) by (auto simp: wf_in_def)
  then have "pending (advance (length bs) ctx) = drop (length bs) (pending ctx)"
    by (auto simp: pending_def advance_def split: option.splits)
  with assms(2) show "pending (advance (length bs) ctx) = rest" by simp
qed

lemma advance_advance [simp]: "advance m (advance n ctx) = advance (n + m) ctx"
  by (simp add: advance_def)

lemma get_byte_pending:
  assumes "wf_in ctx" "pending ctx = b # rest"
  shows "get_byte ctx = (Inr b, advance 1 ctx)"
proof -
  from assms(1) obtain buf where buf: "in_buffer ctx = Some buf"
      "in_buffer_length ctx \<le> int (length buf)" by (auto simp: wf_in_def)
  let ?p = "nat (current_in_buffer_position ctx)"
  from assms(2) buf have d: "drop ?p (take (nat (in_buffer_length ctx)) buf) = b # rest"
    by (simp add: pending_def)
  from drop_eq_Cons [OF this] have "?p < length buf" "buf ! ?p = b" by auto
  with assms(1) buf show ?thesis
    by (auto simp: get_byte_def advance_def wf_in_def Let_def)
qed

lemma receives_get_byte: "receives get_byte [b] b"
  by (auto simp: receives_def get_byte_pending)

lemma receives_return: "receives (return x) [] x"
  by (auto simp: receives_def io_simps advance_def)

lemma receives_seq:
  assumes "receives m xs x" "receives (k x) ys y"
  shows "receives (checked m k) (xs @ ys) y"
  unfolding receives_def
proof (intro allI impI)
  fix ctx rest assume wf: "wf_in ctx" and p: "pending ctx = (xs @ ys) @ rest"
  then have "m ctx = (Inr x, advance (length xs) ctx)"
    using assms(1) by (simp add: receives_def)
  moreover have "k x (advance (length xs) ctx) = (Inr y, advance (length ys) (advance (length xs) ctx))"
    using pending_advance [OF wf, of xs "ys @ rest"] p assms(2) by (simp add: receives_def)
  ultimately show "checked m k ctx = (Inr y, advance (length (xs @ ys)) ctx)"
    by (simp add: io_simps)
qed

lemma receives_validate:
  assumes "receives r bs v" "int (length bs) = n"
  shows "receives (checked (dx_validate_buffer_and_value n) (\<lambda>_. r)) bs v"
  unfolding receives_def
proof (intro allI impI)
  fix ctx rest assume wf: "wf_in ctx" and p: "pending ctx = bs @ rest"
  have "dx_validate_buffer_and_value n ctx = (Inr (), ctx)"
    using wf length_pending [OF wf] p assms(2)
    by (auto simp: dx_validate_buffer_and_value_def IS_BUF_CAPACITY_ENOUGH_def wf_in_def)
  with assms(1) wf p show "checked (dx_validate_buffer_and_value n) (\<lambda>_. r) ctx = (Inr v, advance (length bs) ctx)"
    by (simp add: io_simps receives_def)
qed

lemma receives_byte: "receives dx_read_byte [b] b" "receives dx_read_boolean [b] b"
  unfolding dx_read_byte_def dx_read_boolean_def
  by (rule receives_validate [OF receives_get_byte]; simp)+

lemma receives_map:
  assumes "receives m xs x" "y = f x"
  shows "receives (checked m (\<lambda>x. return (f x))) xs y"
  using receives_seq [OF assms(1) receives_return, of "\<lambda>x. f x"] assms(2) by simp

lemma receives_unsigned_byte: "receives dx_read_unsigned_byte [b] (ucast b)"
  unfolding dx_read_unsigned_byte_def
  by (rule receives_validate [OF receives_map [OF receives_get_byte]]) (simp_all add: scast_byte_FF)

lemma receives_get_Cons:
  assumes "receives (k b) bs v"
  shows "receives (checked get_byte k) (b # bs) v"
  using receives_seq [of get_byte "[b]" b k bs v] assms receives_get_byte by simp

lemma receives_short:
  "receives dx_read_short [b0, b1] (ucast (push_bit 8 (ucast b0 :: int32) OR ucast b1))"
proof -
  have e: "(ucast ((scast (ucast (push_bit 8 (scast b0 :: int32)) :: short16) :: int32) OR ((scast b1 :: int32) AND 0xFF)) :: short16)
      = ucast (push_bit 8 (ucast b0 :: int32) OR ucast b1)"
    unfolding scast_byte_FF by (rule bit16_eqI) (auto simp: bit_simps)
  show ?thesis
    unfolding dx_read_short_def Let_def
    by (rule receives_validate, rule receives_get_Cons, rule receives_get_Cons,
        subst e, rule receives_return) simp
qed

lemma receives_unsigned_short:
  "receives dx_read_unsigned_short [b0, b1] (push_bit 8 (ucast b0) OR ucast b1)"
  unfolding dx_read_unsigned_short_def Let_def scast_byte_FF
  by (rule receives_validate, rule receives_get_Cons, rule receives_get_Cons, rule receives_return) simp

definition int_of_bytes :: "byte \<Rightarrow> byte \<Rightarrow> byte \<Rightarrow> byte \<Rightarrow> int32" where
  "int_of_bytes b0 b1 b2 b3 =
     ((push_bit 24 (ucast b0) OR push_bit 16 (ucast b1)) OR push_bit 8 (ucast b2)) OR ucast b3"

lemma receives_int: "receives dx_read_int [b0, b1, b2, b3] (int_of_bytes b0 b1 b2 b3)"
  unfolding dx_read_int_def int_of_bytes_def Let_def scast_byte_FF
  by (rule receives_validate, rule receives_get_Cons, rule receives_get_Cons, rule receives_get_Cons,
      rule receives_get_Cons, rule receives_return) simp

lemma bit_int_of_bytes:
  "bit (int_of_bytes b0 b1 b2 b3) i \<longleftrightarrow>
     (if i < 8 then bit b3 i else if i < 16 then bit b2 (i - 8)
      else if i < 24 then bit b1 (i - 16) else i < 32 \<and> bit b0 (i - 24))"
  by (auto simp: int_of_bytes_def bit_simps dest: bit_imp_le_length)

lemma int_of_int_bytes:
  "int_of_bytes (ucast (signed_drop_bit 24 v)) (ucast (signed_drop_bit 16 v))
     (ucast (signed_drop_bit 8 v)) (ucast v) = v"
  by (rule bit_word_eqI) (auto simp: bit_int_of_bytes bit_simps)

end
