(* ===== verification/Dx_Roundtrip.thy ===== *)
theory Dx_Roundtrip
  imports Dx_Output Dx_Input
begin

text \<open>
  What the write operations of \<open>src/BufferedOutput.c\<close> produce is what the read operations of
  \<open>src/BufferedInput.c\<close> accept: \<open>receives r (bytes v) v\<close> for the bytes that \<open>sends\<close> names.
\<close>

section \<open>Compact integers\<close>


lemma receives_eq: "receives r bs w \<Longrightarrow> w = v \<Longrightarrow> receives r bs v"
  by simp

lemma receives_int_bytes: "receives dx_read_int (int_bytes v) v"
  using receives_int [of "ucast (signed_drop_bit 24 v)" "ucast (signed_drop_bit 16 v)"
      "ucast (signed_drop_bit 8 v)" "ucast v"]
  by (simp add: int_bytes_def int_of_int_bytes)

lemma sint_ucast_byte [simp]: "sint (ucast (b::byte) :: int32) = uint b"
proof -
  have "uint b < 2 ^ 8" using uint_lt2p [of b] by simp
  then have "uint b < 2 ^ 31" by (rule order_less_trans) simp
  moreover have "- (2 ^ 31) \<le> (0::int)" by simp
  then have "- (2 ^ 31) \<le> uint b" by (rule order_trans) simp
  ultimately have "signed_take_bit 31 (uint b) = uint b" by (intro signed_take_bit_int_eq_self)
  then show ?thesis by (simp add: signed_ucast_eq)
qed

lemma receives_ubyte_Cons:
  assumes "receives (k (ucast b)) bs v"
  shows "receives (checked dx_read_unsigned_byte k) (b # bs) v"
  using receives_seq [of dx_read_unsigned_byte "[b]" "ucast b" k bs v] receives_unsigned_byte [of b] assms
  by simp

lemma receives_ushort_Cons:
  assumes "receives (k (push_bit 8 (ucast b0) OR ucast b1)) bs v"
  shows "receives (checked dx_read_unsigned_short k) (b0 # b1 # bs) v"
  using receives_seq [of dx_read_unsigned_short "[b0, b1]" _ k bs v] receives_unsigned_short [of b0 b1] assms
  by simp

lemma receives_byte_Cons:
  assumes "receives (k b) bs v"
  shows "receives (checked dx_read_byte k) (b # bs) v"
  using receives_seq [of dx_read_byte "[b]" b k bs v] receives_byte(1) [of b] assms by simp

text \<open>The five lengths of a compact number, by the leading bits of the first byte.\<close>

lemma receives_compact_int_cases:
  "\<not> bit b 7 \<Longrightarrow>
     receives dx_read_compact_int [b] (signed_drop_bit 25 (push_bit 25 (ucast b)))"
  "bit b 7 \<Longrightarrow> \<not> bit b 6 \<Longrightarrow>
     receives dx_read_compact_int [b, b1] (signed_drop_bit 18 (push_bit 18 (push_bit 8 (ucast b) OR ucast b1)))"
  "bit b 7 \<Longrightarrow> bit b 6 \<Longrightarrow> \<not> bit b 5 \<Longrightarrow>
     receives dx_read_compact_int [b, b1, b2]
       (signed_drop_bit 11 (push_bit 11 (push_bit 16 (ucast b) OR (push_bit 8 (ucast b1) OR ucast b2))))"
  "bit b 7 \<Longrightarrow> bit b 6 \<Longrightarrow> bit b 5 \<Longrightarrow> \<not> bit b 4 \<Longrightarrow>
     receives dx_read_compact_int [b, b1, b2, b3]
       (signed_drop_bit 4 (push_bit 4 (push_bit 24 (ucast b) OR push_bit 16 (ucast b1)
          OR (push_bit 8 (ucast b2) OR ucast b3))))"
  "bit b 7 \<Longrightarrow> bit b 6 \<Longrightarrow> bit b 5 \<Longrightarrow> bit b 4 \<Longrightarrow> \<not> bit b 3 \<Longrightarrow>
     receives dx_read_compact_int [b, b1, b2, b3, b4] (int_of_bytes b1 b2 b3 b4)"
  unfolding dx_read_compact_int_def
  subgoal by (rule receives_ubyte_Cons) (simp add: byte_range receives_return)
  subgoal by (rule receives_ubyte_Cons) (simp add: byte_range receives_ubyte_Cons receives_return)
  subgoal by (rule receives_ubyte_Cons) (simp add: byte_range receives_ushort_Cons receives_return)
  subgoal by (rule receives_ubyte_Cons)
     (simp add: byte_range receives_ubyte_Cons receives_ushort_Cons receives_return)
  subgoal
  proof -
    assume b: "bit b 7" "bit b 6" "bit b 5" "bit b 4" "\<not> bit b 3"
    have "\<not> bit (push_bit 1 (ucast b :: int32)) 4"
      by (simp only: bit_push_bit_iff bit_unsigned_iff) (use b in simp)
    then have "(push_bit 1 (ucast b :: int32)) AND 2 ^ 4 = 0"
      by (simp only: and_exp_eq_0_iff_not_bit not_False_eq_True)
    then have "(push_bit 1 (ucast b :: int32)) AND 0x10 = 0"
      by (simp only: power_numeral) simp
    then have "skip_loop 5 (ucast b) = return ()"
      by (simp add: eval_nat_numeral Let_def)
    with b show ?thesis
      by (intro receives_ubyte_Cons) (simp add: byte_range checked_return receives_int)
  qed
  done

lemmas sign_run = bit_sint_range [where 'a = 32, simplified]

lemma compact_int_1:
  assumes "- 0x40 \<le> sint v" "sint v < 0x40"
  obtains b where "compact_int_bytes v = [b]" "\<not> bit b 7"
    "signed_drop_bit 25 (push_bit 25 (ucast b)) = v"
proof -
  define b :: byte where "b = (if 0 \<le> sint v then ucast v else ucast (0x7F AND v))"
  have r: "bit v n = (sint v < 0)" if "6 \<le> n" "n < 32" for n
    using assms that by (intro sign_run [of 6]) simp_all
  have enc: "compact_int_bytes v = [b]"
    using assms by (simp add: compact_int_bytes_def b_def)
  have b7: "\<not> bit b 7" using r [of 7] by (simp add: b_def bit_simps)
  have "signed_drop_bit 25 (push_bit 25 (ucast b)) = v"
  proof (rule sign_extend [where k = 6])
    fix i :: nat assume "i \<le> 6"
    then have "i \<in> {0,1,2,3,4,5,6,7}" by (intro less_8_cases) simp
    with \<open>i \<le> 6\<close> show "bit (ucast b :: int32) i = bit v i"
      by (auto simp: b_def bit_simps)
  qed (use assms in simp_all)
  with enc b7 show ?thesis by (rule that)
qed

lemma compact_int_2:
  assumes "\<not> (- 0x40 \<le> sint v \<and> sint v < 0x40)" "- 0x2000 \<le> sint v" "sint v < 0x2000"
  obtains b b1 where "compact_int_bytes v = [b, b1]" "bit b 7" "\<not> bit b 6"
    "signed_drop_bit 18 (push_bit 18 (push_bit 8 (ucast b) OR ucast b1)) = v"
proof -
  define b :: byte where "b = (if 0 \<le> sint v then ucast (0x80 OR signed_drop_bit 8 v)
    else ucast (0xBF AND signed_drop_bit 8 v))"
  have r: "bit v n = (sint v < 0)" if "13 \<le> n" "n < 32" for n
    using assms that by (intro sign_run [of 13]) simp_all
  have enc: "compact_int_bytes v = [b, ucast v]"
    using assms by (auto simp: compact_int_bytes_def b_def)
  have b76: "bit b 7" "\<not> bit b 6" using r [of 14] r [of 15] by (simp_all add: b_def bit_simps)
  have "signed_drop_bit 18 (push_bit 18 (push_bit 8 (ucast b) OR ucast (ucast v :: byte))) = v"
  proof (rule sign_extend [where k = 13])
    fix i :: nat assume i: "i \<le> 13"
    then have "i \<in> {0,1,2,3,4,5,6,7,8,9,10,11,12,13,14,15}" by (intro less_16_cases) simp
    with i show "bit (push_bit 8 (ucast b) OR ucast (ucast v :: byte) :: int32) i = bit v i"
      by (auto simp: b_def bit_simps)
  qed (use assms in simp_all)
  with enc b76 show ?thesis by (rule that)
qed

lemma bit_three_bytes:
  fixes v :: int32
  assumes "i < 24"
  shows "bit (push_bit 16 (ucast (b::byte)) OR (push_bit 8 (ucast (ucast (signed_drop_bit 8 v) :: byte))
     OR ucast (ucast v :: byte)) :: int32) i = (if i < 16 then bit v i else bit b (i - 16))"
  using assms by (auto simp: bit_simps dest: bit_imp_le_length)

lemma compact_int_3:
  assumes "\<not> (- 0x2000 \<le> sint v \<and> sint v < 0x2000)" "- 0x100000 \<le> sint v" "sint v < 0x100000"
  obtains b b1 b2 where "compact_int_bytes v = [b, b1, b2]" "bit b 7" "bit b 6" "\<not> bit b 5"
    "signed_drop_bit 11 (push_bit 11 (push_bit 16 (ucast b) OR (push_bit 8 (ucast b1) OR ucast b2))) = v"
proof -
  define b :: byte where "b = (if 0 \<le> sint v then ucast (0xC0 OR signed_drop_bit 16 v)
    else ucast (0xDF AND signed_drop_bit 16 v))"
  have r: "bit v n = (sint v < 0)" if "20 \<le> n" "n < 32" for n
    using assms that by (intro sign_run [of 20]) simp_all
  have enc: "compact_int_bytes v = [b, ucast (signed_drop_bit 8 v), ucast v]"
    using assms by (auto simp: compact_int_bytes_def b_def)
  have b765: "bit b 7" "bit b 6" "\<not> bit b 5"
    using r [of 21] r [of 22] r [of 23] by (simp_all add: b_def bit_simps)
  have "signed_drop_bit 11 (push_bit 11 (push_bit 16 (ucast b) OR
      (push_bit 8 (ucast (ucast (signed_drop_bit 8 v) :: byte)) OR ucast (ucast v :: byte)))) = v"
  proof (rule sign_extend [where k = 20])
    fix i :: nat assume i: "i \<le> 20"
    have "bit b (i - 16) = bit v i" if "16 \<le> i"
    proof -
      define j where "j = i - 16"
      have j: "j < 8" "j \<le> 4" "i = 16 + j" using i that by (simp_all add: j_def)
      from less_8_cases [OF j(1)] j(2) have "bit b j = bit v (16 + j)"
        by (auto simp: b_def bit_simps)
      with j show ?thesis by simp
    qed
    with i show "bit (push_bit 16 (ucast b) OR (push_bit 8 (ucast (ucast (signed_drop_bit 8 v) :: byte))
        OR ucast (ucast v :: byte)) :: int32) i = bit v i"
      by (simp add: bit_three_bytes)
  qed (use assms in simp_all)
  with enc b765 show ?thesis by (rule that)
qed

lemma less_28_high:
  "i \<le> 27 \<Longrightarrow> \<not> bit (0xE0000000 :: int32) i" "i \<le> 27 \<Longrightarrow> bit (0xEFFFFFFF :: int32) i"
proof -
  have "(0xE0000000 :: int32) = push_bit 29 7" "(0xEFFFFFFF :: int32) = NOT (push_bit 28 1)"
    by (simp_all add: push_bit_eq_mult)
  then show "i \<le> 27 \<Longrightarrow> \<not> bit (0xE0000000 :: int32) i" "i \<le> 27 \<Longrightarrow> bit (0xEFFFFFFF :: int32) i"
    by (simp_all only: bit_push_bit_iff bit_not_iff) (auto simp: bit_simps)
qed

lemma compact_int_4:
  assumes "\<not> (- 0x100000 \<le> sint v \<and> sint v < 0x100000)" "- 0x8000000 \<le> sint v"
    "sint v < 0x8000000"
  obtains b b1 b2 b3 where "compact_int_bytes v = [b, b1, b2, b3]" "bit b 7" "bit b 6" "bit b 5"
    "\<not> bit b 4" "signed_drop_bit 4 (push_bit 4 (push_bit 24 (ucast b) OR push_bit 16 (ucast b1)
       OR (push_bit 8 (ucast b2) OR ucast b3))) = v"
proof -
  define w where "w = (if 0 \<le> sint v then 0xE0000000 OR v else 0xEFFFFFFF AND v)"
  have r: "bit v n = (sint v < 0)" if "27 \<le> n" "n < 32" for n
    using assms that by (intro sign_run [of 27]) simp_all
  have enc: "compact_int_bytes v = [ucast (signed_drop_bit 24 w), ucast (signed_drop_bit 16 w),
      ucast (signed_drop_bit 8 w), ucast w]"
    using assms by (auto simp: compact_int_bytes_def w_def int_bytes_def)
  have w: "bit w 31" "bit w 30" "bit w 29" "\<not> bit w 28"
    using r [of 28] r [of 29] r [of 30] r [of 31] by (simp_all add: w_def bit_simps)
  then have b: "bit (ucast (signed_drop_bit 24 w) :: byte) 7" "bit (ucast (signed_drop_bit 24 w) :: byte) 6"
     "bit (ucast (signed_drop_bit 24 w) :: byte) 5" "\<not> bit (ucast (signed_drop_bit 24 w) :: byte) 4"
    by (simp_all add: bit_simps)
  have "signed_drop_bit 4 (push_bit 4 (push_bit 24 (ucast (ucast (signed_drop_bit 24 w) :: byte)) OR
      push_bit 16 (ucast (ucast (signed_drop_bit 16 w) :: byte)) OR
      (push_bit 8 (ucast (ucast (signed_drop_bit 8 w) :: byte)) OR ucast (ucast w :: byte)))) = v"
  proof (rule sign_extend [where k = 27])
    fix i :: nat assume i: "i \<le> 27"
    have "bit (int_of_bytes (ucast (signed_drop_bit 24 w)) (ucast (signed_drop_bit 16 w))
        (ucast (signed_drop_bit 8 w)) (ucast w)) i = bit v i"
      using i less_28_high [OF i] by (simp only: int_of_int_bytes) (simp add: w_def bit_or_iff bit_and_iff)
    then show "bit (push_bit 24 (ucast (ucast (signed_drop_bit 24 w) :: byte)) OR
      push_bit 16 (ucast (ucast (signed_drop_bit 16 w) :: byte)) OR
      (push_bit 8 (ucast (ucast (signed_drop_bit 8 w) :: byte)) OR ucast (ucast w :: byte)) :: int32) i = bit v i"
      by (simp only: int_of_bytes_def or.assoc)
  qed (use assms in simp_all)
  with enc b show ?thesis by (rule that)
qed

lemma compact_int_5:
  assumes "\<not> (- 0x8000000 \<le> sint v \<and> sint v < 0x8000000)"
  obtains b where "compact_int_bytes v = b # int_bytes v" "b = (if 0 \<le> sint v then 0xF0 else 0xF7)"
  using assms by (auto simp: compact_int_bytes_def)

lemma compact_int_length_cases:
  fixes v :: int32
  obtains "- 0x40 \<le> sint v" "sint v < 0x40"
  | "\<not> (- 0x40 \<le> sint v \<and> sint v < 0x40)" "- 0x2000 \<le> sint v" "sint v < 0x2000"
  | "\<not> (- 0x2000 \<le> sint v \<and> sint v < 0x2000)" "- 0x100000 \<le> sint v" "sint v < 0x100000"
  | "\<not> (- 0x100000 \<le> sint v \<and> sint v < 0x100000)" "- 0x8000000 \<le> sint v" "sint v < 0x8000000"
  | "\<not> (- 0x8000000 \<le> sint v \<and> sint v < 0x8000000)"
  by linarith

lemma receives_compact_int: "receives dx_read_compact_int (compact_int_bytes v) v"
proof (cases v rule: compact_int_length_cases)
  case 1
  then show ?thesis
    by (rule compact_int_1) (metis receives_compact_int_cases(1))
next
  case 2
  then show ?thesis
    by (rule compact_int_2) (metis receives_compact_int_cases(2))
next
  case 3
  then show ?thesis
    by (rule compact_int_3) (metis receives_compact_int_cases(3))
next
  case 4
  then show ?thesis
    by (rule compact_int_4) (metis receives_compact_int_cases(4))
next
  case 5
  then obtain b where b: "compact_int_bytes v = b # int_bytes v" "b = (if 0 \<le> sint v then 0xF0 else 0xF7)"
    by (rule compact_int_5)
  then have "bit b 7" "bit b 6" "bit b 5" "bit b 4" "\<not> bit b 3" by simp_all
  from receives_compact_int_cases(5) [OF this] show ?thesis
    unfolding b(1) int_bytes_def by (rule receives_eq) (rule int_of_int_bytes)
qed

section \<open>Compact long integers\<close>

text \<open>The part of \<open>dx_read_compact_long\<close> that reads the high half of a long format.\<close>

definition read_long_head :: "int32 \<Rightarrow> (in_ctx, int32) io" where
  "read_long_head n =
     (if sint n < 0xF8 then return (signed_drop_bit 29 (push_bit 29 n))
      else if sint n < 0xFC then
        checked dx_read_unsigned_byte (\<lambda>tmp_byte.
          return (signed_drop_bit 22 (push_bit 22 (push_bit 8 n OR tmp_byte))))
      else if sint n < 0xFE then
        checked dx_read_unsigned_short (\<lambda>tmp_short.
          return (signed_drop_bit 15 (push_bit 15 (push_bit 16 n OR tmp_short))))
      else if sint n < 0xFF then
        checked dx_read_byte (\<lambda>tmp_byte.
        checked dx_read_unsigned_short (\<lambda>tmp_short.
          return (push_bit 16 (scast tmp_byte) OR tmp_short)))
      else dx_read_int)"

definition join_halves :: "int32 \<Rightarrow> int32 \<Rightarrow> long64" where
  "join_halves hi lo = push_bit 32 (scast hi) OR (scast lo AND 0xFFFFFFFF)"

lemma bit_join_halves:
  "bit (join_halves hi lo) i \<longleftrightarrow> (if i < 32 then bit lo i else i < 64 \<and> bit hi (i - 32))"
proof -
  have m: "(0xFFFFFFFF :: long64) = mask 32" by (simp add: mask_eq_exp_minus_1)
  have s: "bit (scast (w::int32) :: long64) j \<longleftrightarrow> bit w j" if "j < 32" for w j
  proof -
    have "min 31 j = j" using that by simp
    then show ?thesis using that by (simp add: bit_signed_iff)
  qed
  show ?thesis
    unfolding join_halves_def m bit_or_iff bit_and_iff bit_push_bit_iff bit_mask_iff
    by (auto simp: s)
qed

lemma join_halves_of_long: "join_halves (ucast (signed_drop_bit 32 v)) (ucast v) = v"
  by (rule bit_word_eqI) (auto simp: bit_join_halves bit_simps)

lemma receives_int_format: "receives dx_read_int (int_bytes v) v"
  unfolding int_bytes_def by (rule receives_eq [OF receives_int int_of_int_bytes])

lemma receives_long_format:
  assumes "bit b 7" "bit b 6" "bit b 5" "bit b 4" "receives (read_long_head (ucast b)) bs hi"
  shows "receives dx_read_compact_long (b # bs @ int_bytes lo) (join_halves hi lo)"
proof -
  have "receives (checked (read_long_head (ucast b)) (\<lambda>n. checked dx_read_int (\<lambda>tmp_int.
      return (push_bit 32 (scast n :: long64) OR ((scast tmp_int :: long64) AND 0xFFFFFFFF)))))
      (bs @ int_bytes lo) (join_halves hi lo)"
    by (rule receives_seq [OF assms(5)], rule receives_map [OF receives_int_format])
      (simp add: join_halves_def)
  moreover have "\<not> uint b < 0x80" "\<not> uint b < 0xC0" "\<not> uint b < 0xE0" "\<not> uint b < 0xF0"
    using assms(1-4) by (simp_all add: byte_range)
  ultimately show ?thesis
    unfolding dx_read_compact_long_def
    by (intro receives_ubyte_Cons) (simp only: sint_ucast_byte if_False read_long_head_def)
qed

lemma receives_compact_long_cases:
  "\<not> bit b 7 \<Longrightarrow>
     receives dx_read_compact_long [b] (scast (signed_drop_bit 25 (push_bit 25 (ucast b :: int32))))"
  "bit b 7 \<Longrightarrow> \<not> bit b 6 \<Longrightarrow>
     receives dx_read_compact_long [b, b1]
       (ucast (drop_bit 18 (push_bit 18 (push_bit 8 (ucast b) OR ucast b1 :: int32))))"
  "bit b 7 \<Longrightarrow> bit b 6 \<Longrightarrow> \<not> bit b 5 \<Longrightarrow>
     receives dx_read_compact_long [b, b1, b2]
       (scast (signed_drop_bit 11 (push_bit 11 (push_bit 16 (ucast b) OR (push_bit 8 (ucast b1) OR ucast b2 :: int32)))))"
  "bit b 7 \<Longrightarrow> bit b 6 \<Longrightarrow> bit b 5 \<Longrightarrow> \<not> bit b 4 \<Longrightarrow>
     receives dx_read_compact_long [b, b1, b2, b3]
       (scast (signed_drop_bit 4 (push_bit 4 (push_bit 24 (ucast b) OR push_bit 16 (ucast b1)
          OR (push_bit 8 (ucast b2) OR ucast b3 :: int32)))))"
  unfolding dx_read_compact_long_def
  by (rule receives_ubyte_Cons,
      simp add: byte_range receives_ubyte_Cons receives_ushort_Cons receives_return)+

text \<open>The head of a long format, by its length.\<close>

lemma receives_long_head_cases:
  fixes b b1 b2 b3 :: byte
  shows "\<not> bit b 3 \<Longrightarrow> bit b 7 \<Longrightarrow> bit b 6 \<Longrightarrow> bit b 5 \<Longrightarrow> bit b 4 \<Longrightarrow>
     receives (read_long_head (ucast b)) [] (signed_drop_bit 29 (push_bit 29 (ucast b)))"
  "\<not> bit b 2 \<Longrightarrow> bit b 7 \<Longrightarrow> bit b 6 \<Longrightarrow> bit b 5 \<Longrightarrow> bit b 4 \<Longrightarrow> bit b 3 \<Longrightarrow>
     receives (read_long_head (ucast b)) [b1]
       (signed_drop_bit 22 (push_bit 22 (push_bit 8 (ucast b) OR ucast b1)))"
  "\<not> bit b 1 \<Longrightarrow> bit b 7 \<Longrightarrow> bit b 6 \<Longrightarrow> bit b 5 \<Longrightarrow> bit b 4 \<Longrightarrow> bit b 3 \<Longrightarrow> bit b 2 \<Longrightarrow>
     receives (read_long_head (ucast b)) [b1, b2]
       (signed_drop_bit 15 (push_bit 15 (push_bit 16 (ucast b) OR (push_bit 8 (ucast b1) OR ucast b2))))"
  "receives (read_long_head 0xFE) [b1, b2, b3]
       (push_bit 16 (scast b1) OR (push_bit 8 (ucast b2) OR ucast b3))"
  "receives (read_long_head 0xFF) (int_bytes hi) hi"
  unfolding read_long_head_def
  by (simp_all add: byte_range receives_byte_Cons receives_ubyte_Cons receives_ushort_Cons receives_return
      receives_int_format)

lemma long_head_1:
  assumes "- 4 \<le> sint hi" "sint hi < 4"
  obtains b where "long_head_bytes hi = [b]" "bit b 7" "bit b 6" "bit b 5" "bit b 4"
    "receives (read_long_head (ucast b)) [] hi"
proof -
  define b :: byte where "b = (if 0 \<le> sint hi then ucast (0xF0 OR hi) else ucast (0xF7 AND hi))"
  have r: "bit hi n = (sint hi < 0)" if "2 \<le> n" "n < 32" for n
    using assms that by (intro sign_run [of 2]) simp_all
  have enc: "long_head_bytes hi = [b]"
    using assms by (simp add: long_head_bytes_def b_def)
  have bs: "bit b 7" "bit b 6" "bit b 5" "bit b 4" "\<not> bit b 3"
    using r [of 3] r [of 4] r [of 5] r [of 6] r [of 7] by (simp_all add: b_def bit_simps)
  have "signed_drop_bit 29 (push_bit 29 (ucast b)) = hi"
  proof (rule sign_extend [where k = 2])
    fix i :: nat assume "i \<le> 2"
    then have "i \<in> {0,1,2,3,4,5,6,7}" by (intro less_8_cases) simp
    with \<open>i \<le> 2\<close> show "bit (ucast b :: int32) i = bit hi i"
      by (auto simp: b_def bit_simps)
  qed (use assms in simp_all)
  from receives_eq [OF receives_long_head_cases(1) this] bs show ?thesis
    by (intro that [OF enc]) simp_all
qed

lemma long_head_2:
  assumes "\<not> (- 4 \<le> sint hi \<and> sint hi < 4)" "- 0x200 \<le> sint hi" "sint hi < 0x200"
  obtains b b1 where "long_head_bytes hi = b # [b1]" "bit b 7" "bit b 6" "bit b 5" "bit b 4"
    "receives (read_long_head (ucast b)) [b1] hi"
proof -
  define b :: byte where "b = (if 0 \<le> sint hi then ucast (0xF8 OR signed_drop_bit 8 hi)
    else ucast (0xFB AND signed_drop_bit 8 hi))"
  have r: "bit hi n = (sint hi < 0)" if "9 \<le> n" "n < 32" for n
    using assms that by (intro sign_run [of 9]) simp_all
  have enc: "long_head_bytes hi = [b, ucast hi]"
    using assms by (auto simp: long_head_bytes_def b_def)
  have bs: "bit b 7" "bit b 6" "bit b 5" "bit b 4" "bit b 3" "\<not> bit b 2"
    using r [of 10] r [of 11] r [of 12] r [of 13] r [of 14] r [of 15] by (simp_all add: b_def bit_simps)
  have "signed_drop_bit 22 (push_bit 22 (push_bit 8 (ucast b) OR ucast (ucast hi :: byte))) = hi"
  proof (rule sign_extend [where k = 9])
    fix i :: nat assume i: "i \<le> 9"
    then have "i \<in> {0,1,2,3,4,5,6,7,8,9,10,11,12,13,14,15}" by (intro less_16_cases) simp
    with i show "bit (push_bit 8 (ucast b) OR ucast (ucast hi :: byte) :: int32) i = bit hi i"
      by (auto simp: b_def bit_simps)
  qed (use assms in simp_all)
  from receives_eq [OF receives_long_head_cases(2) this] bs show ?thesis
    by (intro that [OF enc]) simp_all
qed

lemma long_head_3:
  assumes "\<not> (- 0x200 \<le> sint hi \<and> sint hi < 0x200)" "- 0x10000 \<le> sint hi" "sint hi < 0x10000"
  obtains b b1 b2 where "long_head_bytes hi = b # [b1, b2]" "bit b 7" "bit b 6" "bit b 5" "bit b 4"
    "receives (read_long_head (ucast b)) [b1, b2] hi"
proof -
  define b :: byte where "b = (if 0 \<le> sint hi then 0xFC else 0xFD)"
  have r: "bit hi 16 = (sint hi < 0)"
    using assms by (intro sign_run [of 16]) simp_all
  have enc: "long_head_bytes hi = [b, ucast (signed_drop_bit 8 hi), ucast hi]"
    using assms by (auto simp: long_head_bytes_def b_def)
  have bs: "bit b 7" "bit b 6" "bit b 5" "bit b 4" "bit b 3" "bit b 2" "\<not> bit b 1" "bit b 0 = (sint hi < 0)"
    by (simp_all add: b_def)
  have "signed_drop_bit 15 (push_bit 15 (push_bit 16 (ucast b) OR
      (push_bit 8 (ucast (ucast (signed_drop_bit 8 hi) :: byte)) OR ucast (ucast hi :: byte)))) = hi"
  proof (rule sign_extend [where k = 16])
    fix i :: nat assume i: "i \<le> 16"
    then show "bit (push_bit 16 (ucast b) OR (push_bit 8 (ucast (ucast (signed_drop_bit 8 hi) :: byte))
        OR ucast (ucast hi :: byte)) :: int32) i = bit hi i"
      using bs(8) r by (cases "i = 16") (simp_all add: bit_three_bytes)
  qed (use assms in simp_all)
  from receives_eq [OF receives_long_head_cases(3) this] bs show ?thesis
    by (intro that [OF enc]) simp_all
qed

lemma long_head_4:
  assumes "\<not> (- 0x10000 \<le> sint hi \<and> sint hi < 0x10000)" "- 0x800000 \<le> sint hi" "sint hi < 0x800000"
  obtains b1 b2 b3 where "long_head_bytes hi = 0xFE # [b1, b2, b3]"
    "receives (read_long_head 0xFE) [b1, b2, b3] hi"
proof -
  define w where "w = (if 0 \<le> sint hi then 0xFE000000 OR hi else 0xFEFFFFFF AND hi)"
  have r: "bit hi n = (sint hi < 0)" if "23 \<le> n" "n < 32" for n
    using assms that by (intro sign_run [of 23]) simp_all
  have m: "bit (0xFE000000 :: int32) i \<longleftrightarrow> 25 \<le> i" "bit (0xFEFFFFFF :: int32) i \<longleftrightarrow> i \<noteq> 24"
    if "i < 32" for i
  proof -
    have "(0xFE000000 :: int32) = push_bit 25 (mask 7)" "(0xFEFFFFFF :: int32) = NOT (push_bit 24 1)"
      by (simp_all add: push_bit_eq_mult mask_eq_exp_minus_1)
    with that show "bit (0xFE000000 :: int32) i \<longleftrightarrow> 25 \<le> i" "bit (0xFEFFFFFF :: int32) i \<longleftrightarrow> i \<noteq> 24"
      by (simp_all only: bit_push_bit_iff bit_not_iff bit_mask_iff bit_1_iff) auto
  qed
  have w: "bit w i = (if i < 24 then bit hi i else i \<noteq> 24)" if "i < 32" for i
    using r [of 24] r [of i] m [OF that] that unfolding w_def by (auto simp: bit_or_iff bit_and_iff)
  have fe: "(0xFE :: byte) = NOT 1" by simp
  have b: "ucast (signed_drop_bit 24 w) = (0xFE :: byte)"
    unfolding fe by (rule bit_word_eqI) (auto simp: bit_simps w)
  have enc: "long_head_bytes hi = [0xFE, ucast (signed_drop_bit 16 w), ucast (signed_drop_bit 8 w), ucast w]"
    using assms by (auto simp: long_head_bytes_def w_def int_bytes_def simp flip: b)
  have "push_bit 16 (scast (ucast (signed_drop_bit 16 w) :: byte)) OR
    (push_bit 8 (ucast (ucast (signed_drop_bit 8 w) :: byte)) OR ucast (ucast w :: byte)) = hi"
  proof (rule bit_word_eqI)
    fix i :: nat assume i: "i < LENGTH(32)"
    show "bit (push_bit 16 (scast (ucast (signed_drop_bit 16 w) :: byte)) OR
    (push_bit 8 (ucast (ucast (signed_drop_bit 8 w) :: byte)) OR ucast (ucast w :: byte)) :: int32) i = bit hi i"
    proof (cases "16 \<le> i")
      case True
      then obtain j where j: "i = 16 + j" by (auto simp: le_iff_add)
      with i r [of i] r [of 23] show ?thesis by (auto simp: bit_simps w min_def)
    next
      case False
      with i show ?thesis by (auto simp: bit_simps w)
    qed
  qed
  from receives_eq [OF receives_long_head_cases(4) this] show ?thesis
    by (intro that [OF enc]) simp_all
qed

lemma receives_long_head:
  assumes "\<And>b bs. long_head_bytes hi = b # bs \<Longrightarrow> bit b 7 \<Longrightarrow> bit b 6 \<Longrightarrow> bit b 5 \<Longrightarrow> bit b 4 \<Longrightarrow>
    receives (read_long_head (ucast b)) bs hi \<Longrightarrow> P"
  shows P
proof -
  consider "- 4 \<le> sint hi" "sint hi < 4"
    | "\<not> (- 4 \<le> sint hi \<and> sint hi < 4)" "- 0x200 \<le> sint hi" "sint hi < 0x200"
    | "\<not> (- 0x200 \<le> sint hi \<and> sint hi < 0x200)" "- 0x10000 \<le> sint hi" "sint hi < 0x10000"
    | "\<not> (- 0x10000 \<le> sint hi \<and> sint hi < 0x10000)" "- 0x800000 \<le> sint hi" "sint hi < 0x800000"
    | "\<not> (- 0x800000 \<le> sint hi \<and> sint hi < 0x800000)" by linarith
  then show P
  proof cases
    case 1 then show P by (rule long_head_1) (rule assms)
  next
    case 2 then show P by (rule long_head_2) (rule assms)
  next
    case 3 then show P by (rule long_head_3) (rule assms)
  next
    case 4
    then obtain b1 b2 b3 where b: "long_head_bytes hi = 0xFE # [b1, b2, b3]"
        "receives (read_long_head 0xFE) [b1, b2, b3] hi" by (rule long_head_4)
    show P by (rule assms [OF b(1)]) (use b in simp_all)
  next
    case 5
    then have "long_head_bytes hi = 0xFF # int_bytes hi" by (auto simp: long_head_bytes_def)
    then show P by (rule assms) (simp_all add: receives_long_head_cases(5))
  qed
qed

lemma receives_compact_long_large:
  assumes "\<not> fits_int v"
  shows "receives dx_read_compact_long (compact_long_bytes v) v"
proof (rule receives_long_head [where hi = "ucast (signed_drop_bit 32 v)"])
  fix b bs
  assume e: "long_head_bytes (ucast (signed_drop_bit 32 v)) = b # bs"
    and b: "bit b 7" "bit b 6" "bit b 5" "bit b 4"
      "receives (read_long_head (ucast b)) bs (ucast (signed_drop_bit 32 v))"
  show ?thesis
    using receives_eq [OF receives_long_format [OF b, of "ucast v"] join_halves_of_long] assms e
    by (simp add: compact_long_bytes_def)
qed

text \<open>
  The second format is read with a logical shift: a negative number loses its sign.
\<close>

definition lost_sign :: "int32 \<Rightarrow> bool" where
  "lost_sign v \<longleftrightarrow> - 0x2000 \<le> sint v \<and> sint v < - 0x40"

lemma take_bit_uint_self: "take_bit 32 (uint (w::int32)) = uint w"
  using take_bit_int_eq_self [of "uint w" 32] uint_lt2p [of w] by simp

lemma long_of_shifted:
  fixes x v :: int32
  assumes "uint x = (if 0 \<le> sint v then sint v else sint v + 0x4000)" "c \<longleftrightarrow> sint v < 0"
  shows "ucast x = (if c then scast v + 0x4000 else (scast v :: long64))"
  unfolding ucast_eq scast_eq assms by simp

lemma logical_shift_18:
  fixes w v :: int32
  assumes "signed_drop_bit 18 (push_bit 18 w) = v"
  shows "uint (drop_bit 18 (push_bit 18 w)) = (if 0 \<le> sint v then sint v else sint v + 0x4000)"
proof -
  let ?w = "push_bit 18 w"
  have s: "sint v = sint ?w div 2 ^ 18"
    using assms by (simp add: sint_signed_drop_bit_eq drop_bit_eq_div flip: assms)
  have u: "uint (drop_bit 18 ?w) = uint ?w div 2 ^ 18"
    unfolding unsigned_drop_bit_eq using take_bit_uint_self [of ?w] by (simp add: drop_bit_eq_div)
  show ?thesis
  proof (cases "0 \<le> sint ?w")
    case True
    then have "0 \<le> sint v" by (simp add: s pos_imp_zdiv_nonneg_iff)
    with True show ?thesis by (simp add: u s uint_eq_sint)
  next
    case False
    then have "sint v < 0" by (simp add: s pos_imp_zdiv_neg_iff)
    moreover have "uint ?w = sint ?w + 2 ^ 32"
    proof -
      have "- (2 ^ 31) \<le> sint ?w" using sint_ge [of ?w] by simp
      with False have "(sint ?w + 2 ^ 32) mod 2 ^ 32 = sint ?w + 2 ^ 32"
        by (intro mod_pos_pos_trivial) simp_all
      then show ?thesis by (simp add: uint_sint take_bit_eq_mod)
    qed
    ultimately show ?thesis by (simp add: u s)
  qed
qed

lemma receives_long_of_compact_int:
  "receives dx_read_compact_long (compact_int_bytes v) (if lost_sign v then scast v + 0x4000 else scast v)"
proof (cases v rule: compact_int_length_cases)
  case 1
  then have "\<not> lost_sign v" by (auto simp: lost_sign_def)
  then show ?thesis
    by (simp only: if_False) (rule compact_int_1 [OF 1], metis receives_compact_long_cases(1))
next
  case 2
  obtain b b1 where b: "compact_int_bytes v = [b, b1]" "bit b 7" "\<not> bit b 6"
      "signed_drop_bit 18 (push_bit 18 (push_bit 8 (ucast b) OR ucast b1)) = v"
    by (rule compact_int_2 [OF 2])
  have l: "lost_sign v \<longleftrightarrow> sint v < 0" using 2 by (auto simp: lost_sign_def)
  have "ucast (drop_bit 18 (push_bit 18 (push_bit 8 (ucast b) OR ucast b1 :: int32))) =
      (if lost_sign v then scast v + 0x4000 else (scast v :: long64))" (is "ucast ?x = _")
    by (rule long_of_shifted [OF logical_shift_18 [OF b(4)] l])
  from receives_eq [OF receives_compact_long_cases(2) [OF b(2,3)] this] show ?thesis
    unfolding b(1) .
next
  case 3
  then have "\<not> lost_sign v" by (auto simp: lost_sign_def)
  then show ?thesis
    by (simp only: if_False) (rule compact_int_3 [OF 3], metis receives_compact_long_cases(3))
next
  case 4
  then have "\<not> lost_sign v" by (auto simp: lost_sign_def)
  then show ?thesis
    by (simp only: if_False) (rule compact_int_4 [OF 4], metis receives_compact_long_cases(4))
next
  case 5
  then have l: "\<not> lost_sign v" by (auto simp: lost_sign_def)
  define hi :: int32 where "hi = (if 0 \<le> sint v then 0 else - 1)"
  have e: "compact_int_bytes v = (if 0 \<le> sint v then 0xF0 else 0xF7) # [] @ int_bytes v"
    using 5 by (auto simp: compact_int_bytes_def)
  have n: "bit v 31 \<longleftrightarrow> sint v < 0"
    using bit_sint_range [of 31 v 31] sint_ge [of v] sint_lt [of v] by simp
  have "bit v i = (sint v < 0)" if "31 \<le> i" "i < 32" for i
  proof -
    have "i = 31" using that by simp
    then show ?thesis using n by simp
  qed
  then have "join_halves hi v = scast v"
    by (intro bit_word_eqI) (auto simp: bit_join_halves bit_signed_iff hi_def min_def n)
  moreover have "receives dx_read_compact_long ((if 0 \<le> sint v then 0xF0 else 0xF7) # [] @ int_bytes v)
      (join_halves hi v)"
    by (rule receives_long_format)
      (simp_all add: read_long_head_def hi_def receives_return)
  ultimately show ?thesis unfolding e using l by simp
qed

definition lost_sign_long :: "long64 \<Rightarrow> bool" where
  "lost_sign_long v \<longleftrightarrow> - 0x2000 \<le> sint v \<and> sint v < - 0x40"

lemma receives_compact_long_all:
  "receives dx_read_compact_long (compact_long_bytes v) (if lost_sign_long v then v + 0x4000 else v)"
proof (cases "fits_int v")
  case True
  define w :: int32 where "w = ucast v"
  have v: "v = scast w" using True by (simp add: fits_int_def w_def)
  have "sint v = sint w" unfolding v by (simp add: sint_up_scast is_up)
  then have "lost_sign_long v = lost_sign w" by (simp add: lost_sign_long_def lost_sign_def)
  with True receives_long_of_compact_int [of w] show ?thesis
    by (simp only: compact_long_bytes_def if_True flip: w_def v)
next
  case False
  have "\<not> lost_sign_long v"
  proof
    assume "lost_sign_long v"
    then have "- (2 ^ 31) \<le> sint v" "sint v < 2 ^ 31" by (simp_all add: lost_sign_long_def)
    then have r: "bit v n = (sint v < 0)" if "31 \<le> n" "n < 64" for n
      using that by (intro bit_sint_range [of 31]) simp_all
    have "v = scast (ucast v :: int32)"
      using r [of 31] r by (intro bit_word_eqI) (auto simp: bit_simps min_def)
    then have "fits_int v" by (simp only: fits_int_def)
    with False show False ..
  qed
  with receives_compact_long_large [OF False] show ?thesis by simp
qed

lemma receives_compact_long:
  "\<not> lost_sign_long v \<Longrightarrow> receives dx_read_compact_long (compact_long_bytes v) v"
  using receives_compact_long_all [of v] by simp

section \<open>The size of the compact format\<close>

lemma sint_high_word: "sint (ucast (signed_drop_bit 32 (v::long64)) :: int32) = sint v div 2 ^ 32"
proof -
  have "- (2 ^ 63) \<le> sint v" "sint v < 2 ^ 63" using sint_ge [of v] sint_lt [of v] by simp_all
  then have "- (2 ^ 31) \<le> sint v div 2 ^ 32" "sint v div 2 ^ 32 < 2 ^ 31" by simp_all
  then have "signed_take_bit 31 (sint v div 2 ^ 32) = sint v div 2 ^ 32"
    by (rule signed_take_bit_int_eq_self)
  moreover have "sint (ucast (signed_drop_bit 32 v) :: int32) = signed_take_bit 31 (sint (signed_drop_bit 32 v))"
    unfolding signed_ucast_eq by (simp add: sint_uint signed_take_bit_signed_take_bit min_def)
  ultimately show ?thesis by (simp add: sint_signed_drop_bit_eq drop_bit_eq_div)
qed

lemma sint_low_word:
  assumes "fits_int v"
  shows "sint (ucast v :: int32) = sint v"
proof -
  have v: "v = scast (ucast v :: int32)" using assms by (simp only: fits_int_def)
  have "sint (scast (ucast v :: int32) :: long64) = sint (ucast v :: int32)"
    by (rule sint_up_scast) (simp add: is_up)
  then show ?thesis unfolding v [symmetric] by (rule sym)
qed

lemma fits_int_range: "fits_int v \<longleftrightarrow> - 0x80000000 \<le> sint v \<and> sint v < 0x80000000"
proof
  assume "fits_int v"
  from sint_low_word [OF this] show "- 0x80000000 \<le> sint v \<and> sint v < 0x80000000"
    using sint_ge [of "ucast v :: int32"] sint_lt [of "ucast v :: int32"] by simp
next
  assume v: "- 0x80000000 \<le> sint v \<and> sint v < 0x80000000"
  then have r: "bit v n = (sint v < 0)" if "31 \<le> n" "n < 64" for n
    using that by (intro bit_sint_range [of 31]) simp_all
  have "v = scast (ucast v :: int32)"
    using r [of 31] r by (intro bit_word_eqI) (auto simp: bit_simps min_def)
  then show "fits_int v" by (simp only: fits_int_def)
qed

lemma length_compact_int_bytes_cases:
  "length (compact_int_bytes v) =
     (if - 0x40 \<le> sint v \<and> sint v < 0x40 then 1 else if - 0x2000 \<le> sint v \<and> sint v < 0x2000 then 2
      else if - 0x100000 \<le> sint v \<and> sint v < 0x100000 then 3
      else if - 0x8000000 \<le> sint v \<and> sint v < 0x8000000 then 4 else 5)"
  by (auto simp: compact_int_bytes_def int_bytes_def)

lemma length_long_head_bytes_cases:
  "length (long_head_bytes v) =
     (if - 0x4 \<le> sint v \<and> sint v < 0x4 then 1 else if - 0x200 \<le> sint v \<and> sint v < 0x200 then 2
      else if - 0x10000 \<le> sint v \<and> sint v < 0x10000 then 3
      else if - 0x800000 \<le> sint v \<and> sint v < 0x800000 then 4 else 5)"
  by (auto simp: long_head_bytes_def int_bytes_def)

lemma int_less_div_iff:
  assumes "0 < (b::int)"
  shows "k \<le> a div b \<longleftrightarrow> k * b \<le> a"
proof
  assume "k \<le> a div b"
  then have "k * b \<le> (a div b) * b" using assms by simp
  also have "\<dots> \<le> a" using assms pos_mod_sign [of b a] div_mult_mod_eq [of a b] by linarith
  finally show "k * b \<le> a" .
next
  assume "k * b \<le> a"
  then have "(k * b) div b \<le> a div b" using assms by (rule zdiv_mono1)
  with assms show "k \<le> a div b" by simp
qed

lemma int_div_less_iff: "0 < (b::int) \<Longrightarrow> a div b < k \<longleftrightarrow> a < k * b"
  using int_less_div_iff [of b k a] by linarith

lemma dx_get_compact_size_cases:
  "dx_get_compact_size v =
     (if fits_int v then length (compact_int_bytes (ucast v))
      else length (long_head_bytes (ucast (signed_drop_bit 32 v))) + 4)"
proof (cases "fits_int v")
  case True
  then show ?thesis
    by (simp add: dx_get_compact_size_def length_compact_int_bytes_cases sint_low_word fits_int_range)
next
  case False
  note d = int_less_div_iff [of "2 ^ 32" _ "sint v", simplified] int_div_less_iff [of "2 ^ 32" "sint v", simplified]
  have "\<not> (- 0x80000000 \<le> sint v \<and> sint v < 0x80000000)"
    using False by (simp add: fits_int_range)
  with False show ?thesis
    by (simp add: dx_get_compact_size_def length_long_head_bytes_cases sint_high_word d) linarith
qed

lemma compact_size_length: "dx_get_compact_size v = length (compact_long_bytes v)"
  by (simp add: dx_get_compact_size_cases compact_long_bytes_def int_bytes_def)

section \<open>Characters in UTF-8\<close>

text \<open>Masks on a byte that has been promoted to \<open>int\<close>.\<close>

lemma scast_mask:
  fixes b m c :: "'a::len word"
  assumes l: "LENGTH('a) \<le> LENGTH('b)"
  shows "((scast b :: 'b::len word) AND ucast m = ucast c) \<longleftrightarrow> b AND m = c"
proof -
  have "(scast b :: 'b word) AND ucast m = ucast (b AND m)"
  proof (rule bit_word_eqI)
    fix i
    show "bit ((scast b :: 'b word) AND ucast m) i = bit (ucast (b AND m) :: 'b word) i"
    proof (cases "i < LENGTH('a)")
      case True
      then have "min (LENGTH('a) - 1) i = i" by simp
      with True l show ?thesis by (auto simp: bit_simps)
    next
      case False
      then have "\<not> bit m i" by (auto dest: bit_imp_le_length)
      then show ?thesis by (simp add: bit_simps)
    qed
  qed
  moreover have "(ucast x :: 'b word) = ucast y \<longleftrightarrow> x = y" for x y :: "'a word"
  proof
    assume e: "(ucast x :: 'b word) = ucast y"
    show "x = y"
    proof (rule bit_word_eqI)
      fix i assume i: "i < LENGTH('a)"
      have "bit (ucast x :: 'b word) i = bit (ucast y :: 'b word) i" using e by simp
      with i l show "bit x i = bit y i" by (simp add: bit_simps)
    qed
  qed simp
  ultimately show ?thesis by simp
qed

lemma and_eq_iff_bits:
  fixes b m c :: "'a::len word"
  assumes "\<And>v w :: 'a word. (\<And>i. i \<in> S \<Longrightarrow> bit v i = bit w i) \<Longrightarrow> v = w"
  shows "b AND m = c \<longleftrightarrow> (\<forall>i\<in>S. (bit b i \<and> bit m i) = bit c i)"
proof
  assume "b AND m = c"
  then show "\<forall>i\<in>S. (bit b i \<and> bit m i) = bit c i" by (simp add: bit_and_iff flip: \<open>b AND m = c\<close>)
next
  assume h: "\<forall>i\<in>S. (bit b i \<and> bit m i) = bit c i"
  show "b AND m = c"
    by (rule assms, unfold bit_and_iff, erule bspec [OF h])
qed

lemma masked_byte:
  fixes b :: byte
  shows "((scast b :: int32) AND 0xC0 = 0x80) \<longleftrightarrow> bit b 7 \<and> \<not> bit b 6"
    "((scast b :: int32) AND 0xE0 = 0xC0) \<longleftrightarrow> bit b 7 \<and> bit b 6 \<and> \<not> bit b 5"
    "((scast b :: int32) AND 0xF0 = 0xE0) \<longleftrightarrow> bit b 7 \<and> bit b 6 \<and> bit b 5 \<and> \<not> bit b 4"
    "((scast b :: int32) AND 0xF8 = 0xF0) \<longleftrightarrow> bit b 7 \<and> bit b 6 \<and> bit b 5 \<and> bit b 4 \<and> \<not> bit b 3"
proof -
  have m: "(scast b :: int32) AND ucast m = ucast c \<longleftrightarrow> b AND m = c" for m c :: byte
    by (rule scast_mask) simp
  have c: "b AND m = c \<longleftrightarrow> (\<forall>i \<in> {0, 1, 2, 3, 4, 5, 6, 7}. (bit b i \<and> bit m i) = bit c i)" for m c :: byte
    by (rule and_eq_iff_bits) (rule bit8_eqI)
  show "((scast b :: int32) AND 0xC0 = 0x80) \<longleftrightarrow> bit b 7 \<and> \<not> bit b 6"
    using m [of "0xC0" "0x80"] c [of "0xC0" "0x80"] by auto
  show "((scast b :: int32) AND 0xE0 = 0xC0) \<longleftrightarrow> bit b 7 \<and> bit b 6 \<and> \<not> bit b 5"
    using m [of "0xE0" "0xC0"] c [of "0xE0" "0xC0"] by auto
  show "((scast b :: int32) AND 0xF0 = 0xE0) \<longleftrightarrow> bit b 7 \<and> bit b 6 \<and> bit b 5 \<and> \<not> bit b 4"
    using m [of "0xF0" "0xE0"] c [of "0xF0" "0xE0"] by auto
  show "((scast b :: int32) AND 0xF8 = 0xF0) \<longleftrightarrow> bit b 7 \<and> bit b 6 \<and> bit b 5 \<and> bit b 4 \<and> \<not> bit b 3"
    using m [of "0xF8" "0xF0"] c [of "0xF8" "0xF0"] by auto
qed

lemma masked_short:
  fixes t :: short16
  shows "((scast t :: int32) AND 0xC0C0 = 0x8080) \<longleftrightarrow> bit t 15 \<and> \<not> bit t 14 \<and> bit t 7 \<and> \<not> bit t 6"
proof -
  have "(scast t :: int32) AND ucast (0xC0C0 :: short16) = ucast (0x8080 :: short16) \<longleftrightarrow> t AND 0xC0C0 = 0x8080"
    by (rule scast_mask) simp
  then have "((scast t :: int32) AND 0xC0C0 = 0x8080) \<longleftrightarrow> t AND 0xC0C0 = 0x8080" by simp
  also have "\<dots> \<longleftrightarrow> (\<forall>i \<in> {0, 1, 2, 3, 4, 5, 6, 7, 8, 9, 10, 11, 12, 13, 14, 15}.
      (bit t i \<and> bit (0xC0C0 :: short16) i) = bit (0x8080 :: short16) i)"
    by (rule and_eq_iff_bits) (rule bit16_eqI)
  finally show ?thesis by auto
qed

lemma sign_of_byte: "0 \<le> sint (b::byte) \<longleftrightarrow> \<not> bit b 7"
  using bit_sint_range [of 7 b 7] sint_ge [of b] sint_lt [of b] by simp linarith

text \<open>One, two, three and four bytes.\<close>

lemma nonneg_bits:
  fixes v :: "'a::len word"
  assumes "0 \<le> sint v" "sint v < 2 ^ k" "k \<le> n"
  shows "\<not> bit v n"
proof (cases "n < LENGTH('a)")
  case True
  then show ?thesis using assms bit_sint_range [of k v n] by simp
qed (auto dest: bit_imp_le_length)

lemma receives_utf1:
  fixes v :: int32
  assumes "0 \<le> sint v" "sint v \<le> 0x7F"
  shows "\<not> bit (ucast v :: byte) 7" "ucast (ucast v :: byte) = v"
    "ucast (ucast (ucast v :: byte) :: dxf_char) = v"
proof -
  have n: "\<not> bit v i" if "7 \<le> i" for i using assms that by (intro nonneg_bits [of v 7]) simp_all
  then show "\<not> bit (ucast v :: byte) 7" by (simp add: bit_simps)
  have b: "i < 8" "i < 16" if "bit v i" for i using n [of i] that by (cases "7 \<le> i"; simp)+
  show "ucast (ucast v :: byte) = v" "ucast (ucast (ucast v :: byte) :: dxf_char) = v"
    by (auto intro!: bit_word_eqI simp: bit_simps dest: b)
qed

text \<open>The payload of a byte: its low \<open>k\<close> bits.\<close>

lemma payload_mask:
  assumes "k \<le> 7"
  shows "bit ((scast (ucast (x::int32) :: byte) :: int32) AND mask k) i \<longleftrightarrow> i < k \<and> bit x i"
proof (cases "i < k")
  case True
  with assms have "min 7 i = i" by simp
  with True assms show ?thesis by (simp add: bit_and_iff bit_mask_iff bit_signed_iff bit_unsigned_iff)
qed (simp add: bit_and_iff bit_mask_iff)

lemma masks: "(0x3F :: int32) = mask 6" "(0x1F :: int32) = mask 5" "(0x0F :: int32) = mask 4" "(0x07 :: int32) = mask 3"
  by (simp_all add: mask_eq_exp_minus_1)

lemma bit_prefixes:
  "i < 7 \<Longrightarrow> \<not> bit (0x80 :: int32) i" "i < 6 \<Longrightarrow> \<not> bit (0xC0 :: int32) i"
  "i < 5 \<Longrightarrow> \<not> bit (0xE0 :: int32) i" "i < 4 \<Longrightarrow> \<not> bit (0xF0 :: int32) i"
proof -
  have "(0x80 :: int32) = push_bit 7 1" "(0xC0 :: int32) = push_bit 6 3" "(0xE0 :: int32) = push_bit 5 7"
    "(0xF0 :: int32) = push_bit 4 15" by (simp_all add: push_bit_eq_mult)
  then show "i < 7 \<Longrightarrow> \<not> bit (0x80 :: int32) i" "i < 6 \<Longrightarrow> \<not> bit (0xC0 :: int32) i"
      "i < 5 \<Longrightarrow> \<not> bit (0xE0 :: int32) i" "i < 4 \<Longrightarrow> \<not> bit (0xF0 :: int32) i"
    by (simp_all only: bit_push_bit_iff) simp_all
qed

definition continuation :: "int32 \<Rightarrow> byte" where
  "continuation x = ucast (0x80 OR (x AND 0x3F))"

lemma continuation_lead: "bit (continuation x) 7" "\<not> bit (continuation x) 6"
  by (simp_all add: continuation_def bit_simps)

lemma continuation_payload:
  "bit ((scast (continuation x) :: int32) AND 0x3F) i \<longleftrightarrow> i < 6 \<and> bit x i"
proof -
  have "bit ((scast (continuation x) :: int32) AND mask 6) i \<longleftrightarrow> i < 6 \<and> bit (0x80 OR (x AND 0x3F)) i"
    unfolding continuation_def by (rule payload_mask) simp
  then show ?thesis
    unfolding masks bit_or_iff bit_and_iff bit_mask_iff using bit_prefixes(1) [of i] by auto
qed

lemma utf2_lead:
  assumes "0 \<le> sint v" "sint v \<le> 0x7FF"
  obtains b0 b1 where "utf2_bytes v = [b0, b1]" "bit b0 7" "bit b0 6" "\<not> bit b0 5"
    "receives (dx_read_utf2 (scast b0)) [b1] v"
proof -
  have n: "\<not> bit v i" if "11 \<le> i" for i using assms that by (intro nonneg_bits [of v 11]) simp_all
  define b0 :: byte where "b0 = ucast (0xC0 OR signed_drop_bit 6 v)"
  have b: "bit b0 7" "bit b0 6" "\<not> bit b0 5"
    using n [of 11] by (simp_all add: b0_def bit_simps)
  have p: "bit ((scast b0 :: int32) AND 0x1F) i \<longleftrightarrow> i < 5 \<and> bit v (i + 6)" for i
    unfolding masks b0_def payload_mask [of 5, simplified] bit_or_iff
    using bit_prefixes(2) [of i] by (auto simp: bit_signed_drop_bit_iff add.commute)
  have "(ucast (ucast (push_bit 6 ((scast b0 :: int32) AND 0x1F) OR ((scast (continuation v) :: int32) AND 0x3F)) :: dxf_char) :: int32) = v"
  proof (rule bit_word_eqI)
    fix i :: nat assume "i < LENGTH(32)"
    then show "bit (ucast (ucast (push_bit 6 ((scast b0 :: int32) AND 0x1F) OR ((scast (continuation v) :: int32) AND 0x3F)) :: dxf_char) :: int32) i = bit v i"
      unfolding bit_unsigned_iff bit_or_iff bit_push_bit_iff p continuation_payload
      using n [of i] by (cases "11 \<le> i") auto
  qed
  moreover have "receives (dx_read_utf2 (scast b0)) [continuation v]
      (ucast (ucast (push_bit 6 ((scast b0 :: int32) AND 0x1F) OR ((scast (continuation v) :: int32) AND 0x3F)) :: dxf_char))"
    unfolding dx_read_utf2_def
    by (rule receives_byte_Cons) (simp only: masked_byte continuation_lead simp_thms if_False if_True receives_return)
  ultimately have "receives (dx_read_utf2 (scast b0)) [continuation v] v" by (rule receives_eq [rotated])
  with b show ?thesis
    by (intro that [of b0 "continuation v"]) (simp_all only: utf2_bytes_def b0_def continuation_def simp_thms)
qed

definition tail_of :: "int32 \<Rightarrow> int32 \<Rightarrow> short16" where
  "tail_of x y = ucast (push_bit 8 (ucast (continuation x) :: int32) OR ucast (continuation y))"

lemma receives_tail_Cons:
  assumes "receives (k (tail_of x y)) bs v"
  shows "receives (checked dx_read_short k) (continuation x # continuation y # bs) v"
  using receives_seq [OF receives_short [of "continuation x" "continuation y"], where k = k and ys = bs and y = v] assms
  by (simp add: tail_of_def)

lemma bit_tail_of:
  "bit (tail_of x y) i \<longleftrightarrow> (if i < 8 then bit (continuation y) i else i < 16 \<and> bit (continuation x) (i - 8))"
  by (auto simp: tail_of_def bit_simps dest: bit_imp_le_length)

lemma bit_continuation: "i < 6 \<Longrightarrow> bit (continuation x) i \<longleftrightarrow> bit x i"
proof -
  assume i: "i < 6"
  then have "bit ((scast (continuation x) :: int32) AND 0x3F) i \<longleftrightarrow> bit (continuation x) i"
    unfolding masks by (simp add: bit_and_iff bit_mask_iff bit_signed_iff min_def)
  with i show ?thesis by (simp add: continuation_payload)
qed

lemma tail_lead: "((scast (tail_of x y) :: int32) AND 0xC0C0 = 0x8080)"
  by (simp only: masked_short bit_tail_of) (simp add: continuation_lead)

lemma tail_payload:
  "bit (signed_drop_bit 2 ((scast (tail_of x y) :: int32) AND 0x3F00) OR ((scast (tail_of x y) :: int32) AND 0x3F)) i
     \<longleftrightarrow> (if i < 6 then bit y i else i < 12 \<and> bit x (i - 6))"
proof -
  have m: "(0x3F00 :: int32) = push_bit 8 (mask 6)" by (simp add: push_bit_eq_mult mask_eq_exp_minus_1)
  have s: "bit (scast (tail_of x y) :: int32) j \<longleftrightarrow> bit (tail_of x y) j" if "j < 16" for j
  proof -
    have "min 15 j = j" using that by simp
    then show ?thesis using that by (simp add: bit_signed_iff)
  qed
  have h: "bit ((scast (tail_of x y) :: int32) AND 0x3F00) j \<longleftrightarrow> 8 \<le> j \<and> j < 14 \<and> bit x (j - 8)" for j
    unfolding m bit_and_iff bit_push_bit_iff bit_mask_iff
    using s [of j] by (cases "8 \<le> j \<and> j < 14") (auto simp: bit_tail_of bit_continuation)
  have l: "bit ((scast (tail_of x y) :: int32) AND 0x3F) j \<longleftrightarrow> j < 6 \<and> bit y j" for j
    unfolding masks bit_and_iff bit_mask_iff
    using s [of j] by (cases "j < 6") (auto simp: bit_tail_of bit_continuation)
  have d: "bit (signed_drop_bit 2 (w :: int32)) i \<longleftrightarrow> (if i < 30 then bit w (i + 2) else i < 32 \<and> bit w 31)" for w
  proof (cases "i < 32")
    case True
    have "(if 30 \<le> i \<and> i < 32 then 31 else 2 + i) = (if i < 30 then i + 2 else 31)" using True by simp
    with True show ?thesis unfolding bit_signed_drop_bit_iff by simp
  next
    case False
    then have "\<not> bit w (2 + i)" by (auto dest: bit_imp_le_length)
    with False show ?thesis unfolding bit_signed_drop_bit_iff by simp
  qed
  show ?thesis unfolding bit_or_iff d h l by auto
qed

lemma utf3_lead:
  assumes "0 \<le> sint v" "sint v \<le> 0xFFFF"
  obtains b0 b1 b2 where "utf3_bytes v = [b0, b1, b2]" "bit b0 7" "bit b0 6" "bit b0 5" "\<not> bit b0 4"
    "receives (dx_read_utf3 (scast b0)) [b1, b2] v"
proof -
  have n: "\<not> bit v i" if "16 \<le> i" for i using assms that by (intro nonneg_bits [of v 16]) simp_all
  define b0 :: byte where "b0 = ucast (0xE0 OR signed_drop_bit 12 v)"
  define t where "t = tail_of (signed_drop_bit 6 v) v"
  have b: "bit b0 7" "bit b0 6" "bit b0 5" "\<not> bit b0 4"
    using n [of 16] by (simp_all add: b0_def bit_simps)
  have p: "bit ((scast b0 :: int32) AND 0x0F) i \<longleftrightarrow> i < 4 \<and> bit v (i + 12)" for i
    unfolding masks b0_def payload_mask [of 4, simplified] bit_or_iff
    using bit_prefixes(3) [of i] by (auto simp: bit_signed_drop_bit_iff add.commute)
  let ?r = "push_bit 12 ((scast b0 :: int32) AND 0x0F) OR signed_drop_bit 2 ((scast t :: int32) AND 0x3F00)
      OR ((scast t :: int32) AND 0x3F)"
  have "(ucast (ucast ?r :: dxf_char) :: int32) = v"
  proof (rule bit_word_eqI)
    fix i :: nat assume "i < LENGTH(32)"
    then show "bit (ucast (ucast ?r :: dxf_char) :: int32) i = bit v i"
      unfolding bit_unsigned_iff or.assoc bit_or_iff [of "push_bit 12 _"] t_def tail_payload bit_push_bit_iff p
      using n [of i] by (cases "16 \<le> i") (auto simp: bit_signed_drop_bit_iff)
  qed
  moreover have "receives (dx_read_utf3 (scast b0)) [continuation (signed_drop_bit 6 v), continuation v]
      (ucast (ucast ?r :: dxf_char))"
    unfolding dx_read_utf3_def
    by (rule receives_tail_Cons)
      (simp only: t_def tail_lead if_False simp_thms receives_return)
  ultimately have "receives (dx_read_utf3 (scast b0)) [continuation (signed_drop_bit 6 v), continuation v] v"
    by (rule receives_eq [rotated])
  with b show ?thesis
    by (intro that [of b0 "continuation (signed_drop_bit 6 v)" "continuation v"])
      (simp_all only: utf3_bytes_def b0_def continuation_def simp_thms)
qed

lemma utf4_lead:
  assumes "0 \<le> sint v" "sint v \<le> 0x10FFFF"
  obtains b0 bs where "utf4_bytes v = b0 # bs" "bit b0 7" "bit b0 6" "bit b0 5" "bit b0 4" "\<not> bit b0 3"
    "receives (dx_read_utf4 (scast b0)) bs v"
proof -
  have n: "\<not> bit v i" if "21 \<le> i" for i using assms that by (intro nonneg_bits [of v 21]) simp_all
  define b0 :: byte where "b0 = ucast (0xF0 OR signed_drop_bit 18 v)"
  define b1 where "b1 = continuation (signed_drop_bit 12 v)"
  define t where "t = tail_of (signed_drop_bit 6 v) v"
  have b: "bit b0 7" "bit b0 6" "bit b0 5" "bit b0 4" "\<not> bit b0 3"
    using n [of 21] by (simp_all add: b0_def bit_simps)
  have p: "bit ((scast b0 :: int32) AND 0x07) i \<longleftrightarrow> i < 3 \<and> bit v (i + 18)" for i
    unfolding masks b0_def payload_mask [of 3, simplified] bit_or_iff
    using bit_prefixes(4) [of i] by (auto simp: bit_signed_drop_bit_iff add.commute)
  let ?r = "push_bit 18 ((scast b0 :: int32) AND 0x07) OR push_bit 12 ((scast b1 :: int32) AND 0x3F)
      OR signed_drop_bit 2 ((scast t :: int32) AND 0x3F00) OR ((scast t :: int32) AND 0x3F)"
  have r: "?r = v"
  proof (rule bit_word_eqI)
    fix i :: nat assume "i < LENGTH(32)"
    then show "bit ?r i = bit v i"
      unfolding or.assoc bit_or_iff [of "push_bit _ _"] t_def tail_payload bit_push_bit_iff p b1_def
        continuation_payload
      using n [of i] by (cases "21 \<le> i"; cases "18 \<le> i") (auto simp: bit_signed_drop_bit_iff)
  qed
  have tail: "((scast t :: int32) AND 0xC0C0 = 0x8080) = True" unfolding t_def by (simp only: tail_lead simp_thms)
  have range: "(sint v > 0x10FFFF) = False" using assms(2) by simp
  have "receives (dx_read_utf4 (scast b0)) [b1, continuation (signed_drop_bit 6 v), continuation v] v"
    unfolding dx_read_utf4_def
    by (rule receives_byte_Cons, rule receives_tail_Cons)
      (simp only: tail masked_byte b1_def continuation_lead simp_thms if_False Let_def
        r [unfolded b1_def] receives_return range flip: t_def)
  moreover have "utf4_bytes v = b0 # [b1, continuation (signed_drop_bit 6 v), continuation v]"
    by (simp only: utf4_bytes_def b0_def b1_def continuation_def)
  ultimately show ?thesis using b by (intro that)
qed

lemma receives_utf_char:
  assumes "0 \<le> sint v" "sint v \<le> 0x10FFFF"
  shows "receives dx_read_utf_char (utf_char_bytes v) v"
proof -
  consider "sint v \<le> 0x7F" | "\<not> sint v \<le> 0x7F" "sint v \<le> 0x7FF" | "\<not> sint v \<le> 0x7FF" "sint v \<le> 0xFFFF"
    | "\<not> sint v \<le> 0xFFFF" by linarith
  then show ?thesis
  proof cases
    case 1
    note r = receives_utf1 [OF assms(1) 1]
    have "utf_char_bytes v = [ucast v]" using 1 by (simp add: utf_char_bytes_def)
    then show ?thesis
      unfolding dx_read_utf_char_def
      by (simp only:) (rule receives_byte_Cons, simp only: sign_of_byte r not_False_eq_True if_True receives_return)
  next
    case 2
    obtain b0 b1 where b: "utf2_bytes v = [b0, b1]" "bit b0 7" "bit b0 6" "\<not> bit b0 5"
        "receives (dx_read_utf2 (scast b0)) [b1] v" by (rule utf2_lead [OF assms(1) 2(2)])
    have "utf_char_bytes v = [b0, b1]" using 2 b(1) by (simp add: utf_char_bytes_def)
    then show ?thesis
      unfolding dx_read_utf_char_def
      by (simp only:) (rule receives_byte_Cons, simp only: sign_of_byte masked_byte b simp_thms if_False if_True)
  next
    case 3
    obtain b0 b1 b2 where b: "utf3_bytes v = [b0, b1, b2]" "bit b0 7" "bit b0 6" "bit b0 5" "\<not> bit b0 4"
        "receives (dx_read_utf3 (scast b0)) [b1, b2] v" by (rule utf3_lead [OF assms(1) 3(2)])
    have "utf_char_bytes v = [b0, b1, b2]" using 3 b(1) by (simp add: utf_char_bytes_def)
    then show ?thesis
      unfolding dx_read_utf_char_def
      by (simp only:) (rule receives_byte_Cons, simp only: sign_of_byte masked_byte b simp_thms if_False if_True)
  next
    case 4
    obtain b0 bs where b: "utf4_bytes v = b0 # bs" "bit b0 7" "bit b0 6" "bit b0 5" "bit b0 4" "\<not> bit b0 3"
        "receives (dx_read_utf4 (scast b0)) bs v" by (rule utf4_lead [OF assms])
    have "utf_char_bytes v = b0 # bs" using 4 b(1) by (simp add: utf_char_bytes_def)
    then show ?thesis
      unfolding dx_read_utf_char_def
      by (simp only:) (rule receives_byte_Cons, simp only: sign_of_byte masked_byte b simp_thms if_False if_True)
  qed
qed

section \<open>Strings in UTF-8\<close>

text \<open>A unit of one to three bytes: what the loop of \<open>dx_read_utf_sequence\<close> does with it.\<close>

definition unit_bytes :: "byte list \<Rightarrow> dxf_char \<Rightarrow> bool" where
  "unit_bytes bs c \<longleftrightarrow> bs = utf_char_bytes (ucast c) \<or> (c \<le> 0x7FF \<and> bs = utf2_bytes (ucast c))"

lemma receives_store_char:
  assumes "n < length buffer" "receives (k (buffer[n := c])) bs r"
  shows "receives (checked (store_char buffer (int n) c) k) bs r"
proof -
  have "store_char buffer (int n) c = return (buffer[n := c])"
    using assms(1) by (simp add: store_char_def mem_store_def)
  with assms(2) show ?thesis by (simp only: checked_return)
qed

lemma char_ucast [simp]: "ucast (ucast (c::dxf_char) :: int32) = c"
  by (rule bit_word_eqI) (auto simp: bit_simps)

lemma receives_loop_step:
  assumes u: "unit_bytes bs c" and pos: "0 < utflen" and n: "n < length buffer"
    and k: "receives (read_utf_loop lic (utflen - (if lic then 1 else int (length bs))) (int n + 1) (buffer[n := c])) rest r"
  shows "receives (read_utf_loop lic utflen (int n) buffer) (bs @ rest) r"
proof -
  have l: "sint (ucast c :: int32) \<le> 0xFFFF" "0 \<le> sint (ucast c :: int32)"
    using uint_lt2p [of c] by simp_all
  consider "sint (ucast c :: int32) \<le> 0x7F" "bs = [ucast c]"
    | "sint (ucast c :: int32) \<le> 0x7FF" "bs = utf2_bytes (ucast c)"
    | "bs = utf3_bytes (ucast c)"
    using u l by (auto simp: unit_bytes_def utf_char_bytes_def word_le_def split: if_splits)
  then show ?thesis
  proof cases
    case 1
    note r = receives_utf1 [OF l(2) 1(1)]
    have bs: "bs = [ucast (ucast c :: int32)]" using 1(2) by (simp only: byte_of_char)
    have u: "ucast (ucast (ucast c :: int32) :: byte) = c" using arg_cong [OF r(3), of "ucast :: int32 \<Rightarrow> dxf_char"]
      by (simp only: char_ucast)
    have "receives (checked (store_char buffer (int n) (ucast (ucast (ucast c :: int32) :: byte)))
        (\<lambda>buffer'. read_utf_loop lic (utflen - 1) (int n + 1) buffer')) rest r"
      unfolding u by (rule receives_store_char [OF n]) (use k bs in \<open>cases lic; simp\<close>)
    with pos show ?thesis
      unfolding bs
      by (subst read_utf_loop.simps)
       (simp only: if_True append_Cons, rule receives_byte_Cons,
        simp only: sign_of_byte r simp_thms if_True append_Nil)
  next
    case 2
    obtain b0 b1 where b: "utf2_bytes (ucast c) = [b0, b1]" "bit b0 7" "bit b0 6" "\<not> bit b0 5"
        "receives (dx_read_utf2 (scast b0)) [b1] (ucast c)" by (rule utf2_lead [OF l(2) 2(1)])
    have "receives (checked (dx_read_utf2 (scast b0)) (\<lambda>tmpCh. checked (store_char buffer (int n) (ucast tmpCh)) (\<lambda>buffer'.
              read_utf_loop lic (utflen - (if lic then 1 else 2)) (int n + 1) buffer'))) ([b1] @ rest) r"
      by (rule receives_seq [OF b(5)]) (use k 2 b(1) in \<open>cases lic; simp add: receives_store_char [OF n]\<close>)
    with pos show ?thesis
      unfolding 2(2) b(1)
      by (subst read_utf_loop.simps)
       (simp only: if_True append_Cons, rule receives_byte_Cons,
        simp only: sign_of_byte masked_byte b simp_thms if_False if_True append_Nil)
  next
    case 3
    obtain b0 b1 b2 where b: "utf3_bytes (ucast c) = [b0, b1, b2]" "bit b0 7" "bit b0 6" "bit b0 5" "\<not> bit b0 4"
        "receives (dx_read_utf3 (scast b0)) [b1, b2] (ucast c)" by (rule utf3_lead [OF l(2,1)])
    have "receives (checked (dx_read_utf3 (scast b0)) (\<lambda>tmpCh. checked (store_char buffer (int n) (ucast tmpCh)) (\<lambda>buffer'.
              read_utf_loop lic (utflen - (if lic then 1 else 3)) (int n + 1) buffer'))) ([b1, b2] @ rest) r"
      by (rule receives_seq [OF b(6)]) (use k 3 b(1) in \<open>cases lic; simp add: receives_store_char [OF n]\<close>)
    with pos show ?thesis
      unfolding 3 b(1)
      by (subst read_utf_loop.simps)
       (simp only: if_True append_Cons, rule receives_byte_Cons,
        simp only: sign_of_byte masked_byte b simp_thms if_False if_True append_Nil append_Cons)
  qed
qed

fun units :: "byte list list \<Rightarrow> dxf_char list \<Rightarrow> bool" where
  "units [] [] = True"
| "units (b # bs) (c # cs) = (unit_bytes b c \<and> units bs cs)"
| "units _ _ = False"

lemma unit_bytes_nonempty: "unit_bytes bs c \<Longrightarrow> 1 \<le> length bs"
  using length_utf_char_bytes(1) [of "ucast c"] by (auto simp: unit_bytes_def utf2_bytes_def)

lemma units_length: "units bss cs \<Longrightarrow> length cs \<le> length (concat bss)"
  by (induction bss cs rule: units.induct) (auto dest: unit_bytes_nonempty)

lemma receives_loop_units:
  assumes "units bss cs" "n + length cs \<le> length buffer"
  shows "receives (read_utf_loop False (int (length (concat bss))) (int n) buffer) (concat bss)
    (take n buffer @ cs @ drop (n + length cs) buffer, int (n + length cs), 0)"
  using assms
proof (induction bss cs arbitrary: n buffer rule: units.induct)
  case 1
  show ?case by (subst read_utf_loop.simps) (simp add: receives_return)
next
  case (2 b bs c cs)
  then have u: "unit_bytes b c" "units bs cs" and n: "n < length buffer" by simp_all
  have len: "int (length (concat (b # bs))) - (if False then 1 else int (length b)) = int (length (concat bs))"
    by simp
  have "receives (read_utf_loop False (int (length (concat bs))) (int (Suc n)) (buffer[n := c])) (concat bs)
    (take (Suc n) (buffer[n := c]) @ cs @ drop (Suc n + length cs) (buffer[n := c]), int (Suc n + length cs), 0)"
    using 2(2,3) u by (intro 2(1)) simp_all
  then have "receives (read_utf_loop False (int (length (concat (b # bs))) - (if False then 1 else int (length b)))
      (int n + 1) (buffer[n := c])) (concat bs)
    (take n buffer @ (c # cs) @ drop (n + length (c # cs)) buffer, int (n + length (c # cs)), 0)"
    unfolding len using n by (simp add: take_update_snoc add.commute)
  from receives_loop_step [OF u(1) _ n this] unit_bytes_nonempty [OF u(1)] show ?case by simp
qed simp_all

lemma receives_utf_sequence:
  assumes u: "units bss cs" and mem: "mem (length (concat bss) + 1)"
  shows "receives (dx_read_utf_sequence mem (int (length (concat bss))) False) (concat bss)
    (cs @ [0] @ replicate (length (concat bss) - length cs) 0)"
proof (cases "bss = []")
  case True
  with u have "cs = []" by (cases cs) simp_all
  with True mem show ?thesis by (simp add: dx_read_utf_sequence_def receives_return)
next
  case False
  let ?n = "length (concat bss)"
  have l: "length cs \<le> ?n" by (rule units_length [OF u])
  have pos: "?n \<noteq> 0" using False u units_length [OF u] by (cases bss; cases cs) (auto dest: unit_bytes_nonempty)
  have t: "nat (int ?n + 1) = Suc ?n" by simp
  have "receives (read_utf_loop False (int ?n) (int 0) (replicate (Suc ?n) 0)) (concat bss)
      (cs @ replicate (Suc ?n - length cs) 0, int (length cs), 0)" (is "receives ?loop _ ?r")
    using receives_loop_units [OF u, of 0 "replicate (Suc ?n) 0"] l
    by (simp del: replicate_Suc)
  moreover have "(cs @ replicate (Suc ?n - length cs) 0)[length cs := 0] = cs @ [0] @ replicate (?n - length cs) 0"
    using l by (simp add: Suc_diff_le)
  then have "receives (store_char (cs @ replicate (Suc ?n - length cs) 0) (int (length cs)) 0) []
      (cs @ [0] @ replicate (?n - length cs) 0)"
    using l by (simp add: store_char_def mem_store_def receives_return)
  then have "receives ((\<lambda>(buffer, count, utflen'). if utflen' < (0::int) then fail dx_utfec_bad_utf_data_format_server
           else store_char buffer count 0) ?r) [] (cs @ [0] @ replicate (?n - length cs) 0)"
    by (simp only: prod.case less_irrefl if_False)
  ultimately have "receives (checked (read_utf_loop False (int ?n) (int 0) (replicate (Suc ?n) 0))
      (\<lambda>(buffer, count, utflen'). if utflen' < 0 then fail dx_utfec_bad_utf_data_format_server
           else store_char buffer count 0)) (concat bss @ [])
      (cs @ [0] @ replicate (?n - length cs) 0)"
    by (rule receives_seq)
  with pos mem show ?thesis
    by (auto simp: dx_read_utf_sequence_def t simp del: replicate_Suc)
qed

text \<open>
  Strings without surrogate pairs.  A pair makes a character of four bytes, which
  \<open>dx_read_utf_sequence\<close> refuses near the end of the string.
\<close>

fun no_pairs :: "dxf_char list \<Rightarrow> bool" where
  "no_pairs [] = True"
| "no_pairs (c # cs) = (\<not> (dx_is_high_surrogate c \<and> cs \<noteq> [] \<and> dx_is_low_surrogate (hd cs)) \<and> no_pairs cs)"

lemma units_utf8: "no_pairs s \<Longrightarrow> units (map (\<lambda>c. utf_char_bytes (ucast c)) s) s"
  by (induction s) (auto simp: unit_bytes_def)

lemma concat_units_utf8: "no_pairs s \<Longrightarrow> concat (map (\<lambda>c. utf_char_bytes (ucast c)) s) = utf8_bytes s"
  by (induction s) (auto simp: utf8_bytes_def)

lemma sint_long_of_int: "sint (scast (w::int32) :: long64) = sint w"
  by (rule sint_up_scast) (simp add: is_up)

lemma receives_small_length:
  assumes "n < 2 ^ 31"
  shows "receives dx_read_compact_long (compact_int_bytes (word_of_nat n)) (scast (word_of_nat n :: int32))"
proof -
  have "\<not> lost_sign (word_of_nat n)"
    using sint_of_small_nat [OF assms] by (simp add: lost_sign_def)
  with receives_long_of_compact_int [of "word_of_nat n"] show ?thesis by simp
qed

lemma receives_utf_string:
  assumes "no_pairs s" "length (utf8_bytes s) < 2 ^ 31" "mem (length (utf8_bytes s) + 1)"
  shows "receives (dx_read_utf_string mem)
    (compact_int_bytes (word_of_nat (length (utf8_bytes s))) @ utf8_bytes s)
    (Some (s @ [0] @ replicate (length (utf8_bytes s) - length s) 0))"
proof -
  let ?n = "length (utf8_bytes s)"
  have i: "sint (scast (word_of_nat ?n :: int32) :: long64) = int ?n"
    using sint_of_small_nat [OF assms(2)] by (simp only: sint_long_of_int)
  have "receives (dx_read_utf_sequence mem (int ?n) False) (utf8_bytes s) (s @ [0] @ replicate (?n - length s) 0)"
    using receives_utf_sequence [OF units_utf8 [OF assms(1)], of mem] assms by (simp add: concat_units_utf8)
  then have "receives (checked (dx_read_utf_sequence mem (int ?n) False) (\<lambda>s. return (Some s))) (utf8_bytes s)
      (Some (s @ [0] @ replicate (?n - length s) 0))"
    by (rule receives_map) simp
  then show ?thesis
    unfolding dx_read_utf_string_def
    by (intro receives_seq [OF receives_small_length [OF assms(2)]]) (use assms(2) in \<open>simp add: i\<close>)
qed

lemma receives_null_string: "receives (dx_read_utf_string mem) (compact_int_bytes (- 1)) None"
proof -
  have "\<not> lost_sign (- 1)" by (simp add: lost_sign_def)
  then have "receives dx_read_compact_long (compact_int_bytes (- 1)) (scast (- 1 :: int32))"
    using receives_long_of_compact_int [of "- 1"] by simp
  then have "receives dx_read_compact_long (compact_int_bytes (- 1)) (- 1)" by simp
  then have "receives (dx_read_utf_string mem) (compact_int_bytes (- 1) @ []) None"
    unfolding dx_read_utf_string_def by (rule receives_seq) (simp add: receives_return)
  then show ?thesis by simp
qed

section \<open>Byte arrays\<close>

lemma receives_segment:
  "receives (dx_read_byte_buffer_segment (replicate (length bs) 0) (int (length bs)) 0 (int (length bs))) bs bs"
  unfolding receives_def
proof (intro allI impI)
  fix ctx rest assume wf: "wf_in ctx" and p: "pending ctx = bs @ rest"
  from wf obtain buf where buf: "in_buffer ctx = Some buf" "in_buffer_length ctx \<le> int (length buf)"
    by (auto simp: wf_in_def)
  let ?p = "nat (current_in_buffer_position ctx)"
  have l: "int (length bs) \<le> in_buffer_length ctx - current_in_buffer_position ctx" "0 \<le> current_in_buffer_position ctx"
    using length_pending [OF wf] p wf by (auto simp: wf_in_def)
  have "length bs \<le> nat (in_buffer_length ctx) - ?p" using l by linarith
  moreover have "take (length bs) (drop ?p (take (nat (in_buffer_length ctx)) buf)) = bs"
    using p buf by (simp add: pending_def)
  ultimately have "take (length bs) (drop ?p buf) = bs"
    using l by (simp add: drop_take min_def split: if_splits)
  then have "mem_copy (replicate (length bs) 0) 0 buf (current_in_buffer_position ctx) (int (length bs)) = Some bs"
    using l buf by (simp add: mem_copy_def)
  then show "dx_read_byte_buffer_segment (replicate (length bs) 0) (int (length bs)) 0 (int (length bs)) ctx =
      (Inr bs, advance (length bs) ctx)"
    using l buf by (simp add: dx_read_byte_buffer_segment_def IS_BUF_CAPACITY_ENOUGH_def advance_def)
qed

lemma receives_byte_array:
  assumes "length b < 2 ^ 31" "b \<noteq> [] \<Longrightarrow> mem (length b)"
  shows "receives (dx_read_byte_array mem) (byte_array_bytes (Some b)) b"
proof -
  have i: "sint (scast (word_of_nat (length b) :: int32) :: long64) = int (length b)"
    using sint_of_small_nat [OF assms(1)] by (simp only: sint_long_of_int)
  have "receives (if sint (scast (word_of_nat (length b) :: int32) :: long64) < -1 \<or> sint (scast (word_of_nat (length b) :: int32) :: long64) > INT_MAX
       then fail dx_ec_invalid_func_param_internal
       else if sint (scast (word_of_nat (length b) :: int32) :: long64) = -1 then return []
       else if sint (scast (word_of_nat (length b) :: int32) :: long64) = 0 then return []
       else if \<not> mem (nat (sint (scast (word_of_nat (length b) :: int32) :: long64))) then fail dx_mec_insufficient_memory
       else dx_read_byte_buffer_segment (replicate (nat (sint (scast (word_of_nat (length b) :: int32) :: long64))) 0)
              (sint (scast (word_of_nat (length b) :: int32) :: long64)) 0 (sint (scast (word_of_nat (length b) :: int32) :: long64))) b b"
    unfolding i using assms receives_segment [of b] by (cases "b = []") (simp_all add: receives_return)
  then show ?thesis
    unfolding dx_read_byte_array_def byte_array_bytes_def option.case
    by (rule receives_seq [OF receives_small_length [OF assms(1)]])
qed

section \<open>Strings with a short length\<close>

text \<open>The format of \<open>dx_write_utf\<close>: one to three bytes for each unit, two for zero.\<close>

definition utf_unit_bytes :: "dxf_char \<Rightarrow> byte list" where
  "utf_unit_bytes c = (if c > 0 \<and> c \<le> 0x007F then [ucast c]
     else if c \<le> 0x07FF then utf2_bytes (ucast c) else utf3_bytes (ucast c))"

definition utf_bytes :: "dxf_char list \<Rightarrow> byte list" where
  "utf_bytes s = concat (map utf_unit_bytes s)"

lemma utf_bytes_simps [simp]:
  "utf_bytes [] = []" "utf_bytes (c # cs) = utf_unit_bytes c @ utf_bytes cs"
  by (simp_all add: utf_bytes_def)

lemma length_utf_unit_bytes: "1 \<le> length (utf_unit_bytes c)" "length (utf_unit_bytes c) \<le> 3"
  by (simp_all add: utf_unit_bytes_def)

lemma length_utf_bytes: "length s \<le> length (utf_bytes s)"
proof (induction s)
  case (Cons c s)
  then show ?case using length_utf_unit_bytes(1) [of c] by simp
qed simp

lemma utf_length_spec: "utf_length s n = n + word_of_nat (length (utf_bytes s))"
  by (induction s n rule: utf_length.induct) (auto simp: utf_unit_bytes_def)

lemma sends_utf_chars: "sends (length (utf_bytes s) + 2) (write_utf_chars mem s) (utf_bytes s)"
proof (induction s)
  case Nil
  show ?case using sends_mono [OF sends_return [of "()"], of 2] by (simp add: numeral_2_eq_2)
next
  case (Cons c cs)
  have p: "puts (if c > 0 \<and> c \<le> 0x007F then put_bytes [ucast c]
           else if c \<le> 0x07FF then dx_write_utf2_unchecked (ucast c)
           else dx_write_utf3_unchecked (ucast c)) (utf_unit_bytes c)"
    unfolding utf_unit_bytes_def by (intro puts_intros)
  have l: "1 \<le> length (utf_unit_bytes c)" "length (utf_unit_bytes c) \<le> 3" by (rule length_utf_unit_bytes)+
  have "sends 3 (checked (\<lambda>ctx. if IS_CUR_CAPACITY_ENOUGH ctx 3 then (Inr (), ctx) else dx_ensure_capacity mem 3 ctx)
       (\<lambda>_. if c > 0 \<and> c \<le> 0x007F then put_bytes [ucast c]
           else if c \<le> 0x07FF then dx_write_utf2_unchecked (ucast c)
           else dx_write_utf3_unchecked (ucast c))) (utf_unit_bytes c)"
    by (rule sends_checkedI [OF ensures_inline p]) (use l in simp_all)
  from sends_seq [OF this Cons.IH, of "length (utf_bytes (c # cs)) + 2"] l show ?case
    by (simp add: checked_assoc)
qed

lemma sends_utf:
  assumes "int (length s) \<le> uint (scast (word_of_nat (length (utf_bytes s)) :: short16) :: long64)"
  shows "sends (length (utf_bytes s) + 4) (dx_write_utf mem s)
    (short_bytes (word_of_nat (length (utf_bytes s))) @ utf_bytes s)"
proof -
  let ?u = "word_of_nat (length (utf_bytes s)) :: short16"
  have "sint ?u < 2 ^ 15" using sint_lt [of ?u] by simp
  then have "dx_write_utf mem s = checked (dx_write_short mem ?u) (\<lambda>_. write_utf_chars mem s)"
    using assms by (simp add: dx_write_utf_def utf_length_spec Let_def)
  moreover have "sends (length (utf_bytes s) + 4) (checked (dx_write_short mem ?u) (\<lambda>_. write_utf_chars mem s))
      (short_bytes ?u @ utf_bytes s)"
    by (rule sends_seq [OF sends_short sends_utf_chars]) simp_all
  ultimately show ?thesis by simp
qed

lemma short_length_check:
  assumes "0x8000 \<le> n mod 0x10000 \<or> n < 0x10000" "m \<le> n" "m < 2 ^ 48"
  shows "int m \<le> uint (scast (word_of_nat n :: short16) :: long64)"
proof (cases "0x8000 \<le> n mod 0x10000")
  case True
  have s: "sint (word_of_nat n :: short16) = int (n mod 0x10000) - 0x10000"
  proof -
    have u: "uint (word_of_nat n :: short16) = int (n mod 0x10000)"
      by (simp add: uint_nat unat_of_nat)
    have "sint (word_of_nat n :: short16) = signed_take_bit 15 (int (n mod 0x10000))"
      by (simp add: sint_uint u)
    also have "\<dots> = (int (n mod 0x10000) + 2 ^ 15) mod 2 ^ 16 - 2 ^ 15"
      by (simp add: signed_take_bit_eq_take_bit_shift take_bit_eq_mod)
    also have "\<dots> = int (n mod 0x10000) - 0x10000"
    proof -
      define k where "k = int (n mod 0x10000)"
      have "n mod 0x10000 < 0x10000" by simp
      with True have b: "0 \<le> k - 2 ^ 15" "k - 2 ^ 15 < 2 ^ 16" by (simp_all add: k_def)
      have "k + 2 ^ 15 = k - 2 ^ 15 + 2 ^ 16" by simp
      then have "(k + 2 ^ 15) mod 2 ^ 16 = (k - 2 ^ 15) mod 2 ^ 16" by (simp only: mod_add_self2)
      also have "\<dots> = k - 2 ^ 15" using b by (rule mod_pos_pos_trivial)
      finally show ?thesis by (simp add: k_def)
    qed
    finally show ?thesis .
  qed
  have "uint (scast (word_of_nat n :: short16) :: long64) = (int (n mod 0x10000) - 0x10000) mod 2 ^ 64"
    unfolding scast_eq s uint_word_of_int by simp
  also have "\<dots> = (int (n mod 0x10000) - 0x10000 + 2 ^ 64) mod 2 ^ 64"
    by (rule mod_add_self2 [symmetric])
  also have "\<dots> = int (n mod 0x10000) - 0x10000 + 2 ^ 64"
  proof -
    have "n mod 0x10000 < 0x10000" by simp
    then show ?thesis by (intro mod_pos_pos_trivial) simp_all
  qed
  finally show ?thesis using assms(3) by simp
next
  case False
  with assms have n: "n < 0x8000" by auto
  have "sint (word_of_nat n :: short16) = int n"
    using n by (simp add: signed_of_nat signed_take_bit_int_eq_self)
  then have "uint (scast (word_of_nat n :: short16) :: long64) = int n"
    unfolding scast_eq using n by (simp only: uint_word_of_int) simp
  with assms(2) show ?thesis by simp
qed

lemma receives_short_length:
  assumes "n < 0x10000"
  shows "receives dx_read_unsigned_short (short_bytes (word_of_nat n)) (word_of_nat n)"
proof -
  have "push_bit 8 (ucast (ucast (signed_drop_bit 8 (word_of_nat n :: short16)) :: byte)) OR ucast (ucast (word_of_nat n :: short16) :: byte)
      = (word_of_nat n :: int32)"
  proof (rule bit_word_eqI)
    fix i :: nat assume "i < LENGTH(32)"
    have "\<not> bit n i" if "16 \<le> i"
    proof -
      have "n < 2 ^ 16" using assms by simp
      also have "(2::nat) ^ 16 \<le> 2 ^ i" using that by (intro power_increasing) simp_all
      finally show ?thesis by (simp add: bit_iff_odd)
    qed
    with \<open>i < LENGTH(32)\<close> show "bit (push_bit 8 (ucast (ucast (signed_drop_bit 8 (word_of_nat n :: short16)) :: byte)) OR
        ucast (ucast (word_of_nat n :: short16) :: byte) :: int32) i = bit (word_of_nat n :: int32) i"
      by (cases "16 \<le> i") (auto simp: bit_simps)
  qed
  from receives_eq [OF receives_unsigned_short this] show ?thesis
    by (simp add: short_bytes_def)
qed

lemma units_utf: "units (map utf_unit_bytes s) s"
proof (induction s)
  case (Cons c s)
  have "unit_bytes (utf_unit_bytes c) c"
    using uint_lt2p [of c] by (auto simp: unit_bytes_def utf_unit_bytes_def utf_char_bytes_def word_le_def)
  with Cons show ?case by simp
qed simp

lemma receives_utf:
  assumes "length (utf_bytes s) < 0x10000" "mem (length (utf_bytes s) + 1)"
  shows "receives (dx_read_utf mem) (short_bytes (word_of_nat (length (utf_bytes s))) @ utf_bytes s)
    (s @ [0] @ replicate (length (utf_bytes s) - length s) 0)"
proof -
  have "sint (word_of_nat (length (utf_bytes s)) :: int32) = int (length (utf_bytes s))"
    using assms(1) by (intro sint_of_small_nat) simp
  moreover have "receives (dx_read_utf_sequence mem (int (length (utf_bytes s))) False) (utf_bytes s)
      (s @ [0] @ replicate (length (utf_bytes s) - length s) 0)"
    using receives_utf_sequence [OF units_utf [of s], of mem] assms(2) by (simp add: utf_bytes_def)
  ultimately show ?thesis
    unfolding dx_read_utf_def by (intro receives_seq [OF receives_short_length [OF assms(1)]]) simp
qed

end
