(* ===== verification/Dx_Input_Safety.thy ===== *)
theory Dx_Input_Safety
  imports Dx_Input
begin

text \<open>
  Memory safety of the read operations of \<open>src/BufferedInput.c\<close>: on every input, truncated or
  malformed, they stay inside the block, keep the invariant and only move forward.  The two that
  do not, \<open>dx_read_line\<close> and \<open>dx_read_utf_char_array\<close>, are described where they fail.
\<close>


section \<open>Composition\<close>

text \<open>\<open>safe_with n r\<close>: safe when at least \<open>n\<close> bytes are pending.  \<open>post\<close> is what a result satisfies.\<close>

definition safe_with :: "nat \<Rightarrow> ('a \<Rightarrow> bool) \<Rightarrow> (in_ctx, 'a) io \<Rightarrow> bool" where
  "safe_with n post r \<longleftrightarrow> (\<forall>ctx res ctx'. wf_in ctx \<longrightarrow>
     current_in_buffer_position ctx + int n \<le> in_buffer_length ctx \<longrightarrow> r ctx = (res, ctx') \<longrightarrow>
     wf_in ctx' \<and> same_buffer ctx ctx' \<and> res \<noteq> Inl UB \<and> (\<forall>v. res = Inr v \<longrightarrow> post v))"

lemma safe_withD:
  assumes "safe_with n post r" "wf_in ctx" "current_in_buffer_position ctx + int n \<le> in_buffer_length ctx"
    "r ctx = (res, ctx')"
  shows "wf_in ctx'" "same_buffer ctx ctx'" "res \<noteq> Inl UB" "res = Inr v \<Longrightarrow> post v"
  using assms unfolding safe_with_def by blast+

lemma safe_iff: "safe r \<longleftrightarrow> safe_with 0 (\<lambda>_. True) r"
  by (auto simp: safe_def safe_with_def wf_in_def)

lemma same_buffer_refl [simp]: "same_buffer ctx ctx"
  by (simp add: same_buffer_def)

lemma same_buffer_trans: "same_buffer a b \<Longrightarrow> same_buffer b c \<Longrightarrow> same_buffer a c"
  by (auto simp: same_buffer_def)

named_theorems safe_intros \<open>composition of safe reads\<close>

lemma safe_return [safe_intros]: "post x \<Longrightarrow> safe_with n post (return x)"
  by (simp add: safe_with_def io_simps)

lemma safe_fail [safe_intros]: "e \<noteq> UB \<Longrightarrow> safe_with n post (fail e)"
  by (simp add: safe_with_def io_simps)

lemma safe_checked:
  assumes "safe_with n Q m" "\<And>x. Q x \<Longrightarrow> safe_with 0 post (k x)"
  shows "safe_with n post (checked m k)"
  unfolding safe_with_def
proof (intro allI impI)
  fix ctx res ctx'
  assume wf: "wf_in ctx" and c: "current_in_buffer_position ctx + int n \<le> in_buffer_length ctx"
    and e: "checked m k ctx = (res, ctx')"
  obtain r1 c1 where m: "m ctx = (r1, c1)" by fastforce
  note s = safe_withD [OF assms(1) wf c m]
  show "wf_in ctx' \<and> same_buffer ctx ctx' \<and> res \<noteq> Inl UB \<and> (\<forall>v. res = Inr v \<longrightarrow> post v)"
  proof (cases r1)
    case (Inl a)
    with e m s(1-3) show ?thesis by (auto simp: io_simps)
  next
    case (Inr x)
    with e m have k: "k x c1 = (res, ctx')" by (simp add: io_simps)
    have "current_in_buffer_position c1 + int 0 \<le> in_buffer_length c1" using s(1) by (simp add: wf_in_def)
    note t = safe_withD [OF assms(2) [OF s(4) [OF Inr]] s(1) this k]
    with s(2) show ?thesis using same_buffer_trans by blast
  qed
qed

lemma safe_validate [safe_intros]:
  assumes "safe_with n post r"
  shows "safe_with m post (checked (dx_validate_buffer_and_value (int n)) (\<lambda>_. r))"
  unfolding safe_with_def
proof (intro allI impI)
  fix ctx res ctx'
  assume wf: "wf_in ctx" and e: "checked (dx_validate_buffer_and_value (int n)) (\<lambda>_. r) ctx = (res, ctx')"
  show "wf_in ctx' \<and> same_buffer ctx ctx' \<and> res \<noteq> Inl UB \<and> (\<forall>v. res = Inr v \<longrightarrow> post v)"
  proof (cases "current_in_buffer_position ctx + int n \<le> in_buffer_length ctx")
    case True
    then have "dx_validate_buffer_and_value (int n) ctx = (Inr (), ctx)"
      using wf by (auto simp: dx_validate_buffer_and_value_def IS_BUF_CAPACITY_ENOUGH_def wf_in_def)
    with e have "r ctx = (res, ctx')" by (simp add: io_simps)
    from safe_withD [OF assms wf True this] show ?thesis by blast
  next
    case False
    then have "dx_validate_buffer_and_value (int n) ctx = (Inl dx_bioec_buffer_underflow, ctx)"
      using wf by (auto simp: dx_validate_buffer_and_value_def IS_BUF_CAPACITY_ENOUGH_def wf_in_def)
    with e wf show ?thesis by (auto simp: io_simps)
  qed
qed

lemma safe_get_byte:
  assumes "\<And>b. safe_with n post (k b)"
  shows "safe_with (Suc n) post (checked get_byte k)"
  unfolding safe_with_def
proof (intro allI impI)
  fix ctx res ctx'
  assume wf: "wf_in ctx" and c: "current_in_buffer_position ctx + int (Suc n) \<le> in_buffer_length ctx"
    and e: "checked get_byte k ctx = (res, ctx')"
  from wf obtain buf where buf: "in_buffer ctx = Some buf" "in_buffer_length ctx \<le> int (length buf)"
    by (auto simp: wf_in_def)
  define c1 where "c1 = ctx\<lparr>current_in_buffer_position := current_in_buffer_position ctx + 1\<rparr>"
  have "get_byte ctx = (Inr (buf ! nat (current_in_buffer_position ctx)), c1)"
    using buf c wf by (auto simp: get_byte_def Let_def c1_def wf_in_def)
  with e have k: "k (buf ! nat (current_in_buffer_position ctx)) c1 = (res, ctx')" by (simp add: io_simps)
  have w1: "wf_in c1" "current_in_buffer_position c1 + int n \<le> in_buffer_length c1"
    using wf c buf by (auto simp: wf_in_def c1_def)
  from safe_withD [OF assms w1 k] show "wf_in ctx' \<and> same_buffer ctx ctx' \<and> res \<noteq> Inl UB \<and> (\<forall>v. res = Inr v \<longrightarrow> post v)"
    by (auto simp: same_buffer_def c1_def)
qed

lemma safe_mono: "safe_with n Q r \<Longrightarrow> n \<le> m \<Longrightarrow> (\<And>x. Q x \<Longrightarrow> post x) \<Longrightarrow> safe_with m post r"
  unfolding safe_with_def by (metis add_left_mono of_nat_mono order_trans)

lemma safe_if [safe_intros]:
  "(c \<Longrightarrow> safe_with n post a) \<Longrightarrow> (\<not> c \<Longrightarrow> safe_with n post b) \<Longrightarrow> safe_with n post (if c then a else b)"
  by simp

section \<open>The read operations\<close>

lemma checked_return_right: "checked m return = m"
  by (auto simp: checked_def return_def fun_eq_iff split: prod.splits sum.splits)

lemma safe_get_byte_last: "safe_with (Suc 0) (\<lambda>_. True) get_byte"
  using safe_get_byte [of 0 "\<lambda>_. True" return] by (simp add: safe_return checked_return_right)

lemma safe_validate_numeral:
  "safe_with (Suc 0) post r \<Longrightarrow> safe_with 0 post (checked (dx_validate_buffer_and_value 1) (\<lambda>_. r))"
  "safe_with (Suc (Suc 0)) post r \<Longrightarrow> safe_with 0 post (checked (dx_validate_buffer_and_value 2) (\<lambda>_. r))"
  "safe_with (Suc (Suc (Suc (Suc 0)))) post r \<Longrightarrow>
     safe_with 0 post (checked (dx_validate_buffer_and_value 4) (\<lambda>_. r))"
  "safe_with (Suc (Suc (Suc (Suc (Suc (Suc (Suc (Suc 0)))))))) post r \<Longrightarrow>
     safe_with 0 post (checked (dx_validate_buffer_and_value 8) (\<lambda>_. r))"
  using safe_validate [of 1 post r 0] safe_validate [of 2 post r 0] safe_validate [of 4 post r 0]
    safe_validate [of 8 post r 0] by (simp_all add: eval_nat_numeral)

lemma safe_primitives [safe_intros]:
  "safe_with 0 (\<lambda>_. True) dx_read_byte" "safe_with 0 (\<lambda>_. True) dx_read_boolean"
  "safe_with 0 (\<lambda>_. True) dx_read_unsigned_byte" "safe_with 0 (\<lambda>_. True) dx_read_short"
  "safe_with 0 (\<lambda>_. True) dx_read_unsigned_short" "safe_with 0 (\<lambda>_. True) dx_read_int"
  "safe_with 0 (\<lambda>_. True) dx_read_long"
  unfolding dx_read_byte_def dx_read_boolean_def dx_read_unsigned_byte_def dx_read_short_def
    dx_read_unsigned_short_def dx_read_int_def dx_read_long_def Let_def
  by (intro safe_validate_numeral safe_get_byte safe_get_byte_last safe_return TrueI)+

text \<open>Sequences of reads whose intermediate values do not matter.\<close>

lemma safe_seq [safe_intros]:
  assumes "safe_with 0 (\<lambda>_. True) m" "\<And>x. safe_with 0 post (k x)"
  shows "safe_with 0 post (checked m k)"
  using safe_checked [OF assms(1)] assms(2) by blast

lemma safe_skip_loop: "safe_with 0 (\<lambda>_. True) (skip_loop fuel n)"
proof (induction fuel arbitrary: n)
  case (Suc fuel)
  have "safe_with 0 (\<lambda>_. True) (dx_move_buffer_pos 1)"
    by (auto simp: safe_with_def dx_move_buffer_pos_def Let_def wf_in_def same_buffer_def)
  with Suc show ?case by (auto simp: Let_def intro!: safe_intros)
qed (simp add: safe_return)

lemma safe_compact [safe_intros]:
  "safe_with 0 (\<lambda>_. True) dx_read_compact_int" "safe_with 0 (\<lambda>_. True) dx_read_compact_long"
  unfolding dx_read_compact_int_def dx_read_compact_long_def
  by (intro safe_intros safe_skip_loop TrueI)+

lemma safe_utf_tails [safe_intros]:
  "safe_with 0 (\<lambda>_. True) (dx_read_utf2 n)" "safe_with 0 (\<lambda>_. True) (dx_read_utf3 n)"
  "safe_with 0 (\<lambda>_. True) (dx_read_utf4 n)"
  unfolding dx_read_utf2_def dx_read_utf3_def dx_read_utf4_def Let_def
  by (intro safe_intros TrueI; simp)+

lemma safe_utf_char: "safe_with 0 (\<lambda>_. True) dx_read_utf_char"
  unfolding dx_read_utf_char_def by (intro safe_intros TrueI; simp)

lemma safe_segment [safe_intros]:
  assumes "n = int (length block)"
  shows "safe_with 0 (\<lambda>_. True) (dx_read_byte_buffer_segment block n off len)"
  unfolding safe_with_def
proof (intro allI impI)
  fix ctx res ctx'
  assume wf: "wf_in ctx" and e: "dx_read_byte_buffer_segment block n off len ctx = (res, ctx')"
  from wf obtain buf where buf: "in_buffer ctx = Some buf" "in_buffer_length ctx \<le> int (length buf)"
    by (auto simp: wf_in_def)
  show "wf_in ctx' \<and> same_buffer ctx ctx' \<and> res \<noteq> Inl UB \<and> (\<forall>v. res = Inr v \<longrightarrow> True)"
    using e wf buf assms
    by (auto simp: dx_read_byte_buffer_segment_def IS_BUF_CAPACITY_ENOUGH_def mem_copy_def wf_in_def
        same_buffer_def split: if_splits)
qed

lemma safe_byte_array: "safe_with 0 (\<lambda>_. True) (dx_read_byte_array mem)"
  unfolding dx_read_byte_array_def by (intro safe_intros TrueI; simp)

lemma safe_store_char:
  assumes "0 \<le> i" "i < int (length buffer)"
  shows "safe_with 0 (\<lambda>b. length b = length buffer) (store_char buffer i c)"
  using assms by (simp add: store_char_def mem_store_def safe_return)

text \<open>
  The loop of a sequence measured in bytes: the units stored never outnumber the bytes consumed, so
  the block of \<open>utflen + 1\<close> characters has room for them and the terminating zero.
\<close>

abbreviation block_post :: "nat \<Rightarrow> dxf_char list \<times> int \<times> int \<Rightarrow> bool" where
  "block_post len \<equiv> \<lambda>(b, n, rest). length b = len \<and> 0 \<le> n \<and> n < int len"

lemma safe_utf_loop:
  "nat utflen \<le> m \<Longrightarrow> 0 \<le> count \<Longrightarrow> count + max utflen 0 < int (length buffer) \<Longrightarrow>
     safe_with 0 (block_post (length buffer)) (read_utf_loop False utflen count buffer)"
proof (induction m arbitrary: utflen count buffer)
  case 0
  then show ?case by (subst read_utf_loop.simps) (simp add: safe_return)
next
  case (Suc m)
  show ?case
  proof (cases "0 < utflen")
    case False
    with Suc show ?thesis by (subst read_utf_loop.simps) (simp add: safe_return)
  next
    case True
    with Suc.prems have b: "0 \<le> count" "count + utflen < int (length buffer)" by simp_all
    have step: "safe_with 0 (block_post (length buffer)) (checked (store_char buffer count c)
        (\<lambda>buffer'. read_utf_loop False (utflen - k) (count + 1) buffer'))" if "1 \<le> k" for c k
    proof (rule safe_checked [OF safe_store_char])
      fix x :: "dxf_char list" assume "length x = length buffer"
      with b that Suc.prems(1) True
      show "safe_with 0 (block_post (length buffer)) (read_utf_loop False (utflen - k) (count + 1) x)"
        using Suc.IH [of "utflen - k" "count + 1" x] by simp
    qed (use b True in simp_all)
    have wide: "safe_with 0 (block_post (length buffer))
        (let utflen' = utflen - 4 in
              case dx_code_point_to_utf16_chars tmpInt buffer count utflen' of
                Inl e \<Rightarrow> fail e
              | Inr (buffer', res) \<Rightarrow> read_utf_loop False utflen' (count + res) buffer')" for tmpInt
    proof (cases "dx_code_point_to_utf16_chars tmpInt buffer count (utflen - 4)")
      case (Inl e)
      have "e \<noteq> UB" using to_utf16_safe [of count "utflen - 4" buffer tmpInt] b Inl by auto
      with Inl show ?thesis by (simp add: safe_fail)
    next
      case (Inr p)
      then obtain x res where p: "p = (x, res)" "length x = length buffer" "1 \<le> res" "res \<le> 2" "count + res \<le> utflen - 4"
        by (auto simp: dx_code_point_to_utf16_chars_def dx_code_point_to_surrogates_def Let_def
            dest!: length_mem_store split: if_splits option.splits sum.splits)
      have "safe_with 0 (block_post (length x)) (read_utf_loop False (utflen - 4) (count + res) x)"
        by (rule Suc.IH) (use Suc.prems(1) True b p in auto)
      with Inr p show ?thesis by simp
    qed
    from True show ?thesis
      by (subst read_utf_loop.simps) (simp only: if_True if_False,
        (rule safe_if safe_fail step wide safe_utf_tails safe_primitives safe_seq | simp)+)
  qed
qed

lemma safe_utf_sequence [safe_intros]:
  assumes "0 \<le> utflen"
  shows "safe_with 0 (\<lambda>_. True) (dx_read_utf_sequence mem utflen False)"
  unfolding dx_read_utf_sequence_def
proof (intro safe_if safe_return safe_fail TrueI)
  show "safe_with 0 (\<lambda>_. True) (checked (read_utf_loop False utflen 0 (replicate (nat (utflen + 1)) 0))
    (\<lambda>(buffer, count, utflen'). if utflen' < 0 then fail dx_utfec_bad_utf_data_format_server
           else store_char buffer count 0))"
  proof (rule safe_checked [OF safe_utf_loop [of _ "nat utflen"]])
    fix x :: "dxf_char list \<times> int \<times> int"
    assume x: "block_post (length (replicate (nat (utflen + 1)) (0::dxf_char))) x"
    obtain b n rest where p: "x = (b, n, rest)" by (cases x)
    show "safe_with 0 (\<lambda>_. True) (case x of (buffer, count, utflen') \<Rightarrow> if utflen' < 0 then fail dx_utfec_bad_utf_data_format_server
           else store_char buffer count 0)"
      using x unfolding p
      by (auto intro!: safe_if safe_fail safe_mono [OF safe_store_char])
  qed (use assms in simp_all)
qed simp_all

lemma unsigned_short_nonneg: "safe_with 0 (\<lambda>v. 0 \<le> sint v) dx_read_unsigned_short"
proof -
  have "0 \<le> sint (push_bit 8 ((scast b0 :: int32) AND 0xFF) OR ((scast b1 :: int32) AND 0xFF))" for b0 b1 :: byte
  proof -
    have "\<not> bit (push_bit 8 ((scast b0 :: int32) AND 0xFF) OR ((scast b1 :: int32) AND 0xFF)) 31"
      unfolding scast_byte_FF by (auto simp: bit_simps dest: bit_imp_le_length)
    then show ?thesis
      using bit_sint_range [of 31 "push_bit 8 ((scast b0 :: int32) AND 0xFF) OR ((scast b1 :: int32) AND 0xFF)" 31]
        sint_ge [of "push_bit 8 ((scast b0 :: int32) AND 0xFF) OR ((scast b1 :: int32) AND 0xFF)"]
        sint_lt [of "push_bit 8 ((scast b0 :: int32) AND 0xFF) OR ((scast b1 :: int32) AND 0xFF)"]
      by simp
  qed
  then show ?thesis
    unfolding dx_read_unsigned_short_def Let_def
    by (intro safe_validate_numeral safe_get_byte safe_return)
qed

lemma safe_read_utf: "safe_with 0 (\<lambda>_. True) (dx_read_utf mem)"
  unfolding dx_read_utf_def
  by (rule safe_checked [OF unsigned_short_nonneg]) (rule safe_utf_sequence)

lemma safe_utf_string: "safe_with 0 (\<lambda>_. True) (dx_read_utf_string mem)"
  unfolding dx_read_utf_string_def
  by (intro safe_intros TrueI) simp_all

section \<open>Lines\<close>

text \<open>A line below 128 characters, ended by LF, CR LF or the end of the data.\<close>

definition plain_char :: "byte \<Rightarrow> bool" where
  "plain_char b \<longleftrightarrow> b \<noteq> 10 \<and> b \<noteq> 13"

lemma line_char:
  fixes b :: byte
  shows "(ucast ((scast b :: int32) AND 0xFF) :: dxf_char) = ucast b"
  unfolding scast_byte_FF by (rule bit_word_eqI) (auto simp: bit_simps dest: bit_imp_le_length)

lemma ucast_byte_char_eq: "(ucast (b::byte) :: dxf_char) = ucast c \<longleftrightarrow> b = c"
proof
  assume e: "(ucast b :: dxf_char) = ucast c"
  show "b = c"
  proof (rule bit_word_eqI)
    fix i :: nat assume "i < LENGTH(8)"
    moreover have "bit (ucast b :: dxf_char) i = bit (ucast c :: dxf_char) i" using e by simp
    ultimately show "bit b i = bit c i" by (simp add: bit_simps)
  qed
qed simp

lemma line_step:
  assumes wf: "wf_in ctx" and p: "pending ctx = b # rest" and b: "plain_char b" and n: "n < 128" "length tmp = 128"
  shows "read_line_loop mem tmp n ctx = read_line_loop mem (tmp[n := ucast b]) (n + 1) (advance 1 ctx)"
proof -
  have "current_in_buffer_position ctx < in_buffer_length ctx" using length_pending [OF wf] p by simp
  moreover have "get_byte ctx = (Inr b, advance 1 ctx)" using wf p by (rule get_byte_pending)
  moreover have "(ucast b :: dxf_char) \<noteq> 10" "(ucast b :: dxf_char) \<noteq> 13"
    using b ucast_byte_char_eq [of b 10] ucast_byte_char_eq [of b 13] by (simp_all add: plain_char_def)
  ultimately show ?thesis
    using n by (subst read_line_loop.simps) (simp add: line_char Let_def tmp_buf_size_def mem_store_def)
qed

lemma line_chars:
  assumes "wf_in ctx" "pending ctx = bs @ rest" "\<forall>b \<in> set bs. plain_char b" "n + length bs \<le> 128" "length tmp = 128"
  shows "read_line_loop mem tmp n ctx =
    read_line_loop mem (take n tmp @ map ucast bs @ drop (n + length bs) tmp) (n + length bs) (advance (length bs) ctx)"
  using assms
proof (induction bs arbitrary: n tmp ctx)
  case Nil
  then show ?case by (simp add: advance_def)
next
  case (Cons b bs)
  then have n: "n < 128" by simp
  have pa: "wf_in (advance 1 ctx)" "pending (advance 1 ctx) = bs @ rest"
    using pending_advance [of ctx "[b]" "bs @ rest"] Cons.prems(1,2) by simp_all
  have "read_line_loop mem tmp n ctx = read_line_loop mem (tmp[n := ucast b]) (n + 1) (advance 1 ctx)"
    using Cons.prems n by (intro line_step) simp_all
  also have "\<dots> = read_line_loop mem (take (n + 1) (tmp[n := ucast b]) @ map ucast bs @ drop (n + 1 + length bs) (tmp[n := ucast b]))
      (n + 1 + length bs) (advance (length bs) (advance 1 ctx))"
    using Cons.prems pa by (intro Cons.IH) simp_all
  also have "take (n + 1) (tmp[n := ucast b]) = take n tmp @ [ucast b]"
    using Cons.prems n by (simp add: take_update_snoc)
  finally show ?case by (simp add: add.commute)
qed

lemma line_end:
  assumes wf: "wf_in ctx" and p: "pending ctx = 10 # rest"
  shows "read_line_loop mem tmp n ctx = (Inr (tmp, n), advance 1 ctx)"
proof -
  have "current_in_buffer_position ctx < in_buffer_length ctx" using length_pending [OF wf] p by simp
  moreover have "get_byte ctx = (Inr 10, advance 1 ctx)" using wf p by (rule get_byte_pending)
  ultimately show ?thesis
    by (subst read_line_loop.simps) (simp add: line_char Let_def)
qed

lemma read_line_spec:
  assumes "wf_in ctx" "pending ctx = bs @ 10 # rest" "\<forall>b \<in> set bs. plain_char b" "length bs \<le> 128" "mem 128"
  shows "dx_read_line mem ctx =
    (if length bs < 128 then (Inr (map ucast bs @ [0] @ replicate (127 - length bs) 0), advance (length bs + 1) ctx)
     else (Inl UB, advance 129 ctx))"
proof -
  let ?t = "map ucast bs @ drop (length bs) (replicate 128 0) :: dxf_char list"
  have v: "dx_validate_buffer_and_value 1 ctx = (Inr (), ctx)"
    using assms(1) length_pending [OF assms(1)] assms(2)
    by (auto simp: dx_validate_buffer_and_value_def IS_BUF_CAPACITY_ENOUGH_def wf_in_def)
  have pa: "wf_in (advance (length bs) ctx)" "pending (advance (length bs) ctx) = 10 # rest"
    using pending_advance [OF assms(1,2)] by simp_all
  have "read_line_loop mem (replicate 128 0) 0 ctx = (Inr (?t, length bs), advance (length bs + 1) ctx)"
    using line_chars [OF assms(1-3), of 0 "replicate 128 0" mem] assms(4) line_end [OF pa] by simp
  then have "dx_read_line mem ctx = store_char ?t (int (length bs)) 0 (advance (length bs + 1) ctx)"
    using v assms(5) by (simp add: dx_read_line_def io_simps tmp_buf_size_def)
  moreover have "length ?t = 128" using assms(4) by simp
  moreover have "?t[length bs := 0] = map ucast bs @ [0] @ replicate (127 - length bs) 0" if "length bs < 128"
  proof -
    have "128 - length bs = Suc (127 - length bs)" using that by simp
    then show ?thesis by (simp add: list_update_append)
  qed
  ultimately show ?thesis
    by (auto simp: store_char_def mem_store_def io_simps)
qed

section \<open>Positions\<close>

text \<open>
  \<open>dx_read_utf_char_array\<close> and \<open>dx_read_line\<close> may write behind their blocks, but they move in the input
  like the other readers.
\<close>

definition input_keeps :: "(in_ctx, 'a) io \<Rightarrow> bool" where
  "input_keeps m \<longleftrightarrow> (\<forall>ctx r ctx'. wf_in ctx \<longrightarrow> m ctx = (r, ctx') \<longrightarrow> wf_in ctx' \<and> same_buffer ctx ctx')"

lemma input_keeps_safe: "safe_with 0 (\<lambda>_. True) m \<Longrightarrow> input_keeps m"
  unfolding safe_iff [symmetric] safe_def input_keeps_def by blast

lemma input_keeps_return: "input_keeps (return x)" "input_keeps (fail e)"
  by (auto simp: input_keeps_def io_simps)

lemma input_keeps_checked:
  assumes "input_keeps m" "\<And>x. input_keeps (k x)"
  shows "input_keeps (checked m k)"
  unfolding input_keeps_def
proof (intro allI impI)
  fix ctx r ctx' assume wf: "wf_in ctx" and e: "checked m k ctx = (r, ctx')"
  obtain r1 c1 where m: "m ctx = (r1, c1)" by fastforce
  have s: "wf_in c1" "same_buffer ctx c1" using assms(1) wf m unfolding input_keeps_def by blast+
  show "wf_in ctx' \<and> same_buffer ctx ctx'"
  proof (cases r1)
    case (Inl x)
    then show ?thesis using m e s by (simp add: checked_def)
  next
    case (Inr x)
    then have "k x c1 = (r, ctx')" using m e by (simp add: checked_def)
    then have "wf_in ctx' \<and> same_buffer c1 ctx'" using assms(2) s(1) unfolding input_keeps_def by blast
    then show ?thesis using same_buffer_trans s(2) by blast
  qed
qed

lemma input_keeps_store: "input_keeps (store_char b i c)"
  by (simp add: store_char_def input_keeps_return split: option.split)

lemma input_keeps_loop: "input_keeps (read_utf_loop lic utflen n buffer)"
proof (induction "nat utflen" arbitrary: utflen n buffer rule: less_induct)
  case less
  have IH: "input_keeps (read_utf_loop l (utflen - k) c b)" if "0 < utflen" "1 \<le> k" "l = lic" for l k c b
    using less that by simp
  have s: "input_keeps dx_read_byte" "input_keeps (dx_read_utf2 v)" "input_keeps (dx_read_utf3 v)" "input_keeps (dx_read_utf4 v)" for v
    by (intro input_keeps_safe safe_intros)+
  have wide: "input_keeps (case dx_code_point_to_utf16_chars v buffer n (utflen - k) of
      Inl e \<Rightarrow> fail e | Inr (buffer', res) \<Rightarrow> read_utf_loop l (utflen - k) (n + res) buffer')"
    if "0 < utflen" "1 \<le> k" "l = lic" for v k l
    using IH [OF that] by (auto simp: input_keeps_return split: sum.split prod.split)
  show ?case
  proof (cases "0 < utflen")
    case True
    show ?thesis
      by (subst read_utf_loop.simps, simp only: True if_True, rule input_keeps_checked [OF s(1)], unfold Let_def)
        (auto intro!: input_keeps_checked s input_keeps_store input_keeps_return wide [OF True] IH [OF True])
  next
    case False
    then show ?thesis by (subst read_utf_loop.simps) (simp add: input_keeps_return)
  qed
qed

lemma input_keeps_char_array: "input_keeps (dx_read_utf_char_array mem)"
proof -
  have "input_keeps (dx_read_utf_sequence mem utflen lic)" for utflen lic
    unfolding dx_read_utf_sequence_def
    by (auto intro!: input_keeps_checked input_keeps_loop input_keeps_store input_keeps_return split: prod.split)
  moreover have "input_keeps dx_read_compact_long" by (intro input_keeps_safe safe_intros)
  ultimately show ?thesis unfolding dx_read_utf_char_array_def by (auto intro!: input_keeps_checked input_keeps_return)
qed

lemma get_byte_step:
  assumes "wf_in ctx" "current_in_buffer_position ctx < in_buffer_length ctx"
  obtains b where "get_byte ctx = (Inr b, advance 1 ctx)" "wf_in (advance 1 ctx)" "same_buffer ctx (advance 1 ctx)"
proof -
  have "pending ctx \<noteq> []" using length_pending [OF assms(1)] assms(2) by auto
  then obtain b bs where p: "pending ctx = [b] @ bs" by (cases "pending ctx") auto
  have "get_byte ctx = (Inr b, advance 1 ctx)" using assms(1) p by (intro get_byte_pending) simp_all
  moreover have "wf_in (advance 1 ctx)" using pending_advance(1) [OF assms(1) p] by simp
  moreover have "same_buffer ctx (advance 1 ctx)" by (simp add: same_buffer_def advance_def)
  ultimately show ?thesis by (rule that)
qed

lemma line_loop_keeps:
  assumes "wf_in ctx" "read_line_loop mem tmp n ctx = (r, ctx')"
  shows "wf_in ctx' \<and> same_buffer ctx ctx'"
  using assms
proof (induction mem tmp n ctx rule: read_line_loop.induct)
  case (1 mem tmp n ctx)
  show ?case
  proof (cases "current_in_buffer_position ctx < in_buffer_length ctx")
    case False
    then show ?thesis using 1(2,3) by (subst (asm) read_line_loop.simps) simp
  next
    case True
    obtain b where b: "get_byte ctx = (Inr b, advance 1 ctx)" "wf_in (advance 1 ctx)" "same_buffer ctx (advance 1 ctx)"
      by (rule get_byte_step [OF 1(2) True])
    let ?c = "(ucast ((scast b :: int32) AND 0xFF) :: dxf_char)"
    show ?thesis
    proof (cases "?c = 10")
      case c10: True
      then show ?thesis using 1(3) True b by (subst (asm) read_line_loop.simps) (simp add: Let_def)
    next
      case c10: False
      show ?thesis
      proof (cases "?c = 13")
        case c13: True
        show ?thesis
        proof (cases "current_in_buffer_position (advance 1 ctx) < in_buffer_length (advance 1 ctx)")
          case t2: True
          obtain b2 where b2: "get_byte (advance 1 ctx) = (Inr b2, advance 1 (advance 1 ctx))" "wf_in (advance 1 (advance 1 ctx))"
            "same_buffer (advance 1 ctx) (advance 1 (advance 1 ctx))"
            by (rule get_byte_step [OF b(2) t2])
          then show ?thesis using 1(3) True t2 b c10 c13 same_buffer_trans [OF b(3) b2(3)]
            by (subst (asm) read_line_loop.simps) (auto simp: Let_def split: if_splits)
        next
          case t2: False
          then show ?thesis using 1(3) True b c10 c13 by (subst (asm) read_line_loop.simps) (simp add: Let_def)
        qed
      next
        case c13: False
        let ?new = "if n \<ge> tmp_buf_size then mem_copy (replicate (2 * tmp_buf_size) 0) 0 tmp 0 (int tmp_buf_size) else Some tmp"
        consider (stop) "ctx' = advance 1 ctx"
          | (loop) tmp' tmp'' where "\<not> (n \<ge> tmp_buf_size \<and> \<not> mem (2 * tmp_buf_size))" "?new = Some tmp'" "mem_store tmp' (int n) ?c = Some tmp''"
            "read_line_loop mem tmp'' (n + 1) (advance 1 ctx) = (r, ctx')"
          using 1(3) True b(1) c10 c13 by (subst (asm) read_line_loop.simps) (auto simp: Let_def split: if_splits option.splits)
        then show ?thesis
        proof cases
          case stop
          then show ?thesis using b by simp
        next
          case loop
          have "wf_in ctx' \<and> same_buffer (advance 1 ctx) ctx'"
            using 1(1) [OF True b(1) [symmetric] refl refl c10 c13 loop(1) refl loop(2,3) b(2) loop(4)] .
          then show ?thesis using same_buffer_trans [OF b(3)] by blast
        qed
      qed
    qed
  qed
qed

lemma input_keeps_line: "input_keeps (dx_read_line mem)"
proof -
  have l: "input_keeps (read_line_loop mem tmp n)" for tmp n
    using line_loop_keeps unfolding input_keeps_def by blast
  have v: "input_keeps (dx_validate_buffer_and_value 1)"
    by (auto simp: input_keeps_def dx_validate_buffer_and_value_def same_buffer_def)
  show ?thesis unfolding dx_read_line_def
    by (intro input_keeps_checked v) (auto intro!: input_keeps_return input_keeps_checked l input_keeps_store split: prod.split)
qed

end
