(* ===== verification/Dx_Codec.thy ===== *)
theory Dx_Codec
  imports Dx_Roundtrip Dx_Input_Safety
begin

text \<open>
  The contract between \<open>src/BufferedOutput.c\<close> and \<open>src/BufferedInput.c\<close> as a locale, its
  consequences, and its instances on the operations of the two files; then the properties of the
  two buffers.
\<close>


lemma receivesD:
  "receives r bs v \<Longrightarrow> wf_in ctx \<Longrightarrow> pending ctx = bs @ rest \<Longrightarrow> r ctx = (Inr v, advance (length bs) ctx)"
  by (simp add: receives_def)

lemma advance_eq_iff: "advance n ctx = advance m ctx \<longleftrightarrow> n = m"
  by (cases ctx) (simp add: advance_def)

text \<open>Several values in a row.\<close>

primrec write_list :: "('a \<Rightarrow> ('s, unit) io) \<Rightarrow> 'a list \<Rightarrow> ('s, unit) io" where
  "write_list writer [] = return ()"
| "write_list writer (v # vs) = checked (writer v) (\<lambda>_. write_list writer vs)"

primrec read_list :: "('s, 'b) io \<Rightarrow> nat \<Rightarrow> ('s, 'b list) io" where
  "read_list reader 0 = return []"
| "read_list reader (Suc n) = checked reader (\<lambda>v. checked (read_list reader n) (\<lambda>vs. return (v # vs)))"

text \<open>
  The contract of a pair of a write and a read operation: \<open>enc v\<close> are the bytes of \<open>v\<close>, \<open>dec v\<close> is
  what the reader makes of them, \<open>need v\<close> the free space that makes a write succeed without memory
  from the allocator.
\<close>

locale stream_codec =
  fixes writer :: "'a \<Rightarrow> (out_ctx, unit) io"
    and reader :: "(in_ctx, 'b) io"
    and enc :: "'a \<Rightarrow> byte list"
    and dec :: "'a \<Rightarrow> 'b"
    and need :: "'a \<Rightarrow> nat"
    and ok :: "'a \<Rightarrow> bool"
  assumes write_sends: "ok v \<Longrightarrow> sends (need v) (writer v) (enc v)"
    and read_receives: "ok v \<Longrightarrow> receives reader (enc v) (dec v)"
begin

lemma write_appends:
  assumes "ok v" "wf_out ctx" "writer v ctx = (Inr (), ctx')"
  shows "wf_out ctx'" "written ctx' = written ctx @ enc v"
  using write_sends [OF assms(1), unfolded sends_def, rule_format, OF assms(2,3)] by simp_all

lemma write_succeeds:
  assumes "ok v" "wf_out ctx" "room ctx (int (need v))"
  shows "\<exists>ctx'. writer v ctx = (Inr (), ctx')"
proof -
  obtain r ctx' where w: "writer v ctx = (r, ctx')" by fastforce
  from write_sends [OF assms(1), unfolded sends_def, rule_format, OF assms(2) this] assms(3) w show ?thesis
    by (cases r) simp_all
qed

lemma roundtrip:
  assumes "ok v" "wf_out octx" "writer v octx = (Inr (), octx')"
    and "wf_in ictx" "written octx @ pending ictx = written octx' @ rest"
  shows "reader ictx = (Inr (dec v), advance (length (enc v)) ictx)"
proof -
  have "pending ictx = enc v @ rest" using write_appends [OF assms(1-3)] assms(5) by simp
  with read_receives [OF assms(1)] assms(4) show ?thesis by (rule receivesD)
qed

text \<open>Several values in a row.\<close>

lemma sends_write_list:
  "\<forall>v \<in> set vs. ok v \<Longrightarrow>
    sends (sum_list (map (\<lambda>v. need v + length (enc v)) vs)) (write_list writer vs) (concat (map enc vs))"
proof (induction vs)
  case Nil
  show ?case using sends_return [of "()"] by simp
next
  case (Cons v vs)
  then show ?case
    using sends_seq [OF write_sends [of v], of "sum_list (map (\<lambda>v. need v + length (enc v)) vs)"
        "\<lambda>_. write_list writer vs" "concat (map enc vs)" "sum_list (map (\<lambda>v. need v + length (enc v)) (v # vs))"]
    by simp
qed

lemma receives_read_list:
  "\<forall>v \<in> set vs. ok v \<Longrightarrow> receives (read_list reader (length vs)) (concat (map enc vs)) (map dec vs)"
proof (induction vs)
  case Nil
  show ?case by (simp add: receives_return)
next
  case (Cons v vs)
  then show ?case by (auto intro!: receives_seq [OF read_receives] receives_map)
qed

text \<open>No encoding is a proper prefix of another one with a different meaning.\<close>

lemma uniquely_decodable:
  assumes "ok v" "ok w" "enc v @ xs = enc w @ ys"
  shows "dec v = dec w" "length (enc v) = length (enc w)"
proof -
  define ictx :: in_ctx where "ictx = \<lparr>in_buffer = Some (enc v @ xs), in_buffer_length = int (length (enc v @ xs)),
    in_buffer_limit = 0, current_in_buffer_position = 0\<rparr>"
  have wf: "wf_in ictx" and p: "pending ictx = enc v @ xs"
    by (simp_all only: ictx_def wf_in_def pending_def in_ctx.simps option.case nat_int take_all order_refl nat_0 drop_0)
      (simp_all del: length_append)
  have "reader ictx = (Inr (dec v), advance (length (enc v)) ictx)"
    by (rule receivesD [OF read_receives [OF assms(1)] wf p])
  moreover have "reader ictx = (Inr (dec w), advance (length (enc w)) ictx)"
    by (rule receivesD [OF read_receives [OF assms(2)] wf p [unfolded assms(3)]])
  ultimately show "dec v = dec w" "length (enc v) = length (enc w)" by (simp_all add: advance_eq_iff)
qed

end

lemma short_of_short_bytes:
  "ucast (push_bit 8 (ucast (ucast (signed_drop_bit 8 v) :: byte) :: int32) OR ucast (ucast (v::short16) :: byte)) = v"
proof (rule bit_word_eqI)
  fix i :: nat assume "i < LENGTH(16)"
  then show "bit (ucast (push_bit 8 (ucast (ucast (signed_drop_bit 8 v) :: byte) :: int32) OR
      ucast (ucast v :: byte)) :: short16) i = bit v i"
    by (cases "i < 8") (auto simp: bit_simps)
qed

lemma receives_short_bytes: "receives dx_read_short (short_bytes v) v"
  unfolding short_bytes_def by (rule receives_eq [OF receives_short short_of_short_bytes])

interpretation byte_codec: stream_codec "dx_write_byte mem" dx_read_byte "\<lambda>v. [v]" "\<lambda>v. v" "\<lambda>_. 1" "\<lambda>_. True"
  for mem
  by unfold_locales (simp_all only: sends_byte receives_byte)

interpretation boolean_codec: stream_codec "dx_write_boolean mem" dx_read_boolean "\<lambda>v. [if v \<noteq> 0 then 1 else 0]"
  "\<lambda>v. if v \<noteq> 0 then 1 else 0" "\<lambda>_. 1" "\<lambda>_. True"
  for mem
  by unfold_locales (simp_all only: sends_boolean receives_byte)

interpretation short_codec: stream_codec "dx_write_short mem" dx_read_short short_bytes "\<lambda>v. v" "\<lambda>_. 2" "\<lambda>_. True"
  for mem
  by unfold_locales (simp_all only: sends_short receives_short_bytes)

interpretation int_codec: stream_codec "dx_write_int mem" dx_read_int int_bytes "\<lambda>v. v" "\<lambda>_. 4" "\<lambda>_. True"
  for mem
  by unfold_locales (simp_all only: sends_int receives_int_bytes)

interpretation compact_int_codec: stream_codec "dx_write_compact_int mem" dx_read_compact_int compact_int_bytes
  "\<lambda>v. v" "\<lambda>_. 5" "\<lambda>_. True"
  for mem
  by unfold_locales (simp_all only: sends_compact_int receives_compact_int)

interpretation compact_long_codec: stream_codec "dx_write_compact_long mem" dx_read_compact_long compact_long_bytes
  "\<lambda>v. v" "\<lambda>_. 9" "\<lambda>v. \<not> lost_sign_long v"
  for mem
  by unfold_locales (rule sends_compact_long, erule receives_compact_long)

interpretation utf_char_codec: stream_codec "dx_write_utf_char mem" dx_read_utf_char utf_char_bytes
  "\<lambda>v. v" "\<lambda>_. 4" "\<lambda>v. 0 \<le> sint v \<and> sint v \<le> 0x10FFFF"
  for mem
  by unfold_locales (simp_all only: sends_utf_char receives_utf_char)

interpretation byte_array_codec: stream_codec "\<lambda>b. dx_write_byte_array mem (Some b) (word_of_nat (length b))"
  "dx_read_byte_array (\<lambda>_. True)" "\<lambda>b. byte_array_bytes (Some b)" "\<lambda>b. b" "\<lambda>b. 5 + length b"
  "\<lambda>b. length b \<le> 2 ^ 30"
  for mem
  by unfold_locales (simp_all add: sends_byte_array receives_byte_array)

text \<open>Strings come back in a block with a terminating zero, possibly longer than needed.\<close>

interpretation utf_string_codec: stream_codec "\<lambda>s. dx_write_utf_string mem (Some s)" "dx_read_utf_string (\<lambda>_. True)"
  "\<lambda>s. compact_int_bytes (word_of_nat (length (utf8_bytes s))) @ utf8_bytes s"
  "\<lambda>s. Some (s @ [0] @ replicate (length (utf8_bytes s) - length s) 0)"
  "\<lambda>s. length (utf8_bytes s) + 8" "\<lambda>s. no_pairs s \<and> length (utf8_bytes s) < 2 ^ 31"
  for mem
  by unfold_locales (simp_all only: sends_utf_string receives_utf_string)

lemma length_check_16:
  assumes "length (utf_bytes s) < 0x10000"
  shows "int (length s) \<le> uint (scast (word_of_nat (length (utf_bytes s)) :: short16) :: long64)"
  using assms length_utf_bytes [of s] by (intro short_length_check) simp_all

interpretation utf_codec: stream_codec "dx_write_utf mem" "dx_read_utf (\<lambda>_. True)"
  "\<lambda>s. short_bytes (word_of_nat (length (utf_bytes s))) @ utf_bytes s"
  "\<lambda>s. s @ [0] @ replicate (length (utf_bytes s) - length s) 0"
  "\<lambda>s. length (utf_bytes s) + 4" "\<lambda>s. length (utf_bytes s) < 0x10000"
  for mem
  by unfold_locales (simp_all only: sends_utf [OF length_check_16] receives_utf)

section \<open>Long integers\<close>

definition long_bytes :: "long64 \<Rightarrow> byte list" where
  "long_bytes v =
  [ucast (signed_drop_bit 56 v), ucast (signed_drop_bit 48 v), ucast (signed_drop_bit 40 v),
   ucast (signed_drop_bit 32 v), ucast (signed_drop_bit 24 v), ucast (signed_drop_bit 16 v),
   ucast (signed_drop_bit 8 v), ucast v]"

text \<open>
  What \<open>dx_read_long\<close> makes of the bytes of \<open>v\<close>: the sign of each byte but the last is extended over
  the bytes above it.
\<close>

definition smeared :: "long64 \<Rightarrow> long64" where
  "smeared v = push_bit 56 (scast (ucast (signed_drop_bit 56 v) :: byte))
     OR push_bit 48 (scast (ucast (signed_drop_bit 48 v) :: byte))
     OR push_bit 40 (scast (ucast (signed_drop_bit 40 v) :: byte))
     OR push_bit 32 (scast (ucast (signed_drop_bit 32 v) :: byte))
     OR push_bit 24 (scast (ucast (signed_drop_bit 24 v) :: byte))
     OR push_bit 16 (scast (ucast (signed_drop_bit 16 v) :: byte))
     OR push_bit 8 (scast (ucast (signed_drop_bit 8 v) :: byte))
     OR (scast (ucast v :: byte) AND 0xFF)"

lemma receives_long: "receives dx_read_long (long_bytes v) (smeared v)"
  unfolding dx_read_long_def long_bytes_def smeared_def Let_def
  by (rule receives_validate, (rule receives_get_Cons)+, rule receives_eq [OF receives_return], simp only: or.assoc)
    simp

lemma bit_shifted_byte:
  assumes "k + 8 \<le> 64" "i < 64"
  shows "bit (push_bit k (scast (ucast (signed_drop_bit k (v::long64)) :: byte) :: long64)) i \<longleftrightarrow>
    k \<le> i \<and> bit v (if i < k + 8 then i else k + 7)"
proof (cases "k \<le> i")
  case True
  then obtain j where j: "i = k + j" by (auto simp: le_iff_add)
  have m: "min 7 j < 64 - k" "min 7 j < 8" "\<not> 64 - k \<le> 7" using assms by simp_all
  have "bit (push_bit k (scast (ucast (signed_drop_bit k v) :: byte) :: long64)) i = bit v (k + min 7 j)"
    using assms m unfolding j by (simp add: bit_push_bit_iff bit_signed_iff bit_unsigned_iff bit_signed_drop_bit_iff)
  moreover have "k + min 7 j = (if i < k + 8 then i else k + 7)" by (simp add: j min_def)
  ultimately show ?thesis using True by simp
qed (simp add: bit_push_bit_iff)

lemma bit_last_byte: "bit (scast (ucast (v::long64) :: byte) AND (0xFF :: long64)) i \<longleftrightarrow> i < 8 \<and> bit v i"
proof -
  have m: "(0xFF :: long64) = mask 8" by (simp add: mask_eq_exp_minus_1)
  show ?thesis
  proof (cases "i < 8")
    case True
    then have "min 7 i = i" by simp
    with True show ?thesis unfolding m by (simp add: bit_and_iff bit_mask_iff bit_signed_iff bit_unsigned_iff)
  qed (simp add: m bit_and_iff bit_mask_iff)
qed

lemma bit_smeared:
  assumes i: "i < 64"
  shows "bit (smeared v) i \<longleftrightarrow> bit v i \<or> (\<exists>j \<in> {15, 23, 31, 39, 47, 55}. j < i \<and> bit v j)"
proof -
  have s: "bit (smeared v) i \<longleftrightarrow>
      (56 \<le> i \<and> bit v (if i < 64 then i else 63)) \<or> (48 \<le> i \<and> bit v (if i < 56 then i else 55)) \<or>
      (40 \<le> i \<and> bit v (if i < 48 then i else 47)) \<or> (32 \<le> i \<and> bit v (if i < 40 then i else 39)) \<or>
      (24 \<le> i \<and> bit v (if i < 32 then i else 31)) \<or> (16 \<le> i \<and> bit v (if i < 24 then i else 23)) \<or>
      (8 \<le> i \<and> bit v (if i < 16 then i else 15)) \<or> (i < 8 \<and> bit v i)"
    unfolding smeared_def bit_or_iff bit_last_byte using bit_shifted_byte [OF _ i, of 56 v]
      bit_shifted_byte [OF _ i, of 48 v] bit_shifted_byte [OF _ i, of 40 v] bit_shifted_byte [OF _ i, of 32 v]
      bit_shifted_byte [OF _ i, of 24 v] bit_shifted_byte [OF _ i, of 16 v] bit_shifted_byte [OF _ i, of 8 v]
    by (simp only: numeral_plus_numeral Num.arith_simps order_refl num.simps Num.le_numeral_simps if_True disj_assoc HOL.simp_thms) simp
  consider "i < 8" | "8 \<le> i" "i < 16" | "16 \<le> i" "i < 24" | "24 \<le> i" "i < 32" | "32 \<le> i" "i < 40"
    | "40 \<le> i" "i < 48" | "48 \<le> i" "i < 56" | "56 \<le> i" using i by linarith
  then show ?thesis unfolding s by cases (use i in auto)
qed

section \<open>Properties of the stream operations\<close>

text \<open>A fresh output buffer of \<open>n\<close> bytes and an input buffer that holds \<open>bs\<close>.\<close>

definition new_out :: "nat \<Rightarrow> out_ctx" where
  "new_out n = \<lparr>out_buffer = Some (replicate n 0), out_buffer_length = int n, current_out_buffer_position = 0\<rparr>"

definition new_in :: "byte list \<Rightarrow> in_ctx" where
  "new_in bs = \<lparr>in_buffer = Some bs, in_buffer_length = int (length bs), in_buffer_limit = int (length bs),
     current_in_buffer_position = 0\<rparr>"

lemma wf_new [simp]: "n \<le> nat INT_MAX \<Longrightarrow> wf_out (new_out n)" "wf_in (new_in bs)"
  by (simp_all add: new_out_def new_in_def wf_out_def wf_in_def)

lemma new_content [simp]: "written (new_out n) = []" "pending (new_in bs) = bs"
  by (simp_all add: new_out_def new_in_def written_def pending_def)

text \<open>
  C23: an integer that \<open>dx_write_compact_int\<close> has written is read back unchanged by
  \<open>dx_read_compact_int\<close>, whatever was written before and follows, for all 32-bit values.
\<close>

theorem compact_int_roundtrip:
  assumes "wf_out octx" "dx_write_compact_int mem v octx = (Inr (), octx')"
    and "wf_in ictx" "written octx @ pending ictx = written octx' @ rest"
  shows "dx_read_compact_int ictx = (Inr v, advance (length (compact_int_bytes v)) ictx)"
  by (rule compact_int_codec.roundtrip [OF TrueI assms])

theorem compact_int_roundtrip_witness:
  "dx_read_compact_int (new_in [0x81, 0x2C, 7]) = (Inr 300, advance 2 (new_in [0x81, 0x2C, 7]))"
proof -
  have "dx_write_compact_int (\<lambda>_. True) 300 (new_out 8) =
      (Inr (), snd (dx_write_compact_int (\<lambda>_. True) 300 (new_out 8)))"
    and w: "written (snd (dx_write_compact_int (\<lambda>_. True) 300 (new_out 8))) = [0x81, 0x2C]"
    and l: "length (compact_int_bytes 300) = 2"
    by code_simp+
  from compact_int_roundtrip [OF _ this(1), of "new_in [0x81, 0x2C, 7]" "[7]"] w l show ?thesis by simp
qed

text \<open>
  what \<open>dx_read_compact_long\<close> makes of a number written by \<open>dx_write_compact_long\<close>: the same
  number, except that the negative numbers of the two-byte format, from -8192 to -65, come back
  16384 too large, because that branch shifts an unsigned value.
\<close>

theorem compact_long_roundtrip:
  assumes "wf_out octx" "dx_write_compact_long mem v octx = (Inr (), octx')"
    and "wf_in ictx" "written octx @ pending ictx = written octx' @ rest"
  shows "dx_read_compact_long ictx =
    (Inr (if - 0x2000 \<le> sint v \<and> sint v < - 0x40 then v + 0x4000 else v),
     advance (length (compact_long_bytes v)) ictx)"
proof -
  have "written octx' = written octx @ compact_long_bytes v"
    using sends_compact_long [of mem v, unfolded sends_def, rule_format, OF assms(1,2)] by simp
  with assms(4) have "pending ictx = compact_long_bytes v @ rest" by simp
  from receivesD [OF receives_compact_long_all assms(3) this] show ?thesis
    by (simp only: lost_sign_long_def)
qed

theorem compact_long_roundtrip_witness:
  "dx_read_compact_long (new_in [0xBF, 0x9C]) = (Inr 16284, advance 2 (new_in [0xBF, 0x9C]))"
proof -
  have "dx_write_compact_long (\<lambda>_. True) (- 100) (new_out 16) =
      (Inr (), snd (dx_write_compact_long (\<lambda>_. True) (- 100) (new_out 16)))"
    and w: "written (snd (dx_write_compact_long (\<lambda>_. True) (- 100) (new_out 16))) = [0xBF, 0x9C]"
    and l: "length (compact_long_bytes (- 100)) = 2"
    by code_simp+
  from compact_long_roundtrip [OF _ this(1), of "new_in [0xBF, 0x9C]" "[]"] w l show ?thesis by simp
qed

text \<open>
  \<open>dx_get_compact_size\<close> is the number of bytes that \<open>dx_write_compact_long\<close> appends.
\<close>

theorem compact_size_written:
  assumes "wf_out ctx" "dx_write_compact_long mem v ctx = (Inr (), ctx')"
  shows "current_out_buffer_position ctx' = current_out_buffer_position ctx + int (dx_get_compact_size v)"
proof -
  have "wf_out ctx'" "written ctx' = written ctx @ compact_long_bytes v"
    using sends_compact_long [of mem v, unfolded sends_def, rule_format, OF assms] by simp_all
  then show ?thesis
    using assms(1) by (simp add: position_written compact_size_length)
qed

theorem compact_size_written_witness:
  "current_out_buffer_position (snd (dx_write_compact_long (\<lambda>_. True) 100000000000 (new_out 16))) = 6"
proof -
  have "dx_write_compact_long (\<lambda>_. True) 100000000000 (new_out 16) =
      (Inr (), snd (dx_write_compact_long (\<lambda>_. True) 100000000000 (new_out 16)))"
    and s: "dx_get_compact_size 100000000000 = 6"
    by code_simp+
  moreover have "current_out_buffer_position (new_out 16) = 0" by (simp add: new_out_def)
  ultimately show ?thesis using compact_size_written [of "new_out 16"] by simp
qed

text \<open>
  a call of \<open>dx_write_compact_long\<close> that fails has run out of memory or of the
  \<open>INT_MAX\<close> limit: it happens only when fewer than nine bytes are free, what was written before is
  kept, and no memory outside the buffer is accessed.
\<close>

theorem compact_long_failure:
  assumes "wf_out ctx" "dx_write_compact_long mem v ctx = (Inl e, ctx')"
  shows "e \<in> {dx_mec_insufficient_memory, dx_bioec_buffer_overflow} \<and> wf_out ctx' \<and>
    out_buffer_length ctx < current_out_buffer_position ctx + 9 \<and> (\<exists>p. written ctx' = written ctx @ p)"
  using sends_compact_long [of mem v, unfolded sends_def, rule_format, OF assms]
  by (auto simp: room_def IS_CUR_CAPACITY_ENOUGH_def)

theorem compact_long_failure_witness:
  "\<exists>p. written (snd (dx_write_compact_long (\<lambda>_. False) 300 (new_out 4))) = written (new_out 4) @ p"
proof -
  have "dx_write_compact_long (\<lambda>_. False) 300 (new_out 4) =
      (Inl dx_mec_insufficient_memory, snd (dx_write_compact_long (\<lambda>_. False) 300 (new_out 4)))"
    by code_simp
  from compact_long_failure [OF _ this] show ?thesis by simp
qed

text \<open>every Unicode code point survives \<open>dx_write_utf_char\<close> and \<open>dx_read_utf_char\<close>.\<close>

theorem utf_char_roundtrip:
  assumes "0 \<le> sint v" "sint v \<le> 0x10FFFF"
    and "wf_out octx" "dx_write_utf_char mem v octx = (Inr (), octx')"
    and "wf_in ictx" "written octx @ pending ictx = written octx' @ rest"
  shows "dx_read_utf_char ictx = (Inr v, advance (length (utf_char_bytes v)) ictx)"
  by (rule utf_char_codec.roundtrip [OF conjI [OF assms(1,2)] assms(3-6)])

theorem utf_char_roundtrip_witness:
  "dx_read_utf_char (new_in [0xF0, 0x9F, 0x98, 0x80]) = (Inr 0x1F600, advance 4 (new_in [0xF0, 0x9F, 0x98, 0x80]))"
proof -
  have "dx_write_utf_char (\<lambda>_. True) 0x1F600 (new_out 8) =
      (Inr (), snd (dx_write_utf_char (\<lambda>_. True) 0x1F600 (new_out 8)))"
    and w: "written (snd (dx_write_utf_char (\<lambda>_. True) 0x1F600 (new_out 8))) = [0xF0, 0x9F, 0x98, 0x80]"
    and l: "length (utf_char_bytes 0x1F600) = 4"
    by code_simp+
  from utf_char_roundtrip [OF _ _ _ this(1), of "new_in [0xF0, 0x9F, 0x98, 0x80]" "[]"] w l show ?thesis by simp
qed

text \<open>
  a byte array of up to 2^30 bytes survives \<open>dx_write_byte_array\<close> and \<open>dx_read_byte_array\<close>.
\<close>

theorem byte_array_roundtrip:
  assumes "length b \<le> 2 ^ 30"
    and "wf_out octx" "dx_write_byte_array mem (Some b) (word_of_nat (length b)) octx = (Inr (), octx')"
    and "wf_in ictx" "written octx @ pending ictx = written octx' @ rest"
  shows "dx_read_byte_array (\<lambda>_. True) ictx =
    (Inr b, advance (length (byte_array_bytes (Some b))) ictx)"
  by (rule byte_array_codec.roundtrip [OF assms])

theorem byte_array_roundtrip_witness:
  "dx_read_byte_array (\<lambda>_. True) (new_in [3, 7, 8, 9, 5]) = (Inr [7, 8, 9], advance 4 (new_in [3, 7, 8, 9, 5]))"
proof -
  have "dx_write_byte_array (\<lambda>_. True) (Some [7, 8, 9]) (word_of_nat (length [7::byte, 8, 9])) (new_out 1) =
      (Inr (), snd (dx_write_byte_array (\<lambda>_. True) (Some [7, 8, 9]) (word_of_nat (length [7::byte, 8, 9])) (new_out 1)))"
    and w: "written (snd (dx_write_byte_array (\<lambda>_. True) (Some [7, 8, 9]) (word_of_nat (length [7::byte, 8, 9])) (new_out 1))) = [3, 7, 8, 9]"
    and l: "length (byte_array_bytes (Some [7, 8, 9])) = 4"
    by code_simp+
  from byte_array_roundtrip [OF _ _ this(1), of "new_in [3, 7, 8, 9, 5]" "[5]"] w l show ?thesis by simp
qed

text \<open>
  C32: a string without surrogate pairs survives \<open>dx_write_utf_string\<close> and \<open>dx_read_utf_string\<close>: the
  reader delivers a block that starts with the string and a terminating zero.
\<close>

theorem utf_string_roundtrip:
  assumes "no_pairs s \<and> length (utf8_bytes s) < 2 ^ 31"
    and "wf_out octx" "dx_write_utf_string mem (Some s) octx = (Inr (), octx')"
    and "wf_in ictx" "written octx @ pending ictx = written octx' @ rest"
  shows "\<exists>n. dx_read_utf_string (\<lambda>_. True) ictx =
    (Inr (Some (s @ [0] @ replicate n 0)), advance (length (written octx') - length (written octx)) ictx)"
  using utf_string_codec.roundtrip [OF assms] utf_string_codec.write_appends(2) [OF assms(1-3)] by auto

theorem utf_string_roundtrip_witness:
  "\<exists>n. dx_read_utf_string (\<lambda>_. True) (new_in [3, 0x41, 0xC3, 0xA9]) =
    (Inr (Some ([0x41, 0xE9] @ [0] @ replicate n 0)), advance 4 (new_in [3, 0x41, 0xC3, 0xA9]))"
proof -
  have l: "no_pairs [0x41, 0xE9]" "length (utf8_bytes [0x41, 0xE9]) = 3"
    and w0: "dx_write_utf_string (\<lambda>_. True) (Some [0x41, 0xE9]) (new_out 16) =
      (Inr (), snd (dx_write_utf_string (\<lambda>_. True) (Some [0x41, 0xE9]) (new_out 16)))"
    and w: "written (snd (dx_write_utf_string (\<lambda>_. True) (Some [0x41, 0xE9]) (new_out 16))) = [3, 0x41, 0xC3, 0xA9]"
    by code_simp+
  from l have ok: "no_pairs [0x41, 0xE9] \<and> length (utf8_bytes [0x41, 0xE9]) < 2 ^ 31" by simp
  from utf_string_roundtrip [OF ok _ w0, of "new_in [3, 0x41, 0xC3, 0xA9]" "[]"] w show ?thesis
    by (simp flip: numeral_3_eq_3)
qed

text \<open>
  a string whose modified UTF-8 form has at most 65535 bytes survives \<open>dx_write_utf\<close> and
  \<open>dx_read_utf\<close>, zero characters and surrogates included.
\<close>

theorem utf_roundtrip:
  assumes "length (utf_bytes s) < 0x10000"
    and "wf_out octx" "dx_write_utf mem s octx = (Inr (), octx')"
    and "wf_in ictx" "written octx @ pending ictx = written octx' @ rest"
  shows "\<exists>n. dx_read_utf (\<lambda>_. True) ictx =
    (Inr (s @ [0] @ replicate n 0), advance (length (written octx') - length (written octx)) ictx)"
  using utf_codec.roundtrip [OF assms] utf_codec.write_appends(2) [OF assms(1-3)] by auto

theorem utf_roundtrip_witness:
  "\<exists>n. dx_read_utf (\<lambda>_. True) (new_in [0, 3, 0xC0, 0x80, 0x41]) =
    (Inr ([0, 0x41] @ [0] @ replicate n 0), advance 5 (new_in [0, 3, 0xC0, 0x80, 0x41]))"
proof -
  have l: "length (utf_bytes [0, 0x41]) = 3"
    and w0: "dx_write_utf (\<lambda>_. True) [0, 0x41] (new_out 16) =
      (Inr (), snd (dx_write_utf (\<lambda>_. True) [0, 0x41] (new_out 16)))"
    and w: "written (snd (dx_write_utf (\<lambda>_. True) [0, 0x41] (new_out 16))) = [0, 3, 0xC0, 0x80, 0x41]"
    by code_simp+
  from l have ok: "length (utf_bytes [0, 0x41]) < 0x10000" by simp
  from utf_roundtrip [OF ok _ w0, of "new_in [0, 3, 0xC0, 0x80, 0x41]" "[]"] w show ?thesis
    by (simp flip: numeral_3_eq_3)
qed

text \<open>
  \<open>dx_write_utf\<close> does not reject every string that is too long: when the length modulo 65536 is at
  least 32768 it writes the whole string behind the wrapped length.
\<close>

theorem utf_overlong_written:
  assumes "0x10000 \<le> length (utf_bytes s)" "0x8000 \<le> length (utf_bytes s) mod 0x10000" "length s < 2 ^ 48"
    and "wf_out ctx" "dx_write_utf mem s ctx = (r, ctx')"
  shows "(\<exists>e. r = Inl e \<and> e \<in> {dx_mec_insufficient_memory, dx_bioec_buffer_overflow}) \<or>
    (r = Inr () \<and> written ctx' =
       written ctx @ short_bytes (word_of_nat (length (utf_bytes s) mod 0x10000)) @ utf_bytes s)"
proof -
  have "int (length s) \<le> uint (scast (word_of_nat (length (utf_bytes s)) :: short16) :: long64)"
    using assms(2,3) length_utf_bytes [of s] by (intro short_length_check) simp_all
  note s = sends_utf [OF this, of mem, unfolded sends_def, rule_format, OF assms(4,5)]
  have "(word_of_nat (length (utf_bytes s)) :: short16) = word_of_nat (length (utf_bytes s) mod 0x10000)"
    by (simp add: word_uint_eq_iff uint_nat unat_of_nat)
  with s show ?thesis by (auto split: sum.splits)
qed

lemma length_utf_bytes_replicate: "length (utf_bytes (replicate n 0x800)) = 3 * n"
  by (induction n) (simp_all add: utf_unit_bytes_def)

theorem utf_overlong_written_witness:
  "case dx_write_utf (\<lambda>_. True) (replicate 32768 0x800) (new_out 16) of (r, ctx') \<Rightarrow>
    (\<exists>e. r = Inl e \<and> e \<in> {dx_mec_insufficient_memory, dx_bioec_buffer_overflow}) \<or>
    (r = Inr () \<and> written ctx' = short_bytes (word_of_nat 32768) @ utf_bytes (replicate 32768 0x800))"
proof -
  let ?s = "replicate 32768 (0x800 :: dxf_char)"
  have l: "length (utf_bytes ?s) = 98304" unfolding length_utf_bytes_replicate by simp
  obtain r ctx' where w: "dx_write_utf (\<lambda>_. True) ?s (new_out 16) = (r, ctx')" by fastforce
  from utf_overlong_written [OF _ _ _ _ w] l show ?thesis by (simp add: w)
qed



text \<open>
  \<open>dx_read_utf_char_array\<close> is one of the two: a length of three characters, the first of four bytes, makes it
  store the terminating zero behind its block of four.
\<close>

theorem utf_char_array_overflow:
  "fst (dx_read_utf_char_array (\<lambda>_. True) (new_in [3, 0xF0, 0x90, 0x80, 0x80, 0x61, 0x62])) = Inl UB"
  by code_simp

text \<open>
  \<open>dx_read_line\<close> delivers a line of less than 128 characters and consumes its line feed; a line
  of exactly 128 characters makes it store the terminating zero behind its buffer.
\<close>

theorem read_line_short:
  assumes "wf_in ctx" "pending ctx = bs @ 10 # rest" "10 \<notin> set bs" "13 \<notin> set bs" "length bs \<le> 128" "mem 128"
  shows "if length bs < 128
    then \<exists>n. dx_read_line mem ctx = (Inr (map ucast bs @ [0] @ replicate n 0), advance (length bs + 1) ctx)
    else fst (dx_read_line mem ctx) = Inl UB"
proof -
  have "\<forall>b \<in> set bs. plain_char b" using assms(3,4) by (auto simp: plain_char_def)
  from read_line_spec [where bs = bs and rest = rest and mem = mem, OF assms(1,2) this assms(5,6)] show ?thesis by auto
qed

theorem read_line_short_witness:
  "\<exists>n. dx_read_line (\<lambda>_. True) (new_in [0x41, 0x42, 10, 0x43]) =
    (Inr ([0x41, 0x42] @ [0] @ replicate n 0), advance 3 (new_in [0x41, 0x42, 10, 0x43]))"
  using read_line_short [of "new_in [0x41, 0x42, 10, 0x43]" "[0x41, 0x42]" "[0x43]" "\<lambda>_. True"]
  by (simp flip: numeral_3_eq_3)

text \<open>
  what \<open>dx_read_long\<close> makes of a number written by \<open>dx_write_long\<close>: it also sets every bit above
  the sign bit of each of the bytes two to seven, so most numbers come back changed.
\<close>

theorem long_roundtrip:
  assumes "wf_out octx" "dx_write_long mem v octx = (Inr (), octx')"
    and "wf_in ictx" "written octx @ pending ictx = written octx' @ rest"
  shows "\<exists>w. dx_read_long ictx = (Inr w, advance 8 ictx) \<and>
    (\<forall>i < 64. bit w i \<longleftrightarrow> bit v i \<or> (\<exists>j \<in> {15, 23, 31, 39, 47, 55}. j < i \<and> bit v j))"
proof -
  have "written octx' = written octx @ long_bytes v"
    using sends_long [of mem v, unfolded sends_def, rule_format, OF assms(1,2)] by (simp add: long_bytes_def)
  with assms(4) have "pending ictx = long_bytes v @ rest" by simp
  moreover have "length (long_bytes v) = 8" by (simp add: long_bytes_def)
  ultimately have "dx_read_long ictx = (Inr (smeared v), advance 8 ictx)"
    using receivesD [OF receives_long assms(3), of v rest] by simp
  with bit_smeared [of _ v] show ?thesis by blast
qed

theorem long_roundtrip_witness:
  "\<exists>w. dx_read_long (new_in [0, 0, 0, 0, 0, 0, 0x80, 0]) = (Inr w, advance 8 (new_in [0, 0, 0, 0, 0, 0, 0x80, 0])) \<and>
    bit w 40 \<and> \<not> bit (0x8000 :: long64) 40"
proof -
  have w0: "dx_write_long (\<lambda>_. True) 0x8000 (new_out 8) =
      (Inr (), snd (dx_write_long (\<lambda>_. True) 0x8000 (new_out 8)))"
    and w: "written (snd (dx_write_long (\<lambda>_. True) 0x8000 (new_out 8))) = [0, 0, 0, 0, 0, 0, 0x80, 0]"
    and b: "bit (0x8000 :: long64) 15" "\<not> bit (0x8000 :: long64) 40"
    by code_simp+
  from long_roundtrip [OF _ w0, of "new_in [0, 0, 0, 0, 0, 0, 0x80, 0]" "[]"] w obtain r where
    r: "dx_read_long (new_in [0, 0, 0, 0, 0, 0, 0x80, 0]) = (Inr r, advance 8 (new_in [0, 0, 0, 0, 0, 0, 0x80, 0]))"
      "\<forall>i < 64. bit r i \<longleftrightarrow> bit (0x8000 :: long64) i \<or> (\<exists>j \<in> {15, 23, 31, 39, 47, 55}. j < i \<and> bit (0x8000 :: long64) j)"
    by auto
  have "bit r 40" using r(2) [rule_format, of 40] b(1) by simp
  with r(1) b(2) show ?thesis by blast
qed

end
