(* ===== verification/Dx_Symbol_Codec.thy ===== *)
theory Dx_Symbol_Codec
  imports Dx_Codec
begin

text \<open>
  \<open>src/SymbolCodec.c\<close>, symbol names: the tables of pentas, the ciphers and the codec between names
  and ciphers.

  The tables are functions over the indices 0 to 127 and 0 to 1023, computed as \<open>dx_init_symbol_codec\<close>
  does.  Lengths in bits are natural numbers, the penta itself is the 64-bit word of the code, a cipher a
  32-bit one.  \<open>mem n\<close>: an allocation of \<open>n\<close> characters succeeds.
\<close>

section \<open>The penta tables\<close>

text \<open>The arrays as functions; all indices stay below 128 and 1024.\<close>

record penta_tables =
  g_pentas :: "nat \<Rightarrow> nat"
  g_penta_lengths :: "nat \<Rightarrow> nat"
  g_penta_characters :: "nat \<Rightarrow> dxf_char"

definition dx_init_penta :: "nat \<Rightarrow> nat \<Rightarrow> nat \<Rightarrow> penta_tables \<Rightarrow> penta_tables" where
  "dx_init_penta c penta penta_length tabs = tabs\<lparr>
     g_penta_characters := (g_penta_characters tabs)(penta := of_nat c),
     g_pentas := (g_pentas tabs)(c := penta),
     g_penta_lengths := (g_penta_lengths tabs)(c := penta_length)\<rparr>"

text \<open>The loop over the printable characters, which gives the next penta to each one that has none.\<close>

fun init_others :: "nat list \<Rightarrow> nat \<Rightarrow> penta_tables \<Rightarrow> penta_tables \<times> nat" where
  "init_others [] penta tabs = (tabs, penta)"
| "init_others (i # is) penta tabs =
     (if g_pentas tabs i = 0 \<and> i \<noteq> 39 \<and> i \<noteq> 96
      then init_others is (penta + 1) (dx_init_penta i penta 10 tabs)
      else init_others is penta tabs)"

definition dx_init_symbol_codec :: "penta_tables \<times> bool" where
  "dx_init_symbol_codec =
     (let tabs = \<lparr>g_pentas = (\<lambda>_. 0), g_penta_lengths = (\<lambda>_. 64), g_penta_characters = (\<lambda>_. 0)\<rparr>;
          tabs = fold (\<lambda>i. dx_init_penta i (i - 65 + 1) 5) [65..<91] tabs;
          tabs = dx_init_penta 46 27 5 tabs;
          tabs = dx_init_penta 47 28 5 tabs;
          tabs = dx_init_penta 36 29 5 tabs;
          (tabs, penta) = init_others [32..<127] 0x03C0 tabs
      in (tabs, penta = 0x0400))"

definition codec :: penta_tables where
  "codec = fst dx_init_symbol_codec"

section \<open>Pentas and ciphers\<close>

definition dx_encode_penta :: "long64 \<Rightarrow> nat \<Rightarrow> int32" where
  "dx_encode_penta penta penta_length =
     (if penta_length \<le> 30 then ucast penta + 0x40000000
      else
        let c = (ucast (drop_bit 30 penta) :: int32) in
        if c = of_nat (g_pentas codec 47) then (ucast penta AND 0x3FFFFFFF) + 0x80000000
        else if c = of_nat (g_pentas codec 36) then (ucast penta AND 0x3FFFFFFF) + 0xC0000000
        else 0)"

text \<open>
  The smallest multiple of five bits that holds the penta.  Shifts by 64 or more, undefined in C, do
  not occur for valid pentas of at most 35 bits.
\<close>

function penta_bits :: "long64 \<Rightarrow> nat \<Rightarrow> nat" where
  "penta_bits penta len = (if len < 64 \<and> drop_bit len penta \<noteq> 0 then penta_bits penta (len + 5) else len)"
  by pat_completeness auto
termination by (relation "measure (\<lambda>(_, len). 64 - len)") auto

declare penta_bits.simps [simp del]

function penta_chars :: "long64 \<Rightarrow> nat \<Rightarrow> dxf_char list" where
  "penta_chars penta len =
     (if len < 5 then []
      else
        let len1 = len - 5; code = unat (drop_bit len1 penta AND 0x1F) in
        if code \<ge> 30 \<and> len1 \<ge> 5 then
          let len2 = len1 - 5 in g_penta_characters codec (unat (drop_bit len2 penta AND 0x3FF)) # penta_chars penta len2
        else g_penta_characters codec code # penta_chars penta len1)"
  by pat_completeness auto
termination by (relation "measure snd") auto

declare penta_chars.simps [simp del]

definition dx_penta_to_string :: "(nat \<Rightarrow> bool) \<Rightarrow> long64 \<Rightarrow> dxf_char list option" where
  "dx_penta_to_string mem penta =
     (let penta_length = penta_bits penta 0 in
      if \<not> mem (penta_length div 5 + 1) then None else Some (penta_chars penta penta_length))"

definition dx_decode_cipher :: "int32 \<Rightarrow> dx_error + long64" where
  "dx_decode_cipher cipher =
     (let top = drop_bit 30 cipher in
      if top = 0 then Inl dx_ec_invalid_func_param_internal
      else if top = 1 then Inr (ucast (cipher AND 0x3FFFFFFF))
      else if top = 2 then Inr (push_bit 30 (of_nat (g_pentas codec 47)) + ucast (cipher AND 0x3FFFFFFF))
      else Inr (push_bit 30 (of_nat (g_pentas codec 36)) + ucast (cipher AND 0x3FFFFFFF)))"

definition dx_get_codec_valid_cipher :: int32 where
  "dx_get_codec_valid_cipher = 0xC0000000"

text \<open>
  The loop over the characters.  A character without a penta has length 64; whatever its shift by 64
  gives, the total is then above 35 and the answer 0.
\<close>

fun encode_chars :: "dxf_char list \<Rightarrow> long64 \<Rightarrow> nat \<Rightarrow> (long64 \<times> nat) option" where
  "encode_chars [] penta penta_length = Some (penta, penta_length)"
| "encode_chars (c # cs) penta penta_length =
     (if c \<ge> 128 then None
      else
        let l = g_penta_lengths codec (unat c) in
        encode_chars cs (push_bit l penta + of_nat (g_pentas codec (unat c))) (penta_length + l))"

definition dx_encode_symbol_name :: "dxf_char list option \<Rightarrow> int32" where
  "dx_encode_symbol_name symbol =
     (case symbol of
        None \<Rightarrow> 0
      | Some s \<Rightarrow>
          if length s > 7 then 0
          else case encode_chars s 0 0 of
            None \<Rightarrow> 0
          | Some (penta, penta_length) \<Rightarrow> if penta_length > 35 then 0 else dx_encode_penta penta penta_length)"

definition g_wildcard_cipher :: int32 where
  "g_wildcard_cipher = dx_encode_symbol_name (Some [42])"

definition dx_decode_symbol_name :: "(nat \<Rightarrow> bool) \<Rightarrow> int32 \<Rightarrow> dx_error + dxf_char list option" where
  "dx_decode_symbol_name mem cipher =
     (if cipher = 0 then Inr None
      else case dx_decode_cipher cipher of
        Inl e \<Rightarrow> Inl e
      | Inr penta \<Rightarrow>
          (case dx_penta_to_string mem penta of
             None \<Rightarrow> Inl dx_mec_insufficient_memory
           | Some str \<Rightarrow> Inr (Some str)))"

section \<open>The content of the tables\<close>

lemma init_others_spec:
  assumes "distinct is" "init_others is penta tabs = (tabs', penta')"
    and "es = filter (\<lambda>i. g_pentas tabs i = 0 \<and> i \<noteq> 39 \<and> i \<noteq> 96) is" "0 < penta"
  shows "penta' = penta + length es
    \<and> (\<forall>k < length es. g_pentas tabs' (es ! k) = penta + k \<and> g_penta_lengths tabs' (es ! k) = 10
        \<and> g_penta_characters tabs' (penta + k) = of_nat (es ! k))
    \<and> (\<forall>c. c \<notin> set es \<longrightarrow> g_pentas tabs' c = g_pentas tabs c \<and> g_penta_lengths tabs' c = g_penta_lengths tabs c)
    \<and> (\<forall>p < penta. g_penta_characters tabs' p = g_penta_characters tabs p)"
  using assms
proof (induction "is" arbitrary: penta tabs es)
  case (Cons i "is")
  let ?ok = "\<lambda>t i. g_pentas t i = 0 \<and> i \<noteq> 39 \<and> i \<noteq> 96"
  show ?case
  proof (cases "?ok tabs i")
    case False
    then have "init_others is penta tabs = (tabs', penta')" "es = filter (?ok tabs) is"
      using Cons.prems(2,3) by auto
    then show ?thesis using Cons.IH [of penta tabs es] Cons.prems(1,4) by simp
  next
    case True
    let ?t = "dx_init_penta i penta 10 tabs"
    have "filter (?ok ?t) is = filter (?ok tabs) is"
      using Cons.prems(1) by (intro filter_cong) (auto simp: dx_init_penta_def)
    then have es: "es = i # filter (?ok ?t) is" using Cons.prems(3) True by simp
    have rec: "init_others is (penta + 1) ?t = (tabs', penta')" using Cons.prems(2) True by simp
    have i: "i \<notin> set (filter (?ok ?t) is)" using Cons.prems(1) by simp
    have d: "distinct is" "0 < penta + 1" using Cons.prems(1) by simp_all
    define e' where "e' = filter (?ok ?t) is"
    have t: "g_pentas ?t c = (if c = i then penta else g_pentas tabs c)"
      "g_penta_lengths ?t c = (if c = i then 10 else g_penta_lengths tabs c)"
      "g_penta_characters ?t q = (if q = penta then of_nat i else g_penta_characters tabs q)" for c q
      by (simp_all add: dx_init_penta_def)
    have ih: "penta' = penta + 1 + length e'"
      "\<forall>k < length e'. g_pentas tabs' (e' ! k) = penta + 1 + k \<and> g_penta_lengths tabs' (e' ! k) = 10
        \<and> g_penta_characters tabs' (penta + 1 + k) = of_nat (e' ! k)"
      "\<forall>c. c \<notin> set e' \<longrightarrow> g_pentas tabs' c = g_pentas ?t c \<and> g_penta_lengths tabs' c = g_penta_lengths ?t c"
      "\<forall>q < penta + 1. g_penta_characters tabs' q = g_penta_characters ?t q"
      using Cons.IH [OF d(1) rec e'_def d(2)] by blast+
    have "g_pentas tabs' ((i # e') ! k) = penta + k \<and> g_penta_lengths tabs' ((i # e') ! k) = 10
        \<and> g_penta_characters tabs' (penta + k) = of_nat ((i # e') ! k)" if "k < length (i # e')" for k
    proof (cases k)
      case 0
      then show ?thesis using ih(3) [rule_format, of i] ih(4) [rule_format, of penta] i t by (simp add: e'_def)
    next
      case (Suc j)
      then show ?thesis using ih(2) [rule_format, of j] that by simp
    qed
    moreover have "g_pentas tabs' c = g_pentas tabs c \<and> g_penta_lengths tabs' c = g_penta_lengths tabs c"
      if "c \<notin> set (i # e')" for c
      using ih(3) [rule_format, of c] that t by simp
    moreover have "g_penta_characters tabs' q = g_penta_characters tabs q" if "q < penta" for q
      using ih(4) [rule_format, of q] that t by simp
    ultimately show ?thesis unfolding es e'_def [symmetric] using ih(1) by simp
  qed
qed simp

text \<open>The tables before the loop over the other characters.\<close>

definition letter_tables :: penta_tables where
  "letter_tables = dx_init_penta 36 29 5 (dx_init_penta 47 28 5 (dx_init_penta 46 27 5
     (fold (\<lambda>i. dx_init_penta i (i - 65 + 1) 5) [65..<91]
       \<lparr>g_pentas = (\<lambda>_. 0), g_penta_lengths = (\<lambda>_. 64), g_penta_characters = (\<lambda>_. 0)\<rparr>)))"

lemma fold_letters:
  "65 \<le> n \<Longrightarrow> fold (\<lambda>i. dx_init_penta i (i - 65 + 1) 5) [65..<n]
       \<lparr>g_pentas = (\<lambda>_. 0), g_penta_lengths = (\<lambda>_. 64), g_penta_characters = (\<lambda>_. 0)\<rparr> =
     \<lparr>g_pentas = (\<lambda>c. if 65 \<le> c \<and> c < n then c - 64 else 0),
      g_penta_lengths = (\<lambda>c. if 65 \<le> c \<and> c < n then 5 else 64),
      g_penta_characters = (\<lambda>p. if 1 \<le> p \<and> p < n - 64 then of_nat (p + 64) else 0)\<rparr>"
proof (induction n rule: nat_induct_at_least)
  case base
  show ?case by (simp add: fun_eq_iff)
next
  case (Suc n)
  then show ?case by (auto simp: dx_init_penta_def fun_eq_iff less_Suc_eq)
qed

lemma letter_tables_simps:
  "g_pentas letter_tables c = (if 65 \<le> c \<and> c < 91 then c - 64 else if c = 46 then 27 else if c = 47 then 28
     else if c = 36 then 29 else 0)"
  "g_penta_lengths letter_tables c = (if 65 \<le> c \<and> c < 91 \<or> c = 46 \<or> c = 47 \<or> c = 36 then 5 else 64)"
  "g_penta_characters letter_tables p = (if p = 29 then 36 else if p = 28 then 47 else if p = 27 then 46
     else if 1 \<le> p \<and> p < 27 then of_nat (p + 64) else 0)"
proof -
  have n: "65 \<le> (91 :: nat)" by simp
  show "g_pentas letter_tables c = (if 65 \<le> c \<and> c < 91 then c - 64 else if c = 46 then 27 else if c = 47 then 28
     else if c = 36 then 29 else 0)"
    "g_penta_lengths letter_tables c = (if 65 \<le> c \<and> c < 91 \<or> c = 46 \<or> c = 47 \<or> c = 36 then 5 else 64)"
    "g_penta_characters letter_tables p = (if p = 29 then 36 else if p = 28 then 47 else if p = 27 then 46
     else if 1 \<le> p \<and> p < 27 then of_nat (p + 64) else 0)"
    unfolding letter_tables_def fold_letters [OF n] by (auto simp: dx_init_penta_def)
qed

definition others :: "nat list" where
  "others = filter (\<lambda>i. g_pentas letter_tables i = 0 \<and> i \<noteq> 39 \<and> i \<noteq> 96) [32..<127]"

lemma length_others: "length others = 64"
proof -
  have "others = filter (\<lambda>c. \<not> (65 \<le> c \<and> c < 91) \<and> c \<noteq> 46 \<and> c \<noteq> 47 \<and> c \<noteq> 36 \<and> c \<noteq> 39 \<and> c \<noteq> 96) [32..<127]"
    unfolding others_def by (intro filter_cong) (auto simp: letter_tables_simps)
  also have "length \<dots> = 64" by (simp add: upt_conv_Cons)
  finally show ?thesis .
qed

definition penta_entry_ok :: "nat \<Rightarrow> bool" where
  "penta_entry_ok c \<longleftrightarrow>
     (g_penta_lengths codec c = 5 \<and> 0 < g_pentas codec c \<and> g_pentas codec c < 30
      \<or> g_penta_lengths codec c = 10 \<and> 960 \<le> g_pentas codec c \<and> g_pentas codec c < 1024)
     \<and> g_penta_characters codec (g_pentas codec c) = of_nat c"

lemma codec_table: "g_penta_lengths codec c = 64 \<or> penta_entry_ok c"
  and codec_init: "snd dx_init_symbol_codec"
  and codec_special: "g_pentas codec 47 = 28" "g_pentas codec 36 = 29"
  and codec_length: "g_penta_lengths codec c =
    (if 65 \<le> c \<and> c < 91 \<or> c = 46 \<or> c = 47 \<or> c = 36 then 5
     else if 32 \<le> c \<and> c < 127 \<and> c \<noteq> 39 \<and> c \<noteq> 96 then 10 else 64)"
proof -
  obtain tabs' penta' where i: "init_others [32..<127] 960 letter_tables = (tabs', penta')" by fastforce
  have init: "dx_init_symbol_codec = (tabs', penta' = 1024)"
    unfolding dx_init_symbol_codec_def Let_def letter_tables_def [symmetric] i by simp
  then have c: "codec = tabs'" by (metis codec_def fst_conv)
  have s: "penta' = 960 + length others"
    "\<forall>k < length others. g_pentas tabs' (others ! k) = 960 + k \<and> g_penta_lengths tabs' (others ! k) = 10
        \<and> g_penta_characters tabs' (960 + k) = of_nat (others ! k)"
    "\<forall>c. c \<notin> set others \<longrightarrow> g_pentas tabs' c = g_pentas letter_tables c \<and> g_penta_lengths tabs' c = g_penta_lengths letter_tables c"
    "\<forall>p < 960. g_penta_characters tabs' p = g_penta_characters letter_tables p"
    using init_others_spec [OF _ i others_def] by simp_all
  show "snd dx_init_symbol_codec" using s(1) length_others by (simp add: init)
  have n: "c \<notin> set others" if "65 \<le> c \<and> c < 91 \<or> c = 46 \<or> c = 47 \<or> c = 36" for c
    using that by (auto simp: others_def letter_tables_simps)
  have special: "47 \<notin> set others" "36 \<notin> set others" by (rule n, simp)+
  then show "g_pentas codec 47 = 28" "g_pentas codec 36 = 29"
    using s(3) by (simp_all add: c letter_tables_simps)
  have o: "c \<in> set others \<longleftrightarrow> (32 \<le> c \<and> c < 127 \<and> c \<noteq> 39 \<and> c \<noteq> 96) \<and> \<not> (65 \<le> c \<and> c < 91 \<or> c = 46 \<or> c = 47 \<or> c = 36)"
    unfolding others_def set_filter set_upt letter_tables_simps mem_Collect_eq atLeastLessThan_iff
    by (simp split: if_split)
  have l: "g_penta_lengths codec c = 10" if "c \<in> set others"
    using that s(2) length_others unfolding in_set_conv_nth c by auto
  show "g_penta_lengths codec c = (if 65 \<le> c \<and> c < 91 \<or> c = 46 \<or> c = 47 \<or> c = 36 then 5
     else if 32 \<le> c \<and> c < 127 \<and> c \<noteq> 39 \<and> c \<noteq> 96 then 10 else 64)"
  proof (cases "c \<in> set others")
    case True
    then show ?thesis using l unfolding o by simp
  next
    case False
    then have "g_penta_lengths codec c = g_penta_lengths letter_tables c" using s(3) c by simp
    then show ?thesis using False unfolding o letter_tables_simps by (auto split: if_splits)
  qed
  show "g_penta_lengths codec c = 64 \<or> penta_entry_ok c"
  proof (cases "c \<in> set others")
    case True
    then obtain k where "k < 64" "others ! k = c" by (auto simp: in_set_conv_nth length_others)
    with s(2) length_others show ?thesis unfolding penta_entry_ok_def c by auto
  next
    case False
    then have l: "g_pentas tabs' c = g_pentas letter_tables c" "g_penta_lengths tabs' c = g_penta_lengths letter_tables c"
      using s(3) by simp_all
    show ?thesis
    proof (cases "65 \<le> c \<and> c < 91 \<or> c = 46 \<or> c = 47 \<or> c = 36")
      case True
      then have "g_pentas letter_tables c < 30" by (auto simp: letter_tables_simps)
      then have "g_penta_characters tabs' (g_pentas tabs' c) = g_penta_characters letter_tables (g_pentas letter_tables c)"
        using s(4) l by simp
      moreover have "g_penta_lengths letter_tables c = 5" "0 < g_pentas letter_tables c" using True
        by (auto simp: letter_tables_simps)
      moreover have "g_penta_characters letter_tables (g_pentas letter_tables c) = of_nat c"
      proof (cases "65 \<le> c \<and> c < 91")
        case True
        then have "g_pentas letter_tables c = c - 64" "1 \<le> c - 64 \<and> c - 64 < 27 \<and> c - 64 + 64 = c"
          by (simp add: letter_tables_simps, linarith)
        then show ?thesis by (simp add: letter_tables_simps(3))
      next
        case False
        with True show ?thesis by (elim disjE) (simp_all add: letter_tables_simps)
      qed
      ultimately show ?thesis using l \<open>g_pentas letter_tables c < 30\<close> unfolding penta_entry_ok_def c by simp
    next
      case False
      then show ?thesis using l by (auto simp: c letter_tables_simps)
    qed
  qed
qed

section \<open>Pentas as numbers\<close>

fun bits_of :: "nat list \<Rightarrow> nat" where
  "bits_of [] = 0"
| "bits_of (c # cs) = g_penta_lengths codec c + bits_of cs"

fun penta_value :: "nat list \<Rightarrow> nat" where
  "penta_value [] = 0"
| "penta_value (c # cs) = g_pentas codec c * 2 ^ bits_of cs + penta_value cs"

lemma penta_entry_less: "penta_entry_ok c \<Longrightarrow> g_pentas codec c < 2 ^ g_penta_lengths codec c"
  by (auto simp: penta_entry_ok_def)

lemma penta_value_less: "\<forall>c \<in> set cs. penta_entry_ok c \<Longrightarrow> penta_value cs < 2 ^ bits_of cs"
proof (induction cs)
  case (Cons c cs)
  then have "g_pentas codec c + 1 \<le> 2 ^ g_penta_lengths codec c" "penta_value cs < 2 ^ bits_of cs"
    using penta_entry_less [of c] by simp_all
  then have "(g_pentas codec c + 1) * 2 ^ bits_of cs \<le> 2 ^ g_penta_lengths codec c * 2 ^ bits_of cs"
    by (intro mult_right_mono) simp_all
  then show ?case using \<open>penta_value cs < 2 ^ bits_of cs\<close> by (simp add: power_add)
qed simp

lemma bits_of_append [simp]: "bits_of (xs @ ys) = bits_of xs + bits_of ys"
  by (induction xs) simp_all

lemma penta_value_snoc: "penta_value (xs @ [c]) = penta_value xs * 2 ^ g_penta_lengths codec c + g_pentas codec c"
  by (induction xs) (simp_all add: power_add algebra_simps)

lemma bits_five: "\<forall>c \<in> set cs. penta_entry_ok c \<Longrightarrow> bits_of cs mod 5 = 0"
proof (induction cs)
  case (Cons c cs)
  then have "g_penta_lengths codec c = 5 \<or> g_penta_lengths codec c = 10" by (auto simp: penta_entry_ok_def)
  with Cons show ?case by auto
qed simp

lemma unat_long: "n < 2 ^ 64 \<Longrightarrow> unat (of_nat n :: long64) = n"
  by (simp add: unat_of_nat)

text \<open>The loop computes the value, as long as the length stays below 64 bits.\<close>

lemma encode_chars_spec:
  assumes "\<forall>c \<in> set ps. penta_entry_ok c"
    and "encode_chars cs (of_nat (penta_value ps)) (bits_of ps) = Some (penta, len)" "len \<le> 60"
  shows "penta = of_nat (penta_value (ps @ map unat cs)) \<and> len = bits_of (ps @ map unat cs)
    \<and> (\<forall>c \<in> set (map unat cs). penta_entry_ok c)"
  using assms
proof (induction cs arbitrary: ps)
  case (Cons c cs)
  let ?c = "unat c" and ?l = "g_penta_lengths codec (unat c)"
  have mono: "encode_chars xs p l = Some (q, m) \<Longrightarrow> l \<le> m" for xs p l q m
    by (induction xs p l rule: encode_chars.induct) (auto simp: Let_def split: if_splits)
  have rec: "encode_chars cs (push_bit ?l (of_nat (penta_value ps)) + of_nat (g_pentas codec ?c)) (bits_of ps + ?l) = Some (penta, len)"
    using Cons.prems(2) by (simp add: Let_def split: if_splits)
  from mono [OF this] Cons.prems(3) have "?l \<noteq> 64" by simp
  then have ok: "penta_entry_ok ?c" using codec_table [of ?c] by simp
  have "push_bit ?l (of_nat (penta_value ps) :: long64) + of_nat (g_pentas codec ?c) = of_nat (penta_value (ps @ [?c]))"
    by (simp add: penta_value_snoc push_bit_eq_mult)
  with rec have "encode_chars cs (of_nat (penta_value (ps @ [?c]))) (bits_of (ps @ [?c])) = Some (penta, len)" by simp
  from Cons.IH [OF _ this Cons.prems(3)] show ?case using Cons.prems(1) ok by simp
qed simp

section \<open>Decoding\<close>

lemma unat_field: "unat (drop_bit n (p::long64) AND 0x1F) = unat p div 2 ^ n mod 32"
  "unat (drop_bit n (p::long64) AND 0x3FF) = unat p div 2 ^ n mod 1024"
proof -
  have m: "(0x1F :: long64) = mask 5" "(0x3FF :: long64) = mask 10" by (simp_all add: mask_eq_exp_minus_1)
  show "unat (drop_bit n (p::long64) AND 0x1F) = unat p div 2 ^ n mod 32"
    "unat (drop_bit n (p::long64) AND 0x3FF) = unat p div 2 ^ n mod 1024"
    unfolding m by (simp_all only: take_bit_eq_mask [symmetric] unsigned_take_bit_eq unat_drop_bit_eq)
      (simp_all add: take_bit_eq_mod drop_bit_eq_div)
qed

lemma field_of:
  assumes "v < (2 :: nat) ^ n" "c < 2 ^ k"
  shows "(h * 2 ^ (k + n) + c * 2 ^ n + v) div 2 ^ n mod 2 ^ k = c"
proof -
  have "h * 2 ^ (k + n) + c * 2 ^ n + v = v + (h * 2 ^ k + c) * 2 ^ n" by (simp add: power_add algebra_simps)
  then have "(h * 2 ^ (k + n) + c * 2 ^ n + v) div 2 ^ n = h * 2 ^ k + c" using assms(1) by (simp add: div_mult_self1)
  then show ?thesis using assms(2) by simp
qed

lemma penta_chars_spec:
  assumes "\<forall>c \<in> set cs. penta_entry_ok c" "unat p = h * 2 ^ bits_of cs + penta_value cs"
  shows "penta_chars p (bits_of cs) = map of_nat cs"
  using assms
proof (induction cs arbitrary: h)
  case Nil
  then show ?case by (subst penta_chars.simps) simp
next
  case (Cons c cs)
  let ?n = "bits_of cs" and ?v = "penta_value cs" and ?c = "g_pentas codec c"
  have ok: "penta_entry_ok c" and oks: "\<forall>c \<in> set cs. penta_entry_ok c" using Cons.prems(1) by simp_all
  have v: "?v < 2 ^ ?n" by (rule penta_value_less [OF oks])
  have p: "unat p = h * 2 ^ (g_penta_lengths codec c + ?n) + ?c * 2 ^ ?n + ?v" using Cons.prems(2) by simp
  have rec: "penta_chars p ?n = map of_nat cs"
    by (rule Cons.IH [OF oks, of "h * 2 ^ g_penta_lengths codec c + ?c"]) (simp add: p power_add algebra_simps)
  have char: "g_penta_characters codec ?c = of_nat c" using ok by (simp add: penta_entry_ok_def)
  from ok consider (five) "g_penta_lengths codec c = 5" "?c < 30" | (ten) "g_penta_lengths codec c = 10" "960 \<le> ?c" "?c < 1024"
    by (auto simp: penta_entry_ok_def)
  then show ?case
  proof cases
    case five
    have "unat p div 2 ^ ?n mod 2 ^ 5 = ?c" unfolding p five(1) by (rule field_of [OF v]) (use five(2) in simp)
    then have f: "unat (drop_bit ?n p AND 0x1F) = ?c" by (simp add: unat_field)
    show ?thesis using five rec char f by (subst penta_chars.simps) (simp add: Let_def)
  next
    case ten
    have "unat p div 2 ^ ?n mod 2 ^ 10 = ?c" unfolding p ten(1) by (rule field_of [OF v]) (use ten(3) in simp)
    then have f2: "unat (drop_bit ?n p AND 0x3FF) = ?c" by (simp add: unat_field)
    have "unat p div 2 ^ (?n + 5) mod 32 = (unat p div 2 ^ ?n mod 1024) div 32"
    proof -
      have "unat p div 2 ^ ?n mod (32 * 32) div 32 = unat p div 2 ^ ?n div 32 mod 32"
        unfolding mod_mult2_eq by simp
      then show ?thesis by (simp add: power_add div_mult2_eq)
    qed
    also have "\<dots> = ?c div 32" using f2 by (simp add: unat_field)
    finally have f1: "unat (drop_bit (?n + 5) p AND 0x1F) = ?c div 32" by (simp add: unat_field)
    have "30 \<le> ?c div 32" using ten(2) by simp
    then show ?thesis using ten rec char f1 f2 by (subst penta_chars.simps) (simp add: Let_def add.commute)
  qed
qed

lemma penta_bits_spec:
  assumes "unat p < 2 ^ (5 * n)" "n = 0 \<or> 2 ^ (5 * (n - 1)) \<le> unat p" "n \<le> 12" "k \<le> n"
  shows "penta_bits p (5 * k) = 5 * n"
  using assms(4)
proof (induction "n - k" arbitrary: k)
  case 0
  then have k: "k = n" by simp
  have "unat (drop_bit (5 * n) p) = 0" 
    unfolding unat_drop_bit_eq drop_bit_eq_div [where ?'a = nat] using assms(1) by simp
  then have "drop_bit (5 * n) p = 0" by (simp only: unat_eq_zero)
  then show ?case unfolding k by (subst penta_bits.simps) simp
next
  case (Suc m)
  then have k: "k < n" by simp
  have "(2 :: nat) ^ (5 * k) \<le> 2 ^ (5 * (n - 1))" using k by (intro power_increasing) simp_all
  moreover have "2 ^ (5 * (n - 1)) \<le> unat p" using assms(2) k by simp
  ultimately have "2 ^ (5 * k) \<le> unat p" by (rule order_trans)
  then have "unat (drop_bit (5 * k) p) \<noteq> 0" 
    unfolding unat_drop_bit_eq drop_bit_eq_div [where ?'a = nat] by (simp add: div_eq_0_iff)
  then have nz: "drop_bit (5 * k) p \<noteq> 0" by (simp only: unat_eq_zero not_False_eq_True)
  have "penta_bits p (5 * k) = penta_bits p (5 * (k + 1))"
    using nz k assms(3) by (subst penta_bits.simps) (simp add: add.commute)
  also have "\<dots> = 5 * n" using Suc k by (intro Suc.hyps(1)) simp_all
  finally show ?case .
qed

lemma penta_to_string_spec:
  assumes "\<forall>c \<in> set cs. penta_entry_ok c" "bits_of cs \<le> 60" "unat p = penta_value cs"
  shows "dx_penta_to_string (\<lambda>_. True) p = Some (map of_nat cs)" "penta_bits p 0 = bits_of cs"
proof -
  obtain n where n: "bits_of cs = 5 * n" using bits_five [OF assms(1)] by (metis mod_0_imp_dvd dvdE)
  have "n = 0 \<or> 2 ^ (5 * (n - 1)) \<le> unat p"
  proof (cases cs)
    case Nil
    then show ?thesis using n by simp
  next
    case (Cons c ds)
    have ok: "penta_entry_ok c" using assms(1) Cons by simp
    have "2 ^ (5 * (n - 1)) \<le> g_pentas codec c * 2 ^ bits_of ds"
    proof (cases "g_penta_lengths codec c = 5")
      case True
      then have "5 * (n - 1) = bits_of ds" "0 < g_pentas codec c" using n Cons ok by (auto simp: penta_entry_ok_def)
      then show ?thesis by simp
    next
      case False
      then have "5 * (n - 1) = 5 + bits_of ds" "960 \<le> g_pentas codec c" using n Cons ok by (auto simp: penta_entry_ok_def)
      then show ?thesis by (simp add: power_add)
    qed
    then show ?thesis using Cons assms(3) by simp
  qed
  moreover have "unat p < 2 ^ (5 * n)" using penta_value_less [OF assms(1)] assms(3) n by simp
  moreover have "n \<le> 12" using assms(2) n by simp
  ultimately have "penta_bits p (5 * 0) = 5 * n" by (intro penta_bits_spec) simp_all
  then show b: "penta_bits p 0 = bits_of cs" by (simp add: n)
  show "dx_penta_to_string (\<lambda>_. True) p = Some (map of_nat cs)"
    using penta_chars_spec [OF assms(1), of p 0] assms(3) by (simp add: dx_penta_to_string_def b)
qed

section \<open>The round trip of symbol names\<close>

lemma low_mask: "(0x3FFFFFFF :: 'a::len word) = mask 30"
  by (simp add: mask_eq_exp_minus_1)

lemma bit_tags:
  "bit (0x40000000 :: int32) i \<longleftrightarrow> i = 30" "bit (0x80000000 :: int32) i \<longleftrightarrow> i = 31"
  "bit (0xC0000000 :: int32) i \<longleftrightarrow> i = 30 \<or> i = 31"
proof -
  have p: "(0x40000000 :: int32) = push_bit 30 1" "(0x80000000 :: int32) = push_bit 31 1" "(0xC0000000 :: int32) = push_bit 30 3"
    "(3 :: int32) = mask 2"
    by (simp_all add: push_bit_eq_mult mask_eq_exp_minus_1)
  have b: "bit (mask 2 :: int32) j \<longleftrightarrow> j = 0 \<or> j = 1" for j
    by (simp only: bit_mask_iff) auto
  have "i < 32" if "bit (w :: int32) i" for w using bit_imp_le_length [OF that] by simp
  then show "bit (0x40000000 :: int32) i \<longleftrightarrow> i = 30" "bit (0x80000000 :: int32) i \<longleftrightarrow> i = 31"
    "bit (0xC0000000 :: int32) i \<longleftrightarrow> i = 30 \<or> i = 31"
    unfolding p(1-3) unfolding p(4) bit_push_bit_iff bit_1_iff b by auto
qed

text \<open>Ciphers and pentas by their bits.\<close>

definition cipher_of :: "long64 \<Rightarrow> int32 \<Rightarrow> int32" where
  "cipher_of penta tag = (ucast penta AND mask 30) OR tag"

lemma plus_tag:
  assumes "\<forall>i < 30. \<not> bit tag i"
  shows "(ucast (penta :: long64) AND mask 30) + tag = cipher_of penta tag"
  unfolding cipher_of_def
  by (rule disjunctive_add) (use assms in \<open>auto simp: bit_and_iff bit_mask_iff\<close>)

lemma dx_encode_penta_cases:
  assumes p: "unat penta < 2 ^ 35"
  shows "len \<le> 30 \<Longrightarrow> unat penta < 2 ^ 30 \<Longrightarrow> dx_encode_penta penta len = cipher_of penta 0x40000000"
    "\<not> len \<le> 30 \<Longrightarrow> drop_bit 30 penta = 28 \<Longrightarrow> dx_encode_penta penta len = cipher_of penta 0x80000000"
    "\<not> len \<le> 30 \<Longrightarrow> drop_bit 30 penta = 29 \<Longrightarrow> dx_encode_penta penta len = cipher_of penta 0xC0000000"
    "\<not> len \<le> 30 \<Longrightarrow> drop_bit 30 penta \<noteq> 28 \<Longrightarrow> drop_bit 30 penta \<noteq> 29 \<Longrightarrow> dx_encode_penta penta len = 0"
proof -
  have t: "(ucast penta AND mask 30) + 0x40000000 = cipher_of penta 0x40000000"
    "(ucast penta AND mask 30) + 0x80000000 = cipher_of penta 0x80000000"
    "(ucast penta AND mask 30) + 0xC0000000 = cipher_of penta 0xC0000000"
    by (rule plus_tag, simp only: bit_tags, simp)+
  show "dx_encode_penta penta len = cipher_of penta 0x40000000" if "len \<le> 30" "unat penta < 2 ^ 30"
  proof -
    have "unat penta = take_bit 30 (unat penta)" using that(2) by (simp add: take_bit_nat_eq_self)
    then have "penta = take_bit 30 penta" by (metis unsigned_take_bit_eq word_unat_eq_iff)
    then have "bit penta i \<Longrightarrow> i < 30" for i by (metis bit_take_bit_iff)
    then have "ucast penta = (ucast penta :: int32) AND mask 30"
      by (intro bit_word_eqI) (auto simp: bit_and_iff bit_mask_iff bit_unsigned_iff)
    then show ?thesis using that(1) t(1) by (simp add: dx_encode_penta_def)
  qed
  have "unat (drop_bit 30 penta) = unat penta div 2 ^ 30"
    unfolding unat_drop_bit_eq drop_bit_eq_div [where ?'a = nat] by simp
  then have d: "unat (drop_bit 30 penta) < 2 ^ 32" using p by simp
  then have u: "(ucast (drop_bit 30 penta) :: int32) = of_nat n \<longleftrightarrow> drop_bit 30 penta = of_nat n" if "n < 32" for n
  proof -
    have "unat (ucast (drop_bit 30 penta) :: int32) = unat (drop_bit 30 penta)"
      using d by (simp add: unsigned_ucast_eq take_bit_nat_eq_self)
    moreover have "unat (of_nat n :: int32) = n" "unat (of_nat n :: long64) = n" using that by (simp_all add: unat_of_nat)
    ultimately show ?thesis by (metis word_unat_eq_iff)
  qed
  have u28: "(ucast (drop_bit 30 penta) :: int32) = 28 \<longleftrightarrow> drop_bit 30 penta = 28"
    "(ucast (drop_bit 30 penta) :: int32) = 29 \<longleftrightarrow> drop_bit 30 penta = 29"
    using u [of 28] u [of 29] by simp_all
  show "dx_encode_penta penta len = cipher_of penta 0x80000000" if "\<not> len \<le> 30" "drop_bit 30 penta = 28"
    using that t(2) by (simp add: dx_encode_penta_def codec_special u28 low_mask)
  show "dx_encode_penta penta len = cipher_of penta 0xC0000000" if "\<not> len \<le> 30" "drop_bit 30 penta = 29"
    using that t(3) by (simp add: dx_encode_penta_def codec_special u28 low_mask)
  show "dx_encode_penta penta len = 0" if "\<not> len \<le> 30" "drop_bit 30 penta \<noteq> 28" "drop_bit 30 penta \<noteq> 29"
    using that by (simp add: dx_encode_penta_def codec_special u28)
qed

text \<open>A cipher is its penta and the tag.\<close>

definition penta_of :: "int32 \<Rightarrow> long64 \<Rightarrow> long64" where
  "penta_of cipher tp = push_bit 30 tp OR ucast (cipher AND mask 30)"

lemma plus_low: "push_bit 30 (tp :: long64) + ucast ((cipher :: int32) AND mask 30) = penta_of cipher tp"
  unfolding penta_of_def
  by (rule disjunctive_add) (auto simp: bit_simps)

lemma dx_decode_cipher_cases:
  "dx_decode_cipher cipher =
    (if \<not> bit cipher 30 \<and> \<not> bit cipher 31 then Inl dx_ec_invalid_func_param_internal
     else Inr (penta_of cipher (if \<not> bit cipher 31 then 0 else if bit cipher 30 then 29 else 28)))"
proof -
  have e: "drop_bit 30 cipher = push_bit 1 (of_bool (bit cipher 31)) OR of_bool (bit cipher 30)"
  proof (rule bit_word_eqI)
    fix i assume "i < LENGTH(32)"
    have "i = 0 \<or> i = 1 \<or> 30 + i \<ge> 32" by auto
    then show "bit (drop_bit 30 cipher) i = bit (push_bit 1 (of_bool (bit cipher 31)) OR of_bool (bit cipher 30) :: int32) i"
      by (auto simp: bit_simps dest: bit_imp_le_length)
  qed
  show ?thesis
    unfolding dx_decode_cipher_def Let_def e low_mask plus_low [symmetric]
    by (cases "bit cipher 30"; cases "bit cipher 31") (simp_all add: codec_special)
qed


lemma bit_cipher_of: "bit (cipher_of penta tag) i \<longleftrightarrow> i < 30 \<and> bit penta i \<or> bit tag i"
  by (auto simp: cipher_of_def bit_or_iff bit_and_iff bit_mask_iff bit_unsigned_iff)

lemma penta_of_cipher_of:
  assumes "\<forall>i < 30. \<not> bit tag i" "drop_bit 30 penta = tp"
  shows "penta_of (cipher_of penta tag) tp = penta"
proof (rule bit_word_eqI)
  fix i assume "i < LENGTH(64)"
  moreover have "bit (push_bit 30 tp) i \<longleftrightarrow> 30 \<le> i \<and> bit penta i"
    using \<open>i < LENGTH(64)\<close> unfolding assms(2) [symmetric] by (auto simp: bit_push_bit_iff bit_drop_bit_eq)
  ultimately show "bit (penta_of (cipher_of penta tag) tp) i = bit penta i" using assms(1)
    by (auto simp: penta_of_def bit_or_iff bit_cipher_of bit_and_iff bit_mask_iff bit_unsigned_iff)
qed

lemma cipher_of_penta_of:
  assumes "\<forall>i < 30. \<not> bit tag i" "bit cipher 30 = bit tag 30" "bit cipher 31 = bit tag 31"
  shows "cipher_of (penta_of cipher tp) tag = cipher"
proof (rule bit_word_eqI)
  fix i assume "i < LENGTH(32)"
  then consider "i < 30" | "i = 30" | "i = 31" by force
  then show "bit (cipher_of (penta_of cipher tp) tag) i = bit cipher i" using assms
    by cases (auto simp: penta_of_def bit_cipher_of bit_or_iff bit_and_iff bit_mask_iff bit_unsigned_iff bit_push_bit_iff)
qed

lemma drop_30_zero: "unat penta < 2 ^ 30 \<Longrightarrow> drop_bit 30 (penta :: long64) = 0"
  by (metis div_less drop_bit_eq_div unat_drop_bit_eq unat_eq_zero)

lemma tags_low: "\<forall>i < 30. \<not> bit (0x40000000 :: int32) i" "\<forall>i < 30. \<not> bit (0x80000000 :: int32) i"
  "\<forall>i < 30. \<not> bit (0xC0000000 :: int32) i"
  by (simp_all only: bit_tags) simp_all

lemma decode_encode_penta:
  assumes "unat penta < 2 ^ 35" "len \<le> 30 \<Longrightarrow> unat penta < 2 ^ 30" "dx_encode_penta penta len \<noteq> 0"
  shows "dx_decode_cipher (dx_encode_penta penta len) = Inr penta"
proof -
  note e = dx_encode_penta_cases [OF assms(1), of len]
  consider (short) "len \<le> 30" | (slash) "\<not> len \<le> 30" "drop_bit 30 penta = 28" | (dollar) "\<not> len \<le> 30" "drop_bit 30 penta = 29"
    using assms(3) e(4) by blast
  then show ?thesis
  proof cases
    case short
    have "bit (cipher_of penta 0x40000000) 30" "\<not> bit (cipher_of penta 0x40000000) 31"
      unfolding bit_cipher_of bit_tags by simp_all
    then show ?thesis
      unfolding e(1) [OF short assms(2) [OF short]] dx_decode_cipher_cases
      using penta_of_cipher_of [OF tags_low(1) drop_30_zero [OF assms(2) [OF short]]] by simp
  next
    case slash
    have "\<not> bit (cipher_of penta 0x80000000) 30" "bit (cipher_of penta 0x80000000) 31"
      unfolding bit_cipher_of bit_tags by simp_all
    then show ?thesis
      unfolding e(2) [OF slash] dx_decode_cipher_cases using penta_of_cipher_of [OF tags_low(2) slash(2)] by simp
  next
    case dollar
    have "bit (cipher_of penta 0xC0000000) 30" "bit (cipher_of penta 0xC0000000) 31"
      unfolding bit_cipher_of bit_tags by simp_all
    then show ?thesis
      unfolding e(3) [OF dollar] dx_decode_cipher_cases using penta_of_cipher_of [OF tags_low(3) dollar(2)] by simp
  qed
qed

lemma dx_encode_symbol_name_chars:
  assumes "dx_encode_symbol_name (Some s) \<noteq> 0"
  obtains cs penta len where "s = map of_nat cs" "\<forall>c \<in> set cs. penta_entry_ok c" "bits_of cs \<le> 35"
    "unat penta = penta_value cs" "dx_encode_symbol_name (Some s) = dx_encode_penta penta (bits_of cs)"
proof -
  obtain penta len where e: "encode_chars s 0 0 = Some (penta, len)" "len \<le> 35"
    "dx_encode_symbol_name (Some s) = dx_encode_penta penta len"
    using assms by (auto simp: dx_encode_symbol_name_def split: if_splits option.splits)
  have s: "penta = of_nat (penta_value (map unat s))" "len = bits_of (map unat s)" "\<forall>c \<in> set (map unat s). penta_entry_ok c"
    using encode_chars_spec [where ps = "[]" and cs = s and penta = penta and len = len] e by auto
  have "penta_value (map unat s) < 2 ^ 35"
    using penta_value_less [OF s(3)] power_increasing [OF e(2) [unfolded s(2)], of "2 :: nat"] by simp
  then have "unat penta = penta_value (map unat s)" unfolding s(1) by (intro unat_long) simp
  moreover have "s = map of_nat (map unat s)" by (simp add: map_idI)
  ultimately show thesis using that s e by metis
qed

lemma decode_of_chars:
  assumes "\<forall>c \<in> set cs. penta_entry_ok c" "bits_of cs \<le> 35" "unat penta = penta_value cs"
    "dx_encode_penta penta (bits_of cs) \<noteq> 0"
  shows "dx_decode_symbol_name (\<lambda>_. True) (dx_encode_penta penta (bits_of cs)) = Inr (Some (map of_nat cs))"
proof -
  have l: "unat penta < 2 ^ bits_of cs" using penta_value_less [OF assms(1)] assms(3) by simp
  have p: "unat penta < 2 ^ 35" using l power_increasing [OF assms(2), of "2 :: nat"] by simp
  have "unat penta < 2 ^ 30" if "bits_of cs \<le> 30" using l power_increasing [OF that, of "2 :: nat"] by simp
  from decode_encode_penta [OF p this assms(4)] show ?thesis
    using assms(4) penta_to_string_spec(1) [OF assms(1) _ assms(3)] assms(2) by (simp add: dx_decode_symbol_name_def)
qed

lemma decode_encode_symbol_name:
  assumes "dx_encode_symbol_name (Some s) \<noteq> 0"
  shows "dx_decode_symbol_name (\<lambda>_. True) (dx_encode_symbol_name (Some s)) = Inr (Some s)"
  using assms by (metis dx_encode_symbol_name_chars decode_of_chars)

text \<open>The bits a name takes.\<close>

definition char_bits :: "dxf_char \<Rightarrow> nat option" where
  "char_bits c =
     (if 65 \<le> c \<and> c < 91 \<or> c = 46 \<or> c = 47 \<or> c = 36 then Some 5
      else if 32 \<le> c \<and> c < 127 \<and> c \<noteq> 39 \<and> c \<noteq> 96 then Some 10 else None)"

fun name_bits :: "dxf_char list \<Rightarrow> nat option" where
  "name_bits [] = Some 0"
| "name_bits (c # cs) = (case (char_bits c, name_bits cs) of (Some m, Some n) \<Rightarrow> Some (m + n) | _ \<Rightarrow> None)"

lemma char_bits_codec: "char_bits c = (let l = g_penta_lengths codec (unat c) in if l = 64 then None else Some l)"
proof -
  have "(65 \<le> c \<longleftrightarrow> 65 \<le> unat c) \<and> (c < 91 \<longleftrightarrow> unat c < 91) \<and> (c = 46 \<longleftrightarrow> unat c = 46) \<and> (c = 47 \<longleftrightarrow> unat c = 47)
    \<and> (c = 36 \<longleftrightarrow> unat c = 36) \<and> (32 \<le> c \<longleftrightarrow> 32 \<le> unat c) \<and> (c < 127 \<longleftrightarrow> unat c < 127)
    \<and> (c = 39 \<longleftrightarrow> unat c = 39) \<and> (c = 96 \<longleftrightarrow> unat c = 96)"
    by (simp add: word_le_nat_alt word_less_nat_alt word_unat_eq_iff)
  then show ?thesis unfolding char_bits_def codec_length Let_def by simp
qed

lemma name_bits_codec:
  "name_bits s = (if \<forall>c \<in> set s. g_penta_lengths codec (unat c) \<noteq> 64 then Some (bits_of (map unat s)) else None)"
  by (induction s) (auto simp: char_bits_codec Let_def)

lemma entry_small: "g_penta_lengths codec c \<noteq> 64 \<Longrightarrow> c < 128"
  by (auto simp: codec_length split: if_splits)

lemma encode_chars_total:
  "\<forall>c \<in> set cs. c < 128 \<Longrightarrow> \<exists>q. encode_chars cs p l = Some (q, l + bits_of (map unat cs))"
proof (induction cs arbitrary: p l)
  case (Cons c cs)
  then have "\<not> 128 \<le> c" by (simp add: not_le)
  moreover obtain q where "encode_chars cs (push_bit (g_penta_lengths codec (unat c)) p + of_nat (g_pentas codec (unat c)))
      (l + g_penta_lengths codec (unat c)) = Some (q, l + g_penta_lengths codec (unat c) + bits_of (map unat cs))"
    using Cons.IH Cons.prems by fastforce
  ultimately show ?case by (simp add: Let_def add.assoc)
qed simp

lemma bits_of_length: "\<forall>c \<in> set cs. penta_entry_ok c \<Longrightarrow> 5 * length cs \<le> bits_of cs"
  by (induction cs) (auto simp: penta_entry_ok_def)

lemma head_penta:
  assumes "\<forall>c \<in> set (c # cs). penta_entry_ok c" "bits_of (c # cs) = 35"
  shows "penta_value (c # cs) div 2 ^ 30 =
    (if g_penta_lengths codec c = 5 then g_pentas codec c else g_pentas codec c div 32)"
proof -
  have l: "penta_value cs < 2 ^ bits_of cs" using penta_value_less assms(1) by simp
  consider "g_penta_lengths codec c = 5" | "g_penta_lengths codec c = 10"
    using assms(1) by (auto simp: penta_entry_ok_def)
  then show ?thesis
  proof cases
    case 1
    then have b: "bits_of cs = 30" using assms(2) by simp
    then show ?thesis using 1 l by simp
  next
    case 2
    then have b: "bits_of cs = 25" using assms(2) by simp
    have "penta_value (c # cs) div 2 ^ 30 = (penta_value (c # cs) div 2 ^ 25) div 2 ^ 5"
      by (simp only: div_mult2_eq [symmetric] power_add [symmetric]) simp
    also have "penta_value (c # cs) div 2 ^ 25 = g_pentas codec c" using b l by simp
    finally show ?thesis using 2 by simp
  qed
qed


definition encodable :: "dxf_char list \<Rightarrow> bool" where
  "encodable s \<longleftrightarrow> (case name_bits s of
     None \<Rightarrow> False
   | Some n \<Rightarrow> n \<le> 30 \<or> n = 35 \<and> (hd s = 47 \<or> hd s = 36))"

lemma encodable_correct: "dx_encode_symbol_name (Some s) \<noteq> 0 \<longleftrightarrow> encodable s"
proof (cases "\<forall>c \<in> set s. g_penta_lengths codec (unat c) \<noteq> 64")
  case False
  then have "\<not> encodable s" unfolding encodable_def name_bits_codec by (simp only: if_False option.case not_False_eq_True)
  moreover have "dx_encode_symbol_name (Some s) = 0"
  proof (rule ccontr)
    assume "dx_encode_symbol_name (Some s) \<noteq> 0"
    then obtain cs where "s = map of_nat cs" "\<forall>c \<in> set cs. penta_entry_ok c" by (rule dx_encode_symbol_name_chars)
    moreover from this(2) have "unat (of_nat c :: dxf_char) = c \<and> g_penta_lengths codec c \<noteq> 64" if "c \<in> set cs" for c
      using that entry_small [of c] by (auto simp: penta_entry_ok_def unat_of_nat)
    ultimately show False using False by fastforce
  qed
  ultimately show ?thesis by simp
next
  case True
  let ?cs = "map unat s"
  have ok: "\<forall>c \<in> set ?cs. penta_entry_ok c" using True codec_table by auto
  have small: "\<forall>c \<in> set s. c < 128" using True entry_small by (auto simp: word_less_nat_alt)
  obtain q where q: "encode_chars s 0 0 = Some (q, bits_of ?cs)" using encode_chars_total [OF small, of 0 0] by auto
  have enc: "encodable s \<longleftrightarrow> bits_of ?cs \<le> 30 \<or> bits_of ?cs = 35 \<and> (hd s = 47 \<or> hd s = 36)"
    using True by (simp add: encodable_def name_bits_codec)
  have len: "5 * length s \<le> bits_of ?cs" using bits_of_length [OF ok] by simp
  show ?thesis
  proof (cases "bits_of ?cs \<le> 35")
    case False
    then show ?thesis using q enc by (simp add: dx_encode_symbol_name_def)
  next
    case le: True
    have s: "q = of_nat (penta_value ?cs)"
      using encode_chars_spec [where ps = "[]" and cs = s and penta = q and len = "bits_of ?cs"] q le by simp
    have l: "penta_value ?cs < 2 ^ bits_of ?cs" by (rule penta_value_less [OF ok])
    have p35: "penta_value ?cs < 2 ^ 35" using l power_increasing [OF le, of "2 :: nat"] by simp
    then have u: "unat q = penta_value ?cs" unfolding s by (intro unat_long) simp
    have f: "dx_encode_symbol_name (Some s) = dx_encode_penta q (bits_of ?cs)"
      using q le len by (simp add: dx_encode_symbol_name_def)
    note e = dx_encode_penta_cases [OF p35 [folded u], of "bits_of ?cs"]
    have nz: "cipher_of q tag \<noteq> 0" if "bit tag i" for tag i using that bit_cipher_of [of q tag i] by auto
    show ?thesis
    proof (cases "bits_of ?cs \<le> 30")
      case True
      then have "unat q < 2 ^ 30" using l u power_increasing [OF True, of "2 :: nat"] by simp
      then show ?thesis using e(1) [OF True] nz [of "0x40000000" 30] True unfolding f enc bit_tags by simp
    next
      case False
      have five: "n mod 5 = 0 \<Longrightarrow> \<not> n \<le> 30 \<Longrightarrow> n \<le> 35 \<Longrightarrow> n = 35" for n :: nat by presburger
      have b: "bits_of ?cs = 35" by (rule five [OF bits_five [OF ok] False le])
      then obtain c t where c: "s = c # t" by (cases s) simp_all
      have d: "unat (drop_bit 30 q) = unat q div 2 ^ 30"
        unfolding unat_drop_bit_eq drop_bit_eq_div [where ?'a = nat] by simp
      have h: "unat (drop_bit 30 q) = (if g_penta_lengths codec (unat c) = 5 then g_pentas codec (unat c) else g_pentas codec (unat c) div 32)"
        unfolding d u using head_penta [of "unat c" "map unat t"] ok b c by simp
      have okc: "penta_entry_ok (unat c)" using ok c by simp
      have n: "n = drop_bit 30 q \<longleftrightarrow> unat n = unat (drop_bit 30 q)" for n by (rule word_unat_eq_iff)
      have t28: "drop_bit 30 q = 28 \<longleftrightarrow> g_pentas codec (unat c) = 28" and t29: "drop_bit 30 q = 29 \<longleftrightarrow> g_pentas codec (unat c) = 29"
        using okc h n [of 28] n [of 29] by (auto simp: penta_entry_ok_def)
      have inj: "g_pentas codec (unat c) = g_pentas codec k \<longleftrightarrow> unat c = k" if "penta_entry_ok k" "k < 2 ^ 16" for k
      proof
        assume "g_pentas codec (unat c) = g_pentas codec k"
        then have "(of_nat (unat c) :: dxf_char) = of_nat k" using okc that(1) unfolding penta_entry_ok_def by metis
        then show "unat c = k" using that(2) by (simp add: unat_of_nat word_unat_eq_iff)
      qed simp
      have "penta_entry_ok 47" "penta_entry_ok 36" using codec_table [of 47] codec_table [of 36] by (auto simp: codec_length)
      then have "g_pentas codec (unat c) = 28 \<longleftrightarrow> c = 47" "g_pentas codec (unat c) = 29 \<longleftrightarrow> c = 36"
        using inj [of 47] inj [of 36] by (simp_all add: codec_special word_unat_eq_iff)
      with e(2-4) [OF False] t28 t29 nz [of "0x80000000" 31] nz [of "0xC0000000" 31] show ?thesis
        unfolding f enc b bit_tags by (auto simp: c)
    qed
  qed
qed

section \<open>Properties\<close>

text \<open>
  C26: a symbol name has a cipher exactly when its characters take at most 30 bits (5 for capital letters,
  \<open>.\<close>, \<open>/\<close> and \<open>$\<close>, 10 for the other printable ones except the apostrophes), or 35 bits with a
  leading \<open>/\<close> or \<open>$\<close>; and then decoding the cipher gives the name back.
\<close>

theorem symbol_name_codec:
  "(dx_encode_symbol_name (Some s) \<noteq> 0 \<longleftrightarrow> encodable s)
   \<and> (encodable s \<longrightarrow> dx_decode_symbol_name (\<lambda>_. True) (dx_encode_symbol_name (Some s)) = Inr (Some s))"
  using encodable_correct decode_encode_symbol_name by blast

theorem symbol_name_codec_witness:
  "dx_decode_symbol_name (\<lambda>_. True) (dx_encode_symbol_name (Some [47, 69, 83, 90, 54])) = Inr (Some [47, 69, 83, 90, 54])
   \<and> dx_encode_symbol_name (Some [97, 98, 99, 100]) = 0"
proof -
  have "encodable [47, 69, 83, 90, 54]" "\<not> encodable [97, 98, 99, 100]" by code_simp+
  with symbol_name_codec show ?thesis by blast
qed

end
