(* ===== verification/Dx_Symbol_Stream.thy ===== *)
theory Dx_Symbol_Stream
  imports Dx_Symbol_Codec
begin

text \<open>
  \<open>src/SymbolCodec.c\<close>, symbols on the wire: \<open>dx_codec_write_symbol\<close> and \<open>dx_codec_read_symbol\<close> over the
  buffers of \<open>Dx_Output\<close> and \<open>Dx_Input\<close>; safety and termination of the reader, and the round trips.
\<close>

section \<open>Symbols on the wire\<close>

definition dx_create_string_src_len :: "(nat \<Rightarrow> bool) \<Rightarrow> dxf_char list \<Rightarrow> nat \<Rightarrow> dxf_char list option" where
  "dx_create_string_src_len mem src len =
     (if \<not> mem (len + 1) then None
      else let s = c_string (take len src) in Some (s @ replicate (len + 1 - length s) 0))"

fun write_symbol_chars :: "(nat \<Rightarrow> bool) \<Rightarrow> dxf_char list \<Rightarrow> (out_ctx, unit) io" where
  "write_symbol_chars mem [] = return ()"
| "write_symbol_chars mem (c # cs) =
     checked (dx_write_utf_char mem (ucast c)) (\<lambda>_. write_symbol_chars mem cs)"

definition dx_codec_write_symbol :: "(nat \<Rightarrow> bool) \<Rightarrow> int32 \<Rightarrow> dxf_char list option \<Rightarrow> (out_ctx, unit) io" where
  "dx_codec_write_symbol mem cipher symbol =
     (if cipher \<noteq> 0 then
        (case dx_decode_cipher cipher of
           Inl e \<Rightarrow> fail e
         | Inr penta \<Rightarrow>
             if penta = 0 then dx_write_byte mem 0xFE
             else if sint penta < 0x8000 then dx_write_short mem (ucast penta)
             else if sint penta < 0x100000 then
               checked (dx_write_byte mem (ucast (0xE0 OR drop_bit 16 (ucast penta :: int32)))) (\<lambda>_.
               dx_write_short mem (ucast penta))
             else if sint penta < 0x40000000 then dx_write_int mem (0x80000000 OR ucast penta)
             else if sint penta < 0x0800000000 then
               checked (dx_write_byte mem (ucast (0xF0 OR (ucast (drop_bit 32 penta) :: int32)))) (\<lambda>_.
               dx_write_int mem (ucast penta))
             else fail dx_ec_internal_assert_violation)
      else
        (case symbol of
           Some s \<Rightarrow>
             checked (dx_write_byte mem 0xFD) (\<lambda>_.
             checked (dx_write_compact_int mem (word_of_nat (length s))) (\<lambda>_.
             write_symbol_chars mem s))
         | None \<Rightarrow> dx_write_byte mem 0xFF))"

text \<open>
  The out parameters of \<open>dx_codec_read_symbol\<close> are part of the state: the caller's buffer and the
  variables for the result, the cipher, the event flags and the most recently used flags.
\<close>

record symbol_ctx =
  sym_in :: in_ctx
  sym_buffer :: "dxf_char list"
  sym_result :: "dxf_char list option"
  cipher_result :: int32
  sym_flags :: int32
  mru_event_flags :: int32

definition on_in :: "(in_ctx, 'a) io \<Rightarrow> (symbol_ctx, 'a) io" where
  "on_in m = (\<lambda>s. case m (sym_in s) of (r, ctx) \<Rightarrow> (r, s\<lparr>sym_in := ctx\<rparr>))"

text \<open>The loop that stores the characters, from index \<open>k\<close> on, into a block.\<close>

fun read_symbol_chars :: "nat \<Rightarrow> nat \<Rightarrow> (dxf_char list \<times> in_ctx, unit) io" where
  "read_symbol_chars 0 k = return ()"
| "read_symbol_chars (Suc n) k = (\<lambda>(block, ctx).
     case dx_read_utf_char ctx of
       (Inl e, ctx') \<Rightarrow> (Inl e, (block, ctx'))
     | (Inr code_point, ctx') \<Rightarrow>
         if sint code_point > 0xFFFF then (Inl dx_utfec_bad_utf_data_format_server, (block, ctx'))
         else
           (case mem_store block (int k) (ucast code_point) of
              None \<Rightarrow> (Inl UB, (block, ctx'))
            | Some block' \<Rightarrow> read_symbol_chars n (k + 1) (block', ctx')))"

text \<open>
  The branch of a symbol sent as characters: the caller's buffer when the length fits, a block of its
  own otherwise.  A length of zero allocates one byte and stores a character of two bytes in it.
\<close>

definition read_symbol_in_buffer :: "(nat \<Rightarrow> bool) \<Rightarrow> long64 \<Rightarrow> (symbol_ctx, unit) io" where
  "read_symbol_in_buffer mem len = (\<lambda>s.
     case read_symbol_chars (nat (sint len)) 0 (sym_buffer s, sym_in s) of
       (Inl e, (block, ctx)) \<Rightarrow> (Inl e, s\<lparr>sym_buffer := block, sym_in := ctx\<rparr>)
     | (Inr _, (block, ctx)) \<Rightarrow>
         let s' = s\<lparr>sym_buffer := block, sym_in := ctx\<rparr> in
         if len AND scast dx_get_codec_valid_cipher = 0 then (Inr (), s'\<lparr>cipher_result := ucast len\<rparr>)
         else
           (case dx_create_string_src_len mem block (nat (sint len)) of
              None \<Rightarrow> (Inl dx_mec_insufficient_memory, s'\<lparr>sym_result := None\<rparr>)
            | Some str \<Rightarrow> (Inr (), s'\<lparr>sym_result := Some str, cipher_result := 0\<rparr>)))"

definition read_symbol_allocated :: "(nat \<Rightarrow> bool) \<Rightarrow> long64 \<Rightarrow> (symbol_ctx, unit) io" where
  "read_symbol_allocated mem len = (\<lambda>s.
     if \<not> mem (nat (sint len) + 1) then (Inl dx_mec_insufficient_memory, s)
     else
       (case read_symbol_chars (nat (sint len)) 0 (replicate (nat (sint len) + 1) 0, sym_in s) of
          (Inl e, (block, ctx)) \<Rightarrow> (Inl e, s\<lparr>sym_in := ctx\<rparr>)
        | (Inr _, (block, ctx)) \<Rightarrow>
            (case dx_create_string_src_len mem block (nat (sint len)) of
               None \<Rightarrow> (Inl dx_mec_insufficient_memory, s\<lparr>sym_in := ctx, sym_result := None\<rparr>)
             | Some str \<Rightarrow> (Inr (), s\<lparr>sym_in := ctx, sym_result := Some str, cipher_result := 0\<rparr>))))"

definition read_symbol_string :: "(nat \<Rightarrow> bool) \<Rightarrow> int \<Rightarrow> (symbol_ctx, unit) io" where
  "read_symbol_string mem buffer_length =
     checked (on_in dx_read_compact_long) (\<lambda>len.
       if sint len < 0 \<or> sint len > INT_MAX then fail dx_pcec_invalid_symbol_length
       else if len = 0 then
         (\<lambda>s. if mem 1 then (Inl UB, s) else (Inl dx_mec_insufficient_memory, s\<lparr>sym_result := None\<rparr>))
       else if sint len \<le> buffer_length then read_symbol_in_buffer mem len
       else read_symbol_allocated mem len)"

text \<open>The end of the loop body: a penta becomes a cipher or, when it has none, a string.\<close>

definition finish_penta :: "(nat \<Rightarrow> bool) \<Rightarrow> long64 \<Rightarrow> (symbol_ctx, unit) io" where
  "finish_penta mem penta = (\<lambda>s.
     let plen = penta_bits penta 0; cipher = dx_encode_penta penta plen in
     if cipher = 0 then
       (case dx_penta_to_string mem penta of
          None \<Rightarrow> (Inl dx_mec_insufficient_memory, s)
        | Some str \<Rightarrow> (Inr (), s\<lparr>sym_result := Some (str @ [0]), cipher_result := cipher\<rparr>))
     else (Inr (), s\<lparr>cipher_result := cipher\<rparr>))"

text \<open>The loop body after its first byte \<open>i\<close>, for all values except those of the two event flag markers.\<close>

definition read_symbol_form :: "(nat \<Rightarrow> bool) \<Rightarrow> int \<Rightarrow> int32 \<Rightarrow> (symbol_ctx, unit) io" where
  "read_symbol_form mem buffer_length i =
     (if i < 0x80 then
        checked (on_in dx_read_unsigned_byte) (\<lambda>tmp_int_1.
        finish_penta mem (ucast (push_bit 8 i + tmp_int_1)))
      else if i < 0xC0 then
        checked (on_in dx_read_unsigned_byte) (\<lambda>tmp_int_1.
        checked (on_in dx_read_unsigned_short) (\<lambda>tmp_int_2.
        finish_penta mem (ucast (push_bit 24 (i AND 0x3F) + push_bit 16 tmp_int_1 + tmp_int_2))))
      else if i < 0xE0 then fail dx_pcec_reserved_bit_sequence
      else if i < 0xF0 then
        checked (on_in dx_read_unsigned_short) (\<lambda>tmp_int_1.
        finish_penta mem (ucast (push_bit 16 (i AND 0x0F) + tmp_int_1)))
      else if i < 0xF8 then
        checked (on_in dx_read_int) (\<lambda>tmp_int_3.
        finish_penta mem (push_bit 32 (ucast (i AND 0x07)) + (scast tmp_int_3 AND 0xFFFFFFFF)))
      else if i < 0xFC then fail dx_pcec_reserved_bit_sequence
      else if i = 0xFC then
        checked (on_in (dx_read_utf_string mem)) (\<lambda>result s. (Inr (), s\<lparr>sym_result := result, cipher_result := 0\<rparr>))
      else if i = 0xFD then read_symbol_string mem buffer_length
      else if i = 0xFE then finish_penta mem 0
      else (\<lambda>s. (Inr (), s\<lparr>sym_result := None, cipher_result := 0\<rparr>)))"

text \<open>The \<open>while (true)\<close> loop; only the markers continue it.  The fuel bounds the rounds.\<close>

fun read_symbol_loop :: "nat \<Rightarrow> (nat \<Rightarrow> bool) \<Rightarrow> int \<Rightarrow> int \<Rightarrow> (symbol_ctx, unit) io" where
  "read_symbol_loop 0 mem buffer_length event_flags_bytes = fail UB"
| "read_symbol_loop (Suc fuel) mem buffer_length event_flags_bytes =
     checked (on_in dx_read_unsigned_byte) (\<lambda>i.
       if i = 0xF8 then
         (if event_flags_bytes > 0 then fail dx_pcec_invalid_event_flag
          else (\<lambda>s. read_symbol_loop fuel mem buffer_length 1 (s\<lparr>sym_flags := mru_event_flags s\<rparr>)))
       else if i = 0xF9 then
         (if event_flags_bytes > 0 then fail dx_pcec_invalid_event_flag
          else (\<lambda>s.
            let event_flags_pos = current_in_buffer_position (sym_in s) in
            checked (on_in dx_read_compact_int) (\<lambda>tmp_flags s.
              read_symbol_loop fuel mem buffer_length (current_in_buffer_position (sym_in s) - event_flags_pos)
                (s\<lparr>mru_event_flags := tmp_flags, sym_flags := tmp_flags\<rparr>)) s))
       else read_symbol_form mem buffer_length i)"

definition dx_codec_read_symbol :: "(nat \<Rightarrow> bool) \<Rightarrow> int \<Rightarrow> (symbol_ctx, unit) io" where
  "dx_codec_read_symbol mem buffer_length = (\<lambda>s.
     read_symbol_loop 2 mem buffer_length 0 (s\<lparr>sym_flags := 0\<rparr>))"

section \<open>Safety and termination of the reader\<close>

definition wf_sym :: "int \<Rightarrow> symbol_ctx \<Rightarrow> bool" where
  "wf_sym buffer_length s \<longleftrightarrow> wf_in (sym_in s) \<and> buffer_length \<le> int (length (sym_buffer s))"

text \<open>A length of zero has just been read from the buffer.\<close>

definition zero_length_read :: "symbol_ctx \<Rightarrow> bool" where
  "zero_length_read s \<longleftrightarrow> (\<exists>ctx. wf_in ctx \<and> same_buffer ctx (sym_in s) \<and> dx_read_compact_long ctx = (Inr 0, sym_in s))"

definition sym_safe :: "int \<Rightarrow> (symbol_ctx, 'a) io \<Rightarrow> bool" where
  "sym_safe buffer_length r \<longleftrightarrow> (\<forall>s res s'. wf_sym buffer_length s \<longrightarrow> r s = (res, s') \<longrightarrow>
     wf_sym buffer_length s' \<and> same_buffer (sym_in s) (sym_in s') \<and> (res = Inl UB \<longrightarrow> zero_length_read s'))"

lemma sym_safeD:
  assumes "sym_safe L r" "wf_sym L s" "r s = (res, s')"
  shows "wf_sym L s'" "same_buffer (sym_in s) (sym_in s')" "res = Inl UB \<Longrightarrow> zero_length_read s'"
  using assms unfolding sym_safe_def by blast+

lemma sym_safe_checked [safe_intros]:
  assumes "sym_safe L m" "\<And>x. sym_safe L (k x)"
  shows "sym_safe L (checked m k)"
  unfolding sym_safe_def
proof (intro allI impI)
  fix s res s'
  assume wf: "wf_sym L s" and e: "checked m k s = (res, s')"
  obtain r1 s1 where m: "m s = (r1, s1)" by fastforce
  note a = sym_safeD [OF assms(1) wf m]
  show "wf_sym L s' \<and> same_buffer (sym_in s) (sym_in s') \<and> (res = Inl UB \<longrightarrow> zero_length_read s')"
  proof (cases r1)
    case (Inl x)
    with e m a show ?thesis by (auto simp: io_simps)
  next
    case (Inr x)
    with e m have "k x s1 = (res, s')" by (simp add: io_simps)
    from sym_safeD [OF assms(2) a(1) this] a(2) show ?thesis using same_buffer_trans by blast
  qed
qed

lemma sym_safe_on_in [safe_intros]:
  assumes "safe_with 0 (\<lambda>_. True) m"
  shows "sym_safe L (on_in m)"
  unfolding sym_safe_def
proof (intro allI impI)
  fix s res s'
  assume wf: "wf_sym L s" and e: "on_in m s = (res, s')"
  obtain ctx where m: "m (sym_in s) = (res, ctx)" "s' = s\<lparr>sym_in := ctx\<rparr>"
    using e by (auto simp: on_in_def split: prod.splits)
  from safe_withD [OF assms _ _ m(1)] wf m(2)
  show "wf_sym L s' \<and> same_buffer (sym_in s) (sym_in s') \<and> (res = Inl UB \<longrightarrow> zero_length_read s')"
    by (auto simp: wf_sym_def wf_in_def)
qed

lemma sym_safe_fail [safe_intros]: "e \<noteq> UB \<Longrightarrow> sym_safe L (fail e)"
  by (simp add: sym_safe_def io_simps)

lemma sym_safe_if [safe_intros]:
  "(c \<Longrightarrow> sym_safe L a) \<Longrightarrow> (\<not> c \<Longrightarrow> sym_safe L b) \<Longrightarrow> sym_safe L (if c then a else b)"
  by simp

lemma sym_safe_finish [safe_intros]: "sym_safe L (finish_penta mem penta)"
  by (auto simp: sym_safe_def finish_penta_def wf_sym_def Let_def split: option.splits if_splits)

lemma sym_safe_assign [safe_intros]:
  "sym_safe L (\<lambda>s. (Inr (), s\<lparr>sym_result := v, cipher_result := c\<rparr>))"
  by (auto simp: sym_safe_def wf_sym_def)

lemma read_symbol_chars_safe:
  assumes "read_symbol_chars n k (block, ctx) = (res, (block', ctx'))" "wf_in ctx" "k + n \<le> length block"
  shows "wf_in ctx' \<and> same_buffer ctx ctx' \<and> length block' = length block \<and> res \<noteq> Inl UB"
  using assms
proof (induction n arbitrary: k block ctx)
  case (Suc n)
  obtain r c where r: "dx_read_utf_char ctx = (r, c)" by fastforce
  have pos: "current_in_buffer_position ctx + int 0 \<le> in_buffer_length ctx" using Suc.prems(2) by (auto simp: wf_in_def)
  note s = safe_withD(1-3) [OF safe_utf_char Suc.prems(2) pos r]
  show ?case
  proof (cases r)
    case (Inl e)
    with Suc.prems(1) r s show ?thesis by auto
  next
    case (Inr cp)
    show ?thesis
    proof (cases "sint cp > 0xFFFF")
      case True
      with Suc.prems(1) r s Inr show ?thesis by auto
    next
      case False
      have "mem_store block (int k) (ucast cp) = Some (block[k := ucast cp])"
        using Suc.prems(3) by (simp add: mem_store_def)
      with Suc.prems(1) r Inr False
      have "read_symbol_chars n (k + 1) (block[k := ucast cp], c) = (res, (block', ctx'))" by simp
      from Suc.IH [OF this s(1)] Suc.prems(3) s(2) show ?thesis using same_buffer_trans by auto
    qed
  qed
qed (auto simp: io_simps)

lemma read_symbol_in_buffer_safe: "sint len \<le> L \<Longrightarrow> sym_safe L (read_symbol_in_buffer mem len)"
  unfolding sym_safe_def
proof (intro allI impI)
  fix s res s'
  assume l: "sint len \<le> L" and wf: "wf_sym L s" and e: "read_symbol_in_buffer mem len s = (res, s')"
  obtain r b c where r: "read_symbol_chars (nat (sint len)) 0 (sym_buffer s, sym_in s) = (r, b, c)" by (metis prod_cases3)
  have k: "0 + nat (sint len) \<le> length (sym_buffer s)" and wi: "wf_in (sym_in s)" using wf l by (auto simp: wf_sym_def)
  note a = read_symbol_chars_safe [OF r wi k]
  then have "wf_sym L s'" "same_buffer (sym_in s) (sym_in s')" "res \<noteq> Inl UB"
    using e r wf by (auto simp: read_symbol_in_buffer_def Let_def wf_sym_def split: sum.splits option.splits if_splits)
  then show "wf_sym L s' \<and> same_buffer (sym_in s) (sym_in s') \<and> (res = Inl UB \<longrightarrow> zero_length_read s')" by simp
qed

lemma read_symbol_allocated_safe [safe_intros]: "sym_safe L (read_symbol_allocated mem len)"
  unfolding sym_safe_def
proof (intro allI impI)
  fix s res s'
  assume wf: "wf_sym L s" and e: "read_symbol_allocated mem len s = (res, s')"
  obtain r b c where r: "read_symbol_chars (nat (sint len)) 0 (replicate (nat (sint len) + 1) 0, sym_in s) = (r, b, c)"
    by (metis prod_cases3)
  have wi: "wf_in (sym_in s)" using wf by (auto simp: wf_sym_def)
  have "0 + nat (sint len) \<le> length (replicate (nat (sint len) + 1) (0 :: dxf_char))" by simp
  note a = read_symbol_chars_safe [OF r wi this]
  have "wf_sym L s'" "same_buffer (sym_in s) (sym_in s')" "res \<noteq> Inl UB"
    using e r wf a
    by (auto simp: read_symbol_allocated_def wf_sym_def simp del: replicate_Suc split: sum.splits option.splits if_splits)
  then show "wf_sym L s' \<and> same_buffer (sym_in s) (sym_in s') \<and> (res = Inl UB \<longrightarrow> zero_length_read s')" by simp
qed

lemma read_symbol_string_safe [safe_intros]: "sym_safe L (read_symbol_string mem L)"
  unfolding sym_safe_def
proof (intro allI impI)
  fix s res s'
  assume wf: "wf_sym L s" and e: "read_symbol_string mem L s = (res, s')"
  obtain r c where r: "dx_read_compact_long (sym_in s) = (r, c)" by fastforce
  define s1 where "s1 = s\<lparr>sym_in := c\<rparr>"
  have o: "on_in dx_read_compact_long s = (r, s1)" using r by (simp add: on_in_def s1_def)
  have "sym_safe L (on_in dx_read_compact_long)" by (intro safe_intros)
  note a = sym_safeD [OF this wf o]
  show "wf_sym L s' \<and> same_buffer (sym_in s) (sym_in s') \<and> (res = Inl UB \<longrightarrow> zero_length_read s')"
  proof (cases r)
    case (Inl x)
    with e a o show ?thesis unfolding read_symbol_string_def by (auto simp: io_simps)
  next
    case (Inr len)
    define k :: "(symbol_ctx, unit) io" where "k = (if sint len < 0 \<or> sint len > INT_MAX then fail dx_pcec_invalid_symbol_length
       else if len = 0 then
         (\<lambda>s. if mem 1 then (Inl UB, s) else (Inl dx_mec_insufficient_memory, s\<lparr>sym_result := None\<rparr>))
       else if sint len \<le> L then read_symbol_in_buffer mem len
       else read_symbol_allocated mem len)"
    have k: "k s1 = (res, s')" using e o Inr unfolding read_symbol_string_def k_def by (simp only: checked_Inr)
    show ?thesis
    proof (cases "len = 0")
      case True
      have "wf_in (sym_in s)" "same_buffer (sym_in s) (sym_in s1)" using wf a(2) by (simp_all add: wf_sym_def)
      then have "zero_length_read s1" using r Inr True by (auto simp: zero_length_read_def s1_def)
      with True k a show ?thesis by (auto simp: k_def wf_sym_def split: if_splits)
    next
      case False
      then have "sym_safe L k" unfolding k_def by (auto intro: safe_intros read_symbol_in_buffer_safe)
      from sym_safeD [OF this a(1) k] a(2) show ?thesis using same_buffer_trans by blast
    qed
  qed
qed

text \<open>The flags are at least one byte long, so a second marker ends the loop with an error.\<close>

lemma read_compact_int_advances:
  assumes "wf_in ctx" "dx_read_compact_int ctx = (Inr v, ctx')"
  shows "current_in_buffer_position ctx < current_in_buffer_position ctx'"
proof -
  obtain r c where r: "dx_read_unsigned_byte ctx = (r, c)" by fastforce
  obtain n where n: "r = Inr n" using assms(2) r by (cases r) (auto simp: dx_read_compact_int_def io_simps)
  have lt: "current_in_buffer_position ctx + 1 = current_in_buffer_position c"
    using r n by (auto simp: dx_read_unsigned_byte_def checked_def dx_validate_buffer_and_value_def get_byte_def return_def Let_def
        split: if_splits option.splits)
  have pos: "current_in_buffer_position ctx + int 0 \<le> in_buffer_length ctx" using assms(1) by (auto simp: wf_in_def)
  have "safe_with 0 (\<lambda>_. True) dx_read_unsigned_byte" by (intro safe_intros)
  note a = safe_withD(1,2) [OF this assms(1) pos r]
  have pos1: "current_in_buffer_position c + int 0 \<le> in_buffer_length c" using a(1) by (auto simp: wf_in_def)
  define k :: "(in_ctx, int32) io" where "k = (if sint n < 0x80 then return (signed_drop_bit 25 (push_bit 25 n))
       else if sint n < 0xC0 then
         checked dx_read_unsigned_byte (\<lambda>m.
           return (signed_drop_bit 18 (push_bit 18 (push_bit 8 n OR m))))
       else if sint n < 0xE0 then
         checked dx_read_unsigned_short (\<lambda>m.
           return (signed_drop_bit 11 (push_bit 11 (push_bit 16 n OR m))))
       else if sint n < 0xF0 then
         checked dx_read_unsigned_byte (\<lambda>tmp_byte.
         checked dx_read_unsigned_short (\<lambda>tmp_short.
           return (signed_drop_bit 4 (push_bit 4 (push_bit 24 n OR push_bit 16 tmp_byte OR tmp_short)))))
       else checked (skip_loop 5 n) (\<lambda>_. dx_read_int))"
  have "k c = (Inr v, ctx')" using assms(2) r n unfolding dx_read_compact_int_def k_def by (simp only: checked_Inr)
  moreover have "safe_with 0 (\<lambda>_. True) k" unfolding k_def by (intro safe_intros safe_skip_loop TrueI)
  ultimately have "same_buffer c ctx'" using safe_withD(2) [OF _ a(1) pos1] by blast
  then show ?thesis using lt by (simp add: same_buffer_def)
qed

lemma sym_safe_form [safe_intros]: "sym_safe L (read_symbol_form mem L i)"
  unfolding read_symbol_form_def
  by (rule sym_safe_if sym_safe_checked sym_safe_finish sym_safe_assign read_symbol_string_safe
      sym_safe_on_in safe_primitives safe_utf_string | rule sym_safe_fail, rule dx_error.distinct)+

lemma sym_safe_loop_last:
  assumes "b > 0" "0 < n"
  shows "sym_safe L (read_symbol_loop n mem L b)"
proof -
  obtain m where n: "n = Suc m" using assms(2) by (cases n) auto
  show ?thesis using assms(1) unfolding n read_symbol_loop.simps
    by (intro safe_intros safe_utf_string) simp_all
qed

lemma loop_last:
  assumes "b > 0"
  shows "read_symbol_loop (Suc n) mem L b = read_symbol_loop (Suc m) mem L b"
  using assms by (simp cong: if_cong)


text \<open>The first round.\<close>

lemma sym_safe_mru:
  assumes "sym_safe L r"
  shows "sym_safe L (\<lambda>s. r (s\<lparr>sym_flags := mru_event_flags s\<rparr>))"
  unfolding sym_safe_def
proof (intro allI impI)
  fix s res s'
  assume "wf_sym L s" and e: "r (s\<lparr>sym_flags := mru_event_flags s\<rparr>) = (res, s')"
  then have "wf_sym L (s\<lparr>sym_flags := mru_event_flags s\<rparr>)" by (simp add: wf_sym_def)
  from sym_safeD [OF assms this e]
  show "wf_sym L s' \<and> same_buffer (sym_in s) (sym_in s') \<and> (res = Inl UB \<longrightarrow> zero_length_read s')" by simp
qed

definition new_flags :: "nat \<Rightarrow> (nat \<Rightarrow> bool) \<Rightarrow> int \<Rightarrow> (symbol_ctx, unit) io" where
  "new_flags fuel mem L = (\<lambda>s.
    let event_flags_pos = current_in_buffer_position (sym_in s) in
    checked (on_in dx_read_compact_int) (\<lambda>tmp_flags s.
      read_symbol_loop fuel mem L (current_in_buffer_position (sym_in s) - event_flags_pos)
        (s\<lparr>mru_event_flags := tmp_flags, sym_flags := tmp_flags\<rparr>)) s)"

lemma new_flags_cases:
  assumes wf: "wf_sym L s"
  obtains e s1 where "e \<noteq> UB" "\<And>fuel. new_flags fuel mem L s = (Inl e, s1)" "wf_sym L s1" "same_buffer (sym_in s) (sym_in s1)"
  | b s1 where "b > 0" "\<And>fuel. new_flags fuel mem L s = read_symbol_loop fuel mem L b s1" "wf_sym L s1" "same_buffer (sym_in s) (sym_in s1)"
proof -
  obtain r c where r: "dx_read_compact_int (sym_in s) = (r, c)" by fastforce
  define s0 where "s0 = s\<lparr>sym_in := c\<rparr>"
  have o: "on_in dx_read_compact_int s = (r, s0)" using r by (simp add: on_in_def s0_def)
  have "sym_safe L (on_in dx_read_compact_int)" by (intro safe_intros)
  note a = sym_safeD(1,2) [OF this wf o]
  have wi: "wf_in (sym_in s)" and pos: "current_in_buffer_position (sym_in s) + int 0 \<le> in_buffer_length (sym_in s)"
    using wf by (auto simp: wf_in_def wf_sym_def)
  have "safe_with 0 (\<lambda>_. True) dx_read_compact_int" by (intro safe_intros)
  note ub = safe_withD(3) [OF this wi pos r]
  show thesis
  proof (cases r)
    case (Inl e)
    then show thesis using that(1) [of e s0] ub a o by (simp add: new_flags_def Let_def io_simps)
  next
    case (Inr v)
    have "current_in_buffer_position (sym_in s) < current_in_buffer_position c"
      by (rule read_compact_int_advances [OF wi r [unfolded Inr]])
    then have "0 < current_in_buffer_position (sym_in s0) - current_in_buffer_position (sym_in s)" by (simp add: s0_def)
    then show thesis
      using that(2) [of "current_in_buffer_position (sym_in s0) - current_in_buffer_position (sym_in s)"
          "s0\<lparr>mru_event_flags := v, sym_flags := v\<rparr>"] a o Inr
      by (simp add: new_flags_def Let_def io_simps wf_sym_def)
  qed
qed

lemma sym_safe_new_flags: "0 < n \<Longrightarrow> sym_safe L (new_flags n mem L)"
  unfolding sym_safe_def
proof (intro allI impI)
  fix s res s'
  assume n: "0 < n" and wf: "wf_sym L s" and e: "new_flags n mem L s = (res, s')"
  from wf show "wf_sym L s' \<and> same_buffer (sym_in s) (sym_in s') \<and> (res = Inl UB \<longrightarrow> zero_length_read s')"
  proof (cases rule: new_flags_cases [where mem = mem])
    case (1 err s1)
    with e show ?thesis by auto
  next
    case (2 b s1)
    with e have "read_symbol_loop n mem L b s1 = (res, s')" by simp
    from sym_safeD [OF sym_safe_loop_last [OF 2(1) n] 2(3) this] 2(4) show ?thesis using same_buffer_trans by blast
  qed
qed

lemma sym_safe_loop: "sym_safe L (read_symbol_loop (Suc (Suc n)) mem L 0)"
  unfolding read_symbol_loop.simps(2) [of "Suc n"] new_flags_def [symmetric]
  by (intro safe_intros sym_safe_mru sym_safe_loop_last sym_safe_new_flags) simp_all

lemma on_in_cases:
  assumes "wf_sym L s" "safe_with 0 (\<lambda>_. True) m"
  obtains e s1 where "on_in m s = (Inl e, s1)" | x s1 where "on_in m s = (Inr x, s1)" "wf_sym L s1"
proof -
  obtain r s1 where o: "on_in m s = (r, s1)" by fastforce
  have "wf_sym L s1" by (rule sym_safeD(1) [OF sym_safe_on_in [OF assms(2)] assms(1) o])
  with o that show thesis by (cases r) auto
qed

lemma loop_fuel:
  assumes wf: "wf_sym L s"
  shows "read_symbol_loop (Suc (Suc n)) mem L 0 s = read_symbol_loop 2 mem L 0 s"
proof -
  have u: "safe_with 0 (\<lambda>_. True) dx_read_unsigned_byte" by (intro safe_intros)
  define two :: nat where "two = Suc (Suc 0)"
  have "read_symbol_loop (Suc (Suc n)) mem L 0 s = read_symbol_loop two mem L 0 s"
    using wf u
  proof (cases rule: on_in_cases)
    case (1 e s1)
    then show ?thesis unfolding two_def read_symbol_loop.simps(2) [where event_flags_bytes = 0] by (simp only: checked_Inl)
  next
    case (2 i s1)
    have m: "read_symbol_loop (Suc n) mem L 1 t = read_symbol_loop (Suc 0) mem L 1 t" for t
      by (simp only: loop_last [of 1 n mem L 0])
    have f: "new_flags (Suc n) mem L s1 = new_flags (Suc 0) mem L s1"
      using 2(2)
    proof (cases rule: new_flags_cases [where mem = mem])
      case (2 b s2)
      then show ?thesis by (simp only: loop_last [of b n mem L 0])
    qed simp
    show ?thesis
      unfolding two_def read_symbol_loop.simps(2) [where event_flags_bytes = 0] checked_Inr [where m = "on_in dx_read_unsigned_byte" and s = s, OF 2(1)]
        new_flags_def [symmetric] using m f by simp
  qed
  then show ?thesis by (simp add: two_def numeral_2_eq_2)
qed

section \<open>The round trip of symbols\<close>

text \<open>\<open>f\<close> is what a successful read does to the variables.\<close>

definition sym_receives :: "(symbol_ctx, unit) io \<Rightarrow> byte list \<Rightarrow> (symbol_ctx \<Rightarrow> symbol_ctx) \<Rightarrow> bool" where
  "sym_receives r bs f \<longleftrightarrow> (\<forall>s rest. wf_in (sym_in s) \<longrightarrow> pending (sym_in s) = bs @ rest \<longrightarrow>
     r s = (Inr (), f (s\<lparr>sym_in := advance (length bs) (sym_in s)\<rparr>)))"

lemma sym_receives_on_in:
  assumes "receives m bs v" "sym_receives (k v) cs f"
  shows "sym_receives (checked (on_in m) k) (bs @ cs) f"
  unfolding sym_receives_def
proof (intro allI impI)
  fix s :: symbol_ctx and rest
  assume wf: "wf_in (sym_in s)" and p: "pending (sym_in s) = (bs @ cs) @ rest"
  define s1 where "s1 = s\<lparr>sym_in := advance (length bs) (sym_in s)\<rparr>"
  have "on_in m s = (Inr v, s1)" using assms(1) wf p by (simp add: receives_def on_in_def s1_def)
  moreover have "wf_in (sym_in s1)" "pending (sym_in s1) = cs @ rest"
    using pending_advance [OF wf, of bs "cs @ rest"] p by (simp_all add: s1_def)
  ultimately show "checked (on_in m) k s = (Inr (), f (s\<lparr>sym_in := advance (length (bs @ cs)) (sym_in s)\<rparr>))"
    using assms(2) by (simp add: sym_receives_def io_simps s1_def)
qed

lemma sym_receives_ubyte:
  "sym_receives (k (ucast b)) cs f \<Longrightarrow> sym_receives (checked (on_in dx_read_unsigned_byte) k) (b # cs) f"
  using sym_receives_on_in [of dx_read_unsigned_byte "[b]" "ucast b" k cs f] receives_unsigned_byte [of b] by simp

lemma sym_receives_ushort:
  "sym_receives (k (push_bit 8 (ucast b0) OR ucast b1)) cs f \<Longrightarrow>
     sym_receives (checked (on_in dx_read_unsigned_short) k) (b0 # b1 # cs) f"
  using sym_receives_on_in [of dx_read_unsigned_short "[b0, b1]" "push_bit 8 (ucast b0) OR ucast b1" k cs f]
    receives_unsigned_short [of b0 b1] by simp

lemma sym_receives_int:
  "sym_receives (k v) cs f \<Longrightarrow> sym_receives (checked (on_in dx_read_int) k) (int_bytes v @ cs) f"
  by (rule sym_receives_on_in [OF receives_int_bytes])

lemma sym_receives_finish:
  "dx_encode_penta penta (penta_bits penta 0) = c \<Longrightarrow> c \<noteq> 0 \<Longrightarrow>
     sym_receives (finish_penta mem penta) [] (\<lambda>s. s\<lparr>cipher_result := c\<rparr>)"
  by (simp add: sym_receives_def finish_penta_def advance_def Let_def)

text \<open>Decoding and encoding again.\<close>

lemma penta_bits_le: "unat p < 2 ^ (5 * n) \<Longrightarrow> k \<le> n \<Longrightarrow> penta_bits p (5 * k) \<le> 5 * n"
proof (induction "n - k" arbitrary: k)
  case 0
  then have k: "k = n" by simp
  have "unat (drop_bit (5 * n) p) = 0" 
    unfolding unat_drop_bit_eq drop_bit_eq_div [where ?'a = nat] using 0(2) by simp
  then have "drop_bit (5 * n) p = 0" by (simp only: unat_eq_zero)
  then show ?case unfolding k by (subst penta_bits.simps) simp
next
  case (Suc m)
  then have "penta_bits p (5 * (k + 1)) \<le> 5 * n" by (intro Suc.hyps(1)) simp_all
  then show ?case using Suc by (subst penta_bits.simps) (simp add: add.commute)
qed

lemma penta_bits_ge: "drop_bit m p \<noteq> 0 \<Longrightarrow> m < 64 \<Longrightarrow> m < penta_bits p len"
proof (induction p len rule: penta_bits.induct)
  case (1 p len)
  show ?case
  proof (cases "len < 64 \<and> drop_bit len p \<noteq> 0")
    case True
    with 1 show ?thesis by (subst penta_bits.simps) simp
  next
    case False
    then have "\<not> len \<le> m" if "len < 64"
    proof -
      have "drop_bit len p = 0" using False that by simp
      then have "drop_bit (m - len) (drop_bit len p) = 0" by simp
      then show ?thesis using 1(2) by (auto simp: drop_bit_drop_bit)
    qed
    then have "m < len" using 1(3) by (cases "len < 64") simp_all
    with False show ?thesis by (subst penta_bits.simps) (simp only: if_False)
  qed
qed

lemma bound_of_bits: "(\<And>i. n \<le> i \<Longrightarrow> \<not> bit (p :: long64) i) \<Longrightarrow> unat p < 2 ^ n"
proof -
  assume a: "\<And>i. n \<le> i \<Longrightarrow> \<not> bit p i"
  have "p = take_bit n p" by (rule bit_word_eqI) (metis a bit_take_bit_iff not_le)
  then have "unat p = take_bit n (unat p)" by (metis unsigned_take_bit_eq)
  then show ?thesis by (metis take_bit_nat_less_exp)
qed

lemma bits_of_bound: "unat (p :: long64) < 2 ^ n \<Longrightarrow> n \<le> i \<Longrightarrow> \<not> bit p i"
proof -
  assume a: "unat p < 2 ^ n" "n \<le> i"
  from a(1) power_increasing [OF a(2), of "2 :: nat"] have "unat p < 2 ^ i" by (rule order_less_le_trans) simp
  then have "unat p = take_bit i (unat p)" by (simp add: take_bit_nat_eq_self)
  then have "\<not> bit (unat p) i" by (metis bit_take_bit_iff less_irrefl)
  then show "\<not> bit p i" by (simp add: bit_unsigned_iff)
qed

lemma drop_penta_of: "drop_bit 30 (penta_of cipher 28) = 28" "drop_bit 30 (penta_of cipher 29) = 29"
proof -
  have d: "drop_bit 30 (penta_of cipher tp) = tp" if "\<And>i. bit tp i \<Longrightarrow> i < 34" for tp
  proof (rule bit_word_eqI)
    fix i assume "i < LENGTH(64)"
    then show "bit (drop_bit 30 (penta_of cipher tp)) i = bit tp i" using that [of i]
      by (auto simp: penta_of_def bit_simps)
  qed
  have b: "i < 34" if "unat tp < 2 ^ 5" "bit tp i" for tp :: long64 and i
    using bits_of_bound [OF that(1), of i] that(2) by (cases "5 \<le> i") simp_all
  have u: "unat (28 :: long64) < 2 ^ 5" "unat (29 :: long64) < 2 ^ 5" by simp_all
  show "drop_bit 30 (penta_of cipher 28) = 28" by (rule d) (rule b [OF u(1)])
  show "drop_bit 30 (penta_of cipher 29) = 29" by (rule d) (rule b [OF u(2)])
qed

lemma bit_penta_of: "bit (penta_of cipher tp) i \<longleftrightarrow> (if i < 30 then bit cipher i else i < 64 \<and> bit tp (i - 30))"
  by (auto simp: penta_of_def bit_simps dest: bit_imp_le_length)

lemma penta_of_bound: "tp \<in> {0, 28, 29} \<Longrightarrow> unat (penta_of cipher tp) < 2 ^ 35"
proof -
  assume t: "tp \<in> {0, 28, 29}"
  then have "unat tp < 2 ^ 5" by auto
  then have b: "5 \<le> i \<Longrightarrow> \<not> bit tp i" for i by (rule bits_of_bound)
  then show ?thesis by (intro bound_of_bits) (auto simp: bit_penta_of)
qed

lemma encode_decode_cipher:
  assumes "dx_decode_cipher c = Inr penta"
  shows "dx_encode_penta penta (penta_bits penta 0) = c" "unat penta < 2 ^ 35"
proof -
  consider (one) "bit c 30" "\<not> bit c 31" "penta = penta_of c 0"
    | (two) "\<not> bit c 30" "bit c 31" "penta = penta_of c 28" | (three) "bit c 30" "bit c 31" "penta = penta_of c 29"
    using assms unfolding dx_decode_cipher_cases by (auto split: if_splits)
  then have "dx_encode_penta penta (penta_bits penta 0) = c \<and> unat penta < 2 ^ 35"
  proof cases
    case one
    have p: "unat penta < 2 ^ 35" unfolding one(3) by (rule penta_of_bound) simp
    have p30: "unat penta < 2 ^ 30" unfolding one(3) by (rule bound_of_bits) (simp add: bit_penta_of)
    then have l: "penta_bits penta 0 \<le> 30" using penta_bits_le [of penta 6 0] by simp
    show ?thesis using dx_encode_penta_cases(1) [OF p l p30] p
        cipher_of_penta_of [OF tags_low(1), of c 0] one by (simp only: bit_tags) simp
  next
    case two
    have p: "unat penta < 2 ^ 35" unfolding two(3) by (rule penta_of_bound) simp
    have d: "drop_bit 30 penta = 28" unfolding two(3) by (rule drop_penta_of)
    then have l: "\<not> penta_bits penta 0 \<le> 30" using penta_bits_ge [of 30 penta 0] by simp
    show ?thesis using dx_encode_penta_cases(2) [OF p l d] p
        cipher_of_penta_of [OF tags_low(2), of c 28] two by (simp only: bit_tags) simp
  next
    case three
    have p: "unat penta < 2 ^ 35" unfolding three(3) by (rule penta_of_bound) simp
    have d: "drop_bit 30 penta = 29" unfolding three(3) by (rule drop_penta_of)
    then have l: "\<not> penta_bits penta 0 \<le> 30" using penta_bits_ge [of 30 penta 0] by simp
    show ?thesis using dx_encode_penta_cases(3) [OF p l d] p
        cipher_of_penta_of [OF tags_low(3), of c 29] three by (simp only: bit_tags) simp
  qed
  then show "dx_encode_penta penta (penta_bits penta 0) = c" "unat penta < 2 ^ 35" by simp_all
qed


text \<open>The five forms of a penta on the wire.\<close>

definition penta_bytes :: "long64 \<Rightarrow> byte list" where
  "penta_bytes penta =
     (if penta = 0 then [0xFE]
      else if sint penta < 0x8000 then short_bytes (ucast penta)
      else if sint penta < 0x100000 then ucast (0xE0 OR drop_bit 16 (ucast penta :: int32)) # short_bytes (ucast penta)
      else if sint penta < 0x40000000 then int_bytes (0x80000000 OR ucast penta)
      else ucast (0xF0 OR (ucast (drop_bit 32 penta) :: int32)) # int_bytes (ucast penta))"

lemma uint_penta:
  assumes "unat (penta :: long64) < 2 ^ 35"
  shows "uint penta < 2 ^ 35" "sint penta = uint penta"
proof -
  have "int (unat penta) < 2 ^ 35" using assms by (simp only: of_nat_less_numeral_power_cancel_iff)
  then show u: "uint penta < 2 ^ 35" by simp
  have "signed_take_bit 63 (uint penta) = uint penta"
  proof (rule signed_take_bit_int_eq_self)
    have "- (2 ^ 63) \<le> (0 :: int)" by simp
    then show "- (2 ^ 63) \<le> uint penta" by (rule order_trans) simp
    show "uint penta < 2 ^ 63" by (rule order_less_trans [OF u]) simp
  qed
  then show "sint penta = uint penta" by (simp add: sint_uint)
qed

lemma sends_symbol_cipher:
  assumes "dx_decode_cipher cipher = Inr penta" "cipher \<noteq> 0"
  shows "sends 5 (dx_codec_write_symbol mem cipher symbol) (penta_bytes penta)"
proof -
  have p: "unat penta < 2 ^ 35" by (rule encode_decode_cipher [OF assms(1)])
  then have "sint penta < 0x0800000000" using uint_penta by simp
  note w = sends_mono [OF sends_byte, of 5] sends_mono [OF sends_short, of 5] sends_mono [OF sends_int, of 5]
  have c: "sends 5 (checked (dx_write_byte mem b) (\<lambda>_. dx_write_short mem v)) (b # short_bytes v)" for b v
    using sends_seq [OF sends_byte [of mem b] sends_short [of mem v], of 5] by simp
  have d: "sends 5 (checked (dx_write_byte mem b) (\<lambda>_. dx_write_int mem v)) (b # int_bytes v)" for b v
    using sends_seq [OF sends_byte [of mem b] sends_int [of mem v], of 5] by simp
  show ?thesis using assms(2) \<open>sint penta < _\<close>
    unfolding dx_codec_write_symbol_def penta_bytes_def assms(1) sum.case
    by (simp add: w c d)
qed


lemma byte_less: "(ucast (b :: byte) :: int32) < 0x80 \<longleftrightarrow> \<not> bit b 7"
  "(ucast b :: int32) < 0xC0 \<longleftrightarrow> \<not> bit b 7 \<or> \<not> bit b 6"
  "(ucast b :: int32) < 0xE0 \<longleftrightarrow> \<not> bit b 7 \<or> \<not> bit b 6 \<or> \<not> bit b 5"
  "(ucast b :: int32) < 0xF0 \<longleftrightarrow> \<not> bit b 7 \<or> \<not> bit b 6 \<or> \<not> bit b 5 \<or> \<not> bit b 4"
  "(ucast b :: int32) < 0xF8 \<longleftrightarrow> \<not> bit b 7 \<or> \<not> bit b 6 \<or> \<not> bit b 5 \<or> \<not> bit b 4 \<or> \<not> bit b 3"
proof -
  have u: "uint (ucast b :: int32) = uint b" by (rule uint_up_ucast) (simp add: is_up)
  show "(ucast (b :: byte) :: int32) < 0x80 \<longleftrightarrow> \<not> bit b 7"
  "(ucast b :: int32) < 0xC0 \<longleftrightarrow> \<not> bit b 7 \<or> \<not> bit b 6"
  "(ucast b :: int32) < 0xE0 \<longleftrightarrow> \<not> bit b 7 \<or> \<not> bit b 6 \<or> \<not> bit b 5"
  "(ucast b :: int32) < 0xF0 \<longleftrightarrow> \<not> bit b 7 \<or> \<not> bit b 6 \<or> \<not> bit b 5 \<or> \<not> bit b 4"
  "(ucast b :: int32) < 0xF8 \<longleftrightarrow> \<not> bit b 7 \<or> \<not> bit b 6 \<or> \<not> bit b 5 \<or> \<not> bit b 4 \<or> \<not> bit b 3"
    by (simp_all add: word_less_def u byte_range)
qed

lemma loop_form:
  assumes "sym_receives (read_symbol_form mem L (ucast b)) bs f" "uint b < 0xF8 \<or> uint b > 0xF9"
  shows "sym_receives (read_symbol_loop (Suc fuel) mem L flags) (b # bs) f"
proof -
  have u: "uint (ucast b :: int32) = uint b" by (rule uint_up_ucast) (simp add: is_up)
  have "(ucast b :: int32) \<noteq> 0xF8" "(ucast b :: int32) \<noteq> 0xF9" using assms(2) by (auto simp: word_uint_eq_iff u)
  then have "sym_receives (if (ucast b :: int32) = 0xF8 then
         (if flags > 0 then fail dx_pcec_invalid_event_flag
          else (\<lambda>s. read_symbol_loop fuel mem L 1 (s\<lparr>sym_flags := mru_event_flags s\<rparr>)))
       else if (ucast b :: int32) = 0xF9 then
         (if flags > 0 then fail dx_pcec_invalid_event_flag
          else (\<lambda>s.
            let event_flags_pos = current_in_buffer_position (sym_in s) in
            checked (on_in dx_read_compact_int) (\<lambda>tmp_flags s.
              read_symbol_loop fuel mem L (current_in_buffer_position (sym_in s) - event_flags_pos)
                (s\<lparr>mru_event_flags := tmp_flags, sym_flags := tmp_flags\<rparr>)) s))
       else read_symbol_form mem L (ucast b)) bs f" using assms(1) by simp
  then show ?thesis unfolding read_symbol_loop.simps by (rule sym_receives_ubyte)
qed

lemma plus_disjoint: "(\<And>i. \<not> (bit x i \<and> bit y i)) \<Longrightarrow> x + y = x OR (y :: 'a::len word)"
  by (rule disjunctive_add) simp

lemma join_bytes:
  "push_bit 8 (ucast (b0 :: byte)) + ucast (b1 :: byte) = (push_bit 8 (ucast b0) OR ucast b1 :: int32)"
  "push_bit 24 (ucast (b0 :: byte) AND 0x3F) + push_bit 16 (ucast b1) + (push_bit 8 (ucast (b2 :: byte)) OR ucast (b3 :: byte))
     = (push_bit 24 (ucast b0 AND mask 6) OR push_bit 16 (ucast b1) OR push_bit 8 (ucast b2) OR ucast b3 :: int32)"
  "push_bit 16 (ucast b0 AND 0x0F) + (push_bit 8 (ucast b1) OR ucast b2)
     = (push_bit 16 (ucast b0 AND mask 4) OR push_bit 8 (ucast b1) OR ucast b2 :: int32)"
  "push_bit 32 (ucast ((ucast b0 :: int32) AND 0x07)) + (scast (w :: int32) AND 0xFFFFFFFF)
     = (push_bit 32 (ucast ((ucast b0 :: int32) AND mask 3)) OR ucast w :: long64)"
proof -
  have m: "(0x3F :: int32) = mask 6" "(0x0F :: int32) = mask 4" "(0x07 :: int32) = mask 3" "(0xFFFFFFFF :: long64) = mask 32"
    by (simp_all add: mask_eq_exp_minus_1)
  have s: "(scast w AND mask 32 :: long64) = ucast w"
  proof (rule bit_word_eqI)
    fix i assume "i < LENGTH(64)"
    moreover have "min 31 i = i" if "i < 32" using that by simp
    moreover have "\<not> bit w i" if "\<not> i < 32" using that bit_imp_le_length [of w i] by auto
    ultimately show "bit (scast w AND mask 32 :: long64) i = bit (ucast w :: long64) i"
      by (cases "i < 32") (simp_all add: bit_and_iff bit_mask_iff bit_signed_iff bit_unsigned_iff)
  qed
  show "push_bit 8 (ucast (b0 :: byte)) + ucast (b1 :: byte) = (push_bit 8 (ucast b0) OR ucast b1 :: int32)"
    by (rule plus_disjoint) (auto simp: bit_simps dest: bit_imp_le_length)
  show "push_bit 16 (ucast b0 AND 0x0F) + (push_bit 8 (ucast b1) OR ucast b2)
     = (push_bit 16 (ucast b0 AND mask 4) OR push_bit 8 (ucast b1) OR ucast b2 :: int32)"
    unfolding m or.assoc by (rule plus_disjoint) (auto simp: bit_simps dest: bit_imp_le_length)
  show "push_bit 32 (ucast ((ucast b0 :: int32) AND 0x07)) + (scast (w :: int32) AND 0xFFFFFFFF)
     = (push_bit 32 (ucast ((ucast b0 :: int32) AND mask 3)) OR ucast w :: long64)"
    unfolding m s by (rule plus_disjoint) (auto simp: bit_simps dest: bit_imp_le_length)
  have "push_bit 24 (ucast b0 AND mask 6) + push_bit 16 (ucast b1) = (push_bit 24 (ucast b0 AND mask 6) OR push_bit 16 (ucast b1) :: int32)"
    by (rule plus_disjoint) (auto simp: bit_simps dest: bit_imp_le_length)
  then show "push_bit 24 (ucast (b0 :: byte) AND 0x3F) + push_bit 16 (ucast b1) + (push_bit 8 (ucast (b2 :: byte)) OR ucast (b3 :: byte))
     = (push_bit 24 (ucast b0 AND mask 6) OR push_bit 16 (ucast b1) OR push_bit 8 (ucast b2) OR ucast b3 :: int32)"
    unfolding m by (simp only: or.assoc) (rule plus_disjoint [THEN trans], (auto simp: bit_simps or.assoc dest: bit_imp_le_length))
qed


lemma bit_leads:
  "bit (0xE0 :: int32) i \<longleftrightarrow> 5 \<le> i \<and> i < 8" "bit (0xF0 :: int32) i \<longleftrightarrow> 4 \<le> i \<and> i < 8"
proof -
  have "(0xE0 :: int32) = push_bit 5 (mask 3)" "(0xF0 :: int32) = push_bit 4 (mask 4)"
    by (simp_all add: push_bit_eq_mult mask_eq_exp_minus_1)
  then show "bit (0xE0 :: int32) i \<longleftrightarrow> 5 \<le> i \<and> i < 8" "bit (0xF0 :: int32) i \<longleftrightarrow> 4 \<le> i \<and> i < 8"
    by (auto simp only: bit_push_bit_iff bit_mask_iff) auto
qed

lemma bit_low_20:
  "bit (push_bit 16 (ucast (b :: byte) AND mask 4) OR push_bit 8 (ucast (b1 :: byte)) OR ucast (b2 :: byte) :: int32) i \<longleftrightarrow>
    (if i < 8 then bit b2 i else if i < 16 then bit b1 (i - 8) else i < 20 \<and> bit b (i - 16))"
  by (auto simp: bit_simps dest: bit_imp_le_length)

lemma low_30:
  "(push_bit 24 (ucast b0 AND mask 6) OR push_bit 16 (ucast b1) OR push_bit 8 (ucast b2) OR ucast b3 :: int32) =
    int_of_bytes b0 b1 b2 b3 AND mask 30"
proof (rule bit_word_eqI)
  fix i assume i: "i < LENGTH(32)"
  have b: "bit (b :: byte) j \<Longrightarrow> j < 8" for b j by (drule bit_imp_le_length) simp
  have p: "bit (push_bit k (ucast b) :: int32) i \<longleftrightarrow> k \<le> i \<and> bit (b :: byte) (i - k)" for k b
    using i b [of b "i - k"] by (auto simp: bit_push_bit_iff bit_unsigned_iff)
  have q: "bit (push_bit 24 (ucast b0 AND mask 6) :: int32) i \<longleftrightarrow> 24 \<le> i \<and> i < 30 \<and> bit b0 (i - 24)"
    using i b [of b0 "i - 24"] by (auto simp: bit_push_bit_iff bit_and_iff bit_mask_iff bit_unsigned_iff)
  have z: "bit (ucast b3 :: int32) i \<longleftrightarrow> bit b3 i" using i by (simp add: bit_unsigned_iff)
  have n: "j < 8" if "bit (b :: byte) j" for b j using b that .
  show "bit (push_bit 24 (ucast b0 AND mask 6) OR push_bit 16 (ucast b1) OR push_bit 8 (ucast b2) OR ucast b3 :: int32) i =
    bit (int_of_bytes b0 b1 b2 b3 AND mask 30) i"
    unfolding bit_or_iff p q z bit_and_iff bit_mask_iff bit_int_of_bytes using i
    by (cases "i < 8"; cases "i < 16"; cases "i < 24") (auto dest: n)
qed

lemma penta_received:
  assumes d: "dx_decode_cipher c = Inr penta" and c: "c \<noteq> 0"
  shows "sym_receives (read_symbol_loop (Suc fuel) mem L flags) (penta_bytes penta) (\<lambda>s. s\<lparr>cipher_result := c\<rparr>)"
proof -
  note e = encode_decode_cipher [OF d]
  have f: "sym_receives (finish_penta mem q) [] (\<lambda>s. s\<lparr>cipher_result := c\<rparr>)" if "q = penta" for q
    using sym_receives_finish [OF e(1) c] that by simp
  note u = uint_penta [OF e(2)]
  have low: "\<not> bit penta i" if "uint penta < 2 ^ n" "n \<le> i" for n i
  proof -
    have "int (unat penta) < int (2 ^ n)" using that(1) by simp
    then have "unat penta < 2 ^ n" by (simp only: of_nat_less_iff)
    then show ?thesis using that(2) by (rule bits_of_bound)
  qed
  have lt: "uint b < 0xF8 \<or> uint b > 0xF9" if "\<not> bit b 7 \<or> \<not> bit b 6 \<or> \<not> bit b 5 \<or> \<not> bit b 4 \<or> \<not> bit b 3" for b :: byte
    using that byte_range(5) [of b] by simp
  consider (zero) "penta = 0" | (p15) "penta \<noteq> 0" "uint penta < 2 ^ 15"
    | (p20) "penta \<noteq> 0" "\<not> uint penta < 2 ^ 15" "uint penta < 2 ^ 20"
    | (p30) "penta \<noteq> 0" "\<not> uint penta < 2 ^ 15" "\<not> uint penta < 2 ^ 20" "uint penta < 2 ^ 30"
    | (p35) "penta \<noteq> 0" "\<not> uint penta < 2 ^ 15" "\<not> uint penta < 2 ^ 20" "\<not> uint penta < 2 ^ 30" "uint penta < 2 ^ 35"
    using u(1) by blast
  then show ?thesis
  proof cases
    case zero
    have "sym_receives (read_symbol_form mem L (ucast (0xFE :: byte))) [] (\<lambda>s. s\<lparr>cipher_result := c\<rparr>)"
      using f [of 0] zero by (simp add: read_symbol_form_def)
    then show ?thesis unfolding penta_bytes_def if_P [OF zero] by (rule loop_form) simp
  next
    case p15
    define b0 b1 :: byte where "b0 = ucast (signed_drop_bit 8 (ucast penta :: short16))" and "b1 = ucast (ucast penta :: short16)"
    have b: "penta_bytes penta = [b0, b1]" using p15 u(2) by (simp add: penta_bytes_def short_bytes_def b0_def b1_def)
    note l = low [OF p15(2)]
    have l': "bit penta i \<Longrightarrow> i < 15" for i using l [of i] by (meson not_le)
    have b7: "\<not> bit b0 7" using l [of 15] by (simp add: b0_def bit_unsigned_iff bit_signed_drop_bit_iff)
    have "ucast (push_bit 8 (ucast b0) + ucast b1 :: int32) = penta"
      unfolding join_bytes
      by (rule bit_word_eqI) (auto simp: b0_def b1_def bit_simps l dest: l')
    from f [OF this] have "sym_receives (read_symbol_form mem L (ucast b0)) [b1] (\<lambda>s. s\<lparr>cipher_result := c\<rparr>)"
      unfolding read_symbol_form_def byte_less using b7 by (simp add: sym_receives_ubyte)
    then show ?thesis unfolding b by (rule loop_form) (use lt b7 in blast)
  next
    case p20
    define b :: byte where "b = ucast (0xE0 OR drop_bit 16 (ucast penta :: int32))"
    define b1 b2 :: byte where "b1 = ucast (signed_drop_bit 8 (ucast penta :: short16))" and "b2 = ucast (ucast penta :: short16)"
    have bs: "penta_bytes penta = [b, b1, b2]"
      using p20 u(2) by (simp add: penta_bytes_def short_bytes_def b_def b1_def b2_def)
    note l = low [OF p20(3)]
    have l': "bit penta i \<Longrightarrow> i < 20" for i using l [of i] by (meson not_le)
    have bb: "bit b i \<longleftrightarrow> i < 8 \<and> (5 \<le> i \<or> bit penta (16 + i))" for i
      unfolding b_def bit_unsigned_iff bit_or_iff bit_leads bit_drop_bit_eq by (auto dest: l')
    have h: "bit b 7" "bit b 6" "bit b 5" "\<not> bit b 4" unfolding bb using l [of 20] by simp_all
    have "ucast (push_bit 16 (ucast b AND 0x0F) + (push_bit 8 (ucast b1) OR ucast b2) :: int32) = penta"
      unfolding join_bytes
    proof (rule bit_word_eqI)
      fix i assume "i < LENGTH(64)"
      have "bit b1 (i - 8) = bit penta i" if "8 \<le> i" "i < 16"
      proof -
        have "i - 8 < 8" using that by linarith
        then show ?thesis using that by (simp add: b1_def bit_unsigned_iff bit_signed_drop_bit_iff)
      qed
      moreover have "bit b2 i = bit penta i" if "i < 8" using that by (simp add: b2_def bit_unsigned_iff)
      moreover have "bit b (i - 16) = bit penta i" if "16 \<le> i" "i < 20" using that by (simp add: bb) linarith
      ultimately show "bit (ucast (push_bit 16 (ucast b AND mask 4) OR push_bit 8 (ucast b1) OR ucast b2 :: int32) :: long64) i = bit penta i"
        unfolding bit_unsigned_iff bit_low_20 using l' [of i] by auto
    qed
    from f [OF this] have "sym_receives (read_symbol_form mem L (ucast b)) [b1, b2] (\<lambda>s. s\<lparr>cipher_result := c\<rparr>)"
      unfolding read_symbol_form_def byte_less using h by (simp add: sym_receives_ushort)
    then show ?thesis unfolding bs by (rule loop_form) (use lt h in blast)
  next
    case p30
    define v :: int32 where "v = 0x80000000 OR ucast penta"
    define b0 b1 b2 b3 :: byte where "b0 = ucast (signed_drop_bit 24 v)" and "b1 = ucast (signed_drop_bit 16 v)"
      and "b2 = ucast (signed_drop_bit 8 v)" and "b3 = ucast v"
    have bs: "penta_bytes penta = [b0, b1, b2, b3]"
      using p30 u(2) by (simp add: penta_bytes_def int_bytes_def b0_def b1_def b2_def b3_def v_def)
    note l = low [OF p30(4)]
    have l': "bit penta i \<Longrightarrow> i < 30" for i using l [of i] by (meson not_le)
    have bv: "bit v i \<longleftrightarrow> i = 31 \<or> bit penta i \<and> i < 30" for i
      unfolding v_def bit_or_iff bit_tags bit_unsigned_iff by (auto dest: l')
    have h: "bit b0 7" "\<not> bit b0 6" by (simp_all add: b0_def bit_unsigned_iff bit_signed_drop_bit_iff bv)
    have "ucast (push_bit 24 (ucast b0 AND 0x3F) + push_bit 16 (ucast b1) + (push_bit 8 (ucast b2) OR ucast b3) :: int32) = penta"
      unfolding join_bytes low_30 b0_def b1_def b2_def b3_def int_of_int_bytes
      by (rule bit_word_eqI) (auto simp: bv bit_unsigned_iff bit_and_iff bit_mask_iff dest: l')
    from f [OF this] have "sym_receives (read_symbol_form mem L (ucast b0)) [b1, b2, b3] (\<lambda>s. s\<lparr>cipher_result := c\<rparr>)"
      unfolding read_symbol_form_def byte_less using h by (simp add: sym_receives_ubyte sym_receives_ushort)
    then show ?thesis unfolding bs by (rule loop_form) (use lt h in blast)
  next
    case p35
    define b :: byte where "b = ucast (0xF0 OR (ucast (drop_bit 32 penta) :: int32))"
    have bs: "penta_bytes penta = b # int_bytes (ucast penta)"
      using p35 u(2) by (simp add: penta_bytes_def b_def)
    note l = low [OF p35(5)]
    have l': "bit penta i \<Longrightarrow> i < 35" for i using l [of i] by (meson not_le)
    have bb: "bit b i \<longleftrightarrow> i < 8 \<and> (4 \<le> i \<or> bit penta (32 + i))" for i
      unfolding b_def bit_unsigned_iff bit_or_iff bit_leads bit_drop_bit_eq by (auto dest: l')
    have h: "bit b 7" "bit b 6" "bit b 5" "bit b 4" "\<not> bit b 3" unfolding bb using l [of 35] by simp_all
    have "push_bit 32 (ucast ((ucast b :: int32) AND 0x07)) + (scast (ucast penta :: int32) AND 0xFFFFFFFF) = penta"
      unfolding join_bytes
      by (rule bit_word_eqI) (auto simp: bb bit_simps l dest: l')
    from f [OF this]
    have "sym_receives (read_symbol_form mem L (ucast b)) (int_bytes (ucast penta) @ []) (\<lambda>s. s\<lparr>cipher_result := c\<rparr>)"
      unfolding read_symbol_form_def byte_less using h by (simp del: append_Nil2 add: sym_receives_int)
    then show ?thesis unfolding bs by (intro loop_form) (simp, use lt h in blast)
  qed
qed

lemma symbol_cipher_read:
  assumes "wf_out octx" "cipher \<noteq> 0" "dx_codec_write_symbol mem cipher symbol octx = (Inr (), octx')"
    and "wf_in (sym_in s)" "written octx @ pending (sym_in s) = written octx' @ rest"
  shows "dx_codec_read_symbol mem' L s = (Inr (), s\<lparr>sym_flags := 0, cipher_result := cipher,
    sym_in := advance (length (written octx') - length (written octx)) (sym_in s)\<rparr>)"
proof -
  obtain penta where d: "dx_decode_cipher cipher = Inr penta"
    using assms(2,3) by (cases "dx_decode_cipher cipher") (auto simp: dx_codec_write_symbol_def io_simps)
  have w: "written octx' = written octx @ penta_bytes penta"
    using sends_symbol_cipher [OF d assms(2), of mem symbol, unfolded sends_def, rule_format, OF assms(1,3)] by simp
  then have p: "pending (sym_in (s\<lparr>sym_flags := 0\<rparr>)) = penta_bytes penta @ rest" using assms(5) by simp
  have "sym_receives (read_symbol_loop 2 mem' L 0) (penta_bytes penta) (\<lambda>s. s\<lparr>cipher_result := cipher\<rparr>)"
    using penta_received [OF d assms(2), of "Suc 0"] by (simp only: numeral_2_eq_2)
  from this [unfolded sym_receives_def, rule_format, OF _ p] assms(4) show ?thesis
    by (simp add: dx_codec_read_symbol_def w)
qed

section \<open>Symbols as characters\<close>

lemma char_range: "0 \<le> sint (ucast (c :: dxf_char) :: int32)" "sint (ucast c :: int32) \<le> 0xFFFF"
proof -
  have u: "uint c < 2 ^ 16" using uint_lt2p [of c] by simp
  have "sint (ucast c :: int32) = uint c"
  proof -
    have "uint (ucast c :: int32) = uint c" by (rule uint_up_ucast) (simp add: is_up)
    moreover have "signed_take_bit 31 (uint c) = uint c"
    proof (rule signed_take_bit_int_eq_self)
      have "- (2 ^ 31) \<le> (0 :: int)" by simp
      then show "- (2 ^ 31) \<le> uint c" by (rule order_trans) simp
      show "uint c < 2 ^ 31" by (rule order_less_trans [OF u]) simp
    qed
    ultimately show ?thesis by (simp add: sint_uint)
  qed
  then show "0 \<le> sint (ucast c :: int32)" "sint (ucast c :: int32) \<le> 0xFFFF" using u by simp_all
qed

definition symbol_bytes :: "dxf_char list \<Rightarrow> byte list" where
  "symbol_bytes s = concat (map (\<lambda>c. utf_char_bytes (ucast c)) s)"

lemma sends_symbol_chars: "sends (length (symbol_bytes s) + 4) (write_symbol_chars mem s) (symbol_bytes s)"
proof (induction s)
  case Nil
  show ?case using sends_mono [OF sends_return [of "()"], of 4] by (simp add: symbol_bytes_def)
next
  case (Cons c s)
  have "sends 4 (dx_write_utf_char mem (ucast c)) (utf_char_bytes (ucast c))"
    using char_range [of c] by (intro sends_utf_char) linarith+
  from sends_seq [OF this Cons] show ?case by (simp add: symbol_bytes_def)
qed

lemma sends_symbol:
  "sends (length (symbol_bytes s) + 10) (dx_codec_write_symbol mem 0 (Some s))
     (0xFD # compact_int_bytes (word_of_nat (length s)) @ symbol_bytes s)"
proof -
  have a: "sends (length (symbol_bytes s) + 9)
      (checked (dx_write_compact_int mem (word_of_nat (length s))) (\<lambda>_. write_symbol_chars mem s))
      (compact_int_bytes (word_of_nat (length s)) @ symbol_bytes s)"
    by (rule sends_seq [OF sends_compact_int sends_symbol_chars]) (use length_compact_int_bytes in auto)
  from sends_seq [OF sends_byte [of mem "0xFD"] a, of "length (symbol_bytes s) + 10"]
  show ?thesis by (simp add: dx_codec_write_symbol_def)
qed

lemma read_symbol_chars_receives:
  assumes "wf_in ctx" "pending ctx = symbol_bytes cs @ rest" "k + length cs \<le> length block"
  shows "read_symbol_chars (length cs) k (block, ctx) =
    (Inr (), (take k block @ cs @ drop (k + length cs) block, advance (length (symbol_bytes cs)) ctx))"
  using assms
proof (induction cs arbitrary: k block ctx)
  case Nil
  then show ?case by (simp add: io_simps symbol_bytes_def advance_def)
next
  case (Cons c cs)
  let ?bs = "utf_char_bytes (ucast c)" and ?c1 = "advance (length (utf_char_bytes (ucast c))) ctx"
  have p: "pending ctx = ?bs @ symbol_bytes cs @ rest" using Cons.prems(2) by (simp add: symbol_bytes_def)
  have "receives dx_read_utf_char ?bs (ucast c)" using char_range [of c] by (intro receives_utf_char) linarith+
  then have r: "dx_read_utf_char ctx = (Inr (ucast c), ?c1)" using Cons.prems(1) p by (simp add: receives_def)
  note n = pending_advance [OF Cons.prems(1) p]
  have st: "mem_store block (int k) c = Some (block[k := c])" using Cons.prems(3) by (simp add: mem_store_def)
  have "read_symbol_chars (length (c # cs)) k (block, ctx) = read_symbol_chars (length cs) (k + 1) (block[k := c], ?c1)"
    using r st char_range [of c] by simp
  also have "\<dots> = (Inr (), (take (k + 1) (block[k := c]) @ cs @ drop (k + 1 + length cs) (block[k := c]),
      advance (length (symbol_bytes cs)) ?c1))"
    using Cons.prems(3) by (intro Cons.IH n) simp
  finally show ?case using Cons.prems(3) by (simp add: take_update_snoc symbol_bytes_def)
qed

lemma string_length_received:
  assumes "length cs < 2 ^ 31"
  shows "receives dx_read_compact_long (compact_int_bytes (word_of_nat (length cs))) (word_of_nat (length cs))"
    "sint (word_of_nat (length cs) :: long64) = int (length cs)"
proof -
  have s: "sint (word_of_nat (length cs) :: int32) = int (length cs)" by (rule sint_of_small_nat [OF assms])
  have c: "(scast (word_of_nat (length cs) :: int32) :: long64) = word_of_nat (length cs)"
    unfolding scast_eq s by simp
  show "sint (word_of_nat (length cs) :: long64) = int (length cs)"
    unfolding c [symmetric] sint_long_of_int s ..
  have "\<not> lost_sign (word_of_nat (length cs))" unfolding lost_sign_def s by simp
  then show "receives dx_read_compact_long (compact_int_bytes (word_of_nat (length cs))) (word_of_nat (length cs))"
    using receives_long_of_compact_int [of "word_of_nat (length cs)"] c by simp
qed

text \<open>What reading a symbol of characters leaves.\<close>

definition string_read :: "int \<Rightarrow> dxf_char list \<Rightarrow> symbol_ctx \<Rightarrow> symbol_ctx" where
  "string_read L cs s =
     (if int (length cs) \<le> L
      then s\<lparr>sym_buffer := cs @ drop (length cs) (sym_buffer s), cipher_result := word_of_nat (length cs)\<rparr>
      else s\<lparr>sym_result := Some (cs @ [0]), cipher_result := 0\<rparr>)"

lemma no_cipher_bits: "n < 2 ^ 30 \<Longrightarrow> (word_of_nat n :: long64) AND scast dx_get_codec_valid_cipher = 0"
proof (rule bit_word_eqI)
  fix i assume n: "n < 2 ^ 30" and "i < LENGTH(64)"
  have v: "dx_get_codec_valid_cipher = push_bit 30 (mask 2)"
    by (simp add: dx_get_codec_valid_cipher_def push_bit_eq_mult mask_eq_exp_minus_1)
  have lo: "\<not> bit (scast dx_get_codec_valid_cipher :: long64) i" if "i < 30"
    unfolding v using that by (simp add: bit_signed_iff bit_push_bit_iff)
  have "\<not> bit (word_of_nat n :: long64) i" if "30 \<le> i"
  proof -
    have "n < 2 ^ 64" by (rule order_less_trans [OF n]) simp
    then have "unat (word_of_nat n :: long64) < 2 ^ 30" using n by (simp only: unat_long)
    then show ?thesis using that by (rule bits_of_bound)
  qed
  with lo show "bit ((word_of_nat n :: long64) AND scast dx_get_codec_valid_cipher) i = bit 0 i"
    by (cases "i < 30") (simp_all add: bit_and_iff)
qed

lemma create_string_whole:
  "0 \<notin> set cs \<Longrightarrow> dx_create_string_src_len (\<lambda>_. True) (cs @ ys) (length cs) = Some (cs @ [0])"
proof -
  assume "0 \<notin> set cs"
  then have "c_string cs = cs" unfolding c_string_def by (intro takeWhile_eq_all_conv [THEN iffD2]) auto
  then show ?thesis by (simp add: dx_create_string_src_len_def)
qed

lemma form_FD: "read_symbol_form mem L (ucast (0xFD :: byte)) = read_symbol_string mem L"
  by (simp add: read_symbol_form_def)

lemma symbol_text_form:
  assumes "wf_in (sym_in s)" "pending (sym_in s) = compact_int_bytes (word_of_nat (length cs)) @ symbol_bytes cs @ rest"
    and "cs \<noteq> []" "length cs < 2 ^ 30" "0 \<notin> set cs" "L \<le> int (length (sym_buffer s))"
  shows "read_symbol_string (\<lambda>_. True) L s = (Inr (), (string_read L cs s)
    \<lparr>sym_in := advance (length (compact_int_bytes (word_of_nat (length cs))) + length (symbol_bytes cs)) (sym_in s)\<rparr>)"
proof -
  define n where "n = length (compact_int_bytes (word_of_nat (length cs)))"
  define s2 where "s2 = s\<lparr>sym_in := advance n (sym_in s)\<rparr>"
  have w2: "wf_in (sym_in s2)" "pending (sym_in s2) = symbol_bytes cs @ rest"
    using pending_advance [OF assms(1,2)] by (simp_all add: s2_def n_def)
  have len: "length cs < 2 ^ 31" using assms(4) by simp
  note l = string_length_received [OF len]
  have o2: "on_in dx_read_compact_long s = (Inr (word_of_nat (length cs)), s2)"
    using l(1) assms(1,2) by (simp add: receives_def on_in_def s2_def n_def)
  have nz: "(word_of_nat (length cs) :: long64) \<noteq> 0" using l(2) assms(3) by auto
  have str: "read_symbol_string (\<lambda>_. True) L s =
      (if int (length cs) \<le> L then read_symbol_in_buffer (\<lambda>_. True) (word_of_nat (length cs)) s2
       else read_symbol_allocated (\<lambda>_. True) (word_of_nat (length cs)) s2)"
    unfolding read_symbol_string_def checked_apply o2 prod.case sum.case l(2) using nz len by simp
  have nat: "nat (sint (word_of_nat (length cs) :: long64)) = length cs" by (simp add: l(2))
  show ?thesis
  proof (cases "int (length cs) \<le> L")
    case True
    have k: "0 + length cs \<le> length (sym_buffer s2)" using True assms(6) by (simp add: s2_def)
    have i: "ucast (word_of_nat (length cs) :: long64) = (word_of_nat (length cs) :: int32)"
      by (rule bit_word_eqI) (simp add: bit_simps)
    show ?thesis
      unfolding str if_P [OF True] read_symbol_in_buffer_def nat read_symbol_chars_receives [OF w2 k]
      using True no_cipher_bits [OF assms(4)] i
      by (simp add: string_read_def s2_def n_def Let_def)
  next
    case False
    have k: "0 + length cs \<le> length (replicate (length cs + 1) (0 :: dxf_char))" by simp
    show ?thesis
      unfolding str if_not_P [OF False] read_symbol_allocated_def nat read_symbol_chars_receives [OF w2 k]
      using False create_string_whole [OF assms(5)]
      by (simp add: string_read_def s2_def n_def)
  qed
qed

lemma symbol_string_read:
  assumes "wf_in (sym_in s)" "pending (sym_in s) = 0xFD # compact_int_bytes (word_of_nat (length cs)) @ symbol_bytes cs @ rest"
    and "cs \<noteq> []" "length cs < 2 ^ 30" "0 \<notin> set cs" "L \<le> int (length (sym_buffer s))"
  shows "dx_codec_read_symbol (\<lambda>_. True) L s = (Inr (), (string_read L cs s)\<lparr>sym_flags := 0,
    sym_in := advance (1 + length (compact_int_bytes (word_of_nat (length cs))) + length (symbol_bytes cs)) (sym_in s)\<rparr>)"
proof -
  define s0 where "s0 = s\<lparr>sym_flags := 0\<rparr>"
  define s1 where "s1 = s0\<lparr>sym_in := advance 1 (sym_in s)\<rparr>"
  note a1 = pending_advance [OF assms(1), of "[0xFD]" "compact_int_bytes (word_of_nat (length cs)) @ symbol_bytes cs @ rest"]
  have w1: "wf_in (sym_in s1)" "pending (sym_in s1) = compact_int_bytes (word_of_nat (length cs)) @ symbol_bytes cs @ rest"
    using a1 assms(2) by (simp_all add: s1_def)
  have L: "L \<le> int (length (sym_buffer s1))" using assms(6) by (simp add: s1_def s0_def)
  have o1: "on_in dx_read_unsigned_byte s0 = (Inr (ucast (0xFD :: byte)), s1)"
    using receives_unsigned_byte [of "0xFD"] assms(1,2) by (simp add: receives_def on_in_def s0_def s1_def)
  have "dx_codec_read_symbol (\<lambda>_. True) L s = read_symbol_string (\<lambda>_. True) L s1"
    unfolding dx_codec_read_symbol_def numeral_2_eq_2 read_symbol_loop.simps s0_def [symmetric] checked_apply o1 prod.case sum.case
    using form_FD by simp
  then show ?thesis using symbol_text_form [OF w1 assms(3-5) L] by (simp add: s1_def s0_def string_read_def)
qed

lemma empty_symbol_read:
  assumes "wf_in (sym_in s)" "pending (sym_in s) = 0xFD # compact_int_bytes 0 @ rest" "mem 1"
  shows "fst (dx_codec_read_symbol mem L s) = Inl UB"
proof -
  define s0 where "s0 = s\<lparr>sym_flags := 0\<rparr>"
  define s1 where "s1 = s0\<lparr>sym_in := advance 1 (sym_in s)\<rparr>"
  have w1: "wf_in (sym_in s1)" "pending (sym_in s1) = compact_int_bytes 0 @ rest"
    using pending_advance [OF assms(1), of "[0xFD]"] assms(2) by (simp_all add: s1_def)
  have o1: "on_in dx_read_unsigned_byte s0 = (Inr (ucast (0xFD :: byte)), s1)"
    using receives_unsigned_byte [of "0xFD"] assms(1,2) by (simp add: receives_def on_in_def s0_def s1_def)
  have "receives dx_read_compact_long (compact_int_bytes 0) 0" using string_length_received(1) [of "[]"] by simp
  then obtain s2 where o2: "on_in dx_read_compact_long s1 = (Inr 0, s2)"
    using w1 by (simp add: receives_def on_in_def)
  show ?thesis
    unfolding dx_codec_read_symbol_def numeral_2_eq_2 read_symbol_loop.simps s0_def [symmetric] checked_apply o1 prod.case sum.case
    using form_FD assms(3) o2 by (simp add: read_symbol_string_def io_simps)
qed

section \<open>Properties\<close>

text \<open>
  C30: a cipher that \<open>dx_codec_write_symbol\<close> has written is read back unchanged by
  \<open>dx_codec_read_symbol\<close>, which leaves everything else but the event flags alone.
\<close>

theorem symbol_cipher_roundtrip:
  assumes "wf_out octx" "cipher \<noteq> 0" "dx_codec_write_symbol mem cipher symbol octx = (Inr (), octx')"
    and "wf_in (sym_in s)" "written octx @ pending (sym_in s) = written octx' @ rest"
  shows "dx_codec_read_symbol mem' buffer_length s = (Inr (), s\<lparr>sym_flags := 0, cipher_result := cipher,
    sym_in := advance (length (written octx') - length (written octx)) (sym_in s)\<rparr>)"
  by (rule symbol_cipher_read [OF assms])

definition new_symbol_ctx :: "byte list \<Rightarrow> nat \<Rightarrow> symbol_ctx" where
  "new_symbol_ctx bs n = \<lparr>sym_in = new_in bs, sym_buffer = replicate n 0, sym_result = None, cipher_result = 0,
     sym_flags = 0, mru_event_flags = 0\<rparr>"

theorem symbol_cipher_roundtrip_witness:
  "dx_codec_read_symbol (\<lambda>_. True) 64 (new_symbol_ctx [0x00, 0x41, 0x07] 64) =
     (Inr (), (new_symbol_ctx [0x00, 0x41, 0x07] 64)\<lparr>cipher_result := 0x40000041, sym_in := advance 2 (new_in [0x00, 0x41, 0x07])\<rparr>)"
proof -
  have w: "dx_codec_write_symbol (\<lambda>_. True) 0x40000041 None (new_out 8) =
      (Inr (), snd (dx_codec_write_symbol (\<lambda>_. True) 0x40000041 None (new_out 8)))"
    and c: "written (snd (dx_codec_write_symbol (\<lambda>_. True) 0x40000041 None (new_out 8))) = [0x00, 0x41]"
    by code_simp+
  have two: "Suc (Suc 0) = 2" by simp
  have s: "sym_in (new_symbol_ctx [0x00, 0x41, 0x07] 64) = new_in [0x00, 0x41, 0x07]" by (simp add: new_symbol_ctx_def)
  from symbol_cipher_roundtrip [OF _ _ w, where s = "new_symbol_ctx [0x00, 0x41, 0x07] 64" and rest = "[0x07]"
      and mem' = "\<lambda>_. True" and buffer_length = 64]
  show ?thesis unfolding s c by (simp add: new_symbol_ctx_def two)
qed

text \<open>
  C29: a non-empty symbol written as characters is read back: into the caller's buffer, with its length
  as the cipher, when it fits, into a new block with a terminating zero otherwise.
\<close>

theorem symbol_string_roundtrip:
  assumes "wf_out octx" "dx_codec_write_symbol mem 0 (Some cs) octx = (Inr (), octx')"
    and "wf_in (sym_in s)" "written octx @ pending (sym_in s) = written octx' @ rest"
    and "cs \<noteq> []" "length cs < 2 ^ 30" "0 \<notin> set cs" "buffer_length \<le> int (length (sym_buffer s))"
  shows "dx_codec_read_symbol (\<lambda>_. True) buffer_length s = (Inr (), (string_read buffer_length cs s)\<lparr>sym_flags := 0,
    sym_in := advance (length (written octx') - length (written octx)) (sym_in s)\<rparr>)"
proof -
  have w: "written octx' = written octx @ 0xFD # compact_int_bytes (word_of_nat (length cs)) @ symbol_bytes cs"
    using sends_symbol [of cs mem, unfolded sends_def, rule_format, OF assms(1,2)] by simp
  then have "pending (sym_in s) = 0xFD # compact_int_bytes (word_of_nat (length cs)) @ symbol_bytes cs @ rest"
    using assms(4) by simp
  from symbol_string_read [OF assms(3) this assms(5-8)] show ?thesis unfolding w by simp
qed

theorem symbol_string_roundtrip_witness:
  "dx_codec_read_symbol (\<lambda>_. True) 1 (new_symbol_ctx [0xFD, 2, 0x61, 0x62] 1) =
     (Inr (), (string_read 1 [0x61, 0x62] (new_symbol_ctx [0xFD, 2, 0x61, 0x62] 1))
        \<lparr>sym_flags := 0, sym_in := advance 4 (new_in [0xFD, 2, 0x61, 0x62])\<rparr>)"
proof -
  have w: "dx_codec_write_symbol (\<lambda>_. True) 0 (Some [0x61, 0x62]) (new_out 8) =
      (Inr (), snd (dx_codec_write_symbol (\<lambda>_. True) 0 (Some [0x61, 0x62]) (new_out 8)))"
    and c: "written (snd (dx_codec_write_symbol (\<lambda>_. True) 0 (Some [0x61, 0x62]) (new_out 8))) = [0xFD, 2, 0x61, 0x62]"
    by code_simp+
  have four: "Suc (Suc (Suc (Suc 0))) = 4" by simp
  have s: "sym_in (new_symbol_ctx [0xFD, 2, 0x61, 0x62] 1) = new_in [0xFD, 2, 0x61, 0x62]" by (simp add: new_symbol_ctx_def)
  from symbol_string_roundtrip [OF _ w, where s = "new_symbol_ctx [0xFD, 2, 0x61, 0x62] 1" and rest = "[]" and buffer_length = 1]
  show ?thesis unfolding s c by (simp add: new_symbol_ctx_def four)
qed

text \<open>
  C25: reading a symbol ends after at most two rounds of its loop, whatever the input, and keeps the input
  buffer and a position inside it.  It stays within the blocks it was given and those it allocates,
  unless it has just read a symbol length of zero: then the terminator is stored outside a block of
  one byte.
\<close>

theorem symbol_reader_terminates:
  assumes "wf_sym buffer_length s" "2 \<le> fuel" "read_symbol_loop fuel mem buffer_length 0 s = (res, s')"
  shows "read_symbol_loop 2 mem buffer_length 0 s = (res, s') \<and> wf_sym buffer_length s'
    \<and> same_buffer (sym_in s) (sym_in s') \<and> (res = Inl UB \<longrightarrow> zero_length_read s')"
proof -
  obtain n where f: "fuel = Suc (Suc n)" using assms(2) by (metis add_2_eq_Suc le_Suc_ex)
  show ?thesis
    using sym_safeD [OF sym_safe_loop assms(1) assms(3) [unfolded f]] loop_fuel [OF assms(1), of n mem] assms(3) f by simp
qed

theorem symbol_reader_terminates_witness:
  "fst (read_symbol_loop 2 (\<lambda>_. True) 1 0 (new_symbol_ctx [0xF8, 0xF8, 0x00, 0x41] 1)) = Inl dx_pcec_invalid_event_flag"
proof -
  have w: "wf_sym 1 (new_symbol_ctx [0xF8, 0xF8, 0x00, 0x41] 1)" by (simp add: wf_sym_def new_symbol_ctx_def)
  obtain res s' where r: "read_symbol_loop 5 (\<lambda>_. True) 1 0 (new_symbol_ctx [0xF8, 0xF8, 0x00, 0x41] 1) = (res, s')" by fastforce
  have "fst (read_symbol_loop 5 (\<lambda>_. True) 1 0 (new_symbol_ctx [0xF8, 0xF8, 0x00, 0x41] 1)) = Inl dx_pcec_invalid_event_flag"
    by code_simp
  with symbol_reader_terminates [OF w _ r] r show ?thesis by simp
qed

text \<open>
  the empty symbol, which \<open>dx_codec_write_symbol\<close> writes as a length of zero, makes
  \<open>dx_codec_read_symbol\<close> store a character of more than one byte into a block of one byte.
\<close>

theorem empty_symbol_undefined:
  assumes "wf_out octx" "dx_codec_write_symbol mem 0 (Some []) octx = (Inr (), octx')"
    and "wf_in (sym_in s)" "written octx @ pending (sym_in s) = written octx' @ rest" "mem' 1"
  shows "fst (dx_codec_read_symbol mem' buffer_length s) = Inl UB"
proof -
  have w: "written octx' = written octx @ 0xFD # compact_int_bytes 0"
    using sends_symbol [of "[]" mem, unfolded sends_def, rule_format, OF assms(1,2)] by (simp add: symbol_bytes_def)
  then have "pending (sym_in s) = 0xFD # compact_int_bytes 0 @ rest" using assms(4) by simp
  from empty_symbol_read [where mem = mem', OF assms(3) this assms(5)] show ?thesis .
qed

theorem empty_symbol_undefined_witness:
  "fst (dx_codec_read_symbol (\<lambda>_. True) 1 (new_symbol_ctx [0xFD, 0] 1)) = Inl UB"
proof -
  have w: "dx_codec_write_symbol (\<lambda>_. True) 0 (Some []) (new_out 8) =
      (Inr (), snd (dx_codec_write_symbol (\<lambda>_. True) 0 (Some []) (new_out 8)))"
    and c: "written (snd (dx_codec_write_symbol (\<lambda>_. True) 0 (Some []) (new_out 8))) = [0xFD, 0]"
    by code_simp+
  have s: "sym_in (new_symbol_ctx [0xFD, 0] 1) = new_in [0xFD, 0]" by (simp add: new_symbol_ctx_def)
  from empty_symbol_undefined [OF _ w, where s = "new_symbol_ctx [0xFD, 0] 1" and rest = "[]" and mem' = "\<lambda>_. True" and buffer_length = 1]
  show ?thesis unfolding s c by simp
qed

end
