(* ===== verification/Dx_Snapshot_Records.thy ===== *)
theory Dx_Snapshot_Records
  imports Dx_Plb_Source "HOL-Library.Product_Lexorder"
begin

text \<open>
  The records of a snapshot, \<open>src/src/Snapshot.c\<close>: three parallel arrays (the events, their keys, the strings of
  the events) in the order of the keys, which \<open>dx_snapshot_update_event_records\<close> and
  \<open>dx_snapshot_remove_event_records\<close> keep.  The lemmas give them as a map from keys to events.  The arrays of
  the C struct \<open>dx_snapshot_records_array_t\<close> are the model's \<open>records\<close>; the parameter \<open>mem\<close> says which
  sizes \<open>dx_calloc\<close> can give, \<open>dx_get_event_copy_function\<close> of \<open>src/src/EventManager.c\<close> is \<open>clone_event\<close>.
  The hash function, the mutexes and the logging are not modelled.
\<close>

section \<open>Records\<close>

datatype dx_event_id = dx_eid_trade | dx_eid_quote | dx_eid_summary | dx_eid_profile | dx_eid_order
  | dx_eid_time_and_sale | dx_eid_candle | dx_eid_trade_eth | dx_eid_spread_order | dx_eid_greeks
  | dx_eid_theo_price | dx_eid_underlying | dx_eid_series | dx_eid_configuration | dx_eid_count
  | dx_eid_invalid

datatype dx_record_info_id = dx_rid_trade | dx_rid_quote | dx_rid_summary | dx_rid_profile
  | dx_rid_market_maker | dx_rid_order | dx_rid_time_and_sale | dx_rid_candle | dx_rid_trade_eth
  | dx_rid_spread_order | dx_rid_greeks | dx_rid_theo_price | dx_rid_underlying | dx_rid_series
  | dx_rid_configuration | dx_rid_count | dx_rid_invalid

text \<open>
  The object behind a \<open>dxf_event_data_t\<close>: an order, whose fields the code reads, or an object of another
  event, which it only copies.
\<close>

datatype 'p event_data = Order_Data dxf_order | Other_Data 'p

record dxf_event_params =
  ep_flags :: int32
  ep_time_int_field :: long64
  ep_snapshot_key :: long64

record dx_snapshot_record_key =
  time_int_field :: long64
  index :: long64

text \<open>
  \<open>record_buffers\<close> holds the strings that belong to the records: \<open>Some e\<close> are the strings of the copy of
  \<open>e\<close>, \<open>None\<close> strings that have been freed.
\<close>

record 'p dx_snapshot_records =
  records :: "'p event_data dx_array"
  record_keys :: "dx_snapshot_record_key dx_array"
  record_buffers :: "'p event_data option dx_array"

definition dx_snapshot_records_comparator2 :: "dx_snapshot_record_key \<Rightarrow> dx_snapshot_record_key \<Rightarrow> int" where
  "dx_snapshot_records_comparator2 key1 key2 =
     (if time_int_field key1 > time_int_field key2 then - 1
      else if time_int_field key1 < time_int_field key2 then 1
      else if sint (index key1) < sint (index key2) then - 1
      else if sint (index key1) > sint (index key2) then 1 else 0)"

definition zero_event :: "'p event_data" where
  "zero_event = Order_Data zero_order"

definition zero_key :: dx_snapshot_record_key where
  "zero_key = \<lparr>time_int_field = 0, index = 0\<rparr>"

text \<open>The cases of the \<open>switch\<close> statements over the event id.\<close>

definition storable :: "dx_event_id \<Rightarrow> bool" where
  "storable event_id \<longleftrightarrow> event_id \<in> {dx_eid_order, dx_eid_candle, dx_eid_spread_order, dx_eid_time_and_sale,
     dx_eid_greeks, dx_eid_series}"

definition on_records :: "('p event_data dx_array, unit) io \<Rightarrow> ('p dx_snapshot_records, unit) io" where
  "on_records m = (\<lambda>recs. case m (records recs) of (r, arr) \<Rightarrow> (r, recs\<lparr>records := arr\<rparr>))"

definition on_keys :: "(dx_snapshot_record_key dx_array, unit) io \<Rightarrow> ('p dx_snapshot_records, unit) io" where
  "on_keys m = (\<lambda>recs. case m (record_keys recs) of (r, arr) \<Rightarrow> (r, recs\<lparr>record_keys := arr\<rparr>))"

definition on_buffers :: "('p event_data option dx_array, unit) io \<Rightarrow> ('p dx_snapshot_records, unit) io" where
  "on_buffers m = (\<lambda>recs. case m (record_buffers recs) of (r, arr) \<Rightarrow> (r, recs\<lparr>record_buffers := arr\<rparr>))"

definition set_element :: "nat \<Rightarrow> 'a \<Rightarrow> ('a dx_array, unit) io" where
  "set_element position x = (\<lambda>arr. case mem_store (elements arr) (int position) x of
      None \<Rightarrow> (Inl UB, arr)
    | Some block \<Rightarrow> (Inr (), arr\<lparr>elements := block\<rparr>))"

definition dx_snapshot_insert_record ::
  "(nat \<Rightarrow> bool) \<Rightarrow> dx_event_id \<Rightarrow> 'p event_data \<Rightarrow> nat \<Rightarrow> ('p dx_snapshot_records, unit) io" where
  "dx_snapshot_insert_record mem event_id obj position =
     (if storable event_id then on_records (DX_ARRAY_INSERT mem zero_event obj position dx_capacity_manager_halfer)
      else fail dx_ssec_invalid_event_id)"

definition dx_snapshot_delete_record ::
  "(nat \<Rightarrow> bool) \<Rightarrow> dx_event_id \<Rightarrow> nat \<Rightarrow> ('p dx_snapshot_records, unit) io" where
  "dx_snapshot_delete_record mem event_id position =
     (if storable event_id then on_records (DX_ARRAY_DELETE mem zero_event position dx_capacity_manager_halfer)
      else fail dx_ssec_invalid_event_id)"

definition dx_snapshot_set_record :: "dx_event_id \<Rightarrow> 'p event_data \<Rightarrow> nat \<Rightarrow> ('p dx_snapshot_records, unit) io" where
  "dx_snapshot_set_record event_id obj position =
     (if storable event_id then on_records (set_element position obj) else fail dx_ssec_invalid_event_id)"

definition dx_get_order_index :: "dx_event_id \<Rightarrow> dx_record_info_id \<Rightarrow> 'p event_data \<Rightarrow> long64" where
  "dx_get_order_index event_id record_info_id data =
     (case data of
        Order_Data order \<Rightarrow>
          if event_id = dx_eid_order \<and> (record_info_id = dx_rid_market_maker \<or> record_info_id = dx_rid_quote)
          then order_index order else 0
      | Other_Data _ \<Rightarrow> 0)"

text \<open>The function that \<open>dx_get_event_copy_function\<close> gives: a copy of the object and of its strings.\<close>

definition clone_event :: "(nat \<Rightarrow> bool) \<Rightarrow> dx_event_id \<Rightarrow> 'p event_data \<Rightarrow> dx_error + 'p event_data" where
  "clone_event mem event_id data =
     (if event_id \<in> {dx_eid_count, dx_eid_invalid} then Inl dx_ec_invalid_func_param_internal
      else if \<not> mem 1 then Inl dx_mec_insufficient_memory else Inr data)"

text \<open>The roll back of an insertion: undefined behaviour stays, everything else reports the lack of memory.\<close>

definition after_failure :: "('s, unit) io \<Rightarrow> ('s, unit) io \<Rightarrow> ('s, unit) io" where
  "after_failure m undo = (\<lambda>s. case m s of
      (Inr _, s) \<Rightarrow> (Inr (), s)
    | (Inl e, s) \<Rightarrow> if e = UB then (Inl UB, s)
        else (case undo s of (r, s) \<Rightarrow> (if r = Inl UB then Inl UB else Inl dx_mec_insufficient_memory, s)))"

definition dx_snapshot_add_event_record ::
  "(nat \<Rightarrow> bool) \<Rightarrow> dx_event_id \<Rightarrow> dx_record_info_id \<Rightarrow> dxf_event_params \<Rightarrow> 'p event_data \<Rightarrow> nat
    \<Rightarrow> ('p dx_snapshot_records, unit) io" where
  "dx_snapshot_add_event_record mem event_id record_info_id event_params data position =
     (case clone_event mem event_id data of
        Inl e \<Rightarrow> fail e
      | Inr obj \<Rightarrow>
          checked (dx_snapshot_insert_record mem event_id obj position) (\<lambda>_.
          let key = \<lparr>time_int_field = ep_time_int_field event_params,
                     index = dx_get_order_index event_id record_info_id data\<rparr> in
          checked (after_failure
            (on_keys (DX_ARRAY_INSERT mem zero_key key position dx_capacity_manager_halfer))
            (dx_snapshot_delete_record mem event_id position)) (\<lambda>_.
          after_failure
            (on_buffers (DX_ARRAY_INSERT mem None (Some obj) position dx_capacity_manager_halfer))
            (\<lambda>recs. case dx_snapshot_delete_record mem event_id position recs of
               (r, recs) \<Rightarrow> if r = Inl UB then (Inl UB, recs)
                 else on_keys (DX_ARRAY_DELETE mem zero_key position dx_capacity_manager_halfer) recs))))"

definition dx_snapshot_clear_records_array :: "'p dx_snapshot_records \<Rightarrow> 'p dx_snapshot_records" where
  "dx_snapshot_clear_records_array recs =
     \<lparr>records = DX_EMPTY_ARRAY, record_keys = DX_EMPTY_ARRAY, record_buffers = DX_EMPTY_ARRAY\<rparr>"

definition dx_snapshot_remove_event_record ::
  "(nat \<Rightarrow> bool) \<Rightarrow> dx_event_id \<Rightarrow> nat \<Rightarrow> ('p dx_snapshot_records, unit) io" where
  "dx_snapshot_remove_event_record mem event_id position = (\<lambda>recs.
     if position \<ge> arr_size (records recs) then (Inl dx_ec_invalid_func_param_internal, recs)
     else
       checked (on_buffers (set_element position None)) (\<lambda>_.
       checked (dx_snapshot_delete_record mem event_id position) (\<lambda>_.
       checked (on_keys (DX_ARRAY_DELETE mem zero_key position dx_capacity_manager_halfer)) (\<lambda>_.
       on_buffers (DX_ARRAY_DELETE mem None position dx_capacity_manager_halfer)))) recs)"

definition event_key :: "dx_event_id \<Rightarrow> dx_record_info_id \<Rightarrow> dxf_event_params \<Rightarrow> 'p event_data \<Rightarrow> dx_snapshot_record_key" where
  "event_key event_id record_info_id event_params data =
     \<lparr>time_int_field = ep_time_int_field event_params, index = dx_get_order_index event_id record_info_id data\<rparr>"

definition find_record :: "'p dx_snapshot_records \<Rightarrow> dx_snapshot_record_key \<Rightarrow> bool \<times> nat" where
  "find_record recs key = DX_ARRAY_BINARY_SEARCH (elements (record_keys recs)) 0 (arr_size (record_keys recs)) key
     dx_snapshot_records_comparator2"

definition dx_snapshot_remove_event_records ::
  "(nat \<Rightarrow> bool) \<Rightarrow> dx_event_id \<Rightarrow> dx_record_info_id \<Rightarrow> 'p event_data \<Rightarrow> dxf_event_params
    \<Rightarrow> ('p dx_snapshot_records, unit) io" where
  "dx_snapshot_remove_event_records mem event_id record_info_id data event_params = (\<lambda>recs.
     let (found, index) = find_record recs (event_key event_id record_info_id event_params data)
     in if found then dx_snapshot_remove_event_record mem event_id index recs else (Inr (), recs))"

definition dx_snapshot_replace_record ::
  "(nat \<Rightarrow> bool) \<Rightarrow> dx_event_id \<Rightarrow> nat \<Rightarrow> 'p event_data \<Rightarrow> ('p dx_snapshot_records, unit) io" where
  "dx_snapshot_replace_record mem event_id position new_record = (\<lambda>recs.
     if position \<ge> arr_size (records recs) then (Inl dx_ec_invalid_func_param_internal, recs)
     else if event_id \<in> {dx_eid_count, dx_eid_invalid} then (Inl dx_ec_invalid_func_param_internal, recs)
     else
       checked (on_buffers (set_element position None)) (\<lambda>_.
       case clone_event mem event_id new_record of
         Inl e \<Rightarrow> fail e
       | Inr new_obj \<Rightarrow>
           checked (on_buffers (set_element position (Some new_obj))) (\<lambda>_ recs.
             case dx_snapshot_set_record event_id new_obj position recs of
               (Inl e, recs) \<Rightarrow>
                 if e = UB then (Inl UB, recs)
                 else (case on_buffers (set_element position None) recs of
                     (r, recs) \<Rightarrow> (if r = Inl UB then Inl UB else Inl e, recs))
             | (Inr _, recs) \<Rightarrow> (Inr (), recs))) recs)"

definition dx_snapshot_update_event_records ::
  "(nat \<Rightarrow> bool) \<Rightarrow> dx_event_id \<Rightarrow> dx_record_info_id \<Rightarrow> 'p event_data \<Rightarrow> dxf_event_params
    \<Rightarrow> ('p dx_snapshot_records, unit) io" where
  "dx_snapshot_update_event_records mem event_id record_info_id data event_params = (\<lambda>recs.
     let (found, index) = find_record recs (event_key event_id record_info_id event_params data)
     in if found then dx_snapshot_replace_record mem event_id index data recs
        else dx_snapshot_add_event_record mem event_id record_info_id event_params data index recs)"

section \<open>The records as a map\<close>

definition key_rank :: "dx_snapshot_record_key \<Rightarrow> int \<times> int" where
  "key_rank k = (- uint (time_int_field k), sint (index k))"

lemma key_rank_eq: "key_rank k = key_rank k' \<longleftrightarrow> k = k'"
  by (cases k; cases k') (auto simp: key_rank_def simp flip: word_uint_eq_iff intro: signed_word_eqI)

interpretation record_search: search_order dx_snapshot_records_comparator2 key_rank key_rank "\<lambda>_. True" "\<lambda>_. True"
proof
  fix x k :: dx_snapshot_record_key
  have t: "time_int_field x < time_int_field k \<longleftrightarrow> uint (time_int_field x) < uint (time_int_field k)"
    "time_int_field k < time_int_field x \<longleftrightarrow> uint (time_int_field k) < uint (time_int_field x)"
    by (simp_all add: word_less_def)
  show "(dx_snapshot_records_comparator2 x k = 0) = (key_rank x = key_rank k)"
    "(dx_snapshot_records_comparator2 x k < 0) = (key_rank x < key_rank k)"
    unfolding dx_snapshot_records_comparator2_def key_rank_def t less_prod_simp prod.inject by auto
qed

definition sorted_keys :: "dx_snapshot_record_key list \<Rightarrow> bool" where
  "sorted_keys ks \<longleftrightarrow> sorted_wrt (\<lambda>x y. key_rank x < key_rank y) ks"

definition recs_inv :: "'p dx_snapshot_records \<Rightarrow> bool" where
  "recs_inv recs \<longleftrightarrow> wf_array (records recs) \<and> wf_array (record_keys recs) \<and> wf_array (record_buffers recs)
     \<and> arr_size (record_keys recs) = arr_size (records recs) \<and> arr_size (record_buffers recs) = arr_size (records recs)
     \<and> sorted_keys (contents (record_keys recs))
     \<and> contents (record_buffers recs) = map Some (contents (records recs))"

definition recs_pairs :: "'p dx_snapshot_records \<Rightarrow> (dx_snapshot_record_key \<times> 'p event_data) list" where
  "recs_pairs recs = zip (contents (record_keys recs)) (contents (records recs))"

definition recs_map :: "'p dx_snapshot_records \<Rightarrow> dx_snapshot_record_key \<Rightarrow> 'p event_data option" where
  "recs_map recs = map_of (recs_pairs recs)"

lemma find_record_spec:
  assumes inv: "recs_inv recs" and f: "find_record recs key = (found, p)"
  shows "found \<Longrightarrow> p < arr_size (records recs) \<and> contents (record_keys recs) ! p = key"
    "\<not> found \<Longrightarrow> p \<le> arr_size (records recs) \<and> (\<forall>k \<in> set (take p (contents (record_keys recs))). key_rank k < key_rank key)
       \<and> (\<forall>k \<in> set (drop p (contents (record_keys recs))). key_rank key < key_rank k)"
proof -
  have n: "arr_size (record_keys recs) = length (contents (record_keys recs))"
    "arr_size (record_keys recs) = arr_size (records recs)"
    using inv length_contents [of "record_keys recs"] by (simp_all add: recs_inv_def)
  have s: "sorted_wrt (\<lambda>x y. key_rank x < key_rank y) (contents (record_keys recs))"
    using inv by (simp add: recs_inv_def sorted_keys_def)
  have t: "take (arr_size (record_keys recs)) (elements (record_keys recs)) = contents (record_keys recs)"
    by (simp add: contents_def)
  note l = record_search.search_list [OF s _ _ n(1) t f [unfolded find_record_def]]
  show "p < arr_size (records recs) \<and> contents (record_keys recs) ! p = key" if found
    using l(1) that n(2) key_rank_eq by auto
  show "p \<le> arr_size (records recs) \<and> (\<forall>k \<in> set (take p (contents (record_keys recs))). key_rank k < key_rank key)
       \<and> (\<forall>k \<in> set (drop p (contents (record_keys recs))). key_rank key < key_rank k)" if "\<not> found"
    using l(2) that n(2) by auto
qed

lemma recs_lengths:
  assumes "recs_inv recs"
  shows "length (contents (records recs)) = arr_size (records recs)"
    "length (contents (record_keys recs)) = arr_size (records recs)"
    "length (contents (record_buffers recs)) = arr_size (records recs)"
    "length (recs_pairs recs) = arr_size (records recs)" "map fst (recs_pairs recs) = contents (record_keys recs)"
  using assms length_contents [of "records recs"] length_contents [of "record_keys recs"]
    length_contents [of "record_buffers recs"] by (simp_all add: recs_inv_def recs_pairs_def)

lemma sorted_keys_distinct: "sorted_keys ks \<Longrightarrow> distinct ks"
  by (induction ks) (auto simp: sorted_keys_def)

lemma sorted_keys_insert:
  assumes "sorted_keys ks" "\<forall>k \<in> set (take p ks). key_rank k < key_rank key" "\<forall>k \<in> set (drop p ks). key_rank key < key_rank k"
  shows "sorted_keys (take p ks @ key # drop p ks)" "key \<notin> set ks"
proof -
  have "sorted_wrt (\<lambda>x y. key_rank x < key_rank y) (take p ks @ drop p ks)" using assms(1) by (simp add: sorted_keys_def)
  then show "sorted_keys (take p ks @ key # drop p ks)"
    using assms(2,3) unfolding sorted_keys_def sorted_wrt_append by (auto simp: sorted_wrt_append)
  have "set ks = set (take p ks) \<union> set (drop p ks)" by (metis append_take_drop_id set_append)
  then show "key \<notin> set ks" using assms(2,3) by auto
qed

lemma sorted_keys_delete: "sorted_keys ks \<Longrightarrow> sorted_keys (take p ks @ drop (p + 1) ks)"
proof -
  assume "sorted_keys ks"
  then have "sorted_wrt (\<lambda>x y. key_rank x < key_rank y) (take p ks @ drop p ks)" by (simp add: sorted_keys_def)
  moreover have "set (drop (p + 1) ks) \<subseteq> set (drop p ks)" by (simp add: set_drop_subset_set_drop)
  moreover have "sorted_wrt (\<lambda>x y. key_rank x < key_rank y) (drop (p + 1) ks)"
    using \<open>sorted_keys ks\<close> by (simp add: sorted_keys_def sorted_wrt_drop)
  ultimately show "sorted_keys (take p ks @ drop (p + 1) ks)" unfolding sorted_keys_def sorted_wrt_append by blast
qed

lemma map_of_insert_at:
  assumes "k \<notin> fst ` set ps"
  shows "map_of (take p ps @ (k, v) # drop p ps) = (map_of ps)(k \<mapsto> v)"
proof -
  have "map_of (take p ps) k = None" using assms by (auto simp: map_of_eq_None_iff dest: in_set_takeD)
  moreover have "map_of ps = map_of (drop p ps) ++ map_of (take p ps)"
    by (metis append_take_drop_id map_of_append)
  ultimately show ?thesis by (auto simp: fun_eq_iff map_add_def split: option.splits)
qed

lemma zip_insert_at:
  "length xs = length ys \<Longrightarrow>
    zip (take p xs @ x # drop p xs) (take p ys @ y # drop p ys) = take p (zip xs ys) @ (x, y) # drop p (zip xs ys)"
  by (simp add: zip_append take_zip drop_zip min_def)

text \<open>Adding, replacing and removing a record, when memory is available.\<close>

lemma add_event_record_spec:
  assumes inv: "recs_inv recs" and st: "storable eid" and f: "find_record recs (event_key eid rid params data) = (False, p)"
  obtains recs' where "dx_snapshot_add_event_record (\<lambda>_. True) eid rid params data p recs = (Inr (), recs')" "recs_inv recs'"
    "recs_map recs' = (recs_map recs)(event_key eid rid params data \<mapsto> data)"
proof -
  let ?k = "event_key eid rid params data"
  note fs = find_record_spec(2) [OF inv f]
  note len = recs_lengths [OF inv]
  have wf: "wf_array (records recs)" "wf_array (record_keys recs)" "wf_array (record_buffers recs)"
    "arr_size (record_keys recs) = arr_size (records recs)" "arr_size (record_buffers recs) = arr_size (records recs)"
    using inv by (simp_all add: recs_inv_def)
  have p: "p \<le> arr_size (records recs)" using fs by simp
  obtain a1 where a1: "DX_ARRAY_INSERT (\<lambda>_. True) zero_event data p dx_capacity_manager_halfer (records recs) = (Inr (), a1)"
    "wf_array a1" "contents a1 = take p (contents (records recs)) @ data # drop p (contents (records recs))"
    by (rule halfer.insert_succeeds [OF wf(1) p])
  obtain a2 where a2: "DX_ARRAY_INSERT (\<lambda>_. True) zero_key ?k p dx_capacity_manager_halfer (record_keys recs) = (Inr (), a2)"
    "wf_array a2" "contents a2 = take p (contents (record_keys recs)) @ ?k # drop p (contents (record_keys recs))"
    by (rule halfer.insert_succeeds [OF wf(2)]) (use p wf(4) in simp)
  obtain a3 where a3: "DX_ARRAY_INSERT (\<lambda>_. True) None (Some data) p dx_capacity_manager_halfer (record_buffers recs) = (Inr (), a3)"
    "wf_array a3" "contents a3 = take p (contents (record_buffers recs)) @ Some data # drop p (contents (record_buffers recs))"
    by (rule halfer.insert_succeeds [OF wf(3)]) (use p wf(5) in simp)
  let ?recs' = "\<lparr>records = a1, record_keys = a2, record_buffers = a3\<rparr>"
  have e: "dx_snapshot_add_event_record (\<lambda>_. True) eid rid params data p recs = (Inr (), ?recs')"
    using a1(1) a2(1) a3(1) st
    by (cases recs) (auto simp: dx_snapshot_add_event_record_def clone_event_def storable_def checked_def
        dx_snapshot_insert_record_def on_records_def on_keys_def on_buffers_def after_failure_def event_key_def Let_def)
  have sz: "arr_size a1 = Suc (arr_size (records recs))" "arr_size a2 = arr_size a1" "arr_size a3 = arr_size a1"
    using length_contents [OF a1(2)] length_contents [OF a2(2)] length_contents [OF a3(2)] a1(3) a2(3) a3(3) len p by simp_all
  have b: "contents (record_buffers recs) = map Some (contents (records recs))" and k: "sorted_keys (contents (record_keys recs))"
    using inv by (simp_all add: recs_inv_def)
  note ks = sorted_keys_insert [OF k, of p ?k]
  have "contents a3 = map Some (contents a1)" unfolding a1(3) a3(3) b by (simp add: take_map drop_map)
  then have i: "recs_inv ?recs'" using a1(2) a2(2) a3(2) sz ks(1) fs a2(3) by (simp add: recs_inv_def)
  have "recs_pairs ?recs' = take p (recs_pairs recs) @ (?k, data) # drop p (recs_pairs recs)"
    using len by (simp add: recs_pairs_def a1(3) a2(3) zip_insert_at take_zip drop_zip)
  moreover have "?k \<notin> fst ` set (recs_pairs recs)" using ks(2) fs len(5) by (metis list.set_map)
  ultimately have "recs_map ?recs' = (recs_map recs)(?k \<mapsto> data)" by (simp only: recs_map_def map_of_insert_at not_False_eq_True)
  with e i that show thesis by blast
qed

lemma set_element_spec:
  assumes "wf_array arr" "p < arr_size arr"
  shows "set_element p x arr = (Inr (), arr\<lparr>elements := (elements arr)[p := x]\<rparr>)"
  using assms by (simp add: set_element_def mem_store_def wf_array_def)

lemma replace_record_spec:
  assumes inv: "recs_inv recs" and st: "storable eid" and f: "find_record recs key = (True, p)"
  obtains recs' where "dx_snapshot_replace_record (\<lambda>_. True) eid p data recs = (Inr (), recs')" "recs_inv recs'"
    "recs_map recs' = (recs_map recs)(key \<mapsto> data)"
proof -
  note fs = find_record_spec(1) [OF inv f]
  note len = recs_lengths [OF inv]
  have wf: "wf_array (records recs)" "wf_array (record_buffers recs)" "arr_size (record_buffers recs) = arr_size (records recs)"
    using inv by (simp_all add: recs_inv_def)
  have p: "p < arr_size (records recs)" using fs by simp
  define a1 where "a1 = (records recs)\<lparr>elements := (elements (records recs))[p := data]\<rparr>"
  define b1 where "b1 = (record_buffers recs)\<lparr>elements := (elements (record_buffers recs))[p := None]\<rparr>"
  define b2 where "b2 = b1\<lparr>elements := (elements b1)[p := Some data]\<rparr>"
  have s1: "set_element p data (records recs) = (Inr (), a1)" unfolding a1_def by (rule set_element_spec [OF wf(1) p])
  have pb: "p < arr_size (record_buffers recs)" using p wf(3) by simp
  have s2: "set_element p None (record_buffers recs) = (Inr (), b1)" unfolding b1_def by (rule set_element_spec [OF wf(2) pb])
  note c1 = contents_update(1,2) [OF wf(2) pb, of None, folded b1_def]
  have pb1: "p < arr_size b1" using pb by (simp add: b1_def)
  have s3: "set_element p (Some data) b1 = (Inr (), b2)" unfolding b2_def by (rule set_element_spec [OF c1(2) pb1])
  note c2 = contents_update(1,2) [OF c1(2) pb1, of "Some data", folded b2_def]
  note c3 = contents_update(1,2) [OF wf(1) p, of data, folded a1_def]
  let ?recs' = "\<lparr>records = a1, record_keys = record_keys recs, record_buffers = b2\<rparr>"
  have e: "dx_snapshot_replace_record (\<lambda>_. True) eid p data recs = (Inr (), ?recs')"
    using s1 s2 s3 st p
    by (cases recs) (auto simp: dx_snapshot_replace_record_def clone_event_def storable_def checked_def
        dx_snapshot_set_record_def on_records_def on_buffers_def)
  have b: "contents (record_buffers recs) = map Some (contents (records recs))" using inv by (simp add: recs_inv_def)
  have "contents b2 = map Some (contents a1)" unfolding c2(1) c1(1) c3(1) b by (simp add: map_update)
  then have i: "recs_inv ?recs'" using inv c2(2) c3(2) by (simp add: recs_inv_def a1_def b1_def b2_def)
  have ps: "recs_pairs ?recs' = (recs_pairs recs)[p := (key, data)]"
  proof -
    have "zip (contents (record_keys recs)) ((contents (records recs))[p := data]) =
        zip ((contents (record_keys recs))[p := key]) ((contents (records recs))[p := data])"
      using fs by (metis list_update_id)
    then show ?thesis by (simp add: recs_pairs_def c3(1) zip_update)
  qed
  have d: "distinct (map fst (recs_pairs recs))" using inv len(5) sorted_keys_distinct by (simp add: recs_inv_def)
  have "fst (recs_pairs recs ! p) = key" using fs len by (simp add: recs_pairs_def)
  then have "recs_map ?recs' = (recs_map recs)(key \<mapsto> data)"
    using map_of_distinct_update [OF d, where i = p and x = "(key, data)" and g = snd] p len(4)
    by (simp add: recs_map_def ps)
  with e i that show thesis by blast
qed

lemma remove_record_spec:
  assumes inv: "recs_inv recs" and st: "storable eid" and f: "find_record recs key = (True, p)"
  obtains recs' where "dx_snapshot_remove_event_record (\<lambda>_. True) eid p recs = (Inr (), recs')" "recs_inv recs'"
    "recs_map recs' = (recs_map recs)(key := None)"
proof -
  note fs = find_record_spec(1) [OF inv f]
  note len = recs_lengths [OF inv]
  have wf: "wf_array (records recs)" "wf_array (record_keys recs)" "wf_array (record_buffers recs)"
    "arr_size (record_keys recs) = arr_size (records recs)" "arr_size (record_buffers recs) = arr_size (records recs)"
    using inv by (simp_all add: recs_inv_def)
  have p: "p < arr_size (records recs)" "p < arr_size (record_keys recs)" "p < arr_size (record_buffers recs)" using fs wf by simp_all
  define b1 where "b1 = (record_buffers recs)\<lparr>elements := (elements (record_buffers recs))[p := None]\<rparr>"
  have s2: "set_element p None (record_buffers recs) = (Inr (), b1)" unfolding b1_def by (rule set_element_spec [OF wf(3) p(3)])
  note c1 = contents_update(1,2) [OF wf(3) p(3), of None, folded b1_def]
  have pb1: "p < arr_size b1" using p by (simp add: b1_def)
  obtain a1 where a1: "DX_ARRAY_DELETE (\<lambda>_. True) zero_event p dx_capacity_manager_halfer (records recs) = (Inr (), a1)"
    "wf_array a1" "contents a1 = take p (contents (records recs)) @ drop (p + 1) (contents (records recs))"
    by (rule halfer.delete_succeeds [OF wf(1) p(1)])
  obtain a2 where a2: "DX_ARRAY_DELETE (\<lambda>_. True) zero_key p dx_capacity_manager_halfer (record_keys recs) = (Inr (), a2)"
    "wf_array a2" "contents a2 = take p (contents (record_keys recs)) @ drop (p + 1) (contents (record_keys recs))"
    by (rule halfer.delete_succeeds [OF wf(2) p(2)])
  obtain a3 where a3: "DX_ARRAY_DELETE (\<lambda>_. True) None p dx_capacity_manager_halfer b1 = (Inr (), a3)"
    "wf_array a3" "contents a3 = take p (contents b1) @ drop (p + 1) (contents b1)"
    by (rule halfer.delete_succeeds [OF c1(2) pb1])
  let ?recs' = "\<lparr>records = a1, record_keys = a2, record_buffers = a3\<rparr>"
  have e: "dx_snapshot_remove_event_record (\<lambda>_. True) eid p recs = (Inr (), ?recs')"
    using a1(1) a2(1) a3(1) s2 st p
    by (cases recs) (auto simp: dx_snapshot_remove_event_record_def checked_def
        dx_snapshot_delete_record_def on_records_def on_keys_def on_buffers_def)
  have sz: "arr_size a1 = arr_size (records recs) - 1" "arr_size a2 = arr_size a1" "arr_size a3 = arr_size a1"
    using length_contents [OF a1(2)] length_contents [OF a2(2)] length_contents [OF a3(2)] a1(3) a2(3) a3(3) len p c1(1) by simp_all
  have b: "contents (record_buffers recs) = map Some (contents (records recs))" and k: "sorted_keys (contents (record_keys recs))"
    using inv by (simp_all add: recs_inv_def)
  have "contents a3 = map Some (contents a1)" unfolding a1(3) a3(3) c1(1) b by (simp add: take_map drop_map)
  then have i: "recs_inv ?recs'" using a1(2) a2(2) a3(2) sz sorted_keys_delete [OF k, of p] a2(3) by (simp add: recs_inv_def)
  have ps: "recs_pairs ?recs' = take p (recs_pairs recs) @ drop (p + 1) (recs_pairs recs)"
    using len p by (simp add: recs_pairs_def a1(3) a2(3) zip_append take_zip drop_zip)
  have d: "distinct (map fst (recs_pairs recs))" using inv len(5) sorted_keys_distinct by (simp add: recs_inv_def)
  have "fst (recs_pairs recs ! p) = key" using fs len by (simp add: recs_pairs_def)
  then have "recs_map ?recs' = (recs_map recs)(key := None)"
    using map_of_distinct_delete [OF d, where i = p and g = snd] p len(4)
    by (simp add: recs_map_def ps)
  with e i that show thesis by blast
qed

lemma recs_map_absent:
  assumes inv: "recs_inv recs" and f: "find_record recs key = (False, p)"
  shows "recs_map recs key = None"
proof -
  have "key \<notin> set (contents (record_keys recs))"
    using find_record_spec(2) [OF inv f] sorted_keys_insert(2) inv by (auto simp: recs_inv_def)
  then have "key \<notin> fst ` set (recs_pairs recs)" using recs_lengths(5) [OF inv] by (metis list.set_map)
  then show ?thesis by (simp add: recs_map_def map_of_eq_None_iff)
qed

lemma update_records_spec:
  assumes "recs_inv recs" "storable eid"
  obtains recs' where "dx_snapshot_update_event_records (\<lambda>_. True) eid rid data params recs = (Inr (), recs')" "recs_inv recs'"
    "recs_map recs' = (recs_map recs)(event_key eid rid params data \<mapsto> data)"
proof -
  obtain found p where f: "find_record recs (event_key eid rid params data) = (found, p)" by fastforce
  show thesis
  proof (cases found)
    case True
    then show thesis
      using replace_record_spec [OF assms, of "event_key eid rid params data" p data] f that
      by (auto simp: dx_snapshot_update_event_records_def Let_def)
  next
    case False
    then show thesis
      using add_event_record_spec [OF assms, of rid params data p] f that
      by (auto simp: dx_snapshot_update_event_records_def Let_def)
  qed
qed

lemma remove_records_spec:
  assumes "recs_inv recs" "storable eid"
  obtains recs' where "dx_snapshot_remove_event_records (\<lambda>_. True) eid rid data params recs = (Inr (), recs')" "recs_inv recs'"
    "recs_map recs' = (recs_map recs)(event_key eid rid params data := None)"
proof -
  obtain found p where f: "find_record recs (event_key eid rid params data) = (found, p)" by fastforce
  show thesis
  proof (cases found)
    case True
    then show thesis
      using remove_record_spec [OF assms, of "event_key eid rid params data" p] f that
      by (auto simp: dx_snapshot_remove_event_records_def Let_def)
  next
    case False
    then have "(recs_map recs)(event_key eid rid params data := None) = recs_map recs"
      using recs_map_absent [OF assms(1)] f by (simp add: fun_upd_idem)
    then show thesis using False f that [of recs] assms(1) by (simp add: dx_snapshot_remove_event_records_def)
  qed
qed

end
