(* ===== verification/Dx_Snapshot.thy ===== *)
theory Dx_Snapshot
  imports Dx_Snapshot_Records
begin

text \<open>
  Snapshots, \<open>src/src/Snapshot.c\<close>: the state of a snapshot, \<open>event_listener\<close>, which takes the events of a feed
  through begin, end and pending transactions and calls the listeners, the listeners of both kinds, and the
  connection's registry of snapshots.  A listener is the number of its function, a snapshot the place of its block
  in \<open>store\<close>.  The lemmas show that a snapshot refines the map of the last events by key, that an incremental
  client can rebuild it, and that both registries are maps.
\<close>

section \<open>Snapshots\<close>

record dx_snapshot_listener_context =
  incremental :: bool
  full_snapshot_seen :: bool
  snap_listener :: long64
  snap_user_data :: long64

record 'p dx_snapshot_data =
  snap_key :: long64
  record_info_id :: dx_record_info_id
  event_id :: dx_event_id
  snap_event_type :: int32
  snap_order_source :: "dxf_char list option"
  snap_symbol :: "dxf_char list"
  snap_time :: long64
  snap_status :: dx_plb_status
  full_snapshot_published :: bool
  snapshot_records :: "'p dx_snapshot_records"
  last_tx_records :: "'p dx_snapshot_records"
  snap_listeners :: "dx_snapshot_listener_context dx_array"
  has_inc_listeners :: bool

text \<open>
  One call of a listener: the function and its data, the fields of \<open>callback_data\<close>, and for an incremental
  listener whether the snapshot is new.
\<close>

record 'p snapshot_call =
  call_listener :: long64
  call_user_data :: long64
  call_event_type :: int32
  call_symbol :: "dxf_char list"
  call_records :: "'p event_data list"
  call_new :: "bool option"

fun call_listeners ::
  "'p dx_snapshot_data \<Rightarrow> bool \<Rightarrow> dx_snapshot_listener_context list
    \<Rightarrow> 'p snapshot_call list \<times> dx_snapshot_listener_context list" where
  "call_listeners sd new_snapshot [] = ([], [])"
| "call_listeners sd new_snapshot (l # ls) =
     (let whole = incremental l \<longrightarrow> new_snapshot \<or> \<not> full_snapshot_seen l;
          call = \<lparr>call_listener = snap_listener l, call_user_data = snap_user_data l,
            call_event_type = snap_event_type sd, call_symbol = snap_symbol sd,
            call_records = contents (records (if whole then snapshot_records sd else last_tx_records sd)),
            call_new = (if incremental l then Some whole else None)\<rparr>;
          l' = (if incremental l \<and> whole then l\<lparr>full_snapshot_seen := True\<rparr> else l);
          (calls, ls') = call_listeners sd new_snapshot ls
      in (call # calls, l' # ls'))"

definition dx_snapshot_call_listeners :: "bool \<Rightarrow> ('p dx_snapshot_data, 'p snapshot_call list) io" where
  "dx_snapshot_call_listeners new_snapshot = (\<lambda>sd.
     let (calls, ls) = call_listeners sd new_snapshot (contents (snap_listeners sd));
         arr = snap_listeners sd
     in (Inr calls, sd\<lparr>snap_listeners := arr\<lparr>elements := ls @ drop (arr_size arr) (elements arr)\<rparr>\<rparr>))"

definition dx_is_snapshot_event :: "'p dx_snapshot_data \<Rightarrow> dxf_event_params \<Rightarrow> bool" where
  "dx_is_snapshot_event sd event_params \<longleftrightarrow> snap_key sd = ep_snapshot_key event_params"

definition dx_is_zero_event :: "dx_event_id \<Rightarrow> 'p event_data \<Rightarrow> bool" where
  "dx_is_zero_event eid data \<longleftrightarrow>
     eid = dx_eid_order \<and> (case data of Order_Data order \<Rightarrow> dbl_eq (order_size order) (Num 0) | Other_Data _ \<Rightarrow> False)"

text \<open>
  An operation whose result the caller ignores, on one of the two sets of records: only undefined
  behaviour is passed on.
\<close>

definition ignoring :: "('s, unit) io \<Rightarrow> ('s, unit) io" where
  "ignoring m = (\<lambda>s. case m s of (r, s) \<Rightarrow> (if r = Inl UB then Inl UB else Inr (), s))"

definition on_snapshot :: "('p dx_snapshot_records, unit) io \<Rightarrow> ('p dx_snapshot_data, unit) io" where
  "on_snapshot m = (\<lambda>sd. case m (snapshot_records sd) of (r, recs) \<Rightarrow> (r, sd\<lparr>snapshot_records := recs\<rparr>))"

definition on_last_tx :: "('p dx_snapshot_records, unit) io \<Rightarrow> ('p dx_snapshot_data, unit) io" where
  "on_last_tx m = (\<lambda>sd. case m (last_tx_records sd) of (r, recs) \<Rightarrow> (r, sd\<lparr>last_tx_records := recs\<rparr>))"

definition begin_snapshot :: "'p dx_snapshot_data \<Rightarrow> 'p dx_snapshot_data" where
  "begin_snapshot sd = sd\<lparr>snapshot_records := dx_snapshot_clear_records_array (snapshot_records sd),
     last_tx_records := dx_snapshot_clear_records_array (last_tx_records sd),
     snap_status := dx_status_begin, full_snapshot_published := False\<rparr>"

definition publish_snapshot :: "('p dx_snapshot_data, 'p snapshot_call list) io" where
  "publish_snapshot = (\<lambda>sd.
     checked (dx_snapshot_call_listeners (\<not> full_snapshot_published sd)) (\<lambda>calls sd.
       (Inr calls, sd\<lparr>full_snapshot_published := True,
          last_tx_records := dx_snapshot_clear_records_array (last_tx_records sd)\<rparr>)) sd)"

definition event_listener ::
  "(nat \<Rightarrow> bool) \<Rightarrow> 'p event_data \<Rightarrow> dxf_event_params \<Rightarrow> ('p dx_snapshot_data, 'p snapshot_call list) io" where
  "event_listener mem data event_params = (\<lambda>sd.
     let sb = IS_FLAG_SET (ep_flags event_params) dxf_ef_snapshot_begin;
         se = IS_FLAG_SET (ep_flags event_params) dxf_ef_snapshot_end
              \<or> IS_FLAG_SET (ep_flags event_params) dxf_ef_snapshot_snip;
         tx = IS_FLAG_SET (ep_flags event_params) dxf_ef_tx_pending
     in if \<not> dx_is_snapshot_event sd event_params then (Inr [], sd)
     else
       let rm = (IS_FLAG_SET (ep_flags event_params) dxf_ef_remove_event \<or> dx_is_zero_event (event_id sd) data);
           sd = (if sb then begin_snapshot sd else sd)
       in if snap_status sd = dx_status_unknown then (Inr [], sd)
       else
         checked (on_snapshot (ignoring
           (if rm then dx_snapshot_remove_event_records mem (event_id sd) (record_info_id sd) data event_params
            else dx_snapshot_update_event_records mem (event_id sd) (record_info_id sd) data event_params))) (\<lambda>_.
         checked (if has_inc_listeners sd \<and> full_snapshot_published sd
           then on_last_tx (ignoring
             (dx_snapshot_update_event_records mem (event_id sd) (record_info_id sd) data event_params))
           else return ()) (\<lambda>_ sd.
           let sd = sd\<lparr>snap_status := next_status se tx (snap_status sd)\<rparr> in
           if snap_status sd = dx_status_full then publish_snapshot sd else (Inr [], sd))) sd)"

section \<open>Listeners\<close>

definition dx_snapshot_listener_comparator ::
  "dx_snapshot_listener_context \<Rightarrow> dx_snapshot_listener_context \<Rightarrow> int" where
  "dx_snapshot_listener_comparator e1 e2 =
     (if incremental e1 = incremental e2 then DX_NUMERIC_COMPARATOR (snap_listener e1) (snap_listener e2) else - 1)"

definition dx_find_snapshot_listener_in_array ::
  "dx_snapshot_listener_context dx_array \<Rightarrow> bool \<Rightarrow> long64 \<Rightarrow> bool \<times> nat" where
  "dx_find_snapshot_listener_in_array listeners inc listener =
     DX_ARRAY_SEARCH (elements listeners) 0 (arr_size listeners)
       \<lparr>incremental = inc, full_snapshot_seen = False, snap_listener = listener, snap_user_data = 0\<rparr>
       dx_snapshot_listener_comparator False"

definition zero_snapshot_listener :: dx_snapshot_listener_context where
  "zero_snapshot_listener = \<lparr>incremental = False, full_snapshot_seen = False, snap_listener = 0, snap_user_data = 0\<rparr>"

definition dx_add_snapshot_listener ::
  "(nat \<Rightarrow> bool) \<Rightarrow> long64 \<Rightarrow> long64 \<Rightarrow> ('p dx_snapshot_data, bool) io" where
  "dx_add_snapshot_listener mem listener data = (\<lambda>sd.
     if listener = 0 then (Inl dx_ssec_invalid_listener, sd)
     else
       let (found, i) = dx_find_snapshot_listener_in_array (snap_listeners sd) False listener
       in if found then (Inr True, sd)
       else case DX_ARRAY_INSERT mem zero_snapshot_listener
           \<lparr>incremental = False, full_snapshot_seen = False, snap_listener = listener, snap_user_data = data\<rparr>
           i dx_capacity_manager_halfer (snap_listeners sd) of
         (Inl UB, arr) \<Rightarrow> (Inl UB, sd\<lparr>snap_listeners := arr\<rparr>)
       | (Inl _, arr) \<Rightarrow> (Inr False, sd\<lparr>snap_listeners := arr\<rparr>)
       | (Inr _, arr) \<Rightarrow> (Inr True, sd\<lparr>snap_listeners := arr\<rparr>))"

definition dx_remove_snapshot_listener ::
  "(nat \<Rightarrow> bool) \<Rightarrow> long64 \<Rightarrow> ('p dx_snapshot_data, bool) io" where
  "dx_remove_snapshot_listener mem listener = (\<lambda>sd.
     if listener = 0 then (Inl dx_ssec_invalid_listener, sd)
     else
       let (found, i) = dx_find_snapshot_listener_in_array (snap_listeners sd) False listener
       in if \<not> found then (Inr True, sd)
       else case DX_ARRAY_DELETE mem zero_snapshot_listener i dx_capacity_manager_halfer (snap_listeners sd) of
         (Inl UB, arr) \<Rightarrow> (Inl UB, sd\<lparr>snap_listeners := arr\<rparr>)
       | (Inl _, arr) \<Rightarrow> (Inr False, sd\<lparr>snap_listeners := arr\<rparr>)
       | (Inr _, arr) \<Rightarrow> (Inr True, sd\<lparr>snap_listeners := arr\<rparr>))"

definition dx_add_snapshot_inc_listener ::
  "(nat \<Rightarrow> bool) \<Rightarrow> long64 \<Rightarrow> long64 \<Rightarrow> ('p dx_snapshot_data, bool) io" where
  "dx_add_snapshot_inc_listener mem listener data = (\<lambda>sd.
     if listener = 0 then (Inl dx_ssec_invalid_listener, sd)
     else
       let (found, i) = dx_find_snapshot_listener_in_array (snap_listeners sd) True listener
       in if found then (Inr True, sd)
       else case DX_ARRAY_INSERT mem zero_snapshot_listener
           \<lparr>incremental = True, full_snapshot_seen = False, snap_listener = listener, snap_user_data = data\<rparr>
           i dx_capacity_manager_halfer (snap_listeners sd) of
         (Inl UB, arr) \<Rightarrow> (Inl UB, sd\<lparr>snap_listeners := arr\<rparr>)
       | (Inl _, arr) \<Rightarrow> (Inr False, sd\<lparr>snap_listeners := arr, has_inc_listeners := True\<rparr>)
       | (Inr _, arr) \<Rightarrow> (Inr True, sd\<lparr>snap_listeners := arr, has_inc_listeners := True\<rparr>))"

text \<open>
  The loop after the removal of an incremental listener: it stops as soon as \<open>has_inc_listeners\<close> is set,
  and nothing has reset it.
\<close>

fun any_incremental :: "bool \<Rightarrow> dx_snapshot_listener_context list \<Rightarrow> bool" where
  "any_incremental has [] = has"
| "any_incremental has (l # ls) = (if has then has else any_incremental (has \<or> incremental l) ls)"

definition dx_remove_snapshot_inc_listener ::
  "(nat \<Rightarrow> bool) \<Rightarrow> long64 \<Rightarrow> ('p dx_snapshot_data, bool) io" where
  "dx_remove_snapshot_inc_listener mem listener = (\<lambda>sd.
     if listener = 0 then (Inl dx_ssec_invalid_listener, sd)
     else
       let (found, i) = dx_find_snapshot_listener_in_array (snap_listeners sd) True listener
       in if \<not> found then (Inr True, sd)
       else case DX_ARRAY_DELETE mem zero_snapshot_listener i dx_capacity_manager_halfer (snap_listeners sd) of
         (Inl UB, arr) \<Rightarrow> (Inl UB, sd\<lparr>snap_listeners := arr\<rparr>)
       | (r, arr) \<Rightarrow> (Inr (\<not> isl r), sd\<lparr>snap_listeners := arr,
           has_inc_listeners := any_incremental (has_inc_listeners sd) (contents arr)\<rparr>))"

section \<open>Creation and closing\<close>

definition SNAPSHOT_KEY_SOURCE_MASK :: long64 where "SNAPSHOT_KEY_SOURCE_MASK = 0xFFFFFF"

fun record_info_number :: "dx_record_info_id \<Rightarrow> nat" where
  "record_info_number dx_rid_trade = 0" | "record_info_number dx_rid_quote = 1"
| "record_info_number dx_rid_summary = 2" | "record_info_number dx_rid_profile = 3"
| "record_info_number dx_rid_market_maker = 4" | "record_info_number dx_rid_order = 5"
| "record_info_number dx_rid_time_and_sale = 6" | "record_info_number dx_rid_candle = 7"
| "record_info_number dx_rid_trade_eth = 8" | "record_info_number dx_rid_spread_order = 9"
| "record_info_number dx_rid_greeks = 10" | "record_info_number dx_rid_theo_price = 11"
| "record_info_number dx_rid_underlying = 12" | "record_info_number dx_rid_series = 13"
| "record_info_number dx_rid_configuration = 14" | "record_info_number dx_rid_count = 15"
| "record_info_number dx_rid_invalid = 16"

definition dx_new_snapshot_key ::
  "(dxf_char list \<Rightarrow> long64) \<Rightarrow> dx_record_info_id \<Rightarrow> dxf_char list \<Rightarrow> dxf_char list option \<Rightarrow> long64" where
  "dx_new_snapshot_key symbol_hash rid symbol source =
     (let symbol_hash_value = symbol_hash symbol;
          order_source_hash = (case source of None \<Rightarrow> 0 | Some s \<Rightarrow> symbol_hash s)
      in push_bit 56 (of_nat (record_info_number rid)) OR push_bit 24 symbol_hash_value
         OR (order_source_hash AND SNAPSHOT_KEY_SOURCE_MASK))"

definition no_records :: "'p dx_snapshot_records" where
  "no_records = \<lparr>records = DX_EMPTY_ARRAY, record_keys = DX_EMPTY_ARRAY, record_buffers = DX_EMPTY_ARRAY\<rparr>"

text \<open>The new snapshot, and the subsystem's array of snapshots sorted by key; a snapshot pointer is a place in \<open>store\<close>.\<close>

definition new_snapshot_data ::
  "(dxf_char list \<Rightarrow> long64) \<Rightarrow> dx_event_id \<Rightarrow> dx_record_info_id \<Rightarrow> dxf_char list \<Rightarrow> dxf_char list option
    \<Rightarrow> long64 \<Rightarrow> int32 \<Rightarrow> 'p dx_snapshot_data" where
  "new_snapshot_data symbol_hash eid rid symbol source time event_types =
     \<lparr>snap_key = dx_new_snapshot_key symbol_hash rid symbol source, record_info_id = rid, event_id = eid,
      snap_event_type = event_types, snap_order_source = source, snap_symbol = symbol, snap_time = time,
      snap_status = dx_status_full, full_snapshot_published = True, snapshot_records = no_records,
      last_tx_records = no_records, snap_listeners = DX_EMPTY_ARRAY, has_inc_listeners = False\<rparr>"

record 'p dx_snapshot_context =
  snapshots_array :: "nat dx_array"
  store :: "nat \<Rightarrow> 'p dx_snapshot_data option"

text \<open>\<open>store\<close> is \<open>None\<close> for a block that has been freed, so the comparator reads live snapshots only.\<close>

definition dx_snapshots_comparator :: "(nat \<Rightarrow> 'p dx_snapshot_data option) \<Rightarrow> nat \<Rightarrow> nat \<Rightarrow> int" where
  "dx_snapshots_comparator st s1 s2 =
     (case (st s1, st s2) of
        (Some d1, Some d2) \<Rightarrow> DX_NUMERIC_COMPARATOR (snap_key d1) (snap_key d2)
      | _ \<Rightarrow> 0)"

definition dx_free_snapshot_data :: "nat \<Rightarrow> 'p dx_snapshot_context \<Rightarrow> 'p dx_snapshot_context" where
  "dx_free_snapshot_data p ctx = ctx\<lparr>store := (store ctx)(p := None)\<rparr>"

definition find_snapshot :: "'p dx_snapshot_context \<Rightarrow> nat \<Rightarrow> bool \<times> nat" where
  "find_snapshot ctx p = DX_ARRAY_BINARY_SEARCH (elements (snapshots_array ctx)) 0 (arr_size (snapshots_array ctx)) p
     (dx_snapshots_comparator (store ctx))"

text \<open>\<open>p\<close> is the block that \<open>dx_calloc\<close> gives; connection and subscription are valid.\<close>

definition dx_create_snapshot ::
  "(nat \<Rightarrow> bool) \<Rightarrow> (dxf_char list \<Rightarrow> long64) \<Rightarrow> nat \<Rightarrow> dx_event_id \<Rightarrow> dx_record_info_id \<Rightarrow> dxf_char list
    \<Rightarrow> dxf_char list option \<Rightarrow> long64 \<Rightarrow> int32 \<Rightarrow> ('p dx_snapshot_context, nat) io" where
  "dx_create_snapshot mem symbol_hash p eid rid symbol source time event_types = (\<lambda>ctx.
     let ctx = ctx\<lparr>store := (store ctx)(p \<mapsto> new_snapshot_data symbol_hash eid rid symbol source time event_types)\<rparr>;
         (found, position) = (if arr_size (snapshots_array ctx) > 0 then find_snapshot ctx p else (False, 0))
     in if found then (Inl dx_ssec_snapshot_exist, dx_free_snapshot_data p ctx)
        else case DX_ARRAY_INSERT mem 0 p position dx_capacity_manager_halfer (snapshots_array ctx) of
          (Inl UB, arr) \<Rightarrow> (Inl UB, ctx\<lparr>snapshots_array := arr\<rparr>)
        | (Inl e, arr) \<Rightarrow> (Inl e, dx_free_snapshot_data p (ctx\<lparr>snapshots_array := arr\<rparr>))
        | (Inr _, arr) \<Rightarrow> (Inr p, ctx\<lparr>snapshots_array := arr\<rparr>))"

definition dx_close_snapshot :: "(nat \<Rightarrow> bool) \<Rightarrow> nat \<Rightarrow> ('p dx_snapshot_context, unit) io" where
  "dx_close_snapshot mem p = (\<lambda>ctx.
     let (found, position) = find_snapshot ctx p
     in if found then
          case DX_ARRAY_DELETE mem 0 position dx_capacity_manager_halfer (snapshots_array ctx) of
            (Inl UB, arr) \<Rightarrow> (Inl UB, ctx\<lparr>snapshots_array := arr\<rparr>)
          | (Inl e, arr) \<Rightarrow> (Inl e, dx_free_snapshot_data p (ctx\<lparr>snapshots_array := arr\<rparr>))
          | (Inr _, arr) \<Rightarrow> (Inr (), dx_free_snapshot_data p (ctx\<lparr>snapshots_array := arr\<rparr>))
        else (Inl dx_ssec_invalid_snapshot_id, ctx))"

text \<open>
  \<open>dx_get_snapshot_symbol\<close>; reading a freed snapshot is undefined.  At the end of the connection every snapshot of the array
  is freed, then the array.
\<close>

definition dx_get_snapshot_symbol :: "nat \<Rightarrow> ('p dx_snapshot_context, dxf_char list) io" where
  "dx_get_snapshot_symbol p = (\<lambda>ctx.
     if p = 0 then (Inl dx_ssec_invalid_snapshot_id, ctx)
     else case store ctx p of None \<Rightarrow> (Inl UB, ctx) | Some sd \<Rightarrow> (Inr (snap_symbol sd), ctx))"

definition dx_clear_snapshot_subscription_connection_context :: "'p dx_snapshot_context \<Rightarrow> 'p dx_snapshot_context" where
  "dx_clear_snapshot_subscription_connection_context ctx =
     (fold dx_free_snapshot_data (contents (snapshots_array ctx)) ctx)\<lparr>snapshots_array := DX_EMPTY_ARRAY\<rparr>"

section \<open>The invariant of a snapshot\<close>

definition listener_id :: "dx_snapshot_listener_context \<Rightarrow> bool \<times> long64" where
  "listener_id l = (incremental l, snap_listener l)"

definition snap_inv :: "'p dx_snapshot_data \<Rightarrow> bool" where
  "snap_inv sd \<longleftrightarrow> storable (event_id sd) \<and> recs_inv (snapshot_records sd) \<and> recs_inv (last_tx_records sd)
     \<and> wf_array (snap_listeners sd) \<and> distinct (map listener_id (contents (snap_listeners sd)))
     \<and> (\<forall>l \<in> set (contents (snap_listeners sd)). incremental l \<longrightarrow> has_inc_listeners sd)"

lemma snap_invD:
  assumes "snap_inv sd"
  shows "storable (event_id sd)" "recs_inv (snapshot_records sd)" "recs_inv (last_tx_records sd)"
    "wf_array (snap_listeners sd)" "distinct (map listener_id (contents (snap_listeners sd)))"
    "\<And>l. l \<in> set (contents (snap_listeners sd)) \<Longrightarrow> incremental l \<Longrightarrow> has_inc_listeners sd"
  using assms by (auto simp: snap_inv_def)

lemma recs_inv_empty [simp]: "recs_inv (dx_snapshot_clear_records_array recs)" "recs_inv no_records"
  "recs_map (dx_snapshot_clear_records_array recs) = Map.empty" "recs_map no_records = Map.empty"
  by (simp_all add: dx_snapshot_clear_records_array_def no_records_def recs_inv_def recs_map_def recs_pairs_def sorted_keys_def)
    (simp_all add: DX_EMPTY_ARRAY_def)

text \<open>What stays the same throughout the life of a snapshot.\<close>

definition same_snapshot :: "'p dx_snapshot_data \<Rightarrow> 'p dx_snapshot_data \<Rightarrow> bool" where
  "same_snapshot sd sd' \<longleftrightarrow> snap_key sd' = snap_key sd \<and> record_info_id sd' = record_info_id sd
     \<and> event_id sd' = event_id sd \<and> snap_event_type sd' = snap_event_type sd \<and> snap_symbol sd' = snap_symbol sd"

lemma same_snapshot_refl [simp]: "same_snapshot sd sd"
  by (simp add: same_snapshot_def)

lemma same_snapshot_trans: "same_snapshot a b \<Longrightarrow> same_snapshot b c \<Longrightarrow> same_snapshot a c"
  by (simp add: same_snapshot_def)

definition begins :: "dxf_event_params \<Rightarrow> bool" where
  "begins params \<longleftrightarrow> IS_FLAG_SET (ep_flags params) dxf_ef_snapshot_begin"

definition ends :: "dxf_event_params \<Rightarrow> bool" where
  "ends params \<longleftrightarrow> IS_FLAG_SET (ep_flags params) dxf_ef_snapshot_end \<or> IS_FLAG_SET (ep_flags params) dxf_ef_snapshot_snip"

definition pends :: "dxf_event_params \<Rightarrow> bool" where
  "pends params \<longleftrightarrow> IS_FLAG_SET (ep_flags params) dxf_ef_tx_pending"

definition removal :: "dx_event_id \<Rightarrow> 'p event_data \<Rightarrow> dxf_event_params \<Rightarrow> bool" where
  "removal eid data params \<longleftrightarrow> IS_FLAG_SET (ep_flags params) dxf_ef_remove_event \<or> dx_is_zero_event eid data"

definition sd_key :: "'p dx_snapshot_data \<Rightarrow> dxf_event_params \<Rightarrow> 'p event_data \<Rightarrow> dx_snapshot_record_key" where
  "sd_key sd params data = event_key (event_id sd) (record_info_id sd) params data"

definition started :: "'p dx_snapshot_data \<Rightarrow> dxf_event_params \<Rightarrow> 'p dx_snapshot_data" where
  "started sd params = (if begins params then begin_snapshot sd else sd)"

lemma started_simps:
  "snap_inv sd \<Longrightarrow> snap_inv (started sd params)" "same_snapshot sd (started sd params)"
  "recs_map (snapshot_records (started sd params)) = (if begins params then Map.empty else recs_map (snapshot_records sd))"
  "recs_map (last_tx_records (started sd params)) = (if begins params then Map.empty else recs_map (last_tx_records sd))"
  "snap_status (started sd params) = (if begins params then dx_status_begin else snap_status sd)"
  "full_snapshot_published (started sd params) = (\<not> begins params \<and> full_snapshot_published sd)"
  "snap_listeners (started sd params) = snap_listeners sd" "has_inc_listeners (started sd params) = has_inc_listeners sd"
  "event_id (started sd params) = event_id sd" "record_info_id (started sd params) = record_info_id sd"
  by (simp_all add: started_def begin_snapshot_def snap_inv_def same_snapshot_def)

text \<open>One event up to the calls of the listeners.\<close>

lemma event_listener_mid:
  assumes inv: "snap_inv sd" and key: "dx_is_snapshot_event sd params" and st: "snap_status sd \<noteq> dx_status_unknown"
  obtains mid where "event_listener (\<lambda>_. True) data params sd =
      (if snap_status mid = dx_status_full then publish_snapshot mid else (Inr [], mid))"
    "snap_inv mid" "same_snapshot sd mid"
    "recs_map (snapshot_records mid) = (recs_map (snapshot_records (started sd params)))
       (sd_key sd params data := (if removal (event_id sd) data params then None else Some data))"
    "recs_map (last_tx_records mid) = (if has_inc_listeners sd \<and> full_snapshot_published (started sd params)
       then (recs_map (last_tx_records (started sd params)))(sd_key sd params data \<mapsto> data)
       else recs_map (last_tx_records (started sd params)))"
    "snap_status mid = next_status (ends params) (pends params) (snap_status (started sd params))"
    "full_snapshot_published mid = full_snapshot_published (started sd params)"
    "snap_listeners mid = snap_listeners sd" "has_inc_listeners mid = has_inc_listeners sd"
proof -
  let ?s = "started sd params" and ?eid = "event_id sd" and ?rid = "record_info_id sd"
  note ss = started_simps [where sd = sd and params = params]
  note i = snap_invD(1-3) [OF ss(1) [OF inv], unfolded ss(9)]
  let ?op = "if removal ?eid data params then dx_snapshot_remove_event_records (\<lambda>_. True) ?eid ?rid data params
    else dx_snapshot_update_event_records (\<lambda>_. True) ?eid ?rid data params"
  obtain r1 where r1: "?op (snapshot_records ?s) = (Inr (), r1)" "recs_inv r1"
    "recs_map r1 = (recs_map (snapshot_records ?s))(sd_key sd params data := (if removal ?eid data params then None else Some data))"
  proof (cases "removal ?eid data params")
    case True
    from remove_records_spec [OF i(2,1), of ?rid data params] True that show thesis by (auto simp: sd_key_def)
  next
    case False
    from update_records_spec [OF i(2,1), of ?rid data params] False that show thesis by (auto simp: sd_key_def)
  qed
  define sd1 where "sd1 = ?s\<lparr>snapshot_records := r1\<rparr>"
  have o1: "on_snapshot (ignoring ?op) ?s = (Inr (), sd1)"
    using r1(1) by (simp add: on_snapshot_def ignoring_def sd1_def)
  let ?rec = "has_inc_listeners sd \<and> full_snapshot_published ?s"
  obtain r2 where r2: "dx_snapshot_update_event_records (\<lambda>_. True) ?eid ?rid data params (last_tx_records ?s) = (Inr (), r2)" "recs_inv r2"
    "recs_map r2 = (recs_map (last_tx_records ?s))(sd_key sd params data \<mapsto> data)"
    using update_records_spec [OF i(3,1), of ?rid data params] by (auto simp: sd_key_def)
  define sd2 where "sd2 = (if ?rec then sd1\<lparr>last_tx_records := r2\<rparr> else sd1)"
  have o2: "(if ?rec then on_last_tx (ignoring (dx_snapshot_update_event_records (\<lambda>_. True) ?eid ?rid data params))
      else return ()) sd1 = (Inr (), sd2)"
    using r2(1) by (simp add: on_last_tx_def ignoring_def sd2_def sd1_def io_simps)
  define mid where "mid = sd2\<lparr>snap_status := next_status (ends params) (pends params) (snap_status sd2)\<rparr>"
  have known: "snap_status ?s \<noteq> dx_status_unknown" using st by (simp add: ss(5))
  have e: "event_listener (\<lambda>_. True) data params sd = (if snap_status mid = dx_status_full then publish_snapshot mid else (Inr [], mid))"
    unfolding event_listener_def Let_def begins_def [symmetric] started_def [symmetric] removal_def [symmetric]
      ends_def [symmetric] pends_def [symmetric] ss(8-10)
    using key known o1 o2 by (simp add: checked_def mid_def)
  have f: "snap_status sd2 = snap_status ?s" "full_snapshot_published sd2 = full_snapshot_published ?s"
    "snap_listeners sd2 = snap_listeners sd" "has_inc_listeners sd2 = has_inc_listeners sd" "same_snapshot sd sd2"
    using ss(2) by (simp_all add: sd2_def sd1_def ss same_snapshot_def)
  have m: "snapshot_records mid = r1" "last_tx_records mid = (if ?rec then r2 else last_tx_records ?s)"
    by (simp_all add: mid_def sd2_def sd1_def)
  show thesis
  proof (rule that [OF e])
    show "snap_inv mid"
      using inv r1(2) r2(2) i(3) f m unfolding snap_inv_def by (simp add: mid_def same_snapshot_def)
    show "same_snapshot sd mid" using f(5) by (simp add: mid_def same_snapshot_def)
  qed (use f m r1(3) r2(3) in \<open>simp_all add: mid_def\<close>)
qed

section \<open>The calls of the listeners\<close>

lemma call_listeners_list:
  "call_listeners sd new ls = (calls, ls') \<Longrightarrow>
    ls' = map (\<lambda>l. if incremental l \<and> (new \<or> \<not> full_snapshot_seen l) then l\<lparr>full_snapshot_seen := True\<rparr> else l) ls
    \<and> calls = map (\<lambda>l. \<lparr>call_listener = snap_listener l, call_user_data = snap_user_data l,
        call_event_type = snap_event_type sd, call_symbol = snap_symbol sd,
        call_records = contents (records (if incremental l \<longrightarrow> new \<or> \<not> full_snapshot_seen l then snapshot_records sd else last_tx_records sd)),
        call_new = (if incremental l then Some (new \<or> \<not> full_snapshot_seen l) else None)\<rparr>) ls"
  by (induction ls arbitrary: calls ls') (auto simp: Let_def split: prod.splits)

lemma publish_snapshot_spec:
  assumes inv: "snap_inv mid"
  obtains calls sd' where "publish_snapshot mid = (Inr calls, sd')" "snap_inv sd'" "same_snapshot mid sd'"
    "recs_map (snapshot_records sd') = recs_map (snapshot_records mid)" "recs_map (last_tx_records sd') = Map.empty"
    "snapshot_records sd' = snapshot_records mid"
    "snap_status sd' = snap_status mid" "full_snapshot_published sd'" "has_inc_listeners sd' = has_inc_listeners mid"
    "(calls, contents (snap_listeners sd')) = call_listeners mid (\<not> full_snapshot_published mid) (contents (snap_listeners mid))"
proof -
  obtain calls ls where c: "call_listeners mid (\<not> full_snapshot_published mid) (contents (snap_listeners mid)) = (calls, ls)" by fastforce
  let ?arr = "snap_listeners mid"
  let ?arr' = "?arr\<lparr>elements := ls @ drop (arr_size ?arr) (elements ?arr)\<rparr>"
  let ?sd' = "mid\<lparr>snap_listeners := ?arr', full_snapshot_published := True,
    last_tx_records := dx_snapshot_clear_records_array (last_tx_records mid)\<rparr>"
  have e: "publish_snapshot mid = (Inr calls, ?sd')"
    using c by (simp add: publish_snapshot_def dx_snapshot_call_listeners_def checked_def Let_def)
  note l = call_listeners_list [OF c]
  note i = snap_invD [OF inv]
  have len: "length ls = arr_size ?arr" using l length_contents [OF i(4)] by simp
  have cont: "contents ?arr' = ls" using len by (simp add: contents_def)
  have wf: "wf_array ?arr'" using i(4) len by (simp add: wf_array_def)
  have ids: "map listener_id ls = map listener_id (contents ?arr)" using l by (auto simp: listener_id_def)
  have "\<And>l. l \<in> set ls \<Longrightarrow> incremental l \<Longrightarrow> has_inc_listeners mid" using l i(6) by auto
  then have "snap_inv ?sd'" using i wf cont ids by (simp add: snap_inv_def)
  then show thesis using e cont c by (intro that [of calls ?sd']) (simp_all add: same_snapshot_def)
qed

section \<open>Sequences of events\<close>

fun run_events :: "('p event_data \<times> dxf_event_params) list \<Rightarrow> ('p dx_snapshot_data, 'p snapshot_call list) io" where
  "run_events [] = return []"
| "run_events ((data, params) # es) =
     checked (event_listener (\<lambda>_. True) data params) (\<lambda>calls.
     checked (run_events es) (\<lambda>calls'. return (calls @ calls')))"

text \<open>What the snapshot should hold: a map from key to the last event of that key since the snapshot began.\<close>

definition abstract_event ::
  "long64 \<Rightarrow> dx_event_id \<Rightarrow> dx_record_info_id \<Rightarrow> 'p event_data \<times> dxf_event_params
    \<Rightarrow> (dx_snapshot_record_key \<Rightarrow> 'p event_data option) \<Rightarrow> dx_snapshot_record_key \<Rightarrow> 'p event_data option" where
  "abstract_event key eid rid = (\<lambda>(data, params) m.
     if ep_snapshot_key params = key
     then (if begins params then Map.empty else m)
       (event_key eid rid params data := (if removal eid data params then None else Some data))
     else m)"

lemma status_stays_known: "s \<noteq> dx_status_unknown \<Longrightarrow> next_status se tx s \<noteq> dx_status_unknown"
  by (simp add: next_status_def Let_def)

lemma event_listener_spec:
  assumes inv: "snap_inv sd" and st: "snap_status sd \<noteq> dx_status_unknown"
  obtains calls sd' where "event_listener (\<lambda>_. True) data params sd = (Inr calls, sd')" "snap_inv sd'" "same_snapshot sd sd'"
    "snap_status sd' \<noteq> dx_status_unknown"
    "recs_map (snapshot_records sd') =
       abstract_event (snap_key sd) (event_id sd) (record_info_id sd) (data, params) (recs_map (snapshot_records sd))"
proof (cases "dx_is_snapshot_event sd params")
  case False
  then have "event_listener (\<lambda>_. True) data params sd = (Inr [], sd)" by (simp add: event_listener_def Let_def)
  with False show thesis
    by (intro that [of "[]" sd]) (simp_all add: inv st abstract_event_def dx_is_snapshot_event_def)
next
  case True
  obtain mid where m: "event_listener (\<lambda>_. True) data params sd =
      (if snap_status mid = dx_status_full then publish_snapshot mid else (Inr [], mid))"
    "snap_inv mid" "same_snapshot sd mid"
    "recs_map (snapshot_records mid) = (recs_map (snapshot_records (started sd params)))
       (sd_key sd params data := (if removal (event_id sd) data params then None else Some data))"
    "snap_status mid = next_status (ends params) (pends params) (snap_status (started sd params))"
    by (rule event_listener_mid [OF inv True st, of data])
  have a: "recs_map (snapshot_records mid) =
       abstract_event (snap_key sd) (event_id sd) (record_info_id sd) (data, params) (recs_map (snapshot_records sd))"
    using True by (simp add: m(4) abstract_event_def dx_is_snapshot_event_def started_simps sd_key_def)
  have s: "snap_status mid \<noteq> dx_status_unknown"
    unfolding m(5) by (rule status_stays_known) (use st in \<open>simp add: started_simps\<close>)
  show thesis
  proof (cases "snap_status mid = dx_status_full")
    case False
    with m(1-3) a s that show thesis by simp
  next
    case full: True
    obtain calls sd' where p: "publish_snapshot mid = (Inr calls, sd')" "snap_inv sd'" "same_snapshot mid sd'"
      "recs_map (snapshot_records sd') = recs_map (snapshot_records mid)" "snap_status sd' = snap_status mid"
      by (rule publish_snapshot_spec [OF m(2)])
    show thesis
      by (rule that [of calls sd']) (use m(1,3) p full a s same_snapshot_trans in \<open>auto\<close>)
  qed
qed

lemma run_events_spec:
  assumes "snap_inv sd" "snap_status sd \<noteq> dx_status_unknown"
  obtains calls sd' where "run_events es sd = (Inr calls, sd')" "snap_inv sd'" "same_snapshot sd sd'"
    "snap_status sd' \<noteq> dx_status_unknown"
    "recs_map (snapshot_records sd') =
       fold (abstract_event (snap_key sd) (event_id sd) (record_info_id sd)) es (recs_map (snapshot_records sd))"
  using assms
proof (induction es arbitrary: sd thesis)
  case Nil
  then show ?case by (simp add: io_simps)
next
  case (Cons e es)
  obtain data params where e: "e = (data, params)" by fastforce
  obtain calls sd1 where l: "event_listener (\<lambda>_. True) data params sd = (Inr calls, sd1)" "snap_inv sd1" "same_snapshot sd sd1"
    "snap_status sd1 \<noteq> dx_status_unknown"
    "recs_map (snapshot_records sd1) =
       abstract_event (snap_key sd) (event_id sd) (record_info_id sd) (data, params) (recs_map (snapshot_records sd))"
    by (rule event_listener_spec [OF Cons.prems(2,3), of data params])
  obtain calls' sd' where r: "run_events es sd1 = (Inr calls', sd')" "snap_inv sd'" "same_snapshot sd1 sd'"
    "snap_status sd' \<noteq> dx_status_unknown"
    "recs_map (snapshot_records sd') =
       fold (abstract_event (snap_key sd1) (event_id sd1) (record_info_id sd1)) es (recs_map (snapshot_records sd1))"
    by (rule Cons.IH [OF _ l(2,4)])
  have s: "snap_key sd1 = snap_key sd" "event_id sd1 = event_id sd" "record_info_id sd1 = record_info_id sd"
    using l(3) by (simp_all add: same_snapshot_def)
  show ?case
  proof (rule Cons.prems(1))
    show "run_events (e # es) sd = (Inr (calls @ calls'), sd')" using l(1) r(1) by (simp add: e io_simps)
    show "snap_inv sd'" "snap_status sd' \<noteq> dx_status_unknown" by fact+
    show "same_snapshot sd sd'" using l(3) r(3) by (rule same_snapshot_trans)
  qed (simp add: r(5) s l(5) e)
qed

lemma new_snapshot_inv:
  assumes "storable eid" and sd: "sd = new_snapshot_data h eid rid symbol source time types"
  shows "snap_inv sd" "snap_status sd \<noteq> dx_status_unknown" "recs_map (snapshot_records sd) = Map.empty"
    "event_id sd = eid" "record_info_id sd = rid"
  using assms by (simp_all add: new_snapshot_data_def snap_inv_def)

section \<open>A client of the incremental calls\<close>

text \<open>
  The client keeps a map and applies the records of each call addressed to listener \<open>l\<close>; \<open>kf\<close> reads the
  key from an event, \<open>gone\<close> tells an event that removes its key.
\<close>

definition apply_records ::
  "('p event_data \<Rightarrow> dx_snapshot_record_key) \<Rightarrow> ('p event_data \<Rightarrow> bool) \<Rightarrow> 'p event_data list
    \<Rightarrow> (dx_snapshot_record_key \<Rightarrow> 'p event_data option) \<Rightarrow> dx_snapshot_record_key \<Rightarrow> 'p event_data option" where
  "apply_records kf gone = fold (\<lambda>d m. m(kf d := (if gone d then None else Some d)))"

definition client_step ::
  "('p event_data \<Rightarrow> dx_snapshot_record_key) \<Rightarrow> ('p event_data \<Rightarrow> bool) \<Rightarrow> long64 \<Rightarrow> 'p snapshot_call
    \<Rightarrow> (dx_snapshot_record_key \<Rightarrow> 'p event_data option) \<Rightarrow> dx_snapshot_record_key \<Rightarrow> 'p event_data option" where
  "client_step kf gone l c m =
     (if call_listener c = l \<and> call_new c \<noteq> None
      then apply_records kf gone (call_records c) (if call_new c = Some True then Map.empty else m)
      else m)"

definition describes :: "('p event_data \<Rightarrow> dx_snapshot_record_key) \<Rightarrow> 'p dx_snapshot_records \<Rightarrow> bool" where
  "describes kf recs \<longleftrightarrow> (\<forall>k d. recs_map recs k = Some d \<longrightarrow> kf d = k)"

definition kept :: "('p event_data \<Rightarrow> bool) \<Rightarrow> 'p dx_snapshot_records \<Rightarrow> bool" where
  "kept gone recs \<longleftrightarrow> (\<forall>k d. recs_map recs k = Some d \<longrightarrow> \<not> gone d)"

definition overlay ::
  "('p event_data \<Rightarrow> bool) \<Rightarrow> (dx_snapshot_record_key \<Rightarrow> 'p event_data option)
    \<Rightarrow> (dx_snapshot_record_key \<Rightarrow> 'p event_data option) \<Rightarrow> dx_snapshot_record_key \<Rightarrow> 'p event_data option" where
  "overlay gone t m k = (case t k of None \<Rightarrow> m k | Some d \<Rightarrow> if gone d then None else Some d)"

lemma apply_pairs:
  assumes "distinct (map fst ps)" "\<forall>(k, d) \<in> set ps. kf d = k"
  shows "apply_records kf gone (map snd ps) m = overlay gone (map_of ps) m"
  using assms
proof (induction ps arbitrary: m)
  case Nil
  then show ?case by (simp add: apply_records_def overlay_def fun_eq_iff)
next
  case (Cons p ps)
  obtain k d where p: "p = (k, d)" by fastforce
  have "k \<notin> fst ` set ps" using Cons.prems(1) p by simp
  then have n: "map_of ps k = None" by (simp add: map_of_eq_None_iff)
  have "apply_records kf gone (map snd (p # ps)) m = apply_records kf gone (map snd ps) (m(k := (if gone d then None else Some d)))"
    using Cons.prems(2) by (simp add: apply_records_def p)
  also have "\<dots> = overlay gone (map_of ps) (m(k := (if gone d then None else Some d)))" using Cons by simp
  also have "\<dots> = overlay gone (map_of (p # ps)) m" using n by (auto simp: overlay_def p fun_eq_iff split: option.splits)
  finally show ?case .
qed

lemma apply_contents:
  assumes inv: "recs_inv recs" and d: "describes kf recs"
  shows "apply_records kf gone (contents (records recs)) m = overlay gone (recs_map recs) m"
proof -
  note len = recs_lengths [OF inv]
  have "map snd (recs_pairs recs) = contents (records recs)" using len by (simp add: recs_pairs_def)
  moreover have dist: "distinct (map fst (recs_pairs recs))" using inv len(5) sorted_keys_distinct by (simp add: recs_inv_def)
  moreover have "\<forall>(k, d) \<in> set (recs_pairs recs). kf d = k"
    using d dist by (auto simp: describes_def recs_map_def)
  ultimately show ?thesis using apply_pairs [of "recs_pairs recs" kf gone m] by (simp add: recs_map_def)
qed

lemma overlay_kept: "kept gone recs \<Longrightarrow> overlay gone (recs_map recs) Map.empty = recs_map recs"
  by (auto simp: overlay_def kept_def fun_eq_iff split: option.splits)

lemma client_fold:
  assumes "distinct (map listener_id ls)" "x \<in> set ls"
    and "\<And>y m. y \<in> set ls \<Longrightarrow> listener_id y \<noteq> listener_id x \<Longrightarrow> step (f y) m = m"
  shows "fold step (map f ls) m = step (f x) m"
  using assms
proof (induction ls arbitrary: m)
  case (Cons y ys)
  show ?case
  proof (cases "y = x")
    case True
    then have "listener_id x \<notin> listener_id ` set ys" using Cons.prems(1) by simp
    then have n: "\<And>z m. z \<in> set ys \<Longrightarrow> step (f z) m = m" using Cons.prems(3) by (metis imageI list.set_intros(2))
    have "fold step (map f ys) m' = m'" for m' using n by (induction ys arbitrary: m') auto
    then show ?thesis using True by simp
  next
    case False
    then have "x \<in> set ys" using Cons.prems(2) by simp
    moreover from this have "listener_id y \<noteq> listener_id x"
      using Cons.prems(1) by (metis distinct.simps(2) image_eqI list.set_map list.simps(9))
    ultimately show ?thesis using Cons.IH [of m] Cons.prems by simp
  qed
qed simp

text \<open>The invariant of a client: the transaction so far, laid over its map, is the snapshot.\<close>

definition faithful ::
  "('p event_data \<Rightarrow> dx_snapshot_record_key) \<Rightarrow> ('p event_data \<Rightarrow> bool) \<Rightarrow> 'p dx_snapshot_data
    \<Rightarrow> 'p event_data \<times> dxf_event_params \<Rightarrow> bool" where
  "faithful kf gone sd = (\<lambda>(data, params). ep_snapshot_key params = snap_key sd \<longrightarrow>
     kf data = event_key (event_id sd) (record_info_id sd) params data \<and> gone data = removal (event_id sd) data params)"

definition client_inv ::
  "('p event_data \<Rightarrow> dx_snapshot_record_key) \<Rightarrow> ('p event_data \<Rightarrow> bool) \<Rightarrow> long64 \<Rightarrow> 'p dx_snapshot_data
    \<Rightarrow> (dx_snapshot_record_key \<Rightarrow> 'p event_data option) \<Rightarrow> bool" where
  "client_inv kf gone l sd m \<longleftrightarrow> describes kf (snapshot_records sd) \<and> describes kf (last_tx_records sd)
     \<and> kept gone (snapshot_records sd)
     \<and> (\<exists>ctx \<in> set (contents (snap_listeners sd)). listener_id ctx = (True, l)
         \<and> (full_snapshot_seen ctx \<and> full_snapshot_published sd
             \<longrightarrow> overlay gone (recs_map (last_tx_records sd)) m = recs_map (snapshot_records sd)))"

lemma same_map_describes:
  "recs_map recs' = m \<Longrightarrow> (\<And>k d. m k = Some d \<Longrightarrow> kf d = k) \<Longrightarrow> describes kf recs'"
  "recs_map recs' = m \<Longrightarrow> (\<And>k d. m k = Some d \<Longrightarrow> \<not> gone d) \<Longrightarrow> kept gone recs'"
  by (auto simp: describes_def kept_def)

lemma client_publish:
  assumes inv: "snap_inv mid" and ci: "client_inv kf gone l mid m" and p: "publish_snapshot mid = (Inr calls, sd')"
  shows "client_inv kf gone l sd' (fold (client_step kf gone l) calls m)"
    "fold (client_step kf gone l) calls m = recs_map (snapshot_records sd')"
proof -
  obtain calls' sd'' where q: "publish_snapshot mid = (Inr calls', sd'')"
    "recs_map (snapshot_records sd'') = recs_map (snapshot_records mid)" "recs_map (last_tx_records sd'') = Map.empty"
    "(calls', contents (snap_listeners sd'')) = call_listeners mid (\<not> full_snapshot_published mid) (contents (snap_listeners mid))"
    by (rule publish_snapshot_spec [OF inv]) blast
  have e: "calls' = calls" "sd'' = sd'" using p q(1) by simp_all
  note i = snap_invD [OF inv]
  let ?new = "\<not> full_snapshot_published mid"
  note cl = call_listeners_list [OF q(4) [symmetric], unfolded e]
  let ?f = "\<lambda>x. \<lparr>call_listener = snap_listener x, call_user_data = snap_user_data x,
        call_event_type = snap_event_type mid, call_symbol = snap_symbol mid,
        call_records = contents (records (if incremental x \<longrightarrow> ?new \<or> \<not> full_snapshot_seen x then snapshot_records mid else last_tx_records mid)),
        call_new = (if incremental x then Some (?new \<or> \<not> full_snapshot_seen x) else None)\<rparr>"
  obtain ctx where ctx: "ctx \<in> set (contents (snap_listeners mid))" "listener_id ctx = (True, l)"
    "full_snapshot_seen ctx \<and> full_snapshot_published mid \<longrightarrow> overlay gone (recs_map (last_tx_records mid)) m = recs_map (snapshot_records mid)"
    and d: "describes kf (snapshot_records mid)" "describes kf (last_tx_records mid)" "kept gone (snapshot_records mid)"
    using ci by (auto simp: client_inv_def)
  have "fold (client_step kf gone l) calls m = client_step kf gone l (?f ctx) m"
    unfolding cl [THEN conjunct2] using i(5) ctx(1)
  proof (rule client_fold)
    fix y m assume "listener_id y \<noteq> listener_id ctx"
    then show "client_step kf gone l (?f y) m = m" using ctx(2) by (auto simp: client_step_def listener_id_def)
  qed
  also have "\<dots> = recs_map (snapshot_records mid)"
  proof (cases "?new \<or> \<not> full_snapshot_seen ctx")
    case True
    then show ?thesis
      using ctx(2) apply_contents [OF i(2) d(1), of gone Map.empty] overlay_kept [OF d(3)]
      by (auto simp: client_step_def listener_id_def)
  next
    case False
    then show ?thesis
      using ctx apply_contents [OF i(3) d(2), of gone m]
      by (auto simp: client_step_def listener_id_def)
  qed
  finally show r: "fold (client_step kf gone l) calls m = recs_map (snapshot_records sd')" using q(2) e by simp
  let ?ctx' = "if incremental ctx \<and> (?new \<or> \<not> full_snapshot_seen ctx) then ctx\<lparr>full_snapshot_seen := True\<rparr> else ctx"
  have c: "?ctx' \<in> set (contents (snap_listeners sd'))" using cl [THEN conjunct1] ctx(1) by auto
  have id: "listener_id ?ctx' = (True, l)" using ctx(2) by (simp add: listener_id_def)
  have o: "overlay gone (recs_map (last_tx_records sd')) (fold (client_step kf gone l) calls m) = recs_map (snapshot_records sd')"
    unfolding r using q(3) e by (simp add: overlay_def fun_eq_iff)
  have "describes kf (snapshot_records sd')" "describes kf (last_tx_records sd')" "kept gone (snapshot_records sd')"
    using d q(2,3) e by (simp_all add: describes_def kept_def)
  with c id o show "client_inv kf gone l sd' (fold (client_step kf gone l) calls m)"
    unfolding client_inv_def by blast
qed

lemma client_mid:
  assumes inv: "snap_inv sd" and ci: "client_inv kf gone l sd m"
    and ok: "kf data = sd_key sd params data" "gone data = removal (event_id sd) data params"
    and r: "recs_map (snapshot_records mid) = (recs_map (snapshot_records (started sd params)))
       (sd_key sd params data := (if removal (event_id sd) data params then None else Some data))"
    and t: "recs_map (last_tx_records mid) = (if has_inc_listeners sd \<and> full_snapshot_published (started sd params)
       then (recs_map (last_tx_records (started sd params)))(sd_key sd params data \<mapsto> data)
       else recs_map (last_tx_records (started sd params)))"
    and p: "full_snapshot_published mid = full_snapshot_published (started sd params)"
    and ls: "snap_listeners mid = snap_listeners sd"
  shows "client_inv kf gone l mid m"
proof -
  obtain ctx where ctx: "ctx \<in> set (contents (snap_listeners sd))" "listener_id ctx = (True, l)"
    "full_snapshot_seen ctx \<and> full_snapshot_published sd \<longrightarrow> overlay gone (recs_map (last_tx_records sd)) m = recs_map (snapshot_records sd)"
    and d: "describes kf (snapshot_records sd)" "describes kf (last_tx_records sd)" "kept gone (snapshot_records sd)"
    using ci by (auto simp: client_inv_def)
  have has: "has_inc_listeners sd" using snap_invD(6) [OF inv ctx(1)] ctx(2) by (simp add: listener_id_def)
  note s = started_simps [where sd = sd and params = params]
  have "describes kf (snapshot_records mid)"
    by (rule same_map_describes(1) [OF r]) (use d(1) ok(1) in \<open>auto simp: s describes_def split: if_splits\<close>)
  moreover have "describes kf (last_tx_records mid)"
    by (rule same_map_describes(1) [OF t]) (use d(2) ok(1) in \<open>auto simp: s describes_def split: if_splits\<close>)
  moreover have "kept gone (snapshot_records mid)"
    by (rule same_map_describes(2) [OF r]) (use d(3) ok(2) in \<open>auto simp: s kept_def split: if_splits\<close>)
  moreover have "overlay gone (recs_map (last_tx_records mid)) m = recs_map (snapshot_records mid)"
    if "full_snapshot_seen ctx" "full_snapshot_published mid"
  proof -
    have nb: "\<not> begins params" "full_snapshot_published sd" using that(2) p by (simp_all add: s)
    then have o: "overlay gone (recs_map (last_tx_records sd)) m k = recs_map (snapshot_records sd) k" for k
      using ctx(3) that(1) by simp
    show ?thesis
    proof
      fix k
      show "overlay gone (recs_map (last_tx_records mid)) m k = recs_map (snapshot_records mid) k"
        using o [of k] nb has ok(2) unfolding r t s by (simp add: overlay_def)
    qed
  qed
  ultimately show ?thesis unfolding client_inv_def ls using ctx(1,2) by blast
qed

lemma client_event:
  assumes inv: "snap_inv sd" and st: "snap_status sd \<noteq> dx_status_unknown" and ci: "client_inv kf gone l sd m"
    and ok: "faithful kf gone sd (data, params)" and e: "event_listener (\<lambda>_. True) data params sd = (Inr calls, sd')"
  shows "client_inv kf gone l sd' (fold (client_step kf gone l) calls m)"
    "ep_snapshot_key params = snap_key sd \<Longrightarrow> snap_status sd' = dx_status_full \<Longrightarrow>
       fold (client_step kf gone l) calls m = recs_map (snapshot_records sd')"
proof -
  have "client_inv kf gone l sd' (fold (client_step kf gone l) calls m)
    \<and> (ep_snapshot_key params = snap_key sd \<longrightarrow> snap_status sd' = dx_status_full \<longrightarrow>
       fold (client_step kf gone l) calls m = recs_map (snapshot_records sd'))"
  proof (cases "dx_is_snapshot_event sd params")
    case False
    then have "event_listener (\<lambda>_. True) data params sd = (Inr [], sd)" by (simp add: event_listener_def Let_def)
    with e ci False show ?thesis by (auto simp: dx_is_snapshot_event_def)
  next
    case True
    then have k: "kf data = sd_key sd params data" "gone data = removal (event_id sd) data params"
      using ok by (simp_all add: faithful_def dx_is_snapshot_event_def sd_key_def)
    obtain mid where mid: "event_listener (\<lambda>_. True) data params sd =
        (if snap_status mid = dx_status_full then publish_snapshot mid else (Inr [], mid))" "snap_inv mid"
      and c: "client_inv kf gone l mid m"
      by (rule event_listener_mid [OF inv True st, of data]) (rule that, assumption, assumption, rule client_mid [OF inv ci k])
    show ?thesis
    proof (cases "snap_status mid = dx_status_full")
      case False
      with mid(1) e c show ?thesis by auto
    next
      case full: True
      then have "publish_snapshot mid = (Inr calls, sd')" using mid(1) e by simp
      from client_publish [OF mid(2) c this] show ?thesis by simp
    qed
  qed
  then show "client_inv kf gone l sd' (fold (client_step kf gone l) calls m)"
    "ep_snapshot_key params = snap_key sd \<Longrightarrow> snap_status sd' = dx_status_full \<Longrightarrow>
       fold (client_step kf gone l) calls m = recs_map (snapshot_records sd')" by blast+
qed

lemma client_events:
  assumes "snap_inv sd" "snap_status sd \<noteq> dx_status_unknown" "client_inv kf gone l sd m"
    and "\<forall>e \<in> set es. faithful kf gone sd e" "run_events es sd = (Inr calls, sd')"
  shows "client_inv kf gone l sd' (fold (client_step kf gone l) calls m)
    \<and> (es \<noteq> [] \<and> ep_snapshot_key (snd (last es)) = snap_key sd \<and> snap_status sd' = dx_status_full \<longrightarrow>
       fold (client_step kf gone l) calls m = recs_map (snapshot_records sd'))"
  using assms
proof (induction es arbitrary: sd m calls)
  case Nil
  then show ?case by (simp add: io_simps)
next
  case (Cons e es)
  obtain data params where d: "e = (data, params)" by fastforce
  obtain c1 sd1 where l: "event_listener (\<lambda>_. True) data params sd = (Inr c1, sd1)" "snap_inv sd1" "same_snapshot sd sd1"
    "snap_status sd1 \<noteq> dx_status_unknown"
    by (rule event_listener_spec [OF Cons.prems(1,2), of data params])
  obtain c2 where r: "run_events es sd1 = (Inr c2, sd')" "calls = c1 @ c2"
    using Cons.prems(5) l(1) by (auto simp: d checked_def return_def split: prod.splits sum.splits)
  have f: "faithful kf gone sd (data, params)" using Cons.prems(4) d by simp
  note ce = client_event [OF Cons.prems(1-3) f l(1)]
  have s: "snap_key sd1 = snap_key sd" "faithful kf gone sd1 = faithful kf gone sd"
    using l(3) by (simp_all add: same_snapshot_def faithful_def)
  have "\<forall>e \<in> set es. faithful kf gone sd1 e" using Cons.prems(4) s(2) by simp
  note ih = Cons.IH [OF l(2,4) ce(1) this r(1)]
  show ?case
  proof (cases "es = []")
    case True
    then have "sd1 = sd'" "c2 = []" using r(1) by (simp_all add: io_simps)
    then show ?thesis using ce r(2) True by (simp add: d)
  next
    case False
    then show ?thesis using ih s(1) r(2) by simp
  qed
qed

section \<open>The listeners as a map\<close>

definition reg_of :: "dx_snapshot_listener_context dx_array \<Rightarrow> bool \<times> long64 \<Rightarrow> long64 option" where
  "reg_of arr = map_of (map (\<lambda>l. (listener_id l, snap_user_data l)) (contents arr))"

definition registered :: "'p dx_snapshot_data \<Rightarrow> bool \<times> long64 \<Rightarrow> long64 option" where
  "registered sd = reg_of (snap_listeners sd)"

lemma find_snapshot_listener:
  assumes wf: "wf_array arr" and f: "dx_find_snapshot_listener_in_array arr inc l = (found, i)"
  shows "i \<le> arr_size arr" "found \<longleftrightarrow> i < arr_size arr" "found \<Longrightarrow> listener_id (contents arr ! i) = (inc, l)"
    "\<not> found \<Longrightarrow> (inc, l) \<notin> listener_id ` set (contents arr)"
proof -
  let ?ctx = "\<lparr>incremental = inc, full_snapshot_seen = False, snap_listener = l, snap_user_data = 0\<rparr>"
  have "linear_search (elements arr) 0 (arr_size arr) ?ctx dx_snapshot_listener_comparator = (found, i)"
    using f by (simp add: dx_find_snapshot_listener_in_array_def DX_ARRAY_SEARCH_def)
  note s = linear_search_spec [OF this, simplified]
  have c0: "dx_snapshot_listener_comparator x ?ctx = 0 \<longleftrightarrow> listener_id x = (inc, l)" for x
    by (auto simp: dx_snapshot_listener_comparator_def DX_NUMERIC_COMPARATOR_def listener_id_def)
  have nth: "contents arr ! j = elements arr ! j" if "j < arr_size arr" for j
    using that by (simp add: contents_def)
  show "i \<le> arr_size arr" "found \<longleftrightarrow> i < arr_size arr" using s by simp_all
  show "listener_id (contents arr ! i) = (inc, l)" if found using s that nth c0 by simp
  show "(inc, l) \<notin> listener_id ` set (contents arr)" if "\<not> found"
  proof
    assume "(inc, l) \<in> listener_id ` set (contents arr)"
    then obtain j where "j < arr_size arr" "listener_id (contents arr ! j) = (inc, l)"
      using length_contents [OF wf] by (auto simp: in_set_conv_nth)
    then show False using s that nth c0 by auto
  qed
qed

text \<open>Insertion and deletion, as list operations on the listeners and as updates of the registry.\<close>

lemma registered_add:
  assumes wf: "wf_array arr" and i: "i = arr_size arr" and x: "listener_id x \<notin> listener_id ` set (contents arr)"
    and e: "DX_ARRAY_INSERT mem zero_snapshot_listener x i dx_capacity_manager_halfer arr = (r, arr')"
  shows "case r of
      Inr _ \<Rightarrow> wf_array arr' \<and> contents arr' = contents arr @ [x]
        \<and> reg_of arr' = (reg_of arr)(listener_id x \<mapsto> snap_user_data x)
    | Inl err \<Rightarrow> err \<noteq> UB \<and> reg_of arr' = reg_of arr"
proof -
  have n: "reg_of arr (listener_id x) = None"
    using x by (force simp: reg_of_def map_of_eq_None_iff)
  show ?thesis
    using halfer.insert_spec [OF wf _ e] i length_contents [OF wf] n
    by (cases r) (auto simp: reg_of_def contents_def map_add_def fun_eq_iff split: option.splits)
qed

lemma registered_remove:
  assumes wf: "wf_array arr" and i: "i < arr_size arr" and d: "distinct (map listener_id (contents arr))"
    and e: "DX_ARRAY_DELETE mem zero_snapshot_listener i dx_capacity_manager_halfer arr = (r, arr')"
  shows "case r of
      Inr _ \<Rightarrow> wf_array arr' \<and> set (contents arr') \<subseteq> set (contents arr) \<and> distinct (map listener_id (contents arr'))
        \<and> reg_of arr' = (reg_of arr)(listener_id (contents arr ! i) := None)
    | Inl err \<Rightarrow> err \<noteq> UB \<and> reg_of arr' = reg_of arr"
proof (cases r)
  case (Inl err)
  then show ?thesis using halfer.delete_spec [OF wf i e] by (simp add: reg_of_def contents_def)
next
  case (Inr u)
  then have s: "wf_array arr'" "contents arr' = take i (contents arr) @ drop (i + 1) (contents arr)"
    using halfer.delete_spec [OF wf i e] by simp_all
  have "i < length (contents arr)" using i length_contents [OF wf] by simp
  note m = map_of_distinct_delete [OF d this, of snap_user_data]
  have "set (contents arr') \<subseteq> set (contents arr)" unfolding s(2) by (auto dest: in_set_takeD in_set_dropD)
  then show ?thesis using s m Inr by (simp add: reg_of_def)
qed

lemma any_incremental_True [simp]: "any_incremental True ls"
  by (cases ls) simp_all

text \<open>The four operations in one form.\<close>

definition reg_added :: "bool \<Rightarrow> long64 \<Rightarrow> long64 \<Rightarrow> 'p dx_snapshot_data \<Rightarrow> bool \<Rightarrow> 'p dx_snapshot_data \<Rightarrow> bool" where
  "reg_added inc l data sd ok sd' \<longleftrightarrow>
     (ok \<longrightarrow> snap_inv sd' \<and> registered sd' = (if registered sd (inc, l) = None then (registered sd)((inc, l) \<mapsto> data) else registered sd))
     \<and> (\<not> ok \<longrightarrow> registered sd' = registered sd)"

definition reg_removed :: "bool \<Rightarrow> long64 \<Rightarrow> 'p dx_snapshot_data \<Rightarrow> bool \<Rightarrow> 'p dx_snapshot_data \<Rightarrow> bool" where
  "reg_removed inc l sd ok sd' \<longleftrightarrow>
     (ok \<longrightarrow> snap_inv sd' \<and> registered sd' = (registered sd)((inc, l) := None))
     \<and> (\<not> ok \<longrightarrow> registered sd' = registered sd) \<and> has_inc_listeners sd' = has_inc_listeners sd"

lemma registered_None: "(inc, l) \<notin> listener_id ` set (contents (snap_listeners sd)) \<longleftrightarrow> registered sd (inc, l) = None"
  by (force simp: registered_def reg_of_def map_of_eq_None_iff)

lemma add_full_spec:
  assumes inv: "snap_inv sd" and l: "l \<noteq> 0"
  shows "\<exists>ok sd'. dx_add_snapshot_listener mem l data sd = (Inr ok, sd') \<and> reg_added False l data sd ok sd'"
proof -
  let ?arr = "snap_listeners sd"
  let ?x = "\<lparr>incremental = False, full_snapshot_seen = False, snap_listener = l, snap_user_data = data\<rparr>"
  note i = snap_invD [OF inv]
  obtain found p where f: "dx_find_snapshot_listener_in_array ?arr False l = (found, p)" by fastforce
  note fl = find_snapshot_listener [OF i(4) f]
  show ?thesis
  proof (cases found)
    case True
    have "(False, l) \<in> listener_id ` set (contents ?arr)"
      using fl(2,3) True length_contents [OF i(4)] by (metis image_eqI nth_mem)
    then have "registered sd (False, l) \<noteq> None" using registered_None by blast
    then show ?thesis using f True l inv by (intro exI [of _ True] exI [of _ sd]) (auto simp: dx_add_snapshot_listener_def reg_added_def)
  next
    case False
    obtain r arr' where a: "DX_ARRAY_INSERT mem zero_snapshot_listener ?x p dx_capacity_manager_halfer ?arr = (r, arr')" by fastforce
    have id: "listener_id ?x = (False, l)" by (simp add: listener_id_def)
    have p: "p = arr_size ?arr" using fl(1,2) False by simp
    have nx: "listener_id ?x \<notin> listener_id ` set (contents ?arr)" using fl(4) False id by simp
    note s = registered_add [OF i(4) p nx a]
    have n: "registered sd (False, l) = None" using fl(4) False registered_None by blast
    show ?thesis
    proof (cases r)
      case (Inl err)
      then have "dx_add_snapshot_listener mem l data sd = (Inr False, sd\<lparr>snap_listeners := arr'\<rparr>)"
        using f False l a s by (cases err) (simp_all add: dx_add_snapshot_listener_def)
      moreover have "registered (sd\<lparr>snap_listeners := arr'\<rparr>) = registered sd" using s Inl by (simp add: registered_def)
      ultimately show ?thesis by (intro exI [of _ False] exI [of _ "sd\<lparr>snap_listeners := arr'\<rparr>"]) (simp add: reg_added_def)
    next
      case (Inr u)
      then have e: "dx_add_snapshot_listener mem l data sd = (Inr True, sd\<lparr>snap_listeners := arr'\<rparr>)"
        using f False l a by (simp add: dx_add_snapshot_listener_def)
      have "snap_inv (sd\<lparr>snap_listeners := arr'\<rparr>)"
        using s Inr i nx unfolding snap_inv_def by auto
      moreover have "registered (sd\<lparr>snap_listeners := arr'\<rparr>) = (registered sd)((False, l) \<mapsto> data)"
        using s Inr id by (simp add: registered_def)
      ultimately show ?thesis using e n by (intro exI [of _ True] exI [of _ "sd\<lparr>snap_listeners := arr'\<rparr>"]) (simp add: reg_added_def)
    qed
  qed
qed

lemma add_inc_spec:
  assumes inv: "snap_inv sd" and l: "l \<noteq> 0"
  shows "\<exists>ok sd'. dx_add_snapshot_inc_listener mem l data sd = (Inr ok, sd') \<and> reg_added True l data sd ok sd'"
proof -
  let ?arr = "snap_listeners sd"
  let ?x = "\<lparr>incremental = True, full_snapshot_seen = False, snap_listener = l, snap_user_data = data\<rparr>"
  note i = snap_invD [OF inv]
  obtain found p where f: "dx_find_snapshot_listener_in_array ?arr True l = (found, p)" by fastforce
  note fl = find_snapshot_listener [OF i(4) f]
  show ?thesis
  proof (cases found)
    case True
    have "(True, l) \<in> listener_id ` set (contents ?arr)"
      using fl(2,3) True length_contents [OF i(4)] by (metis image_eqI nth_mem)
    then have "registered sd (True, l) \<noteq> None" using registered_None by blast
    then show ?thesis using f True l inv by (intro exI [of _ True] exI [of _ sd]) (auto simp: dx_add_snapshot_inc_listener_def reg_added_def)
  next
    case False
    obtain r arr' where a: "DX_ARRAY_INSERT mem zero_snapshot_listener ?x p dx_capacity_manager_halfer ?arr = (r, arr')" by fastforce
    have id: "listener_id ?x = (True, l)" by (simp add: listener_id_def)
    have p: "p = arr_size ?arr" using fl(1,2) False by simp
    have nx: "listener_id ?x \<notin> listener_id ` set (contents ?arr)" using fl(4) False id by simp
    note s = registered_add [OF i(4) p nx a]
    have n: "registered sd (True, l) = None" using fl(4) False registered_None by blast
    show ?thesis
    proof (cases r)
      case (Inl err)
      then have "dx_add_snapshot_inc_listener mem l data sd = (Inr False, sd\<lparr>snap_listeners := arr', has_inc_listeners := True\<rparr>)"
        using f False l a s by (cases err) (simp_all add: dx_add_snapshot_inc_listener_def)
      moreover have "registered (sd\<lparr>snap_listeners := arr', has_inc_listeners := True\<rparr>) = registered sd"
        using s Inl by (simp add: registered_def)
      ultimately show ?thesis by (intro exI [of _ False] exI [of _ "sd\<lparr>snap_listeners := arr', has_inc_listeners := True\<rparr>"]) (simp add: reg_added_def)
    next
      case (Inr u)
      then have e: "dx_add_snapshot_inc_listener mem l data sd = (Inr True, sd\<lparr>snap_listeners := arr', has_inc_listeners := True\<rparr>)"
        using f False l a by (simp add: dx_add_snapshot_inc_listener_def)
      have "snap_inv (sd\<lparr>snap_listeners := arr', has_inc_listeners := True\<rparr>)"
        using s Inr i nx unfolding snap_inv_def by auto
      moreover have "registered (sd\<lparr>snap_listeners := arr', has_inc_listeners := True\<rparr>) = (registered sd)((True, l) \<mapsto> data)"
        using s Inr id by (simp add: registered_def)
      ultimately show ?thesis using e n by (intro exI [of _ True] exI [of _ "sd\<lparr>snap_listeners := arr', has_inc_listeners := True\<rparr>"]) (simp add: reg_added_def)
    qed
  qed
qed

lemma remove_full_spec:
  assumes inv: "snap_inv sd" and l: "l \<noteq> 0"
  shows "\<exists>ok sd'. dx_remove_snapshot_listener mem l sd = (Inr ok, sd') \<and> reg_removed False l sd ok sd'"
proof -
  let ?arr = "snap_listeners sd"
  note i = snap_invD [OF inv]
  obtain found p where f: "dx_find_snapshot_listener_in_array ?arr False l = (found, p)" by fastforce
  note fl = find_snapshot_listener [OF i(4) f]
  show ?thesis
  proof (cases found)
    case False
    then have "(registered sd)((False, l) := None) = registered sd"
      using fl(4) registered_None by (metis fun_upd_idem)
    then show ?thesis using f False l inv by (intro exI [of _ True] exI [of _ sd]) (auto simp: dx_remove_snapshot_listener_def reg_removed_def)
  next
    case True
    obtain r arr' where a: "DX_ARRAY_DELETE mem zero_snapshot_listener p dx_capacity_manager_halfer ?arr = (r, arr')" by fastforce
    have p: "p < arr_size ?arr" using fl(2) True by simp
    note s = registered_remove [OF i(4) p i(5) a]
    show ?thesis
    proof (cases r)
      case (Inl err)
      then have "dx_remove_snapshot_listener mem l sd = (Inr False, sd\<lparr>snap_listeners := arr'\<rparr>)"
        using f True l a s by (cases err) (simp_all add: dx_remove_snapshot_listener_def)
      moreover have "registered (sd\<lparr>snap_listeners := arr'\<rparr>) = registered sd" using s Inl by (simp add: registered_def)
      ultimately show ?thesis by (intro exI [of _ False] exI [of _ "sd\<lparr>snap_listeners := arr'\<rparr>"]) (simp add: reg_removed_def)
    next
      case (Inr u)
      then have e: "dx_remove_snapshot_listener mem l sd = (Inr True, sd\<lparr>snap_listeners := arr'\<rparr>)"
        using f True l a by (simp add: dx_remove_snapshot_listener_def)
      have "snap_inv (sd\<lparr>snap_listeners := arr'\<rparr>)" using s Inr i unfolding snap_inv_def by auto
      moreover have "registered (sd\<lparr>snap_listeners := arr'\<rparr>) = (registered sd)((False, l) := None)"
        using s Inr fl(3) True by (simp add: registered_def)
      ultimately show ?thesis using e by (intro exI [of _ True] exI [of _ "sd\<lparr>snap_listeners := arr'\<rparr>"]) (simp add: reg_removed_def)
    qed
  qed
qed

lemma remove_inc_spec:
  assumes inv: "snap_inv sd" and l: "l \<noteq> 0"
  shows "\<exists>ok sd'. dx_remove_snapshot_inc_listener mem l sd = (Inr ok, sd') \<and> reg_removed True l sd ok sd'"
proof -
  let ?arr = "snap_listeners sd"
  note i = snap_invD [OF inv]
  obtain found p where f: "dx_find_snapshot_listener_in_array ?arr True l = (found, p)" by fastforce
  note fl = find_snapshot_listener [OF i(4) f]
  show ?thesis
  proof (cases found)
    case False
    then have "(registered sd)((True, l) := None) = registered sd"
      using fl(4) registered_None by (metis fun_upd_idem)
    then show ?thesis using f False l inv by (intro exI [of _ True] exI [of _ sd]) (auto simp: dx_remove_snapshot_inc_listener_def reg_removed_def)
  next
    case True
    obtain r arr' where a: "DX_ARRAY_DELETE mem zero_snapshot_listener p dx_capacity_manager_halfer ?arr = (r, arr')" by fastforce
    have p: "p < arr_size ?arr" using fl(2) True by simp
    note s = registered_remove [OF i(4) p i(5) a]
    have "contents ?arr ! p \<in> set (contents ?arr)" "incremental (contents ?arr ! p)"
      using p length_contents [OF i(4)] fl(3) True by (simp_all add: listener_id_def)
    then have has: "has_inc_listeners sd" by (rule i(6))
    let ?sd' = "sd\<lparr>snap_listeners := arr', has_inc_listeners := True\<rparr>"
    show ?thesis
    proof (cases r)
      case (Inl err)
      then have "dx_remove_snapshot_inc_listener mem l sd = (Inr False, ?sd')"
        using f True l a s has by (cases err) (simp_all add: dx_remove_snapshot_inc_listener_def)
      moreover have "registered ?sd' = registered sd" using s Inl by (simp add: registered_def)
      ultimately show ?thesis using has by (intro exI [of _ False] exI [of _ "?sd'"]) (simp add: reg_removed_def)
    next
      case (Inr u)
      then have e: "dx_remove_snapshot_inc_listener mem l sd = (Inr True, ?sd')"
        using f True l a has by (simp add: dx_remove_snapshot_inc_listener_def)
      have "snap_inv ?sd'" using s Inr i unfolding snap_inv_def by auto
      moreover have "registered ?sd' = (registered sd)((True, l) := None)"
        using s Inr fl(3) True by (simp add: registered_def)
      ultimately show ?thesis using e has by (intro exI [of _ True] exI [of _ "?sd'"]) (simp add: reg_removed_def)
    qed
  qed
qed

section \<open>The snapshots as a map\<close>

definition key_at :: "(nat \<Rightarrow> 'p dx_snapshot_data option) \<Rightarrow> nat \<Rightarrow> long64" where
  "key_at st p = (case st p of None \<Rightarrow> 0 | Some sd \<Rightarrow> snap_key sd)"

interpretation snapshots_search: search_order "dx_snapshots_comparator st" "key_at st" "key_at st"
    "\<lambda>p. st p \<noteq> None" "\<lambda>p. st p \<noteq> None" for st
  by unfold_locales
    (auto simp: dx_snapshots_comparator_def key_at_def DX_NUMERIC_COMPARATOR_def split: if_splits)

text \<open>
  A well formed registry: live snapshots in strictly increasing order of their keys.  \<open>snapshot_at\<close> is the map
  from keys to snapshots that it stands for.
\<close>

definition ctx_inv :: "'p dx_snapshot_context \<Rightarrow> bool" where
  "ctx_inv ctx \<longleftrightarrow> wf_array (snapshots_array ctx)
     \<and> sorted_wrt (\<lambda>p q. key_at (store ctx) p < key_at (store ctx) q) (contents (snapshots_array ctx))
     \<and> (\<forall>p \<in> set (contents (snapshots_array ctx)). store ctx p \<noteq> None)"

definition keyed :: "(nat \<Rightarrow> 'p dx_snapshot_data option) \<Rightarrow> nat list \<Rightarrow> (long64 \<times> nat) list" where
  "keyed st ps = map (\<lambda>p. (key_at st p, p)) ps"

definition snapshot_at :: "'p dx_snapshot_context \<Rightarrow> long64 \<Rightarrow> nat option" where
  "snapshot_at ctx = map_of (keyed (store ctx) (contents (snapshots_array ctx)))"

lemma keyed_other: "p \<notin> set ps \<Longrightarrow> keyed (st(p := v)) ps = keyed st ps"
  by (auto simp: keyed_def key_at_def)

lemma fst_keyed: "map fst (keyed st ps) = map (key_at st) ps"
  by (simp add: keyed_def)

lemma strictly_sorted_distinct: "sorted_wrt (\<lambda>p q. f p < (f q :: 'k :: linorder)) ps \<Longrightarrow> distinct (map f ps)"
  by (induction ps) force+

lemma sorted_wrt_key_cong:
  "(\<And>q. q \<in> set ps \<Longrightarrow> f q = g q) \<Longrightarrow>
    sorted_wrt (\<lambda>p q. f p < (f q :: 'k :: linorder)) ps = sorted_wrt (\<lambda>p q. g p < g q) ps"
  by (induction ps) auto

lemma find_snapshot_spec:
  assumes wf: "wf_array (snapshots_array ctx)"
    and s: "sorted_wrt (\<lambda>p q. key_at (store ctx) p < key_at (store ctx) q) (contents (snapshots_array ctx))"
    and live: "\<forall>p \<in> set (contents (snapshots_array ctx)). store ctx p \<noteq> None"
    and p: "store ctx p \<noteq> None" and f: "find_snapshot ctx p = (found, i)"
  shows "found \<Longrightarrow> i < arr_size (snapshots_array ctx) \<and> key_at (store ctx) (contents (snapshots_array ctx) ! i) = key_at (store ctx) p"
    "\<not> found \<Longrightarrow> i \<le> arr_size (snapshots_array ctx)
       \<and> (\<forall>q \<in> set (take i (contents (snapshots_array ctx))). key_at (store ctx) q < key_at (store ctx) p)
       \<and> (\<forall>q \<in> set (drop i (contents (snapshots_array ctx))). key_at (store ctx) p < key_at (store ctx) q)"
proof -
  have t: "take (arr_size (snapshots_array ctx)) (elements (snapshots_array ctx)) = contents (snapshots_array ctx)"
    by (simp add: contents_def)
  note l = snapshots_search.search_list [OF s live p length_contents [OF wf, symmetric] t f [unfolded find_snapshot_def]]
  show "found \<Longrightarrow> i < arr_size (snapshots_array ctx) \<and> key_at (store ctx) (contents (snapshots_array ctx) ! i) = key_at (store ctx) p"
    "\<not> found \<Longrightarrow> i \<le> arr_size (snapshots_array ctx)
       \<and> (\<forall>q \<in> set (take i (contents (snapshots_array ctx))). key_at (store ctx) q < key_at (store ctx) p)
       \<and> (\<forall>q \<in> set (drop i (contents (snapshots_array ctx))). key_at (store ctx) p < key_at (store ctx) q)"
    using l by blast+
qed

lemma insert_sorted:
  fixes f :: "'a \<Rightarrow> 'k :: linorder"
  assumes "sorted_wrt (\<lambda>x y. f x < f y) xs" "\<forall>x \<in> set (take i xs). f x < f z" "\<forall>x \<in> set (drop i xs). f z < f x"
  shows "sorted_wrt (\<lambda>x y. f x < f y) (take i xs @ z # drop i xs)" "f z \<notin> f ` set xs"
proof -
  have "sorted_wrt (\<lambda>x y. f x < f y) (take i xs @ drop i xs)" using assms(1) by simp
  then show "sorted_wrt (\<lambda>x y. f x < f y) (take i xs @ z # drop i xs)"
    using assms(2,3) unfolding sorted_wrt_append by auto
  have "set xs = set (take i xs) \<union> set (drop i xs)" by (metis append_take_drop_id set_append)
  then show "f z \<notin> f ` set xs" using assms(2,3) by force
qed

lemma take_drop_sorted:
  "sorted_wrt P xs \<Longrightarrow> sorted_wrt P (take i xs @ drop (i + 1) xs)"
proof -
  assume "sorted_wrt P xs"
  then have "sorted_wrt P (take i xs @ drop i xs)" "sorted_wrt P (drop (i + 1) xs)" by (simp_all add: sorted_wrt_drop)
  moreover have "set (drop (i + 1) xs) \<subseteq> set (drop i xs)" by (simp add: set_drop_subset_set_drop)
  ultimately show ?thesis unfolding sorted_wrt_append by blast
qed

lemma create_spec:
  fixes symbol_hash :: "dxf_char list \<Rightarrow> long64"
  assumes inv: "ctx_inv ctx" and fresh: "store ctx p = None"
    and key: "key = dx_new_snapshot_key symbol_hash rid symbol source"
    and e: "dx_create_snapshot mem symbol_hash p eid rid symbol source time types ctx = (r, ctx')"
  shows "case r of
      Inr q \<Rightarrow> q = p \<and> snapshot_at ctx key = None \<and> ctx_inv ctx' \<and> snapshot_at ctx' = (snapshot_at ctx)(key \<mapsto> p)
        \<and> store ctx' = (store ctx)(p \<mapsto> new_snapshot_data symbol_hash eid rid symbol source time types)
    | Inl err \<Rightarrow> err = (if snapshot_at ctx key = None then dx_mec_insufficient_memory else dx_ssec_snapshot_exist)
        \<and> snapshot_at ctx' = snapshot_at ctx \<and> store ctx' = store ctx"
proof -
  let ?new = "new_snapshot_data symbol_hash eid rid symbol source time types"
  let ?st = "(store ctx)(p \<mapsto> ?new)" and ?arr = "snapshots_array ctx"
  let ?ctx = "ctx\<lparr>store := ?st\<rparr>" and ?xs = "contents (snapshots_array ctx)"
  have wf: "wf_array ?arr" and live: "\<forall>q \<in> set ?xs. store ctx q \<noteq> None" using inv by (simp_all add: ctx_inv_def)
  have np: "p \<notin> set ?xs" using live fresh by auto
  have st: "key_at ?st q = key_at (store ctx) q" if "q \<in> set ?xs" for q using that np by (auto simp: key_at_def)
  have kp: "key_at ?st p = key" by (simp add: key_at_def new_snapshot_data_def key)
  have srt: "sorted_wrt (\<lambda>p q. key_at ?st p < key_at ?st q) ?xs"
    using inv sorted_wrt_key_cong [of ?xs "key_at ?st" "key_at (store ctx)"] st by (simp add: ctx_inv_def)
  have bk: "?st(p := None) = store ctx" using fresh by (auto simp: fun_eq_iff)
  obtain found i where f: "(if arr_size ?arr > 0 then find_snapshot ?ctx p else (False, 0)) = (found, i)" by fastforce
  have fs: "found \<Longrightarrow> i < arr_size ?arr \<and> key_at ?st (?xs ! i) = key"
    "\<not> found \<Longrightarrow> i \<le> arr_size ?arr \<and> (\<forall>q \<in> set (take i ?xs). key_at ?st q < key_at ?st p) \<and> (\<forall>q \<in> set (drop i ?xs). key_at ?st p < key_at ?st q)"
    using find_snapshot_spec [where ctx = ?ctx and p = p and found = found and i = i] wf srt live f np kp length_contents [OF wf]
    by (auto split: if_splits)
  show ?thesis
  proof (cases found)
    case True
    have "?xs ! i \<in> set ?xs" using fs(1) True length_contents [OF wf] by simp
    then have "key \<in> fst ` set (keyed (store ctx) ?xs)" using fs(1) True st by (force simp: keyed_def)
    then have "snapshot_at ctx key \<noteq> None" by (simp add: snapshot_at_def map_of_eq_None_iff)
    moreover have "r = Inl dx_ssec_snapshot_exist" "ctx' = dx_free_snapshot_data p ?ctx"
      using e f True by (simp_all add: dx_create_snapshot_def Let_def)
    ultimately show ?thesis using bk by (simp add: dx_free_snapshot_data_def snapshot_at_def)
  next
    case False
    note fs = fs(2) [OF False]
    note ins = insert_sorted [OF srt fs [THEN conjunct2, THEN conjunct1] fs [THEN conjunct2, THEN conjunct2]]
    have nk: "key \<notin> fst ` set (keyed ?st ?xs)" using ins(2) kp by (auto simp: keyed_def)
    then have nk': "snapshot_at ctx key = None" unfolding keyed_other [OF np] snapshot_at_def map_of_eq_None_iff .
    obtain r1 arr' where a: "DX_ARRAY_INSERT mem 0 p i dx_capacity_manager_halfer ?arr = (r1, arr')" by fastforce
    note sp = halfer.insert_spec [OF wf fs [THEN conjunct1] a]
    show ?thesis
    proof (cases r1)
      case (Inl err)
      then have "r = Inl dx_mec_insufficient_memory" "ctx' = dx_free_snapshot_data p (?ctx\<lparr>snapshots_array := arr'\<rparr>)"
        using e f False a sp by (auto simp: dx_create_snapshot_def Let_def)
      moreover have "contents arr' = ?xs" using sp Inl by (simp add: contents_def)
      ultimately show ?thesis using bk nk' by (simp add: dx_free_snapshot_data_def snapshot_at_def)
    next
      case (Inr u)
      then have x: "wf_array arr'" "contents arr' = take i ?xs @ p # drop i ?xs" using sp by simp_all
      have rr: "r = Inr p" "ctx' = ?ctx\<lparr>snapshots_array := arr'\<rparr>" using e f False a Inr by (simp_all add: dx_create_snapshot_def Let_def)
      have k: "keyed ?st (contents arr') = take i (keyed ?st ?xs) @ (key, p) # drop i (keyed ?st ?xs)"
        by (simp add: x(2) keyed_def kp take_map drop_map)
      have "snapshot_at ctx' = (snapshot_at ctx)(key \<mapsto> p)"
        using map_of_insert_at [OF nk, of i p] unfolding keyed_other [OF np] snapshot_at_def
        by (simp add: rr(2) k [unfolded keyed_other [OF np]])
      moreover have "\<forall>q \<in> set (contents arr'). ?st q \<noteq> None"
        using live unfolding x(2) by (auto dest: in_set_takeD in_set_dropD)
      moreover have "sorted_wrt (\<lambda>p q. key_at ?st p < key_at ?st q) (contents arr')" unfolding x(2) by (rule ins(1))
      ultimately show ?thesis using rr x(1) nk' by (simp add: ctx_inv_def)
    qed
  qed
qed

lemma close_spec:
  assumes inv: "ctx_inv ctx" and at: "snapshot_at ctx key = Some p"
    and e: "dx_close_snapshot mem p ctx = (r, ctx')"
  shows "case r of
      Inr _ \<Rightarrow> ctx_inv ctx' \<and> snapshot_at ctx' = (snapshot_at ctx)(key := None) \<and> store ctx' = (store ctx)(p := None)
    | Inl err \<Rightarrow> err = dx_mec_insufficient_memory \<and> store ctx' = (store ctx)(p := None)
        \<and> contents (snapshots_array ctx') = contents (snapshots_array ctx)"
proof -
  let ?st = "store ctx" and ?arr = "snapshots_array ctx" and ?xs = "contents (snapshots_array ctx)"
  have wf: "wf_array ?arr" and srt: "sorted_wrt (\<lambda>p q. key_at ?st p < key_at ?st q) ?xs"
    and live: "\<forall>q \<in> set ?xs. ?st q \<noteq> None" using inv by (simp_all add: ctx_inv_def)
  have p: "p \<in> set ?xs" "key_at ?st p = key" using map_of_SomeD [OF at [unfolded snapshot_at_def]] by (auto simp: keyed_def)
  obtain found i where f: "find_snapshot ctx p = (found, i)" by fastforce
  note fs = find_snapshot_spec [OF wf srt live _ f]
  have lp: "?st p \<noteq> None" using live p(1) by blast
  note d = strictly_sorted_distinct [OF srt]
  have found: found
  proof (rule ccontr)
    assume "\<not> found"
    from insert_sorted(2) [where f = "key_at ?st" and z = p, OF srt] fs(2) [OF lp this] p(1) show False by blast
  qed
  have i: "i < arr_size ?arr" "key_at ?st (?xs ! i) = key" using fs(1) [OF lp found] p(2) by simp_all
  have len: "i < length ?xs" using i(1) length_contents [OF wf] by simp
  have xi: "?xs ! i = p"
    using d p len i(2) by (metis distinct_map inj_on_eq_iff nth_mem)
  obtain r1 arr' where a: "DX_ARRAY_DELETE mem 0 i dx_capacity_manager_halfer ?arr = (r1, arr')" by fastforce
  note sp = halfer.delete_spec [OF wf i(1) a]
  show ?thesis
  proof (cases r1)
    case (Inl err)
    then have "r = Inl dx_mec_insufficient_memory" "ctx' = dx_free_snapshot_data p (ctx\<lparr>snapshots_array := arr'\<rparr>)"
      using e f found a sp by (auto simp: dx_close_snapshot_def)
    then show ?thesis using sp Inl by (simp add: dx_free_snapshot_data_def contents_def)
  next
    case (Inr u)
    then have x: "wf_array arr'" "contents arr' = take i ?xs @ drop (i + 1) ?xs" using sp by simp_all
    have rr: "r = Inr ()" "ctx' = dx_free_snapshot_data p (ctx\<lparr>snapshots_array := arr'\<rparr>)"
      using e f found a Inr by (simp_all add: dx_close_snapshot_def)
    have "distinct (take i ?xs @ ?xs ! i # drop (i + 1) ?xs)"
      using d len by (simp add: distinct_map flip: id_take_nth_drop)
    then have np: "p \<notin> set (contents arr')" using xi by (auto simp: x(2))
    have k: "keyed (?st(p := None)) (contents arr') = take i (keyed ?st ?xs) @ drop (i + 1) (keyed ?st ?xs)"
      unfolding keyed_other [OF np] by (simp add: x(2) keyed_def take_map drop_map)
    have "map_of (take i (keyed ?st ?xs) @ drop (i + 1) (keyed ?st ?xs)) = (map_of (keyed ?st ?xs))(key := None)"
      using map_of_distinct_delete [where xs = "keyed ?st ?xs" and f = fst and g = snd and i = i] d len i(2)
      by (simp add: fst_keyed) (simp add: keyed_def)
    then have m: "snapshot_at ctx' = (snapshot_at ctx)(key := None)"
      using k by (simp add: snapshot_at_def rr(2) dx_free_snapshot_data_def)
    have keys: "key_at (?st(p := None)) q = key_at ?st q" if "q \<in> set (contents arr')" for q
      using that np by (auto simp: key_at_def)
    have "sorted_wrt (\<lambda>p q. key_at ?st p < key_at ?st q) (contents arr')" unfolding x(2) by (rule take_drop_sorted [OF srt])
    then have "sorted_wrt (\<lambda>q q'. key_at (?st(p := None)) q < key_at (?st(p := None)) q') (contents arr')"
      using sorted_wrt_key_cong [of "contents arr'" "key_at (?st(p := None))" "key_at ?st"] keys by simp
    moreover have "\<forall>q \<in> set (contents arr'). (?st(p := None)) q \<noteq> None"
      using live np unfolding x(2) by (auto dest: in_set_takeD in_set_dropD)
    ultimately show ?thesis using rr m x(1) by (simp add: ctx_inv_def dx_free_snapshot_data_def)
  qed
qed

lemma clear_context:
  "store (dx_clear_snapshot_subscription_connection_context ctx) =
    (\<lambda>p. if p \<in> set (contents (snapshots_array ctx)) then None else store ctx p)"
proof -
  have "store (fold dx_free_snapshot_data ps c) = (\<lambda>p. if p \<in> set ps then None else store c p)" for ps and c :: "'a dx_snapshot_context"
    by (induction ps arbitrary: c) (auto simp: dx_free_snapshot_data_def fun_eq_iff)
  then show ?thesis by (simp add: dx_clear_snapshot_subscription_connection_context_def)
qed

section \<open>Properties\<close>

lemma described_event:
  assumes inv: "snap_inv sd" and st: "snap_status sd \<noteq> dx_status_unknown"
    and d: "describes kf (snapshot_records sd)" "describes kf (last_tx_records sd)" "kept gone (snapshot_records sd)"
    and ok: "faithful kf gone sd (data, params)" and e: "event_listener (\<lambda>_. True) data params sd = (Inr calls, sd')"
  shows "describes kf (snapshot_records sd') \<and> describes kf (last_tx_records sd') \<and> kept gone (snapshot_records sd')"
proof (cases "dx_is_snapshot_event sd params")
  case False
  then have "event_listener (\<lambda>_. True) data params sd = (Inr [], sd)" by (simp add: event_listener_def Let_def)
  with e d show ?thesis by auto
next
  case True
  then have k: "kf data = sd_key sd params data" "gone data = removal (event_id sd) data params"
    using ok by (simp_all add: faithful_def dx_is_snapshot_event_def sd_key_def)
  obtain mid where mid: "event_listener (\<lambda>_. True) data params sd =
      (if snap_status mid = dx_status_full then publish_snapshot mid else (Inr [], mid))" "snap_inv mid"
    and r: "recs_map (snapshot_records mid) = (recs_map (snapshot_records (started sd params)))
       (sd_key sd params data := (if removal (event_id sd) data params then None else Some data))"
    and t: "recs_map (last_tx_records mid) = (if has_inc_listeners sd \<and> full_snapshot_published (started sd params)
       then (recs_map (last_tx_records (started sd params)))(sd_key sd params data \<mapsto> data)
       else recs_map (last_tx_records (started sd params)))"
    by (rule event_listener_mid [OF inv True st, of data]) blast
  note s = started_simps [where sd = sd and params = params]
  have "describes kf (snapshot_records mid)"
    by (rule same_map_describes(1) [OF r]) (use d(1) k(1) in \<open>auto simp: s describes_def split: if_splits\<close>)
  moreover have "describes kf (last_tx_records mid)"
    by (rule same_map_describes(1) [OF t]) (use d(2) k(1) in \<open>auto simp: s describes_def split: if_splits\<close>)
  moreover have "kept gone (snapshot_records mid)"
    by (rule same_map_describes(2) [OF r]) (use d(3) k(2) in \<open>auto simp: s kept_def split: if_splits\<close>)
  moreover obtain calls' sd'' where q: "publish_snapshot mid = (Inr calls', sd'')"
    "recs_map (snapshot_records sd'') = recs_map (snapshot_records mid)" "recs_map (last_tx_records sd'') = Map.empty"
    by (rule publish_snapshot_spec [OF mid(2)]) blast
  ultimately show ?thesis using mid(1) e by (auto simp: describes_def kept_def split: if_splits)
qed

lemma described_events:
  assumes "snap_inv sd" "snap_status sd \<noteq> dx_status_unknown"
    and "describes kf (snapshot_records sd)" "describes kf (last_tx_records sd)" "kept gone (snapshot_records sd)"
    and "\<forall>e \<in> set es. faithful kf gone sd e" "run_events es sd = (Inr calls, sd')"
  shows "describes kf (snapshot_records sd') \<and> describes kf (last_tx_records sd') \<and> kept gone (snapshot_records sd')"
  using assms
proof (induction es arbitrary: sd calls)
  case Nil
  then show ?case by (simp add: io_simps)
next
  case (Cons e es)
  obtain data params where d: "e = (data, params)" by fastforce
  obtain c1 sd1 where l: "event_listener (\<lambda>_. True) data params sd = (Inr c1, sd1)" "snap_inv sd1" "same_snapshot sd sd1"
    "snap_status sd1 \<noteq> dx_status_unknown"
    by (rule event_listener_spec [OF Cons.prems(1,2), of data params])
  obtain c2 where r: "run_events es sd1 = (Inr c2, sd')"
    using Cons.prems(7) l(1) by (auto simp: d checked_def return_def split: prod.splits sum.splits)
  have f: "faithful kf gone sd (data, params)" using Cons.prems(6) d by simp
  note ce = described_event [OF Cons.prems(1-5) f l(1)]
  have "faithful kf gone sd1 = faithful kf gone sd" using l(3) by (simp add: same_snapshot_def faithful_def)
  then show ?case using Cons.IH [OF l(2,4) _ _ _ _ r] ce Cons.prems(6) by simp
qed

lemma add_inc_new:
  assumes inv: "snap_inv sd" and l: "l \<noteq> 0" and new: "registered sd (True, l) = None"
    and e: "dx_add_snapshot_inc_listener mem l data sd = (Inr True, sd')"
  obtains arr' where "sd' = sd\<lparr>snap_listeners := arr', has_inc_listeners := True\<rparr>" "snap_inv sd'"
    "\<lparr>incremental = True, full_snapshot_seen = False, snap_listener = l, snap_user_data = data\<rparr> \<in> set (contents arr')"
proof -
  let ?arr = "snap_listeners sd"
  let ?x = "\<lparr>incremental = True, full_snapshot_seen = False, snap_listener = l, snap_user_data = data\<rparr>"
  note i = snap_invD [OF inv]
  obtain found p where f: "dx_find_snapshot_listener_in_array ?arr True l = (found, p)" by fastforce
  note fl = find_snapshot_listener [OF i(4) f]
  have nf: "\<not> found"
  proof
    assume found
    then have "(True, l) \<in> listener_id ` set (contents ?arr)"
      using fl(2,3) length_contents [OF i(4)] by (metis image_eqI nth_mem)
    then show False using new registered_None by blast
  qed
  obtain r arr' where a: "DX_ARRAY_INSERT mem zero_snapshot_listener ?x p dx_capacity_manager_halfer ?arr = (r, arr')" by fastforce
  have ok: "\<not> isl r" "sd' = sd\<lparr>snap_listeners := arr', has_inc_listeners := True\<rparr>"
    using e f nf l a by (auto simp: dx_add_snapshot_inc_listener_def split: sum.splits dx_error.splits)
  have p: "p = arr_size ?arr" using fl(1,2) nf by simp
  have nx: "listener_id ?x \<notin> listener_id ` set (contents ?arr)" using fl(4) nf by (simp add: listener_id_def)
  have "?x \<in> set (contents arr')" using registered_add [OF i(4) p nx a] ok(1) by (cases r) auto
  moreover have "snap_inv sd'"
    using add_inc_spec [OF inv l, of mem data] e by (auto simp: reg_added_def)
  ultimately show thesis using that ok(2) by blast
qed


text \<open>
  C12: a client that applies the calls of its incremental listener to a map of its own, starting afresh when it is
  told that the snapshot is new, has the content of the snapshot after every transaction, also when it comes
  late; its listener is never told about the events before the whole snapshot.
\<close>

theorem incremental_client:
  fixes h :: "dxf_char list \<Rightarrow> long64" and es :: "('p event_data \<times> dxf_event_params) list"
  assumes "storable eid" and "l \<noteq> 0"
    and "\<forall>e \<in> set (es0 @ es). faithful kf gone (new_snapshot_data h eid rid symbol source time types) e"
    and "run_events es0 (new_snapshot_data h eid rid symbol source time types) = (Inr calls0, sd0)"
    and "registered sd0 (True, l) = None"
    and "dx_add_snapshot_inc_listener mem l data sd0 = (Inr True, sd1)"
    and "run_events es sd1 = (Inr calls, sd')"
    and "es \<noteq> []" "ep_snapshot_key (snd (last es)) = snap_key sd'" "snap_status sd' = dx_status_full"
  shows "fold (client_step kf gone l) calls m = recs_map (snapshot_records sd')"
proof -
  let ?sd = "new_snapshot_data h eid rid symbol source time types :: 'p dx_snapshot_data"
  note n = new_snapshot_inv [OF assms(1), of ?sd h rid symbol source time types, OF refl]
  obtain calls0' sd0' where r: "run_events es0 ?sd = (Inr calls0', sd0')" "snap_inv sd0'" "same_snapshot ?sd sd0'"
    "snap_status sd0' \<noteq> dx_status_unknown"
    by (rule run_events_spec [OF n(1,2)])
  have e0: "sd0' = sd0" using r(1) assms(4) by simp
  have "describes kf (snapshot_records ?sd)" "describes kf (last_tx_records ?sd)" "kept gone (snapshot_records ?sd)"
    by (simp_all add: new_snapshot_data_def describes_def kept_def)
  from described_events [OF n(1,2) this _ assms(4)] assms(3)
  have d: "describes kf (snapshot_records sd0)" "describes kf (last_tx_records sd0)" "kept gone (snapshot_records sd0)" by simp_all
  obtain arr' where a: "sd1 = sd0\<lparr>snap_listeners := arr', has_inc_listeners := True\<rparr>" "snap_inv sd1"
    "\<lparr>incremental = True, full_snapshot_seen = False, snap_listener = l, snap_user_data = data\<rparr> \<in> set (contents arr')"
    by (rule add_inc_new [OF r(2) [unfolded e0] assms(2,5,6)])
  have ci: "client_inv kf gone l sd1 m" unfolding client_inv_def using d a(1,3) by (force simp: listener_id_def)
  have ss: "same_snapshot ?sd sd1" using r(3) e0 a(1) by (simp add: same_snapshot_def)
  then have "faithful kf gone sd1 = faithful kf gone ?sd" by (simp add: same_snapshot_def faithful_def)
  then have f: "\<forall>e \<in> set es. faithful kf gone sd1 e" using assms(3) by simp
  have s1: "snap_status sd1 \<noteq> dx_status_unknown" using r(4) e0 a(1) by simp
  obtain calls' sd'' where r': "run_events es sd1 = (Inr calls', sd'')" "same_snapshot sd1 sd''"
    by (rule run_events_spec [OF a(2) s1])
  then have "snap_key sd' = snap_key sd1" using assms(7) by (simp add: same_snapshot_def)
  with client_events [OF a(2) s1 ci f assms(7)] assms(8-10) show ?thesis by simp
qed

text \<open>
  on the registry of listeners, adding a listener registers it with its data unless it was there, removing
  takes it out, of the other kind nothing changes, a failed allocation leaves the registry as it was, and no
  operation touches memory it must not; that incremental listeners exist is never forgotten, so a transaction
  is still collected after the last one has gone.
\<close>

theorem snapshot_listener_registry:
  assumes "snap_inv sd" "l \<noteq> 0"
  shows "(\<exists>ok sd'. dx_add_snapshot_listener mem l data sd = (Inr ok, sd') \<and> reg_added False l data sd ok sd')
    \<and> (\<exists>ok sd'. dx_add_snapshot_inc_listener mem l data sd = (Inr ok, sd') \<and> reg_added True l data sd ok sd')
    \<and> (\<exists>ok sd'. dx_remove_snapshot_listener mem l sd = (Inr ok, sd') \<and> reg_removed False l sd ok sd')
    \<and> (\<exists>ok sd'. dx_remove_snapshot_inc_listener mem l sd = (Inr ok, sd') \<and> reg_removed True l sd ok sd')"
  by (intro conjI add_full_spec add_inc_spec remove_full_spec remove_inc_spec assms)

text \<open>
  the registry of snapshots is a map from keys to snapshots: creating a snapshot adds it exactly when its key
  is free and reports \<open>dx_ssec_snapshot_exist\<close> otherwise; in every error the registry and the memory are as before.
\<close>

theorem snapshot_unique_keys:
  fixes symbol_hash :: "dxf_char list \<Rightarrow> long64"
  assumes "ctx_inv ctx" "store ctx p = None" "key = dx_new_snapshot_key symbol_hash rid symbol source"
    and "dx_create_snapshot mem symbol_hash p eid rid symbol source time types ctx = (r, ctx')"
  shows "case r of
      Inr q \<Rightarrow> q = p \<and> snapshot_at ctx key = None \<and> ctx_inv ctx' \<and> snapshot_at ctx' = (snapshot_at ctx)(key \<mapsto> p)
        \<and> store ctx' = (store ctx)(p \<mapsto> new_snapshot_data symbol_hash eid rid symbol source time types)
    | Inl err \<Rightarrow> err = (if snapshot_at ctx key = None then dx_mec_insufficient_memory else dx_ssec_snapshot_exist)
        \<and> snapshot_at ctx' = snapshot_at ctx \<and> store ctx' = store ctx"
  by (rule create_spec [OF assms])

text \<open>
  C31: closing a snapshot takes exactly its key out of the registry and frees it; when the array cannot be
  shrunk the snapshot is freed all the same and its address stays in the array, which then dangles.
\<close>

theorem snapshot_closed:
  assumes "ctx_inv ctx" "snapshot_at ctx key = Some p" "dx_close_snapshot mem p ctx = (r, ctx')"
  shows "case r of
      Inr _ \<Rightarrow> ctx_inv ctx' \<and> snapshot_at ctx' = (snapshot_at ctx)(key := None) \<and> store ctx' = (store ctx)(p := None)
    | Inl err \<Rightarrow> err = dx_mec_insufficient_memory \<and> store ctx' = (store ctx)(p := None)
        \<and> contents (snapshots_array ctx') = contents (snapshots_array ctx)"
  by (rule close_spec [OF assms])

definition example_order :: "long64 \<Rightarrow> rat \<Rightarrow> 'p event_data" where
  "example_order i amount = Order_Data (zero_order\<lparr>order_index := i, order_size := Num amount\<rparr>)"

definition example_events :: "('p event_data \<times> dxf_event_params) list" where
  "example_events =
    [(example_order 3 7, \<lparr>ep_flags = 4, ep_time_int_field = 3, ep_snapshot_key = 0x0500000000000000\<rparr>),
     (example_order 5 9, \<lparr>ep_flags = 8, ep_time_int_field = 5, ep_snapshot_key = 0x0500000000000000\<rparr>),
     (example_order 3 0, \<lparr>ep_flags = 0, ep_time_int_field = 3, ep_snapshot_key = 0x0500000000000000\<rparr>)]"

abbreviation example_snapshot :: "'p dx_snapshot_data" where
  "example_snapshot \<equiv> new_snapshot_data (\<lambda>_. 0) dx_eid_order dx_rid_order [65] None 0 16"

lemma storable_order: "storable dx_eid_order"
  by (simp add: storable_def)

lemma example_key: "dx_new_snapshot_key (\<lambda>_. 0) dx_rid_order [65] None = 0x0500000000000000"
  by code_simp



theorem incremental_client_witness:
  "\<exists>sd1 calls sd'. dx_add_snapshot_inc_listener (\<lambda>_. True) 9 0 (example_snapshot :: unit dx_snapshot_data) = (Inr True, sd1)
    \<and> run_events example_events sd1 = (Inr calls, sd')
    \<and> fold (client_step (\<lambda>d. case d of Order_Data order \<Rightarrow> \<lparr>time_int_field = order_index order, index = 0\<rparr>
          | Other_Data _ \<Rightarrow> zero_key) (dx_is_zero_event dx_eid_order) 9) calls Map.empty = recs_map (snapshot_records sd')"
proof -
  let ?sd = "example_snapshot :: unit dx_snapshot_data"
  let ?add = "dx_add_snapshot_inc_listener (\<lambda>_. True) 9 0 ?sd"
  let ?run = "run_events example_events (snd ?add)"
  have s: "fst ?add = Inr True" "fst ?run \<noteq> Inl UB" "isl (fst ?run) = False" "snap_status (snd ?run) = dx_status_full"
    "snap_key (snd ?run) = 0x0500000000000000"
    by code_simp+
  obtain calls where c: "?run = (Inr calls, snd ?run)" using s(3) by (cases "fst ?run"; cases ?run) auto
  have a: "?add = (Inr True, snd ?add)" using s(1) by (cases ?add) simp
  have f: "\<forall>e \<in> set ([] @ example_events). faithful (\<lambda>d. case d of Order_Data order \<Rightarrow> \<lparr>time_int_field = order_index order, index = 0\<rparr>
          | Other_Data _ \<Rightarrow> zero_key) (dx_is_zero_event dx_eid_order) ?sd e"
    by (simp add: example_events_def example_order_def faithful_def event_key_def removal_def new_snapshot_data_def
      dx_get_order_index_def IS_FLAG_SET_def dxf_ef_remove_event_def)
  have r: "registered ?sd (True, 9) = None" by (simp add: registered_def reg_of_def new_snapshot_data_def contents_def DX_EMPTY_ARRAY_def)
  have l: "example_events \<noteq> ([] :: (unit event_data \<times> _) list)"
    "ep_snapshot_key (snd (last (example_events :: (unit event_data \<times> _) list))) = snap_key (snd ?run)"
    unfolding s(5) by (simp_all add: example_events_def)
  have "run_events [] ?sd = (Inr [], ?sd)" by (simp add: return_def)
  from incremental_client [OF storable_order _ f this r a c l s(4)] a c show ?thesis by auto
qed

theorem snapshot_listener_registry_witness:
  "\<exists>ok sd'. dx_add_snapshot_listener (\<lambda>_. True) 9 1 (example_snapshot :: unit dx_snapshot_data) = (Inr ok, sd')
    \<and> reg_added False 9 1 (example_snapshot :: unit dx_snapshot_data) ok sd'"
  by (rule snapshot_listener_registry [OF new_snapshot_inv(1) [OF storable_order refl], THEN conjunct1]) simp

definition example_registry :: "unit dx_snapshot_context" where
  "example_registry = \<lparr>snapshots_array = \<lparr>elements = [4], arr_size = 1, capacity = 1\<rparr>, store = [4 \<mapsto> example_snapshot]\<rparr>"

lemma example_registry_inv: "ctx_inv example_registry" "snapshot_at example_registry 0x0500000000000000 = Some 4"
  by (simp_all add: ctx_inv_def example_registry_def wf_array_def contents_def snapshot_at_def keyed_def key_at_def
    new_snapshot_data_def example_key)

theorem snapshot_unique_keys_witness:
  "fst (dx_create_snapshot (\<lambda>_. True) (\<lambda>_. 0) 5 dx_eid_order dx_rid_order [65] None 0 16 example_registry) = Inl dx_ssec_snapshot_exist"
proof -
  let ?c = "dx_create_snapshot (\<lambda>_. True) (\<lambda>_. 0) 5 dx_eid_order dx_rid_order [65] None 0 16 example_registry"
  obtain r ctx' where c: "?c = (r, ctx')" by fastforce
  have "store example_registry 5 = None" by (simp add: example_registry_def)
  from snapshot_unique_keys [OF example_registry_inv(1) this example_key [symmetric] c] c show ?thesis
    by (cases r) (simp_all add: example_registry_inv(2))
qed

theorem snapshot_closed_witness:
  "\<exists>ctx'. dx_close_snapshot (\<lambda>_. True) 4 example_registry = (Inr (), ctx') \<and> snapshot_at ctx' = Map.empty"
proof -
  obtain r ctx' where c: "dx_close_snapshot (\<lambda>_. True) 4 example_registry = (r, ctx')" by fastforce
  have "isl (fst (dx_close_snapshot (\<lambda>_. True) 4 example_registry)) = False" by code_simp
  then have "\<not> isl r" using c by simp
  with snapshot_closed [OF example_registry_inv c] c show ?thesis
    by (cases r) (auto simp: snapshot_at_def example_registry_def keyed_def contents_def key_at_def new_snapshot_data_def example_key)
qed

end
