(* ===== verification/Dx_Messages.thy ===== *)
theory Dx_Messages
  imports Dx_Codec
begin

text \<open>
  \<open>src/DXPMessageData.c\<close> and the composing of messages, which \<open>src/ClientMessageProcessor.c\<close> and
  \<open>src/BinaryQTPComposer.cpp\<close> both hold: the types of messages, the format of a message on the wire
  (\<open>frame\<close>), and the proof that a message whose body is written between the header and the end is that
  format.  One byte is reserved for the length; when the length needs more the message is moved.
\<close>

section \<open>Message types\<close>

definition MESSAGE_HEARTBEAT :: int32 where "MESSAGE_HEARTBEAT = 0"
definition MESSAGE_DESCRIBE_PROTOCOL :: int32 where "MESSAGE_DESCRIBE_PROTOCOL = 1"
definition MESSAGE_DESCRIBE_RECORDS :: int32 where "MESSAGE_DESCRIBE_RECORDS = 2"
definition MESSAGE_DESCRIBE_RESERVED :: int32 where "MESSAGE_DESCRIBE_RESERVED = 3"
definition MESSAGE_PART :: int32 where "MESSAGE_PART = 4"
definition MESSAGE_RAW_DATA :: int32 where "MESSAGE_RAW_DATA = 5"
definition MESSAGE_TICKER_DATA :: int32 where "MESSAGE_TICKER_DATA = 10"
definition MESSAGE_TICKER_ADD_SUBSCRIPTION :: int32 where "MESSAGE_TICKER_ADD_SUBSCRIPTION = 11"
definition MESSAGE_TICKER_REMOVE_SUBSCRIPTION :: int32 where "MESSAGE_TICKER_REMOVE_SUBSCRIPTION = 12"
definition MESSAGE_STREAM_DATA :: int32 where "MESSAGE_STREAM_DATA = 15"
definition MESSAGE_STREAM_ADD_SUBSCRIPTION :: int32 where "MESSAGE_STREAM_ADD_SUBSCRIPTION = 16"
definition MESSAGE_STREAM_REMOVE_SUBSCRIPTION :: int32 where "MESSAGE_STREAM_REMOVE_SUBSCRIPTION = 17"
definition MESSAGE_HISTORY_DATA :: int32 where "MESSAGE_HISTORY_DATA = 20"
definition MESSAGE_HISTORY_ADD_SUBSCRIPTION :: int32 where "MESSAGE_HISTORY_ADD_SUBSCRIPTION = 21"
definition MESSAGE_HISTORY_REMOVE_SUBSCRIPTION :: int32 where "MESSAGE_HISTORY_REMOVE_SUBSCRIPTION = 22"
definition MESSAGE_TEXT_FORMAT :: int32 where "MESSAGE_TEXT_FORMAT = 0x3d"

definition dx_is_message_type_valid :: "int32 \<Rightarrow> bool" where
  "dx_is_message_type_valid type \<longleftrightarrow> type = MESSAGE_HEARTBEAT \<or> type = MESSAGE_DESCRIBE_PROTOCOL
     \<or> type = MESSAGE_DESCRIBE_RECORDS \<or> type = MESSAGE_DESCRIBE_RESERVED \<or> type = MESSAGE_PART
     \<or> type = MESSAGE_RAW_DATA \<or> type = MESSAGE_TICKER_DATA \<or> type = MESSAGE_TICKER_ADD_SUBSCRIPTION
     \<or> type = MESSAGE_TICKER_REMOVE_SUBSCRIPTION \<or> type = MESSAGE_STREAM_DATA
     \<or> type = MESSAGE_STREAM_ADD_SUBSCRIPTION \<or> type = MESSAGE_STREAM_REMOVE_SUBSCRIPTION
     \<or> type = MESSAGE_HISTORY_DATA \<or> type = MESSAGE_HISTORY_ADD_SUBSCRIPTION
     \<or> type = MESSAGE_HISTORY_REMOVE_SUBSCRIPTION \<or> type = MESSAGE_TEXT_FORMAT"

definition dx_is_data_message :: "int32 \<Rightarrow> bool" where
  "dx_is_data_message type \<longleftrightarrow>
     type = MESSAGE_TICKER_DATA \<or> type = MESSAGE_STREAM_DATA \<or> type = MESSAGE_HISTORY_DATA"

definition dx_is_subscription_message :: "int32 \<Rightarrow> bool" where
  "dx_is_subscription_message type \<longleftrightarrow> type = MESSAGE_TICKER_ADD_SUBSCRIPTION
     \<or> type = MESSAGE_TICKER_REMOVE_SUBSCRIPTION \<or> type = MESSAGE_STREAM_ADD_SUBSCRIPTION
     \<or> type = MESSAGE_STREAM_REMOVE_SUBSCRIPTION \<or> type = MESSAGE_HISTORY_ADD_SUBSCRIPTION
     \<or> type = MESSAGE_HISTORY_REMOVE_SUBSCRIPTION"

text \<open>A message on the wire: the length of its type and body, the type, the body.\<close>

definition frame :: "int32 \<Rightarrow> byte list \<Rightarrow> byte list" where
  "frame type body = (let content = compact_int_bytes type @ body
     in compact_int_bytes (word_of_int (int (length content))) @ content)"

section \<open>Composing a message\<close>

definition dx_compose_message_header :: "(nat \<Rightarrow> bool) \<Rightarrow> int32 \<Rightarrow> (out_ctx, unit) io" where
  "dx_compose_message_header mem message_type =
     checked (dx_write_byte mem 0) (\<lambda>_. dx_write_compact_int mem message_type)"

definition dx_move_message_data :: "(nat \<Rightarrow> bool) \<Rightarrow> int \<Rightarrow> int \<Rightarrow> int \<Rightarrow> (out_ctx, unit) io" where
  "dx_move_message_data mem old_offset new_offset data_length =
     checked (dx_ensure_capacity mem (new_offset + data_length)) (\<lambda>_ ctx.
       case out_buffer ctx of
         None \<Rightarrow> (Inl UB, ctx)
       | Some buf \<Rightarrow>
           (case mem_copy buf new_offset buf old_offset data_length of
              None \<Rightarrow> (Inl UB, ctx)
            | Some buf' \<Rightarrow> (Inr (), ctx\<lparr>out_buffer := Some buf'\<rparr>)))"

definition dx_finish_composing_message :: "(nat \<Rightarrow> bool) \<Rightarrow> (out_ctx, unit) io" where
  "dx_finish_composing_message mem = (\<lambda>ctx.
     let message_length = current_out_buffer_position ctx - 1;
         length_size = int (dx_get_compact_size (word_of_int message_length))
     in checked (if length_size > 1 then dx_move_message_data mem 1 length_size message_length else return ())
          (\<lambda>_ ctx. checked (dx_write_compact_int mem (word_of_int message_length))
             (\<lambda>_ ctx. (Inr (), dx_set_out_buffer_position (length_size + message_length) ctx))
             (dx_set_out_buffer_position 0 ctx)) ctx)"

text \<open>\<open>stores w bs\<close>: where there is room \<open>w\<close> replaces the bytes at the position by \<open>bs\<close> and changes nothing else.\<close>

definition stores :: "(out_ctx, unit) io \<Rightarrow> byte list \<Rightarrow> bool" where
  "stores w bs \<longleftrightarrow> (\<forall>ctx buf p. out_buffer ctx = Some buf \<longrightarrow> current_out_buffer_position ctx = int p
     \<longrightarrow> p + length bs \<le> length buf \<longrightarrow>
     w ctx = (Inr (), ctx\<lparr>out_buffer := Some (take p buf @ bs @ drop (p + length bs) buf),
                         current_out_buffer_position := int (p + length bs)\<rparr>))"

lemma stores_seq:
  assumes a: "stores a xs" and b: "stores b ys"
  shows "stores (checked a (\<lambda>_. b)) (xs @ ys)"
  unfolding stores_def
proof (intro allI impI)
  fix ctx :: out_ctx and buf p
  assume h: "out_buffer ctx = Some buf" "current_out_buffer_position ctx = int p" "p + length (xs @ ys) \<le> length buf"
  define c1 where "c1 = ctx\<lparr>out_buffer := Some (take p buf @ xs @ drop (p + length xs) buf),
                         current_out_buffer_position := int (p + length xs)\<rparr>"
  have e1: "a ctx = (Inr (), c1)"
    unfolding c1_def using a [unfolded stores_def, rule_format, OF h(1,2)] h(3) by simp
  have "b c1 = (Inr (), c1\<lparr>out_buffer := Some (take (p + length xs) (take p buf @ xs @ drop (p + length xs) buf) @ ys
      @ drop (p + length xs + length ys) (take p buf @ xs @ drop (p + length xs) buf)),
      current_out_buffer_position := int (p + length xs + length ys)\<rparr>)"
    by (rule b [unfolded stores_def, rule_format]) (use h in \<open>simp_all add: c1_def\<close>)
  moreover have "take (p + length xs) (take p buf @ xs @ drop (p + length xs) buf) = take p buf @ xs"
    "drop (p + length xs + length ys) (take p buf @ xs @ drop (p + length xs) buf) = drop (p + length xs + length ys) buf"
    using h(3) by (cases xs; auto simp: min_def add_ac)+
  ultimately show "checked a (\<lambda>_. b) ctx = (Inr (), ctx\<lparr>out_buffer := Some (take p buf @ (xs @ ys) @ drop (p + length (xs @ ys)) buf),
                         current_out_buffer_position := int (p + length (xs @ ys))\<rparr>)"
    using e1 by (simp add: io_simps c1_def add.assoc)
qed

lemma stores_put_byte: "stores (put_byte b) [b]"
  by (auto simp: stores_def put_byte_def mem_store_def upd_conv_take_nth_drop)

lemma stores_put_bytes: "stores (put_bytes bs) bs"
proof (induction bs)
  case Nil
  then show ?case by (auto simp: stores_def io_simps)
next
  case (Cons b bs)
  then show ?case using stores_seq [OF stores_put_byte Cons, of b] by simp
qed

lemma stores_if:
  "(c \<Longrightarrow> stores a xs) \<Longrightarrow> (\<not> c \<Longrightarrow> stores b ys) \<Longrightarrow> stores (if c then a else b) (if c then xs else ys)"
  by simp

lemma stores_compact_int:
  assumes "out_buffer ctx = Some buf" "current_out_buffer_position ctx = int p" "p + 5 \<le> length buf"
    "int (length buf) = out_buffer_length ctx"
  shows "dx_write_compact_int mem v ctx = (Inr (), ctx\<lparr>
     out_buffer := Some (take p buf @ compact_int_bytes v @ drop (p + length (compact_int_bytes v)) buf),
     current_out_buffer_position := int (p + length (compact_int_bytes v))\<rparr>)"
proof -
  have c: "dx_check_write_possibility mem 5 ctx = (Inr (), ctx)"
    using assms by (simp add: dx_check_write_possibility_def IS_CUR_CAPACITY_ENOUGH_def)
  define w where "w = (if sint v \<ge> 0 then
         (if sint v < 0x40 then put_bytes [ucast v]
          else if sint v < 0x2000 then put_bytes [ucast (0x80 OR signed_drop_bit 8 v), ucast v]
          else if sint v < 0x100000 then
            put_bytes [ucast (0xC0 OR signed_drop_bit 16 v), ucast (signed_drop_bit 8 v), ucast v]
          else if sint v < 0x08000000 then dx_write_int_unchecked (0xE0000000 OR v)
          else checked (put_bytes [0xF0]) (\<lambda>_. dx_write_int_unchecked v))
       else
         (if sint v \<ge> -0x40 then put_bytes [ucast (0x7F AND v)]
          else if sint v \<ge> -0x2000 then put_bytes [ucast (0xBF AND signed_drop_bit 8 v), ucast v]
          else if sint v \<ge> -0x100000 then
            put_bytes [ucast (0xDF AND signed_drop_bit 16 v), ucast (signed_drop_bit 8 v), ucast v]
          else if sint v \<ge> -0x08000000 then dx_write_int_unchecked (0xEFFFFFFF AND v)
          else checked (put_bytes [0xF7]) (\<lambda>_. dx_write_int_unchecked v)))"
  have "stores w (compact_int_bytes v)"
    unfolding w_def compact_int_bytes_def dx_write_int_unchecked_def int_bytes_def
    by (intro stores_if stores_seq stores_put_bytes)
  moreover have "length (compact_int_bytes v) \<le> 5" by (rule length_compact_int_bytes(2))
  ultimately have "w ctx = (Inr (), ctx\<lparr>
     out_buffer := Some (take p buf @ compact_int_bytes v @ drop (p + length (compact_int_bytes v)) buf),
     current_out_buffer_position := int (p + length (compact_int_bytes v))\<rparr>)"
    using assms(1-3) unfolding stores_def by simp
  moreover have "dx_write_compact_int mem v ctx = w ctx"
    unfolding dx_write_compact_int_def w_def using c by (simp add: checked_Inr [where x = "()" and s' = ctx])
  ultimately show ?thesis by simp
qed

lemma ucast_word_of_int: "ucast (word_of_int k :: long64) = (word_of_int k :: int32)"
  by (rule bit_word_eqI) (simp add: bit_simps)

lemma check_extends:
  assumes wf: "wf_out ctx" and buf: "out_buffer ctx = Some buf" and n: "0 \<le> n" "n \<le> 2 ^ 30"
    and e: "dx_check_write_possibility mem n ctx = (Inr u, ctx')"
  obtains pad where "ctx' = ctx\<lparr>out_buffer := Some (buf @ pad), out_buffer_length := int (length (buf @ pad))\<rparr>"
    "current_out_buffer_position ctx + n \<le> int (length (buf @ pad))" "int (length (buf @ pad)) \<le> INT_MAX"
proof (cases "IS_CUR_CAPACITY_ENOUGH ctx n")
  case True
  then have "ctx' = ctx" using e buf by (simp add: dx_check_write_possibility_def)
  then show thesis using that [of "[]"] wf buf True by (auto simp: wf_out_def IS_CUR_CAPACITY_ENOUGH_def)
next
  case False
  then have ens: "dx_ensure_capacity mem n ctx = (Inr u, ctx')" using e buf by (simp add: dx_check_write_possibility_def)
  define len where "len = max (max (min (out_buffer_length ctx * 2) INT_MAX) 1024) (current_out_buffer_position ctx + n)"
  have nov: "\<not> INT_MAX - current_out_buffer_position ctx < out_buffer_length ctx"
    using ens by (auto simp: dx_ensure_capacity_def)
  have b: "0 \<le> current_out_buffer_position ctx" "current_out_buffer_position ctx \<le> out_buffer_length ctx"
      "out_buffer_length ctx \<le> INT_MAX" "int (length buf) = out_buffer_length ctx" using wf buf by (auto simp: wf_out_def)
  have l: "out_buffer_length ctx \<le> len" "len \<le> INT_MAX" "current_out_buffer_position ctx + n \<le> len"
    using b n nov by (auto simp: len_def)
  have nb: "nat (out_buffer_length ctx) = length buf" "length buf \<le> nat len" using b(4) l(1) by linarith+
  have c: "mem_copy (replicate (nat len) 0) 0 buf 0 (out_buffer_length ctx) = Some (buf @ replicate (nat len - length buf) 0)"
    using nb l b by (simp add: mem_copy_def)
  have c': "ctx' = ctx\<lparr>out_buffer := Some (buf @ replicate (nat len - length buf) 0), out_buffer_length := len\<rparr>"
    using ens False nov buf c by (auto simp: dx_ensure_capacity_def Let_def simp flip: len_def split: if_splits)
  have "int (length (buf @ replicate (nat len - length buf) 0)) = len" using nb l b by simp
  then show thesis using that [of "replicate (nat len - length buf) 0"] c' l by simp
qed

lemma finish_spec:
  assumes wf: "wf_out ctx" and w: "written ctx = 0 # content" and n: "length content < 2 ^ 29"
    and e: "dx_finish_composing_message mem ctx = (r, ctx')"
  shows "case r of Inr _ \<Rightarrow> wf_out ctx' \<and> written ctx' = compact_int_bytes (word_of_int (int (length content))) @ content
    | Inl err \<Rightarrow> err \<in> {dx_mec_insufficient_memory, dx_bioec_buffer_overflow}"
proof -
  let ?n = "length content"
  define v :: int32 where "v = word_of_int (int ?n)"
  define ls where "ls = length (compact_int_bytes v)"
  have sv: "sint v = int ?n" "sint (word_of_int (int ?n) :: long64) = int ?n"
    using n unfolding v_def by (simp_all add: signed_of_nat signed_take_bit_int_eq_self)
  have pos: "current_out_buffer_position ctx = int (Suc ?n)" using position_written [OF wf] w by simp
  have np: "nat (current_out_buffer_position ctx) = Suc ?n" by (simp only: pos nat_int)
  have ml: "current_out_buffer_position ctx - 1 = int ?n" using pos by simp
  have lsz: "int (dx_get_compact_size (word_of_int (int ?n))) = int ls"
  proof -
    have f: "fits_int (word_of_int (int ?n))"
      unfolding fits_int_range sv(2) using n by simp
    then have "compact_long_bytes (word_of_int (int ?n)) = compact_int_bytes v"
      unfolding v_def compact_long_bytes_def ucast_word_of_int by simp
    then show ?thesis by (simp add: compact_size_length ls_def)
  qed
  have l15: "1 \<le> ls" "ls \<le> 5" using length_compact_int_bytes [of v] by (simp_all add: ls_def)
  let ?mv = "if int ls > 1 then dx_move_message_data mem 1 (int ls) (int ?n) else return ()"
  obtain r1 c1 where m: "?mv ctx = (r1, c1)" by fastforce
  have fin: "dx_finish_composing_message mem ctx =
     checked ?mv (\<lambda>_ ctx. checked (dx_write_compact_int mem v) (\<lambda>_ ctx. (Inr (), dx_set_out_buffer_position (int ls + int ?n) ctx))
             (dx_set_out_buffer_position 0 ctx)) ctx"
    unfolding dx_finish_composing_message_def Let_def ml lsz v_def ..
  have moved: "case r1 of Inr _ \<Rightarrow> (\<exists>buf. out_buffer c1 = Some buf \<and> int (length buf) = out_buffer_length c1 \<and> ls + ?n \<le> length buf
        \<and> out_buffer_length c1 \<le> INT_MAX \<and> take ?n (drop ls buf) = content)
      | Inl err \<Rightarrow> err \<in> {dx_mec_insufficient_memory, dx_bioec_buffer_overflow}"
  proof (cases "ls = 1")
    case True
    then have "r1 = Inr ()" "c1 = ctx" using m by (simp_all add: return_def)
    moreover obtain buf where "out_buffer ctx = Some buf" "int (length buf) = out_buffer_length ctx" using wf by (auto simp: wf_out_def)
    moreover have "take (Suc ?n) buf = 0 # content" using w calculation(3) np by (simp add: written_def)
    moreover from this have "take ?n (drop 1 buf) = content" by (metis drop_take drop0 drop_Suc_Cons diff_Suc_1 One_nat_def)
    ultimately show ?thesis using wf pos True by (auto simp: wf_out_def)
  next
    case False
    then have ls1: "int ls > 1" using l15 by simp
    obtain r2 c2 where ec: "dx_ensure_capacity mem (int ls + int ?n) ctx = (r2, c2)" by fastforce
    have le: "0 \<le> int ls + int ?n" "int ls + int ?n \<le> 2 ^ 30" using l15 n by simp_all
    note es = ensure_capacity_spec [OF wf le ec]
    show ?thesis
    proof (cases r2)
      case (Inl err)
      then show ?thesis using es m ls1 ec by (auto simp: dx_move_message_data_def io_simps checked_def)
    next
      case (Inr u)
      obtain buf where b: "out_buffer c2 = Some buf" "int (length buf) = out_buffer_length c2" using es by (auto simp: wf_out_def)
      have p2: "current_out_buffer_position c2 = int (Suc ?n)" using es position_written w by simp
      have room: "int (Suc ?n) + (int ls + int ?n) \<le> int (length buf)"
        using es Inr b p2 by (simp add: room_def IS_CUR_CAPACITY_ENOUGH_def)
      have "nat (current_out_buffer_position c2) = Suc ?n" by (simp only: p2 nat_int)
      then have cont: "take (Suc ?n) buf = 0 # content" using es w b by (simp add: written_def)
      then have d: "take ?n (drop 1 buf) = content" by (metis drop_take drop0 drop_Suc_Cons diff_Suc_1 One_nat_def)
      have "mem_copy buf (int ls) buf (int 1) (int ?n) = Some (take ls buf @ take ?n (drop 1 buf) @ drop (ls + ?n) buf)"
        unfolding mem_copy_nat using room by simp
      then have r: "r1 = Inr ()" "c1 = c2\<lparr>out_buffer := Some (take ls buf @ content @ drop (ls + ?n) buf)\<rparr>"
        using m ls1 ec Inr b d by (simp_all add: dx_move_message_data_def checked_def)
      then show ?thesis using b room es by (auto simp: wf_out_def)
    qed
  qed
  show ?thesis
  proof (cases r1)
    case (Inl err)
    then have "r = Inl err" using e fin m by (simp add: checked_def)
    then show ?thesis using moved Inl by simp
  next
    case (Inr u)
    then obtain buf where b: "out_buffer c1 = Some buf" "int (length buf) = out_buffer_length c1" "ls + ?n \<le> length buf"
       "out_buffer_length c1 \<le> INT_MAX" "take ?n (drop ls buf) = content" using moved by auto
    define c0 where "c0 = dx_set_out_buffer_position 0 c1"
    have wf0: "wf_out c0" using b by (simp add: wf_out_def c0_def dx_set_out_buffer_position_def)
    obtain r3 c3 where wr: "dx_write_compact_int mem v c0 = (r3, c3)" by fastforce
    have whole: "dx_finish_composing_message mem ctx =
        (case r3 of Inl err \<Rightarrow> (Inl err, c3) | Inr _ \<Rightarrow> (Inr (), dx_set_out_buffer_position (int ls + int ?n) c3))"
      unfolding fin using m Inr wr by (simp add: checked_def c0_def split: sum.splits)
    obtain r4 c4 where chk: "dx_check_write_possibility mem 5 c0 = (r4, c4)" by fastforce
    show ?thesis
    proof (cases r4)
      case (Inl err)
      then have "dx_write_compact_int mem v c0 = (Inl err, c4)" using chk by (simp add: dx_write_compact_int_def checked_def)
      then have "r = Inl err" using wr e whole by simp
      moreover have "err \<in> {dx_mec_insufficient_memory, dx_bioec_buffer_overflow}"
        using ensures_check [of 5 mem, unfolded ensures_def, rule_format, OF _ _ wf0 chk] Inl by simp
      ultimately show ?thesis by simp
    next
      case (Inr u)
      obtain pad where c4: "c4 = c0\<lparr>out_buffer := Some (buf @ pad), out_buffer_length := int (length (buf @ pad))\<rparr>"
          "5 \<le> length (buf @ pad)" "int (length (buf @ pad)) \<le> INT_MAX"
        by (rule check_extends [OF wf0 _ _ _ chk [unfolded Inr], of buf])
          (use b in \<open>simp_all add: c0_def dx_set_out_buffer_position_def\<close>)
      have "dx_check_write_possibility mem 5 c4 = (Inr (), c4)"
        using c4 by (simp add: dx_check_write_possibility_def IS_CUR_CAPACITY_ENOUGH_def c0_def dx_set_out_buffer_position_def)
      then have same: "dx_write_compact_int mem v c0 = dx_write_compact_int mem v c4"
        using chk Inr by (simp add: dx_write_compact_int_def checked_def)
      have "dx_write_compact_int mem v c4 = (Inr (), c4\<lparr>
         out_buffer := Some (take 0 (buf @ pad) @ compact_int_bytes v @ drop (0 + length (compact_int_bytes v)) (buf @ pad)),
         current_out_buffer_position := int (0 + length (compact_int_bytes v))\<rparr>)"
        by (rule stores_compact_int) (use c4 in \<open>simp_all add: c0_def dx_set_out_buffer_position_def\<close>)
      then have "r3 = Inr ()" and c3: "c3 = c4\<lparr>out_buffer := Some (compact_int_bytes v @ drop ls (buf @ pad)), current_out_buffer_position := int ls\<rparr>"
        using wr same by (simp_all add: ls_def)
      moreover have "take (ls + ?n) (compact_int_bytes v @ drop ls (buf @ pad)) = compact_int_bytes v @ content"
        using b(3,5) by (simp add: ls_def)
      ultimately show ?thesis
        using e whole c4 b l15
        by (auto simp: wf_out_def written_def dx_set_out_buffer_position_def nat_add_distrib v_def ls_def)
    qed
  qed
qed

lemma compose_spec:
  assumes wf: "wf_out ctx" and empty: "written ctx = []" and body: "sends need body bs" and n: "length bs < 2 ^ 28"
    and e: "checked (dx_compose_message_header mem type) (\<lambda>_. checked body (\<lambda>_. dx_finish_composing_message mem)) ctx = (r, ctx')"
  shows "case r of Inr _ \<Rightarrow> wf_out ctx' \<and> written ctx' = frame type bs
    | Inl err \<Rightarrow> err \<in> {dx_mec_insufficient_memory, dx_bioec_buffer_overflow}"
proof -
  have "sends (6 + need) (checked (dx_compose_message_header mem type) (\<lambda>_. body)) (([0] @ compact_int_bytes type) @ bs)"
    unfolding dx_compose_message_header_def
    by (rule sends_seq [OF sends_seq [OF sends_byte sends_compact_int, where need = 6] body])
      (use length_compact_int_bytes(2) [of type] in simp_all)
  note s = this [unfolded sends_def, rule_format, OF wf]
  obtain r1 c1 where h: "checked (dx_compose_message_header mem type) (\<lambda>_. body) ctx = (r1, c1)" by fastforce
  have e': "checked (checked (dx_compose_message_header mem type) (\<lambda>_. body)) (\<lambda>_. dx_finish_composing_message mem) ctx = (r, ctx')"
    using e by (simp add: checked_assoc)
  show ?thesis
  proof (cases r1)
    case (Inl err)
    with e' h s [OF h] show ?thesis by (auto simp: checked_def)
  next
    case (Inr u)
    then have f: "dx_finish_composing_message mem c1 = (r, ctx')" using e' h by (simp add: checked_def)
    have w: "wf_out c1" "written c1 = 0 # (compact_int_bytes type @ bs)" using s [OF h] Inr empty by simp_all
    have "length (compact_int_bytes type @ bs) < 2 ^ 29" using n length_compact_int_bytes(2) [of type] by simp
    from finish_spec [OF w this f] show ?thesis unfolding frame_def Let_def .
  qed
qed

end
