(* ===== verification/Dx_Properties.thy ===== *)
theory Dx_Properties
  imports Dx_Array "HOL-Library.List_Lexorder"
begin

text \<open>
  \<open>src/DXProperties.c\<close>: maps from strings to strings in an array sorted by the keys, over the macros of
  \<open>Dx_Array\<close>, and their refinement of finite maps.
\<close>

section \<open>Strings\<close>

text \<open>A string is its characters before the terminator; \<open>wcscmp\<close> orders strings lexicographically.\<close>

fun dx_compare_strings :: "dxf_char list \<Rightarrow> dxf_char list \<Rightarrow> int" where
  "dx_compare_strings [] [] = 0"
| "dx_compare_strings [] (_ # _) = - 1"
| "dx_compare_strings (_ # _) [] = 1"
| "dx_compare_strings (x # xs) (y # ys) = (if x < y then - 1 else if y < x then 1 else dx_compare_strings xs ys)"

lemma compare_strings_less: "dx_compare_strings s t < 0 \<longleftrightarrow> s < t"
  by (induction s t rule: dx_compare_strings.induct) (auto simp: list_less_def not_less)

lemma compare_strings_eq: "dx_compare_strings s t = 0 \<longleftrightarrow> s = t"
  by (induction s t rule: dx_compare_strings.induct) auto

text \<open>\<open>dx_compare_strings_num\<close> compares at most \<open>n\<close> characters.\<close>

definition dx_compare_strings_num :: "dxf_char list \<Rightarrow> dxf_char list \<Rightarrow> nat \<Rightarrow> int" where
  "dx_compare_strings_num s t n = dx_compare_strings (take n s) (take n t)"

definition dx_create_string_src :: "(nat \<Rightarrow> bool) \<Rightarrow> dxf_char list \<Rightarrow> dxf_char list option" where
  "dx_create_string_src mem src = (if mem (length src + 1) then Some src else None)"

definition dx_create_empty_string :: "(nat \<Rightarrow> bool) \<Rightarrow> dxf_char list option" where
  "dx_create_empty_string mem = (if mem 1 then Some [] else None)"

section \<open>Property maps\<close>

text \<open>\<open>None\<close> is the null pointer.\<close>

record property_item =
  item_key :: "dxf_char list option"
  item_value :: "dxf_char list option"

type_synonym property_map = "property_item dx_array"

definition null_item :: property_item where "null_item = \<lparr>item_key = None, item_value = None\<rparr>"

text \<open>
  A comparison with a null key is undefined.  The model answers 0 there, so that a search stops at the
  null key, and \<open>search_item\<close> reports the undefined access.
\<close>

definition dx_property_item_comparator :: "property_item \<Rightarrow> property_item \<Rightarrow> int" where
  "dx_property_item_comparator item1 item2 =
     (case (item_key item1, item_key item2) of
        (Some key1, Some key2) \<Rightarrow> dx_compare_strings key1 key2
      | _ \<Rightarrow> 0)"

definition search_item :: "property_map \<Rightarrow> property_item \<Rightarrow> dx_error + bool \<times> nat" where
  "search_item props item =
     (case DX_ARRAY_BINARY_SEARCH (elements props) 0 (arr_size props) item dx_property_item_comparator of
        (found, index) \<Rightarrow> if found \<and> item_key (elements props ! index) = None then Inl UB else Inr (found, index))"

definition dx_property_map_free_collection :: "property_map \<Rightarrow> property_map" where
  "dx_property_map_free_collection props = \<lparr>elements = [], arr_size = 0, capacity = 0\<rparr>"

definition copy_value :: "(nat \<Rightarrow> bool) \<Rightarrow> dxf_char list \<Rightarrow> dxf_char list option" where
  "copy_value mem v = (if length v > 0 then dx_create_string_src mem v else dx_create_empty_string mem)"

definition dx_property_map_set ::
  "(nat \<Rightarrow> bool) \<Rightarrow> dxf_char list option \<Rightarrow> dxf_char list option \<Rightarrow> (property_map, unit) io" where
  "dx_property_map_set mem key_arg value_arg = (\<lambda>props.
     case (key_arg, value_arg) of
       (Some k, Some v) \<Rightarrow>
         (case search_item props \<lparr>item_key = key_arg, item_value = value_arg\<rparr> of
            Inl e \<Rightarrow> (Inl e, props)
          | Inr (True, index) \<Rightarrow>
              (case item_value (elements props ! index) of
                 None \<Rightarrow> (Inl UB, props)
               | Some old \<Rightarrow>
                   if dx_compare_strings old v = 0 then (Inr (), props)
                   else (case copy_value mem v of
                     None \<Rightarrow> (Inl dx_mec_insufficient_memory, props)
                   | Some value_copy \<Rightarrow>
                       (Inr (), props\<lparr>elements := (elements props)
                          [index := (elements props ! index)\<lparr>item_value := Some value_copy\<rparr>]\<rparr>)))
          | Inr (False, index) \<Rightarrow>
              (case (dx_create_string_src mem k, copy_value mem v) of
                 (Some key_copy, Some value_copy) \<Rightarrow>
                   DX_ARRAY_INSERT mem null_item \<lparr>item_key = Some key_copy, item_value = Some value_copy\<rparr>
                     index dx_capacity_manager_halfer props
               | _ \<Rightarrow> (Inl dx_mec_insufficient_memory, props)))
     | _ \<Rightarrow> (Inl dx_ec_invalid_func_param, props))"

text \<open>\<open>dx_string_length\<close> of a null string is undefined.\<close>

fun clone_items :: "(nat \<Rightarrow> bool) \<Rightarrow> property_item list \<Rightarrow> property_item list option" where
  "clone_items mem [] = Some []"
| "clone_items mem (item # items) =
     (case (item_key item, item_value item) of
        (Some k, Some v) \<Rightarrow>
          map_option ((#) \<lparr>item_key = dx_create_string_src mem k, item_value = dx_create_string_src mem v\<rparr>)
            (clone_items mem items)
      | _ \<Rightarrow> None)"

definition dx_property_map_clone :: "(nat \<Rightarrow> bool) \<Rightarrow> property_map \<Rightarrow> (property_map, unit) io" where
  "dx_property_map_clone mem src = (\<lambda>dest.
     case DX_ARRAY_RESERVE mem null_item (arr_size src) (dx_property_map_free_collection dest) of
       (Inl e, dest) \<Rightarrow> (Inl e, dest)
     | (Inr _, dest) \<Rightarrow>
         (case clone_items mem (contents src) of
            None \<Rightarrow> (Inl UB, dest)
          | Some items \<Rightarrow> (Inr (), dest\<lparr>elements := items @ drop (length items) (elements dest)\<rparr>)))"

fun set_items :: "(nat \<Rightarrow> bool) \<Rightarrow> property_item list \<Rightarrow> (property_map, unit) io" where
  "set_items mem [] = return ()"
| "set_items mem (item # items) =
     checked (dx_property_map_set mem (item_key item) (item_value item)) (\<lambda>_. set_items mem items)"

definition dx_property_map_set_many :: "(nat \<Rightarrow> bool) \<Rightarrow> property_map \<Rightarrow> (property_map, unit) io" where
  "dx_property_map_set_many mem other = (\<lambda>props.
     case dx_property_map_clone mem props \<lparr>elements = [], arr_size = 0, capacity = 0\<rparr> of
       (Inl e, _) \<Rightarrow> (Inl e, props)
     | (Inr _, temp) \<Rightarrow>
         (case set_items mem (contents other) temp of
            (Inl e, _) \<Rightarrow> (Inl e, props)
          | (Inr _, temp) \<Rightarrow> (Inr (), \<lparr>elements = elements temp, arr_size = arr_size temp, capacity = capacity temp\<rparr>)))"

definition dx_property_map_contains :: "property_map \<Rightarrow> dxf_char list option \<Rightarrow> dx_error + bool" where
  "dx_property_map_contains props key_arg =
     (if key_arg = None then Inl dx_ec_invalid_func_param
      else map_sum id fst (search_item props \<lparr>item_key = key_arg, item_value = None\<rparr>))"

text \<open>The result: \<open>None\<close> when the key is not in the map, otherwise the pointer to its value.\<close>

definition dx_property_map_try_get_value ::
  "property_map \<Rightarrow> dxf_char list option \<Rightarrow> dx_error + dxf_char list option option" where
  "dx_property_map_try_get_value props key_arg =
     (if key_arg = None then Inl dx_ec_invalid_func_param
      else case search_item props \<lparr>item_key = key_arg, item_value = None\<rparr> of
        Inl e \<Rightarrow> Inl e
      | Inr (found, index) \<Rightarrow> Inr (if found then Some (item_value (elements props ! index)) else None))"

section \<open>Refinement of finite maps\<close>

definition has_strings :: "property_item \<Rightarrow> bool" where
  "has_strings item \<longleftrightarrow> item_key item \<noteq> None \<and> item_value item \<noteq> None"

definition key_string :: "property_item \<Rightarrow> dxf_char list" where "key_string item = the (item_key item)"
definition value_string :: "property_item \<Rightarrow> dxf_char list" where "value_string item = the (item_value item)"

definition wf_props :: "property_map \<Rightarrow> bool" where
  "wf_props props \<longleftrightarrow> wf_array props \<and> sorted_wrt (\<lambda>x y. key_string x < key_string y) (contents props)
     \<and> (\<forall>item \<in> set (contents props). has_strings item)"

definition item_map :: "property_item list \<Rightarrow> dxf_char list \<rightharpoonup> dxf_char list" where
  "item_map items = map_of (map (\<lambda>item. (key_string item, value_string item)) items)"

abbreviation props_map :: "property_map \<Rightarrow> dxf_char list \<rightharpoonup> dxf_char list" where
  "props_map props \<equiv> item_map (contents props)"

interpretation property_search: search_order dx_property_item_comparator key_string key_string has_strings "\<lambda>item. item_key item \<noteq> None"
  by unfold_locales (auto simp: dx_property_item_comparator_def has_strings_def key_string_def compare_strings_eq compare_strings_less)

lemma property_keys_distinct: "sorted_wrt (\<lambda>x y. key_string x < key_string y) items \<Longrightarrow> distinct (map key_string items)"
  by (induction items) auto

lemma item_map_insert:
  assumes "\<forall>x \<in> set (take p items). key_string x \<noteq> key_string item"
  shows "item_map (take p items @ item # drop p items) = (item_map items)(key_string item \<mapsto> value_string item)"
proof -
  have n: "map_of (map (\<lambda>i. (key_string i, value_string i)) (take p items)) (key_string item) = None"
    using assms by (force simp: map_of_eq_None_iff)
  have "item_map items = map_of (map (\<lambda>i. (key_string i, value_string i)) (take p items @ drop p items))"
    by (simp add: item_map_def)
  then have s: "item_map items = map_of (map (\<lambda>i. (key_string i, value_string i)) (drop p items)) ++
      map_of (map (\<lambda>i. (key_string i, value_string i)) (take p items))"
    by (simp only: map_append map_of_append)
  show ?thesis unfolding s using n by (auto simp: item_map_def map_add_def fun_eq_iff split: option.splits)
qed

lemma sorted_insert:
  assumes "sorted_wrt (\<lambda>x y. key_string x < key_string y) items"
    and "\<forall>x \<in> set (take p items). key_string x < key_string item" "\<forall>x \<in> set (drop p items). key_string item < key_string x"
  shows "sorted_wrt (\<lambda>x y. key_string x < key_string y) (take p items @ item # drop p items)"
proof -
  have "sorted_wrt (\<lambda>x y. key_string x < key_string y) (take p items @ drop p items)" using assms(1) by simp
  then show ?thesis using assms(2,3) by (auto simp: sorted_wrt_append simp del: append_take_drop_id)
qed

lemma sorted_update_key:
  assumes "sorted_wrt (\<lambda>x y. key_string x < key_string y) items" "i < length items" "key_string item = key_string (items ! i)"
  shows "sorted_wrt (\<lambda>x y. key_string x < key_string y) (items[i := item])"
proof -
  have "map key_string (items[i := item]) = map key_string items" using assms(2,3) by (auto simp: map_update list_update_same_conv)
  then show ?thesis using assms(1) by (metis sorted_wrt_map)
qed

lemma search_item_spec:
  assumes wf: "wf_props props" and k: "item_key item = Some k"
  obtains found index where "search_item props item = Inr (found, index)" "index \<le> arr_size props"
    "found \<longrightarrow> index < arr_size props \<and> key_string (contents props ! index) = k \<and> elements props ! index = contents props ! index"
    "\<not> found \<longrightarrow> (\<forall>x \<in> set (take index (contents props)). key_string x < k) \<and> (\<forall>x \<in> set (drop index (contents props)). k < key_string x)"
proof -
  obtain found index where d: "DX_ARRAY_BINARY_SEARCH (elements props) 0 (arr_size props) item dx_property_item_comparator = (found, index)"
    by fastforce
  have w: "wf_array props" "sorted_wrt (\<lambda>x y. key_string x < key_string y) (contents props)"
    "\<forall>x \<in> set (contents props). has_strings x" using wf by (simp_all add: wf_props_def)
  have vk: "item_key item \<noteq> None" using k by simp
  have ks: "key_string item = k" using k by (simp add: key_string_def)
  note s = property_search.search_list [OF w(2,3) vk length_contents [OF w(1), symmetric] contents_def [symmetric] d, unfolded ks]
  have f: "index < arr_size props \<and> key_string (contents props ! index) = k \<and> elements props ! index = contents props ! index
      \<and> item_key (elements props ! index) \<noteq> None" if found
  proof -
    have x: "index < arr_size props" "key_string (contents props ! index) = k" using s(1) [OF that] by simp_all
    then have e: "elements props ! index = contents props ! index" by (simp add: contents_def)
    have "has_strings (contents props ! index)" using w(3) x(1) length_contents [OF w(1)] nth_mem by metis
    with x e show ?thesis by (simp add: has_strings_def)
  qed
  show thesis
  proof (rule that [of found index])
    show "search_item props item = Inr (found, index)" using d f by (auto simp: search_item_def)
    show "index \<le> arr_size props" using f s(2) by (cases found) simp_all
    show "found \<longrightarrow> index < arr_size props \<and> key_string (contents props ! index) = k \<and> elements props ! index = contents props ! index"
      using f by blast
  qed (use s(2) in blast)
qed

lemma set_spec:
  assumes wf: "wf_props props" and e: "dx_property_map_set mem (Some k) (Some v) props = (r, props')"
  shows "case r of Inr _ \<Rightarrow> wf_props props' \<and> props_map props' = (props_map props)(k \<mapsto> v)
    | Inl err \<Rightarrow> err = dx_mec_insufficient_memory \<and> contents props' = contents props"
proof -
  let ?item = "\<lparr>item_key = Some k, item_value = Some v\<rparr>"
  have w: "wf_array props" "sorted_wrt (\<lambda>x y. key_string x < key_string y) (contents props)"
    "\<forall>x \<in> set (contents props). has_strings x" using wf by (simp_all add: wf_props_def)
  note lc = length_contents [OF w(1)]
  obtain found index where s: "search_item props ?item = Inr (found, index)" "index \<le> arr_size props"
    "found \<longrightarrow> index < arr_size props \<and> key_string (contents props ! index) = k \<and> elements props ! index = contents props ! index"
    "\<not> found \<longrightarrow> (\<forall>x \<in> set (take index (contents props)). key_string x < k) \<and> (\<forall>x \<in> set (drop index (contents props)). k < key_string x)"
    using search_item_spec [OF wf, of ?item k] by auto
  show ?thesis
  proof (cases found)
    case True
    let ?x = "contents props ! index"
    have x: "index < arr_size props" "key_string ?x = k" "elements props ! index = ?x" using s(3) True by simp_all
    have mem_x: "?x \<in> set (contents props)" using x(1) lc by simp
    then obtain old where old: "item_value ?x = Some old" using w(3) by (auto simp: has_strings_def)
    have kx: "item_key ?x = Some k" using w(3) mem_x x(2) by (auto simp: has_strings_def key_string_def)
    note d = property_keys_distinct [OF w(2)]
    show ?thesis
    proof (cases "old = v")
      case True
      have "props_map props k = Some v"
        using map_of_distinct_update [OF d, of index ?x value_string] x lc old True
        by (auto simp: item_map_def value_string_def fun_eq_iff fun_upd_def split: if_splits)
      then show ?thesis using e s(1) \<open>found\<close> x(3) old True wf
        by (auto simp: dx_property_map_set_def compare_strings_eq fun_upd_idem)
    next
      case False
      let ?y = "?x\<lparr>item_value := Some v\<rparr>"
      have y: "key_string ?y = key_string ?x" "value_string ?y = v" "has_strings ?y"
        using kx by (simp_all add: key_string_def value_string_def has_strings_def)
      let ?p = "props\<lparr>elements := (elements props)[index := ?y]\<rparr>"
      have c: "contents ?p = (contents props)[index := ?y]" by (simp add: contents_def take_update_swap)
      have "wf_props ?p" using w y sorted_update_key [OF w(2), of index ?y] x(1) lc c
        by (auto simp: wf_props_def wf_array_def dest!: set_update_subset_insert [THEN subsetD])
      moreover have "props_map ?p = (props_map props)(k \<mapsto> v)"
        using map_of_distinct_update [OF d, of index ?y value_string] x(1,2) lc y c by (simp add: item_map_def)
      moreover have "copy_value mem v = None \<or> copy_value mem v = Some v"
        by (auto simp: copy_value_def dx_create_string_src_def dx_create_empty_string_def)
      ultimately show ?thesis using e s(1) \<open>found\<close> x(3) old False
        by (auto simp: dx_property_map_set_def compare_strings_eq split: if_splits)
    qed
  next
    case False
    have cv: "dx_create_string_src mem k = None \<or> dx_create_string_src mem k = Some k" "copy_value mem v = None \<or> copy_value mem v = Some v"
      by (auto simp: copy_value_def dx_create_string_src_def dx_create_empty_string_def)
    show ?thesis
    proof (cases "dx_create_string_src mem k = Some k \<and> copy_value mem v = Some v")
      case f: False
      then show ?thesis using e s(1) \<open>\<not> found\<close> cv by (auto simp: dx_property_map_set_def)
    next
      case True
      have i: "DX_ARRAY_INSERT mem null_item ?item index dx_capacity_manager_halfer props = (r, props')"
        using e s(1) False True by (simp add: dx_property_map_set_def)
      note sp = halfer.insert_spec [OF w(1) s(2) i]
      show ?thesis
      proof (cases r)
        case (Inl err)
        then show ?thesis using sp by (simp add: contents_def)
      next
        case (Inr u)
        have it: "key_string ?item = k" "value_string ?item = v" "has_strings ?item"
          by (simp_all add: key_string_def value_string_def has_strings_def)
        have c: "wf_array props'" "contents props' = take index (contents props) @ ?item # drop index (contents props)"
          using sp Inr by simp_all
        have lt: "\<forall>x \<in> set (take index (contents props)). key_string x < key_string ?item"
          "\<forall>x \<in> set (drop index (contents props)). key_string ?item < key_string x" using s(4) False it(1) by simp_all
        have "wf_props props'" unfolding wf_props_def c(2) using c(1) sorted_insert [OF w(2) lt] w(3) it(3)
          by (auto dest: in_set_takeD in_set_dropD)
        moreover have "props_map props' = (props_map props)(k \<mapsto> v)"
          unfolding c(2) using item_map_insert [of index "contents props" ?item] lt(1) it by fastforce
        ultimately show ?thesis using Inr by simp
      qed
    qed
  qed
qed

lemma lookup_spec:
  assumes wf: "wf_props props"
  shows "dx_property_map_try_get_value props (Some k) = Inr (map_option Some (props_map props k))"
    "dx_property_map_contains props (Some k) = Inr (k \<in> dom (props_map props))"
proof -
  let ?item = "\<lparr>item_key = Some k, item_value = None\<rparr>"
  have w: "wf_array props" "sorted_wrt (\<lambda>x y. key_string x < key_string y) (contents props)"
    "\<forall>x \<in> set (contents props). has_strings x" using wf by (simp_all add: wf_props_def)
  note lc = length_contents [OF w(1)] and d = property_keys_distinct [OF w(2)]
  obtain found index where s: "search_item props ?item = Inr (found, index)" "index \<le> arr_size props"
    "found \<longrightarrow> index < arr_size props \<and> key_string (contents props ! index) = k \<and> elements props ! index = contents props ! index"
    "\<not> found \<longrightarrow> (\<forall>x \<in> set (take index (contents props)). key_string x < k) \<and> (\<forall>x \<in> set (drop index (contents props)). k < key_string x)"
    using search_item_spec [OF wf, of ?item k] by auto
  have "if found then props_map props k = Some (value_string (contents props ! index)) \<and> has_strings (contents props ! index)
      else props_map props k = None"
  proof (cases found)
    case True
    then have "index < length (contents props)" "key_string (contents props ! index) = k" using s(3) lc by simp_all
    then show ?thesis using True map_of_distinct_update [OF d, of index "contents props ! index" value_string] w(3)
      by (auto simp: item_map_def fun_eq_iff fun_upd_def split: if_splits)
  next
    case False
    have "key_string x \<noteq> k" if "x \<in> set (contents props)" for x
    proof -
      from that have "x \<in> set (take index (contents props) @ drop index (contents props))" by simp
      then show ?thesis using s(4) False by (auto simp del: append_take_drop_id)
    qed
    then show ?thesis using False by (force simp: item_map_def map_of_eq_None_iff)
  qed
  then show "dx_property_map_try_get_value props (Some k) = Inr (map_option Some (props_map props k))"
    "dx_property_map_contains props (Some k) = Inr (k \<in> dom (props_map props))"
    using s(1,3) by (auto simp: dx_property_map_try_get_value_def dx_property_map_contains_def has_strings_def value_string_def split: if_splits)
qed

lemma wf_props_empty: "wf_props \<lparr>elements = [], arr_size = 0, capacity = 0\<rparr>" "props_map \<lparr>elements = [], arr_size = 0, capacity = 0\<rparr> = Map.empty"
  by (simp_all add: wf_props_def wf_array_def contents_def item_map_def)

lemma clone_items_spec: "\<forall>x \<in> set items. has_strings x \<Longrightarrow> clone_items (\<lambda>_. True) items = Some items"
  by (induction items) (auto simp: has_strings_def dx_create_string_src_def)

lemma clone_spec:
  assumes wf: "wf_props src"
  shows "\<exists>dest'. dx_property_map_clone (\<lambda>_. True) src dest = (Inr (), dest') \<and> wf_props dest' \<and> contents dest' = contents src"
proof -
  have w: "wf_array src" "\<forall>x \<in> set (contents src). has_strings x" using wf by (simp_all add: wf_props_def)
  note lc = length_contents [OF w(1)]
  note ci = clone_items_spec [OF w(2)]
  let ?d = "\<lparr>elements = contents src, arr_size = arr_size src, capacity = arr_size src\<rparr>"
  have "dx_property_map_clone (\<lambda>_. True) src dest = (Inr (), ?d)"
  proof (cases "arr_size src = 0")
    case True
    then show ?thesis using ci lc
      by (simp add: dx_property_map_clone_def DX_ARRAY_RESERVE_def dx_property_map_free_collection_def)
  next
    case False
    have "mem_copy (replicate (arr_size src) null_item) 0 [] 0 0 = Some (replicate (arr_size src) null_item)"
      by (simp add: mem_copy_def)
    then show ?thesis using False ci lc
      by (simp add: dx_property_map_clone_def DX_ARRAY_RESERVE_def dx_property_map_free_collection_def)
  qed
  moreover have "contents ?d = contents src" using lc by (simp add: contents_def [of ?d])
  moreover have "wf_props ?d" using wf lc calculation(2) by (simp add: wf_props_def wf_array_def)
  ultimately show ?thesis by blast
qed

lemma set_succeeds:
  assumes "wf_props props"
  shows "\<exists>props'. dx_property_map_set (\<lambda>_. True) (Some k) (Some v) props = (Inr (), props')"
proof -
  obtain r props' where e: "dx_property_map_set (\<lambda>_. True) (Some k) (Some v) props = (r, props')" by fastforce
  note sp = set_spec [OF assms e]
  have "r \<noteq> Inl dx_mec_insufficient_memory"
    using e by (auto simp: dx_property_map_set_def DX_ARRAY_INSERT_def dx_create_string_src_def copy_value_def
        dx_create_empty_string_def search_item_def Let_def split: sum.splits prod.splits option.splits if_splits bool.splits)
  then show ?thesis using sp e by (cases r) auto
qed

lemma set_items_spec:
  assumes "wf_props props" "\<forall>x \<in> set items. has_strings x" "distinct (map key_string items)"
  shows "\<exists>props'. set_items (\<lambda>_. True) items props = (Inr (), props') \<and> wf_props props' \<and> props_map props' = props_map props ++ item_map items"
  using assms
proof (induction items arbitrary: props)
  case Nil
  then show ?case by (simp add: io_simps item_map_def)
next
  case (Cons x xs)
  obtain k v where x: "item_key x = Some k" "item_value x = Some v" using Cons.prems(2) by (auto simp: has_strings_def)
  obtain p where p: "dx_property_map_set (\<lambda>_. True) (Some k) (Some v) props = (Inr (), p)"
    using set_succeeds [OF Cons.prems(1)] by blast
  have w: "wf_props p" "props_map p = (props_map props)(k \<mapsto> v)" using set_spec [OF Cons.prems(1) p] by simp_all
  from Cons.IH [OF w(1)] Cons.prems obtain p' where p': "set_items (\<lambda>_. True) xs p = (Inr (), p')" "wf_props p'"
    "props_map p' = props_map p ++ item_map xs" by auto
  have ks: "key_string x = k" "value_string x = v" using x by (simp_all add: key_string_def value_string_def)
  have "item_map xs k = None" using Cons.prems(3) ks by (force simp: item_map_def map_of_eq_None_iff)
  then have "props_map p ++ item_map xs = props_map props ++ item_map (x # xs)"
    using w(2) ks by (auto simp: item_map_def map_add_def fun_eq_iff split: option.splits)
  then show ?case using p x p' by (auto simp: io_simps)
qed

lemma set_many_spec:
  assumes "wf_props props" "wf_props other"
  shows "\<exists>props'. dx_property_map_set_many (\<lambda>_. True) other props = (Inr (), props') \<and> wf_props props'
    \<and> props_map props' = props_map props ++ props_map other"
proof -
  obtain t where t: "dx_property_map_clone (\<lambda>_. True) props \<lparr>elements = [], arr_size = 0, capacity = 0\<rparr> = (Inr (), t)" "wf_props t"
    "contents t = contents props" using clone_spec [OF assms(1)] by blast
  have o: "\<forall>x \<in> set (contents other). has_strings x" "distinct (map key_string (contents other))"
    using assms(2) property_keys_distinct by (auto simp: wf_props_def)
  from set_items_spec [OF t(2) o] obtain p where p: "set_items (\<lambda>_. True) (contents other) t = (Inr (), p)" "wf_props p"
    "props_map p = props_map t ++ props_map other" by blast
  have "wf_props \<lparr>elements = elements p, arr_size = arr_size p, capacity = capacity p\<rparr> = wf_props p"
    "contents \<lparr>elements = elements p, arr_size = arr_size p, capacity = capacity p\<rparr> = contents p"
    by (simp_all add: wf_props_def wf_array_def contents_def)
  then show ?thesis using t p by (simp add: dx_property_map_set_many_def)
qed

text \<open>
  Cloning does not check the allocations of the strings: after a failed one the copy holds a null key,
  and the next search compares with it.
\<close>

lemma clone_unchecked:
  "let src = \<lparr>elements = [\<lparr>item_key = Some [0x61], item_value = Some [0x31]\<rparr>], arr_size = 1, capacity = 1\<rparr>;
       (r, dest) = dx_property_map_clone (\<lambda>n. n \<le> 1) src \<lparr>elements = [], arr_size = 0, capacity = 0\<rparr>
   in r = Inr () \<and> dx_property_map_contains dest (Some [0x61]) = Inl UB"
  by code_simp

text \<open>
  An empty key is a key like every other, although \<open>properties_map_set_empty_test\<close> of
  \<open>tests/UnitTests/AlgorithmsTest.c\<close> expects that it is refused: \<open>dx_create_string_src\<close> copies the
  empty string, and \<open>dx_property_map_set\<close> tests only for null pointers.
\<close>

lemma empty_key_accepted:
  "let (r, props) = dx_property_map_set (\<lambda>_. True) (Some []) (Some [0x41]) \<lparr>elements = [], arr_size = 0, capacity = 0\<rparr>
   in r = Inr () \<and> dx_property_map_try_get_value props (Some []) = Inr (Some (Some [0x41]))"
  by code_simp

section \<open>Properties\<close>

text \<open>
  C19: A property map is a finite map from keys to values, the empty string being a key too: setting a
  value, setting the values of another map and the lookups are the operations on the abstract map, and
  the array stays sorted by its keys, without null strings.  An allocation that fails is reported and leaves the content.
\<close>

theorem property_map_refines:
  assumes "wf_props props" "wf_props other"
  shows "(case dx_property_map_set mem (Some k) (Some v) props of
       (Inr _, props') \<Rightarrow> wf_props props' \<and> props_map props' = (props_map props)(k \<mapsto> v)
     | (Inl err, props') \<Rightarrow> err = dx_mec_insufficient_memory \<and> props_map props' = props_map props)
    \<and> (case dx_property_map_set_many (\<lambda>_. True) other props of
       (Inr _, props') \<Rightarrow> wf_props props' \<and> props_map props' = props_map props ++ props_map other
     | (Inl err, props') \<Rightarrow> False)
    \<and> dx_property_map_try_get_value props (Some k) = Inr (map_option Some (props_map props k))
    \<and> dx_property_map_contains props (Some k) = Inr (k \<in> dom (props_map props))"
proof -
  obtain r p where e: "dx_property_map_set mem (Some k) (Some v) props = (r, p)" by fastforce
  obtain q where q: "dx_property_map_set_many (\<lambda>_. True) other props = (Inr (), q)" "wf_props q"
    "props_map q = props_map props ++ props_map other" using set_many_spec [OF assms] by blast
  show ?thesis using set_spec [OF assms(1) e] e q lookup_spec [OF assms(1)] by (cases r) simp_all
qed

theorem property_map_refines_witness:
  "dx_property_map_try_get_value (snd (dx_property_map_set (\<lambda>_. True) (Some [0x61]) (Some [0x31]) \<lparr>elements = [], arr_size = 0, capacity = 0\<rparr>))
     (Some [0x61]) = Inr (Some (Some [0x31]))"
proof -
  let ?empty = "\<lparr>elements = [], arr_size = 0, capacity = 0\<rparr> :: property_map"
  let ?p = "snd (dx_property_map_set (\<lambda>_. True) (Some [0x61]) (Some [0x31]) ?empty)"
  have "fst (dx_property_map_set (\<lambda>_. True) (Some [0x61]) (Some [0x31]) ?empty) = Inr ()" by code_simp
  then obtain p where p: "dx_property_map_set (\<lambda>_. True) (Some [0x61]) (Some [0x31]) ?empty = (Inr (), p)" "?p = p"
    by (cases "dx_property_map_set (\<lambda>_. True) (Some [0x61]) (Some [0x31]) ?empty") auto
  have w: "wf_props p" "props_map p = (props_map ?empty)([0x61] \<mapsto> [0x31])"
    using property_map_refines [OF wf_props_empty(1) wf_props_empty(1), where mem = "\<lambda>_. True" and k = "[0x61]" and v = "[0x31]"]
    unfolding p(1) by simp_all
  show ?thesis unfolding p(2)
    using property_map_refines [OF w(1) w(1), where mem = "\<lambda>_. True" and k = "[0x61]" and v = "[]"] w(2) by simp
qed

end
