(* ===== verification/Dx_Fields.thy ===== *)
theory Dx_Fields
  imports Dx_Prelude
begin

text \<open>
  The fields of records: the field types of \<open>src/DataStructures.h\<close>, the tables of the fields of each kind
  of record (\<open>src/DataStructures.c\<close>) with the accessors of \<open>src/RecordFieldSetters.c\<close>.
\<close>

section \<open>Strings and division\<close>

definition wide :: "string \<Rightarrow> dxf_char list" where "wide s = map of_char s"

text \<open>The operators \<open>/\<close> and \<open>%\<close> of C round towards zero.\<close>

definition c_div :: "int \<Rightarrow> int \<Rightarrow> int" where
  "c_div a b = (if 0 \<le> a then a div b else - ((- a) div b))"

definition c_mod :: "int \<Rightarrow> int \<Rightarrow> int" where
  "c_mod a b = (if 0 \<le> a then a mod b else - ((- a) mod b))"

section \<open>Field types\<close>

text \<open>A field type has the serialization in its low half and the representation in its high half.\<close>

definition dx_fid_void :: int32 where "dx_fid_void = 0"
definition dx_fid_byte :: int32 where "dx_fid_byte = 1"
definition dx_fid_utf_char :: int32 where "dx_fid_utf_char = 2"
definition dx_fid_short :: int32 where "dx_fid_short = 3"
definition dx_fid_int :: int32 where "dx_fid_int = 4"
definition dx_fid_compact_int :: int32 where "dx_fid_compact_int = 8"
definition dx_fid_byte_array :: int32 where "dx_fid_byte_array = 9"
definition dx_fid_utf_char_array :: int32 where "dx_fid_utf_char_array = 10"
definition dx_fid_flag_int :: int32 where "dx_fid_flag_int = 0x00"
definition dx_fid_flag_decimal :: int32 where "dx_fid_flag_decimal = 0x10"
definition dx_fid_flag_short_string :: int32 where "dx_fid_flag_short_string = 0x20"
definition dx_fid_flag_time_seconds :: int32 where "dx_fid_flag_time_seconds = 0x30"
definition dx_fid_flag_sequence :: int32 where "dx_fid_flag_sequence = 0x40"
definition dx_fid_flag_date :: int32 where "dx_fid_flag_date = 0x50"
definition dx_fid_flag_long :: int32 where "dx_fid_flag_long = 0x60"
definition dx_fid_flag_wide_decimal :: int32 where "dx_fid_flag_wide_decimal = 0x70"
definition dx_fid_flag_string :: int32 where "dx_fid_flag_string = 0x80"
definition dx_fid_flag_time_millis :: int32 where "dx_fid_flag_time_millis = 0x90"
definition dx_fid_flag_time_nanos :: int32 where "dx_fid_flag_time_nanos = 0xa0"
definition dx_fid_flag_custom_object :: int32 where "dx_fid_flag_custom_object = 0xe0"
definition dx_fid_flag_serial_object :: int32 where "dx_fid_flag_serial_object = 0xf0"
definition dx_fid_mask_serialization :: int32 where "dx_fid_mask_serialization = 0x0f"
definition dx_fid_mask_representation :: int32 where "dx_fid_mask_representation = 0xf0"

section \<open>Accessors\<close>

text \<open>
  The C types that the accessors of fields are made for; \<open>dxf_dayid_t\<close> is \<open>int\<close>.  The setter of a field
  reads a value of type \<open>setter_type\<close> and assigns it to the member of the record, the getter stores
  the member as a value of type \<open>getter_type\<close>, the type of the member.
\<close>

datatype c_type = T_char | T_int | T_long | T_double | T_string | T_byte_array

datatype dx_field_time = dx_ft_common_field | dx_ft_first_time_int_field | dx_ft_second_time_int_field

record dx_field_info =
  field_type :: int32
  field_name :: "dxf_char list"
  field_member :: string
  setter_type :: c_type
  getter_type :: c_type
  field_time :: dx_field_time

definition field_info :: "int32 \<Rightarrow> string \<Rightarrow> string \<Rightarrow> c_type \<Rightarrow> c_type \<Rightarrow> dx_field_time \<Rightarrow> dx_field_info" where
  "field_info type name member setter getter part = \<lparr>field_type = type, field_name = wide name, field_member = member,
     setter_type = setter, getter_type = getter, field_time = part\<rparr>"

section \<open>The tables\<close>

definition dx_fields_trade :: "dx_field_info list" where
  "dx_fields_trade =
    [field_info (dx_fid_compact_int) ''Last.Time'' ''time'' T_int T_int dx_ft_common_field,
     field_info (dx_fid_compact_int) ''Last.Sequence'' ''sequence'' T_int T_int dx_ft_common_field,
     field_info (dx_fid_compact_int) ''Last.TimeNanoPart'' ''time_nanos'' T_int T_int dx_ft_common_field,
     field_info (dx_fid_utf_char) ''Last.Exchange'' ''exchange_code'' T_char T_char dx_ft_common_field,
     field_info (dx_fid_compact_int OR dx_fid_flag_wide_decimal) ''Last.Price'' ''price'' T_double T_double dx_ft_common_field,
     field_info (dx_fid_compact_int OR dx_fid_flag_wide_decimal) ''Last.Size'' ''size'' T_double T_double dx_ft_common_field,
     field_info (dx_fid_compact_int) ''Last.Tick'' ''tick'' T_int T_int dx_ft_common_field,
     field_info (dx_fid_compact_int OR dx_fid_flag_wide_decimal) ''Last.Change'' ''change'' T_double T_double dx_ft_common_field,
     field_info (dx_fid_compact_int OR dx_fid_flag_date) ''DayId'' ''day_id'' T_int T_int dx_ft_common_field,
     field_info (dx_fid_compact_int OR dx_fid_flag_wide_decimal) ''Volume'' ''day_volume'' T_double T_double dx_ft_common_field,
     field_info (dx_fid_compact_int OR dx_fid_flag_wide_decimal) ''DayTurnover'' ''day_turnover'' T_double T_double dx_ft_common_field,
     field_info (dx_fid_compact_int) ''Last.Flags'' ''flags'' T_int T_int dx_ft_common_field]"

definition dx_fields_quote :: "dx_field_info list" where
  "dx_fields_quote =
    [field_info (dx_fid_compact_int) ''Sequence'' ''sequence'' T_int T_int dx_ft_common_field,
     field_info (dx_fid_compact_int) ''TimeNanoPart'' ''time_nanos'' T_int T_int dx_ft_common_field,
     field_info (dx_fid_compact_int) ''Bid.Time'' ''bid_time'' T_int T_int dx_ft_common_field,
     field_info (dx_fid_utf_char) ''Bid.Exchange'' ''bid_exchange_code'' T_char T_char dx_ft_common_field,
     field_info (dx_fid_compact_int OR dx_fid_flag_wide_decimal) ''Bid.Price'' ''bid_price'' T_double T_double dx_ft_common_field,
     field_info (dx_fid_compact_int OR dx_fid_flag_wide_decimal) ''Bid.Size'' ''bid_size'' T_double T_double dx_ft_common_field,
     field_info (dx_fid_compact_int) ''Ask.Time'' ''ask_time'' T_int T_int dx_ft_common_field,
     field_info (dx_fid_utf_char) ''Ask.Exchange'' ''ask_exchange_code'' T_char T_char dx_ft_common_field,
     field_info (dx_fid_compact_int OR dx_fid_flag_wide_decimal) ''Ask.Price'' ''ask_price'' T_double T_double dx_ft_common_field,
     field_info (dx_fid_compact_int OR dx_fid_flag_wide_decimal) ''Ask.Size'' ''ask_size'' T_double T_double dx_ft_common_field]"

definition dx_fields_summary :: "dx_field_info list" where
  "dx_fields_summary =
    [field_info (dx_fid_compact_int OR dx_fid_flag_date) ''DayId'' ''day_id'' T_int T_int dx_ft_common_field,
     field_info (dx_fid_compact_int OR dx_fid_flag_wide_decimal) ''DayOpen.Price'' ''day_open_price'' T_double T_double dx_ft_common_field,
     field_info (dx_fid_compact_int OR dx_fid_flag_wide_decimal) ''DayHigh.Price'' ''day_high_price'' T_double T_double dx_ft_common_field,
     field_info (dx_fid_compact_int OR dx_fid_flag_wide_decimal) ''DayLow.Price'' ''day_low_price'' T_double T_double dx_ft_common_field,
     field_info (dx_fid_compact_int OR dx_fid_flag_wide_decimal) ''DayClose.Price'' ''day_close_price'' T_double T_double dx_ft_common_field,
     field_info (dx_fid_compact_int OR dx_fid_flag_date) ''PrevDayId'' ''prev_day_id'' T_int T_int dx_ft_common_field,
     field_info (dx_fid_compact_int OR dx_fid_flag_wide_decimal) ''PrevDayClose.Price'' ''prev_day_close_price'' T_double T_double dx_ft_common_field,
     field_info (dx_fid_compact_int OR dx_fid_flag_wide_decimal) ''PrevDayVolume'' ''prev_day_volume'' T_double T_double dx_ft_common_field,
     field_info (dx_fid_compact_int OR dx_fid_flag_wide_decimal) ''OpenInterest'' ''open_interest'' T_double T_double dx_ft_common_field,
     field_info (dx_fid_compact_int) ''Flags'' ''flags'' T_int T_int dx_ft_common_field]"

definition dx_fields_profile :: "dx_field_info list" where
  "dx_fields_profile =
    [field_info (dx_fid_compact_int OR dx_fid_flag_wide_decimal) ''Beta'' ''beta'' T_double T_double dx_ft_common_field,
     field_info (dx_fid_compact_int OR dx_fid_flag_wide_decimal) ''Eps'' ''eps'' T_double T_double dx_ft_common_field,
     field_info (dx_fid_compact_int OR dx_fid_flag_wide_decimal) ''DivFreq'' ''div_freq'' T_double T_double dx_ft_common_field,
     field_info (dx_fid_compact_int OR dx_fid_flag_wide_decimal) ''ExdDiv.Amount'' ''exd_div_amount'' T_double T_double dx_ft_common_field,
     field_info (dx_fid_compact_int OR dx_fid_flag_date) ''ExdDiv.Date'' ''exd_div_date'' T_int T_int dx_ft_common_field,
     field_info (dx_fid_compact_int OR dx_fid_flag_wide_decimal) ''52High.Price'' ''high_price_52'' T_double T_double dx_ft_common_field,
     field_info (dx_fid_compact_int OR dx_fid_flag_wide_decimal) ''52Low.Price'' ''low_price_52'' T_double T_double dx_ft_common_field,
     field_info (dx_fid_compact_int OR dx_fid_flag_wide_decimal) ''Shares'' ''shares'' T_double T_double dx_ft_common_field,
     field_info (dx_fid_compact_int OR dx_fid_flag_wide_decimal) ''FreeFloat'' ''free_float'' T_double T_double dx_ft_common_field,
     field_info (dx_fid_compact_int OR dx_fid_flag_wide_decimal) ''HighLimitPrice'' ''high_limit_price'' T_double T_double dx_ft_common_field,
     field_info (dx_fid_compact_int OR dx_fid_flag_wide_decimal) ''LowLimitPrice'' ''low_limit_price'' T_double T_double dx_ft_common_field,
     field_info (dx_fid_compact_int OR dx_fid_flag_time_seconds) ''Halt.StartTime'' ''halt_start_time'' T_int T_int dx_ft_common_field,
     field_info (dx_fid_compact_int OR dx_fid_flag_time_seconds) ''Halt.EndTime'' ''halt_end_time'' T_int T_int dx_ft_common_field,
     field_info (dx_fid_compact_int) ''Flags'' ''flags'' T_int T_int dx_ft_common_field,
     field_info (dx_fid_utf_char_array) ''Description'' ''description'' T_string T_string dx_ft_common_field,
     field_info (dx_fid_utf_char_array) ''StatusReason'' ''status_reason'' T_string T_string dx_ft_common_field]"

definition dx_fields_market_maker :: "dx_field_info list" where
  "dx_fields_market_maker =
    [field_info (dx_fid_utf_char) ''MMExchange'' ''mm_exchange'' T_char T_char dx_ft_first_time_int_field,
     field_info (dx_fid_compact_int) ''MMID'' ''mm_id'' T_int T_int dx_ft_second_time_int_field,
     field_info (dx_fid_compact_int) ''MMBid.Time'' ''mmbid_time'' T_int T_int dx_ft_common_field,
     field_info (dx_fid_compact_int OR dx_fid_flag_wide_decimal) ''MMBid.Price'' ''mmbid_price'' T_double T_double dx_ft_common_field,
     field_info (dx_fid_compact_int OR dx_fid_flag_wide_decimal) ''MMBid.Size'' ''mmbid_size'' T_double T_double dx_ft_common_field,
     field_info (dx_fid_compact_int OR dx_fid_flag_wide_decimal) ''MMBid.Count'' ''mmbid_count'' T_double T_double dx_ft_common_field,
     field_info (dx_fid_compact_int) ''MMAsk.Time'' ''mmask_time'' T_int T_int dx_ft_common_field,
     field_info (dx_fid_compact_int OR dx_fid_flag_wide_decimal) ''MMAsk.Price'' ''mmask_price'' T_double T_double dx_ft_common_field,
     field_info (dx_fid_compact_int OR dx_fid_flag_wide_decimal) ''MMAsk.Size'' ''mmask_size'' T_double T_double dx_ft_common_field,
     field_info (dx_fid_compact_int OR dx_fid_flag_wide_decimal) ''MMAsk.Count'' ''mmask_count'' T_double T_double dx_ft_common_field]"

definition dx_fields_order :: "dx_field_info list" where
  "dx_fields_order =
    [field_info (dx_fid_compact_int) ''Index'' ''index'' T_int T_int dx_ft_second_time_int_field,
     field_info (dx_fid_compact_int) ''Time'' ''time'' T_int T_int dx_ft_common_field,
     field_info (dx_fid_compact_int) ''Sequence'' ''sequence'' T_int T_int dx_ft_common_field,
     field_info (dx_fid_compact_int) ''TimeNanoPart'' ''time_nanos'' T_int T_int dx_ft_common_field,
     field_info (dx_fid_compact_int OR dx_fid_flag_time_millis) ''ActionTime'' ''action_time'' T_long T_long dx_ft_common_field,
     field_info (dx_fid_compact_int OR dx_fid_flag_long) ''OrderId'' ''order_id'' T_long T_long dx_ft_common_field,
     field_info (dx_fid_compact_int OR dx_fid_flag_long) ''AuxOrderId'' ''aux_order_id'' T_long T_long dx_ft_common_field,
     field_info (dx_fid_compact_int OR dx_fid_flag_wide_decimal) ''Price'' ''price'' T_double T_double dx_ft_common_field,
     field_info (dx_fid_compact_int OR dx_fid_flag_wide_decimal) ''Size'' ''size'' T_double T_double dx_ft_common_field,
     field_info (dx_fid_compact_int OR dx_fid_flag_wide_decimal) ''ExecutedSize'' ''executed_size'' T_double T_double dx_ft_common_field,
     field_info (dx_fid_compact_int OR dx_fid_flag_wide_decimal) ''Count'' ''count'' T_double T_double dx_ft_common_field,
     field_info (dx_fid_compact_int) ''Flags'' ''flags'' T_int T_int dx_ft_common_field,
     field_info (dx_fid_compact_int OR dx_fid_flag_long) ''TradeId'' ''trade_id'' T_long T_long dx_ft_common_field,
     field_info (dx_fid_compact_int OR dx_fid_flag_wide_decimal) ''TradePrice'' ''trade_price'' T_double T_double dx_ft_common_field,
     field_info (dx_fid_compact_int OR dx_fid_flag_wide_decimal) ''TradeSize'' ''trade_size'' T_double T_double dx_ft_common_field,
     field_info (dx_fid_compact_int) ''MarketMaker'' ''mmid'' T_int T_int dx_ft_common_field]"

definition dx_fields_time_and_sale :: "dx_field_info list" where
  "dx_fields_time_and_sale =
    [field_info (dx_fid_compact_int OR dx_fid_flag_time_seconds) ''Time'' ''time'' T_int T_int dx_ft_first_time_int_field,
     field_info (dx_fid_compact_int OR dx_fid_flag_sequence) ''Sequence'' ''sequence'' T_int T_int dx_ft_second_time_int_field,
     field_info (dx_fid_utf_char) ''Exchange'' ''exchange_code'' T_char T_char dx_ft_common_field,
     field_info (dx_fid_compact_int OR dx_fid_flag_wide_decimal) ''Price'' ''price'' T_double T_double dx_ft_common_field,
     field_info (dx_fid_compact_int OR dx_fid_flag_wide_decimal) ''Size'' ''size'' T_double T_double dx_ft_common_field,
     field_info (dx_fid_compact_int OR dx_fid_flag_wide_decimal) ''BidPrice'' ''bid_price'' T_double T_double dx_ft_common_field,
     field_info (dx_fid_compact_int OR dx_fid_flag_wide_decimal) ''AskPrice'' ''ask_price'' T_double T_double dx_ft_common_field,
     field_info (dx_fid_compact_int) ''SaleConditions'' ''exchange_sale_conditions'' T_int T_int dx_ft_common_field,
     field_info (dx_fid_compact_int) ''Flags'' ''flags'' T_int T_int dx_ft_common_field,
     field_info (dx_fid_utf_char_array) ''Buyer'' ''buyer'' T_string T_string dx_ft_common_field,
     field_info (dx_fid_utf_char_array) ''Seller'' ''seller'' T_string T_string dx_ft_common_field]"

definition dx_fields_candle :: "dx_field_info list" where
  "dx_fields_candle =
    [field_info (dx_fid_compact_int OR dx_fid_flag_time_seconds) ''Time'' ''time'' T_int T_int dx_ft_first_time_int_field,
     field_info (dx_fid_compact_int OR dx_fid_flag_sequence) ''Sequence'' ''sequence'' T_int T_int dx_ft_second_time_int_field,
     field_info (dx_fid_compact_int OR dx_fid_flag_wide_decimal) ''Count'' ''count'' T_double T_double dx_ft_common_field,
     field_info (dx_fid_compact_int OR dx_fid_flag_wide_decimal) ''Open'' ''open'' T_double T_double dx_ft_common_field,
     field_info (dx_fid_compact_int OR dx_fid_flag_wide_decimal) ''High'' ''high'' T_double T_double dx_ft_common_field,
     field_info (dx_fid_compact_int OR dx_fid_flag_wide_decimal) ''Low'' ''low'' T_double T_double dx_ft_common_field,
     field_info (dx_fid_compact_int OR dx_fid_flag_wide_decimal) ''Close'' ''close'' T_double T_double dx_ft_common_field,
     field_info (dx_fid_compact_int OR dx_fid_flag_wide_decimal) ''Volume'' ''volume'' T_double T_double dx_ft_common_field,
     field_info (dx_fid_compact_int OR dx_fid_flag_wide_decimal) ''VWAP'' ''vwap'' T_double T_double dx_ft_common_field,
     field_info (dx_fid_compact_int OR dx_fid_flag_wide_decimal) ''BidVolume'' ''bid_volume'' T_double T_double dx_ft_common_field,
     field_info (dx_fid_compact_int OR dx_fid_flag_wide_decimal) ''AskVolume'' ''ask_volume'' T_double T_double dx_ft_common_field,
     field_info (dx_fid_compact_int OR dx_fid_flag_wide_decimal) ''ImpVolatility'' ''imp_volatility'' T_double T_double dx_ft_common_field,
     field_info (dx_fid_compact_int OR dx_fid_flag_wide_decimal) ''OpenInterest'' ''open_interest'' T_double T_double dx_ft_common_field]"

definition dx_fields_trade_eth :: "dx_field_info list" where
  "dx_fields_trade_eth =
    [field_info (dx_fid_compact_int) ''ETHLast.Time'' ''time'' T_int T_int dx_ft_common_field,
     field_info (dx_fid_compact_int) ''ETHLast.Sequence'' ''sequence'' T_int T_int dx_ft_common_field,
     field_info (dx_fid_compact_int) ''Last.TimeNanoPart'' ''time_nanos'' T_int T_int dx_ft_common_field,
     field_info (dx_fid_utf_char) ''ETHLast.Exchange'' ''exchange_code'' T_char T_char dx_ft_common_field,
     field_info (dx_fid_compact_int OR dx_fid_flag_wide_decimal) ''ETHLast.Price'' ''price'' T_double T_double dx_ft_common_field,
     field_info (dx_fid_compact_int OR dx_fid_flag_wide_decimal) ''ETHLast.Size'' ''size'' T_double T_double dx_ft_common_field,
     field_info (dx_fid_compact_int OR dx_fid_flag_wide_decimal) ''ETHLast.Change'' ''change'' T_double T_double dx_ft_common_field,
     field_info (dx_fid_compact_int OR dx_fid_flag_date) ''DayId'' ''day_id'' T_int T_int dx_ft_common_field,
     field_info (dx_fid_compact_int OR dx_fid_flag_wide_decimal) ''ETHVolume'' ''day_volume'' T_double T_double dx_ft_common_field,
     field_info (dx_fid_compact_int OR dx_fid_flag_wide_decimal) ''ETHDayTurnover'' ''day_turnover'' T_double T_double dx_ft_common_field,
     field_info (dx_fid_compact_int) ''ETHLast.Flags'' ''flags'' T_int T_int dx_ft_common_field]"

definition dx_fields_spread_order :: "dx_field_info list" where
  "dx_fields_spread_order =
    [field_info (dx_fid_compact_int) ''Index'' ''index'' T_int T_int dx_ft_second_time_int_field,
     field_info (dx_fid_compact_int) ''Time'' ''time'' T_int T_int dx_ft_common_field,
     field_info (dx_fid_compact_int) ''Sequence'' ''sequence'' T_int T_int dx_ft_common_field,
     field_info (dx_fid_compact_int) ''TimeNanoPart'' ''time_nanos'' T_int T_int dx_ft_common_field,
     field_info (dx_fid_compact_int OR dx_fid_flag_time_millis) ''ActionTime'' ''action_time'' T_long T_long dx_ft_common_field,
     field_info (dx_fid_compact_int OR dx_fid_flag_long) ''OrderId'' ''order_id'' T_long T_long dx_ft_common_field,
     field_info (dx_fid_compact_int OR dx_fid_flag_long) ''AuxOrderId'' ''aux_order_id'' T_long T_long dx_ft_common_field,
     field_info (dx_fid_compact_int OR dx_fid_flag_wide_decimal) ''Price'' ''price'' T_double T_double dx_ft_common_field,
     field_info (dx_fid_compact_int OR dx_fid_flag_wide_decimal) ''Size'' ''size'' T_double T_double dx_ft_common_field,
     field_info (dx_fid_compact_int OR dx_fid_flag_wide_decimal) ''ExecutedSize'' ''executed_size'' T_double T_double dx_ft_common_field,
     field_info (dx_fid_compact_int OR dx_fid_flag_wide_decimal) ''Count'' ''count'' T_double T_double dx_ft_common_field,
     field_info (dx_fid_compact_int) ''Flags'' ''flags'' T_int T_int dx_ft_common_field,
     field_info (dx_fid_compact_int OR dx_fid_flag_long) ''TradeId'' ''trade_id'' T_long T_long dx_ft_common_field,
     field_info (dx_fid_compact_int OR dx_fid_flag_wide_decimal) ''TradePrice'' ''trade_price'' T_double T_double dx_ft_common_field,
     field_info (dx_fid_compact_int OR dx_fid_flag_wide_decimal) ''TradeSize'' ''trade_size'' T_double T_double dx_ft_common_field,
     field_info (dx_fid_utf_char_array) ''SpreadSymbol'' ''spread_symbol'' T_string T_string dx_ft_common_field]"

definition dx_fields_greeks :: "dx_field_info list" where
  "dx_fields_greeks =
    [field_info (dx_fid_compact_int OR dx_fid_flag_time_seconds) ''Time'' ''time'' T_int T_int dx_ft_first_time_int_field,
     field_info (dx_fid_compact_int OR dx_fid_flag_sequence) ''Sequence'' ''sequence'' T_int T_int dx_ft_second_time_int_field,
     field_info (dx_fid_compact_int OR dx_fid_flag_wide_decimal) ''Greeks.Price'' ''price'' T_double T_double dx_ft_common_field,
     field_info (dx_fid_compact_int OR dx_fid_flag_wide_decimal) ''Volatility'' ''volatility'' T_double T_double dx_ft_common_field,
     field_info (dx_fid_compact_int OR dx_fid_flag_wide_decimal) ''Delta'' ''delta'' T_double T_double dx_ft_common_field,
     field_info (dx_fid_compact_int OR dx_fid_flag_wide_decimal) ''Gamma'' ''gamma'' T_double T_double dx_ft_common_field,
     field_info (dx_fid_compact_int OR dx_fid_flag_wide_decimal) ''Theta'' ''theta'' T_double T_double dx_ft_common_field,
     field_info (dx_fid_compact_int OR dx_fid_flag_wide_decimal) ''Rho'' ''rho'' T_double T_double dx_ft_common_field,
     field_info (dx_fid_compact_int OR dx_fid_flag_wide_decimal) ''Vega'' ''vega'' T_double T_double dx_ft_common_field]"

definition dx_fields_theo_price :: "dx_field_info list" where
  "dx_fields_theo_price =
    [field_info (dx_fid_compact_int OR dx_fid_flag_time_seconds) ''Theo.Time'' ''time'' T_int T_long dx_ft_common_field,
     field_info (dx_fid_compact_int OR dx_fid_flag_wide_decimal) ''Theo.Price'' ''price'' T_double T_double dx_ft_common_field,
     field_info (dx_fid_compact_int OR dx_fid_flag_wide_decimal) ''Theo.UnderlyingPrice'' ''underlying_price'' T_double T_double dx_ft_common_field,
     field_info (dx_fid_compact_int OR dx_fid_flag_wide_decimal) ''Theo.Delta'' ''delta'' T_double T_double dx_ft_common_field,
     field_info (dx_fid_compact_int OR dx_fid_flag_wide_decimal) ''Theo.Gamma'' ''gamma'' T_double T_double dx_ft_common_field,
     field_info (dx_fid_compact_int OR dx_fid_flag_wide_decimal) ''Theo.Dividend'' ''dividend'' T_double T_double dx_ft_common_field,
     field_info (dx_fid_compact_int OR dx_fid_flag_wide_decimal) ''Theo.Interest'' ''interest'' T_double T_double dx_ft_common_field]"

definition dx_fields_underlying :: "dx_field_info list" where
  "dx_fields_underlying =
    [field_info (dx_fid_compact_int OR dx_fid_flag_wide_decimal) ''Volatility'' ''volatility'' T_double T_double dx_ft_common_field,
     field_info (dx_fid_compact_int OR dx_fid_flag_wide_decimal) ''FrontVolatility'' ''front_volatility'' T_double T_double dx_ft_common_field,
     field_info (dx_fid_compact_int OR dx_fid_flag_wide_decimal) ''BackVolatility'' ''back_volatility'' T_double T_double dx_ft_common_field,
     field_info (dx_fid_compact_int OR dx_fid_flag_wide_decimal) ''CallVolume'' ''call_volume'' T_double T_double dx_ft_common_field,
     field_info (dx_fid_compact_int OR dx_fid_flag_wide_decimal) ''PutVolume'' ''put_volume'' T_double T_double dx_ft_common_field,
     field_info (dx_fid_compact_int OR dx_fid_flag_wide_decimal) ''PutCallRatio'' ''put_call_ratio'' T_double T_double dx_ft_common_field]"

definition dx_fields_series :: "dx_field_info list" where
  "dx_fields_series =
    [field_info (dx_fid_compact_int) ''Index'' ''index'' T_int T_int dx_ft_second_time_int_field,
     field_info (dx_fid_compact_int) ''Time'' ''time'' T_int T_int dx_ft_common_field,
     field_info (dx_fid_compact_int OR dx_fid_flag_sequence) ''Sequence'' ''sequence'' T_int T_int dx_ft_common_field,
     field_info (dx_fid_compact_int OR dx_fid_flag_date) ''Expiration'' ''expiration'' T_int T_int dx_ft_common_field,
     field_info (dx_fid_compact_int OR dx_fid_flag_wide_decimal) ''Volatility'' ''volatility'' T_double T_double dx_ft_common_field,
     field_info (dx_fid_compact_int OR dx_fid_flag_wide_decimal) ''CallVolume'' ''call_volume'' T_double T_double dx_ft_common_field,
     field_info (dx_fid_compact_int OR dx_fid_flag_wide_decimal) ''PutVolume'' ''put_volume'' T_double T_double dx_ft_common_field,
     field_info (dx_fid_compact_int OR dx_fid_flag_wide_decimal) ''PutCallRatio'' ''put_call_ratio'' T_double T_double dx_ft_common_field,
     field_info (dx_fid_compact_int OR dx_fid_flag_wide_decimal) ''ForwardPrice'' ''forward_price'' T_double T_double dx_ft_common_field,
     field_info (dx_fid_compact_int OR dx_fid_flag_wide_decimal) ''Dividend'' ''dividend'' T_double T_double dx_ft_common_field,
     field_info (dx_fid_compact_int OR dx_fid_flag_wide_decimal) ''Interest'' ''interest'' T_double T_double dx_ft_common_field]"

definition dx_fields_configuration :: "dx_field_info list" where
  "dx_fields_configuration =
    [field_info (dx_fid_compact_int) ''Version'' ''version'' T_int T_int dx_ft_common_field,
     field_info (dx_fid_byte_array OR dx_fid_flag_serial_object) ''Configuration'' ''object'' T_byte_array T_byte_array dx_ft_common_field]"

end
