(* ===== verification/Dx_Protocol.thy ===== *)
theory Dx_Protocol
  imports Dx_Messages Dx_Properties Dx_Fields
begin

text \<open>
  The description of the protocol (\<open>src/ServerMessageProcessor.c\<close>): its reader, the record of the messages
  that the server supports, and the state machine of its status with the countdown task.  The second
  part is the format of a description and the contract of its readers on that format.
\<close>

section \<open>Message names and rosters\<close>

definition g_send_msg_roster :: "int32 list" where
  "g_send_msg_roster = [MESSAGE_TICKER_ADD_SUBSCRIPTION, MESSAGE_TICKER_REMOVE_SUBSCRIPTION,
     MESSAGE_STREAM_ADD_SUBSCRIPTION, MESSAGE_STREAM_REMOVE_SUBSCRIPTION,
     MESSAGE_HISTORY_ADD_SUBSCRIPTION, MESSAGE_HISTORY_REMOVE_SUBSCRIPTION]"

definition g_recv_msg_roster :: "int32 list" where
  "g_recv_msg_roster = [MESSAGE_TICKER_DATA, MESSAGE_STREAM_DATA, MESSAGE_HISTORY_DATA]"

definition dx_get_message_type_name :: "int32 \<Rightarrow> dxf_char list" where
  "dx_get_message_type_name type =
     (if type = MESSAGE_HEARTBEAT then wide ''HEARTBEAT''
      else if type = MESSAGE_DESCRIBE_PROTOCOL then wide ''DESCRIBE_PROTOCOL''
      else if type = MESSAGE_DESCRIBE_RECORDS then wide ''DESCRIBE_RECORDS''
      else if type = MESSAGE_TICKER_DATA then wide ''TICKER_DATA''
      else if type = MESSAGE_TICKER_ADD_SUBSCRIPTION then wide ''TICKER_ADD_SUBSCRIPTION''
      else if type = MESSAGE_TICKER_REMOVE_SUBSCRIPTION then wide ''TICKER_REMOVE_SUBSCRIPTION''
      else if type = MESSAGE_STREAM_DATA then wide ''STREAM_DATA''
      else if type = MESSAGE_STREAM_ADD_SUBSCRIPTION then wide ''STREAM_ADD_SUBSCRIPTION''
      else if type = MESSAGE_STREAM_REMOVE_SUBSCRIPTION then wide ''STREAM_REMOVE_SUBSCRIPTION''
      else if type = MESSAGE_HISTORY_DATA then wide ''HISTORY_DATA''
      else if type = MESSAGE_HISTORY_ADD_SUBSCRIPTION then wide ''HISTORY_ADD_SUBSCRIPTION''
      else if type = MESSAGE_HISTORY_REMOVE_SUBSCRIPTION then wide ''HISTORY_REMOVE_SUBSCRIPTION''
      else wide ''UNKNOWN MESSAGE TYPE'')"

section \<open>State\<close>

datatype dx_describe_protocol_status = dx_dps_not_sent | dx_dps_received | dx_dps_not_received | dx_dps_pending

datatype dxf_connection_status = dxf_cs_not_connected | dxf_cs_connected | dxf_cs_login_required | dxf_cs_authorized

datatype dx_message_support_status = dx_mss_supported | dx_mss_not_supported | dx_mss_pending | dx_mss_reconnection

record protocol_ctx =
  send_msgs_bitmask :: int32
  recv_msgs_bitmask :: int32
  describe_protocol_status :: dx_describe_protocol_status
  describe_protocol_timestamp :: int32
  recv_props :: property_map
  connection_status :: dxf_connection_status

definition new_protocol_ctx :: protocol_ctx where
  "new_protocol_ctx = \<lparr>send_msgs_bitmask = 0, recv_msgs_bitmask = 0, describe_protocol_status = dx_dps_not_sent,
     describe_protocol_timestamp = 0, recv_props = \<lparr>elements = [], arr_size = 0, capacity = 0\<rparr>,
     connection_status = dxf_cs_connected\<rparr>"

definition INDEX_BITMASK :: "nat \<Rightarrow> int32" where "INDEX_BITMASK index = push_bit index 1"

section \<open>Support of messages\<close>

definition dx_get_msg_support_state :: "int32 \<Rightarrow> int32 list \<Rightarrow> int32 \<Rightarrow> bool" where
  "dx_get_msg_support_state msg roster bitmask =
     (case DX_ARRAY_SEARCH roster 0 (length roster) msg DX_NUMERIC_COMPARATOR False of
        (found, idx) \<Rightarrow> found \<and> bitmask AND INDEX_BITMASK idx \<noteq> 0)"

definition dx_is_message_supported_by_server :: "int32 \<Rightarrow> protocol_ctx \<Rightarrow> dx_error + dx_message_support_status" where
  "dx_is_message_supported_by_server msg ctx =
     (if \<not> dx_is_message_type_valid msg then Inl dx_ec_invalid_func_param_internal
      else case describe_protocol_status ctx of
        dx_dps_not_sent \<Rightarrow> Inr dx_mss_reconnection
      | dx_dps_pending \<Rightarrow> Inr dx_mss_pending
      | _ \<Rightarrow>
          if dx_get_msg_support_state msg g_send_msg_roster (send_msgs_bitmask ctx)
             \<or> dx_get_msg_support_state msg g_recv_msg_roster (recv_msgs_bitmask ctx)
          then Inr dx_mss_supported else Inr dx_mss_not_supported)"

text \<open>The loop of \<open>dx_legacy_send_msg_bitmask\<close> and \<open>dx_legacy_recv_msg_bitmask\<close> over the legacy messages.\<close>

fun legacy_bitmask :: "int32 list \<Rightarrow> int32 list \<Rightarrow> int32 \<Rightarrow> dx_error + int32" where
  "legacy_bitmask roster [] bitmask = Inr bitmask"
| "legacy_bitmask roster (msg # msgs) bitmask =
     (case DX_ARRAY_SEARCH roster 0 (length roster) msg DX_NUMERIC_COMPARATOR False of
        (found, msg_index) \<Rightarrow>
          if \<not> found then Inl dx_ec_internal_assert_violation
          else legacy_bitmask roster msgs (bitmask OR INDEX_BITMASK msg_index))"

definition dx_legacy_send_msg_bitmask :: "dx_error + int32" where
  "dx_legacy_send_msg_bitmask = legacy_bitmask g_send_msg_roster
     [MESSAGE_TICKER_ADD_SUBSCRIPTION, MESSAGE_TICKER_REMOVE_SUBSCRIPTION,
      MESSAGE_STREAM_ADD_SUBSCRIPTION, MESSAGE_STREAM_REMOVE_SUBSCRIPTION,
      MESSAGE_HISTORY_ADD_SUBSCRIPTION, MESSAGE_HISTORY_REMOVE_SUBSCRIPTION] 0"

definition dx_legacy_recv_msg_bitmask :: "dx_error + int32" where
  "dx_legacy_recv_msg_bitmask = legacy_bitmask g_recv_msg_roster
     [MESSAGE_TICKER_DATA, MESSAGE_STREAM_DATA, MESSAGE_HISTORY_DATA] 0"

section \<open>The state machine of the description\<close>

definition DESCRIBE_PROTOCOL_TIMEOUT :: int where "DESCRIBE_PROTOCOL_TIMEOUT = 3000"

text \<open>The sum is computed in \<open>long long\<close>, where \<open>UINT_MAX\<close> is added, not \<open>2^32\<close>, and truncated to \<open>int\<close>.\<close>

definition dx_millisecond_timestamp_diff :: "int32 \<Rightarrow> int32 \<Rightarrow> int32" where
  "dx_millisecond_timestamp_diff newer older =
     word_of_int ((if uint older > uint newer then 2 ^ 32 - 1 else 0) + uint newer - uint older)"

record task_result =
  tes_success :: bool
  tes_dont_advance :: bool
  tes_pop_me :: bool

definition dx_describe_protocol_timeout_countdown_task :: "int32 \<Rightarrow> bool \<Rightarrow> protocol_ctx \<Rightarrow> task_result \<times> protocol_ctx" where
  "dx_describe_protocol_timeout_countdown_task now free_resources ctx =
     (if free_resources then (\<lparr>tes_success = True, tes_dont_advance = False, tes_pop_me = False\<rparr>, ctx)
      else case describe_protocol_status ctx of
        dx_dps_received \<Rightarrow> (\<lparr>tes_success = True, tes_dont_advance = False, tes_pop_me = True\<rparr>, ctx)
      | dx_dps_pending \<Rightarrow>
          if sint (dx_millisecond_timestamp_diff now (describe_protocol_timestamp ctx)) < DESCRIBE_PROTOCOL_TIMEOUT
          then (\<lparr>tes_success = True, tes_dont_advance = True, tes_pop_me = False\<rparr>, ctx)
          else
            let ctx = ctx\<lparr>describe_protocol_status := dx_dps_not_received\<rparr> in
            (case dx_legacy_send_msg_bitmask of
               Inl _ \<Rightarrow> (\<lparr>tes_success = False, tes_dont_advance = False, tes_pop_me = True\<rparr>, ctx)
             | Inr send_mask \<Rightarrow>
                 let ctx = ctx\<lparr>send_msgs_bitmask := send_mask\<rparr> in
                 (case dx_legacy_recv_msg_bitmask of
                    Inl _ \<Rightarrow> (\<lparr>tes_success = False, tes_dont_advance = False, tes_pop_me = True\<rparr>, ctx)
                  | Inr recv_mask \<Rightarrow> (\<lparr>tes_success = True, tes_dont_advance = False, tes_pop_me = True\<rparr>,
                      ctx\<lparr>recv_msgs_bitmask := recv_mask\<rparr>)))
      | _ \<Rightarrow> (\<lparr>tes_success = False, tes_dont_advance = True, tes_pop_me = False\<rparr>, ctx))"

text \<open>\<open>task_added\<close>: the countdown task could be put into the queue.\<close>

definition dx_describe_protocol_sent :: "int32 \<Rightarrow> bool \<Rightarrow> protocol_ctx \<Rightarrow> (dx_error + bool) \<times> protocol_ctx" where
  "dx_describe_protocol_sent now task_added ctx =
     (case describe_protocol_status ctx of
        dx_dps_not_sent \<Rightarrow>
          (Inr task_added, ctx\<lparr>describe_protocol_timestamp := now, describe_protocol_status := dx_dps_pending\<rparr>)
      | dx_dps_received \<Rightarrow> (Inr True, ctx)
      | _ \<Rightarrow> (Inl dx_ec_internal_assert_violation, ctx))"

text \<open>The third stage of \<open>dx_clear_server_info\<close>; the first two reset the records.\<close>

definition clear_message_support :: "protocol_ctx \<Rightarrow> protocol_ctx" where
  "clear_message_support ctx =
     ctx\<lparr>send_msgs_bitmask := 0, recv_msgs_bitmask := 0, describe_protocol_status := dx_dps_not_sent\<rparr>"

section \<open>Reading a description\<close>

definition on_input :: "(in_ctx, 'a) io \<Rightarrow> ('h \<times> in_ctx, 'a) io" where
  "on_input m = (\<lambda>(h, input). case m input of (r, input) \<Rightarrow> (r, h, input))"

definition on_context :: "('h \<Rightarrow> dx_error + 'h) \<Rightarrow> ('h \<times> in_ctx, unit) io" where
  "on_context f = (\<lambda>(h, input). case f h of Inl e \<Rightarrow> (Inl e, h, input) | Inr h' \<Rightarrow> (Inr (), h', input))"

text \<open>A string that has been read, as its users see it.\<close>

definition read_c_string :: "(nat \<Rightarrow> bool) \<Rightarrow> ('h \<times> in_ctx, dxf_char list option) io" where
  "read_c_string mem = checked (on_input (dx_read_utf_string mem)) (\<lambda>s. return (map_option c_string s))"

text \<open>The result of setting a property is not looked at; only undefined behaviour counts.\<close>

definition store_property :: "(nat \<Rightarrow> bool) \<Rightarrow> dxf_char list option \<Rightarrow> dxf_char list option \<Rightarrow> protocol_ctx \<Rightarrow> dx_error + protocol_ctx" where
  "store_property mem k v ctx =
     (case dx_property_map_set mem k v (recv_props ctx) of
        (r, props) \<Rightarrow> if r = Inl UB then Inl UB else Inr (ctx\<lparr>recv_props := props\<rparr>))"

fun read_properties :: "(nat \<Rightarrow> bool) \<Rightarrow> nat \<Rightarrow> (protocol_ctx \<times> in_ctx, unit) io" where
  "read_properties mem 0 = return ()"
| "read_properties mem (Suc n) =
     checked (read_c_string mem) (\<lambda>k.
     checked (read_c_string mem) (\<lambda>v.
     checked (on_context (store_property mem k v)) (\<lambda>_.
     read_properties mem n)))"

definition dx_read_describe_protocol_properties :: "(nat \<Rightarrow> bool) \<Rightarrow> (protocol_ctx \<times> in_ctx, unit) io" where
  "dx_read_describe_protocol_properties mem =
     checked (on_input dx_read_compact_int) (\<lambda>count.
       if sint count < 0 then fail dx_pec_describe_protocol_message_corrupted
       else read_properties mem (nat (sint count)))"

text \<open>A comparison of a name that was sent as null is undefined.\<close>

definition roster_bit :: "int32 list \<Rightarrow> int32 \<Rightarrow> dxf_char list option \<Rightarrow> int32 \<Rightarrow> dx_error + int32" where
  "roster_bit msg_roster message_id message_name bitmask =
     (case DX_ARRAY_SEARCH msg_roster 0 (length msg_roster) message_id DX_NUMERIC_COMPARATOR False of
        (found, msg_index) \<Rightarrow>
          if \<not> found then Inr bitmask
          else case message_name of
            None \<Rightarrow> Inl UB
          | Some name \<Rightarrow>
              if dx_compare_strings name (dx_get_message_type_name (msg_roster ! msg_index)) \<noteq> 0 then Inr bitmask
              else Inr (bitmask OR INDEX_BITMASK msg_index))"

definition dx_process_server_send_message_type :: "int32 \<Rightarrow> dxf_char list option \<Rightarrow> protocol_ctx \<Rightarrow> dx_error + protocol_ctx" where
  "dx_process_server_send_message_type message_id message_name ctx =
     map_sum id (\<lambda>bits. ctx\<lparr>recv_msgs_bitmask := bits\<rparr>)
       (roster_bit g_recv_msg_roster message_id message_name (recv_msgs_bitmask ctx))"

definition dx_process_server_recv_message_type :: "int32 \<Rightarrow> dxf_char list option \<Rightarrow> protocol_ctx \<Rightarrow> dx_error + protocol_ctx" where
  "dx_process_server_recv_message_type message_id message_name ctx =
     map_sum id (\<lambda>bits. ctx\<lparr>send_msgs_bitmask := bits\<rparr>)
       (roster_bit g_send_msg_roster message_id message_name (send_msgs_bitmask ctx))"

fun read_message_list :: "(nat \<Rightarrow> bool) \<Rightarrow> (int32 \<Rightarrow> dxf_char list option \<Rightarrow> protocol_ctx \<Rightarrow> dx_error + protocol_ctx) \<Rightarrow> nat
     \<Rightarrow> (protocol_ctx \<times> in_ctx, unit) io" where
  "read_message_list mem process 0 = return ()"
| "read_message_list mem process (Suc n) =
     checked (on_input dx_read_compact_int) (\<lambda>message_id.
     checked (read_c_string mem) (\<lambda>message_name.
     checked (on_context (process message_id message_name)) (\<lambda>_.
     checked (dx_read_describe_protocol_properties mem) (\<lambda>_.
     read_message_list mem process n))))"

definition dx_read_describe_protocol_message_list ::
  "(nat \<Rightarrow> bool) \<Rightarrow> (int32 \<Rightarrow> dxf_char list option \<Rightarrow> protocol_ctx \<Rightarrow> dx_error + protocol_ctx) \<Rightarrow> (protocol_ctx \<times> in_ctx, unit) io" where
  "dx_read_describe_protocol_message_list mem process =
     checked (on_input dx_read_compact_int) (\<lambda>count.
       if sint count < 0 then fail dx_pec_describe_protocol_message_corrupted
       else read_message_list mem process (nat (sint count)))"

definition DX_RECV_PROPERTY_AUTH :: "dxf_char list" where "DX_RECV_PROPERTY_AUTH = wide ''authentication''"
definition DX_RECV_PROPERTY_LOGIN_REQUIRED :: "dxf_char list" where "DX_RECV_PROPERTY_LOGIN_REQUIRED = wide ''LOGIN ''"

definition finish_description :: "(protocol_ctx \<times> in_ctx, unit) io" where
  "finish_description = (\<lambda>(ctx, input).
     let accept = (Inr (), ctx\<lparr>describe_protocol_status := dx_dps_received, connection_status := dxf_cs_authorized\<rparr>,
           if current_in_buffer_position input < in_buffer_limit input
           then dx_set_in_buffer_position (in_buffer_limit input) input else input)
     in case dx_property_map_try_get_value (recv_props ctx) (Some DX_RECV_PROPERTY_AUTH) of
       Inl e \<Rightarrow> if e = UB then (Inl UB, ctx, input) else accept
     | Inr None \<Rightarrow> accept
     | Inr (Some None) \<Rightarrow> (Inl UB, ctx, input)
     | Inr (Some (Some prop_value)) \<Rightarrow>
         if length prop_value > 0 then
           if dx_compare_strings_num DX_RECV_PROPERTY_LOGIN_REQUIRED prop_value (length DX_RECV_PROPERTY_LOGIN_REQUIRED) = 0
           then (Inl dx_ec_success, ctx\<lparr>describe_protocol_status := dx_dps_pending, connection_status := dxf_cs_login_required\<rparr>, input)
           else (Inl dx_pec_authentication_error, ctx\<lparr>connection_status := dxf_cs_not_connected\<rparr>, input)
         else accept)"

definition dx_process_describe_protocol :: "(nat \<Rightarrow> bool) \<Rightarrow> (protocol_ctx \<times> in_ctx, unit) io" where
  "dx_process_describe_protocol mem = (\<lambda>(ctx, input).
     (let ctx = (if describe_protocol_status ctx = dx_dps_not_received
                 then ctx\<lparr>send_msgs_bitmask := 0, recv_msgs_bitmask := 0\<rparr> else ctx)
      in checked (on_input dx_read_int) (\<lambda>magic.
           if magic \<noteq> 0x44585033 then fail dx_pec_describe_protocol_message_corrupted
           else
             checked (on_context (\<lambda>ctx. Inr (ctx\<lparr>recv_props := dx_property_map_free_collection (recv_props ctx)\<rparr>))) (\<lambda>_.
             checked (dx_read_describe_protocol_properties mem) (\<lambda>_.
             checked (dx_read_describe_protocol_message_list mem dx_process_server_send_message_type) (\<lambda>_.
             checked (dx_read_describe_protocol_message_list mem dx_process_server_recv_message_type) (\<lambda>_.
             finish_description)))))
         (ctx, input)))"

section \<open>The bytes of a description\<close>

definition string_bytes :: "dxf_char list \<Rightarrow> byte list" where
  "string_bytes s = compact_int_bytes (word_of_nat (length (utf8_bytes s))) @ utf8_bytes s"

type_synonym property = "dxf_char list \<times> dxf_char list"
type_synonym message_support = "int32 \<times> dxf_char list \<times> property list"

definition properties_bytes :: "property list \<Rightarrow> byte list" where
  "properties_bytes ps = compact_int_bytes (word_of_nat (length ps)) @ concat (map (\<lambda>(k, v). string_bytes k @ string_bytes v) ps)"

definition message_list_bytes :: "message_support list \<Rightarrow> byte list" where
  "message_list_bytes ms = compact_int_bytes (word_of_nat (length ms))
     @ concat (map (\<lambda>(id, name, ps). compact_int_bytes id @ string_bytes name @ properties_bytes ps) ms)"

definition describe_protocol_bytes :: "property list \<Rightarrow> message_support list \<Rightarrow> message_support list \<Rightarrow> byte list" where
  "describe_protocol_bytes ps sent received =
     int_bytes 0x44585033 @ properties_bytes ps @ message_list_bytes sent @ message_list_bytes received"

section \<open>Reads with a context\<close>

definition takes :: "('h \<times> in_ctx, 'a) io \<Rightarrow> byte list \<Rightarrow> 'h \<Rightarrow> 'a \<Rightarrow> 'h \<Rightarrow> bool" where
  "takes m bs h v h' \<longleftrightarrow> (\<forall>input rest. wf_in input \<longrightarrow> pending input = bs @ rest \<longrightarrow>
     m (h, input) = (Inr v, h', advance (length bs) input))"

lemma takesD: "takes m bs h v h' \<Longrightarrow> wf_in input \<Longrightarrow> pending input = bs @ rest \<Longrightarrow> m (h, input) = (Inr v, h', advance (length bs) input)"
  by (simp add: takes_def)

lemma advance_zero: "advance 0 input = input"
  by (simp add: advance_def)

lemma takes_return: "takes (return v) [] h v h"
  by (simp add: takes_def return_def advance_zero)

lemma takes_on_input: "receives m bs v \<Longrightarrow> takes (on_input m) bs h v h"
  by (simp add: takes_def receives_def on_input_def)

lemma takes_on_context: "f h = Inr h' \<Longrightarrow> takes (on_context f) [] h () h'"
  by (simp add: takes_def on_context_def advance_zero)

lemma takes_seq:
  assumes "takes m xs h x h1" "takes (k x) ys h1 y h2"
  shows "takes (checked m k) (xs @ ys) h y h2"
  unfolding takes_def
proof (intro allI impI)
  fix input rest assume wf: "wf_in input" and p: "pending input = (xs @ ys) @ rest"
  then have p1: "pending input = xs @ (ys @ rest)" by simp
  note a = pending_advance [OF wf p1]
  show "checked m k (h, input) = (Inr y, h2, advance (length (xs @ ys)) input)"
    using takesD [OF assms(1) wf p1] takesD [OF assms(2) a] by (simp add: checked_def)
qed

lemma takes_seq_Nil: "takes m [] h x h1 \<Longrightarrow> takes (k x) ys h1 y h2 \<Longrightarrow> takes (checked m k) ys h y h2"
  using takes_seq [of m "[]"] by fastforce

section \<open>Strings and properties\<close>

definition string_ok :: "dxf_char list \<Rightarrow> bool" where
  "string_ok s \<longleftrightarrow> no_pairs s \<and> 0 \<notin> set s \<and> length (utf8_bytes s) < 2 ^ 31"

abbreviation all_mem :: "nat \<Rightarrow> bool" where "all_mem \<equiv> \<lambda>_. True"

lemma c_string_of: "0 \<notin> set s \<Longrightarrow> c_string (s @ 0 # t) = s"
  unfolding c_string_def by (induction s) auto

lemma takes_c_string: "string_ok s \<Longrightarrow> takes (read_c_string all_mem) (string_bytes s) h (Some s) h"
proof -
  assume ok: "string_ok s"
  have r: "takes (on_input (dx_read_utf_string all_mem)) (string_bytes s) h
      (Some (s @ [0] @ replicate (length (utf8_bytes s) - length s) 0)) h"
    using ok unfolding string_ok_def string_bytes_def by (intro takes_on_input receives_utf_string) auto
  have "takes (return (Some s)) [] h (Some s) h" by (rule takes_return)
  with takes_seq [OF r, of "\<lambda>s. return (map_option c_string s)" "[]" "Some s" h] ok show ?thesis
    by (simp add: read_c_string_def string_ok_def c_string_of)
qed

definition set_property :: "property \<Rightarrow> property_map \<Rightarrow> property_map" where
  "set_property kv props = snd (dx_property_map_set all_mem (Some (fst kv)) (Some (snd kv)) props)"

lemma set_property_spec:
  assumes "wf_props props"
  shows "dx_property_map_set all_mem (Some (fst kv)) (Some (snd kv)) props = (Inr (), set_property kv props)"
    "wf_props (set_property kv props)" "props_map (set_property kv props) = (props_map props)(fst kv \<mapsto> snd kv)"
proof -
  obtain p where p: "dx_property_map_set all_mem (Some (fst kv)) (Some (snd kv)) props = (Inr (), p)"
    using set_succeeds [OF assms] by blast
  then show "dx_property_map_set all_mem (Some (fst kv)) (Some (snd kv)) props = (Inr (), set_property kv props)"
    "wf_props (set_property kv props)" "props_map (set_property kv props) = (props_map props)(fst kv \<mapsto> snd kv)"
    using set_spec [OF assms p] by (simp_all add: set_property_def)
qed

lemma set_properties_spec:
  "wf_props props \<Longrightarrow> wf_props (fold set_property ps props) \<and> props_map (fold set_property ps props) = props_map props ++ map_of (rev ps)"
proof (induction ps arbitrary: props)
  case (Cons kv ps)
  note s = set_property_spec [OF Cons.prems, of kv]
  have "map_of (rev (kv # ps)) = map_of [kv] ++ map_of (rev ps)" by (cases kv) (simp add: map_add_def fun_eq_iff split: option.split)
  then have "props_map props ++ map_of (rev (kv # ps)) = (props_map props ++ map_of [kv]) ++ map_of (rev ps)"
    by (simp only: map_add_assoc)
  moreover have "props_map props ++ map_of [kv] = (props_map props)(fst kv \<mapsto> snd kv)" by (cases kv) auto
  ultimately show ?case using Cons.IH [OF s(2)] s(3) by (simp add: fun_upd_def)
qed simp

definition properties_ok :: "property list \<Rightarrow> bool" where
  "properties_ok ps \<longleftrightarrow> length ps < 2 ^ 31 \<and> (\<forall>(k, v) \<in> set ps. string_ok k \<and> string_ok v)"

abbreviation with_properties :: "property list \<Rightarrow> protocol_ctx \<Rightarrow> protocol_ctx" where
  "with_properties ps ctx \<equiv> ctx\<lparr>recv_props := fold set_property ps (recv_props ctx)\<rparr>"

lemma takes_properties:
  assumes "wf_props (recv_props ctx)" "\<forall>(k, v) \<in> set ps. string_ok k \<and> string_ok v"
  shows "takes (read_properties all_mem (length ps)) (concat (map (\<lambda>(k, v). string_bytes k @ string_bytes v) ps)) ctx () (with_properties ps ctx)"
  using assms
proof (induction ps arbitrary: ctx)
  case Nil
  show ?case by (simp add: takes_return)
next
  case (Cons kv ps)
  obtain k v where kv: "kv = (k, v)" by fastforce
  note s = set_property_spec [OF Cons.prems(1), of kv]
  let ?c = "ctx\<lparr>recv_props := set_property kv (recv_props ctx)\<rparr>"
  have st: "takes (on_context (store_property all_mem (Some k) (Some v))) [] ctx () ?c"
    using s(1) kv by (intro takes_on_context) (simp add: store_property_def)
  have ok: "string_ok k" "string_ok v" using Cons.prems(2) kv by auto
  have ih: "takes (read_properties all_mem (length ps)) (concat (map (\<lambda>(k, v). string_bytes k @ string_bytes v) ps)) ?c ()
      (with_properties ps ?c)" using Cons.prems(2) s(2) by (intro Cons.IH) auto
  have "takes (read_properties all_mem (Suc (length ps)))
      (string_bytes k @ (string_bytes v @ concat (map (\<lambda>(k, v). string_bytes k @ string_bytes v) ps))) ctx () (with_properties ps ?c)"
    unfolding read_properties.simps
    by (rule takes_seq [OF takes_c_string [OF ok(1)]], rule takes_seq [OF takes_c_string [OF ok(2)]], rule takes_seq_Nil [OF st ih])
  then show ?case using kv by simp
qed

lemma takes_property_section:
  assumes "wf_props (recv_props ctx)" "properties_ok ps"
  shows "takes (dx_read_describe_protocol_properties all_mem) (properties_bytes ps) ctx () (with_properties ps ctx)"
proof -
  have n: "sint (word_of_nat (length ps) :: int32) = int (length ps)" using assms(2) by (intro sint_of_small_nat) (simp add: properties_ok_def)
  have "takes (read_properties all_mem (length ps)) (concat (map (\<lambda>(k, v). string_bytes k @ string_bytes v) ps)) ctx () (with_properties ps ctx)"
    using assms by (intro takes_properties) (simp_all add: properties_ok_def)
  then show ?thesis unfolding dx_read_describe_protocol_properties_def properties_bytes_def
    by (intro takes_seq [OF takes_on_input [OF receives_compact_int]]) (simp add: n)
qed

section \<open>Lists of messages\<close>

definition add_bit :: "int32 list \<Rightarrow> message_support \<Rightarrow> int32 \<Rightarrow> int32" where
  "add_bit roster m bitmask = (case roster_bit roster (fst m) (Some (fst (snd m))) bitmask of Inr bits \<Rightarrow> bits | Inl _ \<Rightarrow> bitmask)"

lemma roster_bit_named: "roster_bit roster (fst m) (Some (fst (snd m))) bitmask = Inr (add_bit roster m bitmask)"
  by (auto simp: add_bit_def roster_bit_def split: prod.splits)

definition message_list_ok :: "message_support list \<Rightarrow> bool" where
  "message_list_ok ms \<longleftrightarrow> length ms < 2 ^ 31 \<and> (\<forall>(id, name, ps) \<in> set ms. string_ok name \<and> properties_ok ps)"

definition message_properties :: "message_support list \<Rightarrow> property list" where
  "message_properties ms = concat (map (\<lambda>(id, name, ps). ps) ms)"

lemma takes_messages:
  assumes process: "\<And>m ctx. process (fst m) (Some (fst (snd m))) ctx = Inr (f m ctx)"
    and f: "\<And>m ctx. recv_props (f m ctx) = recv_props ctx" "\<And>m ctx p. f m (ctx\<lparr>recv_props := p\<rparr>) = (f m ctx)\<lparr>recv_props := p\<rparr>"
    and wf: "wf_props (recv_props ctx)" and ok: "\<forall>(id, name, ps) \<in> set ms. string_ok name \<and> properties_ok ps"
  shows "takes (read_message_list all_mem process (length ms))
    (concat (map (\<lambda>(id, name, ps). compact_int_bytes id @ string_bytes name @ properties_bytes ps) ms)) ctx ()
    (with_properties (message_properties ms) (fold f ms ctx))"
  using wf ok
proof (induction ms arbitrary: ctx)
  case Nil
  show ?case by (simp add: takes_return message_properties_def)
next
  case (Cons m ms)
  obtain id name ps where m: "m = (id, name, ps)" by (cases m)
  have okm: "string_ok name" "properties_ok ps" using Cons.prems(2) m by auto
  have pr: "takes (on_context (process id (Some name))) [] ctx () (f m ctx)"
    using process [of m ctx] m by (intro takes_on_context) simp
  have wf1: "wf_props (recv_props (f m ctx))" using Cons.prems(1) by (simp add: f(1))
  let ?c = "with_properties ps (f m ctx)"
  have wf2: "wf_props (recv_props ?c)" using set_properties_spec [OF wf1, of ps] by simp
  have ff: "fold f ms (ctx'\<lparr>recv_props := p\<rparr>) = (fold f ms ctx')\<lparr>recv_props := p\<rparr>" for ctx' p ms
    by (induction ms arbitrary: ctx') (simp_all add: f(2))
  have fr: "recv_props (fold f ms ctx') = recv_props ctx'" for ctx' ms
    by (induction ms arbitrary: ctx') (simp_all add: f(1))
  have ih: "takes (read_message_list all_mem process (length ms))
      (concat (map (\<lambda>(id, name, ps). compact_int_bytes id @ string_bytes name @ properties_bytes ps) ms)) ?c ()
      (with_properties (message_properties ms) (fold f ms ?c))"
    using Cons.prems(2) wf2 by (intro Cons.IH) auto
  have "takes (read_message_list all_mem process (Suc (length ms)))
      (compact_int_bytes id @ (string_bytes name @ (properties_bytes ps @
        concat (map (\<lambda>(id, name, ps). compact_int_bytes id @ string_bytes name @ properties_bytes ps) ms)))) ctx ()
      (with_properties (message_properties ms) (fold f ms ?c))"
    unfolding read_message_list.simps
    by (rule takes_seq [OF takes_on_input [OF receives_compact_int]], rule takes_seq [OF takes_c_string [OF okm(1)]],
        rule takes_seq_Nil [OF pr], rule takes_seq [OF takes_property_section [OF wf1 okm(2)] ih])
  moreover have "with_properties (message_properties ms) (fold f ms ?c) = with_properties (message_properties (m # ms)) (fold f (m # ms) ctx)"
    using m by (simp add: ff fr message_properties_def)
  ultimately show ?case using m by simp
qed

lemma takes_message_section:
  assumes process: "\<And>m ctx. process (fst m) (Some (fst (snd m))) ctx = Inr (f m ctx)"
    and f: "\<And>m ctx. recv_props (f m ctx) = recv_props ctx" "\<And>m ctx p. f m (ctx\<lparr>recv_props := p\<rparr>) = (f m ctx)\<lparr>recv_props := p\<rparr>"
    and wf: "wf_props (recv_props ctx)" and ok: "message_list_ok ms"
  shows "takes (dx_read_describe_protocol_message_list all_mem process) (message_list_bytes ms) ctx ()
    (with_properties (message_properties ms) (fold f ms ctx))"
proof -
  have n: "sint (word_of_nat (length ms) :: int32) = int (length ms)" using ok by (intro sint_of_small_nat) (simp add: message_list_ok_def)
  have "\<forall>(id, name, ps) \<in> set ms. string_ok name \<and> properties_ok ps" using ok by (simp add: message_list_ok_def)
  from takes_messages [of process f, OF process f wf this] show ?thesis
    unfolding dx_read_describe_protocol_message_list_def message_list_bytes_def
    by (intro takes_seq [OF takes_on_input [OF receives_compact_int]]) (simp add: n)
qed

section \<open>The bitmasks\<close>

lemma roster_search:
  fixes roster :: "int32 list"
  assumes "DX_ARRAY_SEARCH roster 0 (length roster) msg DX_NUMERIC_COMPARATOR False = (found, idx)"
  shows "found \<longleftrightarrow> msg \<in> set roster" "found \<Longrightarrow> idx < length roster \<and> roster ! idx = msg"
proof -
  have c: "DX_NUMERIC_COMPARATOR x y = 0 \<longleftrightarrow> x = y" for x y :: int32 by (auto simp: DX_NUMERIC_COMPARATOR_def)
  note s = linear_search_spec [OF assms [unfolded DX_ARRAY_SEARCH_def if_False] le0]
  show "found \<Longrightarrow> idx < length roster \<and> roster ! idx = msg" using s c by simp
  then show "found \<longleftrightarrow> msg \<in> set roster" using s c by (auto simp: in_set_conv_nth)
qed

lemma bit_index_bitmask: "i < 32 \<Longrightarrow> bit (bitmask OR INDEX_BITMASK idx) i \<longleftrightarrow> bit bitmask i \<or> i = idx"
  by (auto simp: INDEX_BITMASK_def bit_or_iff bit_push_bit_iff bit_1_iff bit_exp_iff)

lemma bit_add_bit:
  assumes "distinct roster" "length roster \<le> 32" "i < length roster"
  shows "bit (add_bit roster m bitmask) i \<longleftrightarrow>
    bit bitmask i \<or> (fst m = roster ! i \<and> fst (snd m) = dx_get_message_type_name (roster ! i))"
proof -
  obtain found idx where s: "DX_ARRAY_SEARCH roster 0 (length roster) (fst m) DX_NUMERIC_COMPARATOR False = (found, idx)" by fastforce
  note r = roster_search [OF s]
  show ?thesis
  proof (cases found)
    case True
    then have i: "idx < length roster" "roster ! idx = fst m" using r(2) by simp_all
    have e: "roster ! i = fst m \<longleftrightarrow> i = idx" using i assms(1,3) by (metis nth_eq_iff_index_eq)
    have "add_bit roster m bitmask = (if fst (snd m) = dx_get_message_type_name (fst m) then bitmask OR INDEX_BITMASK idx else bitmask)"
      using s True i by (simp add: add_bit_def roster_bit_def compare_strings_eq)
    moreover have "i < 32" using assms(2,3) by simp
    ultimately have "bit (add_bit roster m bitmask) i \<longleftrightarrow> bit bitmask i \<or> (i = idx \<and> fst (snd m) = dx_get_message_type_name (fst m))"
      using bit_index_bitmask [of i bitmask idx] by simp
    moreover have "(fst m = roster ! i) = (i = idx)" using e by metis
    ultimately show ?thesis by (cases "i = idx") simp_all
  next
    case False
    then have "fst m \<noteq> roster ! i" using r(1) assms(3) by auto
    then show ?thesis using s False by (simp add: add_bit_def roster_bit_def)
  qed
qed

lemma bit_add_bits:
  assumes "distinct roster" "length roster \<le> 32" "i < length roster"
  shows "bit (fold (add_bit roster) ms bitmask) i \<longleftrightarrow>
    bit bitmask i \<or> (\<exists>ps. (roster ! i, dx_get_message_type_name (roster ! i), ps) \<in> set ms)"
proof (induction ms arbitrary: bitmask)
  case (Cons m ms)
  show ?case using Cons bit_add_bit [OF assms, of m bitmask] by (cases m) auto
qed simp

lemma support_state:
  assumes "distinct roster" "length roster \<le> 32"
  shows "dx_get_msg_support_state msg roster bitmask \<longleftrightarrow> (\<exists>i < length roster. roster ! i = msg \<and> bit bitmask i)"
proof -
  obtain found idx where s: "DX_ARRAY_SEARCH roster 0 (length roster) msg DX_NUMERIC_COMPARATOR False = (found, idx)" by fastforce
  note r = roster_search [OF s]
  have b: "bitmask AND push_bit i 1 \<noteq> 0 \<longleftrightarrow> bit bitmask i" for i
    by (simp only: bit_iff_and_push_bit_not_eq_0)
  show ?thesis
  proof (cases found)
    case True
    then have i: "idx < length roster" "roster ! idx = msg" using r(2) by simp_all
    then show ?thesis using s True b [of idx] assms by (auto simp: dx_get_msg_support_state_def INDEX_BITMASK_def nth_eq_iff_index_eq)
  next
    case False
    then show ?thesis using s r(1) by (auto simp: dx_get_msg_support_state_def)
  qed
qed

lemma rosters: "distinct g_send_msg_roster" "length g_send_msg_roster \<le> 32" "distinct g_recv_msg_roster" "length g_recv_msg_roster \<le> 32"
  by code_simp+

end
