(* ===== verification/Dx_Subscription.thy ===== *)
theory Dx_Subscription
  imports Dx_Messages Dx_Symbol_Stream Dx_Fields
begin

text \<open>
  The subscription messages of \<open>src/ClientMessageProcessor.c\<close> (\<open>dx_compose_body\<close>,
  \<open>dx_subscribe_symbol_to_record\<close>), with \<open>dx_create_subscription_time\<close> of \<open>src/DataStructures.c\<close> and the
  time functions of \<open>src/DXAlgorithms.c\<close>.
\<close>

section \<open>Times in milliseconds\<close>

definition DX_TIME_SECOND :: int where "DX_TIME_SECOND = 1000"

definition dx_get_seconds_from_time :: "long64 \<Rightarrow> int32" where
  "dx_get_seconds_from_time millis =
     (if 0 \<le> sint millis then word_of_int (min (c_div (sint millis) DX_TIME_SECOND) INT_MAX)
      else word_of_int (max (c_div (sint millis + 1) DX_TIME_SECOND - 1) (- INT_MAX - 1)))"

definition dx_get_millis_from_time :: "long64 \<Rightarrow> int32" where
  "dx_get_millis_from_time millis =
     (let r = c_mod (sint millis) DX_TIME_SECOND
      in word_of_int (if r \<ge> 0 then r else r + DX_TIME_SECOND))"

lemma sint_of_small_int: "- (2 ^ 31) \<le> k \<Longrightarrow> k < 2 ^ 31 \<Longrightarrow> sint (word_of_int k :: int32) = k"
  using sint_sbintrunc' [of k, where 'a = 32] signed_take_bit_int_eq_self [of 31 k] by simp

lemma millis_mod: "sint (dx_get_millis_from_time t) = sint t mod 1000"
proof -
  have "(if c_mod n 1000 \<ge> 0 then c_mod n 1000 else c_mod n 1000 + 1000) = n mod 1000" for n :: int
    using pos_mod_bound [of 1000 n] by (auto simp: c_mod_def zmod_zminus1_eq_if)
  then have "dx_get_millis_from_time t = word_of_int (sint t mod 1000)"
    unfolding dx_get_millis_from_time_def Let_def DX_TIME_SECOND_def by simp
  moreover have "- (2 ^ 31) \<le> sint t mod 1000" "sint t mod 1000 < 2 ^ 31"
  proof -
    have b: "0 \<le> sint t mod 1000" "sint t mod 1000 < 1000" by simp_all
    show "- (2 ^ 31) \<le> sint t mod 1000" using b(1) by (rule order_trans [rotated]) simp
    show "sint t mod 1000 < 2 ^ 31" using b(2) by (rule order_less_trans) simp
  qed
  ultimately show ?thesis by (simp only: sint_of_small_int)
qed

lemma seconds_div:
  assumes "- INT_MAX - 1 \<le> sint t div 1000" "sint t div 1000 \<le> INT_MAX"
  shows "sint (dx_get_seconds_from_time t) = sint t div 1000"
proof -
  have "c_div (n + 1) 1000 - 1 = n div 1000" if "n < 0" for n :: int
  proof -
    define q r where "q = n div 1000" and "r = n mod 1000"
    have n: "n = 1000 * q + r" "0 \<le> r" "r < 1000" by (simp_all add: q_def r_def)
    have "(- n - 1) div 1000 = - q - 1"
      by (rule int_div_pos_eq [of _ _ _ "999 - r"]) (use n in simp_all)
    then have "(- n - 1) div 1000 = - (n div 1000) - 1" by (simp add: q_def)
    moreover have "n + 1 = 0 \<or> n + 1 < 0" using that by auto
    moreover have "- (n + 1) = - n - 1" by simp
    ultimately show ?thesis by (auto simp: c_div_def)
  qed
  then have "dx_get_seconds_from_time t = word_of_int (sint t div 1000)"
    using assms by (simp add: dx_get_seconds_from_time_def DX_TIME_SECOND_def c_div_def [of "sint t"])
  then show ?thesis using assms by (simp add: sint_of_small_int)
qed

section \<open>Subscription messages\<close>

definition is_seconds_field :: "int32 \<Rightarrow> bool" where
  "is_seconds_field type \<longleftrightarrow> (type AND dx_fid_flag_time_seconds) AND NOT dx_fid_flag_decimal \<noteq> 0"

text \<open>The loop over the fields of the record; it ends at the first place where both parts are known.\<close>

fun subscription_time_loop ::
  "int32 \<Rightarrow> int32 \<Rightarrow> dx_field_info list \<Rightarrow> long64 \<Rightarrow> bool \<Rightarrow> bool \<Rightarrow> bool \<Rightarrow> long64 \<times> bool" where
  "subscription_time_loop seconds millis [] subscription_time has_first has_second is_timed = (subscription_time, is_timed)"
| "subscription_time_loop seconds millis (field # rest) subscription_time has_first has_second is_timed =
     (let (subscription_time, has_first, has_second, is_timed) =
        (case field_time field of
           dx_ft_first_time_int_field \<Rightarrow>
             (subscription_time OR push_bit 32 (scast seconds), True, has_second, is_seconds_field (field_type field))
         | dx_ft_second_time_int_field \<Rightarrow> (subscription_time OR scast millis, has_first, True, is_timed)
         | dx_ft_common_field \<Rightarrow> (subscription_time, has_first, has_second, is_timed))
      in if has_first \<and> has_second then (subscription_time, is_timed)
         else subscription_time_loop seconds millis rest subscription_time has_first has_second is_timed)"

text \<open>\<open>record_info\<close>: the fields of the record that \<open>dx_get_record_by_id\<close> finds.\<close>

definition dx_create_subscription_time :: "dx_field_info list option \<Rightarrow> long64 \<Rightarrow> dx_error + long64" where
  "dx_create_subscription_time record_info time =
     (if time = 0 then Inr 0
      else case record_info of
        None \<Rightarrow> Inl dx_ec_invalid_func_param_internal
      | Some record_fields \<Rightarrow>
          let (subscription_time, is_timed) = subscription_time_loop (dx_get_seconds_from_time time)
                (dx_get_millis_from_time time) record_fields 0 False False False
          in Inr (if is_timed then subscription_time else time))"

definition dx_compose_body :: "(nat \<Rightarrow> bool) \<Rightarrow> int32 \<Rightarrow> int32 \<Rightarrow> dxf_char list option \<Rightarrow> (out_ctx, unit) io" where
  "dx_compose_body mem record_id cipher symbol =
     (if cipher = 0 \<and> symbol = None then fail dx_ec_invalid_func_param_internal
      else checked (dx_codec_write_symbol mem cipher symbol) (\<lambda>_. dx_write_compact_int mem record_id))"

definition write_subscription_time :: "(nat \<Rightarrow> bool) \<Rightarrow> int32 \<Rightarrow> dx_field_info list option \<Rightarrow> long64 \<Rightarrow> (out_ctx, unit) io" where
  "write_subscription_time mem type record_info time =
     (if type = MESSAGE_HISTORY_ADD_SUBSCRIPTION then
        (case dx_create_subscription_time record_info time of
           Inl e \<Rightarrow> fail e
         | Inr subscription_time \<Rightarrow> dx_write_compact_long mem subscription_time)
      else return ())"

text \<open>The result is the block with the message and the size of the message.\<close>

definition dx_subscribe_symbol_to_record ::
  "(nat \<Rightarrow> bool) \<Rightarrow> int32 \<Rightarrow> dxf_char list option \<Rightarrow> int32 \<Rightarrow> int32 \<Rightarrow> dx_field_info list option \<Rightarrow> long64
     \<Rightarrow> (out_ctx, (byte list \<times> int) option) io" where
  "dx_subscribe_symbol_to_record mem type symbol cipher record_id record_info time = (\<lambda>bocc.
     let initial_buffer_size = 100 in
     if \<not> dx_is_subscription_message type then (Inl dx_pec_unexpected_message_type_internal, bocc)
     else if \<not> mem initial_buffer_size then (Inl dx_mec_insufficient_memory, bocc)
     else
       checked (dx_compose_message_header mem type) (\<lambda>_.
       checked (dx_compose_body mem record_id cipher symbol) (\<lambda>_.
       checked (write_subscription_time mem type record_info time) (\<lambda>_.
       checked (dx_finish_composing_message mem) (\<lambda>_ bocc.
         (Inr (case out_buffer bocc of
            Some subscr_buffer \<Rightarrow>
              if current_out_buffer_position bocc > 0 then Some (subscr_buffer, current_out_buffer_position bocc) else None
          | None \<Rightarrow> None), bocc)))))
       (dx_set_out_buffer (Some (replicate initial_buffer_size 0)) (int initial_buffer_size) bocc))"

section \<open>The message that is sent\<close>

definition symbol_on_wire :: "int32 \<Rightarrow> dxf_char list option \<Rightarrow> byte list" where
  "symbol_on_wire cipher symbol =
     (if cipher \<noteq> 0 then (case dx_decode_cipher cipher of Inr penta \<Rightarrow> penta_bytes penta | Inl e \<Rightarrow> [])
      else (case symbol of Some s \<Rightarrow> 0xFD # compact_int_bytes (word_of_nat (length s)) @ symbol_bytes s | None \<Rightarrow> [0xFF]))"

definition subscription_time_bytes :: "int32 \<Rightarrow> dx_field_info list option \<Rightarrow> long64 \<Rightarrow> byte list" where
  "subscription_time_bytes type record_info time =
     (if type = MESSAGE_HISTORY_ADD_SUBSCRIPTION then
        (case dx_create_subscription_time record_info time of Inr t \<Rightarrow> compact_long_bytes t | Inl e \<Rightarrow> []) else [])"

definition subscription_body :: "int32 \<Rightarrow> dxf_char list option \<Rightarrow> int32 \<Rightarrow> int32 \<Rightarrow> dx_field_info list option \<Rightarrow> long64 \<Rightarrow> byte list" where
  "subscription_body type symbol cipher record_id record_info time =
     symbol_on_wire cipher symbol @ compact_int_bytes record_id @ subscription_time_bytes type record_info time"

lemma fresh_block: "int n \<le> INT_MAX \<Longrightarrow> wf_out (dx_set_out_buffer (Some (replicate n 0)) (int n) bocc)"
  by (simp add: wf_out_def dx_set_out_buffer_def)

lemma fresh_written: "written (dx_set_out_buffer (Some (replicate n 0)) (int n) bocc) = []"
  by (simp add: written_def dx_set_out_buffer_def)

definition subscription_valid :: "int32 \<Rightarrow> dxf_char list option \<Rightarrow> int32 \<Rightarrow> dx_field_info list option \<Rightarrow> long64 \<Rightarrow> bool" where
  "subscription_valid type symbol cipher record_info time \<longleftrightarrow> dx_is_subscription_message type
     \<and> (if cipher \<noteq> 0 then \<exists>penta. dx_decode_cipher cipher = Inr penta else symbol \<noteq> None)
     \<and> (type = MESSAGE_HISTORY_ADD_SUBSCRIPTION \<longrightarrow> time \<noteq> 0 \<longrightarrow> record_info \<noteq> None)"

lemma sends_symbol_on_wire:
  assumes "if cipher \<noteq> 0 then \<exists>penta. dx_decode_cipher cipher = Inr penta else symbol \<noteq> None"
  shows "\<exists>need. sends need (dx_codec_write_symbol mem cipher symbol) (symbol_on_wire cipher symbol)"
proof (cases "cipher = 0")
  case True
  then obtain s where "symbol = Some s" using assms by auto
  with True sends_symbol [of s mem] show ?thesis by (auto simp: symbol_on_wire_def)
next
  case False
  then obtain penta where "dx_decode_cipher cipher = Inr penta" using assms by auto
  with False sends_symbol_cipher [of cipher penta mem symbol] show ?thesis by (auto simp: symbol_on_wire_def)
qed

lemma subscription_time_ok:
  "time \<noteq> 0 \<longrightarrow> record_info \<noteq> None \<Longrightarrow> \<exists>t. dx_create_subscription_time record_info time = Inr t"
  by (auto simp: dx_create_subscription_time_def split: prod.splits)

lemma sends_subscription_body:
  assumes "subscription_valid type symbol cipher record_info time"
  shows "\<exists>need. sends need (checked (dx_compose_body mem record_id cipher symbol) (\<lambda>_. write_subscription_time mem type record_info time))
    (subscription_body type symbol cipher record_id record_info time)"
proof -
  have sym: "if cipher \<noteq> 0 then \<exists>penta. dx_decode_cipher cipher = Inr penta else symbol \<noteq> None"
    using assms by (simp add: subscription_valid_def)
  from sends_symbol_on_wire [OF sym] obtain need where a: "sends need (dx_codec_write_symbol mem cipher symbol) (symbol_on_wire cipher symbol)" by blast
  have "\<not> (cipher = 0 \<and> symbol = None)" using sym by auto
  then have body: "dx_compose_body mem record_id cipher symbol = checked (dx_codec_write_symbol mem cipher symbol) (\<lambda>_. dx_write_compact_int mem record_id)"
    unfolding dx_compose_body_def by (rule if_not_P)
  have t: "sends 9 (write_subscription_time mem type record_info time) (subscription_time_bytes type record_info time)"
  proof (cases "type = MESSAGE_HISTORY_ADD_SUBSCRIPTION")
    case True
    then obtain t where "dx_create_subscription_time record_info time = Inr t"
      using assms subscription_time_ok unfolding subscription_valid_def by blast
    with True sends_compact_long [of mem t] show ?thesis by (simp add: write_subscription_time_def subscription_time_bytes_def)
  next
    case False
    then show ?thesis using sends_mono [OF sends_return [of "()"], of 9] by (simp add: write_subscription_time_def subscription_time_bytes_def)
  qed
  let ?need = "need + length (symbol_on_wire cipher symbol) + 20"
  have i: "sends 14 (checked (dx_write_compact_int mem record_id) (\<lambda>_. write_subscription_time mem type record_info time))
      (compact_int_bytes record_id @ subscription_time_bytes type record_info time)"
    by (rule sends_seq [OF sends_compact_int t]) (use length_compact_int_bytes(2) [of record_id] in simp_all)
  have "sends ?need (checked (dx_codec_write_symbol mem cipher symbol) (\<lambda>_. checked (dx_write_compact_int mem record_id)
      (\<lambda>_. write_subscription_time mem type record_info time))) (subscription_body type symbol cipher record_id record_info time)"
    unfolding subscription_body_def by (rule sends_seq [OF a i]) simp_all
  then show ?thesis unfolding body checked_assoc by blast
qed

text \<open>
  C20: A subscription request for a record and a symbol that the code accepts is composed, whenever
  memory suffices, into one framed message: the symbol, the record and, for history, the time.  It
  fails only for want of memory.
\<close>

theorem subscription_composed:
  assumes "subscription_valid type symbol cipher record_info time"
    and "length (subscription_body type symbol cipher record_id record_info time) < 2 ^ 28"
  shows "case fst (dx_subscribe_symbol_to_record mem type symbol cipher record_id record_info time bocc) of
      Inl e \<Rightarrow> e \<in> {dx_mec_insufficient_memory, dx_bioec_buffer_overflow}
    | Inr None \<Rightarrow> False
    | Inr (Some (block, n)) \<Rightarrow> 0 \<le> n \<and> n \<le> int (length block) \<and>
        take (nat n) block = frame type (subscription_body type symbol cipher record_id record_info time)"
proof (cases "mem 100")
  case False
  then show ?thesis using assms(1) by (simp add: dx_subscribe_symbol_to_record_def subscription_valid_def Let_def)
next
  case True
  let ?c0 = "dx_set_out_buffer (Some (replicate 100 0)) (int 100) bocc"
  let ?body = "checked (dx_compose_body mem record_id cipher symbol) (\<lambda>_. write_subscription_time mem type record_info time)"
  let ?bytes = "subscription_body type symbol cipher record_id record_info time"
  obtain need where s: "sends need ?body ?bytes" using sends_subscription_body [OF assms(1)] by blast
  obtain r c where e: "checked (dx_compose_message_header mem type) (\<lambda>_. checked ?body (\<lambda>_. dx_finish_composing_message mem)) ?c0 = (r, c)"
    by fastforce
  have wf0: "wf_out ?c0" by (rule fresh_block) simp
  note sp = compose_spec [OF wf0 fresh_written s assms(2) e]
  have d: "dx_subscribe_symbol_to_record mem type symbol cipher record_id record_info time bocc =
     checked (checked (dx_compose_message_header mem type) (\<lambda>_. checked ?body (\<lambda>_. dx_finish_composing_message mem)))
      (\<lambda>_ bocc. (Inr (case out_buffer bocc of
            Some subscr_buffer \<Rightarrow>
              if current_out_buffer_position bocc > 0 then Some (subscr_buffer, current_out_buffer_position bocc) else None
          | None \<Rightarrow> None), bocc)) ?c0"
    using assms(1) True unfolding dx_subscribe_symbol_to_record_def subscription_valid_def Let_def checked_assoc by simp
  show ?thesis
  proof (cases r)
    case (Inl err)
    then show ?thesis using d e sp by (simp add: io_simps)
  next
    case (Inr u)
    then have w: "wf_out c" "written c = frame type ?bytes" using sp by simp_all
    have "frame type ?bytes \<noteq> []" using length_compact_int_bytes(1) [of type] by (auto simp: frame_def Let_def)
    then have "0 < current_out_buffer_position c" using w position_written by fastforce
    then show ?thesis using d e Inr w by (auto simp: io_simps written_def wf_out_def)
  qed
qed

theorem subscription_composed_witness:
  "case fst (dx_subscribe_symbol_to_record (\<lambda>_. True) MESSAGE_TICKER_ADD_SUBSCRIPTION None 0x40000041 5 None 0 (new_out 8)) of
     Inr (Some (block, n)) \<Rightarrow> take (nat n) block = [4, 11, 0x00, 0x41, 5]
   | _ \<Rightarrow> False"
proof -
  let ?run = "dx_subscribe_symbol_to_record (\<lambda>_. True) MESSAGE_TICKER_ADD_SUBSCRIPTION None 0x40000041 5 None 0 (new_out 8)"
  let ?body = "subscription_body MESSAGE_TICKER_ADD_SUBSCRIPTION None 0x40000041 5 None 0"
  have "dx_is_subscription_message MESSAGE_TICKER_ADD_SUBSCRIPTION" "dx_decode_cipher 0x40000041 = Inr 0x41" by code_simp+
  then have v: "subscription_valid MESSAGE_TICKER_ADD_SUBSCRIPTION None 0x40000041 None 0"
    by (simp add: subscription_valid_def)
  have b: "?body = [0x00, 0x41, 5]" "frame MESSAGE_TICKER_ADD_SUBSCRIPTION ?body = [4, 11, 0x00, 0x41, 5]" by code_simp+
  have "case fst ?run of Inl _ \<Rightarrow> False | Inr _ \<Rightarrow> True" by code_simp
  with subscription_composed [OF v, where record_id = 5 and mem = "\<lambda>_. True" and bocc = "new_out 8"] b
  show ?thesis by (auto split: sum.splits option.splits)
qed


end
