(* ===== verification/Dx_Protocol_Client.thy ===== *)
theory Dx_Protocol_Client
  imports Dx_Protocol Dx_Subscription
begin

text \<open>
  The description that the client sends (\<open>src/ClientMessageProcessor.c\<close>).
\<close>

section \<open>The description that the client sends\<close>

definition dx_write_describe_protocol_magic :: "(nat \<Rightarrow> bool) \<Rightarrow> (out_ctx, unit) io" where
  "dx_write_describe_protocol_magic mem =
     checked (dx_write_byte mem 0x44) (\<lambda>_.
     checked (dx_write_byte mem 0x58) (\<lambda>_.
     checked (dx_write_byte mem 0x50) (\<lambda>_.
     dx_write_byte mem 0x33)))"

fun write_properties :: "(nat \<Rightarrow> bool) \<Rightarrow> property_item list \<Rightarrow> (out_ctx, unit) io" where
  "write_properties mem [] = return ()"
| "write_properties mem (item # items) =
     checked (dx_write_utf_string mem (item_key item)) (\<lambda>_.
     checked (dx_write_utf_string mem (item_value item)) (\<lambda>_.
     write_properties mem items))"

definition dx_write_describe_protocol_properties :: "(nat \<Rightarrow> bool) \<Rightarrow> property_map \<Rightarrow> (out_ctx, unit) io" where
  "dx_write_describe_protocol_properties mem properties =
     checked (dx_write_compact_int mem (word_of_nat (arr_size properties))) (\<lambda>_.
     write_properties mem (contents properties))"

fun write_messages :: "(nat \<Rightarrow> bool) \<Rightarrow> int32 list \<Rightarrow> (out_ctx, unit) io" where
  "write_messages mem [] = return ()"
| "write_messages mem (msg # msgs) =
     checked (dx_write_compact_int mem msg) (\<lambda>_.
     checked (dx_write_utf_string mem (Some (dx_get_message_type_name msg))) (\<lambda>_.
     checked (dx_write_compact_int mem 0) (\<lambda>_.
     write_messages mem msgs)))"

definition dx_write_describe_protocol_message_data :: "(nat \<Rightarrow> bool) \<Rightarrow> int32 list \<Rightarrow> (out_ctx, unit) io" where
  "dx_write_describe_protocol_message_data mem msg_roster =
     checked (dx_write_compact_int mem (word_of_nat (length msg_roster))) (\<lambda>_. write_messages mem msg_roster)"

definition dx_write_describe_protocol_sends :: "(nat \<Rightarrow> bool) \<Rightarrow> (out_ctx, unit) io" where
  "dx_write_describe_protocol_sends mem = dx_write_describe_protocol_message_data mem g_send_msg_roster"

definition dx_write_describe_protocol_recvs :: "(nat \<Rightarrow> bool) \<Rightarrow> (out_ctx, unit) io" where
  "dx_write_describe_protocol_recvs mem = dx_write_describe_protocol_message_data mem g_recv_msg_roster"

definition DX_LIBRARY_VERSION :: "dxf_char list" where
  "DX_LIBRARY_VERSION = wide ''DXFeed.cpp v 8.0.1 (c) Devexperts LLC''"

text \<open>
  \<open>dx_send_protocol_description\<close> in the worker thread, up to the call of \<open>dx_send_data\<close>: the state is
  the property map of the connection and the buffered output, the result the bytes to send.
\<close>

definition dx_send_protocol_description ::
  "(nat \<Rightarrow> bool) \<Rightarrow> property_map \<Rightarrow> out_ctx \<Rightarrow> (dx_error + byte list) \<times> property_map \<times> out_ctx" where
  "dx_send_protocol_description mem props bocc =
     (case dx_property_map_set mem (Some (wide ''version'')) (Some DX_LIBRARY_VERSION) props of
        (Inl e, props) \<Rightarrow> (Inl e, props, bocc)
      | (Inr _, props) \<Rightarrow>
          (case dx_property_map_set mem (Some (wide ''opt'')) (Some (wide ''hs'')) props of
             (Inl e, props) \<Rightarrow> (Inl e, props, bocc)
           | (Inr _, props) \<Rightarrow>
               if \<not> mem 1024 then (Inl dx_mec_insufficient_memory, props, bocc)
               else
                 (case checked (dx_compose_message_header mem MESSAGE_DESCRIBE_PROTOCOL) (\<lambda>_.
                       checked (dx_write_describe_protocol_magic mem) (\<lambda>_.
                       checked (dx_write_describe_protocol_properties mem props) (\<lambda>_.
                       checked (dx_write_describe_protocol_sends mem) (\<lambda>_.
                       checked (dx_write_describe_protocol_recvs mem) (\<lambda>_.
                       dx_finish_composing_message mem)))))
                       (dx_set_out_buffer (Some (replicate 1024 0)) 1024 bocc) of
                    (Inl e, bocc) \<Rightarrow> (Inl e, props, bocc)
                  | (Inr _, bocc) \<Rightarrow> (Inr (written bocc), props, bocc))))"

section \<open>What is sent\<close>

definition roster_support :: "int32 list \<Rightarrow> message_support list" where
  "roster_support msgs = map (\<lambda>msg. (msg, dx_get_message_type_name msg, [])) msgs"

definition property_list :: "property_map \<Rightarrow> property list" where
  "property_list props = map (\<lambda>item. (key_string item, value_string item)) (contents props)"

definition sendable :: "(out_ctx, unit) io \<Rightarrow> byte list \<Rightarrow> bool" where
  "sendable w bs \<longleftrightarrow> (\<exists>need. sends need w bs)"

lemma sendable_seq: "sendable a xs \<Longrightarrow> sendable b ys \<Longrightarrow> sendable (checked a (\<lambda>_. b)) (xs @ ys)"
proof -
  assume "sendable a xs" "sendable b ys"
  then obtain n m where "sends n a xs" "sends m b ys" unfolding sendable_def by blast
  from sends_seq [OF this, of "n + length xs + m"] show ?thesis unfolding sendable_def by auto
qed

lemma sendable_return: "sendable (return ()) []"
  unfolding sendable_def using sends_return [of "()"] by blast

lemma sendable_compact_int: "sendable (dx_write_compact_int mem v) (compact_int_bytes v)"
  unfolding sendable_def using sends_compact_int by blast

lemma sendable_string: "length (utf8_bytes s) < 2 ^ 31 \<Longrightarrow> sendable (dx_write_utf_string mem (Some s)) (string_bytes s)"
  unfolding sendable_def string_bytes_def using sends_utf_string by blast

lemma sendable_properties:
  assumes "\<forall>item \<in> set items. has_strings item" "\<forall>(k, v) \<in> (\<lambda>item. (key_string item, value_string item)) ` set items. string_ok k \<and> string_ok v"
  shows "sendable (write_properties mem items)
    (concat (map (\<lambda>(k, v). string_bytes k @ string_bytes v) (map (\<lambda>item. (key_string item, value_string item)) items)))"
  using assms
proof (induction items)
  case Nil
  show ?case by (simp add: sendable_return)
next
  case (Cons item items)
  then have i: "item_key item = Some (key_string item)" "item_value item = Some (value_string item)"
    "string_ok (key_string item)" "string_ok (value_string item)"
    by (auto simp: has_strings_def key_string_def value_string_def)
  have "sendable (write_properties mem (item # items)) (string_bytes (key_string item) @ (string_bytes (value_string item) @
      concat (map (\<lambda>(k, v). string_bytes k @ string_bytes v) (map (\<lambda>item. (key_string item, value_string item)) items))))"
    unfolding write_properties.simps i(1,2) using Cons i(3,4)
    by (intro sendable_seq sendable_string Cons.IH) (auto simp: string_ok_def)
  then show ?case by simp
qed

lemma sendable_messages:
  assumes "\<forall>msg \<in> set msgs. length (utf8_bytes (dx_get_message_type_name msg)) < 2 ^ 31"
  shows "sendable (write_messages mem msgs)
    (concat (map (\<lambda>(id, name, ps). compact_int_bytes id @ string_bytes name @ properties_bytes ps) (roster_support msgs)))"
  using assms
proof (induction msgs)
  case Nil
  show ?case by (simp add: sendable_return roster_support_def)
next
  case (Cons msg msgs)
  have e: "properties_bytes [] = compact_int_bytes 0" by (simp add: properties_bytes_def)
  have "sendable (write_messages mem (msg # msgs)) (compact_int_bytes msg @ (string_bytes (dx_get_message_type_name msg) @
      (compact_int_bytes 0 @ concat (map (\<lambda>(id, name, ps). compact_int_bytes id @ string_bytes name @ properties_bytes ps) (roster_support msgs)))))"
    unfolding write_messages.simps using Cons
    by (intro sendable_seq sendable_string sendable_compact_int Cons.IH) simp_all
  then show ?case by (simp add: roster_support_def e)
qed

lemma sendable_roster:
  assumes "\<forall>msg \<in> set msgs. length (utf8_bytes (dx_get_message_type_name msg)) < 2 ^ 31"
  shows "sendable (dx_write_describe_protocol_message_data mem msgs) (message_list_bytes (roster_support msgs))"
proof -
  have "length (roster_support msgs) = length msgs" by (simp add: roster_support_def)
  then show ?thesis unfolding dx_write_describe_protocol_message_data_def message_list_bytes_def
    using sendable_messages [OF assms] by (intro sendable_seq) (simp_all add: sendable_compact_int)
qed

lemma roster_names: "\<forall>msg \<in> set g_send_msg_roster. length (utf8_bytes (dx_get_message_type_name msg)) < 2 ^ 31"
  "\<forall>msg \<in> set g_recv_msg_roster. length (utf8_bytes (dx_get_message_type_name msg)) < 2 ^ 31"
proof -
  have "\<forall>msg \<in> set g_send_msg_roster. length (utf8_bytes (dx_get_message_type_name msg)) < 40"
    "\<forall>msg \<in> set g_recv_msg_roster. length (utf8_bytes (dx_get_message_type_name msg)) < 40"
    by code_simp+
  then show "\<forall>msg \<in> set g_send_msg_roster. length (utf8_bytes (dx_get_message_type_name msg)) < 2 ^ 31"
    "\<forall>msg \<in> set g_recv_msg_roster. length (utf8_bytes (dx_get_message_type_name msg)) < 2 ^ 31"
    by auto
qed

lemma sendable_magic: "sendable (dx_write_describe_protocol_magic mem) (int_bytes 0x44585033)"
proof -
  have b: "sendable (dx_write_byte mem v) [v]" for v unfolding sendable_def using sends_byte by blast
  have e: "int_bytes 0x44585033 = [0x44] @ [0x58] @ [0x50] @ [0x33]" by code_simp
  show ?thesis unfolding dx_write_describe_protocol_magic_def e by (intro sendable_seq b)
qed

lemma sendable_description:
  assumes "wf_props props" "properties_ok (property_list props)"
  shows "sendable (checked (dx_write_describe_protocol_magic mem) (\<lambda>_.
    checked (dx_write_describe_protocol_properties mem props) (\<lambda>_.
    checked (dx_write_describe_protocol_sends mem) (\<lambda>_. dx_write_describe_protocol_recvs mem))))
    (describe_protocol_bytes (property_list props) (roster_support g_send_msg_roster) (roster_support g_recv_msg_roster))"
proof -
  have n: "arr_size props = length (property_list props)"
    using length_contents [of props] assms(1) by (simp add: wf_props_def property_list_def)
  have "sendable (write_properties mem (contents props)) (concat (map (\<lambda>(k, v). string_bytes k @ string_bytes v) (property_list props)))"
    using assms unfolding property_list_def by (intro sendable_properties) (auto simp: wf_props_def properties_ok_def property_list_def)
  then have p: "sendable (dx_write_describe_protocol_properties mem props) (properties_bytes (property_list props))"
    unfolding dx_write_describe_protocol_properties_def properties_bytes_def n by (intro sendable_seq sendable_compact_int)
  show ?thesis unfolding describe_protocol_bytes_def dx_write_describe_protocol_sends_def dx_write_describe_protocol_recvs_def
    by (intro sendable_seq sendable_magic p sendable_roster roster_names)
qed

lemma property_list_map: "map_of (property_list props) = props_map props"
  by (simp add: property_list_def item_map_def)

text \<open>
  C21: The description that the client sends is the one message with the properties of the connection,
  among them the version of the library and the option \<open>hs\<close>, the messages it sends and the messages
  it receives; when it is not sent the only reason is memory.
\<close>

theorem description_composed:
  assumes "wf_props props" "dx_send_protocol_description mem props bocc = (r, props', bocc')"
    and "properties_ok (property_list props')"
    and "length (describe_protocol_bytes (property_list props') (roster_support g_send_msg_roster) (roster_support g_recv_msg_roster)) < 2 ^ 28"
  shows "case r of
      Inl e \<Rightarrow> e \<in> {dx_mec_insufficient_memory, dx_bioec_buffer_overflow}
    | Inr message \<Rightarrow>
        message = frame MESSAGE_DESCRIBE_PROTOCOL
          (describe_protocol_bytes (property_list props') (roster_support g_send_msg_roster) (roster_support g_recv_msg_roster))
        \<and> wf_props props' \<and> map_of (property_list props') =
            (props_map props)(wide ''version'' \<mapsto> DX_LIBRARY_VERSION, wide ''opt'' \<mapsto> wide ''hs'')"
proof -
  obtain r1 p1 where s1: "dx_property_map_set mem (Some (wide ''version'')) (Some DX_LIBRARY_VERSION) props = (r1, p1)" by fastforce
  note sp1 = set_spec [OF assms(1) s1]
  show ?thesis
  proof (cases r1)
    case (Inl e)
    then show ?thesis using sp1 s1 assms(2) by (auto simp: dx_send_protocol_description_def)
  next
    case r1: (Inr u1)
    then have w1: "wf_props p1" "props_map p1 = (props_map props)(wide ''version'' \<mapsto> DX_LIBRARY_VERSION)" using sp1 by simp_all
    obtain r2 p2 where s2: "dx_property_map_set mem (Some (wide ''opt'')) (Some (wide ''hs'')) p1 = (r2, p2)" by fastforce
    note sp2 = set_spec [OF w1(1) s2]
    show ?thesis
    proof (cases "r2 = Inr () \<and> mem 1024")
      case False
      then show ?thesis using sp2 s1 s2 r1 assms(2) by (cases r2) (auto simp: dx_send_protocol_description_def)
    next
      case True
      then have w2: "wf_props p2" "props_map p2 = (props_map p1)(wide ''opt'' \<mapsto> wide ''hs'')" using sp2 by simp_all
      let ?c0 = "dx_set_out_buffer (Some (replicate 1024 0)) (int 1024) bocc"
      let ?body = "checked (dx_write_describe_protocol_magic mem) (\<lambda>_.
        checked (dx_write_describe_protocol_properties mem p2) (\<lambda>_.
        checked (dx_write_describe_protocol_sends mem) (\<lambda>_. dx_write_describe_protocol_recvs mem)))"
      obtain rc c where e: "checked (dx_compose_message_header mem MESSAGE_DESCRIBE_PROTOCOL)
          (\<lambda>_. checked ?body (\<lambda>_. dx_finish_composing_message mem)) ?c0 = (rc, c)" by fastforce
      have p2: "props' = p2" "r = map_sum id (\<lambda>_. written c) rc"
        using assms(2) s1 s2 r1 True e unfolding checked_assoc by (cases rc; auto simp: dx_send_protocol_description_def)+
      obtain need where s: "sends need ?body (describe_protocol_bytes (property_list p2) (roster_support g_send_msg_roster) (roster_support g_recv_msg_roster))"
        using sendable_description [OF w2(1)] assms(3) p2(1) unfolding sendable_def by blast
      have wf0: "wf_out ?c0" by (rule fresh_block) simp
      have len: "length (describe_protocol_bytes (property_list p2) (roster_support g_send_msg_roster) (roster_support g_recv_msg_roster)) < 2 ^ 28"
        using assms(4) p2(1) by simp
      note sp = compose_spec [OF wf0 fresh_written s len e]
      show ?thesis using sp p2 w1 w2 by (cases rc) (simp_all add: property_list_map)
    qed
  qed
qed

theorem description_composed_witness:
  "case fst (dx_send_protocol_description (\<lambda>_. True) \<lparr>elements = [], arr_size = 0, capacity = 0\<rparr> (new_out 8)) of
     Inl e \<Rightarrow> e \<in> {dx_mec_insufficient_memory, dx_bioec_buffer_overflow}
   | Inr message \<Rightarrow> message = frame MESSAGE_DESCRIBE_PROTOCOL (describe_protocol_bytes
       [(wide ''opt'', wide ''hs''), (wide ''version'', DX_LIBRARY_VERSION)]
       (roster_support g_send_msg_roster) (roster_support g_recv_msg_roster))"
proof -
  let ?i1 = "\<lparr>item_key = Some (wide ''version''), item_value = Some DX_LIBRARY_VERSION\<rparr>"
  let ?i2 = "\<lparr>item_key = Some (wide ''opt''), item_value = Some (wide ''hs'')\<rparr>"
  obtain p1 where s1: "dx_property_map_set (\<lambda>_. True) (Some (wide ''version'')) (Some DX_LIBRARY_VERSION) \<lparr>elements = [], arr_size = 0, capacity = 0\<rparr> = (Inr (), p1)"
    using set_succeeds [OF wf_props_empty(1)] by blast
  have w1: "wf_props p1" using set_spec [OF wf_props_empty(1) s1] by simp
  obtain p2 where s2: "dx_property_map_set (\<lambda>_. True) (Some (wide ''opt'')) (Some (wide ''hs'')) p1 = (Inr (), p2)"
    using set_succeeds [OF w1] by blast
  have "contents (snd (dx_property_map_set (\<lambda>_. True) (Some (wide ''opt'')) (Some (wide ''hs''))
      (snd (dx_property_map_set (\<lambda>_. True) (Some (wide ''version'')) (Some DX_LIBRARY_VERSION) \<lparr>elements = [], arr_size = 0, capacity = 0\<rparr>)))) = [?i2, ?i1]"
    by code_simp
  then have pl: "property_list p2 = [(wide ''opt'', wide ''hs''), (wide ''version'', DX_LIBRARY_VERSION)]"
    using s1 s2 by (simp add: property_list_def key_string_def value_string_def)
  obtain r props' bocc' where e: "dx_send_protocol_description (\<lambda>_. True) \<lparr>elements = [], arr_size = 0, capacity = 0\<rparr> (new_out 8) = (r, props', bocc')"
    by (metis prod.exhaust)
  then have p': "props' = p2" using s1 s2 by (auto simp: dx_send_protocol_description_def split: prod.splits sum.splits)
  have "list_all (\<lambda>s. no_pairs s \<and> 0 \<notin> set s \<and> length (utf8_bytes s) < 60)
      [wide ''opt'', wide ''hs'', wide ''version'', DX_LIBRARY_VERSION]" by code_simp
  then have ok: "properties_ok (property_list props')" unfolding p' pl by (simp add: properties_ok_def string_ok_def)
  have "length (describe_protocol_bytes [(wide ''opt'', wide ''hs''), (wide ''version'', DX_LIBRARY_VERSION)]
      (roster_support g_send_msg_roster) (roster_support g_recv_msg_roster)) < 600" by code_simp
  then have len: "length (describe_protocol_bytes (property_list props') (roster_support g_send_msg_roster) (roster_support g_recv_msg_roster)) < 2 ^ 28"
    unfolding p' pl by (rule order_less_trans) simp
  from description_composed [OF wf_props_empty(1) e ok len] e show ?thesis unfolding p' pl by (cases r) simp_all
qed

end
