(* ===== verification/Dx_Heartbeat.thy ===== *)
theory Dx_Heartbeat
  imports Dx_Messages
begin

text \<open>
  \<open>src/HeartbeatPayload.cpp\<close>: the payload of a heartbeat, its parser and its composer, and
  \<open>writeHeartbeatMessage\<close> of \<open>src/BinaryQTPComposer.cpp\<close>.
\<close>

section \<open>Heartbeats\<close>

record heartbeat_payload =
  contentMask :: int32
  timeMillis :: long64
  timeMark :: int32
  deltaMark :: int32
  lagMark :: int32

definition TIME_MILLIS :: int32 where "TIME_MILLIS = 0x1"
definition TIME_MARK :: int32 where "TIME_MARK = 0x2"
definition DELTA_MARK :: int32 where "DELTA_MARK = 0x4"
definition LAG_MARK :: int32 where "LAG_MARK = 0x8"

definition has_content :: "int32 \<Rightarrow> int32 \<Rightarrow> bool" where
  "has_content bits content \<longleftrightarrow> bits AND content \<noteq> 0"

definition parseFrom :: "(in_ctx, heartbeat_payload) io" where
  "parseFrom =
     checked dx_read_compact_int (\<lambda>bits.
     checked (if has_content bits TIME_MILLIS then dx_read_compact_long else return 0) (\<lambda>millis.
     checked (if has_content bits TIME_MARK then dx_read_compact_int else return 0) (\<lambda>mark.
     checked (if has_content bits DELTA_MARK then dx_read_compact_int else return 0) (\<lambda>delta.
     checked (if has_content bits LAG_MARK then dx_read_compact_int else return 0) (\<lambda>lag.
     return \<lparr>contentMask = bits, timeMillis = millis, timeMark = mark, deltaMark = delta, lagMark = lag\<rparr>)))))"

definition composeTo :: "(nat \<Rightarrow> bool) \<Rightarrow> heartbeat_payload \<Rightarrow> (out_ctx, unit) io" where
  "composeTo mem p =
     checked (dx_write_compact_int mem (contentMask p)) (\<lambda>_.
     checked (if has_content (contentMask p) TIME_MILLIS then dx_write_compact_long mem (timeMillis p) else return ()) (\<lambda>_.
     checked (if has_content (contentMask p) TIME_MARK then dx_write_compact_int mem (timeMark p) else return ()) (\<lambda>_.
     checked (if has_content (contentMask p) DELTA_MARK then dx_write_compact_int mem (deltaMark p) else return ()) (\<lambda>_.
     if has_content (contentMask p) LAG_MARK then dx_write_compact_int mem (lagMark p) else return ()))))"

definition writeHeartbeatMessage :: "(nat \<Rightarrow> bool) \<Rightarrow> heartbeat_payload \<Rightarrow> (out_ctx, unit) io" where
  "writeHeartbeatMessage mem p =
     checked (dx_compose_message_header mem MESSAGE_HEARTBEAT) (\<lambda>_.
     checked (composeTo mem p) (\<lambda>_. dx_finish_composing_message mem))"


section \<open>The bytes of a payload\<close>

definition heartbeat_bytes :: "heartbeat_payload \<Rightarrow> byte list" where
  "heartbeat_bytes p = compact_int_bytes (contentMask p)
     @ (if has_content (contentMask p) TIME_MILLIS then compact_long_bytes (timeMillis p) else [])
     @ (if has_content (contentMask p) TIME_MARK then compact_int_bytes (timeMark p) else [])
     @ (if has_content (contentMask p) DELTA_MARK then compact_int_bytes (deltaMark p) else [])
     @ (if has_content (contentMask p) LAG_MARK then compact_int_bytes (lagMark p) else [])"

text \<open>The receiver leaves out what the mask leaves out.\<close>

definition transmitted :: "heartbeat_payload \<Rightarrow> heartbeat_payload" where
  "transmitted p = \<lparr>contentMask = contentMask p,
     timeMillis = (if has_content (contentMask p) TIME_MILLIS then timeMillis p else 0),
     timeMark = (if has_content (contentMask p) TIME_MARK then timeMark p else 0),
     deltaMark = (if has_content (contentMask p) DELTA_MARK then deltaMark p else 0),
     lagMark = (if has_content (contentMask p) LAG_MARK then lagMark p else 0)\<rparr>"

lemma sends_if_return:
  "(c \<Longrightarrow> sends n w bs) \<Longrightarrow> sends n (if c then w else return ()) (if c then bs else [])"
  using sends_mono [OF sends_return [of "()"], of n] by simp

lemma length_compact_long_bytes: "length (compact_long_bytes v) \<le> 9"
proof -
  have "length (compact_int_bytes w) \<le> 9" "length (long_head_bytes w) \<le> 5" for w
    using length_compact_int_bytes(2) [of w] length_long_head_bytes(2) [of w] by simp_all
  then show ?thesis by (simp add: compact_long_bytes_def)
qed

lemma sends_heartbeat: "sends 29 (composeTo mem p) (heartbeat_bytes p)"
proof -
  note i = sends_if_return [OF sends_compact_int [of mem]]
  have l: "length (if c then compact_int_bytes v else []) \<le> 5" "length (compact_int_bytes v) \<le> 5"
    "length (if c then compact_long_bytes x else []) \<le> 9" for c v x
    using length_compact_int_bytes(2) [of v] length_compact_long_bytes [of x] by simp_all
  show ?thesis unfolding composeTo_def heartbeat_bytes_def
    by (rule sends_seq [OF sends_compact_int, where ?n2.0 = 24], rule sends_seq [OF sends_if_return [OF sends_compact_long], where ?n2.0 = 15],
        rule sends_seq [OF i, where ?n2.0 = 10], rule sends_seq [OF i, where ?n2.0 = 5], rule i)
      (use l in \<open>simp_all add: add_mono\<close>)
qed

lemma receives_if_return:
  "(c \<Longrightarrow> receives r bs v) \<Longrightarrow> receives (if c then r else return d) (if c then bs else []) (if c then v else d)"
  using receives_return [of d] by simp

lemma receives_heartbeat:
  assumes "has_content (contentMask p) TIME_MILLIS \<Longrightarrow> \<not> lost_sign_long (timeMillis p)"
  shows "receives parseFrom (heartbeat_bytes p) (transmitted p)"
  unfolding parseFrom_def heartbeat_bytes_def
proof (rule receives_seq [OF receives_compact_int])
  note i = receives_if_return [OF receives_compact_int]
  let ?c = "has_content (contentMask p)"
  show "receives (checked (if ?c TIME_MILLIS then dx_read_compact_long else return 0) (\<lambda>millis.
     checked (if ?c TIME_MARK then dx_read_compact_int else return 0) (\<lambda>mark.
     checked (if ?c DELTA_MARK then dx_read_compact_int else return 0) (\<lambda>delta.
     checked (if ?c LAG_MARK then dx_read_compact_int else return 0) (\<lambda>lag.
     return \<lparr>contentMask = contentMask p, timeMillis = millis, timeMark = mark, deltaMark = delta, lagMark = lag\<rparr>)))))
    ((if ?c TIME_MILLIS then compact_long_bytes (timeMillis p) else [])
     @ (if ?c TIME_MARK then compact_int_bytes (timeMark p) else [])
     @ (if ?c DELTA_MARK then compact_int_bytes (deltaMark p) else [])
     @ (if ?c LAG_MARK then compact_int_bytes (lagMark p) else [])) (transmitted p)"
    by (rule receives_seq [OF receives_if_return [OF receives_compact_long [OF assms]]], assumption,
        rule receives_seq [OF i], rule receives_seq [OF i], rule receives_map [OF i]) (simp add: transmitted_def)
qed

end
