(* ===== verification/Dx_Server.thy ===== *)
theory Dx_Server
  imports Dx_Heartbeat
begin

text \<open>
  The server message processor (\<open>src/ServerMessageProcessor.c\<close>): the buffer that collects the data of the
  network, the reads of the length and the type of a message, the dispatch on the type and the loop over
  the messages.  The processors of message bodies are parameters (\<open>handlers\<close>) except the one of
  heartbeats.  The first section shows that reads do not depend on what follows in the stream.
\<close>

section \<open>Reads that more input does not change\<close>

definition stable :: "(in_ctx, 'a) io \<Rightarrow> bool" where
  "stable r \<longleftrightarrow> (\<forall>ctx v ctx'. wf_in ctx \<longrightarrow> r ctx = (Inr v, ctx') \<longrightarrow>
     (\<exists>k \<le> length (pending ctx). ctx' = advance k ctx \<and>
       (\<forall>ctx2 extra. wf_in ctx2 \<longrightarrow> pending ctx2 = pending ctx @ extra \<longrightarrow> r ctx2 = (Inr v, advance k ctx2))))"

named_theorems stable_intros \<open>composition of stable reads\<close>

lemma stableD:
  assumes "stable r" "wf_in ctx" "r ctx = (Inr v, ctx')"
  obtains k where "k \<le> length (pending ctx)" "ctx' = advance k ctx"
    "\<And>ctx2 extra. wf_in ctx2 \<Longrightarrow> pending ctx2 = pending ctx @ extra \<Longrightarrow> r ctx2 = (Inr v, advance k ctx2)"
  using assms unfolding stable_def by blast

lemma advance_0 [simp]: "advance 0 ctx = ctx"
  by (simp add: advance_def)

lemma stable_return [stable_intros]: "stable (return x)"
  by (auto simp: stable_def io_simps intro!: exI [of _ 0])

lemma stable_fail [stable_intros]: "stable (fail e)"
  by (auto simp: stable_def io_simps)

lemma stable_if [stable_intros]: "(c \<Longrightarrow> stable a) \<Longrightarrow> (\<not> c \<Longrightarrow> stable b) \<Longrightarrow> stable (if c then a else b)"
  by simp

lemma pending_drop:
  assumes "wf_in ctx" "k \<le> length (pending ctx)"
  shows "wf_in (advance k ctx)" "pending (advance k ctx) = drop k (pending ctx)"
proof -
  have l: "length (take k (pending ctx)) = k" using assms(2) by simp
  show "wf_in (advance k ctx)" "pending (advance k ctx) = drop k (pending ctx)"
    using pending_advance [OF assms(1), of "take k (pending ctx)" "drop k (pending ctx)"] unfolding l by simp_all
qed

lemma stable_checked [stable_intros]:
  assumes m: "stable m" and k: "\<And>x. stable (k x)"
  shows "stable (checked m k)"
  unfolding stable_def
proof (intro allI impI)
  fix ctx v ctx' assume wf: "wf_in ctx" and e: "checked m k ctx = (Inr v, ctx')"
  obtain x c1 where m1: "m ctx = (Inr x, c1)" and k1: "k x c1 = (Inr v, ctx')"
    using e by (cases "fst (m ctx)"; cases "m ctx") (auto simp: checked_def)
  obtain i where i: "i \<le> length (pending ctx)" "c1 = advance i ctx"
    "\<And>ctx2 extra. wf_in ctx2 \<Longrightarrow> pending ctx2 = pending ctx @ extra \<Longrightarrow> m ctx2 = (Inr x, advance i ctx2)"
    using m wf m1 unfolding stable_def by blast
  note p1 = pending_drop [OF wf i(1), folded i(2)]
  obtain j where j: "j \<le> length (pending c1)" "ctx' = advance j c1"
    "\<And>ctx2 extra. wf_in ctx2 \<Longrightarrow> pending ctx2 = pending c1 @ extra \<Longrightarrow> k x ctx2 = (Inr v, advance j ctx2)"
    using k [of x] p1(1) k1 unfolding stable_def by blast
  show "\<exists>ka \<le> length (pending ctx). ctx' = advance ka ctx \<and>
       (\<forall>ctx2 extra. wf_in ctx2 \<longrightarrow> pending ctx2 = pending ctx @ extra \<longrightarrow> checked m k ctx2 = (Inr v, advance ka ctx2))"
  proof (intro exI [of _ "i + j"] conjI allI impI)
    show "i + j \<le> length (pending ctx)" using i(1) j(1) p1(2) by simp
    show "ctx' = advance (i + j) ctx" using i(2) j(2) by simp
    fix ctx2 extra assume w2: "wf_in ctx2" and p2: "pending ctx2 = pending ctx @ extra"
    have l2: "i \<le> length (pending ctx2)" using i(1) p2 by simp
    note q = pending_drop [OF w2 l2]
    have "pending (advance i ctx2) = pending c1 @ extra" using q(2) p1(2) p2 i(1) by simp
    from j(3) [OF q(1) this] i(3) [OF w2 p2] show "checked m k ctx2 = (Inr v, advance (i + j) ctx2)"
      by (simp add: io_simps)
  qed
qed

text \<open>Bytes are read only after a check that they are pending.\<close>

definition stable_with :: "nat \<Rightarrow> (in_ctx, 'a) io \<Rightarrow> bool" where
  "stable_with n r \<longleftrightarrow> (\<forall>ctx v ctx'. wf_in ctx \<longrightarrow> n \<le> length (pending ctx) \<longrightarrow> r ctx = (Inr v, ctx') \<longrightarrow>
     (\<exists>k \<le> length (pending ctx). ctx' = advance k ctx \<and>
       (\<forall>ctx2 extra. wf_in ctx2 \<longrightarrow> pending ctx2 = pending ctx @ extra \<longrightarrow> r ctx2 = (Inr v, advance k ctx2))))"

lemma stable_weaken: "stable r \<Longrightarrow> stable_with n r"
  unfolding stable_def stable_with_def by blast

lemma stable_get_byte:
  assumes "\<And>b. stable_with n (k b)"
  shows "stable_with (Suc n) (checked get_byte k)"
  unfolding stable_with_def
proof (intro allI impI)
  fix ctx v ctx'
  assume wf: "wf_in ctx" and l: "Suc n \<le> length (pending ctx)" and e: "checked get_byte k ctx = (Inr v, ctx')"
  obtain b rest where p: "pending ctx = b # rest" using l by (cases "pending ctx") auto
  have k1: "k b (advance 1 ctx) = (Inr v, ctx')"
    using e get_byte_pending [OF wf p] by (simp add: checked_def)
  have one: "1 \<le> length (pending ctx)" using p by simp
  note q = pending_drop [OF wf one]
  have "n \<le> length (pending (advance 1 ctx))" using q(2) p l by simp
  then obtain j where j: "j \<le> length (pending (advance 1 ctx))" "ctx' = advance j (advance 1 ctx)"
    "\<And>ctx2 extra. wf_in ctx2 \<Longrightarrow> pending ctx2 = pending (advance 1 ctx) @ extra \<Longrightarrow> k b ctx2 = (Inr v, advance j ctx2)"
    using assms q(1) k1 unfolding stable_with_def by blast
  show "\<exists>ka \<le> length (pending ctx). ctx' = advance ka ctx \<and> (\<forall>ctx2 extra. wf_in ctx2 \<longrightarrow> pending ctx2 = pending ctx @ extra \<longrightarrow>
      checked get_byte k ctx2 = (Inr v, advance ka ctx2))"
  proof (intro exI [of _ "1 + j"] conjI allI impI)
    show "1 + j \<le> length (pending ctx)" using j(1) q(2) p by simp
    show "ctx' = advance (1 + j) ctx" using j(2) by simp
    fix ctx2 extra assume w2: "wf_in ctx2" and p2: "pending ctx2 = pending ctx @ extra"
    have l2: "1 \<le> length (pending ctx2)" using l p2 by simp
    note q2 = pending_drop [OF w2 l2]
    have "pending ctx2 = b # (rest @ extra)" using p p2 by simp
    note g = get_byte_pending [OF w2 this]
    have "pending (advance 1 ctx2) = pending (advance 1 ctx) @ extra" using q2(2) q(2) p p2 by simp
    from j(3) [OF q2(1) this] g show "checked get_byte k ctx2 = (Inr v, advance (1 + j) ctx2)" by (simp add: checked_def)
  qed
qed

lemma stable_get_byte_last: "stable_with (Suc 0) get_byte"
  using stable_get_byte [of 0 return] by (simp add: stable_weaken stable_return checked_return_right)

lemma stable_validate:
  assumes "stable_with n r"
  shows "stable (checked (dx_validate_buffer_and_value (int n)) (\<lambda>_. r))"
  unfolding stable_def
proof (intro allI impI)
  fix ctx v ctx'
  let ?v = "dx_validate_buffer_and_value (int n)"
  assume wf: "wf_in ctx" and e: "checked ?v (\<lambda>_. r) ctx = (Inr v, ctx')"
  have val: "?v c = (Inr (), c)" if "wf_in c" "n \<le> length (pending c)" for c
    using that length_pending [OF that(1)]
    by (auto simp: dx_validate_buffer_and_value_def IS_BUF_CAPACITY_ENOUGH_def wf_in_def)
  have l: "n \<le> length (pending ctx)"
    using e length_pending [OF wf]
    by (auto simp: checked_def dx_validate_buffer_and_value_def IS_BUF_CAPACITY_ENOUGH_def split: if_splits)
  have "r ctx = (Inr v, ctx')" using e val [OF wf l] by (simp add: checked_def)
  then obtain k where k: "k \<le> length (pending ctx)" "ctx' = advance k ctx"
    "\<And>ctx2 extra. wf_in ctx2 \<Longrightarrow> pending ctx2 = pending ctx @ extra \<Longrightarrow> r ctx2 = (Inr v, advance k ctx2)"
    using assms wf l unfolding stable_with_def by blast
  have "checked ?v (\<lambda>_. r) ctx2 = (Inr v, advance k ctx2)" if "wf_in ctx2" "pending ctx2 = pending ctx @ extra" for ctx2 extra
    using val [OF that(1)] k(3) [OF that] that(2) l by (simp add: checked_def)
  with k(1,2) show "\<exists>ka \<le> length (pending ctx). ctx' = advance ka ctx \<and> (\<forall>ctx2 extra. wf_in ctx2 \<longrightarrow> pending ctx2 = pending ctx @ extra \<longrightarrow>
      checked ?v (\<lambda>_. r) ctx2 = (Inr v, advance ka ctx2))" by blast
qed

lemma stable_validate_numeral:
  "stable_with (Suc 0) r \<Longrightarrow> stable (checked (dx_validate_buffer_and_value 1) (\<lambda>_. r))"
  "stable_with (Suc (Suc 0)) r \<Longrightarrow> stable (checked (dx_validate_buffer_and_value 2) (\<lambda>_. r))"
  "stable_with (Suc (Suc (Suc (Suc 0)))) r \<Longrightarrow> stable (checked (dx_validate_buffer_and_value 4) (\<lambda>_. r))"
  using stable_validate [of 1 r] stable_validate [of 2 r] stable_validate [of 4 r] by (simp_all add: eval_nat_numeral)

lemma stable_primitives [stable_intros]:
  "stable dx_read_byte" "stable dx_read_unsigned_byte" "stable dx_read_unsigned_short" "stable dx_read_int"
  unfolding dx_read_byte_def dx_read_unsigned_byte_def dx_read_unsigned_short_def dx_read_int_def Let_def
  by (intro stable_validate_numeral stable_get_byte stable_get_byte_last stable_weaken stable_return)+

lemma stable_compact_long [stable_intros]: "stable dx_read_compact_long"
  unfolding dx_read_compact_long_def by (intro stable_intros)

text \<open>So a read of a value of which only a part has arrived fails.\<close>

lemma truncated_fails:
  assumes st: "stable r" and sf: "safe r" and rc: "receives r bs v" and wf: "wf_in ctx"
    and p: "bs = pending ctx @ tail" "tail \<noteq> []"
  obtains e ctx' where "r ctx = (Inl e, ctx')" "e \<noteq> UB" "wf_in ctx'" "same_buffer ctx ctx'"
proof -
  obtain res ctx' where r: "r ctx = (res, ctx')" by fastforce
  have s: "wf_in ctx'" "same_buffer ctx ctx'" "res \<noteq> Inl UB"
    using sf wf r unfolding safe_def by blast+
  show thesis
  proof (cases res)
    case (Inl e)
    then show thesis using that [of e ctx'] r s by simp
  next
    case (Inr w)
    obtain k where k: "k \<le> length (pending ctx)"
      "\<And>ctx2 extra. wf_in ctx2 \<Longrightarrow> pending ctx2 = pending ctx @ extra \<Longrightarrow> r ctx2 = (Inr w, advance k ctx2)"
      using stableD [OF st wf r [unfolded Inr]] by metis
    define c where "c = \<lparr>in_buffer = Some bs, in_buffer_length = int (length bs), in_buffer_limit = 0, current_in_buffer_position = 0\<rparr>"
    have c: "wf_in c" "pending c = bs" by (simp_all add: c_def wf_in_def pending_def)
    have "r c = (Inr w, advance k c)" using k(2) [OF c(1)] c(2) p(1) by simp
    moreover have "r c = (Inr v, advance (length bs) c)" using rc [unfolded receives_def, rule_format, OF c(1), of "[]"] c(2) by simp
    ultimately have "k = length bs" using advance_eq_iff by auto
    then show thesis using k(1) p by simp
  qed
qed

section \<open>The server message processor\<close>

record 'h server_ctx =
  msg_buffer :: "byte list"
  buffer_size :: int
  buffer_pos :: int
  buffer_capacity :: int
  bicc :: in_ctx
  processor :: 'h

definition DEFAULT_BUFFER_CAPACITY :: int where "DEFAULT_BUFFER_CAPACITY = 16000"

definition new_server_ctx :: "'h \<Rightarrow> 'h server_ctx" where
  "new_server_ctx h = \<lparr>msg_buffer = replicate (nat DEFAULT_BUFFER_CAPACITY) 0, buffer_size = 0, buffer_pos = 0,
     buffer_capacity = DEFAULT_BUFFER_CAPACITY,
     bicc = \<lparr>in_buffer = None, in_buffer_length = 0, in_buffer_limit = 0, current_in_buffer_position = 0\<rparr>,
     processor = h\<rparr>"

definition move_unprocessed :: "('h server_ctx, unit) io" where
  "move_unprocessed = (\<lambda>ctx.
     if buffer_size ctx \<noteq> buffer_pos ctx then
       case mem_copy (msg_buffer ctx) 0 (msg_buffer ctx) (buffer_pos ctx) (buffer_size ctx - buffer_pos ctx) of
         None \<Rightarrow> (Inl UB, ctx)
       | Some block \<Rightarrow> (Inr (), ctx\<lparr>msg_buffer := block,
           buffer_size := buffer_size ctx - buffer_pos ctx, buffer_pos := 0\<rparr>)
     else (Inr (), ctx\<lparr>buffer_pos := 0, buffer_size := 0\<rparr>))"

definition grow_msg_buffer :: "(nat \<Rightarrow> bool) \<Rightarrow> int \<Rightarrow> ('h server_ctx, unit) io" where
  "grow_msg_buffer mem new_buffer_size = (\<lambda>ctx.
     if buffer_size ctx + new_buffer_size > INT_MAX then (Inl UB, ctx)
     else if buffer_capacity ctx < buffer_size ctx + new_buffer_size then
       let capacity = buffer_size ctx + new_buffer_size;
           ctx = ctx\<lparr>buffer_capacity := capacity\<rparr>
       in if \<not> mem (nat capacity) then (Inl dx_mec_insufficient_memory, ctx)
          else case mem_copy (replicate (nat capacity) 0) 0 (msg_buffer ctx) 0 (buffer_size ctx) of
            None \<Rightarrow> (Inl UB, ctx)
          | Some larger_buffer \<Rightarrow> (Inr (), ctx\<lparr>msg_buffer := larger_buffer\<rparr>)
     else (Inr (), ctx))"

definition dx_append_new_data :: "(nat \<Rightarrow> bool) \<Rightarrow> byte list \<Rightarrow> int \<Rightarrow> ('h server_ctx, unit) io" where
  "dx_append_new_data mem new_buffer new_buffer_size =
     checked move_unprocessed (\<lambda>_.
     checked (grow_msg_buffer mem new_buffer_size) (\<lambda>_ ctx.
       case mem_copy (msg_buffer ctx) (buffer_size ctx) new_buffer 0 new_buffer_size of
         None \<Rightarrow> (Inl UB, ctx)
       | Some block \<Rightarrow>
           let ctx = ctx\<lparr>msg_buffer := block, buffer_size := buffer_size ctx + new_buffer_size\<rparr>
           in (Inr (), ctx\<lparr>bicc := dx_set_in_buffer_position (buffer_pos ctx)
                 (dx_set_in_buffer (Some block) (buffer_size ctx) (bicc ctx))\<rparr>)))"

text \<open>Reads on the buffered input of the connection.\<close>

definition on_bicc :: "(in_ctx, 'a) io \<Rightarrow> ('h server_ctx, 'a) io" where
  "on_bicc m = (\<lambda>ctx. case m (bicc ctx) of (r, b) \<Rightarrow> (r, ctx\<lparr>bicc := b\<rparr>))"

definition set_position :: "int \<Rightarrow> 'h server_ctx \<Rightarrow> 'h server_ctx" where
  "set_position p ctx = ctx\<lparr>bicc := dx_set_in_buffer_position p (bicc ctx)\<rparr>"

abbreviation position :: "'h server_ctx \<Rightarrow> int" where "position ctx \<equiv> current_in_buffer_position (bicc ctx)"
abbreviation limit :: "'h server_ctx \<Rightarrow> int" where "limit ctx \<equiv> in_buffer_limit (bicc ctx)"

definition dx_read_message_type :: "('h server_ctx, int32) io" where
  "dx_read_message_type = (\<lambda>ctx.
     case on_bicc dx_read_compact_long ctx of
       (Inl e, ctx) \<Rightarrow> (Inl (if e = dx_bioec_buffer_underflow then dx_pec_message_incomplete else e), ctx)
     | (Inr type, ctx) \<Rightarrow>
         if \<not> dx_is_message_type_valid (ucast type) then (Inl dx_pec_unexpected_message_type, ctx)
         else (Inr (ucast type), ctx))"

definition dx_read_message_length_and_set_buffer_limit :: "('h server_ctx, unit) io" where
  "dx_read_message_length_and_set_buffer_limit = (\<lambda>ctx.
     case on_bicc dx_read_compact_long ctx of
       (Inl e, ctx) \<Rightarrow> (Inl (if e = UB then UB else dx_pec_message_incomplete), ctx)
     | (Inr message_length, ctx) \<Rightarrow>
         if sint message_length < 0 \<or> sint message_length > INT_MAX - position ctx
         then (Inl dx_pec_invalid_message_length, ctx)
         else
           let message_end_offset = position ctx + sint message_length in
           if message_end_offset > buffer_size ctx then (Inl dx_pec_message_incomplete, ctx)
           else (Inr (), ctx\<lparr>bicc := dx_set_in_buffer_limit message_end_offset (bicc ctx)\<rparr>))"

section \<open>Processing of a message\<close>

text \<open>
  The processors of message bodies work on the buffered input and on a state of their own.
\<close>

record 'h handlers =
  process_data_message :: "('h \<times> in_ctx, unit) io"
  process_describe_records :: "('h \<times> in_ctx, unit) io"
  process_describe_protocol :: "('h \<times> in_ctx, unit) io"
  processIncomingHeartbeatPayload :: "heartbeat_payload \<Rightarrow> 'h \<Rightarrow> 'h"

definition parseHeartbeat :: "'h handlers \<Rightarrow> ('h \<times> in_ctx, unit) io" where
  "parseHeartbeat hs = (\<lambda>(h, input).
     if in_buffer_limit input - current_in_buffer_position input = 0 then (Inr (), h, input)
     else case parseFrom input of
       (Inr payload, input) \<Rightarrow> (Inr (), processIncomingHeartbeatPayload hs payload h, input)
     | (Inl e, input) \<Rightarrow> (if e = UB then Inl UB else Inr (), h, input))"

definition invalid_length_on_underflow :: "('s, unit) io \<Rightarrow> ('s, unit) io" where
  "invalid_length_on_underflow m = (\<lambda>s. case m s of
     (Inl e, s) \<Rightarrow> (Inl (if e = dx_bioec_buffer_underflow then dx_pec_invalid_message_length else e), s)
   | (Inr _, s) \<Rightarrow> (Inr (), s))"

definition dx_process_message :: "'h handlers \<Rightarrow> int32 \<Rightarrow> ('h \<times> in_ctx, unit) io" where
  "dx_process_message hs message_type =
     (if dx_is_data_message message_type then invalid_length_on_underflow (process_data_message hs)
      else if dx_is_subscription_message message_type then fail dx_pec_unexpected_message_type
      else if message_type = MESSAGE_DESCRIBE_RECORDS then
        invalid_length_on_underflow (process_describe_records hs)
      else if message_type = MESSAGE_DESCRIBE_PROTOCOL then
        invalid_length_on_underflow (process_describe_protocol hs)
      else if message_type = MESSAGE_HEARTBEAT then parseHeartbeat hs
      else fail dx_pec_server_message_not_supported)"

definition on_processor :: "('h \<times> in_ctx, 'a) io \<Rightarrow> ('h server_ctx, 'a) io" where
  "on_processor m = (\<lambda>ctx. case m (processor ctx, bicc ctx) of
     (r, h, b) \<Rightarrow> (r, ctx\<lparr>processor := h, bicc := b\<rparr>))"

section \<open>The loop over the messages\<close>

text \<open>One iteration: the result of the loop when it is left, or the state for the next iteration.\<close>

datatype 'h loop_result = Continue "'h server_ctx" | Break bool "'h server_ctx" | Undefined "'h server_ctx"

definition skip_message :: "'h server_ctx \<Rightarrow> 'h server_ctx" where
  "skip_message ctx = set_position (limit ctx) ctx"

definition skip_buffer :: "'h server_ctx \<Rightarrow> 'h server_ctx" where
  "skip_buffer ctx = set_position (buffer_size ctx) ctx"

definition process_typed_message :: "'h handlers \<Rightarrow> int32 \<Rightarrow> 'h server_ctx \<Rightarrow> 'h loop_result" where
  "process_typed_message hs message_type ctx =
     (case on_processor (dx_process_message hs message_type) ctx of
        (Inr _, ctx) \<Rightarrow> Continue ctx
      | (Inl e, ctx) \<Rightarrow>
          if e = UB then Undefined ctx
          else if e = dx_pec_server_message_not_supported then Continue (skip_message ctx)
          else Break False (skip_buffer ctx))"

definition process_one_message :: "'h handlers \<Rightarrow> 'h server_ctx \<Rightarrow> 'h loop_result" where
  "process_one_message hs ctx =
     (let message_start_pos = position ctx in
      case dx_read_message_length_and_set_buffer_limit ctx of
        (Inl e, ctx) \<Rightarrow>
          if e = UB then Undefined ctx
          else if e = dx_pec_message_incomplete then Break True (set_position message_start_pos ctx)
          else Break False (skip_buffer ctx)
      | (Inr _, ctx) \<Rightarrow>
          if position ctx < limit ctx then
            (case dx_read_message_type ctx of
               (Inl e, ctx) \<Rightarrow>
                 if e = UB then Undefined ctx
                 else if e = dx_pec_unexpected_message_type then Continue (skip_message ctx)
                 else Break False (skip_buffer ctx)
             | (Inr message_type, ctx) \<Rightarrow> process_typed_message hs message_type ctx)
          else process_typed_message hs MESSAGE_HEARTBEAT ctx)"

text \<open>
  An unrecoverable error of a message does not leave the loop in the code, but the position is at the
  end of the buffer then, so the condition of the loop does.
\<close>

fun process_messages :: "nat \<Rightarrow> 'h handlers \<Rightarrow> 'h server_ctx \<Rightarrow> ((dx_error + bool) \<times> 'h server_ctx) option" where
  "process_messages 0 hs ctx = None"
| "process_messages (Suc fuel) hs ctx =
     (if position ctx < buffer_size ctx then
        (case process_one_message hs ctx of
           Continue ctx \<Rightarrow> process_messages fuel hs ctx
         | Break ok ctx \<Rightarrow> Some (Inr ok, ctx)
         | Undefined ctx \<Rightarrow> Some (Inl UB, ctx))
      else Some (Inr True, ctx))"

definition messages_fuel :: "'h server_ctx \<Rightarrow> nat" where
  "messages_fuel ctx = Suc (nat (buffer_size ctx - position ctx))"

definition dx_process_server_data ::
  "(nat \<Rightarrow> bool) \<Rightarrow> 'h handlers \<Rightarrow> byte list \<Rightarrow> int \<Rightarrow> 'h server_ctx \<Rightarrow> ((dx_error + bool) \<times> 'h server_ctx) option" where
  "dx_process_server_data mem hs data_buffer data_buffer_size ctx =
     (if data_buffer_size \<le> 0 then Some (Inl dx_ec_internal_assert_violation, ctx)
      else case dx_append_new_data mem data_buffer data_buffer_size ctx of
        (Inl e, ctx) \<Rightarrow> Some (Inl e, ctx)
      | (Inr _, ctx) \<Rightarrow>
          map_option (\<lambda>(result, ctx). (result, ctx\<lparr>buffer_pos := position ctx\<rparr>))
            (process_messages (messages_fuel ctx) hs ctx))"

end
