(* ===== verification/Dx_Server_Data.thy ===== *)
theory Dx_Server_Data
  imports Dx_Server
begin

text \<open>
  Theorems on \<open>dx_process_server_data\<close>: the reassembly of messages from the segments of the network,
  termination and memory safety on arbitrary bytes, and its behaviour after a failed allocation.
\<close>

lemma receives_length:
  assumes "n < 2 ^ 31"
  shows "receives dx_read_compact_long (compact_int_bytes (word_of_int (int n))) (scast (word_of_int (int n) :: int32))"
    "sint (scast (word_of_int (int n) :: int32) :: long64) = int n"
proof -
  have s: "sint (word_of_int (int n) :: int32) = int n" using sint_of_small_nat [OF assms] by simp
  then have "\<not> lost_sign (word_of_int (int n))" by (simp add: lost_sign_def)
  then show "receives dx_read_compact_long (compact_int_bytes (word_of_int (int n))) (scast (word_of_int (int n) :: int32))"
    using receives_long_of_compact_int [of "word_of_int (int n)"] by simp
  show "sint (scast (word_of_int (int n) :: int32) :: long64) = int n" using s sint_long_of_int by simp
qed

lemma valid_types: "dx_is_message_type_valid type \<longleftrightarrow> type \<in> {0, 1, 2, 3, 4, 5, 10, 11, 12, 15, 16, 17, 20, 21, 22, 61}"
  by (auto simp: dx_is_message_type_valid_def MESSAGE_HEARTBEAT_def MESSAGE_DESCRIBE_PROTOCOL_def MESSAGE_DESCRIBE_RECORDS_def
      MESSAGE_DESCRIBE_RESERVED_def MESSAGE_PART_def MESSAGE_RAW_DATA_def MESSAGE_TICKER_DATA_def MESSAGE_TICKER_ADD_SUBSCRIPTION_def
      MESSAGE_TICKER_REMOVE_SUBSCRIPTION_def MESSAGE_STREAM_DATA_def MESSAGE_STREAM_ADD_SUBSCRIPTION_def
      MESSAGE_STREAM_REMOVE_SUBSCRIPTION_def MESSAGE_HISTORY_DATA_def MESSAGE_HISTORY_ADD_SUBSCRIPTION_def
      MESSAGE_HISTORY_REMOVE_SUBSCRIPTION_def MESSAGE_TEXT_FORMAT_def)

lemma ucast_scast_int: "ucast (scast (w :: int32) :: long64) = w"
proof (rule bit_word_eqI)
  fix n assume "n < LENGTH(32)"
  then have "n < 31 \<or> n = 31" by auto
  then show "bit (ucast (scast w :: long64) :: int32) n \<longleftrightarrow> bit w n" by (auto simp: bit_simps)
qed

lemma receives_any_type: "\<not> lost_sign type \<Longrightarrow> receives dx_read_compact_long (compact_int_bytes type) (scast type)"
  using receives_long_of_compact_int [of type] by simp

lemma receives_type:
  assumes "dx_is_message_type_valid type"
  shows "receives dx_read_compact_long (compact_int_bytes type) (scast type)"
  using assms by (intro receives_any_type) (auto simp: valid_types lost_sign_def)

text \<open>The input of the connection is the buffer of the server message processor.\<close>

definition attached :: "'h server_ctx \<Rightarrow> bool" where
  "attached ctx \<longleftrightarrow> wf_in (bicc ctx) \<and> in_buffer (bicc ctx) = Some (msg_buffer ctx) \<and> in_buffer_length (bicc ctx) = buffer_size ctx \<and> buffer_size ctx \<le> INT_MAX"

lemma read_length_spec:
  assumes at: "attached ctx" and p: "pending (bicc ctx) = compact_int_bytes (word_of_int (int n)) @ rest"
    and n: "n < 2 ^ 31" and small: "position ctx + int (length (compact_int_bytes (word_of_int (int n)))) + int n \<le> INT_MAX"
  shows "dx_read_message_length_and_set_buffer_limit ctx =
    (let input = advance (length (compact_int_bytes (word_of_int (int n)))) (bicc ctx);
         end_offset = current_in_buffer_position input + int n
     in if length rest < n then (Inl dx_pec_message_incomplete, ctx\<lparr>bicc := input\<rparr>)
        else (Inr (), ctx\<lparr>bicc := dx_set_in_buffer_limit end_offset input\<rparr>))"
proof -
  let ?l = "compact_int_bytes (word_of_int (int n))"
  have wf: "wf_in (bicc ctx)" using at by (simp add: attached_def)
  have r: "dx_read_compact_long (bicc ctx) = (Inr (scast (word_of_int (int n) :: int32)), advance (length ?l) (bicc ctx))"
    using receives_length(1) [OF n, unfolded receives_def] wf p by blast
  have len: "int (length ?l) + int (length rest) = buffer_size ctx - position ctx"
    using length_pending [OF wf] p at by (simp add: attached_def)
  have pos: "current_in_buffer_position (advance (length ?l) (bicc ctx)) = position ctx + int (length ?l)" by (simp add: advance_def)
  have e: "position ctx + int (length ?l) + int n > buffer_size ctx \<longleftrightarrow> length rest < n" using len by linarith
  have ok: "\<not> (sint (scast (word_of_int (int n) :: int32) :: long64) < 0 \<or>
     sint (scast (word_of_int (int n) :: int32) :: long64) > INT_MAX - (position ctx + int (length ?l)))"
    using receives_length(2) [OF n] small by simp
  show ?thesis unfolding dx_read_message_length_and_set_buffer_limit_def on_bicc_def Let_def
    using r ok e by (simp add: pos receives_length(2) [OF n] del: of_int_of_nat_eq)
qed

lemma read_type_spec:
  assumes at: "attached ctx" and p: "pending (bicc ctx) = compact_int_bytes type @ rest" and v: "dx_is_message_type_valid type"
  shows "dx_read_message_type ctx = (Inr type, ctx\<lparr>bicc := advance (length (compact_int_bytes type)) (bicc ctx)\<rparr>)"
proof -
  have "dx_read_compact_long (bicc ctx) = (Inr (scast type), advance (length (compact_int_bytes type)) (bicc ctx))"
    using receives_type [OF v, unfolded receives_def] at p unfolding attached_def by blast
  then show ?thesis using v by (simp add: dx_read_message_type_def on_bicc_def ucast_scast_int)
qed

text \<open>A message of which only a part has arrived.\<close>

lemma read_length_truncated:
  assumes at: "attached ctx" and p: "compact_int_bytes (word_of_int (int n)) = pending (bicc ctx) @ tail" "tail \<noteq> []" and n: "n < 2 ^ 31"
  obtains input where "dx_read_message_length_and_set_buffer_limit ctx = (Inl dx_pec_message_incomplete, ctx\<lparr>bicc := input\<rparr>)"
    "same_buffer (bicc ctx) input"
proof -
  have wf: "wf_in (bicc ctx)" using at by (simp add: attached_def)
  have sf: "safe dx_read_compact_long" unfolding safe_iff by (intro safe_intros)
  from truncated_fails [OF stable_compact_long sf receives_length(1) [OF n] wf p]
  obtain e c where "dx_read_compact_long (bicc ctx) = (Inl e, c)" "e \<noteq> UB" "same_buffer (bicc ctx) c" by metis
  then show thesis using that [of c] by (simp add: dx_read_message_length_and_set_buffer_limit_def on_bicc_def)
qed

lemma rewind: "same_buffer b c \<Longrightarrow> dx_set_in_buffer_position (current_in_buffer_position b) c = b"
  by (cases b; cases c) (simp add: same_buffer_def dx_set_in_buffer_position_def)

section \<open>Messages on the wire\<close>

text \<open>\<open>None\<close> is the message of length zero, which stands for a heartbeat.\<close>

type_synonym message = "(int32 \<times> byte list) option"

fun message_type :: "message \<Rightarrow> int32" where
  "message_type None = MESSAGE_HEARTBEAT"
| "message_type (Some (type, _)) = type"

fun message_body :: "message \<Rightarrow> byte list" where
  "message_body None = []"
| "message_body (Some (_, body)) = body"

definition message_content :: "message \<Rightarrow> byte list" where
  "message_content m = (if m = None then [] else compact_int_bytes (message_type m) @ message_body m)"

definition wire :: "message \<Rightarrow> byte list" where
  "wire m = compact_int_bytes (word_of_int (int (length (message_content m)))) @ message_content m"

lemma wire_frame: "wire (Some (type, body)) = frame type body"
  by (simp add: wire_def frame_def message_content_def)

definition handled :: "'h handlers \<Rightarrow> message \<Rightarrow> 'h \<Rightarrow> 'h \<Rightarrow> bool" where
  "handled hs m h h' \<longleftrightarrow> (if dx_is_message_type_valid (message_type m) then
     (\<forall>input rest. wf_in input \<longrightarrow> pending input = message_body m @ rest \<longrightarrow>
        in_buffer_limit input = current_in_buffer_position input + int (length (message_body m)) \<longrightarrow>
        (\<exists>r input'. dx_process_message hs (message_type m) (h, input) = (r, h', input') \<and>
          (r = Inr () \<and> input' = advance (length (message_body m)) input
           \<or> r = Inl dx_pec_server_message_not_supported \<and> same_buffer input input')))
     else h' = h \<and> \<not> lost_sign (message_type m))"

inductive accepted :: "'h handlers \<Rightarrow> 'h \<Rightarrow> message list \<Rightarrow> 'h \<Rightarrow> bool" for hs where
  accepted_Nil: "accepted hs h [] h"
| accepted_Cons: "handled hs m h h1 \<Longrightarrow> accepted hs h1 ms h2 \<Longrightarrow> accepted hs h (m # ms) h2"

inductive_cases accepted_NilE: "accepted hs h [] h'"
inductive_cases accepted_ConsE: "accepted hs h (m # ms) h'"
inductive_simps accepted_simps: "accepted hs h [] h'" "accepted hs h (m # ms) h'"

lemma accepted_append: "accepted hs h (ms @ ms') h' \<longleftrightarrow> (\<exists>h1. accepted hs h ms h1 \<and> accepted hs h1 ms' h')"
  by (induction ms arbitrary: h) (auto simp: accepted_simps)

definition moved :: "nat \<Rightarrow> in_ctx \<Rightarrow> in_ctx \<Rightarrow> bool" where
  "moved k a b \<longleftrightarrow> in_buffer b = in_buffer a \<and> in_buffer_length b = in_buffer_length a
     \<and> current_in_buffer_position b = current_in_buffer_position a + int k"

lemma moved_pending:
  assumes "moved (length bs) a b" "wf_in a" "pending a = bs @ rest"
  shows "wf_in b" "pending b = rest"
proof -
  have "wf_in b \<longleftrightarrow> wf_in (advance (length bs) a)" "pending b = pending (advance (length bs) a)"
    using assms(1) by (auto simp: moved_def wf_in_def pending_def advance_def split: option.splits)
  then show "wf_in b" "pending b = rest" using pending_advance [OF assms(2,3)] by simp_all
qed

lemma attached_moved:
  assumes "attached ctx" "moved k (bicc ctx) b" "wf_in b"
  shows "attached (ctx\<lparr>processor := h, bicc := b\<rparr>)"
  using assms by (simp add: attached_def moved_def)

lemma set_limit_pending [simp]: "pending (dx_set_in_buffer_limit l b) = pending b" "wf_in (dx_set_in_buffer_limit l b) = wf_in b"
  by (simp_all add: pending_def wf_in_def dx_set_in_buffer_limit_def split: option.split)

lemma typed_message_spec:
  assumes wf: "wf_in (bicc ctx)" and p: "pending (bicc ctx) = message_body m @ rest"
    and lim: "limit ctx = position ctx + int (length (message_body m))"
    and valid: "dx_is_message_type_valid (message_type m)" and h: "handled hs m (processor ctx) h'"
  shows "\<exists>b. process_typed_message hs (message_type m) ctx = Continue (ctx\<lparr>processor := h', bicc := b\<rparr>)
    \<and> moved (length (message_body m)) (bicc ctx) b"
proof -
  obtain r b where r: "dx_process_message hs (message_type m) (processor ctx, bicc ctx) = (r, h', b)"
    and c: "r = Inr () \<and> b = advance (length (message_body m)) (bicc ctx) \<or> r = Inl dx_pec_server_message_not_supported \<and> same_buffer (bicc ctx) b"
    using h [unfolded handled_def if_P [OF valid], rule_format, OF wf p lim] by blast
  from c show ?thesis
  proof (elim disjE conjE)
    assume "r = Inr ()" "b = advance (length (message_body m)) (bicc ctx)"
    with r show ?thesis
      by (intro exI [of _ b]) (simp add: process_typed_message_def on_processor_def moved_def advance_def)
  next
    assume "r = Inl dx_pec_server_message_not_supported" "same_buffer (bicc ctx) b"
    with r lim show ?thesis
      by (intro exI [of _ "dx_set_in_buffer_position (limit ctx) b"])
        (simp add: process_typed_message_def on_processor_def moved_def skip_message_def set_position_def
          dx_set_in_buffer_position_def same_buffer_def)
  qed
qed

lemma read_unknown_type:
  assumes at: "attached ctx" and p: "pending (bicc ctx) = compact_int_bytes type @ rest"
    and v: "\<not> dx_is_message_type_valid type" "\<not> lost_sign type"
  shows "dx_read_message_type ctx = (Inl dx_pec_unexpected_message_type, ctx\<lparr>bicc := advance (length (compact_int_bytes type)) (bicc ctx)\<rparr>)"
proof -
  have "dx_read_compact_long (bicc ctx) = (Inr (scast type), advance (length (compact_int_bytes type)) (bicc ctx))"
    using receives_any_type [OF v(2), unfolded receives_def] at p unfolding attached_def by blast
  then show ?thesis using v(1) by (simp add: dx_read_message_type_def on_bicc_def ucast_scast_int)
qed

lemma advance_simps [simp]: "in_buffer (advance k b) = in_buffer b" "in_buffer_length (advance k b) = in_buffer_length b"
  "in_buffer_limit (advance k b) = in_buffer_limit b"
  "current_in_buffer_position (advance k b) = current_in_buffer_position b + int k"
  by (simp_all add: advance_def)

lemma set_limit_simps [simp]: "in_buffer (dx_set_in_buffer_limit k b) = in_buffer b"
  "in_buffer_length (dx_set_in_buffer_limit k b) = in_buffer_length b"
  "in_buffer_limit (dx_set_in_buffer_limit k b) = k"
  "current_in_buffer_position (dx_set_in_buffer_limit k b) = current_in_buffer_position b"
  by (simp_all add: dx_set_in_buffer_limit_def)

lemma length_message_content: "m \<noteq> None \<Longrightarrow> length (message_content m) = length (compact_int_bytes (message_type m)) + length (message_body m)"
  by (cases m) (simp_all add: message_content_def)

lemma one_message:
  assumes at: "attached ctx" and p: "pending (bicc ctx) = wire m @ rest" and h: "handled hs m (processor ctx) h'"
    and n: "position ctx + int (length (wire m)) \<le> INT_MAX"
  shows "\<exists>b. process_one_message hs ctx = Continue (ctx\<lparr>processor := h', bicc := b\<rparr>) \<and> moved (length (wire m)) (bicc ctx) b"
proof -
  define l where "l = compact_int_bytes (word_of_int (int (length (message_content m))))"
  have w: "wire m = l @ message_content m" by (simp add: wire_def l_def)
  have wf: "wf_in (bicc ctx)" using at by (simp add: attached_def)
  then have "0 \<le> position ctx" by (simp add: wf_in_def)
  then have small: "length (message_content m) < 2 ^ 31" using n by (simp add: w)
  have pl: "pending (bicc ctx) = l @ (message_content m @ rest)" using p w by simp
  define end_offset where "end_offset = position ctx + int (length (wire m))"
  define c1 where "c1 = ctx\<lparr>bicc := dx_set_in_buffer_limit end_offset (advance (length l) (bicc ctx))\<rparr>"
  have r1: "dx_read_message_length_and_set_buffer_limit ctx = (Inr (), c1)"
    using read_length_spec [OF at pl [unfolded l_def] small, folded l_def] n
    by (simp add: w c1_def end_offset_def add.assoc)
  have wf1: "wf_in (bicc c1)" and p1: "pending (bicc c1) = message_content m @ rest"
    using pending_advance [OF wf pl] by (simp_all add: c1_def)
  have at1: "attached c1" using at wf1 by (simp add: attached_def c1_def)
  show ?thesis
  proof (cases m)
    case None
    have lw: "length (wire None) = length l" using w None by (simp add: message_content_def)
    have lim: "limit c1 = position c1 + int (length (message_body m))" "\<not> position c1 < limit c1"
      using None by (simp_all add: c1_def end_offset_def lw)
    have pm: "pending (bicc c1) = message_body m @ rest" using p1 None by (simp add: message_content_def)
    have valid: "dx_is_message_type_valid (message_type m)" using None by (simp add: dx_is_message_type_valid_def)
    have hc: "handled hs m (processor c1) h'" using h by (simp add: c1_def)
    from typed_message_spec [OF wf1 pm lim(1) valid hc]
    obtain b where b: "process_typed_message hs MESSAGE_HEARTBEAT c1 = Continue (c1\<lparr>processor := h', bicc := b\<rparr>)"
      "moved (length (message_body m)) (bicc c1) b" using None by auto
    then show ?thesis using r1 lim(2) None
      by (intro exI [of _ b]) (simp add: process_one_message_def c1_def moved_def lw)
  next
    case (Some tb)
    let ?t = "compact_int_bytes (message_type m)"
    have lw: "length (wire m) = length l + (length ?t + length (message_body m))"
      unfolding w using Some by (simp add: length_message_content)
    have lt: "position c1 < limit c1"
      using length_compact_int_bytes(1) [of "message_type m"] by (simp add: c1_def end_offset_def lw)
    have pt: "pending (bicc c1) = ?t @ (message_body m @ rest)" using p1 Some by (simp add: message_content_def)
    define c2 where "c2 = c1\<lparr>bicc := advance (length ?t) (bicc c1)\<rparr>"
    have wf2: "wf_in (bicc c2)" and p2: "pending (bicc c2) = message_body m @ rest"
      using pending_advance [OF wf1 pt] by (simp_all add: c2_def)
    have lim: "limit c2 = position c2 + int (length (message_body m))"
      by (simp add: c2_def c1_def end_offset_def lw)
    show ?thesis
    proof (cases "dx_is_message_type_valid (message_type m)")
      case True
      have r2: "dx_read_message_type c1 = (Inr (message_type m), c2)" using read_type_spec [OF at1 pt True] by (simp add: c2_def)
      have hc: "handled hs m (processor c2) h'" using h by (simp add: c2_def c1_def)
      from typed_message_spec [OF wf2 p2 lim True hc]
      obtain b where b: "process_typed_message hs (message_type m) c2 = Continue (c2\<lparr>processor := h', bicc := b\<rparr>)"
        "moved (length (message_body m)) (bicc c2) b" by blast
      then show ?thesis using r1 r2 lt
        by (intro exI [of _ b]) (simp add: process_one_message_def c1_def c2_def moved_def lw)
    next
      case False
      then have u: "h' = processor ctx" "\<not> lost_sign (message_type m)" using h by (simp_all add: handled_def)
      have r2: "dx_read_message_type c1 = (Inl dx_pec_unexpected_message_type, c2)"
        using read_unknown_type [OF at1 pt False u(2)] by (simp add: c2_def)
      show ?thesis using r1 r2 lt lim u(1)
        by (intro exI [of _ "dx_set_in_buffer_position (limit c2) (bicc c2)"])
          (simp add: process_one_message_def skip_message_def set_position_def c1_def c2_def moved_def lw
            dx_set_in_buffer_position_def)
    qed
  qed
qed

section \<open>The loop on a stream of messages\<close>

definition incomplete :: "nat \<Rightarrow> byte list \<Rightarrow> bool" where
  "incomplete max_size bs \<longleftrightarrow> bs = [] \<or> (\<exists>m tail. wire m = bs @ tail \<and> tail \<noteq> [] \<and> length (wire m) \<le> max_size)"

lemma incomplete_message:
  assumes at: "attached ctx" and p: "pending (bicc ctx) = bs" and m: "wire m = bs @ tail" "tail \<noteq> []"
    and n: "position ctx + int (length (wire m)) \<le> INT_MAX"
  shows "\<exists>b. process_one_message hs ctx = Break True (ctx\<lparr>bicc := b\<rparr>) \<and> moved 0 (bicc ctx) b"
proof -
  define l where "l = compact_int_bytes (word_of_int (int (length (message_content m))))"
  have w: "wire m = l @ message_content m" by (simp add: wire_def l_def)
  have wf: "wf_in (bicc ctx)" using at by (simp add: attached_def)
  then have "0 \<le> position ctx" by (simp add: wf_in_def)
  then have small: "length (message_content m) < 2 ^ 31" using n by (simp add: w)
  have cases: "(\<exists>t. l = bs @ t \<and> t \<noteq> []) \<or> (\<exists>v. bs = l @ v \<and> message_content m = v @ tail)"
    using m w by (auto simp: append_eq_append_conv2)
  then show ?thesis
  proof (elim disjE exE conjE)
    fix t assume t: "l = bs @ t" "t \<noteq> []"
    have lp: "l = pending (bicc ctx) @ t" using t(1) p by simp
    from read_length_truncated [OF at lp [unfolded l_def] t(2) small]
    obtain b where b: "dx_read_message_length_and_set_buffer_limit ctx = (Inl dx_pec_message_incomplete, ctx\<lparr>bicc := b\<rparr>)"
      "same_buffer (bicc ctx) b" by metis
    then show ?thesis using rewind [OF b(2)]
      by (intro exI [of _ "bicc ctx"]) (simp add: process_one_message_def set_position_def moved_def)
  next
    fix v assume v: "bs = l @ v" "message_content m = v @ tail"
    have pl: "pending (bicc ctx) = l @ v" using p v by simp
    have lt: "length v < length (message_content m)" using v(2) m(2) by simp
    have "dx_read_message_length_and_set_buffer_limit ctx =
        (Inl dx_pec_message_incomplete, ctx\<lparr>bicc := advance (length l) (bicc ctx)\<rparr>)"
      using read_length_spec [OF at pl [unfolded l_def] small, folded l_def] n lt by (simp add: w add.assoc)
    then show ?thesis
      by (intro exI [of _ "dx_set_in_buffer_position (position ctx) (advance (length l) (bicc ctx))"])
        (simp add: process_one_message_def set_position_def moved_def dx_set_in_buffer_position_def)
  qed
qed

abbreviation wires :: "message list \<Rightarrow> byte list" where "wires ms \<equiv> concat (map wire ms)"

lemma length_wire: "1 \<le> length (wire m)"
  using length_compact_int_bytes(1) [of "word_of_int (int (length (message_content m)))"] by (simp add: wire_def)

lemma length_wires: "length ms \<le> length (wires ms)"
proof (induction ms)
  case (Cons m ms) then show ?case using length_wire [of m] by simp
qed simp

lemma moved_trans: "moved i a b \<Longrightarrow> moved j b c \<Longrightarrow> moved (i + j) a c"
  by (simp add: moved_def)

lemma messages_spec:
  assumes "attached ctx" "pending (bicc ctx) = wires ms @ bs" "accepted hs (processor ctx) ms h'"
    "incomplete max_size bs" "position ctx + int (length (wires ms)) + int (length bs) + int max_size \<le> INT_MAX" "length ms < fuel"
  shows "\<exists>b. process_messages fuel hs ctx = Some (Inr True, ctx\<lparr>processor := h', bicc := b\<rparr>)
    \<and> moved (length (wires ms)) (bicc ctx) b"
  using assms
proof (induction ms arbitrary: ctx fuel)
  case Nil
  obtain f where f: "fuel = Suc f" using Nil.prems(6) by (cases fuel) auto
  have h: "h' = processor ctx" using Nil.prems(3) by (auto elim: accepted_NilE)
  have wf: "wf_in (bicc ctx)" and sz: "in_buffer_length (bicc ctx) = buffer_size ctx" using Nil.prems(1) by (simp_all add: attached_def)
  have len: "int (length bs) = buffer_size ctx - position ctx" using length_pending [OF wf] Nil.prems(2) sz by simp
  show ?case
  proof (cases "bs = []")
    case True
    then show ?thesis using len f h by (intro exI [of _ "bicc ctx"]) (simp add: moved_def)
  next
    case False
    then obtain m tail where m: "wire m = bs @ tail" "tail \<noteq> []" "length (wire m) \<le> max_size"
      using Nil.prems(4) by (auto simp: incomplete_def)
    have pb: "pending (bicc ctx) = bs" using Nil.prems(2) by simp
    have n: "position ctx + int (length (wire m)) \<le> INT_MAX" using Nil.prems(5) m(3) by simp
    from incomplete_message [OF Nil.prems(1) pb m(1,2) n]
    obtain b where "process_one_message hs ctx = Break True (ctx\<lparr>bicc := b\<rparr>)" "moved 0 (bicc ctx) b" by blast
    moreover have "position ctx < buffer_size ctx" using len False by (simp add: length_greater_0_conv [symmetric] del: length_greater_0_conv)
    ultimately show ?thesis using f h by (intro exI [of _ b]) simp
  qed
next
  case (Cons m ms)
  obtain f where f: "fuel = Suc f" "length ms < f" using Cons.prems(6) by (cases fuel) auto
  obtain h1 where h1: "handled hs m (processor ctx) h1" "accepted hs h1 ms h'" using Cons.prems(3) by (auto elim: accepted_ConsE)
  have wf: "wf_in (bicc ctx)" and sz: "in_buffer_length (bicc ctx) = buffer_size ctx" using Cons.prems(1) by (simp_all add: attached_def)
  have p: "pending (bicc ctx) = wire m @ (wires ms @ bs)" using Cons.prems(2) by simp
  have n: "position ctx + int (length (wire m)) \<le> INT_MAX" using Cons.prems(5) by simp
  from one_message [OF Cons.prems(1) p h1(1) n]
  obtain b where b: "process_one_message hs ctx = Continue (ctx\<lparr>processor := h1, bicc := b\<rparr>)" "moved (length (wire m)) (bicc ctx) b"
    by blast
  let ?c = "ctx\<lparr>processor := h1, bicc := b\<rparr>"
  note mp = moved_pending [OF b(2) wf p]
  have lt: "position ctx < buffer_size ctx"
    using length_pending [OF wf] p sz length_wire [of m] by simp
  have "position ?c + int (length (wires ms)) + int (length bs) + int max_size \<le> INT_MAX" using Cons.prems(5) b(2) by (simp add: moved_def)
  from Cons.IH [of ?c, OF attached_moved [OF Cons.prems(1) b(2) mp(1)] _ _ Cons.prems(4) this f(2)] mp(2) h1(2)
  obtain b' where b': "process_messages f hs ?c = Some (Inr True, ?c\<lparr>processor := h', bicc := b'\<rparr>)" "moved (length (wires ms)) b b'"
    by auto
  show ?case using f(1) lt b(1) b'(1) moved_trans [OF b(2) b'(2)] by (intro exI [of _ b']) simp
qed

section \<open>Appending the data of a segment\<close>

definition wf_server :: "'h server_ctx \<Rightarrow> bool" where
  "wf_server ctx \<longleftrightarrow> 0 \<le> buffer_pos ctx \<and> buffer_pos ctx \<le> buffer_size ctx \<and> buffer_size ctx \<le> buffer_capacity ctx
     \<and> buffer_capacity ctx = int (length (msg_buffer ctx)) \<and> buffer_capacity ctx \<le> INT_MAX"

definition unprocessed :: "'h server_ctx \<Rightarrow> byte list" where
  "unprocessed ctx = drop (nat (buffer_pos ctx)) (take (nat (buffer_size ctx)) (msg_buffer ctx))"

lemma new_server_wf: "wf_server (new_server_ctx h)" "unprocessed (new_server_ctx h) = []"
  by (simp_all add: wf_server_def unprocessed_def new_server_ctx_def DEFAULT_BUFFER_CAPACITY_def)

lemma move_unprocessed_spec:
  assumes "wf_server ctx"
  shows "\<exists>block. move_unprocessed ctx = (Inr (), ctx\<lparr>msg_buffer := block, buffer_size := int (length (unprocessed ctx)), buffer_pos := 0\<rparr>)
    \<and> length block = length (msg_buffer ctx) \<and> take (length (unprocessed ctx)) block = unprocessed ctx"
proof -
  define p s where "p = nat (buffer_pos ctx)" and "s = nat (buffer_size ctx)"
  then have ps: "buffer_pos ctx = int p" "buffer_size ctx = int s" "p \<le> s" "s \<le> length (msg_buffer ctx)"
    using assms by (simp_all add: wf_server_def nat_le_eq_zle nat_le_iff)
  have u: "unprocessed ctx = take (s - p) (drop p (msg_buffer ctx))" "length (unprocessed ctx) = s - p"
    using ps by (simp_all add: unprocessed_def drop_take)
  show ?thesis
  proof (cases "s = p")
    case True
    then show ?thesis using ps u by (intro exI [of _ "msg_buffer ctx"]) (simp add: move_unprocessed_def)
  next
    case False
    have d: "int s - int p = int (s - p)" using ps by simp
    have mc: "mem_copy (msg_buffer ctx) 0 (msg_buffer ctx) (int p) (int s - int p) =
        Some (unprocessed ctx @ drop (s - p) (msg_buffer ctx))"
      unfolding d using mem_copy_nat [of "msg_buffer ctx" 0 "msg_buffer ctx" p "s - p"] ps u by simp
    show ?thesis using False mc ps(1,2) u ps(3,4)
      by (intro exI [of _ "unprocessed ctx @ drop (s - p) (msg_buffer ctx)"]) (simp add: move_unprocessed_def of_nat_diff)
  qed
qed

lemma append_spec:
  assumes wf: "wf_server ctx" and n: "int (length (unprocessed ctx)) + int (length data) \<le> INT_MAX"
  shows "\<exists>r ctx'. dx_append_new_data mem data (int (length data)) ctx = (r, ctx') \<and>
    (case r of Inl e \<Rightarrow> e = dx_mec_insufficient_memory \<and> \<not> mem (length (unprocessed ctx) + length data)
     | Inr _ \<Rightarrow> wf_server ctx' \<and> attached ctx' \<and> pending (bicc ctx') = unprocessed ctx @ data
         \<and> position ctx' = 0 \<and> processor ctx' = processor ctx)"
proof -
  let ?u = "unprocessed ctx"
  obtain block where m: "move_unprocessed ctx = (Inr (), ctx\<lparr>msg_buffer := block, buffer_size := int (length ?u), buffer_pos := 0\<rparr>)"
    "length block = length (msg_buffer ctx)" "take (length ?u) block = ?u" using move_unprocessed_spec [OF wf] by blast
  let ?c = "ctx\<lparr>msg_buffer := block, buffer_size := int (length ?u), buffer_pos := 0\<rparr>"
  have lb: "length ?u \<le> length block" using wf m(2) by (auto simp: unprocessed_def wf_server_def)
  have cap: "buffer_capacity ctx = int (length block)" "buffer_capacity ctx \<le> INT_MAX" using wf m(2) by (auto simp: wf_server_def)
  let ?total = "length ?u + length data"
  define blk where "blk = (if length block < ?total then ?u @ drop (length ?u) (replicate ?total 0) else block)"
  have blk: "take (length ?u) blk = ?u" "?total \<le> length blk" using m(3) by (simp_all add: blk_def)
  let ?capacity = "int (length blk)"
  show ?thesis
  proof (cases "length block < ?total \<and> \<not> mem ?total")
    case True
    then show ?thesis using m(1) n cap
      by (auto simp: dx_append_new_data_def io_simps grow_msg_buffer_def Let_def nat_add_distrib)
  next
    case False
    have g: "grow_msg_buffer mem (int (length data)) ?c = (Inr (), ?c\<lparr>buffer_capacity := ?capacity, msg_buffer := blk\<rparr>)"
    proof (cases "length block < ?total")
      case True
      have "mem_copy (replicate ?total 0) 0 block 0 (int (length ?u)) = Some blk"
        using mem_copy_nat [of "replicate ?total 0" 0 block 0 "length ?u"] lb m(3) True by (simp add: blk_def)
      then show ?thesis using True False n cap
        by (simp add: grow_msg_buffer_def Let_def nat_add_distrib blk_def)
    next
      case f: False
      then show ?thesis using n cap by (simp add: grow_msg_buffer_def blk_def)
    qed
    have mc: "mem_copy blk (int (length ?u)) data 0 (int (length data)) = Some (?u @ data @ drop ?total blk)"
      using mem_copy_nat [of blk "length ?u" data 0 "length data"] blk by simp
    define fin where "fin = ?u @ data @ drop ?total blk"
    have fin: "length fin = length blk" "take ?total fin = ?u @ data" using blk by (simp_all add: fin_def)
    have total: "int (length ?u) + int (length data) \<le> int (length fin)" "int (length fin) \<le> INT_MAX"
      using blk(2) fin(1) n cap by (simp_all add: blk_def)
    have e: "dx_append_new_data mem data (int (length data)) ctx = (Inr (), ?c\<lparr>buffer_capacity := ?capacity, msg_buffer := fin,
        buffer_size := int ?total, bicc := dx_set_in_buffer_position 0 (dx_set_in_buffer (Some fin) (int ?total) (bicc ctx))\<rparr>)"
      unfolding dx_append_new_data_def using m(1) g mc by (simp add: io_simps fin_def [symmetric] Let_def)
    show ?thesis unfolding e
      by (intro exI conjI, rule refl) (use total fin in \<open>simp add: nat_add_distrib wf_server_def attached_def wf_in_def pending_def
        dx_set_in_buffer_position_def dx_set_in_buffer_def\<close>)
  qed
qed

lemma attached_unprocessed:
  "attached ctx \<Longrightarrow> unprocessed (ctx\<lparr>buffer_pos := position ctx\<rparr>) = pending (bicc ctx)"
  by (simp add: attached_def unprocessed_def pending_def)

lemma server_data_spec:
  assumes wf: "wf_server ctx" and p: "unprocessed ctx @ data = wires ms @ bs" and data: "data \<noteq> []"
    and acc: "accepted hs (processor ctx) ms h'" and inc: "incomplete max_size bs"
    and n: "int (length (unprocessed ctx)) + int (length data) + int max_size \<le> INT_MAX"
  shows "\<exists>ctx'. dx_process_server_data (\<lambda>_. True) hs data (int (length data)) ctx = Some (Inr True, ctx')
    \<and> wf_server ctx' \<and> unprocessed ctx' = bs \<and> processor ctx' = h'"
proof -
  have n1: "int (length (unprocessed ctx)) + int (length data) \<le> INT_MAX" using n by simp
  obtain r c where rc: "dx_append_new_data (\<lambda>_. True) data (int (length data)) ctx = (r, c)"
    and post: "case r of Inl e \<Rightarrow> e = dx_mec_insufficient_memory \<and> \<not> True
     | Inr _ \<Rightarrow> wf_server c \<and> attached c \<and> pending (bicc c) = unprocessed ctx @ data
         \<and> position c = 0 \<and> processor c = processor ctx"
    using append_spec [OF wf n1, of "\<lambda>_. True"] by blast
  have c: "dx_append_new_data (\<lambda>_. True) data (int (length data)) ctx = (Inr (), c)"
    "wf_server c" "attached c" "pending (bicc c) = unprocessed ctx @ data" "position c = 0" "processor c = processor ctx"
    using rc post by (cases r; simp)+
  have wfi: "wf_in (bicc c)" and sz: "in_buffer_length (bicc c) = buffer_size c" using c(3) by (simp_all add: attached_def)
  have pl: "pending (bicc c) = wires ms @ bs" using c(4) p by simp
  have len: "length (wires ms) + length bs = length (unprocessed ctx) + length data" using p by (metis length_append)
  have fuel: "length ms < messages_fuel c"
    using length_pending [OF wfi] pl sz c(5) length_wires [of ms] by (simp add: messages_fuel_def)
  have bound: "position c + int (length (wires ms)) + int (length bs) + int max_size \<le> INT_MAX" using n len c(5) by linarith
  have acc': "accepted hs (processor c) ms h'" using acc c(6) by simp
  from messages_spec [OF c(3) pl acc' inc bound fuel]
  obtain b where b: "process_messages (messages_fuel c) hs c = Some (Inr True, c\<lparr>processor := h', bicc := b\<rparr>)"
    "moved (length (wires ms)) (bicc c) b" by blast
  let ?c = "c\<lparr>processor := h', bicc := b\<rparr>"
  note mp = moved_pending [OF b(2) wfi pl]
  have at: "attached ?c" by (rule attached_moved [OF c(3) b(2) mp(1)])
  then have pos: "0 \<le> position ?c" "position ?c \<le> buffer_size ?c" by (simp_all add: attached_def wf_in_def)
  have "unprocessed (?c\<lparr>buffer_pos := position ?c\<rparr>) = bs" using attached_unprocessed [OF at] mp(2) by simp
  moreover have "wf_server (?c\<lparr>buffer_pos := position ?c\<rparr>)" using c(2) pos by (simp add: wf_server_def)
  moreover have "dx_process_server_data (\<lambda>_. True) hs data (int (length data)) ctx = Some (Inr True, ?c\<lparr>buffer_pos := position ?c\<rparr>)"
    using c(1) b(1) data by (simp add: dx_process_server_data_def)
  ultimately show ?thesis by (intro exI [of _ "?c\<lparr>buffer_pos := position ?c\<rparr>"]) simp
qed

section \<open>A stream in segments\<close>

fun receive_segments :: "(nat \<Rightarrow> bool) \<Rightarrow> 'h handlers \<Rightarrow> byte list list \<Rightarrow> 'h server_ctx \<Rightarrow> 'h server_ctx option" where
  "receive_segments mem hs [] ctx = Some ctx"
| "receive_segments mem hs (segment # segments) ctx =
     (case dx_process_server_data mem hs segment (int (length segment)) ctx of
        Some (Inr True, ctx) \<Rightarrow> receive_segments mem hs segments ctx
      | _ \<Rightarrow> None)"

lemma split_stream:
  assumes "xs @ rest = wires ms @ bs" "incomplete max_size bs" "\<forall>m\<in>set ms. length (wire m) \<le> max_size"
  shows "\<exists>ms1 ms2 r. ms = ms1 @ ms2 \<and> xs = wires ms1 @ r \<and> r @ rest = wires ms2 @ bs \<and> incomplete max_size r"
  using assms
proof (induction ms arbitrary: xs)
  case Nil
  have "incomplete max_size xs"
  proof (cases "bs = []")
    case True
    then show ?thesis using Nil.prems(1) by (simp add: incomplete_def)
  next
    case False
    then obtain m tail where m: "wire m = bs @ tail" "tail \<noteq> []" "length (wire m) \<le> max_size"
      using Nil.prems(2) by (auto simp: incomplete_def)
    then have "wire m = xs @ (rest @ tail)" "rest @ tail \<noteq> []" using Nil.prems(1) by (auto simp flip: append_assoc)
    with m(3) show ?thesis unfolding incomplete_def by blast
  qed
  then show ?case using Nil.prems(1) by (intro exI [of _ "[]"] exI [of _ xs]) simp
next
  case (Cons m ms)
  have e: "xs @ rest = wire m @ (wires ms @ bs)" using Cons.prems(1) by simp
  then consider xs' where "xs = wire m @ xs'" "xs' @ rest = wires ms @ bs"
    | t where "wire m = xs @ t" "t \<noteq> []" "rest = t @ (wires ms @ bs)"
    by (auto simp: append_eq_append_conv2) (metis append.right_neutral append_Nil)+
  then show ?case
  proof cases
    case 1
    from Cons.IH [OF 1(2) Cons.prems(2)] Cons.prems(3)
    obtain ms1 ms2 r where "ms = ms1 @ ms2" "xs' = wires ms1 @ r" "r @ rest = wires ms2 @ bs" "incomplete max_size r" by auto
    then show ?thesis using 1(1) by (intro exI [of _ "m # ms1"] exI [of _ ms2] exI [of _ r]) simp
  next
    case 2
    then have "incomplete max_size xs" using Cons.prems(3) unfolding incomplete_def by (metis list.set_intros(1))
    then show ?thesis using Cons.prems(1) by (intro exI [of _ "[]"] exI [of _ "m # ms"] exI [of _ xs]) simp
  qed
qed

text \<open>No message is a proper prefix of another one.\<close>

lemma receives_unique:
  assumes "receives r b1 v1" "receives r b2 v2" "b1 @ xs = b2 @ ys"
  shows "v1 = v2" "length b1 = length b2"
proof -
  obtain bs where bs: "bs = b1 @ xs" by blast
  define ctx where "ctx = \<lparr>in_buffer = Some bs, in_buffer_length = int (length bs), in_buffer_limit = 0, current_in_buffer_position = 0\<rparr>"
  have wf: "wf_in ctx" by (simp add: ctx_def wf_in_def)
  have p: "pending ctx = b1 @ xs" unfolding bs [symmetric] by (simp add: ctx_def pending_def)
  have "r ctx = (Inr v1, advance (length b1) ctx)" using assms(1) wf p unfolding receives_def by blast
  moreover have "r ctx = (Inr v2, advance (length b2) ctx)" using assms(2) wf p assms(3) unfolding receives_def by metis
  ultimately show "v1 = v2" "length b1 = length b2" by (simp_all add: advance_eq_iff)
qed

lemma wire_prefix_free:
  assumes "wire m' = wire m @ tail" "length (wire m') < 2 ^ 31"
  shows "tail = []"
proof -
  let ?n = "length (message_content m)" and ?n' = "length (message_content m')"
  have n: "?n < 2 ^ 31" "?n' < 2 ^ 31" using assms(2) arg_cong [OF assms(1), of length] by (simp_all add: wire_def)
  note r = receives_length(1) [OF n(2)] receives_length(1) [OF n(1)]
  have e: "compact_int_bytes (word_of_int (int ?n')) @ message_content m' =
      compact_int_bytes (word_of_int (int ?n)) @ (message_content m @ tail)"
    using assms(1) by (simp add: wire_def)
  note u = receives_unique [OF r e]
  have "?n' = ?n" using receives_length(2) [OF n(1)] receives_length(2) [OF n(2)] u(1) by (metis of_nat_eq_iff)
  with u(2) arg_cong [OF e, of length] show ?thesis by simp
qed

lemma incomplete_length: "incomplete max_size bs \<Longrightarrow> length bs \<le> max_size"
  by (auto simp: incomplete_def)

lemma segments_spec:
  assumes "wf_server ctx" "unprocessed ctx @ concat segments = wires ms @ bs" "\<forall>d\<in>set segments. d \<noteq> [] \<and> length d \<le> max_segment"
    "\<forall>m\<in>set ms. length (wire m) \<le> max_size" "incomplete max_size bs" "incomplete max_size (unprocessed ctx)"
    "accepted hs (processor ctx) ms h'" "2 * int max_size + int max_segment \<le> INT_MAX"
  shows "\<exists>ctx'. receive_segments (\<lambda>_. True) hs segments ctx = Some ctx' \<and> wf_server ctx' \<and> processor ctx' = h' \<and> unprocessed ctx' = bs"
  using assms
proof (induction segments arbitrary: ctx ms)
  case Nil
  have "unprocessed ctx @ [] = wires ms @ bs" using Nil.prems(2) by simp
  have "ms = []"
  proof (rule ccontr)
    assume "ms \<noteq> []"
    then obtain m ms' where ms: "ms = m # ms'" by (cases ms) auto
    have u: "unprocessed ctx = wire m @ (wires ms' @ bs)" using Nil.prems(2) ms by simp
    then obtain m' tail where m': "wire m' = wire m @ ((wires ms' @ bs) @ tail)" "tail \<noteq> []" "length (wire m') \<le> max_size"
      using Nil.prems(6) length_wire [of m] by (auto simp: incomplete_def)
    have "length (wire m') < 2 ^ 31" using m'(3) Nil.prems(8) by simp
    from wire_prefix_free [OF m'(1) this] m'(2) show False by simp
  qed
  then show ?case using Nil.prems by (auto elim: accepted_NilE)
next
  case (Cons d ds)
  have "(unprocessed ctx @ d) @ concat ds = wires ms @ bs" using Cons.prems(2) by simp
  from split_stream [OF this Cons.prems(5,4)]
  obtain ms1 ms2 r where s: "ms = ms1 @ ms2" "unprocessed ctx @ d = wires ms1 @ r" "r @ concat ds = wires ms2 @ bs" "incomplete max_size r"
    by blast
  obtain h1 where h1: "accepted hs (processor ctx) ms1 h1" "accepted hs h1 ms2 h'"
    using Cons.prems(7) s(1) by (auto simp: accepted_append)
  have d: "d \<noteq> []" "length d \<le> max_segment" using Cons.prems(3) by simp_all
  have "int (length (unprocessed ctx)) + int (length d) + int max_size \<le> INT_MAX"
    using incomplete_length [OF Cons.prems(6)] d(2) Cons.prems(8) by linarith
  from server_data_spec [OF Cons.prems(1) s(2) d(1) h1(1) s(4) this]
  obtain c where c: "dx_process_server_data (\<lambda>_. True) hs d (int (length d)) ctx = Some (Inr True, c)"
    "wf_server c" "unprocessed c = r" "processor c = h1" by blast
  have "\<exists>ctx'. receive_segments (\<lambda>_. True) hs ds c = Some ctx' \<and> wf_server ctx' \<and> processor ctx' = h' \<and> unprocessed ctx' = bs"
    by (rule Cons.IH [of c ms2]) (use c s h1 Cons.prems in auto)
  then show ?case using c(1) by simp
qed

section \<open>Safety on arbitrary input\<close>

lemma read_byte_advances:
  assumes wf: "wf_in ctx" and e: "checked dx_read_unsigned_byte k ctx = (Inr v, ctx')" and k: "\<And>n. safe_with 0 (\<lambda>_. True) (k n)"
  shows "current_in_buffer_position ctx < current_in_buffer_position ctx'"
proof -
  obtain n c where r: "dx_read_unsigned_byte ctx = (Inr n, c)" and kc: "k n c = (Inr v, ctx')"
    using e by (auto simp: checked_def split: prod.splits sum.splits)
  have lt: "current_in_buffer_position ctx + 1 = current_in_buffer_position c"
    using r by (auto simp: dx_read_unsigned_byte_def checked_def dx_validate_buffer_and_value_def get_byte_def return_def Let_def
        split: if_splits option.splits)
  have "safe dx_read_unsigned_byte" "safe (k n)" unfolding safe_iff by (intro safe_intros k)+
  then have "same_buffer c ctx'" using wf r kc unfolding safe_def by blast
  then show ?thesis using lt by (simp add: same_buffer_def)
qed

lemma compact_long_advances:
  assumes "wf_in ctx" "dx_read_compact_long ctx = (Inr v, ctx')"
  shows "current_in_buffer_position ctx < current_in_buffer_position ctx'"
  by (rule read_byte_advances [OF assms(1) assms(2) [unfolded dx_read_compact_long_def]])
    (intro safe_intros TrueI)

lemma safe_long_read:
  assumes "wf_in ctx" "dx_read_compact_long ctx = (r, ctx')"
  shows "wf_in ctx'" "same_buffer ctx ctx'" "r \<noteq> Inl UB"
  using assms safe_compact(2) unfolding safe_iff [symmetric] safe_def by blast+

text \<open>
  The contract of a processor of message bodies: on any input it stays inside the buffer and only
  moves forward; and the stronger one of a processor that never meets undefined behaviour.
\<close>

locale body_processor =
  fixes process :: "('h \<times> in_ctx, unit) io"
  assumes keeps: "wf_in input \<Longrightarrow> in_buffer_limit input \<le> in_buffer_length input \<Longrightarrow> process (h, input) = (r, h', input') \<Longrightarrow>
    wf_in input' \<and> same_buffer input input'"
begin

lemma underflow_keeps:
  "wf_in input \<Longrightarrow> in_buffer_limit input \<le> in_buffer_length input \<Longrightarrow>
    invalid_length_on_underflow process (h, input) = (r, h', input') \<Longrightarrow> wf_in input' \<and> same_buffer input input'"
  using keeps [of input h] by (auto simp: invalid_length_on_underflow_def split: prod.splits sum.splits if_splits)

end

locale defined_processor = body_processor +
  assumes defined: "wf_in input \<Longrightarrow> in_buffer_limit input \<le> in_buffer_length input \<Longrightarrow> fst (process (h, input)) \<noteq> Inl UB"
begin

lemma underflow_defined:
  "wf_in input \<Longrightarrow> in_buffer_limit input \<le> in_buffer_length input \<Longrightarrow>
    fst (invalid_length_on_underflow process (h, input)) \<noteq> Inl UB"
  using defined [of input h] by (auto simp: invalid_length_on_underflow_def split: prod.splits sum.splits if_splits)

end

lemma safe_parseFrom: "safe parseFrom"
  unfolding safe_iff parseFrom_def by (intro safe_intros TrueI)

interpretation heartbeat: defined_processor "parseHeartbeat hs" for hs :: "'h handlers"
proof
  fix input h r h' input'
  assume wf: "wf_in input"
  obtain p c where p: "parseFrom input = (p, c)" by fastforce
  have "wf_in c \<and> same_buffer input c \<and> p \<noteq> Inl UB" using safe_parseFrom wf p unfolding safe_def by blast
  then show "parseHeartbeat hs (h, input) = (r, h', input') \<Longrightarrow> wf_in input' \<and> same_buffer input input'"
    "fst (parseHeartbeat hs (h, input)) \<noteq> Inl UB"
    using wf p by (cases p; auto simp: parseHeartbeat_def split: if_splits)+
qed

definition handlers_keep :: "'h handlers \<Rightarrow> bool" where
  "handlers_keep hs \<longleftrightarrow> body_processor (process_data_message hs) \<and> body_processor (process_describe_records hs)
     \<and> body_processor (process_describe_protocol hs)"

definition handlers_defined :: "'h handlers \<Rightarrow> bool" where
  "handlers_defined hs \<longleftrightarrow> defined_processor (process_data_message hs) \<and> defined_processor (process_describe_records hs)
     \<and> defined_processor (process_describe_protocol hs)"

lemma process_message_keeps:
  assumes "handlers_keep hs"
  shows "body_processor (dx_process_message hs type)"
proof
  fix input h r h' input'
  assume wf: "wf_in input" "in_buffer_limit input \<le> in_buffer_length input"
    and e: "dx_process_message hs type (h, input) = (r, h', input')"
  note u = assms [unfolded handlers_keep_def, THEN conjunct1, THEN body_processor.underflow_keeps, OF wf]
    assms [unfolded handlers_keep_def, THEN conjunct2, THEN conjunct1, THEN body_processor.underflow_keeps, OF wf]
    assms [unfolded handlers_keep_def, THEN conjunct2, THEN conjunct2, THEN body_processor.underflow_keeps, OF wf]
  show "wf_in input' \<and> same_buffer input input'"
    using e wf by (auto simp: dx_process_message_def fail_apply split: if_splits dest: u heartbeat.keeps [OF wf])
qed

lemma process_message_defined:
  assumes "handlers_defined hs" "wf_in input" "in_buffer_limit input \<le> in_buffer_length input"
  shows "fst (dx_process_message hs type (h, input)) \<noteq> Inl UB"
proof -
  note u = assms(1) [unfolded handlers_defined_def, THEN conjunct1, THEN defined_processor.underflow_defined, OF assms(2,3)]
    assms(1) [unfolded handlers_defined_def, THEN conjunct2, THEN conjunct1, THEN defined_processor.underflow_defined, OF assms(2,3)]
    assms(1) [unfolded handlers_defined_def, THEN conjunct2, THEN conjunct2, THEN defined_processor.underflow_defined, OF assms(2,3)]
  show ?thesis using u heartbeat.defined [OF assms(2,3), of hs h] by (simp add: dx_process_message_def fail_apply)
qed

lemma attached_set:
  assumes "attached ctx" "wf_in b" "same_buffer (bicc ctx) b"
  shows "attached (ctx\<lparr>processor := h, bicc := b\<rparr>)" "attached (ctx\<lparr>bicc := b\<rparr>)"
  using assms by (simp_all add: attached_def same_buffer_def)

definition same_block :: "'h server_ctx \<Rightarrow> 'h server_ctx \<Rightarrow> bool" where
  "same_block a b \<longleftrightarrow> msg_buffer b = msg_buffer a \<and> buffer_size b = buffer_size a \<and> buffer_pos b = buffer_pos a
     \<and> buffer_capacity b = buffer_capacity a"

definition step_ok :: "'h handlers \<Rightarrow> 'h server_ctx \<Rightarrow> 'h loop_result \<Rightarrow> bool" where
  "step_ok hs ctx res \<longleftrightarrow> (case res of
     Continue c \<Rightarrow> attached c \<and> same_block ctx c \<and> position ctx < position c
   | Break ok c \<Rightarrow> attached c \<and> same_block ctx c
   | Undefined c \<Rightarrow> \<not> handlers_defined hs)"

lemma attached_skip_buffer: "attached ctx \<Longrightarrow> attached (skip_buffer ctx)"
  by (auto simp: attached_def skip_buffer_def set_position_def dx_set_in_buffer_position_def wf_in_def)

lemma skip_message_simps: "attached ctx \<Longrightarrow> 0 \<le> limit ctx \<Longrightarrow> limit ctx \<le> buffer_size ctx \<Longrightarrow> attached (skip_message ctx)"
  "position (skip_message ctx) = limit ctx" "same_block ctx (skip_message ctx)" "same_block ctx (skip_buffer ctx)"
  by (auto simp: attached_def skip_message_def skip_buffer_def set_position_def dx_set_in_buffer_position_def wf_in_def same_block_def)

lemma typed_message_safe:
  assumes hs: "handlers_keep hs" and at: "attached ctx" and start: "start < position ctx" "start < limit ctx" "0 \<le> start"
    "limit ctx \<le> buffer_size ctx"
  shows "case process_typed_message hs type ctx of
     Continue c \<Rightarrow> attached c \<and> same_block ctx c \<and> start < position c
   | Break ok c \<Rightarrow> attached c \<and> same_block ctx c
   | Undefined c \<Rightarrow> \<not> handlers_defined hs"
proof -
  obtain r h b where r: "dx_process_message hs type (processor ctx, bicc ctx) = (r, h, b)" by (metis prod.exhaust)
  let ?c = "ctx\<lparr>processor := h, bicc := b\<rparr>"
  have wfl: "wf_in (bicc ctx)" "in_buffer_limit (bicc ctx) \<le> in_buffer_length (bicc ctx)"
    using at start(4) by (simp_all add: attached_def)
  have s: "wf_in b" "same_buffer (bicc ctx) b"
    using body_processor.keeps [OF process_message_keeps [OF hs] wfl r] by simp_all
  have ub: "\<not> handlers_defined hs" if "r = Inl UB"
    using process_message_defined [of hs, OF _ wfl, of type "processor ctx"] r that by auto
  have c: "attached ?c" "same_block ctx ?c" "start < position ?c" "limit ?c = limit ctx"
    using attached_set(1) [OF at s(1,2)] s(2) start by (simp_all add: same_block_def same_buffer_def)
  show ?thesis
    using r ub c start skip_message_simps [of ?c] attached_skip_buffer [OF c(1)]
    by (auto simp: process_typed_message_def on_processor_def same_block_def split: sum.splits)
qed

lemma one_message_safe:
  assumes hs: "handlers_keep hs" and at: "attached ctx"
  shows "step_ok hs ctx (process_one_message hs ctx)"
proof -
  obtain r b where r: "dx_read_compact_long (bicc ctx) = (r, b)" by fastforce
  have wf: "wf_in (bicc ctx)" using at by (simp add: attached_def)
  then have p0: "0 \<le> position ctx" by (simp add: wf_in_def)
  note s = safe_long_read [OF wf r]
  note at1 = attached_set(2) [OF at s(1,2)]
  show ?thesis
  proof (cases r)
    case (Inl e)
    have b: "dx_set_in_buffer_position (position ctx) b = bicc ctx" by (rule rewind [OF s(2)])
    show ?thesis using r s(3) Inl at b
      by (auto simp: process_one_message_def dx_read_message_length_and_set_buffer_limit_def on_bicc_def step_ok_def
          set_position_def same_block_def)
  next
    case (Inr len)
    have adv: "position ctx < current_in_buffer_position b" using compact_long_advances [OF wf r [unfolded Inr]] .
    let ?stop = "current_in_buffer_position b + sint len"
    let ?c = "ctx\<lparr>bicc := dx_set_in_buffer_limit ?stop b\<rparr>"
    show ?thesis
    proof (cases "0 \<le> sint len \<and> sint len \<le> INT_MAX - current_in_buffer_position b \<and> ?stop \<le> buffer_size ctx")
      case False
      then show ?thesis using r Inr at at1 skip_message_simps(4) [of "ctx\<lparr>bicc := b\<rparr>"] attached_skip_buffer [OF at1]
          rewind [OF s(2)]
        by (auto simp: process_one_message_def dx_read_message_length_and_set_buffer_limit_def on_bicc_def step_ok_def Let_def
            set_position_def same_block_def)
    next
      case True
      have l: "dx_read_message_length_and_set_buffer_limit ctx = (Inr (), ?c)"
        using r Inr True by (auto simp: dx_read_message_length_and_set_buffer_limit_def on_bicc_def Let_def)
      have atc: "attached ?c" using at1 by (simp add: attached_def)
      have st: "position ctx < position ?c" "position ctx < limit ?c" "limit ?c \<le> buffer_size ?c" using True adv by simp_all
      show ?thesis
      proof (cases "position ?c < limit ?c")
        case False
        then show ?thesis using l typed_message_safe [OF hs atc st(1,2) p0 st(3), of MESSAGE_HEARTBEAT]
          by (auto simp: process_one_message_def step_ok_def same_block_def split: loop_result.splits)
      next
        case lt: True
        obtain rt bt where rt: "dx_read_compact_long (bicc ?c) = (rt, bt)" by fastforce
        have wfc: "wf_in (bicc ?c)" using atc by (simp add: attached_def)
        note st2 = safe_long_read [OF wfc rt]
        let ?t = "?c\<lparr>bicc := bt\<rparr>"
        note att = attached_set(2) [OF atc st2(1,2)]
        have st': "position ctx < position ?t" "position ctx < limit ?t" "limit ?t \<le> buffer_size ?t"
          using st st2(2) by (simp_all add: same_buffer_def)
        show ?thesis
        proof (cases rt)
          case (Inl e)
          then show ?thesis using l lt rt st2(3) attached_skip_buffer [OF att] skip_message_simps [of ?t] att st' p0
            by (auto simp: process_one_message_def dx_read_message_type_def on_bicc_def step_ok_def same_block_def)
        next
          case (Inr type)
          show ?thesis
          proof (cases "dx_is_message_type_valid (ucast type)")
            case True
            then show ?thesis using l lt rt Inr typed_message_safe [OF hs att st'(1,2) p0 st'(3), of "ucast type"]
              by (auto simp: process_one_message_def dx_read_message_type_def on_bicc_def step_ok_def same_block_def split: loop_result.splits)
          next
            case False
            then show ?thesis using l lt rt Inr skip_message_simps [of ?t] att st' p0
              by (auto simp: process_one_message_def dx_read_message_type_def on_bicc_def step_ok_def same_block_def)
          qed
        qed
      qed
    qed
  qed
qed

lemma messages_safe:
  assumes "handlers_keep hs" "attached ctx" "nat (buffer_size ctx - position ctx) < fuel"
  shows "\<exists>r c. process_messages fuel hs ctx = Some (r, c) \<and> (\<forall>e. r = Inl e \<longrightarrow> e = UB \<and> \<not> handlers_defined hs)
    \<and> (\<forall>ok. r = Inr ok \<longrightarrow> attached c \<and> same_block ctx c)"
  using assms(2,3)
proof (induction fuel arbitrary: ctx)
  case (Suc fuel)
  note step = one_message_safe [OF assms(1) Suc.prems(1)]
  show ?case
  proof (cases "position ctx < buffer_size ctx")
    case lt: True
    show ?thesis
    proof (cases "process_one_message hs ctx")
      case (Continue c)
      then have c: "attached c" "same_block ctx c" "position ctx < position c" using step by (simp_all add: step_ok_def)
      have "nat (buffer_size c - position c) < fuel" using Suc.prems(2) c(2,3) lt by (simp add: same_block_def)
      from Suc.IH [OF c(1) this] lt Continue c(2) show ?thesis by (auto simp: same_block_def)
    qed (use lt step in \<open>auto simp: step_ok_def\<close>)
  next
    case False
    then show ?thesis using Suc.prems(1) by (intro exI [of _ "Inr True"] exI [of _ ctx]) (simp add: same_block_def)
  qed
qed simp

lemma server_data_safe_aux:
  assumes hs: "handlers_keep hs" and wf: "wf_server ctx" and n: "int (length (unprocessed ctx)) + int (length data) \<le> INT_MAX"
  shows "\<exists>r c. dx_process_server_data mem hs data (int (length data)) ctx = Some (r, c) \<and> (handlers_defined hs \<longrightarrow> r \<noteq> Inl UB) \<and>
    (\<forall>ok. r = Inr ok \<longrightarrow> wf_server c)"
proof -
  obtain r c where rc: "dx_append_new_data mem data (int (length data)) ctx = (r, c)"
    and post: "case r of Inl e \<Rightarrow> e = dx_mec_insufficient_memory \<and> \<not> mem (length (unprocessed ctx) + length data)
     | Inr _ \<Rightarrow> wf_server c \<and> attached c \<and> pending (bicc c) = unprocessed ctx @ data
         \<and> position c = 0 \<and> processor c = processor ctx"
    using append_spec [OF wf n, of mem] by blast
  show ?thesis
  proof (cases "data = []")
    case True
    then show ?thesis by (simp add: dx_process_server_data_def)
  next
    case False
    show ?thesis
    proof (cases r)
      case (Inl e)
      then show ?thesis using rc post False by (simp add: dx_process_server_data_def)
    next
      case (Inr u)
      then have c: "wf_server c" "attached c" using post by simp_all
      have "nat (buffer_size c - position c) < messages_fuel c" by (simp add: messages_fuel_def)
      from messages_safe [OF hs c(2) this]
      obtain r' d where d: "process_messages (messages_fuel c) hs c = Some (r', d)"
        "\<forall>e. r' = Inl e \<longrightarrow> e = UB \<and> \<not> handlers_defined hs" "\<forall>ok. r' = Inr ok \<longrightarrow> attached d \<and> same_block c d" by blast
      have "wf_server (d\<lparr>buffer_pos := position d\<rparr>)" if "r' = Inr ok" for ok
        using c(1) d(3) that by (auto simp: wf_server_def attached_def same_block_def wf_in_def)
      then show ?thesis using rc Inr False d(1,2) by (auto simp: dx_process_server_data_def)
    qed
  qed
qed

lemma heartbeat_type [simp]: "dx_is_message_type_valid MESSAGE_HEARTBEAT" "\<not> dx_is_data_message MESSAGE_HEARTBEAT"
  "\<not> dx_is_subscription_message MESSAGE_HEARTBEAT" "MESSAGE_HEARTBEAT \<noteq> MESSAGE_DESCRIBE_RECORDS"
  "MESSAGE_HEARTBEAT \<noteq> MESSAGE_DESCRIBE_PROTOCOL"
  by code_simp+

lemma process_heartbeat: "dx_process_message hs MESSAGE_HEARTBEAT = parseHeartbeat hs"
  by (simp add: dx_process_message_def)

lemma empty_heartbeat_handled: "handled hs None h h"
  by (simp add: handled_def process_heartbeat parseHeartbeat_def)

lemma heartbeat_bytes_nonempty: "heartbeat_bytes p \<noteq> []"
  using length_compact_int_bytes(1) [of "contentMask p"] by (auto simp: heartbeat_bytes_def)

definition payload_fits :: "heartbeat_payload \<Rightarrow> bool" where
  "payload_fits p \<longleftrightarrow> has_content (contentMask p) TIME_MILLIS \<longrightarrow> \<not> lost_sign_long (timeMillis p)"

lemma parse_heartbeat:
  assumes "payload_fits p" "wf_in input" "pending input = heartbeat_bytes p @ rest"
    and "in_buffer_limit input \<noteq> current_in_buffer_position input"
  shows "parseHeartbeat hs (h, input) =
    (Inr (), processIncomingHeartbeatPayload hs (transmitted p) h, advance (length (heartbeat_bytes p)) input)"
proof -
  have "receives parseFrom (heartbeat_bytes p) (transmitted p)"
    using assms(1) by (intro receives_heartbeat) (simp add: payload_fits_def)
  then have "parseFrom input = (Inr (transmitted p), advance (length (heartbeat_bytes p)) input)"
    using assms(2,3) unfolding receives_def by blast
  then show ?thesis using assms(4) by (simp add: parseHeartbeat_def)
qed

lemma heartbeat_handled:
  assumes "payload_fits p"
  shows "handled hs (Some (MESSAGE_HEARTBEAT, heartbeat_bytes p)) h (processIncomingHeartbeatPayload hs (transmitted p) h)"
proof -
  have "0 < length (heartbeat_bytes p)" using heartbeat_bytes_nonempty by simp
  then show ?thesis
    unfolding handled_def message_type.simps message_body.simps process_heartbeat if_P [OF heartbeat_type(1)]
    using parse_heartbeat [OF assms] by fastforce
qed

lemma from_new_connection:
  assumes "concat segments = wires ms @ bs" "accepted hs h ms h'" "incomplete max_size bs"
    and "\<forall>m \<in> set ms. length (wire m) \<le> max_size" "\<forall>d \<in> set segments. d \<noteq> [] \<and> length d \<le> max_segment"
    and "2 * int max_size + int max_segment \<le> INT_MAX"
  shows "\<exists>ctx. receive_segments (\<lambda>_. True) hs segments (new_server_ctx h) = Some ctx
    \<and> processor ctx = h' \<and> unprocessed ctx = bs"
proof -
  have "unprocessed (new_server_ctx h) @ concat segments = wires ms @ bs" using assms(1) by (simp add: new_server_wf)
  moreover have "accepted hs (processor (new_server_ctx h)) ms h'" using assms(2) by (simp add: new_server_ctx_def)
  moreover have "incomplete max_size (unprocessed (new_server_ctx h))" by (simp add: new_server_wf incomplete_def)
  ultimately show ?thesis
    using segments_spec [OF new_server_wf(1), of h segments ms bs max_segment max_size hs h'] assms(3-6) by blast
qed

section \<open>Properties\<close>

text \<open>
  C2: However a stream of messages is cut into segments by the network, every message is handled
  exactly once, in order, and as soon as its last byte has arrived: after any number of segments the
  processor has handled the complete messages, and exactly the bytes of the incomplete one are kept.
\<close>

theorem segments_reassembled:
  assumes "concat segments = wires ms @ bs" "accepted hs h ms h'" "incomplete max_size bs"
    and "\<forall>m \<in> set ms. length (wire m) \<le> max_size" "\<forall>d \<in> set segments. d \<noteq> [] \<and> length d \<le> max_segment"
    and "2 * int max_size + int max_segment \<le> INT_MAX"
  shows "\<exists>ctx. receive_segments (\<lambda>_. True) hs segments (new_server_ctx h) = Some ctx
    \<and> processor ctx = h' \<and> unprocessed ctx = bs"
  by (rule from_new_connection [OF assms])

definition mark_5 :: heartbeat_payload where
  "mark_5 = \<lparr>contentMask = 2, timeMillis = 0, timeMark = 5, deltaMark = 0, lagMark = 0\<rparr>"

text \<open>A processor that records the heartbeats.\<close>

definition heartbeat_log :: "heartbeat_payload list handlers" where
  "heartbeat_log = \<lparr>process_data_message = return (), process_describe_records = return (),
     process_describe_protocol = return (), processIncomingHeartbeatPayload = (#)\<rparr>"

theorem segments_reassembled_witness:
  "\<exists>ctx. receive_segments (\<lambda>_. True) heartbeat_log [[3, 0], [2], [5, 0, 7]] (new_server_ctx []) = Some ctx
    \<and> processor ctx = [mark_5] \<and> unprocessed ctx = [7]"
proof -
  let ?m = "Some (MESSAGE_HEARTBEAT, heartbeat_bytes mark_5)"
  have b: "heartbeat_bytes mark_5 = [2, 5]" "wire ?m = [3, 0, 2, 5]" "wire None = [0]"
    "wire (Some (0, [0, 0, 0, 0, 0, 0])) = 7 # [0, 0, 0, 0, 0, 0, 0]" by code_simp+
  have "transmitted mark_5 = mark_5" by code_simp
  moreover have "payload_fits mark_5" by code_simp
  ultimately have "handled heartbeat_log ?m [] [mark_5]"
    using heartbeat_handled [of mark_5 heartbeat_log "[]"] by (simp add: heartbeat_log_def)
  then have acc: "accepted heartbeat_log [] [?m, None] [mark_5]"
    by (rule accepted_Cons [OF _ accepted_Cons [OF empty_heartbeat_handled accepted_Nil]])
  have inc: "incomplete 9 [7]" unfolding incomplete_def
    by (intro disjI2 exI [of _ "Some (0, [0, 0, 0, 0, 0, 0])"] exI [of _ "[0, 0, 0, 0, 0, 0, 0]"]) (simp add: b)
  have cc: "concat [[3, 0], [2], [5, 0, 7]] = wires [?m, None] @ [7]" using b(2,3) by simp
  have "\<forall>m \<in> set [?m, None]. length (wire m) \<le> 9" using b(2,3) by simp
  moreover have "\<forall>d \<in> set [[3, 0], [2], [5, 0, 7]]. d \<noteq> [] \<and> length d \<le> 3" by simp
  ultimately show ?thesis by (intro segments_reassembled [OF cc acc inc, where max_segment = 3]) simp_all
qed

text \<open>
  C13: On arbitrary bytes from the network the loop over the messages ends within its fuel, one round for
  each byte of the buffer, the buffer stays well formed, and no memory outside its blocks is accessed
  unless a processor of message bodies does so.  Those processors are assumed to keep inside the
  buffer and to move forward only.
\<close>

theorem server_data_safe:
  assumes "handlers_keep hs" "wf_server ctx" "int (length (unprocessed ctx)) + int (length data) \<le> INT_MAX"
  shows "\<exists>r ctx'. dx_process_server_data mem hs data (int (length data)) ctx = Some (r, ctx')
    \<and> (handlers_defined hs \<longrightarrow> r \<noteq> Inl UB) \<and> (\<forall>ok. r = Inr ok \<longrightarrow> wf_server ctx')"
  by (rule server_data_safe_aux [OF assms])

theorem server_data_safe_witness:
  "\<exists>r ctx'. dx_process_server_data (\<lambda>_. True) heartbeat_log [0xFF, 0x80, 3] 3 (new_server_ctx []) = Some (r, ctx') \<and> r \<noteq> Inl UB
    \<and> (\<forall>ok. r = Inr ok \<longrightarrow> wf_server ctx')"
proof -
  have "body_processor (return () :: (heartbeat_payload list \<times> in_ctx, unit) io)"
    by unfold_locales (auto simp: return_def)
  moreover have "defined_processor (return () :: (heartbeat_payload list \<times> in_ctx, unit) io)"
    by unfold_locales (auto simp: return_def)
  ultimately have "handlers_keep heartbeat_log" "handlers_defined heartbeat_log"
    by (simp_all add: handlers_keep_def handlers_defined_def heartbeat_log_def)
  with server_data_safe [OF _ new_server_wf(1), of heartbeat_log "[]" "[0xFF, 0x80, 3]" "\<lambda>_. True"] show ?thesis
    by (auto simp: new_server_wf)
qed

text \<open>
  C18: A heartbeat written by the client side reaches the processor of the other side as it was, with
  the fields that its mask leaves out cleared, however its bytes are cut into segments.  (Times whose
  compact format loses its sign are excluded.)
\<close>

theorem heartbeat_roundtrip:
  assumes "wf_out octx" "written octx = []" "writeHeartbeatMessage mem p octx = (Inr (), octx')" "payload_fits p"
    and "concat segments = written octx'" "\<forall>d \<in> set segments. d \<noteq> []"
  shows "\<exists>ctx. receive_segments (\<lambda>_. True) hs segments (new_server_ctx h) = Some ctx
    \<and> processor ctx = processIncomingHeartbeatPayload hs (transmitted p) h \<and> unprocessed ctx = []"
proof -
  have l: "length (heartbeat_bytes p) \<le> 29"
    using length_compact_int_bytes(2) [of "contentMask p"] length_compact_int_bytes(2) [of "timeMark p"]
      length_compact_int_bytes(2) [of "deltaMark p"] length_compact_int_bytes(2) [of "lagMark p"]
      length_compact_long_bytes [of "timeMillis p"]
    by (simp add: heartbeat_bytes_def)
  let ?m = "Some (MESSAGE_HEARTBEAT, heartbeat_bytes p)"
  have w: "written octx' = wire ?m"
    using compose_spec [OF assms(1,2) sends_heartbeat _ assms(3) [unfolded writeHeartbeatMessage_def]] l
    by (simp add: wire_frame)
  have "length (message_content ?m) \<le> 34"
    using l length_compact_int_bytes(2) [of MESSAGE_HEARTBEAT] by (simp add: message_content_def)
  then have lw: "length (wire ?m) \<le> 39"
    using length_compact_int_bytes(2) [of "word_of_int (int (length (message_content ?m)))"] by (simp add: wire_def)
  have c: "concat segments = wires [?m] @ []" using assms(5) w by simp
  have "length d \<le> 39" if "d \<in> set segments" for d
  proof -
    from that obtain xs ys where "segments = xs @ d # ys" by (meson split_list)
    then have "length d \<le> length (concat segments)" by simp
    with lw assms(5) w show ?thesis by simp
  qed
  then have d: "\<forall>d \<in> set segments. d \<noteq> [] \<and> length d \<le> 39" using assms(6) by blast
  have "accepted hs h [?m] (processIncomingHeartbeatPayload hs (transmitted p) h)"
    using heartbeat_handled [OF assms(4)] by (auto simp: accepted_simps)
  with from_new_connection [OF c _ _ _ d, of hs h "processIncomingHeartbeatPayload hs (transmitted p) h" 39] lw
  show ?thesis by (simp add: incomplete_def)
qed

theorem heartbeat_roundtrip_witness:
  "\<exists>ctx. receive_segments (\<lambda>_. True) heartbeat_log [[3], [0, 2, 5]] (new_server_ctx []) = Some ctx
    \<and> processor ctx = [mark_5] \<and> unprocessed ctx = []"
proof -
  let ?run = "writeHeartbeatMessage (\<lambda>_. True) mark_5 (new_out 64)"
  have w: "?run = (Inr (), snd ?run)" "written (snd ?run) = [3, 0, 2, 5]" "transmitted mark_5 = mark_5" "payload_fits mark_5"
    by code_simp+
  have o: "wf_out (new_out 64)" "written (new_out 64) = []" by (simp_all add: wf_out_def written_def new_out_def)
  have "concat [[3], [0, 2, 5]] = written (snd ?run)" using w(2) by simp
  from heartbeat_roundtrip [OF o w(1) w(4) this, of heartbeat_log "[]"] w(3) show ?thesis by (simp add: heartbeat_log_def)
qed

text \<open>
  When the buffer cannot be enlarged for the data of a segment, the enlarged capacity stays recorded,
  so that a later segment that fits that capacity is copied beyond the end of the block.
\<close>

theorem append_after_failure:
  assumes "wf_server ctx" "data \<noteq> []" "data2 \<noteq> []" "length (unprocessed ctx) + length data2 \<le> length (unprocessed ctx) + length data"
    and "length (msg_buffer ctx) < length (unprocessed ctx) + length data2"
    and "int (length (unprocessed ctx)) + int (length data) \<le> INT_MAX" "\<not> mem (length (unprocessed ctx) + length data)"
  shows "\<exists>ctx1 ctx2. dx_process_server_data mem hs data (int (length data)) ctx = Some (Inl dx_mec_insufficient_memory, ctx1)
    \<and> dx_process_server_data mem' hs data2 (int (length data2)) ctx1 = Some (Inl UB, ctx2)"
proof -
  let ?u = "unprocessed ctx"
  obtain block where m: "move_unprocessed ctx = (Inr (), ctx\<lparr>msg_buffer := block, buffer_size := int (length ?u), buffer_pos := 0\<rparr>)"
    "length block = length (msg_buffer ctx)" "take (length ?u) block = ?u" using move_unprocessed_spec [OF assms(1)] by blast
  let ?total = "length ?u + length data"
  let ?c = "ctx\<lparr>msg_buffer := block, buffer_size := int (length ?u), buffer_pos := 0, buffer_capacity := int ?total\<rparr>"
  have cap: "buffer_capacity ctx = int (length block)" using assms(1) m(2) by (simp add: wf_server_def)
  have "dx_append_new_data mem data (int (length data)) ctx = (Inl dx_mec_insufficient_memory, ?c)"
    using m(1) assms(4-7) cap m(2) by (simp add: dx_append_new_data_def io_simps grow_msg_buffer_def Let_def nat_add_distrib)
  then have first: "dx_process_server_data mem hs data (int (length data)) ctx = Some (Inl dx_mec_insufficient_memory, ?c)"
    using assms(2) by (simp add: dx_process_server_data_def)
  have lu: "length ?u \<le> length block" using assms(1) m(2) by (auto simp: unprocessed_def wf_server_def)
  obtain block2 where m2: "move_unprocessed ?c = (Inr (), ?c\<lparr>msg_buffer := block2, buffer_size := int (length ?u), buffer_pos := 0\<rparr>)"
    "length block2 = length block"
  proof (cases "?u = []")
    case True
    then show ?thesis using that [of block] by (simp add: move_unprocessed_def)
  next
    case False
    have "mem_copy block 0 block 0 (int (length ?u)) = Some (take (length ?u) block @ drop (length ?u) block)"
      using mem_copy_nat [of block 0 block 0 "length ?u"] lu by simp
    then show ?thesis using that [of block] False by (simp add: move_unprocessed_def)
  qed
  have "mem_copy block2 (int (length ?u)) data2 0 (int (length data2)) = None"
    using mem_copy_nat [of block2 "length ?u" data2 0 "length data2"] m2(2) m(2) assms(5) by simp
  then have "fst (dx_append_new_data mem' data2 (int (length data2)) ?c) = Inl UB"
    using m2(1) assms(4,6) by (simp add: dx_append_new_data_def io_simps grow_msg_buffer_def)
  then obtain c2 where "dx_append_new_data mem' data2 (int (length data2)) ?c = (Inl UB, c2)" by (metis prod.collapse)
  then have "dx_process_server_data mem' hs data2 (int (length data2)) ?c = Some (Inl UB, c2)"
    using assms(3) by (simp add: dx_process_server_data_def)
  with first show ?thesis by blast
qed

theorem append_after_failure_witness:
  "\<exists>ctx1 ctx2. dx_process_server_data (\<lambda>n. n < 16000) heartbeat_log (replicate 16002 0) 16002 (new_server_ctx []) =
      Some (Inl dx_mec_insufficient_memory, ctx1)
    \<and> dx_process_server_data (\<lambda>_. True) heartbeat_log (replicate 16001 0) 16001 ctx1 = Some (Inl UB, ctx2)"
proof -
  have l: "length (msg_buffer (new_server_ctx [])) = 16000" by (simp add: new_server_ctx_def DEFAULT_BUFFER_CAPACITY_def)
  show ?thesis
    using append_after_failure [OF new_server_wf(1), of "replicate 16002 0" "replicate 16001 0" "[]" "\<lambda>n. n < 16000" heartbeat_log "\<lambda>_. True"]
    by (simp add: new_server_wf l)
qed

text \<open>
  Unlike the other processors, the one of heartbeats does not skip the rest of the message: bytes
  after the known fields of a heartbeat are processed as the next message.
\<close>

theorem heartbeat_rest_not_skipped:
  assumes "attached ctx" "pending (bicc ctx) = wire (Some (MESSAGE_HEARTBEAT, heartbeat_bytes p @ extra)) @ rest"
    and "payload_fits p" "position ctx + int (length (wire (Some (MESSAGE_HEARTBEAT, heartbeat_bytes p @ extra)))) \<le> INT_MAX"
  shows "\<exists>ctx'. process_one_message hs ctx = Continue ctx' \<and> pending (bicc ctx') = extra @ rest
    \<and> processor ctx' = processIncomingHeartbeatPayload hs (transmitted p) (processor ctx)"
proof -
  let ?m = "Some (MESSAGE_HEARTBEAT, heartbeat_bytes p @ extra)"
  let ?t = "compact_int_bytes MESSAGE_HEARTBEAT"
  define l where "l = compact_int_bytes (word_of_int (int (length (message_content ?m))))"
  have w: "wire ?m = l @ message_content ?m" by (simp add: wire_def l_def)
  have c: "message_content ?m = ?t @ heartbeat_bytes p @ extra" by (simp add: message_content_def)
  have wf: "wf_in (bicc ctx)" using assms(1) by (simp add: attached_def)
  then have "0 \<le> position ctx" by (simp add: wf_in_def)
  then have small: "length (message_content ?m) < 2 ^ 31" using assms(4) by (simp add: w)
  have pl: "pending (bicc ctx) = l @ (message_content ?m @ rest)" using assms(2) w by simp
  define c1 where "c1 = ctx\<lparr>bicc := dx_set_in_buffer_limit (position ctx + int (length (wire ?m))) (advance (length l) (bicc ctx))\<rparr>"
  have r1: "dx_read_message_length_and_set_buffer_limit ctx = (Inr (), c1)"
    using read_length_spec [OF assms(1) pl [unfolded l_def] small, folded l_def] assms(4) by (simp add: w c1_def add.assoc)
  have wf1: "wf_in (bicc c1)" and p1: "pending (bicc c1) = ?t @ (heartbeat_bytes p @ extra @ rest)"
    using pending_advance [OF wf pl] c by (simp_all add: c1_def)
  have at1: "attached c1" using assms(1) wf1 by (simp add: attached_def c1_def)
  have ne: "0 < length ?t" "0 < length (heartbeat_bytes p)"
    using length_compact_int_bytes(1) [of MESSAGE_HEARTBEAT] heartbeat_bytes_nonempty [of p] by (auto simp del: length_greater_0_conv)
  have lw: "length (wire ?m) = length l + (length ?t + (length (heartbeat_bytes p) + length extra))" by (simp add: w c)
  have lt: "position c1 < limit c1" using ne unfolding c1_def lw by (simp del: length_greater_0_conv)
  define c2 where "c2 = c1\<lparr>bicc := advance (length ?t) (bicc c1)\<rparr>"
  have r2: "dx_read_message_type c1 = (Inr MESSAGE_HEARTBEAT, c2)" using read_type_spec [OF at1 p1] by (simp add: c2_def)
  have wf2: "wf_in (bicc c2)" and p2: "pending (bicc c2) = heartbeat_bytes p @ extra @ rest"
    using pending_advance [OF wf1 p1] by (simp_all add: c2_def)
  have "limit c2 \<noteq> position c2" using ne unfolding c2_def c1_def lw by (simp del: length_greater_0_conv)
  note ph = parse_heartbeat [OF assms(3) wf2 p2 this, of hs "processor c2"]
  have "process_one_message hs ctx = Continue (c2\<lparr>processor := processIncomingHeartbeatPayload hs (transmitted p) (processor c2),
      bicc := advance (length (heartbeat_bytes p)) (bicc c2)\<rparr>)"
    using r1 lt r2 ph by (simp add: process_one_message_def process_typed_message_def on_processor_def process_heartbeat)
  moreover have "pending (advance (length (heartbeat_bytes p)) (bicc c2)) = extra @ rest" using pending_advance [OF wf2 p2] by simp
  moreover have "processor c2 = processor ctx" by (simp add: c2_def c1_def)
  ultimately show ?thesis by simp
qed

theorem heartbeat_rest_not_skipped_witness:
  "let ctx = \<lparr>msg_buffer = [4, 0, 2, 5, 9], buffer_size = 5, buffer_pos = 0, buffer_capacity = 5,
       bicc = \<lparr>in_buffer = Some [4, 0, 2, 5, 9], in_buffer_length = 5, in_buffer_limit = 5, current_in_buffer_position = 0\<rparr>,
       processor = []\<rparr>
   in \<exists>ctx'. process_one_message heartbeat_log ctx = Continue ctx' \<and> pending (bicc ctx') = [9] \<and> processor ctx' = [mark_5]"
proof -
  let ?ctx = "\<lparr>msg_buffer = [4, 0, 2, 5, 9], buffer_size = 5, buffer_pos = 0, buffer_capacity = 5,
       bicc = \<lparr>in_buffer = Some [4, 0, 2, 5, 9], in_buffer_length = 5, in_buffer_limit = 5, current_in_buffer_position = 0\<rparr>,
       processor = []\<rparr> :: heartbeat_payload list server_ctx"
  have b: "payload_fits mark_5" "transmitted mark_5 = mark_5" "wire (Some (MESSAGE_HEARTBEAT, heartbeat_bytes mark_5 @ [9])) = [4, 0, 2, 5, 9]"
    by code_simp+
  have a: "attached ?ctx" "pending (bicc ?ctx) = [4, 0, 2, 5, 9]" by (simp_all add: attached_def wf_in_def pending_def)
  have s: "position ?ctx + int (length (wire (Some (MESSAGE_HEARTBEAT, heartbeat_bytes mark_5 @ [9])))) \<le> INT_MAX"
    unfolding b(3) by simp
  show ?thesis
    using heartbeat_rest_not_skipped [OF a(1) _ b(1) s, of "[]" heartbeat_log] a(2) b(2,3)
    by (simp add: heartbeat_log_def)
qed

end
