(* ===== verification/Dx_Protocol_Server.thy ===== *)
theory Dx_Protocol_Server
  imports Dx_Protocol Dx_Server_Data
begin

text \<open>
  Reception of a description: what it means for the state of the client, damaged descriptions, the
  request to log in, null names, and what remains of a lost connection.
\<close>

section \<open>Keeping inside the buffer\<close>

definition pair_keeps :: "('h \<times> in_ctx, 'a) io \<Rightarrow> bool" where
  "pair_keeps m \<longleftrightarrow> (\<forall>h input r h' input'. wf_in input \<longrightarrow> in_buffer_limit input \<le> in_buffer_length input \<longrightarrow>
     m (h, input) = (r, h', input') \<longrightarrow> wf_in input' \<and> same_buffer input input')"

named_theorems keeps_intros \<open>operations that keep inside the buffer\<close>

lemma keeps_return [keeps_intros]: "pair_keeps (return x)"
  by (auto simp: pair_keeps_def io_simps)

lemma keeps_fail [keeps_intros]: "pair_keeps (fail e)"
  by (auto simp: pair_keeps_def io_simps)

lemma keeps_on_context [keeps_intros]: "pair_keeps (on_context f)"
  by (auto simp: pair_keeps_def on_context_def split: sum.splits)

lemma keeps_on_input [keeps_intros]: "safe_with 0 (\<lambda>_. True) m \<Longrightarrow> pair_keeps (on_input m)"
  unfolding safe_iff [symmetric] by (auto simp: pair_keeps_def on_input_def safe_def split: prod.splits)

lemma keeps_if [keeps_intros]: "pair_keeps a \<Longrightarrow> pair_keeps b \<Longrightarrow> pair_keeps (if c then a else b)"
  by simp

lemma keeps_checked [keeps_intros]:
  assumes "pair_keeps m" "\<And>x. pair_keeps (k x)"
  shows "pair_keeps (checked m k)"
  unfolding pair_keeps_def
proof (intro allI impI)
  fix h input r h' input'
  assume wf: "wf_in input" "in_buffer_limit input \<le> in_buffer_length input" and e: "checked m k (h, input) = (r, h', input')"
  obtain r1 h1 i1 where m: "m (h, input) = (r1, h1, i1)" by (metis prod.exhaust)
  have s: "wf_in i1" "same_buffer input i1" using assms(1) wf m unfolding pair_keeps_def by blast+
  then have l: "in_buffer_limit i1 \<le> in_buffer_length i1" using wf by (simp add: same_buffer_def)
  show "wf_in input' \<and> same_buffer input input'"
  proof (cases r1)
    case (Inl er)
    then show ?thesis using m e s by (simp add: checked_def)
  next
    case (Inr x)
    then have "k x (h1, i1) = (r, h', input')" using m e by (simp add: checked_def)
    then have "wf_in input' \<and> same_buffer i1 input'" using assms(2) s(1) l unfolding pair_keeps_def by blast
    then show ?thesis using same_buffer_trans s(2) by blast
  qed
qed

lemma keeps_c_string [keeps_intros]: "pair_keeps (read_c_string mem)"
  unfolding read_c_string_def by (intro keeps_intros safe_utf_string)

lemma keeps_properties [keeps_intros]: "pair_keeps (read_properties mem n)"
  by (induction n) (auto intro!: keeps_intros)

lemma keeps_property_section [keeps_intros]: "pair_keeps (dx_read_describe_protocol_properties mem)"
  unfolding dx_read_describe_protocol_properties_def by (intro keeps_intros safe_intros)

lemma keeps_messages [keeps_intros]: "pair_keeps (read_message_list mem process n)"
  by (induction n) (auto intro!: keeps_intros safe_intros)

lemma keeps_message_section [keeps_intros]: "pair_keeps (dx_read_describe_protocol_message_list mem process)"
  unfolding dx_read_describe_protocol_message_list_def by (intro keeps_intros safe_intros)

lemma keeps_finish [keeps_intros]: "pair_keeps finish_description"
  by (auto simp: pair_keeps_def finish_description_def Let_def wf_in_def same_buffer_def dx_set_in_buffer_position_def
      split: sum.splits option.splits if_splits)

interpretation describe: body_processor "dx_process_describe_protocol mem" for mem
proof
  fix input h r h' input'
  assume wf: "wf_in input" "in_buffer_limit input \<le> in_buffer_length input"
    and e: "dx_process_describe_protocol mem (h, input) = (r, h', input')"
  let ?body = "checked (on_input dx_read_int) (\<lambda>magic.
     if magic \<noteq> 0x44585033 then fail dx_pec_describe_protocol_message_corrupted
     else checked (on_context (\<lambda>ctx. Inr (ctx\<lparr>recv_props := dx_property_map_free_collection (recv_props ctx)\<rparr>))) (\<lambda>_.
       checked (dx_read_describe_protocol_properties mem) (\<lambda>_.
       checked (dx_read_describe_protocol_message_list mem dx_process_server_send_message_type) (\<lambda>_.
       checked (dx_read_describe_protocol_message_list mem dx_process_server_recv_message_type) (\<lambda>_. finish_description)))))"
  have "pair_keeps ?body" by (intro keeps_intros safe_intros)
  moreover have "\<exists>h0. ?body (h0, input) = (r, h', input')" using e unfolding dx_process_describe_protocol_def Let_def prod.case by (rule exI)
  ultimately show "wf_in input' \<and> same_buffer input input'" using wf unfolding pair_keeps_def by blast
qed

section \<open>Reception of a description\<close>

definition all_properties :: "property list \<Rightarrow> message_support list \<Rightarrow> message_support list \<Rightarrow> property list" where
  "all_properties ps sent received = ps @ message_properties sent @ message_properties received"

text \<open>What the client may use: the messages of its rosters that the server has listed by number and name.\<close>

definition listed :: "int32 \<Rightarrow> message_support list \<Rightarrow> bool" where
  "listed msg ms \<longleftrightarrow> (\<exists>ps. (msg, dx_get_message_type_name msg, ps) \<in> set ms)"

definition negotiated :: "message_support list \<Rightarrow> message_support list \<Rightarrow> int32 \<Rightarrow> bool" where
  "negotiated sent received msg \<longleftrightarrow>
     msg \<in> set g_send_msg_roster \<and> listed msg received \<or> msg \<in> set g_recv_msg_roster \<and> listed msg sent"

definition take_sent :: "message_support \<Rightarrow> protocol_ctx \<Rightarrow> protocol_ctx" where
  "take_sent m ctx = ctx\<lparr>recv_msgs_bitmask := add_bit g_recv_msg_roster m (recv_msgs_bitmask ctx)\<rparr>"

definition take_received :: "message_support \<Rightarrow> protocol_ctx \<Rightarrow> protocol_ctx" where
  "take_received m ctx = ctx\<lparr>send_msgs_bitmask := add_bit g_send_msg_roster m (send_msgs_bitmask ctx)\<rparr>"

lemma process_named:
  "dx_process_server_send_message_type (fst m) (Some (fst (snd m))) ctx = Inr (take_sent m ctx)"
  "dx_process_server_recv_message_type (fst m) (Some (fst (snd m))) ctx = Inr (take_received m ctx)"
  by (simp_all add: dx_process_server_send_message_type_def dx_process_server_recv_message_type_def roster_bit_named
      take_sent_def take_received_def)

lemma take_props: "recv_props (take_sent m ctx) = recv_props ctx" "recv_props (take_received m ctx) = recv_props ctx"
  "take_sent m (ctx\<lparr>recv_props := p\<rparr>) = (take_sent m ctx)\<lparr>recv_props := p\<rparr>"
  "take_received m (ctx\<lparr>recv_props := p\<rparr>) = (take_received m ctx)\<lparr>recv_props := p\<rparr>"
  by (simp_all add: take_sent_def take_received_def)

lemma fold_take: "fold take_sent ms ctx = ctx\<lparr>recv_msgs_bitmask := fold (add_bit g_recv_msg_roster) ms (recv_msgs_bitmask ctx)\<rparr>"
  "fold take_received ms ctx = ctx\<lparr>send_msgs_bitmask := fold (add_bit g_send_msg_roster) ms (send_msgs_bitmask ctx)\<rparr>"
  by (induction ms arbitrary: ctx) (simp_all add: take_sent_def take_received_def)

abbreviation empty_props :: property_map where "empty_props \<equiv> \<lparr>elements = [], arr_size = 0, capacity = 0\<rparr>"

text \<open>The context when all parts of the description have been read.\<close>

definition described :: "property list \<Rightarrow> message_support list \<Rightarrow> message_support list \<Rightarrow> protocol_ctx \<Rightarrow> protocol_ctx" where
  "described ps sent received ctx = ctx\<lparr>
     recv_msgs_bitmask := fold (add_bit g_recv_msg_roster) sent (if describe_protocol_status ctx = dx_dps_not_received then 0 else recv_msgs_bitmask ctx),
     send_msgs_bitmask := fold (add_bit g_send_msg_roster) received (if describe_protocol_status ctx = dx_dps_not_received then 0 else send_msgs_bitmask ctx),
     recv_props := fold set_property (all_properties ps sent received) empty_props\<rparr>"

lemma takes_step:
  assumes "takes m xs h v h'" "wf_in input" "pending input = xs @ ys"
  shows "checked m k (h, input) = k v (h', advance (length xs) input)" "wf_in (advance (length xs) input)"
    "pending (advance (length xs) input) = ys"
  using takesD [OF assms] pending_advance [OF assms(2,3)] by (simp_all add: checked_def)

lemma process_description:
  assumes ok: "properties_ok ps" "message_list_ok sent" "message_list_ok received"
    and wf: "wf_in input" and p: "pending input = describe_protocol_bytes ps sent received @ rest"
  shows "dx_process_describe_protocol all_mem (ctx, input) =
    finish_description (described ps sent received ctx, advance (length (describe_protocol_bytes ps sent received)) input)"
proof -
  define c0 where "c0 = (if describe_protocol_status ctx = dx_dps_not_received
    then ctx\<lparr>send_msgs_bitmask := 0, recv_msgs_bitmask := 0\<rparr> else ctx)"
  define c1 where "c1 = c0\<lparr>recv_props := empty_props\<rparr>"
  define c2 where "c2 = with_properties ps c1"
  define c3 where "c3 = with_properties (message_properties sent) (fold take_sent sent c2)"
  define c4 where "c4 = with_properties (message_properties received) (fold take_received received c3)"
  have w1: "wf_props (recv_props c1)" by (simp add: c1_def wf_props_empty)
  then have w2: "wf_props (recv_props c2)" using set_properties_spec by (simp add: c2_def)
  then have w3: "wf_props (recv_props c3)" using set_properties_spec by (simp add: c3_def fold_take)
  have t1: "takes (on_context (\<lambda>ctx. Inr (ctx\<lparr>recv_props := dx_property_map_free_collection (recv_props ctx)\<rparr>))) [] c0 () c1"
    by (intro takes_on_context) (simp add: c1_def dx_property_map_free_collection_def)
  have t2: "takes (dx_read_describe_protocol_properties all_mem) (properties_bytes ps) c1 () c2"
    unfolding c2_def by (rule takes_property_section [OF w1 ok(1)])
  have t3: "takes (dx_read_describe_protocol_message_list all_mem dx_process_server_send_message_type) (message_list_bytes sent) c2 () c3"
    unfolding c3_def by (rule takes_message_section [where f = take_sent, OF process_named(1) take_props(1) take_props(3) w2 ok(2)])
  have t4: "takes (dx_read_describe_protocol_message_list all_mem dx_process_server_recv_message_type) (message_list_bytes received) c3 () c4"
    unfolding c4_def by (rule takes_message_section [where f = take_received, OF process_named(2) take_props(2) take_props(4) w3 ok(3)])
  have m: "takes (on_input dx_read_int) (int_bytes 0x44585033) c0 0x44585033 c0" by (intro takes_on_input receives_int_bytes)
  let ?i1 = "advance 4 input"
  have l: "length (int_bytes 0x44585033) = 4" by (simp add: int_bytes_def)
  have p0: "pending input = int_bytes 0x44585033 @ (properties_bytes ps @ (message_list_bytes sent @ (message_list_bytes received @ rest)))"
    using p by (simp add: describe_protocol_bytes_def)
  note s1 = takes_step [OF m wf p0, unfolded l]
  note s2 = takes_step [where xs = "[]", unfolded append_Nil, OF t1 s1(2,3), unfolded list.size advance_zero]
  note s3 = takes_step [OF t2 s2(2,3)]
  note s4 = takes_step [OF t3 s3(2,3)]
  note s5 = takes_step [OF t4 s4(2,3)]
  have "dx_process_describe_protocol all_mem (ctx, input) = finish_description (c4,
      advance (length (message_list_bytes received)) (advance (length (message_list_bytes sent)) (advance (length (properties_bytes ps)) ?i1)))"
    unfolding dx_process_describe_protocol_def prod.case Let_def c0_def [symmetric] s1(1)
    by (simp add: s2(1) s3(1) s4(1) s5(1) del: advance_advance)
  also have "\<dots> = finish_description (c4, advance (length (describe_protocol_bytes ps sent received)) input)"
    by (simp add: describe_protocol_bytes_def l add.assoc)
  also have "c4 = described ps sent received ctx"
    by (simp add: c4_def c3_def c2_def c1_def c0_def described_def fold_take all_properties_def)
  finally show ?thesis .
qed

lemma described_props: "wf_props (recv_props (described ps sent received ctx))"
  "props_map (recv_props (described ps sent received ctx)) = map_of (rev (all_properties ps sent received))"
  using set_properties_spec [OF wf_props_empty(1), of "all_properties ps sent received"] wf_props_empty(2) by (simp_all add: described_def)

lemma in_set_nth: "msg \<in> set roster \<longleftrightarrow> (\<exists>i < length roster. roster ! i = msg)"
  by (auto simp: in_set_conv_nth)

lemma described_support:
  assumes "describe_protocol_status ctx = dx_dps_not_received \<or> send_msgs_bitmask ctx = 0 \<and> recv_msgs_bitmask ctx = 0"
    and "dx_is_message_type_valid msg" "describe_protocol_status ctx' = dx_dps_received"
    and "send_msgs_bitmask ctx' = send_msgs_bitmask (described ps sent received ctx)"
    and "recv_msgs_bitmask ctx' = recv_msgs_bitmask (described ps sent received ctx)"
  shows "dx_is_message_supported_by_server msg ctx' =
    Inr (if negotiated sent received msg then dx_mss_supported else dx_mss_not_supported)"
proof -
  have m: "send_msgs_bitmask ctx' = fold (add_bit g_send_msg_roster) received 0" "recv_msgs_bitmask ctx' = fold (add_bit g_recv_msg_roster) sent 0"
    using assms(1,4,5) by (auto simp: described_def)
  have "dx_get_msg_support_state msg g_send_msg_roster (send_msgs_bitmask ctx') \<longleftrightarrow> msg \<in> set g_send_msg_roster \<and> listed msg received"
    unfolding support_state [OF rosters(1,2)] m in_set_nth [of msg g_send_msg_roster] listed_def using bit_add_bits [OF rosters(1,2), of _ received 0] by auto
  moreover have "dx_get_msg_support_state msg g_recv_msg_roster (recv_msgs_bitmask ctx') \<longleftrightarrow> msg \<in> set g_recv_msg_roster \<and> listed msg sent"
    unfolding support_state [OF rosters(3,4)] m in_set_nth [of msg g_recv_msg_roster] listed_def using bit_add_bits [OF rosters(3,4), of _ sent 0] by auto
  ultimately show ?thesis using assms(2,3) by (simp add: dx_is_message_supported_by_server_def negotiated_def)
qed

section \<open>Properties\<close>

text \<open>
  C11: A description of the protocol is understood as it was sent, whatever follows it in its message:
  the properties are stored, later ones replacing earlier ones, the position is at the end of the
  message, the connection is authorized, and from then on a message counts as supported exactly when
  it is in a roster of the client and the server has listed it by its number and its name for the
  other direction.
\<close>

theorem describe_protocol_received:
  assumes "properties_ok ps" "message_list_ok sent" "message_list_ok received"
    and "map_of (rev (all_properties ps sent received)) DX_RECV_PROPERTY_AUTH \<in> {None, Some []}"
    and "describe_protocol_status ctx = dx_dps_not_received \<or> send_msgs_bitmask ctx = 0 \<and> recv_msgs_bitmask ctx = 0"
    and "wf_in input" "pending input = describe_protocol_bytes ps sent received @ extra @ rest"
    and "in_buffer_limit input = current_in_buffer_position input + int (length (describe_protocol_bytes ps sent received @ extra))"
  shows "\<exists>ctx'. dx_process_describe_protocol (\<lambda>_. True) (ctx, input) =
      (Inr (), ctx', advance (length (describe_protocol_bytes ps sent received @ extra)) input)
    \<and> describe_protocol_status ctx' = dx_dps_received \<and> connection_status ctx' = dxf_cs_authorized
    \<and> props_map (recv_props ctx') = map_of (rev (all_properties ps sent received))
    \<and> (\<forall>msg. dx_is_message_type_valid msg \<longrightarrow> dx_is_message_supported_by_server msg ctx' =
         Inr (if negotiated sent received msg then dx_mss_supported else dx_mss_not_supported))"
proof -
  let ?n = "length (describe_protocol_bytes ps sent received)"
  let ?d = "described ps sent received ctx"
  let ?c = "?d\<lparr>describe_protocol_status := dx_dps_received, connection_status := dxf_cs_authorized\<rparr>"
  note d = process_description [OF assms(1-3,6) assms(7), of ctx]
  have lk: "dx_property_map_try_get_value (recv_props ?d) (Some DX_RECV_PROPERTY_AUTH) =
      Inr (map_option Some (map_of (rev (all_properties ps sent received)) DX_RECV_PROPERTY_AUTH))"
    using lookup_spec(1) [OF described_props(1)] described_props(2) by simp
  have pos: "(if current_in_buffer_position (advance ?n input) < in_buffer_limit (advance ?n input)
      then dx_set_in_buffer_position (in_buffer_limit (advance ?n input)) (advance ?n input) else advance ?n input) =
      advance (length (describe_protocol_bytes ps sent received @ extra)) input"
    using assms(8) by (cases "extra = []") (simp_all add: advance_def dx_set_in_buffer_position_def)
  have "finish_description (?d, advance ?n input) = (Inr (), ?c, advance (length (describe_protocol_bytes ps sent received @ extra)) input)"
    unfolding finish_description_def prod.case Let_def lk pos using assms(4) by auto
  moreover have "dx_is_message_supported_by_server msg ?c =
      Inr (if negotiated sent received msg then dx_mss_supported else dx_mss_not_supported)" if "dx_is_message_type_valid msg" for msg
    by (rule described_support [OF assms(5) that]) simp_all
  ultimately show ?thesis using d described_props(2) by (intro exI [of _ ?c]) simp
qed

text \<open>
  After the time for the description has run out every message of the rosters counts as supported.
  A damaged description that arrives then clears that before it is checked: it is refused, but no
  message is supported any more, and neither the countdown task nor another description sent changes
  this.
\<close>

theorem damaged_description:
  assumes "describe_protocol_status ctx = dx_dps_not_received" "wf_in input" "pending input = int_bytes magic @ rest" "magic \<noteq> 0x44585033"
  shows "\<exists>ctx' input'. dx_process_describe_protocol mem (ctx, input) = (Inl dx_pec_describe_protocol_message_corrupted, ctx', input')
    \<and> (\<forall>msg. dx_is_message_type_valid msg \<longrightarrow> dx_is_message_supported_by_server msg ctx' = Inr dx_mss_not_supported)
    \<and> snd (dx_describe_protocol_timeout_countdown_task now free_resources ctx') = ctx'
    \<and> dx_describe_protocol_sent now added ctx' = (Inl dx_ec_internal_assert_violation, ctx')"
proof -
  let ?c = "ctx\<lparr>send_msgs_bitmask := 0, recv_msgs_bitmask := 0\<rparr>"
  have m: "takes (on_input dx_read_int) (int_bytes magic) ?c magic ?c" by (intro takes_on_input receives_int_bytes)
  have "dx_process_describe_protocol mem (ctx, input) =
      (Inl dx_pec_describe_protocol_message_corrupted, ?c, advance (length (int_bytes magic)) input)"
    unfolding dx_process_describe_protocol_def prod.case Let_def if_P [OF assms(1)] takes_step(1) [OF m assms(2,3)]
    using assms(4) by (simp add: fail_def)
  moreover have "dx_is_message_supported_by_server msg ?c = Inr dx_mss_not_supported" if "dx_is_message_type_valid msg" for msg
    using that assms(1) support_state [OF rosters(1,2), of msg 0] support_state [OF rosters(3,4), of msg 0]
    by (simp add: dx_is_message_supported_by_server_def)
  ultimately show ?thesis using assms(1)
    by (intro exI [of _ ?c]) (simp add: dx_describe_protocol_timeout_countdown_task_def dx_describe_protocol_sent_def)
qed

text \<open>
  C38: When the server answers with a request to log in, the description is pending again, so that the
  next description, which carries the credentials, is refused by the bookkeeping of the client.
\<close>

theorem login_refused:
  assumes "properties_ok ps" "message_list_ok sent" "message_list_ok received"
    and "map_of (rev (all_properties ps sent received)) DX_RECV_PROPERTY_AUTH = Some (DX_RECV_PROPERTY_LOGIN_REQUIRED @ reason)"
    and "wf_in input" "pending input = describe_protocol_bytes ps sent received @ rest"
  shows "\<exists>ctx' input'. dx_process_describe_protocol (\<lambda>_. True) (ctx, input) = (Inl dx_ec_success, ctx', input')
    \<and> connection_status ctx' = dxf_cs_login_required
    \<and> dx_describe_protocol_sent now added ctx' = (Inl dx_ec_internal_assert_violation, ctx')"
proof -
  let ?n = "length (describe_protocol_bytes ps sent received)"
  let ?d = "described ps sent received ctx"
  let ?c = "?d\<lparr>describe_protocol_status := dx_dps_pending, connection_status := dxf_cs_login_required\<rparr>"
  note d = process_description [OF assms(1-3,5,6), of ctx]
  have lk: "dx_property_map_try_get_value (recv_props ?d) (Some DX_RECV_PROPERTY_AUTH) =
      Inr (Some (Some (DX_RECV_PROPERTY_LOGIN_REQUIRED @ reason)))"
    using lookup_spec(1) [OF described_props(1)] described_props(2) assms(4) by simp
  have cmp: "dx_compare_strings_num DX_RECV_PROPERTY_LOGIN_REQUIRED (DX_RECV_PROPERTY_LOGIN_REQUIRED @ reason)
      (length DX_RECV_PROPERTY_LOGIN_REQUIRED) = 0"
    by (simp add: dx_compare_strings_num_def compare_strings_eq)
  have "0 < length (DX_RECV_PROPERTY_LOGIN_REQUIRED @ reason)" by (simp add: DX_RECV_PROPERTY_LOGIN_REQUIRED_def wide_def)
  then have "finish_description (?d, advance ?n input) = (Inl dx_ec_success, ?c, advance ?n input)"
    unfolding finish_description_def prod.case Let_def lk by (simp add: cmp)
  then show ?thesis using d
    by (intro exI [of _ ?c] exI [of _ "advance ?n input"]) (simp add: dx_describe_protocol_sent_def)
qed

text \<open>
  A message name sent as null for a message of a roster is compared all the same, which is undefined
  behaviour: a server can crash the client with it.
\<close>

theorem null_message_name:
  assumes "number \<in> set g_recv_msg_roster" "wf_in input"
    and "pending input = int_bytes 0x44585033 @ properties_bytes [] @ compact_int_bytes 1 @ compact_int_bytes number @ compact_int_bytes (- 1) @ rest"
  shows "fst (dx_process_describe_protocol mem (ctx, input)) = Inl UB"
proof -
  define c0 where "c0 = (if describe_protocol_status ctx = dx_dps_not_received
    then ctx\<lparr>send_msgs_bitmask := 0, recv_msgs_bitmask := 0\<rparr> else ctx)"
  define c1 where "c1 = c0\<lparr>recv_props := empty_props\<rparr>"
  have l: "length (int_bytes 0x44585033) = 4" by (simp add: int_bytes_def)
  have m: "takes (on_input dx_read_int) (int_bytes 0x44585033) c0 0x44585033 c0" by (intro takes_on_input receives_int_bytes)
  have t1: "takes (on_context (\<lambda>ctx. Inr (ctx\<lparr>recv_props := dx_property_map_free_collection (recv_props ctx)\<rparr>))) [] c0 () c1"
    by (intro takes_on_context) (simp add: c1_def dx_property_map_free_collection_def)
  have t2: "takes (dx_read_describe_protocol_properties mem) (properties_bytes []) c1 () c1"
    unfolding dx_read_describe_protocol_properties_def properties_bytes_def
    by (intro takes_seq [OF takes_on_input [OF receives_compact_int]]) (simp add: takes_return)
  have t3: "takes (on_input dx_read_compact_int) (compact_int_bytes v) c1 v c1" for v by (intro takes_on_input receives_compact_int)
  have "takes (on_input (dx_read_utf_string mem)) (compact_int_bytes (- 1)) c1 None c1" by (intro takes_on_input receives_null_string)
  from takes_seq [OF this takes_return, of "\<lambda>s. map_option c_string s"]
  have t4: "takes (read_c_string mem) (compact_int_bytes (- 1)) c1 None c1" by (simp add: read_c_string_def)
  note s1 = takes_step [OF m assms(2,3), unfolded l]
  note s2 = takes_step [where xs = "[]", unfolded append_Nil, OF t1 s1(2,3), unfolded list.size advance_zero]
  note s3 = takes_step [OF t2 s2(2,3)]
  note s4 = takes_step [OF t3 s3(2,3)]
  note s5 = takes_step [OF t3 s4(2,3)]
  note s6 = takes_step [OF t4 s5(2,3)]
  obtain found idx where f: "DX_ARRAY_SEARCH g_recv_msg_roster 0 (length g_recv_msg_roster) number DX_NUMERIC_COMPARATOR False = (found, idx)"
    by fastforce
  have "found" using roster_search(1) [OF f] assms(1) by simp
  then have ub: "dx_process_server_send_message_type number None c1 = Inl UB"
    using f by (simp add: dx_process_server_send_message_type_def roster_bit_def)
  have stop: "checked (on_context (dx_process_server_send_message_type number None)) k (c1, i) = (Inl UB, c1, i)"
    for k :: "unit \<Rightarrow> (protocol_ctx \<times> in_ctx, unit) io" and i
    by (simp add: checked_def on_context_def ub)
  have list: "checked (dx_read_describe_protocol_message_list mem dx_process_server_send_message_type) k =
      checked (on_input dx_read_compact_int) (\<lambda>count. checked (if sint count < 0 then fail dx_pec_describe_protocol_message_corrupted
       else read_message_list mem dx_process_server_send_message_type (nat (sint count))) k)" for k :: "unit \<Rightarrow> (protocol_ctx \<times> in_ctx, unit) io"
    by (simp add: dx_read_describe_protocol_message_list_def checked_assoc)
  show ?thesis
    unfolding dx_process_describe_protocol_def prod.case Let_def c0_def [symmetric] s1(1)
    by (simp add: s2(1) s3(1) list s4(1) s5(1) s6(1) checked_assoc stop del: advance_advance)
qed

definition one_support :: "message_support list" where
  "one_support = [(MESSAGE_TICKER_DATA, wide ''TICKER_DATA'', [])]"

lemma one_support_ok: "message_list_ok one_support" "properties_ok []" "message_list_ok []"
proof -
  have l: "length (utf8_bytes (wide ''TICKER_DATA'')) = 11" "no_pairs (wide ''TICKER_DATA'')" "0 \<notin> set (wide ''TICKER_DATA'')"
    by code_simp+
  show "message_list_ok one_support" "properties_ok []" "message_list_ok []"
    using l by (simp_all add: message_list_ok_def properties_ok_def one_support_def string_ok_def)
qed

definition input_of :: "byte list \<Rightarrow> nat \<Rightarrow> in_ctx" where
  "input_of bs message_length = \<lparr>in_buffer = Some bs, in_buffer_length = int (length bs), in_buffer_limit = int message_length, current_in_buffer_position = 0\<rparr>"

lemma input_of: "wf_in (input_of bs n)" "pending (input_of bs n) = bs" "in_buffer_limit (input_of bs n) = int n"
  "current_in_buffer_position (input_of bs n) = 0"
  by (simp_all add: input_of_def wf_in_def pending_def)

theorem describe_protocol_received_witness:
  "\<exists>ctx'. fst (dx_process_describe_protocol (\<lambda>_. True)
      (new_protocol_ctx, input_of (describe_protocol_bytes [] one_support [] @ [7, 7]) (length (describe_protocol_bytes [] one_support []) + 1))) = Inr ()
    \<and> dx_is_message_supported_by_server MESSAGE_TICKER_DATA ctx' = Inr dx_mss_supported
    \<and> dx_is_message_supported_by_server MESSAGE_STREAM_DATA ctx' = Inr dx_mss_not_supported"
proof -
  have m: "map_of (rev (all_properties [] one_support [])) DX_RECV_PROPERTY_AUTH \<in> {None, Some []}" by code_simp
  have n: "negotiated one_support [] MESSAGE_TICKER_DATA" "dx_is_message_type_valid MESSAGE_TICKER_DATA"
    "\<not> negotiated one_support [] MESSAGE_STREAM_DATA" "dx_is_message_type_valid MESSAGE_STREAM_DATA"
    unfolding negotiated_def listed_def one_support_def
    by (auto simp: g_recv_msg_roster_def g_send_msg_roster_def dx_get_message_type_name_def)
      (auto simp: dx_is_message_type_valid_def MESSAGE_TICKER_DATA_def MESSAGE_STREAM_DATA_def MESSAGE_HEARTBEAT_def
        MESSAGE_DESCRIBE_PROTOCOL_def MESSAGE_DESCRIBE_RECORDS_def)
  have s: "describe_protocol_status new_protocol_ctx = dx_dps_not_received \<or>
      send_msgs_bitmask new_protocol_ctx = 0 \<and> recv_msgs_bitmask new_protocol_ctx = 0" by (simp add: new_protocol_ctx_def)
  let ?bs = "describe_protocol_bytes [] one_support []"
  have p: "pending (input_of (?bs @ [7, 7]) (length ?bs + 1)) = ?bs @ [7] @ [7]" by (simp add: input_of)
  have l: "in_buffer_limit (input_of (?bs @ [7, 7]) (length ?bs + 1)) =
      current_in_buffer_position (input_of (?bs @ [7, 7]) (length ?bs + 1)) + int (length (?bs @ [7]))" by (simp add: input_of)
  from describe_protocol_received [OF one_support_ok(2,1,3) m s input_of(1) p l] n show ?thesis by fastforce
qed

theorem damaged_description_witness:
  "\<exists>ctx' input'. dx_process_describe_protocol (\<lambda>_. True)
      (new_protocol_ctx\<lparr>describe_protocol_status := dx_dps_not_received, recv_msgs_bitmask := 7\<rparr>, input_of [0, 0, 0, 0] 4) =
        (Inl dx_pec_describe_protocol_message_corrupted, ctx', input')
    \<and> dx_is_message_supported_by_server MESSAGE_TICKER_DATA ctx' = Inr dx_mss_not_supported"
proof -
  have b: "[0, 0, 0, 0] = int_bytes 0 @ []" "dx_is_message_type_valid MESSAGE_TICKER_DATA" by code_simp+
  have "pending (input_of [0, 0, 0, 0] 4) = int_bytes 0 @ []" using b(1) by (simp add: input_of)
  from damaged_description [OF _ input_of(1) this, where ctx = "new_protocol_ctx\<lparr>describe_protocol_status := dx_dps_not_received, recv_msgs_bitmask := 7\<rparr>"] b(2)
  show ?thesis by fastforce
qed

theorem login_refused_witness:
  "\<exists>ctx' input'. dx_process_describe_protocol (\<lambda>_. True) (new_protocol_ctx,
      input_of (describe_protocol_bytes [(DX_RECV_PROPERTY_AUTH, DX_RECV_PROPERTY_LOGIN_REQUIRED @ [0x78])] [] []) 0) = (Inl dx_ec_success, ctx', input')
    \<and> dx_describe_protocol_sent 0 True ctx' = (Inl dx_ec_internal_assert_violation, ctx')"
proof -
  let ?ps = "[(DX_RECV_PROPERTY_AUTH, DX_RECV_PROPERTY_LOGIN_REQUIRED @ [0x78])]"
  have l: "length (utf8_bytes DX_RECV_PROPERTY_AUTH) = 14" "no_pairs DX_RECV_PROPERTY_AUTH" "0 \<notin> set DX_RECV_PROPERTY_AUTH"
    "length (utf8_bytes (DX_RECV_PROPERTY_LOGIN_REQUIRED @ [0x78])) = 7" "no_pairs (DX_RECV_PROPERTY_LOGIN_REQUIRED @ [0x78])"
    "0 \<notin> set (DX_RECV_PROPERTY_LOGIN_REQUIRED @ [0x78])"
    by code_simp+
  then have ok: "properties_ok ?ps" by (simp add: properties_ok_def string_ok_def)
  have m: "map_of (rev (all_properties ?ps [] [])) DX_RECV_PROPERTY_AUTH = Some (DX_RECV_PROPERTY_LOGIN_REQUIRED @ [0x78])"
    by (simp add: all_properties_def message_properties_def)
  have "pending (input_of (describe_protocol_bytes ?ps [] []) 0) = describe_protocol_bytes ?ps [] [] @ []" by (simp add: input_of)
  from login_refused [OF ok one_support_ok(3,3) m input_of(1) this, of new_protocol_ctx 0 True] show ?thesis by blast
qed

theorem null_message_name_witness:
  "fst (dx_process_describe_protocol (\<lambda>_. True) (new_protocol_ctx, input_of [0x44, 0x58, 0x50, 0x33, 0, 1, 10, 0x7F] 8)) = Inl UB"
proof -
  have "[0x44, 0x58, 0x50, 0x33, 0, 1, 10, 0x7F] =
      int_bytes 0x44585033 @ properties_bytes [] @ compact_int_bytes 1 @ compact_int_bytes MESSAGE_TICKER_DATA @ compact_int_bytes (- 1) @ []"
    and r: "MESSAGE_TICKER_DATA \<in> set g_recv_msg_roster" by code_simp+
  then have "pending (input_of [0x44, 0x58, 0x50, 0x33, 0, 1, 10, 0x7F] 8) =
      int_bytes 0x44585033 @ properties_bytes [] @ compact_int_bytes 1 @ compact_int_bytes MESSAGE_TICKER_DATA @ compact_int_bytes (- 1) @ []"
    by (simp only: input_of)
  from null_message_name [OF r input_of(1) this] show ?thesis .
qed


section \<open>Reconnection\<close>

text \<open>
  \<open>dx_clear_server_info\<close>, which \<open>dx_reestablish_connection\<close> calls before it connects again, resets what is
  known of the server, here the support of messages, and leaves the buffer of the received data alone.
\<close>

definition dx_clear_server_info :: "protocol_ctx server_ctx \<Rightarrow> protocol_ctx server_ctx" where
  "dx_clear_server_info ctx = ctx\<lparr>processor := clear_message_support (processor ctx)\<rparr>"

text \<open>
  When a connection is lost in the middle of a message, the bytes of that message stay in the
  buffer, and the first bytes of the next connection are taken as the rest of it.
\<close>

theorem reconnection_keeps_bytes:
  assumes "wf_server ctx" "unprocessed ctx @ lost = wire (Some (type, body @ lost))" "length data = length lost" "data \<noteq> []"
    and "handled hs (Some (type, body @ data)) (clear_message_support (processor ctx)) h'"
    and "int (length (unprocessed ctx)) + int (length data) \<le> INT_MAX"
  shows "\<exists>ctx'. dx_process_server_data (\<lambda>_. True) hs data (int (length data)) (dx_clear_server_info ctx) = Some (Inr True, ctx')
    \<and> processor ctx' = h' \<and> unprocessed ctx' = []"
proof -
  let ?c = "dx_clear_server_info ctx"
  have c: "wf_server ?c" "unprocessed ?c = unprocessed ctx" "processor ?c = clear_message_support (processor ctx)"
    using assms(1) by (simp_all add: dx_clear_server_info_def wf_server_def unprocessed_def)
  have "length (message_content (Some (type, body @ data))) = length (message_content (Some (type, body @ lost)))"
    using assms(3) by (simp add: message_content_def)
  moreover have "message_content (Some (type, body @ xs)) = compact_int_bytes type @ body @ xs" for xs by (simp add: message_content_def)
  ultimately have "unprocessed ctx @ data = wire (Some (type, body @ data))"
    using assms(2) by (simp add: wire_def)
  then have p: "unprocessed ?c @ data = wires [Some (type, body @ data)] @ []" using c(2) by simp
  have "accepted hs (processor ?c) [Some (type, body @ data)] h'" using assms(5) c(3) by (auto simp: accepted_simps)
  from server_data_spec [OF c(1) p assms(4) this, of 0] assms(6) c(2) show ?thesis by (auto simp: incomplete_def)
qed

theorem reconnection_keeps_bytes_witness:
  "let hs = \<lparr>process_data_message = return (), process_describe_records = return (), process_describe_protocol = return (),
       processIncomingHeartbeatPayload = \<lambda>payload ctx. ctx\<lparr>describe_protocol_timestamp := timeMark payload\<rparr>\<rparr>;
     ctx = \<lparr>msg_buffer = [3, 0, 2], buffer_size = 3, buffer_pos = 0, buffer_capacity = 3,
       bicc = input_of [3, 0, 2] 0, processor = new_protocol_ctx\<rparr>
   in \<exists>ctx'. dx_process_server_data (\<lambda>_. True) hs [9] 1 (dx_clear_server_info ctx) = Some (Inr True, ctx')
      \<and> describe_protocol_timestamp (processor ctx') = 9 \<and> unprocessed ctx' = []"
proof -
  let ?hs = "\<lparr>process_data_message = return (), process_describe_records = return (), process_describe_protocol = return (),
       processIncomingHeartbeatPayload = \<lambda>payload ctx. ctx\<lparr>describe_protocol_timestamp := timeMark payload\<rparr>\<rparr> :: protocol_ctx handlers"
  let ?ctx = "\<lparr>msg_buffer = [3, 0, 2], buffer_size = 3, buffer_pos = 0, buffer_capacity = 3,
       bicc = input_of [3, 0, 2] 0, processor = new_protocol_ctx\<rparr> :: protocol_ctx server_ctx"
  let ?p = "mark_5\<lparr>timeMark := 9\<rparr>"
  have w: "wf_server ?ctx" "unprocessed ?ctx = [3, 0, 2]" by (simp_all add: wf_server_def unprocessed_def)
  have b: "heartbeat_bytes ?p = [2, 9]" "transmitted ?p = ?p" "payload_fits ?p" "wire (Some (MESSAGE_HEARTBEAT, [2, 5])) = [3, 0, 2, 5]" by code_simp+
  have "handled ?hs (Some (MESSAGE_HEARTBEAT, [2] @ [9])) (clear_message_support (processor ?ctx))
      ((clear_message_support new_protocol_ctx)\<lparr>describe_protocol_timestamp := 9\<rparr>)"
    using heartbeat_handled [OF b(3), of ?hs "clear_message_support new_protocol_ctx"] b(1,2) by (simp add: mark_5_def)
  with reconnection_keeps_bytes [OF w(1), of "[5]" MESSAGE_HEARTBEAT "[2]" "[9]" ?hs
      "(clear_message_support new_protocol_ctx)\<lparr>describe_protocol_timestamp := 9\<rparr>"] w(2) b(4)
  show ?thesis by (auto simp: Let_def)
qed

end
