(* ===== verification/Dx_Decimal.thy ===== *)
theory Dx_Decimal
  imports Dx_Fields Complex_Main
begin

text \<open>
  The numbers that \<open>src/Decimal.c\<close> and \<open>src/WideDecimal.cpp\<close> make of the decimal formats of the wire.
\<close>

section \<open>Numbers\<close>

text \<open>
  A \<open>double\<close> is not a number, an infinity (positive or not) or a number.  Products and quotients are
  exact: the rounding of the machine is not modelled.
\<close>

datatype double = D_NaN | D_Inf bool | D_Num rat

section \<open>Decimals\<close>

definition EXTRA_PRECISION_DIVISORS :: "int list" where
  "EXTRA_PRECISION_DIVISORS = [0, 0, 10000000, 100000000, 0, 0, 128, 0]"

text \<open>\<open>MULTIPLIERS[0]\<close> is the positive infinity, whose product with zero is not a number.\<close>

definition times_infinity :: "int \<Rightarrow> double" where
  "times_infinity m = (if m = 0 then D_NaN else D_Inf (0 < m))"

text \<open>\<open>UNITY_POWER\<close> is 9: the tables hold the powers of ten around it.\<close>

definition dx_decimal_int_to_double :: "int32 \<Rightarrow> double" where
  "dx_decimal_int_to_double integer =
     (let power = unat (integer AND 0x0F);
          mantissa = sint (signed_drop_bit 4 integer);
          divisor = (if power = 0 then EXTRA_PRECISION_DIVISORS ! unat (signed_drop_bit 4 integer AND 0x07) else 0)
      in if divisor \<noteq> 0 then D_Num (of_int (sint (signed_drop_bit 7 integer)) / of_int divisor)
         else if power = 0 then times_infinity mantissa
         else if power \<le> 9 then D_Num (of_int mantissa * 10 ^ (9 - power))
         else D_Num (of_int mantissa / 10 ^ (power - 9)))"

section \<open>Wide decimals\<close>

definition BIAS :: nat where "BIAS = 128"

text \<open>
  \<open>WideDecimal::toDouble\<close>.  The code multiplies or divides doubles where that is exact up to one
  rounding, and otherwise reads the decimal notation of the number; both give the same number up to
  rounding.  The notation is made with a product of 64-bit numbers that is checked afterwards; it is
  taken to wrap around.
\<close>

definition dx_wide_decimal_long_to_double :: "long64 \<Rightarrow> double" where
  "dx_wide_decimal_long_to_double longValue =
     (let significand = c_div (sint longValue) 256;
          rank = unat (longValue AND 0xFF)
      in if rank = 0 then times_infinity significand
         else if BIAS < rank then D_Num (of_int significand / 10 ^ (rank - BIAS))
         else D_Num (of_int significand * 10 ^ (BIAS - rank)))"

text \<open>The number that a significand and a rank stand for.\<close>

definition wide_value :: "int \<Rightarrow> nat \<Rightarrow> rat" where
  "wide_value significand rank =
     (if BIAS < rank then of_int significand / 10 ^ (rank - BIAS) else of_int significand * 10 ^ (BIAS - rank))"

lemma sint_of_long: "- (2 ^ 63) \<le> k \<Longrightarrow> k < 2 ^ 63 \<Longrightarrow> sint (word_of_int k :: long64) = k"
  using sint_sbintrunc' [of k, where 'a = 64] signed_take_bit_int_eq_self [of 63 k] by simp

lemma low_byte_of_long: "unat ((word_of_int k :: long64) AND 0xFF) = nat (k mod 256)"
proof -
  have "(word_of_int k :: long64) AND 0xFF = take_bit 8 (word_of_int k)"
    by (simp add: take_bit_eq_mask mask_eq_exp_minus_1)
  then have "uint ((word_of_int k :: long64) AND 0xFF) = take_bit 8 (take_bit 64 k)"
    by (simp only: unsigned_take_bit_eq uint_word_of_int_eq) simp
  then show ?thesis by (simp add: take_bit_eq_mod mod_mod_cancel unat_eq_nat_uint)
qed

lemma sint_wide:
  assumes "- (2 ^ 55) \<le> s" "s < 2 ^ 55" "rank < 256"
  shows "sint (word_of_int (s * 256 + int rank) :: long64) = s * 256 + int rank"
    "unat ((word_of_int (s * 256 + int rank) :: long64) AND 0xFF) = rank"
proof -
  show "sint (word_of_int (s * 256 + int rank) :: long64) = s * 256 + int rank"
    by (rule sint_of_long) (use assms in simp_all)
  show "unat ((word_of_int (s * 256 + int rank) :: long64) AND 0xFF) = rank"
    unfolding low_byte_of_long using assms(3) by simp
qed

lemma c_div_wide: "c_div (s * 256 + int rank) 256 = (if s < 0 \<and> rank \<noteq> 0 then s + 1 else s)" if "rank < 256"
proof (cases "s < 0")
  case True
  then have neg: "s * 256 + int rank < 0" using that by simp
  have "(- (s * 256 + int rank)) div 256 = - s - (if rank = 0 then 0 else 1)"
    by (rule int_div_pos_eq [of _ _ _ "if rank = 0 then 0 else 256 - int rank"]) (use that in auto)
  then show ?thesis using True neg by (simp add: c_div_def)
next
  case False
  then show ?thesis using that by (simp add: c_div_def)
qed

text \<open>
  A wide decimal has its significand in the upper 56 bits and its rank in the lower 8.  The number of a
  wide decimal that is not negative is the significand shifted by the rank.  For a negative one
  the division rounds the significand towards zero, so that the number is one unit of its last digit
  too large: \<open>- 5\<close> is read as \<open>- 4\<close>.
\<close>

theorem wide_decimal_negative:
  assumes "- (2 ^ 55) \<le> s" "s < 2 ^ 55" "0 < rank" "rank < 256"
  shows "dx_wide_decimal_long_to_double (word_of_int (s * 256 + int rank)) =
    D_Num (wide_value (if s < 0 then s + 1 else s) rank)"
  unfolding dx_wide_decimal_long_to_double_def Let_def sint_wide [OF assms(1,2,4)] c_div_wide [OF assms(4)]
  using assms(3) by (simp add: wide_value_def)

theorem wide_decimal_negative_witness:
  "dx_wide_decimal_long_to_double (word_of_int (- 5 * 256 + 128)) = D_Num (- 4)"
  using wide_decimal_negative [of "- 5" 128] by (simp add: wide_value_def BIAS_def)

end
