(* ===== verification/Dx_Records.thy ===== *)
theory Dx_Records
  imports Dx_Decimal Dx_Snapshot_Records Dx_Properties
begin

text \<open>
  The data structures of a connection (\<open>src/DataStructures.c\<close>): the list of records, the support of their
  fields by the server, and the map from the record ids of the server to those of the client; with the
  list of record digests of \<open>src/ServerMessageProcessor.c\<close>, which is kept parallel to the records.
\<close>

section \<open>State\<close>

record dx_record_item =
  rec_name :: "dxf_char list option"
  rec_fields :: "dx_field_info list"
  rec_info_id :: dx_record_info_id
  rec_suffix :: "dxf_char list"
  rec_exchange_code :: dxf_char

record dx_record_id_pair =
  server_record_id :: int32
  local_record_id :: int

definition RECORD_ID_VECTOR_SIZE :: int where "RECORD_ID_VECTOR_SIZE = 1000"
definition DX_RECORD_ID_INVALID :: int where "DX_RECORD_ID_INVALID = - 1"
definition INVALID_INDEX :: int where "INVALID_INDEX = - 1"

text \<open>
  The digest of a field says how the server sends it.  \<open>digest_setter\<close> and \<open>digest_default\<close> are the
  function pointers to the setter and to the getter of the default value of a field, \<open>None\<close> when null.
  The digest of a record has the digests of its fields in a block of \<open>digest_slots\<close> pointers.
\<close>

record dx_field_digest =
  digest_type :: int32
  local_type :: int32
  digest_setter :: "dx_field_info option"
  digest_default :: "dx_field_info option"

record dx_record_digest =
  digest_fields :: "dx_field_digest list"
  digest_slots :: nat
  in_sync_with_server :: bool

text \<open>
  The contexts \<open>dx_data_structures_connection_context_t\<close> and, of the server message processor, the record
  digests with the number of times their guard is locked.
\<close>

record record_ctx =
  frequent_ids :: "int list"
  id_map :: "dx_record_id_pair dx_array"
  server_support_states :: "int32 dx_array"
  records_list :: "dx_record_item dx_array"
  new_record_id :: int
  record_digests :: "dx_record_digest dx_array"
  digests_guard :: nat

definition new_record_ctx :: record_ctx where
  "new_record_ctx = \<lparr>frequent_ids = replicate (nat RECORD_ID_VECTOR_SIZE) DX_RECORD_ID_INVALID,
     id_map = DX_EMPTY_ARRAY, server_support_states = DX_EMPTY_ARRAY, records_list = DX_EMPTY_ARRAY,
     new_record_id = 0, record_digests = DX_EMPTY_ARRAY, digests_guard = 0\<rparr>"

definition null_id_pair :: dx_record_id_pair where
  "null_id_pair = \<lparr>server_record_id = 0, local_record_id = 0\<rparr>"

definition null_record :: dx_record_item where
  "null_record = \<lparr>rec_name = None, rec_fields = [], rec_info_id = dx_rid_trade, rec_suffix = [], rec_exchange_code = 0\<rparr>"

definition dx_init_record_digest :: dx_record_digest where
  "dx_init_record_digest = \<lparr>digest_fields = [], digest_slots = 0, in_sync_with_server = False\<rparr>"

section \<open>The kinds of records\<close>

definition g_record_info :: "(dx_record_info_id \<times> string \<times> dx_field_info list) list" where
  "g_record_info =
    [(dx_rid_trade, ''Trade'', dx_fields_trade),
     (dx_rid_quote, ''Quote'', dx_fields_quote),
     (dx_rid_summary, ''Summary'', dx_fields_summary),
     (dx_rid_profile, ''Profile'', dx_fields_profile),
     (dx_rid_market_maker, ''MarketMaker'', dx_fields_market_maker),
     (dx_rid_order, ''Order'', dx_fields_order),
     (dx_rid_time_and_sale, ''TimeAndSale'', dx_fields_time_and_sale),
     (dx_rid_candle, ''Candle'', dx_fields_candle),
     (dx_rid_trade_eth, ''TradeETH'', dx_fields_trade_eth),
     (dx_rid_spread_order, ''SpreadOrder'', dx_fields_spread_order),
     (dx_rid_greeks, ''Greeks'', dx_fields_greeks),
     (dx_rid_theo_price, ''TheoPrice'', dx_fields_theo_price),
     (dx_rid_underlying, ''Underlying'', dx_fields_underlying),
     (dx_rid_series, ''Series'', dx_fields_series),
     (dx_rid_configuration, ''Configuration'', dx_fields_configuration)]"

definition default_name :: "dx_record_info_id \<Rightarrow> dxf_char list" where
  "default_name rid = (case map_of g_record_info rid of Some (name, _) \<Rightarrow> wide name | None \<Rightarrow> [])"

definition info_fields :: "dx_record_info_id \<Rightarrow> dx_field_info list" where
  "info_fields rid = (case map_of g_record_info rid of Some (_, table) \<Rightarrow> table | None \<Rightarrow> [])"

definition has_default_name :: "dxf_char list \<Rightarrow> dx_record_info_id \<Rightarrow> bool" where
  "has_default_name name rid \<longleftrightarrow> dx_compare_strings_num name (default_name rid) (length (default_name rid)) = 0"

definition dx_string_to_record_info :: "dxf_char list \<Rightarrow> dx_record_info_id" where
  "dx_string_to_record_info name =
     (if has_default_name name dx_rid_trade_eth then dx_rid_trade_eth
      else if has_default_name name dx_rid_trade then dx_rid_trade
      else if has_default_name name dx_rid_quote then dx_rid_quote
      else if has_default_name name dx_rid_summary then dx_rid_summary
      else if has_default_name name dx_rid_profile then dx_rid_profile
      else if has_default_name name dx_rid_market_maker then dx_rid_market_maker
      else if has_default_name name dx_rid_order then dx_rid_order
      else if has_default_name name dx_rid_time_and_sale then dx_rid_time_and_sale
      else if has_default_name name dx_rid_candle then dx_rid_candle
      else if has_default_name name dx_rid_spread_order then dx_rid_spread_order
      else if has_default_name name dx_rid_greeks then dx_rid_greeks
      else if has_default_name name dx_rid_theo_price then dx_rid_theo_price
      else if has_default_name name dx_rid_underlying then dx_rid_underlying
      else if has_default_name name dx_rid_series then dx_rid_series
      else if has_default_name name dx_rid_configuration then dx_rid_configuration
      else dx_rid_invalid)"

text \<open>
  \<open>wcsncpy\<close> of the suffix writes as many units as it is given, the terminator included; a block of
  \<open>DXF_RECORD_SUFFIX_SIZE\<close> units takes suffixes of four characters.
\<close>

definition DXF_SUFFIX_UNITS :: nat where "DXF_SUFFIX_UNITS = 5"

definition init_record_info :: "(nat \<Rightarrow> bool) \<Rightarrow> dxf_char list \<Rightarrow> dx_error + dx_record_item" where
  "init_record_info mem name =
     (let record_info_id = dx_string_to_record_info name in
      if record_info_id = dx_rid_invalid then Inl dx_ec_invalid_func_param_internal
      else
        let copy = dx_create_string_src mem name;
            rec = \<lparr>rec_name = copy, rec_fields = info_fields record_info_id, rec_info_id = record_info_id,
              rec_suffix = [], rec_exchange_code = 0\<rparr>;
            suffix_index = length (default_name record_info_id)
        in if length name < suffix_index + 1 then Inr rec
           else if record_info_id \<in> {dx_rid_order, dx_rid_spread_order} then
             (if copy = None then Inl UB
              else if name ! suffix_index \<noteq> of_char CHR ''#'' then Inr rec
              else if length name - suffix_index > DXF_SUFFIX_UNITS then Inl UB
              else Inr (rec\<lparr>rec_suffix := drop (suffix_index + 1) name\<rparr>))
           else if record_info_id \<in> {dx_rid_trade, dx_rid_quote, dx_rid_summary, dx_rid_trade_eth, dx_rid_time_and_sale} then
             (if copy = None then Inl UB
              else if name ! suffix_index \<noteq> of_char CHR ''&'' then Inr rec
              else
                let suffix = take 1 (drop (suffix_index + 1) name)
                in Inr (rec\<lparr>rec_suffix := suffix, rec_exchange_code := (if suffix = [] then 0 else hd suffix)\<rparr>))
           else Inr rec)"

section \<open>Ids of the server\<close>

definition RECORD_ID_PAIR_COMPARATOR :: "dx_record_id_pair \<Rightarrow> dx_record_id_pair \<Rightarrow> int" where
  "RECORD_ID_PAIR_COMPARATOR left right = DX_NUMERIC_COMPARATOR (sint (server_record_id left)) (sint (server_record_id right))"

definition is_frequent :: "int32 \<Rightarrow> bool" where
  "is_frequent server_id \<longleftrightarrow> 0 \<le> sint server_id \<and> sint server_id < RECORD_ID_VECTOR_SIZE"

definition dx_get_record_id :: "int32 \<Rightarrow> record_ctx \<Rightarrow> int" where
  "dx_get_record_id server_id ctx =
     (if is_frequent server_id then frequent_ids ctx ! nat (sint server_id)
      else case DX_ARRAY_SEARCH (elements (id_map ctx)) 0 (arr_size (id_map ctx))
          \<lparr>server_record_id = server_id, local_record_id = 0\<rparr> RECORD_ID_PAIR_COMPARATOR True of
        (found, idx) \<Rightarrow> if \<not> found then DX_RECORD_ID_INVALID else local_record_id (elements (id_map ctx) ! idx))"

definition on_id_map :: "(dx_record_id_pair dx_array, 'a) io \<Rightarrow> (record_ctx, 'a) io" where
  "on_id_map m = (\<lambda>ctx. case m (id_map ctx) of (r, arr) \<Rightarrow> (r, ctx\<lparr>id_map := arr\<rparr>))"

definition dx_assign_server_record_id :: "(nat \<Rightarrow> bool) \<Rightarrow> int \<Rightarrow> int32 \<Rightarrow> (record_ctx, unit) io" where
  "dx_assign_server_record_id mem record_id server_id = (\<lambda>ctx.
     if is_frequent server_id then
       (Inr (), ctx\<lparr>frequent_ids := (frequent_ids ctx)[nat (sint server_id) := record_id]\<rparr>)
     else
       let rip = \<lparr>server_record_id = server_id, local_record_id = record_id\<rparr> in
       case DX_ARRAY_SEARCH (elements (id_map ctx)) 0 (arr_size (id_map ctx)) rip RECORD_ID_PAIR_COMPARATOR True of
         (found, idx) \<Rightarrow>
           if found then
             (Inr (), ctx\<lparr>id_map := (id_map ctx)\<lparr>elements :=
                (elements (id_map ctx))[idx := (elements (id_map ctx) ! idx)\<lparr>local_record_id := record_id\<rparr>]\<rparr>\<rparr>)
           else on_id_map (DX_ARRAY_INSERT mem null_id_pair rip idx dx_capacity_manager_halfer) ctx)"

section \<open>Records\<close>

definition dx_validate_record_id :: "int \<Rightarrow> record_ctx \<Rightarrow> bool" where
  "dx_validate_record_id record_id ctx \<longleftrightarrow> 0 \<le> record_id \<and> record_id < int (arr_size (records_list ctx))"

definition dx_get_record_by_id :: "int \<Rightarrow> record_ctx \<Rightarrow> dx_record_item option" where
  "dx_get_record_by_id record_id ctx =
     (if dx_validate_record_id record_id ctx then Some (elements (records_list ctx) ! nat record_id) else None)"

text \<open>The loop over the names of the records, which \<open>dx_get_record_id_by_name\<close> and \<open>DX_ARRAY_SEARCH\<close> make.\<close>

fun find_name :: "dx_record_item list \<Rightarrow> nat \<Rightarrow> dxf_char list \<Rightarrow> dx_error + (bool \<times> nat)" where
  "find_name [] i name = Inr (False, i)"
| "find_name (item # items) i name =
     (case rec_name item of
        None \<Rightarrow> Inl UB
      | Some n \<Rightarrow> if dx_compare_strings n name = 0 then Inr (True, i) else find_name items (i + 1) name)"

definition dx_get_record_id_by_name :: "dxf_char list \<Rightarrow> record_ctx \<Rightarrow> dx_error + int" where
  "dx_get_record_id_by_name name ctx =
     map_sum id (\<lambda>(found, i). if found then int i else DX_RECORD_ID_INVALID) (find_name (contents (records_list ctx)) 0 name)"

definition dx_get_next_unsubscribed_record_id :: "bool \<Rightarrow> record_ctx \<Rightarrow> int \<times> record_ctx" where
  "dx_get_next_unsubscribed_record_id isUpdate ctx =
     (let ctx = (if new_record_id ctx < int (arr_size (records_list ctx)) \<and> isUpdate
                 then ctx\<lparr>new_record_id := new_record_id ctx + 1\<rparr> else ctx)
      in (new_record_id ctx, ctx))"

definition dx_drop_unsubscribe_counter :: "record_ctx \<Rightarrow> record_ctx" where
  "dx_drop_unsubscribe_counter ctx = ctx\<lparr>new_record_id := 0\<rparr>"

fun find_field :: "dx_field_info list \<Rightarrow> nat \<Rightarrow> dxf_char list \<Rightarrow> int32 \<Rightarrow> int" where
  "find_field [] i name type = INVALID_INDEX"
| "find_field (f # fs) i name type =
     (if dx_compare_strings (field_name f) name = 0
         \<and> field_type f AND dx_fid_mask_serialization = type AND dx_fid_mask_serialization
      then int i else find_field fs (i + 1) name type)"

definition dx_find_record_field :: "dx_record_item \<Rightarrow> dxf_char list \<Rightarrow> int32 \<Rightarrow> int" where
  "dx_find_record_field record_info name type = find_field (rec_fields record_info) 0 name type"

definition dx_get_record_exchange_code :: "int \<Rightarrow> record_ctx \<Rightarrow> dxf_char" where
  "dx_get_record_exchange_code record_id ctx =
     (case dx_get_record_by_id record_id ctx of None \<Rightarrow> 0 | Some item \<Rightarrow> rec_exchange_code item)"

definition dx_set_record_exchange_code :: "int \<Rightarrow> dxf_char \<Rightarrow> (record_ctx, unit) io" where
  "dx_set_record_exchange_code record_id code = (\<lambda>ctx.
     if \<not> dx_validate_record_id record_id ctx then (Inl dx_ec_invalid_func_param_internal, ctx)
     else (Inr (), ctx\<lparr>records_list := (records_list ctx)\<lparr>elements :=
       (elements (records_list ctx))[nat record_id := (elements (records_list ctx) ! nat record_id)\<lparr>rec_exchange_code := code\<rparr>]\<rparr>\<rparr>))"

section \<open>Adding a record\<close>

definition on_records_list :: "(dx_record_item dx_array, 'a) io \<Rightarrow> (record_ctx, 'a) io" where
  "on_records_list m = (\<lambda>ctx. case m (records_list ctx) of (r, arr) \<Rightarrow> (r, ctx\<lparr>records_list := arr\<rparr>))"

definition on_states :: "(int32 dx_array, 'a) io \<Rightarrow> (record_ctx, 'a) io" where
  "on_states m = (\<lambda>ctx. case m (server_support_states ctx) of (r, arr) \<Rightarrow> (r, ctx\<lparr>server_support_states := arr\<rparr>))"

definition on_digests :: "(dx_record_digest dx_array, 'a) io \<Rightarrow> (record_ctx, 'a) io" where
  "on_digests m = (\<lambda>ctx. case m (record_digests ctx) of (r, arr) \<Rightarrow> (r, ctx\<lparr>record_digests := arr\<rparr>))"

definition dx_add_record_digest_to_list :: "(nat \<Rightarrow> bool) \<Rightarrow> nat \<Rightarrow> (record_ctx, unit) io" where
  "dx_add_record_digest_to_list mem idx = (\<lambda>ctx.
     if idx < arr_size (record_digests ctx) then (Inr (), ctx)
     else case on_digests (DX_ARRAY_INSERT mem dx_init_record_digest dx_init_record_digest idx dx_capacity_manager_halfer) ctx of
       (Inl e, ctx) \<Rightarrow> (Inl (if e = UB then UB else dx_sec_not_enough_memory), ctx)
     | (Inr _, ctx) \<Rightarrow> (Inr (), ctx))"

text \<open>
  When a later list cannot take the new record it is deleted from the earlier ones; the results of these
  deletions are not looked at, and only undefined behaviour counts.
\<close>

definition undo :: "dx_error \<Rightarrow> (record_ctx, unit) io \<Rightarrow> (record_ctx, unit) io" where
  "undo e m = (\<lambda>ctx. case m ctx of (r, ctx) \<Rightarrow> (Inl (if r = Inl UB then UB else e), ctx))"

definition dx_add_record_to_list :: "(nat \<Rightarrow> bool) \<Rightarrow> dx_record_item \<Rightarrow> nat \<Rightarrow> (record_ctx, unit) io" where
  "dx_add_record_to_list mem item idx = (\<lambda>ctx.
     case rec_name item of
       None \<Rightarrow> (Inl UB, ctx)
     | Some name \<Rightarrow>
         let new_item = item\<lparr>rec_name := dx_create_string_src mem name\<rparr>;
             delete_record = on_records_list (DX_ARRAY_DELETE mem null_record idx dx_capacity_manager_halfer);
             delete_state = on_states (DX_ARRAY_DELETE mem 0 idx dx_capacity_manager_halfer)
         in case on_records_list (DX_ARRAY_INSERT mem null_record new_item idx dx_capacity_manager_halfer) ctx of
           (Inl e, ctx) \<Rightarrow> (Inl (if e = UB then UB else dx_sec_not_enough_memory), ctx)
         | (Inr _, ctx) \<Rightarrow>
             (case on_states (DX_ARRAY_INSERT mem 0 0 idx dx_capacity_manager_halfer) ctx of
                (Inl e, ctx) \<Rightarrow>
                  if e = UB then (Inl UB, ctx) else undo dx_sec_not_enough_memory delete_record ctx
              | (Inr _, ctx) \<Rightarrow>
                  (case dx_add_record_digest_to_list mem idx ctx of
                     (Inl e, ctx) \<Rightarrow>
                       if e = UB then (Inl UB, ctx)
                       else undo e (checked (\<lambda>ctx. case delete_record ctx of
                           (r, ctx) \<Rightarrow> (if r = Inl UB then Inl UB else Inr (), ctx)) (\<lambda>_. delete_state)) ctx
                   | (Inr _, ctx) \<Rightarrow> (Inr (), ctx))))"

definition dx_add_or_get_record_id :: "(nat \<Rightarrow> bool) \<Rightarrow> dxf_char list \<Rightarrow> (record_ctx, int) io" where
  "dx_add_or_get_record_id mem name = (\<lambda>ctx.
     case init_record_info mem name of
       Inl e \<Rightarrow> (Inl e, ctx)
     | Inr item \<Rightarrow>
         (case rec_name item of
            None \<Rightarrow> (Inl UB, ctx)
          | Some n \<Rightarrow>
              (case find_name (contents (records_list ctx)) 0 n of
                 Inl e \<Rightarrow> (Inl e, ctx)
               | Inr (True, idx) \<Rightarrow> (Inr (int idx), ctx)
               | Inr (False, idx) \<Rightarrow>
                   (case dx_add_record_to_list mem item idx ctx of
                      (Inl e, ctx) \<Rightarrow> (Inl e, ctx)
                    | (Inr _, ctx) \<Rightarrow> (Inr (int idx), ctx)))))"

definition dx_get_records_list_count :: "record_ctx \<Rightarrow> int" where
  "dx_get_records_list_count ctx = int (arr_size (records_list ctx))"

section \<open>The names of the kinds\<close>

definition record_kinds :: "dx_record_info_id list" where
  "record_kinds = map fst g_record_info"

lemma default_names:
  "default_name dx_rid_trade = [0x54, 0x72, 0x61, 0x64, 0x65]"
  "default_name dx_rid_quote = [0x51, 0x75, 0x6F, 0x74, 0x65]"
  "default_name dx_rid_summary = [0x53, 0x75, 0x6D, 0x6D, 0x61, 0x72, 0x79]"
  "default_name dx_rid_profile = [0x50, 0x72, 0x6F, 0x66, 0x69, 0x6C, 0x65]"
  "default_name dx_rid_market_maker = [0x4D, 0x61, 0x72, 0x6B, 0x65, 0x74, 0x4D, 0x61, 0x6B, 0x65, 0x72]"
  "default_name dx_rid_order = [0x4F, 0x72, 0x64, 0x65, 0x72]"
  "default_name dx_rid_time_and_sale = [0x54, 0x69, 0x6D, 0x65, 0x41, 0x6E, 0x64, 0x53, 0x61, 0x6C, 0x65]"
  "default_name dx_rid_candle = [0x43, 0x61, 0x6E, 0x64, 0x6C, 0x65]"
  "default_name dx_rid_trade_eth = [0x54, 0x72, 0x61, 0x64, 0x65, 0x45, 0x54, 0x48]"
  "default_name dx_rid_spread_order = [0x53, 0x70, 0x72, 0x65, 0x61, 0x64, 0x4F, 0x72, 0x64, 0x65, 0x72]"
  "default_name dx_rid_greeks = [0x47, 0x72, 0x65, 0x65, 0x6B, 0x73]"
  "default_name dx_rid_theo_price = [0x54, 0x68, 0x65, 0x6F, 0x50, 0x72, 0x69, 0x63, 0x65]"
  "default_name dx_rid_underlying = [0x55, 0x6E, 0x64, 0x65, 0x72, 0x6C, 0x79, 0x69, 0x6E, 0x67]"
  "default_name dx_rid_series = [0x53, 0x65, 0x72, 0x69, 0x65, 0x73]"
  "default_name dx_rid_configuration = [0x43, 0x6F, 0x6E, 0x66, 0x69, 0x67, 0x75, 0x72, 0x61, 0x74, 0x69, 0x6F, 0x6E]"
  by (simp_all add: default_name_def g_record_info_def wide_def of_char_def)

lemma has_default_name_iff: "has_default_name name rid \<longleftrightarrow> take (length (default_name rid)) name = default_name rid"
  by (simp add: has_default_name_def dx_compare_strings_num_def compare_strings_eq)

lemma record_kinds_cases:
  "rid \<in> set record_kinds \<longleftrightarrow> rid \<noteq> dx_rid_count \<and> rid \<noteq> dx_rid_invalid"
  by (cases rid) (simp_all add: record_kinds_def g_record_info_def)

lemma kind_of_name:
  assumes "rid \<in> set record_kinds" "rid = dx_rid_trade \<Longrightarrow> take 3 suffix \<noteq> [0x45, 0x54, 0x48]"
  shows "dx_string_to_record_info (default_name rid @ suffix) = rid"
  using assms(1) assms(2) [unfolded numeral_3_eq_3] unfolding record_kinds_cases
  by (cases rid) (simp_all add: dx_string_to_record_info_def has_default_name_iff default_names)


lemma create_string_all: "dx_create_string_src (\<lambda>_. True) s = Some s"
  by (simp add: dx_create_string_src_def)

lemma record_name_init:
  assumes "rid \<in> set record_kinds"
  shows "init_record_info (\<lambda>_. True) (default_name rid) = Inr \<lparr>rec_name = Some (default_name rid), rec_fields = info_fields rid,
      rec_info_id = rid, rec_suffix = [], rec_exchange_code = 0\<rparr>"
    and "rid \<in> {dx_rid_order, dx_rid_spread_order} \<Longrightarrow>
      init_record_info (\<lambda>_. True) (default_name rid @ wide ''#'' @ source) =
        (if length source \<le> 4 then Inr \<lparr>rec_name = Some (default_name rid @ wide ''#'' @ source), rec_fields = info_fields rid,
           rec_info_id = rid, rec_suffix = source, rec_exchange_code = 0\<rparr> else Inl UB)"
    and "rid \<in> {dx_rid_trade, dx_rid_quote, dx_rid_summary, dx_rid_trade_eth, dx_rid_time_and_sale} \<Longrightarrow>
      init_record_info (\<lambda>_. True) (default_name rid @ wide ''&'' @ [exchange]) =
        Inr \<lparr>rec_name = Some (default_name rid @ wide ''&'' @ [exchange]), rec_fields = info_fields rid,
           rec_info_id = rid, rec_suffix = [exchange], rec_exchange_code = exchange\<rparr>"
proof -
  have w: "wide ''#'' = [0x23]" "wide ''&'' = [0x26]" "of_char CHR ''#'' = (0x23 :: dxf_char)" "of_char CHR ''&'' = (0x26 :: dxf_char)"
    by (simp_all add: wide_def of_char_def)
  have k: "dx_string_to_record_info (default_name rid) = rid" "dx_string_to_record_info (default_name rid @ 0x23 # source) = rid"
    "dx_string_to_record_info (default_name rid @ 0x26 # [exchange]) = rid"
    using kind_of_name [OF assms, of "[]"] kind_of_name [OF assms, of "0x23 # source"] kind_of_name [OF assms, of "[0x26, exchange]"]
    by simp_all
  have v: "rid \<noteq> dx_rid_invalid" using assms record_kinds_cases by simp
  show "init_record_info (\<lambda>_. True) (default_name rid) = Inr \<lparr>rec_name = Some (default_name rid), rec_fields = info_fields rid,
      rec_info_id = rid, rec_suffix = [], rec_exchange_code = 0\<rparr>"
    unfolding init_record_info_def k Let_def create_string_all using v by simp
  show "init_record_info (\<lambda>_. True) (default_name rid @ wide ''#'' @ source) =
        (if length source \<le> 4 then Inr \<lparr>rec_name = Some (default_name rid @ wide ''#'' @ source), rec_fields = info_fields rid,
           rec_info_id = rid, rec_suffix = source, rec_exchange_code = 0\<rparr> else Inl UB)" if "rid \<in> {dx_rid_order, dx_rid_spread_order}"
    unfolding init_record_info_def w append_Cons append_Nil k Let_def create_string_all
    using that by (auto simp: nth_append DXF_SUFFIX_UNITS_def)
  show "init_record_info (\<lambda>_. True) (default_name rid @ wide ''&'' @ [exchange]) =
        Inr \<lparr>rec_name = Some (default_name rid @ wide ''&'' @ [exchange]), rec_fields = info_fields rid,
           rec_info_id = rid, rec_suffix = [exchange], rec_exchange_code = exchange\<rparr>"
    if "rid \<in> {dx_rid_trade, dx_rid_quote, dx_rid_summary, dx_rid_trade_eth, dx_rid_time_and_sale}"
    unfolding init_record_info_def w append_Cons append_Nil k Let_def create_string_all
    using that by (auto simp: nth_append)
qed

text \<open>
  The name of a record, the default name of its kind with a suffix, is recognised as of this kind, and
  the record gets the fields of the kind and what follows the mark as its suffix or exchange.  Only
  \<open>Trade\<close> followed by \<open>ETH\<close> is another kind.  A source of an order longer than four characters is
  written beyond the end of its block.
\<close>

theorem record_name_parsed:
  assumes "rid \<in> set record_kinds"
  shows "dx_string_to_record_info (default_name rid) = rid
    \<and> init_record_info (\<lambda>_. True) (default_name rid) = Inr \<lparr>rec_name = Some (default_name rid), rec_fields = info_fields rid,
        rec_info_id = rid, rec_suffix = [], rec_exchange_code = 0\<rparr>
    \<and> (rid \<in> {dx_rid_order, dx_rid_spread_order} \<longrightarrow>
        init_record_info (\<lambda>_. True) (default_name rid @ wide ''#'' @ source) =
          (if length source \<le> 4 then Inr \<lparr>rec_name = Some (default_name rid @ wide ''#'' @ source), rec_fields = info_fields rid,
             rec_info_id = rid, rec_suffix = source, rec_exchange_code = 0\<rparr> else Inl UB))
    \<and> (rid \<in> {dx_rid_trade, dx_rid_quote, dx_rid_summary, dx_rid_trade_eth, dx_rid_time_and_sale} \<longrightarrow>
        init_record_info (\<lambda>_. True) (default_name rid @ wide ''&'' @ [exchange]) =
          Inr \<lparr>rec_name = Some (default_name rid @ wide ''&'' @ [exchange]), rec_fields = info_fields rid,
             rec_info_id = rid, rec_suffix = [exchange], rec_exchange_code = exchange\<rparr>)"
  using record_name_init [OF assms] kind_of_name [OF assms, of "[]"] by simp

theorem record_name_parsed_witness:
  "init_record_info (\<lambda>_. True) (wide ''Quote&N'') = Inr \<lparr>rec_name = Some (wide ''Quote&N''), rec_fields = dx_fields_quote,
     rec_info_id = dx_rid_quote, rec_suffix = wide ''N'', rec_exchange_code = 0x4E\<rparr>"
proof -
  have n: "default_name dx_rid_quote @ wide ''&'' @ [0x4E] = wide ''Quote&N''" "wide ''N'' = [0x4E]"
    by (simp_all add: default_names wide_def of_char_def)
  have "dx_rid_quote \<in> set record_kinds" "info_fields dx_rid_quote = dx_fields_quote"
    by (simp_all add: record_kinds_cases info_fields_def g_record_info_def)
  with record_name_parsed [of dx_rid_quote "[]" "0x4E"] show ?thesis unfolding n by simp
qed

section \<open>The map of the ids\<close>

definition ids_inv :: "record_ctx \<Rightarrow> bool" where
  "ids_inv ctx \<longleftrightarrow> length (frequent_ids ctx) = nat RECORD_ID_VECTOR_SIZE \<and> wf_array (id_map ctx)
     \<and> sorted_wrt (\<lambda>p q. sint (server_record_id p) < sint (server_record_id q)) (contents (id_map ctx))"

interpretation id_search: search_order RECORD_ID_PAIR_COMPARATOR "\<lambda>p. sint (server_record_id p)" "\<lambda>p. sint (server_record_id p)"
    "\<lambda>_. True" "\<lambda>_. True"
  by unfold_locales (auto simp: RECORD_ID_PAIR_COMPARATOR_def DX_NUMERIC_COMPARATOR_def)

definition ids_map :: "dx_record_id_pair list \<Rightarrow> int32 \<rightharpoonup> int" where
  "ids_map ps = map_of (map (\<lambda>p. (server_record_id p, local_record_id p)) ps)"

lemma sorted_ids_distinct:
  "sorted_wrt (\<lambda>p q. sint (server_record_id p) < sint (server_record_id q)) ps \<Longrightarrow> distinct (map server_record_id ps)"
  by (induction ps) auto

lemma id_search_spec:
  assumes inv: "ids_inv ctx"
    and d: "DX_ARRAY_BINARY_SEARCH (elements (id_map ctx)) 0 (arr_size (id_map ctx)) p RECORD_ID_PAIR_COMPARATOR = (found, idx)"
  shows "found \<Longrightarrow> idx < arr_size (id_map ctx) \<and> server_record_id (contents (id_map ctx) ! idx) = server_record_id p
      \<and> elements (id_map ctx) ! idx = contents (id_map ctx) ! idx
      \<and> ids_map (contents (id_map ctx)) (server_record_id p) = Some (local_record_id (contents (id_map ctx) ! idx))"
    and "\<not> found \<Longrightarrow> idx \<le> arr_size (id_map ctx) \<and> ids_map (contents (id_map ctx)) (server_record_id p) = None
      \<and> (\<forall>q \<in> set (take idx (contents (id_map ctx))). sint (server_record_id q) < sint (server_record_id p))
      \<and> (\<forall>q \<in> set (drop idx (contents (id_map ctx))). sint (server_record_id p) < sint (server_record_id q))"
proof -
  let ?ps = "contents (id_map ctx)"
  have w: "wf_array (id_map ctx)" "sorted_wrt (\<lambda>p q. sint (server_record_id p) < sint (server_record_id q)) ?ps"
    using inv by (simp_all add: ids_inv_def)
  note lc = length_contents [OF w(1)] and ds = sorted_ids_distinct [OF w(2)]
  note s = id_search.search_list [OF w(2) _ _ lc [symmetric] contents_def [symmetric] d, simplified]
  show "idx < arr_size (id_map ctx) \<and> server_record_id (?ps ! idx) = server_record_id p
      \<and> elements (id_map ctx) ! idx = ?ps ! idx \<and> ids_map ?ps (server_record_id p) = Some (local_record_id (?ps ! idx))" if found
  proof -
    have x: "idx < arr_size (id_map ctx)" "server_record_id (?ps ! idx) = server_record_id p"
      using s(1) [OF that] by (auto intro: signed_word_eqI)
    have "distinct (map fst (map (\<lambda>p. (server_record_id p, local_record_id p)) ?ps))" using ds by (simp add: comp_def)
    from map_of_eq_Some_iff [OF this] have "ids_map ?ps (server_record_id p) = Some (local_record_id (?ps ! idx))"
      unfolding ids_map_def using nth_mem [of idx ?ps] x lc by (metis (mono_tags, lifting) image_eqI list.set_map)
    with x show ?thesis by (simp add: contents_def)
  qed
  show "idx \<le> arr_size (id_map ctx) \<and> ids_map ?ps (server_record_id p) = None
      \<and> (\<forall>q \<in> set (take idx ?ps). sint (server_record_id q) < sint (server_record_id p))
      \<and> (\<forall>q \<in> set (drop idx ?ps). sint (server_record_id p) < sint (server_record_id q))" if "\<not> found"
  proof -
    have "server_record_id q \<noteq> server_record_id p" if "q \<in> set ?ps" for q
    proof -
      from that have "q \<in> set (take idx ?ps @ drop idx ?ps)" by simp
      then show ?thesis using s(2) [OF \<open>\<not> found\<close>] unfolding set_append by force
    qed
    then have "ids_map ?ps (server_record_id p) = None" by (force simp: ids_map_def map_of_eq_None_iff)
    then show ?thesis using s(2) [OF that] by simp
  qed
qed

lemma get_record_id:
  assumes "ids_inv ctx"
  shows "dx_get_record_id s ctx = (if is_frequent s then frequent_ids ctx ! nat (sint s)
    else case ids_map (contents (id_map ctx)) s of None \<Rightarrow> DX_RECORD_ID_INVALID | Some r \<Rightarrow> r)"
proof -
  let ?p = "\<lparr>server_record_id = s, local_record_id = 0\<rparr>"
  obtain found idx where d: "DX_ARRAY_BINARY_SEARCH (elements (id_map ctx)) 0 (arr_size (id_map ctx)) ?p RECORD_ID_PAIR_COMPARATOR = (found, idx)"
    by fastforce
  show ?thesis using id_search_spec [OF assms d] by (cases found) (simp_all add: dx_get_record_id_def DX_ARRAY_SEARCH_def d)
qed


lemma assign_spec:
  assumes inv: "ids_inv ctx" and e: "dx_assign_server_record_id mem r s ctx = (res, ctx')"
  shows "case res of
      Inr _ \<Rightarrow> ids_inv ctx' \<and> (\<forall>s'. dx_get_record_id s' ctx' = (if s' = s then r else dx_get_record_id s' ctx))
        \<and> (\<exists>ids m. ctx' = ctx\<lparr>frequent_ids := ids, id_map := m\<rparr>)
    | Inl err \<Rightarrow> err = dx_mec_insufficient_memory \<and> (\<forall>s'. ids_map (contents (id_map ctx')) s' = ids_map (contents (id_map ctx)) s')"
proof (cases "is_frequent s")
  case True
  let ?c = "ctx\<lparr>frequent_ids := (frequent_ids ctx)[nat (sint s) := r]\<rparr>"
  have c: "res = Inr ()" "ctx' = ?c" using e True by (simp_all add: dx_assign_server_record_id_def)
  have inv': "ids_inv ?c" using inv by (simp add: ids_inv_def)
  have b: "nat (sint t) < length (frequent_ids ctx)" if "is_frequent t" for t
    using that inv by (simp add: ids_inv_def is_frequent_def RECORD_ID_VECTOR_SIZE_def nat_less_iff)
  have ne: "nat (sint t) \<noteq> nat (sint s)" if "is_frequent t" "t \<noteq> s" for t
    using that True by (metis is_frequent_def nat_eq_iff2 signed_word_eqI)
  have "dx_get_record_id t ?c = (if t = s then r else dx_get_record_id t ctx)" for t
    unfolding get_record_id [OF inv'] get_record_id [OF inv] using True b [of t] ne [of t] by auto
  moreover have "\<exists>ids m. ?c = ctx\<lparr>frequent_ids := ids, id_map := m\<rparr>"
    by (rule exI [of _ "(frequent_ids ctx)[nat (sint s) := r]"], rule exI [of _ "id_map ctx"]) simp
  ultimately show ?thesis using c inv' by simp
next
  case False
  let ?p = "\<lparr>server_record_id = s, local_record_id = r\<rparr>" and ?m = "id_map ctx"
  let ?ps = "contents ?m"
  have w: "wf_array ?m" "sorted_wrt (\<lambda>p q. sint (server_record_id p) < sint (server_record_id q)) ?ps"
    using inv by (simp_all add: ids_inv_def)
  note lc = length_contents [OF w(1)] and ds = sorted_ids_distinct [OF w(2)]
  obtain found idx where d: "DX_ARRAY_BINARY_SEARCH (elements ?m) 0 (arr_size ?m) ?p RECORD_ID_PAIR_COMPARATOR = (found, idx)"
    by fastforce
  note sp = id_search_spec [OF inv d, simplified]
  have lookup: "dx_get_record_id t c = (if t = s then r else dx_get_record_id t ctx)"
    if "ids_inv c" "frequent_ids c = frequent_ids ctx" "ids_map (contents (id_map c)) = (ids_map ?ps)(s \<mapsto> r)" for c t
    unfolding get_record_id [OF that(1)] get_record_id [OF inv] using that(2,3) False by simp
  show ?thesis
  proof (cases found)
    case True
    let ?q = "(?ps ! idx)\<lparr>local_record_id := r\<rparr>"
    let ?c = "ctx\<lparr>id_map := ?m\<lparr>elements := (elements ?m)[idx := ?q]\<rparr>\<rparr>"
    have x: "idx < arr_size ?m" "server_record_id (?ps ! idx) = s" "elements ?m ! idx = ?ps ! idx" using sp(1) [OF True] by simp_all
    have c: "res = Inr ()" "ctx' = ?c" using e False True x(3) by (simp_all add: dx_assign_server_record_id_def DX_ARRAY_SEARCH_def d)
    have ct: "contents (id_map ?c) = ?ps[idx := ?q]" by (simp add: contents_def take_update_swap)
    have k: "map server_record_id (?ps[idx := ?q]) = map server_record_id ?ps"
      by (simp add: map_update list_update_same_conv) (metis list_update_id map_update)
    have "sorted_wrt (\<lambda>x y. sint x < sint y) (map server_record_id ?ps)" using w(2) by (simp add: sorted_wrt_map)
    then have "sorted_wrt (\<lambda>x y. sint x < sint y) (map server_record_id (?ps[idx := ?q]))" using k by simp
    then have inv': "ids_inv ?c" using inv w(1) unfolding ids_inv_def ct by (simp add: wf_array_def sorted_wrt_map)
    have m: "ids_map (contents (id_map ?c)) = (ids_map ?ps)(s \<mapsto> r)"
      unfolding ct using map_of_distinct_update [OF ds, of idx ?q local_record_id] x(1,2) lc by (simp add: ids_map_def)
    have "\<exists>ids m. ?c = ctx\<lparr>frequent_ids := ids, id_map := m\<rparr>"
      by (rule exI [of _ "frequent_ids ctx"], rule exI [of _ "id_map ?c"]) simp
    then show ?thesis using c inv' lookup [OF inv' _ m] by simp
  next
    case nf: False
    note s2 = sp(2) [OF nf]
    obtain m' where i: "DX_ARRAY_INSERT mem null_id_pair ?p idx dx_capacity_manager_halfer ?m = (res, m')" "ctx' = ctx\<lparr>id_map := m'\<rparr>"
      using e False nf by (auto simp: dx_assign_server_record_id_def DX_ARRAY_SEARCH_def d on_id_map_def split: prod.splits)
    note ins = halfer.insert_spec [OF w(1) _ i(1)]
    show ?thesis
    proof (cases res)
      case (Inl err)
      then show ?thesis using ins s2 i(2) by (simp add: contents_def)
    next
      case (Inr u)
      have ct: "contents m' = take idx ?ps @ ?p # drop idx ?ps" and wf': "wf_array m'" using ins s2 Inr by simp_all
      have "sorted_wrt (\<lambda>p q. sint (server_record_id p) < sint (server_record_id q)) (take idx ?ps @ drop idx ?ps)" using w(2) by simp
      then have "sorted_wrt (\<lambda>p q. sint (server_record_id p) < sint (server_record_id q)) (contents m')"
        unfolding ct using s2 by (auto simp: sorted_wrt_append simp del: append_take_drop_id)
      then have inv': "ids_inv ctx'" using inv wf' i(2) by (simp add: ids_inv_def)
      have n: "map_of (map (\<lambda>p. (server_record_id p, local_record_id p)) (take idx ?ps)) s = None"
        using s2 by (force simp: map_of_eq_None_iff)
      have sp: "ids_map ?ps = map_of (map (\<lambda>p. (server_record_id p, local_record_id p)) (drop idx ?ps)) ++
          map_of (map (\<lambda>p. (server_record_id p, local_record_id p)) (take idx ?ps))"
        unfolding ids_map_def by (simp only: map_of_append [symmetric] map_append [symmetric] append_take_drop_id)
      have m: "ids_map (contents (id_map ctx')) = (ids_map ?ps)(s \<mapsto> r)"
        unfolding sp i(2) using n by (auto simp: ct ids_map_def map_add_def fun_eq_iff split: option.splits)
      have "\<exists>ids m. ctx' = ctx\<lparr>frequent_ids := ids, id_map := m\<rparr>"
        by (rule exI [of _ "frequent_ids ctx"], rule exI [of _ m']) (simp add: i(2))
      then show ?thesis using Inr inv' lookup [OF inv' _ m] i(2) by simp
    qed
  qed
qed

lemma new_record_ctx_ids: "ids_inv new_record_ctx" "dx_get_record_id s new_record_ctx = DX_RECORD_ID_INVALID"
proof -
  show inv: "ids_inv new_record_ctx" by (simp add: ids_inv_def new_record_ctx_def)
  have "nat (sint s) < nat RECORD_ID_VECTOR_SIZE" if "is_frequent s" using that by (simp add: is_frequent_def RECORD_ID_VECTOR_SIZE_def nat_less_iff)
  then show "dx_get_record_id s new_record_ctx = DX_RECORD_ID_INVALID"
    unfolding get_record_id [OF inv] by (simp add: new_record_ctx_def ids_map_def)
qed

fun assign_all :: "(nat \<Rightarrow> bool) \<Rightarrow> (int32 \<times> int) list \<Rightarrow> (record_ctx, unit) io" where
  "assign_all mem [] = return ()"
| "assign_all mem ((s, r) # ps) = checked (dx_assign_server_record_id mem r s) (\<lambda>_. assign_all mem ps)"

lemma assign_all_spec:
  assumes "ids_inv ctx" "assign_all mem ps ctx = (Inr (), ctx')"
  shows "ids_inv ctx' \<and> (\<forall>s. dx_get_record_id s ctx' = (case map_of (rev ps) s of None \<Rightarrow> dx_get_record_id s ctx | Some r \<Rightarrow> r))"
  using assms
proof (induction ps arbitrary: ctx)
  case Nil
  then show ?case by (simp add: return_def)
next
  case (Cons p ps)
  obtain s r where p: "p = (s, r)" by fastforce
  obtain c1 where c1: "dx_assign_server_record_id mem r s ctx = (Inr (), c1)" "assign_all mem ps c1 = (Inr (), ctx')"
    using Cons.prems(2) unfolding p assign_all.simps checked_apply by (auto split: prod.splits sum.splits)
  note a = assign_spec [OF Cons.prems(1) c1(1)]
  from Cons.IH [OF _ c1(2)] a show ?case by (auto simp: p map_add_def split: option.splits)
qed

text \<open>
  C17: The map from the record ids of the server to those of the client, a vector for small ids and a sorted
  array for the others, answers the id assigned last, and no record for an id never assigned.
\<close>

theorem server_record_ids:
  assumes "assign_all mem ps new_record_ctx = (Inr (), ctx)"
  shows "dx_get_record_id s ctx = (case map_of (rev ps) s of None \<Rightarrow> DX_RECORD_ID_INVALID | Some r \<Rightarrow> r)"
  using assign_all_spec [OF new_record_ctx_ids(1) assms] new_record_ctx_ids(2) by (simp split: option.split)

theorem server_record_ids_witness:
  "case assign_all (\<lambda>_. True) [(7, 0), (5000, 1), (- 3, 2), (5000, 3)] new_record_ctx of
     (Inr _, ctx) \<Rightarrow> dx_get_record_id 5000 ctx = 3 \<and> dx_get_record_id (- 3) ctx = 2 \<and> dx_get_record_id 8 ctx = DX_RECORD_ID_INVALID
   | _ \<Rightarrow> False"
proof -
  let ?run = "assign_all (\<lambda>_. True) [(7, 0), (5000, 1), (- 3, 2), (5000, 3)] new_record_ctx"
  have "fst ?run = Inr ()" by code_simp
  then obtain ctx where r: "?run = (Inr (), ctx)" by (cases ?run) auto
  then show ?thesis unfolding r using server_record_ids [OF r] by simp
qed

section \<open>The list of records\<close>

definition records_inv :: "record_ctx \<Rightarrow> bool" where
  "records_inv ctx \<longleftrightarrow> wf_array (records_list ctx) \<and> wf_array (server_support_states ctx) \<and> wf_array (record_digests ctx)
     \<and> arr_size (server_support_states ctx) = arr_size (records_list ctx)
     \<and> arr_size (record_digests ctx) = arr_size (records_list ctx)
     \<and> (\<forall>item \<in> set (contents (records_list ctx)). rec_name item \<noteq> None)
     \<and> distinct (map rec_name (contents (records_list ctx)))"

lemma find_name_spec:
  assumes "\<forall>item \<in> set items. rec_name item \<noteq> None"
  shows "\<exists>found k. find_name items i name = Inr (found, i + k) \<and> k \<le> length items
    \<and> (found \<longrightarrow> k < length items \<and> rec_name (items ! k) = Some name)
    \<and> (\<not> found \<longrightarrow> k = length items \<and> Some name \<notin> rec_name ` set items)"
  using assms
proof (induction items arbitrary: i)
  case Nil
  show ?case by (intro exI [of _ False] exI [of _ 0]) simp
next
  case (Cons item items)
  obtain n where n: "rec_name item = Some n" using Cons.prems by auto
  obtain found k where f: "find_name items (i + 1) name = Inr (found, i + 1 + k)" "k \<le> length items"
    "found \<longrightarrow> k < length items \<and> rec_name (items ! k) = Some name"
    "\<not> found \<longrightarrow> k = length items \<and> Some name \<notin> rec_name ` set items" using Cons.IH [of "i + 1"] Cons.prems by auto
  show ?case
  proof (cases "n = name")
    case True
    then show ?thesis using n by (intro exI [of _ True] exI [of _ 0]) (simp add: compare_strings_eq)
  next
    case False
    then show ?thesis using n f by (intro exI [of _ found] exI [of _ "k + 1"]) (auto simp: compare_strings_eq)
  qed
qed

lemma on_array_succeeds:
  assumes "wf_array arr"
  obtains arr' where "DX_ARRAY_INSERT (\<lambda>_. True) zero x (arr_size arr) dx_capacity_manager_halfer arr = (Inr (), arr')"
    "wf_array arr'" "contents arr' = contents arr @ [x]" "arr_size arr' = arr_size arr + 1"
proof -
  have "arr_size arr \<le> arr_size arr" by simp
  from halfer.insert_succeeds [OF assms this] obtain arr' where
    i: "DX_ARRAY_INSERT (\<lambda>_. True) zero x (arr_size arr) dx_capacity_manager_halfer arr = (Inr (), arr')" "wf_array arr'"
    "contents arr' = take (arr_size arr) (contents arr) @ x # drop (arr_size arr) (contents arr)" by metis
  then have c: "contents arr' = contents arr @ [x]" using length_contents [OF assms] by simp
  have "arr_size arr' = length (contents arr')" using length_contents [OF i(2)] by simp
  then show thesis using that [of arr'] i c length_contents [OF assms] by simp
qed

lemma init_has_name:
  assumes "init_record_info (\<lambda>_. True) name = Inr item"
  shows "rec_name item = Some name"
proof -
  have "\<forall>i. init_record_info (\<lambda>_. True) name = Inr i \<longrightarrow> rec_name i = Some name"
    unfolding init_record_info_def Let_def create_string_all by simp
  then show ?thesis using assms by blast
qed

lemma add_record_spec:
  assumes inv: "records_inv ctx" and n: "rec_name item = Some name"
    and fresh: "Some name \<notin> rec_name ` set (contents (records_list ctx))"
  shows "\<exists>ctx'. dx_add_record_to_list (\<lambda>_. True) item (arr_size (records_list ctx)) ctx = (Inr (), ctx') \<and> records_inv ctx'
    \<and> contents (records_list ctx') = contents (records_list ctx) @ [item]
    \<and> contents (server_support_states ctx') = contents (server_support_states ctx) @ [0]
    \<and> contents (record_digests ctx') = contents (record_digests ctx) @ [dx_init_record_digest]
    \<and> frequent_ids ctx' = frequent_ids ctx \<and> id_map ctx' = id_map ctx \<and> new_record_id ctx' = new_record_id ctx"
proof -
  have w: "wf_array (records_list ctx)" "wf_array (server_support_states ctx)" "wf_array (record_digests ctx)"
    "arr_size (server_support_states ctx) = arr_size (records_list ctx)" "arr_size (record_digests ctx) = arr_size (records_list ctx)"
    using inv by (simp_all add: records_inv_def)
  obtain l where l: "DX_ARRAY_INSERT (\<lambda>_. True) null_record item (arr_size (records_list ctx)) dx_capacity_manager_halfer (records_list ctx) = (Inr (), l)"
    "wf_array l" "contents l = contents (records_list ctx) @ [item]" "arr_size l = arr_size (records_list ctx) + 1"
    using on_array_succeeds [OF w(1)] by metis
  obtain st where st: "DX_ARRAY_INSERT (\<lambda>_. True) 0 0 (arr_size (records_list ctx)) dx_capacity_manager_halfer (server_support_states ctx) = (Inr (), st)"
    "wf_array st" "contents st = contents (server_support_states ctx) @ [0]" "arr_size st = arr_size (records_list ctx) + 1"
    using on_array_succeeds [OF w(2)] unfolding w(4) by metis
  obtain d where d: "DX_ARRAY_INSERT (\<lambda>_. True) dx_init_record_digest dx_init_record_digest (arr_size (records_list ctx))
      dx_capacity_manager_halfer (record_digests ctx) = (Inr (), d)"
    "wf_array d" "contents d = contents (record_digests ctx) @ [dx_init_record_digest]" "arr_size d = arr_size (records_list ctx) + 1"
    using on_array_succeeds [OF w(3)] unfolding w(5) by metis
  have it: "item\<lparr>rec_name := Some name\<rparr> = item" using n by simp
  let ?c = "ctx\<lparr>records_list := l, server_support_states := st, record_digests := d\<rparr>"
  have "dx_add_record_to_list (\<lambda>_. True) item (arr_size (records_list ctx)) ctx = (Inr (), ?c)"
    using l(1) st(1) d(1) w(5) by (simp add: dx_add_record_to_list_def n create_string_all it Let_def on_records_list_def on_states_def
        dx_add_record_digest_to_list_def on_digests_def)
  moreover have "records_inv ?c" using inv n fresh l(2-4) st(2-4) d(2-4) by (simp add: records_inv_def image_iff)
  ultimately show ?thesis using l(3) st(3) d(3) by (intro exI [of _ ?c]) simp
qed

text \<open>
  C15: Asking for the record of a name adds it when it is new, with no field supported by the server and an
  empty digest, and otherwise finds it: names and ids stay in a one to one relation, the lists of
  records, support states and digests stay parallel, and no other record changes.
\<close>

theorem record_registered:
  assumes "records_inv ctx" "init_record_info (\<lambda>_. True) name = Inr item"
  shows "\<exists>i ctx'. dx_add_or_get_record_id (\<lambda>_. True) name ctx = (Inr (int i), ctx') \<and> records_inv ctx'
    \<and> dx_get_record_id_by_name name ctx' = Inr (int i)
    \<and> (if Some name \<in> rec_name ` set (contents (records_list ctx)) then ctx' = ctx
       else i = arr_size (records_list ctx) \<and> contents (records_list ctx') = contents (records_list ctx) @ [item]
         \<and> contents (server_support_states ctx') = contents (server_support_states ctx) @ [0]
         \<and> contents (record_digests ctx') = contents (record_digests ctx) @ [dx_init_record_digest])"
proof -
  note n = init_has_name [OF assms(2)]
  let ?items = "contents (records_list ctx)"
  have named: "\<forall>item \<in> set ?items. rec_name item \<noteq> None" using assms(1) by (simp add: records_inv_def)
  have len: "length ?items = arr_size (records_list ctx)" using assms(1) length_contents [of "records_list ctx"] by (simp add: records_inv_def)
  obtain found k where f: "find_name ?items 0 name = Inr (found, k)" "k \<le> length ?items"
    "found \<longrightarrow> k < length ?items \<and> rec_name (?items ! k) = Some name"
    "\<not> found \<longrightarrow> k = length ?items \<and> Some name \<notin> rec_name ` set ?items" using find_name_spec [OF named, of 0 name] by auto
  show ?thesis
  proof (cases found)
    case True
    then have "Some name \<in> rec_name ` set ?items" using f(3) nth_mem by (metis image_eqI)
    then show ?thesis using f(1) True n assms by (intro exI [of _ k] exI [of _ ctx]) (simp add: dx_add_or_get_record_id_def dx_get_record_id_by_name_def)
  next
    case False
    then have fr: "Some name \<notin> rec_name ` set ?items" "k = arr_size (records_list ctx)" using f(4) len by simp_all
    from add_record_spec [OF assms(1) n fr(1)] obtain ctx' where a:
      "dx_add_record_to_list (\<lambda>_. True) item k ctx = (Inr (), ctx')" "records_inv ctx'"
      "contents (records_list ctx') = ?items @ [item]"
      "contents (server_support_states ctx') = contents (server_support_states ctx) @ [0]"
      "contents (record_digests ctx') = contents (record_digests ctx) @ [dx_init_record_digest]" unfolding fr(2) by blast
    obtain found2 k2 where f2: "find_name (?items @ [item]) 0 name = Inr (found2, k2)" "k2 \<le> length (?items @ [item])"
      "found2 \<longrightarrow> k2 < length (?items @ [item]) \<and> rec_name ((?items @ [item]) ! k2) = Some name"
      "\<not> found2 \<longrightarrow> k2 = length (?items @ [item]) \<and> Some name \<notin> rec_name ` set (?items @ [item])"
      using find_name_spec [of "?items @ [item]" 0 name] named n by auto
    have t: "found2" using f2(4) n by auto
    have "k2 = k"
    proof (rule ccontr)
      assume "k2 \<noteq> k"
      then have "k2 < length ?items" "rec_name (?items ! k2) = Some name" using f2(3) t fr(2) len by (simp_all add: nth_append split: if_splits)
      then show False using fr(1) nth_mem by (metis image_eqI)
    qed
    then have "dx_get_record_id_by_name name ctx' = Inr (int k)" using f2(1) a(3) t by (simp add: dx_get_record_id_by_name_def)
    then show ?thesis using a f(1) False n fr assms(2)
      by (intro exI [of _ k] exI [of _ ctx']) (simp add: dx_add_or_get_record_id_def)
  qed
qed

theorem record_registered_witness:
  "\<exists>ctx. dx_add_or_get_record_id (\<lambda>_. True) (wide ''Order#NTV'') new_record_ctx = (Inr 0, ctx) \<and> records_inv ctx
    \<and> map rec_suffix (contents (records_list ctx)) = [wide ''NTV'']"
proof -
  have inv: "records_inv new_record_ctx" by (simp add: records_inv_def new_record_ctx_def DX_EMPTY_ARRAY_def wf_array_def contents_def)
  have n: "default_name dx_rid_order @ wide ''#'' @ wide ''NTV'' = wide ''Order#NTV''" by (simp add: default_names wide_def of_char_def)
  have l: "length (wide ''NTV'') = 3" by (simp add: wide_def)
  note i = record_name_init(2) [of dx_rid_order "wide ''NTV''", unfolded n l, simplified]
  have "dx_rid_order \<in> set record_kinds" by (simp add: record_kinds_cases)
  note r = record_registered [OF inv i [OF this]]
  have "contents (records_list new_record_ctx) = []" by (simp add: new_record_ctx_def)
  with r show ?thesis by (auto simp: new_record_ctx_def DX_EMPTY_ARRAY_def)
qed

end
