(* ===== verification/Dx_Describe.thy ===== *)
theory Dx_Describe
  imports Dx_Records Dx_Protocol_Server
begin

text \<open>
  The descriptions of records (\<open>src/ServerMessageProcessor.c\<close>): the server tells which record a number stands
  for and which fields it sends of it; the client makes a digest of each record from it.
\<close>

section \<open>Digests\<close>

definition MIN_FIELD_TYPE_ID :: int where "MIN_FIELD_TYPE_ID = 0x00"
definition MAX_FIELD_TYPE_ID :: int where "MAX_FIELD_TYPE_ID = 0xFF"

definition dx_get_record_server_support_state_value :: "int \<Rightarrow> record_ctx \<Rightarrow> int32 option" where
  "dx_get_record_server_support_state_value record_id ctx =
     (if record_id < 0 \<or> record_id \<ge> int (arr_size (server_support_states ctx)) then None
      else Some (elements (server_support_states ctx) ! nat record_id))"

definition set_support_state :: "int \<Rightarrow> int32 \<Rightarrow> record_ctx \<Rightarrow> record_ctx" where
  "set_support_state record_id state ctx = ctx\<lparr>server_support_states :=
     (server_support_states ctx)\<lparr>elements := (elements (server_support_states ctx))[nat record_id := state]\<rparr>\<rparr>"

definition dx_get_record_digest :: "int \<Rightarrow> record_ctx \<Rightarrow> dx_record_digest option" where
  "dx_get_record_digest record_id ctx =
     (if elements (record_digests ctx) = [] \<or> record_id < 0 \<or> record_id \<ge> int (arr_size (record_digests ctx)) then None
      else Some (elements (record_digests ctx) ! nat record_id))"

definition set_digest :: "int \<Rightarrow> dx_record_digest \<Rightarrow> record_ctx \<Rightarrow> record_ctx" where
  "set_digest record_id digest ctx = ctx\<lparr>record_digests :=
     (record_digests ctx)\<lparr>elements := (elements (record_digests ctx))[nat record_id := digest]\<rparr>\<rparr>"

definition on_first :: "('h, 'a) io \<Rightarrow> ('h \<times> in_ctx, 'a) io" where
  "on_first m = (\<lambda>(h, input). case m h of (r, h) \<Rightarrow> (r, h, input))"

text \<open>\<open>record_digest->elements[(record_digest->size)++] = field_digest\<close>\<close>

definition append_digest :: "int \<Rightarrow> dx_field_digest \<Rightarrow> (record_ctx, unit) io" where
  "append_digest record_id field = (\<lambda>ctx.
     case dx_get_record_digest record_id ctx of
       None \<Rightarrow> (Inl UB, ctx)
     | Some digest \<Rightarrow>
         if length (digest_fields digest) < digest_slots digest
         then (Inr (), set_digest record_id (digest\<lparr>digest_fields := digest_fields digest @ [field]\<rparr>) ctx)
         else (Inl UB, ctx))"

definition dx_clear_record_digest :: "dx_record_digest \<Rightarrow> dx_record_digest" where
  "dx_clear_record_digest digest = dx_init_record_digest"

text \<open>
  The test after the allocation of a field digest is of the wrong pointer, so a failed allocation is
  dereferenced.
\<close>

definition add_support :: "int \<Rightarrow> nat \<Rightarrow> record_ctx \<Rightarrow> dx_error + record_ctx" where
  "add_support record_id field_index ctx =
     (case dx_get_record_server_support_state_value record_id ctx of
        None \<Rightarrow> Inl dx_ec_success
      | Some state \<Rightarrow> Inr (set_support_state record_id (state OR INDEX_BITMASK field_index) ctx))"

definition dx_create_field_digest ::
  "(nat \<Rightarrow> bool) \<Rightarrow> int \<Rightarrow> dx_record_item option \<Rightarrow> (record_ctx \<times> in_ctx, dx_field_digest option) io" where
  "dx_create_field_digest mem record_id record_info =
     checked (read_c_string mem) (\<lambda>field_name.
     checked (on_input dx_read_compact_int) (\<lambda>type.
       case field_name of
         None \<Rightarrow> fail dx_pec_descr_record_field_info_corrupted
       | Some name \<Rightarrow>
           if length name = 0 \<or> sint type < MIN_FIELD_TYPE_ID \<or> sint type > MAX_FIELD_TYPE_ID
           then fail dx_pec_descr_record_field_info_corrupted
           else case record_info of
             None \<Rightarrow> return None
           | Some info \<Rightarrow>
               let field_index = dx_find_record_field info name type in
               if \<not> mem 1 then fail UB
               else if field_index = INVALID_INDEX then
                 return (Some \<lparr>digest_type = type, local_type = 0, digest_setter = None, digest_default = None\<rparr>)
               else
                 let field = rec_fields info ! nat field_index in
                 checked (on_context (add_support record_id (nat field_index))) (\<lambda>_.
                 return (Some \<lparr>digest_type = type, local_type = field_type field, digest_setter = Some field,
                   digest_default = None\<rparr>))))"

fun digest_unsupported :: "(nat \<Rightarrow> bool) \<Rightarrow> int \<Rightarrow> dx_field_info list \<Rightarrow> nat \<Rightarrow> (record_ctx, unit) io" where
  "digest_unsupported mem record_id [] i = return ()"
| "digest_unsupported mem record_id (field # fs) i = (\<lambda>ctx.
     case dx_get_record_server_support_state_value record_id ctx of
       None \<Rightarrow> (Inl dx_ec_success, ctx)
     | Some state \<Rightarrow>
         if state AND INDEX_BITMASK i \<noteq> 0 then digest_unsupported mem record_id fs (i + 1) ctx
         else if \<not> mem 1 then (Inl dx_ec_success, ctx)
         else checked (append_digest record_id
             \<lparr>digest_type = 0, local_type = 0, digest_setter = Some field, digest_default = Some field\<rparr>)
           (\<lambda>_. digest_unsupported mem record_id fs (i + 1)) ctx)"

definition dx_digest_unsupported_fields :: "(nat \<Rightarrow> bool) \<Rightarrow> int \<Rightarrow> dx_record_item option \<Rightarrow> (record_ctx, unit) io" where
  "dx_digest_unsupported_fields mem record_id record_info =
     (if record_id < 0 then return ()
      else (\<lambda>ctx. case dx_get_record_digest record_id ctx of
        None \<Rightarrow> (Inl dx_ec_invalid_func_param_internal, ctx)
      | Some _ \<Rightarrow>
          (case record_info of
             None \<Rightarrow> (Inl UB, ctx)
           | Some info \<Rightarrow> digest_unsupported mem record_id (rec_fields info) 0 ctx)))"

definition store_field_digest :: "int \<Rightarrow> dx_field_digest option \<Rightarrow> (record_ctx, unit) io" where
  "store_field_digest record_id field = (case field of None \<Rightarrow> return () | Some f \<Rightarrow> append_digest record_id f)"

fun fill_fields :: "(nat \<Rightarrow> bool) \<Rightarrow> int \<Rightarrow> dx_record_item option \<Rightarrow> nat \<Rightarrow> (record_ctx \<times> in_ctx, unit) io" where
  "fill_fields mem rid record_info 0 = return ()"
| "fill_fields mem rid record_info (Suc n) =
     checked (dx_create_field_digest mem rid record_info) (\<lambda>field_digest.
     checked (on_first (store_field_digest rid field_digest)) (\<lambda>_.
     fill_fields mem rid record_info n))"

definition mark_in_sync :: "int \<Rightarrow> (record_ctx, unit) io" where
  "mark_in_sync rid =
     (if rid < 0 then return ()
      else (\<lambda>ctx. case dx_get_record_digest rid ctx of
        None \<Rightarrow> (Inl dx_ec_invalid_func_param_internal, ctx)
      | Some digest \<Rightarrow> (Inr (), set_digest rid (digest\<lparr>in_sync_with_server := True\<rparr>) ctx)))"

definition dx_fill_record_digest :: "(nat \<Rightarrow> bool) \<Rightarrow> int \<Rightarrow> dx_record_item option \<Rightarrow> nat \<Rightarrow> (record_ctx \<times> in_ctx, unit) io" where
  "dx_fill_record_digest mem rid record_info field_count =
     checked (fill_fields mem rid record_info field_count) (\<lambda>_.
     checked (on_first (dx_digest_unsupported_fields mem rid record_info)) (\<lambda>_.
     on_first (mark_in_sync rid)))"

section \<open>Descriptions of records\<close>

text \<open>
  The digest of a known record is emptied, and gets a block for all the fields that it can have.  The
  sum of the numbers of fields is an \<open>int\<close>.  The value is the record, which its caller goes on with.
\<close>

definition start_description :: "(nat \<Rightarrow> bool) \<Rightarrow> int \<Rightarrow> int32 \<Rightarrow> int \<Rightarrow> (record_ctx, dx_record_item) io" where
  "start_description mem local_id server_id server_field_count =
     checked (dx_assign_server_record_id mem local_id server_id) (\<lambda>_ ctx.
       case dx_get_record_by_id local_id ctx of
         None \<Rightarrow> (Inl dx_ec_success, ctx)
       | Some info \<Rightarrow>
           (case dx_get_record_digest local_id ctx of
              None \<Rightarrow> (Inl dx_ec_invalid_func_param_internal, ctx)
            | Some digest \<Rightarrow>
                let slots = server_field_count + int (length (rec_fields info));
                    ctx = set_digest local_id (dx_clear_record_digest digest) ctx
                in if slots > INT_MAX then (Inl UB, ctx)
                   else if \<not> mem (nat slots) then (Inl dx_ec_success, ctx)
                   else (Inr info, set_digest local_id ((dx_clear_record_digest digest)\<lparr>digest_slots := nat slots\<rparr>) ctx)))"

definition describe_record :: "(nat \<Rightarrow> bool) \<Rightarrow> (record_ctx \<times> in_ctx, unit) io" where
  "describe_record mem =
     checked (on_input dx_read_compact_int) (\<lambda>server_id.
     checked (read_c_string mem) (\<lambda>record_name.
     checked (on_input dx_read_compact_int) (\<lambda>server_field_count.
       case record_name of
         None \<Rightarrow> fail dx_pec_record_info_corrupted
       | Some name \<Rightarrow>
           if length name = 0 \<or> sint server_field_count < 0 then fail dx_pec_record_info_corrupted
           else (\<lambda>(ctx, input).
             case dx_get_record_id_by_name name ctx of
               Inl e \<Rightarrow> (Inl e, ctx, input)
             | Inr local_id \<Rightarrow>
                 if local_id = DX_RECORD_ID_INVALID
                 then dx_fill_record_digest mem local_id None (nat (sint server_field_count)) (ctx, input)
                 else checked (on_first (start_description mem local_id server_id (sint server_field_count)))
                   (\<lambda>info. dx_fill_record_digest mem local_id (Some info) (nat (sint server_field_count))) (ctx, input)))))"

fun describe_records :: "nat \<Rightarrow> (nat \<Rightarrow> bool) \<Rightarrow> record_ctx \<times> in_ctx \<Rightarrow> ((dx_error + unit) \<times> record_ctx \<times> in_ctx) option" where
  "describe_records 0 mem s = None"
| "describe_records (Suc fuel) mem (ctx, input) =
     (if current_in_buffer_position input < in_buffer_limit input then
        (case describe_record mem (ctx, input) of
           (Inl e, s) \<Rightarrow> Some (Inl e, s)
         | (Inr _, s) \<Rightarrow> describe_records fuel mem s)
      else Some (Inr (), ctx, input))"

text \<open>
  The loop has one round for each byte up to the limit and one more; that it never ends would be
  undefined behaviour, and \<open>describe_records_total\<close> shows that it ends.
\<close>

definition dx_process_describe_records :: "(nat \<Rightarrow> bool) \<Rightarrow> (record_ctx \<times> in_ctx, unit) io" where
  "dx_process_describe_records mem = (\<lambda>(ctx, input).
     case describe_records (Suc (nat (in_buffer_limit input - current_in_buffer_position input))) mem (ctx, input) of
       None \<Rightarrow> (Inl UB, ctx, input)
     | Some result \<Rightarrow> result)"

section \<open>Resetting the records\<close>

text \<open>The first two stages of \<open>dx_clear_server_info\<close>; the result of adding the empty digests is not looked at.\<close>

fun reset_support_states :: "nat \<Rightarrow> nat \<Rightarrow> (record_ctx, unit) io" where
  "reset_support_states 0 rid = return ()"
| "reset_support_states (Suc n) rid = (\<lambda>ctx.
     case dx_get_record_server_support_state_value (int rid) ctx of
       None \<Rightarrow> (Inl dx_ec_success, ctx)
     | Some _ \<Rightarrow> reset_support_states n (rid + 1) (set_support_state (int rid) 0 ctx))"

definition dx_clear_record_digests :: "record_ctx \<Rightarrow> record_ctx" where
  "dx_clear_record_digests ctx = ctx\<lparr>record_digests := DX_EMPTY_ARRAY\<rparr>"

fun init_digests :: "(nat \<Rightarrow> bool) \<Rightarrow> nat \<Rightarrow> nat \<Rightarrow> (record_ctx, unit) io" where
  "init_digests mem 0 i = return ()"
| "init_digests mem (Suc n) i = (\<lambda>ctx.
     case dx_add_record_digest_to_list mem i ctx of
       (r, ctx) \<Rightarrow> if r = Inl UB then (Inl UB, ctx) else init_digests mem n (i + 1) ctx)"

definition dx_init_record_digests :: "(nat \<Rightarrow> bool) \<Rightarrow> (record_ctx, unit) io" where
  "dx_init_record_digests mem = (\<lambda>ctx. init_digests mem (nat (dx_get_records_list_count ctx)) 0 ctx)"

definition clear_records :: "(nat \<Rightarrow> bool) \<Rightarrow> (record_ctx, unit) io" where
  "clear_records mem =
     checked (\<lambda>ctx. reset_support_states (nat (dx_get_records_list_count ctx)) 0 ctx) (\<lambda>_ ctx.
     checked (dx_init_record_digests mem) (\<lambda>_ ctx. (Inr (), dx_drop_unsubscribe_counter ctx)) (dx_clear_record_digests ctx))"

end
