(* ===== verification/Dx_Data.thy ===== *)
theory Dx_Data
  imports Dx_Describe Dx_Decimal Dx_Snapshot Dx_Symbol_Stream
begin

text \<open>
  Data messages (\<open>src/ServerMessageProcessor.c\<close>): the reader of symbols, the reader of the fields of a
  record by its digest into a row of \<open>src/RecordBuffers.c\<close>, and the loop over the records of a message.
  The transcoder of the rows is a parameter here.
\<close>

section \<open>Rows\<close>

text \<open>
  A value in a member of a row.  \<open>F_static\<close> is a string constant of the program, \<open>F_dangling\<close> a pointer to
  a string or an array that has been freed.  The empty array and the null array are \<open>F_bytes []\<close>.
\<close>

datatype field_value = F_char dxf_char | F_int int32 | F_long long64 | F_double double
  | F_string "dxf_char list option" | F_static "dxf_char list" | F_bytes "byte list" | F_dangling

text \<open>A row is a block of zeros, but for the members that have been set.\<close>

type_synonym row = "string \<Rightarrow> field_value option"

definition zero_value :: "c_type \<Rightarrow> field_value" where
  "zero_value type = (case type of T_char \<Rightarrow> F_char 0 | T_int \<Rightarrow> F_int 0 | T_long \<Rightarrow> F_long 0 | T_double \<Rightarrow> F_double (D_Num 0)
     | T_string \<Rightarrow> F_string None | T_byte_array \<Rightarrow> F_bytes [])"

definition member_value :: "c_type \<Rightarrow> string \<Rightarrow> row \<Rightarrow> field_value" where
  "member_value type member r = (case r member of None \<Rightarrow> zero_value type | Some v \<Rightarrow> v)"

definition default_value :: "c_type \<Rightarrow> field_value" where
  "default_value type = (if type = T_string then F_static (wide ''<Default>'') else zero_value type)"

text \<open>
  The local variables of \<open>dx_read_records\<close> whose address is given to a setter.  A setter reads a value of
  its own type there.  A narrower integer is the low part of the variable, on a machine with little
  end first; a wider one is read beyond the variable, and bytes of another kind have no meaning.
\<close>

datatype variable = Var_byte byte | Var_short short16 | Var_char dxf_char | Var_int int32 | Var_long long64
  | Var_double double | Var_string "dxf_char list option" | Var_bytes "byte list"

fun read_as :: "c_type \<Rightarrow> variable \<Rightarrow> field_value option" where
  "read_as T_char (Var_char c) = Some (F_char c)"
| "read_as T_char (Var_short s) = Some (F_char (ucast s))"
| "read_as T_char (Var_int i) = Some (F_char (ucast i))"
| "read_as T_char (Var_long l) = Some (F_char (ucast l))"
| "read_as T_int (Var_int i) = Some (F_int i)"
| "read_as T_int (Var_long l) = Some (F_int (ucast l))"
| "read_as T_long (Var_long l) = Some (F_long l)"
| "read_as T_double (Var_double d) = Some (F_double d)"
| "read_as T_string (Var_string s) = Some (F_string s)"
| "read_as T_byte_array (Var_bytes bs) = Some (F_bytes bs)"
| "read_as _ _ = None"

text \<open>
  The assignment of a value to a member.  The only setter of another type than its member is that of
  the time of theoretical prices, which widens an \<open>int\<close>.
\<close>

fun assigned :: "c_type \<Rightarrow> field_value \<Rightarrow> field_value" where
  "assigned T_long (F_int i) = F_long (scast i)"
| "assigned _ v = v"

definition set_member :: "dx_field_info \<Rightarrow> variable \<Rightarrow> row \<Rightarrow> dx_error + row" where
  "set_member f var r = (case read_as (setter_type f) var of
     None \<Rightarrow> Inl UB | Some v \<Rightarrow> Inr (r(field_member f \<mapsto> assigned (getter_type f) v)))"

definition CHECKED_SET_VALUE :: "dx_field_info option \<Rightarrow> variable \<Rightarrow> row \<Rightarrow> dx_error + row" where
  "CHECKED_SET_VALUE setter var r = (case setter of None \<Rightarrow> Inr r | Some f \<Rightarrow> set_member f var r)"

text \<open>The default value of a field has the type of its setter.\<close>

definition set_default :: "dx_field_digest \<Rightarrow> row \<Rightarrow> dx_error + row" where
  "set_default digest r = (case digest_setter digest of
     None \<Rightarrow> Inl UB
   | Some f \<Rightarrow> (case digest_default digest of
       None \<Rightarrow> Inl UB
     | Some g \<Rightarrow> Inr (r(field_member f \<mapsto> assigned (getter_type f) (default_value (setter_type g))))))"

text \<open>\<open>(int)read_double\<close>\<close>

definition truncate_double :: "double \<Rightarrow> dx_error + int32" where
  "truncate_double d = (case d of
     D_Num q \<Rightarrow> let t = (if q < 0 then - \<lfloor>- q\<rfloor> else \<lfloor>q\<rfloor>) in
       if - (2 ^ 31) \<le> t \<and> t < 2 ^ 31 then Inr (word_of_int t) else Inl UB
   | _ \<Rightarrow> Inl UB)"

section \<open>State\<close>

text \<open>
  The part of \<open>dx_server_msg_proc_connection_context_t\<close> that data messages use, with the contexts of the
  data structures and of the row buffers.  \<open>receiver\<close> is the state that the transcoder acts on.
\<close>

record 'e data_ctx =
  dscc :: record_ctx
  symbol_buffer :: "dxf_char list"
  symbol_result :: "dxf_char list option"
  last_symbol :: "dxf_char list option"
  last_cipher :: int32
  last_flags :: int32
  mru_flags :: int32
  rows :: "dx_record_info_id \<Rightarrow> row option"
  receiver :: 'e

definition SYMBOL_BUFFER_LEN :: nat where "SYMBOL_BUFFER_LEN = 2048"

definition new_data_ctx :: "record_ctx \<Rightarrow> 'e \<Rightarrow> 'e data_ctx" where
  "new_data_ctx ds e = \<lparr>dscc = ds, symbol_buffer = replicate (SYMBOL_BUFFER_LEN + 1) 0, symbol_result = None,
     last_symbol = None, last_cipher = 0, last_flags = 0, mru_flags = 0, rows = (\<lambda>_. None), receiver = e\<rparr>"

record dx_record_params =
  rp_record_id :: int
  rp_record_info_id :: dx_record_info_id
  rp_suffix :: "dxf_char list option"
  rp_symbol_name :: "dxf_char list option"
  rp_symbol_cipher :: int32
  rp_flags :: int32
  rp_time_int_field :: long64

section \<open>Symbols\<close>

text \<open>The buffer of the context is an array of \<open>SYMBOL_BUFFER_LEN + 1\<close> units; a list of another length stands for none.\<close>

definition read_codec_symbol :: "(nat \<Rightarrow> bool) \<Rightarrow> ('e data_ctx \<times> in_ctx, int32) io" where
  "read_codec_symbol mem = (\<lambda>(ctx, input).
     if length (symbol_buffer ctx) \<noteq> SYMBOL_BUFFER_LEN + 1 then (Inl UB, ctx, input)
     else case dx_codec_read_symbol mem (int SYMBOL_BUFFER_LEN) \<lparr>sym_in = input, sym_buffer = symbol_buffer ctx,
         sym_result = symbol_result ctx, cipher_result = 0, sym_flags = last_flags ctx, mru_event_flags = mru_flags ctx\<rparr> of
       (r, s) \<Rightarrow> (map_sum id (\<lambda>_. cipher_result s) r, ctx\<lparr>symbol_buffer := sym_buffer s, symbol_result := sym_result s,
         last_flags := sym_flags s, mru_flags := symbol_ctx.mru_event_flags s\<rparr>, sym_in s))"

definition dx_read_symbol :: "(nat \<Rightarrow> bool) \<Rightarrow> ('e data_ctx \<times> in_ctx, unit) io" where
  "dx_read_symbol mem = checked (read_codec_symbol mem) (\<lambda>r. on_first (\<lambda>ctx.
     if r AND dx_get_codec_valid_cipher \<noteq> 0 then (Inr (), ctx\<lparr>last_cipher := r, last_symbol := None\<rparr>)
     else if 0 < sint r then
       (case dx_create_string_src_len mem (symbol_buffer ctx) (nat (sint r)) of
          None \<Rightarrow> (Inl dx_mec_insufficient_memory, ctx\<lparr>last_cipher := 0, last_symbol := None\<rparr>)
        | Some str \<Rightarrow> (Inr (), ctx\<lparr>last_cipher := 0, last_symbol := Some (c_string str)\<rparr>))
     else
       let ctx = (case symbol_result ctx of
           None \<Rightarrow> ctx
         | Some str \<Rightarrow> ctx\<lparr>last_symbol := Some (c_string str), symbol_result := None,
             last_cipher := dx_encode_symbol_name (Some (c_string str))\<rparr>)
       in if last_cipher ctx = 0 \<and> last_symbol ctx = None then (Inl dx_pec_invalid_symbol, ctx) else (Inr (), ctx)))"

definition decode_last_symbol :: "(nat \<Rightarrow> bool) \<Rightarrow> ('e data_ctx, unit) io" where
  "decode_last_symbol mem = (\<lambda>ctx.
     if last_symbol ctx \<noteq> None then (Inr (), ctx)
     else case dx_decode_symbol_name mem (last_cipher ctx) of
       Inl e \<Rightarrow> (Inl e, ctx) | Inr s \<Rightarrow> (Inr (), ctx\<lparr>last_symbol := s\<rparr>))"

section \<open>Fields\<close>

definition on_row :: "dx_record_info_id \<Rightarrow> (row \<Rightarrow> dx_error + row) \<Rightarrow> 'e data_ctx \<Rightarrow> dx_error + 'e data_ctx" where
  "on_row kind f ctx = (case rows ctx kind of
     None \<Rightarrow> Inl UB | Some r \<Rightarrow> map_sum id (\<lambda>r. ctx\<lparr>rows := (rows ctx)(kind \<mapsto> r)\<rparr>) (f r))"

definition is_decimal :: "int32 \<Rightarrow> bool" where
  "is_decimal repr \<longleftrightarrow> repr = dx_fid_flag_decimal \<or> repr = dx_fid_flag_wide_decimal"

text \<open>The branch of the bytes, shorts and ints: \<open>plain\<close> is the variable itself, \<open>long\<close> its value.\<close>

definition set_fixed :: "dx_record_info_id \<Rightarrow> dx_field_digest \<Rightarrow> int32 \<Rightarrow> variable \<Rightarrow> long64 \<Rightarrow> 'e data_ctx \<Rightarrow> dx_error + 'e data_ctx" where
  "set_fixed kind digest repr plain value =
     on_row kind (CHECKED_SET_VALUE (digest_setter digest)
       (if repr = dx_fid_flag_decimal then Var_double (dx_decimal_int_to_double (ucast value))
        else if repr = dx_fid_flag_wide_decimal then Var_double (dx_wide_decimal_long_to_double value)
        else plain))"

definition set_double :: "dx_record_info_id \<Rightarrow> dx_field_digest \<Rightarrow> double \<Rightarrow> 'e data_ctx \<Rightarrow> dx_error + 'e data_ctx" where
  "set_double kind digest d ctx =
     (if is_decimal (local_type digest AND dx_fid_mask_representation)
      then on_row kind (CHECKED_SET_VALUE (digest_setter digest) (Var_double d)) ctx
      else case truncate_double d of
        Inl e \<Rightarrow> Inl e
      | Inr i \<Rightarrow> on_row kind (CHECKED_SET_VALUE (digest_setter digest) (Var_int i)) ctx)"

definition read_compact_field :: "dx_record_info_id \<Rightarrow> dx_field_digest \<Rightarrow> int32 \<Rightarrow> ('e data_ctx \<times> in_ctx, unit) io" where
  "read_compact_field kind digest repr =
     (if repr = dx_fid_flag_long \<or> repr = dx_fid_flag_time_millis then
        checked (on_input dx_read_compact_long) (\<lambda>l.
        on_context (on_row kind (CHECKED_SET_VALUE (digest_setter digest) (Var_long l))))
      else if repr = dx_fid_flag_wide_decimal then
        checked (on_input dx_read_compact_long) (\<lambda>l.
        on_context (set_double kind digest (dx_wide_decimal_long_to_double l)))
      else
        checked (on_input dx_read_compact_int) (\<lambda>i.
          if repr = dx_fid_flag_decimal then on_context (set_double kind digest (dx_decimal_int_to_double i))
          else on_context (on_row kind (CHECKED_SET_VALUE (digest_setter digest)
            (if is_decimal (local_type digest AND dx_fid_mask_representation) then Var_double (D_Num (of_int (sint i))) else Var_int i)))))"

definition read_field :: "(nat \<Rightarrow> bool) \<Rightarrow> dx_record_info_id \<Rightarrow> dx_field_digest \<Rightarrow> ('e data_ctx \<times> in_ctx, unit) io" where
  "read_field mem kind digest =
     (let serialization = digest_type digest AND dx_fid_mask_serialization;
          repr = digest_type digest AND dx_fid_mask_representation
      in if serialization = dx_fid_void then on_context (on_row kind (set_default digest))
         else if serialization = dx_fid_byte then
           checked (on_input dx_read_byte) (\<lambda>b. on_context (set_fixed kind digest repr (Var_byte b) (scast b)))
         else if serialization = dx_fid_utf_char then
           checked (on_input dx_read_utf_char) (\<lambda>c.
           on_context (on_row kind (CHECKED_SET_VALUE (digest_setter digest) (Var_char (ucast c)))))
         else if serialization = dx_fid_short then
           checked (on_input dx_read_short) (\<lambda>s. on_context (set_fixed kind digest repr (Var_short s) (scast s)))
         else if serialization = dx_fid_int then
           checked (on_input dx_read_int) (\<lambda>i. on_context (set_fixed kind digest repr (Var_int i) (scast i)))
         else if serialization = dx_fid_compact_int then read_compact_field kind digest repr
         else if serialization = dx_fid_byte_array then
           (if repr = dx_fid_flag_string then
              checked (read_c_string mem) (\<lambda>s.
              on_context (on_row kind (CHECKED_SET_VALUE (digest_setter digest) (Var_string s))))
            else
              checked (on_input (dx_read_byte_array mem)) (\<lambda>bs.
              on_context (on_row kind (CHECKED_SET_VALUE (digest_setter digest) (Var_bytes bs)))))
         else if serialization = dx_fid_utf_char_array then
           checked (on_input (dx_read_utf_char_array mem)) (\<lambda>s.
           on_context (on_row kind (CHECKED_SET_VALUE (digest_setter digest) (Var_string (map_option c_string s)))))
         else fail dx_pec_record_field_type_not_supported)"

definition lock_digests :: "'e data_ctx \<Rightarrow> 'e data_ctx" where
  "lock_digests ctx = ctx\<lparr>dscc := (dscc ctx)\<lparr>digests_guard := digests_guard (dscc ctx) + 1\<rparr>\<rparr>"

definition unlock_digests :: "'e data_ctx \<Rightarrow> 'e data_ctx" where
  "unlock_digests ctx = ctx\<lparr>dscc := (dscc ctx)\<lparr>digests_guard := digests_guard (dscc ctx) - 1\<rparr>\<rparr>"

text \<open>The loop over the digests of the fields, whose only error that unlocks the guard is that of the type.\<close>

fun read_fields :: "(nat \<Rightarrow> bool) \<Rightarrow> dx_record_info_id \<Rightarrow> dx_field_digest list \<Rightarrow> ('e data_ctx \<times> in_ctx, unit) io" where
  "read_fields mem kind [] = on_context (\<lambda>ctx. Inr (unlock_digests ctx))"
| "read_fields mem kind (d # ds) = (\<lambda>s.
     if digest_type d AND dx_fid_mask_serialization \<notin> {dx_fid_void, dx_fid_byte, dx_fid_utf_char, dx_fid_short, dx_fid_int,
         dx_fid_compact_int, dx_fid_byte_array, dx_fid_utf_char_array}
     then (Inl dx_pec_record_field_type_not_supported, unlock_digests (fst s), snd s)
     else checked (read_field mem kind d) (\<lambda>_. read_fields mem kind ds) s)"

fun set_time_fields :: "dx_field_info list \<Rightarrow> int32 \<Rightarrow> int32 \<Rightarrow> row \<Rightarrow> dx_error + row" where
  "set_time_fields [] high low r = Inr r"
| "set_time_fields (f # fs) high low r =
     (case (if field_time f = dx_ft_first_time_int_field then set_member f (Var_int high) r
            else if field_time f = dx_ft_second_time_int_field then set_member f (Var_int low) r
            else Inr r) of
        Inl e \<Rightarrow> Inl e
      | Inr r \<Rightarrow> set_time_fields fs high low r)"

definition dx_read_qdtime_on_remove_event :: "int \<Rightarrow> dx_record_info_id \<Rightarrow> ('e data_ctx \<times> in_ctx, unit) io" where
  "dx_read_qdtime_on_remove_event record_id kind = (\<lambda>(ctx, input).
     case dx_get_record_by_id record_id (dscc ctx) of
       None \<Rightarrow> (Inl dx_ec_invalid_func_param_internal, ctx, input)
     | Some info \<Rightarrow> checked (on_input dx_read_compact_long) (\<lambda>qdtime.
         on_context (on_row kind (set_time_fields (rec_fields info) (ucast (drop_bit 32 qdtime)) (ucast qdtime)))) (ctx, input))"

definition dx_read_records :: "(nat \<Rightarrow> bool) \<Rightarrow> int \<Rightarrow> dx_record_info_id \<Rightarrow> ('e data_ctx \<times> in_ctx, unit) io" where
  "dx_read_records mem record_id kind = (\<lambda>(ctx, input).
     if IS_FLAG_SET (last_flags ctx) dxf_ef_remove_event then dx_read_qdtime_on_remove_event record_id kind (ctx, input)
     else
       let ctx = lock_digests ctx in
       case dx_get_record_digest record_id (dscc ctx) of
         None \<Rightarrow> (Inl dx_ec_invalid_func_param_internal, unlock_digests ctx, input)
       | Some digest \<Rightarrow> read_fields mem kind (digest_fields digest) (ctx, input))"

text \<open>
  The getters store the members in \<open>high\<close> and \<open>low\<close>, which are \<open>unsigned long long\<close>, with little end first.
\<close>

fun store_in_long :: "field_value \<Rightarrow> long64 \<Rightarrow> long64 option" where
  "store_in_long (F_char c) l = Some ((l AND NOT (mask 16)) OR ucast c)"
| "store_in_long (F_int i) l = Some ((l AND NOT (mask 32)) OR ucast i)"
| "store_in_long (F_long v) l = Some v"
| "store_in_long _ l = None"

fun time_parts :: "dx_field_info list \<Rightarrow> row \<Rightarrow> long64 \<Rightarrow> long64 \<Rightarrow> (long64 \<times> long64) option" where
  "time_parts [] r high low = Some (high, low)"
| "time_parts (f # fs) r high low =
     (if field_time f = dx_ft_first_time_int_field then
        (case store_in_long (member_value (getter_type f) (field_member f) r) high of
           None \<Rightarrow> None | Some high \<Rightarrow> time_parts fs r high low)
      else if field_time f = dx_ft_second_time_int_field then
        (case store_in_long (member_value (getter_type f) (field_member f) r) low of
           None \<Rightarrow> None | Some low \<Rightarrow> time_parts fs r high low)
      else time_parts fs r high low)"

definition dx_get_time_int_field :: "int \<Rightarrow> record_ctx \<Rightarrow> row \<Rightarrow> dx_error + long64" where
  "dx_get_time_int_field record_id ctx r =
     (case dx_get_record_by_id record_id ctx of
        None \<Rightarrow> Inr (- 1)
      | Some info \<Rightarrow> (case time_parts (rec_fields info) r 0 0 of
          None \<Rightarrow> Inl UB | Some (high, low) \<Rightarrow> Inr (push_bit 32 high OR (low AND 0xFFFFFFFF))))"

section \<open>Data messages\<close>

text \<open>\<open>dx_free_buffers\<close> frees the strings and arrays that have been stored; the rows keep the pointers.\<close>

fun freed :: "field_value \<Rightarrow> field_value" where
  "freed (F_string (Some s)) = F_dangling"
| "freed (F_bytes (b # bs)) = F_dangling"
| "freed v = v"

definition dx_free_buffers :: "'e data_ctx \<Rightarrow> 'e data_ctx" where
  "dx_free_buffers ctx = ctx\<lparr>rows := (\<lambda>kind. map_option (\<lambda>r member. map_option freed (r member)) (rows ctx kind))\<rparr>"

definition free_on_error :: "('e data_ctx \<times> in_ctx, 'a) io \<Rightarrow> ('e data_ctx \<times> in_ctx, 'a) io" where
  "free_on_error m = (\<lambda>s. case m s of (Inl e, ctx, input) \<Rightarrow> (Inl e, dx_free_buffers ctx, input) | (Inr v, s) \<Rightarrow> (Inr v, s))"

text \<open>The record that a number of the server stands for, when its description has been received.\<close>

definition find_described_record :: "int32 \<Rightarrow> ('e data_ctx, int) io" where
  "find_described_record server_id = (\<lambda>ctx.
     let record_id = dx_get_record_id server_id (dscc ctx) in
     if record_id < 0 then (Inl dx_pec_record_not_supported, ctx)
     else case dx_get_record_digest record_id (dscc ctx) of
       None \<Rightarrow> (Inl dx_ec_invalid_func_param_internal, ctx)
     | Some digest \<Rightarrow>
         if \<not> in_sync_with_server digest then (Inl dx_pec_record_description_not_received, ctx)
         else (Inr record_id, ctx))"

text \<open>\<open>record_getter\<close> of the row buffers: the row of a kind is allocated, full of zeros, when it is first needed.\<close>

definition get_row :: "(nat \<Rightarrow> bool) \<Rightarrow> dx_record_info_id \<Rightarrow> ('e data_ctx, unit) io" where
  "get_row mem kind = (\<lambda>ctx.
     if rows ctx kind \<noteq> None then (Inr (), ctx)
     else if mem 1 then (Inr (), ctx\<lparr>rows := (rows ctx)(kind \<mapsto> Map.empty)\<rparr>)
     else (Inl dx_ec_success, ctx))"

text \<open>The transcoder may change the data structures, the row (for theoretical prices it does) and the state of the receiver of events.\<close>

type_synonym 'e transcoder = "dx_record_params \<Rightarrow> dxf_event_params \<Rightarrow> (record_ctx \<times> row \<times> 'e, unit) io"

definition transcode_row :: "(dxf_char list \<Rightarrow> long64) \<Rightarrow> 'e transcoder \<Rightarrow> int \<Rightarrow> dx_record_item \<Rightarrow> ('e data_ctx, unit) io" where
  "transcode_row symbol_hash transcode record_id info = (\<lambda>ctx.
     case (rows ctx (rec_info_id info), last_symbol ctx) of
       (Some r, Some symbol) \<Rightarrow>
         (case dx_get_time_int_field record_id (dscc ctx) r of
            Inl e \<Rightarrow> (Inl e, ctx)
          | Inr time \<Rightarrow>
              let suffix = (if length (rec_suffix info) > 0 then Some (rec_suffix info) else None);
                  params = \<lparr>rp_record_id = record_id, rp_record_info_id = rec_info_id info, rp_suffix = suffix,
                    rp_symbol_name = Some symbol, rp_symbol_cipher = last_cipher ctx, rp_flags = last_flags ctx, rp_time_int_field = time\<rparr>;
                  event_params = \<lparr>ep_flags = last_flags ctx, ep_time_int_field = time,
                    ep_snapshot_key = dx_new_snapshot_key symbol_hash (rec_info_id info) symbol suffix\<rparr>
              in (case transcode params event_params (dscc ctx, r, receiver ctx) of
                    (res, ds, r, e) \<Rightarrow> (res, ctx\<lparr>dscc := ds, rows := (rows ctx)(rec_info_id info \<mapsto> r), receiver := e\<rparr>)))
     | _ \<Rightarrow> (Inl UB, ctx))"

definition process_record :: "(nat \<Rightarrow> bool) \<Rightarrow> (dxf_char list \<Rightarrow> long64) \<Rightarrow> 'e transcoder \<Rightarrow> ('e data_ctx \<times> in_ctx, unit) io" where
  "process_record mem symbol_hash transcode =
     checked (dx_read_symbol mem) (\<lambda>_.
     checked (on_first (decode_last_symbol mem)) (\<lambda>_.
     checked (free_on_error (on_input dx_read_compact_int)) (\<lambda>server_id.
     checked (free_on_error (on_first (find_described_record server_id))) (\<lambda>record_id (ctx, input).
       case dx_get_record_by_id record_id (dscc ctx) of
         None \<Rightarrow> (Inl dx_ec_success, ctx, input)
       | Some info \<Rightarrow>
           free_on_error (
             checked (on_first (get_row mem (rec_info_id info))) (\<lambda>_.
             checked (dx_read_records mem record_id (rec_info_id info)) (\<lambda>_.
             checked (on_first (transcode_row symbol_hash transcode record_id info)) (\<lambda>_.
             on_context (\<lambda>ctx. Inr (dx_free_buffers ctx)))))) (ctx, input)))))"

fun process_records :: "nat \<Rightarrow> (nat \<Rightarrow> bool) \<Rightarrow> (dxf_char list \<Rightarrow> long64) \<Rightarrow> 'e transcoder \<Rightarrow> 'e data_ctx \<times> in_ctx
    \<Rightarrow> ((dx_error + unit) \<times> 'e data_ctx \<times> in_ctx) option" where
  "process_records 0 mem symbol_hash transcode s = None"
| "process_records (Suc fuel) mem symbol_hash transcode (ctx, input) =
     (if current_in_buffer_position input < in_buffer_limit input then
        (case process_record mem symbol_hash transcode (ctx, input) of
           (Inl e, s) \<Rightarrow> Some (Inl e, s)
         | (Inr _, s) \<Rightarrow> process_records fuel mem symbol_hash transcode s)
      else Some (Inr (), ctx, input))"

text \<open>As for descriptions, the loop has a round for each byte and one more, and \<open>process_records_total\<close> shows that it ends.\<close>

definition dx_process_data_message :: "(nat \<Rightarrow> bool) \<Rightarrow> (dxf_char list \<Rightarrow> long64) \<Rightarrow> 'e transcoder \<Rightarrow> ('e data_ctx \<times> in_ctx, unit) io" where
  "dx_process_data_message mem symbol_hash transcode = (\<lambda>(ctx, input).
     case process_records (Suc (nat (in_buffer_limit input - current_in_buffer_position input))) mem symbol_hash transcode
         (ctx\<lparr>last_cipher := 0, last_symbol := None, last_flags := 0, mru_flags := dxf_ef_tx_pending\<rparr>, input) of
       None \<Rightarrow> (Inl UB, ctx, input)
     | Some result \<Rightarrow> result)"

end
