(* ===== verification/Dx_Describe_Spec.thy ===== *)
theory Dx_Describe_Spec
  imports Dx_Describe
begin

text \<open>
  What the descriptions of records do: the bytes of a description, its effect on the numbers, the digests
  and the support states of the records, and what is wrong with a second description and a reconnection.
\<close>

section \<open>The bytes of a description\<close>

type_synonym field_description = "dxf_char list \<times> int32"
type_synonym record_description = "int32 \<times> dxf_char list \<times> field_description list"

definition field_bytes :: "field_description \<Rightarrow> byte list" where
  "field_bytes f = string_bytes (fst f) @ compact_int_bytes (snd f)"

definition record_bytes :: "record_description \<Rightarrow> byte list" where
  "record_bytes d = (case d of (server_id, name, fs) \<Rightarrow>
     compact_int_bytes server_id @ string_bytes name @ compact_int_bytes (word_of_nat (length fs)) @ concat (map field_bytes fs))"

definition field_ok :: "field_description \<Rightarrow> bool" where
  "field_ok f \<longleftrightarrow> string_ok (fst f) \<and> fst f \<noteq> [] \<and> 0 \<le> sint (snd f) \<and> sint (snd f) \<le> MAX_FIELD_TYPE_ID"

text \<open>The number of fields leaves room for the fields of the client, of which no record has more than a thousand.\<close>

definition record_ok :: "record_description \<Rightarrow> bool" where
  "record_ok d \<longleftrightarrow> string_ok (fst (snd d)) \<and> fst (snd d) \<noteq> [] \<and> int (length (snd (snd d))) + 1000 \<le> INT_MAX
     \<and> list_all field_ok (snd (snd d))"

section \<open>What a description does\<close>

definition field_digest :: "dx_record_item \<Rightarrow> field_description \<Rightarrow> dx_field_digest" where
  "field_digest info f =
     (let i = dx_find_record_field info (fst f) (snd f) in
      if i = INVALID_INDEX then \<lparr>digest_type = snd f, local_type = 0, digest_setter = None, digest_default = None\<rparr>
      else \<lparr>digest_type = snd f, local_type = field_type (rec_fields info ! nat i), digest_setter = Some (rec_fields info ! nat i),
        digest_default = None\<rparr>)"

definition default_digest :: "dx_field_info \<Rightarrow> dx_field_digest" where
  "default_digest f = \<lparr>digest_type = 0, local_type = 0, digest_setter = Some f, digest_default = Some f\<rparr>"

definition field_bit :: "dx_record_item \<Rightarrow> field_description \<Rightarrow> int32" where
  "field_bit info f =
     (let i = dx_find_record_field info (fst f) (snd f) in if i = INVALID_INDEX then 0 else INDEX_BITMASK (nat i))"

definition support :: "dx_record_item \<Rightarrow> field_description list \<Rightarrow> int32 \<Rightarrow> int32" where
  "support info fs state = fold (\<lambda>f state. state OR field_bit info f) fs state"

fun defaults :: "int32 \<Rightarrow> nat \<Rightarrow> dx_field_info list \<Rightarrow> dx_field_digest list" where
  "defaults state i [] = []"
| "defaults state i (f # fs) =
     (if state AND INDEX_BITMASK i \<noteq> 0 then defaults state (i + 1) fs else default_digest f # defaults state (i + 1) fs)"

abbreviation digest_at :: "record_ctx \<Rightarrow> nat \<Rightarrow> dx_record_digest" where
  "digest_at ctx rid \<equiv> elements (record_digests ctx) ! rid"

abbreviation state_at :: "record_ctx \<Rightarrow> nat \<Rightarrow> int32" where
  "state_at ctx rid \<equiv> elements (server_support_states ctx) ! rid"

abbreviation record_at :: "record_ctx \<Rightarrow> nat \<Rightarrow> dx_record_item" where
  "record_at ctx rid \<equiv> elements (records_list ctx) ! rid"

definition has_record :: "nat \<Rightarrow> record_ctx \<Rightarrow> bool" where
  "has_record rid ctx \<longleftrightarrow> rid < arr_size (records_list ctx) \<and> rid < arr_size (server_support_states ctx)
     \<and> rid < arr_size (record_digests ctx) \<and> rid < length (elements (records_list ctx))
     \<and> rid < length (elements (server_support_states ctx)) \<and> rid < length (elements (record_digests ctx))"

lemma has_record_of_inv: "records_inv ctx \<Longrightarrow> rid < arr_size (records_list ctx) \<Longrightarrow> has_record rid ctx"
  by (auto simp: has_record_def records_inv_def wf_array_def)

lemma get_digest: "has_record rid ctx \<Longrightarrow> dx_get_record_digest (int rid) ctx = Some (digest_at ctx rid)"
  by (auto simp: dx_get_record_digest_def has_record_def)

lemma get_state: "has_record rid ctx \<Longrightarrow> dx_get_record_server_support_state_value (int rid) ctx = Some (state_at ctx rid)"
  by (auto simp: dx_get_record_server_support_state_value_def has_record_def)

lemma get_record: "has_record rid ctx \<Longrightarrow> dx_get_record_by_id (int rid) ctx = Some (record_at ctx rid)"
  by (auto simp: dx_get_record_by_id_def dx_validate_record_id_def has_record_def)

text \<open>The digest and the support state of one record changed.\<close>

definition put :: "nat \<Rightarrow> dx_record_digest \<Rightarrow> int32 \<Rightarrow> record_ctx \<Rightarrow> record_ctx" where
  "put rid digest state ctx = set_digest (int rid) digest (set_support_state (int rid) state ctx)"

lemma put_put [simp]: "put rid d s (put rid d' s' ctx) = put rid d s ctx"
  by (simp add: put_def set_digest_def set_support_state_def)

lemma put_same: "put rid (digest_at ctx rid) (state_at ctx rid) ctx = ctx"
  by (simp add: put_def set_digest_def set_support_state_def)

lemma set_digest_put: "set_digest (int rid) d (put rid d' s ctx) = put rid d s ctx"
  by (simp add: put_def set_digest_def)

lemma set_state_put: "set_support_state (int rid) s (put rid d s' ctx) = put rid d s ctx"
  by (simp add: put_def set_digest_def set_support_state_def)

lemma put_simps [simp]:
  "has_record rid (put r d s ctx) = has_record rid ctx" "records_list (put r d s ctx) = records_list ctx"
  "frequent_ids (put r d s ctx) = frequent_ids ctx" "id_map (put r d s ctx) = id_map ctx"
  "new_record_id (put r d s ctx) = new_record_id ctx" "digests_guard (put r d s ctx) = digests_guard ctx"
  by (simp_all add: put_def set_digest_def set_support_state_def has_record_def)

lemma put_at [simp]:
  assumes "has_record r ctx"
  shows "digest_at (put r d s ctx) rid = (if rid = r then d else digest_at ctx rid)"
    "state_at (put r d s ctx) rid = (if rid = r then s else state_at ctx rid)"
  using assms by (auto simp: put_def set_digest_def set_support_state_def has_record_def nth_list_update)

lemma takes_on_first: "m h = (Inr v, h') \<Longrightarrow> takes (on_first m) [] h v h'"
  by (simp add: takes_def on_first_def advance_zero)

lemma takes_weaken: "takes m bs h v h' \<Longrightarrow> bs = bs' \<Longrightarrow> h' = h'' \<Longrightarrow> takes m bs' h v h''"
  by simp

lemma takes_compact_int: "takes (on_input dx_read_compact_int) (compact_int_bytes v) h v h"
  by (intro takes_on_input receives_compact_int)

lemma find_field_index: "find_field fs i name type = INVALID_INDEX \<or> (\<exists>k < length fs. find_field fs i name type = int (i + k))"
proof (induction fs i name type rule: find_field.induct)
  case (2 f fs i name type)
  show ?case
  proof (cases "find_field (f # fs) i name type = int i")
    case True
    then show ?thesis by (intro disjI2 exI [of _ 0]) simp
  next
    case False
    then have e: "find_field (f # fs) i name type = find_field fs (i + 1) name type"
      and n: "\<not> (dx_compare_strings (field_name f) name = 0 \<and> field_type f AND dx_fid_mask_serialization = type AND dx_fid_mask_serialization)"
      by (auto split: if_splits)
    from 2 [OF n] show ?thesis unfolding e
    proof
      assume "\<exists>k < length fs. find_field fs (i + 1) name type = int (i + 1 + k)"
      then obtain k where "k < length fs" "find_field fs (i + 1) name type = int (i + 1 + k)" by blast
      then show "find_field fs (i + 1) name type = INVALID_INDEX \<or> (\<exists>k < length (f # fs). find_field fs (i + 1) name type = int (i + k))"
        by (intro disjI2 exI [of _ "k + 1"]) simp
    qed simp
  qed
qed simp

lemma field_index:
  "dx_find_record_field info name type = INVALID_INDEX \<or>
    (\<exists>k < length (rec_fields info). dx_find_record_field info name type = int k)"
  using find_field_index [of "rec_fields info" 0 name type] by (simp add: dx_find_record_field_def)

lemma takes_create_field:
  assumes r: "has_record rid ctx" and ok: "field_ok f"
  shows "takes (dx_create_field_digest all_mem (int rid) (Some info)) (field_bytes f) ctx (Some (field_digest info f))
    (put rid (digest_at ctx rid) (state_at ctx rid OR field_bit info f) ctx)"
  unfolding dx_create_field_digest_def field_bytes_def
proof (rule takes_seq [OF takes_c_string takes_seq [where ys = "[]", simplified, OF takes_compact_int]])
  show "string_ok (fst f)" using ok by (simp add: field_ok_def)
  let ?i = "dx_find_record_field info (fst f) (snd f)"
  have pos: "int k \<noteq> INVALID_INDEX" for k by (simp add: INVALID_INDEX_def)
  show "takes (case Some (fst f) of None \<Rightarrow> fail dx_pec_descr_record_field_info_corrupted
     | Some name \<Rightarrow>
         if length name = 0 \<or> sint (snd f) < MIN_FIELD_TYPE_ID \<or> MAX_FIELD_TYPE_ID < sint (snd f)
         then fail dx_pec_descr_record_field_info_corrupted
         else case Some info of None \<Rightarrow> return None
           | Some info \<Rightarrow> let field_index = dx_find_record_field info name (snd f) in
               if \<not> all_mem 1 then fail UB
               else if field_index = INVALID_INDEX
               then return (Some \<lparr>digest_type = snd f, local_type = 0, digest_setter = None, digest_default = None\<rparr>)
               else let field = rec_fields info ! nat field_index
                 in checked (on_context (add_support (int rid) (nat field_index)))
                     (\<lambda>_. return (Some \<lparr>digest_type = snd f, local_type = field_type field, digest_setter = Some field, digest_default = None\<rparr>)))
     [] ctx (Some (field_digest info f)) (put rid (digest_at ctx rid) (state_at ctx rid OR field_bit info f) ctx)"
  proof (cases "?i = INVALID_INDEX")
    case True
    then show ?thesis using ok
      by (simp add: field_ok_def MIN_FIELD_TYPE_ID_def field_bit_def field_digest_def put_same takes_return)
  next
    case False
    have "add_support (int rid) (nat ?i) ctx = Inr (put rid (digest_at ctx rid) (state_at ctx rid OR INDEX_BITMASK (nat ?i)) ctx)"
      using r by (simp add: add_support_def get_state put_def set_digest_def set_support_state_def)
    note c = takes_on_context [where f = "add_support (int rid) (nat ?i)", OF this]
    from takes_seq_Nil [OF c takes_return] False ok show ?thesis
      by (simp add: field_ok_def MIN_FIELD_TYPE_ID_def field_bit_def field_digest_def Let_def)
  qed
qed

lemma append_digest_spec:
  assumes "has_record rid ctx" "length (digest_fields (digest_at ctx rid)) < digest_slots (digest_at ctx rid)"
  shows "append_digest (int rid) f ctx = (Inr (), put rid ((digest_at ctx rid)\<lparr>digest_fields := digest_fields (digest_at ctx rid) @ [f]\<rparr>)
    (state_at ctx rid) ctx)"
  using assms by (simp add: append_digest_def get_digest put_def set_digest_def set_support_state_def)

lemma takes_fill_fields:
  assumes "has_record rid ctx" "list_all field_ok fs"
    "length (digest_fields (digest_at ctx rid)) + length fs \<le> digest_slots (digest_at ctx rid)"
  shows "takes (fill_fields all_mem (int rid) (Some info) (length fs)) (concat (map field_bytes fs)) ctx ()
    (put rid ((digest_at ctx rid)\<lparr>digest_fields := digest_fields (digest_at ctx rid) @ map (field_digest info) fs\<rparr>)
       (support info fs (state_at ctx rid)) ctx)"
  using assms
proof (induction fs arbitrary: ctx)
  case Nil
  then show ?case by (simp add: takes_return support_def put_same)
next
  case (Cons f fs)
  let ?d = "digest_at ctx rid" and ?s = "state_at ctx rid OR field_bit info f"
  let ?c = "put rid ?d ?s ctx"
  let ?d1 = "?d\<lparr>digest_fields := digest_fields ?d @ [field_digest info f]\<rparr>"
  have a: "takes (dx_create_field_digest all_mem (int rid) (Some info)) (field_bytes f) ctx (Some (field_digest info f)) ?c"
    using Cons.prems by (intro takes_create_field) simp_all
  have st: "store_field_digest (int rid) (Some (field_digest info f)) ?c = (Inr (), put rid ?d1 ?s ctx)"
    using Cons.prems by (simp add: store_field_digest_def append_digest_spec)
  have "takes (fill_fields all_mem (int rid) (Some info) (length fs)) (concat (map field_bytes fs)) (put rid ?d1 ?s ctx) ()
      (put rid (?d1\<lparr>digest_fields := digest_fields ?d1 @ map (field_digest info) fs\<rparr>) (support info fs ?s) (put rid ?d1 ?s ctx))"
    using Cons.IH [of "put rid ?d1 ?s ctx"] Cons.prems by simp
  then have k: "takes (fill_fields all_mem (int rid) (Some info) (length fs)) (concat (map field_bytes fs)) (put rid ?d1 ?s ctx) ()
      (put rid (?d\<lparr>digest_fields := digest_fields ?d @ field_digest info f # map (field_digest info) fs\<rparr>) (support info (f # fs) (state_at ctx rid)) ctx)"
    by (simp add: support_def)
  show ?case unfolding list.size fill_fields.simps Suc_eq_plus1 [symmetric] list.map concat.simps add_0_right add_Suc_right
    by (rule takes_seq [OF a], rule takes_seq_Nil, rule takes_on_first, rule st, rule k)
qed

lemma length_defaults: "length (defaults st i fs) \<le> length fs"
  by (induction st i fs rule: defaults.induct) (simp_all add: le_SucI)

lemma unsupported_spec:
  assumes "has_record rid ctx" "length (digest_fields (digest_at ctx rid)) + length fs \<le> digest_slots (digest_at ctx rid)"
  shows "digest_unsupported all_mem (int rid) fs i ctx = (Inr (), put rid
    ((digest_at ctx rid)\<lparr>digest_fields := digest_fields (digest_at ctx rid) @ defaults (state_at ctx rid) i fs\<rparr>) (state_at ctx rid) ctx)"
  using assms
proof (induction fs arbitrary: i ctx)
  case Nil
  then show ?case by (simp add: return_def put_same)
next
  case (Cons f fs)
  show ?case
  proof (cases "state_at ctx rid AND INDEX_BITMASK i = 0")
    case True
    let ?d = "digest_at ctx rid"
    let ?c = "put rid (?d\<lparr>digest_fields := digest_fields ?d @ [default_digest f]\<rparr>) (state_at ctx rid) ctx"
    have "append_digest (int rid) (default_digest f) ctx = (Inr (), ?c)" using append_digest_spec Cons.prems by simp
    moreover have "digest_unsupported all_mem (int rid) fs (i + 1) ?c = (Inr (), put rid
        (?d\<lparr>digest_fields := digest_fields ?d @ default_digest f # defaults (state_at ctx rid) (i + 1) fs\<rparr>) (state_at ctx rid) ctx)"
      using Cons.IH [of ?c "i + 1"] Cons.prems by simp
    ultimately show ?thesis using True Cons.prems by (simp add: get_state checked_def default_digest_def)
  next
    case False
    then show ?thesis using Cons by (simp add: get_state)
  qed
qed

text \<open>The digest and the support state of a record after its description.\<close>

definition digest_of :: "dx_record_item \<Rightarrow> field_description list \<Rightarrow> int32 \<Rightarrow> dx_record_digest" where
  "digest_of info fs state =
     \<lparr>digest_fields = map (field_digest info) fs @ defaults state 0 (rec_fields info),
      digest_slots = length fs + length (rec_fields info), in_sync_with_server = True\<rparr>"

definition described_record :: "nat \<Rightarrow> field_description list \<Rightarrow> record_ctx \<Rightarrow> record_ctx" where
  "described_record rid fs ctx =
     (let info = record_at ctx rid; state = support info fs (state_at ctx rid)
      in put rid (digest_of info fs state) state ctx)"

lemma takes_fill_digest:
  assumes r: "has_record rid ctx" and ok: "list_all field_ok fs" and info: "info = record_at ctx rid"
    and d: "digest_at ctx rid = dx_init_record_digest\<lparr>digest_slots := length fs + length (rec_fields info)\<rparr>"
  shows "takes (dx_fill_record_digest all_mem (int rid) (Some info) (length fs)) (concat (map field_bytes fs)) ctx ()
    (described_record rid fs ctx)"
proof -
  let ?d0 = "dx_init_record_digest\<lparr>digest_slots := length fs + length (rec_fields info)\<rparr>"
  let ?s = "support info fs (state_at ctx rid)"
  let ?d1 = "?d0\<lparr>digest_fields := map (field_digest info) fs\<rparr>"
  let ?d2 = "?d0\<lparr>digest_fields := map (field_digest info) fs @ defaults ?s 0 (rec_fields info)\<rparr>"
  let ?c1 = "put rid ?d1 ?s ctx" and ?c2 = "put rid ?d2 ?s ctx"
  have a: "takes (fill_fields all_mem (int rid) (Some info) (length fs)) (concat (map field_bytes fs)) ctx () ?c1"
    using takes_fill_fields [OF r ok, of info] d by (simp add: dx_init_record_digest_def)
  have b: "dx_digest_unsupported_fields all_mem (int rid) (Some info) ?c1 = (Inr (), ?c2)"
    using unsupported_spec [of rid ?c1 "rec_fields info" 0] r
    by (simp add: dx_digest_unsupported_fields_def get_digest dx_init_record_digest_def)
  have c: "mark_in_sync (int rid) ?c2 = (Inr (), put rid (?d2\<lparr>in_sync_with_server := True\<rparr>) ?s ctx)"
    using r by (simp add: mark_in_sync_def get_digest set_digest_put)
  have "?d2\<lparr>in_sync_with_server := True\<rparr> = digest_of info fs ?s" by (simp add: digest_of_def dx_init_record_digest_def)
  then have e: "put rid (?d2\<lparr>in_sync_with_server := True\<rparr>) ?s ctx = described_record rid fs ctx"
    using info by (simp add: described_record_def Let_def)
  have "takes (checked (on_first (dx_digest_unsupported_fields all_mem (int rid) (Some info))) (\<lambda>_. on_first (mark_in_sync (int rid))))
      [] ?c1 () (described_record rid fs ctx)"
    by (rule takes_seq_Nil, rule takes_on_first, rule b, rule takes_on_first, rule c [unfolded e])
  from takes_seq [OF a, of "\<lambda>_. checked (on_first (dx_digest_unsupported_fields all_mem (int rid) (Some info))) (\<lambda>_. on_first (mark_in_sync (int rid)))", OF this]
  show ?thesis unfolding dx_fill_record_digest_def by simp
qed

lemma takes_fill_unknown:
  assumes ok: "list_all field_ok fs"
  shows "takes (dx_fill_record_digest all_mem DX_RECORD_ID_INVALID None (length fs)) (concat (map field_bytes fs)) ctx () ctx"
proof -
  have "takes (fill_fields all_mem DX_RECORD_ID_INVALID None (length fs)) (concat (map field_bytes fs)) ctx () ctx"
    using ok
  proof (induction fs)
    case Nil
    then show ?case by (simp add: takes_return)
  next
    case (Cons f fs)
    have "takes (dx_create_field_digest all_mem DX_RECORD_ID_INVALID None) (field_bytes f) ctx None ctx"
      unfolding dx_create_field_digest_def field_bytes_def
      by (rule takes_seq [OF takes_c_string takes_seq [where ys = "[]", simplified, OF takes_compact_int]])
        (use Cons.prems in \<open>simp_all add: field_ok_def MIN_FIELD_TYPE_ID_def takes_return\<close>)
    moreover have "takes (on_first (store_field_digest DX_RECORD_ID_INVALID None)) [] ctx () ctx"
      by (rule takes_on_first) (simp add: store_field_digest_def return_def)
    moreover have "takes (fill_fields all_mem DX_RECORD_ID_INVALID None (length fs)) (concat (map field_bytes fs)) ctx () ctx"
      using Cons by simp
    ultimately show ?case by (auto intro: takes_seq takes_seq_Nil)
  qed
  moreover have "takes (on_first (dx_digest_unsupported_fields all_mem DX_RECORD_ID_INVALID None)) [] ctx () ctx"
    "takes (on_first (mark_in_sync DX_RECORD_ID_INVALID)) [] ctx () ctx"
    by (rule takes_on_first, simp add: dx_digest_unsupported_fields_def mark_in_sync_def DX_RECORD_ID_INVALID_def return_def)+
  ultimately show ?thesis unfolding dx_fill_record_digest_def
    using takes_seq [of _ "concat (map field_bytes fs)" _ _ _ _ "[]"] takes_seq_Nil by (metis append_Nil2)
qed

section \<open>A description of one record\<close>

definition records_ok :: "record_ctx \<Rightarrow> bool" where
  "records_ok ctx \<longleftrightarrow> records_inv ctx \<and> ids_inv ctx \<and> (\<forall>item \<in> set (contents (records_list ctx)). length (rec_fields item) \<le> 1000)"

definition record_index :: "dxf_char list \<Rightarrow> record_ctx \<Rightarrow> nat option" where
  "record_index name ctx = (case dx_get_record_id_by_name name ctx of
     Inl _ \<Rightarrow> None | Inr i \<Rightarrow> if i = DX_RECORD_ID_INVALID then None else Some (nat i))"

lemma record_at_contents:
  "records_inv ctx \<Longrightarrow> rid < arr_size (records_list ctx) \<Longrightarrow> contents (records_list ctx) ! rid = record_at ctx rid \<and>
    record_at ctx rid \<in> set (contents (records_list ctx))"
  by (auto simp: records_inv_def contents_def wf_array_def in_set_conv_nth intro!: exI [of _ rid])

lemma record_index_cases:
  assumes inv: "records_inv ctx"
  obtains rid where "dx_get_record_id_by_name name ctx = Inr (int rid)" "record_index name ctx = Some rid"
      "rid < arr_size (records_list ctx)" "rec_name (record_at ctx rid) = Some name"
      "\<And>r. r < arr_size (records_list ctx) \<Longrightarrow> rec_name (record_at ctx r) = Some name \<longleftrightarrow> r = rid"
  | "dx_get_record_id_by_name name ctx = Inr DX_RECORD_ID_INVALID" "record_index name ctx = None"
      "\<And>r. r < arr_size (records_list ctx) \<Longrightarrow> rec_name (record_at ctx r) \<noteq> Some name"
proof -
  let ?items = "contents (records_list ctx)"
  have n: "\<forall>item \<in> set ?items. rec_name item \<noteq> None" and dist: "distinct (map rec_name ?items)"
    and len: "length ?items = arr_size (records_list ctx)"
    using inv length_contents [of "records_list ctx"] by (simp_all add: records_inv_def)
  obtain found k where f: "find_name ?items 0 name = Inr (found, k)" "k \<le> length ?items"
    "found \<longrightarrow> k < length ?items \<and> rec_name (?items ! k) = Some name"
    "\<not> found \<longrightarrow> k = length ?items \<and> Some name \<notin> rec_name ` set ?items" using find_name_spec [OF n, of 0 name] by auto
  show thesis
  proof (cases found)
    case True
    have g: "dx_get_record_id_by_name name ctx = Inr (int k)" using f(1) True by (simp add: dx_get_record_id_by_name_def)
    have k: "k < arr_size (records_list ctx)" "rec_name (?items ! k) = Some name" using f(3) True len by simp_all
    have u: "rec_name (record_at ctx r) = Some name \<longleftrightarrow> r = k" if "r < arr_size (records_list ctx)" for r
    proof
      assume "rec_name (record_at ctx r) = Some name"
      then have "map rec_name ?items ! r = map rec_name ?items ! k" using k record_at_contents [OF inv that] len that by simp
      then show "r = k" using dist k(1) that len by (simp add: distinct_conv_nth) metis
    next
      assume "r = k"
      then show "rec_name (record_at ctx r) = Some name" using k record_at_contents [OF inv that] by simp
    qed
    show thesis
      by (rule that(1) [OF g _ k(1) _ u]) (use k record_at_contents [OF inv k(1)] g in \<open>simp_all add: record_index_def DX_RECORD_ID_INVALID_def\<close>)
  next
    case False
    then have "rec_name (record_at ctx r) \<noteq> Some name" if "r < arr_size (records_list ctx)" for r
      using f(4) record_at_contents [OF inv that] by (auto simp: image_iff)
    moreover have "dx_get_record_id_by_name name ctx = Inr DX_RECORD_ID_INVALID" using f(1) False by (simp add: dx_get_record_id_by_name_def)
    ultimately show thesis using that(2) by (simp add: record_index_def)
  qed
qed

lemma assign_succeeds:
  assumes inv: "ids_inv ctx"
  obtains ids m where "dx_assign_server_record_id all_mem r s ctx = (Inr (), ctx\<lparr>frequent_ids := ids, id_map := m\<rparr>)"
    "ids_inv (ctx\<lparr>frequent_ids := ids, id_map := m\<rparr>)"
    "\<And>s'. dx_get_record_id s' (ctx\<lparr>frequent_ids := ids, id_map := m\<rparr>) = (if s' = s then r else dx_get_record_id s' ctx)"
proof -
  obtain res ctx' where e: "dx_assign_server_record_id all_mem r s ctx = (res, ctx')" by fastforce
  have "\<exists>u. res = Inr u"
  proof (cases "is_frequent s")
    case True
    then show ?thesis using e by (auto simp: dx_assign_server_record_id_def)
  next
    case False
    let ?p = "\<lparr>server_record_id = s, local_record_id = r\<rparr>"
    obtain found idx where d: "DX_ARRAY_BINARY_SEARCH (elements (id_map ctx)) 0 (arr_size (id_map ctx)) ?p RECORD_ID_PAIR_COMPARATOR = (found, idx)"
      by fastforce
    show ?thesis
    proof (cases found)
      case True
      then show ?thesis using e False d by (auto simp: dx_assign_server_record_id_def DX_ARRAY_SEARCH_def Let_def)
    next
      case nf: False
      have "idx \<le> arr_size (id_map ctx)" using id_search_spec(2) [OF inv d nf] by blast
      moreover have "wf_array (id_map ctx)" using inv by (simp add: ids_inv_def)
      ultimately obtain m where "DX_ARRAY_INSERT all_mem null_id_pair ?p idx dx_capacity_manager_halfer (id_map ctx) = (Inr (), m)"
        using halfer.insert_succeeds [of "id_map ctx" idx null_id_pair ?p] by blast
      then show ?thesis using e False d nf by (auto simp: dx_assign_server_record_id_def DX_ARRAY_SEARCH_def Let_def on_id_map_def)
    qed
  qed
  then have "res = Inr ()" by auto
  with assign_spec [OF inv e] e that show thesis by auto
qed

text \<open>The effect of a description on the context.\<close>

definition describes :: "record_description \<Rightarrow> record_ctx \<Rightarrow> record_ctx \<Rightarrow> bool" where
  "describes d ctx ctx' \<longleftrightarrow> records_ok ctx' \<and> records_list ctx' = records_list ctx
     \<and> (\<forall>s. dx_get_record_id s ctx' = (case record_index (fst (snd d)) ctx of
          Some rid \<Rightarrow> if s = fst d then int rid else dx_get_record_id s ctx | None \<Rightarrow> dx_get_record_id s ctx))
     \<and> (\<forall>rid < arr_size (records_list ctx).
          let info = record_at ctx rid; state = support info (snd (snd d)) (state_at ctx rid) in
          if rec_name info = Some (fst (snd d)) then digest_at ctx' rid = digest_of info (snd (snd d)) state \<and> state_at ctx' rid = state
          else digest_at ctx' rid = digest_at ctx rid \<and> state_at ctx' rid = state_at ctx rid)"

lemma has_record_ids [simp]: "has_record rid (ctx\<lparr>frequent_ids := ids, id_map := m\<rparr>) = has_record rid ctx"
  by (simp add: has_record_def)

lemma records_inv_put [simp]: "records_inv (put r d s ctx) = records_inv ctx"
  by (auto simp: put_def set_digest_def set_support_state_def records_inv_def wf_array_def contents_def)

lemma ids_inv_put [simp]: "ids_inv (put r d s ctx) = ids_inv ctx"
  by (simp add: ids_inv_def)

lemma get_record_id_put [simp]: "dx_get_record_id s (put r d st ctx) = dx_get_record_id s ctx"
  by (simp only: dx_get_record_id_def put_simps)

lemma records_inv_ids [simp]: "records_inv (ctx\<lparr>frequent_ids := ids, id_map := m\<rparr>) = records_inv ctx"
  by (simp add: records_inv_def)

lemma takes_describe:
  assumes ok: "records_ok ctx" and d: "record_ok (sid, name, fs)"
  shows "\<exists>ctx'. takes (describe_record all_mem) (record_bytes (sid, name, fs)) ctx () ctx' \<and> describes (sid, name, fs) ctx ctx'"
proof -
  let ?n = "word_of_nat (length fs) :: int32"
  have small: "length fs < 2 ^ 31" using d by (simp add: record_ok_def)
  then have n: "sint ?n = int (length fs)" by (intro sint_of_small_nat) simp
  have inv: "records_inv ctx" "ids_inv ctx" using ok by (simp_all add: records_ok_def)
  have fok: "list_all field_ok fs" using d by (simp add: record_ok_def)
  let ?body = "\<lambda>(ctx, input).
     case dx_get_record_id_by_name name ctx of
       Inl e \<Rightarrow> (Inl e, ctx, input)
     | Inr local_id \<Rightarrow>
         if local_id = DX_RECORD_ID_INVALID
         then dx_fill_record_digest all_mem local_id None (length fs) (ctx, input)
         else checked (on_first (start_description all_mem local_id sid (int (length fs))))
           (\<lambda>info. dx_fill_record_digest all_mem local_id (Some info) (length fs)) (ctx, input)"
  have body: "takes (describe_record all_mem) (record_bytes (sid, name, fs)) ctx () ctx'"
    if b: "takes ?body (concat (map field_bytes fs)) ctx () ctx'" for ctx'
    unfolding describe_record_def record_bytes_def prod.case
    by (rule takes_seq [OF takes_compact_int], rule takes_seq [OF takes_c_string], use d in \<open>simp add: record_ok_def\<close>,
      rule takes_seq [OF takes_compact_int], insert d n b, simp add: record_ok_def, unfold n nat_int, rule b)
  show ?thesis
  proof (cases rule: record_index_cases [OF inv(1), of name])
    case (2)
    have "takes ?body (concat (map field_bytes fs)) ctx () ctx"
      using takes_fill_unknown [OF fok, of ctx] 2 unfolding takes_def by simp
    moreover have "describes (sid, name, fs) ctx ctx" using ok 2 by (simp add: describes_def Let_def)
    ultimately show ?thesis using body by blast
  next
    case (1 rid)
    obtain ids m where a: "dx_assign_server_record_id all_mem (int rid) sid ctx = (Inr (), ctx\<lparr>frequent_ids := ids, id_map := m\<rparr>)"
      "ids_inv (ctx\<lparr>frequent_ids := ids, id_map := m\<rparr>)"
      "\<And>s'. dx_get_record_id s' (ctx\<lparr>frequent_ids := ids, id_map := m\<rparr>) = (if s' = sid then int rid else dx_get_record_id s' ctx)"
      using assign_succeeds [OF inv(2)] by metis
    let ?c = "ctx\<lparr>frequent_ids := ids, id_map := m\<rparr>" and ?info = "record_at ctx rid"
    have r: "has_record rid ctx" using has_record_of_inv [OF inv(1) 1(3)] .
    have k: "length (rec_fields ?info) \<le> 1000" using ok record_at_contents [OF inv(1) 1(3)] by (auto simp: records_ok_def)
    let ?d0 = "dx_init_record_digest\<lparr>digest_slots := length fs + length (rec_fields ?info)\<rparr>"
    let ?c0 = "put rid ?d0 (state_at ctx rid) ?c"
    have slots: "int (length fs) + int (length (rec_fields ?info)) \<le> INT_MAX" using d k by (simp add: record_ok_def)
    have st: "start_description all_mem (int rid) sid (int (length fs)) ctx = (Inr ?info, ?c0)"
      unfolding start_description_def using a(1) r slots
      by (simp add: checked_def get_record get_digest dx_clear_record_digest_def Let_def put_def set_digest_def set_support_state_def
          nat_int_add del: of_nat_add)
    have f: "takes (dx_fill_record_digest all_mem (int rid) (Some ?info) (length fs)) (concat (map field_bytes fs)) ?c0 ()
        (described_record rid fs ?c0)"
      by (rule takes_fill_digest) (use r fok in simp_all)
    have "takes (checked (on_first (start_description all_mem (int rid) sid (int (length fs))))
           (\<lambda>info. dx_fill_record_digest all_mem (int rid) (Some info) (length fs))) (concat (map field_bytes fs)) ctx () (described_record rid fs ?c0)"
      by (rule takes_seq_Nil, rule takes_on_first, rule st, rule f)
    then have t: "takes ?body (concat (map field_bytes fs)) ctx () (described_record rid fs ?c0)"
      using 1(1) unfolding takes_def by (simp add: DX_RECORD_ID_INVALID_def)
    have e: "described_record rid fs ?c0 = put rid (digest_of ?info fs (support ?info fs (state_at ctx rid))) (support ?info fs (state_at ctx rid)) ?c"
      using r by (simp add: described_record_def Let_def)
    have "describes (sid, name, fs) ctx (described_record rid fs ?c0)"
      unfolding e describes_def using ok a(2,3) r 1(2,3,5) inv(1) by (simp add: records_ok_def Let_def)
    then show ?thesis using body [OF t] by blast
  qed
qed

section \<open>Descriptions of records, in sequence\<close>

definition known_ids :: "record_ctx \<Rightarrow> record_description list \<Rightarrow> (int32 \<times> int) list" where
  "known_ids ctx ds = concat (map (\<lambda>d. case record_index (fst (snd d)) ctx of None \<Rightarrow> [] | Some rid \<Rightarrow> [(fst d, int rid)]) ds)"

definition descriptions_of :: "dxf_char list option \<Rightarrow> record_description list \<Rightarrow> field_description list list" where
  "descriptions_of name ds = map (snd \<circ> snd) (filter (\<lambda>d. Some (fst (snd d)) = name) ds)"

definition all_described :: "record_description list \<Rightarrow> record_ctx \<Rightarrow> record_ctx \<Rightarrow> bool" where
  "all_described ds ctx ctx' \<longleftrightarrow> records_ok ctx' \<and> records_list ctx' = records_list ctx
     \<and> (\<forall>s. dx_get_record_id s ctx' = (case map_of (rev (known_ids ctx ds)) s of Some i \<Rightarrow> i | None \<Rightarrow> dx_get_record_id s ctx))
     \<and> (\<forall>rid < arr_size (records_list ctx).
          let info = record_at ctx rid; fss = descriptions_of (rec_name info) ds; state = support info (concat fss) (state_at ctx rid) in
          state_at ctx' rid = state \<and> digest_at ctx' rid = (if fss = [] then digest_at ctx rid else digest_of info (last fss) state))"

lemma record_index_cong: "records_list ctx' = records_list ctx \<Longrightarrow> record_index name ctx' = record_index name ctx"
  by (simp add: record_index_def dx_get_record_id_by_name_def)

lemma support_append: "support info (xs @ ys) state = support info ys (support info xs state)"
  by (simp add: support_def)

lemma descriptions_of_Cons:
  "descriptions_of name (d # ds) = (if Some (fst (snd d)) = name then snd (snd d) # descriptions_of name ds else descriptions_of name ds)"
  by (simp add: descriptions_of_def)

lemma all_described_Cons:
  assumes d: "describes d ctx c1" and ds: "all_described ds c1 ctx'"
  shows "all_described (d # ds) ctx ctx'"
proof -
  have l: "records_list c1 = records_list ctx" and l': "records_list ctx' = records_list c1" and ok: "records_ok ctx'"
    using d ds by (simp_all add: describes_def all_described_def)
  have ids: "dx_get_record_id s ctx' = (case map_of (rev (known_ids ctx (d # ds))) s of Some i \<Rightarrow> i | None \<Rightarrow> dx_get_record_id s ctx)" for s
  proof -
    have k: "known_ids c1 ds = known_ids ctx ds" by (simp add: known_ids_def record_index_cong [OF l])
    have a: "dx_get_record_id s ctx' = (case map_of (rev (known_ids ctx ds)) s of Some i \<Rightarrow> i | None \<Rightarrow> dx_get_record_id s c1)"
      using ds by (simp add: all_described_def k)
    have b: "dx_get_record_id s c1 = (case record_index (fst (snd d)) ctx of
        Some rid \<Rightarrow> if s = fst d then int rid else dx_get_record_id s ctx | None \<Rightarrow> dx_get_record_id s ctx)"
      using d by (simp add: describes_def)
    show ?thesis unfolding a b by (auto simp: known_ids_def map_add_def split: option.split)
  qed
  have "let info = record_at ctx rid; fss = descriptions_of (rec_name info) (d # ds); state = support info (concat fss) (state_at ctx rid) in
      state_at ctx' rid = state \<and> digest_at ctx' rid = (if fss = [] then digest_at ctx rid else digest_of info (last fss) state)"
    if rid: "rid < arr_size (records_list ctx)" for rid
  proof -
    let ?info = "record_at ctx rid" and ?fss = "descriptions_of (rec_name (record_at ctx rid)) ds"
    have r1: "state_at ctx' rid = support ?info (concat ?fss) (state_at c1 rid)"
      "digest_at ctx' rid = (if ?fss = [] then digest_at c1 rid else digest_of ?info (last ?fss) (state_at ctx' rid))"
      using ds rid by (simp_all add: all_described_def Let_def l)
    show ?thesis
    proof (cases "rec_name ?info = Some (fst (snd d))")
      case True
      then have r2: "state_at c1 rid = support ?info (snd (snd d)) (state_at ctx rid)" "digest_at c1 rid = digest_of ?info (snd (snd d)) (state_at c1 rid)"
        using d rid by (simp_all add: describes_def Let_def)
      show ?thesis unfolding descriptions_of_Cons using True r1 r2
        by (cases ?fss) (simp_all add: Let_def support_append support_def)
    next
      case False
      then have "state_at c1 rid = state_at ctx rid" "digest_at c1 rid = digest_at ctx rid"
        using d rid by (simp_all add: describes_def Let_def)
      with False r1 show ?thesis unfolding descriptions_of_Cons by (simp add: Let_def eq_commute)
    qed
  qed
  with ok ids l l' show ?thesis by (simp add: all_described_def)
qed

lemma record_bytes_nonempty: "record_bytes d \<noteq> []"
  by (cases d) (auto simp: record_bytes_def compact_int_bytes_def int_bytes_def)

lemma describe_records_spec:
  assumes "list_all record_ok ds" "records_ok ctx" "wf_in input" "pending input = concat (map record_bytes ds) @ rest"
    "in_buffer_limit input = current_in_buffer_position input + int (length (concat (map record_bytes ds)))" "length ds < fuel"
  shows "\<exists>ctx'. describe_records fuel all_mem (ctx, input) = Some (Inr (), ctx', advance (length (concat (map record_bytes ds))) input)
    \<and> all_described ds ctx ctx'"
  using assms
proof (induction ds arbitrary: ctx input fuel)
  case Nil
  then obtain n where n: "fuel = Suc n" by (cases fuel) simp_all
  show ?case unfolding n using Nil by (simp add: advance_zero all_described_def known_ids_def descriptions_of_def support_def Let_def)
next
  case (Cons d ds)
  obtain n where n: "fuel = Suc n" "length ds < n" using Cons.prems(6) by (cases fuel) simp_all
  obtain sid name fs where d: "d = (sid, name, fs)" by (cases d) auto
  obtain c1 where c1: "takes (describe_record all_mem) (record_bytes d) ctx () c1" "describes d ctx c1"
    using takes_describe [OF Cons.prems(2)] Cons.prems(1) unfolding d by fastforce
  have p: "pending input = record_bytes d @ (concat (map record_bytes ds) @ rest)" using Cons.prems(4) by simp
  note a = pending_advance [OF Cons.prems(3) p]
  have e: "describe_record all_mem (ctx, input) = (Inr (), c1, advance (length (record_bytes d)) input)"
    using takesD [OF c1(1) Cons.prems(3) p] .
  have lt: "current_in_buffer_position input < in_buffer_limit input"
    using Cons.prems(5) record_bytes_nonempty [of d] by (cases "record_bytes d") simp_all
  have ok: "records_ok c1" using c1(2) by (simp add: describes_def)
  let ?i = "advance (length (record_bytes d)) input"
  have lim: "in_buffer_limit ?i = current_in_buffer_position ?i + int (length (concat (map record_bytes ds)))"
    using Cons.prems(5) by (simp add: advance_def)
  obtain ctx' where c': "describe_records n all_mem (c1, ?i) = Some (Inr (), ctx', advance (length (concat (map record_bytes ds))) ?i)"
    "all_described ds c1 ctx'" using Cons.IH [OF _ ok a lim n(2)] Cons.prems(1) by auto
  have "describe_records fuel all_mem (ctx, input) = Some (Inr (), ctx', advance (length (concat (map record_bytes (d # ds)))) input)"
    unfolding n using lt e c'(1) by (simp add: advance_advance)
  with all_described_Cons [OF c1(2) c'(2)] show ?case by blast
qed

lemma process_describe_records:
  assumes "list_all record_ok ds" "records_ok ctx" "wf_in input" "pending input = concat (map record_bytes ds) @ rest"
    "in_buffer_limit input = current_in_buffer_position input + int (length (concat (map record_bytes ds)))"
  shows "\<exists>ctx'. dx_process_describe_records all_mem (ctx, input) = (Inr (), ctx', advance (length (concat (map record_bytes ds))) input)
    \<and> all_described ds ctx ctx'"
proof -
  have "length ds \<le> length (concat (map record_bytes ds))"
  proof (induction ds)
    case (Cons d ds)
    then show ?case using record_bytes_nonempty [of d] by (cases "record_bytes d") simp_all
  qed simp
  then have "length ds < Suc (nat (in_buffer_limit input - current_in_buffer_position input))" using assms(5) by simp
  from describe_records_spec [OF assms this] show ?thesis by (auto simp: dx_process_describe_records_def)
qed

section \<open>Any input\<close>

lemma keeps_on_first [keeps_intros]: "pair_keeps (on_first m)"
  by (auto simp: pair_keeps_def on_first_def same_buffer_def split: prod.splits)

lemma keeps_option [keeps_intros]: "pair_keeps a \<Longrightarrow> (\<And>x. pair_keeps (b x)) \<Longrightarrow> pair_keeps (case v of None \<Rightarrow> a | Some x \<Rightarrow> b x)"
  by (cases v) simp_all

lemma keeps_create_field [keeps_intros]: "pair_keeps (dx_create_field_digest mem rid info)"
  unfolding dx_create_field_digest_def Let_def by (intro keeps_intros safe_intros)

lemma keeps_fill_fields [keeps_intros]: "pair_keeps (fill_fields mem rid info n)"
  by (induction n) (auto intro!: keeps_intros)

lemma keeps_fill_digest [keeps_intros]: "pair_keeps (dx_fill_record_digest mem rid info n)"
  unfolding dx_fill_record_digest_def by (intro keeps_intros)

lemma keeps_of_context: "(\<And>ctx. pair_keeps (m ctx)) \<Longrightarrow> pair_keeps (\<lambda>(ctx, input). m ctx (ctx, input))"
  unfolding pair_keeps_def by fast

lemma describe_record_parts:
  "\<exists>k. describe_record mem = checked (on_input dx_read_compact_int) k \<and> (\<forall>v. pair_keeps (k v))"
proof -
  have a: "pair_keeps (\<lambda>(ctx, input).
      (case dx_get_record_id_by_name name ctx of
         Inl e \<Rightarrow> fail e
       | Inr local_id \<Rightarrow>
           if local_id = DX_RECORD_ID_INVALID then dx_fill_record_digest mem local_id None n
           else checked (on_first (start_description mem local_id sid count))
             (\<lambda>info. dx_fill_record_digest mem local_id (Some info) n)) (ctx, input))" for name n sid count
    by (rule keeps_of_context, split sum.split) (intro conjI allI impI keeps_intros)
  have eq: "(\<lambda>(ctx, input).
      (case dx_get_record_id_by_name name ctx of
         Inl e \<Rightarrow> fail e
       | Inr local_id \<Rightarrow>
           if local_id = DX_RECORD_ID_INVALID then dx_fill_record_digest mem local_id None n
           else checked (on_first (start_description mem local_id sid count))
             (\<lambda>info. dx_fill_record_digest mem local_id (Some info) n)) (ctx, input)) =
    (\<lambda>(ctx, input).
      case dx_get_record_id_by_name name ctx of
         Inl e \<Rightarrow> (Inl e, ctx, input)
       | Inr local_id \<Rightarrow>
           if local_id = DX_RECORD_ID_INVALID then dx_fill_record_digest mem local_id None n (ctx, input)
           else checked (on_first (start_description mem local_id sid count))
             (\<lambda>info. dx_fill_record_digest mem local_id (Some info) n) (ctx, input))" for name n sid count
    by (rule ext) (auto simp: fail_def split: sum.split)
  have known: "pair_keeps (\<lambda>(ctx, input).
      case dx_get_record_id_by_name name ctx of
         Inl e \<Rightarrow> (Inl e, ctx, input)
       | Inr local_id \<Rightarrow>
           if local_id = DX_RECORD_ID_INVALID then dx_fill_record_digest mem local_id None n (ctx, input)
           else checked (on_first (start_description mem local_id sid count))
             (\<lambda>info. dx_fill_record_digest mem local_id (Some info) n) (ctx, input))" for name n sid count
    unfolding eq [symmetric] by (rule a)
  show ?thesis unfolding describe_record_def
    by (rule exI, rule conjI, rule refl) (intro allI keeps_intros safe_intros known)
qed

lemma compact_int_advances:
  assumes "wf_in ctx" "dx_read_compact_int ctx = (Inr v, ctx')"
  shows "current_in_buffer_position ctx < current_in_buffer_position ctx'"
  by (rule read_byte_advances [OF assms(1) assms(2) [unfolded dx_read_compact_int_def]])
    (intro safe_intros safe_skip_loop TrueI)

lemma keeps_describe_record: "pair_keeps (describe_record mem)"
proof -
  obtain k where "describe_record mem = checked (on_input dx_read_compact_int) k" "\<And>v. pair_keeps (k v)" using describe_record_parts by blast
  then show ?thesis by (simp add: keeps_checked keeps_on_input safe_intros)
qed

lemma describe_record_advances:
  assumes wf: "wf_in input" "in_buffer_limit input \<le> in_buffer_length input" and e: "describe_record mem (ctx, input) = (Inr u, ctx', input')"
  shows "current_in_buffer_position input < current_in_buffer_position input'"
proof -
  obtain k where k: "describe_record mem = checked (on_input dx_read_compact_int) k" "\<And>v. pair_keeps (k v)" using describe_record_parts by blast
  obtain x i where x: "dx_read_compact_int input = (x, i)" by fastforce
  then obtain v where v: "x = Inr v" using e unfolding k(1) by (cases x) (simp_all add: checked_def on_input_def)
  then have r: "dx_read_compact_int input = (Inr v, i)" and kv: "k v (ctx, i) = (Inr u, ctx', input')"
    using e x unfolding k(1) by (simp_all add: checked_def on_input_def)
  have "safe dx_read_compact_int" unfolding safe_iff by (rule safe_compact(1))
  then have s: "wf_in i" "same_buffer input i" using wf(1) r unfolding safe_def by blast+
  then have "in_buffer_limit i \<le> in_buffer_length i" using wf(2) by (simp add: same_buffer_def)
  then have "same_buffer i input'" using k(2) [of v, unfolded pair_keeps_def, rule_format, OF s(1) _ kv] by blast
  with compact_int_advances [OF wf(1) r] show ?thesis by (simp add: same_buffer_def)
qed

lemma describe_records_total:
  assumes "wf_in input" "in_buffer_limit input \<le> in_buffer_length input"
    "nat (in_buffer_limit input - current_in_buffer_position input) < fuel"
  shows "\<exists>r ctx' input'. describe_records fuel mem (ctx, input) = Some (r, ctx', input') \<and> wf_in input' \<and> same_buffer input input'"
  using assms
proof (induction fuel arbitrary: ctx input)
  case (Suc n)
  show ?case
  proof (cases "current_in_buffer_position input < in_buffer_limit input")
    case True
    obtain r c i where e: "describe_record mem (ctx, input) = (r, c, i)" by (metis prod.exhaust)
    have s: "wf_in i" "same_buffer input i" using keeps_describe_record Suc.prems(1,2) e unfolding pair_keeps_def by blast+
    show ?thesis
    proof (cases r)
      case (Inl x)
      then show ?thesis using True e s by simp
    next
      case (Inr u)
      have "current_in_buffer_position input < current_in_buffer_position i"
        using describe_record_advances [OF Suc.prems(1,2)] e Inr by blast
      then have "nat (in_buffer_limit i - current_in_buffer_position i) < n" "in_buffer_limit i \<le> in_buffer_length i"
        using s(2) Suc.prems(2,3) True by (auto simp: same_buffer_def)
      from Suc.IH [OF s(1) this(2,1)] obtain r' c' i' where
        "describe_records n mem (c, i) = Some (r', c', i')" "wf_in i'" "same_buffer i i'" by blast
      then show ?thesis using True e Inr same_buffer_trans [OF s(2)] by simp
    qed
  next
    case False
    then show ?thesis using Suc.prems(1) by (simp add: same_buffer_def)
  qed
qed simp

interpretation describe_records: body_processor "dx_process_describe_records mem" for mem
proof
  fix input h r h' input'
  assume wf: "wf_in input" "in_buffer_limit input \<le> in_buffer_length input"
    and e: "dx_process_describe_records mem (h, input) = (r, h', input')"
  from describe_records_total [OF wf, of "Suc (nat (in_buffer_limit input - current_in_buffer_position input))" mem h] e
  show "wf_in input' \<and> same_buffer input input'" by (auto simp: dx_process_describe_records_def)
qed

section \<open>Resetting the records of a connection\<close>

lemma reset_states_spec:
  assumes "arr_size (server_support_states ctx) = rid + n" "wf_array (server_support_states ctx)"
  shows "reset_support_states n rid ctx = (Inr (), ctx\<lparr>server_support_states := (server_support_states ctx)\<lparr>elements :=
    take rid (elements (server_support_states ctx)) @ replicate n 0 @ drop (rid + n) (elements (server_support_states ctx))\<rparr>\<rparr>)"
  using assms
proof (induction n arbitrary: rid ctx)
  case (Suc n)
  let ?es = "elements (server_support_states ctx)"
  have l: "rid < length ?es" using Suc.prems by (simp add: wf_array_def)
  let ?c = "set_support_state (int rid) 0 ctx"
  have g: "dx_get_record_server_support_state_value (int rid) ctx = Some (?es ! rid)"
    using Suc.prems(1) by (simp add: dx_get_record_server_support_state_value_def)
  have "take (Suc rid) (?es[rid := 0]) @ replicate n 0 @ drop (Suc rid + n) (?es[rid := 0]) = take rid ?es @ replicate (Suc n) 0 @ drop (rid + Suc n) ?es"
    using l by (simp add: take_update_snoc)
  moreover have "reset_support_states n (rid + 1) ?c = (Inr (), ?c\<lparr>server_support_states := (server_support_states ?c)\<lparr>elements :=
      take (rid + 1) (elements (server_support_states ?c)) @ replicate n 0 @ drop (rid + 1 + n) (elements (server_support_states ?c))\<rparr>\<rparr>)"
    by (rule Suc.IH) (use Suc.prems in \<open>simp_all add: set_support_state_def wf_array_def\<close>)
  ultimately show ?case using g by (simp add: set_support_state_def)
qed (simp add: return_def)

lemma init_digests_spec:
  assumes "wf_array (record_digests ctx)" "arr_size (record_digests ctx) = i" "contents (record_digests ctx) = replicate i dx_init_record_digest"
  shows "\<exists>arr. init_digests all_mem n i ctx = (Inr (), ctx\<lparr>record_digests := arr\<rparr>) \<and> wf_array arr \<and> arr_size arr = i + n
    \<and> contents arr = replicate (i + n) dx_init_record_digest"
  using assms
proof (induction n arbitrary: i ctx)
  case 0
  then show ?case by (intro exI [of _ "record_digests ctx"]) (simp add: return_def)
next
  case (Suc n)
  obtain a where a: "DX_ARRAY_INSERT all_mem dx_init_record_digest dx_init_record_digest (arr_size (record_digests ctx)) dx_capacity_manager_halfer
      (record_digests ctx) = (Inr (), a)" "wf_array a" "contents a = contents (record_digests ctx) @ [dx_init_record_digest]"
    "arr_size a = arr_size (record_digests ctx) + 1" using on_array_succeeds [OF Suc.prems(1)] by metis
  let ?c = "ctx\<lparr>record_digests := a\<rparr>"
  have add: "dx_add_record_digest_to_list all_mem i ctx = (Inr (), ?c)"
    using a(1) Suc.prems(2) by (simp add: dx_add_record_digest_to_list_def on_digests_def)
  obtain arr where "init_digests all_mem n (i + 1) ?c = (Inr (), ?c\<lparr>record_digests := arr\<rparr>)" "wf_array arr" "arr_size arr = i + 1 + n"
    "contents arr = replicate (i + 1 + n) dx_init_record_digest"
    using Suc.IH [of ?c "i + 1"] a Suc.prems by (auto simp: replicate_append_same [symmetric])
  then show ?case using add by (intro exI [of _ arr]) simp
qed

lemma get_record_id_cong:
  "frequent_ids ctx' = frequent_ids ctx \<Longrightarrow> id_map ctx' = id_map ctx \<Longrightarrow> dx_get_record_id s ctx' = dx_get_record_id s ctx"
  by (simp only: dx_get_record_id_def)

lemma clear_records_spec:
  assumes ok: "records_ok ctx"
  shows "\<exists>ctx'. clear_records all_mem ctx = (Inr (), ctx') \<and> records_ok ctx' \<and> records_list ctx' = records_list ctx
    \<and> (\<forall>s. dx_get_record_id s ctx' = dx_get_record_id s ctx)
    \<and> (\<forall>rid < arr_size (records_list ctx). state_at ctx' rid = 0 \<and> digest_at ctx' rid = dx_init_record_digest)"
proof -
  let ?n = "arr_size (records_list ctx)"
  have inv: "records_inv ctx" "ids_inv ctx" using ok by (simp_all add: records_ok_def)
  then have w: "wf_array (server_support_states ctx)" "arr_size (server_support_states ctx) = ?n" by (simp_all add: records_inv_def)
  let ?es = "elements (server_support_states ctx)"
  let ?st = "(server_support_states ctx)\<lparr>elements := replicate ?n 0 @ drop ?n ?es\<rparr>"
  let ?c1 = "ctx\<lparr>server_support_states := ?st\<rparr>"
  have r: "reset_support_states ?n 0 ctx = (Inr (), ?c1)" using reset_states_spec [of ctx 0 ?n] w by simp
  obtain arr where arr: "init_digests all_mem ?n 0 (dx_clear_record_digests ?c1) = (Inr (), (dx_clear_record_digests ?c1)\<lparr>record_digests := arr\<rparr>)"
    "wf_array arr" "arr_size arr = ?n" "contents arr = replicate ?n dx_init_record_digest"
    using init_digests_spec [of "dx_clear_record_digests ?c1" 0 ?n] by (auto simp: dx_clear_record_digests_def DX_EMPTY_ARRAY_def wf_array_def contents_def)
  let ?c = "ctx\<lparr>server_support_states := ?st, record_digests := arr, new_record_id := 0\<rparr>"
  have c: "clear_records all_mem ctx = (Inr (), ?c)"
    unfolding clear_records_def using r arr(1)
    by (simp add: checked_def dx_get_records_list_count_def dx_init_record_digests_def dx_clear_record_digests_def dx_drop_unsubscribe_counter_def)
  have "wf_array ?st" "arr_size ?st = ?n" using w by (simp_all add: wf_array_def)
  then have "records_ok ?c" using ok arr(2,3) by (simp add: records_ok_def records_inv_def ids_inv_def)
  moreover have "state_at ?c rid = 0 \<and> digest_at ?c rid = dx_init_record_digest" if "rid < ?n" for rid
  proof -
    have "digest_at ?c rid = contents arr ! rid" using that arr(3) by (simp add: contents_def)
    then show ?thesis using that arr(4) by (simp add: nth_append)
  qed
  moreover have "dx_get_record_id s ?c = dx_get_record_id s ctx" for s by (rule get_record_id_cong) simp_all
  ultimately show ?thesis using c by (intro exI [of _ ?c]) simp
qed

section \<open>Properties\<close>

text \<open>
  C5: A message that describes records is read completely.  The numbers of the records that the client
  knows by name are assigned to them, the last assignment of a number counting; descriptions of other
  records change nothing.  The support state of a record gains the bit of every field that one of its
  descriptions names.  The digest of a described record has the fields of its last description, each
  with the setter of the client's field of the same name and serialization if there is one, and then the
  default values of the fields that no description of this connection has named.
\<close>

theorem records_described:
  assumes "list_all record_ok ds" "records_ok ctx" "wf_in input" "pending input = concat (map record_bytes ds) @ rest"
    "in_buffer_limit input = current_in_buffer_position input + int (length (concat (map record_bytes ds)))"
  shows "\<exists>ctx'. dx_process_describe_records all_mem (ctx, input) = (Inr (), ctx', advance (length (concat (map record_bytes ds))) input)
    \<and> records_ok ctx' \<and> records_list ctx' = records_list ctx
    \<and> (\<forall>s. dx_get_record_id s ctx' = (case map_of (rev (known_ids ctx ds)) s of Some i \<Rightarrow> i | None \<Rightarrow> dx_get_record_id s ctx))
    \<and> (\<forall>rid < arr_size (records_list ctx).
         let info = record_at ctx rid; fss = descriptions_of (rec_name info) ds; state = support info (concat fss) (state_at ctx rid) in
         state_at ctx' rid = state \<and>
         digest_at ctx' rid = (if fss = [] then digest_at ctx rid
           else \<lparr>digest_fields = map (field_digest info) (last fss) @ defaults state 0 (rec_fields info),
             digest_slots = length (last fss) + length (rec_fields info), in_sync_with_server = True\<rparr>))"
  using process_describe_records [OF assms] unfolding all_described_def digest_of_def Let_def by blast

lemma index_bitmask_nonzero: "state AND INDEX_BITMASK i \<noteq> 0 \<longleftrightarrow> bit state i"
  by (simp add: INDEX_BITMASK_def bit_iff_and_push_bit_not_eq_0)

lemma bit_support:
  assumes "i < 32"
  shows "bit (support info fs state) i \<longleftrightarrow> bit state i \<or> (\<exists>f \<in> set fs. dx_find_record_field info (fst f) (snd f) = int i)"
proof (induction fs arbitrary: state)
  case (Cons f fs)
  have "bit (state OR field_bit info f) i \<longleftrightarrow> bit state i \<or> dx_find_record_field info (fst f) (snd f) = int i"
    using field_index [of info "fst f" "snd f"] assms by (auto simp: field_bit_def Let_def bit_index_bitmask INVALID_INDEX_def)
  then show ?case using Cons.IH [of "state OR field_bit info f"] by (auto simp: support_def)
qed (simp add: support_def)

lemma set_defaults: "set (defaults state i fs) = {default_digest (fs ! k) |k. k < length fs \<and> \<not> bit state (i + k)}"
proof (induction state i fs rule: defaults.induct)
  case (2 state i f fs)
  have "{default_digest ((f # fs) ! k) |k. k < length (f # fs) \<and> \<not> bit state (i + k)} =
      (if bit state i then {} else {default_digest f}) \<union> {default_digest (fs ! k) |k. k < length fs \<and> \<not> bit state (i + 1 + k)}" (is "?l = ?r")
  proof
    show "?l \<subseteq> ?r"
    proof
      fix d assume "d \<in> ?l"
      then obtain k where k: "k < length (f # fs)" "\<not> bit state (i + k)" "d = default_digest ((f # fs) ! k)" by blast
      then show "d \<in> ?r" by (cases k) auto
    qed
    show "?r \<subseteq> ?l"
    proof
      fix d assume "d \<in> ?r"
      then consider "\<not> bit state i" "d = default_digest f"
        | k where "k < length fs" "\<not> bit state (i + 1 + k)" "d = default_digest (fs ! k)" by (auto split: if_splits)
      then show "d \<in> ?l"
      proof cases
        case 1
        then have "d = default_digest ((f # fs) ! 0) \<and> 0 < length (f # fs) \<and> \<not> bit state (i + 0)" by simp
        then show ?thesis by blast
      next
        case (2 k)
        then have "d = default_digest ((f # fs) ! Suc k) \<and> Suc k < length (f # fs) \<and> \<not> bit state (i + Suc k)" by simp
        then show ?thesis by blast
      qed
    qed
  qed
  then show ?case using 2 by (simp add: index_bitmask_nonzero)
qed simp

lemma digest_setters:
  assumes "length (rec_fields info) \<le> 32"
  shows "{f. \<exists>d \<in> set (map (field_digest info) fs @ defaults state 0 (rec_fields info)). digest_setter d = Some f} =
    {rec_fields info ! i |i. i < length (rec_fields info) \<and>
      (\<not> bit state i \<or> (\<exists>f \<in> set fs. dx_find_record_field info (fst f) (snd f) = int i))}" (is "?l = ?r")
proof
  show "?l \<subseteq> ?r"
  proof
    fix f assume "f \<in> ?l"
    then obtain d where d: "d \<in> field_digest info ` set fs \<or> d \<in> set (defaults state 0 (rec_fields info))" "digest_setter d = Some f" by auto
    from d(1) show "f \<in> ?r"
    proof
      assume "d \<in> field_digest info ` set fs"
      then obtain g where g: "g \<in> set fs" "d = field_digest info g" by blast
      from field_index [of info "fst g" "snd g"] show "f \<in> ?r"
      proof
        assume "dx_find_record_field info (fst g) (snd g) = INVALID_INDEX"
        then show "f \<in> ?r" using d(2) g(2) by (simp add: field_digest_def)
      next
        assume "\<exists>k < length (rec_fields info). dx_find_record_field info (fst g) (snd g) = int k"
        then show "f \<in> ?r" using d(2) g by (auto simp: field_digest_def INVALID_INDEX_def)
      qed
    next
      assume "d \<in> set (defaults state 0 (rec_fields info))"
      then show "f \<in> ?r" using d(2) by (auto simp: set_defaults default_digest_def)
    qed
  qed
  show "?r \<subseteq> ?l"
  proof
    fix f assume "f \<in> ?r"
    then obtain i where i: "i < length (rec_fields info)" "f = rec_fields info ! i"
      "\<not> bit state i \<or> (\<exists>f \<in> set fs. dx_find_record_field info (fst f) (snd f) = int i)" by blast
    from i(3) show "f \<in> ?l"
    proof
      assume "\<not> bit state i"
      then have "default_digest f \<in> set (defaults state 0 (rec_fields info))" using i(1,2) unfolding set_defaults by auto
      then show "f \<in> ?l" by (intro CollectI bexI [of _ "default_digest f"]) (simp_all add: default_digest_def)
    next
      assume "\<exists>f \<in> set fs. dx_find_record_field info (fst f) (snd f) = int i"
      then obtain g where g: "g \<in> set fs" "dx_find_record_field info (fst g) (snd g) = int i" by blast
      then have "digest_setter (field_digest info g) = Some f" using i(2) by (simp add: field_digest_def INVALID_INDEX_def)
      then show "f \<in> ?l" using g(1) by (intro CollectI bexI [of _ "field_digest info g"]) simp_all
    qed
  qed
qed

text \<open>
  C16: After the first description of a record on a connection its digest sets every field of the record,
  from the wire or to the default value.
\<close>

theorem every_field_set:
  assumes "list_all record_ok ds" "records_ok ctx" "wf_in input" "pending input = concat (map record_bytes ds) @ rest"
    "in_buffer_limit input = current_in_buffer_position input + int (length (concat (map record_bytes ds)))"
    and rid: "rid < arr_size (records_list ctx)" "state_at ctx rid = 0" "length (rec_fields (record_at ctx rid)) \<le> 32"
    and once: "descriptions_of (rec_name (record_at ctx rid)) ds = [fs]"
  shows "\<exists>ctx' input'. dx_process_describe_records all_mem (ctx, input) = (Inr (), ctx', input')
    \<and> {f. \<exists>d \<in> set (digest_fields (digest_at ctx' rid)). digest_setter d = Some f} = set (rec_fields (record_at ctx rid))"
proof -
  let ?info = "record_at ctx rid" and ?s = "support (record_at ctx rid) fs 0"
  obtain ctx' where c: "dx_process_describe_records all_mem (ctx, input) = (Inr (), ctx', advance (length (concat (map record_bytes ds))) input)"
    "all_described ds ctx ctx'" using process_describe_records [OF assms(1-5)] by blast
  have "digest_fields (digest_at ctx' rid) = map (field_digest ?info) fs @ defaults ?s 0 (rec_fields ?info)"
    using c(2) rid once by (simp add: all_described_def Let_def digest_of_def)
  then have "{f. \<exists>d \<in> set (digest_fields (digest_at ctx' rid)). digest_setter d = Some f} =
      {rec_fields ?info ! i |i. i < length (rec_fields ?info) \<and> (\<not> bit ?s i \<or> (\<exists>f \<in> set fs. dx_find_record_field ?info (fst f) (snd f) = int i))}"
    using digest_setters [OF rid(3)] by simp
  also have "\<dots> = {rec_fields ?info ! i |i. i < length (rec_fields ?info)}"
    using bit_support [of _ ?info fs 0] rid(3) by (intro Collect_cong) (auto intro: less_le_trans)
  also have "\<dots> = set (rec_fields ?info)" by (auto simp: in_set_conv_nth)
  finally show ?thesis using c(1) by blast
qed

text \<open>
  C35: The support states are not reset by a second description.  A field that the first one named and the
  second does not is then neither read nor set to its default value: the row keeps an old value.
\<close>

theorem redescription_loses_field:
  assumes "list_all record_ok ds" "records_ok ctx" "wf_in input" "pending input = concat (map record_bytes ds) @ rest"
    "in_buffer_limit input = current_in_buffer_position input + int (length (concat (map record_bytes ds)))"
    and rid: "rid < arr_size (records_list ctx)" "length (rec_fields (record_at ctx rid)) \<le> 32" "distinct (rec_fields (record_at ctx rid))"
    and twice: "descriptions_of (rec_name (record_at ctx rid)) ds = [fs, fs2]"
    and f: "(name, type) \<in> set fs" "dx_find_record_field (record_at ctx rid) name type = int i" "i < length (rec_fields (record_at ctx rid))"
    and g: "\<forall>g \<in> set fs2. dx_find_record_field (record_at ctx rid) (fst g) (snd g) \<noteq> int i"
  shows "\<exists>ctx' input'. dx_process_describe_records all_mem (ctx, input) = (Inr (), ctx', input')
    \<and> in_sync_with_server (digest_at ctx' rid)
    \<and> (\<forall>d \<in> set (digest_fields (digest_at ctx' rid)). digest_setter d \<noteq> Some (rec_fields (record_at ctx rid) ! i))"
proof -
  let ?info = "record_at ctx rid" and ?s = "support (record_at ctx rid) (fs @ fs2) (state_at ctx rid)"
  obtain ctx' where c: "dx_process_describe_records all_mem (ctx, input) = (Inr (), ctx', advance (length (concat (map record_bytes ds))) input)"
    "all_described ds ctx ctx'" using process_describe_records [OF assms(1-5)] by blast
  have d: "digest_at ctx' rid = digest_of ?info fs2 ?s" using c(2) rid twice by (simp add: all_described_def Let_def)
  have "bit ?s i" using bit_support [of i ?info "fs @ fs2" "state_at ctx rid"] f rid(2) by force
  then have "rec_fields ?info ! i \<notin> {rec_fields ?info ! k |k. k < length (rec_fields ?info) \<and>
      (\<not> bit ?s k \<or> (\<exists>f \<in> set fs2. dx_find_record_field ?info (fst f) (snd f) = int k))}"
    using g f(3) rid(3) by (auto simp: nth_eq_iff_index_eq)
  then have "\<forall>d \<in> set (digest_fields (digest_at ctx' rid)). digest_setter d \<noteq> Some (rec_fields ?info ! i)"
    unfolding digest_setters [OF rid(2), symmetric] d digest_of_def by auto
  then show ?thesis using c(1) d by (auto simp: digest_of_def)
qed

text \<open>
  A reconnection, which resets the support states and the digests, keeps the numbers of the records,
  and the description of an unknown record does not take its number away: data that a new server sends
  for its unknown record are taken for those of the record that had the number before.
\<close>

theorem reconnection_keeps_ids:
  assumes "records_ok ctx" "list_all record_ok ds" "wf_in input" "pending input = concat (map record_bytes ds) @ rest"
    "in_buffer_limit input = current_in_buffer_position input + int (length (concat (map record_bytes ds)))"
    and unknown: "\<forall>d \<in> set ds. fst d = s \<longrightarrow> record_index (fst (snd d)) ctx = None"
  shows "\<exists>ctx1 ctx2 input2. clear_records all_mem ctx = (Inr (), ctx1)
    \<and> dx_process_describe_records all_mem (ctx1, input) = (Inr (), ctx2, input2)
    \<and> dx_get_record_id s ctx2 = dx_get_record_id s ctx"
proof -
  obtain c1 where c1: "clear_records all_mem ctx = (Inr (), c1)" "records_ok c1" "records_list c1 = records_list ctx"
    "\<And>s. dx_get_record_id s c1 = dx_get_record_id s ctx" using clear_records_spec [OF assms(1)] by blast
  obtain c2 i2 where c2: "dx_process_describe_records all_mem (c1, input) = (Inr (), c2, i2)" "all_described ds c1 c2"
    using process_describe_records [OF assms(2) c1(2) assms(3-5)] by blast
  have "map_of (rev (known_ids c1 ds)) s = None"
    using unknown by (auto simp: map_of_eq_None_iff known_ids_def record_index_cong [OF c1(3)] split: option.splits)
  then have "dx_get_record_id s c2 = dx_get_record_id s ctx" using c2(2) c1(4) by (simp add: all_described_def)
  then show ?thesis using c1(1) c2(1) by blast
qed

section \<open>Witnesses\<close>

text \<open>A connection with the record of quotes, and a message that describes it and an unknown record.\<close>

definition quote_item :: dx_record_item where
  "quote_item = \<lparr>rec_name = Some (wide ''Quote''), rec_fields = dx_fields_quote, rec_info_id = dx_rid_quote, rec_suffix = [], rec_exchange_code = 0\<rparr>"

definition quote_ctx :: record_ctx where
  "quote_ctx = new_record_ctx\<lparr>records_list := \<lparr>elements = [quote_item], arr_size = 1, capacity = 1\<rparr>,
     server_support_states := \<lparr>elements = [0], arr_size = 1, capacity = 1\<rparr>,
     record_digests := \<lparr>elements = [dx_init_record_digest], arr_size = 1, capacity = 1\<rparr>\<rparr>"

definition bid_price :: field_description where "bid_price = (wide ''Bid.Price'', 8)"
definition unknown_field :: field_description where "unknown_field = (wide ''Foo'', 8)"
definition unknown_record :: record_description where "unknown_record = (5, wide ''Bar'', [])"

lemma quote_fields: "length dx_fields_quote = 10" "distinct dx_fields_quote"
  by code_simp+

lemma quote_ctx_simps: "record_at quote_ctx 0 = quote_item" "arr_size (records_list quote_ctx) = 1" "state_at quote_ctx 0 = 0"
  "digest_at quote_ctx 0 = dx_init_record_digest" "rec_fields quote_item = dx_fields_quote" "rec_name quote_item = Some (wide ''Quote'')"
  by (simp_all add: quote_ctx_def quote_item_def)

lemma quote_ctx_ok: "records_ok quote_ctx"
proof -
  have "ids_inv quote_ctx" using new_record_ctx_ids(1) by (simp add: quote_ctx_def ids_inv_def)
  moreover have "records_inv quote_ctx" by (simp add: quote_ctx_def quote_item_def records_inv_def wf_array_def contents_def)
  ultimately show ?thesis using quote_fields(1) by (simp add: records_ok_def quote_ctx_def quote_item_def contents_def)
qed

lemma example_names: "string_ok (wide ''Quote'')" "string_ok (wide ''Bid.Price'')" "string_ok (wide ''Foo'')" "string_ok (wide ''Bar'')"
proof -
  have "length (utf8_bytes (wide ''Quote'')) = 5" "length (utf8_bytes (wide ''Bid.Price'')) = 9"
    "length (utf8_bytes (wide ''Foo'')) = 3" "length (utf8_bytes (wide ''Bar'')) = 3"
    "no_pairs (wide ''Quote'') \<and> 0 \<notin> set (wide ''Quote'')" "no_pairs (wide ''Bid.Price'') \<and> 0 \<notin> set (wide ''Bid.Price'')"
    "no_pairs (wide ''Foo'') \<and> 0 \<notin> set (wide ''Foo'')" "no_pairs (wide ''Bar'') \<and> 0 \<notin> set (wide ''Bar'')" by code_simp+
  then show "string_ok (wide ''Quote'')" "string_ok (wide ''Bid.Price'')" "string_ok (wide ''Foo'')" "string_ok (wide ''Bar'')"
    by (simp_all add: string_ok_def)
qed

lemma example_fields: "field_ok bid_price" "field_ok unknown_field" "record_ok unknown_record"
  using example_names by (simp_all add: field_ok_def bid_price_def unknown_field_def unknown_record_def MAX_FIELD_TYPE_ID_def record_ok_def wide_def)

lemma example_ok: "list_all field_ok fs \<Longrightarrow> length fs \<le> 1000 \<Longrightarrow> record_ok (5, wide ''Quote'', fs)"
  using example_names by (simp add: record_ok_def wide_def)

lemma example_index: "dx_find_record_field quote_item (wide ''Bid.Price'') 8 = 4" "dx_find_record_field quote_item (wide ''Foo'') 8 = INVALID_INDEX"
  by code_simp+

lemma example_input:
  "wf_in (input_of (concat (map record_bytes ds)) (length (concat (map record_bytes ds))))"
  "pending (input_of (concat (map record_bytes ds)) (length (concat (map record_bytes ds)))) = concat (map record_bytes ds) @ []"
  "in_buffer_limit (input_of (concat (map record_bytes ds)) (length (concat (map record_bytes ds)))) =
    current_in_buffer_position (input_of (concat (map record_bytes ds)) (length (concat (map record_bytes ds)))) + int (length (concat (map record_bytes ds)))"
  by (simp_all add: input_of)

theorem records_described_witness:
  "let ds = [(5, wide ''Quote'', [bid_price, unknown_field]), unknown_record];
       bs = concat (map record_bytes ds)
   in \<exists>ctx' input'. dx_process_describe_records all_mem (quote_ctx, input_of bs (length bs)) = (Inr (), ctx', input')
     \<and> digest_slots (digest_at ctx' 0) = 12 \<and> in_sync_with_server (digest_at ctx' 0) \<and> state_at ctx' 0 = INDEX_BITMASK 4"
proof -
  let ?ds = "[(5, wide ''Quote'', [bid_price, unknown_field]), unknown_record]"
  have ok: "list_all record_ok ?ds" using example_fields example_ok by simp
  have d: "descriptions_of (Some (wide ''Quote'')) ?ds = [[bid_price, unknown_field]]"
    by (simp add: descriptions_of_def unknown_record_def wide_def)
  have s: "support quote_item [bid_price, unknown_field] 0 = INDEX_BITMASK 4"
    by (simp add: support_def field_bit_def bid_price_def unknown_field_def example_index INVALID_INDEX_def Let_def)
  from records_described [OF ok quote_ctx_ok example_input] show ?thesis
    using d quote_fields(1) s by (fastforce simp: Let_def quote_ctx_simps)
qed

theorem every_field_set_witness:
  "let bs = record_bytes (5, wide ''Quote'', [bid_price])
   in \<exists>ctx' input'. dx_process_describe_records all_mem (quote_ctx, input_of bs (length bs)) = (Inr (), ctx', input')
     \<and> {f. \<exists>d \<in> set (digest_fields (digest_at ctx' 0)). digest_setter d = Some f} = set dx_fields_quote"
proof -
  let ?ds = "[(5, wide ''Quote'', [bid_price])]"
  have ok: "list_all record_ok ?ds" using example_fields example_ok by simp
  have d: "descriptions_of (rec_name (record_at quote_ctx 0)) ?ds = [[bid_price]]"
    by (simp add: descriptions_of_def quote_ctx_simps)
  have s: "state_at quote_ctx 0 = 0" "length (rec_fields (record_at quote_ctx 0)) \<le> 32" "0 < arr_size (records_list quote_ctx)"
    using quote_fields(1) by (simp_all only: quote_ctx_simps)
  from every_field_set [OF ok quote_ctx_ok example_input s(3,1,2) d] show ?thesis by (simp add: quote_ctx_simps)
qed

theorem redescription_loses_field_witness:
  "let bs = record_bytes (5, wide ''Quote'', [bid_price]) @ record_bytes (5, wide ''Quote'', [unknown_field])
   in \<exists>ctx' input'. dx_process_describe_records all_mem (quote_ctx, input_of bs (length bs)) = (Inr (), ctx', input')
     \<and> in_sync_with_server (digest_at ctx' 0)
     \<and> (\<forall>d \<in> set (digest_fields (digest_at ctx' 0)). digest_setter d \<noteq> Some (dx_fields_quote ! 4))"
proof -
  let ?ds = "[(5, wide ''Quote'', [bid_price]), (5, wide ''Quote'', [unknown_field])]"
  have ok: "list_all record_ok ?ds" using example_fields example_ok by simp
  have d: "descriptions_of (rec_name (record_at quote_ctx 0)) ?ds = [[bid_price], [unknown_field]]"
    by (simp add: descriptions_of_def quote_ctx_simps)
  have s: "length (rec_fields (record_at quote_ctx 0)) \<le> 32" "0 < arr_size (records_list quote_ctx)" "distinct (rec_fields (record_at quote_ctx 0))"
    "4 < length (rec_fields (record_at quote_ctx 0))"
    using quote_fields by (simp_all only: quote_ctx_simps)
  have f: "(wide ''Bid.Price'', 8) \<in> set [bid_price]" "dx_find_record_field (record_at quote_ctx 0) (wide ''Bid.Price'') 8 = int 4"
    "\<forall>g \<in> set [unknown_field]. dx_find_record_field (record_at quote_ctx 0) (fst g) (snd g) \<noteq> int 4"
    by (simp_all add: bid_price_def unknown_field_def quote_ctx_simps example_index INVALID_INDEX_def)
  from redescription_loses_field [OF ok quote_ctx_ok example_input s(2,1,3) d f(1,2) s(4) f(3)] show ?thesis by (simp add: quote_ctx_simps)
qed

theorem reconnection_keeps_ids_witness:
  "let ctx = quote_ctx\<lparr>frequent_ids := (frequent_ids quote_ctx)[5 := 0]\<rparr>; bs = record_bytes unknown_record
   in \<exists>ctx1 ctx2 input2. clear_records all_mem ctx = (Inr (), ctx1)
     \<and> dx_process_describe_records all_mem (ctx1, input_of bs (length bs)) = (Inr (), ctx2, input2)
     \<and> dx_get_record_id 5 ctx2 = 0"
proof -
  let ?ctx = "quote_ctx\<lparr>frequent_ids := (frequent_ids quote_ctx)[5 := 0]\<rparr>" and ?ds = "[unknown_record]"
  have ok: "list_all record_ok ?ds" using example_fields by simp
  have c: "records_ok ?ctx" using quote_ctx_ok by (simp add: records_ok_def records_inv_def ids_inv_def)
  have "dx_get_record_id_by_name (wide ''Bar'') ?ctx = Inr DX_RECORD_ID_INVALID"
    by (simp add: dx_get_record_id_by_name_def quote_ctx_def quote_item_def contents_def compare_strings_eq wide_def)
  then have u: "\<forall>d \<in> set ?ds. fst d = 5 \<longrightarrow> record_index (fst (snd d)) ?ctx = None"
    by (simp add: unknown_record_def record_index_def)
  have "dx_get_record_id 5 ?ctx = 0"
    by (simp add: dx_get_record_id_def is_frequent_def RECORD_ID_VECTOR_SIZE_def quote_ctx_def new_record_ctx_def)
  with reconnection_keeps_ids [OF c ok example_input u] show ?thesis by (simp add: Let_def)
qed

end
