(* ===== verification/Dx_Data_Records.thy ===== *)
theory Dx_Data_Records
  imports Dx_Data Dx_Describe_Spec
begin

text \<open>
  Data messages as a server sends them: the bytes of fields, symbols and records, and what a message of
  such records does.
\<close>

section \<open>Fields on the wire\<close>

text \<open>
  What a server sends for a field: nothing (the client sets the default), a character, a compact number
  that is an \<open>int\<close> (\<open>W_number\<close> for a field that is a decimal here), a \<open>long\<close>, a decimal or a wide decimal,
  a string or an array.
\<close>

datatype wire_value = W_default | W_char int32 | W_int int32 | W_number int32 | W_decimal int32 | W_wide long64 | W_long long64
  | W_string "dxf_char list option" | W_bytes "byte list"

fun wire_bytes :: "wire_value \<Rightarrow> byte list" where
  "wire_bytes W_default = []"
| "wire_bytes (W_char c) = utf_char_bytes c"
| "wire_bytes (W_int i) = compact_int_bytes i"
| "wire_bytes (W_number i) = compact_int_bytes i"
| "wire_bytes (W_decimal i) = compact_int_bytes i"
| "wire_bytes (W_wide l) = compact_long_bytes l"
| "wire_bytes (W_long l) = compact_long_bytes l"
| "wire_bytes (W_string None) = compact_int_bytes (- 1)"
| "wire_bytes (W_string (Some s)) = string_bytes s"
| "wire_bytes (W_bytes bs) = byte_array_bytes (Some bs)"

definition serialization :: "dx_field_digest \<Rightarrow> int32" where
  "serialization d = digest_type d AND dx_fid_mask_serialization"

definition repr_of :: "dx_field_digest \<Rightarrow> int32" where
  "repr_of d = digest_type d AND dx_fid_mask_representation"

definition set_by :: "c_type \<Rightarrow> dx_field_digest \<Rightarrow> bool" where
  "set_by type d \<longleftrightarrow> (\<forall>f. digest_setter d = Some f \<longrightarrow> setter_type f = type)"

definition decimal_field :: "dx_field_digest \<Rightarrow> double \<Rightarrow> bool" where
  "decimal_field d v \<longleftrightarrow> (if is_decimal (local_type d AND dx_fid_mask_representation) then set_by T_double d
     else digest_setter d = None \<and> (\<exists>i. truncate_double v = Inr i))"

text \<open>The description of the field is one of such values, and the client's field has a variable of its type.\<close>

fun carries :: "dx_field_digest \<Rightarrow> wire_value \<Rightarrow> bool" where
  "carries d W_default \<longleftrightarrow> serialization d = dx_fid_void \<and> (\<exists>f. digest_setter d = Some f \<and> digest_default d = Some f)"
| "carries d (W_char c) \<longleftrightarrow> serialization d = dx_fid_utf_char \<and> 0 \<le> sint c \<and> sint c \<le> 0x10FFFF \<and> set_by T_char d"
| "carries d (W_int i) \<longleftrightarrow> serialization d = dx_fid_compact_int \<and> \<not> is_decimal (repr_of d) \<and> repr_of d \<noteq> dx_fid_flag_long
     \<and> repr_of d \<noteq> dx_fid_flag_time_millis \<and> \<not> is_decimal (local_type d AND dx_fid_mask_representation) \<and> set_by T_int d"
| "carries d (W_number i) \<longleftrightarrow> serialization d = dx_fid_compact_int \<and> \<not> is_decimal (repr_of d) \<and> repr_of d \<noteq> dx_fid_flag_long
     \<and> repr_of d \<noteq> dx_fid_flag_time_millis \<and> is_decimal (local_type d AND dx_fid_mask_representation) \<and> set_by T_double d"
| "carries d (W_decimal i) \<longleftrightarrow> serialization d = dx_fid_compact_int \<and> repr_of d = dx_fid_flag_decimal
     \<and> decimal_field d (dx_decimal_int_to_double i)"
| "carries d (W_wide l) \<longleftrightarrow> serialization d = dx_fid_compact_int \<and> repr_of d = dx_fid_flag_wide_decimal
     \<and> decimal_field d (dx_wide_decimal_long_to_double l) \<and> \<not> lost_sign_long l"
| "carries d (W_long l) \<longleftrightarrow> serialization d = dx_fid_compact_int \<and> (repr_of d = dx_fid_flag_long \<or> repr_of d = dx_fid_flag_time_millis)
     \<and> set_by T_long d \<and> \<not> lost_sign_long l"
| "carries d (W_string s) \<longleftrightarrow> serialization d = dx_fid_byte_array \<and> repr_of d = dx_fid_flag_string \<and> set_by T_string d
     \<and> (\<forall>str. s = Some str \<longrightarrow> string_ok str)"
| "carries d (W_bytes bs) \<longleftrightarrow> serialization d = dx_fid_byte_array \<and> repr_of d \<noteq> dx_fid_flag_string \<and> set_by T_byte_array d
     \<and> length bs < 2 ^ 31"

fun sent_value :: "wire_value \<Rightarrow> dx_field_info \<Rightarrow> field_value" where
  "sent_value W_default f = assigned (getter_type f) (default_value (setter_type f))"
| "sent_value (W_char c) f = F_char (ucast c)"
| "sent_value (W_int i) f = (if getter_type f = T_long then F_long (scast i) else F_int i)"
| "sent_value (W_number i) f = F_double (D_Num (of_int (sint i)))"
| "sent_value (W_decimal i) f = F_double (dx_decimal_int_to_double i)"
| "sent_value (W_wide l) f = F_double (dx_wide_decimal_long_to_double l)"
| "sent_value (W_long l) f = F_long l"
| "sent_value (W_string s) f = F_string s"
| "sent_value (W_bytes bs) f = F_bytes bs"

definition put_sent :: "dx_field_digest \<times> wire_value \<Rightarrow> row \<Rightarrow> row" where
  "put_sent dv r = (case digest_setter (fst dv) of None \<Rightarrow> r | Some f \<Rightarrow> r(field_member f \<mapsto> sent_value (snd dv) f))"

definition put_row :: "dx_record_info_id \<Rightarrow> row \<Rightarrow> 'e data_ctx \<Rightarrow> 'e data_ctx" where
  "put_row kind r ctx = ctx\<lparr>rows := (rows ctx)(kind \<mapsto> r)\<rparr>"

lemma put_row_simps [simp]:
  "rows (put_row kind r ctx) kind = Some r" "put_row kind r (put_row kind r' ctx) = put_row kind r ctx"
  "rows ctx kind = Some r \<Longrightarrow> put_row kind r ctx = ctx"
  by (simp_all add: put_row_def fun_upd_idem)

lemma on_row_spec: "rows ctx kind = Some r \<Longrightarrow> f r = Inr r' \<Longrightarrow> on_row kind f ctx = Inr (put_row kind r' ctx)"
  by (simp add: on_row_def put_row_def)

lemma takes_on_row: "rows ctx kind = Some r \<Longrightarrow> f r = Inr r' \<Longrightarrow> takes (on_context (on_row kind f)) [] ctx () (put_row kind r' ctx)"
  by (rule takes_on_context, rule on_row_spec)

lemma assigned_other [simp]:
  "assigned type (F_char c) = F_char c" "assigned type (F_double x) = F_double x" "assigned type (F_long l) = F_long l"
  "assigned type (F_string s) = F_string s" "assigned type (F_static t) = F_static t" "assigned type (F_bytes bs) = F_bytes bs"
  by (cases type; simp)+

lemma assigned_int: "assigned type (F_int i) = (if type = T_long then F_long (scast i) else F_int i)"
  by (cases type) simp_all

lemma set_value:
  assumes "set_by type d" "read_as type var = Some w" "\<And>f. assigned (getter_type f) w = sent_value v f"
  shows "CHECKED_SET_VALUE (digest_setter d) var r = Inr (put_sent (d, v) r)"
  using assms by (auto simp: CHECKED_SET_VALUE_def set_member_def put_sent_def set_by_def split: option.splits)

lemma set_double_spec:
  assumes "decimal_field d x" "\<And>f. sent_value v f = F_double x" "rows ctx kind = Some r"
  shows "set_double kind d x ctx = Inr (put_row kind (put_sent (d, v) r) ctx)"
proof (cases "is_decimal (local_type d AND dx_fid_mask_representation)")
  case True
  then have "set_by T_double d" using assms(1) by (simp add: decimal_field_def)
  from set_value [OF this, of "Var_double x" "F_double x" v r] assms(2) have "CHECKED_SET_VALUE (digest_setter d) (Var_double x) r = Inr (put_sent (d, v) r)"
    by simp
  then show ?thesis using True on_row_spec [OF assms(3)] by (simp add: set_double_def)
next
  case False
  then obtain i where "digest_setter d = None" "truncate_double x = Inr i" using assms(1) by (auto simp: decimal_field_def)
  then show ?thesis using False on_row_spec [OF assms(3), of _ r] by (simp add: set_double_def CHECKED_SET_VALUE_def put_sent_def)
qed

lemma fid_distinct:
  "dx_fid_utf_char \<noteq> dx_fid_void" "dx_fid_utf_char \<noteq> dx_fid_byte"
  "dx_fid_compact_int \<noteq> dx_fid_void" "dx_fid_compact_int \<noteq> dx_fid_byte" "dx_fid_compact_int \<noteq> dx_fid_utf_char"
  "dx_fid_compact_int \<noteq> dx_fid_short" "dx_fid_compact_int \<noteq> dx_fid_int"
  "dx_fid_byte_array \<noteq> dx_fid_void" "dx_fid_byte_array \<noteq> dx_fid_byte" "dx_fid_byte_array \<noteq> dx_fid_utf_char"
  "dx_fid_byte_array \<noteq> dx_fid_short" "dx_fid_byte_array \<noteq> dx_fid_int" "dx_fid_byte_array \<noteq> dx_fid_compact_int"
  "dx_fid_flag_wide_decimal \<noteq> dx_fid_flag_long" "dx_fid_flag_wide_decimal \<noteq> dx_fid_flag_time_millis"
  "dx_fid_flag_decimal \<noteq> dx_fid_flag_long" "dx_fid_flag_decimal \<noteq> dx_fid_flag_time_millis" "dx_fid_flag_decimal \<noteq> dx_fid_flag_wide_decimal"
  by (simp_all add: dx_fid_utf_char_def dx_fid_void_def dx_fid_byte_def dx_fid_compact_int_def dx_fid_short_def dx_fid_int_def
      dx_fid_byte_array_def dx_fid_flag_wide_decimal_def dx_fid_flag_long_def dx_fid_flag_time_millis_def dx_fid_flag_decimal_def)

lemma takes_then: "takes m bs h x g \<Longrightarrow> takes (k x) [] g y h' \<Longrightarrow> takes (checked m k) bs h y h'"
  using takes_seq [of m bs h x g k "[]"] by simp

lemma takes_null_string: "takes (read_c_string all_mem) (compact_int_bytes (- 1)) h None h"
proof -
  have r: "takes (on_input (dx_read_utf_string all_mem)) (compact_int_bytes (- 1)) h None h"
    by (rule takes_on_input, rule receives_null_string)
  have "takes (return None) [] h (None :: dxf_char list option) h" by (rule takes_return)
  with takes_seq [OF r, of "\<lambda>s. return (map_option c_string s)" "[]" None h] show ?thesis by (simp add: read_c_string_def)
qed

lemma takes_read_field:
  assumes c: "carries d v" and r: "rows ctx kind = Some r"
  shows "takes (read_field all_mem kind d) (wire_bytes v) ctx () (put_row kind (put_sent (d, v) r) ctx)"
proof (cases v)
  case W_default
  then obtain f where f: "digest_setter d = Some f" "digest_default d = Some f" using c by auto
  then have s: "set_default d r = Inr (put_sent (d, v) r)" using W_default by (simp add: set_default_def put_sent_def)
  have e: "read_field all_mem kind d = on_context (on_row kind (set_default d))" using c W_default by (simp add: read_field_def serialization_def Let_def)
  have b: "wire_bytes v = []" by (simp add: W_default)
  show ?thesis unfolding e b by (rule takes_on_row, rule r, rule s)
next
  case (W_char ch)
  then have k: "set_by T_char d" "0 \<le> sint ch" "sint ch \<le> 0x10FFFF" "serialization d = dx_fid_utf_char" using c by simp_all
  have s: "CHECKED_SET_VALUE (digest_setter d) (Var_char (ucast ch)) r = Inr (put_sent (d, v) r)"
    by (rule set_value [where w = "F_char (ucast ch)", OF k(1)]) (simp_all add: W_char)
  have e: "read_field all_mem kind d = checked (on_input dx_read_utf_char)
      (\<lambda>c. on_context (on_row kind (CHECKED_SET_VALUE (digest_setter d) (Var_char (ucast c)))))"
    using k(4) by (simp add: read_field_def serialization_def Let_def fid_distinct)
  show ?thesis unfolding e
    by (rule takes_then [where x = ch and g = ctx]) (use W_char k in \<open>simp add: takes_on_input receives_utf_char\<close>, rule takes_on_row, rule r, rule s)
next
  case (W_int i)
  then have k: "set_by T_int d" "serialization d = dx_fid_compact_int" "\<not> is_decimal (repr_of d)" "repr_of d \<noteq> dx_fid_flag_long"
    "repr_of d \<noteq> dx_fid_flag_time_millis" "\<not> is_decimal (local_type d AND dx_fid_mask_representation)" using c by simp_all
  have s: "CHECKED_SET_VALUE (digest_setter d) (Var_int i) r = Inr (put_sent (d, v) r)"
    by (rule set_value [where w = "F_int i", OF k(1)]) (simp_all add: W_int assigned_int)
  have e: "read_field all_mem kind d = checked (on_input dx_read_compact_int)
      (\<lambda>i. on_context (on_row kind (CHECKED_SET_VALUE (digest_setter d) (Var_int i))))"
    using k(2-6) by (simp add: read_field_def read_compact_field_def serialization_def repr_of_def Let_def fid_distinct is_decimal_def)
  show ?thesis unfolding e
    by (rule takes_then [where x = i and g = ctx]) (use W_int in \<open>simp add: takes_compact_int\<close>, rule takes_on_row, rule r, rule s)
next
  case (W_number i)
  then have k: "set_by T_double d" "serialization d = dx_fid_compact_int" "\<not> is_decimal (repr_of d)" "repr_of d \<noteq> dx_fid_flag_long"
    "repr_of d \<noteq> dx_fid_flag_time_millis" "is_decimal (local_type d AND dx_fid_mask_representation)" using c by simp_all
  have s: "CHECKED_SET_VALUE (digest_setter d) (Var_double (D_Num (of_int (sint i)))) r = Inr (put_sent (d, v) r)"
    by (rule set_value [where w = "F_double (D_Num (of_int (sint i)))", OF k(1)]) (simp_all add: W_number)
  have e: "read_field all_mem kind d = checked (on_input dx_read_compact_int)
      (\<lambda>i. on_context (on_row kind (CHECKED_SET_VALUE (digest_setter d) (Var_double (D_Num (of_int (sint i)))))))"
    using k(2-6) by (simp add: read_field_def read_compact_field_def serialization_def repr_of_def Let_def fid_distinct is_decimal_def)
  show ?thesis unfolding e
    by (rule takes_then [where x = i and g = ctx]) (use W_number in \<open>simp add: takes_compact_int\<close>, rule takes_on_row, rule r, rule s)
next
  case (W_decimal i)
  then have k: "decimal_field d (dx_decimal_int_to_double i)" "serialization d = dx_fid_compact_int" "repr_of d = dx_fid_flag_decimal" using c by simp_all
  have s: "set_double kind d (dx_decimal_int_to_double i) ctx = Inr (put_row kind (put_sent (d, v) r) ctx)"
    by (rule set_double_spec [OF k(1) _ r]) (simp add: W_decimal)
  have e: "read_field all_mem kind d = checked (on_input dx_read_compact_int) (\<lambda>i. on_context (set_double kind d (dx_decimal_int_to_double i)))"
    using k(2,3) by (simp add: read_field_def read_compact_field_def serialization_def repr_of_def Let_def fid_distinct)
  show ?thesis unfolding e
    by (rule takes_then [where x = i and g = ctx]) (use W_decimal in \<open>simp add: takes_compact_int\<close>, rule takes_on_context, rule s)
next
  case (W_wide l)
  then have k: "decimal_field d (dx_wide_decimal_long_to_double l)" "\<not> lost_sign_long l" "serialization d = dx_fid_compact_int"
    "repr_of d = dx_fid_flag_wide_decimal" using c by simp_all
  have s: "set_double kind d (dx_wide_decimal_long_to_double l) ctx = Inr (put_row kind (put_sent (d, v) r) ctx)"
    by (rule set_double_spec [OF k(1) _ r]) (simp add: W_wide)
  have e: "read_field all_mem kind d = checked (on_input dx_read_compact_long) (\<lambda>l. on_context (set_double kind d (dx_wide_decimal_long_to_double l)))"
    using k(3,4) by (simp add: read_field_def read_compact_field_def serialization_def repr_of_def Let_def fid_distinct)
  show ?thesis unfolding e
    by (rule takes_then [where x = l and g = ctx]) (use W_wide k(2) in \<open>simp add: takes_on_input receives_compact_long\<close>, rule takes_on_context, rule s)
next
  case (W_long l)
  then have k: "set_by T_long d" "\<not> lost_sign_long l" "serialization d = dx_fid_compact_int"
    "repr_of d = dx_fid_flag_long \<or> repr_of d = dx_fid_flag_time_millis" using c by simp_all
  have s: "CHECKED_SET_VALUE (digest_setter d) (Var_long l) r = Inr (put_sent (d, v) r)"
    by (rule set_value [where w = "F_long l", OF k(1)]) (simp_all add: W_long)
  have e: "read_field all_mem kind d = checked (on_input dx_read_compact_long)
      (\<lambda>l. on_context (on_row kind (CHECKED_SET_VALUE (digest_setter d) (Var_long l))))"
    using k(3,4) by (simp add: read_field_def read_compact_field_def serialization_def repr_of_def Let_def fid_distinct)
  show ?thesis unfolding e
    by (rule takes_then [where x = l and g = ctx]) (use W_long k(2) in \<open>simp add: takes_on_input receives_compact_long\<close>, rule takes_on_row, rule r, rule s)
next
  case (W_string str)
  then have k: "set_by T_string d" "serialization d = dx_fid_byte_array" "repr_of d = dx_fid_flag_string" using c by simp_all
  have t: "takes (read_c_string all_mem) (wire_bytes v) ctx str ctx"
    using c W_string by (cases str) (simp_all add: takes_null_string takes_c_string)
  have s: "CHECKED_SET_VALUE (digest_setter d) (Var_string str) r = Inr (put_sent (d, v) r)"
    by (rule set_value [where w = "F_string str", OF k(1)]) (simp_all add: W_string)
  have e: "read_field all_mem kind d = checked (read_c_string all_mem)
      (\<lambda>s. on_context (on_row kind (CHECKED_SET_VALUE (digest_setter d) (Var_string s))))"
    using k(2,3) by (simp add: read_field_def serialization_def repr_of_def Let_def fid_distinct)
  show ?thesis unfolding e by (rule takes_then [OF t], rule takes_on_row, rule r, rule s)
next
  case (W_bytes bs)
  then have k: "set_by T_byte_array d" "length bs < 2 ^ 31" "serialization d = dx_fid_byte_array" "repr_of d \<noteq> dx_fid_flag_string" using c by simp_all
  have s: "CHECKED_SET_VALUE (digest_setter d) (Var_bytes bs) r = Inr (put_sent (d, v) r)"
    by (rule set_value [where w = "F_bytes bs", OF k(1)]) (simp_all add: W_bytes)
  have e: "read_field all_mem kind d = checked (on_input (dx_read_byte_array all_mem))
      (\<lambda>bs. on_context (on_row kind (CHECKED_SET_VALUE (digest_setter d) (Var_bytes bs))))"
    using k(3,4) by (simp add: read_field_def serialization_def repr_of_def Let_def fid_distinct)
  show ?thesis unfolding e
    by (rule takes_then [where x = bs and g = ctx]) (use W_bytes k(2) in \<open>simp add: takes_on_input receives_byte_array\<close>, rule takes_on_row, rule r, rule s)
qed

lemma carries_serialization:
  "carries d v \<Longrightarrow> serialization d \<in> {dx_fid_void, dx_fid_byte, dx_fid_utf_char, dx_fid_short, dx_fid_int,
     dx_fid_compact_int, dx_fid_byte_array, dx_fid_utf_char_array}"
  by (cases v) auto

definition put_all :: "dx_field_digest list \<Rightarrow> wire_value list \<Rightarrow> row \<Rightarrow> row" where
  "put_all ds vs r = fold put_sent (zip ds vs) r"

lemma takes_read_fields:
  assumes "list_all2 carries ds vs" "rows ctx kind = Some r"
  shows "takes (read_fields all_mem kind ds) (concat (map wire_bytes vs)) ctx () (unlock_digests (put_row kind (put_all ds vs r) ctx))"
  using assms
proof (induction ds vs arbitrary: ctx r rule: list_all2_induct)
  case Nil
  then show ?case by (simp add: put_all_def) (rule takes_on_context, simp)
next
  case (Cons d ds v vs)
  have t: "takes (checked (read_field all_mem kind d) (\<lambda>_. read_fields all_mem kind ds)) (wire_bytes v @ concat (map wire_bytes vs)) ctx ()
      (unlock_digests (put_row kind (put_all ds vs (put_sent (d, v) r)) (put_row kind (put_sent (d, v) r) ctx)))"
    by (rule takes_seq [OF takes_read_field], rule Cons.hyps(1), rule Cons.prems, rule Cons.IH) simp
  have e: "read_fields all_mem kind (d # ds) = checked (read_field all_mem kind d) (\<lambda>_. read_fields all_mem kind ds)"
    using carries_serialization [OF Cons.hyps(1)] by (simp add: serialization_def)
  show ?case unfolding e using t by (simp add: put_all_def)
qed

lemma lock_unlock [simp]: "unlock_digests (put_row kind r (lock_digests ctx)) = put_row kind r ctx"
  by (simp add: unlock_digests_def lock_digests_def put_row_def)

lemma lock_rows [simp]: "rows (lock_digests ctx) = rows ctx" "dx_get_record_digest rid (dscc (lock_digests ctx)) = dx_get_record_digest rid (dscc ctx)"
  by (simp_all add: lock_digests_def dx_get_record_digest_def)

lemma takes_read_records:
  assumes "\<not> IS_FLAG_SET (last_flags ctx) dxf_ef_remove_event" "dx_get_record_digest rid (dscc ctx) = Some digest"
    "list_all2 carries (digest_fields digest) vs" "rows ctx kind = Some r"
  shows "takes (dx_read_records all_mem rid kind) (concat (map wire_bytes vs)) ctx () (put_row kind (put_all (digest_fields digest) vs r) ctx)"
  unfolding takes_def
proof (intro allI impI)
  fix input rest assume "wf_in input" "pending input = concat (map wire_bytes vs) @ rest"
  with takes_read_fields [OF assms(3), of "lock_digests ctx" kind r] assms
  show "dx_read_records all_mem rid kind (ctx, input) = (Inr (), put_row kind (put_all (digest_fields digest) vs r) ctx,
      advance (length (concat (map wire_bytes vs))) input)"
    by (simp add: takes_def dx_read_records_def Let_def)
qed

section \<open>Symbols on the wire\<close>

text \<open>
  A symbol is sent as its cipher when it has one, and otherwise as its characters; \<open>None\<close> is the marker
  that repeats the last symbol.  Event flags may precede it.
\<close>

definition name_bytes :: "dxf_char list \<Rightarrow> byte list" where
  "name_bytes s = (let c = dx_encode_symbol_name (Some s) in
     if c \<noteq> 0 then (case dx_decode_cipher c of Inr penta \<Rightarrow> penta_bytes penta | Inl _ \<Rightarrow> [])
     else 0xFD # compact_int_bytes (word_of_nat (length s)) @ symbol_bytes s)"

definition name_ok :: "dxf_char list \<Rightarrow> bool" where
  "name_ok s \<longleftrightarrow> dx_encode_symbol_name (Some s) \<noteq> 0 \<or> s \<noteq> [] \<and> length s < 2 ^ 30 \<and> 0 \<notin> set s"

fun flag_bytes :: "int32 option \<Rightarrow> byte list" where
  "flag_bytes None = []"
| "flag_bytes (Some f) = 0xF9 # compact_int_bytes f"

fun sym_bytes :: "dxf_char list option \<Rightarrow> byte list" where
  "sym_bytes None = [0xFF]"
| "sym_bytes (Some s) = name_bytes s"

definition flags_of :: "int32 option \<Rightarrow> int32" where
  "flags_of f = (case f of None \<Rightarrow> 0 | Some f \<Rightarrow> f)"

text \<open>What the symbol without its flags does to the variables of the reader, but for the position.\<close>

definition sym_read :: "int \<Rightarrow> dxf_char list option \<Rightarrow> symbol_ctx \<Rightarrow> symbol_ctx" where
  "sym_read L symb s = (case symb of
     None \<Rightarrow> s\<lparr>sym_result := None, cipher_result := 0\<rparr>
   | Some name \<Rightarrow> if dx_encode_symbol_name (Some name) \<noteq> 0 then s\<lparr>cipher_result := dx_encode_symbol_name (Some name)\<rparr>
       else string_read L name s)"

lemma cipher_penta:
  assumes "dx_encode_symbol_name (Some s) \<noteq> 0"
  obtains penta where "dx_decode_cipher (dx_encode_symbol_name (Some s)) = Inr penta" "name_bytes s = penta_bytes penta"
    "dx_encode_symbol_name (Some s) AND dx_get_codec_valid_cipher \<noteq> 0"
proof -
  let ?c = "dx_encode_symbol_name (Some s)"
  have "dx_decode_symbol_name (\<lambda>_. True) ?c = Inr (Some s)" by (rule decode_encode_symbol_name [OF assms])
  then obtain penta where p: "dx_decode_cipher ?c = Inr penta"
    using assms by (auto simp: dx_decode_symbol_name_def split: sum.splits)
  then have "bit ?c 30 \<or> bit ?c 31" unfolding dx_decode_cipher_cases by (auto split: if_splits)
  then have "bit (?c AND dx_get_codec_valid_cipher) 30 \<or> bit (?c AND dx_get_codec_valid_cipher) 31"
    by (auto simp: bit_and_iff dx_get_codec_valid_cipher_def bit_tags)
  then have "?c AND dx_get_codec_valid_cipher \<noteq> 0" by (metis bit_0_eq bot_apply bot_bool_def)
  then show thesis using that [OF p] assms p by (simp add: name_bytes_def)
qed

lemma loop_byte:
  assumes "wf_in (sym_in s)" "pending (sym_in s) = b # rest" "uint b < 0xF8 \<or> uint b > 0xF9"
  shows "read_symbol_loop (Suc fuel) mem L flags s = read_symbol_form mem L (ucast b) (s\<lparr>sym_in := advance 1 (sym_in s)\<rparr>)"
proof -
  have u: "uint (ucast b :: int32) = uint b" by (rule uint_up_ucast) (simp add: is_up)
  have n: "(ucast b :: int32) \<noteq> 0xF8" "(ucast b :: int32) \<noteq> 0xF9" using assms(3) by (auto simp: word_uint_eq_iff u)
  have "on_in dx_read_unsigned_byte s = (Inr (ucast b), s\<lparr>sym_in := advance 1 (sym_in s)\<rparr>)"
    using receives_unsigned_byte [of b] assms(1,2) by (simp add: receives_def on_in_def)
  then show ?thesis using n by (simp add: checked_def)
qed

lemma sym_loop_read:
  assumes "wf_in (sym_in s)" "pending (sym_in s) = sym_bytes symb @ rest" "\<And>name. symb = Some name \<Longrightarrow> name_ok name"
    "L \<le> int (length (sym_buffer s))"
  shows "read_symbol_loop (Suc fuel) all_mem L flags s =
    (Inr (), (sym_read L symb s)\<lparr>sym_in := advance (length (sym_bytes symb)) (sym_in s)\<rparr>)"
proof (cases symb)
  case None
  have "(ucast (0xFF :: byte) :: int32) = 0xFF" by simp
  then show ?thesis using loop_byte [OF assms(1), of "0xFF" rest fuel all_mem L flags] assms(2) None
    by (simp add: read_symbol_form_def sym_read_def)
next
  case (Some name)
  show ?thesis
  proof (cases "dx_encode_symbol_name (Some name) \<noteq> 0")
    case True
    then obtain penta where p: "dx_decode_cipher (dx_encode_symbol_name (Some name)) = Inr penta" "name_bytes name = penta_bytes penta"
      by (rule cipher_penta)
    have "pending (sym_in s) = penta_bytes penta @ rest" using assms(2) Some p(2) by simp
    from penta_received [OF p(1) True, unfolded sym_receives_def, rule_format, OF assms(1) this] show ?thesis
      using True Some p(2) by (simp add: sym_read_def del: read_symbol_loop.simps)
  next
    case False
    let ?s = "s\<lparr>sym_in := advance 1 (sym_in s)\<rparr>"
    have ok: "name \<noteq> []" "length name < 2 ^ 30" "0 \<notin> set name" using assms(3) [OF Some] False by (simp_all add: name_ok_def)
    have b: "pending (sym_in s) = [0xFD] @ (compact_int_bytes (word_of_nat (length name)) @ symbol_bytes name @ rest)"
      using assms(2) Some False by (simp add: name_bytes_def)
    note a = pending_advance [OF assms(1) b]
    have "read_symbol_string all_mem L ?s = (Inr (), (string_read L name ?s)
      \<lparr>sym_in := advance (length (compact_int_bytes (word_of_nat (length name))) + length (symbol_bytes name)) (sym_in ?s)\<rparr>)"
      by (rule symbol_text_form) (use a ok assms(4) in simp_all)
    moreover have "read_symbol_loop (Suc fuel) all_mem L flags s = read_symbol_string all_mem L ?s"
      using loop_byte [OF assms(1), of "0xFD" _ fuel all_mem L flags] b by (simp add: form_FD [simplified] del: read_symbol_loop.simps)
    ultimately show ?thesis using Some False
      by (simp add: sym_read_def string_read_def name_bytes_def del: read_symbol_loop.simps)
  qed
qed

lemma codec_symbol_read:
  assumes "wf_in (sym_in s)" "pending (sym_in s) = flag_bytes f @ sym_bytes symb @ rest" "\<And>name. symb = Some name \<Longrightarrow> name_ok name"
    "L \<le> int (length (sym_buffer s))"
  shows "dx_codec_read_symbol all_mem L s =
    (Inr (), (sym_read L symb s)\<lparr>sym_flags := flags_of f, mru_event_flags := (case f of None \<Rightarrow> mru_event_flags s | Some f \<Rightarrow> f),
       sym_in := advance (length (flag_bytes f) + length (sym_bytes symb)) (sym_in s)\<rparr>)"
proof (cases f)
  case None
  have "read_symbol_loop (Suc 1) all_mem L 0 (s\<lparr>sym_flags := 0\<rparr>) =
    (Inr (), (sym_read L symb (s\<lparr>sym_flags := 0\<rparr>))\<lparr>sym_in := advance (length (sym_bytes symb)) (sym_in (s\<lparr>sym_flags := 0\<rparr>))\<rparr>)"
    by (rule sym_loop_read) (use assms None in simp_all)
  then show ?thesis using None
    by (simp add: dx_codec_read_symbol_def numeral_2_eq_2 sym_read_def string_read_def flags_of_def split: option.split del: read_symbol_loop.simps)
next
  case (Some f')
  let ?s0 = "s\<lparr>sym_flags := 0\<rparr>" and ?n = "length (compact_int_bytes f')"
  let ?s1 = "?s0\<lparr>sym_in := advance 1 (sym_in s)\<rparr>"
  let ?s2 = "?s1\<lparr>sym_in := advance ?n (sym_in ?s1)\<rparr>"
  let ?s3 = "?s2\<lparr>mru_event_flags := f', sym_flags := f'\<rparr>"
  have b: "pending (sym_in s) = [0xF9] @ (compact_int_bytes f' @ sym_bytes symb @ rest)" using assms(2) Some by simp
  note a1 = pending_advance [OF assms(1) b]
  have w1: "wf_in (sym_in ?s1)" "pending (sym_in ?s1) = compact_int_bytes f' @ (sym_bytes symb @ rest)" using a1 by simp_all
  have w2: "wf_in (sym_in ?s2)" "pending (sym_in ?s2) = sym_bytes symb @ rest" using pending_advance [OF w1] by simp_all
  have o1: "on_in dx_read_unsigned_byte ?s0 = (Inr 0xF9, ?s1)"
    using receives_unsigned_byte [of "0xF9"] assms(1) b by (simp add: receives_def on_in_def)
  have o2: "on_in dx_read_compact_int ?s1 = (Inr f', ?s2)"
    using receives_compact_int [of f', unfolded receives_def, rule_format, OF w1] by (simp add: on_in_def)
  have e: "read_symbol_loop (Suc 1) all_mem L 0 ?s0 =
      read_symbol_loop 1 all_mem L (current_in_buffer_position (sym_in ?s2) - current_in_buffer_position (sym_in ?s1)) ?s3"
    unfolding read_symbol_loop.simps(2) [of 1] checked_apply [of "on_in dx_read_unsigned_byte"] o1 prod.case sum.case
    using o2 by (simp add: checked_def Let_def del: One_nat_def)
  have "read_symbol_loop (Suc 0) all_mem L flags ?s3 = (Inr (), (sym_read L symb ?s3)\<lparr>sym_in := advance (length (sym_bytes symb)) (sym_in ?s3)\<rparr>)" for flags
    by (rule sym_loop_read) (use w2 assms(3,4) in simp_all)
  with e show ?thesis using Some
    by (simp add: dx_codec_read_symbol_def numeral_2_eq_2 sym_read_def string_read_def flags_of_def add.commute
        split: option.split del: read_symbol_loop.simps)
qed

section \<open>Records on the wire\<close>

definition data_ok :: "'e data_ctx \<Rightarrow> bool" where
  "data_ok ctx \<longleftrightarrow> length (symbol_buffer ctx) = SYMBOL_BUFFER_LEN + 1 \<and> symbol_result ctx = None
     \<and> (\<forall>s. last_symbol ctx = Some s \<longrightarrow> last_cipher ctx = dx_encode_symbol_name (Some s))"

definition current_symbol :: "dxf_char list option \<Rightarrow> dxf_char list option \<Rightarrow> dxf_char list option" where
  "current_symbol symb prev = (case symb of None \<Rightarrow> prev | Some s \<Rightarrow> Some s)"

definition symbol_ok :: "dxf_char list option \<Rightarrow> dxf_char list option \<Rightarrow> bool" where
  "symbol_ok symb prev \<longleftrightarrow> (case symb of None \<Rightarrow> prev \<noteq> None | Some s \<Rightarrow> name_ok s)"

lemma cipher_of_length: "n < 2 ^ 30 \<Longrightarrow> (word_of_nat n :: int32) AND dx_get_codec_valid_cipher = 0"
proof (rule bit_word_eqI)
  fix i assume n: "n < 2 ^ 30"
  have v: "dx_get_codec_valid_cipher = push_bit 30 (mask 2)"
    by (simp add: dx_get_codec_valid_cipher_def push_bit_eq_mult mask_eq_exp_minus_1)
  have "\<not> bit n i" if "30 \<le> i"
    using n that by (metis bit_take_bit_iff linorder_not_le take_bit_nat_eq_self_iff)
  then show "bit ((word_of_nat n :: int32) AND dx_get_codec_valid_cipher) i = bit (0 :: int32) i"
    unfolding v by (auto simp: bit_and_iff bit_push_bit_iff bit_of_nat_iff)
qed

lemma takes_codec_symbol:
  assumes ok: "data_ok ctx" and name: "\<And>name. symb = Some name \<Longrightarrow> name_ok name"
  shows "takes (read_codec_symbol all_mem) (flag_bytes f @ sym_bytes symb) ctx
    (cipher_result (sym_read (int SYMBOL_BUFFER_LEN) symb \<lparr>sym_in = new_in [], sym_buffer = symbol_buffer ctx, sym_result = None,
       cipher_result = 0, sym_flags = 0, mru_event_flags = 0\<rparr>))
    (let s = sym_read (int SYMBOL_BUFFER_LEN) symb \<lparr>sym_in = new_in [], sym_buffer = symbol_buffer ctx, sym_result = None,
       cipher_result = 0, sym_flags = 0, mru_event_flags = 0\<rparr>
     in ctx\<lparr>symbol_buffer := sym_buffer s, symbol_result := sym_result s, last_flags := flags_of f,
       mru_flags := (case f of None \<Rightarrow> mru_flags ctx | Some f \<Rightarrow> f)\<rparr>)"
  unfolding takes_def
proof (intro allI impI)
  fix input rest assume wf: "wf_in input" and p: "pending input = (flag_bytes f @ sym_bytes symb) @ rest"
  let ?s = "\<lparr>sym_in = input, sym_buffer = symbol_buffer ctx, sym_result = symbol_result ctx, cipher_result = 0,
    sym_flags = last_flags ctx, mru_event_flags = mru_flags ctx\<rparr>"
  have "dx_codec_read_symbol all_mem (int SYMBOL_BUFFER_LEN) ?s = (Inr (), (sym_read (int SYMBOL_BUFFER_LEN) symb ?s)\<lparr>sym_flags := flags_of f,
      mru_event_flags := (case f of None \<Rightarrow> mru_event_flags ?s | Some f \<Rightarrow> f),
      sym_in := advance (length (flag_bytes f) + length (sym_bytes symb)) (sym_in ?s)\<rparr>)"
    by (rule codec_symbol_read) (use wf p ok name in \<open>simp_all add: data_ok_def\<close>)
  then show "read_codec_symbol all_mem (ctx, input) = (Inr (cipher_result (sym_read (int SYMBOL_BUFFER_LEN) symb \<lparr>sym_in = new_in [],
      sym_buffer = symbol_buffer ctx, sym_result = None, cipher_result = 0, sym_flags = 0, mru_event_flags = 0\<rparr>)),
    let s = sym_read (int SYMBOL_BUFFER_LEN) symb \<lparr>sym_in = new_in [], sym_buffer = symbol_buffer ctx, sym_result = None,
       cipher_result = 0, sym_flags = 0, mru_event_flags = 0\<rparr>
     in ctx\<lparr>symbol_buffer := sym_buffer s, symbol_result := sym_result s, last_flags := flags_of f,
       mru_flags := (case f of None \<Rightarrow> mru_flags ctx | Some f \<Rightarrow> f)\<rparr>,
    advance (length (flag_bytes f @ sym_bytes symb)) input)"
    using ok by (simp add: read_codec_symbol_def data_ok_def sym_read_def string_read_def Let_def split: option.split)
qed

text \<open>Reading a symbol and, when it came as a cipher, decoding it.\<close>

lemma takes_symbol:
  assumes ok: "data_ok ctx" and s: "symbol_ok symb (last_symbol ctx)"
  obtains ctx1 ctx' where "takes (dx_read_symbol all_mem) (flag_bytes f @ sym_bytes symb) ctx () ctx1"
    "decode_last_symbol all_mem ctx1 = (Inr (), ctx')" "data_ok ctx'" "last_symbol ctx' = current_symbol symb (last_symbol ctx)"
    "last_flags ctx' = flags_of f" "dscc ctx' = dscc ctx" "rows ctx' = rows ctx" "receiver ctx' = receiver ctx"
proof -
  let ?mru = "case f of None \<Rightarrow> mru_flags ctx | Some f \<Rightarrow> f"
  let ?k = "\<lambda>r ctx. if r AND dx_get_codec_valid_cipher \<noteq> 0 then (Inr (), ctx\<lparr>last_cipher := r, last_symbol := None\<rparr>)
     else if 0 < sint r then
       (case dx_create_string_src_len all_mem (symbol_buffer ctx) (nat (sint r)) of
          None \<Rightarrow> (Inl dx_mec_insufficient_memory, ctx\<lparr>last_cipher := 0, last_symbol := None\<rparr>)
        | Some str \<Rightarrow> (Inr (), ctx\<lparr>last_cipher := 0, last_symbol := Some (c_string str)\<rparr>))
     else
       let ctx = (case symbol_result ctx of
           None \<Rightarrow> ctx
         | Some str \<Rightarrow> ctx\<lparr>last_symbol := Some (c_string str), symbol_result := None,
             last_cipher := dx_encode_symbol_name (Some (c_string str))\<rparr>)
       in if last_cipher ctx = 0 \<and> last_symbol ctx = None then (Inl dx_pec_invalid_symbol, ctx) else (Inr (), ctx)"
  have rd: "takes (dx_read_symbol all_mem) (flag_bytes f @ sym_bytes symb) ctx () ctx1"
    if "\<And>name. symb = Some name \<Longrightarrow> name_ok name" and
      "?k (cipher_result (sym_read (int SYMBOL_BUFFER_LEN) symb \<lparr>sym_in = new_in [], sym_buffer = symbol_buffer ctx, sym_result = None,
       cipher_result = 0, sym_flags = 0, mru_event_flags = 0\<rparr>))
       (let s = sym_read (int SYMBOL_BUFFER_LEN) symb \<lparr>sym_in = new_in [], sym_buffer = symbol_buffer ctx, sym_result = None,
       cipher_result = 0, sym_flags = 0, mru_event_flags = 0\<rparr>
     in ctx\<lparr>symbol_buffer := sym_buffer s, symbol_result := sym_result s, last_flags := flags_of f, mru_flags := ?mru\<rparr>) = (Inr (), ctx1)" for ctx1
    unfolding dx_read_symbol_def
    by (rule takes_then [OF takes_codec_symbol [OF ok that(1)]], assumption) (rule takes_on_first, rule that(2))
  show thesis
  proof (cases symb)
    case None
    let ?c = "ctx\<lparr>last_flags := flags_of f, mru_flags := ?mru, symbol_result := None\<rparr>"
    obtain name where name: "last_symbol ctx = Some name" using s None by (auto simp: symbol_ok_def)
    have "takes (dx_read_symbol all_mem) (flag_bytes f @ sym_bytes symb) ctx () ?c"
      by (rule rd) (use None name ok in \<open>simp_all add: sym_read_def data_ok_def\<close>)
    then show thesis by (rule that [of _ ?c]) (use None name ok in \<open>simp_all add: decode_last_symbol_def current_symbol_def data_ok_def\<close>)
  next
    case (Some name)
    have n: "name_ok name" using s Some by (simp add: symbol_ok_def)
    show thesis
    proof (cases "dx_encode_symbol_name (Some name) \<noteq> 0")
      case True
      then have v: "dx_encode_symbol_name (Some name) AND dx_get_codec_valid_cipher \<noteq> 0" by (rule cipher_penta)
      let ?c = "ctx\<lparr>last_flags := flags_of f, mru_flags := ?mru, symbol_result := None, last_cipher := dx_encode_symbol_name (Some name), last_symbol := None\<rparr>"
      have "takes (dx_read_symbol all_mem) (flag_bytes f @ sym_bytes symb) ctx () ?c"
        by (rule rd) (use Some True v n in \<open>simp_all add: sym_read_def\<close>)
      moreover have "decode_last_symbol all_mem ?c = (Inr (), ?c\<lparr>last_symbol := Some name\<rparr>)"
        using decode_encode_symbol_name [OF True] by (simp add: decode_last_symbol_def)
      ultimately show thesis by (rule that) (use Some ok in \<open>simp_all add: current_symbol_def data_ok_def\<close>)
    next
      case False
      then have e: "name \<noteq> []" "length name < 2 ^ 30" "0 \<notin> set name" using n by (simp_all add: name_ok_def)
      have w: "(word_of_nat (length name) :: int32) AND dx_get_codec_valid_cipher = 0" by (rule cipher_of_length [OF e(2)])
      have len: "sint (word_of_nat (length name) :: int32) = int (length name)" using sint_of_small_nat [of "length name"] e(2) by simp
      have cs: "c_string (name @ [0]) = name" using c_string_of [OF e(3), of "[]"] by simp
      show thesis
      proof (cases "int (length name) \<le> int SYMBOL_BUFFER_LEN")
        case True
        let ?c = "ctx\<lparr>symbol_buffer := name @ drop (length name) (symbol_buffer ctx), last_flags := flags_of f, mru_flags := ?mru,
          symbol_result := None, last_cipher := 0, last_symbol := Some name\<rparr>"
        have "takes (dx_read_symbol all_mem) (flag_bytes f @ sym_bytes symb) ctx () ?c"
          by (rule rd) (use Some False True n w e len cs create_string_whole [OF e(3)] in \<open>simp_all add: sym_read_def string_read_def\<close>)
        then show thesis by (rule that [of _ ?c])
          (use Some False True ok in \<open>simp_all add: decode_last_symbol_def current_symbol_def data_ok_def\<close>)
      next
        case big: False
        let ?c = "ctx\<lparr>last_flags := flags_of f, mru_flags := ?mru, symbol_result := None, last_symbol := Some name, last_cipher := 0\<rparr>"
        have "takes (dx_read_symbol all_mem) (flag_bytes f @ sym_bytes symb) ctx () ?c"
          by (rule rd) (use Some False big n e cs in \<open>simp_all add: sym_read_def string_read_def Let_def\<close>)
        then show thesis by (rule that [of _ ?c]) (use Some False ok in \<open>simp_all add: decode_last_symbol_def current_symbol_def data_ok_def\<close>)
      qed
    qed
  qed
qed

record sent_record =
  sent_flags :: "int32 option"
  sent_symbol :: "dxf_char list option"
  sent_id :: int32
  sent_values :: "wire_value list"

definition sent_bytes :: "sent_record \<Rightarrow> byte list" where
  "sent_bytes sr = flag_bytes (sent_flags sr) @ sym_bytes (sent_symbol sr) @ compact_int_bytes (sent_id sr) @ concat (map wire_bytes (sent_values sr))"

text \<open>
  What the records of a message act on: the data structures, the rows, the last symbol and the state of
  the receiver.  \<open>receive\<close> is the effect of one record, \<open>receivable\<close> says that it is described and has a
  symbol and that its transcoder succeeds.
\<close>

type_synonym 'e view = "record_ctx \<times> (dx_record_info_id \<Rightarrow> row option) \<times> dxf_char list option \<times> 'e"

definition view_of :: "'e data_ctx \<Rightarrow> 'e view" where
  "view_of ctx = (dscc ctx, rows ctx, last_symbol ctx, receiver ctx)"

definition free_rows :: "(dx_record_info_id \<Rightarrow> row option) \<Rightarrow> dx_record_info_id \<Rightarrow> row option" where
  "free_rows rws kind = map_option (\<lambda>r member. map_option freed (r member)) (rws kind)"

definition filled_row :: "record_ctx \<Rightarrow> (dx_record_info_id \<Rightarrow> row option) \<Rightarrow> sent_record \<Rightarrow> row" where
  "filled_row ds rws sr =
     (let rid = dx_get_record_id (sent_id sr) ds
      in put_all (digest_fields (the (dx_get_record_digest rid ds))) (sent_values sr)
           (case rws (rec_info_id (the (dx_get_record_by_id rid ds))) of None \<Rightarrow> Map.empty | Some r \<Rightarrow> r))"

definition event_call :: "(dxf_char list \<Rightarrow> long64) \<Rightarrow> record_ctx \<Rightarrow> dxf_char list \<Rightarrow> sent_record \<Rightarrow> long64 \<Rightarrow> dx_record_params \<times> dxf_event_params" where
  "event_call symbol_hash ds name sr time =
     (let rid = dx_get_record_id (sent_id sr) ds; info = the (dx_get_record_by_id rid ds);
          suffix = (if length (rec_suffix info) > 0 then Some (rec_suffix info) else None)
      in (\<lparr>rp_record_id = rid, rp_record_info_id = rec_info_id info, rp_suffix = suffix, rp_symbol_name = Some name,
            rp_symbol_cipher = dx_encode_symbol_name (Some name), rp_flags = flags_of (sent_flags sr), rp_time_int_field = time\<rparr>,
          \<lparr>ep_flags = flags_of (sent_flags sr), ep_time_int_field = time,
            ep_snapshot_key = dx_new_snapshot_key symbol_hash (rec_info_id info) name suffix\<rparr>))"

definition transcoded :: "(dxf_char list \<Rightarrow> long64) \<Rightarrow> 'e transcoder \<Rightarrow> sent_record \<Rightarrow> 'e view \<Rightarrow> (dx_error + unit) \<times> record_ctx \<times> row \<times> 'e" where
  "transcoded symbol_hash transcode sr v = (case v of (ds, rws, prev, e) \<Rightarrow>
     let r = filled_row ds rws sr
     in case dx_get_time_int_field (dx_get_record_id (sent_id sr) ds) ds r of
          Inl err \<Rightarrow> (Inl err, ds, r, e)
        | Inr time \<Rightarrow> (case event_call symbol_hash ds (the (current_symbol (sent_symbol sr) prev)) sr time of
            (params, event_params) \<Rightarrow> transcode params event_params (ds, r, e)))"

definition receive :: "(dxf_char list \<Rightarrow> long64) \<Rightarrow> 'e transcoder \<Rightarrow> sent_record \<Rightarrow> 'e view \<Rightarrow> 'e view" where
  "receive symbol_hash transcode sr v = (case v of (ds, rws, prev, e) \<Rightarrow>
     (case transcoded symbol_hash transcode sr v of (_, ds', r', e') \<Rightarrow>
        (ds', free_rows (rws(rec_info_id (the (dx_get_record_by_id (dx_get_record_id (sent_id sr) ds) ds)) \<mapsto> r')),
         current_symbol (sent_symbol sr) prev, e')))"

definition receivable :: "(dxf_char list \<Rightarrow> long64) \<Rightarrow> 'e transcoder \<Rightarrow> sent_record \<Rightarrow> 'e view \<Rightarrow> bool" where
  "receivable symbol_hash transcode sr v = (case v of (ds, rws, prev, e) \<Rightarrow>
     let rid = dx_get_record_id (sent_id sr) ds in
     0 \<le> rid \<and> symbol_ok (sent_symbol sr) prev \<and> \<not> IS_FLAG_SET (flags_of (sent_flags sr)) dxf_ef_remove_event
     \<and> (case (dx_get_record_by_id rid ds, dx_get_record_digest rid ds) of
          (Some info, Some digest) \<Rightarrow> in_sync_with_server digest \<and> list_all2 carries (digest_fields digest) (sent_values sr)
        | _ \<Rightarrow> False)
     \<and> fst (transcoded symbol_hash transcode sr v) = Inr ())"

fun all_receivable :: "(dxf_char list \<Rightarrow> long64) \<Rightarrow> 'e transcoder \<Rightarrow> sent_record list \<Rightarrow> 'e view \<Rightarrow> bool" where
  "all_receivable symbol_hash transcode [] v \<longleftrightarrow> True"
| "all_receivable symbol_hash transcode (sr # srs) v \<longleftrightarrow> receivable symbol_hash transcode sr v
     \<and> all_receivable symbol_hash transcode srs (receive symbol_hash transcode sr v)"

section \<open>Receiving records\<close>

lemma takes_free_on_error: "takes m bs h v h' \<Longrightarrow> takes (free_on_error m) bs h v h'"
  by (simp add: takes_def free_on_error_def)

lemma takes_get_row:
  "takes (on_first (get_row all_mem kind)) [] ctx () (put_row kind (case rows ctx kind of None \<Rightarrow> Map.empty | Some r \<Rightarrow> r) ctx)"
proof (rule takes_on_first, cases "rows ctx kind")
  case None
  then show "get_row all_mem kind ctx = (Inr (), put_row kind (case rows ctx kind of None \<Rightarrow> Map.empty | Some r \<Rightarrow> r) ctx)"
    by (simp add: get_row_def put_row_def)
next
  case (Some r)
  then show "get_row all_mem kind ctx = (Inr (), put_row kind (case rows ctx kind of None \<Rightarrow> Map.empty | Some r \<Rightarrow> r) ctx)"
    by (simp add: get_row_def)
qed

lemma put_row_other [simp]:
  "dscc (put_row kind r ctx) = dscc ctx" "last_symbol (put_row kind r ctx) = last_symbol ctx" "last_cipher (put_row kind r ctx) = last_cipher ctx"
  "last_flags (put_row kind r ctx) = last_flags ctx" "receiver (put_row kind r ctx) = receiver ctx"
  "symbol_buffer (put_row kind r ctx) = symbol_buffer ctx" "symbol_result (put_row kind r ctx) = symbol_result ctx"
  by (simp_all add: put_row_def)

lemma transcode_row_spec:
  assumes v: "view_of ctx = (ds, rws, prev, e)" and name: "last_symbol ctx = Some name" and ok: "data_ok ctx"
    and fl: "last_flags ctx = flags_of (sent_flags sr)" and cur: "current_symbol (sent_symbol sr) prev0 = Some name"
    and info: "dx_get_record_by_id (dx_get_record_id (sent_id sr) ds) ds = Some info"
    and r: "rows ctx (rec_info_id info) = Some (filled_row ds rws0 sr)"
    and t: "transcoded symbol_hash transcode sr (ds, rws0, prev0, e) = (Inr (), ds', r', e')"
  shows "transcode_row symbol_hash transcode (dx_get_record_id (sent_id sr) ds) info ctx =
    (Inr (), (put_row (rec_info_id info) r' ctx)\<lparr>dscc := ds', receiver := e'\<rparr>)"
proof -
  have d: "dscc ctx = ds" "receiver ctx = e" using v by (simp_all add: view_of_def)
  obtain time where time: "dx_get_time_int_field (dx_get_record_id (sent_id sr) ds) ds (filled_row ds rws0 sr) = Inr time"
    using t by (cases "dx_get_time_int_field (dx_get_record_id (sent_id sr) ds) ds (filled_row ds rws0 sr)") (auto simp: transcoded_def Let_def)
  have c: "last_cipher ctx = dx_encode_symbol_name (Some name)" using ok name by (simp add: data_ok_def)
  from t time cur have "(case event_call symbol_hash ds name sr time of (params, event_params) \<Rightarrow>
      transcode params event_params (ds, filled_row ds rws0 sr, e)) = (Inr (), ds', r', e')"
    by (simp add: transcoded_def)
  then show ?thesis
    by (simp add: transcode_row_def event_call_def info time r name d c fl put_row_def Let_def cong: if_cong)
qed

lemma takes_process_record:
  assumes ok: "data_ok ctx" and rc: "receivable symbol_hash transcode sr (view_of ctx)"
  obtains ctx' where "takes (process_record all_mem symbol_hash transcode) (sent_bytes sr) ctx () ctx'"
    "data_ok ctx'" "view_of ctx' = receive symbol_hash transcode sr (view_of ctx)"
proof -
  let ?ds = "dscc ctx" and ?rid = "dx_get_record_id (sent_id sr) (dscc ctx)"
  have v: "view_of ctx = (?ds, rows ctx, last_symbol ctx, receiver ctx)" by (simp add: view_of_def)
  obtain info digest where p: "0 \<le> ?rid" "symbol_ok (sent_symbol sr) (last_symbol ctx)" "\<not> IS_FLAG_SET (flags_of (sent_flags sr)) dxf_ef_remove_event"
    "dx_get_record_by_id ?rid ?ds = Some info" "dx_get_record_digest ?rid ?ds = Some digest" "in_sync_with_server digest"
    "list_all2 carries (digest_fields digest) (sent_values sr)"
    using rc by (auto simp: receivable_def v Let_def split: option.splits)
  obtain ds' r' e' where t: "transcoded symbol_hash transcode sr (?ds, rows ctx, last_symbol ctx, receiver ctx) = (Inr (), ds', r', e')"
    using rc by (cases "transcoded symbol_hash transcode sr (?ds, rows ctx, last_symbol ctx, receiver ctx)")
      (auto simp: receivable_def v Let_def)
  obtain ctx1 ctx2 where s: "takes (dx_read_symbol all_mem) (flag_bytes (sent_flags sr) @ sym_bytes (sent_symbol sr)) ctx () ctx1"
    "decode_last_symbol all_mem ctx1 = (Inr (), ctx2)" "data_ok ctx2" "last_symbol ctx2 = current_symbol (sent_symbol sr) (last_symbol ctx)"
    "last_flags ctx2 = flags_of (sent_flags sr)" "dscc ctx2 = ?ds" "rows ctx2 = rows ctx" "receiver ctx2 = receiver ctx"
    by (rule takes_symbol [OF ok p(2), of "sent_flags sr"])
  obtain name where name: "current_symbol (sent_symbol sr) (last_symbol ctx) = Some name"
    using p(2) by (cases "sent_symbol sr") (auto simp: current_symbol_def symbol_ok_def)
  let ?kind = "rec_info_id info"
  let ?old = "case rows ctx ?kind of None \<Rightarrow> Map.empty | Some r \<Rightarrow> r"
  let ?r = "put_all (digest_fields digest) (sent_values sr) ?old"
  have fr: "filled_row ?ds (rows ctx) sr = ?r" using p(4,5) by (simp add: filled_row_def)
  let ?cc = "put_row ?kind ?r ctx2"
  let ?cd = "(put_row ?kind r' ?cc)\<lparr>dscc := ds', receiver := e'\<rparr>"
  have f: "find_described_record (sent_id sr) ctx2 = (Inr ?rid, ctx2)"
    using p s(6) by (simp add: find_described_record_def Let_def)
  have rr: "takes (dx_read_records all_mem ?rid ?kind) (concat (map wire_bytes (sent_values sr))) (put_row ?kind ?old ctx2) () ?cc"
    using takes_read_records [of "put_row ?kind ?old ctx2" ?rid digest "sent_values sr" ?kind ?old] p s(5,6) by simp
  have "data_ok ?cc" using s(3) by (simp add: data_ok_def)
  moreover have "last_symbol ?cc = Some name" using s(4) name by simp
  moreover have "view_of ?cc = (?ds, (rows ctx)(?kind \<mapsto> ?r), Some name, receiver ctx)"
    using s name by (simp add: view_of_def put_row_def)
  ultimately have tr: "transcode_row symbol_hash transcode ?rid info ?cc = (Inr (), ?cd)"
    using transcode_row_spec [OF _ _ _ _ name _ _ t, of ?cc _ _ info] p(4) s(5) fr by simp
  have tail: "takes (free_on_error (
             checked (on_first (get_row all_mem ?kind)) (\<lambda>_.
             checked (dx_read_records all_mem ?rid ?kind) (\<lambda>_.
             checked (on_first (transcode_row symbol_hash transcode ?rid info)) (\<lambda>_.
             on_context (\<lambda>ctx. Inr (dx_free_buffers ctx)))))))
      (concat (map wire_bytes (sent_values sr))) ctx2 () (dx_free_buffers ?cd)"
    by (rule takes_free_on_error, rule takes_seq_Nil, rule takes_get_row, rule takes_then, subst s(7), rule rr,
        rule takes_then, rule takes_on_first, rule tr, rule takes_on_context, rule refl)
  have tail2: "takes (\<lambda>(ctx, input). case dx_get_record_by_id ?rid (dscc ctx) of
         None \<Rightarrow> (Inl dx_ec_success, ctx, input)
       | Some info \<Rightarrow> free_on_error (
             checked (on_first (get_row all_mem (rec_info_id info))) (\<lambda>_.
             checked (dx_read_records all_mem ?rid (rec_info_id info)) (\<lambda>_.
             checked (on_first (transcode_row symbol_hash transcode ?rid info)) (\<lambda>_.
             on_context (\<lambda>ctx. Inr (dx_free_buffers ctx)))))) (ctx, input))
      (concat (map wire_bytes (sent_values sr))) ctx2 () (dx_free_buffers ?cd)"
    using tail p(4) s(6) by (simp add: takes_def)
  have "takes (process_record all_mem symbol_hash transcode)
      ((flag_bytes (sent_flags sr) @ sym_bytes (sent_symbol sr)) @ compact_int_bytes (sent_id sr) @ concat (map wire_bytes (sent_values sr)))
      ctx () (dx_free_buffers ?cd)"
    unfolding process_record_def
    by (rule takes_seq, rule s(1), rule takes_seq_Nil, rule takes_on_first, rule s(2), rule takes_seq, rule takes_free_on_error,
        rule takes_compact_int, rule takes_seq_Nil, rule takes_free_on_error, rule takes_on_first, rule f, rule tail2)
  moreover have "data_ok (dx_free_buffers ?cd)" using s(3) by (simp add: data_ok_def dx_free_buffers_def)
  moreover have "view_of (dx_free_buffers ?cd) = receive symbol_hash transcode sr (view_of ctx)"
    using t s p(4) name by (simp add: receive_def v view_of_def dx_free_buffers_def free_rows_def [abs_def] put_row_def)
  ultimately show thesis by (intro that) (simp_all add: sent_bytes_def)
qed

lemma sent_bytes_nonempty: "0 < length (sent_bytes sr)"
  unfolding sent_bytes_def length_append using length_compact_int_bytes(1) [of "sent_id sr"] by linarith

lemma process_records_run:
  assumes "data_ok ctx" "all_receivable symbol_hash transcode srs (view_of ctx)"
  shows "\<exists>ctx'. data_ok ctx' \<and> view_of ctx' = fold (receive symbol_hash transcode) srs (view_of ctx)
    \<and> (\<forall>fuel input rest. wf_in input \<longrightarrow> pending input = concat (map sent_bytes srs) @ rest \<longrightarrow>
         in_buffer_limit input = current_in_buffer_position input + int (length (concat (map sent_bytes srs))) \<longrightarrow>
         length (concat (map sent_bytes srs)) < fuel \<longrightarrow>
         process_records fuel all_mem symbol_hash transcode (ctx, input) =
           Some (Inr (), ctx', advance (length (concat (map sent_bytes srs))) input))"
  using assms
proof (induction srs arbitrary: ctx)
  case Nil
  have "process_records fuel all_mem symbol_hash transcode (ctx, input) = Some (Inr (), ctx, input)"
    if "in_buffer_limit input = current_in_buffer_position input" "0 < fuel" for fuel input
    using that by (cases fuel) simp_all
  then show ?case using Nil.prems(1) by (intro exI [of _ ctx]) (simp add: advance_zero)
next
  case (Cons sr srs)
  obtain c where c: "takes (process_record all_mem symbol_hash transcode) (sent_bytes sr) ctx () c" "data_ok c"
    "view_of c = receive symbol_hash transcode sr (view_of ctx)"
    using takes_process_record [OF Cons.prems(1)] Cons.prems(2) by (metis all_receivable.simps(2))
  have "all_receivable symbol_hash transcode srs (view_of c)" using Cons.prems(2) c(3) by simp
  from Cons.IH [OF c(2) this] obtain ctx' where ctx': "data_ok ctx'" "view_of ctx' = fold (receive symbol_hash transcode) srs (view_of c)"
    "\<And>fuel input rest. wf_in input \<Longrightarrow> pending input = concat (map sent_bytes srs) @ rest \<Longrightarrow>
       in_buffer_limit input = current_in_buffer_position input + int (length (concat (map sent_bytes srs))) \<Longrightarrow>
       length (concat (map sent_bytes srs)) < fuel \<Longrightarrow>
       process_records fuel all_mem symbol_hash transcode (c, input) = Some (Inr (), ctx', advance (length (concat (map sent_bytes srs))) input)"
    by blast
  have "process_records fuel all_mem symbol_hash transcode (ctx, input) =
      Some (Inr (), ctx', advance (length (concat (map sent_bytes (sr # srs)))) input)"
    if wf: "wf_in input" and p0: "pending input = concat (map sent_bytes (sr # srs)) @ rest"
      and lim: "in_buffer_limit input = current_in_buffer_position input + int (length (concat (map sent_bytes (sr # srs))))"
      and fuel: "length (concat (map sent_bytes (sr # srs))) < fuel" for fuel input rest
  proof -
    obtain n where n: "fuel = Suc n" using fuel by (cases fuel) auto
    have p: "pending input = sent_bytes sr @ (concat (map sent_bytes srs) @ rest)" using p0 by simp
    note a = pending_advance [OF wf p] and ne = sent_bytes_nonempty [of sr]
    have run: "process_record all_mem symbol_hash transcode (ctx, input) = (Inr (), c, advance (length (sent_bytes sr)) input)"
      by (rule takesD [OF c(1) wf p])
    have less: "length (concat (map sent_bytes srs)) < n" using fuel ne unfolding n list.map concat.simps length_append by linarith
    have "process_records n all_mem symbol_hash transcode (c, advance (length (sent_bytes sr)) input) =
        Some (Inr (), ctx', advance (length (concat (map sent_bytes srs))) (advance (length (sent_bytes sr)) input))"
      by (rule ctx'(3) [OF a _ less]) (use lim in \<open>simp add: advance_def\<close>)
    moreover have "current_in_buffer_position input < in_buffer_limit input"
      using lim ne unfolding list.map concat.simps length_append by linarith
    ultimately show ?thesis using run n by (simp add: add.commute)
  qed
  then show ?case using ctx'(1,2) c(3) by (intro exI [of _ ctx']) simp
qed

definition start_message :: "'e data_ctx \<Rightarrow> 'e data_ctx" where
  "start_message ctx = ctx\<lparr>last_cipher := 0, last_symbol := None, last_flags := 0, mru_flags := dxf_ef_tx_pending\<rparr>"

text \<open>A data message: its records one after the other, without a symbol at its start.\<close>

lemma data_message_run:
  assumes "length (symbol_buffer ctx) = SYMBOL_BUFFER_LEN + 1" "symbol_result ctx = None"
    "all_receivable symbol_hash transcode srs (dscc ctx, rows ctx, None, receiver ctx)"
  shows "\<exists>ctx'. data_ok ctx' \<and> view_of ctx' = fold (receive symbol_hash transcode) srs (dscc ctx, rows ctx, None, receiver ctx)
    \<and> (\<forall>input rest. wf_in input \<longrightarrow> pending input = concat (map sent_bytes srs) @ rest \<longrightarrow>
         in_buffer_limit input = current_in_buffer_position input + int (length (concat (map sent_bytes srs))) \<longrightarrow>
         dx_process_data_message all_mem symbol_hash transcode (ctx, input) =
           (Inr (), ctx', advance (length (concat (map sent_bytes srs))) input))"
proof -
  have v: "view_of (start_message ctx) = (dscc ctx, rows ctx, None, receiver ctx)" by (simp add: view_of_def start_message_def)
  have ok: "data_ok (start_message ctx)" using assms(1,2) by (simp add: data_ok_def start_message_def)
  have "all_receivable symbol_hash transcode srs (view_of (start_message ctx))" using assms(3) v by simp
  from process_records_run [OF ok this] obtain ctx' where c: "data_ok ctx'" "view_of ctx' = fold (receive symbol_hash transcode) srs (view_of (start_message ctx))"
    "\<And>fuel input rest. wf_in input \<Longrightarrow> pending input = concat (map sent_bytes srs) @ rest \<Longrightarrow>
       in_buffer_limit input = current_in_buffer_position input + int (length (concat (map sent_bytes srs))) \<Longrightarrow>
       length (concat (map sent_bytes srs)) < fuel \<Longrightarrow>
       process_records fuel all_mem symbol_hash transcode (start_message ctx, input) =
         Some (Inr (), ctx', advance (length (concat (map sent_bytes srs))) input)" by blast
  show ?thesis
  proof (intro exI [of _ ctx'] conjI allI impI)
    show "data_ok ctx'" "view_of ctx' = fold (receive symbol_hash transcode) srs (dscc ctx, rows ctx, None, receiver ctx)"
      using c(1,2) v by simp_all
    fix input rest
    assume a: "wf_in input" "pending input = concat (map sent_bytes srs) @ rest"
      "in_buffer_limit input = current_in_buffer_position input + int (length (concat (map sent_bytes srs)))"
    have "length (concat (map sent_bytes srs)) < Suc (nat (in_buffer_limit input - current_in_buffer_position input))" using a(3) by linarith
    from c(3) [OF a this] show "dx_process_data_message all_mem symbol_hash transcode (ctx, input) =
        (Inr (), ctx', advance (length (concat (map sent_bytes srs))) input)"
      by (simp add: dx_process_data_message_def start_message_def)
  qed
qed

end
