(* ===== verification/Dx_Data_Safety.thy ===== *)
theory Dx_Data_Safety
  imports Dx_Data_Records
begin

text \<open>
  Data messages on any input: they stay inside the buffer and end, the members of the rows keep their types,
  and what the error paths leave behind.
\<close>

section \<open>Any input\<close>

lemma keeps_symbol [keeps_intros]: "pair_keeps (read_codec_symbol mem)"
  unfolding pair_keeps_def
proof (intro allI impI)
  fix h :: "'e data_ctx" and input r h' input'
  assume wf: "wf_in input" "in_buffer_limit input \<le> in_buffer_length input" and e: "read_codec_symbol mem (h, input) = (r, h', input')"
  let ?s = "\<lparr>sym_in = input, sym_buffer = symbol_buffer h, sym_result = symbol_result h, cipher_result = 0,
    sym_flags = last_flags h, mru_event_flags = mru_flags h\<rparr>"
  show "wf_in input' \<and> same_buffer input input'"
  proof (cases "length (symbol_buffer h) = SYMBOL_BUFFER_LEN + 1")
    case True
    obtain r1 s where c: "dx_codec_read_symbol mem (int SYMBOL_BUFFER_LEN) ?s = (r1, s)" by fastforce
    have w: "wf_sym (int SYMBOL_BUFFER_LEN) (?s\<lparr>sym_flags := 0\<rparr>)" using wf(1) True by (simp add: wf_sym_def)
    have "read_symbol_loop 2 mem (int SYMBOL_BUFFER_LEN) 0 (?s\<lparr>sym_flags := 0\<rparr>) = (r1, s)" using c by (simp add: dx_codec_read_symbol_def)
    from sym_safeD(1,2) [OF sym_safe_loop [of _ 0 mem, folded numeral_2_eq_2] w this]
    have "wf_in (sym_in s) \<and> same_buffer input (sym_in s)" by (simp add: wf_sym_def)
    then show ?thesis using e c True by (simp add: read_codec_symbol_def)
  next
    case False
    then show ?thesis using e wf by (auto simp: read_codec_symbol_def same_buffer_def)
  qed
qed

lemma keeps_read_symbol [keeps_intros]: "pair_keeps (dx_read_symbol mem)"
  unfolding dx_read_symbol_def by (intro keeps_intros)

lemma keeps_free_on_error [keeps_intros]: "pair_keeps m \<Longrightarrow> pair_keeps (free_on_error m)"
  unfolding pair_keeps_def free_on_error_def by (fastforce split: prod.splits sum.splits)

lemma keeps_compact_field [keeps_intros]: "pair_keeps (read_compact_field kind d repr)"
  unfolding read_compact_field_def by (intro keeps_intros safe_intros)

lemma keeps_input_keeps: "input_keeps m \<Longrightarrow> pair_keeps (on_input m)"
  by (auto simp: pair_keeps_def on_input_def input_keeps_def split: prod.splits)

lemma keeps_read_field [keeps_intros]: "pair_keeps (read_field mem kind d)"
  unfolding read_field_def Let_def
  by (intro keeps_intros safe_intros safe_utf_char safe_byte_array keeps_input_keeps [OF input_keeps_char_array])

lemma keeps_if_state: "pair_keeps m \<Longrightarrow> pair_keeps (\<lambda>s. if P then (r, f (fst s), snd s) else m s)"
proof (cases P)
  case True
  then show ?thesis unfolding pair_keeps_def by (simp add: same_buffer_def)
next
  case False
  assume "pair_keeps m"
  then show ?thesis using False by (simp only: if_False)
qed

lemma keeps_read_fields [keeps_intros]: "pair_keeps (read_fields mem kind ds :: ('e data_ctx \<times> in_ctx, unit) io)"
proof (induction ds)
  case (Cons d ds)
  have "pair_keeps (checked (read_field mem kind d) (\<lambda>_. read_fields mem kind ds) :: ('e data_ctx \<times> in_ctx, unit) io)" by (rule keeps_checked [OF keeps_read_field Cons])
  then show ?case unfolding read_fields.simps by (rule keeps_if_state)
qed (simp only: read_fields.simps, intro keeps_intros)

lemma keeps_remove_event [keeps_intros]: "pair_keeps (dx_read_qdtime_on_remove_event rid kind)"
proof -
  have a: "pair_keeps (\<lambda>(ctx, input). (case dx_get_record_by_id rid (dscc ctx) of
       None \<Rightarrow> fail dx_ec_invalid_func_param_internal
     | Some info \<Rightarrow> checked (on_input dx_read_compact_long) (\<lambda>qdtime.
         on_context (on_row kind (set_time_fields (rec_fields info) (ucast (drop_bit 32 qdtime)) (ucast qdtime))))) (ctx, input))"
    by (rule keeps_of_context) (intro keeps_intros safe_intros)
  have eq: "(\<lambda>(ctx, input). (case dx_get_record_by_id rid (dscc ctx) of
       None \<Rightarrow> fail dx_ec_invalid_func_param_internal
     | Some info \<Rightarrow> checked (on_input dx_read_compact_long) (\<lambda>qdtime.
         on_context (on_row kind (set_time_fields (rec_fields info) (ucast (drop_bit 32 qdtime)) (ucast qdtime))))) (ctx, input)) =
    dx_read_qdtime_on_remove_event rid kind"
    unfolding dx_read_qdtime_on_remove_event_def by (rule ext) (auto simp: fail_def split: option.split)
  show ?thesis unfolding eq [symmetric] by (rule a)
qed

lemma keeps_read_records [keeps_intros]: "pair_keeps (dx_read_records mem rid kind)"
  unfolding pair_keeps_def
proof (intro allI impI)
  fix h input r h' input'
  assume wf: "wf_in input" "in_buffer_limit input \<le> in_buffer_length input" and e: "dx_read_records mem rid kind (h, input) = (r, h', input')"
  consider "dx_read_qdtime_on_remove_event rid kind (h, input) = (r, h', input')" | "input' = input"
    | digest :: dx_record_digest where "read_fields mem kind (digest_fields digest) (lock_digests h, input) = (r, h', input')"
  proof (cases "IS_FLAG_SET (last_flags h) dxf_ef_remove_event")
    case True
    then show ?thesis using e that(1) by (simp add: dx_read_records_def)
  next
    case False
    show ?thesis
    proof (cases "dx_get_record_digest rid (dscc (lock_digests h))")
      case None
      then show ?thesis using e False that(2) by (simp add: dx_read_records_def Let_def)
    next
      case (Some digest)
      then have "read_fields mem kind (digest_fields digest) (lock_digests h, input) = (r, h', input')"
        using e False by (simp add: dx_read_records_def Let_def)
      then show ?thesis by (rule that(3))
    qed
  qed
  then show "wf_in input' \<and> same_buffer input input'"
  proof cases
    case 1
    then show ?thesis using keeps_remove_event wf unfolding pair_keeps_def by blast
  next
    case 2
    then show ?thesis using wf by (simp add: same_buffer_def)
  next
    case 3
    then show ?thesis using keeps_read_fields wf unfolding pair_keeps_def by blast
  qed
qed

lemma process_record_parts:
  "\<exists>k. process_record mem symbol_hash transcode = checked (dx_read_symbol mem) k \<and> (\<forall>v. pair_keeps (k v))"
proof -
  have a: "pair_keeps (\<lambda>(ctx, input). (case dx_get_record_by_id rid (dscc ctx) of
         None \<Rightarrow> fail dx_ec_success
       | Some info \<Rightarrow> free_on_error (
             checked (on_first (get_row mem (rec_info_id info))) (\<lambda>_.
             checked (dx_read_records mem rid (rec_info_id info)) (\<lambda>_.
             checked (on_first (transcode_row symbol_hash transcode rid info)) (\<lambda>_.
             on_context (\<lambda>ctx. Inr (dx_free_buffers ctx))))))) (ctx, input))" for rid
    by (rule keeps_of_context) (intro keeps_intros)
  have eq: "(\<lambda>(ctx, input). (case dx_get_record_by_id rid (dscc ctx) of
         None \<Rightarrow> fail dx_ec_success
       | Some info \<Rightarrow> free_on_error (
             checked (on_first (get_row mem (rec_info_id info))) (\<lambda>_.
             checked (dx_read_records mem rid (rec_info_id info)) (\<lambda>_.
             checked (on_first (transcode_row symbol_hash transcode rid info)) (\<lambda>_.
             on_context (\<lambda>ctx. Inr (dx_free_buffers ctx))))))) (ctx, input)) =
    (\<lambda>(ctx, input). case dx_get_record_by_id rid (dscc ctx) of
         None \<Rightarrow> (Inl dx_ec_success, ctx, input)
       | Some info \<Rightarrow> free_on_error (
             checked (on_first (get_row mem (rec_info_id info))) (\<lambda>_.
             checked (dx_read_records mem rid (rec_info_id info)) (\<lambda>_.
             checked (on_first (transcode_row symbol_hash transcode rid info)) (\<lambda>_.
             on_context (\<lambda>ctx. Inr (dx_free_buffers ctx)))))) (ctx, input))" for rid
    by (rule ext) (auto simp: fail_def split: option.split)
  show ?thesis unfolding process_record_def
    by (rule exI, rule conjI, rule refl) (intro allI keeps_intros safe_intros a [unfolded eq])
qed

lemma codec_symbol_advances:
  assumes wf: "wf_sym L s" and e: "dx_codec_read_symbol mem L s = (Inr u, s')"
  shows "current_in_buffer_position (sym_in s) < current_in_buffer_position (sym_in s')"
proof -
  let ?s = "s\<lparr>sym_flags := 0\<rparr>"
  have wf0: "wf_sym L ?s" using wf by (simp add: wf_sym_def)
  obtain r s1 where b: "on_in dx_read_unsigned_byte ?s = (r, s1)" by fastforce
  have e2: "read_symbol_loop (Suc 1) mem L 0 ?s = (Inr u, s')" using e by (simp add: dx_codec_read_symbol_def numeral_2_eq_2)
  then obtain i where r: "r = Inr i" using b unfolding read_symbol_loop.simps by (cases r) (simp_all add: checked_def)
  define k where "k = (if i = 0xF8 then (\<lambda>s. read_symbol_loop 1 mem L 1 (s\<lparr>sym_flags := mru_event_flags s\<rparr>))
    else if i = 0xF9 then new_flags 1 mem L else read_symbol_form mem L i)"
  have k: "k s1 = (Inr u, s')"
    using e2 b r unfolding read_symbol_loop.simps k_def new_flags_def by (auto simp: checked_def split: if_splits)
  have "sym_safe L k" unfolding k_def by (intro sym_safe_if sym_safe_mru sym_safe_loop_last sym_safe_new_flags sym_safe_form) simp_all
  moreover have "sym_safe L (on_in dx_read_unsigned_byte)" by (intro safe_intros)
  from sym_safeD(1) [OF this wf0 b] have "wf_sym L s1" .
  ultimately have "same_buffer (sym_in s1) (sym_in s')" using k by (rule sym_safeD(2))
  moreover have "current_in_buffer_position (sym_in s) + 1 = current_in_buffer_position (sym_in s1)"
    using b r by (auto simp: on_in_def dx_read_unsigned_byte_def checked_def dx_validate_buffer_and_value_def get_byte_def return_def Let_def
        split: if_splits option.splits prod.splits sum.splits)
  ultimately show ?thesis by (simp add: same_buffer_def)
qed

lemma read_symbol_advances:
  assumes "wf_in input" "read_codec_symbol mem (ctx, input) = (Inr v, ctx', input')"
  shows "current_in_buffer_position input < current_in_buffer_position input'"
proof -
  let ?s = "\<lparr>sym_in = input, sym_buffer = symbol_buffer ctx, sym_result = symbol_result ctx, cipher_result = 0,
    sym_flags = last_flags ctx, mru_event_flags = mru_flags ctx\<rparr>"
  have len: "length (symbol_buffer ctx) = SYMBOL_BUFFER_LEN + 1" using assms(2) by (auto simp: read_codec_symbol_def split: if_splits)
  obtain r s where c: "dx_codec_read_symbol mem (int SYMBOL_BUFFER_LEN) ?s = (r, s)" by fastforce
  then have "sym_in s = input'" "r = Inr ()" using assms(2) len by (cases r; simp add: read_codec_symbol_def)+
  moreover have "wf_sym (int SYMBOL_BUFFER_LEN) ?s" using assms(1) len by (simp add: wf_sym_def)
  ultimately show ?thesis using codec_symbol_advances c by fastforce
qed

lemma keeps_process_record: "pair_keeps (process_record mem symbol_hash transcode)"
proof -
  obtain k where "process_record mem symbol_hash transcode = checked (dx_read_symbol mem) k" "\<And>v. pair_keeps (k v)"
    using process_record_parts by blast
  then show ?thesis by (simp add: keeps_checked keeps_read_symbol)
qed

lemma process_record_advances:
  assumes wf: "wf_in input" "in_buffer_limit input \<le> in_buffer_length input"
    and e: "process_record mem symbol_hash transcode (ctx, input) = (Inr u, ctx', input')"
  shows "current_in_buffer_position input < current_in_buffer_position input'"
proof -
  obtain k where k: "process_record mem symbol_hash transcode = checked (dx_read_symbol mem) k" "\<And>v. pair_keeps (k v)"
    using process_record_parts by blast
  obtain x c i where x: "dx_read_symbol mem (ctx, input) = (x, c, i)" by (metis prod.exhaust)
  then have r: "x = Inr ()" and kv: "k () (c, i) = (Inr u, ctx', input')"
    using e unfolding k(1) by (cases x; simp add: checked_def)+
  have s: "wf_in i" "same_buffer input i" using keeps_read_symbol wf x unfolding pair_keeps_def by blast+
  then have "in_buffer_limit i \<le> in_buffer_length i" using wf(2) by (simp add: same_buffer_def)
  then have t: "same_buffer i input'" using k(2) [of "()", unfolded pair_keeps_def, rule_format, OF s(1) _ kv] by blast
  obtain y c1 i1 where y: "read_codec_symbol mem (ctx, input) = (y, c1, i1)" by (metis prod.exhaust)
  then obtain v where v: "y = Inr v" using x r by (cases y) (simp_all add: dx_read_symbol_def checked_def)
  have "i1 = i" using x y r v by (auto simp: dx_read_symbol_def checked_def on_first_def split: prod.splits)
  with read_symbol_advances [OF wf(1) y [unfolded v]] t show ?thesis by (simp add: same_buffer_def)
qed

lemma process_records_total:
  assumes "wf_in input" "in_buffer_limit input \<le> in_buffer_length input"
    "nat (in_buffer_limit input - current_in_buffer_position input) < fuel"
  shows "\<exists>r ctx' input'. process_records fuel mem symbol_hash transcode (ctx, input) = Some (r, ctx', input')
    \<and> wf_in input' \<and> same_buffer input input'"
  using assms
proof (induction fuel arbitrary: ctx input)
  case (Suc n)
  show ?case
  proof (cases "current_in_buffer_position input < in_buffer_limit input")
    case True
    obtain r c i where e: "process_record mem symbol_hash transcode (ctx, input) = (r, c, i)" by (metis prod.exhaust)
    have s: "wf_in i" "same_buffer input i" using keeps_process_record Suc.prems(1,2) e unfolding pair_keeps_def by blast+
    show ?thesis
    proof (cases r)
      case (Inl x)
      then show ?thesis using True e s by simp
    next
      case (Inr u)
      have "current_in_buffer_position input < current_in_buffer_position i"
        using process_record_advances [OF Suc.prems(1,2)] e Inr by blast
      then have "nat (in_buffer_limit i - current_in_buffer_position i) < n" "in_buffer_limit i \<le> in_buffer_length i"
        using s(2) Suc.prems(2,3) True by (auto simp: same_buffer_def)
      from Suc.IH [OF s(1) this(2,1)] obtain r' c' i' where
        "process_records n mem symbol_hash transcode (c, i) = Some (r', c', i')" "wf_in i'" "same_buffer i i'" by blast
      then show ?thesis using True e Inr same_buffer_trans [OF s(2)] by simp
    qed
  next
    case False
    then show ?thesis using Suc.prems(1) by (simp add: same_buffer_def)
  qed
qed simp

interpretation data_messages: body_processor "dx_process_data_message mem symbol_hash (transcode :: 'e transcoder)"
  for mem symbol_hash transcode
proof
  fix input r input' and h h' :: "'e data_ctx"
  assume wf: "wf_in input" "in_buffer_limit input \<le> in_buffer_length input"
    and e: "dx_process_data_message mem symbol_hash transcode (h, input) = (r, h', input')"
  let ?h = "h\<lparr>last_cipher := 0, last_symbol := None, last_flags := 0, mru_flags := dxf_ef_tx_pending\<rparr>"
  obtain r1 h1 i1 where "process_records (Suc (nat (in_buffer_limit input - current_in_buffer_position input))) mem symbol_hash transcode (?h, input)
      = Some (r1, h1, i1)" "wf_in i1" "same_buffer input i1"
    using process_records_total [OF wf lessI] by blast
  with e show "wf_in input' \<and> same_buffer input input'" by (simp add: dx_process_data_message_def)
qed

section \<open>What reading a field can change\<close>

definition moves :: "('h \<Rightarrow> 'h \<Rightarrow> bool) \<Rightarrow> ('h \<times> in_ctx, 'a) io \<Rightarrow> bool" where
  "moves R m \<longleftrightarrow> (\<forall>h input r h' input'. m (h, input) = (r, h', input') \<longrightarrow> R h h')"

lemma movesD: "moves R m \<Longrightarrow> m (h, input) = (r, h', input') \<Longrightarrow> R h h'"
  unfolding moves_def by blast

lemma moves_checked: "transp R \<Longrightarrow> moves R m \<Longrightarrow> (\<And>x. moves R (k x)) \<Longrightarrow> moves R (checked m k)"
  unfolding moves_def checked_def by (fastforce split: prod.splits sum.splits dest: transpD)

lemma moves_on_input: "reflp R \<Longrightarrow> moves R (on_input m)"
  by (auto simp: moves_def on_input_def reflpD split: prod.splits)

lemma moves_return: "reflp R \<Longrightarrow> moves R (return v)" "reflp R \<Longrightarrow> moves R (fail e)"
  by (simp_all add: moves_def io_simps reflpD)

lemma moves_on_context: "reflp R \<Longrightarrow> (\<And>h h'. f h = Inr h' \<Longrightarrow> R h h') \<Longrightarrow> moves R (on_context f)"
  by (auto simp: moves_def on_context_def reflpD split: sum.splits)

lemma moves_if: "(c \<Longrightarrow> moves R a) \<Longrightarrow> (\<not> c \<Longrightarrow> moves R b) \<Longrightarrow> moves R (if c then a else b)"
  by simp

lemma moves_c_string: "reflp R \<Longrightarrow> transp R \<Longrightarrow> moves R (read_c_string mem)"
  unfolding read_c_string_def by (intro moves_checked moves_on_input moves_return)

lemma moves_read_field:
  assumes R: "reflp R" "transp R" and set: "\<And>var ctx ctx'. on_row kind (CHECKED_SET_VALUE (digest_setter d) var) ctx = Inr ctx' \<Longrightarrow> R ctx ctx'"
    and default: "\<And>ctx ctx'. on_row kind (set_default d) ctx = Inr ctx' \<Longrightarrow> R ctx ctx'"
  shows "moves R (read_field mem kind d)"
proof -
  have double: "R ctx ctx'" if "set_double kind d x ctx = Inr ctx'" for x ctx ctx'
    using that set by (auto simp: set_double_def split: if_splits sum.splits)
  have fixed: "R ctx ctx'" if "set_fixed kind d repr var l ctx = Inr ctx'" for repr var l ctx ctx'
    using that set unfolding set_fixed_def by blast
  have "moves R (read_compact_field kind d repr)" for repr
    unfolding read_compact_field_def
    by (intro moves_if moves_checked moves_on_input moves_on_context R) (auto intro: double set)
  then show ?thesis unfolding read_field_def Let_def
    by (intro moves_if moves_checked moves_on_input moves_c_string moves_return moves_on_context R) (auto intro: fixed set default)
qed

definition same_ds :: "'e data_ctx \<Rightarrow> 'e data_ctx \<Rightarrow> bool" where
  "same_ds ctx ctx' \<longleftrightarrow> dscc ctx' = dscc ctx"

lemma same_ds_relation: "reflp same_ds" "transp same_ds"
  by (auto simp: same_ds_def reflp_def transp_def)

lemma on_row_ds: "on_row kind f ctx = Inr ctx' \<Longrightarrow> same_ds ctx ctx'"
  by (auto simp: on_row_def same_ds_def map_sum_def split: option.splits sum.splits)

lemma read_field_ds: "read_field mem kind d (ctx, input) = (r, ctx', input') \<Longrightarrow> dscc ctx' = dscc ctx"
  using movesD [OF moves_read_field [OF same_ds_relation], of kind d mem ctx input r ctx' input'] on_row_ds
  unfolding same_ds_def by blast

definition supported_types :: "int32 set" where
  "supported_types = {dx_fid_void, dx_fid_byte, dx_fid_utf_char, dx_fid_short, dx_fid_int, dx_fid_compact_int, dx_fid_byte_array,
     dx_fid_utf_char_array}"

lemma read_fields_guard:
  assumes "read_fields mem kind ds (ctx, input) = (r, ctx', input')" "list_all (\<lambda>d. serialization d \<in> supported_types) ds"
  shows "dscc ctx' = (if r = Inr () then dscc (unlock_digests ctx) else dscc ctx)"
  using assms
proof (induction ds arbitrary: ctx input)
  case Nil
  then show ?case by (auto simp: on_context_def)
next
  case (Cons d ds)
  have e: "read_fields mem kind (d # ds) (ctx, input) = checked (read_field mem kind d) (\<lambda>_. read_fields mem kind ds) (ctx, input)"
    using Cons.prems(2) unfolding supported_types_def serialization_def by simp
  obtain r1 c i where f: "read_field mem kind d (ctx, input) = (r1, c, i)" by (metis prod.exhaust)
  note same = read_field_ds [OF f]
  show ?case
  proof (cases r1)
    case (Inl er)
    then show ?thesis using Cons.prems(1) e f same by (simp add: checked_def)
  next
    case (Inr u)
    then have "read_fields mem kind ds (c, i) = (r, ctx', input')" using Cons.prems(1) e f by (simp add: checked_def)
    from Cons.IH [OF this] Cons.prems(2) same show ?thesis by (simp add: unlock_digests_def)
  qed
qed

text \<open>
  C36: Every error of a reader leaves the guard of the digests locked: \<open>dx_read_records\<close> locks it, and the
  macros that return from it on an error do not unlock it.  A truncated data message therefore blocks
  the next thread that adds a record.
\<close>

theorem record_error_keeps_lock:
  assumes "dx_read_records mem rid kind (ctx, input) = (r, ctx', input')" "\<not> IS_FLAG_SET (last_flags ctx) dxf_ef_remove_event"
    "dx_get_record_digest rid (dscc ctx) = Some digest" "list_all (\<lambda>d. serialization d \<in> supported_types) (digest_fields digest)"
  shows "digests_guard (dscc ctx') = digests_guard (dscc ctx) + (if r = Inr () then 0 else 1)"
proof -
  have "read_fields mem kind (digest_fields digest) (lock_digests ctx, input) = (r, ctx', input')"
    using assms(1-3) by (simp add: dx_read_records_def Let_def)
  from read_fields_guard [OF this assms(4)] show ?thesis by (simp add: lock_digests_def unlock_digests_def)
qed

section \<open>Types of the members of rows\<close>

fun has_type :: "c_type \<Rightarrow> field_value \<Rightarrow> bool" where
  "has_type T_char (F_char _) \<longleftrightarrow> True"
| "has_type T_int (F_int _) \<longleftrightarrow> True"
| "has_type T_long (F_long _) \<longleftrightarrow> True"
| "has_type T_double (F_double _) \<longleftrightarrow> True"
| "has_type T_string (F_string _) \<longleftrightarrow> True"
| "has_type T_string (F_static _) \<longleftrightarrow> True"
| "has_type T_string F_dangling \<longleftrightarrow> True"
| "has_type T_byte_array (F_bytes _) \<longleftrightarrow> True"
| "has_type T_byte_array F_dangling \<longleftrightarrow> True"
| "has_type _ _ \<longleftrightarrow> False"

definition row_typed :: "dx_field_info list \<Rightarrow> row \<Rightarrow> bool" where
  "row_typed fs r \<longleftrightarrow> (\<forall>f \<in> set fs. has_type (getter_type f) (member_value (getter_type f) (field_member f) r))"

text \<open>
  The tables of the fs: a setter has the type of its member or widens an \<open>int\<close>, and fs with the
  same member agree on its type.
\<close>

definition fields_typed :: "dx_field_info list \<Rightarrow> bool" where
  "fields_typed fs \<longleftrightarrow> list_all (\<lambda>f. (setter_type f = getter_type f \<or> setter_type f = T_int \<and> getter_type f = T_long)
     \<and> list_all (\<lambda>g. field_member g = field_member f \<longrightarrow> getter_type g = getter_type f) fs) fs"

lemma tables_typed:
  "fields_typed dx_fields_trade" "fields_typed dx_fields_quote" "fields_typed dx_fields_summary" "fields_typed dx_fields_profile"
  "fields_typed dx_fields_market_maker" "fields_typed dx_fields_order" "fields_typed dx_fields_time_and_sale" "fields_typed dx_fields_candle"
  "fields_typed dx_fields_trade_eth" "fields_typed dx_fields_spread_order" "fields_typed dx_fields_greeks" "fields_typed dx_fields_theo_price"
  "fields_typed dx_fields_underlying" "fields_typed dx_fields_series" "fields_typed dx_fields_configuration" "fields_typed []"
  by (simp_all add: fields_typed_def field_info_def dx_fields_trade_def dx_fields_quote_def dx_fields_summary_def dx_fields_profile_def
      dx_fields_market_maker_def dx_fields_order_def dx_fields_time_and_sale_def dx_fields_candle_def dx_fields_trade_eth_def
      dx_fields_spread_order_def dx_fields_greeks_def dx_fields_theo_price_def dx_fields_underlying_def dx_fields_series_def
      dx_fields_configuration_def)

lemma info_fields_typed: "fields_typed (info_fields kind)"
  by (simp add: info_fields_def g_record_info_def tables_typed)

definition digest_ok :: "dx_field_info list \<Rightarrow> dx_field_digest \<Rightarrow> bool" where
  "digest_ok fs d \<longleftrightarrow> (\<forall>f. digest_setter d = Some f \<longrightarrow> f \<in> set fs)
     \<and> (\<forall>g. digest_default d = Some g \<longrightarrow> digest_setter d = Some g)"

lemma zero_typed: "has_type type (zero_value type)"
  by (cases type) (simp_all add: zero_value_def)

lemma read_as_typed: "read_as type var = Some v \<Longrightarrow> has_type type v"
  by (cases "(type, var)" rule: read_as.cases) auto

lemma type_of_int: "has_type type (F_int i) \<longleftrightarrow> type = T_int"
  by (cases type) simp_all

lemma type_int: "has_type T_int v \<Longrightarrow> \<exists>i. v = F_int i"
  by (cases v) simp_all

lemma assigned_not_int: "\<nexists>i. v = F_int i \<Longrightarrow> assigned type v = v"
  by (cases v; cases type; simp)

lemma assigned_typed:
  assumes "has_type s v" "s = t \<or> s = T_int \<and> t = T_long"
  shows "has_type t (assigned t v)"
proof (cases "\<exists>i. v = F_int i")
  case True
  then show ?thesis using assms by (auto simp: type_of_int assigned_int)
next
  case False
  then have "s = t" using assms type_int by blast
  then show ?thesis using assms(1) by (simp only: assigned_not_int [OF False])
qed

lemma default_typed: "has_type type (default_value type)"
  by (simp add: default_value_def zero_typed)

lemma fields_typedD:
  assumes "fields_typed table" "f \<in> set table"
  shows "setter_type f = getter_type f \<or> setter_type f = T_int \<and> getter_type f = T_long"
    "g \<in> set table \<Longrightarrow> field_member g = field_member f \<Longrightarrow> getter_type g = getter_type f"
  using assms unfolding fields_typed_def list_all_iff by blast+

lemma typed_update:
  assumes "fields_typed fs" "row_typed fs r" "f \<in> set fs" "has_type (setter_type f) v"
  shows "row_typed fs (r(field_member f \<mapsto> assigned (getter_type f) v))"
  unfolding row_typed_def
proof
  fix g assume g: "g \<in> set fs"
  show "has_type (getter_type g) (member_value (getter_type g) (field_member g) (r(field_member f \<mapsto> assigned (getter_type f) v)))"
  proof (cases "field_member g = field_member f")
    case True
    then have "getter_type g = getter_type f" using fields_typedD(2) [OF assms(1,3) g] by simp
    moreover have "has_type (getter_type f) (assigned (getter_type f) v)"
      by (rule assigned_typed [OF assms(4) fields_typedD(1) [OF assms(1,3)]])
    ultimately show ?thesis using True by (simp add: member_value_def)
  next
    case False
    then show ?thesis using assms(2) g by (auto simp: row_typed_def member_value_def)
  qed
qed

lemma freed_typed: "has_type type v \<Longrightarrow> has_type type (freed v)"
  by (cases v rule: freed.cases; cases type) auto

lemma typed_freed:
  assumes "row_typed fs r"
  shows "row_typed fs (\<lambda>member. map_option freed (r member))"
  using assms zero_typed by (auto simp: row_typed_def member_value_def intro: freed_typed split: option.splits)

lemma typed_empty: "row_typed fs Map.empty"
  by (simp add: row_typed_def member_value_def zero_typed)

definition rows_typed :: "'e data_ctx \<Rightarrow> bool" where
  "rows_typed ctx \<longleftrightarrow> (\<forall>kind r. rows ctx kind = Some r \<longrightarrow> row_typed (info_fields kind) r)"

definition ds_typed :: "record_ctx \<Rightarrow> bool" where
  "ds_typed ds \<longleftrightarrow> (\<forall>rid info. dx_get_record_by_id rid ds = Some info \<longrightarrow> rec_fields info = info_fields (rec_info_id info)
     \<and> (\<forall>digest. dx_get_record_digest rid ds = Some digest \<longrightarrow> list_all (digest_ok (rec_fields info)) (digest_fields digest)))"

definition keeps_types :: "'e data_ctx \<Rightarrow> 'e data_ctx \<Rightarrow> bool" where
  "keeps_types ctx ctx' \<longleftrightarrow> (rows_typed ctx \<longrightarrow> rows_typed ctx')"

lemma keeps_types_relation: "reflp keeps_types" "transp keeps_types"
  by (auto simp: keeps_types_def reflp_def transp_def)

lemma on_row_types:
  assumes "on_row kind f ctx = Inr ctx'" "\<And>r r'. f r = Inr r' \<Longrightarrow> row_typed (info_fields kind) r \<Longrightarrow> row_typed (info_fields kind) r'"
  shows "keeps_types ctx ctx'"
  using assms by (auto simp: on_row_def keeps_types_def rows_typed_def map_sum_def split: option.splits sum.splits if_splits)

lemma set_member_types:
  "set_member f var r = Inr r' \<Longrightarrow> f \<in> set fs \<Longrightarrow> fields_typed fs \<Longrightarrow> row_typed fs r \<Longrightarrow> row_typed fs r'"
  by (auto simp: set_member_def intro: typed_update read_as_typed split: option.splits)

lemma set_value_types:
  assumes "digest_ok fs d" "fields_typed fs" "row_typed fs r"
  shows "CHECKED_SET_VALUE (digest_setter d) var r = Inr r' \<Longrightarrow> row_typed fs r'"
    "set_default d r = Inr r' \<Longrightarrow> row_typed fs r'"
  using assms by (auto simp: CHECKED_SET_VALUE_def set_default_def digest_ok_def intro: set_member_types typed_update default_typed
      split: option.splits)

lemma read_fields_types:
  assumes "list_all (digest_ok (info_fields kind)) ds" "read_fields mem kind ds (ctx, input) = (r, ctx', input')"
  shows "keeps_types ctx ctx'"
  using assms
proof (induction ds arbitrary: ctx input)
  case Nil
  then show ?case by (auto simp: on_context_def keeps_types_def rows_typed_def unlock_digests_def)
next
  case (Cons d ds)
  have ok: "digest_ok (info_fields kind) d" using Cons.prems(1) by simp
  have m: "moves keeps_types (read_field mem kind d :: ('a data_ctx \<times> in_ctx, unit) io)"
    by (rule moves_read_field [OF keeps_types_relation])
      (auto elim!: on_row_types intro: set_value_types [OF ok info_fields_typed])
  show ?case
  proof (cases "serialization d \<in> supported_types")
    case False
    then have "ctx' = unlock_digests ctx" using Cons.prems(2) unfolding supported_types_def serialization_def by simp
    then show ?thesis by (simp add: keeps_types_def rows_typed_def unlock_digests_def)
  next
    case True
    then have e: "checked (read_field mem kind d) (\<lambda>_. read_fields mem kind ds) (ctx, input) = (r, ctx', input')"
      using Cons.prems(2) unfolding supported_types_def serialization_def by simp
    obtain r1 c i where f: "read_field mem kind d (ctx, input) = (r1, c, i)" by (metis prod.exhaust)
    note same = movesD [OF m f]
    show ?thesis
    proof (cases r1)
      case (Inl er)
      then show ?thesis using e f same by (simp add: checked_def)
    next
      case (Inr u)
      then have "read_fields mem kind ds (c, i) = (r, ctx', input')" using e f by (simp add: checked_def)
      from Cons.IH [OF _ this] Cons.prems(1) same show ?thesis by (simp add: keeps_types_def)
    qed
  qed
qed

lemma time_fields_types:
  "set fs \<subseteq> set table \<Longrightarrow> fields_typed table \<Longrightarrow> row_typed table r \<Longrightarrow> set_time_fields fs high low r = Inr r' \<Longrightarrow> row_typed table r'"
  by (induction fs high low r rule: set_time_fields.induct) (auto split: if_splits sum.splits intro: set_member_types)

definition holds_after :: "('h \<Rightarrow> bool) \<Rightarrow> ('h \<times> in_ctx, 'a) io \<Rightarrow> ('h \<Rightarrow> bool) \<Rightarrow> bool" where
  "holds_after P m Q \<longleftrightarrow> (\<forall>h input r h' input'. P h \<longrightarrow> m (h, input) = (r, h', input') \<longrightarrow> Q h')"

lemma holds_afterD: "holds_after P m Q \<Longrightarrow> P h \<Longrightarrow> m (h, input) = (r, h', input') \<Longrightarrow> Q h'"
  unfolding holds_after_def by blast

lemma holds_checked:
  assumes "holds_after P m P1" "\<And>x. holds_after P1 (k x) Q" "\<And>h. P1 h \<Longrightarrow> Q h"
  shows "holds_after P (checked m k) Q"
  using assms unfolding holds_after_def checked_def by (fastforce split: prod.splits sum.splits)

lemma holds_on_first:
  assumes "\<And>h r h'. P h \<Longrightarrow> m h = (r, h') \<Longrightarrow> Q h'"
  shows "holds_after P (on_first m) Q"
  using assms unfolding holds_after_def on_first_def by (fastforce split: prod.splits)

lemma holds_on_input: "holds_after P (on_input m) P"
  by (auto simp: holds_after_def on_input_def split: prod.splits)

definition guard_only :: "record_ctx \<Rightarrow> record_ctx \<Rightarrow> bool" where
  "guard_only ds ds' \<longleftrightarrow> (\<exists>g. ds' = ds\<lparr>digests_guard := g\<rparr>)"

lemma guard_only_refl: "guard_only ds ds" "guard_only (dscc ctx) (dscc (unlock_digests ctx))" "guard_only (dscc ctx) (dscc (lock_digests ctx))"
  unfolding guard_only_def unlock_digests_def lock_digests_def by (rule exI [of _ "digests_guard ds"]; simp) fastforce+

lemma guard_only_trans: "guard_only a b \<Longrightarrow> guard_only b c \<Longrightarrow> guard_only a c"
  by (auto simp: guard_only_def)

lemma guard_only_same:
  assumes "guard_only ds ds'"
  shows "dx_get_record_by_id rid ds' = dx_get_record_by_id rid ds" "dx_get_record_digest rid ds' = dx_get_record_digest rid ds" "ds_typed ds' = ds_typed ds"
  using assms by (auto simp: guard_only_def dx_get_record_by_id_def dx_validate_record_id_def dx_get_record_digest_def ds_typed_def)

lemma read_fields_ds:
  assumes "read_fields mem kind ds (ctx, input) = (r, ctx', input')"
  shows "guard_only (dscc ctx) (dscc ctx')"
  using assms
proof (induction ds arbitrary: ctx input)
  case Nil
  then show ?case using guard_only_refl by (auto simp: on_context_def)
next
  case (Cons d ds)
  obtain r1 c i where f: "read_field mem kind d (ctx, input) = (r1, c, i)" by (metis prod.exhaust)
  note same = read_field_ds [OF f]
  show ?case
  proof (cases "serialization d \<in> supported_types")
    case False
    then have "ctx' = unlock_digests ctx" using Cons.prems unfolding supported_types_def serialization_def by simp
    then show ?thesis using guard_only_refl by simp
  next
    case True
    then have e: "checked (read_field mem kind d) (\<lambda>_. read_fields mem kind ds) (ctx, input) = (r, ctx', input')"
      using Cons.prems unfolding supported_types_def serialization_def by simp
    show ?thesis
    proof (cases r1)
      case (Inl er)
      then show ?thesis using e f same guard_only_refl by (simp add: checked_def)
    next
      case (Inr u)
      then have "read_fields mem kind ds (c, i) = (r, ctx', input')" using e f by (simp add: checked_def)
      from Cons.IH [OF this] same show ?thesis by simp
    qed
  qed
qed

definition typed_state :: "'e data_ctx \<Rightarrow> bool" where
  "typed_state ctx \<longleftrightarrow> ds_typed (dscc ctx) \<and> rows_typed ctx"

definition typed_record :: "int \<Rightarrow> dx_record_item \<Rightarrow> 'e data_ctx \<Rightarrow> bool" where
  "typed_record rid info ctx \<longleftrightarrow> typed_state ctx \<and> dx_get_record_by_id rid (dscc ctx) = Some info"

lemma typed_same: "dscc ctx' = dscc ctx \<Longrightarrow> rows ctx' = rows ctx \<Longrightarrow> typed_state ctx' = typed_state ctx"
  by (simp add: typed_state_def rows_typed_def)

lemma read_records_typed: "holds_after (typed_record rid info) (dx_read_records mem rid (rec_info_id info)) (typed_record rid info)"
  unfolding holds_after_def
proof (intro allI impI)
  fix h :: "'e data_ctx" and input r h' input'
  assume t: "typed_record rid info h" and e: "dx_read_records mem rid (rec_info_id info) (h, input) = (r, h', input')"
  have ds: "ds_typed (dscc h)" "rows_typed h" and info: "dx_get_record_by_id rid (dscc h) = Some info"
    using t by (simp_all add: typed_record_def typed_state_def)
  have fs: "rec_fields info = info_fields (rec_info_id info)" using ds(1) info unfolding ds_typed_def by blast
  have goal: "typed_record rid info h'" if "guard_only (dscc h) (dscc h')" "rows_typed h'"
    using t that guard_only_same [OF that(1)] by (simp add: typed_record_def typed_state_def)
  show "typed_record rid info h'"
  proof (cases "IS_FLAG_SET (last_flags h) dxf_ef_remove_event")
    case True
    obtain q i where q: "dx_read_compact_long input = (q, i)" by fastforce
    have "h' = h \<or> (\<exists>high low. on_row (rec_info_id info) (set_time_fields (rec_fields info) high low) h = Inr h')"
      using e True info q by (auto simp: dx_read_records_def dx_read_qdtime_on_remove_event_def checked_def on_input_def on_context_def
          split: sum.splits)
    then show ?thesis
    proof
      assume "\<exists>high low. on_row (rec_info_id info) (set_time_fields (rec_fields info) high low) h = Inr h'"
      then obtain high low where o: "on_row (rec_info_id info) (set_time_fields (rec_fields info) high low) h = Inr h'" by blast
      then have "keeps_types h h'" by (rule on_row_types) (use fs in \<open>simp add: time_fields_types [OF subset_refl info_fields_typed]\<close>)
      moreover have "dscc h' = dscc h" using on_row_ds [OF o] by (simp add: same_ds_def)
      ultimately show ?thesis using ds(2) guard_only_refl(1) by (intro goal) (simp_all add: keeps_types_def)
    qed (use t in simp)
  next
    case False
    show ?thesis
    proof (cases "dx_get_record_digest rid (dscc h)")
      case None
      then have "h' = unlock_digests (lock_digests h)" using e False by (simp add: dx_read_records_def Let_def)
      then have "rows_typed h'" using ds(2) by (simp add: rows_typed_def unlock_digests_def lock_digests_def)
      moreover have "guard_only (dscc h) (dscc h')"
        using \<open>h' = _\<close> guard_only_trans [OF guard_only_refl(3) guard_only_refl(2)] by simp
      ultimately show ?thesis by (intro goal)
    next
      case (Some digest)
      then have f: "read_fields mem (rec_info_id info) (digest_fields digest) (lock_digests h, input) = (r, h', input')"
        using e False by (simp add: dx_read_records_def Let_def)
      have "list_all (digest_ok (info_fields (rec_info_id info))) (digest_fields digest)"
        using ds(1) info Some fs unfolding ds_typed_def by force
      from read_fields_types [OF this f] ds(2) have "rows_typed h'" by (simp add: keeps_types_def rows_typed_def lock_digests_def)
      moreover have "guard_only (dscc h) (dscc h')" by (rule guard_only_trans [OF guard_only_refl(3) read_fields_ds [OF f]])
      ultimately show ?thesis by (intro goal)
    qed
  qed
qed

definition transcoder_typed :: "'e transcoder \<Rightarrow> bool" where
  "transcoder_typed transcode \<longleftrightarrow> (\<forall>p ep ds r e res ds' r' e'. transcode p ep (ds, r, e) = (res, ds', r', e') \<longrightarrow> ds_typed ds \<longrightarrow>
     row_typed (info_fields (rp_record_info_id p)) r \<longrightarrow> ds_typed ds' \<and> row_typed (info_fields (rp_record_info_id p)) r')"

lemma transcode_row_typed:
  assumes tr: "transcoder_typed transcode" and t: "typed_state ctx" and e: "transcode_row symbol_hash transcode rid info ctx = (r, ctx')"
  shows "typed_state ctx'"
proof (cases "\<exists>rw name time. rows ctx (rec_info_id info) = Some rw \<and> last_symbol ctx = Some name \<and> dx_get_time_int_field rid (dscc ctx) rw = Inr time")
  case True
  then obtain rw name time where c: "rows ctx (rec_info_id info) = Some rw" "last_symbol ctx = Some name"
    "dx_get_time_int_field rid (dscc ctx) rw = Inr time" by blast
  obtain p ep where p: "rp_record_info_id p = rec_info_id info"
    "transcode_row symbol_hash transcode rid info ctx = (case transcode p ep (dscc ctx, rw, receiver ctx) of
       (res, ds, r, e) \<Rightarrow> (res, ctx\<lparr>dscc := ds, rows := (rows ctx)(rec_info_id info \<mapsto> r), receiver := e\<rparr>))"
    using c by (simp add: transcode_row_def Let_def) (metis dx_record_params.select_convs(2))
  obtain res ds' r' e' where tc: "transcode p ep (dscc ctx, rw, receiver ctx) = (res, ds', r', e')" by (metis prod.exhaust)
  have "row_typed (info_fields (rec_info_id info)) rw" using t c(1) by (simp add: typed_state_def rows_typed_def)
  with tr tc t p(1) have "ds_typed ds'" "row_typed (info_fields (rec_info_id info)) r'"
    unfolding transcoder_typed_def typed_state_def by metis+
  moreover have "ctx' = ctx\<lparr>dscc := ds', rows := (rows ctx)(rec_info_id info \<mapsto> r'), receiver := e'\<rparr>" using e p(2) tc by simp
  ultimately show ?thesis using t by (auto simp: typed_state_def rows_typed_def)
next
  case False
  then have "ctx' = ctx" using e by (auto simp: transcode_row_def split: option.splits sum.splits)
  then show ?thesis using t by simp
qed

lemma free_typed: "typed_state ctx \<Longrightarrow> typed_state (dx_free_buffers ctx)"
  by (auto simp: typed_state_def rows_typed_def dx_free_buffers_def intro: typed_freed)

lemma get_row_typed: "typed_record rid info ctx \<Longrightarrow> get_row mem kind ctx = (r, ctx') \<Longrightarrow> typed_record rid info ctx'"
  by (auto simp: typed_record_def typed_state_def rows_typed_def get_row_def typed_empty split: if_splits)

lemma holds_free_on_error:
  "holds_after P m typed_state \<Longrightarrow> holds_after P (free_on_error m) typed_state"
  unfolding holds_after_def free_on_error_def by (fastforce split: prod.splits sum.splits intro: free_typed)

lemma same_state_holds:
  assumes "\<And>ctx input r ctx' input'. m (ctx, input) = (r, ctx', input') \<Longrightarrow> dscc ctx' = dscc ctx \<and> rows ctx' = rows ctx"
  shows "holds_after typed_state m typed_state"
  using assms typed_same unfolding holds_after_def by blast

lemma read_codec_symbol_same:
  "read_codec_symbol mem (ctx, input) = (r, ctx', input') \<Longrightarrow> dscc ctx' = dscc ctx \<and> rows ctx' = rows ctx"
  by (auto simp: read_codec_symbol_def split: if_splits prod.splits)

lemma read_symbol_typed: "holds_after typed_state (dx_read_symbol mem) typed_state"
  unfolding dx_read_symbol_def
  by (rule holds_checked [OF same_state_holds [OF read_codec_symbol_same]], assumption, rule holds_on_first)
    (auto simp: typed_state_def rows_typed_def Let_def split: if_splits option.splits)

lemma process_record_typed:
  assumes "transcoder_typed transcode"
  shows "holds_after typed_state (process_record mem symbol_hash transcode) typed_state"
proof -
  have tail: "holds_after (typed_record rid info) (free_on_error (
             checked (on_first (get_row mem (rec_info_id info))) (\<lambda>_.
             checked (dx_read_records mem rid (rec_info_id info)) (\<lambda>_.
             checked (on_first (transcode_row symbol_hash transcode rid info)) (\<lambda>_.
             on_context (\<lambda>ctx. Inr (dx_free_buffers ctx))))))) typed_state" for rid info
  proof (rule holds_free_on_error, rule holds_checked [where ?P1.0 = "typed_record rid info"])
    show "holds_after (typed_record rid info) (on_first (get_row mem (rec_info_id info))) (typed_record rid info)"
      by (rule holds_on_first) (rule get_row_typed)
    show "holds_after (typed_record rid info) (checked (dx_read_records mem rid (rec_info_id info)) (\<lambda>_.
        checked (on_first (transcode_row symbol_hash transcode rid info)) (\<lambda>_. on_context (\<lambda>ctx. Inr (dx_free_buffers ctx))))) typed_state"
    proof (rule holds_checked [OF read_records_typed])
      show "holds_after (typed_record rid info) (checked (on_first (transcode_row symbol_hash transcode rid info))
          (\<lambda>_. on_context (\<lambda>ctx. Inr (dx_free_buffers ctx)))) typed_state"
        by (rule holds_checked [where ?P1.0 = typed_state], rule holds_on_first)
          (auto simp: typed_record_def holds_after_def on_context_def intro: transcode_row_typed [OF assms] free_typed)
    qed (simp add: typed_record_def)
  qed (simp add: typed_record_def)
  have found: "holds_after typed_state (\<lambda>(ctx, input). case dx_get_record_by_id rid (dscc ctx) of
         None \<Rightarrow> (Inl dx_ec_success, ctx, input)
       | Some info \<Rightarrow> free_on_error (
             checked (on_first (get_row mem (rec_info_id info))) (\<lambda>_.
             checked (dx_read_records mem rid (rec_info_id info)) (\<lambda>_.
             checked (on_first (transcode_row symbol_hash transcode rid info)) (\<lambda>_.
             on_context (\<lambda>ctx. Inr (dx_free_buffers ctx)))))) (ctx, input)) typed_state" for rid
    unfolding holds_after_def
    by (auto split: option.splits elim!: holds_afterD [OF tail, rotated] simp: typed_record_def)
  have describe: "holds_after typed_state (on_first (find_described_record server_id)) typed_state" for server_id
    by (rule holds_on_first) (auto simp: find_described_record_def Let_def split: if_splits option.splits)
  have decode: "holds_after typed_state (on_first (decode_last_symbol mem)) typed_state"
    by (rule holds_on_first) (auto simp: decode_last_symbol_def typed_state_def rows_typed_def split: if_splits sum.splits)
  show ?thesis unfolding process_record_def
    by (rule holds_checked [OF read_symbol_typed], rule holds_checked [OF decode], rule holds_checked [OF holds_free_on_error [OF holds_on_input]],
        rule holds_checked [OF holds_free_on_error [OF describe]], rule found)
qed

lemma process_records_typed:
  "transcoder_typed transcode \<Longrightarrow> typed_state ctx \<Longrightarrow> process_records fuel mem symbol_hash transcode (ctx, input) = Some (r, ctx', input') \<Longrightarrow>
    typed_state ctx'"
proof (induction fuel arbitrary: ctx input)
  case (Suc n)
  obtain r1 c i where f: "process_record mem symbol_hash transcode (ctx, input) = (r1, c, i)" by (metis prod.exhaust)
  have "typed_state c" by (rule holds_afterD [OF process_record_typed [OF Suc.prems(1)] Suc.prems(2) f])
  then show ?case using Suc.prems Suc.IH [of c i] f by (auto split: if_splits sum.splits)
qed simp

text \<open>
  Whatever a message does to the rows, and also when it ends with an error, a member is only assigned values
  of its own type: the setters of the fifteen kinds of records agree with the types of their members.
\<close>

theorem rows_stay_typed:
  assumes "transcoder_typed transcode" "ds_typed (dscc ctx)" "rows_typed ctx"
    and "dx_process_data_message mem symbol_hash transcode (ctx, input) = (r, ctx', input')"
  shows "ds_typed (dscc ctx') \<and> rows_typed ctx'"
proof -
  have s: "typed_state (start_message ctx)" "typed_state ctx" using assms(2,3) by (simp_all add: typed_state_def start_message_def rows_typed_def)
  show ?thesis
  proof (cases "process_records (Suc (nat (in_buffer_limit input - current_in_buffer_position input))) mem symbol_hash transcode (start_message ctx, input)")
    case None
    then show ?thesis using assms(4) s(2) by (simp add: dx_process_data_message_def start_message_def typed_state_def del: process_records.simps)
  next
    case (Some res)
    then have "res = (r, ctx', input')" using assms(4) by (simp add: dx_process_data_message_def start_message_def del: process_records.simps)
    with process_records_typed [OF assms(1) s(1)] Some show ?thesis unfolding typed_state_def by blast
  qed
qed

section \<open>Fields of the expected types\<close>

text \<open>
  Whether a setter can read what the reader of the described type offers it: the kind of the variable decides,
  not its value.  Arrays of characters are left out, since their reader may write outside its block, and so
  are decimals that have to be converted to \<open>int\<close>.
\<close>

definition accepts :: "dx_field_digest \<Rightarrow> variable \<Rightarrow> bool" where
  "accepts d var \<longleftrightarrow> (case digest_setter d of None \<Rightarrow> True | Some f \<Rightarrow> read_as (setter_type f) var \<noteq> None)"

definition expected :: "dx_field_digest \<Rightarrow> bool" where
  "expected d \<longleftrightarrow>
    (let serialization = digest_type d AND dx_fid_mask_serialization; repr = digest_type d AND dx_fid_mask_representation;
         local_decimal = is_decimal (local_type d AND dx_fid_mask_representation)
     in if serialization = dx_fid_void then digest_setter d \<noteq> None \<and> digest_default d \<noteq> None
        else if serialization = dx_fid_byte then accepts d (if is_decimal repr then Var_double (D_Num 0) else Var_byte 0)
        else if serialization = dx_fid_utf_char then accepts d (Var_char 0)
        else if serialization = dx_fid_short then accepts d (if is_decimal repr then Var_double (D_Num 0) else Var_short 0)
        else if serialization = dx_fid_int then accepts d (if is_decimal repr then Var_double (D_Num 0) else Var_int 0)
        else if serialization = dx_fid_compact_int then
          (if repr = dx_fid_flag_long \<or> repr = dx_fid_flag_time_millis then accepts d (Var_long 0)
           else if is_decimal repr then local_decimal \<and> accepts d (Var_double (D_Num 0))
           else accepts d (if local_decimal then Var_double (D_Num 0) else Var_int 0))
        else if serialization = dx_fid_byte_array then accepts d (if repr = dx_fid_flag_string then Var_string None else Var_bytes [])
        else serialization \<noteq> dx_fid_utf_char_array)"


text \<open>A step of a reader that finds its row and is defined.\<close>

definition row_defined :: "dx_record_info_id \<Rightarrow> ('e data_ctx \<times> in_ctx, 'a) io \<Rightarrow> bool" where
  "row_defined kind m \<longleftrightarrow> (\<forall>ctx input res ctx' input'. wf_in input \<longrightarrow> rows ctx kind \<noteq> None \<longrightarrow> m (ctx, input) = (res, ctx', input') \<longrightarrow>
     res \<noteq> Inl UB \<and> wf_in input' \<and> rows ctx' kind \<noteq> None)"

lemma row_definedD:
  "row_defined kind m \<Longrightarrow> wf_in input \<Longrightarrow> rows ctx kind \<noteq> None \<Longrightarrow> m (ctx, input) = (res, ctx', input') \<Longrightarrow>
    res \<noteq> Inl UB \<and> wf_in input' \<and> rows ctx' kind \<noteq> None"
  unfolding row_defined_def by blast

named_theorems row_intros \<open>readers of fields that are defined\<close>

lemma row_defined_checked [row_intros]:
  assumes "row_defined kind m" "\<And>x. row_defined kind (k x)"
  shows "row_defined kind (checked m k)"
  unfolding row_defined_def
proof (intro allI impI)
  fix ctx input res ctx' input'
  assume a: "wf_in input" "rows ctx kind \<noteq> None" "checked m k (ctx, input) = (res, ctx', input')"
  obtain r1 c i where m: "m (ctx, input) = (r1, c, i)" by (metis prod.exhaust)
  note d = row_definedD [OF assms(1) a(1,2) m]
  show "res \<noteq> Inl UB \<and> wf_in input' \<and> rows ctx' kind \<noteq> None"
  proof (cases r1)
    case (Inl e)
    then show ?thesis using a(3) m d by (auto simp: checked_def)
  next
    case (Inr x)
    then have "k x (c, i) = (res, ctx', input')" using a(3) m by (simp add: checked_def)
    from row_definedD [OF assms(2) _ _ this] d show ?thesis by blast
  qed
qed

lemma row_defined_input [row_intros]: "safe_with 0 (\<lambda>_. True) m \<Longrightarrow> row_defined kind (on_input m)"
  unfolding safe_iff [symmetric] safe_def row_defined_def on_input_def by (fastforce split: prod.splits)










text \<open>What a server that knows the fields of the client describes, and the defaults of the fields it leaves out.\<close>

definition own_digest :: "dx_field_info \<Rightarrow> dx_field_digest" where
  "own_digest f = \<lparr>digest_type = field_type f, local_type = field_type f, digest_setter = Some f, digest_default = None\<rparr>"

lemmas field_type_defs = dx_fid_void_def dx_fid_byte_def dx_fid_utf_char_def dx_fid_short_def dx_fid_int_def dx_fid_compact_int_def
  dx_fid_byte_array_def dx_fid_utf_char_array_def dx_fid_flag_int_def dx_fid_flag_decimal_def dx_fid_flag_short_string_def
  dx_fid_flag_time_seconds_def dx_fid_flag_sequence_def dx_fid_flag_date_def dx_fid_flag_long_def dx_fid_flag_wide_decimal_def
  dx_fid_flag_string_def dx_fid_flag_time_millis_def dx_fid_flag_time_nanos_def dx_fid_flag_custom_object_def dx_fid_flag_serial_object_def
  dx_fid_mask_serialization_def dx_fid_mask_representation_def

lemma info_tables:
  "info_fields dx_rid_trade = dx_fields_trade" "info_fields dx_rid_quote = dx_fields_quote"
  "info_fields dx_rid_summary = dx_fields_summary" "info_fields dx_rid_profile = dx_fields_profile"
  "info_fields dx_rid_market_maker = dx_fields_market_maker" "info_fields dx_rid_order = dx_fields_order"
  "info_fields dx_rid_time_and_sale = dx_fields_time_and_sale" "info_fields dx_rid_candle = dx_fields_candle"
  "info_fields dx_rid_trade_eth = dx_fields_trade_eth" "info_fields dx_rid_spread_order = dx_fields_spread_order"
  "info_fields dx_rid_greeks = dx_fields_greeks" "info_fields dx_rid_theo_price = dx_fields_theo_price"
  "info_fields dx_rid_underlying = dx_fields_underlying" "info_fields dx_rid_series = dx_fields_series"
  "info_fields dx_rid_configuration = dx_fields_configuration" "info_fields dx_rid_count = []" "info_fields dx_rid_invalid = []"
  by (simp_all add: info_fields_def g_record_info_def)

lemmas tables = info_tables field_info_def
  dx_fields_trade_def dx_fields_quote_def dx_fields_summary_def dx_fields_profile_def dx_fields_market_maker_def
  dx_fields_order_def dx_fields_time_and_sale_def dx_fields_candle_def dx_fields_trade_eth_def dx_fields_spread_order_def
  dx_fields_greeks_def dx_fields_theo_price_def dx_fields_underlying_def dx_fields_series_def dx_fields_configuration_def

lemma own_types_expected:
  "list_all (\<lambda>f. (field_type f AND dx_fid_mask_serialization = dx_fid_utf_char_array \<or> expected (own_digest f))
     \<and> expected (default_digest f)) (info_fields kind)"
  by (cases kind) (simp_all add: tables own_digest_def default_digest_def expected_def accepts_def is_decimal_def Let_def field_type_defs)




section \<open>Properties\<close>


text \<open>
  C4: A data message of any number of records, each with a symbol (as a cipher, as characters, or the one
  before), event flags, the number of a described record and its values: the transcoder is called once
  for each record, in order, with the symbol, the flags, the record and a row that has the values sent
  and the defaults of the other fields, and the message is read completely.
\<close>

theorem data_message_received:
  assumes "length (symbol_buffer ctx) = SYMBOL_BUFFER_LEN + 1" "symbol_result ctx = None"
    and "all_receivable symbol_hash transcode srs (dscc ctx, rows ctx, None, receiver ctx)"
    and "wf_in input" "pending input = concat (map sent_bytes srs) @ rest"
    and "in_buffer_limit input = current_in_buffer_position input + int (length (concat (map sent_bytes srs)))"
  shows "\<exists>ctx'. dx_process_data_message all_mem symbol_hash transcode (ctx, input) =
      (Inr (), ctx', advance (length (concat (map sent_bytes srs))) input)
    \<and> view_of ctx' = fold (receive symbol_hash transcode) srs (dscc ctx, rows ctx, None, receiver ctx)"
  using data_message_run [OF assms(1-3)] assms(4-6) by blast

text \<open>
  C37: The client finds the field that a server describes by its name and its serialization only, and
  not by its representation.  When a server describes the time of an action as a plain number, the
  setter reads eight bytes from a variable of four.
\<close>

theorem mistyped_field_undefined:
  assumes "rec_fields info = dx_fields_order" "rows ctx dx_rid_order = Some r" "dx_read_compact_int input = (Inr i, input')"
  shows "fst (read_field mem dx_rid_order (field_digest info (wide ''ActionTime'', dx_fid_compact_int)) (ctx, input)) = Inl UB"
proof -
  let ?info = "\<lparr>rec_name = None, rec_fields = dx_fields_order, rec_info_id = dx_rid_order, rec_suffix = [], rec_exchange_code = 0\<rparr>"
  have c: "dx_find_record_field ?info (wide ''ActionTime'') dx_fid_compact_int = 4"
    "field_type (dx_fields_order ! 4) = dx_fid_compact_int OR dx_fid_flag_time_millis" "setter_type (dx_fields_order ! 4) = T_long" by code_simp+
  have "dx_find_record_field info (wide ''ActionTime'') dx_fid_compact_int = 4"
    using c(1) assms(1) by (simp add: dx_find_record_field_def)
  then have d: "field_digest info (wide ''ActionTime'', dx_fid_compact_int) = \<lparr>digest_type = dx_fid_compact_int,
      local_type = dx_fid_compact_int OR dx_fid_flag_time_millis, digest_setter = Some (dx_fields_order ! 4), digest_default = None\<rparr>"
    using assms(1) c(2) by (simp add: field_digest_def INVALID_INDEX_def)
  show ?thesis unfolding d
    using assms(2,3) c(3)
    by (simp add: read_field_def read_compact_field_def dx_fid_compact_int_def dx_fid_mask_serialization_def dx_fid_mask_representation_def
        dx_fid_void_def dx_fid_byte_def dx_fid_utf_char_def dx_fid_short_def dx_fid_int_def dx_fid_flag_long_def dx_fid_flag_time_millis_def
        dx_fid_flag_wide_decimal_def dx_fid_flag_decimal_def is_decimal_def checked_def on_input_def on_context_def on_row_def
        CHECKED_SET_VALUE_def set_member_def)
qed

section \<open>Witnesses\<close>

definition quote_digest :: dx_record_digest where
  "quote_digest = \<lparr>digest_fields = [field_digest quote_item bid_price], digest_slots = 11, in_sync_with_server = True\<rparr>"

definition described_ctx :: record_ctx where
  "described_ctx = quote_ctx\<lparr>frequent_ids := (frequent_ids quote_ctx)[5 := 0],
     record_digests := \<lparr>elements = [quote_digest], arr_size = 1, capacity = 1\<rparr>\<rparr>"

text \<open>A transcoder that records the symbol and the price of the bid.\<close>

definition record_bids :: "(dxf_char list option \<times> field_value) list transcoder" where
  "record_bids params event_params = (\<lambda>(ds, r, calls).
     (Inr (), ds, r, calls @ [(rp_symbol_name params, member_value T_double ''bid_price'' r)]))"

definition two_quotes :: "sent_record list" where
  "two_quotes = [\<lparr>sent_flags = None, sent_symbol = Some [73, 66, 77], sent_id = 5, sent_values = [W_number 100]\<rparr>,
     \<lparr>sent_flags = Some 4, sent_symbol = None, sent_id = 5, sent_values = [W_number 101]\<rparr>]"

lemma example_digest: "field_digest quote_item bid_price = \<lparr>digest_type = 8, local_type = field_type (dx_fields_quote ! 4),
  digest_setter = Some (dx_fields_quote ! 4), digest_default = None\<rparr>"
  using example_index(1) by (simp add: field_digest_def bid_price_def INVALID_INDEX_def quote_item_def)

lemma bid_field: "dx_fields_quote ! 4 = field_info (dx_fid_compact_int OR dx_fid_flag_wide_decimal) ''Bid.Price'' ''bid_price'' T_double T_double dx_ft_common_field"
  by (simp add: dx_fields_quote_def)

lemma described_record:
  "dx_get_record_id 5 described_ctx = 0" "dx_get_record_by_id 0 described_ctx = Some quote_item"
  "dx_get_record_digest 0 described_ctx = Some quote_digest"
  by (simp_all add: described_ctx_def dx_get_record_id_def is_frequent_def RECORD_ID_VECTOR_SIZE_def quote_ctx_def new_record_ctx_def
      dx_get_record_by_id_def dx_validate_record_id_def dx_get_record_digest_def)

lemma no_time_parts: "list_all (\<lambda>f. field_time f = dx_ft_common_field) fs \<Longrightarrow> time_parts fs r high low = Some (high, low)"
  by (induction fs) simp_all

lemma quote_time: "dx_get_time_int_field 0 described_ctx r = Inr 0"
proof -
  have "list_all (\<lambda>f. field_time f = dx_ft_common_field) dx_fields_quote" by (simp add: dx_fields_quote_def field_info_def)
  then show ?thesis using described_record(2) by (simp add: dx_get_time_int_field_def quote_item_def no_time_parts)
qed

lemma quote_carries: "carries (field_digest quote_item bid_price) (W_number i)"
  by (simp add: example_digest bid_field field_info_def serialization_def repr_of_def is_decimal_def set_by_def dx_fid_mask_serialization_def
      dx_fid_mask_representation_def dx_fid_compact_int_def dx_fid_flag_long_def dx_fid_flag_time_millis_def dx_fid_flag_wide_decimal_def
      dx_fid_flag_decimal_def)

definition new_ctx :: "record_ctx \<Rightarrow> (dxf_char list option \<times> field_value) list data_ctx" where
  "new_ctx ds = new_data_ctx ds []"

lemma receive_quote:
  assumes "sent_id sr = 5" "sent_values sr = [W_number i]"
  shows "receivable h record_bids sr (described_ctx, rws, prev, calls) \<longleftrightarrow> symbol_ok (sent_symbol sr) prev
      \<and> \<not> IS_FLAG_SET (flags_of (sent_flags sr)) dxf_ef_remove_event"
    "\<exists>rws'. receive h record_bids sr (described_ctx, rws, prev, calls) = (described_ctx, rws', current_symbol (sent_symbol sr) prev,
      calls @ [(Some (the (current_symbol (sent_symbol sr) prev)), F_double (D_Num (of_int (sint i))))])"
proof -
  show "receivable h record_bids sr (described_ctx, rws, prev, calls) \<longleftrightarrow> symbol_ok (sent_symbol sr) prev
      \<and> \<not> IS_FLAG_SET (flags_of (sent_flags sr)) dxf_ef_remove_event"
    using assms by (simp add: receivable_def transcoded_def event_call_def record_bids_def filled_row_def described_record quote_time
        quote_digest_def quote_carries Let_def del: carries.simps)
  show "\<exists>rws'. receive h record_bids sr (described_ctx, rws, prev, calls) = (described_ctx, rws', current_symbol (sent_symbol sr) prev,
      calls @ [(Some (the (current_symbol (sent_symbol sr) prev)), F_double (D_Num (of_int (sint i))))])"
    using assms by (simp add: receive_def transcoded_def event_call_def record_bids_def filled_row_def described_record quote_time
        quote_digest_def put_all_def put_sent_def example_digest bid_field field_info_def member_value_def Let_def)
qed

lemma all_two_quotes: "all_receivable h record_bids two_quotes (described_ctx, rws, None, calls)"
  "\<exists>rws'. fold (receive h record_bids) two_quotes (described_ctx, rws, None, calls) = (described_ctx, rws', Some [73, 66, 77],
     calls @ [(Some [73, 66, 77], F_double (D_Num 100)), (Some [73, 66, 77], F_double (D_Num 101))])"
proof -
  let ?a = "two_quotes ! 0" and ?b = "two_quotes ! 1"
  have two: "two_quotes = [?a, ?b]" by (simp add: two_quotes_def)
  have ab: "sent_id ?a = 5" "sent_values ?a = [W_number 100]" "sent_id ?b = 5" "sent_values ?b = [W_number 101]"
    "sent_symbol ?a = Some [73, 66, 77]" "sent_symbol ?b = None" "sent_flags ?a = None" "sent_flags ?b = Some 4" by (simp_all add: two_quotes_def)
  have fl: "\<not> IS_FLAG_SET 0 dxf_ef_remove_event" "\<not> IS_FLAG_SET 4 dxf_ef_remove_event" by code_simp+
  obtain rws1 where r1: "receive h record_bids ?a (described_ctx, rws, None, calls) = (described_ctx, rws1, Some [73, 66, 77],
      calls @ [(Some [73, 66, 77], F_double (D_Num 100))])"
    using receive_quote(2) [OF ab(1,2), of h rws None calls] ab by (auto simp: current_symbol_def)
  obtain rws2 where r2: "receive h record_bids ?b (described_ctx, rws1, Some [73, 66, 77], calls @ [(Some [73, 66, 77], F_double (D_Num 100))]) =
      (described_ctx, rws2, Some [73, 66, 77], calls @ [(Some [73, 66, 77], F_double (D_Num 100)), (Some [73, 66, 77], F_double (D_Num 101))])"
    using receive_quote(2) [OF ab(3,4), of h rws1 "Some [73, 66, 77]" "calls @ [(Some [73, 66, 77], F_double (D_Num 100))]"] ab by (auto simp: current_symbol_def)
  show "all_receivable h record_bids two_quotes (described_ctx, rws, None, calls)"
    using receive_quote(1) [OF ab(1,2)] receive_quote(1) [OF ab(3,4)] r1 ab fl
    by (subst two) (simp add: symbol_ok_def name_ok_def flags_of_def)
  show "\<exists>rws'. fold (receive h record_bids) two_quotes (described_ctx, rws, None, calls) = (described_ctx, rws', Some [73, 66, 77],
     calls @ [(Some [73, 66, 77], F_double (D_Num 100)), (Some [73, 66, 77], F_double (D_Num 101))])"
    using r1 r2 by (subst two) simp
qed

theorem data_message_received_witness:
  "let bs = concat (map sent_bytes two_quotes) in \<exists>ctx'. dx_process_data_message all_mem (\<lambda>_. 0) record_bids
      (new_ctx described_ctx, input_of bs (length bs)) = (Inr (), ctx', advance (length bs) (input_of bs (length bs)))
    \<and> receiver ctx' = [(Some [73, 66, 77], F_double (D_Num 100)), (Some [73, 66, 77], F_double (D_Num 101))]"
proof -
  let ?c = "new_ctx described_ctx"
  have v: "length (symbol_buffer ?c) = SYMBOL_BUFFER_LEN + 1" "symbol_result ?c = None" "dscc ?c = described_ctx" "rows ?c = (\<lambda>_. None)" "receiver ?c = []"
    by (simp_all add: new_ctx_def new_data_ctx_def)
  have r: "all_receivable (\<lambda>_. 0) record_bids two_quotes (dscc ?c, rows ?c, None, receiver ?c)" unfolding v by (rule all_two_quotes)
  from data_message_received [OF v(1,2) r input_of(1), of "concat (map sent_bytes two_quotes)" "length (concat (map sent_bytes two_quotes))" "[]"] all_two_quotes(2) [of "\<lambda>_. 0" "rows ?c" "[]"]
  show ?thesis unfolding Let_def v(3,5) by (auto simp: input_of view_of_def)
qed

theorem record_error_keeps_lock_witness:
  "\<exists>ctx' input'. dx_read_records all_mem 0 dx_rid_quote (put_row dx_rid_quote Map.empty (new_ctx described_ctx), input_of [] 0) = (Inl dx_bioec_buffer_underflow, ctx', input')
    \<and> digests_guard (dscc ctx') = 1"
proof -
  let ?c = "put_row dx_rid_quote Map.empty (new_ctx described_ctx)"
  obtain r c i where e: "dx_read_records all_mem 0 dx_rid_quote (?c, input_of [] 0) = (r, c, i)" by (metis prod.exhaust)
  have n: "\<not> IS_FLAG_SET (last_flags ?c) dxf_ef_remove_event" "dx_get_record_digest 0 (dscc ?c) = Some quote_digest" "digests_guard (dscc ?c) = 0"
    using described_record(3) by (simp_all add: new_ctx_def new_data_ctx_def IS_FLAG_SET_def dxf_ef_remove_event_def described_ctx_def quote_ctx_def new_record_ctx_def)
  have s: "list_all (\<lambda>d. serialization d \<in> supported_types) (digest_fields quote_digest)"
    by (simp add: quote_digest_def example_digest serialization_def supported_types_def dx_fid_mask_serialization_def dx_fid_compact_int_def)
  have u: "dx_read_compact_int (input_of [] 0) = (Inl dx_bioec_buffer_underflow, input_of [] 0)" by code_simp
  have "r = Inl dx_bioec_buffer_underflow"
    using e n(1,2) u
    by (simp add: dx_read_records_def Let_def quote_digest_def read_field_def read_compact_field_def example_digest checked_def on_input_def
        dx_fid_mask_serialization_def dx_fid_mask_representation_def dx_fid_void_def dx_fid_byte_def dx_fid_utf_char_def dx_fid_short_def
        dx_fid_int_def dx_fid_compact_int_def dx_fid_flag_long_def dx_fid_flag_time_millis_def dx_fid_flag_wide_decimal_def)
  with record_error_keeps_lock [OF e n(1,2) s] n(3) e show ?thesis by simp
qed

definition order_item :: dx_record_item where
  "order_item = \<lparr>rec_name = Some (wide ''Order#NTV''), rec_fields = dx_fields_order, rec_info_id = dx_rid_order,
     rec_suffix = wide ''NTV'', rec_exchange_code = 0\<rparr>"

theorem mistyped_field_undefined_witness:
  "fst (read_field all_mem dx_rid_order (field_digest order_item (wide ''ActionTime'', dx_fid_compact_int))
     (put_row dx_rid_order Map.empty (new_ctx described_ctx), input_of [5] 1)) = Inl UB"
proof -
  have f: "rec_fields order_item = dx_fields_order" by (simp add: order_item_def)
  have i: "dx_read_compact_int (input_of [5] 1) = (Inr 5, snd (dx_read_compact_int (input_of [5] 1)))" by code_simp
  show ?thesis by (rule mistyped_field_undefined [OF f _ i, of _ Map.empty]) simp
qed

lemma described_typed: "ds_typed described_ctx"
proof -
  have r: "rid = 0" if "dx_get_record_by_id rid described_ctx = Some info" for rid info
    using that by (auto simp: dx_get_record_by_id_def dx_validate_record_id_def described_ctx_def quote_ctx_def split: if_splits)
  have f: "rec_fields quote_item = info_fields (rec_info_id quote_item)" by (simp add: quote_item_def info_fields_def g_record_info_def)
  have d: "list_all (digest_ok (rec_fields quote_item)) (digest_fields quote_digest)"
    using quote_fields(1) by (simp add: quote_digest_def example_digest digest_ok_def quote_ctx_simps)
  show ?thesis unfolding ds_typed_def
  proof (intro allI impI conjI)
    fix rid info assume i: "dx_get_record_by_id rid described_ctx = Some info"
    then have e: "rid = 0" "info = quote_item" using r described_record(2) by fastforce+
    show "rec_fields info = info_fields (rec_info_id info)" using f e by simp
    fix digest assume "dx_get_record_digest rid described_ctx = Some digest"
    then have "digest = quote_digest" using e described_record(3) by simp
    then show "list_all (digest_ok (rec_fields info)) (digest_fields digest)" using d e by simp
  qed
qed

theorem rows_stay_typed_witness:
  "let (r, ctx', input') = dx_process_data_message all_mem (\<lambda>_. 0) record_bids (new_ctx described_ctx, input_of [5, 9, 200] 3)
   in ds_typed (dscc ctx') \<and> rows_typed ctx'"
proof -
  obtain r c i where e: "dx_process_data_message all_mem (\<lambda>_. 0) record_bids (new_ctx described_ctx, input_of [5, 9, 200] 3) = (r, c, i)"
    by (metis prod.exhaust)
  have "transcoder_typed record_bids" by (simp add: transcoder_typed_def record_bids_def)
  moreover have "ds_typed (dscc (new_ctx described_ctx))" "rows_typed (new_ctx described_ctx)"
    using described_typed by (simp_all add: new_ctx_def new_data_ctx_def rows_typed_def)
  ultimately show ?thesis using rows_stay_typed [of record_bids "new_ctx described_ctx", OF _ _ _ e] e by simp
qed



end
