(* ===== verification/Dx_Configuration.thy ===== *)
theory Dx_Configuration
  imports Dx_Data_Safety
begin

text \<open>
  The strings of configuration events (\<open>src/ConfigurationDeserializer.c\<close>): a string that Java has
  serialized, in the byte array of the record.
\<close>

section \<open>Reading\<close>

definition STREAM_MAGIC :: short16 where "STREAM_MAGIC = 0xACED"
definition STREAM_VERSION :: short16 where "STREAM_VERSION = 5"
definition TC_NULL :: byte where "TC_NULL = 0x70"
definition TC_STRING :: byte where "TC_STRING = 0x74"
definition TC_LONGSTRING :: byte where "TC_LONGSTRING = 0x7C"

text \<open>
  A position in the array; the result \<open>None\<close> is false without a code.  Both instances of
  \<open>READ_MULTIMBYTE_VALUE_BODY\<close> read \<open>sizeof(dxf_short_t)\<close> bytes.
\<close>

definition read_multibyte :: "byte list \<Rightarrow> nat \<Rightarrow> ('w::len word \<times> nat) option" where
  "read_multibyte object pos =
     (let last = pos + 2 in
      if last \<ge> length object then None
      else Some (foldl (\<lambda>value b. push_bit 8 value OR ucast b) 0 (take 2 (drop pos object)), last))"

definition read_conf_short :: "byte list \<Rightarrow> nat \<Rightarrow> (short16 \<times> nat) option" where
  "read_conf_short object pos = read_multibyte object pos"

definition read_conf_long :: "byte list \<Rightarrow> nat \<Rightarrow> (long64 \<times> nat) option" where
  "read_conf_long object pos = read_multibyte object pos"

definition read_conf_byte :: "byte list \<Rightarrow> nat \<Rightarrow> (byte \<times> nat) option" where
  "read_conf_byte object pos = (if pos + 1 \<ge> length object then None else Some (object ! pos, pos + 1))"

text \<open>
  \<open>dx_ansi_to_unicode\<close>: \<open>to_unicode\<close> is the conversion of the locale (\<open>mbsrtowcs\<close>), \<open>None\<close> for bytes that
  are no characters.  Then the size is \<open>(size_t)-1\<close>, the block of the string has no units at all, and
  the conversion writes outside.  
\<close>

definition dx_ansi_to_unicode :: "(nat \<Rightarrow> bool) \<Rightarrow> (byte list \<Rightarrow> dxf_char list option) \<Rightarrow> byte list \<Rightarrow> dx_error + dxf_char list option" where
  "dx_ansi_to_unicode mem to_unicode ansi_str =
     (case to_unicode ansi_str of
        None \<Rightarrow> Inl UB
      | Some wide_str \<Rightarrow>
          if length wide_str > 0 \<and> mem (length wide_str + 1) then Inr (Some wide_str) else Inr None)"

text \<open>
  \<open>len\<close> is the \<open>size_t\<close> of the length, so a negative length is large, and \<open>- 1\<close> asks for a block of no
  bytes.  \<open>strncpy\<close> stops after a zero byte; before it, it reads \<open>len\<close> bytes, wherever the array ends.
\<close>

definition read_conf_string :: "(nat \<Rightarrow> bool) \<Rightarrow> (byte list \<Rightarrow> dxf_char list option) \<Rightarrow> byte list \<Rightarrow> nat \<Rightarrow> long64
    \<Rightarrow> dx_error + dxf_char list option" where
  "read_conf_string mem to_unicode object pos len =
     (if \<not> mem (unat (len + 1)) then Inl dx_mec_insufficient_memory
      else if len + 1 = 0 then Inl UB
      else
        let rest = drop pos object in
        if unat len > length rest \<and> 0 \<notin> set rest then Inl UB
        else dx_ansi_to_unicode mem to_unicode (takeWhile (\<lambda>b. b \<noteq> 0) (take (unat len) rest)))"

definition SIZE_MAX :: long64 where "SIZE_MAX = - 1"

text \<open>The inner \<open>Inr None\<close> leaves the string of the event as it is, a null pointer.\<close>

definition dx_configuration_deserialize_string :: "(nat \<Rightarrow> bool) \<Rightarrow> (byte list \<Rightarrow> dxf_char list option) \<Rightarrow> byte list
    \<Rightarrow> dx_error + dxf_char list option" where
  "dx_configuration_deserialize_string mem to_unicode object =
     (case read_conf_short object 0 of
        None \<Rightarrow> Inl dx_csdec_protocol_error
      | Some (magic, pos) \<Rightarrow>
          if magic \<noteq> STREAM_MAGIC then Inl dx_csdec_protocol_error
          else case read_conf_short object pos of
            None \<Rightarrow> Inl dx_csdec_unsupported_version
          | Some (version, pos) \<Rightarrow>
              if version \<noteq> STREAM_VERSION then Inl dx_csdec_unsupported_version
              else case read_conf_byte object pos of
                None \<Rightarrow> Inl dx_csdec_protocol_error
              | Some (type, pos) \<Rightarrow>
                  if type = TC_STRING then
                    (case read_conf_short object pos of
                       None \<Rightarrow> Inl dx_csdec_protocol_error
                     | Some (len, pos) \<Rightarrow>
                         (case read_conf_string mem to_unicode object pos (scast len) of
                            Inl e \<Rightarrow> Inl (if e = UB then UB else dx_csdec_protocol_error) | Inr s \<Rightarrow> Inr s))
                  else if type = TC_LONGSTRING then
                    (case read_conf_long object pos of
                       None \<Rightarrow> Inl dx_csdec_protocol_error
                     | Some (len, pos) \<Rightarrow>
                         if uint len \<ge> uint SIZE_MAX then Inl dx_ec_invalid_func_param_internal
                         else read_conf_string mem to_unicode object pos len)
                  else Inr None)"

section \<open>What Java writes\<close>

definition java_string :: "byte list \<Rightarrow> byte list" where
  "java_string text = [0xAC, 0xED, 0, 5, TC_STRING, of_nat (length text div 256), of_nat (length text mod 256)] @ text"

text \<open>Long strings have a length of eight bytes.\<close>

definition java_long_string :: "byte list \<Rightarrow> byte list" where
  "java_long_string text = [0xAC, 0xED, 0, 5, TC_LONGSTRING, 0, 0, 0, 0] @ map (\<lambda>i. of_nat (length text div 256 ^ i)) [3, 2, 1, 0] @ text"

lemma two_bytes:
  assumes "n < 2 ^ 15"
  shows "(push_bit 8 (ucast (of_nat (n div 256) :: byte)) OR ucast (of_nat (n mod 256) :: byte) :: short16) = of_nat n"
proof -
  have "(push_bit 8 (ucast (of_nat (n div 256) :: byte)) OR ucast (of_nat (n mod 256) :: byte) :: short16)
      = push_bit 8 (ucast (of_nat (n div 256) :: byte)) + ucast (of_nat (n mod 256) :: byte)"
    by (rule disjunctive_add [symmetric]) (auto simp: bit_simps)
  also have "\<dots> = of_nat (n div 256 * 256 + n mod 256)"
    using assms unfolding of_nat_add of_nat_mult
    by (simp add: unsigned_of_nat take_bit_eq_mod push_bit_eq_mult)
  finally show ?thesis by simp
qed

lemma read_two:
  assumes "drop pos bs = a # b # rest" "rest \<noteq> []"
  shows "read_conf_short bs pos = Some (push_bit 8 (ucast a) OR ucast b, pos + 2)"
    "read_conf_long bs pos = Some (push_bit 8 (ucast a) OR ucast b, pos + 2)"
proof -
  have "length (drop pos bs) > 2" using assms by (cases rest) simp_all
  then have "\<not> length bs \<le> pos + 2" unfolding length_drop by simp
  then show "read_conf_short bs pos = Some (push_bit 8 (ucast a) OR ucast b, pos + 2)"
    "read_conf_long bs pos = Some (push_bit 8 (ucast a) OR ucast b, pos + 2)"
    using assms(1) by (simp_all add: read_conf_short_def read_conf_long_def read_multibyte_def)
qed

lemma read_one:
  assumes "drop pos bs = a # rest" "rest \<noteq> []"
  shows "read_conf_byte bs pos = Some (a, pos + 1)"
proof -
  have "length (drop pos bs) > 1" using assms by (cases rest) simp_all
  moreover have "bs ! pos = a" using drop_eq_Cons [OF assms(1)] by simp
  ultimately show ?thesis by (simp add: read_conf_byte_def)
qed

lemma java_string_parts:
  "drop 0 (java_string text) = 0xAC # 0xED # drop 2 (java_string text)" "drop 2 (java_string text) = 0 # 5 # drop 4 (java_string text)"
  "drop 4 (java_string text) = TC_STRING # drop 5 (java_string text)"
  "drop 5 (java_string text) = of_nat (length text div 256) # of_nat (length text mod 256) # text"
  "drop 7 (java_string text) = text"
  by (simp_all add: java_string_def)

lemma read_java_string:
  assumes "text \<noteq> []" "length text < 2 ^ 15"
  shows "dx_configuration_deserialize_string mem to_unicode (java_string text) =
     (case read_conf_string mem to_unicode (java_string text) 7 (scast (of_nat (length text) :: short16)) of
        Inl e \<Rightarrow> Inl (if e = UB then UB else dx_csdec_protocol_error) | Inr s \<Rightarrow> Inr s)"
proof -
  let ?bs = "java_string text"
  have "read_conf_short ?bs 0 = Some (STREAM_MAGIC, 2)"
    using read_two(1) [OF java_string_parts(1)] by (simp add: java_string_parts STREAM_MAGIC_def)
  moreover have "read_conf_short ?bs 2 = Some (STREAM_VERSION, 4)"
    using read_two(1) [OF java_string_parts(2)] by (simp add: java_string_parts STREAM_VERSION_def)
  moreover have "read_conf_byte ?bs 4 = Some (TC_STRING, 5)"
    using read_one [OF java_string_parts(3)] by (simp add: java_string_parts)
  moreover have "read_conf_short ?bs 5 = Some (of_nat (length text), 7)"
    using read_two(1) [OF java_string_parts(4) assms(1)] by (simp add: two_bytes [OF assms(2)])
  ultimately show ?thesis by (simp add: dx_configuration_deserialize_string_def TC_STRING_def)
qed

lemma short_length:
  assumes "n < 2 ^ 15"
  shows "unat (scast (of_nat n :: short16) :: long64) = n"
proof -
  have "sint (of_nat n :: short16) = int n"
    using assms by (simp add: sint_uint unsigned_of_nat signed_take_bit_int_eq_self take_bit_nat_eq_self)
  then have "(scast (of_nat n :: short16) :: long64) = word_of_int (int n)"
    by (simp only: scast_eq)
  then show ?thesis using assms by (simp add: unsigned_of_nat take_bit_nat_eq_self)
qed

text \<open>A serialized string without characters is rejected, although its length is there.\<close>

lemma empty_configuration: "dx_configuration_deserialize_string mem to_unicode (java_string []) = Inl dx_csdec_protocol_error"
  by (simp add: dx_configuration_deserialize_string_def java_string_def read_conf_short_def read_conf_byte_def read_multibyte_def
      STREAM_MAGIC_def STREAM_VERSION_def TC_STRING_def)

text \<open>
  A length that is larger than the array of the record is not noticed: the string is read behind the
  array.
\<close>

theorem configuration_overread:
  "dx_configuration_deserialize_string (\<lambda>_. True) to_unicode [0xAC, 0xED, 0, 5, TC_STRING, 0, 9, 65] = Inl UB"
  by (simp add: dx_configuration_deserialize_string_def read_conf_short_def read_conf_byte_def read_multibyte_def
      STREAM_MAGIC_def STREAM_VERSION_def TC_STRING_def read_conf_string_def)

text \<open>
  The length of a long string is read from two of its eight bytes, so that the string of the event is
  empty, whatever the server has sent.
\<close>

theorem long_configuration:
  "dx_configuration_deserialize_string (\<lambda>_. True) to_unicode (java_long_string text)
     = (case to_unicode [] of None \<Rightarrow> Inl UB | Some s \<Rightarrow> Inr (if s = [] then None else Some s))"
  by (simp add: dx_configuration_deserialize_string_def java_long_string_def read_conf_short_def read_conf_byte_def read_conf_long_def
      read_multibyte_def STREAM_MAGIC_def STREAM_VERSION_def TC_STRING_def TC_LONGSTRING_def SIZE_MAX_def read_conf_string_def dx_ansi_to_unicode_def
      unsigned_minus_1_eq_mask mask_eq_exp_minus_1 split: option.splits)

text \<open>
  C34: A string that Java has serialized in the short form, of fewer than 32768 bytes and without a zero
  byte, is read back; only the empty one is rejected.  In the long form, whatever its text, the string
  of the event stays null.  The conversion to characters is that of the locale.
\<close>

theorem configuration_roundtrip:
  assumes "length text < 2 ^ 15" "0 \<notin> set text" "to_unicode text = Some wide_str" "wide_str = [] \<longleftrightarrow> text = []"
  shows "dx_configuration_deserialize_string (\<lambda>_. True) to_unicode (java_string text) =
      (if text = [] then Inl dx_csdec_protocol_error else Inr (Some wide_str))
    \<and> (to_unicode [] = Some [] \<longrightarrow> dx_configuration_deserialize_string (\<lambda>_. True) to_unicode (java_long_string text) = Inr None)"
proof (cases "text = []")
  case True
  then show ?thesis using empty_configuration long_configuration [of to_unicode "text"] by simp
next
  case False
  let ?n = "scast (of_nat (length text) :: short16) :: long64"
  have u: "unat ?n = length text" by (rule short_length [OF assms(1)])
  have z: "?n + 1 \<noteq> 0"
  proof
    assume "?n + 1 = 0"
    then have "?n = - 1" by (simp add: eq_neg_iff_add_eq_0)
    then show False using u assms(1) by (simp add: unsigned_minus_1_eq_mask mask_eq_exp_minus_1)
  qed
  have "\<forall>b \<in> set text. b \<noteq> 0"
    using assms(2) by metis
  then have "read_conf_string (\<lambda>_. True) to_unicode (java_string text) 7 ?n = Inr (Some wide_str)"
    using z assms(3,4) False by (simp add: read_conf_string_def u java_string_parts dx_ansi_to_unicode_def takeWhile_eq_all_conv [THEN iffD2])
  then show ?thesis using False long_configuration [of to_unicode "text"] by (simp add: read_java_string [OF False assms(1)])
qed

theorem configuration_roundtrip_witness:
  "dx_configuration_deserialize_string (\<lambda>_. True) (\<lambda>bs. Some (map ucast bs)) (java_string [79, 75]) = Inr (Some [79, 75])"
  using configuration_roundtrip [of "[79, 75]" "\<lambda>bs. Some (map ucast bs)" "[79, 75]"] by simp

end
