(* ===== verification/Dx_Transcoder.thy ===== *)
theory Dx_Transcoder
  imports Dx_Configuration
begin

text \<open>
  The transcoders from the rows of records to events (\<open>src/RecordTranscoder.c\<close>).  An event is a block
  with named members, as a row is; the members of enumerated types, of flags and of \<open>dxf_bool_t\<close> are
  \<open>F_int\<close>, the array \<open>source\<close> of an order is \<open>F_string\<close>.  \<open>dx_process_event_data\<close> is a parameter here.
\<close>

section \<open>Members of rows\<close>

type_synonym event = row

definition int_member :: "string \<Rightarrow> row \<Rightarrow> dx_error + int32" where
  "int_member m r = (case member_value T_int m r of F_int i \<Rightarrow> Inr i | _ \<Rightarrow> Inl UB)"

definition char_member :: "string \<Rightarrow> row \<Rightarrow> dx_error + dxf_char" where
  "char_member m r = (case member_value T_char m r of F_char c \<Rightarrow> Inr c | _ \<Rightarrow> Inl UB)"

definition double_member :: "string \<Rightarrow> row \<Rightarrow> dx_error + double" where
  "double_member m r = (case member_value T_double m r of F_double d \<Rightarrow> Inr d | _ \<Rightarrow> Inl UB)"

definition long_member :: "string \<Rightarrow> row \<Rightarrow> dx_error + long64" where
  "long_member m r = (case member_value T_long m r of F_long l \<Rightarrow> Inr l | _ \<Rightarrow> Inl UB)"

text \<open>A string that the code reads; a pointer to a freed string is undefined.\<close>

definition string_member :: "string \<Rightarrow> row \<Rightarrow> dx_error + dxf_char list option" where
  "string_member m r = (case member_value T_string m r of
     F_string s \<Rightarrow> Inr s | F_static s \<Rightarrow> Inr (Some s) | _ \<Rightarrow> Inl UB)"

definition bytes_member :: "string \<Rightarrow> row \<Rightarrow> dx_error + byte list" where
  "bytes_member m r = (case member_value T_byte_array m r of F_bytes bs \<Rightarrow> Inr bs | _ \<Rightarrow> Inl UB)"

section \<open>Times, sequences, flags and indices\<close>

definition DX_TIME_FIELD_TO_MS :: "int32 \<Rightarrow> long64" where
  "DX_TIME_FIELD_TO_MS field = scast field * 1000"

definition DX_SEQUENCE_TO_MS :: "int32 \<Rightarrow> int32" where
  "DX_SEQUENCE_TO_MS sequence = signed_drop_bit 22 sequence AND 0x3FF"

definition DX_TIME_SEQ_TO_MS :: "int32 \<Rightarrow> int32 \<Rightarrow> long64" where
  "DX_TIME_SEQ_TO_MS time sequence = DX_TIME_FIELD_TO_MS time + ucast (DX_SEQUENCE_TO_MS sequence)"

definition DX_SEQUENCE :: "int32 \<Rightarrow> int32" where
  "DX_SEQUENCE sequence = sequence AND 0x3FFFFF"

definition DX_EXCHANGE_FROM_RECORD :: "dx_record_params \<Rightarrow> dxf_char" where
  "DX_EXCHANGE_FROM_RECORD rp = (case rp_suffix rp of None \<Rightarrow> 0 | Some [] \<Rightarrow> 0 | Some (c # _) \<Rightarrow> c)"

definition int_to_bits :: "int32 \<Rightarrow> long64" where
  "int_to_bits value = ucast value"

definition char_to_bits :: "dxf_char \<Rightarrow> long64" where
  "char_to_bits value = (let leading_zero_bits = 8 * (8 - 2) in drop_bit leading_zero_bits (push_bit leading_zero_bits (ucast value)))"

text \<open>The bits of \<open>flags\<close> from \<open>shift\<close> on that \<open>flag_mask\<close> selects.\<close>

definition flag_bits :: "nat \<Rightarrow> int32 \<Rightarrow> int32 \<Rightarrow> int32" where
  "flag_bits shift flag_mask flags = signed_drop_bit shift flags AND flag_mask"

definition DX_TRADE_GET_DIR :: "int32 \<Rightarrow> int32" where "DX_TRADE_GET_DIR = flag_bits 1 0x7"
definition DX_TRADE_GET_ETH :: "int32 \<Rightarrow> bool" where "DX_TRADE_GET_ETH flags \<longleftrightarrow> flags AND 1 = 1"
definition DX_SUMMARY_GET_DCPT :: "int32 \<Rightarrow> int32" where "DX_SUMMARY_GET_DCPT = flag_bits 2 0x3"
definition DX_SUMMARY_GET_PDCPT :: "int32 \<Rightarrow> int32" where "DX_SUMMARY_GET_PDCPT = flag_bits 0 0x3"
definition DX_PROFILE_GET_TS :: "int32 \<Rightarrow> int32" where "DX_PROFILE_GET_TS = flag_bits 0 0x3"
definition DX_PROFILE_GET_SSR :: "int32 \<Rightarrow> int32" where "DX_PROFILE_GET_SSR = flag_bits 2 0x3"
definition DX_ORDER_GET_SCOPE :: "int32 \<Rightarrow> int32" where "DX_ORDER_GET_SCOPE = flag_bits 0 0x03"
definition DX_ORDER_GET_SIDE :: "int32 \<Rightarrow> int32" where "DX_ORDER_GET_SIDE = flag_bits 2 0x03"
definition DX_ORDER_GET_EXCHANGE :: "int32 \<Rightarrow> dxf_char" where "DX_ORDER_GET_EXCHANGE flags = ucast (flag_bits 4 0x7f flags)"
definition DX_ORDER_GET_ACTION :: "int32 \<Rightarrow> int32" where "DX_ORDER_GET_ACTION = flag_bits 11 0x0f"
definition DX_TNS_GET_TYPE :: "int32 \<Rightarrow> int32" where "DX_TNS_GET_TYPE = flag_bits 0 0x3"
definition DX_TNS_GET_VALID_TICK :: "int32 \<Rightarrow> bool" where "DX_TNS_GET_VALID_TICK flags \<longleftrightarrow> flags AND 0x4 = 0x4"
definition DX_TNS_GET_ETH :: "int32 \<Rightarrow> bool" where "DX_TNS_GET_ETH flags \<longleftrightarrow> flags AND 0x08 = 0x08"
definition DX_TNS_GET_SPREAD_LEG :: "int32 \<Rightarrow> bool" where "DX_TNS_GET_SPREAD_LEG flags \<longleftrightarrow> flags AND 0x10 = 0x10"
definition DX_TNS_GET_SIDE :: "int32 \<Rightarrow> int32" where "DX_TNS_GET_SIDE = flag_bits 5 0x3"
definition DX_TNS_GET_TTE :: "int32 \<Rightarrow> dxf_char" where "DX_TNS_GET_TTE flags = ucast (flag_bits 8 0xff flags)"

definition DX_ORDER_FROM_QUOTE_BID_INDEX :: "dxf_char \<Rightarrow> long64" where
  "DX_ORDER_FROM_QUOTE_BID_INDEX e = push_bit 48 (if e = 0 then 1 else 3) OR push_bit 32 (char_to_bits e)"

definition DX_ORDER_FROM_QUOTE_ASK_INDEX :: "dxf_char \<Rightarrow> long64" where
  "DX_ORDER_FROM_QUOTE_ASK_INDEX e = push_bit 48 (if e = 0 then 2 else 4) OR push_bit 32 (char_to_bits e)"

definition DX_ORDER_FORM_MM_BID_INDEX :: "dxf_char \<Rightarrow> int32 \<Rightarrow> long64" where
  "DX_ORDER_FORM_MM_BID_INDEX mm_exchange mm_id = push_bit 48 5 OR push_bit 32 (char_to_bits mm_exchange) OR int_to_bits mm_id"

definition DX_ORDER_FORM_MM_ASK_INDEX :: "dxf_char \<Rightarrow> int32 \<Rightarrow> long64" where
  "DX_ORDER_FORM_MM_ASK_INDEX mm_exchange mm_id = push_bit 48 6 OR push_bit 32 (char_to_bits mm_exchange) OR int_to_bits mm_id"

definition DX_ORDER_INDEX :: "int32 \<Rightarrow> long64 \<Rightarrow> long64" where
  "DX_ORDER_INDEX i suffix = push_bit 32 suffix OR int_to_bits i"

text \<open>The index of times and sales, candles and greeks.\<close>

definition time_index :: "int32 \<Rightarrow> int32 \<Rightarrow> long64" where
  "time_index t sequence = push_bit 32 (int_to_bits t) OR int_to_bits sequence"

definition MAX_SUFFIX_LEN_FOR_INDEX :: nat where "MAX_SUFFIX_LEN_FOR_INDEX = 4"

definition suffix_to_long :: "dxf_char list option \<Rightarrow> long64" where
  "suffix_to_long suffix = (case suffix of
     None \<Rightarrow> 0
   | Some s \<Rightarrow>
       let i = (if length s > MAX_SUFFIX_LEN_FOR_INDEX then length s - MAX_SUFFIX_LEN_FOR_INDEX else 0)
       in foldl (\<lambda>ret c. push_bit 8 ret OR (ucast c AND 0xFF)) 0 (drop i s))"

text \<open>The loop shifts out eight bits a round, so it ends after eight rounds.\<close>

fun decode_units :: "nat \<Rightarrow> long64 \<Rightarrow> dxf_char list" where
  "decode_units 0 code = []"
| "decode_units (Suc n) code =
     (if code = 0 then []
      else let c = ucast (signed_drop_bit 56 code)
           in (if c \<noteq> 0 then [c] else []) @ decode_units n (push_bit 8 code))"

definition dx_decode_from_integer :: "(nat \<Rightarrow> bool) \<Rightarrow> long64 \<Rightarrow> dxf_char list option" where
  "dx_decode_from_integer mem code = dx_create_string_src mem (decode_units 8 code)"

section \<open>The context of the transcoder\<close>

text \<open>
  The block of an event is cleared before it is used, so the context keeps the counts of its blocks
  only.  \<open>listener\<close> is the state on which \<open>dx_process_event_data\<close> acts.
\<close>

record 'e transcoder_ctx =
  event_counts :: "dx_event_id \<Rightarrow> int"
  listener :: 'e

type_synonym 'e event_processor = "dx_event_id \<Rightarrow> dxf_char list option \<Rightarrow> event \<Rightarrow> dxf_event_params \<Rightarrow> ('e, unit) io"

type_synonym ('e, 'a) transcoding = "(record_ctx \<times> row \<times> 'e transcoder_ctx, 'a) io"

definition dx_initialize_event_data_buffer :: "(nat \<Rightarrow> bool) \<Rightarrow> int \<Rightarrow> int \<Rightarrow> (dx_error + event) \<times> int" where
  "dx_initialize_event_data_buffer mem needed buffer_count =
     (if buffer_count \<ge> needed then (Inr Map.empty, buffer_count)
      else if mem (nat needed) then (Inr Map.empty, needed)
      else (Inl dx_mec_insufficient_memory, 0))"

definition dx_get_event_data_buffer :: "(nat \<Rightarrow> bool) \<Rightarrow> dx_event_id \<Rightarrow> int \<Rightarrow> ('e, event) transcoding" where
  "dx_get_event_data_buffer mem eid needed = (\<lambda>(ds, r, ctx).
     if eid \<in> {dx_eid_count, dx_eid_invalid} then (Inl dx_ec_internal_assert_violation, ds, r, ctx)
     else case dx_initialize_event_data_buffer mem needed (event_counts ctx eid) of
       (res, n) \<Rightarrow> (res, ds, r, ctx\<lparr>event_counts := (event_counts ctx)(eid := n)\<rparr>))"

text \<open>
  The array of strings takes one more pointer: whether it can is one question to the memory.
\<close>

definition dx_store_string_buffer :: "(nat \<Rightarrow> bool) \<Rightarrow> ('e, unit) transcoding" where
  "dx_store_string_buffer mem = (if mem 1 then return () else fail dx_mec_insufficient_memory)"

definition set_exchange_code :: "dx_record_params \<Rightarrow> dxf_char \<Rightarrow> ('e, unit) transcoding" where
  "set_exchange_code params code = (\<lambda>(ds, r, ctx). (Inr (), snd (dx_set_record_exchange_code (rp_record_id params) code ds), r, ctx))"

definition deliver :: "'e event_processor \<Rightarrow> dx_event_id \<Rightarrow> dx_record_params \<Rightarrow> dxf_event_params \<Rightarrow> event \<Rightarrow> ('e, unit) transcoding" where
  "deliver process eid params event_params event = (\<lambda>(ds, r, ctx).
     case process eid (rp_symbol_name params) event event_params (listener ctx) of
       (res, e) \<Rightarrow> (res, ds, r, ctx\<lparr>listener := e\<rparr>))"

section \<open>Assignments to the members of an event\<close>

text \<open>One assignment gives a member the value of an expression over the row.\<close>

type_synonym assignment = "string \<times> (row \<Rightarrow> dx_error + field_value)"

definition assign :: "string \<Rightarrow> field_value \<Rightarrow> assignment" where
  "assign m v = (m, \<lambda>_. Inr v)"

definition copy_int :: "string \<Rightarrow> string \<Rightarrow> assignment" where
  "copy_int m source = (m, \<lambda>r. map_sum id F_int (int_member source r))"

definition copy_char :: "string \<Rightarrow> string \<Rightarrow> assignment" where
  "copy_char m source = (m, \<lambda>r. map_sum id F_char (char_member source r))"

definition copy_double :: "string \<Rightarrow> string \<Rightarrow> assignment" where
  "copy_double m source = (m, \<lambda>r. map_sum id F_double (double_member source r))"

definition copy_long :: "string \<Rightarrow> string \<Rightarrow> assignment" where
  "copy_long m source = (m, \<lambda>r. map_sum id F_long (long_member source r))"

definition of_int_member :: "string \<Rightarrow> string \<Rightarrow> (int32 \<Rightarrow> field_value) \<Rightarrow> assignment" where
  "of_int_member m source f = (m, \<lambda>r. map_sum id f (int_member source r))"

definition time_and_sequence :: "string \<Rightarrow> (int32 \<Rightarrow> int32 \<Rightarrow> field_value) \<Rightarrow> assignment" where
  "time_and_sequence m f = (m, \<lambda>r. case (int_member ''time'' r, int_member ''sequence'' r) of
     (Inr time, Inr sequence) \<Rightarrow> Inr (f time sequence) | _ \<Rightarrow> Inl UB)"

definition of_bool_value :: "bool \<Rightarrow> field_value" where
  "of_bool_value b = F_int (if b then 1 else 0)"

text \<open>The scope of events that are composite or regional.\<close>

definition scope_of :: "dxf_char \<Rightarrow> field_value" where
  "scope_of exchange_code = F_int (if exchange_code = 0 then 0 else 1)"

fun assign_all :: "assignment list \<Rightarrow> row \<Rightarrow> event \<Rightarrow> dx_error + event" where
  "assign_all [] r event = Inr event"
| "assign_all ((m, f) # as) r event = (case f r of Inl e \<Rightarrow> Inl e | Inr v \<Rightarrow> assign_all as r (event(m \<mapsto> v)))"

definition fill :: "assignment list \<Rightarrow> event \<Rightarrow> ('e, event) transcoding" where
  "fill as event = (\<lambda>(ds, r, ctx). (assign_all as r event, ds, r, ctx))"

definition read_member :: "(row \<Rightarrow> dx_error + 'a) \<Rightarrow> ('e, 'a) transcoding" where
  "read_member f = (\<lambda>(ds, r, ctx). (f r, ds, r, ctx))"

text \<open>A copy of a string of the row, which the buffers keep; a copy that can not be made is a null pointer.\<close>

definition copy_string :: "(nat \<Rightarrow> bool) \<Rightarrow> string \<Rightarrow> string \<Rightarrow> event \<Rightarrow> ('e, event) transcoding" where
  "copy_string mem m source event =
     checked (read_member (string_member source)) (\<lambda>s. case s of
       None \<Rightarrow> return event
     | Some str \<Rightarrow> (case dx_create_string_src mem str of
         None \<Rightarrow> return (event(m \<mapsto> F_string None))
       | Some copy \<Rightarrow> checked (dx_store_string_buffer mem) (\<lambda>_. return (event(m \<mapsto> F_string (Some copy))))))"

text \<open>The string that an integer stands for.\<close>

definition decode_member :: "(nat \<Rightarrow> bool) \<Rightarrow> string \<Rightarrow> string \<Rightarrow> event \<Rightarrow> ('e, event) transcoding" where
  "decode_member mem m source event =
     checked (read_member (int_member source)) (\<lambda>code.
     let str = dx_decode_from_integer mem (scast code);
         event = event(m \<mapsto> F_string str)
     in if str = None then return event else checked (dx_store_string_buffer mem) (\<lambda>_. return event))"

section \<open>Trades\<close>

definition dx_trade_t_transcoder_impl ::
  "(nat \<Rightarrow> bool) \<Rightarrow> 'e event_processor \<Rightarrow> dx_event_id \<Rightarrow> dx_record_params \<Rightarrow> dxf_event_params \<Rightarrow> ('e, unit) transcoding" where
  "dx_trade_t_transcoder_impl mem process eid params event_params =
     (if eid \<noteq> dx_eid_trade \<and> eid \<noteq> dx_eid_trade_eth then fail dx_ec_internal_assert_violation
      else checked (dx_get_event_data_buffer mem eid 1) (\<lambda>event.
        let exchange_code = DX_EXCHANGE_FROM_RECORD params in
        checked (if exchange_code = 0 then set_exchange_code params exchange_code else return ()) (\<lambda>_.
        checked (fill (
            [time_and_sequence ''time'' (\<lambda>time sequence. F_long (DX_TIME_SEQ_TO_MS time sequence)),
             of_int_member ''sequence'' ''sequence'' (F_int \<circ> DX_SEQUENCE),
             copy_int ''time_nanos'' ''time_nanos'',
             (''exchange_code'', \<lambda>r. map_sum id (\<lambda>c. F_char (if c \<noteq> 0 then c else exchange_code)) (char_member ''exchange_code'' r)),
             copy_double ''price'' ''price'',
             copy_double ''size'' ''size'']
            @ (if eid = dx_eid_trade then [copy_int ''tick'' ''tick''] else []) @
            [copy_double ''change'' ''change'',
             copy_int ''day_id'' ''day_id'',
             copy_double ''day_volume'' ''day_volume'',
             copy_double ''day_turnover'' ''day_turnover'',
             copy_int ''raw_flags'' ''flags'',
             of_int_member ''direction'' ''flags'' (F_int \<circ> DX_TRADE_GET_DIR),
             of_int_member ''is_eth'' ''flags'' (of_bool_value \<circ> DX_TRADE_GET_ETH),
             assign ''scope'' (scope_of exchange_code)]) event) (\<lambda>event.
        deliver process eid params event_params event))))"

definition dx_trade_t_transcoder where
  "dx_trade_t_transcoder mem process = dx_trade_t_transcoder_impl mem process dx_eid_trade"

definition dx_trade_eth_t_transcoder where
  "dx_trade_eth_t_transcoder mem process = dx_trade_t_transcoder_impl mem process dx_eid_trade_eth"

section \<open>Quotes\<close>

text \<open>
  An order from one side of a quote.  The part of the time in the sequence belongs to the later of the
  two sides.
\<close>

definition side_time :: "string \<Rightarrow> string \<Rightarrow> row \<Rightarrow> dx_error + (long64 \<times> int32)" where
  "side_time own other r =
     (case (int_member own r, int_member other r, int_member ''sequence'' r, int_member ''time_nanos'' r) of
        (Inr t, Inr u, Inr sequence, Inr nanos) \<Rightarrow>
          Inr (if sint t > sint u then (DX_TIME_FIELD_TO_MS t + ucast (DX_SEQUENCE_TO_MS sequence), nanos)
               else (DX_TIME_FIELD_TO_MS t, 0))
      | _ \<Rightarrow> Inl UB)"

definition quote_side ::
  "(nat \<Rightarrow> bool) \<Rightarrow> 'e event_processor \<Rightarrow> long64 \<Rightarrow> string \<times> string \<times> string \<times> string \<times> string \<Rightarrow> int32
    \<Rightarrow> dx_record_params \<Rightarrow> dxf_event_params \<Rightarrow> ('e, unit) transcoding" where
  "quote_side mem process index_value members side params event_params =
     checked (dx_get_event_data_buffer mem dx_eid_order 1) (\<lambda>event.
     let exchange_code = DX_EXCHANGE_FROM_RECORD params in
     case members of (own_time, other_time, price, size_member, exchange) \<Rightarrow>
     checked (fill
         [assign ''index'' (F_long index_value),
          (''time'', \<lambda>r. map_sum id (F_long \<circ> fst) (side_time own_time other_time r)),
          (''time_nanos'', \<lambda>r. map_sum id (F_int \<circ> snd) (side_time own_time other_time r)),
          of_int_member ''sequence'' ''sequence'' (F_int \<circ> DX_SEQUENCE),
          copy_double ''price'' price,
          copy_double ''size'' size_member,
          assign ''count'' (F_double (D_Num 0)),
          assign ''scope'' (scope_of exchange_code),
          assign ''side'' (F_int side),
          (''exchange_code'', \<lambda>r. map_sum id (\<lambda>c. F_char (if exchange_code = 0 then c else exchange_code)) (char_member exchange r)),
          assign ''source'' (F_string (Some [])),
          assign ''market_maker'' (F_string None)] event) (\<lambda>event.
     deliver process dx_eid_order params event_params event))"

definition dx_transcode_quote_to_order_bid where
  "dx_transcode_quote_to_order_bid mem process params event_params =
     quote_side mem process (DX_ORDER_FROM_QUOTE_BID_INDEX (DX_EXCHANGE_FROM_RECORD params))
       (''bid_time'', ''ask_time'', ''bid_price'', ''bid_size'', ''bid_exchange_code'') 1 params event_params"

definition dx_transcode_quote_to_order_ask where
  "dx_transcode_quote_to_order_ask mem process params event_params =
     quote_side mem process (DX_ORDER_FROM_QUOTE_ASK_INDEX (DX_EXCHANGE_FROM_RECORD params))
       (''ask_time'', ''bid_time'', ''ask_price'', ''ask_size'', ''ask_exchange_code'') 2 params event_params"

definition quote_time :: "row \<Rightarrow> dx_error + field_value" where
  "quote_time r = (case (int_member ''bid_time'' r, int_member ''ask_time'' r, int_member ''sequence'' r) of
     (Inr bid, Inr ask, Inr sequence) \<Rightarrow> Inr (F_long (DX_TIME_SEQ_TO_MS (if sint bid > sint ask then bid else ask) sequence))
   | _ \<Rightarrow> Inl UB)"

definition quote_exchange :: "dxf_char \<Rightarrow> string \<Rightarrow> assignment" where
  "quote_exchange exchange_code m = (m, \<lambda>r. map_sum id (\<lambda>c. F_char (if exchange_code \<noteq> 0 then exchange_code else c)) (char_member m r))"

definition dx_transcode_quote ::
  "(nat \<Rightarrow> bool) \<Rightarrow> 'e event_processor \<Rightarrow> dx_record_params \<Rightarrow> dxf_event_params \<Rightarrow> ('e, unit) transcoding" where
  "dx_transcode_quote mem process params event_params =
     checked (dx_get_event_data_buffer mem dx_eid_quote 1) (\<lambda>event.
     let exchange_code = DX_EXCHANGE_FROM_RECORD params in
     checked (if exchange_code \<noteq> 0 then set_exchange_code params exchange_code else return ()) (\<lambda>_.
     checked (fill
         [(''time'', quote_time),
          of_int_member ''sequence'' ''sequence'' (F_int \<circ> DX_SEQUENCE),
          copy_int ''time_nanos'' ''time_nanos'',
          of_int_member ''bid_time'' ''bid_time'' (F_long \<circ> DX_TIME_FIELD_TO_MS),
          quote_exchange exchange_code ''bid_exchange_code'',
          copy_double ''bid_price'' ''bid_price'',
          copy_double ''bid_size'' ''bid_size'',
          of_int_member ''ask_time'' ''ask_time'' (F_long \<circ> DX_TIME_FIELD_TO_MS),
          quote_exchange exchange_code ''ask_exchange_code'',
          copy_double ''ask_price'' ''ask_price'',
          copy_double ''ask_size'' ''ask_size'',
          assign ''scope'' (scope_of exchange_code)] event) (\<lambda>event.
     deliver process dx_eid_quote params event_params event)))"

text \<open>The flags of the first and of the second event, when one record gives two.\<close>

definition without_end :: "dxf_event_params \<Rightarrow> dxf_event_params" where
  "without_end p = (if ep_flags p AND dxf_ef_snapshot_end = dxf_ef_snapshot_end
     then p\<lparr>ep_flags := ep_flags p XOR dxf_ef_snapshot_end\<rparr> else p)"

definition without_begin :: "dxf_event_params \<Rightarrow> dxf_event_params" where
  "without_begin p = (if ep_flags p AND dxf_ef_snapshot_begin = dxf_ef_snapshot_begin
     then p\<lparr>ep_flags := ep_flags p XOR dxf_ef_snapshot_begin\<rparr> else p)"

definition dx_quote_t_transcoder ::
  "(nat \<Rightarrow> bool) \<Rightarrow> 'e event_processor \<Rightarrow> dx_record_params \<Rightarrow> dxf_event_params \<Rightarrow> ('e, unit) transcoding" where
  "dx_quote_t_transcoder mem process params event_params =
     checked (dx_transcode_quote_to_order_bid mem process params (without_end event_params)) (\<lambda>_.
     checked (dx_transcode_quote_to_order_ask mem process params (without_begin event_params)) (\<lambda>_.
     dx_transcode_quote mem process params event_params))"

section \<open>Summaries and profiles\<close>

definition dx_summary_t_transcoder ::
  "(nat \<Rightarrow> bool) \<Rightarrow> 'e event_processor \<Rightarrow> dx_record_params \<Rightarrow> dxf_event_params \<Rightarrow> ('e, unit) transcoding" where
  "dx_summary_t_transcoder mem process params event_params =
     checked (dx_get_event_data_buffer mem dx_eid_summary 1) (\<lambda>event.
     let exchange_code = DX_EXCHANGE_FROM_RECORD params in
     checked (if exchange_code \<noteq> 0 then set_exchange_code params exchange_code else return ()) (\<lambda>_.
     checked (fill
         [copy_int ''day_id'' ''day_id'',
          copy_double ''day_open_price'' ''day_open_price'',
          copy_double ''day_high_price'' ''day_high_price'',
          copy_double ''day_low_price'' ''day_low_price'',
          copy_double ''day_close_price'' ''day_close_price'',
          copy_int ''prev_day_id'' ''prev_day_id'',
          copy_double ''prev_day_close_price'' ''prev_day_close_price'',
          copy_double ''prev_day_volume'' ''prev_day_volume'',
          copy_double ''open_interest'' ''open_interest'',
          copy_int ''raw_flags'' ''flags'',
          assign ''exchange_code'' (F_char exchange_code),
          of_int_member ''day_close_price_type'' ''flags'' (F_int \<circ> DX_SUMMARY_GET_DCPT),
          of_int_member ''prev_day_close_price_type'' ''flags'' (F_int \<circ> DX_SUMMARY_GET_PDCPT),
          assign ''scope'' (scope_of exchange_code)] event) (\<lambda>event.
     deliver process dx_eid_summary params event_params event)))"

definition dx_profile_t_transcoder ::
  "(nat \<Rightarrow> bool) \<Rightarrow> 'e event_processor \<Rightarrow> dx_record_params \<Rightarrow> dxf_event_params \<Rightarrow> ('e, unit) transcoding" where
  "dx_profile_t_transcoder mem process params event_params =
     checked (dx_get_event_data_buffer mem dx_eid_profile 1) (\<lambda>event.
     checked (fill
         [copy_double ''beta'' ''beta'',
          copy_double ''eps'' ''eps'',
          copy_double ''div_freq'' ''div_freq'',
          copy_double ''exd_div_amount'' ''exd_div_amount'',
          copy_int ''exd_div_date'' ''exd_div_date'',
          copy_double ''high_52_week_price'' ''high_price_52'',
          copy_double ''low_52_week_price'' ''low_price_52'',
          copy_double ''shares'' ''shares'',
          copy_double ''free_float'' ''free_float'',
          copy_double ''high_limit_price'' ''high_limit_price'',
          copy_double ''low_limit_price'' ''low_limit_price'',
          of_int_member ''halt_start_time'' ''halt_start_time'' (F_long \<circ> DX_TIME_FIELD_TO_MS),
          of_int_member ''halt_end_time'' ''halt_end_time'' (F_long \<circ> DX_TIME_FIELD_TO_MS),
          copy_int ''raw_flags'' ''flags''] event) (\<lambda>event.
     checked (copy_string mem ''description'' ''description'' event) (\<lambda>event.
     checked (copy_string mem ''status_reason'' ''status_reason'' event) (\<lambda>event.
     checked (fill
         [of_int_member ''trading_status'' ''flags'' (F_int \<circ> DX_PROFILE_GET_TS),
          of_int_member ''ssr'' ''flags'' (F_int \<circ> DX_PROFILE_GET_SSR)] event) (\<lambda>event.
     deliver process dx_eid_profile params event_params event)))))"

section \<open>Market makers\<close>

definition mm_index :: "(dxf_char \<Rightarrow> int32 \<Rightarrow> long64) \<Rightarrow> row \<Rightarrow> dx_error + field_value" where
  "mm_index f r = (case (char_member ''mm_exchange'' r, int_member ''mm_id'' r) of
     (Inr c, Inr i) \<Rightarrow> Inr (F_long (f c i)) | _ \<Rightarrow> Inl UB)"

definition market_maker_side ::
  "(nat \<Rightarrow> bool) \<Rightarrow> 'e event_processor \<Rightarrow> (dxf_char \<Rightarrow> int32 \<Rightarrow> long64) \<Rightarrow> string \<times> string \<times> string \<times> string \<Rightarrow> int32
    \<Rightarrow> dx_record_params \<Rightarrow> dxf_event_params \<Rightarrow> ('e, unit) transcoding" where
  "market_maker_side mem process index_of members side params event_params =
     checked (dx_get_event_data_buffer mem dx_eid_order 1) (\<lambda>event.
     case members of (time, price, size_member, count_member) \<Rightarrow>
     checked (read_member (char_member ''mm_exchange'')) (\<lambda>exchange_code.
     checked (set_exchange_code params exchange_code) (\<lambda>_.
     checked (fill
         [assign ''event_flags'' (F_int (ep_flags event_params)),
          (''index'', mm_index index_of),
          of_int_member ''time'' time (F_long \<circ> DX_TIME_FIELD_TO_MS)] event) (\<lambda>event.
     if IS_FLAG_SET (ep_flags event_params) dxf_ef_remove_event then deliver process dx_eid_order params event_params event
     else
       checked (fill
         [assign ''sequence'' (F_int 0),
          copy_double ''price'' price,
          copy_double ''size'' size_member,
          copy_double ''count'' count_member,
          assign ''scope'' (F_int 2),
          assign ''side'' (F_int side),
          copy_char ''exchange_code'' ''mm_exchange'',
          assign ''source'' (F_string (Some []))] event) (\<lambda>event.
       checked (read_member (int_member ''mm_id'')) (\<lambda>mm_id.
       let market_maker = dx_decode_from_integer mem (scast mm_id);
           event = event(''market_maker'' \<mapsto> F_string market_maker)
       in checked (if IS_FLAG_SET (rp_flags params) dxf_ef_remove_event then return ()
                   else if market_maker = None then fail dx_mec_insufficient_memory
                   else dx_store_string_buffer mem) (\<lambda>_.
          deliver process dx_eid_order params event_params event)))))))"

definition dx_transcode_market_maker_to_order_bid where
  "dx_transcode_market_maker_to_order_bid mem process params event_params =
     market_maker_side mem process DX_ORDER_FORM_MM_BID_INDEX (''mmbid_time'', ''mmbid_price'', ''mmbid_size'', ''mmbid_count'') 1
       params event_params"

definition dx_transcode_market_maker_to_order_ask where
  "dx_transcode_market_maker_to_order_ask mem process params event_params =
     market_maker_side mem process DX_ORDER_FORM_MM_ASK_INDEX (''mmask_time'', ''mmask_price'', ''mmask_size'', ''mmask_count'') 2
       params event_params"

definition dx_market_maker_t_transcoder ::
  "(nat \<Rightarrow> bool) \<Rightarrow> 'e event_processor \<Rightarrow> dx_record_params \<Rightarrow> dxf_event_params \<Rightarrow> ('e, unit) transcoding" where
  "dx_market_maker_t_transcoder mem process params event_params =
     checked (dx_transcode_market_maker_to_order_bid mem process params (without_end event_params)) (\<lambda>_.
     dx_transcode_market_maker_to_order_ask mem process params (without_begin event_params))"

section \<open>Orders\<close>

text \<open>
  \<open>wcslen\<close> of a null pointer is undefined, and so is a copy into \<open>source\<close> of more units than the array
  has.
\<close>

definition order_source :: "dx_record_params \<Rightarrow> dx_error + field_value" where
  "order_source params = (case rp_suffix params of
     None \<Rightarrow> Inl UB
   | Some suffix \<Rightarrow> if length suffix > DXF_SUFFIX_UNITS then Inl UB else Inr (F_string (Some suffix)))"

definition order_head :: "dx_record_params \<Rightarrow> dxf_event_params \<Rightarrow> assignment list" where
  "order_head params event_params =
     [(''source'', \<lambda>_. order_source params),
      assign ''event_flags'' (F_int (ep_flags event_params)),
      of_int_member ''index'' ''index'' (\<lambda>i. F_long (DX_ORDER_INDEX i (suffix_to_long (rp_suffix params)))),
      time_and_sequence ''time'' (\<lambda>time sequence. F_long (DX_TIME_SEQ_TO_MS time sequence))]"

definition order_body :: "assignment list" where
  "order_body =
     [of_int_member ''sequence'' ''sequence'' (F_int \<circ> DX_SEQUENCE),
      copy_int ''time_nanos'' ''time_nanos'',
      of_int_member ''action'' ''flags'' (F_int \<circ> DX_ORDER_GET_ACTION),
      copy_long ''action_time'' ''action_time'',
      copy_long ''order_id'' ''order_id'',
      copy_long ''aux_order_id'' ''aux_order_id'',
      copy_double ''price'' ''price'',
      copy_double ''size'' ''size'',
      copy_double ''executed_size'' ''executed_size'',
      copy_double ''count'' ''count'',
      copy_long ''trade_id'' ''trade_id'',
      copy_double ''trade_price'' ''trade_price'',
      copy_double ''trade_size'' ''trade_size'',
      of_int_member ''exchange_code'' ''flags'' (F_char \<circ> DX_ORDER_GET_EXCHANGE),
      of_int_member ''side'' ''flags'' (F_int \<circ> DX_ORDER_GET_SIDE),
      of_int_member ''scope'' ''flags'' (F_int \<circ> DX_ORDER_GET_SCOPE)]"

definition dx_order_t_transcoder ::
  "(nat \<Rightarrow> bool) \<Rightarrow> 'e event_processor \<Rightarrow> dx_record_params \<Rightarrow> dxf_event_params \<Rightarrow> ('e, unit) transcoding" where
  "dx_order_t_transcoder mem process params event_params =
     checked (dx_get_event_data_buffer mem dx_eid_order 1) (\<lambda>event.
     checked (fill (order_head params event_params) event) (\<lambda>event.
     if IS_FLAG_SET (ep_flags event_params) dxf_ef_remove_event then deliver process dx_eid_order params event_params event
     else
       checked (fill order_body event) (\<lambda>event.
       checked (decode_member mem ''market_maker'' ''mmid'' event) (\<lambda>event.
       deliver process dx_eid_order params event_params event))))"

text \<open>In the block of an order \<open>spread_symbol\<close> is the same pointer as \<open>market_maker\<close>; only one of them is set.\<close>

definition dx_spread_order_t_transcoder ::
  "(nat \<Rightarrow> bool) \<Rightarrow> 'e event_processor \<Rightarrow> dx_record_params \<Rightarrow> dxf_event_params \<Rightarrow> ('e, unit) transcoding" where
  "dx_spread_order_t_transcoder mem process params event_params =
     checked (dx_get_event_data_buffer mem dx_eid_order 1) (\<lambda>event.
     checked (fill (order_head params event_params) event) (\<lambda>event.
     if IS_FLAG_SET (ep_flags event_params) dxf_ef_remove_event then deliver process dx_eid_spread_order params event_params event
     else
       checked (fill order_body event) (\<lambda>event.
       checked (copy_string mem ''spread_symbol'' ''spread_symbol'' event) (\<lambda>event.
       deliver process dx_eid_spread_order params event_params event))))"

section \<open>Times and sales, candles, greeks\<close>

definition time_head :: "dxf_event_params \<Rightarrow> assignment list" where
  "time_head event_params =
     [assign ''event_flags'' (F_int (ep_flags event_params)),
      time_and_sequence ''index'' (\<lambda>time sequence. F_long (time_index time sequence)),
      time_and_sequence ''time'' (\<lambda>time sequence. F_long (DX_TIME_SEQ_TO_MS time sequence))]"

definition dx_time_and_sale_t_transcoder ::
  "(nat \<Rightarrow> bool) \<Rightarrow> 'e event_processor \<Rightarrow> dx_record_params \<Rightarrow> dxf_event_params \<Rightarrow> ('e, unit) transcoding" where
  "dx_time_and_sale_t_transcoder mem process params event_params =
     checked (dx_get_event_data_buffer mem dx_eid_time_and_sale 1) (\<lambda>event.
     checked (fill (time_head event_params) event) (\<lambda>event.
     if IS_FLAG_SET (ep_flags event_params) dxf_ef_remove_event then deliver process dx_eid_time_and_sale params event_params event
     else
       checked (fill
         [copy_char ''exchange_code'' ''exchange_code'',
          copy_double ''price'' ''price'',
          copy_double ''size'' ''size'',
          copy_double ''bid_price'' ''bid_price'',
          copy_double ''ask_price'' ''ask_price''] event) (\<lambda>event.
       checked (decode_member mem ''exchange_sale_conditions'' ''exchange_sale_conditions'' event) (\<lambda>event.
       checked (fill [copy_int ''raw_flags'' ''flags''] event) (\<lambda>event.
       checked (copy_string mem ''buyer'' ''buyer'' event) (\<lambda>event.
       checked (copy_string mem ''seller'' ''seller'' event) (\<lambda>event.
       checked (fill
         [of_int_member ''side'' ''flags'' (F_int \<circ> DX_TNS_GET_SIDE),
          of_int_member ''type'' ''flags'' (F_int \<circ> DX_TNS_GET_TYPE),
          of_int_member ''is_valid_tick'' ''flags'' (of_bool_value \<circ> DX_TNS_GET_VALID_TICK),
          of_int_member ''is_eth_trade'' ''flags'' (of_bool_value \<circ> DX_TNS_GET_ETH),
          of_int_member ''trade_through_exempt'' ''flags'' (F_char \<circ> DX_TNS_GET_TTE),
          of_int_member ''is_spread_leg'' ''flags'' (of_bool_value \<circ> DX_TNS_GET_SPREAD_LEG),
          assign ''scope'' (scope_of (DX_EXCHANGE_FROM_RECORD params))] event) (\<lambda>event.
       deliver process dx_eid_time_and_sale params event_params event))))))))"

definition dx_candle_t_transcoder ::
  "(nat \<Rightarrow> bool) \<Rightarrow> 'e event_processor \<Rightarrow> dx_record_params \<Rightarrow> dxf_event_params \<Rightarrow> ('e, unit) transcoding" where
  "dx_candle_t_transcoder mem process params event_params =
     checked (dx_get_event_data_buffer mem dx_eid_candle 1) (\<lambda>event.
     checked (fill (time_head event_params) event) (\<lambda>event.
     if IS_FLAG_SET (ep_flags event_params) dxf_ef_remove_event then deliver process dx_eid_candle params event_params event
     else
       checked (fill
         [of_int_member ''sequence'' ''sequence'' (F_int \<circ> DX_SEQUENCE),
          copy_double ''count'' ''count'',
          copy_double ''open'' ''open'',
          copy_double ''high'' ''high'',
          copy_double ''low'' ''low'',
          copy_double ''close'' ''close'',
          copy_double ''volume'' ''volume'',
          copy_double ''vwap'' ''vwap'',
          copy_double ''bid_volume'' ''bid_volume'',
          copy_double ''ask_volume'' ''ask_volume'',
          copy_double ''imp_volatility'' ''imp_volatility'',
          copy_double ''open_interest'' ''open_interest''] event) (\<lambda>event.
       deliver process dx_eid_candle params event_params event)))"

definition dx_greeks_t_transcoder ::
  "(nat \<Rightarrow> bool) \<Rightarrow> 'e event_processor \<Rightarrow> dx_record_params \<Rightarrow> dxf_event_params \<Rightarrow> ('e, unit) transcoding" where
  "dx_greeks_t_transcoder mem process params event_params =
     checked (dx_get_event_data_buffer mem dx_eid_greeks 1) (\<lambda>event.
     checked (fill (time_head event_params) event) (\<lambda>event.
     if IS_FLAG_SET (ep_flags event_params) dxf_ef_remove_event then deliver process dx_eid_greeks params event_params event
     else
       checked (fill
         [copy_double ''price'' ''price'',
          copy_double ''volatility'' ''volatility'',
          copy_double ''delta'' ''delta'',
          copy_double ''gamma'' ''gamma'',
          copy_double ''theta'' ''theta'',
          copy_double ''rho'' ''rho'',
          copy_double ''vega'' ''vega''] event) (\<lambda>event.
       deliver process dx_eid_greeks params event_params event)))"

section \<open>Theoretical prices, underlyings and series\<close>

text \<open>The row itself is the event, and its time changes in place.\<close>

definition dx_theo_price_t_transcoder ::
  "(nat \<Rightarrow> bool) \<Rightarrow> 'e event_processor \<Rightarrow> dx_record_params \<Rightarrow> dxf_event_params \<Rightarrow> ('e, unit) transcoding" where
  "dx_theo_price_t_transcoder mem process params event_params =
     checked (read_member (long_member ''time'')) (\<lambda>time (ds, r, ctx).
     let t = sint time * 1000 in
     if t < - (2 ^ 63) \<or> 2 ^ 63 \<le> t then (Inl UB, ds, r, ctx)
     else
       let r = r(''time'' \<mapsto> F_long (word_of_int t))
       in deliver process dx_eid_theo_price params event_params r (ds, r, ctx))"

fun double_add :: "double \<Rightarrow> double \<Rightarrow> double" where
  "double_add (D_Num x) (D_Num y) = D_Num (x + y)"
| "double_add (D_Inf a) (D_Inf b) = (if a = b then D_Inf a else D_NaN)"
| "double_add (D_Inf a) (D_Num _) = D_Inf a"
| "double_add (D_Num _) (D_Inf b) = D_Inf b"
| "double_add _ _ = D_NaN"

definition option_volume :: "row \<Rightarrow> dx_error + field_value" where
  "option_volume r = (case (double_member ''put_volume'' r, double_member ''call_volume'' r) of
     (Inr p, Inr c) \<Rightarrow> Inr (F_double (if p = D_NaN then c else if c = D_NaN then p else double_add p c))
   | _ \<Rightarrow> Inl UB)"

definition dx_underlying_t_transcoder ::
  "(nat \<Rightarrow> bool) \<Rightarrow> 'e event_processor \<Rightarrow> dx_record_params \<Rightarrow> dxf_event_params \<Rightarrow> ('e, unit) transcoding" where
  "dx_underlying_t_transcoder mem process params event_params =
     checked (dx_get_event_data_buffer mem dx_eid_underlying 1) (\<lambda>event.
     checked (fill
         [copy_double ''volatility'' ''volatility'',
          copy_double ''front_volatility'' ''front_volatility'',
          copy_double ''back_volatility'' ''back_volatility'',
          copy_double ''call_volume'' ''call_volume'',
          copy_double ''put_volume'' ''put_volume'',
          (''option_volume'', option_volume),
          copy_double ''put_call_ratio'' ''put_call_ratio''] event) (\<lambda>event.
     deliver process dx_eid_underlying params event_params event))"

definition dx_series_t_transcoder ::
  "(nat \<Rightarrow> bool) \<Rightarrow> 'e event_processor \<Rightarrow> dx_record_params \<Rightarrow> dxf_event_params \<Rightarrow> ('e, unit) transcoding" where
  "dx_series_t_transcoder mem process params event_params =
     checked (dx_get_event_data_buffer mem dx_eid_series 1) (\<lambda>event.
     checked (fill
         [assign ''event_flags'' (F_int (ep_flags event_params)),
          of_int_member ''index'' ''index'' (F_long \<circ> scast),
          time_and_sequence ''time'' (\<lambda>time sequence. F_long (DX_TIME_SEQ_TO_MS time sequence))] event) (\<lambda>event.
     if IS_FLAG_SET (ep_flags event_params) dxf_ef_remove_event then deliver process dx_eid_series params event_params event
     else
       checked (fill
         [of_int_member ''sequence'' ''sequence'' (F_int \<circ> DX_SEQUENCE),
          copy_int ''expiration'' ''expiration'',
          copy_double ''volatility'' ''volatility'',
          copy_double ''call_volume'' ''call_volume'',
          copy_double ''put_volume'' ''put_volume'',
          (''option_volume'', option_volume),
          copy_double ''put_call_ratio'' ''put_call_ratio'',
          copy_double ''forward_price'' ''forward_price'',
          copy_double ''dividend'' ''dividend'',
          copy_double ''interest'' ''interest''] event) (\<lambda>event.
       deliver process dx_eid_series params event_params event)))"

section \<open>Configurations\<close>

definition dx_configuration_t_transcoder ::
  "(nat \<Rightarrow> bool) \<Rightarrow> (byte list \<Rightarrow> dxf_char list option) \<Rightarrow> 'e event_processor \<Rightarrow> dx_record_params \<Rightarrow> dxf_event_params
    \<Rightarrow> ('e, unit) transcoding" where
  "dx_configuration_t_transcoder mem to_unicode process params event_params =
     checked (dx_get_event_data_buffer mem dx_eid_configuration 1) (\<lambda>event.
     checked (fill [copy_int ''version'' ''version''] event) (\<lambda>event.
     checked (read_member (\<lambda>r. case bytes_member ''object'' r of Inl e \<Rightarrow> Inl e
        | Inr bs \<Rightarrow> dx_configuration_deserialize_string mem to_unicode bs)) (\<lambda>str.
     checked (dx_store_string_buffer mem) (\<lambda>_.
     deliver process dx_eid_configuration params event_params (event(''object'' \<mapsto> F_string str))))))"

section \<open>All records\<close>

text \<open>The table of transcoders; the last ids are behind its end.\<close>

definition dx_transcode_record_data ::
  "(nat \<Rightarrow> bool) \<Rightarrow> (byte list \<Rightarrow> dxf_char list option) \<Rightarrow> 'e event_processor \<Rightarrow> 'e transcoder_ctx transcoder" where
  "dx_transcode_record_data mem to_unicode process params event_params =
     (case rp_record_info_id params of
        dx_rid_trade \<Rightarrow> dx_trade_t_transcoder mem process params event_params
      | dx_rid_quote \<Rightarrow> dx_quote_t_transcoder mem process params event_params
      | dx_rid_summary \<Rightarrow> dx_summary_t_transcoder mem process params event_params
      | dx_rid_profile \<Rightarrow> dx_profile_t_transcoder mem process params event_params
      | dx_rid_market_maker \<Rightarrow> dx_market_maker_t_transcoder mem process params event_params
      | dx_rid_order \<Rightarrow> dx_order_t_transcoder mem process params event_params
      | dx_rid_time_and_sale \<Rightarrow> dx_time_and_sale_t_transcoder mem process params event_params
      | dx_rid_candle \<Rightarrow> dx_candle_t_transcoder mem process params event_params
      | dx_rid_trade_eth \<Rightarrow> dx_trade_eth_t_transcoder mem process params event_params
      | dx_rid_spread_order \<Rightarrow> dx_spread_order_t_transcoder mem process params event_params
      | dx_rid_greeks \<Rightarrow> dx_greeks_t_transcoder mem process params event_params
      | dx_rid_theo_price \<Rightarrow> dx_theo_price_t_transcoder mem process params event_params
      | dx_rid_underlying \<Rightarrow> dx_underlying_t_transcoder mem process params event_params
      | dx_rid_series \<Rightarrow> dx_series_t_transcoder mem process params event_params
      | dx_rid_configuration \<Rightarrow> dx_configuration_t_transcoder mem to_unicode process params event_params
      | dx_rid_count \<Rightarrow> fail UB
      | dx_rid_invalid \<Rightarrow> fail UB)"

end
