(* ===== verification/Dx_Transcoder_Safety.thy ===== *)
theory Dx_Transcoder_Safety
  imports Dx_Transcoder
begin

text \<open>
  The transcoders keep the types of the rows that the readers of data messages rely on, and they are
  defined on rows of the right types.
\<close>

section \<open>Rows and data structures\<close>

definition preserves :: "('e, 'a) transcoding \<Rightarrow> bool" where
  "preserves m \<longleftrightarrow> (\<forall>ds r ctx res ds' r' ctx'. m (ds, r, ctx) = (res, ds', r', ctx') \<longrightarrow> r' = r \<and> (ds_typed ds \<longrightarrow> ds_typed ds'))"

named_theorems preserves_intros \<open>transcodings that preserve the row\<close>

lemma preserves_basic [preserves_intros]:
  "preserves (return v)" "preserves (fail e)" "preserves (dx_store_string_buffer mem)" "preserves (fill as event)"
  "preserves (read_member f)" "preserves (deliver process eid params event_params event)" "preserves (dx_get_event_data_buffer mem eid n)"
  by (auto simp: preserves_def return_def fail_def dx_store_string_buffer_def fill_def read_member_def deliver_def
      dx_get_event_data_buffer_def split: prod.splits if_splits)

lemma preserves_checked [preserves_intros]:
  assumes "preserves m" "\<And>v. preserves (k v)"
  shows "preserves (checked m k)"
  unfolding preserves_def
proof (intro allI impI)
  fix ds r ctx res ds' r' ctx'
  assume e: "checked m k (ds, r, ctx) = (res, ds', r', ctx')"
  obtain x ds1 r1 ctx1 where m: "m (ds, r, ctx) = (x, ds1, r1, ctx1)" by (metis prod.exhaust)
  with assms(1) have 1: "r1 = r" "ds_typed ds \<longrightarrow> ds_typed ds1" unfolding preserves_def by blast+
  show "r' = r \<and> (ds_typed ds \<longrightarrow> ds_typed ds')"
  proof (cases x)
    case (Inl e')
    with e m 1 show ?thesis by (simp add: checked_apply)
  next
    case (Inr v)
    with e m have "k v (ds1, r1, ctx1) = (res, ds', r', ctx')" by (simp add: checked_apply)
    with assms(2) [of v] 1 show ?thesis unfolding preserves_def by blast
  qed
qed

lemma preserves_cases [preserves_intros]:
  "preserves m \<Longrightarrow> preserves n \<Longrightarrow> preserves (if b then m else n)"
  "preserves m \<Longrightarrow> (\<And>x. preserves (f x)) \<Longrightarrow> preserves (case opt of None \<Rightarrow> m | Some x \<Rightarrow> f x)"
  "(\<And>x. preserves (f x)) \<Longrightarrow> preserves (Let t f)"
  by (auto split: option.splits)

lemma set_exchange_code_typed:
  assumes "ds_typed ds"
  shows "ds_typed (snd (dx_set_record_exchange_code rid code ds))"
proof -
  let ?ds = "snd (dx_set_record_exchange_code rid code ds)"
  have d: "dx_get_record_digest i ?ds = dx_get_record_digest i ds" for i
    by (simp add: dx_set_record_exchange_code_def dx_get_record_digest_def)
  have "\<exists>old. dx_get_record_by_id i ds = Some old \<and> rec_fields info = rec_fields old \<and> rec_info_id info = rec_info_id old"
    if "dx_get_record_by_id i ?ds = Some info" for i info
  proof -
    have "rec_fields ((es :: dx_record_item list)[k := (es ! k)\<lparr>rec_exchange_code := code\<rparr>] ! n) = rec_fields (es ! n)
        \<and> rec_info_id (es[k := (es ! k)\<lparr>rec_exchange_code := code\<rparr>] ! n) = rec_info_id (es ! n)" for es k n
      by (cases "n = k"; cases "k < length es") (simp_all add: list_update_beyond)
    with that show ?thesis
      by (auto simp: dx_set_record_exchange_code_def dx_get_record_by_id_def dx_validate_record_id_def split: if_splits)
  qed
  with d assms show ?thesis unfolding ds_typed_def by metis
qed

lemma preserves_exchange_code [preserves_intros]: "preserves (set_exchange_code params code)"
  by (auto simp: preserves_def set_exchange_code_def set_exchange_code_typed)

lemma preserves_strings [preserves_intros]:
  "preserves (copy_string mem m source event)" "preserves (decode_member mem m source event)"
  unfolding copy_string_def decode_member_def by (intro preserves_intros)+

lemmas transcoder_defs = dx_trade_t_transcoder_def dx_trade_eth_t_transcoder_def dx_trade_t_transcoder_impl_def dx_quote_t_transcoder_def
  dx_transcode_quote_to_order_bid_def dx_transcode_quote_to_order_ask_def dx_transcode_quote_def quote_side_def dx_summary_t_transcoder_def
  dx_profile_t_transcoder_def dx_market_maker_t_transcoder_def dx_transcode_market_maker_to_order_bid_def
  dx_transcode_market_maker_to_order_ask_def market_maker_side_def dx_order_t_transcoder_def dx_spread_order_t_transcoder_def
  dx_time_and_sale_t_transcoder_def dx_candle_t_transcoder_def dx_greeks_t_transcoder_def dx_underlying_t_transcoder_def
  dx_series_t_transcoder_def dx_configuration_t_transcoder_def

lemma transcoders_preserve:
  "preserves (dx_trade_t_transcoder mem process p ep)" "preserves (dx_trade_eth_t_transcoder mem process p ep)"
  "preserves (dx_quote_t_transcoder mem process p ep)" "preserves (dx_summary_t_transcoder mem process p ep)"
  "preserves (dx_profile_t_transcoder mem process p ep)" "preserves (dx_market_maker_t_transcoder mem process p ep)"
  "preserves (dx_order_t_transcoder mem process p ep)" "preserves (dx_spread_order_t_transcoder mem process p ep)"
  "preserves (dx_time_and_sale_t_transcoder mem process p ep)" "preserves (dx_candle_t_transcoder mem process p ep)"
  "preserves (dx_greeks_t_transcoder mem process p ep)" "preserves (dx_underlying_t_transcoder mem process p ep)"
  "preserves (dx_series_t_transcoder mem process p ep)" "preserves (dx_configuration_t_transcoder mem to_unicode process p ep)"
  unfolding transcoder_defs prod.case by (intro preserves_intros)+

lemma theo_price_typed:
  assumes "dx_theo_price_t_transcoder mem process p ep (ds, r, ctx) = (res, ds', r', ctx')"
  shows "ds' = ds \<and> (r' = r \<or> (\<exists>l. r' = r(''time'' \<mapsto> F_long l)))"
  using assms
  by (auto simp: dx_theo_price_t_transcoder_def checked_apply read_member_def deliver_def Let_def split: sum.splits if_splits prod.splits)

text \<open>The transcoders keep the types that the readers of data messages rely on.\<close>

lemma transcoder_keeps_types: "transcoder_typed (dx_transcode_record_data mem to_unicode process)"
  unfolding transcoder_typed_def
proof (intro allI impI)
  fix p ep ds r e res ds' r' e'
  assume e: "dx_transcode_record_data mem to_unicode process p ep (ds, r, e) = (res, ds', r', e')"
    and t: "ds_typed ds" "row_typed (info_fields (rp_record_info_id p)) r"
  show "ds_typed ds' \<and> row_typed (info_fields (rp_record_info_id p)) r'"
  proof (cases "rp_record_info_id p = dx_rid_theo_price")
    case True
    then have "ds' = ds \<and> (r' = r \<or> (\<exists>l. r' = r(''time'' \<mapsto> F_long l)))"
      using e by (intro theo_price_typed) (simp add: dx_transcode_record_data_def)
    moreover have "row_typed (info_fields dx_rid_theo_price) (r(''time'' \<mapsto> F_long l))" if "row_typed (info_fields dx_rid_theo_price) r" for l
      using that by (simp add: row_typed_def info_fields_def g_record_info_def dx_fields_theo_price_def field_info_def member_value_def)
    ultimately show ?thesis using t True by auto
  next
    case False
    then have "preserves (dx_transcode_record_data mem to_unicode process p ep)"
      by (cases "rp_record_info_id p") (simp_all add: dx_transcode_record_data_def transcoders_preserve preserves_basic)
    with e have "r' = r \<and> (ds_typed ds \<longrightarrow> ds_typed ds')" unfolding preserves_def by blast
    with t show ?thesis by simp
  qed
qed

section \<open>Undefined behaviour\<close>

text \<open>A transcoding that is defined on the rows \<open>P\<close>, and keeps the row.\<close>

definition defined_on :: "(row \<Rightarrow> bool) \<Rightarrow> ('e, 'a) transcoding \<Rightarrow> bool" where
  "defined_on P m \<longleftrightarrow> (\<forall>ds r ctx. P r \<longrightarrow> fst (m (ds, r, ctx)) \<noteq> Inl UB)"

named_theorems defined_intros \<open>transcodings that are defined\<close>

definition quiet :: "'e event_processor \<Rightarrow> bool" where
  "quiet process \<longleftrightarrow> (\<forall>eid symbol event ep e. fst (process eid symbol event ep e) \<noteq> Inl UB)"

lemma defined_deliver [defined_intros]: "quiet process \<Longrightarrow> defined_on P (deliver process eid params event_params event)"
  by (auto simp: defined_on_def deliver_def quiet_def split: prod.splits) (metis fst_conv)

lemma defined_basic [defined_intros]:
  "defined_on P (return v)" "e \<noteq> UB \<Longrightarrow> defined_on P (fail e)" "defined_on P (dx_store_string_buffer mem)"
  "defined_on P (dx_get_event_data_buffer mem eid n)"
  "defined_on P (set_exchange_code params code)"
  by (auto simp: defined_on_def return_def fail_def dx_store_string_buffer_def dx_get_event_data_buffer_def
      dx_initialize_event_data_buffer_def set_exchange_code_def split: prod.splits)

lemma defined_checked [defined_intros]:
  assumes "defined_on P m" "preserves m" "\<And>v. defined_on P (k v)"
  shows "defined_on P (checked m k)"
  unfolding defined_on_def
proof (intro allI impI)
  fix ds r ctx
  assume P: "P r"
  obtain x ds1 r1 ctx1 where m: "m (ds, r, ctx) = (x, ds1, r1, ctx1)" by (metis prod.exhaust)
  with assms(2) have "r1 = r" unfolding preserves_def by blast
  then show "fst (checked m k (ds, r, ctx)) \<noteq> Inl UB"
    using assms(1,3) P m unfolding defined_on_def checked_apply by (cases x) (auto, metis fst_conv)
qed

lemma defined_cases [defined_intros]:
  "(b \<Longrightarrow> defined_on P m) \<Longrightarrow> (\<not> b \<Longrightarrow> defined_on P n) \<Longrightarrow> defined_on P (if b then m else n)"
  "defined_on P m \<Longrightarrow> (\<And>x. defined_on P (f x)) \<Longrightarrow> defined_on P (case opt of None \<Rightarrow> m | Some x \<Rightarrow> f x)"
  "(\<And>x. defined_on P (f x)) \<Longrightarrow> defined_on P (Let t f)"
  by (auto split: option.splits)

lemma defined_read_member [defined_intros]: "(\<And>r. P r \<Longrightarrow> f r \<noteq> Inl UB) \<Longrightarrow> defined_on P (read_member f)"
  by (auto simp: defined_on_def read_member_def)

lemma assign_all_defined:
  "list_all (\<lambda>(m, f). f r \<noteq> Inl UB) as \<Longrightarrow> assign_all as r event \<noteq> Inl UB"
  by (induction as arbitrary: event) (auto split: sum.splits)

lemma defined_fill [defined_intros]: "(\<And>r. P r \<Longrightarrow> list_all (\<lambda>(m, f). f r \<noteq> Inl UB) as) \<Longrightarrow> defined_on P (fill as event)"
  by (simp add: defined_on_def fill_def assign_all_defined)

lemma defined_strings [defined_intros]:
  "(\<And>r. P r \<Longrightarrow> string_member source r \<noteq> Inl UB) \<Longrightarrow> defined_on P (copy_string mem m source event)"
  "(\<And>r. P r \<Longrightarrow> int_member source r \<noteq> Inl UB) \<Longrightarrow> defined_on P (decode_member mem m source event)"
  unfolding copy_string_def decode_member_def by (intro defined_intros preserves_intros | assumption)+


text \<open>
  Rows whose members have their types and hold no pointer that has been freed.
\<close>

definition live_row :: "dx_record_info_id \<Rightarrow> row \<Rightarrow> bool" where
  "live_row kind r \<longleftrightarrow> row_typed (info_fields kind) r \<and> (\<forall>m. r m \<noteq> Some F_dangling)"

fun member_defined :: "c_type \<Rightarrow> string \<Rightarrow> row \<Rightarrow> bool" where
  "member_defined T_int m r \<longleftrightarrow> (\<exists>i. int_member m r = Inr i)"
| "member_defined T_char m r \<longleftrightarrow> (\<exists>c. char_member m r = Inr c)"
| "member_defined T_double m r \<longleftrightarrow> (\<exists>d. double_member m r = Inr d)"
| "member_defined T_long m r \<longleftrightarrow> (\<exists>l. long_member m r = Inr l)"
| "member_defined T_string m r \<longleftrightarrow> (\<exists>s. string_member m r = Inr s)"
| "member_defined T_byte_array m r \<longleftrightarrow> (\<exists>bs. bytes_member m r = Inr bs)"

lemma live_defined:
  assumes "live_row kind r"
  shows "list_all (\<lambda>f. member_defined (getter_type f) (field_member f) r) (info_fields kind)"
  unfolding list_all_iff
proof
  fix f assume f: "f \<in> set (info_fields kind)"
  have "has_type (getter_type f) (member_value (getter_type f) (field_member f) r)"
    using assms f by (auto simp: live_row_def row_typed_def)
  moreover have "member_value (getter_type f) (field_member f) r \<noteq> F_dangling"
    using assms by (auto simp: live_row_def member_value_def zero_value_def split: option.splits c_type.splits)
  ultimately show "member_defined (getter_type f) (field_member f) r"
    by (cases "getter_type f"; cases "member_value (getter_type f) (field_member f) r")
      (simp_all add: int_member_def char_member_def double_member_def long_member_def string_member_def bytes_member_def)
qed

lemmas assignment_defs = assign_def copy_int_def copy_char_def copy_double_def copy_long_def of_int_member_def time_and_sequence_def
  order_head_def order_body_def time_head_def quote_exchange_def quote_time_def side_time_def mm_index_def option_volume_def

lemma map_sum_UB: "map_sum id f x = Inl UB \<longleftrightarrow> x = Inl UB"
  by (cases x) simp_all

lemmas live_table = info_tables field_info_def map_sum_UB

lemma trade_defined: "quiet process \<Longrightarrow> defined_on (live_row dx_rid_trade) (dx_trade_t_transcoder mem process p ep)"
  unfolding dx_trade_t_transcoder_def dx_trade_t_transcoder_impl_def
  by (intro defined_intros preserves_intros; (assumption | simp)?; drule live_defined)
    (auto simp: live_table dx_fields_trade_def assignment_defs)

lemma trade_eth_defined: "quiet process \<Longrightarrow> defined_on (live_row dx_rid_trade_eth) (dx_trade_eth_t_transcoder mem process p ep)"
  unfolding dx_trade_eth_t_transcoder_def dx_trade_t_transcoder_impl_def
  by (intro defined_intros preserves_intros; (assumption | simp)?; drule live_defined)
    (auto simp: live_table dx_fields_trade_eth_def assignment_defs)

lemma quote_defined: "quiet process \<Longrightarrow> defined_on (live_row dx_rid_quote) (dx_quote_t_transcoder mem process p ep)"
  unfolding dx_quote_t_transcoder_def dx_transcode_quote_to_order_bid_def dx_transcode_quote_to_order_ask_def dx_transcode_quote_def
    quote_side_def prod.case
  by (intro defined_intros preserves_intros; (assumption | simp)?; drule live_defined)
    (auto simp: live_table dx_fields_quote_def assignment_defs)

lemma summary_defined: "quiet process \<Longrightarrow> defined_on (live_row dx_rid_summary) (dx_summary_t_transcoder mem process p ep)"
  unfolding dx_summary_t_transcoder_def
  by (intro defined_intros preserves_intros; (assumption | simp)?; drule live_defined)
    (auto simp: live_table dx_fields_summary_def assignment_defs)

lemma profile_defined: "quiet process \<Longrightarrow> defined_on (live_row dx_rid_profile) (dx_profile_t_transcoder mem process p ep)"
  unfolding dx_profile_t_transcoder_def
  by (intro defined_intros preserves_intros; (assumption | simp)?; drule live_defined)
    (auto simp: live_table dx_fields_profile_def assignment_defs)

lemma market_maker_defined: "quiet process \<Longrightarrow> defined_on (live_row dx_rid_market_maker) (dx_market_maker_t_transcoder mem process p ep)"
  unfolding dx_market_maker_t_transcoder_def dx_transcode_market_maker_to_order_bid_def dx_transcode_market_maker_to_order_ask_def
    market_maker_side_def prod.case
  by (intro defined_intros preserves_intros; (assumption | simp)?; drule live_defined)
    (auto simp: live_table dx_fields_market_maker_def assignment_defs)

lemma order_defined: "quiet process \<Longrightarrow> rp_suffix p = Some suffix \<Longrightarrow> length suffix \<le> 5 \<Longrightarrow> 
    defined_on (live_row dx_rid_order) (dx_order_t_transcoder mem process p ep)"
  unfolding dx_order_t_transcoder_def
  by (intro defined_intros preserves_intros; (assumption | simp)?; drule live_defined)
    (auto simp: live_table dx_fields_order_def assignment_defs order_source_def DXF_SUFFIX_UNITS_def)

lemma spread_order_defined: "quiet process \<Longrightarrow> rp_suffix p = Some suffix \<Longrightarrow> length suffix \<le> 5 \<Longrightarrow> 
    defined_on (live_row dx_rid_spread_order) (dx_spread_order_t_transcoder mem process p ep)"
  unfolding dx_spread_order_t_transcoder_def
  by (intro defined_intros preserves_intros; (assumption | simp)?; drule live_defined)
    (auto simp: live_table dx_fields_spread_order_def assignment_defs order_source_def DXF_SUFFIX_UNITS_def)

lemma time_and_sale_defined: "quiet process \<Longrightarrow> defined_on (live_row dx_rid_time_and_sale) (dx_time_and_sale_t_transcoder mem process p ep)"
  unfolding dx_time_and_sale_t_transcoder_def
  by (intro defined_intros preserves_intros; (assumption | simp)?; drule live_defined)
    (auto simp: live_table dx_fields_time_and_sale_def assignment_defs)

lemma candle_defined: "quiet process \<Longrightarrow> defined_on (live_row dx_rid_candle) (dx_candle_t_transcoder mem process p ep)"
  unfolding dx_candle_t_transcoder_def
  by (intro defined_intros preserves_intros; (assumption | simp)?; drule live_defined)
    (auto simp: live_table dx_fields_candle_def assignment_defs)

lemma greeks_defined: "quiet process \<Longrightarrow> defined_on (live_row dx_rid_greeks) (dx_greeks_t_transcoder mem process p ep)"
  unfolding dx_greeks_t_transcoder_def
  by (intro defined_intros preserves_intros; (assumption | simp)?; drule live_defined)
    (auto simp: live_table dx_fields_greeks_def assignment_defs)

lemma underlying_defined: "quiet process \<Longrightarrow> defined_on (live_row dx_rid_underlying) (dx_underlying_t_transcoder mem process p ep)"
  unfolding dx_underlying_t_transcoder_def
  by (intro defined_intros preserves_intros; (assumption | simp)?; drule live_defined)
    (auto simp: live_table dx_fields_underlying_def assignment_defs)

lemma series_defined: "quiet process \<Longrightarrow> defined_on (live_row dx_rid_series) (dx_series_t_transcoder mem process p ep)"
  unfolding dx_series_t_transcoder_def
  by (intro defined_intros preserves_intros; (assumption | simp)?; drule live_defined)
    (auto simp: live_table dx_fields_series_def assignment_defs)

definition known_source :: "dx_record_params \<Rightarrow> bool" where
  "known_source p \<longleftrightarrow> (rp_record_info_id p \<in> {dx_rid_order, dx_rid_spread_order}
     \<longrightarrow> (\<exists>suffix. rp_suffix p = Some suffix \<and> length suffix \<le> 5))"

text \<open>What the arithmetic of theoretical prices and the reader of configurations need of the values.\<close>

definition convertible :: "(nat \<Rightarrow> bool) \<Rightarrow> (byte list \<Rightarrow> dxf_char list option) \<Rightarrow> dx_record_info_id \<Rightarrow> row \<Rightarrow> bool" where
  "convertible mem to_unicode kind r \<longleftrightarrow>
     (kind = dx_rid_theo_price \<longrightarrow> (\<forall>t. long_member ''time'' r = Inr t \<longrightarrow> - (2 ^ 63) \<le> sint t * 1000 \<and> sint t * 1000 < 2 ^ 63))
     \<and> (kind = dx_rid_configuration \<longrightarrow>
          (\<forall>bs. bytes_member ''object'' r = Inr bs \<longrightarrow> dx_configuration_deserialize_string mem to_unicode bs \<noteq> Inl UB))"

lemma defined_mono: "defined_on P m \<Longrightarrow> defined_on (\<lambda>r. P r \<and> Q r) m"
  by (simp add: defined_on_def)

lemma theo_price_defined:
  "quiet process \<Longrightarrow> defined_on (\<lambda>r. live_row dx_rid_theo_price r \<and> convertible mem to_unicode dx_rid_theo_price r)
    (dx_theo_price_t_transcoder mem' process p ep)"
  unfolding defined_on_def
proof (intro allI impI)
  fix ds r and ctx :: "'a transcoder_ctx"
  assume q: "quiet process" and r: "live_row dx_rid_theo_price r \<and> convertible mem to_unicode dx_rid_theo_price r"
  obtain t where t: "long_member ''time'' r = Inr t"
    using live_defined [OF r [THEN conjunct1]] by (auto simp: info_tables dx_fields_theo_price_def field_info_def)
  with r have "- (2 ^ 63) \<le> sint t * 1000" "sint t * 1000 < 2 ^ 63" by (simp_all add: convertible_def)
  then have "dx_theo_price_t_transcoder mem' process p ep (ds, r, ctx) =
      deliver process dx_eid_theo_price p ep (r(''time'' \<mapsto> F_long (word_of_int (sint t * 1000))))
        (ds, r(''time'' \<mapsto> F_long (word_of_int (sint t * 1000))), ctx)"
    using t by (simp add: dx_theo_price_t_transcoder_def checked_def read_member_def Let_def)
  then show "fst (dx_theo_price_t_transcoder mem' process p ep (ds, r, ctx)) \<noteq> Inl UB"
    using defined_deliver [OF q, of "\<lambda>_. True"] unfolding defined_on_def by auto
qed

lemma configuration_defined:
  "quiet process \<Longrightarrow> defined_on (\<lambda>r. live_row dx_rid_configuration r \<and> convertible mem to_unicode dx_rid_configuration r)
    (dx_configuration_t_transcoder mem to_unicode process p ep)"
  unfolding dx_configuration_t_transcoder_def
  by (intro defined_intros preserves_intros; (assumption | simp)?; frule live_defined [OF conjunct1])
    (auto simp: live_table dx_fields_configuration_def assignment_defs convertible_def split: sum.splits)

lemma live_empty: "live_row kind Map.empty"
  by (simp add: live_row_def typed_empty)

text \<open>
  C9: The transcoders of all kinds of records are defined on every row whose members have the types of the
  table of its record and hold no freed pointer; orders need a record with a source of five units at most,
  theoretical prices a time whose milliseconds are a \<open>long\<close>, and configurations an object that the
  reader of strings is defined on.
\<close>

theorem transcoding_defined:
  assumes "quiet process" "live_row (rp_record_info_id p) r" "convertible mem to_unicode (rp_record_info_id p) r" "known_source p"
    and "rp_record_info_id p \<notin> {dx_rid_count, dx_rid_invalid}"
  shows "fst (dx_transcode_record_data mem to_unicode process p ep (ds, r, ctx)) \<noteq> Inl UB"
proof -
  have "defined_on (\<lambda>r. live_row (rp_record_info_id p) r \<and> convertible mem to_unicode (rp_record_info_id p) r)
      (dx_transcode_record_data mem to_unicode process p ep)"
    using assms(1,4,5) unfolding dx_transcode_record_data_def
    by (cases "rp_record_info_id p")
      (auto simp: known_source_def intro: theo_price_defined configuration_defined defined_mono [OF trade_defined] defined_mono [OF quote_defined] defined_mono [OF summary_defined]
        defined_mono [OF profile_defined] defined_mono [OF market_maker_defined] defined_mono [OF order_defined] defined_mono [OF time_and_sale_defined]
        defined_mono [OF candle_defined] defined_mono [OF trade_eth_defined] defined_mono [OF spread_order_defined] defined_mono [OF greeks_defined]
        defined_mono [OF underlying_defined] defined_mono [OF series_defined])
  with assms(2,3) show ?thesis unfolding defined_on_def by blast
qed

theorem transcoding_defined_witness:
  "fst (dx_transcode_record_data (\<lambda>_. True) (\<lambda>bs. Some (map ucast bs)) (\<lambda>eid symbol event ep n. (Inr (), n + 1))
     \<lparr>rp_record_id = 0, rp_record_info_id = dx_rid_theo_price, rp_suffix = None, rp_symbol_name = Some [65], rp_symbol_cipher = 0,
       rp_flags = 0, rp_time_int_field = 0\<rparr>
     \<lparr>ep_flags = 0, ep_time_int_field = 0, ep_snapshot_key = 0\<rparr>
     (new_record_ctx, [''time'' \<mapsto> F_long 1600000000], \<lparr>event_counts = (\<lambda>_. 0), listener = (0::nat)\<rparr>)) \<noteq> Inl UB"
proof (rule transcoding_defined)
  show "live_row (rp_record_info_id \<lparr>rp_record_id = 0, rp_record_info_id = dx_rid_theo_price, rp_suffix = None, rp_symbol_name = Some [65], rp_symbol_cipher = 0,
       rp_flags = 0, rp_time_int_field = 0\<rparr>) [''time'' \<mapsto> F_long 1600000000]"
    by (simp add: live_row_def info_tables dx_fields_theo_price_def row_typed_def field_info_def member_value_def zero_typed)
qed (simp_all add: quiet_def convertible_def known_source_def long_member_def member_value_def)

end
