(* ===== verification/Dx_Transcoder_Spec.thy ===== *)
theory Dx_Transcoder_Spec
  imports Dx_Transcoder_Safety
begin

text \<open>
  The events that the transcoders give: the names and the flags that a record packs into numbers, the
  indices of orders, and the events of orders and quotes.
\<close>

section \<open>Names and numbers\<close>

text \<open>The number that the units of a name make, one byte for each.\<close>

definition name_value :: "dxf_char list \<Rightarrow> int" where
  "name_value s = foldl (\<lambda>v c. v * 256 + uint c) 0 s"

definition byte_units :: "dxf_char list \<Rightarrow> bool" where
  "byte_units s \<longleftrightarrow> (\<forall>c \<in> set s. 0 < uint c \<and> uint c < 256)"

lemma name_value_simps [simp]: "name_value [] = 0" "name_value (s @ [c]) = name_value s * 256 + uint c"
  by (simp_all add: name_value_def)

lemma name_value_bounds: "\<forall>c \<in> set s. uint c < 256 \<Longrightarrow> 0 \<le> name_value s \<and> name_value s < 256 ^ length s"
  by (induction s rule: rev_induct) auto

lemma name_value_Cons: "name_value (c # s) = uint c * 256 ^ length s + name_value s"
proof (induction s rule: rev_induct)
  case Nil
  then show ?case using name_value_simps(2) [of "[]" c] by simp
next
  case (snoc x xs)
  then show ?case using name_value_simps(2) [of "c # xs" x] by (simp add: algebra_simps)
qed

lemma name_value_injective:
  assumes "byte_units s" "byte_units t" "name_value s = name_value t"
  shows "s = t"
  using assms
proof (induction s arbitrary: t rule: rev_induct)
  case Nil
  then show ?case
  proof (cases t rule: rev_cases)
    case (snoc ys y)
    with Nil have "0 = name_value ys * 256 + uint y" "0 < uint y" "0 \<le> name_value ys"
      using name_value_bounds [of ys] by (auto simp: byte_units_def)
    then show ?thesis by simp
  qed simp
next
  case (snoc x xs)
  show ?case
  proof (cases t rule: rev_cases)
    case Nil
    with snoc have "0 = name_value xs * 256 + uint x" "0 < uint x" "0 \<le> name_value xs"
      using name_value_bounds [of xs] by (auto simp: byte_units_def)
    then show ?thesis by simp
  next
    case (snoc ys y)
    with snoc.prems have e: "name_value xs * 256 + uint x = name_value ys * 256 + uint y" "uint x < 256" "uint y < 256"
      "byte_units xs" "byte_units ys" by (auto simp: byte_units_def)
    have "(name_value xs * 256 + uint x) mod 256 = uint x" "(name_value ys * 256 + uint y) mod 256 = uint y"
      using e(2,3) by simp_all
    with e(1) have "uint x = uint y" by simp
    moreover from this e(1) have "name_value xs = name_value ys" by simp
    ultimately show ?thesis using snoc.IH [OF e(4,5)] snoc by (simp add: word_uint_eq_iff)
  qed
qed

text \<open>The same number as a word.\<close>

definition pack_units :: "dxf_char list \<Rightarrow> 'w::len word" where
  "pack_units s = foldl (\<lambda>ret c. push_bit 8 ret OR (ucast c AND 0xFF)) 0 s"

lemma shifted_sum:
  "push_bit 8 (word_of_int v) + ucast (c :: dxf_char) = (word_of_int (v * 256 + uint c) :: 'w::len word)"
  "push_bit 32 (word_of_int v) + ucast (i :: int32) = (word_of_int (v * 2 ^ 32 + uint i) :: long64)"
  by (simp_all only: push_bit_eq_mult ucast_eq of_int_add of_int_mult) simp_all

lemma pack_units_value:
  assumes "\<forall>c \<in> set s. uint c < 256" "8 * length s \<le> LENGTH('w)"
  shows "(pack_units s :: 'w::len word) = word_of_int (name_value s)"
  using assms
proof (induction s rule: rev_induct)
  case Nil
  then show ?case by (simp add: pack_units_def)
next
  case (snoc c s)
  then have l: "8 \<le> LENGTH('w)" and IH: "(pack_units s :: 'w word) = word_of_int (name_value s)" by simp_all
  have "take_bit 8 c = c"
    using snoc.prems(1) by (simp add: word_uint_eq_iff unsigned_take_bit_eq take_bit_int_eq_self)
  then have "bit c n \<Longrightarrow> n < 8" for n
    by (metis bit_take_bit_iff)
  then have u: "(ucast c :: 'w word) = take_bit 8 (ucast c)"
    by (intro bit_word_eqI) (auto simp: bit_take_bit_iff bit_ucast_iff)
  have m: "(0xFF :: 'w word) = mask 8"
    by (simp add: mask_eq_exp_minus_1)
  then have b: "(ucast c :: 'w word) AND 0xFF = take_bit 8 (ucast c)"
    by (simp only: m take_bit_eq_mask)
  have "(pack_units (s @ [c]) :: 'w word) = push_bit 8 (pack_units s) OR take_bit 8 (ucast c)"
    by (simp add: pack_units_def flip: b)
  also have "\<dots> = push_bit 8 (pack_units s) + take_bit 8 (ucast c)"
    by (rule disjunctive_add [symmetric]) (auto simp: bit_push_bit_iff bit_take_bit_iff)
  also have "\<dots> = word_of_int (name_value s * 256 + uint c)"
    unfolding u [symmetric] IH by (rule shifted_sum)
  finally show ?case by simp
qed

lemma suffix_value:
  assumes "\<forall>c \<in> set s. uint c < 256" "length s \<le> 4"
  shows "suffix_to_long (Some s) = word_of_int (name_value s)"
  using assms pack_units_value [of s, where 'w = 64]
  by (simp add: suffix_to_long_def MAX_SUFFIX_LEN_FOR_INDEX_def pack_units_def)

lemma order_index_value:
  assumes "\<forall>c \<in> set s. uint c < 256" "length s \<le> 4"
  shows "uint (DX_ORDER_INDEX i (suffix_to_long (Some s))) = name_value s * 2 ^ 32 + uint i"
proof -
  have v: "0 \<le> name_value s" "name_value s < 2 ^ 32"
  proof -
    have "(256::int) ^ length s \<le> 256 ^ 4" using assms(2) by (intro power_increasing) simp_all
    then show "0 \<le> name_value s" "name_value s < 2 ^ 32" using name_value_bounds [OF assms(1)] by auto
  qed
  have i: "uint i < 2 ^ 32" using uint_lt2p [of i] by simp
  have "DX_ORDER_INDEX i (suffix_to_long (Some s)) = push_bit 32 (word_of_int (name_value s)) OR ucast i"
    by (simp add: DX_ORDER_INDEX_def suffix_value [OF assms] int_to_bits_def)
  also have "\<dots> = push_bit 32 (word_of_int (name_value s)) + ucast i"
  proof (rule disjunctive_add [symmetric])
    fix n
    show "\<not> bit (push_bit 32 (word_of_int (name_value s)) :: long64) n \<or> \<not> bit (ucast i :: long64) n"
      using bit_imp_le_length [of i n] by (auto simp: bit_push_bit_iff bit_ucast_iff)
  qed
  also have "\<dots> = word_of_int (name_value s * 2 ^ 32 + uint i)"
    unfolding shifted_sum ..
  finally have "uint (DX_ORDER_INDEX i (suffix_to_long (Some s))) = take_bit 64 (name_value s * 2 ^ 32 + uint i)"
    by (simp only: unsigned_of_int) simp
  also have "\<dots> = name_value s * 2 ^ 32 + uint i"
    using v i by (intro take_bit_int_eq_self) (simp_all add: mult_left_mono)
  finally show ?thesis .
qed

text \<open>
  C33: Two orders have the same index exactly when they have the same source and the same index in it,
  for sources of at most four characters.
\<close>

theorem order_index_unique:
  assumes "byte_units s" "byte_units t" "length s \<le> 4" "length t \<le> 4"
  shows "DX_ORDER_INDEX i (suffix_to_long (Some s)) = DX_ORDER_INDEX j (suffix_to_long (Some t)) \<longleftrightarrow> i = j \<and> s = t"
proof
  assume "DX_ORDER_INDEX i (suffix_to_long (Some s)) = DX_ORDER_INDEX j (suffix_to_long (Some t))"
  then have e: "name_value s * 2 ^ 32 + uint i = name_value t * 2 ^ 32 + uint j"
    using order_index_value [of s i] order_index_value [of t j] assms by (simp add: byte_units_def)
  have b: "uint i < 2 ^ 32" "uint j < 2 ^ 32" "0 \<le> uint i" "0 \<le> uint j"
    using uint_lt2p [of i] uint_lt2p [of j] by simp_all
  have "(name_value s * 2 ^ 32 + uint i) mod 2 ^ 32 = uint i" "(name_value t * 2 ^ 32 + uint j) mod 2 ^ 32 = uint j"
    using b by simp_all
  with e have "uint i = uint j" by metis
  moreover from this e have "name_value s = name_value t" by simp
  ultimately show "i = j \<and> s = t" using name_value_injective assms(1,2) by (simp add: word_uint_eq_iff)
qed simp


text \<open>The loop of \<open>dx_decode_from_integer\<close> gives the units that are not zero.\<close>

lemma shift_top:
  assumes "uint (code :: long64) = uint c * 256 ^ 7 + v" "0 \<le> v" "v < 256 ^ 7" "uint (c :: dxf_char) < 128"
  shows "(ucast (signed_drop_bit 56 code) :: dxf_char) = c" "uint (push_bit 8 code) = v * 256"
proof -
  have s: "sint code = uint code"
  proof -
    have b: "uint code < 2 ^ 63" using assms by simp
    show ?thesis unfolding sint_uint by (rule signed_take_bit_int_eq_self) (use b in \<open>simp_all add: order_trans [OF _ uint_ge_0]\<close>)
  qed
  have "sint (signed_drop_bit 56 code) = uint code div 2 ^ 56"
    by (simp add: sint_signed_drop_bit_eq drop_bit_eq_div s)
  also have "\<dots> = uint c" using assms by simp
  finally have t: "sint (signed_drop_bit 56 code) = uint c" .
  have "uint (ucast (signed_drop_bit 56 code) :: dxf_char) = take_bit 16 (sint (signed_drop_bit 56 code))"
    by (simp add: unsigned_ucast_eq take_bit_word_eq_self) (simp add: sint_uint take_bit_signed_take_bit)
  then show "(ucast (signed_drop_bit 56 code) :: dxf_char) = c"
    using assms(4) unfolding t by (simp add: word_uint_eq_iff take_bit_int_eq_self)
  have "uint (push_bit 8 code) = take_bit 64 (push_bit 8 (uint code))"
    by (simp add: uint_word_ariths push_bit_eq_mult take_bit_eq_mod)
  also have "push_bit 8 (uint code) = uint c * 2 ^ 64 + v * 256" using assms(1) by (simp add: push_bit_eq_mult)
  also have "take_bit 64 (uint c * 2 ^ 64 + v * 256) = v * 256" using assms(2,3) by (simp add: take_bit_eq_mod)
  finally show "uint (push_bit 8 code) = v * 256" .
qed

lemma zero_name: "name_value bs = 0 \<Longrightarrow> \<forall>x \<in> set bs. x = 0"
proof (induction bs rule: rev_induct)
  case (snoc x xs)
  have "0 \<le> name_value xs" by (induction xs rule: rev_induct) simp_all
  with snoc.prems have "name_value xs = 0" "uint x = 0" by (simp_all add: add_nonneg_eq_0_iff)
  with snoc.IH show ?case by (auto simp: uint_0_iff)
qed simp

lemma decode_units_name:
  assumes "\<forall>c \<in> set bs. uint c < 128" "length bs \<le> 8" "uint (code :: long64) = name_value bs * 256 ^ (8 - length bs)"
  shows "decode_units (length bs) code = filter (\<lambda>c. c \<noteq> 0) bs"
  using assms
proof (induction bs arbitrary: code)
  case Nil
  then show ?case by simp
next
  case (Cons c bs)
  let ?v = "name_value bs * 256 ^ (7 - length bs)"
  have b: "0 \<le> name_value bs" "name_value bs < 256 ^ length bs"
  proof -
    have "\<forall>x \<in> set bs. uint x < 256" using Cons.prems(1) by fastforce
    then show "0 \<le> name_value bs" "name_value bs < 256 ^ length bs" by (simp_all add: name_value_bounds)
  qed
  have p: "(256::int) ^ length bs * 256 ^ (7 - length bs) = 256 ^ 7"
    using Cons.prems(2) by (simp flip: power_add)
  have v: "0 \<le> ?v" "?v < 256 ^ 7"
    using b mult_strict_right_mono [OF b(2), of "256 ^ (7 - length bs)"] p by auto
  have c: "uint code = uint c * 256 ^ 7 + ?v"
    using Cons.prems(3) p by (simp add: name_value_Cons algebra_simps)
  note t = shift_top [OF c v]
  have IH: "decode_units (length bs) (push_bit 8 code) = filter (\<lambda>c. c \<noteq> 0) bs"
  proof (rule Cons.IH)
    have "8 - length bs = Suc (7 - length bs)" using Cons.prems(2) by simp
    then show "uint (push_bit 8 code) = name_value bs * 256 ^ (8 - length bs)" using t(2) Cons.prems(1) by simp
  qed (use Cons.prems in simp_all)
  show ?case
  proof (cases "code = 0")
    case True
    then have "uint c * 256 ^ 7 + ?v = 0" using c by simp
    moreover have "0 \<le> uint c * 256 ^ 7" by simp
    ultimately have z: "uint c * 256 ^ 7 = 0" "?v = 0" using v(1) by linarith+
    from z(2) have "name_value bs = 0" unfolding mult_eq_0_iff by simp
    then have "\<forall>x \<in> set bs. x = 0" by (rule zero_name)
    with z(1) True show ?thesis by (simp add: uint_0_iff)
  next
    case False
    then show ?thesis using t(1) IH Cons.prems(1) by simp
  qed
qed

lemma name_of_zeros: "name_value (replicate n 0 @ s) = name_value s"
  by (simp add: name_value_def foldl_append) (induction n; simp)

text \<open>Names of at most four characters, as the server sends them in an integer.\<close>

lemma market_maker_roundtrip:
  assumes "\<forall>c \<in> set name. 0 < uint c \<and> uint c < 128" "length name \<le> 4"
  shows "dx_decode_from_integer (\<lambda>_. True) (scast (pack_units name :: int32)) = Some name"
proof -
  have v: "0 \<le> name_value name \<and> name_value name < 2 ^ 31"
  proof (cases name)
    case (Cons c s)
    have "\<forall>x \<in> set s. uint x < 256" using assms(1) Cons by fastforce
    then have s: "0 \<le> name_value s" "name_value s < 256 ^ length s" by (simp_all add: name_value_bounds)
    define P where "P = (256::int) ^ length s"
    have "P \<le> 256 ^ 3" unfolding P_def using assms(2) Cons by (intro power_increasing) simp_all
    moreover have "uint c * P \<le> 127 * P" unfolding P_def using assms(1) Cons by (intro mult_right_mono) auto
    moreover have "name_value name = uint c * P + name_value s" by (simp add: Cons name_value_Cons P_def)
    moreover have "0 \<le> uint c * P" by (simp add: P_def)
    moreover have "name_value s < P" using s by (simp add: P_def)
    moreover have "(2::int) ^ 31 = 2147483648" "(256::int) ^ 3 = 16777216" by simp_all
    ultimately show ?thesis using s(1) by linarith
  qed (simp add: name_value_def)
  have "(pack_units name :: int32) = word_of_int (name_value name)"
    using assms by (intro pack_units_value) auto
  then have "sint (pack_units name :: int32) = name_value name"
    using v by (simp add: sint_uint unsigned_of_int take_bit_int_eq_self signed_take_bit_int_eq_self)
  then have "(scast (pack_units name :: int32) :: long64) = word_of_int (name_value name)"
    by (simp only: scast_eq)
  then have u: "uint (scast (pack_units name :: int32) :: long64) = name_value name"
    using v by (simp add: unsigned_of_int take_bit_int_eq_self)
  have "decode_units (length (replicate (8 - length name) 0 @ name)) (scast (pack_units name :: int32)) = filter (\<lambda>c. c \<noteq> 0) (replicate (8 - length name) 0 @ name)"
    using assms u by (intro decode_units_name) (auto simp: name_of_zeros)
  moreover have "filter (\<lambda>c. c \<noteq> 0) name = name" using assms(1) by (auto simp: filter_id_conv)
  ultimately show ?thesis using assms(2) by (simp add: dx_decode_from_integer_def dx_create_string_src_def)
qed

section \<open>Flags of orders\<close>

definition order_flags :: "int32 \<Rightarrow> int32 \<Rightarrow> int32 \<Rightarrow> int32 \<Rightarrow> int32" where
  "order_flags action exchange side scope = push_bit 11 action OR push_bit 4 exchange OR push_bit 2 side OR scope"

lemma order_flags_roundtrip:
  assumes "take_bit 4 action = action" "take_bit 7 exchange = exchange" "take_bit 2 side = side" "take_bit 2 scope = scope"
  shows "DX_ORDER_GET_ACTION (order_flags action exchange side scope) = action"
    "DX_ORDER_GET_EXCHANGE (order_flags action exchange side scope) = ucast exchange"
    "DX_ORDER_GET_SIDE (order_flags action exchange side scope) = side"
    "DX_ORDER_GET_SCOPE (order_flags action exchange side scope) = scope"
proof -
  have b: "bit action n \<Longrightarrow> n < 4" "bit exchange n \<Longrightarrow> n < 7" "bit side n \<Longrightarrow> n < 2" "bit scope n \<Longrightarrow> n < 2" for n
    using assms by (metis bit_take_bit_iff)+
  have g: "flag_bits k (mask m) f = take_bit m (drop_bit k f)" if "k + m < 32" for k m and f :: int32
    using that unfolding flag_bits_def take_bit_eq_mask [symmetric]
    by (intro bit_word_eqI) (auto simp: bit_take_bit_iff bit_signed_drop_bit_iff bit_drop_bit_eq)
  have m: "(0x0f :: int32) = mask 4" "(0x7f :: int32) = mask 7" "(0x03 :: int32) = mask 2"
    by (simp_all add: mask_eq_exp_minus_1)
  have "flag_bits 11 (mask 4) (order_flags action exchange side scope) = action"
    "flag_bits 4 (mask 7) (order_flags action exchange side scope) = exchange"
    "flag_bits 2 (mask 2) (order_flags action exchange side scope) = side"
    "flag_bits 0 (mask 2) (order_flags action exchange side scope) = scope"
    unfolding order_flags_def
    by (subst g, simp, rule bit_word_eqI,
        force simp: bit_take_bit_iff bit_drop_bit_eq bit_or_iff bit_push_bit_iff dest: b)+
  then show "DX_ORDER_GET_ACTION (order_flags action exchange side scope) = action"
    "DX_ORDER_GET_EXCHANGE (order_flags action exchange side scope) = ucast exchange"
    "DX_ORDER_GET_SIDE (order_flags action exchange side scope) = side"
    "DX_ORDER_GET_SCOPE (order_flags action exchange side scope) = scope"
    unfolding DX_ORDER_GET_ACTION_def DX_ORDER_GET_EXCHANGE_def DX_ORDER_GET_SIDE_def DX_ORDER_GET_SCOPE_def m by simp_all
qed

section \<open>Events\<close>

text \<open>A processor that keeps the events in their order.\<close>

type_synonym event_log = "(dx_event_id \<times> dxf_char list option \<times> event \<times> dxf_event_params) list"

definition log_event :: "event_log event_processor" where
  "log_event eid symbol event event_params trace = (Inr (), trace @ [(eid, symbol, event, event_params)])"

lemma event_block:
  "eid \<notin> {dx_eid_count, dx_eid_invalid} \<Longrightarrow> dx_get_event_data_buffer (\<lambda>_. True) eid 1 (ds, r, ctx) =
     (Inr Map.empty, ds, r, ctx\<lparr>event_counts := (event_counts ctx)(eid := max 1 (event_counts ctx eid))\<rparr>)"
  by (auto simp: dx_get_event_data_buffer_def dx_initialize_event_data_buffer_def)

lemma fill_apply: "fill as event (ds, r, ctx) = (assign_all as r event, ds, r, ctx)"
  by (simp add: fill_def)

lemma deliver_log: "deliver log_event eid p ep event (ds, r, ctx) =
    (Inr (), ds, r, ctx\<lparr>listener := listener ctx @ [(eid, rp_symbol_name p, event, ep)]\<rparr>)"
  by (simp add: deliver_def log_event_def)

lemma decode_member_apply:
  "int_member source r = Inr code \<Longrightarrow> decode_member (\<lambda>_. True) m source event (ds, r, ctx) =
     (Inr (event(m \<mapsto> F_string (dx_decode_from_integer (\<lambda>_. True) (scast code)))), ds, r, ctx)"
  by (simp add: decode_member_def checked_apply read_member_def dx_store_string_buffer_def return_def Let_def dx_decode_from_integer_def
      dx_create_string_src_def)

text \<open>The row of an order as the fields of the record, and the event that it stands for.\<close>

text \<open>
  C7: An order record gives one order event, with the source of the record, an index that is made of the
  source and the index of the record, the time in milliseconds, the action, the exchange, the side and the
  scope that its flags stand for, the market maker that its number stands for, and the prices, sizes and
  ids of the record.
\<close>

theorem order_transcoded:
  assumes row: "live_row dx_rid_order r" "int_member ''index'' r = Inr i" "int_member ''time'' r = Inr t" "int_member ''sequence'' r = Inr q"
      "int_member ''flags'' r = Inr (order_flags action exchange side scope)" "int_member ''mmid'' r = Inr (pack_units name)"
    and p: "rp_record_info_id p = dx_rid_order" "rp_suffix p = Some src" "length src \<le> 4" "\<not> IS_FLAG_SET (ep_flags ep) dxf_ef_remove_event"
    and bits: "take_bit 4 action = action" "take_bit 7 exchange = exchange" "take_bit 2 side = side" "take_bit 2 scope = scope"
    and name: "\<forall>c \<in> set name. 0 < uint c \<and> uint c < 128" "length name \<le> 4"
  shows "\<exists>event ctx'. dx_transcode_record_data (\<lambda>_. True) to_unicode log_event p ep (ds, r, ctx) = (Inr (), ds, r, ctx')
      \<and> listener ctx' = listener ctx @ [(dx_eid_order, rp_symbol_name p, event, ep)]
      \<and> event ''source'' = Some (F_string (Some src)) \<and> event ''event_flags'' = Some (F_int (ep_flags ep))
      \<and> event ''index'' = Some (F_long (DX_ORDER_INDEX i (suffix_to_long (Some src))))
      \<and> event ''time'' = Some (F_long (DX_TIME_SEQ_TO_MS t q)) \<and> event ''sequence'' = Some (F_int (DX_SEQUENCE q))
      \<and> event ''action'' = Some (F_int action) \<and> event ''exchange_code'' = Some (F_char (ucast exchange))
      \<and> event ''side'' = Some (F_int side) \<and> event ''scope'' = Some (F_int scope)
      \<and> event ''market_maker'' = Some (F_string (Some name))
      \<and> (\<forall>m \<in> {''price'', ''size'', ''executed_size'', ''count'', ''trade_price'', ''trade_size''}. event m = Some (member_value T_double m r))
      \<and> (\<forall>m \<in> {''action_time'', ''order_id'', ''aux_order_id'', ''trade_id''}. event m = Some (member_value T_long m r))"
proof -
  have d: "member_value T_double m r = F_double d" if "double_member m r = Inr d" for m d
    using that by (simp add: double_member_def split: field_value.splits)
  have l: "member_value T_long m r = F_long x" if "long_member m r = Inr x" for m x
    using that by (simp add: long_member_def split: field_value.splits)
  have *: "\<exists>n. int_member ''time_nanos'' r = Inr n" "\<exists>x. long_member ''action_time'' r = Inr x" "\<exists>x. long_member ''order_id'' r = Inr x"
    "\<exists>x. long_member ''aux_order_id'' r = Inr x" "\<exists>x. double_member ''price'' r = Inr x" "\<exists>x. double_member ''size'' r = Inr x"
    "\<exists>x. double_member ''executed_size'' r = Inr x" "\<exists>x. double_member ''count'' r = Inr x" "\<exists>x. long_member ''trade_id'' r = Inr x"
    "\<exists>x. double_member ''trade_price'' r = Inr x" "\<exists>x. double_member ''trade_size'' r = Inr x"
    using live_defined [OF row(1)] by (simp_all add: live_table dx_fields_order_def)
  show ?thesis
    using * row(2-) p(2-)
    apply (elim exE)
    apply (simp add: dx_transcode_record_data_def p(1) dx_order_t_transcoder_def checked_apply event_block fill_apply deliver_log
        assignment_defs order_source_def DXF_SUFFIX_UNITS_def decode_member_apply order_flags_roundtrip [OF bits] market_maker_roundtrip [OF name] d l)
    done
qed


lemma fill_quote_side:
  assumes "live_row dx_rid_quote r" "members \<in> {(''bid_time'', ''ask_time'', ''bid_price'', ''bid_size'', ''bid_exchange_code''),
      (''ask_time'', ''bid_time'', ''ask_price'', ''ask_size'', ''ask_exchange_code'')}"
  shows "\<exists>event ctx'. quote_side (\<lambda>_. True) log_event index_value members side p ep (ds, r, ctx) = (Inr (), ds, r, ctx')
      \<and> listener ctx' = listener ctx @ [(dx_eid_order, rp_symbol_name p, event, ep)]
      \<and> event ''index'' = Some (F_long index_value) \<and> event ''side'' = Some (F_int side)
      \<and> event ''price'' = Some (member_value T_double (fst (snd (snd members))) r)
      \<and> event ''size'' = Some (member_value T_double (fst (snd (snd (snd members)))) r)"
proof -
  have d: "member_value T_double m r = F_double d" if "double_member m r = Inr d" for m d
    using that by (simp add: double_member_def split: field_value.splits)
  obtain own other price amount exchange where m: "members = (own, other, price, amount, exchange)"
    by (metis prod.exhaust)
  have *: "\<exists>n. int_member ''time_nanos'' r = Inr n" "\<exists>x. int_member ''sequence'' r = Inr x" "\<exists>x. int_member own r = Inr x"
    "\<exists>x. int_member other r = Inr x" "\<exists>x. double_member price r = Inr x" "\<exists>x. double_member amount r = Inr x"
    "\<exists>x. char_member exchange r = Inr x"
    using live_defined [OF assms(1)] assms(2) by (auto simp: live_table dx_fields_quote_def m)
  then show ?thesis
    unfolding m quote_side_def prod.case Let_def
    by (elim exE) (simp add: checked_apply event_block fill_apply deliver_log assignment_defs d)
qed

lemma clear_bit:
  fixes f g :: int32
  assumes "g = 2 ^ k"
  shows "(if f AND g = g then f XOR g else f) = f AND NOT g"
proof -
  have g: "bit g n \<longleftrightarrow> n = k \<and> n < 32" for n unfolding assms by (auto simp: bit_exp_iff)
  show ?thesis
  proof (cases "f AND g = g")
    case True
    then have "bit g n \<Longrightarrow> bit f n" for n by (metis bit_and_iff)
    with True show ?thesis by (intro bit_word_eqI) (auto simp: bit_xor_iff bit_and_iff bit_not_iff)
  next
    case False
    have "\<not> (bit f k \<and> k < 32)"
    proof
      assume "bit f k \<and> k < 32"
      then have "f AND g = g" by (intro bit_word_eqI) (auto simp: bit_and_iff g)
      with False show False by simp
    qed
    then show ?thesis using False by (intro bit_word_eqI) (auto simp: bit_and_iff bit_not_iff g)
  qed
qed

lemma snapshot_flags_split:
  "ep_flags (without_end ep) = ep_flags ep AND NOT dxf_ef_snapshot_end"
  "ep_flags (without_begin ep) = ep_flags ep AND NOT dxf_ef_snapshot_begin"
  using clear_bit [of dxf_ef_snapshot_end 3 "ep_flags ep"] clear_bit [of dxf_ef_snapshot_begin 2 "ep_flags ep"]
  by (simp_all add: without_end_def without_begin_def dxf_ef_snapshot_end_def dxf_ef_snapshot_begin_def split: if_splits)

lemma side_indices_differ: "DX_ORDER_FROM_QUOTE_BID_INDEX e \<noteq> DX_ORDER_FROM_QUOTE_ASK_INDEX e"
proof -
  have c: "\<not> bit (char_to_bits e) 16" by (simp add: char_to_bits_def bit_simps)
  have "bit (DX_ORDER_FROM_QUOTE_BID_INDEX e) 48"
    by (simp add: DX_ORDER_FROM_QUOTE_BID_INDEX_def bit_or_iff bit_push_bit_iff)
  moreover have "\<not> bit (DX_ORDER_FROM_QUOTE_ASK_INDEX e) 48"
    using c by (simp add: DX_ORDER_FROM_QUOTE_ASK_INDEX_def bit_or_iff bit_push_bit_iff)
  ultimately show ?thesis by metis
qed

text \<open>
  C8: A quote record gives three events in this order: an order for the bid, an order for the ask, and the
  quote.  In a snapshot the first order does not end it and the second does not begin it.
\<close>

theorem quote_transcoded:
  assumes "live_row dx_rid_quote r" "rp_record_info_id p = dx_rid_quote"
  shows "\<exists>bid ask quote bid_ep ask_ep ds' ctx'. dx_transcode_record_data (\<lambda>_. True) to_unicode log_event p ep (ds, r, ctx) = (Inr (), ds', r, ctx')
      \<and> listener ctx' = listener ctx @ [(dx_eid_order, rp_symbol_name p, bid, bid_ep), (dx_eid_order, rp_symbol_name p, ask, ask_ep),
          (dx_eid_quote, rp_symbol_name p, quote, ep)]
      \<and> ep_flags bid_ep = ep_flags ep AND NOT dxf_ef_snapshot_end \<and> ep_flags ask_ep = ep_flags ep AND NOT dxf_ef_snapshot_begin
      \<and> bid ''side'' = Some (F_int 1) \<and> ask ''side'' = Some (F_int 2)
      \<and> bid ''price'' = Some (member_value T_double ''bid_price'' r) \<and> ask ''price'' = Some (member_value T_double ''ask_price'' r)
      \<and> bid ''size'' = Some (member_value T_double ''bid_size'' r) \<and> ask ''size'' = Some (member_value T_double ''ask_size'' r)
      \<and> quote ''bid_price'' = bid ''price'' \<and> quote ''ask_price'' = ask ''price'' \<and> bid ''index'' \<noteq> ask ''index''"
proof -
  have d: "member_value T_double m r = F_double d" if "double_member m r = Inr d" for m d
    using that by (simp add: double_member_def split: field_value.splits)
  let ?e = "DX_EXCHANGE_FROM_RECORD p"
  obtain bid ctx1 where b: "dx_transcode_quote_to_order_bid (\<lambda>_. True) log_event p (without_end ep) (ds, r, ctx) = (Inr (), ds, r, ctx1)"
      "listener ctx1 = listener ctx @ [(dx_eid_order, rp_symbol_name p, bid, without_end ep)]"
      "bid ''index'' = Some (F_long (DX_ORDER_FROM_QUOTE_BID_INDEX ?e))" "bid ''side'' = Some (F_int 1)"
      "bid ''price'' = Some (member_value T_double ''bid_price'' r)" "bid ''size'' = Some (member_value T_double ''bid_size'' r)"
    unfolding dx_transcode_quote_to_order_bid_def using fill_quote_side [OF assms(1), of "(''bid_time'', ''ask_time'', ''bid_price'', ''bid_size'', ''bid_exchange_code'')"]
    by (auto simp del: split_paired_Ex) blast
  obtain ask ctx2 where a: "dx_transcode_quote_to_order_ask (\<lambda>_. True) log_event p (without_begin ep) (ds, r, ctx1) = (Inr (), ds, r, ctx2)"
      "listener ctx2 = listener ctx1 @ [(dx_eid_order, rp_symbol_name p, ask, without_begin ep)]"
      "ask ''index'' = Some (F_long (DX_ORDER_FROM_QUOTE_ASK_INDEX ?e))" "ask ''side'' = Some (F_int 2)"
      "ask ''price'' = Some (member_value T_double ''ask_price'' r)" "ask ''size'' = Some (member_value T_double ''ask_size'' r)"
    unfolding dx_transcode_quote_to_order_ask_def using fill_quote_side [OF assms(1), of "(''ask_time'', ''bid_time'', ''ask_price'', ''ask_size'', ''ask_exchange_code'')"]
    by (auto simp del: split_paired_Ex) blast
  have *: "\<exists>n. int_member ''time_nanos'' r = Inr n" "\<exists>x. int_member ''sequence'' r = Inr x" "\<exists>x. int_member ''bid_time'' r = Inr x"
    "\<exists>x. int_member ''ask_time'' r = Inr x" "\<exists>x. double_member ''bid_price'' r = Inr x" "\<exists>x. double_member ''bid_size'' r = Inr x"
    "\<exists>x. double_member ''ask_price'' r = Inr x" "\<exists>x. double_member ''ask_size'' r = Inr x"
    "\<exists>x. char_member ''bid_exchange_code'' r = Inr x" "\<exists>x. char_member ''ask_exchange_code'' r = Inr x"
    using live_defined [OF assms(1)] by (simp_all add: live_table dx_fields_quote_def)
  have "\<exists>quote ds' ctx3. dx_transcode_quote (\<lambda>_. True) log_event p ep (ds, r, ctx2) = (Inr (), ds', r, ctx3)
      \<and> listener ctx3 = listener ctx2 @ [(dx_eid_quote, rp_symbol_name p, quote, ep)]
      \<and> quote ''bid_price'' = Some (member_value T_double ''bid_price'' r) \<and> quote ''ask_price'' = Some (member_value T_double ''ask_price'' r)"
    using * unfolding dx_transcode_quote_def Let_def
    by (elim exE) (simp add: checked_apply event_block fill_apply deliver_log assignment_defs d set_exchange_code_def return_def)
  then obtain quote ds' ctx3 where q: "dx_transcode_quote (\<lambda>_. True) log_event p ep (ds, r, ctx2) = (Inr (), ds', r, ctx3)"
      "listener ctx3 = listener ctx2 @ [(dx_eid_quote, rp_symbol_name p, quote, ep)]"
      "quote ''bid_price'' = Some (member_value T_double ''bid_price'' r)" "quote ''ask_price'' = Some (member_value T_double ''ask_price'' r)"
    by blast
  note n = side_indices_differ [of ?e] and f = snapshot_flags_split [of ep]
  have "dx_transcode_record_data (\<lambda>_. True) to_unicode log_event p ep (ds, r, ctx) = (Inr (), ds', r, ctx3)"
    by (simp add: dx_transcode_record_data_def assms(2) dx_quote_t_transcoder_def checked_apply a(1) b(1) q(1))
  with a b q n f show ?thesis by force
qed

section \<open>Undefined and repeated conversions\<close>

text \<open>
  An order whose record has no source is undefined: the length of the null string is taken.
\<close>

theorem plain_order_undefined:
  assumes "rp_record_info_id p \<in> {dx_rid_order, dx_rid_spread_order}" "rp_suffix p = None"
  shows "fst (dx_transcode_record_data (\<lambda>_. True) to_unicode process p ep (ds, r, ctx)) = Inl UB"
  using assms by (auto simp: dx_transcode_record_data_def dx_order_t_transcoder_def dx_spread_order_t_transcoder_def checked_apply event_block
      fill_apply order_head_def order_source_def)

text \<open>
  The strings of a profile are freed after the event; the next event that does not set them, as a
  removal, makes the transcoder copy freed memory.
\<close>

theorem freed_profile_undefined:
  assumes "rp_record_info_id p = dx_rid_profile" "live_row dx_rid_profile r"
  shows "fst (dx_transcode_record_data (\<lambda>_. True) to_unicode process p ep (ds, r(''description'' \<mapsto> F_dangling), ctx)) = Inl UB"
proof -
  let ?r = "r(''description'' \<mapsto> F_dangling)"
  have i: "int_member m ?r = int_member m r" "double_member m ?r = double_member m r" if "m \<noteq> ''description''" for m
    using that by (simp_all add: int_member_def double_member_def member_value_def)
  show ?thesis
    using live_defined [OF assms(2)] assms(1)
    by (auto simp: dx_transcode_record_data_def dx_profile_t_transcoder_def checked_apply event_block fill_apply assignment_defs live_table
        dx_fields_profile_def i copy_string_def read_member_def string_member_def member_value_def)
qed

text \<open>
  C39: The time of a theoretical price is converted to milliseconds in the row itself, so that a following
  event that does not set the time, as a removal, has it multiplied once more.
\<close>

theorem theo_time_scaled_twice:
  assumes "rp_record_info_id p = dx_rid_theo_price" "r ''time'' = Some (F_long t)" "\<bar>sint t\<bar> < 2 ^ 31"
  shows "\<exists>r1 r2 ctx1 ctx2. dx_transcode_record_data (\<lambda>_. True) to_unicode log_event p ep (ds, r, ctx) = (Inr (), ds, r1, ctx1)
      \<and> r1 ''time'' = Some (F_long (t * 1000))
      \<and> dx_transcode_record_data (\<lambda>_. True) to_unicode log_event p ep (ds, r1, ctx1) = (Inr (), ds, r2, ctx2)
      \<and> r2 ''time'' = Some (F_long (t * 1000000))"
proof -
  have step: "dx_transcode_record_data (\<lambda>_. True) to_unicode log_event p ep (ds, r, ctx)
      = (Inr (), ds, r(''time'' \<mapsto> F_long (u * 1000)), ctx\<lparr>listener := listener ctx @ [(dx_eid_theo_price, rp_symbol_name p, r(''time'' \<mapsto> F_long (u * 1000)), ep)]\<rparr>)"
    if "r ''time'' = Some (F_long u)" "\<bar>sint u\<bar> < 2 ^ 43" for r u and ctx :: "event_log transcoder_ctx"
  proof -
    have "(word_of_int (sint u * 1000) :: long64) = u * 1000" by simp
    moreover have "- (2 ^ 63) \<le> sint u * 1000" "sint u * 1000 < 2 ^ 63" using that(2) by (auto simp: abs_if split: if_splits)
    ultimately show ?thesis using that(1)
      by (simp add: dx_transcode_record_data_def assms(1) dx_theo_price_t_transcoder_def checked_apply read_member_def long_member_def
          member_value_def deliver_log Let_def)
  qed
  have "sint (t * 1000) = signed_take_bit 63 (sint t * 1000)"
    by (simp add: sint_word_ariths)
  also have "\<dots> = sint t * 1000"
    using assms(3) by (intro signed_take_bit_int_eq_self) (auto simp: abs_if split: if_splits)
  finally have "sint (t * 1000) = sint t * 1000" .
  then have "\<bar>sint (t * 1000)\<bar> < 2 ^ 43" using assms(3) by simp
  with assms(2,3) show ?thesis
    by (auto simp: step [of r t] step [of "r(''time'' \<mapsto> F_long (t * 1000))" "t * 1000"] mult.assoc)
qed

text \<open>A name whose number is negative is decoded with units that it does not have.\<close>

lemma negative_name: "dx_decode_from_integer (\<lambda>_. True) (scast (0x80414243 :: int32)) = Some [0xFFFF, 0xFFFF, 0xFFFF, 0xFFFF, 0xFF80, 0x41, 0x42, 0x43]"
  by code_simp

section \<open>Examples\<close>

definition sample_order :: row where
  "sample_order = [''index'' \<mapsto> F_int 7, ''time'' \<mapsto> F_int 100, ''flags'' \<mapsto> F_int (order_flags 1 65 1 3),
     ''mmid'' \<mapsto> F_int (pack_units [78, 83]), ''price'' \<mapsto> F_double (D_Num 12)]"

definition sample_params :: "dx_record_info_id \<Rightarrow> dxf_char list option \<Rightarrow> dx_record_params" where
  "sample_params kind suffix = \<lparr>rp_record_id = 0, rp_record_info_id = kind, rp_suffix = suffix, rp_symbol_name = Some [65],
     rp_symbol_cipher = 0, rp_flags = 0, rp_time_int_field = 0\<rparr>"

definition sample_event_params :: "int32 \<Rightarrow> dxf_event_params" where
  "sample_event_params flags = \<lparr>ep_flags = flags, ep_time_int_field = 0, ep_snapshot_key = 0\<rparr>"

lemma sample_live: "live_row dx_rid_order sample_order"
  by (simp add: live_row_def sample_order_def info_tables dx_fields_order_def field_info_def row_typed_def member_value_def zero_value_def)

theorem order_index_unique_witness:
  "(DX_ORDER_INDEX 5 (suffix_to_long (Some [78, 84, 86])) = DX_ORDER_INDEX 5 (suffix_to_long (Some [110, 116, 118]))) = (5 = (5::int32) \<and> [78, 84, 86] = [110, 116, 118 :: dxf_char])"
  by (rule order_index_unique) (simp_all add: byte_units_def)

theorem order_transcoded_witness:
  "\<exists>event ctx'. dx_transcode_record_data (\<lambda>_. True) (\<lambda>_. None) log_event (sample_params dx_rid_order (Some [78, 84, 86])) (sample_event_params 0)
       (new_record_ctx, sample_order, \<lparr>event_counts = (\<lambda>_. 0), listener = []\<rparr>) = (Inr (), new_record_ctx, sample_order, ctx')
     \<and> listener ctx' = [(dx_eid_order, Some [65], event, sample_event_params 0)]
     \<and> event ''side'' = Some (F_int 1) \<and> event ''price'' = Some (F_double (D_Num 12)) \<and> event ''market_maker'' = Some (F_string (Some [78, 83]))"
proof -
  have m: "int_member ''index'' sample_order = Inr 7" "int_member ''time'' sample_order = Inr 100" "int_member ''sequence'' sample_order = Inr 0"
    "int_member ''flags'' sample_order = Inr (order_flags 1 65 1 3)" "int_member ''mmid'' sample_order = Inr (pack_units [78, 83])"
    by (simp_all add: sample_order_def int_member_def member_value_def zero_value_def)
  have b: "take_bit 4 1 = (1::int32)" "take_bit 7 65 = (65::int32)" "take_bit 2 1 = (1::int32)" "take_bit 2 3 = (3::int32)"
    by (simp_all add: take_bit_word_eq_self word_uint_eq_iff unsigned_take_bit_eq)
  have p: "rp_record_info_id (sample_params dx_rid_order (Some [78, 84, 86])) = dx_rid_order"
    "rp_suffix (sample_params dx_rid_order (Some [78, 84, 86])) = Some [78, 84, 86]" "\<not> IS_FLAG_SET (ep_flags (sample_event_params 0)) dxf_ef_remove_event"
    by (simp_all add: sample_params_def sample_event_params_def IS_FLAG_SET_def)
  show ?thesis
    using order_transcoded [OF sample_live m p(1,2) _ p(3) b, of "\<lambda>_. None" new_record_ctx "\<lparr>event_counts = (\<lambda>_. 0), listener = []\<rparr>"]
    by (auto simp: sample_order_def member_value_def sample_params_def)
qed

theorem quote_transcoded_witness:
  "\<exists>bid ask quote bid_ep ask_ep ds' ctx'. dx_transcode_record_data (\<lambda>_. True) (\<lambda>_. None) log_event (sample_params dx_rid_quote None)
       (sample_event_params (dxf_ef_snapshot_begin OR dxf_ef_snapshot_end)) (new_record_ctx, [''bid_price'' \<mapsto> F_double (D_Num 3)], \<lparr>event_counts = (\<lambda>_. 0), listener = []\<rparr>)
       = (Inr (), ds', [''bid_price'' \<mapsto> F_double (D_Num 3)], ctx')
     \<and> listener ctx' = [(dx_eid_order, Some [65], bid, bid_ep), (dx_eid_order, Some [65], ask, ask_ep),
         (dx_eid_quote, Some [65], quote, sample_event_params (dxf_ef_snapshot_begin OR dxf_ef_snapshot_end))]
     \<and> bid ''price'' = Some (F_double (D_Num 3)) \<and> ep_flags bid_ep = dxf_ef_snapshot_begin \<and> ep_flags ask_ep = dxf_ef_snapshot_end"
proof -
  have l: "live_row dx_rid_quote [''bid_price'' \<mapsto> F_double (D_Num 3)]"
    by (simp add: live_row_def info_tables dx_fields_quote_def field_info_def row_typed_def member_value_def zero_value_def)
  show ?thesis
    using quote_transcoded [OF l, of "sample_params dx_rid_quote None" "\<lambda>_. None" "sample_event_params (dxf_ef_snapshot_begin OR dxf_ef_snapshot_end)"
        new_record_ctx "\<lparr>event_counts = (\<lambda>_. 0), listener = []\<rparr>"]
    by (force simp: sample_params_def sample_event_params_def member_value_def dxf_ef_snapshot_begin_def dxf_ef_snapshot_end_def)
qed

theorem plain_order_undefined_witness:
  "fst (dx_transcode_record_data (\<lambda>_. True) (\<lambda>_. None) log_event (sample_params dx_rid_order None) (sample_event_params 0)
     (new_record_ctx, sample_order, \<lparr>event_counts = (\<lambda>_. 0), listener = []\<rparr>)) = Inl UB"
  by (rule plain_order_undefined) (simp_all add: sample_params_def)

theorem freed_profile_undefined_witness:
  "fst (dx_transcode_record_data (\<lambda>_. True) (\<lambda>_. None) log_event (sample_params dx_rid_profile None) (sample_event_params dxf_ef_remove_event)
     (new_record_ctx, Map.empty(''description'' \<mapsto> F_dangling), \<lparr>event_counts = (\<lambda>_. 0), listener = []\<rparr>)) = Inl UB"
  by (rule freed_profile_undefined) (simp_all add: sample_params_def live_empty)

theorem theo_time_scaled_twice_witness:
  "\<exists>r1 r2 ctx1 ctx2. dx_transcode_record_data (\<lambda>_. True) (\<lambda>_. None) log_event (sample_params dx_rid_theo_price None) (sample_event_params 0)
       (new_record_ctx, [''time'' \<mapsto> F_long 1600000000], \<lparr>event_counts = (\<lambda>_. 0), listener = []\<rparr>) = (Inr (), new_record_ctx, r1, ctx1)
     \<and> r1 ''time'' = Some (F_long (1600000000 * 1000))
     \<and> dx_transcode_record_data (\<lambda>_. True) (\<lambda>_. None) log_event (sample_params dx_rid_theo_price None) (sample_event_params 0)
       (new_record_ctx, r1, ctx1) = (Inr (), new_record_ctx, r2, ctx2)
     \<and> r2 ''time'' = Some (F_long (1600000000 * 1000000))"
  by (rule theo_time_scaled_twice) (simp_all add: sample_params_def)

end
