(* ===== verification/Spec2Isabelle.thy ===== *)
theory Spec2Isabelle
  imports Dx_Plb_Context Dx_Symbol_Stream Dx_Snapshot Dx_Protocol_Client Dx_Protocol_Server Dx_Transcoder_Spec
begin

text \<open>
  dxFeed C API: verification development.

  The program is a client library for a market data feed (\<open>src/\<close> and \<open>include/\<close> of the repository).
  A connection has one thread that reads from the server and one that writes to it; every part of the
  library keeps its state in a context of the connection.  The path of the data is:

  \<^item> The socket reader hands segments of bytes to \<open>dx_socket_data_receiver\<close> (\<open>ServerMessageProcessor.c\<close>),
    which collects them, cuts out the messages and calls a processor for each (\<open>Dx_Server\<close>,
    \<open>Dx_Server_Data\<close>): heartbeats (\<open>HeartbeatPayload.cpp\<close>, \<open>Dx_Heartbeat\<close>), the description of the
    protocol (\<open>Dx_Protocol\<close>, \<open>Dx_Protocol_Server\<close>) with the properties of the connection
    (\<open>DXProperties.c\<close>, \<open>Dx_Properties\<close>), descriptions of records (\<open>DataStructures.c\<close>, \<open>Dx_Fields\<close>,
    \<open>Dx_Records\<close>, \<open>Dx_Describe\<close>) and data messages (\<open>Dx_Data\<close>), whose fields are integers, strings and
    decimals (\<open>Decimal.c\<close>, \<open>WideDecimal.cpp\<close>, \<open>Dx_Decimal\<close>).
  \<^item> All of them read through \<open>BufferedInput.c\<close> (\<open>Dx_Input\<close>), and symbols through \<open>SymbolCodec.c\<close>
    (\<open>Dx_Symbol_Codec\<close>, \<open>Dx_Symbol_Stream\<close>).
  \<^item> The rows of a data message become events (\<open>RecordTranscoder.c\<close>, \<open>Dx_Transcoder\<close>; the objects of
    configuration events are strings in a format of their own, \<open>ConfigurationDeserializer.c\<close>,
    \<open>Dx_Configuration\<close>), which the subscriptions hand to listeners.  Two of those are parts of the
    library: the price level book (\<open>PriceLevelBook.c\<close>: \<open>Dx_Price_Levels\<close>, \<open>Dx_Plb_Source\<close>, \<open>Dx_Plb_Book\<close>,
    \<open>Dx_Plb_Context\<close>) and the snapshots (\<open>Snapshot.c\<close>: \<open>Dx_Snapshot_Records\<close>, \<open>Dx_Snapshot\<close>).
  \<^item> In the other direction the client composes messages (\<open>ClientMessageProcessor.c\<close>: \<open>Dx_Messages\<close>,
    \<open>Dx_Subscription\<close>, \<open>Dx_Protocol_Client\<close>) through \<open>BufferedOutput.c\<close> (\<open>Dx_Output\<close>).
  \<^item> Below all of this are the array macros of \<open>DXAlgorithms.h\<close> (\<open>Dx_Array\<close>) and the functions of
    \<open>BufferedIOCommon.c\<close> (\<open>Dx_IO_Common\<close>).
\<close>

section \<open>Conventions of the model\<close>

text \<open>
  \<^item> An operation with state is a function of type \<open>('s, 'a) io\<close>, from the state to a result and the new
    state (\<open>Dx_Prelude\<close>).  The result is \<open>Inl\<close> of the code that the C function passes to
    \<open>dx_set_error_code\<close> before it returns false, or \<open>Inr\<close> of what it returns through its \<open>OUT\<close>
    parameters; \<open>checked\<close> is the \<open>CHECKED_CALL\<close> macros.  \<open>Inl dx_ec_success\<close> is false without a code.
  \<^item> \<open>UB\<close> is not an error code of the program: it is the result of every step that the C standard leaves
    undefined (an access outside a block, a null or dangling pointer, an overflow of a signed number),
    and ends the computation.  Theorems that an operation is safe say that it never gives \<open>UB\<close>; the
    findings of the development are concrete runs that do.
  \<^item> \<open>mem\<close> decides which allocations succeed, by their size; theorems quantify over it, or fix it to
    \<open>\<lambda>_. True\<close> where they say that memory suffices.
  \<^item> Machine integers are words: \<open>byte\<close>, \<open>short16\<close>, \<open>int32\<close>, \<open>long64\<close>; positions, sizes and capacities,
    which the code keeps in \<open>int\<close> or \<open>size_t\<close>, are \<open>int\<close> or \<open>nat\<close> with the comparisons with \<open>INT_MAX\<close>
    that the code makes.  \<open>dxf_char_t\<close> is a 16-bit unit, as \<open>include/DXTypes.h\<close> documents it.  A C string
    is the list of its units without the terminator; where a buffer holds it, the terminator is there.
  \<^item> \<open>double\<close> is NaN or a rational number (\<open>dbl\<close> in \<open>Dx_Price_Levels\<close>): comparisons are those of the
    machine, sums are exact.  Rounding, infinities and the sign of zero are not modelled.
  \<^item> The arrays of the program are \<open>dx_array\<close>: the block with all its slots, the size and the recorded
    capacity, since several findings are about the difference between the three.
  \<^item> Mutexes are not modelled: each theorem is about the operations of one thread, in the order in which
    the locks serialise them.
\<close>

section \<open>The theories\<close>

text \<open>
  \<^item> \<open>Dx_Prelude\<close>: types, errors, the combinators and their simplification rules, blocks of memory
    (\<open>mem_copy\<close>, \<open>mem_store\<close>), bitwise equality of words.
  \<^item> \<open>Dx_Array\<close>: \<open>DX_ARRAY_INSERT\<close>, \<open>DX_ARRAY_DELETE\<close>, \<open>DX_ARRAY_RESERVE\<close>, both searches.  The locale
    \<open>capacity_manager\<close> states what insertion and deletion need of their capacity manager (interpreted by
    \<open>dx_capacity_manager_halfer\<close>), \<open>search_order\<close> what binary search needs of its comparator
    (interpreted by the numeric comparator, by the comparators of the price levels and orders, of the
    snapshot records and snapshots, and of the properties).
  \<^item> \<open>Dx_IO_Common\<close>, \<open>Dx_Output\<close>, \<open>Dx_Input\<close>: the primitives of the wire format.  \<open>sends n w bs\<close> says that
    the writer \<open>w\<close> appends the bytes \<open>bs\<close> and cannot fail when \<open>n\<close> bytes are free; \<open>receives r bs v\<close> that
    the reader \<open>r\<close> consumes \<open>bs\<close> and gives \<open>v\<close>.  \<open>Dx_Roundtrip\<close> has one lemma of each kind per pair of
    functions, \<open>Dx_Codec\<close> the locale \<open>stream_codec\<close> that makes codecs of such pairs, closed under
    lists, and its interpretations; \<open>Dx_Input_Safety\<close> shows that readers stay in their buffer on any
    input.
  \<^item> \<open>Dx_Symbol_Codec\<close>, \<open>Dx_Symbol_Stream\<close>: ciphers of symbol names and symbols on the wire.
  \<^item> \<open>Dx_Price_Levels\<close>: the levels of one side of one source; its abstraction is the map \<open>price_total\<close>
    from prices to the sum of the sizes of the orders.  \<open>Dx_Plb_Source\<close>: snapshot and levels of a source
    as functions of its events; the abstraction is the map from index to order.  \<open>Dx_Plb_Book\<close>: the
    merge of the sources of a book and the listeners.  \<open>Dx_Plb_Context\<close>: the open addressing table of
    sources, and the invariant of the whole context under any events.
  \<^item> \<open>Dx_Snapshot_Records\<close>: the three parallel arrays of a snapshot; the abstraction is a map from keys to
    records.  \<open>Dx_Snapshot\<close>: the state machine of snapshots and transactions, its listeners, and the
    registry of snapshots.
  \<^item> \<open>Dx_Messages\<close>: message types and the framing of messages; \<open>Dx_Subscription\<close>, \<open>Dx_Protocol_Client\<close>: two
    kinds of messages composed byte by byte; \<open>Dx_Heartbeat\<close>: heartbeats.
  \<^item> \<open>Dx_Server\<close>: the receive buffer and the loop over the messages.  \<open>stable r\<close> says that a reader that has
    succeeded gives the same with more bytes behind; from it and \<open>receives\<close> follows that a reader
    fails on a proper prefix of its input, which is why a message is processed exactly when its last
    byte has arrived (\<open>Dx_Server_Data\<close>).  The locales \<open>body_processor\<close> and \<open>defined_processor\<close> say what
    the loop needs of the processors of message bodies; heartbeats and the description of the protocol
    interpret them.
  \<^item> \<open>Dx_Properties\<close>: sorted arrays of strings as maps.  \<open>Dx_Protocol\<close>, \<open>Dx_Protocol_Server\<close>: the reader of
    descriptions (\<open>takes m bs h v h'\<close> is \<open>receives\<close> with a context \<open>h\<close>), the message masks and the
    state machine of the description with its timeout.
  \<^item> \<open>Dx_Fields\<close>, \<open>Dx_Records\<close>: the table of fields that the library knows (\<open>DataStructures.c\<close>,
    \<open>DataStructures.h\<close>), and the records of a connection with the digests that match the fields of the
    server with its own.  \<open>Dx_Decimal\<close>: compact and wide decimals as exact fractions.
  \<^item> \<open>Dx_Describe\<close>: reading of descriptions of records, digests of fields that are not supported and the
    defaults of fields that the server leaves out; \<open>Dx_Describe_Spec\<close>: what a description of a record
    does to the context, as a function of the description.
  \<^item> \<open>Dx_Data\<close>: data messages with the symbol, the record and its fields, and the rows of
    \<open>RecordBuffers.c\<close>.  \<open>Dx_Data_Records\<close>: a message whose bytes are those of a list of records is read
    as that list (\<open>receive\<close> is what one record does to the context).  \<open>Dx_Data_Safety\<close>: readers of any
    bytes stay in the message; the types of the members of a row; the lock of the records.
  \<^item> \<open>Dx_Configuration\<close>: the reader of the objects of configuration events, which inverts their encoding.
    \<open>Dx_Transcoder\<close>: one function per transcoder of rows, and their dispatch; \<open>Dx_Transcoder_Safety\<close>: a
    transcoder changes the rows only by values of the types of their members, and is defined on rows that
    have been filled by the readers; \<open>Dx_Transcoder_Spec\<close>: the members of the events as functions of the
    members of the rows, and the indices of orders.
\<close>

section \<open>Loops and fuel\<close>

text \<open>
  Loops are recursive functions; the ones whose recursion is not structural have a termination proof
  or fuel:

  \<^item> \<open>skip_loop\<close> (the second bytes of over-long compact numbers) runs 5 rounds at most, since each round
    of the loop consumes one of the two prefixes; \<open>read_symbol_loop\<close> 2 rounds, because a second marker
    of event flags is an error (\<open>symbol_reader_terminates\<close>).
  \<^item> \<open>probe\<close> and \<open>close_hole\<close> go around the table of sources once; the invariant of the table keeps a slot
    free, so both stop before.
  \<^item> \<open>process_messages\<close> has one round for each byte left in the buffer and one more; every round
    consumes at least the length of a message (\<open>server_data_safe\<close> shows that the fuel suffices).
  \<^item> The loops over the descriptions and over the records of a message have one round for each byte of
    the message and one more, since every round that does not fail consumes a byte
    (\<open>describe_records_total\<close>, \<open>process_records_total\<close>: they never run out of fuel).
\<close>

section \<open>Parameters\<close>

text \<open>
  The loop over the messages takes the processors of data messages and of descriptions as the fields of
  a record (\<open>handlers\<close>), as the code calls them through one switch; the theorems on the loop assume of
  them that they move the position inside the message only, and not that they succeed, and the
  interpretations of \<open>body_processor\<close> show it for the processors of the code.  The transcoder of the rows
  of a record (\<open>'e transcoder\<close>) is an argument of the processor of data messages, with the state \<open>'e\<close> of
  its own; it may fail and change its state in any way, and \<open>dx_transcode_record_data\<close> is an instance.
  That one has the consumer of the events (\<open>'e event_processor\<close>) as its parameter, and the conversion of
  multibyte strings of the standard library (\<open>mbsrtowcs\<close>), which depends on the locale.  The hash
  of symbols and \<open>processIncomingHeartbeatPayload\<close>, which computes statistics of the lag from the clock,
  are parameters as well.  The clock (\<open>dx_millisecond_timestamp\<close>) is an argument of the operations that
  read it.
\<close>

section \<open>Not modelled\<close>

text \<open>
  \<^item> The sockets, threads, timers, log and error bookkeeping (\<open>DXSockets.c\<close>, \<open>DXThreads.c\<close>, \<open>DXNetwork.c\<close>,
    \<open>Logger.c\<close>, \<open>DXErrorHandling.c\<close>, \<open>DXMemory.c\<close>, \<open>Linux.c\<close>, \<open>Win32.c\<close>): calls of the operating system.
  \<^item> The public functions of \<open>DXFeed.c\<close>: tests of arguments and calls of the parts below.
  \<^item> The subscriptions of \<open>EventSubscription.cpp\<close> (C++ containers, locks and callbacks of the user), candle
    symbols (\<open>Candle.c\<close>), addresses (\<open>DXAddressParser.c\<close>), the regional book (\<open>RegionalBook.c\<close>), the
    queue of tasks (\<open>TaskQueue.c\<close>).
  \<^item> Reading and writing of \<open>float\<close> and \<open>double\<close>: floating point.  Decimals are exact fractions, without
    the rounding of the last operation on \<open>double\<close>.
  \<^item> Samples, tests, wrappers for other languages, and the libraries under \<open>lib\<close> and \<open>thirdparty\<close>.
\<close>

end
